(* ===== verification/V8_Prelude.thy ===== *)
theory V8_Prelude
  imports Main "HOL-Library.Word"
begin

unbundle bit_operations_syntax

text \<open>
  Shared vocabulary of the development.  Bytes and the fixed-width integers of the Rust
  sources are words; \<open>usize\<close>, offsets and byte counts are \<open>nat\<close> on a 64-bit target, with
  every checked or saturating operation written out.  A \<open>Result<T, E>\<close> is a sum with the
  error on the left, a Rust \<open>String\<close> a list of Unicode scalar values.  The theory also models
  the few standard-library routines that the container and text layers share: little-endian
  integers, \<open>checked_add\<close> and friends, slices and chunks, hexadecimal formatting, UTF-16.
\<close>

section \<open>Types\<close>

type_synonym u8 = "8 word"
type_synonym u16 = "16 word"
type_synonym u32 = "32 word"
type_synonym u64 = "64 word"
type_synonym bytes = "8 word list"

text \<open>A Rust \<open>String\<close> as the list of its Unicode scalar values.\<close>

type_synonym ustr = "nat list"

abbreviation Ok :: "'a \<Rightarrow> 'e + 'a" where "Ok \<equiv> Inr"
abbreviation Err :: "'e \<Rightarrow> 'e + 'a" where "Err \<equiv> Inl"

abbreviation u32_max :: nat where "u32_max \<equiv> 2 ^ 32 - 1"
abbreviation u64_max :: nat where "u64_max \<equiv> 2 ^ 64 - 1"

named_theorems result_simps \<open>rewrite rules for the result type\<close>
named_theorems byte_simps \<open>lengths and contents of byte encodings\<close>

section \<open>Results\<close>

text \<open>The \<open>?\<close> operator: continue with the value, or return the error early.\<close>

definition try_res :: "'e + 'a \<Rightarrow> ('a \<Rightarrow> 'e + 'b) \<Rightarrow> 'e + 'b" where
  "try_res m f = (case m of Inl e \<Rightarrow> Inl e | Inr x \<Rightarrow> f x)"

text \<open>\<open>Result::map_err\<close>.\<close>

definition map_err :: "('e \<Rightarrow> 'f) \<Rightarrow> 'e + 'a \<Rightarrow> 'f + 'a" where
  "map_err g m = (case m of Inl e \<Rightarrow> Inl (g e) | Inr x \<Rightarrow> Inr x)"

text \<open>\<open>Option::ok_or\<close>.\<close>

definition ok_or :: "'a option \<Rightarrow> 'e \<Rightarrow> 'e + 'a" where
  "ok_or x e = (case x of None \<Rightarrow> Inl e | Some v \<Rightarrow> Inr v)"

lemma try_res_Inr [simp]: "try_res (Inr x) f = f x"
  by (simp add: try_res_def)

lemma try_res_Inl [simp]: "try_res (Inl e) f = Inl e"
  by (simp add: try_res_def)

lemma try_res_eq_Inr [result_simps]:
  "try_res m f = Inr y \<longleftrightarrow> (\<exists>x. m = Inr x \<and> f x = Inr y)"
  by (cases m) auto

lemma try_res_eq_Inl [result_simps]:
  "try_res m f = Inl e \<longleftrightarrow> m = Inl e \<or> (\<exists>x. m = Inr x \<and> f x = Inl e)"
  by (cases m) auto

lemma try_res_cong [fundef_cong]:
  "m = m' \<Longrightarrow> (\<And>x. m' = Inr x \<Longrightarrow> f x = f' x) \<Longrightarrow> try_res m f = try_res m' f'"
  by (cases m') auto

lemma map_err_Inr [simp]: "map_err g (Inr x) = Inr x"
  by (simp add: map_err_def)

lemma map_err_Inl [simp]: "map_err g (Inl e) = Inl (g e)"
  by (simp add: map_err_def)

lemma map_err_eq_Inr [result_simps]: "map_err g m = Inr y \<longleftrightarrow> m = Inr y"
  by (cases m) auto

lemma ok_or_simps [simp]: "ok_or None e = Inl e" "ok_or (Some v) e = Inr v"
  by (simp_all add: ok_or_def)

lemma ok_or_eq_Inr [result_simps]: "ok_or x e = Inr v \<longleftrightarrow> x = Some v"
  by (cases x) auto

lemma if_Err_eq_Inr [result_simps]:
  "(if c then Inl e else m) = Inr y \<longleftrightarrow> \<not> c \<and> m = Inr y"
  by simp

section \<open>Checked and saturating machine arithmetic\<close>

text \<open>\<open>u64::checked_add\<close>, \<open>u64::checked_mul\<close>, \<open>u64::saturating_add\<close>, \<open>u64::saturating_mul\<close>
  on the numbers the words stand for; \<open>usize\<close> has the same width on the modelled target.\<close>

definition checked_add64 :: "nat \<Rightarrow> nat \<Rightarrow> nat option" where
  "checked_add64 a b = (if a + b \<le> u64_max then Some (a + b) else None)"

definition checked_mul64 :: "nat \<Rightarrow> nat \<Rightarrow> nat option" where
  "checked_mul64 a b = (if a * b \<le> u64_max then Some (a * b) else None)"

definition saturating_add64 :: "nat \<Rightarrow> nat \<Rightarrow> nat" where
  "saturating_add64 a b = min (a + b) u64_max"

definition saturating_mul64 :: "nat \<Rightarrow> nat \<Rightarrow> nat" where
  "saturating_mul64 a b = min (a * b) u64_max"

lemma checked_add64_eq_Some [result_simps]:
  "checked_add64 a b = Some c \<longleftrightarrow> c = a + b \<and> a + b \<le> u64_max"
  by (auto simp: checked_add64_def)

lemma checked_mul64_eq_Some [result_simps]:
  "checked_mul64 a b = Some c \<longleftrightarrow> c = a * b \<and> a * b \<le> u64_max"
  by (auto simp: checked_mul64_def)

lemma unat_u32_le: "unat (w :: u32) \<le> u32_max"
proof -
  have "unat w < 2 ^ LENGTH(32)" by (rule unsigned_less)
  then show ?thesis by simp
qed

lemma unat_u64_le: "unat (w :: u64) \<le> u64_max"
proof -
  have "unat w < 2 ^ LENGTH(64)" by (rule unsigned_less)
  then show ?thesis by simp
qed

lemma unat_of_nat_u32: "n \<le> u32_max \<Longrightarrow> unat (word_of_nat n :: u32) = n"
  by (simp add: unsigned_of_nat take_bit_eq_mod)

lemma unat_of_nat_u64: "n \<le> u64_max \<Longrightarrow> unat (word_of_nat n :: u64) = n"
  by (simp add: unsigned_of_nat take_bit_eq_mod)

section \<open>Slices and chunks\<close>

text \<open>\<open>&bytes[a..b]\<close>, for \<open>a \<le> b \<le> bytes.len()\<close>.\<close>

definition slice :: "nat \<Rightarrow> nat \<Rightarrow> 'a list \<Rightarrow> 'a list" where
  "slice a b xs = take (b - a) (drop a xs)"

lemma length_slice [simp]: "length (slice a b xs) = min (b - a) (length xs - a)"
  by (simp add: slice_def)

lemma slice_append_mid:
  "length pre = a \<Longrightarrow> b = a + length mid \<Longrightarrow> slice a b (pre @ mid @ post) = mid"
  by (simp add: slice_def)

lemma slice_slice:
  "a + d \<le> b \<Longrightarrow> slice c d (slice a b xs) = slice (a + c) (a + d) xs"
  by (cases "c \<le> d") (auto simp: slice_def take_drop min_def add.commute)

text \<open>\<open>slice::as_chunks::<N>().0\<close> and \<open>chunks_exact(n)\<close>: the full chunks, the rest dropped;
  \<open>chunks(n)\<close> keeps a shorter last chunk.\<close>

function chunks_exact :: "nat \<Rightarrow> 'a list \<Rightarrow> 'a list list" where
  "chunks_exact n xs =
     (if n = 0 \<or> length xs < n then [] else take n xs # chunks_exact n (drop n xs))"
  by pat_completeness auto
termination
  by (relation "measure (\<lambda>(n, xs). length xs)") auto

function chunks :: "nat \<Rightarrow> 'a list \<Rightarrow> 'a list list" where
  "chunks n xs = (if n = 0 \<or> xs = [] then [] else take n xs # chunks n (drop n xs))"
  by pat_completeness auto
termination
  by (relation "measure (\<lambda>(n, xs). length xs)") auto

declare chunks_exact.simps [simp del] chunks.simps [simp del]

lemma chunks_exact_short [simp]: "length xs < n \<Longrightarrow> chunks_exact n xs = []"
  by (subst chunks_exact.simps) simp

lemma chunks_exact_append:
  "length x = n \<Longrightarrow> 0 < n \<Longrightarrow> chunks_exact n (x @ xs) = x # chunks_exact n xs"
  by (subst chunks_exact.simps) simp

lemma chunks_exact_concat:
  assumes "0 < n" and "\<forall>x \<in> set xss. length x = n"
  shows "chunks_exact n (concat xss) = xss"
  using assms(2) by (induction xss) (simp_all add: chunks_exact_append assms(1))

lemma chunks_Nil [simp]: "chunks n [] = []"
  by (subst chunks.simps) simp

lemma chunks_nonempty: "0 < n \<Longrightarrow> xs \<noteq> [] \<Longrightarrow> chunks n xs = take n xs # chunks n (drop n xs)"
  by (subst chunks.simps) simp

lemma concat_chunks: "0 < n \<Longrightarrow> concat (chunks n xs) = xs"
proof (induction n xs rule: chunks.induct)
  case (1 n xs)
  then show ?case by (cases "xs = []") (simp_all add: chunks_nonempty)
qed

lemma length_chunk: "c \<in> set (chunks n xs) \<Longrightarrow> 0 < length c \<and> length c \<le> n"
proof (induction n xs rule: chunks.induct)
  case (1 n xs)
  then show ?case
    by (subst (asm) (2) chunks.simps) (auto split: if_splits)
qed

end
