(* ===== verification/Resource_Limits.thy ===== *)
theory Resource_Limits
  imports V8_Prelude
begin

text \<open>
  \<open>crates/ibcmd-core/src/limits.rs\<close>: the resource limits of container traversal and the
  budget that accounts one traversal against them.  The \<open>u64\<close> and \<open>usize\<close> counters are
  natural numbers with the checked and saturating operations of the source written out.
\<close>

section \<open>Limits\<close>

record resource_limits =
  max_depth :: nat
  max_entries :: nat
  max_encoded_bytes :: nat
  max_decoded_bytes :: nat
  max_compression_ratio :: nat
  max_retained_bytes :: nat

datatype resource_limit_error =
    InvalidZero string
  | DepthExceeded (depth_maximum: nat) (depth_actual: nat)
  | DepthUnderflow
  | EntryCountExceeded (entry_maximum: nat) (entry_actual: nat)
  | EncodedBytesExceeded (encoded_maximum: nat) (encoded_actual: nat)
  | DecodedBytesExceeded (decoded_maximum: nat) (decoded_actual: nat)
  | CompressionRatioExceeded (ratio_maximum: nat) (ratio_encoded: nat) (ratio_decoded: nat)

definition DEFAULT_MAX_CONTAINER_DEPTH :: nat where "DEFAULT_MAX_CONTAINER_DEPTH = 128"
definition DEFAULT_MAX_CONTAINER_ENTRIES :: nat where "DEFAULT_MAX_CONTAINER_ENTRIES = 1000000"
definition DEFAULT_MAX_ENCODED_BYTES :: nat where "DEFAULT_MAX_ENCODED_BYTES = 512 * 1048576"
definition DEFAULT_MAX_DECODED_BYTES :: nat where "DEFAULT_MAX_DECODED_BYTES = 512 * 1048576"
definition DEFAULT_MAX_RETAINED_BYTES :: nat where "DEFAULT_MAX_RETAINED_BYTES = 512 * 1048576"
definition DEFAULT_MAX_COMPRESSION_RATIO :: nat where "DEFAULT_MAX_COMPRESSION_RATIO = 200"
definition MAX_AGGREGATE_EXPANSION :: nat where "MAX_AGGREGATE_EXPANSION = 4"

lemmas limit_constants =
  DEFAULT_MAX_CONTAINER_DEPTH_def DEFAULT_MAX_CONTAINER_ENTRIES_def
  DEFAULT_MAX_ENCODED_BYTES_def DEFAULT_MAX_DECODED_BYTES_def DEFAULT_MAX_RETAINED_BYTES_def
  DEFAULT_MAX_COMPRESSION_RATIO_def MAX_AGGREGATE_EXPANSION_def

text \<open>The \<open>for\<close> loop of \<open>ResourceLimits::new\<close>: the first zero is reported by name.\<close>

fun first_zero :: "(string \<times> nat) list \<Rightarrow> string option" where
  "first_zero [] = None"
| "first_zero ((name, value) # rest) = (if value = 0 then Some name else first_zero rest)"

definition limits_new ::
  "nat \<Rightarrow> nat \<Rightarrow> nat \<Rightarrow> nat \<Rightarrow> nat \<Rightarrow> resource_limit_error + resource_limits" where
  "limits_new depth entries encoded decoded ratio =
     (case first_zero
        [(''max_depth'', depth), (''max_entries'', entries), (''max_encoded_bytes'', encoded),
         (''max_decoded_bytes'', decoded), (''max_compression_ratio'', ratio)] of
        Some name \<Rightarrow> Err (InvalidZero name)
      | None \<Rightarrow> Ok \<lparr>max_depth = depth, max_entries = entries, max_encoded_bytes = encoded,
                   max_decoded_bytes = decoded, max_compression_ratio = ratio,
                   max_retained_bytes = DEFAULT_MAX_RETAINED_BYTES\<rparr>)"

definition for_input_bytes :: "nat \<Rightarrow> resource_limits" where
  "for_input_bytes input_len =
     (let encoded = (if input_len > DEFAULT_MAX_ENCODED_BYTES then input_len
                     else DEFAULT_MAX_ENCODED_BYTES);
          scaled_decoded = saturating_mul64 input_len MAX_AGGREGATE_EXPANSION;
          decoded = (if scaled_decoded > DEFAULT_MAX_DECODED_BYTES then scaled_decoded
                     else DEFAULT_MAX_DECODED_BYTES);
          scaled_retained = saturating_add64 input_len scaled_decoded;
          retained = (if scaled_retained > DEFAULT_MAX_RETAINED_BYTES then scaled_retained
                      else DEFAULT_MAX_RETAINED_BYTES)
      in \<lparr>max_depth = DEFAULT_MAX_CONTAINER_DEPTH, max_entries = DEFAULT_MAX_CONTAINER_ENTRIES,
          max_encoded_bytes = encoded, max_decoded_bytes = decoded,
          max_compression_ratio = DEFAULT_MAX_COMPRESSION_RATIO, max_retained_bytes = retained\<rparr>)"

definition with_max_retained_bytes ::
  "resource_limits \<Rightarrow> nat \<Rightarrow> resource_limit_error + resource_limits" where
  "with_max_retained_bytes l retained =
     (if retained = 0 then Err (InvalidZero ''max_retained_bytes'')
      else Ok (l\<lparr>max_retained_bytes := retained\<rparr>))"

definition default_limits :: resource_limits where
  "default_limits =
     \<lparr>max_depth = DEFAULT_MAX_CONTAINER_DEPTH, max_entries = DEFAULT_MAX_CONTAINER_ENTRIES,
      max_encoded_bytes = DEFAULT_MAX_ENCODED_BYTES, max_decoded_bytes = DEFAULT_MAX_DECODED_BYTES,
      max_compression_ratio = DEFAULT_MAX_COMPRESSION_RATIO,
      max_retained_bytes = DEFAULT_MAX_RETAINED_BYTES\<rparr>"

section \<open>Budget\<close>

record resource_budget =
  limits :: resource_limits
  depth :: nat
  entries :: nat
  encoded_bytes :: nat
  decoded_bytes :: nat

definition budget_new :: "resource_limits \<Rightarrow> resource_budget" where
  "budget_new l = \<lparr>limits = l, depth = 0, entries = 0, encoded_bytes = 0, decoded_bytes = 0\<rparr>"

definition remaining_encoded_bytes :: "resource_budget \<Rightarrow> nat" where
  "remaining_encoded_bytes b = max_encoded_bytes (limits b) - encoded_bytes b"

definition remaining_decoded_bytes :: "resource_budget \<Rightarrow> nat" where
  "remaining_decoded_bytes b = max_decoded_bytes (limits b) - decoded_bytes b"

text \<open>
  The methods take \<open>&mut self\<close>: each returns its result together with the budget as it leaves
  it, on an error too, so that a field assigned before a failing check would show.  \<open>or_leave\<close>
  is the \<open>?\<close> operator at a point where the budget is \<open>b\<close>.
\<close>

type_synonym budget_outcome = "(resource_limit_error + unit) \<times> resource_budget"

definition or_leave ::
  "resource_limit_error + 'a \<Rightarrow> resource_budget \<Rightarrow> ('a \<Rightarrow> budget_outcome) \<Rightarrow> budget_outcome" where
  "or_leave m b f = (case m of Inl e \<Rightarrow> (Err e, b) | Inr x \<Rightarrow> f x)"

lemma or_leave_simps [simp]: "or_leave (Inl e) b f = (Err e, b)" "or_leave (Inr x) b f = f x"
  by (simp_all add: or_leave_def)

definition enter_container :: "resource_budget \<Rightarrow> budget_outcome" where
  "enter_container b =
     or_leave (ok_or (checked_add64 (depth b) 1) (DepthExceeded (max_depth (limits b)) u64_max)) b
       (\<lambda>actual.
          if actual > max_depth (limits b)
          then (Err (DepthExceeded (max_depth (limits b)) actual), b)
          else (Ok (), b\<lparr>depth := actual\<rparr>))"

definition leave_container :: "resource_budget \<Rightarrow> budget_outcome" where
  "leave_container b =
     (if depth b = 0 then (Err DepthUnderflow, b) else (Ok (), b\<lparr>depth := depth b - 1\<rparr>))"

definition ensure_compression_ratio :: "nat \<Rightarrow> nat \<Rightarrow> nat \<Rightarrow> resource_limit_error + unit" where
  "ensure_compression_ratio encoded decoded maximum =
     (let allowed = saturating_mul64 encoded maximum
      in if decoded > allowed then Err (CompressionRatioExceeded maximum encoded decoded)
         else Ok ())"

definition record_payload :: "resource_budget \<Rightarrow> nat \<Rightarrow> nat \<Rightarrow> bool \<Rightarrow> budget_outcome" where
  "record_payload b encoded decoded compressed =
     (let l = limits b in
      or_leave (ok_or (checked_add64 (entries b) 1) (EntryCountExceeded (max_entries l) u64_max)) b
      (\<lambda>n. if n > max_entries l then (Err (EntryCountExceeded (max_entries l) n), b) else
      or_leave (ok_or (checked_add64 (encoded_bytes b) encoded)
                 (EncodedBytesExceeded (max_encoded_bytes l) u64_max)) b
      (\<lambda>e. if e > max_encoded_bytes l
            then (Err (EncodedBytesExceeded (max_encoded_bytes l) e), b) else
      or_leave (ok_or (checked_add64 (decoded_bytes b) decoded)
                 (DecodedBytesExceeded (max_decoded_bytes l) u64_max)) b
      (\<lambda>d. if d > max_decoded_bytes l
            then (Err (DecodedBytesExceeded (max_decoded_bytes l) d), b) else
      or_leave (if compressed then ensure_compression_ratio encoded decoded (max_compression_ratio l)
                else Ok ()) b
      (\<lambda>_. let b1 = b\<lparr>entries := n\<rparr>; b2 = b1\<lparr>encoded_bytes := e\<rparr>; b3 = b2\<lparr>decoded_bytes := d\<rparr>
            in (Ok (), b3))))))"

section \<open>Runs of a budget\<close>

text \<open>
  A traversal calls the three methods in any order and goes on, or not, after an error:
  \<open>run_budget\<close> applies a list of calls to one budget and keeps every result.
\<close>

datatype budget_op = Enter | Leave | Payload nat nat bool

fun apply_budget_op :: "resource_budget \<Rightarrow> budget_op \<Rightarrow> budget_outcome" where
  "apply_budget_op b Enter = enter_container b"
| "apply_budget_op b Leave = leave_container b"
| "apply_budget_op b (Payload e d c) = record_payload b e d c"

fun run_budget ::
  "resource_budget \<Rightarrow> budget_op list \<Rightarrow> (resource_limit_error + unit) list \<times> resource_budget" where
  "run_budget b [] = ([], b)"
| "run_budget b (op # ops) =
     (let (r, b1) = apply_budget_op b op; (rs, b2) = run_budget b1 ops in (r # rs, b2))"

lemma run_budget_snoc:
  "run_budget b (ops @ [op]) =
     (fst (run_budget b ops) @ [fst (apply_budget_op (snd (run_budget b ops)) op)],
      snd (apply_budget_op (snd (run_budget b ops)) op))"
  by (induction ops arbitrary: b) (auto simp: split_beta Let_def)

lemma length_run_budget [simp]: "length (fst (run_budget b ops)) = length ops"
  by (induction ops arbitrary: b) (auto simp: split_beta Let_def)

text \<open>The calls that returned \<open>Ok\<close>, and what they amount to: no budget is involved.\<close>

definition accepted :: "budget_op list \<Rightarrow> (resource_limit_error + unit) list \<Rightarrow> budget_op list" where
  "accepted ops rs = map fst (filter (\<lambda>(op, r). r = Ok ()) (zip ops rs))"

definition enters :: "budget_op list \<Rightarrow> nat" where
  "enters ops = length (filter (\<lambda>op. op = Enter) ops)"

definition leaves :: "budget_op list \<Rightarrow> nat" where
  "leaves ops = length (filter (\<lambda>op. op = Leave) ops)"

fun payload_encoded :: "budget_op \<Rightarrow> nat" where
  "payload_encoded (Payload e d c) = e"
| "payload_encoded _ = 0"

fun payload_decoded :: "budget_op \<Rightarrow> nat" where
  "payload_decoded (Payload e d c) = d"
| "payload_decoded _ = 0"

fun is_payload :: "budget_op \<Rightarrow> bool" where
  "is_payload (Payload e d c) = True"
| "is_payload _ = False"

definition payloads :: "budget_op list \<Rightarrow> nat" where
  "payloads ops = length (filter is_payload ops)"

definition encoded_sum :: "budget_op list \<Rightarrow> nat" where
  "encoded_sum ops = sum_list (map payload_encoded ops)"

definition decoded_sum :: "budget_op list \<Rightarrow> nat" where
  "decoded_sum ops = sum_list (map payload_decoded ops)"

lemmas budget_sums = enters_def leaves_def payloads_def encoded_sum_def decoded_sum_def

text \<open>
  When a call has to be accepted, said of the calls accepted before it and of the limits alone:
  nothing here saturates or overflows.
\<close>

fun admissible :: "resource_limits \<Rightarrow> budget_op list \<Rightarrow> budget_op \<Rightarrow> bool" where
  "admissible l before Enter \<longleftrightarrow> enters before + 1 \<le> leaves before + max_depth l"
| "admissible l before Leave \<longleftrightarrow> leaves before < enters before"
| "admissible l before (Payload e d c) \<longleftrightarrow>
     payloads before + 1 \<le> max_entries l \<and>
     encoded_sum before + e \<le> max_encoded_bytes l \<and>
     decoded_sum before + d \<le> max_decoded_bytes l \<and>
     (c \<longrightarrow> d \<le> e * max_compression_ratio l)"

text \<open>The limits are 64-bit numbers.\<close>

definition limits_fit :: "resource_limits \<Rightarrow> bool" where
  "limits_fit l \<longleftrightarrow> max_depth l \<le> u64_max \<and> max_entries l \<le> u64_max \<and>
     max_encoded_bytes l \<le> u64_max \<and> max_decoded_bytes l \<le> u64_max"

definition within_limits :: "resource_budget \<Rightarrow> bool" where
  "within_limits b \<longleftrightarrow>
     depth b \<le> max_depth (limits b) \<and> entries b \<le> max_entries (limits b) \<and>
     encoded_bytes b \<le> max_encoded_bytes (limits b) \<and>
     decoded_bytes b \<le> max_decoded_bytes (limits b)"

text \<open>The budget after the accepted calls \<open>acc\<close>: every counter is their total.\<close>

definition accounts :: "resource_limits \<Rightarrow> budget_op list \<Rightarrow> resource_budget \<Rightarrow> bool" where
  "accounts l acc b \<longleftrightarrow> limits b = l \<and> depth b + leaves acc = enters acc \<and>
     entries b = payloads acc \<and> encoded_bytes b = encoded_sum acc \<and>
     decoded_bytes b = decoded_sum acc \<and> within_limits b"

lemma accounts_new: "accounts l [] (budget_new l)"
  by (simp add: accounts_def budget_new_def budget_sums within_limits_def)

lemma ratio_check_exact:
  "decoded \<le> u64_max \<Longrightarrow>
     ensure_compression_ratio encoded decoded maximum = Ok () \<longleftrightarrow> decoded \<le> encoded * maximum"
  by (auto simp: ensure_compression_ratio_def saturating_mul64_def Let_def min_def)

lemma ratio_check_cases:
  "(\<exists>e. ensure_compression_ratio encoded decoded maximum = Err e) \<or>
     ensure_compression_ratio encoded decoded maximum = Ok ()"
  by (simp add: ensure_compression_ratio_def Let_def)

text \<open>One call: accepted exactly when admissible, it counts; refused, it leaves the budget.\<close>

lemma enter_outcome:
  assumes "accounts l acc b" and "limits_fit l"
  shows "if admissible l acc Enter then enter_container b = (Ok (), b\<lparr>depth := depth b + 1\<rparr>)
         else \<exists>e. enter_container b = (Err e, b)"
  using assms
  by (auto simp: enter_container_def accounts_def limits_fit_def checked_add64_def)

lemma leave_outcome:
  assumes "accounts l acc b"
  shows "if admissible l acc Leave then leave_container b = (Ok (), b\<lparr>depth := depth b - 1\<rparr>)
         else \<exists>e. leave_container b = (Err e, b)"
  using assms by (auto simp: leave_container_def accounts_def)

lemma payload_outcome:
  assumes "accounts l acc b" and "limits_fit l"
  shows "if admissible l acc (Payload e d c)
         then record_payload b e d c =
           (Ok (), b\<lparr>entries := entries b + 1, encoded_bytes := encoded_bytes b + e,
                     decoded_bytes := decoded_bytes b + d\<rparr>)
         else \<exists>err. record_payload b e d c = (Err err, b)"
  using assms ratio_check_exact [of d e "max_compression_ratio l"]
    ratio_check_cases [of e d "max_compression_ratio l"]
  by (auto simp: record_payload_def accounts_def limits_fit_def checked_add64_def Let_def
      simp del: One_nat_def)

lemma apply_outcome:
  assumes "accounts l acc b" and "limits_fit l"
  obtains (ok) b' where "admissible l acc op" "apply_budget_op b op = (Ok (), b')"
      "accounts l (acc @ [op]) b'"
    | (err) e where "\<not> admissible l acc op" "apply_budget_op b op = (Err e, b)"
proof (cases "admissible l acc op")
  case adm: True
  have "\<exists>b'. apply_budget_op b op = (Ok (), b') \<and> accounts l (acc @ [op]) b'"
  proof (cases op)
    case Enter
    then show ?thesis
      using assms adm enter_outcome [OF assms]
      by (auto simp: accounts_def budget_sums within_limits_def)
  next
    case Leave
    then show ?thesis
      using assms adm leave_outcome [OF assms(1)]
      by (auto simp: accounts_def budget_sums within_limits_def)
  next
    case (Payload e d c)
    then show ?thesis
      using assms adm payload_outcome [OF assms, of e d c]
      by (auto simp: accounts_def budget_sums within_limits_def)
  qed
  then show ?thesis using ok adm by blast
next
  case False
  have "\<exists>e. apply_budget_op b op = (Err e, b)"
  proof (cases op)
    case Enter
    then show ?thesis using False enter_outcome [OF assms] by auto
  next
    case Leave
    then show ?thesis using False leave_outcome [OF assms(1)] by auto
  next
    case (Payload e d c)
    then show ?thesis using False payload_outcome [OF assms, of e d c] by auto
  qed
  then show ?thesis using err False by blast
qed

lemma accepted_snoc:
  "length ops = length rs \<Longrightarrow>
     accepted (ops @ [op]) (rs @ [r]) = accepted ops rs @ (if r = Ok () then [op] else [])"
  by (simp add: accepted_def)

lemma run_budget_accounts:
  assumes "limits_fit l"
  shows "accounts l (accepted ops (fst (run_budget (budget_new l) ops)))
           (snd (run_budget (budget_new l) ops))"
proof (induction ops rule: rev_induct)
  case Nil
  show ?case by (simp add: accepted_def accounts_new)
next
  case (snoc op ops)
  show ?case
    by (rule apply_outcome [OF snoc assms, of op])
      (use snoc in \<open>simp_all add: run_budget_snoc accepted_snoc\<close>)
qed

lemma run_budget_prefix: "fst (run_budget b (take i ops)) = take i (fst (run_budget b ops))"
proof (induction ops arbitrary: b i)
  case (Cons op ops)
  then show ?case by (cases i) (auto simp: split_beta Let_def)
qed simp

lemma run_budget_result:
  assumes "limits_fit l" and "i < length ops"
  shows "fst (run_budget (budget_new l) ops) ! i = Ok () \<longleftrightarrow>
    admissible l (accepted (take i ops) (take i (fst (run_budget (budget_new l) ops)))) (ops ! i)"
proof -
  let ?run = "run_budget (budget_new l)"
  have split: "take (Suc i) ops = take i ops @ [ops ! i]"
    using assms(2) by (rule take_Suc_conv_app_nth)
  have "fst (?run ops) ! i = fst (?run (take (Suc i) ops)) ! i"
    by (simp add: run_budget_prefix)
  also have "\<dots> = fst (apply_budget_op (snd (?run (take i ops))) (ops ! i))"
    using assms(2) by (simp add: split run_budget_snoc nth_append)
  finally have result: "fst (?run ops) ! i = \<dots>" .
  show ?thesis
    by (rule apply_outcome [OF run_budget_accounts [OF assms(1), of "take i ops"] assms(1),
          of "ops ! i"]) (simp_all add: result run_budget_prefix)
qed

section \<open>Properties\<close>

text \<open>C16: for any list of enter, leave and payload calls on a new budget whose limits are
  64-bit numbers, each call going on from what the call before it left, refused calls included:
  a call is accepted exactly when the calls accepted before it leave room for it (an enter below
  the maximum depth, a leave inside a container, a payload within the entry count, within both
  byte totals and, when compressed, within the ratio); the depth is the number of accepted
  enters less the number of accepted leaves, the entry count and the byte totals are those of
  the accepted payloads, what remains is the limit less these totals, and no counter passes its
  limit.  So a refused call, at whatever check it fails, consumes nothing.\<close>

theorem budget_accounts_exactly:
  assumes "limits_fit l"
  shows "case run_budget (budget_new l) ops of (rs, b) \<Rightarrow>
    length rs = length ops \<and>
    (\<forall>i<length ops. rs ! i = Ok () \<longleftrightarrow>
       admissible l (accepted (take i ops) (take i rs)) (ops ! i)) \<and>
    limits b = l \<and> within_limits b \<and>
    depth b + leaves (accepted ops rs) = enters (accepted ops rs) \<and>
    entries b = payloads (accepted ops rs) \<and>
    encoded_bytes b = encoded_sum (accepted ops rs) \<and>
    decoded_bytes b = decoded_sum (accepted ops rs) \<and>
    remaining_encoded_bytes b + encoded_sum (accepted ops rs) = max_encoded_bytes l \<and>
    remaining_decoded_bytes b + decoded_sum (accepted ops rs) = max_decoded_bytes l"
  using run_budget_accounts [OF assms, of ops] run_budget_result [OF assms, of _ ops]
  by (auto simp: split_beta accounts_def within_limits_def remaining_encoded_bytes_def
      remaining_decoded_bytes_def)

definition small_limits :: resource_limits where
  "small_limits = \<lparr>max_depth = 1, max_entries = 2, max_encoded_bytes = 10, max_decoded_bytes = 30,
     max_compression_ratio = 4, max_retained_bytes = 40\<rparr>"

text \<open>At limits of one level and four bytes out for one in: the second enter, the leave of an
  empty path and the payload that expands fivefold are refused.\<close>

theorem budget_accounts_exactly_witness:
  "(\<exists>rs b. run_budget (budget_new small_limits)
       [Enter, Enter, Leave, Leave, Payload 4 20 True, Payload 4 16 True] = (rs, b) \<and>
     map (\<lambda>r. r = Ok ()) rs = [True, False, True, False, False, True] \<and>
     depth b = 0 \<and> entries b = 1 \<and> encoded_bytes b = 4 \<and> decoded_bytes b = 16) \<and>
   encoded_bytes (snd (run_budget (budget_new small_limits) [Payload 4 20 True])) =
     encoded_sum (accepted [Payload 4 20 True]
       (fst (run_budget (budget_new small_limits) [Payload 4 20 True])))"
proof -
  have fit: "limits_fit small_limits" by (simp add: limits_fit_def small_limits_def)
  show ?thesis
    using budget_accounts_exactly [OF fit, of "[Payload 4 20 True]"]
    by (simp add: split_beta run_budget.simps budget_new_def small_limits_def enter_container_def
        leave_container_def record_payload_def ensure_compression_ratio_def saturating_mul64_def
        checked_add64_def Let_def)
qed

text \<open>the compression-ratio check is exact on 64-bit sizes although its product saturates:
  it accepts exactly when the decoded size is at most the encoded size times the maximum ratio.\<close>

theorem compression_ratio_exact:
  assumes "decoded \<le> u64_max"
  shows "ensure_compression_ratio encoded decoded maximum = Ok () \<longleftrightarrow> decoded \<le> encoded * maximum"
  using assms by (rule ratio_check_exact)

theorem compression_ratio_exact_witness:
  "ensure_compression_ratio (2 ^ 63) (2 ^ 64 - 1) 200 = Ok ()"
  using compression_ratio_exact [of "2 ^ 64 - 1" "2 ^ 63" 200] by simp

text \<open>the limits derived from an input's length never go below the defaults, admit every
  byte of the input, hold the aggregate expansion to four times the input above the floor, and
  retain no more than what may be read plus what may be decoded; depth, entry count and ratio
  stay at their fixed values.\<close>

theorem for_input_bytes_bounds:
  assumes "n \<le> u64_max"
  shows "n \<le> max_encoded_bytes (for_input_bytes n) \<and>
    max_encoded_bytes default_limits \<le> max_encoded_bytes (for_input_bytes n) \<and>
    max_decoded_bytes default_limits \<le> max_decoded_bytes (for_input_bytes n) \<and>
    max_decoded_bytes (for_input_bytes n) \<le> max (4 * n) (max_decoded_bytes default_limits) \<and>
    max_retained_bytes default_limits \<le> max_retained_bytes (for_input_bytes n) \<and>
    max_retained_bytes (for_input_bytes n)
      \<le> max_encoded_bytes (for_input_bytes n) + max_decoded_bytes (for_input_bytes n) \<and>
    max_encoded_bytes (for_input_bytes n) \<le> u64_max \<and>
    max_decoded_bytes (for_input_bytes n) \<le> u64_max \<and>
    max_retained_bytes (for_input_bytes n) \<le> u64_max \<and>
    max_depth (for_input_bytes n) = max_depth default_limits \<and>
    max_entries (for_input_bytes n) = max_entries default_limits \<and>
    max_compression_ratio (for_input_bytes n) = max_compression_ratio default_limits"
  using assms
  by (auto simp: for_input_bytes_def default_limits_def limit_constants Let_def
      saturating_mul64_def saturating_add64_def)

theorem for_input_bytes_bounds_witness:
  "952706664 \<le> max_encoded_bytes (for_input_bytes 952706664)"
proof -
  have "(952706664 :: nat) \<le> u64_max" by simp
  from for_input_bytes_bounds [OF this] show ?thesis by (rule conjunct1)
qed

end
