(* ===== verification/V8_Codec.thy ===== *)
theory V8_Codec
  imports V8_Prelude
begin

text \<open>
  The encodings of the standard library that every container layer reads and writes:
  \<open>to_le_bytes\<close> and \<open>from_le_bytes\<close>, the \<open>{:08x}\<close> and \<open>{:016x}\<close> formats, and the UTF-16
  conversions of \<open>String\<close>.  For each of them the decoder inverts the encoder.
\<close>

section \<open>Little-endian integers\<close>

definition to_le_bytes :: "nat \<Rightarrow> 'w::len word \<Rightarrow> bytes" where
  "to_le_bytes n w = map (\<lambda>i. ucast (drop_bit (8 * i) w)) [0..<n]"

primrec from_le_bytes :: "bytes \<Rightarrow> 'w::len word" where
  "from_le_bytes [] = 0"
| "from_le_bytes (b # bs) = ucast b OR push_bit 8 (from_le_bytes bs)"

lemma length_to_le_bytes [simp, byte_simps]: "length (to_le_bytes n w) = n"
  by (simp add: to_le_bytes_def)

lemma bit_from_le_bytes:
  "bit (from_le_bytes bs :: 'w::len word) k \<longleftrightarrow>
     k < LENGTH('w) \<and> k div 8 < length bs \<and> bit (bs ! (k div 8)) (k mod 8)"
proof (induction bs arbitrary: k)
  case Nil
  then show ?case by simp
next
  case (Cons b bs)
  show ?case
  proof (cases "k < 8")
    case True
    then show ?thesis by (auto simp: bit_simps)
  next
    case False
    then have k: "k div 8 = Suc ((k - 8) div 8)" "k mod 8 = (k - 8) mod 8"
      by (simp_all add: div_if mod_if)
    have "\<not> bit b k"
      using False bit_imp_le_length [of b k] by auto
    then show ?thesis
      using False Cons.IH [of "k - 8"] by (auto simp: bit_simps k)
  qed
qed

lemma from_to_le_bytes:
  assumes "8 * n = LENGTH('w)"
  shows "from_le_bytes (to_le_bytes n (w :: 'w::len word)) = w"
proof (rule bit_eqI)
  fix k assume k: "possible_bit TYPE('w word) k"
  then have "k < LENGTH('w)" by (simp add: possible_bit_word)
  then have "k div 8 < n" using assms by auto
  moreover have "8 * (k div 8) + k mod 8 = k" by simp
  ultimately show "bit (from_le_bytes (to_le_bytes n w) :: 'w word) k \<longleftrightarrow> bit w k"
    using \<open>k < LENGTH('w)\<close>
    by (auto simp: bit_from_le_bytes to_le_bytes_def bit_simps)
qed

lemma from_to_le_u16 [simp]: "from_le_bytes (to_le_bytes 2 (w :: u16)) = w"
  by (rule from_to_le_bytes) simp

lemma from_to_le_u32 [simp]: "from_le_bytes (to_le_bytes 4 (w :: u32)) = w"
  by (rule from_to_le_bytes) simp

lemma from_to_le_u64 [simp]: "from_le_bytes (to_le_bytes 8 (w :: u64)) = w"
  by (rule from_to_le_bytes) simp

section \<open>Hexadecimal formatting\<close>

text \<open>\<open>{n:0width$x}\<close>: lower-case digits, most significant first, padded with zeros.\<close>

definition hex_char :: "nat \<Rightarrow> u8" where
  "hex_char d = (if d < 10 then 48 + of_nat d else 87 + of_nat d)"

fun hex_digits :: "nat \<Rightarrow> bytes" where
  "hex_digits n = (if n < 16 then [hex_char n] else hex_digits (n div 16) @ [hex_char (n mod 16)])"

declare hex_digits.simps [simp del]

definition format_hex :: "nat \<Rightarrow> nat \<Rightarrow> bytes" where
  "format_hex width n = (let ds = hex_digits n in replicate (width - length ds) 48 @ ds)"

lemma length_hex_digits: "n < 16 ^ Suc k \<Longrightarrow> length (hex_digits n) \<le> Suc k"
proof (induction k arbitrary: n)
  case 0
  then show ?case by (subst hex_digits.simps) simp
next
  case (Suc k)
  show ?case
  proof (cases "n < 16")
    case True
    then show ?thesis by (subst hex_digits.simps) simp
  next
    case False
    have "n div 16 < 16 ^ Suc k" using Suc.prems by (simp add: less_mult_imp_div_less)
    then have "length (hex_digits (n div 16)) \<le> Suc k" by (rule Suc.IH)
    with False show ?thesis by (subst hex_digits.simps) simp
  qed
qed

lemma length_format_hex [byte_simps]:
  "0 < width \<Longrightarrow> n < 16 ^ width \<Longrightarrow> length (format_hex width n) = width"
  using length_hex_digits [of n "width - 1"] by (simp add: format_hex_def Let_def)

section \<open>UTF-16\<close>

text \<open>\<open>char::encode_utf16\<close> and \<open>String::from_utf16\<close>: a scalar above \<open>0xFFFF\<close> is a surrogate
  pair, and an unpaired surrogate is an error.\<close>

definition is_scalar :: "nat \<Rightarrow> bool" where
  "is_scalar c \<longleftrightarrow> c < 0xD800 \<or> (0xE000 \<le> c \<and> c < 0x110000)"

definition encode_utf16_char :: "nat \<Rightarrow> u16 list" where
  "encode_utf16_char c =
     (if c < 0x10000 then [of_nat c]
      else [of_nat (0xD800 + (c - 0x10000) div 0x400), of_nat (0xDC00 + (c - 0x10000) mod 0x400)])"

definition encode_utf16 :: "ustr \<Rightarrow> u16 list" where
  "encode_utf16 s = concat (map encode_utf16_char s)"

fun from_utf16 :: "u16 list \<Rightarrow> ustr option" where
  "from_utf16 [] = Some []"
| "from_utf16 (u # us) =
     (if unat u < 0xD800 \<or> 0xE000 \<le> unat u then map_option ((#) (unat u)) (from_utf16 us)
      else if unat u < 0xDC00 then
        (case us of
           [] \<Rightarrow> None
         | v # vs \<Rightarrow>
             if 0xDC00 \<le> unat v \<and> unat v < 0xE000
             then map_option ((#) (0x10000 + (unat u - 0xD800) * 0x400 + (unat v - 0xDC00)))
                    (from_utf16 vs)
             else None)
      else None)"

lemma from_utf16_encode_char:
  assumes "is_scalar c"
  shows "from_utf16 (encode_utf16_char c @ us) = map_option ((#) c) (from_utf16 us)"
proof (cases "c < 0x10000")
  case True
  then have "unat (of_nat c :: u16) = c" by (simp add: unsigned_of_nat take_bit_eq_mod)
  with True assms show ?thesis by (auto simp: encode_utf16_char_def is_scalar_def)
next
  case False
  define h where "h = 0xD800 + (c - 0x10000) div 0x400"
  define l where "l = 0xDC00 + (c - 0x10000) mod 0x400"
  have hl: "0xD800 \<le> h" "h < 0xDC00" "0xDC00 \<le> l" "l < 0xE000"
    using False assms by (auto simp: h_def l_def is_scalar_def)
  then have u: "unat (of_nat h :: u16) = h" "unat (of_nat l :: u16) = l"
    by (simp_all add: unsigned_of_nat take_bit_eq_mod)
  have "0x10000 + (h - 0xD800) * 0x400 + (l - 0xDC00) = c"
    using False by (simp add: h_def l_def)
  then show ?thesis
    using False hl by (simp add: encode_utf16_char_def u flip: h_def l_def)
qed

lemma from_utf16_encode:
  "\<forall>c \<in> set s. is_scalar c \<Longrightarrow> from_utf16 (encode_utf16 s) = Some s"
  by (induction s) (simp_all add: encode_utf16_def from_utf16_encode_char)

lemma from_utf16_scalar: "from_utf16 us = Some s \<Longrightarrow> c \<in> set s \<Longrightarrow> is_scalar c"
proof (induction us arbitrary: s rule: from_utf16.induct)
  case 1
  then show ?case by simp
next
  case (2 u us)
  have lt: "unat u < 0x10000"
    using unsigned_less [where 'b = 16 and 'a = nat, of u] by simp
  show ?case
  proof (cases "unat u < 0xD800 \<or> 0xE000 \<le> unat u")
    case True
    with 2 lt show ?thesis by (auto simp: is_scalar_def)
  next
    case False
    then obtain v vs t where us: "us = v # vs" and h: "unat u < 0xDC00"
      and v: "0xDC00 \<le> unat v" "unat v < 0xE000" and t: "from_utf16 vs = Some t"
      and s: "s = (0x10000 + (unat u - 0xD800) * 0x400 + (unat v - 0xDC00)) # t"
      using "2.prems"(1) by (auto split: if_splits list.splits)
    have "is_scalar (0x10000 + (unat u - 0xD800) * 0x400 + (unat v - 0xDC00))"
      using h v by (simp add: is_scalar_def)
    moreover have "c \<in> set t \<Longrightarrow> is_scalar c"
      using "2.IH"(2) [OF False h us] v t by simp
    ultimately show ?thesis using "2.prems"(2) s by auto
  qed
qed

text \<open>The 16-bit units of a byte string, and back (\<open>as_chunks::<2>\<close>, \<open>u16::to_le_bytes\<close>).\<close>

definition utf16_units :: "bytes \<Rightarrow> u16 list" where
  "utf16_units bs = map from_le_bytes (chunks_exact 2 bs)"

definition utf16_bytes :: "u16 list \<Rightarrow> bytes" where
  "utf16_bytes us = concat (map (to_le_bytes 2) us)"

lemma length_utf16_bytes [byte_simps]: "length (utf16_bytes us) = 2 * length us"
  by (induction us) (simp_all add: utf16_bytes_def)

lemma utf16_units_bytes [simp]: "utf16_units (utf16_bytes us) = us"
  by (simp add: utf16_units_def utf16_bytes_def chunks_exact_concat comp_def)

lemma utf16_bytes_append: "utf16_bytes (us @ vs) = utf16_bytes us @ utf16_bytes vs"
  by (simp add: utf16_bytes_def)

end
