(* ===== verification/V8_Chain.thy ===== *)
theory V8_Chain
  imports V8_Codec
begin

text \<open>
  The data of \<open>crates/ibcmd-v8/src/block.rs\<close>: block headers, pages, chains, claims and errors.
  The 32-bit and the 64-bit structures of the source have the same fields, so each pair is one
  record, polymorphic in the field type (\<open>u32\<close> or \<open>u64\<close>).
\<close>

section \<open>Data\<close>

abbreviation FORMAT15_BLOCK_HEADER_SIZE :: nat where "FORMAT15_BLOCK_HEADER_SIZE \<equiv> 31"
abbreviation FORMAT15_SENTINEL :: u32 where "FORMAT15_SENTINEL \<equiv> 0x7fffffff"
abbreviation FORMAT16_BLOCK_HEADER_SIZE :: nat where "FORMAT16_BLOCK_HEADER_SIZE \<equiv> 55"
abbreviation FORMAT16_SENTINEL :: u64 where "FORMAT16_SENTINEL \<equiv> 0xffffffffffffffff"

record 'w block_header =
  raw :: bytes
  data_size :: 'w
  page_size :: 'w
  next_page_address :: 'w

record 'w block_page =
  page_address :: 'w
  page_header :: "'w block_header"
  data_length :: nat

record 'w block_chain =
  chain_size :: 'w
  pages :: "'w block_page list"
  data :: bytes

datatype block_error =
    RangeOverflow (address: nat) (range_length: nat)
  | AddressOutOfRange (address: nat) (required_end: nat) (input_length: nat)
  | PageOutOfRange (address: nat) (bad_page_size: nat) (required_end: nat) (input_length: nat)
  | InvalidHeader (address: nat)
  | InvalidHexField (address: nat) (field_offset: nat)
  | Cycle (start_address: nat) (address: nat)
  | RepeatedAddress (address: nat) (claimed_by: nat)
  | Overlap (address: nat) (extent_end: nat) (conflicting_address: nat) (conflicting_end: nat)
  | SizeMismatch (start_address: nat) (declared_size: nat) (collected_size: nat)
      (mismatch_next: "nat option")

record claimed_range =
  range_start :: nat
  range_end :: nat
  owner :: nat

record block_reader =
  input :: bytes
  claimed :: "claimed_range list"

text \<open>The local variables of one \<open>read_chain\<close> loop, and what one iteration does with them.\<close>

record 'w chain_state =
  cur :: 'w
  seen :: "'w set"
  local_ranges :: "claimed_range list"
  chain_pages :: "'w block_page list"
  collected :: bytes
  declared :: "'w option"

datatype ('s, 'r) progress = Continue 's | Done 'r

definition initial_chain_state :: "'w \<Rightarrow> 'w chain_state" where
  "initial_chain_state a =
     \<lparr>cur = a, seen = {}, local_ranges = [], chain_pages = [], collected = [], declared = None\<rparr>"

section \<open>The contract of a chained-page reader\<close>

text \<open>
  What a chained-page reader promises, independent of the width of its fields: which lists of
  pages form a chain (\<open>page_run\<close>), when a page may be claimed (\<open>clear_of\<close>), and what one
  iteration of the reading loop does (\<open>page_visible\<close>, \<open>visit\<close>, \<open>settle\<close>).  The locales state
  the contract of the iteration and of the loop; the client's lemmas are proved in them once
  and used for both layouts.
\<close>

section \<open>Claims\<close>

definition clear_of :: "nat \<Rightarrow> nat \<Rightarrow> claimed_range list \<Rightarrow> bool" where
  "clear_of a e cs \<longleftrightarrow>
     (\<forall>c \<in> set cs. a \<noteq> range_start c \<and> \<not> (a < range_end c \<and> range_start c < e))"

definition apart :: "claimed_range \<Rightarrow> claimed_range \<Rightarrow> bool" where
  "apart c d \<longleftrightarrow> range_start d \<noteq> range_start c \<and>
     \<not> (range_start d < range_end c \<and> range_start c < range_end d)"

definition claims_ok :: "nat \<Rightarrow> claimed_range list \<Rightarrow> bool" where
  "claims_ok n cs \<longleftrightarrow> sorted_wrt apart cs \<and> (\<forall>c \<in> set cs. range_end c \<le> n)"

lemma clear_of_Nil [simp]: "clear_of a e []"
  by (simp add: clear_of_def)

lemma clear_of_append [simp]: "clear_of a e (cs @ ds) \<longleftrightarrow> clear_of a e cs \<and> clear_of a e ds"
  by (auto simp: clear_of_def)

lemma clear_of_mono: "clear_of a e cs \<Longrightarrow> e' \<le> e \<Longrightarrow> clear_of a e' cs"
  by (auto simp: clear_of_def)

lemma clear_of_above: "\<forall>c \<in> set cs. range_start c < range_end c \<and> range_end c \<le> a \<Longrightarrow> clear_of a e cs"
  by (auto simp: clear_of_def)

lemma claims_ok_Nil [simp]: "claims_ok n []"
  by (simp add: claims_ok_def)

lemma claims_ok_snoc:
  "claims_ok n (cs @ [d]) \<longleftrightarrow>
     claims_ok n cs \<and> clear_of (range_start d) (range_end d) cs \<and> range_end d \<le> n"
  by (auto simp: claims_ok_def clear_of_def apart_def sorted_wrt_append)

lemma claims_ok_exclusive:
  assumes "claims_ok n cs" and "i < length cs" and "j < length cs" and "i \<noteq> j"
  shows "{range_start (cs ! i)..<range_end (cs ! i)} \<inter> {range_start (cs ! j)..<range_end (cs ! j)} = {}"
proof -
  have aux: "{range_start (cs ! k)..<range_end (cs ! k)} \<inter> {range_start (cs ! l)..<range_end (cs ! l)} = {}"
    if "k < l" "l < length cs" for k l
  proof -
    have "apart (cs ! k) (cs ! l)"
      using assms(1) that by (simp add: claims_ok_def sorted_wrt_iff_nth_less)
    then show ?thesis by (auto simp: apart_def)
  qed
  show ?thesis
    using aux [of i j] aux [of j i] assms by (cases "i < j") auto
qed

section \<open>Chains\<close>

definition range_of :: "nat \<Rightarrow> ('w \<Rightarrow> nat) \<Rightarrow> nat \<Rightarrow> 'w block_page \<Rightarrow> claimed_range" where
  "range_of hsize num st p =
     \<lparr>range_start = num (page_address p),
      range_end = num (page_address p) + hsize + num (page_size (page_header p)), owner = st\<rparr>"

definition payload_of :: "nat \<Rightarrow> ('w \<Rightarrow> nat) \<Rightarrow> bytes \<Rightarrow> 'w block_page \<Rightarrow> bytes" where
  "payload_of hsize num bs p =
     slice (num (page_address p) + hsize) (num (page_address p) + hsize + data_length p) bs"

text \<open>A run of pages that carries the remaining \<open>want - got\<close> bytes: every page but the last
  contributes, is linked to the next one and leaves something to collect; the last one completes
  the size and ends with the sentinel.\<close>

fun page_run :: "('w \<Rightarrow> nat) \<Rightarrow> 'w \<Rightarrow> nat \<Rightarrow> nat \<Rightarrow> 'w block_page list \<Rightarrow> bool" where
  "page_run num sentinel want got [] \<longleftrightarrow> False"
| "page_run num sentinel want got (p # ps) \<longleftrightarrow>
     data_length p = min (want - got) (num (page_size (page_header p))) \<and>
     (case ps of
        [] \<Rightarrow> got + data_length p = want \<and> next_page_address (page_header p) = sentinel
      | q # qs \<Rightarrow>
          data_length p \<noteq> 0 \<and> got + data_length p \<noteq> want \<and>
          next_page_address (page_header p) = page_address q \<and> page_address q \<noteq> sentinel \<and>
          page_run num sentinel want (got + data_length p) ps)"

lemma page_run_one:
  "page_run num sentinel want got [p] \<longleftrightarrow>
     data_length p = min (want - got) (num (page_size (page_header p))) \<and>
     got + data_length p = want \<and> next_page_address (page_header p) = sentinel"
  by simp

lemma page_run_more:
  "page_run num sentinel want got (p # q # qs) \<longleftrightarrow>
     data_length p = min (want - got) (num (page_size (page_header p))) \<and>
     data_length p \<noteq> 0 \<and> got + data_length p \<noteq> want \<and>
     next_page_address (page_header p) = page_address q \<and> page_address q \<noteq> sentinel \<and>
     page_run num sentinel want (got + data_length p) (q # qs)"
  by simp

declare page_run.simps(2) [simp del]

fun clear_run :: "claimed_range list \<Rightarrow> claimed_range list \<Rightarrow> bool" where
  "clear_run cs [] \<longleftrightarrow> True"
| "clear_run cs (d # ds) \<longleftrightarrow> clear_of (range_start d) (range_end d) cs \<and> clear_run (cs @ [d]) ds"

lemma clear_run_claims_ok:
  "clear_run cs ds \<Longrightarrow> claims_ok n cs \<Longrightarrow> \<forall>d \<in> set ds. range_end d \<le> n \<Longrightarrow> claims_ok n (cs @ ds)"
proof (induction ds arbitrary: cs)
  case Nil
  then show ?case by simp
next
  case (Cons d ds)
  have "claims_ok n (cs @ [d])"
    using Cons.prems by (simp add: claims_ok_snoc)
  then show ?case using Cons.IH [of "cs @ [d]"] Cons.prems by simp
qed

text \<open>A readable page: its header parses, and its extent lies within the input.\<close>

definition page_readable ::
  "nat \<Rightarrow> ('w \<Rightarrow> nat) \<Rightarrow> (bytes \<Rightarrow> 'w \<Rightarrow> block_error + 'w block_header) \<Rightarrow> bytes \<Rightarrow> 'w block_page \<Rightarrow> bool" where
  "page_readable hsize num hdr bs p \<longleftrightarrow>
     hdr bs (page_address p) = Ok (page_header p) \<and>
     num (page_address p) + hsize + num (page_size (page_header p)) \<le> length bs \<and>
     num (page_address p) + hsize + num (page_size (page_header p)) \<le> u64_max"

definition chain_at ::
  "nat \<Rightarrow> ('w \<Rightarrow> nat) \<Rightarrow> 'w \<Rightarrow> (bytes \<Rightarrow> 'w \<Rightarrow> block_error + 'w block_header)
     \<Rightarrow> block_reader \<Rightarrow> 'w \<Rightarrow> 'w block_chain \<Rightarrow> bool" where
  "chain_at hsize num sentinel hdr r start c \<longleftrightarrow>
     pages c \<noteq> [] \<and> page_address (hd (pages c)) = start \<and>
     chain_size c = data_size (page_header (hd (pages c))) \<and>
     (\<forall>p \<in> set (pages c). page_readable hsize num hdr (input r) p) \<and>
     page_run num sentinel (num (chain_size c)) 0 (pages c) \<and>
     clear_run (claimed r) (map (range_of hsize num (num start)) (pages c)) \<and>
     data c = concat (map (payload_of hsize num (input r)) (pages c))"

section \<open>One iteration\<close>

definition total_size :: "'w chain_state \<Rightarrow> 'w block_header \<Rightarrow> 'w" where
  "total_size s h = (case declared s of None \<Rightarrow> data_size h | Some t \<Rightarrow> t)"

definition page_here ::
  "nat \<Rightarrow> ('w \<Rightarrow> nat) \<Rightarrow> 'w chain_state \<Rightarrow> 'w block_header \<Rightarrow> 'w block_page" where
  "page_here hsize num s h =
     \<lparr>page_address = cur s, page_header = h,
      data_length = min (num (total_size s h) - length (collected s)) (num (page_size h))\<rparr>"

definition page_visible ::
  "nat \<Rightarrow> ('w \<Rightarrow> nat) \<Rightarrow> (bytes \<Rightarrow> 'w \<Rightarrow> block_error + 'w block_header)
     \<Rightarrow> block_reader \<Rightarrow> 'w chain_state \<Rightarrow> 'w block_header \<Rightarrow> bool" where
  "page_visible hsize num hdr r s h \<longleftrightarrow>
     cur s \<notin> seen s \<and> page_readable hsize num hdr (input r) (page_here hsize num s h) \<and>
     clear_of (num (cur s)) (num (cur s) + hsize + num (page_size h)) (claimed r @ local_ranges s)"

definition visit ::
  "nat \<Rightarrow> ('w \<Rightarrow> nat) \<Rightarrow> block_reader \<Rightarrow> 'w \<Rightarrow> 'w chain_state \<Rightarrow> 'w block_header \<Rightarrow> 'w chain_state" where
  "visit hsize num r start s h =
     \<lparr>cur = next_page_address h, seen = insert (cur s) (seen s),
      local_ranges = local_ranges s @ [range_of hsize num (num start) (page_here hsize num s h)],
      chain_pages = chain_pages s @ [page_here hsize num s h],
      collected = collected s @ payload_of hsize num (input r) (page_here hsize num s h),
      declared = Some (total_size s h)\<rparr>"

text \<open>What the loop does with the visited state: \<open>None\<close> stands for a size mismatch.\<close>

definition settle ::
  "('w \<Rightarrow> nat) \<Rightarrow> 'w \<Rightarrow> block_reader \<Rightarrow> nat \<Rightarrow> 'w chain_state
     \<Rightarrow> ('w chain_state, block_reader \<times> 'w block_chain) progress option" where
  "settle num sentinel r dlen s =
     (let total = the (declared s) in
      if length (collected s) = num total then
        (if cur s = sentinel
         then Some (Done (r\<lparr>claimed := claimed r @ local_ranges s\<rparr>,
                          \<lparr>chain_size = total, pages = chain_pages s, data = collected s\<rparr>))
         else None)
      else if cur s = sentinel \<or> dlen = 0 then None
      else Some (Continue s))"

lemma length_payload_of:
  "page_readable hsize num hdr bs p \<Longrightarrow> data_length p \<le> num (page_size (page_header p)) \<Longrightarrow>
     length (payload_of hsize num bs p) = data_length p"
  by (auto simp: page_readable_def payload_of_def)

definition unseen :: "('w \<Rightarrow> nat) \<Rightarrow> bytes \<Rightarrow> 'w set \<Rightarrow> nat" where
  "unseen num bs S = card {x. x < length bs \<and> x \<notin> num ` S}"

lemma unseen_insert:
  assumes "inj num" and "a \<notin> S" and "num a < length bs"
  shows "unseen num bs (insert a S) < unseen num bs S"
  unfolding unseen_def
proof (rule psubset_card_mono)
  show "finite {x. x < length bs \<and> x \<notin> num ` S}" by simp
  have "num a \<notin> num ` S" using assms by (auto dest: injD)
  with assms show "{x. x < length bs \<and> x \<notin> num ` insert a S} \<subset> {x. x < length bs \<and> x \<notin> num ` S}"
    by blast
qed

section \<open>The contract of the iteration and of the loop\<close>

text \<open>An iteration succeeds exactly when the page at the current address is visible and the
  visited state is settled.\<close>

locale page_walk =
  fixes hsize :: nat
    and num :: "'w \<Rightarrow> nat"
    and sentinel :: "'w"
    and hdr :: "bytes \<Rightarrow> 'w \<Rightarrow> block_error + 'w block_header"
    and step :: "block_reader \<Rightarrow> 'w \<Rightarrow> 'w chain_state
        \<Rightarrow> block_error + ('w chain_state, block_reader \<times> 'w block_chain) progress"
  assumes num_inj: "inj num"
    and hsize_pos: "0 < hsize"
    and step_Ok: "step r start s = Ok p \<longleftrightarrow>
      (\<exists>h. page_visible hsize num hdr r s h \<and>
           settle num sentinel r (data_length (page_here hsize num s h))
             (visit hsize num r start s h) = Some p)"
begin

lemma step_Continue:
  assumes "step r start s = Ok (Continue s')"
  shows "unseen num (input r) (seen s') < unseen num (input r) (seen s)"
proof -
  obtain h where h: "page_visible hsize num hdr r s h"
    and s': "s' = visit hsize num r start s h"
    using assms by (auto simp: step_Ok settle_def Let_def split: if_splits)
  have "num (cur s) < length (input r)"
    using h hsize_pos by (auto simp: page_visible_def page_readable_def page_here_def Let_def)
  with h show ?thesis
    by (simp add: s' visit_def unseen_insert num_inj page_visible_def)
qed

end

locale chain_loop = page_walk hsize num sentinel hdr step
  for hsize :: nat
    and num :: "'w \<Rightarrow> nat"
    and sentinel :: "'w"
    and hdr :: "bytes \<Rightarrow> 'w \<Rightarrow> block_error + 'w block_header"
    and step :: "block_reader \<Rightarrow> 'w \<Rightarrow> 'w chain_state
        \<Rightarrow> block_error + ('w chain_state, block_reader \<times> 'w block_chain) progress" +
  fixes loop :: "block_reader \<Rightarrow> 'w \<Rightarrow> 'w chain_state \<Rightarrow> block_error + block_reader \<times> 'w block_chain"
  assumes loop_unfold: "loop r start s =
    try_res (step r start s) (\<lambda>p. case p of Done x \<Rightarrow> Ok x | Continue s' \<Rightarrow> loop r start s')"
begin

definition state_ok :: "'w \<Rightarrow> 'w chain_state \<Rightarrow> bool" where
  "state_ok start s \<longleftrightarrow> seen s = page_address ` set (chain_pages s) \<and>
     local_ranges s = map (range_of hsize num (num start)) (chain_pages s)"

definition rest_of_chain ::
  "block_reader \<Rightarrow> 'w \<Rightarrow> 'w chain_state \<Rightarrow> 'w block_page list \<Rightarrow> 'w \<Rightarrow> bool" where
  "rest_of_chain r start s ps t \<longleftrightarrow>
     ps \<noteq> [] \<and> page_address (hd ps) = cur s \<and>
     t = total_size s (page_header (hd ps)) \<and>
     (\<forall>p \<in> set ps. page_readable hsize num hdr (input r) p) \<and>
     page_run num sentinel (num t) (length (collected s)) ps \<and>
     clear_run (claimed r @ local_ranges s) (map (range_of hsize num (num start)) ps)"

definition chain_result ::
  "block_reader \<Rightarrow> 'w \<Rightarrow> 'w chain_state \<Rightarrow> 'w block_page list \<Rightarrow> 'w \<Rightarrow> block_reader \<times> 'w block_chain" where
  "chain_result r start s ps t =
     (r\<lparr>claimed := claimed r @ local_ranges s @ map (range_of hsize num (num start)) ps\<rparr>,
      \<lparr>chain_size = t, pages = chain_pages s @ ps,
       data = collected s @ concat (map (payload_of hsize num (input r)) ps)\<rparr>)"

lemma state_ok_visit: "state_ok start s \<Longrightarrow> state_ok start (visit hsize num r start s h)"
  by (auto simp: state_ok_def visit_def page_here_def Let_def)

lemma page_here_sel [simp]:
  "page_address (page_here hsize num s h) = cur s"
  "page_header (page_here hsize num s h) = h"
  by (simp_all add: page_here_def Let_def)

lemma page_visible_run:
  assumes "state_ok start s"
  shows "page_visible hsize num hdr r s h \<longleftrightarrow>
    page_readable hsize num hdr (input r) (page_here hsize num s h) \<and>
    clear_run (claimed r @ local_ranges s)
      [range_of hsize num (num start) (page_here hsize num s h)]"
proof -
  have "cur s \<notin> seen s" if "clear_of (num (cur s)) e (claimed r @ local_ranges s)" for e
  proof
    assume "cur s \<in> seen s"
    then obtain x where "x \<in> set (chain_pages s)" and "page_address x = cur s"
      using assms by (auto simp: state_ok_def)
    then have "range_of hsize num (num start) x \<in> set (local_ranges s)"
      and "range_start (range_of hsize num (num start) x) = num (cur s)"
      using assms by (auto simp: state_ok_def) (simp add: range_of_def)
    with that show False by (metis UnI2 clear_of_def set_append)
  qed
  then show ?thesis by (auto simp: page_visible_def range_of_def)
qed

lemma length_collected_visit:
  assumes "page_visible hsize num hdr r s h"
  shows "length (collected (visit hsize num r start s h)) =
    length (collected s) + data_length (page_here hsize num s h)"
proof -
  have "length (payload_of hsize num (input r) (page_here hsize num s h)) =
      data_length (page_here hsize num s h)"
    using assms
    by (intro length_payload_of [where hdr = hdr]) (auto simp: page_visible_def page_here_def Let_def)
  then show ?thesis by (simp add: visit_def)
qed

lemma loop_sound:
  assumes "state_ok start s" and "loop r start s = Ok x"
  shows "\<exists>ps t. rest_of_chain r start s ps t \<and> x = chain_result r start s ps t"
  using assms
proof (induction "unseen num (input r) (seen s)" arbitrary: s rule: less_induct)
  case less
  obtain p where step: "step r start s = Ok p"
    and cont: "(case p of Done y \<Rightarrow> Ok y | Continue s' \<Rightarrow> loop r start s') = Ok x"
    using less.prems(2) by (subst (asm) loop_unfold) (auto simp: result_simps)
  then obtain h where vis: "page_visible hsize num hdr r s h"
    and set: "settle num sentinel r (data_length (page_here hsize num s h))
          (visit hsize num r start s h) = Some p"
    by (auto simp: step_Ok)
  define q where "q = page_here hsize num s h"
  define s1 where "s1 = visit hsize num r start s h"
  define T where "T = total_size s (page_header q)"
  have q: "page_address q = cur s" "page_header q = h"
    "data_length q = min (num T - length (collected s)) (num (page_size (page_header q)))"
    by (simp_all add: q_def T_def page_here_def Let_def)
  have s1: "cur s1 = next_page_address (page_header q)"
    "local_ranges s1 = local_ranges s @ [range_of hsize num (num start) q]"
    "chain_pages s1 = chain_pages s @ [q]"
    "collected s1 = collected s @ payload_of hsize num (input r) q" "declared s1 = Some T"
    by (simp_all add: s1_def visit_def q_def T_def)
  have tot: "total_size s1 h' = T" for h' by (simp add: total_size_def s1)
  have len: "length (collected s1) = length (collected s) + data_length q"
    unfolding s1_def q_def by (rule length_collected_visit [OF vis])
  have plen: "length (payload_of hsize num (input r) q) = data_length q"
    using len by (simp add: s1)
  have run: "page_readable hsize num hdr (input r) q"
    "clear_of (range_start (range_of hsize num (num start) q))
      (range_end (range_of hsize num (num start) q)) (claimed r @ local_ranges s)"
    using page_visible_run [OF less.prems(1), of r h] vis by (simp_all add: q_def)
  have set1: "settle num sentinel r (data_length q) s1 = Some p"
    using set by (simp add: q_def s1_def)
  show ?case
  proof (cases p)
    case (Done y)
    then have fin: "length (collected s) + data_length q = num T"
      "next_page_address (page_header q) = sentinel" "y = chain_result r start s [q] T"
      using set1 len by (auto simp: settle_def Let_def s1 chain_result_def split: if_splits)
    then have "rest_of_chain r start s [q] T"
      using run q by (simp add: rest_of_chain_def T_def page_run_one)
    with cont Done fin(3) show ?thesis by auto
  next
    case (Continue s')
    then have s': "s' = s1" and ne: "length (collected s) + data_length q \<noteq> num T"
      and ns: "next_page_address (page_header q) \<noteq> sentinel" and d0: "data_length q \<noteq> 0"
      using set1 len by (auto simp: settle_def Let_def s1 split: if_splits)
    have "unseen num (input r) (seen s1) < unseen num (input r) (seen s)"
      using step_Continue step Continue s' by simp
    moreover have "state_ok start s1"
      unfolding s1_def by (rule state_ok_visit [OF less.prems(1)])
    moreover have "loop r start s1 = Ok x" using cont Continue s' by simp
    ultimately obtain ps t where ps: "rest_of_chain r start s1 ps t"
      and x: "x = chain_result r start s1 ps t"
      using less.hyps by blast
    have t: "t = T" using ps by (simp add: rest_of_chain_def tot)
    have "rest_of_chain r start s (q # ps) T"
      using ps run plen ne ns d0 q(1) q(3) [symmetric] unfolding t
      by (cases ps) (simp_all add: rest_of_chain_def s1 tot page_run_more, simp_all add: T_def)
    moreover have "x = chain_result r start s (q # ps) T"
      using x by (simp add: chain_result_def s1 t)
    ultimately show ?thesis by blast
  qed
qed

lemma loop_complete:
  assumes "state_ok start s" and "rest_of_chain r start s ps t"
  shows "loop r start s = Ok (chain_result r start s ps t)"
  using assms
proof (induction ps arbitrary: s)
  case Nil
  then show ?case by (simp add: rest_of_chain_def)
next
  case (Cons p ps)
  note rest = Cons.prems(2) [unfolded rest_of_chain_def]
  have run: "page_run num sentinel (num t) (length (collected s)) (p # ps)" using rest by blast
  define h where "h = page_header p"
  have t: "t = total_size s h"
    using rest by (simp add: h_def)
  have p: "p = page_here hsize num s h"
    using rest t by (cases ps) (simp_all add: page_here_def h_def page_run_one page_run_more)
  have vis: "page_visible hsize num hdr r s h"
    unfolding page_visible_run [OF Cons.prems(1)] p [symmetric] using rest by simp
  define s1 where "s1 = visit hsize num r start s h"
  have s1: "cur s1 = next_page_address h"
    "local_ranges s1 = local_ranges s @ [range_of hsize num (num start) p]"
    "chain_pages s1 = chain_pages s @ [p]"
    "collected s1 = collected s @ payload_of hsize num (input r) p" "declared s1 = Some t"
    by (simp_all add: s1_def visit_def p t)
  have tot: "total_size s1 h' = t" for h' by (simp add: total_size_def s1)
  have len: "length (collected s1) = length (collected s) + data_length p"
    unfolding s1_def p by (rule length_collected_visit [OF vis])
  have step: "step r start s = Ok pr" if "settle num sentinel r (data_length p) s1 = Some pr" for pr
    unfolding step_Ok using vis that by (auto simp: p s1_def)
  have plen: "length (payload_of hsize num (input r) p) = data_length p"
    using len by (simp add: s1)
  show ?case
  proof (cases ps)
    case Nil
    then have "length (collected s) + data_length p = num t" and "next_page_address h = sentinel"
      using run unfolding Nil page_run_one h_def by blast+
    then have "settle num sentinel r (data_length p) s1 = Some (Done (chain_result r start s [p] t))"
      using plen by (simp add: settle_def Let_def s1 chain_result_def)
    from step [OF this] Nil show ?thesis by (subst loop_unfold) simp
  next
    case (Cons q qs)
    then have more: "length (collected s) + data_length p \<noteq> num t" "data_length p \<noteq> 0"
      "next_page_address h = page_address q" "page_address q \<noteq> sentinel"
      "page_run num sentinel (num t) (length (collected s) + data_length p) ps"
      using run unfolding Cons page_run_more h_def by blast+
    then have "settle num sentinel r (data_length p) s1 = Some (Continue s1)"
      using plen by (simp add: settle_def Let_def s1)
    then have st: "step r start s = Ok (Continue s1)" by (rule step)
    have "state_ok start s1" unfolding s1_def by (rule state_ok_visit [OF Cons.prems(1)])
    moreover have "rest_of_chain r start s1 ps t"
      using rest plen Cons more by (simp add: rest_of_chain_def tot s1)
    ultimately have "loop r start s1 = Ok (chain_result r start s1 ps t)" by (rule Cons.IH)
    then show ?thesis using st by (subst loop_unfold) (simp add: chain_result_def s1)
  qed
qed

text \<open>The whole loop, from its initial state: it succeeds exactly on the chains of \<open>chain_at\<close>,
  and then commits the extents of their pages.\<close>

lemma loop_iff:
  "loop r start (initial_chain_state start) = Ok (r', c) \<longleftrightarrow>
     chain_at hsize num sentinel hdr r start c \<and>
     r' = r\<lparr>claimed := claimed r @ map (range_of hsize num (num start)) (pages c)\<rparr>"
proof -
  let ?s = "initial_chain_state start"
  have ok: "state_ok start ?s" by (simp add: state_ok_def initial_chain_state_def)
  have rest: "rest_of_chain r start ?s ps t \<longleftrightarrow>
      ps \<noteq> [] \<and> page_address (hd ps) = start \<and> t = data_size (page_header (hd ps)) \<and>
      (\<forall>p \<in> set ps. page_readable hsize num hdr (input r) p) \<and>
      page_run num sentinel (num t) 0 ps \<and>
      clear_run (claimed r) (map (range_of hsize num (num start)) ps)" for ps t
    by (simp add: rest_of_chain_def initial_chain_state_def total_size_def)
  have res: "chain_result r start ?s ps t =
      (r\<lparr>claimed := claimed r @ map (range_of hsize num (num start)) ps\<rparr>,
       \<lparr>chain_size = t, pages = ps, data = concat (map (payload_of hsize num (input r)) ps)\<rparr>)" for ps t
    by (simp add: chain_result_def initial_chain_state_def)
  show ?thesis
  proof
    assume "loop r start ?s = Ok (r', c)"
    from loop_sound [OF ok this] show "chain_at hsize num sentinel hdr r start c \<and>
        r' = r\<lparr>claimed := claimed r @ map (range_of hsize num (num start)) (pages c)\<rparr>"
      by (auto simp: rest res chain_at_def)
  next
    assume *: "chain_at hsize num sentinel hdr r start c \<and>
        r' = r\<lparr>claimed := claimed r @ map (range_of hsize num (num start)) (pages c)\<rparr>"
    then have "rest_of_chain r start ?s (pages c) (chain_size c)"
      unfolding rest chain_at_def by blast
    from loop_complete [OF ok this] * show "loop r start ?s = Ok (r', c)"
      by (auto simp: res chain_at_def)
  qed
qed

lemma chain_claims_ok:
  assumes "chain_at hsize num sentinel hdr r start c" and "claims_ok (length (input r)) (claimed r)"
  shows "claims_ok (length (input r)) (claimed r @ map (range_of hsize num (num start)) (pages c))"
  using assms
  by (auto simp: chain_at_def page_readable_def range_of_def intro!: clear_run_claims_ok)

end

section \<open>Consequences of a chain\<close>

lemma page_run_length:
  "page_run num sentinel want got ps \<Longrightarrow> got \<le> want \<Longrightarrow>
     got + sum_list (map data_length ps) = want"
proof (induction ps arbitrary: got)
  case Nil
  then show ?case by simp
next
  case (Cons p ps)
  show ?case
  proof (cases ps)
    case Nil
    with Cons.prems show ?thesis by (simp add: page_run_one)
  next
    case (Cons q qs)
    have "page_run num sentinel want (got + data_length p) ps"
      using Cons.prems(1) unfolding Cons page_run_more by blast
    moreover have "got + data_length p \<le> want"
      using Cons.prems unfolding Cons page_run_more by simp
    ultimately show ?thesis using Cons.IH [of "got + data_length p"] Cons.prems(2) by simp
  qed
qed

lemma page_run_bound:
  "page_run num sentinel want got ps \<Longrightarrow> p \<in> set ps \<Longrightarrow>
     data_length p \<le> num (page_size (page_header p))"
proof (induction ps arbitrary: got)
  case Nil
  then show ?case by simp
next
  case (Cons q ps)
  show ?case
  proof (cases ps)
    case Nil
    with Cons.prems show ?thesis by (simp add: page_run_one)
  next
    case ps: (Cons a qs)
    have "page_run num sentinel want (got + data_length q) ps"
      using Cons.prems(1) unfolding ps page_run_more by blast
    moreover have "data_length q \<le> num (page_size (page_header q))"
      using Cons.prems(1) unfolding ps page_run_more by simp
    ultimately show ?thesis using Cons.IH [of "got + data_length q"] Cons.prems(2) by auto
  qed
qed

lemma chain_data_length:
  assumes "chain_at hsize num sentinel hdr r start c"
  shows "length (data c) = num (chain_size c)"
proof -
  have "length (payload_of hsize num (input r) p) = data_length p" if "p \<in> set (pages c)" for p
    using assms that page_run_bound [of num sentinel _ _ "pages c" p]
    by (intro length_payload_of [where hdr = hdr]) (auto simp: chain_at_def)
  then have "length (data c) = sum_list (map data_length (pages c))"
    using assms by (simp add: chain_at_def length_concat comp_def cong: map_cong)
  moreover have "page_run num sentinel (num (chain_size c)) 0 (pages c)"
    using assms unfolding chain_at_def by blast
  ultimately show ?thesis using page_run_length by fastforce
qed

end
