(* ===== verification/V8_Block.thy ===== *)
theory V8_Block
  imports V8_Chain
begin

text \<open>
  \<open>crates/ibcmd-v8/src/block.rs\<close>: the chained-page readers of the two container layouts.
  Format15 has 31-byte headers and 32-bit fields, Format16 55-byte headers and 64-bit fields;
  the two readers are written out separately in the source and are separate definitions here.
\<close>

section \<open>Header fields\<close>

abbreviation CR :: u8 where "CR \<equiv> 13"
abbreviation LF :: u8 where "LF \<equiv> 10"
abbreviation SP :: u8 where "SP \<equiv> 32"

definition hex_digit_value :: "u8 \<Rightarrow> nat option" where
  "hex_digit_value b =
     (if 48 \<le> b \<and> b \<le> 57 then Some (unat (b - 48))
      else if 97 \<le> b \<and> b \<le> 102 then Some (unat (b - 97 + 10))
      else if 65 \<le> b \<and> b \<le> 70 then Some (unat (b - 65 + 10))
      else None)"

fun parse_hex_u32 :: "bytes \<Rightarrow> u32 \<Rightarrow> nat \<Rightarrow> u32 \<Rightarrow> block_error + u32" where
  "parse_hex_u32 [] addr off value = Ok value"
| "parse_hex_u32 (b # bs) addr off value =
     (case hex_digit_value b of
        None \<Rightarrow> Err (InvalidHexField (unat addr) off)
      | Some digit \<Rightarrow> parse_hex_u32 bs addr off (push_bit 4 value OR of_nat digit))"

fun parse_hex_u64 :: "bytes \<Rightarrow> u64 \<Rightarrow> nat \<Rightarrow> u64 \<Rightarrow> block_error + u64" where
  "parse_hex_u64 [] addr off value = Ok value"
| "parse_hex_u64 (b # bs) addr off value =
     (case hex_digit_value b of
        None \<Rightarrow> Err (InvalidHexField (unat addr) off)
      | Some digit \<Rightarrow> parse_hex_u64 bs addr off (push_bit 4 value OR of_nat digit))"

definition read_header :: "bytes \<Rightarrow> u32 \<Rightarrow> block_error + u32 block_header" where
  "read_header bs addr =
     (let start = unat addr; required_end = unat addr + FORMAT15_BLOCK_HEADER_SIZE in
      if length bs < required_end
      then Err (AddressOutOfRange (unat addr) required_end (length bs))
      else let r = slice start required_end bs in
        if slice 0 2 r \<noteq> [CR, LF] \<or> r ! 10 \<noteq> SP \<or> r ! 19 \<noteq> SP \<or> r ! 28 \<noteq> SP
           \<or> slice 29 31 r \<noteq> [CR, LF]
        then Err (InvalidHeader (unat addr))
        else
          try_res (parse_hex_u32 (slice 2 10 r) addr 2 0) (\<lambda>ds.
          try_res (parse_hex_u32 (slice 11 19 r) addr 11 0) (\<lambda>ps.
          try_res (parse_hex_u32 (slice 20 28 r) addr 20 0) (\<lambda>next.
          Ok \<lparr>raw = r, data_size = ds, page_size = ps, next_page_address = next\<rparr>))))"

definition read_header64 :: "bytes \<Rightarrow> u64 \<Rightarrow> block_error + u64 block_header" where
  "read_header64 bs addr =
     try_res (ok_or (checked_add64 (unat addr) FORMAT16_BLOCK_HEADER_SIZE)
                (RangeOverflow (unat addr) FORMAT16_BLOCK_HEADER_SIZE)) (\<lambda>required_end.
     if length bs < required_end
     then Err (AddressOutOfRange (unat addr) required_end (length bs))
     else let r = slice (unat addr) required_end bs in
       if slice 0 2 r \<noteq> [CR, LF] \<or> r ! 18 \<noteq> SP \<or> r ! 35 \<noteq> SP \<or> r ! 52 \<noteq> SP
          \<or> slice 53 55 r \<noteq> [CR, LF]
       then Err (InvalidHeader (unat addr))
       else
         try_res (parse_hex_u64 (slice 2 18 r) addr 2 0) (\<lambda>ds.
         try_res (parse_hex_u64 (slice 19 35 r) addr 19 0) (\<lambda>ps.
         try_res (parse_hex_u64 (slice 36 52 r) addr 36 0) (\<lambda>next.
         Ok \<lparr>raw = r, data_size = ds, page_size = ps, next_page_address = next\<rparr>))))"

section \<open>Claims\<close>

text \<open>\<open>ensure_unclaimed\<close> scans the committed claims, then the local ones, and reports the first
  conflict.  The source spells it out once per reader; the bodies are the same.\<close>

fun ensure_unclaimed :: "nat \<Rightarrow> nat \<Rightarrow> claimed_range list \<Rightarrow> block_error + unit" where
  "ensure_unclaimed a e [] = Ok ()"
| "ensure_unclaimed a e (c # cs) =
     (if a = range_start c then Err (RepeatedAddress a (owner c))
      else if a < range_end c \<and> range_start c < e
      then Err (Overlap a e (range_start c) (range_end c))
      else ensure_unclaimed a e cs)"

fun ensure_unclaimed64 :: "nat \<Rightarrow> nat \<Rightarrow> claimed_range list \<Rightarrow> block_error + unit" where
  "ensure_unclaimed64 a e [] = Ok ()"
| "ensure_unclaimed64 a e (c # cs) =
     (if a = range_start c then Err (RepeatedAddress a (owner c))
      else if a < range_end c \<and> range_start c < e
      then Err (Overlap a e (range_start c) (range_end c))
      else ensure_unclaimed64 a e cs)"

definition block_reader_new :: "bytes \<Rightarrow> block_reader" where
  "block_reader_new bs = \<lparr>input = bs, claimed = []\<rparr>"

definition reserve :: "block_reader \<Rightarrow> u32 \<Rightarrow> u32 \<Rightarrow> block_error + block_reader" where
  "reserve r addr len =
     (let a = unat addr; e = a + unat len in
      if e > length (input r) then Err (AddressOutOfRange a e (length (input r)))
      else try_res (ensure_unclaimed a e (claimed r)) (\<lambda>_.
        Ok (r\<lparr>claimed := claimed r @ [\<lparr>range_start = a, range_end = e, owner = a\<rparr>]\<rparr>)))"

definition reserve64 :: "block_reader \<Rightarrow> u64 \<Rightarrow> u64 \<Rightarrow> block_error + block_reader" where
  "reserve64 r addr len =
     (let a = unat addr in
      try_res (ok_or (checked_add64 a (unat len)) (RangeOverflow a (unat len))) (\<lambda>e.
      if e > length (input r) then Err (AddressOutOfRange a e (length (input r)))
      else try_res (ensure_unclaimed64 a e (claimed r)) (\<lambda>_.
        Ok (r\<lparr>claimed := claimed r @ [\<lparr>range_start = a, range_end = e, owner = a\<rparr>]\<rparr>))))"

section \<open>Reading a chain: one iteration\<close>

definition collect_page ::
  "block_reader \<Rightarrow> u32 \<Rightarrow> u32 chain_state \<Rightarrow> u32 block_header
     \<Rightarrow> block_error + (u32 chain_state, block_reader \<times> u32 block_chain) progress" where
  "collect_page r start s h =
     (let a = unat (cur s); addr = cur s; st = unat start;
          header_end = a + FORMAT15_BLOCK_HEADER_SIZE; page_end = header_end + unat (page_size h);
          total = (case declared s of None \<Rightarrow> data_size h | Some t \<Rightarrow> t);
          remaining = unat total - length (collected s);
          dlen = min remaining (unat (page_size h));
          bytes' = collected s @ slice header_end (header_end + dlen) (input r);
          locals' = local_ranges s @ [\<lparr>range_start = a, range_end = page_end, owner = st\<rparr>];
          pages' = chain_pages s @ [\<lparr>page_address = addr, page_header = h, data_length = dlen\<rparr>];
          next = (if next_page_address h \<noteq> FORMAT15_SENTINEL
                  then Some (next_page_address h) else None)
      in
      if length bytes' = unat total then
        (if next \<noteq> None
         then Err (SizeMismatch st (unat total) (length bytes') (map_option unat next))
         else Ok (Done (r\<lparr>claimed := claimed r @ locals'\<rparr>,
                        \<lparr>chain_size = total, pages = pages', data = bytes'\<rparr>)))
      else
        (case next of
           None \<Rightarrow> Err (SizeMismatch st (unat total) (length bytes') None)
         | Some next_address \<Rightarrow>
             if dlen = 0
             then Err (SizeMismatch st (unat total) (length bytes') (Some (unat next_address)))
             else Ok (Continue \<lparr>cur = next_address, seen = insert addr (seen s),
                       local_ranges = locals', chain_pages = pages', collected = bytes',
                       declared = Some total\<rparr>)))"

definition read_chain_step ::
  "block_reader \<Rightarrow> u32 \<Rightarrow> u32 chain_state
     \<Rightarrow> block_error + (u32 chain_state, block_reader \<times> u32 block_chain) progress" where
  "read_chain_step r start s =
     (let addr = cur s; a = unat addr; st = unat start in
      if addr \<in> seen s then Err (Cycle st a) else
      let header_end = a + FORMAT15_BLOCK_HEADER_SIZE in
      try_res (ensure_unclaimed a header_end (claimed r @ local_ranges s)) (\<lambda>_.
      try_res (read_header (input r) addr) (\<lambda>h.
      let page_end = header_end + unat (page_size h) in
      if page_end > length (input r)
      then Err (PageOutOfRange a (unat (page_size h)) page_end (length (input r))) else
      try_res (ensure_unclaimed a page_end (claimed r @ local_ranges s)) (\<lambda>_.
      collect_page r start s h))))"

definition collect_page64 ::
  "block_reader \<Rightarrow> u64 \<Rightarrow> u64 chain_state \<Rightarrow> u64 block_header
     \<Rightarrow> block_error + (u64 chain_state, block_reader \<times> u64 block_chain) progress" where
  "collect_page64 r start s h =
     (let a = unat (cur s); addr = cur s; st = unat start;
          header_end = a + FORMAT16_BLOCK_HEADER_SIZE; page_end = header_end + unat (page_size h);
          total = (case declared s of None \<Rightarrow> data_size h | Some t \<Rightarrow> t);
          remaining = unat total - length (collected s);
          dlen = min remaining (unat (page_size h));
          bytes' = collected s @ slice header_end (header_end + dlen) (input r);
          locals' = local_ranges s @ [\<lparr>range_start = a, range_end = page_end, owner = st\<rparr>];
          pages' = chain_pages s @ [\<lparr>page_address = addr, page_header = h, data_length = dlen\<rparr>];
          next = (if next_page_address h \<noteq> FORMAT16_SENTINEL
                  then Some (next_page_address h) else None)
      in
      if length bytes' = unat total then
        (if next \<noteq> None
         then Err (SizeMismatch st (unat total) (length bytes') (map_option unat next))
         else Ok (Done (r\<lparr>claimed := claimed r @ locals'\<rparr>,
                        \<lparr>chain_size = total, pages = pages', data = bytes'\<rparr>)))
      else
        (case next of
           None \<Rightarrow> Err (SizeMismatch st (unat total) (length bytes') None)
         | Some next_address \<Rightarrow>
             if dlen = 0
             then Err (SizeMismatch st (unat total) (length bytes') (Some (unat next_address)))
             else Ok (Continue \<lparr>cur = next_address, seen = insert addr (seen s),
                       local_ranges = locals', chain_pages = pages', collected = bytes',
                       declared = Some total\<rparr>)))"

definition read_chain_step64 ::
  "block_reader \<Rightarrow> u64 \<Rightarrow> u64 chain_state
     \<Rightarrow> block_error + (u64 chain_state, block_reader \<times> u64 block_chain) progress" where
  "read_chain_step64 r start s =
     (let addr = cur s; a = unat addr; st = unat start in
      if addr \<in> seen s then Err (Cycle st a) else
      try_res (ok_or (checked_add64 a FORMAT16_BLOCK_HEADER_SIZE)
                 (RangeOverflow a FORMAT16_BLOCK_HEADER_SIZE)) (\<lambda>header_end.
      try_res (ensure_unclaimed64 a header_end (claimed r @ local_ranges s)) (\<lambda>_.
      try_res (read_header64 (input r) addr) (\<lambda>h.
      try_res (ok_or (checked_add64 FORMAT16_BLOCK_HEADER_SIZE (unat (page_size h)))
                 (RangeOverflow a (unat (page_size h)))) (\<lambda>page_extent.
      try_res (ok_or (checked_add64 a page_extent) (RangeOverflow a page_extent)) (\<lambda>page_end.
      if page_end > length (input r)
      then Err (PageOutOfRange a (unat (page_size h)) page_end (length (input r))) else
      try_res (ensure_unclaimed64 a page_end (claimed r @ local_ranges s)) (\<lambda>_.
      collect_page64 r start s h)))))))"

section \<open>The loops\<close>

lemma ensure_unclaimed_Ok [result_simps]: "ensure_unclaimed a e cs = Ok u \<longleftrightarrow> clear_of a e cs"
  by (induction cs) (auto simp: clear_of_def)

lemma ensure_unclaimed64_eq: "ensure_unclaimed64 a e cs = ensure_unclaimed a e cs"
  by (induction cs) auto

lemma read_header_Ok_bound: "read_header bs addr = Ok h \<Longrightarrow> unat addr + 31 \<le> length bs"
  by (auto simp: read_header_def Let_def split: if_splits)

lemma read_header64_Ok_bound: "read_header64 bs addr = Ok h \<Longrightarrow> unat addr + 55 \<le> length bs"
  by (auto simp: read_header64_def Let_def result_simps split: if_splits)

lemma unat_inj: "inj (unat :: 'w::len word \<Rightarrow> nat)"
  by (rule injI) (simp add: word_unat_eq_iff)

lemma collect_page_Ok:
  "collect_page r start s h = Ok p \<longleftrightarrow>
     settle unat FORMAT15_SENTINEL r (data_length (page_here 31 unat s h))
       (visit 31 unat r start s h) = Some p"
  by (auto simp add: collect_page_def settle_def visit_def page_here_def range_of_def
      payload_of_def total_size_def [symmetric] Let_def)

lemma collect_page64_Ok:
  "collect_page64 r start s h = Ok p \<longleftrightarrow>
     settle unat FORMAT16_SENTINEL r (data_length (page_here 55 unat s h))
       (visit 55 unat r start s h) = Some p"
  by (auto simp add: collect_page64_def settle_def visit_def page_here_def range_of_def
      payload_of_def total_size_def [symmetric] Let_def)

lemma read_chain_step_Ok:
  "read_chain_step r start s = Ok p \<longleftrightarrow>
     (\<exists>h. page_visible 31 unat read_header r s h \<and>
          settle unat FORMAT15_SENTINEL r (data_length (page_here 31 unat s h))
            (visit 31 unat r start s h) = Some p)"
proof -
  have "unat (cur s) + 31 + unat (page_size h) \<le> u64_max" for h :: "u32 block_header"
    using unat_u32_le [of "cur s"] unat_u32_le [of "page_size h"] by simp
  then show ?thesis
    unfolding read_chain_step_def Let_def
    by (auto simp: result_simps collect_page_Ok page_visible_def page_readable_def page_here_def
        intro: clear_of_mono)
qed

lemma read_chain_step64_Ok:
  "read_chain_step64 r start s = Ok p \<longleftrightarrow>
     (\<exists>h. page_visible 55 unat read_header64 r s h \<and>
          settle unat FORMAT16_SENTINEL r (data_length (page_here 55 unat s h))
            (visit 55 unat r start s h) = Some p)"
  unfolding read_chain_step64_def Let_def
  by (auto simp: result_simps collect_page64_Ok page_visible_def page_readable_def page_here_def
      ensure_unclaimed64_eq add.assoc intro: clear_of_mono)

interpretation walk15: page_walk 31 unat FORMAT15_SENTINEL read_header read_chain_step
  by (unfold_locales, rule unat_inj, simp, rule read_chain_step_Ok)

interpretation walk16: page_walk 55 unat FORMAT16_SENTINEL read_header64 read_chain_step64
  by (unfold_locales, rule unat_inj, simp, rule read_chain_step64_Ok)

text \<open>The \<open>loop\<close> of \<open>read_chain\<close>.  Each turn visits an address that was not seen before and
  lies inside the input, so it terminates on every input.\<close>

function read_chain_loop ::
  "block_reader \<Rightarrow> u32 \<Rightarrow> u32 chain_state \<Rightarrow> block_error + block_reader \<times> u32 block_chain" where
  "read_chain_loop r start s =
     try_res (read_chain_step r start s) (\<lambda>p. case p of
         Done x \<Rightarrow> Ok x
       | Continue s' \<Rightarrow> read_chain_loop r start s')"
  by pat_completeness auto
termination
  by (relation "measure (\<lambda>(r, start, s). unseen unat (input r) (seen s))")
    (auto dest: walk15.step_Continue)

function read_chain_loop64 ::
  "block_reader \<Rightarrow> u64 \<Rightarrow> u64 chain_state \<Rightarrow> block_error + block_reader \<times> u64 block_chain" where
  "read_chain_loop64 r start s =
     try_res (read_chain_step64 r start s) (\<lambda>p. case p of
         Done x \<Rightarrow> Ok x
       | Continue s' \<Rightarrow> read_chain_loop64 r start s')"
  by pat_completeness auto
termination
  by (relation "measure (\<lambda>(r, start, s). unseen unat (input r) (seen s))")
    (auto dest: walk16.step_Continue)

declare read_chain_loop.simps [simp del] read_chain_loop64.simps [simp del]

definition read_chain :: "block_reader \<Rightarrow> u32 \<Rightarrow> block_error + block_reader \<times> u32 block_chain" where
  "read_chain r start = read_chain_loop r start (initial_chain_state start)"

definition read_chain64 :: "block_reader \<Rightarrow> u64 \<Rightarrow> block_error + block_reader \<times> u64 block_chain" where
  "read_chain64 r start = read_chain_loop64 r start (initial_chain_state start)"

interpretation loop15: chain_loop 31 unat FORMAT15_SENTINEL read_header read_chain_step read_chain_loop
  by unfold_locales (rule read_chain_loop.simps)

interpretation loop16: chain_loop 55 unat FORMAT16_SENTINEL read_header64 read_chain_step64 read_chain_loop64
  by unfold_locales (rule read_chain_loop64.simps)

abbreviation chain15_at :: "block_reader \<Rightarrow> u32 \<Rightarrow> u32 block_chain \<Rightarrow> bool" where
  "chain15_at \<equiv> chain_at 31 unat FORMAT15_SENTINEL read_header"

abbreviation chain16_at :: "block_reader \<Rightarrow> u64 \<Rightarrow> u64 block_chain \<Rightarrow> bool" where
  "chain16_at \<equiv> chain_at 55 unat FORMAT16_SENTINEL read_header64"

section \<open>Free pages\<close>

lemma reserve_Ok: "reserve r addr len = Ok r' \<longleftrightarrow>
    unat addr + unat len \<le> length (input r) \<and>
    clear_of (unat addr) (unat addr + unat len) (claimed r) \<and>
    r' = r\<lparr>claimed := claimed r @
      [\<lparr>range_start = unat addr, range_end = unat addr + unat len, owner = unat addr\<rparr>]\<rparr>"
  by (auto simp: reserve_def Let_def result_simps)

lemma reserve64_Ok: "reserve64 r addr len = Ok r' \<longleftrightarrow>
    unat addr + unat len \<le> u64_max \<and> unat addr + unat len \<le> length (input r) \<and>
    clear_of (unat addr) (unat addr + unat len) (claimed r) \<and>
    r' = r\<lparr>claimed := claimed r @
      [\<lparr>range_start = unat addr, range_end = unat addr + unat len, owner = unat addr\<rparr>]\<rparr>"
  by (auto simp: reserve64_def Let_def result_simps ensure_unclaimed64_eq)

text \<open>The \<open>while\<close> loop of \<open>reserve_free_pages\<close>; \<open>sn\<close> is the set of addresses seen.\<close>

function reserve_free_pages_loop ::
  "block_reader \<Rightarrow> u32 \<Rightarrow> u32 \<Rightarrow> u32 set \<Rightarrow> block_error + block_reader" where
  "reserve_free_pages_loop r start addr sn =
     (if addr = FORMAT15_SENTINEL then Ok r
      else if addr \<in> sn then Err (Cycle (unat start) (unat addr))
      else try_res (read_header (input r) addr) (\<lambda>h.
        if data_size h \<noteq> FORMAT15_SENTINEL then Err (InvalidHeader (unat addr))
        else
        try_res (ok_or (checked_add64 FORMAT15_BLOCK_HEADER_SIZE (unat (page_size h)))
                   (RangeOverflow (unat addr) (unat (page_size h)))) (\<lambda>len.
        if len > u32_max then Err (RangeOverflow (unat addr) len)
        else try_res (reserve r addr (word_of_nat len)) (\<lambda>r'.
          reserve_free_pages_loop r' start (next_page_address h) (insert addr sn)))))"
  by pat_completeness auto
termination
  by (relation "measure (\<lambda>(r, start, addr, sn). unseen unat (input r) sn)")
    (auto simp: reserve_Ok intro!: unseen_insert unat_inj dest!: read_header_Ok_bound)

function reserve_free_pages_loop64 ::
  "block_reader \<Rightarrow> u64 \<Rightarrow> u64 \<Rightarrow> u64 set \<Rightarrow> block_error + block_reader" where
  "reserve_free_pages_loop64 r start addr sn =
     (if addr = FORMAT16_SENTINEL then Ok r
      else if addr \<in> sn then Err (Cycle (unat start) (unat addr))
      else try_res (read_header64 (input r) addr) (\<lambda>h.
        if data_size h \<noteq> FORMAT16_SENTINEL then Err (InvalidHeader (unat addr))
        else
        try_res (ok_or (checked_add64 FORMAT16_BLOCK_HEADER_SIZE (unat (page_size h)))
                   (RangeOverflow (unat addr) (unat (page_size h)))) (\<lambda>len.
        try_res (reserve64 r addr (word_of_nat len)) (\<lambda>r'.
          reserve_free_pages_loop64 r' start (next_page_address h) (insert addr sn)))))"
  by pat_completeness auto
termination
  by (relation "measure (\<lambda>(r, start, addr, sn). unseen unat (input r) sn)")
    (auto simp: reserve64_Ok intro!: unseen_insert unat_inj dest!: read_header64_Ok_bound)

declare reserve_free_pages_loop.simps [simp del] reserve_free_pages_loop64.simps [simp del]

definition reserve_free_pages :: "block_reader \<Rightarrow> u32 \<Rightarrow> block_error + block_reader" where
  "reserve_free_pages r start = reserve_free_pages_loop r start start {}"

definition reserve_free_pages64 :: "block_reader \<Rightarrow> u64 \<Rightarrow> block_error + block_reader" where
  "reserve_free_pages64 r start = reserve_free_pages_loop64 r start start {}"

lemma reserve_free_pages_none [simp]: "reserve_free_pages r FORMAT15_SENTINEL = Ok r"
  by (simp add: reserve_free_pages_def reserve_free_pages_loop.simps)

lemma reserve_free_pages64_none [simp]: "reserve_free_pages64 r FORMAT16_SENTINEL = Ok r"
  by (simp add: reserve_free_pages64_def reserve_free_pages_loop64.simps)

section \<open>The claims of a reader\<close>

definition reader_ok :: "block_reader \<Rightarrow> bool" where
  "reader_ok r \<longleftrightarrow> claims_ok (length (input r)) (claimed r)"

lemma reserve_ok: "reserve r addr len = Ok r' \<Longrightarrow> reader_ok r \<Longrightarrow> reader_ok r' \<and> input r' = input r"
  by (auto simp: reserve_Ok reader_ok_def claims_ok_snoc)

lemma reserve64_ok: "reserve64 r addr len = Ok r' \<Longrightarrow> reader_ok r \<Longrightarrow> reader_ok r' \<and> input r' = input r"
  by (auto simp: reserve64_Ok reader_ok_def claims_ok_snoc)

lemma reserve_free_pages_loop_ok:
  "reserve_free_pages_loop r start addr sn = Ok r' \<Longrightarrow> reader_ok r \<Longrightarrow> reader_ok r' \<and> input r' = input r"
proof (induction r start addr sn rule: reserve_free_pages_loop.induct)
  case (1 r start addr sn)
  show ?case
  proof (cases "addr = FORMAT15_SENTINEL")
    case True
    with "1.prems" show ?thesis by (simp add: reserve_free_pages_loop.simps)
  next
    case False
    define len where "len h = 31 + unat (page_size h)" for h :: "u32 block_header"
    obtain h r1 where a: "addr \<notin> sn" "read_header (input r) addr = Ok h"
        "data_size h = FORMAT15_SENTINEL" "len h \<le> u64_max" "\<not> len h > u32_max"
        "reserve r addr (word_of_nat (len h)) = Ok r1"
        "reserve_free_pages_loop r1 start (next_page_address h) (insert addr sn) = Ok r'"
      using "1.prems"(1) False
      by (subst (asm) reserve_free_pages_loop.simps)
        (auto simp: result_simps len_def simp del: of_nat_add split: if_splits)
    have ok: "ok_or (checked_add64 31 (unat (page_size h)))
        (RangeOverflow (unat addr) (unat (page_size h))) = Inr (len h)"
      using a(4) by (simp add: checked_add64_def len_def)
    have r1: "reader_ok r1 \<and> input r1 = input r"
      using reserve_ok [OF _ "1.prems"(2)] a by blast
    have "\<not> data_size h \<noteq> FORMAT15_SENTINEL" using a(3) by simp
    from "1.IH" [OF False a(1,2) this ok a(5) a(6) a(7)] r1 show ?thesis by simp
  qed
qed

lemma reserve_free_pages_loop64_ok:
  "reserve_free_pages_loop64 r start addr sn = Ok r' \<Longrightarrow> reader_ok r \<Longrightarrow> reader_ok r' \<and> input r' = input r"
proof (induction r start addr sn rule: reserve_free_pages_loop64.induct)
  case (1 r start addr sn)
  show ?case
  proof (cases "addr = FORMAT16_SENTINEL")
    case True
    with "1.prems" show ?thesis by (simp add: reserve_free_pages_loop64.simps)
  next
    case False
    define len where "len h = 55 + unat (page_size h)" for h :: "u64 block_header"
    obtain h r1 where a: "addr \<notin> sn" "read_header64 (input r) addr = Ok h"
        "data_size h = FORMAT16_SENTINEL" "len h \<le> u64_max"
        "reserve64 r addr (word_of_nat (len h)) = Ok r1"
        "reserve_free_pages_loop64 r1 start (next_page_address h) (insert addr sn) = Ok r'"
      using "1.prems"(1) False
      by (subst (asm) reserve_free_pages_loop64.simps)
        (auto simp: result_simps len_def simp del: of_nat_add split: if_splits)
    have ok: "ok_or (checked_add64 55 (unat (page_size h)))
        (RangeOverflow (unat addr) (unat (page_size h))) = Inr (len h)"
      using a(4) by (simp add: checked_add64_def len_def)
    have r1: "reader_ok r1 \<and> input r1 = input r"
      using reserve64_ok [OF _ "1.prems"(2)] a by blast
    have "\<not> data_size h \<noteq> FORMAT16_SENTINEL" using a(3) by simp
    from "1.IH" [OF False a(1,2) this ok a(5) a(6)] r1 show ?thesis by simp
  qed
qed

lemma read_chain_ok:
  "read_chain r start = Ok (r', c) \<Longrightarrow> reader_ok r \<Longrightarrow> reader_ok r' \<and> input r' = input r"
  by (auto simp: read_chain_def loop15.loop_iff reader_ok_def intro: loop15.chain_claims_ok)

lemma read_chain64_ok:
  "read_chain64 r start = Ok (r', c) \<Longrightarrow> reader_ok r \<Longrightarrow> reader_ok r' \<and> input r' = input r"
  by (auto simp: read_chain64_def loop16.loop_iff reader_ok_def intro: loop16.chain_claims_ok)

text \<open>Every sequence of accepted operations on a reader of either width.\<close>

inductive reader_run :: "bytes \<Rightarrow> block_reader \<Rightarrow> bool" for bs :: bytes where
  new: "reader_run bs (block_reader_new bs)"
| reserved: "reader_run bs r \<Longrightarrow> reserve r addr len = Ok r' \<Longrightarrow> reader_run bs r'"
| freed: "reader_run bs r \<Longrightarrow> reserve_free_pages r addr = Ok r' \<Longrightarrow> reader_run bs r'"
| chain: "reader_run bs r \<Longrightarrow> read_chain r addr = Ok (r', c) \<Longrightarrow> reader_run bs r'"

inductive reader_run64 :: "bytes \<Rightarrow> block_reader \<Rightarrow> bool" for bs :: bytes where
  new64: "reader_run64 bs (block_reader_new bs)"
| reserved64: "reader_run64 bs r \<Longrightarrow> reserve64 r addr len = Ok r' \<Longrightarrow> reader_run64 bs r'"
| freed64: "reader_run64 bs r \<Longrightarrow> reserve_free_pages64 r addr = Ok r' \<Longrightarrow> reader_run64 bs r'"
| chain64: "reader_run64 bs r \<Longrightarrow> read_chain64 r addr = Ok (r', c) \<Longrightarrow> reader_run64 bs r'"

lemma reader_run_ok: "reader_run bs r \<Longrightarrow> reader_ok r \<and> input r = bs"
proof (induction rule: reader_run.induct)
  case new
  show ?case by (simp add: block_reader_new_def reader_ok_def)
qed (auto simp: reserve_free_pages_def
    dest: reserve_ok reserve_free_pages_loop_ok read_chain_ok)

lemma reader_run64_ok: "reader_run64 bs r \<Longrightarrow> reader_ok r \<and> input r = bs"
proof (induction rule: reader_run64.induct)
  case new64
  show ?case by (simp add: block_reader_new_def reader_ok_def)
qed (auto simp: reserve_free_pages64_def
    dest: reserve64_ok reserve_free_pages_loop64_ok read_chain64_ok)

end
