(* ===== verification/V8_Header_Text.thy ===== *)
theory V8_Header_Text
  imports V8_Block
begin

text \<open>
  The text of a block header: \<open>format!("\r\n{first_size:08x} {page_size:08x} {next:08x} \r\n")\<close>
  of \<open>crates/ibcmd-v8/src/writer.rs\<close> and its 16-digit twin.  Reading back the text that the
  writers produce gives the three numbers, for both widths.
\<close>

section \<open>Hexadecimal fields\<close>

lemma push_bit_OR_digit:
  assumes "d < 16" and "8 \<le> LENGTH('w::len)"
  shows "push_bit 4 (v :: 'w word) OR word_of_nat d = v * 16 + word_of_nat d"
proof -
  have "push_bit 4 v AND word_of_nat d = 0"
  proof (rule bit_eqI)
    fix k
    have "\<not> bit d k" if "4 \<le> k"
    proof -
      have "d < 2 ^ k" using assms(1) power_increasing [OF that, of "2 :: nat"] by simp
      then show ?thesis by (simp add: bit_iff_odd)
    qed
    then show "bit (push_bit 4 v AND word_of_nat d) k \<longleftrightarrow> bit (0 :: 'w word) k"
      by (auto simp: bit_simps)
  qed
  then have "push_bit 4 v OR word_of_nat d = push_bit 4 v + word_of_nat d"
    by (simp add: disjunctive_add_eq_or)
  then show ?thesis by (simp add: push_bit_eq_mult)
qed

lemma hex_digit_value_char: "d < 16 \<Longrightarrow> hex_digit_value (hex_char d) = Some d"
proof -
  have "\<forall>d \<in> set [0..<16]. hex_digit_value (hex_char d) = Some d" by code_simp
  then show "d < 16 \<Longrightarrow> hex_digit_value (hex_char d) = Some d" by simp
qed

text \<open>The contract of a hexadecimal field parser, and what follows for the formatted text.\<close>

locale hex_field =
  fixes parse :: "bytes \<Rightarrow> 'w::len word \<Rightarrow> 'w word \<Rightarrow> 'e + 'w word"
  assumes width: "8 \<le> LENGTH('w)"
    and parse_Nil: "parse [] addr v = Ok v"
    and parse_Cons: "hex_digit_value b = Some d \<Longrightarrow>
      parse (b # bs) addr v = parse bs addr (push_bit 4 v OR word_of_nat d)"
begin

lemma parse_hex_digits:
  "parse (hex_digits n @ bs) addr v =
     parse bs addr (v * 16 ^ length (hex_digits n) + word_of_nat n)"
proof (induction n arbitrary: v bs rule: hex_digits.induct)
  case (1 n)
  show ?case
  proof (cases "n < 16")
    case True
    then show ?thesis
      by (subst (1 2) hex_digits.simps)
        (simp add: parse_Cons hex_digit_value_char push_bit_OR_digit width)
  next
    case False
    let ?m = "n div 16"
    have "parse (hex_digits n @ bs) addr v =
        parse (hex_digits ?m @ hex_char (n mod 16) # bs) addr v"
      using False by (subst hex_digits.simps) simp
    also have "\<dots> = parse (hex_char (n mod 16) # bs) addr
        (v * 16 ^ length (hex_digits ?m) + word_of_nat ?m)"
      by (rule "1.IH" [OF False])
    also have "\<dots> = parse bs addr
        ((v * 16 ^ length (hex_digits ?m) + word_of_nat ?m) * 16 + word_of_nat (n mod 16))"
      by (simp add: parse_Cons hex_digit_value_char push_bit_OR_digit width)
    also have "(v * 16 ^ length (hex_digits ?m) + word_of_nat ?m) * 16 + word_of_nat (n mod 16) =
        v * 16 ^ Suc (length (hex_digits ?m)) + word_of_nat n"
    proof -
      have "(word_of_nat n :: 'w word) = word_of_nat ?m * 16 + word_of_nat (n mod 16)"
        by (metis div_mult_mod_eq of_nat_add of_nat_mult of_nat_numeral)
      then show ?thesis by (simp add: algebra_simps)
    qed
    also have "Suc (length (hex_digits ?m)) = length (hex_digits n)"
      using False by (subst (2) hex_digits.simps) simp
    finally show ?thesis .
  qed
qed

lemma parse_zeros: "parse (replicate k 48 @ bs) addr 0 = parse bs addr 0"
proof (induction k)
  case 0
  then show ?case by simp
next
  case (Suc k)
  have "hex_digit_value 48 = Some 0" by (simp add: hex_digit_value_def)
  then show ?case using Suc by (simp add: parse_Cons)
qed

lemma parse_format_hex: "parse (format_hex k n) addr 0 = Ok (word_of_nat n)"
proof -
  have "parse (format_hex k n) addr 0 = parse (hex_digits n @ []) addr 0"
    by (simp add: format_hex_def Let_def parse_zeros)
  also have "\<dots> = Ok (word_of_nat n)" by (subst parse_hex_digits) (simp add: parse_Nil)
  finally show ?thesis .
qed

end

interpretation hex32: hex_field "\<lambda>bs addr. parse_hex_u32 bs addr off" for off
  by unfold_locales simp_all

interpretation hex64: hex_field "\<lambda>bs addr. parse_hex_u64 bs addr off" for off
  by unfold_locales simp_all

section \<open>The header text\<close>

definition header_text :: "nat \<Rightarrow> nat \<Rightarrow> nat \<Rightarrow> nat \<Rightarrow> bytes" where
  "header_text width first_size psize next =
     [CR, LF] @ format_hex width first_size @ [SP] @ format_hex width psize @ [SP]
       @ format_hex width next @ [SP, CR, LF]"

lemma length_header_text [byte_simps]:
  "0 < w \<Longrightarrow> fs < 16 ^ w \<Longrightarrow> ps < 16 ^ w \<Longrightarrow> nx < 16 ^ w \<Longrightarrow>
     length (header_text w fs ps nx) = 3 * w + 7"
  by (simp add: header_text_def byte_simps)

lemma header_text_fields:
  assumes "0 < w" "fs < 16 ^ w" "ps < 16 ^ w" "nx < 16 ^ w"
  shows "slice 0 2 (header_text w fs ps nx) = [CR, LF]"
    and "slice 2 (2 + w) (header_text w fs ps nx) = format_hex w fs"
    and "header_text w fs ps nx ! (2 + w) = SP"
    and "slice (3 + w) (3 + 2 * w) (header_text w fs ps nx) = format_hex w ps"
    and "header_text w fs ps nx ! (3 + 2 * w) = SP"
    and "slice (4 + 2 * w) (4 + 3 * w) (header_text w fs ps nx) = format_hex w nx"
    and "header_text w fs ps nx ! (4 + 3 * w) = SP"
    and "slice (5 + 3 * w) (7 + 3 * w) (header_text w fs ps nx) = [CR, LF]"
  using assms length_format_hex [of w]
  by (simp_all add: header_text_def slice_def nth_append drop_Cons' take_Cons')

lemma read_header_text:
  assumes "slice (unat addr) (unat addr + 31) bs = header_text 8 fs ps nx"
    and "unat addr + 31 \<le> length bs"
    and "fs \<le> u32_max" "ps \<le> u32_max" "nx \<le> u32_max"
  shows "read_header bs addr = Ok \<lparr>raw = header_text 8 fs ps nx, data_size = word_of_nat fs,
    page_size = word_of_nat ps, next_page_address = word_of_nat nx\<rparr>"
proof -
  have "fs < 16 ^ 8" "ps < 16 ^ 8" "nx < 16 ^ 8" using assms(3-5) by simp_all
  from header_text_fields [OF _ this] assms(1,2) show ?thesis
    by (simp add: read_header_def Let_def hex32.parse_format_hex)
qed

lemma read_header64_text:
  assumes "slice (unat addr) (unat addr + 55) bs = header_text 16 fs ps nx"
    and "unat addr + 55 \<le> length bs" and "length bs \<le> u64_max"
    and "fs \<le> u64_max" "ps \<le> u64_max" "nx \<le> u64_max"
  shows "read_header64 bs addr = Ok \<lparr>raw = header_text 16 fs ps nx, data_size = word_of_nat fs,
    page_size = word_of_nat ps, next_page_address = word_of_nat nx\<rparr>"
proof -
  have "fs < 16 ^ 16" "ps < 16 ^ 16" "nx < 16 ^ 16" using assms(4-6) by simp_all
  from header_text_fields [OF _ this] assms(1-3) show ?thesis
    by (simp add: read_header64_def Let_def hex64.parse_format_hex checked_add64_def)
qed

end
