(* ===== verification/V8_Format15.thy ===== *)
theory V8_Format15
  imports V8_Header_Text
begin

text \<open>
  The structures of \<open>crates/ibcmd-v8/src/format15.rs\<close> and \<open>format16.rs\<close>: file headers, entries
  of the address table, elements and containers, polymorphic in the address type, and the
  decoding of an element's name, which both formats spell the same way up to the error type.
\<close>

record 'w file_header =
  file_raw :: bytes
  file_next_page :: 'w
  file_page_size :: u32
  storage_version :: u32
  file_reserved :: u32

record 'w element_address =
  address_raw :: bytes
  header_address :: 'w
  data_address :: "'w option"
  marker :: 'w

record 'w element =
  name :: ustr
  element_entry :: "'w element_address"
  header_block :: "'w block_header"
  header_pages :: "'w block_page list"
  raw_header :: bytes
  data_block :: "'w block_header option"
  data_pages :: "'w block_page list option"
  element_data :: "bytes option"

record 'w container =
  file_header :: "'w file_header"
  toc_block :: "'w block_header"
  toc_pages :: "'w block_page list"
  elements :: "'w element list"

abbreviation ELEMENT_HEADER_PREFIX_SIZE :: nat where "ELEMENT_HEADER_PREFIX_SIZE \<equiv> 20"

text \<open>The name units of an element header: the 16-bit units after the prefix, up to the first
  zero.\<close>

definition name_units :: "bytes \<Rightarrow> u16 list" where
  "name_units header =
     takeWhile (\<lambda>u. u \<noteq> 0) (utf16_units (drop ELEMENT_HEADER_PREFIX_SIZE header))"

text \<open>A well-formed element header: long enough, an even name region, a valid name.\<close>

definition header_name :: "bytes \<Rightarrow> ustr option" where
  "header_name header =
     (if length header < ELEMENT_HEADER_PREFIX_SIZE
         \<or> odd (length header - ELEMENT_HEADER_PREFIX_SIZE)
      then None else from_utf16 (name_units header))"

text \<open>\<open>Container::element\<close>: the first element with the name.\<close>

definition find_element :: "'w container \<Rightarrow> ustr \<Rightarrow> 'w element option" where
  "find_element c n = find (\<lambda>e. name e = n) (elements c)"

section \<open>The Format15 reader\<close>

text \<open>
  \<open>crates/ibcmd-v8/src/format15.rs\<close>: the structural reader of the 32-bit container.
\<close>

abbreviation FILE_HEADER_SIZE15 :: nat where "FILE_HEADER_SIZE15 \<equiv> 16"
abbreviation ELEMENT_ADDRESS_SIZE15 :: nat where "ELEMENT_ADDRESS_SIZE15 \<equiv> 12"
abbreviation DEFAULT_PAGE_SIZE15 :: u32 where "DEFAULT_PAGE_SIZE15 \<equiv> 512"

datatype format15_error =
    F15_InputTooShort (f15_minimum: nat) (f15_actual: nat)
  | F15_RangeOverflow (f15_offset: nat) (f15_length: nat)
  | F15_RangeOutOfBounds (f15_offset: nat) (f15_length: nat) (f15_input_length: nat)
  | F15_UnexpectedFileMarker u32
  | F15_Block block_error
  | F15_TocSizeNotDivisible u32
  | F15_InvalidAddressTableMarker nat u32
  | F15_AbsentHeaderAddress nat
  | F15_ElementHeaderTooShort nat nat
  | F15_OddElementNameLength nat nat
  | F15_InvalidElementName nat

definition checked_slice15 :: "bytes \<Rightarrow> nat \<Rightarrow> nat \<Rightarrow> format15_error + bytes" where
  "checked_slice15 bs off len =
     try_res (ok_or (checked_add64 off len) (F15_RangeOverflow off len)) (\<lambda>e.
     if e \<le> length bs then Ok (slice off e bs)
     else Err (F15_RangeOutOfBounds off len (length bs)))"

definition read_file_header15 :: "bytes \<Rightarrow> format15_error + u32 file_header" where
  "read_file_header15 bs =
     try_res (checked_slice15 bs 0 FILE_HEADER_SIZE15) (\<lambda>r.
     Ok \<lparr>file_raw = r, file_next_page = from_le_bytes (slice 0 4 r),
         file_page_size = from_le_bytes (slice 4 8 r),
         storage_version = from_le_bytes (slice 8 12 r),
         file_reserved = from_le_bytes (slice 12 16 r)\<rparr>)"

definition read_element_address15 :: "bytes \<Rightarrow> nat \<Rightarrow> format15_error + u32 element_address" where
  "read_element_address15 r index =
     (let haddr = from_le_bytes (slice 0 4 r);
          daddr = from_le_bytes (slice 4 8 r);
          mark = from_le_bytes (slice 8 12 r) in
      if mark \<noteq> FORMAT15_SENTINEL then Err (F15_InvalidAddressTableMarker index mark)
      else Ok \<lparr>address_raw = r, header_address = haddr,
               data_address = (if daddr \<noteq> FORMAT15_SENTINEL then Some daddr else None),
               marker = mark\<rparr>)"

definition element_name15 :: "bytes \<Rightarrow> nat \<Rightarrow> format15_error + ustr" where
  "element_name15 header index =
     (if length header < ELEMENT_HEADER_PREFIX_SIZE
      then Err (F15_ElementHeaderTooShort index (length header))
      else let region = drop ELEMENT_HEADER_PREFIX_SIZE header in
        if length region mod 2 \<noteq> 0
        then Err (F15_OddElementNameLength index (length region))
        else ok_or (from_utf16 (takeWhile (\<lambda>u. u \<noteq> 0) (utf16_units region)))
               (F15_InvalidElementName index))"

text \<open>The body of the element loop of \<open>parse\<close>, and the loop over the address table.\<close>

definition parse_element15 ::
  "block_reader \<Rightarrow> nat \<Rightarrow> bytes \<Rightarrow> format15_error + block_reader \<times> u32 element" where
  "parse_element15 r index raw_address =
     try_res (read_element_address15 raw_address index) (\<lambda>addr.
     if header_address addr = FORMAT15_SENTINEL then Err (F15_AbsentHeaderAddress index)
     else
     try_res (map_err F15_Block (read_chain r (header_address addr))) (\<lambda>(r1, hchain).
     try_res (element_name15 (data hchain) index) (\<lambda>n.
     try_res
       (case data_address addr of
          None \<Rightarrow> Ok (r1, None, None, None)
        | Some daddr \<Rightarrow>
            try_res (map_err F15_Block (read_chain r1 daddr)) (\<lambda>(r2, dchain).
            Ok (r2, Some (page_header (hd (pages dchain))), Some (pages dchain), Some (data dchain))))
       (\<lambda>(r2, dblock, dpages, dbytes).
        Ok (r2, \<lparr>name = n, element_entry = addr,
              header_block = page_header (hd (pages hchain)), header_pages = pages hchain,
              raw_header = data hchain, data_block = dblock, data_pages = dpages,
              element_data = dbytes\<rparr>)))))"

fun parse_elements15 ::
  "block_reader \<Rightarrow> nat \<Rightarrow> bytes list \<Rightarrow> format15_error + block_reader \<times> u32 element list" where
  "parse_elements15 r index [] = Ok (r, [])"
| "parse_elements15 r index (raw_address # rest) =
     try_res (parse_element15 r index raw_address) (\<lambda>(r1, e).
     try_res (parse_elements15 r1 (Suc index) rest) (\<lambda>(r2, es). Ok (r2, e # es)))"

definition parse15 :: "bytes \<Rightarrow> format15_error + u32 container" where
  "parse15 bs =
     (let minimum = FILE_HEADER_SIZE15 + FORMAT15_BLOCK_HEADER_SIZE in
      if length bs < minimum then Err (F15_InputTooShort minimum (length bs))
      else
      try_res (read_file_header15 bs) (\<lambda>fh.
      try_res (map_err F15_Block (reserve (block_reader_new bs) 0 16)) (\<lambda>r0.
      try_res (map_err F15_Block (reserve_free_pages r0 (file_next_page fh))) (\<lambda>r1.
      try_res (map_err F15_Block (read_chain r1 16)) (\<lambda>(r2, toc_chain).
      if length (data toc_chain) mod ELEMENT_ADDRESS_SIZE15 \<noteq> 0
      then Err (F15_TocSizeNotDivisible (data_size (page_header (hd (pages toc_chain)))))
      else
      try_res (parse_elements15 r2 0 (chunks_exact ELEMENT_ADDRESS_SIZE15 (data toc_chain)))
        (\<lambda>(r3, es).
        Ok \<lparr>file_header = fh, toc_block = page_header (hd (pages toc_chain)),
            toc_pages = pages toc_chain, elements = es\<rparr>))))))"

lemma element_name15_Ok [result_simps]:
  "element_name15 header index = Ok n \<longleftrightarrow> header_name header = Some n"
  by (auto simp: element_name15_def header_name_def name_units_def Let_def ok_or_eq_Inr
      odd_iff_mod_2_eq_one split: if_splits)

end
