(* ===== verification/V8_Format16.thy ===== *)
theory V8_Format16
  imports V8_Format15
begin

text \<open>
  \<open>crates/ibcmd-v8/src/format16.rs\<close>: the structural reader of the 64-bit container, with its
  32-bit preamble.
\<close>

abbreviation BASE_OFFSET16 :: nat where "BASE_OFFSET16 \<equiv> 0x1359"
abbreviation FILE_HEADER_SIZE16 :: nat where "FILE_HEADER_SIZE16 \<equiv> 20"
abbreviation ELEMENT_ADDRESS_SIZE16 :: nat where "ELEMENT_ADDRESS_SIZE16 \<equiv> 24"
abbreviation DEFAULT_PAGE_SIZE16 :: u32 where "DEFAULT_PAGE_SIZE16 \<equiv> 512"

datatype format16_error =
    F16_BaseOffsetOutOfRange (f16_base_offset: nat) (f16_input_length: nat)
  | F16_InvalidPreamble format15_error
  | F16_InvalidPreambleLength (f16_expected: nat) (f16_actual: nat)
  | F16_InputTooShort (f16_minimum: nat) (f16_actual: nat)
  | F16_RangeOverflow (f16_offset: nat) (f16_length: nat)
  | F16_RangeOutOfBounds (f16_offset: nat) (f16_length: nat) (f16_input_length: nat)
  | F16_UnexpectedFileMarker u64
  | F16_Block block_error
  | F16_TocSizeNotDivisible u64
  | F16_InvalidAddressTableMarker nat u64
  | F16_AbsentHeaderAddress nat
  | F16_ElementHeaderTooShort nat nat
  | F16_OddElementNameLength nat nat
  | F16_InvalidElementName nat

record container16 = "u64 container" +
  base_offset :: nat
  raw_preamble :: bytes
  preamble :: "u32 container option"

definition checked_slice16 :: "bytes \<Rightarrow> nat \<Rightarrow> nat \<Rightarrow> format16_error + bytes" where
  "checked_slice16 bs off len =
     try_res (ok_or (checked_add64 off len) (F16_RangeOverflow off len)) (\<lambda>e.
     if e \<le> length bs then Ok (slice off e bs)
     else Err (F16_RangeOutOfBounds off len (length bs)))"

definition read_file_header16 :: "bytes \<Rightarrow> format16_error + u64 file_header" where
  "read_file_header16 bs =
     try_res (checked_slice16 bs 0 FILE_HEADER_SIZE16) (\<lambda>r.
     Ok \<lparr>file_raw = r, file_next_page = from_le_bytes (slice 0 8 r),
         file_page_size = from_le_bytes (slice 8 12 r),
         storage_version = from_le_bytes (slice 12 16 r),
         file_reserved = from_le_bytes (slice 16 20 r)\<rparr>)"

definition read_element_address16 :: "bytes \<Rightarrow> nat \<Rightarrow> format16_error + u64 element_address" where
  "read_element_address16 r index =
     (let haddr = from_le_bytes (slice 0 8 r);
          daddr = from_le_bytes (slice 8 16 r);
          mark = from_le_bytes (slice 16 24 r) in
      if mark \<noteq> FORMAT16_SENTINEL then Err (F16_InvalidAddressTableMarker index mark)
      else Ok \<lparr>address_raw = r, header_address = haddr,
               data_address = (if daddr \<noteq> FORMAT16_SENTINEL then Some daddr else None),
               marker = mark\<rparr>)"

definition element_name16 :: "bytes \<Rightarrow> nat \<Rightarrow> format16_error + ustr" where
  "element_name16 header index =
     (if length header < ELEMENT_HEADER_PREFIX_SIZE
      then Err (F16_ElementHeaderTooShort index (length header))
      else let region = drop ELEMENT_HEADER_PREFIX_SIZE header in
        if length region mod 2 \<noteq> 0
        then Err (F16_OddElementNameLength index (length region))
        else ok_or (from_utf16 (takeWhile (\<lambda>u. u \<noteq> 0) (utf16_units region)))
               (F16_InvalidElementName index))"

definition parse_element16 ::
  "block_reader \<Rightarrow> nat \<Rightarrow> bytes \<Rightarrow> format16_error + block_reader \<times> u64 element" where
  "parse_element16 r index raw_address =
     try_res (read_element_address16 raw_address index) (\<lambda>addr.
     if header_address addr = FORMAT16_SENTINEL then Err (F16_AbsentHeaderAddress index)
     else
     try_res (map_err F16_Block (read_chain64 r (header_address addr))) (\<lambda>(r1, hchain).
     try_res (element_name16 (data hchain) index) (\<lambda>n.
     try_res
       (case data_address addr of
          None \<Rightarrow> Ok (r1, None, None, None)
        | Some daddr \<Rightarrow>
            try_res (map_err F16_Block (read_chain64 r1 daddr)) (\<lambda>(r2, dchain).
            Ok (r2, Some (page_header (hd (pages dchain))), Some (pages dchain), Some (data dchain))))
       (\<lambda>(r2, dblock, dpages, dbytes).
        Ok (r2, \<lparr>name = n, element_entry = addr,
              header_block = page_header (hd (pages hchain)), header_pages = pages hchain,
              raw_header = data hchain, data_block = dblock, data_pages = dpages,
              element_data = dbytes\<rparr>)))))"

fun parse_elements16 ::
  "block_reader \<Rightarrow> nat \<Rightarrow> bytes list \<Rightarrow> format16_error + block_reader \<times> u64 element list" where
  "parse_elements16 r index [] = Ok (r, [])"
| "parse_elements16 r index (raw_address # rest) =
     try_res (parse_element16 r index raw_address) (\<lambda>(r1, e).
     try_res (parse_elements16 r1 (Suc index) rest) (\<lambda>(r2, es). Ok (r2, e # es)))"

definition parse_preamble :: "bytes \<Rightarrow> format16_error + u32 container" where
  "parse_preamble bs =
     (if length bs \<noteq> BASE_OFFSET16
      then Err (F16_InvalidPreambleLength BASE_OFFSET16 (length bs))
      else map_err F16_InvalidPreamble (parse15 bs))"

text \<open>\<open>parse_at\<close> in three parts: the preamble, the primary container, and their assembly.\<close>

definition split_preamble ::
  "bytes \<Rightarrow> nat \<Rightarrow> format16_error + bytes \<times> u32 container option" where
  "split_preamble bs off =
     (if off = 0 then Ok ([], None)
      else let r = take off bs in
        try_res (if off = BASE_OFFSET16 then parse_preamble r
                 else map_err F16_InvalidPreamble (parse15 r)) (\<lambda>parsed.
        Ok (r, Some parsed)))"

definition parse_primary_at ::
  "bytes \<Rightarrow> nat \<Rightarrow> bytes \<Rightarrow> u32 container option \<Rightarrow> format16_error + container16" where
  "parse_primary_at primary off rawp pre =
     (let minimum = FILE_HEADER_SIZE16 + FORMAT16_BLOCK_HEADER_SIZE in
      if length primary < minimum then Err (F16_InputTooShort minimum (length primary))
      else
      try_res (read_file_header16 primary) (\<lambda>fh.
      try_res (map_err F16_Block (reserve64 (block_reader_new primary) 0 20)) (\<lambda>r0.
      try_res (map_err F16_Block (reserve_free_pages64 r0 (file_next_page fh))) (\<lambda>r1.
      try_res (map_err F16_Block (read_chain64 r1 20)) (\<lambda>(r2, toc_chain).
      if length (data toc_chain) mod ELEMENT_ADDRESS_SIZE16 \<noteq> 0
      then Err (F16_TocSizeNotDivisible (data_size (page_header (hd (pages toc_chain)))))
      else
      try_res (parse_elements16 r2 0 (chunks_exact ELEMENT_ADDRESS_SIZE16 (data toc_chain)))
        (\<lambda>(r3, es).
        Ok \<lparr>file_header = fh, toc_block = page_header (hd (pages toc_chain)),
            toc_pages = pages toc_chain, elements = es,
            base_offset = off, raw_preamble = rawp, preamble = pre\<rparr>))))))"

definition parse_at :: "bytes \<Rightarrow> nat \<Rightarrow> format16_error + container16" where
  "parse_at bs off =
     (if off > length bs then Err (F16_BaseOffsetOutOfRange off (length bs))
      else try_res (split_preamble bs off) (\<lambda>(rawp, pre).
        parse_primary_at (drop off bs) off rawp pre))"

definition parse16 :: "bytes \<Rightarrow> format16_error + container16" where
  "parse16 bs = parse_at bs BASE_OFFSET16"

definition parse_primary :: "bytes \<Rightarrow> format16_error + container16" where
  "parse_primary bs = parse_at bs 0"

lemma element_name16_Ok [result_simps]:
  "element_name16 header index = Ok n \<longleftrightarrow> header_name header = Some n"
  by (auto simp: element_name16_def header_name_def name_units_def Let_def ok_or_eq_Inr
      odd_iff_mod_2_eq_one split: if_splits)

end
