(* ===== verification/V8_Container_Laws.thy ===== *)
theory V8_Container_Laws
  imports V8_Format16
begin

text \<open>
  What a parsed container guarantees: its pages do not share a byte, its elements carry what their
  pages hold, and its names are the names in the headers.
\<close>

section \<open>Extents\<close>

type_synonym extent = "nat \<times> nat"

definition page_extent :: "nat \<Rightarrow> ('w \<Rightarrow> nat) \<Rightarrow> 'w block_page \<Rightarrow> extent" where
  "page_extent hsize num p =
     (num (page_address p), num (page_address p) + hsize + num (page_size (page_header p)))"

definition claim_extents :: "block_reader \<Rightarrow> extent list" where
  "claim_extents r = map (\<lambda>c. (range_start c, range_end c)) (claimed r)"

definition extents_apart :: "extent \<Rightarrow> extent \<Rightarrow> bool" where
  "extents_apart x y \<longleftrightarrow> fst y \<noteq> fst x \<and> \<not> (fst y < snd x \<and> fst x < snd y)"

definition element_pages :: "'w element \<Rightarrow> 'w block_page list" where
  "element_pages e = header_pages e @ (case data_pages e of None \<Rightarrow> [] | Some ps \<Rightarrow> ps)"

definition container_pages :: "('w, 'z) container_scheme \<Rightarrow> 'w block_page list" where
  "container_pages c = toc_pages c @ concat (map element_pages (elements c))"

lemma reader_ok_extents:
  "reader_ok r \<Longrightarrow> sorted_wrt extents_apart (claim_extents r) \<and>
     (\<forall>x \<in> set (claim_extents r). snd x \<le> length (input r))"
  unfolding reader_ok_def claims_ok_def claim_extents_def sorted_wrt_map
  by (auto simp: apart_def extents_apart_def elim!: sorted_wrt_mono_rel [rotated])

text \<open>An element as it is read from its pages.\<close>

definition element_sound :: "'w element \<Rightarrow> bool" where
  "element_sound e \<longleftrightarrow> header_name (raw_header e) = Some (name e) \<and>
     (data_address (element_entry e) = None) = (element_data e = None) \<and>
     (data_pages e = None) = (element_data e = None) \<and>
     header_pages e \<noteq> [] \<and> page_address (hd (header_pages e)) = header_address (element_entry e)"

text \<open>The contract of a container's element parser and of the loop over the address table.\<close>

locale element_parser =
  fixes hsize :: nat
    and num :: "'w \<Rightarrow> nat"
    and parse_el :: "block_reader \<Rightarrow> nat \<Rightarrow> bytes \<Rightarrow> 'e + block_reader \<times> 'w element"
    and parse_els :: "block_reader \<Rightarrow> nat \<Rightarrow> bytes list \<Rightarrow> 'e + block_reader \<times> 'w element list"
  assumes parse_el_Ok: "parse_el r i rb = Ok (r', e) \<Longrightarrow>
      claim_extents r' = claim_extents r @ map (page_extent hsize num) (element_pages e) \<and>
      input r' = input r \<and> (reader_ok r \<longrightarrow> reader_ok r') \<and> element_sound e"
    and parse_els_Nil: "parse_els r i [] = Ok (r, [])"
    and parse_els_Cons: "parse_els r i (rb # rest) =
      try_res (parse_el r i rb) (\<lambda>(r1, e).
      try_res (parse_els r1 (Suc i) rest) (\<lambda>(r2, es). Ok (r2, e # es)))"
begin

lemma parse_els_Ok:
  "parse_els r i raws = Ok (r', es) \<Longrightarrow>
     claim_extents r' = claim_extents r @ map (page_extent hsize num) (concat (map element_pages es)) \<and>
     input r' = input r \<and> (reader_ok r \<longrightarrow> reader_ok r') \<and> list_all element_sound es \<and>
     length es = length raws"
proof (induction raws arbitrary: r i es)
  case Nil
  then show ?case by (simp add: parse_els_Nil)
next
  case (Cons rb rest)
  then obtain r1 e es' where e: "parse_el r i rb = Ok (r1, e)"
    and es': "parse_els r1 (Suc i) rest = Ok (r', es')" and es: "es = e # es'"
    by (auto simp: parse_els_Cons result_simps)
  from parse_el_Ok [OF e] Cons.IH [OF es'] show ?case by (simp add: es)
qed

text \<open>From a reader whose first claim is the file header to the pages of a whole container.\<close>

lemma pages_apart:
  assumes els: "parse_els r2 k raws = Ok (r3, es)" and ok: "reader_ok r2"
    and start: "claim_extents r2 = (0, n) # free @ map (page_extent hsize num) toc"
    and pages: "ps = toc @ concat (map element_pages es)"
    and ij: "i < length ps" "j < length ps" "i \<noteq> j" and hpos: "0 < hsize" "0 < n"
  shows "extents_apart (page_extent hsize num (ps ! i)) (page_extent hsize num (ps ! j)) \<and>
    n \<le> num (page_address (ps ! i)) \<and>
    snd (page_extent hsize num (ps ! i)) \<le> length (input r2)"
proof -
  let ?x = "map (page_extent hsize num) ps"
  have x: "claim_extents r3 = (0, n) # free @ ?x" and ok3: "reader_ok r3" and inp: "input r3 = input r2"
    using parse_els_Ok [OF els] ok start by (simp_all add: pages)
  from reader_ok_extents [OF ok3] have s: "sorted_wrt extents_apart ?x"
    "extents_apart (0, n) (?x ! i)" "snd (?x ! i) \<le> length (input r2)"
    using ij(1) by (auto simp: x inp sorted_wrt_append)
  have "extents_apart (?x ! i) (?x ! j)"
  proof (cases "i < j")
    case True
    then show ?thesis using sorted_wrt_nth_less [OF s(1) True] ij by simp
  next
    case False
    then have "j < i" using ij(3) by simp
    from sorted_wrt_nth_less [OF s(1) this] ij have "extents_apart (?x ! j) (?x ! i)" by simp
    then show ?thesis by (auto simp: extents_apart_def)
  qed
  then show ?thesis
    using s(2,3) ij hpos by (auto simp: extents_apart_def page_extent_def)
qed

end

section \<open>The two formats\<close>

lemma read_chain_extents:
  assumes "read_chain r a = Ok (r', c)"
  shows "claim_extents r' = claim_extents r @ map (page_extent 31 unat) (pages c) \<and>
    input r' = input r \<and> pages c \<noteq> [] \<and> page_address (hd (pages c)) = a"
  using assms
  by (auto simp: read_chain_def loop15.loop_iff chain_at_def claim_extents_def range_of_def
      page_extent_def)

lemma read_chain64_extents:
  assumes "read_chain64 r a = Ok (r', c)"
  shows "claim_extents r' = claim_extents r @ map (page_extent 55 unat) (pages c) \<and>
    input r' = input r \<and> pages c \<noteq> [] \<and> page_address (hd (pages c)) = a"
  using assms
  by (auto simp: read_chain64_def loop16.loop_iff chain_at_def claim_extents_def range_of_def
      page_extent_def)

lemma parse_element15_extents:
  assumes "parse_element15 r i rb = Ok (r', e)"
  shows "claim_extents r' = claim_extents r @ map (page_extent 31 unat) (element_pages e) \<and>
    input r' = input r \<and> (reader_ok r \<longrightarrow> reader_ok r') \<and> element_sound e"
proof -
  from assms obtain addr r1 hc n r2 db dp dd where
    h: "read_chain r (header_address addr) = Ok (r1, hc)" and n: "header_name (data hc) = Some n"
    and d: "(case data_address addr of None \<Rightarrow> Ok (r1, None, None, None)
        | Some daddr \<Rightarrow> try_res (map_err F15_Block (read_chain r1 daddr)) (\<lambda>(r2, dchain).
            Ok (r2, Some (page_header (hd (pages dchain))), Some (pages dchain), Some (data dchain))))
        = Ok (r2, db, dp, dd)"
    and e: "r' = r2" "e = \<lparr>name = n, element_entry = addr,
              header_block = page_header (hd (pages hc)), header_pages = pages hc,
              raw_header = data hc, data_block = db, data_pages = dp, element_data = dd\<rparr>"
    by (auto simp: parse_element15_def result_simps split: if_splits)
  note c = read_chain_extents [OF h] read_chain_ok [OF h]
  show ?thesis
  proof (cases "data_address addr")
    case None
    with c d n show ?thesis by (auto simp: e element_pages_def element_sound_def)
  next
    case (Some a)
    with d obtain dc where dc: "read_chain r1 a = Ok (r2, dc)" "dp = Some (pages dc)" "dd = Some (data dc)"
      by (auto simp: result_simps)
    with read_chain_extents [OF dc(1)] read_chain_ok [OF dc(1)] c n Some show ?thesis
      by (auto simp: e element_pages_def element_sound_def)
  qed
qed

lemma parse_element16_extents:
  assumes "parse_element16 r i rb = Ok (r', e)"
  shows "claim_extents r' = claim_extents r @ map (page_extent 55 unat) (element_pages e) \<and>
    input r' = input r \<and> (reader_ok r \<longrightarrow> reader_ok r') \<and> element_sound e"
proof -
  from assms obtain addr r1 hc n r2 db dp dd where
    h: "read_chain64 r (header_address addr) = Ok (r1, hc)" and n: "header_name (data hc) = Some n"
    and d: "(case data_address addr of None \<Rightarrow> Ok (r1, None, None, None)
        | Some daddr \<Rightarrow> try_res (map_err F16_Block (read_chain64 r1 daddr)) (\<lambda>(r2, dchain).
            Ok (r2, Some (page_header (hd (pages dchain))), Some (pages dchain), Some (data dchain))))
        = Ok (r2, db, dp, dd)"
    and e: "r' = r2" "e = \<lparr>name = n, element_entry = addr,
              header_block = page_header (hd (pages hc)), header_pages = pages hc,
              raw_header = data hc, data_block = db, data_pages = dp, element_data = dd\<rparr>"
    by (auto simp: parse_element16_def result_simps split: if_splits)
  note c = read_chain64_extents [OF h] read_chain64_ok [OF h]
  show ?thesis
  proof (cases "data_address addr")
    case None
    with c d n show ?thesis by (auto simp: e element_pages_def element_sound_def)
  next
    case (Some a)
    with d obtain dc where dc: "read_chain64 r1 a = Ok (r2, dc)" "dp = Some (pages dc)" "dd = Some (data dc)"
      by (auto simp: result_simps)
    with read_chain64_extents [OF dc(1)] read_chain64_ok [OF dc(1)] c n Some show ?thesis
      by (auto simp: e element_pages_def element_sound_def)
  qed
qed

interpretation elements15: element_parser 31 unat parse_element15 parse_elements15
  by (unfold_locales, rule parse_element15_extents) simp_all

interpretation elements16: element_parser 55 unat parse_element16 parse_elements16
  by (unfold_locales, rule parse_element16_extents) simp_all

section \<open>Whole containers\<close>

lemma reserve_free_pages_extents:
  assumes "reserve_free_pages_loop r start a sn = Ok r'"
  shows "\<exists>free. claim_extents r' = claim_extents r @ free"
  using assms
proof (induction r start a sn rule: reserve_free_pages_loop.induct)
  case (1 r start a sn)
  show ?case
  proof (cases "a = FORMAT15_SENTINEL")
    case True
    then show ?thesis using "1.prems" by (simp add: reserve_free_pages_loop.simps)
  next
    case False
    obtain h r1 where *: "a \<notin> sn" "read_header (input r) a = Ok h"
        "\<not> data_size h \<noteq> FORMAT15_SENTINEL"
        "ok_or (checked_add64 31 (unat (page_size h))) (RangeOverflow (unat a) (unat (page_size h)))
          = Ok (31 + unat (page_size h))" "\<not> 31 + unat (page_size h) > u32_max"
        "reserve r a (word_of_nat (31 + unat (page_size h))) = Ok r1"
        "reserve_free_pages_loop r1 start (next_page_address h) (insert a sn) = Ok r'"
      using "1.prems" False
      by (subst (asm) reserve_free_pages_loop.simps)
        (auto simp: result_simps simp del: of_nat_add split: if_splits)
    have "\<exists>x. claim_extents r1 = claim_extents r @ [x]"
      using *(6) by (auto simp: reserve_Ok claim_extents_def simp del: of_nat_add)
    with "1.IH" [OF False *] show ?thesis by auto
  qed
qed

lemma reserve_free_pages64_extents:
  assumes "reserve_free_pages_loop64 r start a sn = Ok r'"
  shows "\<exists>free. claim_extents r' = claim_extents r @ free"
  using assms
proof (induction r start a sn rule: reserve_free_pages_loop64.induct)
  case (1 r start a sn)
  show ?case
  proof (cases "a = FORMAT16_SENTINEL")
    case True
    then show ?thesis using "1.prems" by (simp add: reserve_free_pages_loop64.simps)
  next
    case False
    obtain h r1 where *: "a \<notin> sn" "read_header64 (input r) a = Ok h"
        "\<not> data_size h \<noteq> FORMAT16_SENTINEL"
        "ok_or (checked_add64 55 (unat (page_size h))) (RangeOverflow (unat a) (unat (page_size h)))
          = Ok (55 + unat (page_size h))"
        "reserve64 r a (word_of_nat (55 + unat (page_size h))) = Ok r1"
        "reserve_free_pages_loop64 r1 start (next_page_address h) (insert a sn) = Ok r'"
      using "1.prems" False
      by (subst (asm) reserve_free_pages_loop64.simps)
        (auto simp: result_simps simp del: of_nat_add split: if_splits)
    have "\<exists>x. claim_extents r1 = claim_extents r @ [x]"
      using *(5) by (auto simp: reserve64_Ok claim_extents_def simp del: of_nat_add)
    with "1.IH" [OF False *] show ?thesis by auto
  qed
qed

lemma reader_new_ok: "reader_ok (block_reader_new bs)" "input (block_reader_new bs) = bs"
  "claim_extents (block_reader_new bs) = []"
  by (simp_all add: reader_ok_def block_reader_new_def claim_extents_def)

lemma parse15_extents:
  assumes "parse15 bs = Ok c"
  shows "\<exists>r2 r3 free raws. parse_elements15 r2 0 raws = Ok (r3, elements c) \<and> reader_ok r2 \<and>
    input r2 = bs \<and> claim_extents r2 = (0, 16) # free @ map (page_extent 31 unat) (toc_pages c)"
proof -
  from assms obtain a r0 r1 r2 tc r3 where
    r0: "reserve (block_reader_new bs) 0 16 = Ok r0"
    and r1: "reserve_free_pages_loop r0 a a {} = Ok r1"
    and tc: "read_chain r1 16 = Ok (r2, tc)"
    and es: "parse_elements15 r2 0 (chunks_exact 12 (data tc)) = Ok (r3, elements c)"
    and c: "toc_pages c = pages tc"
    by (fastforce simp: parse15_def Let_def result_simps reserve_free_pages_def split: if_splits)
  have 0: "reader_ok r0" "input r0 = bs" "claim_extents r0 = [(0, 16)]"
    using r0 reserve_ok [OF r0] reader_new_ok
    by (auto simp: reserve_Ok claim_extents_def block_reader_new_def)
  have 1: "reader_ok r1" "input r1 = bs"
    using reserve_free_pages_loop_ok [OF r1] 0 by auto
  obtain free where free: "claim_extents r1 = (0, 16) # free"
    using reserve_free_pages_extents [OF r1] 0 by auto
  have 2: "reader_ok r2" "input r2 = bs" using read_chain_ok [OF tc] 1 by auto
  show ?thesis
    using es c 2 free read_chain_extents [OF tc]
    by (intro exI [of _ r2] exI [of _ r3] exI [of _ free] exI [of _ "chunks_exact 12 (data tc)"]) simp
qed

lemma parse_primary_at_extents:
  assumes "parse_primary_at bs off rawp pre = Ok c"
  shows "\<exists>r2 r3 free raws. parse_elements16 r2 0 raws = Ok (r3, elements c) \<and> reader_ok r2 \<and>
    input r2 = bs \<and> claim_extents r2 = (0, 20) # free @ map (page_extent 55 unat) (toc_pages c)"
proof -
  from assms obtain a r0 r1 r2 tc r3 where
    r0: "reserve64 (block_reader_new bs) 0 20 = Ok r0"
    and r1: "reserve_free_pages_loop64 r0 a a {} = Ok r1"
    and tc: "read_chain64 r1 20 = Ok (r2, tc)"
    and es: "parse_elements16 r2 0 (chunks_exact 24 (data tc)) = Ok (r3, elements c)"
    and c: "toc_pages c = pages tc"
    by (fastforce simp: parse_primary_at_def Let_def result_simps reserve_free_pages64_def split: if_splits)
  have 0: "reader_ok r0" "input r0 = bs" "claim_extents r0 = [(0, 20)]"
    using r0 reserve64_ok [OF r0] reader_new_ok
    by (auto simp: reserve64_Ok claim_extents_def block_reader_new_def)
  have 1: "reader_ok r1" "input r1 = bs"
    using reserve_free_pages_loop64_ok [OF r1] 0 by auto
  obtain free where free: "claim_extents r1 = (0, 20) # free"
    using reserve_free_pages64_extents [OF r1] 0 by auto
  have 2: "reader_ok r2" "input r2 = bs" using read_chain64_ok [OF tc] 1 by auto
  show ?thesis
    using es c 2 free read_chain64_extents [OF tc]
    by (intro exI [of _ r2] exI [of _ r3] exI [of _ free] exI [of _ "chunks_exact 24 (data tc)"]) simp
qed

lemma container_pages_length:
  "list_all element_sound (elements c) \<Longrightarrow> length (elements c) \<le> length (container_pages c)"
proof -
  have "list_all element_sound es \<Longrightarrow> length es \<le> length (concat (map element_pages es))" for es :: "'a element list"
  proof (induction es)
    case (Cons e es)
    then have "header_pages e \<noteq> []" by (simp add: element_sound_def)
    then have "0 < length (element_pages e)" by (simp add: element_pages_def)
    moreover have "length es \<le> length (concat (map element_pages es))" using Cons by simp
    ultimately have "Suc (length es) \<le> length (element_pages e) + length (concat (map element_pages es))"
      by linarith
    then show ?case by simp
  qed simp
  then show "list_all element_sound (elements c) \<Longrightarrow> length (elements c) \<le> length (container_pages c)"
    by (fastforce simp: container_pages_def)
qed

lemma parse15_sound: "parse15 bs = Ok c \<Longrightarrow> list_all element_sound (elements c)"
  using parse15_extents elements15.parse_els_Ok by blast

lemma parse_at_sound: "parse_at bs off = Ok c \<Longrightarrow> list_all element_sound (elements c)"
proof -
  assume "parse_at bs off = Ok c"
  then obtain rawp pre where "parse_primary_at (drop off bs) off rawp pre = Ok c"
    by (auto simp: parse_at_def result_simps split: if_splits)
  from parse_primary_at_extents [OF this] elements16.parse_els_Ok
  show "list_all element_sound (elements c)" by blast
qed

end
