(* ===== verification/V8_Image.thy ===== *)
theory V8_Image
  imports V8_Header_Text
begin

text \<open>
  The image of a chain in a file: its pages one after another, each a header text, the page's
  share of the payload and zero padding.  Both writers produce such images.  The locale
  \<open>chain_format\<close> adds the header text to the contract of a chained-page reader and proves that
  the reader, met with an image whose extent nothing claims, returns the payload.
\<close>

section \<open>Images\<close>

text \<open>A segment is the page size of a page and the payload bytes it carries.\<close>

type_synonym segment = "nat \<times> bytes"

fun chain_image :: "nat \<Rightarrow> nat \<Rightarrow> nat \<Rightarrow> nat \<Rightarrow> segment list \<Rightarrow> bytes" where
  "chain_image w sent a fs [] = []"
| "chain_image w sent a fs ((ps, d) # rest) =
     header_text w fs ps (if rest = [] then sent else a + (3 * w + 7) + ps)
       @ d @ replicate (ps - length d) 0
       @ chain_image w sent (a + (3 * w + 7) + ps) 0 rest"

definition segments_payload :: "segment list \<Rightarrow> bytes" where
  "segments_payload segs = concat (map snd segs)"

definition segments_extent :: "nat \<Rightarrow> segment list \<Rightarrow> nat" where
  "segments_extent w segs = sum_list (map (\<lambda>s. 3 * w + 7 + fst s) segs)"

text \<open>Every segment but the last is full and leaves something to the next ones.\<close>

fun good_segments :: "segment list \<Rightarrow> bool" where
  "good_segments [] \<longleftrightarrow> False"
| "good_segments [(ps, d)] \<longleftrightarrow> length d \<le> ps"
| "good_segments ((ps, d) # s # rest) \<longleftrightarrow>
     length d = ps \<and> 0 < ps \<and> segments_payload (s # rest) \<noteq> [] \<and> good_segments (s # rest)"

lemma segments_payload_simps [simp]:
  "segments_payload [] = []"
  "segments_payload ((ps, d) # segs) = d @ segments_payload segs"
  by (simp_all add: segments_payload_def)

lemma segments_extent_simps [simp]:
  "segments_extent w [] = 0"
  "segments_extent w ((ps, d) # segs) = 3 * w + 7 + ps + segments_extent w segs"
  by (simp_all add: segments_extent_def)

lemma good_segments_tl: "good_segments ((ps, d) # segs) \<Longrightarrow> segs \<noteq> [] \<Longrightarrow> good_segments segs"
  by (cases segs) auto

lemma good_segments_len: "good_segments ((ps, d) # segs) \<Longrightarrow> length d \<le> ps"
  by (cases segs) auto

lemma segments_payload_extent:
  "good_segments segs \<Longrightarrow> length (segments_payload segs) \<le> segments_extent w segs"
proof (induction segs)
  case Nil
  then show ?case by simp
next
  case (Cons s segs)
  obtain ps d where s: "s = (ps, d)" by (cases s)
  show ?case
    using Cons.IH Cons.prems good_segments_len [of ps d segs] good_segments_tl [of ps d segs]
    by (cases "segs = []") (auto simp: s)
qed

lemma length_chain_image:
  assumes "good_segments segs" "0 < w" "fs < 16 ^ w" "sent < 16 ^ w"
    "a + segments_extent w segs \<le> sent"
  shows "length (chain_image w sent a fs segs) = segments_extent w segs"
  using assms
proof (induction segs arbitrary: a fs)
  case Nil
  then show ?case by simp
next
  case (Cons s segs)
  obtain ps d where s: "s = (ps, d)" by (cases s)
  have "length d \<le> ps" using Cons.prems(1) by (simp add: s good_segments_len)
  moreover have "length (chain_image w sent (a + (3 * w + 7) + ps) 0 segs) = segments_extent w segs"
    using Cons.IH [of 0 "a + (3 * w + 7) + ps"] Cons.prems
    by (cases "segs = []") (auto simp: s intro: good_segments_tl)
  ultimately show ?case
    using Cons.prems by (simp add: s length_header_text)
qed

text \<open>Every claim of the reader ends at or below the address.\<close>

definition claims_below :: "nat \<Rightarrow> block_reader \<Rightarrow> bool" where
  "claims_below a r \<longleftrightarrow> (\<forall>x \<in> set (claimed r). range_start x < range_end x \<and> range_end x \<le> a)"

section \<open>The pages of an image\<close>

locale chain_format = chain_loop hsize num sentinel hdr step loop
  for hsize :: nat
    and num :: "'w \<Rightarrow> nat"
    and sentinel :: "'w"
    and hdr :: "bytes \<Rightarrow> 'w \<Rightarrow> block_error + 'w block_header"
    and step :: "block_reader \<Rightarrow> 'w \<Rightarrow> 'w chain_state
        \<Rightarrow> block_error + ('w chain_state, block_reader \<times> 'w block_chain) progress"
    and loop :: "block_reader \<Rightarrow> 'w \<Rightarrow> 'w chain_state \<Rightarrow> block_error + block_reader \<times> 'w block_chain" +
  fixes w :: nat
    and of_num :: "nat \<Rightarrow> 'w"
    and cap :: nat
  assumes w_pos: "0 < w" and hsize_eq: "hsize = 3 * w + 7"
    and num_of: "n \<le> cap \<Longrightarrow> num (of_num n) = n"
    and of_num_num: "of_num (num x) = x"
    and num_cap: "num x \<le> cap" and cap_bound: "cap < 16 ^ w" "cap \<le> u64_max"
    and hdr_text: "num addr + hsize \<le> length bs \<Longrightarrow> length bs \<le> u64_max \<Longrightarrow>
      slice (num addr) (num addr + hsize) bs = header_text w fs ps nx \<Longrightarrow>
      fs \<le> cap \<Longrightarrow> ps \<le> cap \<Longrightarrow> nx \<le> cap \<Longrightarrow>
      hdr bs addr = Ok \<lparr>raw = header_text w fs ps nx, data_size = of_num fs,
        page_size = of_num ps, next_page_address = of_num nx\<rparr>"
begin

fun image_pages :: "nat \<Rightarrow> nat \<Rightarrow> segment list \<Rightarrow> 'w block_page list" where
  "image_pages a fs [] = []"
| "image_pages a fs ((ps, d) # rest) =
     (let next = (if rest = [] then num sentinel else a + hsize + ps) in
      \<lparr>page_address = of_num a,
       page_header = \<lparr>raw = header_text w fs ps next, data_size = of_num fs,
         page_size = of_num ps, next_page_address = of_num next\<rparr>,
       data_length = length d\<rparr> # image_pages (a + hsize + ps) 0 rest)"

definition fits :: "nat \<Rightarrow> segment list \<Rightarrow> bool" where
  "fits a segs \<longleftrightarrow> a + segments_extent w segs \<le> num sentinel"

lemma fits_Cons:
  assumes "fits a ((ps, d) # segs)"
  shows "fits (a + hsize + ps) segs" "a \<le> cap" "ps \<le> cap" "a + hsize + ps \<le> cap" "a < num sentinel"
    "a + hsize + ps \<le> num sentinel"
  using assms num_cap [of sentinel] w_pos by (simp_all add: fits_def hsize_eq)

lemma image_readable:
  assumes "good_segments segs" "fits a segs" "fs \<le> cap"
    and "bs = pre @ chain_image w (num sentinel) a fs segs @ post" "length pre = a"
    and "length bs \<le> u64_max"
  shows "(\<forall>p \<in> set (image_pages a fs segs). page_readable hsize num hdr bs p) \<and>
    concat (map (payload_of hsize num bs) (image_pages a fs segs)) = segments_payload segs"
  using assms
proof (induction segs arbitrary: a fs pre)
  case Nil
  then show ?case by simp
next
  case (Cons s segs)
  obtain ps d where s: "s = (ps, d)" by (cases s)
  define nx where "nx = (if segs = [] then num sentinel else a + hsize + ps)"
  define img where "img = chain_image w (num sentinel) (a + hsize + ps) 0 segs"
  note f = fits_Cons [OF Cons.prems(2) [unfolded s]]
  have nx: "nx \<le> cap" using f num_cap by (simp add: nx_def)
  have d: "length d \<le> ps" using Cons.prems(1) by (simp add: s good_segments_len)
  have ht: "length (header_text w fs ps nx) = hsize"
    using length_header_text [OF w_pos] Cons.prems(3) f(3) nx cap_bound by (simp add: hsize_eq)
  have bs: "bs = pre @ header_text w fs ps nx @ d @ replicate (ps - length d) 0 @ img @ post"
    using Cons.prems(4) by (simp add: s nx_def hsize_eq img_def)
  have an: "num (of_num a) = a" using f(2) by (simp add: num_of)
  have slh: "slice a (a + hsize) bs = header_text w fs ps nx"
    unfolding bs using Cons.prems(5) ht by (intro slice_append_mid) simp_all
  have sld: "slice (a + hsize) (a + hsize + length d) bs = d"
    unfolding bs using Cons.prems(5) ht slice_append_mid [of "pre @ header_text w fs ps nx"]
    by simp
  have len: "a + hsize + ps \<le> length bs"
    unfolding bs using Cons.prems(5) ht d by simp
  have hd: "hdr bs (of_num a) = Ok \<lparr>raw = header_text w fs ps nx, data_size = of_num fs,
      page_size = of_num ps, next_page_address = of_num nx\<rparr>"
    using slh len Cons.prems(3,6) f(3) nx by (intro hdr_text) (simp_all add: an)
  have rest: "(\<forall>p \<in> set (image_pages (a + hsize + ps) 0 segs). page_readable hsize num hdr bs p) \<and>
      concat (map (payload_of hsize num bs) (image_pages (a + hsize + ps) 0 segs)) = segments_payload segs"
  proof (cases "segs = []")
    case True
    then show ?thesis by simp
  next
    case False
    show ?thesis
    proof (rule Cons.IH)
      show "good_segments segs" using Cons.prems(1) False by (auto simp: s intro: good_segments_tl)
      show "bs = (pre @ header_text w fs ps nx @ d @ replicate (ps - length d) 0) @
          chain_image w (num sentinel) (a + hsize + ps) 0 segs @ post"
        by (simp add: bs img_def)
      show "length (pre @ header_text w fs ps nx @ d @ replicate (ps - length d) 0) = a + hsize + ps"
        using Cons.prems(5) ht d by simp
    qed (use f Cons.prems(6) in simp_all)
  qed
  define q where "q = hd (image_pages a fs (s # segs))"
  have q: "image_pages a fs (s # segs) = q # image_pages (a + hsize + ps) 0 segs"
    by (simp add: q_def s Let_def)
  have "page_readable hsize num hdr bs q"
    using hd len Cons.prems(6) f(3)
    by (simp add: q_def s Let_def page_readable_def an num_of flip: nx_def)
  moreover have "payload_of hsize num bs q = d"
    using sld by (simp add: q_def s Let_def payload_of_def an)
  ultimately show ?case
    using rest unfolding q by (simp add: s)
qed

lemma image_run:
  assumes "good_segments segs" "fits a segs"
  shows "page_run num sentinel (got + length (segments_payload segs)) got (image_pages a fs segs)"
  using assms
proof (induction segs arbitrary: a fs got rule: good_segments.induct)
  case 1
  then show ?case by simp
next
  case (2 ps d)
  then show ?case using fits_Cons [OF "2.prems"(2)]
    by (simp add: page_run_one num_of of_num_num)
next
  case (3 ps d t rest)
  obtain ps' d' where t: "t = (ps', d')" by (cases t)
  note f = fits_Cons [OF "3.prems"(2)]
  note f' = fits_Cons [OF f(1) [unfolded t]]
  have len: "length d = ps" "0 < ps" "segments_payload (t # rest) \<noteq> []" "good_segments (t # rest)"
    using "3.prems"(1) by simp_all
  have IH: "page_run num sentinel (got + length d + length (segments_payload (t # rest)))
      (got + length d) (image_pages (a + hsize + ps) 0 (t # rest))"
    using "3.IH" [OF len(4) f(1)] .
  have ns: "of_num (a + hsize + ps) \<noteq> sentinel"
  proof
    assume "of_num (a + hsize + ps) = sentinel"
    then have "num sentinel = a + hsize + ps" using num_of [OF f(4)] by simp
    with f'(5) show False by simp
  qed
  show ?case
    using IH len(1-3) f(3) ns
    by (simp add: t Let_def page_run_more num_of min_def add.assoc)
qed

lemma image_clear:
  assumes "good_segments segs" "fits a segs"
    and "\<forall>c \<in> set cs. range_start c < range_end c \<and> range_end c \<le> a"
  shows "clear_run cs (map (range_of hsize num st) (image_pages a fs segs)) \<and>
    (\<forall>c \<in> set (map (range_of hsize num st) (image_pages a fs segs)).
       range_start c < range_end c \<and> range_end c \<le> a + segments_extent w segs)"
  using assms
proof (induction segs arbitrary: a fs cs)
  case Nil
  then show ?case by simp
next
  case (Cons s segs)
  obtain ps d where s: "s = (ps, d)" by (cases s)
  note f = fits_Cons [OF Cons.prems(2) [unfolded s]]
  define p where "p = \<lparr>range_start = a, range_end = a + hsize + ps, owner = st\<rparr>"
  have r: "range_of hsize num st (hd (image_pages a fs (s # segs))) = p"
    using f by (simp add: s Let_def range_of_def p_def num_of)
  have "clear_run (cs @ [p]) (map (range_of hsize num st) (image_pages (a + hsize + ps) 0 segs)) \<and>
    (\<forall>c \<in> set (map (range_of hsize num st) (image_pages (a + hsize + ps) 0 segs)).
       range_start c < range_end c \<and> range_end c \<le> a + hsize + ps + segments_extent w segs)"
  proof (cases "segs = []")
    case True
    then show ?thesis by simp
  next
    case False
    then show ?thesis
      using Cons.prems f w_pos
      by (intro Cons.IH) (auto simp: s p_def hsize_eq intro: good_segments_tl dest!: bspec)
  qed
  moreover have "clear_of a (a + hsize + ps) cs"
    by (rule clear_of_above [OF Cons.prems(3)])
  moreover have "map (range_of hsize num st) (image_pages a fs (s # segs)) =
      p # map (range_of hsize num st) (image_pages (a + hsize + ps) 0 segs)"
    using r by (simp add: s Let_def)
  moreover have "a + segments_extent w (s # segs) = a + hsize + ps + segments_extent w segs"
    "0 < hsize" "range_start p = a" "range_end p = a + hsize + ps"
    using w_pos by (simp_all add: s hsize_eq p_def)
  ultimately show ?case by auto
qed

text \<open>Reading the chain whose image stands at \<open>a\<close>, when every claim ends at or below \<open>a\<close>.\<close>

lemma read_image:
  assumes good: "good_segments segs" and fits: "fits a segs"
    and fs: "length (segments_payload segs) \<le> cap"
    and bs: "input r = pre @ chain_image w (num sentinel) a (length (segments_payload segs)) segs @ post"
      "length pre = a"
    and small: "length (input r) \<le> u64_max"
    and below: "\<forall>c \<in> set (claimed r). range_start c < range_end c \<and> range_end c \<le> a"
  shows "\<exists>r' c. loop r (of_num a) (initial_chain_state (of_num a)) = Ok (r', c) \<and>
    data c = segments_payload segs \<and> input r' = input r \<and> pages c \<noteq> [] \<and>
    (\<forall>c \<in> set (claimed r'). range_start c < range_end c \<and> range_end c \<le> a + segments_extent w segs)"
proof -
  let ?n = "length (segments_payload segs)"
  define c where "c = \<lparr>chain_size = of_num ?n, pages = image_pages a ?n segs,
    data = segments_payload segs\<rparr>"
  define r' where "r' = r\<lparr>claimed := claimed r @ map (range_of hsize num (num (of_num a))) (pages c)\<rparr>"
  obtain ps d segs' where segs: "segs = (ps, d) # segs'"
    using good by (cases segs) auto
  note readable = image_readable [OF good fits fs bs small]
  have run: "page_run num sentinel ?n 0 (image_pages a ?n segs)"
    using image_run [OF good fits, of 0 ?n] by simp
  note clear = image_clear [OF good fits below, of "num (of_num a)" ?n]
  have hd: "page_address (hd (image_pages a ?n segs)) = of_num a"
    "data_size (page_header (hd (image_pages a ?n segs))) = of_num ?n"
    "image_pages a ?n segs \<noteq> []"
    by (simp_all add: segs Let_def)
  have "chain_at hsize num sentinel hdr r (of_num a) c"
    unfolding chain_at_def c_def using readable run clear hd num_of [OF fs] by simp
  then have "loop r (of_num a) (initial_chain_state (of_num a)) = Ok (r', c)"
    by (simp add: loop_iff r'_def)
  moreover have "\<forall>c \<in> set (claimed r'). range_start c < range_end c
      \<and> range_end c \<le> a + segments_extent w segs"
    using below clear by (auto simp: r'_def c_def)
  ultimately show ?thesis
    using hd by (intro exI [of _ r'] exI [of _ c]) (simp add: c_def r'_def)
qed

end

section \<open>The two formats\<close>

interpretation format15: chain_format 31 unat FORMAT15_SENTINEL read_header read_chain_step
    read_chain_loop 8 word_of_nat u32_max
proof unfold_locales
  show "unat x \<le> u32_max" for x :: u32 by (rule unat_u32_le)
  show "read_header bs addr = Ok \<lparr>raw = header_text 8 fs ps nx, data_size = word_of_nat fs,
      page_size = word_of_nat ps, next_page_address = word_of_nat nx\<rparr>"
    if "unat addr + 31 \<le> length bs" "length bs \<le> u64_max"
      "slice (unat addr) (unat addr + 31) bs = header_text 8 fs ps nx"
      "fs \<le> u32_max" "ps \<le> u32_max" "nx \<le> u32_max" for addr bs fs ps nx
    using that by (intro read_header_text)
qed (simp_all add: unat_of_nat_u32)

interpretation format16: chain_format 55 unat FORMAT16_SENTINEL read_header64 read_chain_step64
    read_chain_loop64 16 word_of_nat u64_max
proof unfold_locales
  show "unat x \<le> u64_max" for x :: u64 by (rule unat_u64_le)
  show "read_header64 bs addr = Ok \<lparr>raw = header_text 16 fs ps nx, data_size = word_of_nat fs,
      page_size = word_of_nat ps, next_page_address = word_of_nat nx\<rparr>"
    if "unat addr + 55 \<le> length bs" "length bs \<le> u64_max"
      "slice (unat addr) (unat addr + 55) bs = header_text 16 fs ps nx"
      "fs \<le> u64_max" "ps \<le> u64_max" "nx \<le> u64_max" for addr bs fs ps nx
    using that by (intro read_header64_text)
qed (simp_all add: unat_of_nat_u64)

end
