(* ===== verification/V8_Sink.thy ===== *)
theory V8_Sink
  imports V8_Image
begin

text \<open>
  The byte sinks and sources of \<open>crates/ibcmd-v8/src/writer.rs\<close>.  A sink (\<open>std::io::Write\<close>) is
  its \<open>write_all\<close>, a function from the sink's state and the bytes to an error kind or the new
  state; the writers are generic in it, and the locale \<open>write_sink\<close> is the documented contract
  of a successful \<open>write_all\<close>.
\<close>

text \<open>\<open>std::io::ErrorKind\<close>: the kinds the code itself relies on, and a code for every other.\<close>

datatype io_error_kind = UnexpectedEof | WriteZero | AlreadyExists | OtherErrorKind nat

type_synonym 's sink = "'s \<Rightarrow> bytes \<Rightarrow> io_error_kind + 's"

abbreviation ZERO_BUFFER_LEN :: nat where "ZERO_BUFFER_LEN \<equiv> 8192"

text \<open>The contract of \<open>write_all\<close>: when it succeeds, all bytes were appended.\<close>

locale write_sink =
  fixes wr :: "'s sink" and contents :: "'s \<Rightarrow> bytes"
  assumes wr_appends: "wr s bs = Ok s' \<Longrightarrow> contents s' = contents s @ bs"

text \<open>A sink that never fails.\<close>

locale total_sink = write_sink +
  assumes wr_total: "\<exists>s'. wr s bs = Ok s'"

text \<open>\<open>Vec<u8>\<close> as a sink, and the contract's first provider.\<close>

definition vec_write :: "bytes sink" where
  "vec_write v bs = Ok (v @ bs)"

interpretation vec: total_sink vec_write "\<lambda>v. v"
  by unfold_locales (simp_all add: vec_write_def)

section \<open>Sources\<close>

text \<open>\<open>Read::read_exact\<close> of a source: the next bytes and the advanced source, or the error kind.
  Its contract: it delivers the next bytes of the source's content when there are enough of them,
  and a success delivers nothing else.\<close>

type_synonym 'r source = "'r \<Rightarrow> nat \<Rightarrow> io_error_kind + bytes \<times> 'r"

locale byte_source =
  fixes rd :: "'r source" and content :: "'r \<Rightarrow> bytes"
  assumes rd_next: "rd r n = Ok (bs, r') \<Longrightarrow>
      n \<le> length (content r) \<and> bs = take n (content r) \<and> content r' = drop n (content r)"
    and rd_enough: "n \<le> length (content r) \<Longrightarrow> \<exists>x. rd r n = Ok x"
begin

lemma rd_take: "n \<le> length (content r) \<Longrightarrow>
    \<exists>r'. rd r n = Ok (take n (content r), r') \<and> content r' = drop n (content r)"
  using rd_enough rd_next by fastforce

end

text \<open>\<open>Cursor<&[u8]>\<close>: the bytes that are left.\<close>

definition cursor_read_exact :: "bytes source" where
  "cursor_read_exact bs n = (if n \<le> length bs then Ok (take n bs, drop n bs) else Err UnexpectedEof)"

interpretation cursor: byte_source cursor_read_exact "\<lambda>bs. bs"
  by unfold_locales (auto simp: cursor_read_exact_def split: if_splits)

text \<open>A boxed reader: it yields its bytes, and then the end of the stream (\<open>UnexpectedEof\<close> for
  \<open>read_exact\<close>) or whatever error it fails with.\<close>

record boxed_reader =
  yields :: bytes
  then_fails :: io_error_kind

definition boxed_read_exact :: "boxed_reader source" where
  "boxed_read_exact r n =
     (if n \<le> length (yields r) then Ok (take n (yields r), r\<lparr>yields := drop n (yields r)\<rparr>)
      else Err (then_fails r))"

interpretation boxed: byte_source boxed_read_exact yields
  by unfold_locales (auto simp: boxed_read_exact_def split: if_splits)

end
