(* ===== verification/V8_Writer15.thy ===== *)
theory V8_Writer15
  imports V8_Sink V8_Format15
begin

text \<open>
  The Format15 writer of \<open>crates/ibcmd-v8/src/writer.rs\<close>: documents, their validation, the plan
  (every address is decided before a byte is written), and the emission of the plan to a sink.
\<close>

section \<open>Documents\<close>

record format15_element =
  header15 :: bytes
  data15 :: "bytes option"

record format15_document =
  doc15_page_size :: u32
  doc15_storage_version :: u32
  doc15_reserved :: u32
  doc15_tail_padding :: u32
  doc15_elements :: "format15_element list"

record write_report =
  bytes_written :: nat
  entries_written :: nat
  pages_written :: nat

datatype writer_error =
    W15_ZeroPageSize
  | W15_PageSizeUsesSentinel u32
  | W15_ElementCountOverflow nat
  | W15_LogicalSizeOverflow string nat
  | W15_AddressSpaceExceeded (w15_attempted_end: nat) (w15_maximum: nat)
  | W15_InvalidElementHeader nat string
  | W15_Io string io_error_kind
  | W15_InternalPlanMismatch

definition make_element_header :: "ustr \<Rightarrow> bytes" where
  "make_element_header n =
     replicate ELEMENT_HEADER_PREFIX_SIZE 0 @ utf16_bytes (encode_utf16 n) @ [0, 0, 0, 0]"

definition element15_named :: "ustr \<Rightarrow> bytes option \<Rightarrow> format15_element" where
  "element15_named n d = \<lparr>header15 = make_element_header n, data15 = d\<rparr>"

definition document15_new :: "u32 \<Rightarrow> format15_element list \<Rightarrow> format15_document" where
  "document15_new version es =
     \<lparr>doc15_page_size = DEFAULT_PAGE_SIZE15, doc15_storage_version = version, doc15_reserved = 0,
      doc15_tail_padding = 0, doc15_elements = es\<rparr>"

definition document15_from_container :: "u32 container \<Rightarrow> format15_document" where
  "document15_from_container c =
     \<lparr>doc15_page_size = file_page_size (file_header c),
      doc15_storage_version = storage_version (file_header c),
      doc15_reserved = file_reserved (file_header c), doc15_tail_padding = 0,
      doc15_elements =
        map (\<lambda>e. \<lparr>header15 = raw_header e, data15 = element_data e\<rparr>) (elements c)\<rparr>"

definition with_tail_padding :: "format15_document \<Rightarrow> u32 \<Rightarrow> format15_document" where
  "with_tail_padding d tp = d\<lparr>doc15_tail_padding := tp\<rparr>"

section \<open>Validation\<close>

definition validate_element_header15 :: "bytes \<Rightarrow> nat \<Rightarrow> writer_error + unit" where
  "validate_element_header15 header index =
     (if length header < ELEMENT_HEADER_PREFIX_SIZE
      then Err (W15_InvalidElementHeader index ''shorter than the 20-byte prefix'')
      else let n = drop ELEMENT_HEADER_PREFIX_SIZE header in
        if length n mod 2 \<noteq> 0
        then Err (W15_InvalidElementHeader index ''UTF-16LE name region has odd length'')
        else try_res (ok_or (from_utf16 (takeWhile (\<lambda>u. u \<noteq> 0) (utf16_units n)))
               (W15_InvalidElementHeader index ''name is invalid UTF-16LE'')) (\<lambda>_. Ok ()))"

fun validate_headers15 :: "nat \<Rightarrow> format15_element list \<Rightarrow> writer_error + unit" where
  "validate_headers15 index [] = Ok ()"
| "validate_headers15 index (e # es) =
     try_res (validate_element_header15 (header15 e) index) (\<lambda>_.
     validate_headers15 (Suc index) es)"

definition validate_document15 :: "format15_document \<Rightarrow> writer_error + unit" where
  "validate_document15 d =
     (if doc15_page_size d = 0 then Err W15_ZeroPageSize
      else if doc15_page_size d \<ge> FORMAT15_SENTINEL
      then Err (W15_PageSizeUsesSentinel (doc15_page_size d))
      else validate_headers15 0 (doc15_elements d))"

section \<open>The plan\<close>

datatype chain_policy = Compact | Padded

record planned_page =
  plan_address :: nat
  plan_page_size :: u32
  plan_data_length :: nat
  plan_next :: u32

record planned_chain =
  plan_data_size :: u32
  plan_pages :: "planned_page list"

record planned_element =
  plan_header :: planned_chain
  plan_data :: "planned_chain option"

record format15_plan =
  plan_toc :: planned_chain
  plan_elements :: "planned_element list"
  plan_bytes_written :: nat
  plan_pages_written :: nat

definition checked_address :: "nat \<Rightarrow> writer_error + u32" where
  "checked_address a =
     (if a \<ge> unat FORMAT15_SENTINEL
      then Err (W15_AddressSpaceExceeded a (unat FORMAT15_SENTINEL))
      else Ok (word_of_nat a))"

text \<open>The page loop of \<open>plan_chain\<close>: \<open>count\<close> pages from \<open>cursor\<close> on.\<close>

fun plan_chain_pages15 ::
  "nat \<Rightarrow> nat \<Rightarrow> nat \<Rightarrow> u32 \<Rightarrow> chain_policy \<Rightarrow> writer_error + planned_page list \<times> nat" where
  "plan_chain_pages15 0 cursor remaining cfg policy = Ok ([], cursor)"
| "plan_chain_pages15 (Suc count) cursor remaining cfg policy =
     (let dlen = min remaining (unat cfg);
          psize = (case policy of Compact \<Rightarrow> word_of_nat dlen | Padded \<Rightarrow> cfg) in
      if cursor \<ge> unat FORMAT15_SENTINEL
      then Err (W15_AddressSpaceExceeded cursor (unat FORMAT15_SENTINEL))
      else
      try_res (ok_or (checked_add64 cursor (FORMAT15_BLOCK_HEADER_SIZE + unat psize))
                 (W15_AddressSpaceExceeded u64_max (unat FORMAT15_SENTINEL))) (\<lambda>pend.
      if pend > unat FORMAT15_SENTINEL
      then Err (W15_AddressSpaceExceeded pend (unat FORMAT15_SENTINEL))
      else
      try_res (plan_chain_pages15 count pend (remaining - dlen) cfg policy) (\<lambda>(ps, cursor').
      Ok (\<lparr>plan_address = cursor, plan_page_size = psize, plan_data_length = dlen,
           plan_next = FORMAT15_SENTINEL\<rparr> # ps, cursor'))))"

text \<open>The second loop: every page but the last gets the address of its successor.\<close>

fun link_pages15 :: "planned_page list \<Rightarrow> writer_error + planned_page list" where
  "link_pages15 (p # q # ps) =
     try_res (checked_address (plan_address q)) (\<lambda>nx.
     try_res (link_pages15 (q # ps)) (\<lambda>rest.
     Ok (p\<lparr>plan_next := nx\<rparr> # rest)))"
| "link_pages15 ps = Ok ps"

definition div_ceil :: "nat \<Rightarrow> nat \<Rightarrow> nat" where
  "div_ceil a b = (if a mod b = 0 then a div b else a div b + 1)"

definition plan_chain15 ::
  "nat \<Rightarrow> nat \<Rightarrow> u32 \<Rightarrow> chain_policy \<Rightarrow> string \<Rightarrow> writer_error + planned_chain \<times> nat" where
  "plan_chain15 cursor logical_size cfg policy kind =
     (if logical_size > u32_max then Err (W15_LogicalSizeOverflow kind logical_size)
      else
      let count = (if logical_size = 0 then 1 else div_ceil logical_size (unat cfg)) in
      try_res (plan_chain_pages15 count cursor logical_size cfg policy) (\<lambda>(ps, cursor').
      try_res (link_pages15 ps) (\<lambda>linked.
      Ok (\<lparr>plan_data_size = word_of_nat logical_size, plan_pages = linked\<rparr>, cursor'))))"

fun plan_elements15 ::
  "nat \<Rightarrow> u32 \<Rightarrow> format15_element list \<Rightarrow> writer_error + planned_element list \<times> nat" where
  "plan_elements15 cursor cfg [] = Ok ([], cursor)"
| "plan_elements15 cursor cfg (e # es) =
     try_res (plan_chain15 cursor (length (header15 e)) cfg Compact ''element header'') (\<lambda>(h, c1).
     try_res
       (case data15 e of
          None \<Rightarrow> Ok (None, c1)
        | Some d \<Rightarrow>
            try_res (plan_chain15 c1 (length d) cfg Padded ''element data'') (\<lambda>(ch, c2).
            Ok (Some ch, c2))) (\<lambda>(d, c2).
     try_res (plan_elements15 c2 cfg es) (\<lambda>(pes, c3).
     Ok (\<lparr>plan_header = h, plan_data = d\<rparr> # pes, c3))))"

fun map_last :: "('a \<Rightarrow> 'e + 'a) \<Rightarrow> 'a list \<Rightarrow> 'e + 'a list" where
  "map_last f [] = Ok []"
| "map_last f [x] = try_res (f x) (\<lambda>y. Ok [y])"
| "map_last f (x # y # ys) = try_res (map_last f (y # ys)) (\<lambda>zs. Ok (x # zs))"

text \<open>The reservation on the final page: \<open>final_page.page_size\<close> grows by the tail padding.\<close>

definition pad_page15 :: "u32 \<Rightarrow> planned_page \<Rightarrow> writer_error + planned_page" where
  "pad_page15 tp p =
     (let grown = unat (plan_page_size p) + unat tp in
      if grown > u32_max then Err (W15_PageSizeUsesSentinel FORMAT15_SENTINEL)
      else if grown \<ge> unat FORMAT15_SENTINEL then Err (W15_PageSizeUsesSentinel (word_of_nat grown))
      else Ok (p\<lparr>plan_page_size := word_of_nat grown\<rparr>))"

definition pad_chain15 :: "u32 \<Rightarrow> planned_chain \<Rightarrow> writer_error + planned_chain" where
  "pad_chain15 tp c =
     try_res (map_last (pad_page15 tp) (plan_pages c)) (\<lambda>ps. Ok (c\<lparr>plan_pages := ps\<rparr>))"

definition pad_element15 :: "u32 \<Rightarrow> planned_element \<Rightarrow> writer_error + planned_element" where
  "pad_element15 tp e =
     (case plan_data e of
        Some d \<Rightarrow> try_res (pad_chain15 tp d) (\<lambda>d'. Ok (e\<lparr>plan_data := Some d'\<rparr>))
      | None \<Rightarrow> try_res (pad_chain15 tp (plan_header e)) (\<lambda>h. Ok (e\<lparr>plan_header := h\<rparr>)))"

definition pad_final_page15 :: "u32 \<Rightarrow> format15_plan \<Rightarrow> writer_error + format15_plan" where
  "pad_final_page15 tp p =
     (if plan_elements p = []
      then try_res (pad_chain15 tp (plan_toc p)) (\<lambda>t. Ok (p\<lparr>plan_toc := t\<rparr>))
      else try_res (map_last (pad_element15 tp) (plan_elements p)) (\<lambda>es.
             Ok (p\<lparr>plan_elements := es\<rparr>)))"

definition apply_format15_tail_padding ::
  "format15_plan \<Rightarrow> u32 \<Rightarrow> writer_error + format15_plan" where
  "apply_format15_tail_padding p tp =
     (if tp = 0 then Ok p
      else
      try_res (pad_final_page15 tp p) (\<lambda>p'.
      try_res (ok_or (checked_add64 (plan_bytes_written p') (unat tp))
                 (W15_AddressSpaceExceeded u64_max (unat FORMAT15_SENTINEL))) (\<lambda>n.
      if n > unat FORMAT15_SENTINEL
      then Err (W15_AddressSpaceExceeded n (unat FORMAT15_SENTINEL))
      else Ok (p'\<lparr>plan_bytes_written := n\<rparr>))))"

definition plan_format15 :: "format15_document \<Rightarrow> writer_error + format15_plan" where
  "plan_format15 d =
     try_res (validate_document15 d) (\<lambda>_.
     try_res (ok_or (checked_mul64 (length (doc15_elements d)) ELEMENT_ADDRESS_SIZE15)
                (W15_ElementCountOverflow (length (doc15_elements d)))) (\<lambda>toc_size.
     try_res (plan_chain15 FILE_HEADER_SIZE15 toc_size (doc15_page_size d) Compact ''TOC'') (\<lambda>(toc, c1).
     try_res (plan_elements15 c1 (doc15_page_size d) (doc15_elements d)) (\<lambda>(es, c2).
     let n = length (plan_pages toc) + sum_list (map (\<lambda>e. length (plan_pages (plan_header e))
               + (case plan_data e of None \<Rightarrow> 0 | Some ch \<Rightarrow> length (plan_pages ch))) es) in
     apply_format15_tail_padding
       \<lparr>plan_toc = toc, plan_elements = es, plan_bytes_written = c2, plan_pages_written = n\<rparr>
       (doc15_tail_padding d)))))"

definition format15_serialized_len :: "format15_document \<Rightarrow> writer_error + nat" where
  "format15_serialized_len d = try_res (plan_format15 d) (\<lambda>p. Ok (plan_bytes_written p))"

section \<open>Emission\<close>

definition write_all :: "'s sink \<Rightarrow> 's \<Rightarrow> bytes \<Rightarrow> string \<Rightarrow> writer_error + 's" where
  "write_all wr s bs op = map_err (W15_Io op) (wr s bs)"

function write_zeros :: "'s sink \<Rightarrow> 's \<Rightarrow> nat \<Rightarrow> writer_error + 's" where
  "write_zeros wr s len =
     (if len > 0 then
        let chunk = min len ZERO_BUFFER_LEN in
        try_res (write_all wr s (replicate chunk 0) ''page padding'') (\<lambda>s1.
        write_zeros wr s1 (len - chunk))
      else Ok s)"
  by pat_completeness auto
termination
  by (relation "measure (\<lambda>(wr, s, len). len)") auto

declare write_zeros.simps [simp del]

text \<open>The page loop of \<open>write_chain\<close>, with the loop's \<open>index\<close> and \<open>offset\<close>.\<close>

fun write_chain_pages15 ::
  "'s sink \<Rightarrow> 's \<Rightarrow> u32 \<Rightarrow> bytes \<Rightarrow> nat \<Rightarrow> nat \<Rightarrow> planned_page list \<Rightarrow> writer_error + 's \<times> nat" where
  "write_chain_pages15 wr s dsize bs index offset [] = Ok (s, offset)"
| "write_chain_pages15 wr s dsize bs index offset (p # ps) =
     (let first_size = (if index = 0 then unat dsize else 0);
          header = header_text 8 first_size (unat (plan_page_size p)) (unat (plan_next p)) in
      if length header \<noteq> FORMAT15_BLOCK_HEADER_SIZE then Err W15_InternalPlanMismatch
      else
      try_res (write_all wr s header ''block header'') (\<lambda>s1.
      try_res (ok_or (checked_add64 offset (plan_data_length p)) W15_InternalPlanMismatch) (\<lambda>pend.
      try_res (write_all wr s1 (slice offset pend bs) ''block payload'') (\<lambda>s2.
      try_res (write_zeros wr s2 (unat (plan_page_size p) - plan_data_length p)) (\<lambda>s3.
      write_chain_pages15 wr s3 dsize bs (Suc index) pend ps)))))"

definition write_chain15 :: "'s sink \<Rightarrow> 's \<Rightarrow> planned_chain \<Rightarrow> bytes \<Rightarrow> writer_error + 's" where
  "write_chain15 wr s c bs =
     (if length bs \<noteq> unat (plan_data_size c) then Err W15_InternalPlanMismatch
      else
      try_res (write_chain_pages15 wr s (plan_data_size c) bs 0 0 (plan_pages c)) (\<lambda>(s', offset).
      if offset \<noteq> length bs then Err W15_InternalPlanMismatch else Ok s'))"

text \<open>The address table: header address, data address or the sentinel, and the marker.\<close>

fun toc_bytes15 :: "planned_element list \<Rightarrow> writer_error + bytes" where
  "toc_bytes15 [] = Ok []"
| "toc_bytes15 (e # es) =
     try_res (checked_address (plan_address (hd (plan_pages (plan_header e))))) (\<lambda>h.
     try_res (case plan_data e of
                Some ch \<Rightarrow> checked_address (plan_address (hd (plan_pages ch)))
              | None \<Rightarrow> Ok FORMAT15_SENTINEL) (\<lambda>d.
     try_res (toc_bytes15 es) (\<lambda>rest.
     Ok (to_le_bytes 4 h @ to_le_bytes 4 d @ to_le_bytes 4 FORMAT15_SENTINEL @ rest))))"

fun write_elements15 ::
  "'s sink \<Rightarrow> 's \<Rightarrow> format15_element list \<Rightarrow> planned_element list \<Rightarrow> writer_error + 's" where
  "write_elements15 wr s (e # es) (p # ps) =
     try_res (write_chain15 wr s (plan_header p) (header15 e)) (\<lambda>s1.
     try_res (case (plan_data p, data15 e) of
                (Some ch, Some d) \<Rightarrow> write_chain15 wr s1 ch d
              | _ \<Rightarrow> Ok s1) (\<lambda>s2.
     write_elements15 wr s2 es ps))"
| "write_elements15 wr s es ps = Ok s"

definition write_format15 ::
  "'s sink \<Rightarrow> 's \<Rightarrow> format15_document \<Rightarrow> writer_error + 's \<times> write_report" where
  "write_format15 wr s d =
     try_res (validate_document15 d) (\<lambda>_.
     try_res (plan_format15 d) (\<lambda>p.
     try_res (write_all wr s (to_le_bytes 4 FORMAT15_SENTINEL) ''file marker'') (\<lambda>s1.
     try_res (write_all wr s1 (to_le_bytes 4 (doc15_page_size d)) ''file page size'') (\<lambda>s2.
     try_res (write_all wr s2 (to_le_bytes 4 (doc15_storage_version d)) ''storage version'') (\<lambda>s3.
     try_res (write_all wr s3 (to_le_bytes 4 (doc15_reserved d)) ''file reserved word'') (\<lambda>s4.
     try_res (toc_bytes15 (plan_elements p)) (\<lambda>toc.
     try_res (write_chain15 wr s4 (plan_toc p) toc) (\<lambda>s5.
     try_res (write_elements15 wr s5 (doc15_elements d) (plan_elements p)) (\<lambda>s6.
     Ok (s6, \<lparr>bytes_written = plan_bytes_written p,
              entries_written = length (doc15_elements d),
              pages_written = plan_pages_written p\<rparr>))))))))))"

definition write_format15_to_vec :: "format15_document \<Rightarrow> writer_error + bytes" where
  "write_format15_to_vec d =
     try_res (plan_format15 d) (\<lambda>p.
     try_res (write_format15 vec_write [] d) (\<lambda>(bs, report). Ok bs))"

end
