(* ===== verification/V8_Writer16.thy ===== *)
theory V8_Writer16
  imports V8_Sink V8_Format16 V8_Writer15
begin

text \<open>
  The Format16 writer of \<open>crates/ibcmd-v8/src/writer.rs\<close>: payloads are streamed from readers of a
  declared length, chains are planned in constant space (start, size, capacity, page count), and
  the address table is produced by a reader of its own.
\<close>

section \<open>Documents\<close>

record format16_payload =
  payload_length :: nat
  payload_reader :: boxed_reader

definition payload_from_bytes :: "bytes \<Rightarrow> format16_payload" where
  "payload_from_bytes bs =
     \<lparr>payload_length = length bs, payload_reader = \<lparr>yields = bs, then_fails = UnexpectedEof\<rparr>\<rparr>"

definition payload_from_reader :: "nat \<Rightarrow> boxed_reader \<Rightarrow> format16_payload" where
  "payload_from_reader len r = \<lparr>payload_length = len, payload_reader = r\<rparr>"

record format16_element =
  header16 :: bytes
  data16 :: "format16_payload option"

record format16_document =
  doc16_page_size :: u32
  doc16_storage_version :: u32
  doc16_reserved :: u32
  doc16_elements :: "format16_element list"

datatype format16_writer_error =
    W16_ZeroPageSize
  | W16_ElementCountOverflow nat
  | W16_AddressSpaceExceeded nat
  | W16_AddressSpaceOverflow
  | W16_InvalidElementHeader nat string
  | W16_Io string io_error_kind
  | W16_InternalPlanMismatch

definition element16_named :: "ustr \<Rightarrow> format16_payload option \<Rightarrow> format16_element" where
  "element16_named n d = \<lparr>header16 = make_element_header n, data16 = d\<rparr>"

definition document16_new :: "u32 \<Rightarrow> format16_element list \<Rightarrow> format16_document" where
  "document16_new version es =
     \<lparr>doc16_page_size = DEFAULT_PAGE_SIZE16, doc16_storage_version = version, doc16_reserved = 0,
      doc16_elements = es\<rparr>"

definition document16_from_container :: "container16 \<Rightarrow> format16_document" where
  "document16_from_container c =
     \<lparr>doc16_page_size = file_page_size (file_header c),
      doc16_storage_version = storage_version (file_header c),
      doc16_reserved = file_reserved (file_header c),
      doc16_elements = map (\<lambda>e. \<lparr>header16 = raw_header e,
        data16 = map_option payload_from_bytes (element_data e)\<rparr>) (elements c)\<rparr>"

section \<open>The plan\<close>

definition validate_format16_element_header :: "bytes \<Rightarrow> nat \<Rightarrow> format16_writer_error + unit" where
  "validate_format16_element_header header index =
     (if length header < ELEMENT_HEADER_PREFIX_SIZE
      then Err (W16_InvalidElementHeader index ''shorter than the 20-byte prefix'')
      else let n = drop ELEMENT_HEADER_PREFIX_SIZE header in
        if length n mod 2 \<noteq> 0
        then Err (W16_InvalidElementHeader index ''UTF-16LE name region has odd length'')
        else try_res (ok_or (from_utf16 (takeWhile (\<lambda>u. u \<noteq> 0) (utf16_units n)))
               (W16_InvalidElementHeader index ''name is invalid UTF-16LE'')) (\<lambda>_. Ok ()))"

fun validate_headers16 :: "nat \<Rightarrow> format16_element list \<Rightarrow> format16_writer_error + unit" where
  "validate_headers16 index [] = Ok ()"
| "validate_headers16 index (e # es) =
     try_res (validate_format16_element_header (header16 e) index) (\<lambda>_.
     validate_headers16 (Suc index) es)"

record wide_planned_chain =
  wide_start_address :: nat
  wide_data_size :: nat
  wide_page_capacity :: nat
  wide_page_count :: nat
  wide_policy :: chain_policy

record wide_planned_element =
  wide_header :: wide_planned_chain
  wide_data :: "wide_planned_chain option"

record format16_plan =
  wide_toc :: wide_planned_chain
  wide_elements :: "wide_planned_element list"
  wide_bytes_written :: nat
  wide_pages_written :: nat

definition plan_wide_chain ::
  "nat \<Rightarrow> nat \<Rightarrow> u32 \<Rightarrow> chain_policy \<Rightarrow> format16_writer_error + wide_planned_chain \<times> nat" where
  "plan_wide_chain cursor dsize cfg policy =
     (let capacity = unat cfg;
          count = (if dsize = 0 then 1 else (dsize - 1) div capacity + 1) in
      if cursor = unat FORMAT16_SENTINEL then Err (W16_AddressSpaceExceeded cursor)
      else
      try_res (ok_or (checked_mul64 count FORMAT16_BLOCK_HEADER_SIZE) W16_AddressSpaceOverflow) (\<lambda>hbytes.
      try_res (case policy of
                 Compact \<Rightarrow> Ok dsize
               | Padded \<Rightarrow> ok_or (checked_mul64 count capacity) W16_AddressSpaceOverflow) (\<lambda>pbytes.
      try_res (ok_or (checked_add64 hbytes pbytes) W16_AddressSpaceOverflow) (\<lambda>extent.
      try_res (ok_or (checked_add64 cursor extent) W16_AddressSpaceOverflow) (\<lambda>cursor'.
      Ok (\<lparr>wide_start_address = cursor, wide_data_size = dsize, wide_page_capacity = capacity,
           wide_page_count = count, wide_policy = policy\<rparr>, cursor'))))))"

text \<open>The element loop of \<open>plan_format16\<close>, with the running cursor and page count.\<close>

fun plan_elements16 ::
  "nat \<Rightarrow> nat \<Rightarrow> u32 \<Rightarrow> format16_element list
     \<Rightarrow> format16_writer_error + wide_planned_element list \<times> nat \<times> nat" where
  "plan_elements16 cursor written cfg [] = Ok ([], cursor, written)"
| "plan_elements16 cursor written cfg (e # es) =
     try_res (plan_wide_chain cursor (length (header16 e)) cfg Compact) (\<lambda>(h, c1).
     try_res
       (case data16 e of
          None \<Rightarrow> Ok (None, c1)
        | Some d \<Rightarrow>
            try_res (plan_wide_chain c1 (payload_length d) cfg Padded) (\<lambda>(ch, c2).
            Ok (Some ch, c2))) (\<lambda>(d, c2).
     try_res (ok_or (checked_add64 written (wide_page_count h)) W16_AddressSpaceOverflow) (\<lambda>w1.
     try_res (case d of
                None \<Rightarrow> Ok w1
              | Some ch \<Rightarrow> ok_or (checked_add64 w1 (wide_page_count ch)) W16_AddressSpaceOverflow) (\<lambda>w2.
     try_res (plan_elements16 c2 w2 cfg es) (\<lambda>(pes, c3, w3).
     Ok (\<lparr>wide_header = h, wide_data = d\<rparr> # pes, c3, w3))))))"

definition plan_format16 :: "format16_document \<Rightarrow> format16_writer_error + format16_plan" where
  "plan_format16 d =
     (if doc16_page_size d = 0 then Err W16_ZeroPageSize
      else
      try_res (validate_headers16 0 (doc16_elements d)) (\<lambda>_.
      try_res (ok_or (checked_mul64 (length (doc16_elements d)) ELEMENT_ADDRESS_SIZE16)
                 (W16_ElementCountOverflow (length (doc16_elements d)))) (\<lambda>toc_size.
      try_res (plan_wide_chain FILE_HEADER_SIZE16 toc_size (doc16_page_size d) Padded) (\<lambda>(toc, c1).
      try_res (plan_elements16 c1 (wide_page_count toc) (doc16_page_size d) (doc16_elements d))
        (\<lambda>(es, c2, w).
      Ok \<lparr>wide_toc = toc, wide_elements = es, wide_bytes_written = c2, wide_pages_written = w\<rparr>)))))"

definition format16_serialized_len :: "format16_document \<Rightarrow> format16_writer_error + nat" where
  "format16_serialized_len d = try_res (plan_format16 d) (\<lambda>p. Ok (wide_bytes_written p))"

section \<open>The address table as a reader\<close>

definition format16_toc_record :: "wide_planned_element \<Rightarrow> bytes" where
  "format16_toc_record e =
     to_le_bytes 8 (word_of_nat (wide_start_address (wide_header e)) :: u64)
       @ to_le_bytes 8 (case wide_data e of None \<Rightarrow> FORMAT16_SENTINEL
           | Some ch \<Rightarrow> word_of_nat (wide_start_address ch))
       @ to_le_bytes 8 FORMAT16_SENTINEL"

record toc_reader =
  toc_elements :: "wide_planned_element list"
  toc_position :: nat

text \<open>The copying loop of \<open>read\<close>: \<open>room\<close> bytes of the target are still free.\<close>

function toc_fill :: "wide_planned_element list \<Rightarrow> nat \<Rightarrow> nat \<Rightarrow> bytes" where
  "toc_fill es absolute room =
     (if room = 0 then []
      else if absolute \<ge> length es * ELEMENT_ADDRESS_SIZE16 then []
      else
        let index = absolute div ELEMENT_ADDRESS_SIZE16;
            offset = absolute mod ELEMENT_ADDRESS_SIZE16;
            record_bytes = format16_toc_record (es ! index);
            count = min (min (ELEMENT_ADDRESS_SIZE16 - offset) room)
                      (length es * ELEMENT_ADDRESS_SIZE16 - absolute)
        in slice offset (offset + count) record_bytes
             @ toc_fill es (absolute + count) (room - count))"
  by pat_completeness auto
termination
  by (relation "measure (\<lambda>(es, absolute, room). room)") auto

declare toc_fill.simps [simp del]

definition toc_read :: "toc_reader \<Rightarrow> nat \<Rightarrow> bytes \<times> toc_reader" where
  "toc_read r room =
     (if toc_position r \<ge> length (toc_elements r) * ELEMENT_ADDRESS_SIZE16 \<or> room = 0 then ([], r)
      else let out = toc_fill (toc_elements r) (toc_position r) room in
        (out, r\<lparr>toc_position := toc_position r + length out\<rparr>))"

text \<open>The provided \<open>Read::read_exact\<close>: read until the buffer is full or a read returns nothing.\<close>

function toc_read_exact :: "toc_reader source" where
  "toc_read_exact r n =
     (if n = 0 then Ok ([], r)
      else let out = fst (toc_read r n) in
        if out = [] then Err UnexpectedEof
        else try_res (toc_read_exact (snd (toc_read r n)) (n - length out)) (\<lambda>(rest, r').
          Ok (out @ rest, r')))"
  by pat_completeness auto
termination
  by (relation "measure (\<lambda>(r, n). n)") auto

declare toc_read_exact.simps [simp del]

section \<open>Emission\<close>

definition write_all16 :: "'s sink \<Rightarrow> 's \<Rightarrow> bytes \<Rightarrow> string \<Rightarrow> format16_writer_error + 's" where
  "write_all16 wr s bs op = map_err (W16_Io op) (wr s bs)"

function write_zeros16 :: "'s sink \<Rightarrow> 's \<Rightarrow> nat \<Rightarrow> format16_writer_error + 's" where
  "write_zeros16 wr s len =
     (if len > 0 then
        let count = min len ZERO_BUFFER_LEN in
        try_res (write_all16 wr s (replicate count 0) ''page padding'') (\<lambda>s1.
        write_zeros16 wr s1 (len - count))
      else Ok s)"
  by pat_completeness auto
termination
  by (relation "measure (\<lambda>(wr, s, len). len)") auto

declare write_zeros16.simps [simp del]

text \<open>The payload loop of a page: the reader's bytes pass through a buffer of 8192 bytes.\<close>

function copy_payload ::
  "'s sink \<Rightarrow> 'r source \<Rightarrow> 's \<Rightarrow> 'r \<Rightarrow> string \<Rightarrow> nat \<Rightarrow> format16_writer_error + 's \<times> 'r" where
  "copy_payload wr rd s src op page_remaining =
     (if page_remaining > 0 then
        let count = min page_remaining ZERO_BUFFER_LEN in
        try_res (map_err (W16_Io op) (rd src count)) (\<lambda>(bs, src1).
        try_res (write_all16 wr s bs ''block payload'') (\<lambda>s1.
        copy_payload wr rd s1 src1 op (page_remaining - count)))
      else Ok (s, src))"
  by pat_completeness auto
termination
  by (relation "measure (\<lambda>(wr, rd, s, src, op, n). n)") auto

declare copy_payload.simps [simp del]

text \<open>The page loop of \<open>write_wide_chain\<close>; \<open>left\<close> pages are still to come.\<close>

fun write_wide_pages ::
  "'s sink \<Rightarrow> 'r source \<Rightarrow> 's \<Rightarrow> 'r \<Rightarrow> string \<Rightarrow> wide_planned_chain \<Rightarrow> nat \<Rightarrow> nat \<Rightarrow> nat \<Rightarrow> nat
     \<Rightarrow> format16_writer_error + 's \<times> 'r \<times> nat" where
  "write_wide_pages wr rd s src op c index 0 remaining addr = Ok (s, src, remaining)"
| "write_wide_pages wr rd s src op c index (Suc left) remaining addr =
     (let dlen = min remaining (wide_page_capacity c);
          psize = (case wide_policy c of Compact \<Rightarrow> dlen | Padded \<Rightarrow> wide_page_capacity c);
          first_size = (if index = 0 then wide_data_size c else 0) in
      try_res
        (if index + 1 = wide_page_count c then Ok (unat FORMAT16_SENTINEL)
         else
           try_res (ok_or (checked_add64 addr FORMAT16_BLOCK_HEADER_SIZE) W16_AddressSpaceOverflow) (\<lambda>v.
           ok_or (checked_add64 v psize) W16_AddressSpaceOverflow)) (\<lambda>next.
      let header = header_text 16 first_size psize next in
      if length header \<noteq> FORMAT16_BLOCK_HEADER_SIZE then Err W16_InternalPlanMismatch
      else
      try_res (write_all16 wr s header ''block header'') (\<lambda>s1.
      try_res (copy_payload wr rd s1 src op dlen) (\<lambda>(s2, src2).
      try_res (write_zeros16 wr s2 (psize - dlen)) (\<lambda>s3.
      write_wide_pages wr rd s3 src2 op c (Suc index) left (remaining - dlen) next)))))"

definition write_wide_chain ::
  "'s sink \<Rightarrow> 'r source \<Rightarrow> 's \<Rightarrow> wide_planned_chain \<Rightarrow> 'r \<Rightarrow> string
     \<Rightarrow> format16_writer_error + 's \<times> 'r" where
  "write_wide_chain wr rd s c src op =
     try_res (write_wide_pages wr rd s src op c 0 (wide_page_count c) (wide_data_size c)
                (wide_start_address c)) (\<lambda>(s', src', remaining).
     if remaining \<noteq> 0 then Err W16_InternalPlanMismatch else Ok (s', src'))"

text \<open>The element loop; the readers of the payloads are left where the copy stopped.\<close>

fun write_elements16 ::
  "'s sink \<Rightarrow> 's \<Rightarrow> format16_element list \<Rightarrow> wide_planned_element list
     \<Rightarrow> format16_writer_error + 's \<times> format16_element list" where
  "write_elements16 wr s (e # es) (p # ps) =
     try_res (write_wide_chain wr cursor_read_exact s (wide_header p) (header16 e) ''element header'')
       (\<lambda>(s1, _).
     try_res
       (case (wide_data p, data16 e) of
          (Some ch, Some d) \<Rightarrow>
            try_res (write_wide_chain wr boxed_read_exact s1 ch (payload_reader d) ''element payload'')
              (\<lambda>(s2, rdr). Ok (s2, Some (d\<lparr>payload_reader := rdr\<rparr>)))
        | (None, None) \<Rightarrow> Ok (s1, None)
        | _ \<Rightarrow> Err W16_InternalPlanMismatch) (\<lambda>(s2, d').
     try_res (write_elements16 wr s2 es ps) (\<lambda>(s3, es').
     Ok (s3, e\<lparr>data16 := d'\<rparr> # es'))))"
| "write_elements16 wr s es ps = Ok (s, es)"

definition write_format16_primary ::
  "'s sink \<Rightarrow> 's \<Rightarrow> format16_document
     \<Rightarrow> format16_writer_error + 's \<times> format16_document \<times> write_report" where
  "write_format16_primary wr s d =
     try_res (plan_format16 d) (\<lambda>p.
     try_res (write_all16 wr s (to_le_bytes 8 FORMAT16_SENTINEL) ''file marker'') (\<lambda>s1.
     try_res (write_all16 wr s1 (to_le_bytes 4 (doc16_page_size d)) ''file page size'') (\<lambda>s2.
     try_res (write_all16 wr s2 (to_le_bytes 4 (doc16_storage_version d)) ''storage version'') (\<lambda>s3.
     try_res (write_all16 wr s3 (to_le_bytes 4 (doc16_reserved d)) ''file reserved word'') (\<lambda>s4.
     try_res (write_wide_chain wr toc_read_exact s4 (wide_toc p)
                \<lparr>toc_elements = wide_elements p, toc_position = 0\<rparr> ''TOC'') (\<lambda>(s5, _).
     try_res (write_elements16 wr s5 (doc16_elements d) (wide_elements p)) (\<lambda>(s6, es).
     Ok (s6, d\<lparr>doc16_elements := es\<rparr>,
         \<lparr>bytes_written = wide_bytes_written p, entries_written = length (doc16_elements d),
          pages_written = wide_pages_written p\<rparr>))))))))"

end
