(* ===== verification/V8_Plan16.thy ===== *)
theory V8_Plan16
  imports V8_Writer16
begin

text \<open>
  What the Format16 planner decides: the segments a constant-space plan stands for, the space they
  take, and that planning succeeds exactly when 64-bit addresses suffice.
\<close>

section \<open>Planned chains\<close>

text \<open>\<open>content (Some policy)\<close>: the pages of a planned chain and the bytes they carry.\<close>

fun wide_segments :: "nat \<Rightarrow> nat \<Rightarrow> chain_policy \<Rightarrow> bytes \<Rightarrow> segment list" where
  "wide_segments 0 cap policy d = []"
| "wide_segments (Suc k) cap policy d =
     (case policy of Compact \<Rightarrow> min (length d) cap | Padded \<Rightarrow> cap, take cap d)
       # wide_segments k cap policy (drop cap d)"

definition wide_page_number :: "nat \<Rightarrow> nat \<Rightarrow> nat" where
  "wide_page_number n cap = (if n = 0 then 1 else (n - 1) div cap + 1)"

definition wide_extent :: "nat \<Rightarrow> nat \<Rightarrow> chain_policy \<Rightarrow> nat" where
  "wide_extent n cap policy = wide_page_number n cap * 55 +
     (case policy of Compact \<Rightarrow> n | Padded \<Rightarrow> wide_page_number n cap * cap)"

lemma wide_page_number_bounds:
  assumes "0 < cap"
  shows "0 < wide_page_number n cap" "n \<le> wide_page_number n cap * cap"
    "wide_page_number n cap = 1 \<or> (wide_page_number n cap - 1) * cap < n"
proof -
  have d: "n - 1 = (n - 1) div cap * cap + (n - 1) mod cap" by simp
  have m: "(n - 1) mod cap < cap" using assms by simp
  show "0 < wide_page_number n cap" by (simp add: wide_page_number_def)
  show "n \<le> wide_page_number n cap * cap"
  proof (cases "n = 0")
    case False
    then have "n \<le> (n - 1) div cap * cap + cap" using d m by linarith
    then show ?thesis by (simp add: wide_page_number_def)
  qed (simp add: wide_page_number_def)
  show "wide_page_number n cap = 1 \<or> (wide_page_number n cap - 1) * cap < n"
  proof (cases "n = 0")
    case False
    then have "(n - 1) div cap * cap < n" using d by linarith
    then show ?thesis using False by (simp add: wide_page_number_def)
  qed (simp add: wide_page_number_def)
qed

lemma wide_segments_good:
  assumes "length d \<le> Suc k * cap" "k = 0 \<or> k * cap < length d" "0 < cap"
  shows "good_segments (wide_segments (Suc k) cap policy d)"
    and "segments_payload (wide_segments (Suc k) cap policy d) = d"
    and "segments_extent 16 (wide_segments (Suc k) cap policy d) = Suc k * 55 +
      (case policy of Compact \<Rightarrow> length d | Padded \<Rightarrow> Suc k * cap)"
proof -
  have "good_segments (wide_segments (Suc k) cap policy d) \<and>
    segments_payload (wide_segments (Suc k) cap policy d) = d \<and>
    segments_extent 16 (wide_segments (Suc k) cap policy d) = Suc k * 55 +
      (case policy of Compact \<Rightarrow> length d | Padded \<Rightarrow> Suc k * cap)"
    using assms
  proof (induction k arbitrary: d)
    case 0
    then show ?case by (auto simp: min_def split: chain_policy.split)
  next
    case (Suc k)
    define w where "w = wide_segments (Suc k) cap policy (drop cap d)"
    obtain s rest where w': "w = s # rest" by (auto simp: w_def)
    have full: "cap < length d" using Suc.prems(2,3) by auto
    have "length (drop cap d) \<le> Suc k * cap" "k = 0 \<or> k * cap < length (drop cap d)"
      using Suc.prems(1,2) by auto
    from Suc.IH [OF this Suc.prems(3)] have IH: "good_segments w" "segments_payload w = drop cap d"
      "segments_extent 16 w = Suc k * 55 +
        (case policy of Compact \<Rightarrow> length d - cap | Padded \<Rightarrow> Suc k * cap)"
      unfolding w_def [symmetric] length_drop by blast+
    have "wide_segments (Suc (Suc k)) cap policy d = (cap, take cap d) # w"
      using full by (simp add: w_def split: chain_policy.split)
    then show ?case
      using IH full Suc.prems(3) by (simp add: w') (simp split: chain_policy.split)
  qed
  then show "good_segments (wide_segments (Suc k) cap policy d)"
    "segments_payload (wide_segments (Suc k) cap policy d) = d"
    "segments_extent 16 (wide_segments (Suc k) cap policy d) = Suc k * 55 +
      (case policy of Compact \<Rightarrow> length d | Padded \<Rightarrow> Suc k * cap)" by auto
qed

definition wide_planned :: "nat \<Rightarrow> nat \<Rightarrow> wide_planned_chain \<Rightarrow> nat \<Rightarrow> bool" where
  "wide_planned a n c e \<longleftrightarrow>
     wide_start_address c = a \<and> wide_data_size c = n \<and> 0 < wide_page_capacity c \<and>
     wide_page_capacity c \<le> u32_max \<and>
     wide_page_count c = wide_page_number n (wide_page_capacity c) \<and>
     e = a + wide_extent n (wide_page_capacity c) (wide_policy c) \<and> e \<le> u64_max"

definition wide_chain_segments :: "wide_planned_chain \<Rightarrow> bytes \<Rightarrow> segment list" where
  "wide_chain_segments c d =
     wide_segments (wide_page_count c) (wide_page_capacity c) (wide_policy c) d"

lemma wide_planned_segments:
  assumes "wide_planned a (length d) c e"
  shows "good_segments (wide_chain_segments c d)" "segments_payload (wide_chain_segments c d) = d"
    "e = a + segments_extent 16 (wide_chain_segments c d)" "length d < e - a" "a + 55 \<le> e" "e \<le> u64_max"
proof -
  let ?cap = "wide_page_capacity c"
  have c: "0 < ?cap" "wide_page_count c = wide_page_number (length d) ?cap"
    using assms by (simp_all add: wide_planned_def)
  note b = wide_page_number_bounds [OF c(1), of "length d"]
  define k where "k = wide_page_count c - 1"
  have k: "wide_page_count c = Suc k" using b(1) c(2) by (simp add: k_def)
  have kb: "length d \<le> Suc k * ?cap" "k = 0 \<or> k * ?cap < length d"
    using b(2,3) k c(2) by auto
  note s = wide_segments_good [OF kb c(1), of "wide_policy c"]
  show "good_segments (wide_chain_segments c d)" "segments_payload (wide_chain_segments c d) = d"
    using s(1,2) by (simp_all only: wide_chain_segments_def k)
  have e: "e = a + wide_extent (length d) ?cap (wide_policy c)" "e \<le> u64_max"
    using assms by (simp_all add: wide_planned_def)
  then show *: "e = a + segments_extent 16 (wide_chain_segments c d)"
    unfolding wide_chain_segments_def wide_extent_def k s(3) c(2) [symmetric] by (simp only:)
  show "e \<le> u64_max" by (rule e(2))
  show "length d < e - a" "a + 55 \<le> e"
    using * s(3) kb(1) k
    by (auto simp: wide_chain_segments_def split: chain_policy.splits simp del: wide_segments.simps)
qed

lemma plan_wide_chain_Ok:
  assumes "0 < unat cfg"
  shows "plan_wide_chain a n cfg policy = Ok (c, e) \<longleftrightarrow>
    c = \<lparr>wide_start_address = a, wide_data_size = n, wide_page_capacity = unat cfg,
         wide_page_count = wide_page_number n (unat cfg), wide_policy = policy\<rparr> \<and>
    e = a + wide_extent n (unat cfg) policy \<and> e \<le> u64_max"
proof -
  have "0 < wide_page_number n (unat cfg)" by (simp add: wide_page_number_def)
  then have "a < a + wide_extent n (unat cfg) policy" by (simp add: wide_extent_def)
  then show ?thesis
    by (cases policy)
      (auto simp: plan_wide_chain_def Let_def result_simps wide_extent_def wide_page_number_def)
qed

lemma plan_wide_chain_planned:
  "plan_wide_chain a n cfg policy = Ok (c, e) \<Longrightarrow> 0 < unat cfg \<Longrightarrow> wide_planned a n c e"
  using unat_u32_le [of cfg] by (auto simp: plan_wide_chain_Ok wide_planned_def)

section \<open>Planned elements\<close>

definition wide_data_planned ::
  "nat \<Rightarrow> format16_payload option \<Rightarrow> wide_planned_chain option \<Rightarrow> nat \<Rightarrow> bool" where
  "wide_data_planned a d c e \<longleftrightarrow>
     (case (d, c) of (None, None) \<Rightarrow> e = a
      | (Some p, Some ch) \<Rightarrow> wide_planned a (payload_length p) ch e | _ \<Rightarrow> False)"

lemma wide_data_planned_simps [simp]:
  "wide_data_planned a None c e \<longleftrightarrow> c = None \<and> e = a"
  "wide_data_planned a (Some p) c e \<longleftrightarrow> (\<exists>ch. c = Some ch \<and> wide_planned a (payload_length p) ch e)"
  by (auto simp: wide_data_planned_def split: option.splits)

fun wide_elements_planned ::
  "nat \<Rightarrow> format16_element list \<Rightarrow> wide_planned_element list \<Rightarrow> nat \<Rightarrow> bool" where
  "wide_elements_planned a [] [] e \<longleftrightarrow> e = a"
| "wide_elements_planned a (x # xs) (p # ps) e \<longleftrightarrow>
     (\<exists>m m'. wide_planned a (length (header16 x)) (wide_header p) m \<and>
        wide_data_planned m (data16 x) (wide_data p) m' \<and> wide_elements_planned m' xs ps e)"
| "wide_elements_planned a xs ps e \<longleftrightarrow> False"

definition element_extent16 :: "nat \<Rightarrow> format16_element \<Rightarrow> nat" where
  "element_extent16 cap x = wide_extent (length (header16 x)) cap Compact +
     (case data16 x of None \<Rightarrow> 0 | Some p \<Rightarrow> wide_extent (payload_length p) cap Padded)"

lemma plan_elements16_planned:
  assumes "plan_elements16 a w cfg xs = Ok (ps, e, w')" and "0 < unat cfg"
  shows "wide_elements_planned a xs ps e \<and> e = a + sum_list (map (element_extent16 (unat cfg)) xs) \<and>
    (a \<le> u64_max \<longrightarrow> e \<le> u64_max)"
  using assms(1)
proof (induction xs arbitrary: a w ps e w')
  case Nil
  then show ?case by simp
next
  case (Cons x xs)
  from Cons.prems obtain h m d m' w2 ps' where
    h: "plan_wide_chain a (length (header16 x)) cfg Compact = Ok (h, m)"
    and d: "(case data16 x of None \<Rightarrow> Ok (None, m) | Some p \<Rightarrow>
            try_res (plan_wide_chain m (payload_length p) cfg Padded) (\<lambda>(ch, c2).
            Ok (Some ch, c2))) = Ok (d, m')"
    and ps': "plan_elements16 m' w2 cfg xs = Ok (ps', e, w')"
    and ps: "ps = \<lparr>wide_header = h, wide_data = d\<rparr> # ps'"
    by (auto simp: result_simps)
  have "wide_data_planned m (data16 x) d m' \<and> m' \<le> u64_max \<and> m' = m +
      (case data16 x of None \<Rightarrow> 0 | Some p \<Rightarrow> wide_extent (payload_length p) (unat cfg) Padded)"
    using d h plan_wide_chain_planned [OF _ assms(2)] plan_wide_chain_Ok [OF assms(2)]
    by (auto simp: result_simps split: option.splits)
  with h Cons.IH [OF ps'] show ?case
    using plan_wide_chain_planned [OF h assms(2)] plan_wide_chain_Ok [OF assms(2)]
    by (auto simp: ps element_extent16_def)
qed

text \<open>The running page count never overflows before the addresses do.\<close>

lemma wide_page_number_extent: "wide_page_number n cap \<le> wide_extent n cap policy"
  by (simp add: wide_extent_def)

lemma plan_elements16_total:
  assumes "a + sum_list (map (element_extent16 (unat cfg)) xs) \<le> u64_max" and "0 < unat cfg" and "w \<le> a"
  shows "\<exists>ps e w'. plan_elements16 a w cfg xs = Ok (ps, e, w')"
  using assms(1,3)
proof (induction xs arbitrary: a w)
  case Nil
  then show ?case by simp
next
  case (Cons x xs)
  let ?cap = "unat cfg"
  let ?m = "a + wide_extent (length (header16 x)) ?cap Compact"
  let ?w = "w + wide_page_number (length (header16 x)) ?cap"
  have m: "?m \<le> u64_max" using Cons.prems by (simp add: element_extent16_def)
  have w: "?w \<le> ?m" using Cons.prems(2) wide_page_number_extent by (simp add: add_mono)
  obtain h where h: "plan_wide_chain a (length (header16 x)) cfg Compact = Ok (h, ?m)"
    "wide_page_count h = wide_page_number (length (header16 x)) ?cap"
    using plan_wide_chain_Ok [OF assms(2), of a "length (header16 x)" Compact] m by auto
  show ?case
  proof (cases "data16 x")
    case None
    then show ?thesis
      using Cons.IH [of ?m ?w] Cons.prems h w m by (auto simp: element_extent16_def checked_add64_def)
  next
    case (Some p)
    let ?m' = "?m + wide_extent (payload_length p) ?cap Padded"
    let ?w' = "?w + wide_page_number (payload_length p) ?cap"
    have "element_extent16 ?cap x + a = ?m'" by (simp add: element_extent16_def Some)
    then have m': "?m' + sum_list (map (element_extent16 ?cap) xs) \<le> u64_max"
      using Cons.prems by simp
    have w': "?w' \<le> ?m'" using w wide_page_number_extent by (simp add: add_mono)
    obtain ch where ch: "plan_wide_chain ?m (payload_length p) cfg Padded = Ok (ch, ?m')"
      "wide_page_count ch = wide_page_number (payload_length p) ?cap"
      using plan_wide_chain_Ok [OF assms(2), of ?m "payload_length p" Padded] m' by auto
    show ?thesis
      using Cons.IH [OF m' w'] h ch Some w w' m m' by (auto simp: checked_add64_def)
  qed
qed

section \<open>The whole plan\<close>

definition valid_document16 :: "format16_document \<Rightarrow> bool" where
  "valid_document16 d \<longleftrightarrow> 0 < doc16_page_size d \<and>
     list_all (\<lambda>x. header_name (header16 x) \<noteq> None) (doc16_elements d)"

definition format16_extent :: "format16_document \<Rightarrow> nat" where
  "format16_extent d = (let cap = unat (doc16_page_size d) in
     20 + wide_extent (length (doc16_elements d) * 24) cap Padded
        + sum_list (map (element_extent16 cap) (doc16_elements d)))"

definition planned16 :: "format16_document \<Rightarrow> format16_plan \<Rightarrow> bool" where
  "planned16 d p \<longleftrightarrow>
     (\<exists>m. wide_planned 20 (length (doc16_elements d) * 24) (wide_toc p) m \<and>
        wide_elements_planned m (doc16_elements d) (wide_elements p) (wide_bytes_written p)) \<and>
     wide_bytes_written p = format16_extent d \<and> wide_bytes_written p \<le> u64_max"

lemma validate_element_header16_Ok [result_simps]:
  "validate_format16_element_header h i = Ok u \<longleftrightarrow> header_name h \<noteq> None"
proof (cases "length h < 20")
  case False
  then have "(length h - 20) mod 2 = length h mod 2" by presburger
  with False show ?thesis
    by (auto simp: validate_format16_element_header_def header_name_def name_units_def Let_def
        result_simps odd_iff_mod_2_eq_one)
qed (simp add: validate_format16_element_header_def header_name_def)

lemma validate_headers16_Ok [result_simps]:
  "validate_headers16 i xs = Ok u \<longleftrightarrow> list_all (\<lambda>x. header_name (header16 x) \<noteq> None) xs"
  by (induction xs arbitrary: i) (auto simp: result_simps)

lemma plan_format16_planned: "plan_format16 d = Ok p \<Longrightarrow> planned16 d p \<and> valid_document16 d"
proof -
  let ?cfg = "doc16_page_size d" and ?xs = "doc16_elements d"
  assume "plan_format16 d = Ok p"
  then obtain toc c1 es c2 w where v: "valid_document16 d"
    and toc: "plan_wide_chain 20 (length ?xs * 24) ?cfg Padded = Ok (toc, c1)"
    and es: "plan_elements16 c1 (wide_page_count toc) ?cfg ?xs = Ok (es, c2, w)"
    and p: "p = \<lparr>wide_toc = toc, wide_elements = es, wide_bytes_written = c2, wide_pages_written = w\<rparr>"
    by (auto simp: plan_format16_def result_simps valid_document16_def word_gt_0)
  have q: "0 < unat ?cfg" using v by (simp add: valid_document16_def word_gt_0 unat_gt_0)
  have t: "wide_planned 20 (length ?xs * 24) toc c1" using plan_wide_chain_planned [OF toc q] .
  then show ?thesis
    using plan_elements16_planned [OF es q] toc v
    by (auto simp: planned16_def p format16_extent_def Let_def plan_wide_chain_Ok [OF q])
qed

lemma plan_format16_iff:
  "(\<exists>p. plan_format16 d = Ok p) \<longleftrightarrow> valid_document16 d \<and> format16_extent d \<le> u64_max"
proof
  assume "\<exists>p. plan_format16 d = Ok p"
  then show "valid_document16 d \<and> format16_extent d \<le> u64_max"
    using plan_format16_planned by (metis planned16_def)
next
  let ?cfg = "doc16_page_size d" and ?xs = "doc16_elements d"
  let ?c1 = "20 + wide_extent (length ?xs * 24) (unat ?cfg) Padded"
  assume *: "valid_document16 d \<and> format16_extent d \<le> u64_max"
  then have q: "0 < unat ?cfg" and nz: "?cfg \<noteq> 0"
    by (simp_all add: valid_document16_def word_gt_0 unat_gt_0)
  have c: "?c1 + sum_list (map (element_extent16 (unat ?cfg)) ?xs) \<le> u64_max"
    using * by (simp add: format16_extent_def Let_def)
  then have c1: "?c1 \<le> u64_max" by simp
  then obtain toc where toc: "plan_wide_chain 20 (length ?xs * 24) ?cfg Padded = Ok (toc, ?c1)"
    "wide_page_count toc = wide_page_number (length ?xs * 24) (unat ?cfg)"
    using plan_wide_chain_Ok [OF q, of 20 "length ?xs * 24" Padded] by auto
  have w: "wide_page_count toc \<le> ?c1"
    using wide_page_number_extent [of "length ?xs * 24" "unat ?cfg" Padded] toc(2) by simp
  obtain es e w' where "plan_elements16 ?c1 (wide_page_count toc) ?cfg ?xs = Ok (es, e, w')"
    using plan_elements16_total [OF c q w] by blast
  moreover have "length ?xs * 24 \<le> u64_max"
    using c1 wide_page_number_bounds(2) [OF q, of "length ?xs * 24"] by (simp add: wide_extent_def)
  moreover have "validate_headers16 0 ?xs = Ok ()"
    using * by (simp add: result_simps valid_document16_def)
  ultimately show "\<exists>p. plan_format16 d = Ok p"
    using toc(1) nz by (simp add: plan_format16_def checked_mul64_def)
qed

end
