(* ===== verification/V8_Emit16.thy ===== *)
theory V8_Emit16
  imports V8_Plan16
begin

text \<open>
  What the Format16 writer emits.  The address-table reader delivers the concatenated records
  under any sequence of reads, so it is a \<open>byte_source\<close> like the cursor and the boxed reader; the
  emission lemmas are proved once for a sink and a source.
\<close>

section \<open>The address-table reader\<close>

definition toc_table16 :: "wide_planned_element list \<Rightarrow> bytes" where
  "toc_table16 es = concat (map format16_toc_record es)"

lemma length_toc_record [simp]: "length (format16_toc_record e) = 24"
  by (simp add: format16_toc_record_def)

lemma length_toc_table16 [simp]: "length (toc_table16 es) = length es * 24"
  by (induction es) (simp_all add: toc_table16_def)

lemma drop_toc_table16: "drop (24 * i) (toc_table16 es) = toc_table16 (drop i es)"
proof (induction i arbitrary: es)
  case 0
  then show ?case by simp
next
  case (Suc i)
  show ?case
  proof (cases es)
    case (Cons e es')
    have "24 * Suc i = length (format16_toc_record e) + 24 * i" by simp
    then show ?thesis
      using Suc.IH [of es'] unfolding Cons toc_table16_def list.map concat.simps
      by (simp only: drop_append drop_all) simp
  qed (simp add: toc_table16_def)
qed

lemma toc_fill_take: "toc_fill es a room = take room (drop a (toc_table16 es))"
proof (induction es a room rule: toc_fill.induct)
  case (1 es a room)
  let ?i = "a div 24" and ?o = "a mod 24"
  let ?c = "min (min (24 - ?o) room) (length es * 24 - a)"
  show ?case
  proof (cases "room = 0 \<or> a \<ge> length es * 24")
    case True
    then show ?thesis by (subst toc_fill.simps) auto
  next
    case False
    then have i: "?i < length es" by auto
    have "drop a (toc_table16 es) = drop ?o (drop (24 * ?i) (toc_table16 es))"
      by (simp only: drop_drop mod_mult_div_eq)
    also have "\<dots> = drop ?o (format16_toc_record (es ! ?i) @ toc_table16 (drop (Suc ?i) es))"
      unfolding drop_toc_table16 Cons_nth_drop_Suc [OF i, symmetric] by (simp add: toc_table16_def)
    finally have d: "drop a (toc_table16 es) =
        drop ?o (format16_toc_record (es ! ?i)) @ toc_table16 (drop (Suc ?i) es)" by simp
    have "?c \<le> length (drop ?o (format16_toc_record (es ! ?i)))" by simp
    then have sl: "slice ?o (?o + ?c) (format16_toc_record (es ! ?i)) = take ?c (drop a (toc_table16 es))"
      unfolding d slice_def by (simp only: take_append diff_add_inverse) simp
    have IH: "toc_fill es (a + ?c) (room - ?c) = take (room - ?c) (drop (a + ?c) (toc_table16 es))"
      using False by (intro "1.IH" [OF _ _ refl refl refl refl]) simp_all
    have dd: "drop (a + ?c) (toc_table16 es) = drop ?c (drop a (toc_table16 es))"
      by (simp only: drop_drop add.commute)
    have "toc_fill es a room = slice ?o (?o + ?c) (format16_toc_record (es ! ?i)) @
        toc_fill es (a + ?c) (room - ?c)"
      using False by (subst toc_fill.simps) (simp only: Let_def if_False de_Morgan_disj simp_thms)
    then have "toc_fill es a room = take ?c (drop a (toc_table16 es)) @
        take (room - ?c) (drop ?c (drop a (toc_table16 es)))"
      by (simp only: sl IH dd)
    also have "\<dots> = take (?c + (room - ?c)) (drop a (toc_table16 es))" by (rule take_add [symmetric])
    finally show ?thesis by simp
  qed
qed

lemma toc_read_eq:
  "toc_read r n = (take n (drop (toc_position r) (toc_table16 (toc_elements r))),
     r\<lparr>toc_position := toc_position r + min n (length (toc_elements r) * 24 - toc_position r)\<rparr>)"
  by (auto simp: toc_read_def toc_fill_take Let_def)

definition toc_content :: "toc_reader \<Rightarrow> bytes" where
  "toc_content r = drop (toc_position r) (toc_table16 (toc_elements r))"

lemma toc_read_exact_eq:
  "toc_read_exact r n =
     (if n \<le> length (toc_content r)
      then Ok (take n (toc_content r), r\<lparr>toc_position := toc_position r + n\<rparr>)
      else Err UnexpectedEof)"
proof -
  let ?l = "length (toc_content r)"
  have z: "toc_read_exact r' 0 = Ok ([], r')" for r' by (subst toc_read_exact.simps) simp
  have rd: "toc_read r' m = (take m (toc_content r'),
      r'\<lparr>toc_position := toc_position r' + min m (length (toc_content r'))\<rparr>)" for r' m
    by (simp add: toc_read_eq toc_content_def)
  have short: "toc_read_exact r' m = Err UnexpectedEof" if "toc_content r' = []" "0 < m" for r' m
    using that by (subst toc_read_exact.simps) (simp add: rd)
  show ?thesis
  proof (cases "n = 0 \<or> ?l = 0")
    case True
    then show ?thesis by (cases r; cases "n = 0") (simp_all add: z short)
  next
    case False
    then have ne: "take n (toc_content r) \<noteq> []" "n \<noteq> 0" by auto
    let ?r = "r\<lparr>toc_position := toc_position r + min n ?l\<rparr>"
    have "toc_read_exact r n = try_res (toc_read_exact ?r (n - min n ?l)) (\<lambda>(rest, r').
        Ok (take n (toc_content r) @ rest, r'))"
      using ne by (subst toc_read_exact.simps) (simp add: rd Let_def min.commute)
    moreover have "toc_content ?r = []" if "?l < n"
      using that by (simp add: toc_content_def)
    ultimately show ?thesis
      using z short [of ?r "n - ?l"] by (cases "n \<le> ?l") simp_all
  qed
qed

interpretation toc: byte_source toc_read_exact toc_content
  by unfold_locales (auto simp: toc_read_exact_eq toc_content_def add.commute split: if_splits)

section \<open>Emission\<close>

definition wide_chain_bytes :: "wide_planned_chain \<Rightarrow> bytes \<Rightarrow> bytes" where
  "wide_chain_bytes c d =
     chain_image 16 u64_max (wide_start_address c) (length d) (wide_chain_segments c d)"

lemma length_wide_chain_bytes:
  assumes "wide_planned a (length d) c e"
  shows "a + length (wide_chain_bytes c d) = e"
proof -
  note s = wide_planned_segments [OF assms]
  have "wide_start_address c = a" using assms by (simp add: wide_planned_def)
  then have "length (wide_chain_bytes c d) = segments_extent 16 (wide_chain_segments c d)"
    unfolding wide_chain_bytes_def using s
    by (intro length_chain_image) simp_all
  then show ?thesis using s(3) by simp
qed

text \<open>The last page, and a full page before it.\<close>

lemma write_wide_pages_last:
  assumes "min n (wide_page_capacity c) = n" "Suc index = wide_page_count c"
  shows "write_wide_pages wr rd s src op c index (Suc 0) n a = Ok (s', src', n') \<longleftrightarrow>
    n' = 0 \<and>
    length (header_text 16 (if index = 0 then wide_data_size c else 0)
      (case wide_policy c of Compact \<Rightarrow> n | Padded \<Rightarrow> wide_page_capacity c) u64_max) = 55 \<and>
    (\<exists>s1 s2.
      write_all16 wr s (header_text 16 (if index = 0 then wide_data_size c else 0)
        (case wide_policy c of Compact \<Rightarrow> n | Padded \<Rightarrow> wide_page_capacity c) u64_max)
        ''block header'' = Ok s1 \<and>
      copy_payload wr rd s1 src op n = Ok (s2, src') \<and>
      write_zeros16 wr s2
        ((case wide_policy c of Compact \<Rightarrow> n | Padded \<Rightarrow> wide_page_capacity c) - n) = Ok s')"
  using assms by (cases "wide_policy c") (auto simp: result_simps Let_def)

lemma write_wide_pages_full:
  assumes "min n (wide_page_capacity c) = wide_page_capacity c" "Suc index \<noteq> wide_page_count c"
  shows "write_wide_pages wr rd s src op c index (Suc k) n a = Ok x \<longleftrightarrow>
    a + 55 + wide_page_capacity c \<le> u64_max \<and>
    length (header_text 16 (if index = 0 then wide_data_size c else 0) (wide_page_capacity c)
      (a + 55 + wide_page_capacity c)) = 55 \<and>
    (\<exists>s1 s2 src2 s3.
      write_all16 wr s (header_text 16 (if index = 0 then wide_data_size c else 0)
        (wide_page_capacity c) (a + 55 + wide_page_capacity c)) ''block header'' = Ok s1 \<and>
      copy_payload wr rd s1 src op (wide_page_capacity c) = Ok (s2, src2) \<and>
      write_zeros16 wr s2 0 = Ok s3 \<and>
      write_wide_pages wr rd s3 src2 op c (Suc index) k (n - wide_page_capacity c)
        (a + 55 + wide_page_capacity c) = Ok x)"
  using assms by (cases "wide_policy c") (auto simp: result_simps Let_def)

context write_sink
begin

lemma write_all16_appends: "write_all16 wr s bs op = Ok s' \<Longrightarrow> contents s' = contents s @ bs"
  by (auto simp: write_all16_def result_simps wr_appends)

lemma write_zeros16_appends: "write_zeros16 wr s n = Ok s' \<Longrightarrow> contents s' = contents s @ replicate n 0"
proof (induction n arbitrary: s rule: less_induct)
  case (less n)
  show ?case
  proof (cases "n = 0")
    case True
    then show ?thesis using less.prems by (subst (asm) write_zeros16.simps) simp
  next
    case False
    let ?k = "min n ZERO_BUFFER_LEN"
    obtain s1 where s1: "write_all16 wr s (replicate ?k 0) ''page padding'' = Ok s1"
      and s': "write_zeros16 wr s1 (n - ?k) = Ok s'"
      using False less.prems by (subst (asm) write_zeros16.simps) (auto simp: Let_def result_simps)
    have "contents s' = contents s1 @ replicate (n - ?k) 0"
      using less.IH [OF _ s'] False by simp
    then show ?thesis
      using write_all16_appends [OF s1] by (simp flip: replicate_add)
  qed
qed

end

text \<open>A sink and a source together: what a copy moves.\<close>

locale sink_and_source = write_sink wr contents + byte_source rd content
  for wr :: "'s sink" and contents :: "'s \<Rightarrow> bytes"
    and rd :: "'r source" and content :: "'r \<Rightarrow> bytes"
begin

lemma copy_payload_appends:
  "copy_payload wr rd s src op n = Ok (s', src') \<Longrightarrow>
     n \<le> length (content src) \<and> contents s' = contents s @ take n (content src) \<and>
     content src' = drop n (content src)"
proof (induction n arbitrary: s src rule: less_induct)
  case (less n)
  show ?case
  proof (cases "n = 0")
    case True
    then show ?thesis using less.prems by (subst (asm) copy_payload.simps) simp
  next
    case False
    let ?k = "min n ZERO_BUFFER_LEN"
    obtain bs src1 s1 where rd: "rd src ?k = Ok (bs, src1)"
      and s1: "write_all16 wr s bs ''block payload'' = Ok s1"
      and rest: "copy_payload wr rd s1 src1 op (n - ?k) = Ok (s', src')"
      using False less.prems
      by (subst (asm) copy_payload.simps) (auto simp: Let_def result_simps)
    note r = rd_next [OF rd]
    have IH: "n - ?k \<le> length (content src1)" "contents s' = contents s1 @ take (n - ?k) (content src1)"
      "content src' = drop (n - ?k) (content src1)"
      using less.IH [OF _ rest] False by auto
    have "take n (content src) = take ?k (content src) @ take (n - ?k) (drop ?k (content src))"
      using take_add [of ?k "n - ?k" "content src"] by simp
    moreover have "drop n (content src) = drop (n - ?k) (drop ?k (content src))"
      by simp
    moreover have "n \<le> length (content src)" using r IH(1) by auto
    ultimately show ?thesis using r IH(2,3) write_all16_appends [OF s1] by simp
  qed
qed

lemma write_wide_pages_appends:
  assumes "write_wide_pages wr rd s src op c index (Suc k) n a = Ok (s', src', n')"
    and "index + Suc k = wide_page_count c" "n \<le> Suc k * wide_page_capacity c"
    and "k = 0 \<or> k * wide_page_capacity c < n" "0 < wide_page_capacity c"
  shows "n \<le> length (content src) \<and> content src' = drop n (content src) \<and> n' = 0 \<and>
    contents s' = contents s @ chain_image 16 u64_max a (if index = 0 then wide_data_size c else 0)
      (wide_segments (Suc k) (wide_page_capacity c) (wide_policy c) (take n (content src)))"
  using assms
proof (induction k arbitrary: s src index n a)
  case 0
  let ?cap = "wide_page_capacity c"
  let ?fs = "if index = 0 then wide_data_size c else 0"
  let ?ps = "case wide_policy c of Compact \<Rightarrow> n | Padded \<Rightarrow> ?cap"
  have n: "min n ?cap = n" and last: "Suc index = wide_page_count c" using "0.prems"(2,3) by simp_all
  from "0.prems"(1) obtain s1 s2 where
    s1: "write_all16 wr s (header_text 16 ?fs ?ps u64_max) ''block header'' = Ok s1"
    and s2: "copy_payload wr rd s1 src op n = Ok (s2, src')"
    and s3: "write_zeros16 wr s2 (?ps - n) = Ok s'" and n': "n' = 0"
    unfolding write_wide_pages_last [OF n last] by blast
  note c = copy_payload_appends [OF s2]
  have len: "length (take n (content src)) = n" "n \<le> ?cap" using c n by auto
  then have seg: "wide_segments (Suc 0) ?cap (wide_policy c) (take n (content src)) =
      [(?ps, take n (content src))]"
    unfolding wide_segments.simps len(1) by (simp split: chain_policy.split)
  show ?case
    using c write_all16_appends [OF s1] write_zeros16_appends [OF s3] n' len
    unfolding seg by simp
next
  case (Suc k)
  let ?cap = "wide_page_capacity c"
  let ?fs = "if index = 0 then wide_data_size c else 0"
  have full: "min n ?cap = ?cap" "?cap < n"
    and more: "Suc index \<noteq> wide_page_count c" using Suc.prems(2,4,5) by auto
  from Suc.prems(1) obtain s1 s2 src2 s3 where
    s1: "write_all16 wr s (header_text 16 ?fs ?cap (a + 55 + ?cap)) ''block header'' = Ok s1"
    and s2: "copy_payload wr rd s1 src op ?cap = Ok (s2, src2)"
    and s3: "write_zeros16 wr s2 0 = Ok s3"
    and rest: "write_wide_pages wr rd s3 src2 op c (Suc index) (Suc k) (n - ?cap) (a + 55 + ?cap)
      = Ok (s', src', n')"
    unfolding write_wide_pages_full [OF full(1) more] by blast
  note cp = copy_payload_appends [OF s2]
  have "Suc index + Suc k = wide_page_count c" "n - ?cap \<le> Suc k * ?cap" "k = 0 \<or> k * ?cap < n - ?cap"
    using Suc.prems(2-4) full by auto
  from Suc.IH [OF rest this Suc.prems(5)] have IH:
    "n - ?cap \<le> length (content src2)" "content src' = drop (n - ?cap) (content src2)" "n' = 0"
    "contents s' = contents s3 @ chain_image 16 u64_max (a + 55 + ?cap) 0
      (wide_segments (Suc k) ?cap (wide_policy c) (take (n - ?cap) (content src2)))"
    by simp_all
  have n: "n \<le> length (content src)" using cp IH(1) full by simp
  have seg: "wide_segments (Suc (Suc k)) ?cap (wide_policy c) (take n (content src)) =
      (?cap, take ?cap (content src)) #
        wide_segments (Suc k) ?cap (wide_policy c) (take (n - ?cap) (content src2))"
    using cp full n
    by (subst wide_segments.simps(2)) (simp add: drop_take del: wide_segments.simps split: chain_policy.split)
  have ne: "wide_segments (Suc k) ?cap (wide_policy c) ds \<noteq> []" for ds by simp
  have "contents s' = contents s @ header_text 16 ?fs ?cap (a + 55 + ?cap) @ take ?cap (content src) @
      chain_image 16 u64_max (a + 55 + ?cap) 0
      (wide_segments (Suc k) ?cap (wide_policy c) (take (n - ?cap) (content src2)))"
    using IH(4) cp write_all16_appends [OF s1] write_zeros16_appends [OF s3] by simp
  then show ?case
    using IH(2,3) cp n full ne
    by (simp only: seg chain_image.simps) (simp del: wide_segments.simps)
qed

lemma write_wide_chain_appends:
  assumes "wide_planned a n c e" and "write_wide_chain wr rd s c src op = Ok (s', src')"
  shows "n \<le> length (content src) \<and> content src' = drop n (content src) \<and>
    contents s' = contents s @ wide_chain_bytes c (take n (content src))"
proof -
  let ?cap = "wide_page_capacity c"
  have c: "wide_start_address c = a" "wide_data_size c = n" "0 < ?cap"
    "wide_page_count c = wide_page_number n ?cap"
    using assms(1) by (simp_all add: wide_planned_def)
  note b = wide_page_number_bounds [OF c(3), of n]
  define k where "k = wide_page_count c - 1"
  have k: "wide_page_count c = Suc k" using b(1) c(4) by (simp add: k_def)
  obtain n' where w: "write_wide_pages wr rd s src op c 0 (Suc k) n a = Ok (s', src', n')"
    using assms(2) c k by (auto simp: write_wide_chain_def result_simps simp del: write_wide_pages.simps)
  have "0 + Suc k = wide_page_count c" "n \<le> Suc k * ?cap" "k = 0 \<or> k * ?cap < n"
    using b(2,3) k c(4) by auto
  from write_wide_pages_appends [OF w this c(3)] show ?thesis
    by (simp add: wide_chain_bytes_def wide_chain_segments_def c(1,2) k min_absorb2
        del: wide_segments.simps)
qed

end

section \<open>Writing never fails on a sink that takes everything\<close>

text \<open>
  The Format16 writer succeeds: on a sink that never fails and sources with enough bytes.
\<close>

context total_sink
begin

lemma write_all16_total: "\<exists>s'. write_all16 wr s bs op = Ok s'"
  using wr_total [of s bs] by (auto simp: write_all16_def)

lemma write_zeros16_total: "\<exists>s'. write_zeros16 wr s n = Ok s'"
proof (induction n arbitrary: s rule: less_induct)
  case (less n)
  show ?case
  proof (cases "n = 0")
    case True
    then show ?thesis by (subst write_zeros16.simps) simp
  next
    case False
    let ?k = "min n ZERO_BUFFER_LEN"
    obtain s1 where "write_all16 wr s (replicate ?k 0) ''page padding'' = Ok s1"
      using write_all16_total by blast
    moreover obtain s' where "write_zeros16 wr s1 (n - ?k) = Ok s'"
      using less.IH [of "n - ?k" s1] False by auto
    ultimately show ?thesis using False by (subst write_zeros16.simps) (simp add: Let_def)
  qed
qed

end

locale total_sink_and_source = sink_and_source wr contents rd content + total_sink wr contents
  for wr :: "'s sink" and contents :: "'s \<Rightarrow> bytes"
    and rd :: "'r source" and content :: "'r \<Rightarrow> bytes"
begin

lemma copy_payload_total:
  "n \<le> length (content src) \<Longrightarrow> \<exists>x. copy_payload wr rd s src op n = Ok x"
proof (induction n arbitrary: s src rule: less_induct)
  case (less n)
  show ?case
  proof (cases "n = 0")
    case True
    then show ?thesis by (subst copy_payload.simps) simp
  next
    case False
    let ?k = "min n ZERO_BUFFER_LEN"
    have le: "?k \<le> length (content src)" using less.prems by simp
    obtain src1 where rd: "rd src ?k = Ok (take ?k (content src), src1)"
      "content src1 = drop ?k (content src)"
      using rd_take [OF le] by blast
    obtain s1 where s1: "write_all16 wr s (take ?k (content src)) ''block payload'' = Ok s1"
      using write_all16_total by blast
    have "n - ?k < n" "n - ?k \<le> length (content src1)" using False less.prems rd(2) by auto
    from less.IH [OF this] obtain x where "copy_payload wr rd s1 src1 op (n - ?k) = Ok x" by blast
    then show ?thesis using rd(1) s1 False by (subst copy_payload.simps) (simp add: Let_def)
  qed
qed

lemma write_wide_pages_total:
  assumes "index + Suc k = wide_page_count c" "n \<le> Suc k * wide_page_capacity c"
    and "k = 0 \<or> k * wide_page_capacity c < n" "0 < wide_page_capacity c"
    and "n \<le> length (content src)" and "wide_data_size c \<le> u64_max" "wide_page_capacity c \<le> u32_max"
    and "a + Suc k * 55 + k * wide_page_capacity c \<le> u64_max"
  shows "\<exists>s' src'. write_wide_pages wr rd s src op c index (Suc k) n a = Ok (s', src', 0)"
  using assms(1-5,8)
proof (induction k arbitrary: s src index n a)
  case 0
  let ?cap = "wide_page_capacity c"
  let ?fs = "if index = 0 then wide_data_size c else 0"
  let ?ps = "case wide_policy c of Compact \<Rightarrow> n | Padded \<Rightarrow> ?cap"
  have n: "min n ?cap = n" and last: "Suc index = wide_page_count c" using "0.prems"(1,2) by simp_all
  have "n \<le> ?cap" using "0.prems"(2) by simp
  then have "?ps \<le> u32_max" using assms(7) by (simp split: chain_policy.split)
  then have h: "length (header_text 16 ?fs ?ps u64_max) = 55"
    using assms(6) by (subst length_header_text) auto
  obtain s1 where s1: "write_all16 wr s (header_text 16 ?fs ?ps u64_max) ''block header'' = Ok s1"
    using write_all16_total by blast
  obtain s2 src2 where s2: "copy_payload wr rd s1 src op n = Ok (s2, src2)"
    using copy_payload_total [OF "0.prems"(5)] by fastforce
  obtain s3 where s3: "write_zeros16 wr s2 (?ps - n) = Ok s3" using write_zeros16_total by blast
  show ?case unfolding write_wide_pages_last [OF n last] using h s1 s2 s3 by blast
next
  case (Suc k)
  let ?cap = "wide_page_capacity c"
  let ?fs = "if index = 0 then wide_data_size c else 0"
  have full: "min n ?cap = ?cap" "?cap < n"
    and more: "Suc index \<noteq> wide_page_count c" using Suc.prems(1,3,4) by auto
  have a: "a + 55 + ?cap \<le> u64_max" using Suc.prems(6) by simp
  then have h: "length (header_text 16 ?fs ?cap (a + 55 + ?cap)) = 55"
    using assms(6,7) by (subst length_header_text) auto
  obtain s1 where s1: "write_all16 wr s (header_text 16 ?fs ?cap (a + 55 + ?cap)) ''block header'' = Ok s1"
    using write_all16_total by blast
  have "?cap \<le> length (content src)" using Suc.prems(5) full by simp
  then obtain s2 src2 where s2: "copy_payload wr rd s1 src op ?cap = Ok (s2, src2)"
    using copy_payload_total by fastforce
  obtain s3 where s3: "write_zeros16 wr s2 0 = Ok s3" using write_zeros16_total by blast
  note cp = copy_payload_appends [OF s2]
  have "Suc index + Suc k = wide_page_count c" "n - ?cap \<le> Suc k * ?cap" "k = 0 \<or> k * ?cap < n - ?cap"
    "n - ?cap \<le> length (content src2)" "a + 55 + ?cap + Suc k * 55 + k * ?cap \<le> u64_max"
    using Suc.prems full cp by auto
  with Suc.IH [of "Suc index" "n - ?cap" src2 "a + 55 + ?cap" s3] Suc.prems(4)
  obtain s' src' where "write_wide_pages wr rd s3 src2 op c (Suc index) (Suc k) (n - ?cap)
      (a + 55 + ?cap) = Ok (s', src', 0)" by blast
  with h a s1 s2 s3 show ?case unfolding write_wide_pages_full [OF full(1) more] by blast
qed

lemma write_wide_chain_total:
  assumes "wide_planned a n c e" and "n \<le> length (content src)"
  shows "\<exists>s' src'. write_wide_chain wr rd s c src op = Ok (s', src')"
proof -
  let ?cap = "wide_page_capacity c"
  have c: "wide_start_address c = a" "wide_data_size c = n" "0 < ?cap" "?cap \<le> u32_max"
    "wide_page_count c = wide_page_number n ?cap"
    "e = a + wide_extent n ?cap (wide_policy c)" "e \<le> u64_max"
    using assms(1) by (simp_all add: wide_planned_def)
  note b = wide_page_number_bounds [OF c(3), of n]
  define k where "k = wide_page_count c - 1"
  have k: "wide_page_count c = Suc k" using b(1) c(5) by (simp add: k_def)
  have kb: "0 + Suc k = wide_page_count c" "n \<le> Suc k * ?cap" "k = 0 \<or> k * ?cap < n"
    using b(2,3) k c(5) by auto
  have e: "e = a + (Suc k * 55 + (case wide_policy c of Compact \<Rightarrow> n | Padded \<Rightarrow> Suc k * ?cap))"
    using c(6) unfolding wide_extent_def c(5) [symmetric] k .
  have kc: "k * ?cap \<le> n" using kb(3) by auto
  have "a + Suc k * 55 + k * ?cap \<le> e" "n \<le> e"
    using kb(2) kc unfolding e by (cases "wide_policy c"; simp)+
  then have "n \<le> u64_max" "a + Suc k * 55 + k * ?cap \<le> u64_max" using c(7) by simp_all
  with write_wide_pages_total [OF kb c(3) assms(2) _ c(4), of a s op] obtain s' src' where
    "write_wide_pages wr rd s src op c 0 (Suc k) n a = Ok (s', src', 0)" using c(2) by auto
  then show ?thesis
    using c k by (simp add: write_wide_chain_def del: write_wide_pages.simps)
qed

end

end
