(* ===== verification/V8_Roundtrip16.thy ===== *)
theory V8_Roundtrip16
  imports V8_Emit16
begin

text \<open>
  The image of a Format16 document, its emission, and reading it back as a primary container.
\<close>

section \<open>The image\<close>

definition payload_taken :: "format16_payload \<Rightarrow> bytes" where
  "payload_taken p = take (payload_length p) (yields (payload_reader p))"

definition payload_full :: "format16_payload \<Rightarrow> bool" where
  "payload_full p \<longleftrightarrow> payload_length p \<le> length (yields (payload_reader p))"

text \<open>What the reader of an element still yields, and what it will yield after the copy.\<close>

definition unread :: "format16_element \<Rightarrow> bytes option" where
  "unread x = map_option (\<lambda>p. yields (payload_reader p)) (data16 x)"

definition unread_after :: "format16_element \<Rightarrow> bytes option" where
  "unread_after x = map_option (\<lambda>p. drop (payload_length p) (yields (payload_reader p))) (data16 x)"

definition element_full :: "format16_element \<Rightarrow> bool" where
  "element_full x \<longleftrightarrow> (case data16 x of None \<Rightarrow> True | Some p \<Rightarrow> payload_full p)"

lemma length_payload_taken: "payload_full p \<Longrightarrow> length (payload_taken p) = payload_length p"
  by (simp add: payload_full_def payload_taken_def)

fun elements_image16 :: "format16_element list \<Rightarrow> wide_planned_element list \<Rightarrow> bytes" where
  "elements_image16 (x # xs) (p # ps) =
     wide_chain_bytes (wide_header p) (header16 x)
       @ (case (wide_data p, data16 x) of
            (Some ch, Some d) \<Rightarrow> wide_chain_bytes ch (payload_taken d) | _ \<Rightarrow> [])
       @ elements_image16 xs ps"
| "elements_image16 xs ps = []"

definition file_header_bytes16 :: "format16_document \<Rightarrow> bytes" where
  "file_header_bytes16 d =
     to_le_bytes 8 FORMAT16_SENTINEL @ to_le_bytes 4 (doc16_page_size d)
       @ to_le_bytes 4 (doc16_storage_version d) @ to_le_bytes 4 (doc16_reserved d)"

definition file_image16 :: "format16_document \<Rightarrow> format16_plan \<Rightarrow> bytes" where
  "file_image16 d p =
     file_header_bytes16 d @ wide_chain_bytes (wide_toc p) (toc_table16 (wide_elements p))
       @ elements_image16 (doc16_elements d) (wide_elements p)"

lemma wide_elements_planned_length: "wide_elements_planned a xs ps e \<Longrightarrow> length ps = length xs"
  by (induction a xs ps e rule: wide_elements_planned.induct) auto

lemma wide_elements_planned_bounds: "wide_elements_planned a xs ps e \<Longrightarrow> a \<le> e"
proof (induction a xs ps e rule: wide_elements_planned.induct)
  case (2 a x xs p ps e)
  then show ?case
    by (cases "data16 x") (fastforce simp: wide_planned_def)+
qed auto

lemma length_elements_image16:
  "wide_elements_planned a xs ps e \<Longrightarrow> \<forall>x \<in> set xs. element_full x \<Longrightarrow>
     a + length (elements_image16 xs ps) = e"
proof (induction a xs ps e rule: wide_elements_planned.induct)
  case (2 a x xs p ps e)
  from "2.prems" obtain m m' where
    m: "wide_planned a (length (header16 x)) (wide_header p) m"
    and m': "wide_data_planned m (data16 x) (wide_data p) m'"
    and rest: "wide_elements_planned m' xs ps e" and full: "element_full x"
    by auto
  have "m + length (case (wide_data p, data16 x) of
      (Some ch, Some d) \<Rightarrow> wide_chain_bytes ch (payload_taken d) | _ \<Rightarrow> []) = m'"
    using m' full length_wide_chain_bytes
    by (cases "data16 x") (auto simp: element_full_def length_payload_taken)
  with "2.IH" [OF rest] length_wide_chain_bytes [OF m] "2.prems"(2) show ?case by simp
qed simp_all

section \<open>Emission\<close>

text \<open>Every sink can be fed from the three sources of the writer.\<close>

sublocale write_sink \<subseteq> from_cursor: sink_and_source wr contents cursor_read_exact "\<lambda>bs. bs"
  by unfold_locales

sublocale write_sink \<subseteq> from_reader: sink_and_source wr contents boxed_read_exact yields
  by unfold_locales

sublocale write_sink \<subseteq> from_table: sink_and_source wr contents toc_read_exact toc_content
  by unfold_locales

sublocale total_sink \<subseteq> from_cursor: total_sink_and_source wr contents cursor_read_exact "\<lambda>bs. bs"
  by unfold_locales

sublocale total_sink \<subseteq> from_reader: total_sink_and_source wr contents boxed_read_exact yields
  by unfold_locales

sublocale total_sink \<subseteq> from_table: total_sink_and_source wr contents toc_read_exact toc_content
  by unfold_locales

context write_sink
begin

lemma write_elements16_appends:
  assumes "wide_elements_planned a xs ps e" and "write_elements16 wr s xs ps = Ok (s', xs')"
  shows "(\<forall>x \<in> set xs. element_full x) \<and> contents s' = contents s @ elements_image16 xs ps \<and>
    map unread xs' = map unread_after xs"
  using assms
proof (induction a xs ps e arbitrary: s xs' rule: wide_elements_planned.induct)
  case (2 a x xs p ps e)
  from "2.prems"(1) obtain m m' where
    m: "wide_planned a (length (header16 x)) (wide_header p) m"
    and m': "wide_data_planned m (data16 x) (wide_data p) m'"
    and rest: "wide_elements_planned m' xs ps e"
    by auto
  from "2.prems"(2) obtain s1 u s2 d' es' where
    s1: "write_wide_chain wr cursor_read_exact s (wide_header p) (header16 x) ''element header'' = Ok (s1, u)"
    and s2: "(case (wide_data p, data16 x) of
          (Some ch, Some d) \<Rightarrow>
            try_res (write_wide_chain wr boxed_read_exact s1 ch (payload_reader d) ''element payload'')
              (\<lambda>(s2, rdr). Ok (s2, Some (d\<lparr>payload_reader := rdr\<rparr>)))
        | (None, None) \<Rightarrow> Ok (s1, None)
        | _ \<Rightarrow> Err W16_InternalPlanMismatch) = Ok (s2, d')"
    and s3: "write_elements16 wr s2 xs ps = Ok (s', es')" and xs': "xs' = x\<lparr>data16 := d'\<rparr> # es'"
    by (auto simp: result_simps)
  have h: "contents s1 = contents s @ wide_chain_bytes (wide_header p) (header16 x)"
    using from_cursor.write_wide_chain_appends [OF m s1] by simp
  have d: "element_full x \<and> map_option (\<lambda>p. yields (payload_reader p)) d' = unread_after x \<and>
    contents s2 = contents s1 @ (case (wide_data p, data16 x) of
      (Some ch, Some d) \<Rightarrow> wide_chain_bytes ch (payload_taken d) | _ \<Rightarrow> [])"
  proof (cases "data16 x")
    case None
    then show ?thesis using m' s2 by (simp add: element_full_def unread_after_def)
  next
    case (Some d)
    with m' obtain ch where ch: "wide_data p = Some ch" "wide_planned m (payload_length d) ch m'" by auto
    with s2 Some obtain rdr where
      w: "write_wide_chain wr boxed_read_exact s1 ch (payload_reader d) ''element payload'' = Ok (s2, rdr)"
      and d': "d' = Some (d\<lparr>payload_reader := rdr\<rparr>)"
      by (auto simp: result_simps)
    from from_reader.write_wide_chain_appends [OF ch(2) w] show ?thesis
      by (simp add: Some ch d' element_full_def payload_full_def unread_after_def payload_taken_def)
  qed
  from "2.IH" [OF rest s3] h d show ?case by (simp add: xs' unread_def)
qed simp_all

lemma write_format16_appends:
  assumes "write_format16_primary wr s d = Ok (s', d', report)"
  shows "\<exists>p. plan_format16 d = Ok p \<and> (\<forall>x \<in> set (doc16_elements d). element_full x) \<and>
    contents s' = contents s @ file_image16 d p \<and>
    map unread (doc16_elements d') = map unread_after (doc16_elements d) \<and>
    report = \<lparr>bytes_written = wide_bytes_written p, entries_written = length (doc16_elements d),
      pages_written = wide_pages_written p\<rparr>"
proof -
  from assms obtain p s1 s2 s3 s4 s5 u es where
    p: "plan_format16 d = Ok p"
    and h: "write_all16 wr s (to_le_bytes 8 FORMAT16_SENTINEL) ''file marker'' = Ok s1"
      "write_all16 wr s1 (to_le_bytes 4 (doc16_page_size d)) ''file page size'' = Ok s2"
      "write_all16 wr s2 (to_le_bytes 4 (doc16_storage_version d)) ''storage version'' = Ok s3"
      "write_all16 wr s3 (to_le_bytes 4 (doc16_reserved d)) ''file reserved word'' = Ok s4"
    and s5: "write_wide_chain wr toc_read_exact s4 (wide_toc p)
      \<lparr>toc_elements = wide_elements p, toc_position = 0\<rparr> ''TOC'' = Ok (s5, u)"
    and s6: "write_elements16 wr s5 (doc16_elements d) (wide_elements p) = Ok (s', es)"
    and d': "d' = d\<lparr>doc16_elements := es\<rparr>"
    and report: "report = \<lparr>bytes_written = wide_bytes_written p,
      entries_written = length (doc16_elements d), pages_written = wide_pages_written p\<rparr>"
    by (auto simp: write_format16_primary_def result_simps)
  obtain m where m: "wide_planned 20 (length (doc16_elements d) * 24) (wide_toc p) m"
    and es: "wide_elements_planned m (doc16_elements d) (wide_elements p) (wide_bytes_written p)"
    using plan_format16_planned [OF p] by (auto simp: planned16_def)
  have "toc_content \<lparr>toc_elements = wide_elements p, toc_position = 0\<rparr> = toc_table16 (wide_elements p)"
    "length (doc16_elements d) * 24 = length (toc_table16 (wide_elements p))"
    using wide_elements_planned_length [OF es] by (simp_all add: toc_content_def)
  with from_table.write_wide_chain_appends [OF m s5]
  have "contents s5 = contents s4 @ wide_chain_bytes (wide_toc p) (toc_table16 (wide_elements p))"
    by simp
  with write_elements16_appends [OF es s6] p report h [THEN write_all16_appends] d'
  show ?thesis by (simp add: file_image16_def file_header_bytes16_def)
qed

end

context total_sink
begin

lemma write_elements16_total:
  assumes "wide_elements_planned a xs ps e" and "\<forall>x \<in> set xs. element_full x"
  shows "\<exists>s' xs'. write_elements16 wr s xs ps = Ok (s', xs')"
  using assms
proof (induction a xs ps e arbitrary: s rule: wide_elements_planned.induct)
  case (2 a x xs p ps e)
  from "2.prems" obtain m m' where
    m: "wide_planned a (length (header16 x)) (wide_header p) m"
    and m': "wide_data_planned m (data16 x) (wide_data p) m'"
    and rest: "wide_elements_planned m' xs ps e" "\<forall>x \<in> set xs. element_full x"
    and full: "element_full x"
    by auto
  obtain s1 u where s1: "write_wide_chain wr cursor_read_exact s (wide_header p) (header16 x)
      ''element header'' = Ok (s1, u)"
    using from_cursor.write_wide_chain_total [OF m, of "header16 x"] by blast
  obtain s2 d' where s2: "(case (wide_data p, data16 x) of
          (Some ch, Some d) \<Rightarrow>
            try_res (write_wide_chain wr boxed_read_exact s1 ch (payload_reader d) ''element payload'')
              (\<lambda>(s2, rdr). Ok (s2, Some (d\<lparr>payload_reader := rdr\<rparr>)))
        | (None, None) \<Rightarrow> Ok (s1, None)
        | _ \<Rightarrow> Err W16_InternalPlanMismatch) = Ok (s2, d')"
  proof (cases "data16 x")
    case None
    then show ?thesis using that m' by simp
  next
    case (Some d)
    with m' obtain ch where ch: "wide_data p = Some ch" "wide_planned m (payload_length d) ch m'" by auto
    moreover have "payload_length d \<le> length (yields (payload_reader d))"
      using full Some by (simp add: element_full_def payload_full_def)
    ultimately obtain s2 rdr where
      "write_wide_chain wr boxed_read_exact s1 ch (payload_reader d) ''element payload'' = Ok (s2, rdr)"
      using from_reader.write_wide_chain_total by blast
    then show ?thesis using that Some ch by simp
  qed
  from "2.IH" [OF rest, of s2] s1 s2 show ?case by auto
qed simp_all

lemma write_format16_total:
  assumes p: "plan_format16 d = Ok p" and full: "\<forall>x \<in> set (doc16_elements d). element_full x"
  shows "\<exists>s' d' report. write_format16_primary wr s d = Ok (s', d', report)"
proof -
  obtain m where m: "wide_planned 20 (length (doc16_elements d) * 24) (wide_toc p) m"
    and es: "wide_elements_planned m (doc16_elements d) (wide_elements p) (wide_bytes_written p)"
    using plan_format16_planned [OF p] by (auto simp: planned16_def)
  obtain s1 where s1: "write_all16 wr s (to_le_bytes 8 FORMAT16_SENTINEL) ''file marker'' = Ok s1"
    using write_all16_total by blast
  obtain s2 where s2: "write_all16 wr s1 (to_le_bytes 4 (doc16_page_size d)) ''file page size'' = Ok s2"
    using write_all16_total by blast
  obtain s3 where s3: "write_all16 wr s2 (to_le_bytes 4 (doc16_storage_version d)) ''storage version'' = Ok s3"
    using write_all16_total by blast
  obtain s4 where s4: "write_all16 wr s3 (to_le_bytes 4 (doc16_reserved d)) ''file reserved word'' = Ok s4"
    using write_all16_total by blast
  have "length (doc16_elements d) * 24 \<le>
      length (toc_content \<lparr>toc_elements = wide_elements p, toc_position = 0\<rparr>)"
    using wide_elements_planned_length [OF es] by (simp add: toc_content_def)
  then obtain s5 u where s5: "write_wide_chain wr toc_read_exact s4 (wide_toc p)
      \<lparr>toc_elements = wide_elements p, toc_position = 0\<rparr> ''TOC'' = Ok (s5, u)"
    using from_table.write_wide_chain_total [OF m] by blast
  obtain s6 es' where "write_elements16 wr s5 (doc16_elements d) (wide_elements p) = Ok (s6, es')"
    using write_elements16_total [OF es full] by blast
  then show ?thesis
    using p s1 s2 s3 s4 s5 by (simp add: write_format16_primary_def)
qed

end

section \<open>Reading back\<close>

lemma read_wide_chain:
  assumes "wide_planned a (length d) c e"
    and "input r = pre @ wide_chain_bytes c d @ post" "length pre = a"
    and "length (input r) \<le> u64_max" and "claims_below a r"
  shows "\<exists>r' ch. read_chain64 r (word_of_nat a) = Ok (r', ch) \<and> data ch = d \<and>
    input r' = input r \<and> claims_below e r'"
proof -
  note s = wide_planned_segments [OF assms(1)]
  have a: "wide_start_address c = a" using assms(1) by (simp add: wide_planned_def)
  have "format16.fits a (wide_chain_segments c d)" using s by (simp add: format16.fits_def)
  moreover have "length (segments_payload (wide_chain_segments c d)) \<le> u64_max" using s by simp
  ultimately show ?thesis
    using format16.read_image [OF s(1), of a r pre post] s(2,3) assms(2-5) a
    by (auto simp: read_chain64_def wide_chain_bytes_def claims_below_def)
qed

lemma read_element_address16_record:
  "read_element_address16 (to_le_bytes 8 h @ to_le_bytes 8 d @ to_le_bytes 8 FORMAT16_SENTINEL) i =
     Ok \<lparr>address_raw = to_le_bytes 8 h @ to_le_bytes 8 d @ to_le_bytes 8 FORMAT16_SENTINEL,
         header_address = h, data_address = (if d \<noteq> FORMAT16_SENTINEL then Some d else None),
         marker = FORMAT16_SENTINEL\<rparr>"
proof -
  let ?e = "to_le_bytes 8 h @ to_le_bytes 8 d @ to_le_bytes 8 FORMAT16_SENTINEL"
  have "slice 0 8 ?e = to_le_bytes 8 h" "slice 8 16 ?e = to_le_bytes 8 d"
    "slice 16 24 ?e = to_le_bytes 8 FORMAT16_SENTINEL"
    by (simp_all add: slice_def)
  then show ?thesis by (simp add: read_element_address16_def Let_def)
qed

lemma wide_word_of:
  assumes "wide_planned a n c e"
  shows "(word_of_nat a :: u64) \<noteq> FORMAT16_SENTINEL"
proof
  assume *: "(word_of_nat a :: u64) = FORMAT16_SENTINEL"
  have "0 < wide_page_number n (wide_page_capacity c)" by (simp add: wide_page_number_def)
  then have "a < u64_max" using assms by (simp add: wide_planned_def wide_extent_def)
  then have "unat (word_of_nat a :: u64) = a" by (intro unat_of_nat_u64) simp
  with * \<open>a < u64_max\<close> show False by simp
qed

lemma parse_element16_image:
  assumes h: "wide_planned a (length (header16 x)) (wide_header p) m"
    and d: "wide_data_planned m (data16 x) (wide_data p) e" and full: "element_full x"
    and inp: "input r = pre @ wide_chain_bytes (wide_header p) (header16 x)
      @ (case (wide_data p, data16 x) of
           (Some ch, Some q) \<Rightarrow> wide_chain_bytes ch (payload_taken q) | _ \<Rightarrow> []) @ post"
      "length pre = a" "length (input r) \<le> u64_max"
    and below: "claims_below a r" and name: "header_name (header16 x) = Some n"
  shows "\<exists>r' el. parse_element16 r i (format16_toc_record p) = Ok (r', el) \<and>
    raw_header el = header16 x \<and> element_data el = map_option payload_taken (data16 x) \<and>
    name el = n \<and> input r' = input r \<and> claims_below e r'"
proof -
  obtain r1 hc where rd: "read_chain64 r (word_of_nat a) = Ok (r1, hc)" "data hc = header16 x"
      "input r1 = input r" "claims_below m r1"
    using read_wide_chain [OF h inp(1-3) below] by blast
  have na: "(word_of_nat a :: u64) \<noteq> FORMAT16_SENTINEL" using wide_word_of [OF h] .
  have nm: "element_name16 (data hc) i = Ok n" using name by (simp add: rd element_name16_Ok)
  have ha: "wide_start_address (wide_header p) = a" using h by (simp add: wide_planned_def)
  show ?thesis
  proof (cases "data16 x")
    case None
    then show ?thesis
      using d rd na nm
      by (simp add: parse_element16_def format16_toc_record_def read_element_address16_record ha)
  next
    case (Some q)
    with d obtain ch where ch: "wide_data p = Some ch" "wide_planned m (payload_length q) ch e" by auto
    have q: "length (payload_taken q) = payload_length q"
      using full Some by (simp add: element_full_def length_payload_taken)
    have nd: "(word_of_nat m :: u64) \<noteq> FORMAT16_SENTINEL" using wide_word_of [OF ch(2)] .
    have da: "wide_start_address ch = m" using ch(2) by (simp add: wide_planned_def)
    have "input r1 = (pre @ wide_chain_bytes (wide_header p) (header16 x))
        @ wide_chain_bytes ch (payload_taken q) @ post"
      using inp(1) by (simp add: rd Some ch)
    moreover have "length (pre @ wide_chain_bytes (wide_header p) (header16 x)) = m"
      using length_wide_chain_bytes [OF h] inp(2) by simp
    ultimately obtain r2 dc where "read_chain64 r1 (word_of_nat m) = Ok (r2, dc)"
        "data dc = payload_taken q" "input r2 = input r1" "claims_below e r2"
      using read_wide_chain [OF ch(2) [folded q]] rd(3,4) inp(3) by metis
    then show ?thesis
      using rd na nm nd
      by (simp add: parse_element16_def format16_toc_record_def read_element_address16_record
          ha da Some ch)
  qed
qed

lemma parse_elements16_image:
  assumes "wide_elements_planned a xs ps e" and "\<forall>x \<in> set xs. element_full x"
    and "input r = pre @ elements_image16 xs ps" "length pre = a" "length (input r) \<le> u64_max"
    and "claims_below a r" and "\<forall>x \<in> set xs. header_name (header16 x) \<noteq> None"
  shows "\<exists>r' els. parse_elements16 r i (map format16_toc_record ps) = Ok (r', els) \<and>
    map (\<lambda>el. (raw_header el, element_data el)) els =
      map (\<lambda>x. (header16 x, map_option payload_taken (data16 x))) xs \<and>
    map (\<lambda>el. Some (name el)) els = map (\<lambda>x. header_name (header16 x)) xs"
  using assms
proof (induction a xs ps e arbitrary: r pre i rule: wide_elements_planned.induct)
  case (2 a x xs p ps e)
  from "2.prems"(1,2) obtain m m' where
    m: "wide_planned a (length (header16 x)) (wide_header p) m"
    and m': "wide_data_planned m (data16 x) (wide_data p) m'"
    and rest: "wide_elements_planned m' xs ps e" and full: "element_full x" "\<forall>x \<in> set xs. element_full x"
    by auto
  obtain n where n: "header_name (header16 x) = Some n" using "2.prems"(7) by auto
  let ?h = "wide_chain_bytes (wide_header p) (header16 x)"
  let ?d = "case (wide_data p, data16 x) of
      (Some ch, Some q) \<Rightarrow> wide_chain_bytes ch (payload_taken q) | _ \<Rightarrow> []"
  have inp: "input r = pre @ ?h @ ?d @ elements_image16 xs ps" using "2.prems"(3) by simp
  obtain r1 el where el: "parse_element16 r i (format16_toc_record p) = Ok (r1, el)"
    "raw_header el = header16 x" "element_data el = map_option payload_taken (data16 x)" "name el = n"
    "input r1 = input r" "claims_below m' r1"
    using parse_element16_image [OF m m' full(1) inp "2.prems"(4-6) n] by blast
  have "m + length ?d = m'"
    using m' full(1) length_wide_chain_bytes
    by (cases "data16 x") (auto simp: element_full_def length_payload_taken)
  then have "length (pre @ ?h @ ?d) = m'"
    using length_wide_chain_bytes [OF m] "2.prems"(4) by simp
  moreover have "input r1 = (pre @ ?h @ ?d) @ elements_image16 xs ps" using inp el(5) by simp
  ultimately obtain r' els where
    "parse_elements16 r1 (Suc i) (map format16_toc_record ps) = Ok (r', els)"
    "map (\<lambda>el. (raw_header el, element_data el)) els =
      map (\<lambda>x. (header16 x, map_option payload_taken (data16 x))) xs"
    "map (\<lambda>el. Some (name el)) els = map (\<lambda>x. header_name (header16 x)) xs"
    using "2.IH" [OF rest full(2) _ _ _ el(6), of "pre @ ?h @ ?d" "Suc i"] "2.prems"(5,7)
    unfolding el(5) by auto
  with el n show ?case by simp
qed simp_all

lemma parse_primary_image:
  assumes "planned16 d p" and "valid_document16 d" and "\<forall>x \<in> set (doc16_elements d). element_full x"
  shows "\<exists>c. parse_primary (file_image16 d p) = Ok c \<and>
    file_page_size (file_header c) = doc16_page_size d \<and>
    storage_version (file_header c) = doc16_storage_version d \<and>
    file_reserved (file_header c) = doc16_reserved d \<and> base_offset c = 0 \<and> preamble c = None \<and>
    map (\<lambda>el. (raw_header el, element_data el)) (elements c) =
      map (\<lambda>x. (header16 x, map_option payload_taken (data16 x))) (doc16_elements d) \<and>
    map (\<lambda>el. Some (name el)) (elements c) = map (\<lambda>x. header_name (header16 x)) (doc16_elements d)"
proof -
  define bs where "bs = file_image16 d p"
  define toc where "toc = toc_table16 (wide_elements p)"
  obtain m where m: "wide_planned 20 (length (doc16_elements d) * 24) (wide_toc p) m"
    and es: "wide_elements_planned m (doc16_elements d) (wide_elements p) (wide_bytes_written p)"
    and size: "wide_bytes_written p \<le> u64_max"
    using assms(1) by (auto simp: planned16_def)
  have t: "wide_planned 20 (length toc) (wide_toc p) m"
    using m wide_elements_planned_length [OF es] by (simp add: toc_def)
  have bs: "bs = file_header_bytes16 d @ wide_chain_bytes (wide_toc p) toc
      @ elements_image16 (doc16_elements d) (wide_elements p)"
    by (simp add: bs_def file_image16_def toc_def)
  have lh: "length (file_header_bytes16 d) = 20" by (simp add: file_header_bytes16_def)
  have pre: "length (file_header_bytes16 d @ wide_chain_bytes (wide_toc p) toc) = m"
    using length_wide_chain_bytes [OF t] lh by simp
  have len: "length bs = wide_bytes_written p" "length bs \<le> u64_max"
    using length_elements_image16 [OF es assms(3)] pre size by (simp_all add: bs)
  have long: "75 \<le> length bs"
    using len(1) wide_planned_segments(5) [OF t] wide_elements_planned_bounds [OF es] by simp
  have fh: "read_file_header16 bs = Ok \<lparr>file_raw = file_header_bytes16 d,
      file_next_page = FORMAT16_SENTINEL, file_page_size = doc16_page_size d,
      storage_version = doc16_storage_version d, file_reserved = doc16_reserved d\<rparr>"
  proof -
    have "checked_slice16 bs 0 20 = Ok (file_header_bytes16 d)"
      using long lh by (simp add: checked_slice16_def checked_add64_def bs slice_def)
    moreover have "slice 0 8 (file_header_bytes16 d) = to_le_bytes 8 FORMAT16_SENTINEL"
      "slice 8 12 (file_header_bytes16 d) = to_le_bytes 4 (doc16_page_size d)"
      "slice 12 16 (file_header_bytes16 d) = to_le_bytes 4 (doc16_storage_version d)"
      "slice 16 20 (file_header_bytes16 d) = to_le_bytes 4 (doc16_reserved d)"
      by (simp_all add: slice_def file_header_bytes16_def)
    ultimately show ?thesis by (simp add: read_file_header16_def)
  qed
  define r0 where "r0 = \<lparr>input = bs, claimed = [\<lparr>range_start = 0, range_end = 20, owner = 0\<rparr>]\<rparr>"
  have rsv: "reserve64 (block_reader_new bs) 0 20 = Ok r0"
    using long by (simp add: reserve64_def block_reader_new_def Let_def r0_def checked_add64_def)
  have "claims_below 20 r0" by (simp add: r0_def claims_below_def)
  then obtain r2 tc where tc: "read_chain64 r0 (word_of_nat 20) = Ok (r2, tc)" "data tc = toc"
    "input r2 = bs" "claims_below m r2"
    using read_wide_chain [OF t, of r0 "file_header_bytes16 d"] bs lh len(2) by (auto simp: r0_def)
  have ch: "chunks_exact 24 toc = map format16_toc_record (wide_elements p)"
    unfolding toc_def toc_table16_def by (rule chunks_exact_concat) simp_all
  obtain r3 els where els: "parse_elements16 r2 0 (map format16_toc_record (wide_elements p)) = Ok (r3, els)"
    "map (\<lambda>el. (raw_header el, element_data el)) els =
      map (\<lambda>x. (header16 x, map_option payload_taken (data16 x))) (doc16_elements d)"
    "map (\<lambda>el. Some (name el)) els = map (\<lambda>x. header_name (header16 x)) (doc16_elements d)"
    using parse_elements16_image [OF es assms(3), of r2 "file_header_bytes16 d @ wide_chain_bytes (wide_toc p) toc" 0]
      tc(3,4) len(2) assms(2) bs pre by (auto simp: valid_document16_def list_all_iff)
  have "length toc mod 24 = 0" by (simp add: toc_def)
  then show ?thesis
    using long fh rsv tc(1,2) ch els
    by (simp add: parse_primary_def parse_at_def split_preamble_def parse_primary_at_def Let_def
        bs_def [symmetric])
qed

end
