(* ===== verification/V8_Plan15.thy ===== *)
theory V8_Plan15
  imports V8_Writer15
begin

text \<open>
  What the Format15 planner decides: the shape of a planned chain (\<open>planned_run\<close>), the space it
  takes, and that planning succeeds exactly when the space below the sentinel suffices.
\<close>

section \<open>Planned chains\<close>

abbreviation SENT15 :: nat where "SENT15 \<equiv> 0x7fffffff"

text \<open>Linked pages that carry \<open>n\<close> bytes and occupy the space from \<open>a\<close> to \<open>e\<close>.\<close>

fun planned_run :: "nat \<Rightarrow> nat \<Rightarrow> planned_page list \<Rightarrow> nat \<Rightarrow> bool" where
  "planned_run a n [] e \<longleftrightarrow> False"
| "planned_run a n [p] e \<longleftrightarrow>
     plan_address p = a \<and> plan_data_length p = n \<and> n \<le> unat (plan_page_size p) \<and>
     plan_next p = FORMAT15_SENTINEL \<and> e = a + 31 + unat (plan_page_size p) \<and> e \<le> SENT15"
| "planned_run a n (p # q # ps) e \<longleftrightarrow>
     plan_address p = a \<and> plan_data_length p = unat (plan_page_size p) \<and>
     0 < plan_data_length p \<and> plan_data_length p < n \<and>
     a + 31 + unat (plan_page_size p) < SENT15 \<and>
     plan_next p = word_of_nat (a + 31 + unat (plan_page_size p)) \<and>
     planned_run (a + 31 + unat (plan_page_size p)) (n - plan_data_length p) (q # ps) e"

lemma planned_run_bounds:
  "planned_run a n ps e \<Longrightarrow> ps \<noteq> [] \<and> plan_address (hd ps) = a \<and> a + 31 + n \<le> e \<and> e \<le> SENT15"
proof (induction a n ps e rule: planned_run.induct)
  case (3 a n p q ps e)
  have "plan_address p = a" "plan_data_length p = unat (plan_page_size p)" "plan_data_length p < n"
    "planned_run (a + 31 + unat (plan_page_size p)) (n - plan_data_length p) (q # ps) e"
    using "3.prems" unfolding planned_run.simps by blast+
  moreover from "3.IH" [OF this(4)] have "a + 31 + unat (plan_page_size p) + 31
      + (n - plan_data_length p) \<le> e" "e \<le> SENT15" by blast+
  ultimately show ?case by simp
qed auto

text \<open>The space that \<open>count\<close> pages take for \<open>n\<close> bytes.\<close>

definition page_bytes15 :: "nat \<Rightarrow> u32 \<Rightarrow> chain_policy \<Rightarrow> nat" where
  "page_bytes15 n cfg policy = (case policy of Compact \<Rightarrow> min n (unat cfg) | Padded \<Rightarrow> unat cfg)"

definition pages_extent15 :: "nat \<Rightarrow> nat \<Rightarrow> u32 \<Rightarrow> chain_policy \<Rightarrow> nat" where
  "pages_extent15 count n cfg policy =
     count * 31 + (case policy of Compact \<Rightarrow> min n (count * unat cfg) | Padded \<Rightarrow> count * unat cfg)"

lemma pages_extent15_simps [simp]:
  "pages_extent15 0 n cfg policy = 0"
  "pages_extent15 (Suc count) n cfg policy =
     31 + page_bytes15 n cfg policy + pages_extent15 count (n - min n (unat cfg)) cfg policy"
  by (auto simp: pages_extent15_def page_bytes15_def min_def split: chain_policy.split)

definition page_count :: "nat \<Rightarrow> nat \<Rightarrow> nat" where
  "page_count n cfg = (if n = 0 then 1 else div_ceil n cfg)"

lemma page_count_bounds:
  assumes "0 < c"
  shows "0 < page_count n c" "n \<le> page_count n c * c" "page_count n c = 1 \<or> (page_count n c - 1) * c < n"
proof -
  have d: "n = n div c * c + n mod c" by simp
  show "0 < page_count n c"
    using assms by (auto simp: page_count_def div_ceil_def dvd_div_eq_0_iff mod_eq_0_iff_dvd)
  show "n \<le> page_count n c * c"
  proof -
    have "n mod c \<le> c" using assms by (simp add: less_imp_le)
    then have "n \<le> c + n div c * c" using d by linarith
    then show ?thesis using d by (auto simp: page_count_def div_ceil_def)
  qed
  show "page_count n c = 1 \<or> (page_count n c - 1) * c < n"
  proof -
    have "(n div c - 1) * c < n" if "0 < n"
    proof (cases "n div c = 0")
      case False
      then have "(n div c - 1) * c < n div c * c" using assms by simp
      then show ?thesis using d by linarith
    qed (use that in simp)
    moreover have "n div c * c < n" if "n mod c \<noteq> 0" using d that by linarith
    ultimately show ?thesis by (auto simp: page_count_def div_ceil_def)
  qed
qed

section \<open>Planning one chain\<close>

definition page_word15 :: "nat \<Rightarrow> u32 \<Rightarrow> chain_policy \<Rightarrow> u32" where
  "page_word15 n cfg policy =
     (case policy of Compact \<Rightarrow> word_of_nat (min n (unat cfg)) | Padded \<Rightarrow> cfg)"

lemma unat_page_word15 [simp]: "unat (page_word15 n cfg policy) = page_bytes15 n cfg policy"
  using unat_u32_le [of cfg]
  by (auto simp: page_word15_def page_bytes15_def unat_of_nat_u32 split: chain_policy.split)

lemma page_bytes15_ge: "min n (unat cfg) \<le> page_bytes15 n cfg policy"
  by (simp add: page_bytes15_def split: chain_policy.split)

lemma page_bytes15_full: "unat cfg \<le> n \<Longrightarrow> page_bytes15 n cfg policy = unat cfg"
  by (simp add: page_bytes15_def split: chain_policy.split)

lemma plan_pages_Suc:
  "plan_chain_pages15 (Suc count) a n cfg policy = Ok (ps, e) \<longleftrightarrow>
     a + 31 + page_bytes15 n cfg policy \<le> SENT15 \<and>
     (\<exists>ps'. plan_chain_pages15 count (a + 31 + page_bytes15 n cfg policy) (n - min n (unat cfg))
          cfg policy = Ok (ps', e) \<and>
        ps = \<lparr>plan_address = a, plan_page_size = page_word15 n cfg policy,
              plan_data_length = min n (unat cfg), plan_next = FORMAT15_SENTINEL\<rparr> # ps')"
  by (auto simp: Let_def result_simps page_word15_def [symmetric] add.assoc)

declare plan_chain_pages15.simps(2) [simp del]

lemma plan_pages_end:
  "plan_chain_pages15 count a n cfg policy = Ok (ps, e) \<Longrightarrow>
     e = a + pages_extent15 count n cfg policy \<and> length ps = count \<and> (0 < count \<longrightarrow> e \<le> SENT15)"
proof (induction count arbitrary: a n ps e)
  case 0
  then show ?case by simp
next
  case (Suc count)
  from Suc.prems obtain ps' where
    ps': "plan_chain_pages15 count (a + 31 + page_bytes15 n cfg policy) (n - min n (unat cfg))
        cfg policy = Ok (ps', e)" "length ps = Suc (length ps')"
      "a + 31 + page_bytes15 n cfg policy \<le> SENT15"
    by (auto simp: plan_pages_Suc)
  from Suc.IH [OF ps'(1)] ps'(2,3) show ?case by auto
qed

lemma plan_pages_total:
  assumes "a + pages_extent15 count n cfg policy \<le> SENT15"
  shows "\<exists>ps. plan_chain_pages15 count a n cfg policy = Ok (ps, a + pages_extent15 count n cfg policy)"
  using assms
proof (induction count arbitrary: a n)
  case 0
  then show ?case by simp
next
  case (Suc count)
  let ?a = "a + 31 + page_bytes15 n cfg policy"
  obtain ps where "plan_chain_pages15 count ?a (n - min n (unat cfg)) cfg policy =
      Ok (ps, ?a + pages_extent15 count (n - min n (unat cfg)) cfg policy)"
    using Suc.IH [of ?a "n - min n (unat cfg)"] Suc.prems by (auto simp: add.assoc)
  then show ?case
    using Suc.prems by (auto simp: plan_pages_Suc add.assoc)
qed

lemma plan_pages_run:
  assumes "plan_chain_pages15 (Suc count) a n cfg policy = Ok (ps, e)"
    and "n \<le> Suc count * unat cfg" "count = 0 \<or> count * unat cfg < n" "0 < unat cfg"
  shows "plan_address (hd ps) = a \<and> (\<exists>qs. link_pages15 ps = Ok qs \<and> planned_run a n qs e)"
  using assms
proof (induction count arbitrary: a n ps e)
  case 0
  then show ?case
    using page_bytes15_ge [of n cfg policy] by (auto simp: plan_pages_Suc)
next
  case (Suc count)
  let ?c = "unat cfg"
  have full: "?c < n" "min n ?c = ?c"
    using Suc.prems(3,4) by auto
  have psz: "page_bytes15 n cfg policy = ?c" using full by (simp add: page_bytes15_full)
  define a' where "a' = a + 31 + ?c"
  obtain ps' where ps': "plan_chain_pages15 (Suc count) a' (n - ?c) cfg policy = Ok (ps', e)"
    and ps: "ps = \<lparr>plan_address = a, plan_page_size = page_word15 n cfg policy,
           plan_data_length = ?c, plan_next = FORMAT15_SENTINEL\<rparr> # ps'"
    using Suc.prems(1) plan_pages_Suc [of "Suc count" a n cfg policy ps e]
    by (auto simp: full psz a'_def)
  have "n - ?c \<le> Suc count * ?c" "count = 0 \<or> count * ?c < n - ?c"
    using Suc.prems(2,3) full by auto
  from Suc.IH [OF ps' this Suc.prems(4)] obtain qs where
    IH: "plan_address (hd ps') = a'" "link_pages15 ps' = Ok qs" "planned_run a' (n - ?c) qs e"
    by auto
  obtain p ps'' where p: "ps' = p # ps''"
    using plan_pages_end [OF ps'] by (cases ps') auto
  obtain q qs' where q: "qs = q # qs'" using IH(3) by (cases qs) auto
  have lt: "a' < SENT15" using planned_run_bounds [OF IH(3)] by simp
  then have "checked_address (plan_address p) = Ok (word_of_nat a')"
    using IH(1) by (simp add: checked_address_def p)
  then have "link_pages15 ps = Ok (\<lparr>plan_address = a, plan_page_size = page_word15 n cfg policy,
           plan_data_length = ?c, plan_next = word_of_nat a'\<rparr> # qs)"
    using IH(2) by (simp add: ps p)
  moreover have "planned_run a n (\<lparr>plan_address = a, plan_page_size = page_word15 n cfg policy,
           plan_data_length = ?c, plan_next = word_of_nat a'\<rparr> # qs) e"
    using IH(3) lt full(1) Suc.prems(4) by (simp add: q psz a'_def)
  ultimately show ?case by (simp add: ps)
qed

definition chain_extent15 :: "nat \<Rightarrow> u32 \<Rightarrow> chain_policy \<Rightarrow> nat" where
  "chain_extent15 n cfg policy = pages_extent15 (page_count n (unat cfg)) n cfg policy"

lemma plan_chain15_run:
  assumes "plan_chain15 a n cfg policy kind = Ok (c, e)" and "0 < unat cfg"
  shows "planned_run a n (plan_pages c) e" "unat (plan_data_size c) = n"
    "e = a + chain_extent15 n cfg policy" "length (plan_pages c) = page_count n (unat cfg)"
proof -
  let ?c = "page_count n (unat cfg)"
  note b = page_count_bounds [OF assms(2), of n]
  obtain ps qs where ps: "plan_chain_pages15 ?c a n cfg policy = Ok (ps, e)"
    and qs: "link_pages15 ps = Ok qs" "plan_pages c = qs"
    and c: "plan_data_size c = word_of_nat n" "n \<le> u32_max"
    using assms(1) by (auto simp: plan_chain15_def page_count_def Let_def result_simps split: if_splits)
  have "Suc (?c - 1) = ?c" using b(1) by simp
  then have "\<exists>qs. link_pages15 ps = Ok qs \<and> planned_run a n qs e"
    using plan_pages_run [of "?c - 1" a n cfg policy ps e] ps b(2,3) assms(2) by auto
  then show "planned_run a n (plan_pages c) e" using qs by simp
  show "unat (plan_data_size c) = n" using c by (simp add: unat_of_nat_u32)
  show "e = a + chain_extent15 n cfg policy"
    using plan_pages_end [OF ps] by (simp add: chain_extent15_def)
  have "length qs = length ps" if "link_pages15 ps = Ok qs" for ps qs
    using that by (induction ps arbitrary: qs rule: link_pages15.induct) (auto simp: result_simps)
  then show "length (plan_pages c) = page_count n (unat cfg)"
    using qs plan_pages_end [OF ps] by simp
qed

lemma chain_extent15_ge:
  assumes "0 < unat cfg"
  shows "31 + n \<le> chain_extent15 n cfg policy"
proof -
  note b = page_count_bounds [OF assms, of n]
  show ?thesis
    using b(1,2) by (auto simp: chain_extent15_def pages_extent15_def split: chain_policy.split)
qed

text \<open>Planning a chain succeeds exactly when the chain ends at or below the sentinel.\<close>

lemma plan_chain15_Ok:
  assumes "0 < unat cfg"
  shows "(\<exists>c. plan_chain15 a n cfg policy kind = Ok (c, e)) \<longleftrightarrow>
    e = a + chain_extent15 n cfg policy \<and> e \<le> SENT15"
proof
  assume "\<exists>c. plan_chain15 a n cfg policy kind = Ok (c, e)"
  then show "e = a + chain_extent15 n cfg policy \<and> e \<le> SENT15"
    using plan_chain15_run(1,3) [OF _ assms] planned_run_bounds by fastforce
next
  assume e: "e = a + chain_extent15 n cfg policy \<and> e \<le> SENT15"
  let ?c = "page_count n (unat cfg)"
  note b = page_count_bounds [OF assms, of n]
  have n: "n \<le> u32_max" using e chain_extent15_ge [OF assms, of n policy] by simp
  obtain ps where ps: "plan_chain_pages15 ?c a n cfg policy = Ok (ps, e)"
    using plan_pages_total [of a ?c n cfg policy] e by (auto simp: chain_extent15_def)
  have "Suc (?c - 1) = ?c" using b(1) by simp
  then obtain qs where "link_pages15 ps = Ok qs"
    using plan_pages_run [of "?c - 1" a n cfg policy ps e] ps b(2,3) assms by auto
  then show "\<exists>c. plan_chain15 a n cfg policy kind = Ok (c, e)"
    using ps n by (auto simp: plan_chain15_def page_count_def Let_def)
qed

section \<open>Planned elements\<close>

definition chain_planned :: "nat \<Rightarrow> nat \<Rightarrow> planned_chain \<Rightarrow> nat \<Rightarrow> bool" where
  "chain_planned a n c e \<longleftrightarrow> planned_run a n (plan_pages c) e \<and> unat (plan_data_size c) = n"

lemma chain_planned_bounds:
  "chain_planned a n c e \<Longrightarrow> plan_address (hd (plan_pages c)) = a \<and> a + 31 + n \<le> e \<and> e \<le> SENT15"
  using planned_run_bounds by (auto simp: chain_planned_def)

definition data_planned :: "nat \<Rightarrow> bytes option \<Rightarrow> planned_chain option \<Rightarrow> nat \<Rightarrow> bool" where
  "data_planned a d c e \<longleftrightarrow>
     (case (d, c) of (None, None) \<Rightarrow> e = a | (Some bs, Some ch) \<Rightarrow> chain_planned a (length bs) ch e
      | _ \<Rightarrow> False)"

lemma data_planned_simps [simp]:
  "data_planned a None c e \<longleftrightarrow> c = None \<and> e = a"
  "data_planned a (Some bs) c e \<longleftrightarrow> (\<exists>ch. c = Some ch \<and> chain_planned a (length bs) ch e)"
  by (auto simp: data_planned_def split: option.splits)

fun elements_planned :: "nat \<Rightarrow> format15_element list \<Rightarrow> planned_element list \<Rightarrow> nat \<Rightarrow> bool" where
  "elements_planned a [] [] e \<longleftrightarrow> e = a"
| "elements_planned a (x # xs) (p # ps) e \<longleftrightarrow>
     (\<exists>m m'. chain_planned a (length (header15 x)) (plan_header p) m \<and>
        data_planned m (data15 x) (plan_data p) m' \<and> elements_planned m' xs ps e)"
| "elements_planned a xs ps e \<longleftrightarrow> False"

definition element_extent15 :: "u32 \<Rightarrow> format15_element \<Rightarrow> nat" where
  "element_extent15 cfg x = chain_extent15 (length (header15 x)) cfg Compact +
     (case data15 x of None \<Rightarrow> 0 | Some d \<Rightarrow> chain_extent15 (length d) cfg Padded)"

lemma plan_chain15_planned:
  "plan_chain15 a n cfg policy kind = Ok (c, e) \<Longrightarrow> 0 < unat cfg \<Longrightarrow> chain_planned a n c e"
  using plan_chain15_run by (simp add: chain_planned_def)

lemma plan_elements15_planned:
  assumes "plan_elements15 a cfg xs = Ok (ps, e)" and "0 < unat cfg"
  shows "elements_planned a xs ps e \<and> e = a + sum_list (map (element_extent15 cfg) xs)"
  using assms(1)
proof (induction xs arbitrary: a ps e)
  case Nil
  then show ?case by simp
next
  case (Cons x xs)
  from Cons.prems obtain h m d m' ps' where
    h: "plan_chain15 a (length (header15 x)) cfg Compact ''element header'' = Ok (h, m)"
    and d: "(case data15 x of None \<Rightarrow> Ok (None, m) | Some d \<Rightarrow>
            try_res (plan_chain15 m (length d) cfg Padded ''element data'') (\<lambda>(ch, c2).
            Ok (Some ch, c2))) = Ok (d, m')"
    and ps': "plan_elements15 m' cfg xs = Ok (ps', e)"
    and ps: "ps = \<lparr>plan_header = h, plan_data = d\<rparr> # ps'"
    by (auto simp: result_simps)
  have "data_planned m (data15 x) d m' \<and> m' = m +
      (case data15 x of None \<Rightarrow> 0 | Some d \<Rightarrow> chain_extent15 (length d) cfg Padded)"
    using d plan_chain15_planned [OF _ assms(2)] plan_chain15_run(3) [OF _ assms(2)]
    by (auto simp: result_simps split: option.splits)
  with h Cons.IH [OF ps'] show ?case
    using plan_chain15_planned [OF h assms(2)] plan_chain15_run(3) [OF h assms(2)]
    by (auto simp: ps element_extent15_def)
qed

lemma plan_elements15_total:
  assumes "a + sum_list (map (element_extent15 cfg) xs) \<le> SENT15" and "0 < unat cfg"
  shows "\<exists>ps e. plan_elements15 a cfg xs = Ok (ps, e)"
  using assms(1)
proof (induction xs arbitrary: a)
  case Nil
  then show ?case by simp
next
  case (Cons x xs)
  let ?m = "a + chain_extent15 (length (header15 x)) cfg Compact"
  have "?m \<le> SENT15" using Cons.prems by (simp add: element_extent15_def)
  then obtain h where
    h: "plan_chain15 a (length (header15 x)) cfg Compact ''element header'' = Ok (h, ?m)"
    using plan_chain15_Ok [OF assms(2)] by blast
  show ?case
  proof (cases "data15 x")
    case None
    then show ?thesis using Cons.IH [of ?m] Cons.prems h by (auto simp: element_extent15_def)
  next
    case (Some d)
    let ?m' = "?m + chain_extent15 (length d) cfg Padded"
    have "element_extent15 cfg x + a = ?m'" by (simp add: element_extent15_def Some)
    then have m': "?m' + sum_list (map (element_extent15 cfg) xs) \<le> SENT15"
      using Cons.prems by simp
    then have "?m' \<le> SENT15" by simp
    then obtain ch where "plan_chain15 ?m (length d) cfg Padded ''element data'' = Ok (ch, ?m')"
      using plan_chain15_Ok [OF assms(2)] by blast
    with Cons.IH [OF m'] h Some show ?thesis by auto
  qed
qed

section \<open>Tail padding\<close>

lemma map_last_snoc: "map_last f (xs @ [x]) = try_res (f x) (\<lambda>y. Ok (xs @ [y]))"
proof (induction xs)
  case Nil
  then show ?case by simp
next
  case (Cons z xs)
  then show ?case
    by (cases "xs @ [x]") (auto simp: try_res_def split: sum.splits)
qed

lemma pad_page15_Ok:
  assumes "unat (plan_page_size p) + unat tp < SENT15"
  shows "pad_page15 tp p = Ok (p\<lparr>plan_page_size := plan_page_size p + tp\<rparr>)"
    and "unat (plan_page_size p + tp) = unat (plan_page_size p) + unat tp"
proof -
  show *: "unat (plan_page_size p + tp) = unat (plan_page_size p) + unat tp"
    using assms by (subst unat_word_ariths) simp
  show "pad_page15 tp p = Ok (p\<lparr>plan_page_size := plan_page_size p + tp\<rparr>)"
    using assms by (simp add: pad_page15_def Let_def)
qed

lemma pad_run:
  assumes "planned_run a n ps e" and "e + unat tp \<le> SENT15"
  shows "\<exists>ps'. map_last (pad_page15 tp) ps = Ok ps' \<and> planned_run a n ps' (e + unat tp) \<and>
    length ps' = length ps"
  using assms
proof (induction a n ps e rule: planned_run.induct)
  case (2 a n p e)
  then have "unat (plan_page_size p) + unat tp < SENT15" by simp
  from pad_page15_Ok [OF this] "2" show ?case by auto
next
  case (3 a n p q ps e)
  have run: "planned_run (a + 31 + unat (plan_page_size p)) (n - plan_data_length p) (q # ps) e"
    using "3.prems" unfolding planned_run.simps by blast
  from "3.IH" [OF this "3.prems"(2)] obtain ps' where ps': "map_last (pad_page15 tp) (q # ps) = Ok ps'"
      "planned_run (a + 31 + unat (plan_page_size p)) (n - plan_data_length p) ps' (e + unat tp)"
      "length ps' = length (q # ps)"
    by blast
  obtain q' qs' where q': "ps' = q' # qs'" using ps'(3) by (cases ps') auto
  have "planned_run a n (p # ps') (e + unat tp)"
    using "3.prems" ps'(2) unfolding q' planned_run.simps by blast
  then show ?case using ps'(1,3) by auto
qed simp

lemma pad_chain15_planned:
  assumes "chain_planned a n c e" and "e + unat tp \<le> SENT15"
  shows "\<exists>c'. pad_chain15 tp c = Ok c' \<and> chain_planned a n c' (e + unat tp) \<and>
    length (plan_pages c') = length (plan_pages c)"
  using pad_run [of a n "plan_pages c" e tp] assms by (auto simp: pad_chain15_def chain_planned_def)

lemma pad_element15_planned:
  assumes "chain_planned a (length (header15 x)) (plan_header p) m"
    and "data_planned m (data15 x) (plan_data p) e" and "e + unat tp \<le> SENT15"
  shows "\<exists>p'. pad_element15 tp p = Ok p' \<and> (\<exists>m. chain_planned a (length (header15 x)) (plan_header p') m \<and>
    data_planned m (data15 x) (plan_data p') (e + unat tp))"
proof (cases "data15 x")
  case None
  then show ?thesis
    using pad_chain15_planned [OF assms(1), of tp] assms(2,3) by (auto simp: pad_element15_def)
next
  case (Some d)
  then show ?thesis
    using pad_chain15_planned [of m "length d" _ e tp] assms
    by (fastforce simp: pad_element15_def)
qed

lemma elements_planned_snoc:
  "elements_planned a (xs @ [x]) ps e \<longleftrightarrow>
     (\<exists>qs q m m'. ps = qs @ [q] \<and> elements_planned a xs qs m \<and>
        chain_planned m (length (header15 x)) (plan_header q) m' \<and>
        data_planned m' (data15 x) (plan_data q) e)"
proof (induction xs arbitrary: a ps)
  case Nil
  show ?case
  proof (cases ps)
    case (Cons p ps')
    then show ?thesis by (cases ps') (auto simp: Cons_eq_append_conv)
  qed simp
next
  case (Cons y ys)
  show ?case
  proof (cases ps)
    case (Cons p ps')
    then show ?thesis
      by (auto simp: Cons.IH Cons_eq_append_conv) blast+
  qed simp
qed

lemma elements_planned_length: "elements_planned a xs ps e \<Longrightarrow> length ps = length xs"
  by (induction a xs ps e rule: elements_planned.induct) auto

lemma elements_planned_bounds: "elements_planned a xs ps e \<Longrightarrow> a \<le> e"
proof (induction a xs ps e rule: elements_planned.induct)
  case (2 a x xs p ps e)
  then show ?case
    by (cases "data15 x") (fastforce dest!: chain_planned_bounds)+
qed auto

lemma pad_elements_planned:
  assumes "elements_planned a xs ps e" and "ps \<noteq> []" and "e + unat tp \<le> SENT15"
  shows "\<exists>ps'. map_last (pad_element15 tp) ps = Ok ps' \<and> elements_planned a xs ps' (e + unat tp)"
proof -
  have "xs \<noteq> []" using assms(1,2) elements_planned_length by fastforce
  then obtain ys y where xs: "xs = ys @ [y]" by (cases xs rule: rev_cases) auto
  from assms(1) [unfolded xs, THEN iffD1 [OF elements_planned_snoc]]
  obtain qs q m m' where ps: "ps = qs @ [q]" and qs: "elements_planned a ys qs m"
    and q: "chain_planned m (length (header15 y)) (plan_header q) m'"
      "data_planned m' (data15 y) (plan_data q) e" by blast
  from pad_element15_planned [OF q assms(3)] qs show ?thesis
    unfolding xs elements_planned_snoc ps map_last_snoc by fastforce
qed

section \<open>The whole plan\<close>

definition valid_document15 :: "format15_document \<Rightarrow> bool" where
  "valid_document15 d \<longleftrightarrow> 0 < doc15_page_size d \<and> doc15_page_size d < FORMAT15_SENTINEL \<and>
     (\<forall>x \<in> set (doc15_elements d). header_name (header15 x) \<noteq> None)"

definition format15_extent :: "format15_document \<Rightarrow> nat" where
  "format15_extent d =
     16 + chain_extent15 (length (doc15_elements d) * 12) (doc15_page_size d) Compact
        + sum_list (map (element_extent15 (doc15_page_size d)) (doc15_elements d))
        + unat (doc15_tail_padding d)"

definition planned15 :: "format15_document \<Rightarrow> format15_plan \<Rightarrow> bool" where
  "planned15 d p \<longleftrightarrow>
     (\<exists>m. chain_planned 16 (length (doc15_elements d) * 12) (plan_toc p) m \<and>
        elements_planned m (doc15_elements d) (plan_elements p) (plan_bytes_written p)) \<and>
     plan_bytes_written p = format15_extent d \<and> plan_bytes_written p \<le> SENT15"

lemma validate_element_header15_Ok [result_simps]:
  "validate_element_header15 h i = Ok u \<longleftrightarrow> header_name h \<noteq> None"
proof (cases "length h < 20")
  case False
  then have "(length h - 20) mod 2 = length h mod 2" by presburger
  with False show ?thesis
    by (auto simp: validate_element_header15_def header_name_def name_units_def Let_def result_simps
        odd_iff_mod_2_eq_one)
qed (simp add: validate_element_header15_def header_name_def)

lemma validate_headers15_Ok [result_simps]:
  "validate_headers15 i xs = Ok u \<longleftrightarrow> (\<forall>x \<in> set xs. header_name (header15 x) \<noteq> None)"
  by (induction xs arbitrary: i) (auto simp: result_simps)

lemma validate_document15_Ok [result_simps]:
  "validate_document15 d = Ok u \<longleftrightarrow> valid_document15 d"
  by (auto simp: validate_document15_def valid_document15_def result_simps word_gt_0 not_le)

lemma apply_tail_padding_Ok:
  assumes "chain_planned 16 n (plan_toc p) m" "elements_planned m xs (plan_elements p) (plan_bytes_written p)"
    and "plan_bytes_written p \<le> SENT15"
  shows "(\<exists>p'. apply_format15_tail_padding p tp = Ok p') \<longleftrightarrow> plan_bytes_written p + unat tp \<le> SENT15"
    and "apply_format15_tail_padding p tp = Ok p' \<Longrightarrow>
      (\<exists>m. chain_planned 16 n (plan_toc p') m \<and>
         elements_planned m xs (plan_elements p') (plan_bytes_written p')) \<and>
      plan_bytes_written p' = plan_bytes_written p + unat tp \<and>
      plan_pages_written p' = plan_pages_written p"
proof -
  let ?b = "plan_bytes_written p + unat tp"
  have pad: "\<exists>p'. pad_final_page15 tp p = Ok p' \<and> plan_bytes_written p' = plan_bytes_written p \<and>
      plan_pages_written p' = plan_pages_written p \<and>
      (\<exists>m. chain_planned 16 n (plan_toc p') m \<and> elements_planned m xs (plan_elements p') ?b)"
    if b: "?b \<le> SENT15"
  proof (cases "plan_elements p = []")
    case True
    then have "xs = []" "plan_bytes_written p = m"
      using assms(2) by (cases xs; simp)+
    with True pad_chain15_planned [OF assms(1)] b show ?thesis
      by (fastforce simp: pad_final_page15_def)
  next
    case False
    with pad_elements_planned [OF assms(2) False b] assms(1) show ?thesis
      by (fastforce simp: pad_final_page15_def)
  qed
  have size: "plan_bytes_written p' = plan_bytes_written p" if "pad_final_page15 tp p = Ok p'" for p'
    using that by (auto simp: pad_final_page15_def result_simps split: if_splits)
  have tp: "?b \<le> u64_max" using assms(3) unat_u32_le [of tp] by simp
  show iff: "(\<exists>p'. apply_format15_tail_padding p tp = Ok p') \<longleftrightarrow> ?b \<le> SENT15"
  proof (cases "tp = 0")
    case True
    then show ?thesis using assms(3) by (simp add: apply_format15_tail_padding_def)
  next
    case False
    have "\<exists>p'. apply_format15_tail_padding p tp = Ok p'" if b: "?b \<le> SENT15"
    proof -
      obtain p' where "pad_final_page15 tp p = Ok p'" "plan_bytes_written p' = plan_bytes_written p"
        using pad [OF b] by blast
      then show ?thesis
        using False b tp by (simp add: apply_format15_tail_padding_def checked_add64_def)
    qed
    then show ?thesis
      using False by (auto simp: apply_format15_tail_padding_def result_simps dest!: size)
  qed
  assume "apply_format15_tail_padding p tp = Ok p'"
  moreover from this have "?b \<le> SENT15" using iff by blast
  ultimately show "(\<exists>m. chain_planned 16 n (plan_toc p') m \<and>
         elements_planned m xs (plan_elements p') (plan_bytes_written p')) \<and>
      plan_bytes_written p' = plan_bytes_written p + unat tp \<and>
      plan_pages_written p' = plan_pages_written p"
    using assms(1,2) pad
    by (cases "tp = 0") (fastforce simp: apply_format15_tail_padding_def result_simps)+
qed

lemma plan_format15_iff:
  "(\<exists>p. plan_format15 d = Ok p) \<longleftrightarrow> valid_document15 d \<and> format15_extent d \<le> SENT15"
  and plan_format15_planned: "plan_format15 d = Ok p \<Longrightarrow> planned15 d p \<and> valid_document15 d"
proof -
  let ?cfg = "doc15_page_size d" and ?xs = "doc15_elements d"
  let ?c1 = "16 + chain_extent15 (length ?xs * 12) ?cfg Compact"
  let ?c2 = "?c1 + sum_list (map (element_extent15 ?cfg) ?xs)"
  have pos: "0 < unat ?cfg" if "valid_document15 d"
    using that by (simp add: valid_document15_def word_gt_0 unat_gt_0)
  have fwd: "planned15 d p \<and> valid_document15 d" if p: "plan_format15 d = Ok p" for p
  proof -
    from p obtain toc c1 es c2 n where v: "valid_document15 d"
      and toc: "plan_chain15 16 (length ?xs * 12) ?cfg Compact ''TOC'' = Ok (toc, c1)"
      and es: "plan_elements15 c1 ?cfg ?xs = Ok (es, c2)"
      and ap: "apply_format15_tail_padding \<lparr>plan_toc = toc, plan_elements = es,
          plan_bytes_written = c2, plan_pages_written = n\<rparr> (doc15_tail_padding d) = Ok p"
      by (auto simp: plan_format15_def result_simps Let_def)
    note q = pos [OF v]
    have t: "chain_planned 16 (length ?xs * 12) toc c1" "c1 = ?c1"
      using plan_chain15_planned [OF toc q] plan_chain15_run(3) [OF toc q] by auto
    have e: "elements_planned c1 ?xs es c2" "c2 = ?c2"
      using plan_elements15_planned [OF es q] t(2) by auto
    have "c2 \<le> SENT15"
    proof (cases "?xs = []")
      case True
      then show ?thesis using es chain_planned_bounds [OF t(1)] by simp
    next
      case False
      then obtain ys y where "?xs = ys @ [y]" by (cases ?xs rule: rev_cases) auto
      then show ?thesis
        using e(1) chain_planned_bounds
        by (cases "data15 y") (fastforce simp: elements_planned_snoc)+
    qed
    then show ?thesis
      using apply_tail_padding_Ok [where p = "\<lparr>plan_toc = toc, plan_elements = es,
          plan_bytes_written = c2, plan_pages_written = n\<rparr>" and n = "length ?xs * 12"
          and m = c1 and xs = ?xs and tp = "doc15_tail_padding d"] t e ap v
      by (auto simp: planned15_def format15_extent_def)
  qed
  then show "plan_format15 d = Ok p \<Longrightarrow> planned15 d p \<and> valid_document15 d" .
  show "(\<exists>p. plan_format15 d = Ok p) \<longleftrightarrow> valid_document15 d \<and> format15_extent d \<le> SENT15"
  proof
    assume "\<exists>p. plan_format15 d = Ok p"
    then show "valid_document15 d \<and> format15_extent d \<le> SENT15"
      using fwd by (auto simp: planned15_def)
  next
    assume *: "valid_document15 d \<and> format15_extent d \<le> SENT15"
    then have q: "0 < unat ?cfg" and c: "?c2 + unat (doc15_tail_padding d) \<le> SENT15"
      using pos by (simp_all add: format15_extent_def)
    have "?c1 \<le> SENT15" using c by simp
    then obtain toc where toc: "plan_chain15 16 (length ?xs * 12) ?cfg Compact ''TOC'' = Ok (toc, ?c1)"
      using plan_chain15_Ok [OF q] by blast
    have "?c2 \<le> SENT15" using c by simp
    then obtain es c2 where es: "plan_elements15 ?c1 ?cfg ?xs = Ok (es, c2)"
      using plan_elements15_total [OF _ q] by blast
    have e: "elements_planned ?c1 ?xs es c2" "c2 = ?c2"
      using plan_elements15_planned [OF es q] by auto
    have t: "chain_planned 16 (length ?xs * 12) toc ?c1"
      using plan_chain15_planned [OF toc q] .
    have "length ?xs * 12 \<le> u64_max" using chain_planned_bounds [OF t] \<open>?c1 \<le> SENT15\<close> by simp
    moreover have "\<exists>p. apply_format15_tail_padding \<lparr>plan_toc = toc, plan_elements = es,
          plan_bytes_written = c2, plan_pages_written = n\<rparr> (doc15_tail_padding d) = Ok p" for n
      using apply_tail_padding_Ok(1) [where p = "\<lparr>plan_toc = toc, plan_elements = es,
          plan_bytes_written = c2, plan_pages_written = n\<rparr>" and n = "length ?xs * 12"
          and m = ?c1 and xs = ?xs and tp = "doc15_tail_padding d"] t e c by simp
    moreover have "validate_document15 d = Ok ()" using * by (simp add: result_simps)
    ultimately show "\<exists>p. plan_format15 d = Ok p"
      using toc es by (simp add: plan_format15_def checked_mul64_def Let_def)
  qed
qed

end
