(* ===== verification/V8_Emit15.thy ===== *)
theory V8_Emit15
  imports V8_Plan15
begin

text \<open>
  What the Format15 writer emits: for every sink that honours \<open>write_sink\<close>, the bytes of a
  planned document are its file image, and a sink that never fails makes the writer succeed.
\<close>

section \<open>The image of a planned chain\<close>

fun page_segments :: "planned_page list \<Rightarrow> bytes \<Rightarrow> segment list" where
  "page_segments [] d = []"
| "page_segments (p # ps) d =
     (unat (plan_page_size p), take (plan_data_length p) d)
       # page_segments ps (drop (plan_data_length p) d)"

lemma page_segments_Nil_iff [simp]: "page_segments ps d = [] \<longleftrightarrow> ps = []"
  by (cases ps) auto

lemma planned_run_segments:
  assumes "planned_run a (length d) ps e"
  shows "good_segments (page_segments ps d) \<and> segments_payload (page_segments ps d) = d \<and>
    e = a + segments_extent 8 (page_segments ps d)"
  using assms
proof (induction a "length d" ps e arbitrary: d rule: planned_run.induct)
  case (3 a p q ps e)
  define m where "m = plan_data_length p"
  have run: "planned_run (a + 31 + unat (plan_page_size p)) (length (drop m d)) (q # ps) e"
    and p: "m = unat (plan_page_size p)" "0 < m" "m < length d"
    using "3.prems" unfolding planned_run.simps m_def length_drop by blast+
  have len: "length d - plan_data_length p = length (drop m d)" by (simp add: m_def)
  from "3.hyps" [OF len run] p show ?case
    by (simp only: page_segments.simps good_segments.simps segments_payload_simps
        segments_extent_simps m_def [symmetric]) auto
qed simp_all

definition chain_bytes15 :: "planned_chain \<Rightarrow> bytes \<Rightarrow> bytes" where
  "chain_bytes15 c d =
     chain_image 8 SENT15 (plan_address (hd (plan_pages c))) (length d) (page_segments (plan_pages c) d)"

lemma length_chain_bytes15:
  assumes "chain_planned a (length d) c e"
  shows "a + length (chain_bytes15 c d) = e"
proof -
  have "planned_run a (length d) (plan_pages c) e" using assms by (simp add: chain_planned_def)
  note s = planned_run_segments [OF this]
  have "e \<le> SENT15" "length d \<le> SENT15" "plan_address (hd (plan_pages c)) = a"
    using chain_planned_bounds [OF assms] by simp_all
  then have "length (chain_bytes15 c d) = segments_extent 8 (page_segments (plan_pages c) d)"
    unfolding chain_bytes15_def using s
    by (intro length_chain_image) simp_all
  then show ?thesis using s by simp
qed

text \<open>Reading back a planned chain that stands in the input.\<close>

lemma read_planned_chain:
  assumes "chain_planned a (length d) c e"
    and "input r = pre @ chain_bytes15 c d @ post" "length pre = a"
    and "length (input r) \<le> u64_max"
    and "\<forall>x \<in> set (claimed r). range_start x < range_end x \<and> range_end x \<le> a"
  shows "\<exists>r' ch. read_chain r (word_of_nat a) = Ok (r', ch) \<and> data ch = d \<and>
    input r' = input r \<and> pages ch \<noteq> [] \<and>
    (\<forall>x \<in> set (claimed r'). range_start x < range_end x \<and> range_end x \<le> e)"
proof -
  let ?segs = "page_segments (plan_pages c) d"
  have "planned_run a (length d) (plan_pages c) e" using assms(1) by (simp add: chain_planned_def)
  note s = planned_run_segments [OF this]
  have b: "e \<le> SENT15" "a + 31 + length d \<le> e" "plan_address (hd (plan_pages c)) = a"
    using chain_planned_bounds [OF assms(1)] by simp_all
  have "format15.fits a ?segs" using s b(1) by (simp add: format15.fits_def)
  from format15.read_image [OF conjunct1 [OF s] this, of r pre post] s b assms(2-5)
  show ?thesis by (simp add: read_chain_def chain_bytes15_def)
qed

section \<open>Emission\<close>

context write_sink
begin

lemma write_all_appends: "write_all wr s bs op = Ok s' \<Longrightarrow> contents s' = contents s @ bs"
  by (auto simp: write_all_def result_simps wr_appends)

lemma write_zeros_appends: "write_zeros wr s n = Ok s' \<Longrightarrow> contents s' = contents s @ replicate n 0"
proof (induction n arbitrary: s rule: less_induct)
  case (less n)
  show ?case
  proof (cases "n = 0")
    case True
    then show ?thesis using less.prems by (subst (asm) write_zeros.simps) simp
  next
    case False
    let ?k = "min n ZERO_BUFFER_LEN"
    obtain s1 where s1: "write_all wr s (replicate ?k 0) ''page padding'' = Ok s1"
      and s': "write_zeros wr s1 (n - ?k) = Ok s'"
      using False less.prems by (subst (asm) write_zeros.simps) (auto simp: Let_def result_simps)
    have "contents s' = contents s1 @ replicate (n - ?k) 0"
      using less.IH [OF _ s'] False by simp
    then show ?thesis
      using write_all_appends [OF s1] by (simp flip: replicate_add)
  qed
qed

lemma write_pages_appends:
  assumes "planned_run a (length bs - offset) ps e" and "offset \<le> length bs"
    and "write_chain_pages15 wr s sz bs index offset ps = Ok (s', offset')"
  shows "contents s' = contents s @ chain_image 8 SENT15 a (if index = 0 then unat sz else 0)
      (page_segments ps (drop offset bs)) \<and> offset' = length bs"
  using assms
proof (induction ps arbitrary: a offset s index)
  case Nil
  then show ?case by simp
next
  case (Cons p ps)
  let ?fs = "if index = 0 then unat sz else 0"
  let ?next = "offset + plan_data_length p"
  from Cons.prems(3) obtain s1 s2 s3 where
    s1: "write_all wr s (header_text 8 ?fs (unat (plan_page_size p)) (unat (plan_next p)))
      ''block header'' = Ok s1"
    and s2: "write_all wr s1 (slice offset ?next bs) ''block payload'' = Ok s2"
    and s3: "write_zeros wr s2 (unat (plan_page_size p) - plan_data_length p) = Ok s3"
    and rest: "write_chain_pages15 wr s3 sz bs (Suc index) ?next ps = Ok (s', offset')"
    by (auto simp: Let_def result_simps)
  have out: "contents s3 = contents s @ header_text 8 ?fs (unat (plan_page_size p)) (unat (plan_next p))
      @ slice offset ?next bs @ replicate (unat (plan_page_size p) - plan_data_length p) 0"
    using write_all_appends [OF s1] write_all_appends [OF s2] write_zeros_appends [OF s3] by simp
  have dl: "plan_data_length p \<le> length bs - offset"
    using Cons.prems(1) by (cases ps) auto
  have sl: "slice offset ?next bs = take (plan_data_length p) (drop offset bs)"
    by (simp add: slice_def)
  show ?case
  proof (cases ps)
    case Nil
    then show ?thesis
      using Cons.prems(1,2) rest out sl by (simp add: segments_payload_def)
  next
    case (Cons q qs)
    have run: "planned_run (a + 31 + unat (plan_page_size p)) (length bs - offset - plan_data_length p) ps e"
      "a + 31 + unat (plan_page_size p) < SENT15"
      "plan_next p = word_of_nat (a + 31 + unat (plan_page_size p))"
      using Cons.prems(1) unfolding Cons planned_run.simps by blast+
    have nx: "unat (plan_next p) = a + 31 + unat (plan_page_size p)"
      unfolding run(3) using run(2) by (intro unat_of_nat_u32) simp
    have "length bs - offset - plan_data_length p = length bs - ?next" by simp
    with Cons.IH [OF run(1) [unfolded this] _ rest] dl Cons.prems(2) show ?thesis
      using out sl nx Cons by (simp add: add.commute min_absorb2)
  qed
qed

lemma write_chain15_appends:
  assumes "chain_planned a (length d) c e" and "write_chain15 wr s c d = Ok s'"
  shows "contents s' = contents s @ chain_bytes15 c d"
proof -
  obtain off where "write_chain_pages15 wr s (plan_data_size c) d 0 0 (plan_pages c) = Ok (s', off)"
    using assms(2) by (auto simp: write_chain15_def result_simps)
  from write_pages_appends [of a d 0 "plan_pages c" e, OF _ _ this] assms(1) show ?thesis
    using chain_planned_bounds [OF assms(1)] by (simp add: chain_planned_def chain_bytes15_def)
qed

end

context total_sink
begin

lemma write_all_total: "\<exists>s'. write_all wr s bs op = Ok s'"
  using wr_total [of s bs] by (auto simp: write_all_def)

lemma write_zeros_total: "\<exists>s'. write_zeros wr s n = Ok s'"
proof (induction n arbitrary: s rule: less_induct)
  case (less n)
  show ?case
  proof (cases "n = 0")
    case True
    then show ?thesis by (subst write_zeros.simps) simp
  next
    case False
    let ?k = "min n ZERO_BUFFER_LEN"
    obtain s1 where "write_all wr s (replicate ?k 0) ''page padding'' = Ok s1"
      using write_all_total by blast
    moreover obtain s' where "write_zeros wr s1 (n - ?k) = Ok s'"
      using less.IH [of "n - ?k" s1] False by auto
    ultimately show ?thesis using False by (subst write_zeros.simps) (simp add: Let_def)
  qed
qed

lemma write_pages_total:
  assumes "planned_run a n ps e" and "offset + n \<le> SENT15" and "unat sz \<le> SENT15"
  shows "\<exists>s'. write_chain_pages15 wr s sz bs index offset ps = Ok (s', offset + n)"
  using assms(1,2)
proof (induction a n ps e arbitrary: offset s index rule: planned_run.induct)
  case (1 a n e)
  then show ?case by simp
next
  case (2 a n p e)
  let ?h = "header_text 8 (if index = 0 then unat sz else 0) (unat (plan_page_size p))
      (unat (plan_next p))"
  have p: "plan_data_length p = n" "unat (plan_page_size p) \<le> SENT15"
    "unat (plan_next p) = SENT15" using "2.prems" by simp_all
  have h: "length ?h = 31"
    using p(2,3) assms(3) by (subst length_header_text) auto
  obtain s1 where s1: "write_all wr s ?h ''block header'' = Ok s1" using write_all_total by blast
  obtain s2 where s2: "write_all wr s1 (slice offset (offset + n) bs) ''block payload'' = Ok s2"
    using write_all_total by blast
  obtain s3 where s3: "write_zeros wr s2 (unat (plan_page_size p) - n) = Ok s3"
    using write_zeros_total by blast
  show ?case using h s1 s2 s3 "2.prems"(2) by (simp add: Let_def p(1) checked_add64_def)
next
  case (3 a n p q ps e)
  let ?h = "header_text 8 (if index = 0 then unat sz else 0) (unat (plan_page_size p))
      (unat (plan_next p))"
  let ?m = "plan_data_length p"
  have run: "planned_run (a + 31 + unat (plan_page_size p)) (n - ?m) (q # ps) e"
    and lt: "a + 31 + unat (plan_page_size p) < SENT15" "?m < n"
      "plan_next p = word_of_nat (a + 31 + unat (plan_page_size p))"
    using "3.prems" unfolding planned_run.simps by blast+
  have nx: "unat (plan_next p) = a + 31 + unat (plan_page_size p)"
    unfolding lt(3) using lt(1) by (intro unat_of_nat_u32) simp
  have h: "length ?h = 31"
    using lt(1) nx assms(3) by (subst length_header_text) auto
  obtain s1 where s1: "write_all wr s ?h ''block header'' = Ok s1" using write_all_total by blast
  obtain s2 where s2: "write_all wr s1 (slice offset (offset + ?m) bs) ''block payload'' = Ok s2"
    using write_all_total by blast
  obtain s3 where s3: "write_zeros wr s2 (unat (plan_page_size p) - ?m) = Ok s3"
    using write_zeros_total by blast
  have "offset + ?m + (n - ?m) = offset + n" using lt(2) by simp
  with "3.IH" [OF run, of "offset + ?m" s3 "Suc index"] "3.prems"(2)
  obtain s4 where s4: "write_chain_pages15 wr s3 sz bs (Suc index) (offset + ?m) (q # ps) =
      Ok (s4, offset + n)" by auto
  show ?case
    using h s1 s2 s3 s4 "3.prems"(2) lt(2)
    by (subst write_chain_pages15.simps(2)) (simp only: Let_def, simp add: checked_add64_def)
qed

lemma write_chain15_total:
  assumes "chain_planned a (length d) c e"
  shows "\<exists>s'. write_chain15 wr s c d = Ok s'"
proof -
  have "length d \<le> SENT15" "unat (plan_data_size c) = length d"
    "planned_run a (length d) (plan_pages c) e"
    using assms chain_planned_bounds [OF assms] by (simp_all add: chain_planned_def)
  then show ?thesis
    using write_pages_total [of a "length d" "plan_pages c" e 0 "plan_data_size c" s d 0]
    by (auto simp: write_chain15_def)
qed

end

section \<open>The image of a document\<close>

definition toc_entry15 :: "planned_element \<Rightarrow> bytes" where
  "toc_entry15 p =
     to_le_bytes 4 (word_of_nat (plan_address (hd (plan_pages (plan_header p)))) :: u32)
       @ to_le_bytes 4 (case plan_data p of None \<Rightarrow> FORMAT15_SENTINEL
           | Some ch \<Rightarrow> word_of_nat (plan_address (hd (plan_pages ch))))
       @ to_le_bytes 4 FORMAT15_SENTINEL"

fun elements_image15 :: "format15_element list \<Rightarrow> planned_element list \<Rightarrow> bytes" where
  "elements_image15 (x # xs) (p # ps) =
     chain_bytes15 (plan_header p) (header15 x)
       @ (case (plan_data p, data15 x) of (Some ch, Some d) \<Rightarrow> chain_bytes15 ch d | _ \<Rightarrow> [])
       @ elements_image15 xs ps"
| "elements_image15 xs ps = []"

definition file_header_bytes15 :: "format15_document \<Rightarrow> bytes" where
  "file_header_bytes15 d =
     to_le_bytes 4 FORMAT15_SENTINEL @ to_le_bytes 4 (doc15_page_size d)
       @ to_le_bytes 4 (doc15_storage_version d) @ to_le_bytes 4 (doc15_reserved d)"

definition file_image15 :: "format15_document \<Rightarrow> format15_plan \<Rightarrow> bytes" where
  "file_image15 d p =
     file_header_bytes15 d @ chain_bytes15 (plan_toc p) (concat (map toc_entry15 (plan_elements p)))
       @ elements_image15 (doc15_elements d) (plan_elements p)"

lemma length_toc_entry15 [simp]: "length (toc_entry15 p) = 12"
  by (simp add: toc_entry15_def)

lemma length_toc_table15: "length (concat (map toc_entry15 ps)) = length ps * 12"
  by (induction ps) simp_all

lemma length_elements_image15:
  "elements_planned a xs ps e \<Longrightarrow> a + length (elements_image15 xs ps) = e"
proof (induction a xs ps e rule: elements_planned.induct)
  case (2 a x xs p ps e)
  from "2.prems" obtain m m' where
    m: "chain_planned a (length (header15 x)) (plan_header p) m"
    and m': "data_planned m (data15 x) (plan_data p) m'"
    and rest: "elements_planned m' xs ps e"
    by auto
  have "m + length (case (plan_data p, data15 x) of (Some ch, Some d) \<Rightarrow> chain_bytes15 ch d | _ \<Rightarrow> []) = m'"
    using m' by (cases "data15 x") (auto simp: length_chain_bytes15)
  with "2.IH" [OF rest] length_chain_bytes15 [OF m] show ?case by simp
qed simp_all

lemma length_file_image15: "planned15 d p \<Longrightarrow> length (file_image15 d p) = plan_bytes_written p"
proof -
  assume "planned15 d p"
  then obtain m where m: "chain_planned 16 (length (doc15_elements d) * 12) (plan_toc p) m"
    and es: "elements_planned m (doc15_elements d) (plan_elements p) (plan_bytes_written p)"
    by (auto simp: planned15_def)
  have "16 + length (chain_bytes15 (plan_toc p) (concat (map toc_entry15 (plan_elements p)))) = m"
    using m elements_planned_length [OF es]
    by (intro length_chain_bytes15) (simp only: length_toc_table15)
  with length_elements_image15 [OF es] show ?thesis
    by (simp add: file_image15_def file_header_bytes15_def)
qed

lemma checked_address_planned:
  "chain_planned a n c e \<Longrightarrow>
     checked_address (plan_address (hd (plan_pages c))) = Ok (word_of_nat a)"
  by (drule chain_planned_bounds) (simp add: checked_address_def)

lemma toc_bytes15_planned:
  "elements_planned a xs ps e \<Longrightarrow> toc_bytes15 ps = Ok (concat (map toc_entry15 ps))"
proof (induction a xs ps e rule: elements_planned.induct)
  case (2 a x xs p ps e)
  from "2.prems" obtain m m' where
    m: "chain_planned a (length (header15 x)) (plan_header p) m"
    and m': "data_planned m (data15 x) (plan_data p) m'"
    and rest: "elements_planned m' xs ps e"
    by auto
  show ?case
    using "2.IH" [OF rest] m' checked_address_planned [OF m] chain_planned_bounds [OF m]
    by (cases "data15 x") (auto simp: toc_entry15_def checked_address_planned dest: chain_planned_bounds)
qed simp_all


context write_sink
begin

lemma write_elements15_appends:
  assumes "elements_planned a xs ps e" and "write_elements15 wr s xs ps = Ok s'"
  shows "contents s' = contents s @ elements_image15 xs ps"
  using assms
proof (induction a xs ps e arbitrary: s rule: elements_planned.induct)
  case (2 a x xs p ps e)
  from "2.prems"(1) obtain m m' where
    m: "chain_planned a (length (header15 x)) (plan_header p) m"
    and m': "data_planned m (data15 x) (plan_data p) m'"
    and rest: "elements_planned m' xs ps e"
    by auto
  from "2.prems"(2) obtain s1 s2 where
    s1: "write_chain15 wr s (plan_header p) (header15 x) = Ok s1"
    and s2: "(case (plan_data p, data15 x) of (Some ch, Some d) \<Rightarrow> write_chain15 wr s1 ch d
              | _ \<Rightarrow> Ok s1) = Ok s2"
    and s3: "write_elements15 wr s2 xs ps = Ok s'"
    by (auto simp: result_simps)
  have "contents s2 = contents s1 @
      (case (plan_data p, data15 x) of (Some ch, Some d) \<Rightarrow> chain_bytes15 ch d | _ \<Rightarrow> [])"
    using m' s2 write_chain15_appends by (cases "data15 x") auto
  with "2.IH" [OF rest s3] write_chain15_appends [OF m s1] show ?case by simp
qed simp_all

lemma write_format15_appends:
  assumes "write_format15 wr s d = Ok (s', report)"
  shows "\<exists>p. plan_format15 d = Ok p \<and> contents s' = contents s @ file_image15 d p \<and>
    report = \<lparr>bytes_written = plan_bytes_written p, entries_written = length (doc15_elements d),
      pages_written = plan_pages_written p\<rparr>"
proof -
  from assms obtain p s1 s2 s3 s4 toc s5 s6 where
    p: "plan_format15 d = Ok p"
    and h: "write_all wr s (to_le_bytes 4 FORMAT15_SENTINEL) ''file marker'' = Ok s1"
      "write_all wr s1 (to_le_bytes 4 (doc15_page_size d)) ''file page size'' = Ok s2"
      "write_all wr s2 (to_le_bytes 4 (doc15_storage_version d)) ''storage version'' = Ok s3"
      "write_all wr s3 (to_le_bytes 4 (doc15_reserved d)) ''file reserved word'' = Ok s4"
    and toc: "toc_bytes15 (plan_elements p) = Ok toc"
    and s5: "write_chain15 wr s4 (plan_toc p) toc = Ok s5"
    and s6: "write_elements15 wr s5 (doc15_elements d) (plan_elements p) = Ok s'"
    and report: "report = \<lparr>bytes_written = plan_bytes_written p,
      entries_written = length (doc15_elements d), pages_written = plan_pages_written p\<rparr>"
    by (auto simp: write_format15_def result_simps)
  obtain m where m: "chain_planned 16 (length (doc15_elements d) * 12) (plan_toc p) m"
    and es: "elements_planned m (doc15_elements d) (plan_elements p) (plan_bytes_written p)"
    using plan_format15_planned [OF p] by (auto simp: planned15_def)
  have toc: "toc = concat (map toc_entry15 (plan_elements p))"
    using toc toc_bytes15_planned [OF es] by simp
  have "chain_planned 16 (length toc) (plan_toc p) m"
    using m elements_planned_length [OF es] by (simp add: toc length_toc_table15)
  from write_chain15_appends [OF this s5] write_elements15_appends [OF es s6] p report toc
    h [THEN write_all_appends]
  show ?thesis by (simp add: file_image15_def file_header_bytes15_def)
qed

end

context total_sink
begin

lemma write_elements15_total:
  assumes "elements_planned a xs ps e"
  shows "\<exists>s'. write_elements15 wr s xs ps = Ok s'"
  using assms
proof (induction a xs ps e arbitrary: s rule: elements_planned.induct)
  case (2 a x xs p ps e)
  from "2.prems"(1) obtain m m' where
    m: "chain_planned a (length (header15 x)) (plan_header p) m"
    and m': "data_planned m (data15 x) (plan_data p) m'"
    and rest: "elements_planned m' xs ps e"
    by auto
  obtain s1 where s1: "write_chain15 wr s (plan_header p) (header15 x) = Ok s1"
    using write_chain15_total [OF m] by blast
  have "\<exists>s2. (case (plan_data p, data15 x) of (Some ch, Some d) \<Rightarrow> write_chain15 wr s1 ch d
              | _ \<Rightarrow> Ok s1) = Ok s2"
    using m' write_chain15_total by (cases "data15 x") auto
  then obtain s2 where s2: "(case (plan_data p, data15 x) of (Some ch, Some d) \<Rightarrow>
      write_chain15 wr s1 ch d | _ \<Rightarrow> Ok s1) = Ok s2" by blast
  from "2.IH" [OF rest, of s2] s1 s2 show ?case by auto
qed simp_all

lemma write_format15_total:
  assumes p: "plan_format15 d = Ok p"
  shows "\<exists>s' report. write_format15 wr s d = Ok (s', report)"
proof -
  obtain m where m: "chain_planned 16 (length (doc15_elements d) * 12) (plan_toc p) m"
    and es: "elements_planned m (doc15_elements d) (plan_elements p) (plan_bytes_written p)"
    and v: "valid_document15 d"
    using plan_format15_planned [OF p] by (auto simp: planned15_def)
  let ?toc = "concat (map toc_entry15 (plan_elements p))"
  have t: "chain_planned 16 (length ?toc) (plan_toc p) m"
    using m elements_planned_length [OF es] by (simp only: length_toc_table15)
  obtain s1 where s1: "write_all wr s (to_le_bytes 4 FORMAT15_SENTINEL) ''file marker'' = Ok s1"
    using write_all_total by blast
  obtain s2 where s2: "write_all wr s1 (to_le_bytes 4 (doc15_page_size d)) ''file page size'' = Ok s2"
    using write_all_total by blast
  obtain s3 where s3: "write_all wr s2 (to_le_bytes 4 (doc15_storage_version d)) ''storage version'' = Ok s3"
    using write_all_total by blast
  obtain s4 where s4: "write_all wr s3 (to_le_bytes 4 (doc15_reserved d)) ''file reserved word'' = Ok s4"
    using write_all_total by blast
  obtain s5 where s5: "write_chain15 wr s4 (plan_toc p) ?toc = Ok s5"
    using write_chain15_total [OF t] by blast
  obtain s6 where s6: "write_elements15 wr s5 (doc15_elements d) (plan_elements p) = Ok s6"
    using write_elements15_total [OF es] by blast
  have "validate_document15 d = Ok ()" using v by (simp add: result_simps)
  then show ?thesis
    using p s1 s2 s3 s4 s5 s6 toc_bytes15_planned [OF es] by (simp add: write_format15_def)
qed

end

end
