(* ===== verification/V8_Roundtrip15.thy ===== *)
theory V8_Roundtrip15
  imports V8_Emit15
begin

text \<open>
  Reading back what the Format15 writer emits.  The reader's claims grow with the image, every
  chain of the plan is read from its own extent, and the parsed container is the document.
\<close>

section \<open>Elements\<close>

lemma read_element_address15_entry:
  "read_element_address15 (to_le_bytes 4 h @ to_le_bytes 4 d @ to_le_bytes 4 FORMAT15_SENTINEL) i =
     Ok \<lparr>address_raw = to_le_bytes 4 h @ to_le_bytes 4 d @ to_le_bytes 4 FORMAT15_SENTINEL,
         header_address = h, data_address = (if d \<noteq> FORMAT15_SENTINEL then Some d else None),
         marker = FORMAT15_SENTINEL\<rparr>"
proof -
  let ?e = "to_le_bytes 4 h @ to_le_bytes 4 d @ to_le_bytes 4 FORMAT15_SENTINEL"
  have "slice 0 4 ?e = to_le_bytes 4 h" "slice 4 8 ?e = to_le_bytes 4 d"
    "slice 8 12 ?e = to_le_bytes 4 FORMAT15_SENTINEL"
    by (simp_all add: slice_def)
  then show ?thesis by (simp add: read_element_address15_def Let_def)
qed

lemma word_of_planned:
  assumes "chain_planned a n c e"
  shows "(word_of_nat a :: u32) \<noteq> FORMAT15_SENTINEL"
proof
  assume *: "(word_of_nat a :: u32) = FORMAT15_SENTINEL"
  have "a < SENT15" using chain_planned_bounds [OF assms] by simp
  then have "unat (word_of_nat a :: u32) = a" by (intro unat_of_nat_u32) simp
  with * \<open>a < SENT15\<close> show False by simp
qed

lemma parse_element15_image:
  assumes h: "chain_planned a (length (header15 x)) (plan_header p) m"
    and d: "data_planned m (data15 x) (plan_data p) e"
    and inp: "input r = pre @ chain_bytes15 (plan_header p) (header15 x)
      @ (case (plan_data p, data15 x) of (Some ch, Some bs) \<Rightarrow> chain_bytes15 ch bs | _ \<Rightarrow> []) @ post"
      "length pre = a" "length (input r) \<le> u64_max"
    and below: "claims_below a r" and name: "header_name (header15 x) = Some n"
  shows "\<exists>r' el. parse_element15 r i (toc_entry15 p) = Ok (r', el) \<and>
    raw_header el = header15 x \<and> element_data el = data15 x \<and> name el = n \<and>
    input r' = input r \<and> claims_below e r'"
proof -
  obtain r1 hc where rd: "read_chain r (word_of_nat a) = Ok (r1, hc)" "data hc = header15 x"
      "input r1 = input r" "claims_below m r1"
    using read_planned_chain [OF h inp(1-3)] below by (auto simp: claims_below_def)
  have na: "(word_of_nat a :: u32) \<noteq> FORMAT15_SENTINEL" using word_of_planned [OF h] .
  have nm: "element_name15 (data hc) i = Ok n" using name by (simp add: rd element_name15_Ok)
  have ha: "plan_address (hd (plan_pages (plan_header p))) = a"
    using chain_planned_bounds [OF h] by simp
  show ?thesis
  proof (cases "data15 x")
    case None
    then show ?thesis
      using d rd na nm
      by (simp add: parse_element15_def toc_entry15_def read_element_address15_entry ha)
  next
    case (Some bs)
    with d obtain ch where ch: "plan_data p = Some ch" "chain_planned m (length bs) ch e" by auto
    have nd: "(word_of_nat m :: u32) \<noteq> FORMAT15_SENTINEL" using word_of_planned [OF ch(2)] .
    have da: "plan_address (hd (plan_pages ch)) = m" using chain_planned_bounds [OF ch(2)] by simp
    have "input r1 = (pre @ chain_bytes15 (plan_header p) (header15 x)) @ chain_bytes15 ch bs @ post"
      using inp(1) by (simp add: rd Some ch)
    moreover have "length (pre @ chain_bytes15 (plan_header p) (header15 x)) = m"
      using length_chain_bytes15 [OF h] inp(2) by simp
    ultimately obtain r2 dc where "read_chain r1 (word_of_nat m) = Ok (r2, dc)" "data dc = bs"
        "input r2 = input r1" "claims_below e r2"
      using read_planned_chain [OF ch(2)] rd(3,4) inp(3) unfolding claims_below_def by metis
    then show ?thesis
      using rd na nm nd
      by (simp add: parse_element15_def toc_entry15_def read_element_address15_entry ha da Some ch)
  qed
qed

lemma parse_elements15_image:
  assumes "elements_planned a xs ps e"
    and "input r = pre @ elements_image15 xs ps" "length pre = a" "length (input r) \<le> u64_max"
    and "claims_below a r" and "\<forall>x \<in> set xs. header_name (header15 x) \<noteq> None"
  shows "\<exists>r' els. parse_elements15 r i (map toc_entry15 ps) = Ok (r', els) \<and>
    map (\<lambda>el. \<lparr>header15 = raw_header el, data15 = element_data el\<rparr>) els = xs \<and>
    map (\<lambda>el. Some (name el)) els = map (\<lambda>x. header_name (header15 x)) xs"
  using assms
proof (induction a xs ps e arbitrary: r pre i rule: elements_planned.induct)
  case (2 a x xs p ps e)
  from "2.prems"(1) obtain m m' where
    m: "chain_planned a (length (header15 x)) (plan_header p) m"
    and m': "data_planned m (data15 x) (plan_data p) m'"
    and rest: "elements_planned m' xs ps e"
    by auto
  obtain n where n: "header_name (header15 x) = Some n" using "2.prems"(6) by auto
  let ?h = "chain_bytes15 (plan_header p) (header15 x)"
  let ?d = "case (plan_data p, data15 x) of (Some ch, Some bs) \<Rightarrow> chain_bytes15 ch bs | _ \<Rightarrow> []"
  have inp: "input r = pre @ ?h @ ?d @ elements_image15 xs ps" using "2.prems"(2) by simp
  obtain r1 el where el: "parse_element15 r i (toc_entry15 p) = Ok (r1, el)"
    "raw_header el = header15 x" "element_data el = data15 x" "name el = n"
    "input r1 = input r" "claims_below m' r1"
    using parse_element15_image [OF m m' inp "2.prems"(3-5) n] by blast
  have "length ?d + m = m'"
    using m' by (cases "data15 x") (auto simp: length_chain_bytes15 add.commute)
  then have "length (pre @ ?h @ ?d) = m'"
    using length_chain_bytes15 [OF m] "2.prems"(3) by simp
  moreover have "input r1 = (pre @ ?h @ ?d) @ elements_image15 xs ps" using inp el(5) by simp
  ultimately obtain r' els where "parse_elements15 r1 (Suc i) (map toc_entry15 ps) = Ok (r', els)"
    "map (\<lambda>el. \<lparr>header15 = raw_header el, data15 = element_data el\<rparr>) els = xs"
    "map (\<lambda>el. Some (name el)) els = map (\<lambda>x. header_name (header15 x)) xs"
    using "2.IH" [OF rest _ _ _ el(6), of "pre @ ?h @ ?d" "Suc i"] "2.prems"(4,6) el(5)
    unfolding el(5) by auto
  with el n show ?case by simp
qed simp_all

section \<open>The container\<close>

lemma parse15_image:
  assumes "planned15 d p" and "valid_document15 d"
  shows "\<exists>c. parse15 (file_image15 d p) = Ok c \<and>
    document15_from_container c = d\<lparr>doc15_tail_padding := 0\<rparr> \<and>
    map (\<lambda>el. Some (name el)) (elements c) = map (\<lambda>x. header_name (header15 x)) (doc15_elements d)"
proof -
  define bs where "bs = file_image15 d p"
  define toc where "toc = concat (map toc_entry15 (plan_elements p))"
  obtain m where m: "chain_planned 16 (length (doc15_elements d) * 12) (plan_toc p) m"
    and es: "elements_planned m (doc15_elements d) (plan_elements p) (plan_bytes_written p)"
    and size: "plan_bytes_written p \<le> SENT15"
    using assms(1) by (auto simp: planned15_def)
  have t: "chain_planned 16 (length toc) (plan_toc p) m"
    using m elements_planned_length [OF es] by (simp only: length_toc_table15 toc_def)
  have len: "length bs = plan_bytes_written p" "length bs \<le> u64_max"
    using length_file_image15 [OF assms(1)] size by (simp_all add: bs_def)
  have long: "47 \<le> length bs"
    using len(1) chain_planned_bounds [OF t] elements_planned_bounds [OF es] by simp
  have bs: "bs = file_header_bytes15 d @ chain_bytes15 (plan_toc p) toc
      @ elements_image15 (doc15_elements d) (plan_elements p)"
    by (simp add: bs_def file_image15_def toc_def)
  have lh: "length (file_header_bytes15 d) = 16" by (simp add: file_header_bytes15_def)
  have fh: "read_file_header15 bs = Ok \<lparr>file_raw = file_header_bytes15 d,
      file_next_page = FORMAT15_SENTINEL, file_page_size = doc15_page_size d,
      storage_version = doc15_storage_version d, file_reserved = doc15_reserved d\<rparr>"
  proof -
    have "checked_slice15 bs 0 16 = Ok (file_header_bytes15 d)"
      using long lh by (simp add: checked_slice15_def checked_add64_def bs slice_def)
    moreover have "slice 0 4 (file_header_bytes15 d) = to_le_bytes 4 FORMAT15_SENTINEL"
      "slice 4 8 (file_header_bytes15 d) = to_le_bytes 4 (doc15_page_size d)"
      "slice 8 12 (file_header_bytes15 d) = to_le_bytes 4 (doc15_storage_version d)"
      "slice 12 16 (file_header_bytes15 d) = to_le_bytes 4 (doc15_reserved d)"
      by (simp_all add: slice_def file_header_bytes15_def)
    ultimately show ?thesis by (simp add: read_file_header15_def)
  qed
  define r0 where "r0 = \<lparr>input = bs, claimed = [\<lparr>range_start = 0, range_end = 16, owner = 0\<rparr>]\<rparr>"
  have rsv: "reserve (block_reader_new bs) 0 16 = Ok r0"
    using long by (simp add: reserve_def block_reader_new_def Let_def r0_def)
  have free: "reserve_free_pages r0 FORMAT15_SENTINEL = Ok r0"
    by (subst reserve_free_pages_def) (simp add: reserve_free_pages_loop.simps)
  obtain r2 tc where tc: "read_chain r0 (word_of_nat 16) = Ok (r2, tc)" "data tc = toc"
    "input r2 = bs" "claims_below m r2"
    using read_planned_chain [OF t, of r0 "file_header_bytes15 d"] bs lh len(2)
    by (auto simp: r0_def claims_below_def)
  have ch: "chunks_exact 12 toc = map toc_entry15 (plan_elements p)"
    unfolding toc_def by (rule chunks_exact_concat) simp_all
  have "length (file_header_bytes15 d @ chain_bytes15 (plan_toc p) toc) = m"
    using length_chain_bytes15 [OF t] lh by simp
  then obtain r3 els where els: "parse_elements15 r2 0 (map toc_entry15 (plan_elements p)) = Ok (r3, els)"
    "map (\<lambda>el. \<lparr>header15 = raw_header el, data15 = element_data el\<rparr>) els = doc15_elements d"
    "map (\<lambda>el. Some (name el)) els = map (\<lambda>x. header_name (header15 x)) (doc15_elements d)"
    using parse_elements15_image [OF es, of r2 "file_header_bytes15 d @ chain_bytes15 (plan_toc p) toc" 0]
      tc(3,4) len(2) assms(2) bs by (auto simp: valid_document15_def)
  have "length toc mod 12 = 0" by (simp add: toc_def length_toc_table15)
  then show ?thesis
    using long fh rsv free tc(1,2) ch els
    by (simp add: parse15_def Let_def document15_from_container_def bs_def [symmetric])
qed

end
