(* ===== verification/V8_Writer15_Laws.thy ===== *)
theory V8_Writer15_Laws
  imports V8_Roundtrip15
begin

text \<open>
  The contract of the Format15 writer: when it succeeds, what reaches the sink, and that the
  structural reader gives the document back.
\<close>

section \<open>Element names\<close>

lemma encode_utf16_nonzero:
  assumes "is_scalar c" "c \<noteq> 0" "u \<in> set (encode_utf16_char c)"
  shows "u \<noteq> 0"
proof -
  have nz: "(word_of_nat k :: u16) \<noteq> 0" if "0 < k" "k < 0x10000" for k
  proof -
    have "unat (word_of_nat k :: u16) = k" using that(2) by (simp add: unsigned_of_nat take_bit_eq_mod)
    with that(1) show ?thesis by (metis less_irrefl unsigned_0)
  qed
  show ?thesis
  proof (cases "c < 0x10000")
    case True
    then show ?thesis using assms nz [of c] by (simp add: encode_utf16_char_def)
  next
    case False
    have "0xD800 + (c - 0x10000) div 0x400 < 0x10000"
      using assms(1) by (auto simp: is_scalar_def)
    moreover have "0xDC00 + (c - 0x10000) mod 0x400 < 0x10000" by simp
    ultimately show ?thesis
      using assms(3) False nz [of "0xD800 + (c - 0x10000) div 0x400"]
        nz [of "0xDC00 + (c - 0x10000) mod 0x400"]
      by (auto simp: encode_utf16_char_def simp del: of_nat_add)
  qed
qed

definition plain_name :: "ustr \<Rightarrow> bool" where
  "plain_name n \<longleftrightarrow> list_all (\<lambda>c. is_scalar c \<and> c \<noteq> 0) n"

lemma header_name_make:
  assumes "plain_name n"
  shows "header_name (make_element_header n) = Some n"
proof -
  have nz: "\<forall>u \<in> set (encode_utf16 n). u \<noteq> 0"
    using assms encode_utf16_nonzero by (auto simp: encode_utf16_def plain_name_def list_all_iff)
  have "utf16_bytes (encode_utf16 n) @ [0, 0, 0, 0] = utf16_bytes (encode_utf16 n @ [0, 0])"
    by (simp add: utf16_bytes_def to_le_bytes_def upt_rec)
  then have "utf16_units (drop 20 (make_element_header n)) = encode_utf16 n @ [0, 0]"
    by (simp add: make_element_header_def)
  then have "name_units (make_element_header n) = encode_utf16 n"
    using nz by (simp add: name_units_def takeWhile_append2)
  moreover have "from_utf16 (encode_utf16 n) = Some n"
    using assms by (intro from_utf16_encode) (simp add: plain_name_def list_all_iff)
  ultimately show ?thesis
    by (simp add: header_name_def make_element_header_def length_utf16_bytes)
qed

section \<open>Planning\<close>

lemma serialized_len15_iff:
  "format15_serialized_len d = Ok n \<longleftrightarrow>
     valid_document15 d \<and> n = format15_extent d \<and> format15_extent d \<le> 0x7fffffff"
proof
  assume "format15_serialized_len d = Ok n"
  then obtain p where "plan_format15 d = Ok p" "n = plan_bytes_written p"
    by (auto simp: format15_serialized_len_def result_simps)
  with plan_format15_planned [OF this(1)] show "valid_document15 d \<and> n = format15_extent d \<and>
      format15_extent d \<le> 0x7fffffff"
    by (simp add: planned15_def)
next
  assume *: "valid_document15 d \<and> n = format15_extent d \<and> format15_extent d \<le> 0x7fffffff"
  then obtain p where p: "plan_format15 d = Ok p" using plan_format15_iff by blast
  with plan_format15_planned [OF p] * show "format15_serialized_len d = Ok n"
    by (simp add: format15_serialized_len_def planned15_def)
qed

text \<open>C12: \<open>format15_serialized_len\<close> is exact.  It succeeds exactly when the page size lies
  strictly between zero and the sentinel, every element header carries a valid name, and the whole
  layout (16-byte file header, compact address table and headers, padded payloads, tail padding)
  ends at or below address 0x7fffffff; the result is the size of that layout.\<close>

theorem format15_serialized_len_exact:
  "format15_serialized_len d = Ok n \<longleftrightarrow>
     valid_document15 d \<and> n = format15_extent d \<and> format15_extent d \<le> 0x7fffffff"
  by (rule serialized_len15_iff)

section \<open>Writing\<close>

lemma write_to_vec_image:
  assumes "plan_format15 d = Ok p"
  shows "write_format15_to_vec d = Ok (file_image15 d p)"
proof -
  obtain bs report where "write_format15 vec_write [] d = Ok (bs, report)"
    using vec.write_format15_total [OF assms, of "[]"] by blast
  with vec.write_format15_appends [OF this] assms show ?thesis
    by (auto simp: write_format15_to_vec_def)
qed

text \<open>C13: whatever the sink, as long as a successful \<open>write_all\<close> appends its bytes: when
  \<open>write_format15\<close> succeeds, exactly the bytes of \<open>write_format15_to_vec\<close> were appended, and the
  report's byte count is their number and the length computed in advance.\<close>

theorem write_format15_any_sink:
  assumes "write_sink wr contents" and "write_format15 wr s d = Ok (s', report)"
  shows "\<exists>bs. write_format15_to_vec d = Ok bs \<and> contents s' = contents s @ bs \<and>
    bytes_written report = length bs \<and> format15_serialized_len d = Ok (length bs) \<and>
    entries_written report = length (doc15_elements d)"
proof -
  from write_sink.write_format15_appends [OF assms] obtain p where
    p: "plan_format15 d = Ok p" "contents s' = contents s @ file_image15 d p"
      "report = \<lparr>bytes_written = plan_bytes_written p, entries_written = length (doc15_elements d),
        pages_written = plan_pages_written p\<rparr>"
    by blast
  moreover have "length (file_image15 d p) = plan_bytes_written p"
    using plan_format15_planned [OF p(1)] length_file_image15 by blast
  ultimately show ?thesis
    using write_to_vec_image [OF p(1)] by (simp add: format15_serialized_len_def)
qed

text \<open>C1: a document whose length can be computed is written in full, in exactly that many
  bytes, and the structural reader parses those bytes to a container whose page size, version,
  reserved word, element headers and payloads are the document's, absent and empty payloads kept
  apart, and whose element names are the names in the headers.\<close>

theorem format15_round_trip:
  assumes "format15_serialized_len d = Ok n"
  shows "\<exists>bs c. write_format15_to_vec d = Ok bs \<and> length bs = n \<and> parse15 bs = Ok c \<and>
    document15_from_container c = d\<lparr>doc15_tail_padding := 0\<rparr> \<and>
    map (\<lambda>e. Some (name e)) (elements c) = map (\<lambda>x. header_name (header15 x)) (doc15_elements d)"
proof -
  obtain p where p: "plan_format15 d = Ok p" "n = plan_bytes_written p"
    using assms by (auto simp: format15_serialized_len_def result_simps)
  have pl: "planned15 d p" "valid_document15 d" using plan_format15_planned [OF p(1)] by auto
  show ?thesis
    using parse15_image [OF pl] write_to_vec_image [OF p(1)] length_file_image15 [OF pl(1)] p(2)
    by blast
qed

text \<open>A document of two elements, one with a payload over two pages and one without data.\<close>

definition sample_document15 :: format15_document where
  "sample_document15 = \<lparr>doc15_page_size = 4, doc15_storage_version = 1, doc15_reserved = 0,
     doc15_tail_padding = 3, doc15_elements =
       [element15_named [97] (Some [1, 2, 3, 4, 5]), element15_named [98, 0x1F600] None]\<rparr>"

lemma sample_document15_extent:
  "format15_serialized_len sample_document15 = Ok (format15_extent sample_document15)"
  "format15_extent sample_document15 = 820"
proof -
  have "header_name (make_element_header [97]) = Some [97]"
    "header_name (make_element_header [98, 0x1F600]) = Some [98, 0x1F600]"
    by (rule header_name_make, simp add: plain_name_def is_scalar_def)+
  then have v: "valid_document15 sample_document15"
    by (simp add: valid_document15_def sample_document15_def element15_named_def)
  show e: "format15_extent sample_document15 = 820"
    by (simp add: format15_extent_def sample_document15_def element15_named_def chain_extent15_def
        pages_extent15_def page_count_def div_ceil_def element_extent15_def make_element_header_def
        length_utf16_bytes encode_utf16_def encode_utf16_char_def)
  show "format15_serialized_len sample_document15 = Ok (format15_extent sample_document15)"
    using v e by (simp add: serialized_len15_iff)
qed

lemma sample_document15_parses:
  "\<exists>p. plan_format15 sample_document15 = Ok p \<and> planned15 sample_document15 p \<and>
    valid_document15 sample_document15"
  using sample_document15_extent(1) plan_format15_planned
  by (fastforce simp: format15_serialized_len_def result_simps)

lemma format15_round_trip_witness:
  "\<exists>bs c. write_format15_to_vec sample_document15 = Ok bs \<and> length bs = 820 \<and> parse15 bs = Ok c \<and>
    document15_from_container c = sample_document15\<lparr>doc15_tail_padding := 0\<rparr>"
  using format15_round_trip [OF sample_document15_extent(1)] sample_document15_extent(2) by auto

lemma write_format15_any_sink_witness:
  "\<exists>bs report. write_format15 vec_write [7] sample_document15 = Ok (7 # bs, report) \<and>
    write_format15_to_vec sample_document15 = Ok bs \<and> bytes_written report = 820 \<and> length bs = 820"
proof -
  obtain p where p: "plan_format15 sample_document15 = Ok p"
    using sample_document15_extent(1) by (auto simp: format15_serialized_len_def result_simps)
  obtain s' report where w: "write_format15 vec_write [7] sample_document15 = Ok (s', report)"
    using vec.write_format15_total [OF p] by blast
  from write_format15_any_sink [OF vec.write_sink_axioms w] obtain bs where
    "write_format15_to_vec sample_document15 = Ok bs" "s' = 7 # bs"
    "bytes_written report = length bs" "format15_serialized_len sample_document15 = Ok (length bs)"
    by auto
  with w sample_document15_extent show ?thesis by auto
qed

section \<open>Named elements\<close>

lemma map_pair:
  "map f xs = map fst ys \<Longrightarrow> map g xs = map snd ys \<Longrightarrow> map (\<lambda>x. (f x, g x)) xs = ys"
proof (induction ys arbitrary: xs)
  case (Cons y ys)
  then show ?case by (cases xs) auto
qed simp

lemma find_distinct:
  "distinct (map f xs) \<Longrightarrow> x \<in> set xs \<Longrightarrow> find (\<lambda>y. f y = f x) xs = Some x"
  by (induction xs) (auto simp: image_iff)

text \<open>C14: a container written from named elements can be searched by name: the element that
  \<open>Container::element\<close> finds under each name has the payload it was given, for names without NUL
  that occur once.\<close>

theorem format15_named_lookup:
  assumes "format15_serialized_len d = Ok k"
    and "doc15_elements d = map (\<lambda>(n, bs). element15_named n bs) entries"
    and "list_all (\<lambda>(n, bs). plain_name n) entries" and "distinct (map fst entries)"
    and "(n, payload) \<in> set entries"
  shows "\<exists>bs c e. write_format15_to_vec d = Ok bs \<and> parse15 bs = Ok c \<and>
    find_element c n = Some e \<and> name e = n \<and> element_data e = payload"
proof -
  obtain p where p: "plan_format15 d = Ok p"
    using assms(1) by (auto simp: format15_serialized_len_def result_simps)
  have pl: "planned15 d p" "valid_document15 d" using plan_format15_planned [OF p] by auto
  obtain c where c: "parse15 (file_image15 d p) = Ok c"
    and doc: "document15_from_container c = d\<lparr>doc15_tail_padding := 0\<rparr>"
    and nm: "map (\<lambda>e. Some (name e)) (elements c) = map (\<lambda>x. header_name (header15 x)) (doc15_elements d)"
    using parse15_image [OF pl] by blast
  have hn: "map (\<lambda>(n, bs). header_name (make_element_header n)) entries = map (\<lambda>(n, bs). Some n) entries"
    using assms(3) by (auto simp: list_all_iff header_name_make)
  have "map Some (map name (elements c)) = map Some (map fst entries)"
    using nm hn by (simp add: assms(2) comp_def case_prod_beta element15_named_def)
  then have names: "map name (elements c) = map fst entries"
    by (rule map_injective) (simp add: inj_def)
  have "map element_data (elements c) = map data15 (doc15_elements d)"
    using arg_cong [OF doc, of "\<lambda>d. map data15 (doc15_elements d)"]
    by (simp add: document15_from_container_def comp_def)
  then have datas: "map element_data (elements c) = map snd entries"
    by (simp add: assms(2) comp_def case_prod_beta element15_named_def)
  have zip: "map (\<lambda>e. (name e, element_data e)) (elements c) = entries"
    using names datas by (rule map_pair)
  obtain e where e: "e \<in> set (elements c)" "name e = n" "element_data e = payload"
    using assms(5) unfolding zip [symmetric] by auto
  have "find_element c n = Some e"
    using find_distinct [of name "elements c" e] assms(4) names e by (simp add: find_element_def)
  then show ?thesis using write_to_vec_image [OF p] c e by blast
qed

lemma format15_named_lookup_witness:
  "\<exists>bs c e. write_format15_to_vec sample_document15 = Ok bs \<and> parse15 bs = Ok c \<and>
    find_element c [98, 0x1F600] = Some e \<and> element_data e = None"
proof -
  have "\<exists>bs c e. write_format15_to_vec sample_document15 = Ok bs \<and> parse15 bs = Ok c \<and>
    find_element c [98, 0x1F600] = Some e \<and> name e = [98, 0x1F600] \<and> element_data e = None"
    by (rule format15_named_lookup [OF sample_document15_extent(1),
          of "[([97], Some [1, 2, 3, 4, 5]), ([98, 0x1F600], None)]"])
      (simp_all add: sample_document15_def plain_name_def is_scalar_def)
  then show ?thesis by blast
qed

end
