(* ===== verification/V8_Writer16_Laws.thy ===== *)
theory V8_Writer16_Laws
  imports V8_Roundtrip16 V8_Writer15_Laws
begin

text \<open>
  The contract of the Format16 writer: exact lengths, streaming from readers of a declared length,
  and the round trip through the structural reader of primary containers.
\<close>

lemma serialized_len16_iff:
  "format16_serialized_len d = Ok n \<longleftrightarrow>
     valid_document16 d \<and> n = format16_extent d \<and> format16_extent d \<le> 0xffffffffffffffff"
proof
  assume "format16_serialized_len d = Ok n"
  then obtain p where "plan_format16 d = Ok p" "n = wide_bytes_written p"
    by (auto simp: format16_serialized_len_def result_simps)
  with plan_format16_planned [OF this(1)] show "valid_document16 d \<and> n = format16_extent d \<and>
      format16_extent d \<le> 0xffffffffffffffff"
    by (simp add: planned16_def)
next
  assume *: "valid_document16 d \<and> n = format16_extent d \<and> format16_extent d \<le> 0xffffffffffffffff"
  then obtain p where p: "plan_format16 d = Ok p" using plan_format16_iff [of d] by auto
  with plan_format16_planned [OF p] * show "format16_serialized_len d = Ok n"
    by (simp add: format16_serialized_len_def planned16_def)
qed

text \<open>\<open>format16_serialized_len\<close> succeeds exactly when the page size is not zero,
  every element header carries a valid name and the layout fits 64-bit addresses, and the result is
  the size of the layout; none of the intermediate checked products and sums refuses earlier.\<close>

theorem format16_serialized_len_exact:
  "format16_serialized_len d = Ok n \<longleftrightarrow>
     valid_document16 d \<and> n = format16_extent d \<and> format16_extent d \<le> 0xffffffffffffffff"
  by (rule serialized_len16_iff)

text \<open>\<open>Format16TocReader::read\<close> hands out the address table without ever building it:
  a read of any size at any position returns the next bytes of the concatenated 24-byte records,
  as many as are left, and moves the position by their number; the loop over records ends.\<close>

theorem toc_reader_is_the_table:
  "toc_read r n =
     (take n (drop (toc_position r) (concat (map format16_toc_record (toc_elements r)))),
      r\<lparr>toc_position := toc_position r +
          min n (length (toc_elements r) * 24 - toc_position r)\<rparr>)"
  using toc_read_eq [of r n] by (simp add: toc_table16_def)

lemma write_primary_to_vec:
  assumes "plan_format16 d = Ok p" and "\<forall>x \<in> set (doc16_elements d). element_full x"
  shows "\<exists>d' report. write_format16_primary vec_write [] d = Ok (file_image16 d p, d', report)"
proof -
  obtain bs d' report where "write_format16_primary vec_write [] d = Ok (bs, d', report)"
    using vec.write_format16_total [OF assms, of "[]"] by blast
  with vec.write_format16_appends [OF this] assms(1) show ?thesis by auto
qed

lemma length_file_image16:
  assumes "plan_format16 d = Ok p" and "\<forall>x \<in> set (doc16_elements d). element_full x"
  shows "length (file_image16 d p) = wide_bytes_written p"
proof -
  obtain m where m: "wide_planned 20 (length (doc16_elements d) * 24) (wide_toc p) m"
    and es: "wide_elements_planned m (doc16_elements d) (wide_elements p) (wide_bytes_written p)"
    using plan_format16_planned [OF assms(1)] by (auto simp: planned16_def)
  have "20 + length (wide_chain_bytes (wide_toc p) (toc_table16 (wide_elements p))) = m"
    using m wide_elements_planned_length [OF es] by (intro length_wide_chain_bytes) simp
  with length_elements_image16 [OF es assms(2)] show ?thesis
    by (simp add: file_image16_def file_header_bytes16_def)
qed

text \<open>whatever the sink, as long as a successful \<open>write_all\<close> appends its bytes: when
  \<open>write_format16_primary\<close> succeeds, every payload reader had the declared number of bytes and was
  advanced by exactly that many, the bytes appended are those a \<open>Vec\<close> would receive, and their
  number is the report's and the length computed in advance.\<close>

theorem write_format16_any_sink:
  assumes "write_sink wr contents" and "write_format16_primary wr s d = Ok (s', d', report)"
  shows "list_all element_full (doc16_elements d) \<and>
    map unread (doc16_elements d') = map unread_after (doc16_elements d) \<and>
    (\<exists>bs dv. write_format16_primary vec_write [] d = Ok (bs, dv, report) \<and>
      contents s' = contents s @ bs \<and> bytes_written report = length bs \<and>
      format16_serialized_len d = Ok (length bs))"
proof -
  from write_sink.write_format16_appends [OF assms] obtain p where
    p: "plan_format16 d = Ok p" and full: "\<forall>x \<in> set (doc16_elements d). element_full x"
    and out: "contents s' = contents s @ file_image16 d p"
      "map unread (doc16_elements d') = map unread_after (doc16_elements d)"
      "report = \<lparr>bytes_written = wide_bytes_written p, entries_written = length (doc16_elements d),
        pages_written = wide_pages_written p\<rparr>"
    by blast
  obtain dv rv where v: "write_format16_primary vec_write [] d = Ok (file_image16 d p, dv, rv)"
    using write_primary_to_vec [OF p full] by blast
  with vec.write_format16_appends [OF v] p out(3) have "rv = report" by auto
  with v p full out length_file_image16 [OF p full] show ?thesis
    by (simp add: format16_serialized_len_def list_all_iff)
qed

text \<open>What a document becomes when its payloads are read to their declared lengths.\<close>

definition materialized :: "format16_document \<Rightarrow> format16_document" where
  "materialized d = d\<lparr>doc16_elements := map (\<lambda>x. \<lparr>header16 = header16 x,
     data16 = map_option (\<lambda>p. payload_from_bytes (payload_taken p)) (data16 x)\<rparr>) (doc16_elements d)\<rparr>"

lemma primary_image_document:
  assumes p: "plan_format16 d = Ok p" and full: "\<forall>x \<in> set (doc16_elements d). element_full x"
  shows "\<exists>c. parse_primary (file_image16 d p) = Ok c \<and> document16_from_container c = materialized d \<and>
    map (\<lambda>e. Some (name e)) (elements c) = map (\<lambda>x. header_name (header16 x)) (doc16_elements d)"
proof -
  have pl: "planned16 d p" "valid_document16 d" using plan_format16_planned [OF p] by auto
  obtain c where c: "parse_primary (file_image16 d p) = Ok c"
      "file_page_size (file_header c) = doc16_page_size d"
      "storage_version (file_header c) = doc16_storage_version d"
      "file_reserved (file_header c) = doc16_reserved d"
    and els: "map (\<lambda>el. (raw_header el, element_data el)) (elements c) =
      map (\<lambda>x. (header16 x, map_option payload_taken (data16 x))) (doc16_elements d)"
    and names: "map (\<lambda>e. Some (name e)) (elements c) =
      map (\<lambda>x. header_name (header16 x)) (doc16_elements d)"
    using parse_primary_image [OF pl full] by blast
  have "document16_from_container c = materialized d"
    using c(2-4) arg_cong [OF els, of "map (\<lambda>(h, q). \<lparr>header16 = h, data16 = map_option payload_from_bytes q\<rparr>)"]
    by (simp add: document16_from_container_def materialized_def comp_def option.map_comp)
  with c(1) names show ?thesis by blast
qed

text \<open>C2: a document whose length can be computed, and whose readers hold the bytes they
  declare, is written in full, in exactly that many bytes, and \<open>parse_primary\<close> reads those bytes back
  to a container whose page size, version, reserved word, element headers and payloads are the
  document's, absent and empty payloads kept apart, under the names in the headers.\<close>

theorem format16_round_trip:
  assumes "format16_serialized_len d = Ok n" and "list_all element_full (doc16_elements d)"
  shows "\<exists>bs d' report c. write_format16_primary vec_write [] d = Ok (bs, d', report) \<and>
    length bs = n \<and> parse_primary bs = Ok c \<and> document16_from_container c = materialized d \<and>
    map (\<lambda>e. Some (name e)) (elements c) = map (\<lambda>x. header_name (header16 x)) (doc16_elements d)"
proof -
  obtain p where p: "plan_format16 d = Ok p" "n = wide_bytes_written p"
    using assms(1) by (auto simp: format16_serialized_len_def result_simps)
  have full: "\<forall>x \<in> set (doc16_elements d). element_full x"
    using assms(2) by (simp add: list_all_iff)
  from primary_image_document [OF p(1) full] write_primary_to_vec [OF p(1) full]
    length_file_image16 [OF p(1) full] p(2)
  show ?thesis by blast
qed

text \<open>An element streamed from a reader that holds one byte more than declared, and one without
  data.\<close>

definition sample_document16 :: format16_document where
  "sample_document16 = \<lparr>doc16_page_size = 4, doc16_storage_version = 1, doc16_reserved = 0,
     doc16_elements =
       [element16_named [97] (Some (payload_from_reader 5
          \<lparr>yields = [1, 2, 3, 4, 5, 6], then_fails = UnexpectedEof\<rparr>)),
        element16_named [98, 0x1F600] None]\<rparr>"

lemma sample_document16_extent:
  "format16_serialized_len sample_document16 = Ok (format16_extent sample_document16)"
  "format16_extent sample_document16 = 1727"
  "list_all element_full (doc16_elements sample_document16)"
proof -
  have "header_name (make_element_header [97]) = Some [97]"
    "header_name (make_element_header [98, 0x1F600]) = Some [98, 0x1F600]"
    by (rule header_name_make, simp add: plain_name_def is_scalar_def)+
  then have v: "valid_document16 sample_document16"
    by (simp add: valid_document16_def sample_document16_def element16_named_def)
  show e: "format16_extent sample_document16 = 1727"
    by (simp add: format16_extent_def sample_document16_def element16_named_def wide_extent_def
        wide_page_number_def element_extent16_def make_element_header_def payload_from_reader_def
        length_utf16_bytes encode_utf16_def encode_utf16_char_def Let_def)
  show "format16_serialized_len sample_document16 = Ok (format16_extent sample_document16)"
    using v e by (simp add: serialized_len16_iff)
  show "list_all element_full (doc16_elements sample_document16)"
    by (simp add: sample_document16_def element_full_def payload_full_def element16_named_def
        payload_from_reader_def)
qed

lemma format16_round_trip_witness:
  "\<exists>bs d' report c. write_format16_primary vec_write [] sample_document16 = Ok (bs, d', report) \<and>
    length bs = 1727 \<and> parse_primary bs = Ok c \<and>
    document16_from_container c = materialized sample_document16"
  using format16_round_trip [OF sample_document16_extent(1,3)] sample_document16_extent(2) by auto

lemma write_format16_any_sink_witness:
  "\<exists>s' d' report. write_format16_primary vec_write [7] sample_document16 = Ok (s', d', report) \<and>
    map unread (doc16_elements d') = [Some [6], None] \<and> bytes_written report = 1727"
proof -
  obtain p where p: "plan_format16 sample_document16 = Ok p"
    using sample_document16_extent(1) by (auto simp: format16_serialized_len_def result_simps)
  have full: "\<forall>x \<in> set (doc16_elements sample_document16). element_full x"
    using sample_document16_extent(3) by (simp add: list_all_iff)
  obtain s' d' report where w: "write_format16_primary vec_write [7] sample_document16 = Ok (s', d', report)"
    using vec.write_format16_total [OF p full] by blast
  have "map unread (doc16_elements d') = map unread_after (doc16_elements sample_document16) \<and>
      bytes_written report = 1727"
    using write_format16_any_sink [OF vec.write_sink_axioms w] sample_document16_extent by auto
  moreover have "map unread_after (doc16_elements sample_document16) = [Some [6], None]"
    by (simp add: sample_document16_def unread_after_def element16_named_def payload_from_reader_def)
  ultimately show ?thesis using w by auto
qed

end
