(* ===== verification/V8_Detect.thy ===== *)
theory V8_Detect
  imports V8_Writer16_Laws
begin

text \<open>
  \<open>crates/ibcmd-v8/src/format.rs\<close>: revision detection and the unified parse entry point.
\<close>

datatype revision = Format15 | Format16

record detection =
  detected_revision :: revision
  detected_base_offset :: nat

datatype v8_container = Container15 "u32 container" | Container16 container16

datatype detect_error = DetectInputTooShort nat nat | UnknownSignature u32

datatype parse_error =
  ParseDetect detect_error | ParseFormat15 format15_error | ParseFormat16 format16_error

fun container_revision :: "v8_container \<Rightarrow> revision" where
  "container_revision (Container15 c) = Format15"
| "container_revision (Container16 c) = Format16"

fun container_base_offset :: "v8_container \<Rightarrow> nat" where
  "container_base_offset (Container15 c) = 0"
| "container_base_offset (Container16 c) = base_offset c"

fun element_count :: "v8_container \<Rightarrow> nat" where
  "element_count (Container15 c) = length (elements c)"
| "element_count (Container16 c) = length (elements c)"

text \<open>\<open>bytes.get(a..b)\<close>, \<open>eq_ignore_ascii_case\<close> and \<open>ends_with\<close>.\<close>

definition get_range :: "bytes \<Rightarrow> nat \<Rightarrow> nat \<Rightarrow> bytes option" where
  "get_range bs a b = (if a \<le> b \<and> b \<le> length bs then Some (slice a b bs) else None)"

definition ascii_lower :: "u8 \<Rightarrow> u8" where
  "ascii_lower b = (if 65 \<le> b \<and> b \<le> 90 then b + 32 else b)"

definition eq_ignore_ascii_case :: "bytes \<Rightarrow> bytes \<Rightarrow> bool" where
  "eq_ignore_ascii_case xs ys \<longleftrightarrow> map ascii_lower xs = map ascii_lower ys"

definition starts_with :: "bytes \<Rightarrow> bytes \<Rightarrow> bool" where
  "starts_with bs p \<longleftrightarrow> take (length p) bs = p"

definition ends_with :: "bytes \<Rightarrow> bytes \<Rightarrow> bool" where
  "ends_with bs p \<longleftrightarrow> length p \<le> length bs \<and> drop (length bs - length p) bs = p"

text \<open>\<open>b"7fffffff"\<close> and \<open>b"ffffffffffffffff"\<close>.\<close>

definition free_mark15 :: bytes where
  "free_mark15 = [55, 102, 102, 102, 102, 102, 102, 102]"

definition free_mark16 :: bytes where
  "free_mark16 = replicate 16 102"

definition has_free_page_header :: "bytes \<Rightarrow> u32 \<Rightarrow> bool" where
  "has_free_page_header bs head =
     (let start = unat head in
      if start < FILE_HEADER_SIZE15 then False
      else
        (case checked_add64 start FORMAT15_BLOCK_HEADER_SIZE of
           None \<Rightarrow> False
         | Some e \<Rightarrow>
             get_range bs FILE_HEADER_SIZE15 (FILE_HEADER_SIZE15 + 2) = Some [CR, LF] \<and>
             (case get_range bs start e of
                None \<Rightarrow> False
              | Some header \<Rightarrow>
                  starts_with header [CR, LF] \<and>
                  eq_ignore_ascii_case (slice 2 10 header) free_mark15 \<and>
                  header ! 10 = SP \<and> ends_with header [SP, CR, LF])))"

definition has_wide_free_page_header :: "bytes \<Rightarrow> u64 \<Rightarrow> bool" where
  "has_wide_free_page_header bs head =
     (let h = unat head in
      if h < FILE_HEADER_SIZE16 then False
      else
        (case checked_add64 BASE_OFFSET16 h of
           None \<Rightarrow> False
         | Some start \<Rightarrow>
             (case checked_add64 start FORMAT16_BLOCK_HEADER_SIZE of
                None \<Rightarrow> False
              | Some e \<Rightarrow>
                  let toc = BASE_OFFSET16 + FILE_HEADER_SIZE16 in
                  get_range bs toc (toc + 2) = Some [CR, LF] \<and>
                  (case get_range bs start e of
                     None \<Rightarrow> False
                   | Some header \<Rightarrow>
                       starts_with header [CR, LF] \<and>
                       eq_ignore_ascii_case (slice 2 18 header) free_mark16 \<and>
                       header ! 18 = SP \<and> ends_with header [SP, CR, LF]))))"

definition detect :: "bytes \<Rightarrow> detect_error + detection" where
  "detect bs =
     (if length bs < 4 then Err (DetectInputTooShort 4 (length bs))
      else
      let first = from_le_bytes (take 4 bs) in
      if first \<noteq> FORMAT15_SENTINEL \<and> \<not> has_free_page_header bs first
      then Err (UnknownSignature first)
      else
      let wide_end = BASE_OFFSET16 + 8 in
      if length bs \<ge> wide_end \<and>
         (let mark = from_le_bytes (slice BASE_OFFSET16 wide_end bs) in
          mark = FORMAT16_SENTINEL \<or> has_wide_free_page_header bs mark)
      then Ok \<lparr>detected_revision = Format16, detected_base_offset = BASE_OFFSET16\<rparr>
      else Ok \<lparr>detected_revision = Format15, detected_base_offset = 0\<rparr>)"

definition parse :: "bytes \<Rightarrow> parse_error + v8_container" where
  "parse bs =
     try_res (map_err ParseDetect (detect bs)) (\<lambda>d.
     case detected_revision d of
       Format15 \<Rightarrow> map_err ParseFormat15 (try_res (parse15 bs) (\<lambda>c. Ok (Container15 c)))
     | Format16 \<Rightarrow> map_err ParseFormat16 (try_res (parse16 bs) (\<lambda>c. Ok (Container16 c))))"

end
