(* ===== verification/V8_Container_Safety.thy ===== *)
theory V8_Container_Safety
  imports V8_Container_Laws V8_Detect
begin

text \<open>
  Safety of the structural readers, stated for whole containers; the samples are files of the
  writers.
\<close>

section \<open>Samples\<close>

lemma sample15_parses:
  "\<exists>bs c. write_format15_to_vec sample_document15 = Ok bs \<and> parse15 bs = Ok c \<and> 2 \<le> length (container_pages c)"
proof -
  obtain p where p: "plan_format15 sample_document15 = Ok p" "planned15 sample_document15 p"
    "valid_document15 sample_document15" using sample_document15_parses by blast
  obtain c where c: "parse15 (file_image15 sample_document15 p) = Ok c"
    "map (\<lambda>e. Some (name e)) (elements c) =
      map (\<lambda>x. header_name (header15 x)) (doc15_elements sample_document15)"
    using parse15_image [OF p(2,3)] by blast
  have "length (elements c) = 2"
    using arg_cong [OF c(2), of length] by (simp add: sample_document15_def)
  then have "2 \<le> length (container_pages c)"
    using container_pages_length [OF parse15_sound [OF c(1)]] by simp
  with c(1) write_to_vec_image [OF p(1)] show ?thesis by blast
qed

lemma sample16_parses:
  "\<exists>bs d' report c. write_format16_primary vec_write [] sample_document16 = Ok (bs, d', report) \<and>
    parse_at bs 0 = Ok c \<and> 2 \<le> length (container_pages c)"
proof -
  obtain p where p: "plan_format16 sample_document16 = Ok p"
    using sample_document16_extent(1) by (auto simp: format16_serialized_len_def result_simps)
  have full: "\<forall>x \<in> set (doc16_elements sample_document16). element_full x"
    using sample_document16_extent(3) by (simp add: list_all_iff)
  obtain c where c: "parse_primary (file_image16 sample_document16 p) = Ok c"
    "map (\<lambda>e. Some (name e)) (elements c) =
      map (\<lambda>x. header_name (header16 x)) (doc16_elements sample_document16)"
    using primary_image_document [OF p full] by blast
  have pa: "parse_at (file_image16 sample_document16 p) 0 = Ok c" using c(1) by (simp add: parse_primary_def)
  have "length (elements c) = 2"
    using arg_cong [OF c(2), of length] by (simp add: sample_document16_def)
  then have "2 \<le> length (container_pages c)"
    using container_pages_length [OF parse_at_sound [OF pa]] by simp
  with pa write_primary_to_vec [OF p full] show ?thesis by blast
qed

section \<open>Pages\<close>

text \<open>C9: in a container that the Format15 reader returns, no two pages (of the address
  table, of headers, of payloads, of one element or of two) share a byte, no page reaches into the
  16-byte file header, and every page ends inside the file.\<close>

theorem parse15_pages_disjoint:
  assumes "parse15 bs = Ok c" and "i < length (container_pages c)" and "j < length (container_pages c)"
    and "i \<noteq> j"
  shows "{fst (page_extent 31 unat (container_pages c ! i))..<snd (page_extent 31 unat (container_pages c ! i))} \<inter>
    {fst (page_extent 31 unat (container_pages c ! j))..<snd (page_extent 31 unat (container_pages c ! j))} = {} \<and>
    16 \<le> fst (page_extent 31 unat (container_pages c ! i)) \<and>
    snd (page_extent 31 unat (container_pages c ! i)) \<le> length bs"
proof -
  from parse15_extents [OF assms(1)] obtain r2 r3 free raws where
    "parse_elements15 r2 0 raws = Ok (r3, elements c)" "reader_ok r2" "input r2 = bs"
    "claim_extents r2 = (0, 16) # free @ map (page_extent 31 unat) (toc_pages c)" by blast
  from elements15.pages_apart [OF this(1,2,4) container_pages_def assms(2-4)] this(3)
  show ?thesis by (auto simp: extents_apart_def page_extent_def)
qed

lemma parse15_pages_disjoint_witness:
  "\<exists>bs c. write_format15_to_vec sample_document15 = Ok bs \<and> parse15 bs = Ok c \<and>
    {fst (page_extent 31 unat (container_pages c ! 0))..<snd (page_extent 31 unat (container_pages c ! 0))} \<inter>
    {fst (page_extent 31 unat (container_pages c ! 1))..<snd (page_extent 31 unat (container_pages c ! 1))} = {}"
proof -
  obtain bs c where c: "write_format15_to_vec sample_document15 = Ok bs" "parse15 bs = Ok c"
    "2 \<le> length (container_pages c)" using sample15_parses by blast
  have "0 < length (container_pages c)" "1 < length (container_pages c)" "(0 :: nat) \<noteq> 1"
    using c(3) by linarith+
  from parse15_pages_disjoint [OF c(2) this] c(1,2) show ?thesis by blast
qed

text \<open>C10: in a container that the Format16 readers (\<open>parse\<close> and \<open>parse_primary\<close>) return, no two
  pages share a byte of the primary part, no page reaches into its 20-byte file header, and every
  page ends inside the file.\<close>

theorem parse16_pages_disjoint:
  assumes "parse_at bs off = Ok c" and "i < length (container_pages c)" and "j < length (container_pages c)"
    and "i \<noteq> j"
  shows "{fst (page_extent 55 unat (container_pages c ! i))..<snd (page_extent 55 unat (container_pages c ! i))} \<inter>
    {fst (page_extent 55 unat (container_pages c ! j))..<snd (page_extent 55 unat (container_pages c ! j))} = {} \<and>
    20 \<le> fst (page_extent 55 unat (container_pages c ! i)) \<and>
    off + snd (page_extent 55 unat (container_pages c ! i)) \<le> length bs"
proof -
  obtain rawp pre where p: "parse_primary_at (drop off bs) off rawp pre = Ok c" and off: "off \<le> length bs"
    using assms(1) by (auto simp: parse_at_def result_simps split: if_splits)
  from parse_primary_at_extents [OF p] obtain r2 r3 free raws where
    "parse_elements16 r2 0 raws = Ok (r3, elements c)" "reader_ok r2" "input r2 = drop off bs"
    "claim_extents r2 = (0, 20) # free @ map (page_extent 55 unat) (toc_pages c)" by blast
  from elements16.pages_apart [OF this(1,2,4) container_pages_def assms(2-4)] this(3) off
  show ?thesis by (auto simp: extents_apart_def page_extent_def)
qed

lemma parse16_pages_disjoint_witness:
  "\<exists>bs d' report c. write_format16_primary vec_write [] sample_document16 = Ok (bs, d', report) \<and>
    parse_at bs 0 = Ok c \<and>
    {fst (page_extent 55 unat (container_pages c ! 0))..<snd (page_extent 55 unat (container_pages c ! 0))} \<inter>
    {fst (page_extent 55 unat (container_pages c ! 1))..<snd (page_extent 55 unat (container_pages c ! 1))} = {}"
proof -
  obtain bs d' report c where c: "write_format16_primary vec_write [] sample_document16 = Ok (bs, d', report)"
    "parse_at bs 0 = Ok c" "2 \<le> length (container_pages c)" using sample16_parses by blast
  have "0 < length (container_pages c)" "1 < length (container_pages c)" "(0 :: nat) \<noteq> 1"
    using c(3) by linarith+
  from parse16_pages_disjoint [OF c(2) this] c(1,2) show ?thesis by blast
qed

section \<open>Elements\<close>

text \<open>every element of a parsed container is what its pages say: its name is the UTF-16
  text of its raw header up to the first zero unit, its header chain starts at the address in its
  table entry, and it has data exactly when its entry has a data address.\<close>

theorem parsed_elements_sound:
  "(parse15 bs = Ok c \<longrightarrow> list_all element_sound (elements c)) \<and>
   (parse_at bs' off = Ok c' \<longrightarrow> list_all element_sound (elements c'))"
  using parse15_sound parse_at_sound by blast

lemma parsed_elements_sound_witness:
  "\<exists>bs c bs' d' report c'. write_format15_to_vec sample_document15 = Ok bs \<and> parse15 bs = Ok c \<and>
    list_all element_sound (elements c) \<and>
    write_format16_primary vec_write [] sample_document16 = Ok (bs', d', report) \<and>
    parse_at bs' 0 = Ok c' \<and> list_all element_sound (elements c')"
proof -
  obtain bs c where c: "write_format15_to_vec sample_document15 = Ok bs" "parse15 bs = Ok c"
    using sample15_parses by blast
  obtain bs' d' report c' where c':
    "write_format16_primary vec_write [] sample_document16 = Ok (bs', d', report)"
    "parse_at bs' 0 = Ok c'" using sample16_parses by blast
  from parsed_elements_sound [of bs c bs' 0 c'] c c' show ?thesis by blast
qed

end
