(* ===== verification/V8_Detect_Laws.thy ===== *)
theory V8_Detect_Laws
  imports V8_Detect
begin

text \<open>
  Detection and the structural readers agree: what the Format15 reader accepts is never refused
  by detection, and files assembled by the writers are detected and parsed as what they are.
\<close>

section \<open>Hexadecimal text determines its digits\<close>

definition hex_value :: "nat list \<Rightarrow> nat" where
  "hex_value ds = foldl (\<lambda>v d. v * 16 + d) 0 ds"

lemma hex_value_snoc [simp]: "hex_value (ds @ [d]) = hex_value ds * 16 + d"
  by (simp add: hex_value_def)

lemma hex_value_bound: "\<forall>d \<in> set ds. d < 16 \<Longrightarrow> hex_value ds < 16 ^ length ds"
proof (induction ds rule: rev_induct)
  case Nil
  then show ?case by (simp add: hex_value_def)
next
  case (snoc d ds)
  have "hex_value ds + 1 \<le> 16 ^ length ds" using snoc by simp
  then have "(hex_value ds + 1) * 16 \<le> 16 ^ length ds * 16" by (rule mult_right_mono) simp
  then show ?case using snoc.prems by simp
qed

lemma hex_value_inject:
  assumes "hex_value ds = hex_value es" "length ds = length es"
    and "\<forall>d \<in> set ds. d < 16" "\<forall>d \<in> set es. d < 16"
  shows "ds = es"
  using assms
proof (induction ds arbitrary: es rule: rev_induct)
  case Nil
  then show ?case by simp
next
  case (snoc d ds)
  then obtain e es' where es: "es = es' @ [e]" by (cases es rule: rev_cases) auto
  have b: "d < 16" "e < 16" using snoc.prems by (simp_all add: es)
  have "hex_value ds * 16 + d = hex_value es' * 16 + e" using snoc.prems(1) by (simp add: es)
  then have "(hex_value ds * 16 + d) div 16 = (hex_value es' * 16 + e) div 16"
    "(hex_value ds * 16 + d) mod 16 = (hex_value es' * 16 + e) mod 16" by simp_all
  then have "hex_value ds = hex_value es'" "d = e" using b by simp_all
  with snoc.IH [of es'] snoc.prems show ?case by (simp add: es)
qed

text \<open>A statement about one byte follows from its 256 instances.\<close>

lemma all_bytes: "list_all P (map word_of_nat [0..<256]) \<Longrightarrow> P (b :: u8)"
proof -
  assume *: "list_all P (map word_of_nat [0..<256])"
  have "unat b < 2 ^ LENGTH(8)" by (rule unsigned_less)
  then have "unat b \<in> set [0..<256]" by simp
  then have "(word_of_nat (unat b) :: u8) \<in> set (map word_of_nat [0..<256])"
    by (simp only: set_map image_eqI)
  moreover have "(word_of_nat (unat b) :: u8) = b" by simp
  ultimately show "P b" using * by (metis list_all_iff)
qed

lemma hex_digit_facts:
  "(case hex_digit_value b of None \<Rightarrow> True | Some d \<Rightarrow>
      d < 16 \<and> (d = 7 \<longrightarrow> ascii_lower b = 55) \<and> (d = 15 \<longrightarrow> ascii_lower b = 102))"
  by (rule all_bytes) code_simp

lemma parse_hex_u32_digits:
  "parse_hex_u32 bs a off v = Ok x \<Longrightarrow>
     \<exists>ds. map hex_digit_value bs = map Some ds \<and>
       x = foldl (\<lambda>v d. push_bit 4 v OR word_of_nat d) v ds"
proof (induction bs arbitrary: v)
  case Nil
  then show ?case by simp
next
  case (Cons b bs)
  then obtain d where d: "hex_digit_value b = Some d"
    and r: "parse_hex_u32 bs a off (push_bit 4 v OR word_of_nat d) = Ok x"
    by (auto split: option.splits)
  from Cons.IH [OF r] obtain ds where "map hex_digit_value bs = map Some ds"
    "x = foldl (\<lambda>v d. push_bit 4 v OR word_of_nat d) (push_bit 4 v OR word_of_nat d) ds" by blast
  with d show ?case by (intro exI [of _ "d # ds"]) simp
qed

lemma foldl_hex_word:
  assumes "\<forall>d \<in> set ds. d < 16"
  shows "foldl (\<lambda>v d. push_bit 4 v OR word_of_nat d) (0 :: u32) ds = word_of_nat (hex_value ds)"
  using assms
proof (induction ds rule: rev_induct)
  case Nil
  then show ?case by (simp add: hex_value_def)
next
  case (snoc d ds)
  then show ?case by (simp add: push_bit_OR_digit)
qed

lemma parse_hex_u32_inject:
  assumes "parse_hex_u32 bs a off 0 = Ok (word_of_nat (hex_value es))" "length bs = length es"
    "length es \<le> 8" "\<forall>e \<in> set es. e < 16"
  shows "map hex_digit_value bs = map Some es"
proof -
  obtain ds where ds: "map hex_digit_value bs = map Some ds"
    "word_of_nat (hex_value es) = foldl (\<lambda>v d. push_bit 4 v OR word_of_nat d) (0 :: u32) ds"
    using parse_hex_u32_digits [OF assms(1)] by blast
  have b: "\<forall>d \<in> set ds. d < 16"
  proof
    fix d assume "d \<in> set ds"
    then have "Some d \<in> set (map hex_digit_value bs)" by (simp add: ds(1))
    then obtain c where "hex_digit_value c = Some d" by auto
    then show "d < 16" using hex_digit_facts [of c] by simp
  qed
  have len: "length ds = length es" using arg_cong [OF ds(1), of length] assms(2) by simp
  have small: "hex_value ds \<le> u32_max" "hex_value es \<le> u32_max"
  proof -
    have "(16 :: nat) ^ length es \<le> 16 ^ 8" using assms(3) by (intro power_increasing) simp_all
    then show "hex_value ds \<le> u32_max" "hex_value es \<le> u32_max"
      using hex_value_bound [OF b] hex_value_bound [OF assms(4)] len by simp_all
  qed
  have "(word_of_nat (hex_value es) :: u32) = word_of_nat (hex_value ds)"
    using ds(2) foldl_hex_word [OF b] by simp
  then have "unat (word_of_nat (hex_value es) :: u32) = unat (word_of_nat (hex_value ds) :: u32)" by simp
  then have "hex_value es = hex_value ds" using small by (simp only: unat_of_nat_u32)
  then have "es = ds" using hex_value_inject [OF _ _ assms(4) b] len by simp
  with ds(1) show ?thesis by simp
qed

lemma lower_of_hex:
  "map hex_digit_value bs = map Some es \<Longrightarrow> list_all (\<lambda>e. e = 7 \<or> e = 15) es \<Longrightarrow>
     map ascii_lower bs = map (\<lambda>e. if e = 7 then 55 else 102) es"
proof (induction bs arbitrary: es)
  case Nil
  then show ?case by simp
next
  case (Cons b bs)
  then obtain e es' where es: "es = e # es'" "hex_digit_value b = Some e" by (cases es) auto
  with Cons.prems(2) hex_digit_facts [of b] have "ascii_lower b = (if e = 7 then 55 else 102)" by auto
  with Cons.IH [of es'] Cons.prems es show ?case by simp
qed

lemma free_mark_of_hex:
  assumes "parse_hex_u32 bs a off 0 = Ok FORMAT15_SENTINEL" "length bs = 8"
  shows "eq_ignore_ascii_case bs free_mark15"
proof -
  let ?es = "[7, 15, 15, 15, 15, 15, 15, 15] :: nat list"
  have "hex_value ?es = 0x7fffffff" by (simp add: hex_value_def)
  then have "parse_hex_u32 bs a off 0 = Ok (word_of_nat (hex_value ?es))"
    using assms(1) by (simp only: of_nat_numeral)
  then have "map hex_digit_value bs = map Some ?es"
    using assms(2) by (intro parse_hex_u32_inject) simp_all
  then have "map ascii_lower bs = map (\<lambda>e. if e = 7 then 55 else 102) ?es"
    by (rule lower_of_hex) simp
  then show ?thesis by (simp add: eq_ignore_ascii_case_def free_mark15_def ascii_lower_def)
qed

section \<open>What the reader accepts\<close>

lemma read_header_text_marks:
  assumes "read_header bs addr = Ok h"
  shows "unat addr + 31 \<le> length bs"
    and "slice (unat addr) (unat addr + 31) bs = raw h"
    and "slice 0 2 (raw h) = [CR, LF]" "raw h ! 10 = SP" "raw h ! 28 = SP" "slice 29 31 (raw h) = [CR, LF]"
    and "parse_hex_u32 (slice 2 10 (raw h)) addr 2 0 = Ok (data_size h)"
  using assms by (auto simp: read_header_def Let_def result_simps split: if_splits)

lemma has_free_page_header_read:
  assumes "read_header bs head = Ok h" "data_size h = FORMAT15_SENTINEL" "16 \<le> unat head"
    and "read_header bs 16 = Ok h16"
  shows "has_free_page_header bs head"
proof -
  note m = read_header_text_marks [OF assms(1)]
  note m16 = read_header_text_marks [OF assms(4)]
  have len: "length (raw h) = 31" using m(1) by (simp flip: m(2))
  have toc: "get_range bs 16 18 = Some [CR, LF]"
  proof -
    have "slice 16 18 bs = slice 0 2 (slice 16 (16 + 31) bs)" by (subst slice_slice) simp_all
    then show ?thesis using m16(1-3) by (simp add: get_range_def)
  qed
  have "starts_with (raw h) [CR, LF]" using m(3) by (simp add: starts_with_def slice_def numeral_2_eq_2)
  moreover have "eq_ignore_ascii_case (slice 2 10 (raw h)) free_mark15"
    using m(7) assms(2) len by (intro free_mark_of_hex) simp_all
  moreover have "ends_with (raw h) [SP, CR, LF]"
  proof -
    have "drop 28 (raw h) = raw h ! 28 # drop 29 (raw h)"
      using Cons_nth_drop_Suc [of 28 "raw h"] len by simp
    moreover have "drop 29 (raw h) = [CR, LF]"
      using m(6) len by (simp add: slice_def)
    ultimately show ?thesis using len m(5) by (simp add: ends_with_def)
  qed
  moreover have "get_range bs (unat head) (unat head + 31) = Some (raw h)"
    using m(1,2) by (simp add: get_range_def)
  moreover have "checked_add64 (unat head) 31 = Some (unat head + 31)"
    using unat_u32_le [of head] by (simp add: checked_add64_def)
  ultimately show ?thesis
    using assms(3) toc m(4) by (simp add: has_free_page_header_def Let_def)
qed

lemma read_chain_header:
  assumes "read_chain r start = Ok (r', c)"
  shows "\<exists>h. read_header (input r) start = Ok h"
proof -
  have "chain15_at r start c" using assms by (simp add: read_chain_def loop15.loop_iff)
  then have "page_readable 31 unat read_header (input r) (hd (pages c))" "page_address (hd (pages c)) = start"
    by (auto simp: chain_at_def)
  then show ?thesis by (auto simp: page_readable_def)
qed

lemma parse15_parts:
  assumes "parse15 bs = Ok c"
  shows "\<exists>fh r0 r1 r2 tc. 47 \<le> length bs \<and> read_file_header15 bs = Ok fh \<and>
    reserve (block_reader_new bs) 0 16 = Ok r0 \<and> reserve_free_pages r0 (file_next_page fh) = Ok r1 \<and>
    read_chain r1 16 = Ok (r2, tc)"
  using assms by (auto simp: parse15_def Let_def result_simps split: if_splits)

text \<open>C15: detection never refuses what the structural reader of the 32-bit format
  accepts, with or without a free list: if \<open>format15::parse\<close> succeeds on the bytes, \<open>detect\<close> returns a
  revision for them.\<close>

theorem detect_accepts_format15:
  assumes "parse15 bs = Ok c"
  shows "\<exists>d. detect bs = Ok d"
proof -
  obtain fh r0 r1 r2 tc where len: "47 \<le> length bs" and fh: "read_file_header15 bs = Ok fh"
    and r0: "reserve (block_reader_new bs) 0 16 = Ok r0"
    and r1: "reserve_free_pages r0 (file_next_page fh) = Ok r1"
    and tc: "read_chain r1 16 = Ok (r2, tc)"
    using parse15_parts [OF assms] by blast
  let ?first = "file_next_page fh"
  have first: "?first = from_le_bytes (take 4 bs)"
    using fh len by (auto simp: read_file_header15_def checked_slice15_def result_simps slice_def)
  have c0: "claimed r0 = [\<lparr>range_start = 0, range_end = 16, owner = 0\<rparr>]" "input r0 = bs"
    using r0 by (auto simp: reserve_Ok block_reader_new_def)
  have ok0: "reader_ok r0"
    using reserve_ok [OF r0] by (auto simp: block_reader_new_def reader_ok_def)
  have "?first = FORMAT15_SENTINEL \<or> has_free_page_header bs ?first"
  proof (cases "?first = FORMAT15_SENTINEL")
    case False
    obtain h len' r' where h: "read_header bs ?first = Ok h" "data_size h = FORMAT15_SENTINEL"
      and l: "len' = 31 + unat (page_size h)" "len' \<le> u32_max"
      and rs: "reserve r0 ?first (word_of_nat len') = Ok r'"
      using r1 False c0(2) unfolding reserve_free_pages_def
      by (subst (asm) reserve_free_pages_loop.simps)
        (auto simp: result_simps simp del: of_nat_add split: if_splits)
    have "16 \<le> unat ?first"
      using rs l unat_of_nat_u32 [OF l(2)] by (auto simp: reserve_Ok c0 clear_of_def)
    moreover have "input r1 = bs"
      using r1 c0(2) reserve_free_pages_loop_ok [OF _ ok0, of ?first ?first "{}" r1]
      by (simp add: reserve_free_pages_def)
    ultimately show ?thesis
      using has_free_page_header_read [OF h] read_chain_header [OF tc] by auto
  qed simp
  then show ?thesis
    using len by (auto simp: detect_def Let_def simp flip: first)
qed

lemma detect_accepts_format15_witness:
  "\<exists>bs d. write_format15_to_vec sample_document15 = Ok bs \<and> detect bs = Ok d"
proof -
  obtain p where p: "plan_format15 sample_document15 = Ok p" "planned15 sample_document15 p"
    "valid_document15 sample_document15" using sample_document15_parses by blast
  obtain c where c: "parse15 (file_image15 sample_document15 p) = Ok c"
    using parse15_image [OF p(2,3)] by blast
  from detect_accepts_format15 [OF c] write_to_vec_image [OF p(1)] show ?thesis by blast
qed

section \<open>Files of the writers\<close>

lemma take_file_image15: "take 4 (file_image15 d p @ bs) = to_le_bytes 4 FORMAT15_SENTINEL"
  by (simp add: file_image15_def file_header_bytes15_def)

lemma take_file_image16: "take 8 (file_image16 d p @ bs) = to_le_bytes 8 FORMAT16_SENTINEL"
  by (simp add: file_image16_def file_header_bytes16_def)

text \<open>a Format15 file of the writer that is shorter than 0x1361 bytes is detected as
  Format15, and the unified \<open>parse\<close> gives its container.\<close>

theorem written_format15_is_detected:
  assumes "format15_serialized_len d = Ok n" and "n < 0x1361"
  shows "\<exists>bs c. write_format15_to_vec d = Ok bs \<and>
    detect bs = Ok \<lparr>detected_revision = Format15, detected_base_offset = 0\<rparr> \<and>
    parse bs = Ok (Container15 c) \<and>
    document15_from_container c = d\<lparr>doc15_tail_padding := 0\<rparr>"
proof -
  obtain p where p: "plan_format15 d = Ok p" "n = plan_bytes_written p"
    using assms(1) by (auto simp: format15_serialized_len_def result_simps)
  have pl: "planned15 d p" "valid_document15 d" using plan_format15_planned [OF p(1)] by auto
  obtain c where c: "parse15 (file_image15 d p) = Ok c"
    "document15_from_container c = d\<lparr>doc15_tail_padding := 0\<rparr>"
    using parse15_image [OF pl] by blast
  have "4 \<le> length (file_image15 d p)"
    by (simp add: file_image15_def file_header_bytes15_def)
  moreover have "length (file_image15 d p) < 0x1361"
    using length_file_image15 [OF pl(1)] p(2) assms(2) by simp
  ultimately have "detect (file_image15 d p) = Ok \<lparr>detected_revision = Format15, detected_base_offset = 0\<rparr>"
    using take_file_image15 [of d p "[]"] by (simp add: detect_def Let_def)
  with c write_to_vec_image [OF p(1)] show ?thesis by (simp add: parse_def)
qed

lemma written_format15_is_detected_witness:
  "\<exists>bs c. write_format15_to_vec sample_document15 = Ok bs \<and> parse bs = Ok (Container15 c)"
  using written_format15_is_detected [OF sample_document15_extent(1)] sample_document15_extent(2)
  by auto

lemma parse_primary_at_offset:
  "parse_primary_at bs 0 [] None = Ok c \<Longrightarrow>
     parse_primary_at bs off rawp pre =
       Ok (c\<lparr>base_offset := off, raw_preamble := rawp, preamble := pre\<rparr>)"
  by (auto simp: parse_primary_at_def Let_def result_simps split: if_splits)

text \<open>C6: a Format15 document whose file is exactly 0x1359 bytes long, followed by a primary
  Format16 container, is a complete Format16 artifact: \<open>detect\<close> reports Format16 at that offset, and
  the unified \<open>parse\<close> returns the second document, with the first one as its preamble.\<close>

theorem composite_file_round_trip:
  assumes "format15_serialized_len d15 = Ok 0x1359"
    and "format16_serialized_len d16 = Ok n" and "list_all element_full (doc16_elements d16)"
  shows "\<exists>bs15 bs16 d' report c c15.
    write_format15_to_vec d15 = Ok bs15 \<and>
    write_format16_primary vec_write [] d16 = Ok (bs16, d', report) \<and>
    detect (bs15 @ bs16) = Ok \<lparr>detected_revision = Format16, detected_base_offset = 0x1359\<rparr> \<and>
    parse (bs15 @ bs16) = Ok (Container16 c) \<and> base_offset c = 0x1359 \<and> raw_preamble c = bs15 \<and>
    preamble c = Some c15 \<and> document15_from_container c15 = d15\<lparr>doc15_tail_padding := 0\<rparr> \<and>
    document16_from_container c = materialized d16"
proof -
  obtain p where p: "plan_format15 d15 = Ok p" "plan_bytes_written p = 0x1359"
    using assms(1) by (auto simp: format15_serialized_len_def result_simps)
  have pl: "planned15 d15 p" "valid_document15 d15" using plan_format15_planned [OF p(1)] by auto
  define a where "a = file_image15 d15 p"
  have la: "length a = 0x1359" using length_file_image15 [OF pl(1)] p(2) by (simp add: a_def)
  obtain c15 where c15: "parse15 a = Ok c15"
    "document15_from_container c15 = d15\<lparr>doc15_tail_padding := 0\<rparr>"
    using parse15_image [OF pl] by (auto simp: a_def)
  obtain q where q: "plan_format16 d16 = Ok q"
    using assms(2) by (auto simp: format16_serialized_len_def result_simps)
  have full: "\<forall>x \<in> set (doc16_elements d16). element_full x" using assms(3) by (simp add: list_all_iff)
  define b where "b = file_image16 d16 q"
  obtain c where c: "parse_primary b = Ok c" "document16_from_container c = materialized d16"
    using primary_image_document [OF q full] by (auto simp: b_def)
  define c' where "c' = c\<lparr>base_offset := 0x1359, raw_preamble := a, preamble := Some c15\<rparr>"
  have "parse_primary_at b 0 [] None = Ok c"
    using c(1) by (simp add: parse_primary_def parse_at_def split_preamble_def)
  then have p16: "parse16 (a @ b) = Ok c'"
    using la c15(1) parse_primary_at_offset
    by (simp add: parse16_def parse_at_def split_preamble_def parse_preamble_def c'_def)
  have lb: "8 \<le> length b" by (simp add: b_def file_image16_def file_header_bytes16_def)
  have "slice 0x1359 0x1361 (a @ b) = take 8 b" using la by (simp add: slice_def)
  also have "\<dots> = to_le_bytes 8 FORMAT16_SENTINEL" using take_file_image16 [of d16 q "[]"] by (simp add: b_def)
  finally have sl: "slice 0x1359 0x1361 (a @ b) = to_le_bytes 8 FORMAT16_SENTINEL" .
  have d: "detect (a @ b) = Ok \<lparr>detected_revision = Format16, detected_base_offset = 0x1359\<rparr>"
    using la lb sl take_file_image15 [of d15 p b]
    by (simp add: detect_def Let_def a_def [symmetric] del: take_append)
  have "document16_from_container c' = materialized d16"
    using c(2) by (simp add: c'_def document16_from_container_def)
  moreover obtain d' report where "write_format16_primary vec_write [] d16 = Ok (b, d', report)"
    using write_primary_to_vec [OF q full] by (auto simp: b_def)
  moreover have "parse (a @ b) = Ok (Container16 c')" using d p16 by (simp add: parse_def)
  ultimately show ?thesis
    using d c15 write_to_vec_image [OF p(1)]
    by (intro exI [of _ a] exI [of _ b] exI [of _ d'] exI [of _ report] exI [of _ c'] exI [of _ c15])
      (simp add: a_def c'_def)
qed

text \<open>The preamble of the witness: one element, padded to 0x1359 bytes.\<close>

definition sample_preamble15 :: format15_document where
  "sample_preamble15 =
     with_tail_padding (document15_new 1 [element15_named [97] None]) 4837"

lemma sample_preamble15_len: "format15_serialized_len sample_preamble15 = Ok 0x1359"
proof -
  have "header_name (make_element_header [97]) = Some [97]"
    by (rule header_name_make) (simp add: plain_name_def is_scalar_def)
  then have "valid_document15 sample_preamble15"
    by (simp add: valid_document15_def sample_preamble15_def element15_named_def document15_new_def
        with_tail_padding_def)
  moreover have "format15_extent sample_preamble15 = 0x1359"
    by (simp add: format15_extent_def sample_preamble15_def element15_named_def chain_extent15_def
        pages_extent15_def page_count_def div_ceil_def element_extent15_def make_element_header_def
        length_utf16_bytes encode_utf16_def encode_utf16_char_def document15_new_def
        with_tail_padding_def)
  ultimately show ?thesis by (simp add: serialized_len15_iff)
qed

lemma composite_file_round_trip_witness:
  "\<exists>bs15 bs16 d' report c c15.
    write_format15_to_vec sample_preamble15 = Ok bs15 \<and>
    write_format16_primary vec_write [] sample_document16 = Ok (bs16, d', report) \<and>
    parse (bs15 @ bs16) = Ok (Container16 c) \<and> preamble c = Some c15 \<and>
    document16_from_container c = materialized sample_document16"
  using composite_file_round_trip [OF sample_preamble15_len sample_document16_extent(1,3)] by blast

end
