(* ===== verification/V8_Block_Laws.thy ===== *)
theory V8_Block_Laws
  imports V8_Image
begin

text \<open>
  What the chained-page readers of \<open>crates/ibcmd-v8/src/block.rs\<close> guarantee: exactly the chains
  of \<open>chain_at\<close> are accepted, the collected data has the declared size, and over any sequence of
  reads and reservations no byte of the input is handed out twice.
\<close>

section \<open>Samples\<close>

text \<open>Two linked pages of two bytes each that carry 3 bytes, in both layouts.\<close>

abbreviation sample_segments :: "segment list" where
  "sample_segments \<equiv> [(2, [97, 98]), (2, [99])]"

definition sample_chain15 :: bytes where
  "sample_chain15 = chain_image 8 0x7fffffff 0 3 sample_segments"

definition sample_chain16 :: bytes where
  "sample_chain16 = chain_image 16 0xffffffffffffffff 0 3 sample_segments"

lemma read_sample15:
  "\<exists>r c. read_chain (block_reader_new sample_chain15) 0 = Ok (r, c) \<and> data c = [97, 98, 99]"
proof -
  have len: "length sample_chain15 = 66"
    by (simp add: sample_chain15_def length_header_text)
  have "format15.fits 0 sample_segments" by (simp add: format15.fits_def)
  then have "\<exists>r' c. read_chain_loop (block_reader_new sample_chain15) (word_of_nat 0)
      (initial_chain_state (word_of_nat 0)) = Ok (r', c) \<and> data c = segments_payload sample_segments \<and>
      input r' = input (block_reader_new sample_chain15) \<and> pages c \<noteq> [] \<and>
      (\<forall>c\<in>set (claimed r'). range_start c < range_end c \<and>
        range_end c \<le> 0 + segments_extent 8 sample_segments)"
    using len by (intro format15.read_image [where pre = "[]" and post = "[]"])
      (simp_all add: block_reader_new_def sample_chain15_def numeral_3_eq_3 [symmetric])
  then show ?thesis by (auto simp: read_chain_def)
qed

lemma read_sample16:
  "\<exists>r c. read_chain64 (block_reader_new sample_chain16) 0 = Ok (r, c) \<and> data c = [97, 98, 99]"
proof -
  have len: "length sample_chain16 = 114"
    by (simp add: sample_chain16_def length_header_text)
  have "format16.fits 0 sample_segments" by (simp add: format16.fits_def)
  then have "\<exists>r' c. read_chain_loop64 (block_reader_new sample_chain16) (word_of_nat 0)
      (initial_chain_state (word_of_nat 0)) = Ok (r', c) \<and> data c = segments_payload sample_segments \<and>
      input r' = input (block_reader_new sample_chain16) \<and> pages c \<noteq> [] \<and>
      (\<forall>c\<in>set (claimed r'). range_start c < range_end c \<and>
        range_end c \<le> 0 + segments_extent 16 sample_segments)"
    using len by (intro format16.read_image [where pre = "[]" and post = "[]"])
      (simp_all add: block_reader_new_def sample_chain16_def numeral_3_eq_3 [symmetric])
  then show ?thesis by (auto simp: read_chain64_def)
qed

section \<open>Exactness\<close>

text \<open>C7: \<open>BlockReader::read_chain\<close> of Format15 accepts a start address exactly when a
  chain stands there: linked pages with well-formed headers inside the input, none of them claimed
  before or twice, that carry the size the first header declares and end with the sentinel.  It
  returns that chain with the concatenated page payloads, and claims exactly its pages.\<close>

theorem read_chain_exact:
  "read_chain r start = Ok (r', c) \<longleftrightarrow>
     pages c \<noteq> [] \<and> page_address (hd (pages c)) = start \<and>
     chain_size c = data_size (page_header (hd (pages c))) \<and>
     list_all (page_readable 31 unat read_header (input r)) (pages c) \<and>
     page_run unat FORMAT15_SENTINEL (unat (chain_size c)) 0 (pages c) \<and>
     clear_run (claimed r) (map (range_of 31 unat (unat start)) (pages c)) \<and>
     data c = concat (map (payload_of 31 unat (input r)) (pages c)) \<and>
     r' = r\<lparr>claimed := claimed r @ map (range_of 31 unat (unat start)) (pages c)\<rparr>"
  by (simp add: read_chain_def loop15.loop_iff chain_at_def list_all_iff)

text \<open>C8: \<open>BlockReader64::read_chain\<close> of Format16, with 55-byte headers and 64-bit
  addresses whose page extents must not overflow, accepts exactly the chains of its layout.\<close>

theorem read_chain64_exact:
  "read_chain64 r start = Ok (r', c) \<longleftrightarrow>
     pages c \<noteq> [] \<and> page_address (hd (pages c)) = start \<and>
     chain_size c = data_size (page_header (hd (pages c))) \<and>
     list_all (page_readable 55 unat read_header64 (input r)) (pages c) \<and>
     page_run unat FORMAT16_SENTINEL (unat (chain_size c)) 0 (pages c) \<and>
     clear_run (claimed r) (map (range_of 55 unat (unat start)) (pages c)) \<and>
     data c = concat (map (payload_of 55 unat (input r)) (pages c)) \<and>
     r' = r\<lparr>claimed := claimed r @ map (range_of 55 unat (unat start)) (pages c)\<rparr>"
  by (simp add: read_chain64_def loop16.loop_iff chain_at_def list_all_iff)

section \<open>Exclusive pages\<close>

text \<open>C11: over any sequence of accepted reservations, free-page walks and chain reads, on
  a reader of either width, the claimed ranges stay inside the input and no two of them share a
  byte.\<close>

theorem claims_never_overlap:
  assumes "reader_run bs r \<or> reader_run64 bs r"
    and "i < length (claimed r)" and "j < length (claimed r)" and "i \<noteq> j"
  shows "range_end (claimed r ! i) \<le> length bs \<and>
    {range_start (claimed r ! i)..<range_end (claimed r ! i)} \<inter>
    {range_start (claimed r ! j)..<range_end (claimed r ! j)} = {}"
proof -
  have "reader_ok r \<and> input r = bs" using assms(1) reader_run_ok reader_run64_ok by blast
  then have ok: "claims_ok (length bs) (claimed r)" by (auto simp: reader_ok_def)
  then have "range_end (claimed r ! i) \<le> length bs"
    using assms(2) nth_mem by (fastforce simp: claims_ok_def)
  with claims_ok_exclusive [OF ok assms(2-4)] show ?thesis by simp
qed

lemma claims_never_overlap_witness:
  "\<exists>r. reader_run [1, 2, 3, 4] r \<and> length (claimed r) = 2 \<and>
     range_end (claimed r ! 0) \<le> 4 \<and>
     {range_start (claimed r ! 0)..<range_end (claimed r ! 0)} \<inter>
     {range_start (claimed r ! 1)..<range_end (claimed r ! 1)} = {}"
proof -
  let ?r = "\<lparr>input = [1, 2, 3, 4], claimed = [\<lparr>range_start = 0, range_end = 2, owner = 0\<rparr>,
     \<lparr>range_start = 2, range_end = 4, owner = 2\<rparr>]\<rparr>"
  let ?r1 = "\<lparr>input = [1, 2, 3, 4 :: u8], claimed = [\<lparr>range_start = 0, range_end = 2, owner = 0\<rparr>]\<rparr>"
  have r1: "reserve (block_reader_new [1, 2, 3, 4]) 0 2 = Ok ?r1"
    by (simp add: reserve_def block_reader_new_def Let_def)
  have r2: "reserve ?r1 2 2 = Ok ?r"
    by (simp add: reserve_def Let_def)
  have run: "reader_run [1, 2, 3, 4] ?r"
    by (rule reader_run.reserved [OF reader_run.reserved [OF reader_run.new r1] r2])
  have "range_end (claimed ?r ! 0) \<le> length [1, 2, 3, 4 :: u8] \<and>
     {range_start (claimed ?r ! 0)..<range_end (claimed ?r ! 0)} \<inter>
     {range_start (claimed ?r ! 1)..<range_end (claimed ?r ! 1)} = {}"
    using run by (intro claims_never_overlap) simp_all
  with run show ?thesis
    by (intro exI [of _ ?r]) simp
qed

text \<open>the data that \<open>read_chain\<close> returns has exactly the length its first header
  declares, in both layouts, however many pages it was collected from.\<close>

theorem chain_data_has_declared_size:
  "(read_chain r a = Ok (r', c) \<longrightarrow> length (data c) = unat (chain_size c)) \<and>
   (read_chain64 q b = Ok (q', c') \<longrightarrow> length (data c') = unat (chain_size c'))"
  by (auto simp: read_chain_def read_chain64_def loop15.loop_iff loop16.loop_iff
      intro: chain_data_length)

lemma chain_data_has_declared_size_witness:
  "\<exists>r1 c r2 c'.
     read_chain (block_reader_new sample_chain15) 0 = Ok (r1, c) \<and> unat (chain_size c) = 3 \<and>
     read_chain64 (block_reader_new sample_chain16) 0 = Ok (r2, c') \<and> unat (chain_size c') = 3"
proof -
  obtain r1 c where 1: "read_chain (block_reader_new sample_chain15) 0 = Ok (r1, c)"
    "data c = [97, 98, 99]" using read_sample15 by blast
  obtain r2 c' where 2: "read_chain64 (block_reader_new sample_chain16) 0 = Ok (r2, c')"
    "data c' = [97, 98, 99]" using read_sample16 by blast
  have "unat (chain_size c) = 3 \<and> unat (chain_size c') = 3"
    using 1 2 chain_data_has_declared_size [of "block_reader_new sample_chain15" 0 r1 c
      "block_reader_new sample_chain16" 0 r2 c'] by simp
  with 1(1) 2(1) show ?thesis by blast
qed

section \<open>Header text\<close>

text \<open>the header text of the writers, \<open>"\r\n{:08x} {:08x} {:08x} \r\n"\<close> and its 16-digit
  twin, is read back by \<open>read_header\<close> and \<open>read_header64\<close> as the three numbers it was made from, for
  every value of the fields.\<close>

theorem header_text_round_trip:
  "read_header (header_text 8 (unat a) (unat b) (unat c)) 0 =
     Ok \<lparr>raw = header_text 8 (unat a) (unat b) (unat c), data_size = a, page_size = b,
         next_page_address = c\<rparr> \<and>
   read_header64 (header_text 16 (unat x) (unat y) (unat z)) 0 =
     Ok \<lparr>raw = header_text 16 (unat x) (unat y) (unat z), data_size = x, page_size = y,
         next_page_address = z\<rparr>"
proof -
  note le = unat_u32_le [of a] unat_u32_le [of b] unat_u32_le [of c]
    unat_u64_le [of x] unat_u64_le [of y] unat_u64_le [of z]
  have l: "length (header_text 8 (unat a) (unat b) (unat c)) = 31"
    "length (header_text 16 (unat x) (unat y) (unat z)) = 55"
    using le by (subst length_header_text; simp)+
  show ?thesis
    using read_header_text [of 0 "header_text 8 (unat a) (unat b) (unat c)" "unat a" "unat b" "unat c"]
      read_header64_text [of 0 "header_text 16 (unat x) (unat y) (unat z)" "unat x" "unat y" "unat z"]
      l le by (simp add: slice_def)
qed

end
