(* ===== verification/Text_Braced.thy ===== *)
theory Text_Braced
  imports V8_Prelude
begin

text \<open>
  \<open>crates/ibcmd-1c-text/src/braced.rs\<close>: finding the end of a 1C braced value and splitting it
  into its top-level fields, by the plain byte walk.  A text is its UTF-8 bytes, as in the source,
  which indexes bytes because every delimiter is ASCII.
\<close>

abbreviation QUOTE :: u8 where "QUOTE \<equiv> 34"
abbreviation COMMA :: u8 where "COMMA \<equiv> 44"
abbreviation LBRACE :: u8 where "LBRACE \<equiv> 123"
abbreviation RBRACE :: u8 where "RBRACE \<equiv> 125"

definition is_ascii_whitespace :: "u8 \<Rightarrow> bool" where
  "is_ascii_whitespace b = (b \<in> {9, 10, 12, 13, 32})"

section \<open>Trimming\<close>

text \<open>\<open>str::trim\<close> on UTF-8 bytes: the encodings of the characters with the property
  \<open>White_Space\<close>.\<close>

definition whitespace_encodings :: "bytes list" where
  "whitespace_encodings =
     [[9], [10], [11], [12], [13], [32], [0xC2, 0x85], [0xC2, 0xA0], [0xE1, 0x9A, 0x80]]
       @ map (\<lambda>k. [0xE2, 0x80, k]) [0x80, 0x81, 0x82, 0x83, 0x84, 0x85, 0x86, 0x87, 0x88, 0x89, 0x8A]
       @ [[0xE2, 0x80, 0xA8], [0xE2, 0x80, 0xA9], [0xE2, 0x80, 0xAF], [0xE2, 0x81, 0x9F],
          [0xE3, 0x80, 0x80]]"

definition leading_whitespace :: "bytes list \<Rightarrow> bytes \<Rightarrow> nat" where
  "leading_whitespace encs bs =
     (case find (\<lambda>e. e \<noteq> [] \<and> take (length e) bs = e) encs of None \<Rightarrow> 0 | Some e \<Rightarrow> length e)"

function trim_front :: "bytes list \<Rightarrow> bytes \<Rightarrow> bytes" where
  "trim_front encs bs =
     (let n = leading_whitespace encs bs in
      if n = 0 \<or> bs = [] then bs else trim_front encs (drop n bs))"
  by pat_completeness auto
termination
  by (relation "measure (\<lambda>(encs, bs). length bs)") auto

declare trim_front.simps [simp del]

definition trim :: "bytes \<Rightarrow> bytes" where
  "trim bs =
     rev (trim_front (map rev whitespace_encodings) (rev (trim_front whitespace_encodings bs)))"

section \<open>Strings inside a value\<close>

text \<open>\<open>skip_1c_string_body\<close>: the next quote from \<open>from\<close> on closes the string unless another one
  follows it.\<close>

fun find_quote :: "bytes \<Rightarrow> nat option" where
  "find_quote [] = None"
| "find_quote (b # bs) = (if b = QUOTE then Some 0 else map_option Suc (find_quote bs))"

lemma find_quote_bound: "find_quote bs = Some k \<Longrightarrow> k < length bs"
  by (induction bs arbitrary: k) (auto split: if_splits)

function skip_1c_string_body :: "bytes \<Rightarrow> nat \<Rightarrow> nat option" where
  "skip_1c_string_body bs start =
     (if start > length bs then None
      else
        (case find_quote (drop start bs) of
           None \<Rightarrow> None
         | Some k \<Rightarrow>
             let quote = start + k in
             if quote + 1 < length bs \<and> bs ! (quote + 1) = QUOTE
             then skip_1c_string_body bs (quote + 2)
             else Some (quote + 1)))"
  by pat_completeness auto
termination
  by (relation "measure (\<lambda>(bs, start). length bs - start)") (auto dest!: find_quote_bound)

declare skip_1c_string_body.simps [simp del]

lemma skip_bounds: "skip_1c_string_body bs i = Some j \<Longrightarrow> i < j \<and> j \<le> length bs"
proof (induction bs i rule: skip_1c_string_body.induct)
  case (1 bs i)
  obtain k where i: "\<not> i > length bs" and k: "find_quote (drop i bs) = Some k"
    using "1.prems" by (subst (asm) skip_1c_string_body.simps) (auto split: if_splits option.splits)
  show ?case
  proof (cases "i + k + 1 < length bs \<and> bs ! (i + k + 1) = QUOTE")
    case True
    then have "skip_1c_string_body bs (i + k + 2) = Some j"
      using "1.prems" i k by (subst (asm) skip_1c_string_body.simps) simp
    from "1.IH" [OF i k refl True this] show ?thesis by simp
  next
    case False
    then have "j = i + k + 1"
      using "1.prems" i k by (subst (asm) skip_1c_string_body.simps) auto
    with find_quote_bound [OF k] show ?thesis by simp
  qed
qed

section \<open>The end of a value\<close>

text \<open>The byte loop of \<open>scan_1c_braced_value\<close> from \<open>index\<close> with \<open>depth\<close> open values.\<close>

function scan_loop :: "bytes \<Rightarrow> nat \<Rightarrow> nat \<Rightarrow> nat option" where
  "scan_loop bs index depth =
     (if index \<ge> length bs then None
      else if bs ! index = QUOTE then
        (case skip_1c_string_body bs (index + 1) of
           None \<Rightarrow> None
         | Some j \<Rightarrow> scan_loop bs j depth)
      else if bs ! index = LBRACE then scan_loop bs (index + 1) (depth + 1)
      else if bs ! index = RBRACE then
        (if depth = 0 then None
         else if depth - 1 = 0 then Some (index + 1)
         else scan_loop bs (index + 1) (depth - 1))
      else scan_loop bs (index + 1) depth)"
  by pat_completeness auto
termination
  by (relation "measure (\<lambda>(bs, index, depth). length bs - index)") (auto dest!: skip_bounds)

declare scan_loop.simps [simp del]

text \<open>\<open>scan_1c_braced_value\<close> without a registered table, relative to the start of \<open>rest\<close>.\<close>

definition scan_plain :: "bytes \<Rightarrow> nat option" where
  "scan_plain rest = (if rest = [] \<or> hd rest \<noteq> LBRACE then None else scan_loop rest 0 0)"

section \<open>Walking the fields of a value\<close>

text \<open>A callback takes its state, a field and the field's offset, and answers whether to go on;
  the walk answers whether it completed.\<close>

type_synonym 'st on_field = "'st \<Rightarrow> bytes \<Rightarrow> nat \<Rightarrow> bool \<times> 'st"

function walk_loop ::
  "'st on_field \<Rightarrow> bytes \<Rightarrow> nat \<Rightarrow> nat \<Rightarrow> nat \<Rightarrow> 'st \<Rightarrow> unit option \<times> 'st" where
  "walk_loop field bs index depth field_start st =
     (if index \<ge> length bs then (None, st)
      else if bs ! index = QUOTE then
        (case skip_1c_string_body bs (index + 1) of
           None \<Rightarrow> (None, st)
         | Some j \<Rightarrow> walk_loop field bs j depth field_start st)
      else if bs ! index = LBRACE then walk_loop field bs (index + 1) (depth + 1) field_start st
      else if bs ! index = RBRACE then
        (if depth = 0 then (None, st)
         else if depth - 1 = 0 then
           (case field st (slice field_start index bs) field_start of
              (ok, st') \<Rightarrow> (if ok then Some () else None, st'))
         else walk_loop field bs (index + 1) (depth - 1) field_start st)
      else if bs ! index = COMMA \<and> depth = 1 then
        (case field st (slice field_start index bs) field_start of
           (ok, st') \<Rightarrow>
             if ok then walk_loop field bs (index + 1) depth (index + 1) st' else (None, st'))
      else walk_loop field bs (index + 1) depth field_start st)"
  by pat_completeness auto
termination
  by (relation "measure (\<lambda>(field, bs, index, depth, field_start, st). length bs - index)")
    (auto dest!: skip_bounds)

declare walk_loop.simps [simp del]

definition walk_1c_braced_fields :: "'st on_field \<Rightarrow> bytes \<Rightarrow> 'st \<Rightarrow> unit option \<times> 'st" where
  "walk_1c_braced_fields field rest st =
     (if rest = [] \<or> hd rest \<noteq> LBRACE then (None, st) else walk_loop field rest 0 0 1 st)"

text \<open>The callback of \<open>split_1c_braced_fields_bounded\<close>: at most \<open>max_fields\<close> trimmed fields.\<close>

definition push_field :: "nat \<Rightarrow> bytes list on_field" where
  "push_field max_fields fields v off =
     (if length fields \<ge> max_fields then (False, fields) else (True, fields @ [trim v]))"

definition split_plain :: "bytes \<Rightarrow> nat \<Rightarrow> bytes list option" where
  "split_plain rest max_fields =
     (case walk_1c_braced_fields (push_field max_fields) rest [] of
        (None, _) \<Rightarrow> None
      | (Some _, fields) \<Rightarrow> Some fields)"

section \<open>The walk and the scan\<close>

lemma scan_loop_step:
  "index < length bs \<Longrightarrow> bs ! index = LBRACE \<Longrightarrow> scan_loop bs index d = scan_loop bs (index + 1) (d + 1)"
  "index < length bs \<Longrightarrow> bs ! index = QUOTE \<Longrightarrow> skip_1c_string_body bs (index + 1) = Some j \<Longrightarrow>
     scan_loop bs index d = scan_loop bs j d"
  "index < length bs \<Longrightarrow> bs ! index = RBRACE \<Longrightarrow> 1 < d \<Longrightarrow>
     scan_loop bs index d = scan_loop bs (index + 1) (d - 1)"
  "index < length bs \<Longrightarrow> bs ! index = RBRACE \<Longrightarrow> scan_loop bs index 1 = Some (index + 1)"
  "index < length bs \<Longrightarrow> bs ! index \<notin> {QUOTE, LBRACE, RBRACE} \<Longrightarrow>
     scan_loop bs index d = scan_loop bs (index + 1) d"
  by (subst scan_loop.simps; simp)+

lemma scan_loop_bounds: "scan_loop bs i d = Some e \<Longrightarrow> i < e \<and> e \<le> length bs"
proof (induction bs i d rule: scan_loop.induct)
  case (1 bs i d)
  note step = "1.prems" [unfolded scan_loop.simps [of bs i d]]
  from step have i: "\<not> i \<ge> length bs" by (auto split: if_splits)
  consider (quote) j where "bs ! i = QUOTE" "skip_1c_string_body bs (i + 1) = Some j"
      "scan_loop bs j d = Some e"
    | (open_brace) "bs ! i = LBRACE" "scan_loop bs (i + 1) (d + 1) = Some e"
    | (final) "bs ! i = RBRACE" "e = i + 1"
    | (close_brace) "bs ! i = RBRACE" "d \<noteq> 0" "d - 1 \<noteq> 0" "scan_loop bs (i + 1) (d - 1) = Some e"
    | (other) "bs ! i \<notin> {QUOTE, LBRACE, RBRACE}" "scan_loop bs (i + 1) d = Some e"
    using step i by (simp split: if_splits option.splits)
  then show ?case
  proof cases
    case quote
    from "1.IH"(1) [OF i quote] skip_bounds [OF quote(2)] show ?thesis by simp
  next
    case open_brace
    from "1.IH"(2) [OF i _ open_brace] open_brace show ?thesis by simp
  next
    case final
    then show ?thesis using i by simp
  next
    case close_brace
    then show ?thesis using "1.IH"(3) [OF i _ _ close_brace] by simp
  next
    case other
    then show ?thesis using "1.IH"(4) [OF i] by simp
  qed
qed

lemma scan_loop_end:
  assumes "scan_loop bs i d = Some (i + 1)"
  shows "i < length bs \<and> bs ! i = RBRACE"
proof -
  have "i < length bs" using assms by (subst (asm) scan_loop.simps) (auto split: if_splits)
  moreover have "bs ! i = RBRACE"
  proof (rule ccontr)
    assume no: "bs ! i \<noteq> RBRACE"
    show False
      using assms no
      by (subst (asm) scan_loop.simps)
        (auto split: if_splits option.splits dest!: scan_loop_bounds skip_bounds)
  qed
  ultimately show ?thesis ..
qed

text \<open>After the value that closes at \<open>j\<close>, the enclosing scan goes on from \<open>j\<close>.\<close>

lemma scan_compose:
  "scan_loop bs i d = Some j \<Longrightarrow> 1 \<le> d \<Longrightarrow> 1 \<le> k \<Longrightarrow> scan_loop bs i (d + k) = scan_loop bs j k"
proof (induction bs i d rule: scan_loop.induct)
  case (1 bs i d)
  note step = "1.prems"(1) [unfolded scan_loop.simps [of bs i d]]
  note sum = scan_loop.simps [of bs i "d + k"]
  from step have i: "\<not> i \<ge> length bs" by (auto split: if_splits)
  consider (quote) q where "bs ! i = QUOTE" "skip_1c_string_body bs (i + 1) = Some q"
      "scan_loop bs q d = Some j"
    | (open_brace) "bs ! i = LBRACE" "scan_loop bs (i + 1) (d + 1) = Some j"
    | (final) "bs ! i = RBRACE" "j = i + 1" "d = 1"
    | (close_brace) "bs ! i = RBRACE" "d \<noteq> 0" "d - 1 \<noteq> 0" "scan_loop bs (i + 1) (d - 1) = Some j"
    | (other) "bs ! i \<notin> {QUOTE, LBRACE, RBRACE}" "scan_loop bs (i + 1) d = Some j"
    using step i "1.prems"(2) by (simp split: if_splits option.splits)
  then show ?case
  proof cases
    case quote
    from "1.IH"(1) [OF i quote] "1.prems" quote i show ?thesis by (subst sum) simp
  next
    case open_brace
    from "1.IH"(2) [OF i _ open_brace] "1.prems" open_brace i show ?thesis by (subst sum) simp
  next
    case final
    then show ?thesis using i "1.prems"(3) by (subst sum) simp
  next
    case close_brace
    have "d + k - 1 = d - 1 + k" using close_brace by simp
    then show ?thesis using "1.IH"(3) [OF i _ _ close_brace] close_brace i "1.prems"(3)
      by (subst sum) simp
  next
    case other
    then show ?thesis using "1.IH"(4) [OF i] i "1.prems" by (subst sum) simp
  qed
qed

text \<open>A walk two or more values deep goes on, one level up, from the end of the inner value.\<close>

lemma walk_skip:
  "scan_loop bs i d = Some j \<Longrightarrow> 1 \<le> d \<Longrightarrow>
     walk_loop field bs i (d + 1) fs st = walk_loop field bs j 1 fs st"
proof (induction bs i d rule: scan_loop.induct)
  case (1 bs i d)
  note step = "1.prems"(1) [unfolded scan_loop.simps [of bs i d]]
  note walk = walk_loop.simps [of field bs i "d + 1"]
  from step have i: "\<not> i \<ge> length bs" by (auto split: if_splits)
  consider (quote) q where "bs ! i = QUOTE" "skip_1c_string_body bs (i + 1) = Some q"
      "scan_loop bs q d = Some j"
    | (open_brace) "bs ! i = LBRACE" "scan_loop bs (i + 1) (d + 1) = Some j"
    | (final) "bs ! i = RBRACE" "j = i + 1" "d = 1"
    | (close_brace) "bs ! i = RBRACE" "d \<noteq> 0" "d - 1 \<noteq> 0" "scan_loop bs (i + 1) (d - 1) = Some j"
    | (other) "bs ! i \<notin> {QUOTE, LBRACE, RBRACE}" "scan_loop bs (i + 1) d = Some j"
    using step i "1.prems"(2) by (simp split: if_splits option.splits)
  then show ?case
  proof cases
    case quote
    from "1.IH"(1) [OF i quote] "1.prems" quote i show ?thesis by (subst walk) simp
  next
    case open_brace
    from "1.IH"(2) [OF i _ open_brace] "1.prems" open_brace i show ?thesis by (subst walk) simp
  next
    case final
    then show ?thesis using i by (subst walk) simp
  next
    case close_brace
    then show ?thesis using "1.IH"(3) [OF i _ _ close_brace] i by (subst walk) simp
  next
    case other
    then show ?thesis using "1.IH"(4) [OF i] i "1.prems" by (subst walk) simp
  qed
qed

end
