(* ===== verification/Text_Jumps.thy ===== *)
theory Text_Jumps
  imports Text_Braced "HOL-Library.Monad_Syntax"
begin

text \<open>
  \<open>crates/ibcmd-1c-text/src/braced.rs\<close>, the jump tables: \<open>register_brace_jumps\<close> records, for each
  text of a form body, where its values and strings end; the splitters and the scanner look the
  value they are handed up by its address and jump over what is nested in it.

  A string slice is its address and its bytes.  The result of an operation is \<open>None\<close> when the code
  panics (a slice at an offset that is no character boundary, an index past the table, an
  underflowing subtraction) or its collecting loop never ends; the equivalences in
  \<open>Text_Jumps_Laws\<close> show that neither happens.
\<close>

section \<open>String slices\<close>

record str =
  ptr :: nat
  body :: bytes

definition is_char_boundary :: "bytes \<Rightarrow> nat \<Rightarrow> bool" where
  "is_char_boundary bs k = (k = length bs \<or> k < length bs \<and> (bs ! k < 0x80 \<or> bs ! k \<ge> 0xC0))"

text \<open>\<open>&text[start..]\<close>\<close>

definition str_from :: "str \<Rightarrow> nat \<Rightarrow> str option" where
  "str_from text start =
     (if is_char_boundary (body text) start
      then Some \<lparr>ptr = ptr text + start, body = drop start (body text)\<rparr> else None)"

section \<open>The tables of a thread\<close>


record brace_jumps =
  base :: nat
  jlen :: nat
  ends :: "u32 list"

definition BRACE_JUMPS_MIN_TEXT :: nat where "BRACE_JUMPS_MIN_TEXT = 4096"

text \<open>The walk of \<open>build_brace_jumps\<close>: \<open>open_at\<close> is its stack of open values, the innermost
  first.\<close>

function build_loop :: "bytes \<Rightarrow> nat \<Rightarrow> u32 list \<Rightarrow> u32 list \<Rightarrow> u32 list" where
  "build_loop bs index open_at es =
     (if index \<ge> length bs then es
      else if bs ! index = QUOTE then
        (case skip_1c_string_body bs (index + 1) of
           Some e \<Rightarrow> build_loop bs e open_at (es[index := of_nat e])
         | None \<Rightarrow> es)
      else if bs ! index = LBRACE then build_loop bs (index + 1) (of_nat index # open_at) es
      else if bs ! index = RBRACE then
        (case open_at of
           [] \<Rightarrow> build_loop bs (index + 1) [] es
         | s # rest \<Rightarrow> build_loop bs (index + 1) rest (es[unat s := of_nat (index + 1)]))
      else build_loop bs (index + 1) open_at es)"
  by pat_completeness auto
termination
  by (relation "measure (\<lambda>(bs, index, open_at, es). length bs - index)") (auto dest!: skip_bounds)

declare build_loop.simps [simp del]

definition build_brace_jumps :: "str \<Rightarrow> brace_jumps" where
  "build_brace_jumps text =
     \<lparr>base = ptr text, jlen = length (body text),
      ends = build_loop (body text) 0 [] (replicate (length (body text)) 0)\<rparr>"

text \<open>Registering, and the guard that undoes it when it is dropped.\<close>

definition worth_a_table :: "str \<Rightarrow> bool" where
  "worth_a_table text =
     (\<not> length (body text) < BRACE_JUMPS_MIN_TEXT \<and> \<not> length (body text) \<ge> 2 ^ 32 - 1)"

fun register_brace_jumps :: "brace_jumps list \<Rightarrow> str list \<Rightarrow> brace_jumps list \<times> nat" where
  "register_brace_jumps tables [] = (tables, 0)"
| "register_brace_jumps tables (text # texts) =
     (if \<not> worth_a_table text then register_brace_jumps tables texts
      else (case register_brace_jumps (tables @ [build_brace_jumps text]) texts of
              (tables', registered) \<Rightarrow> (tables', registered + 1)))"

definition drop_guard :: "brace_jumps list \<Rightarrow> nat \<Rightarrow> brace_jumps list" where
  "drop_guard tables registered = take (length tables - registered) tables"

section \<open>Looking a value up\<close>

definition find_table :: "brace_jumps list \<Rightarrow> nat \<Rightarrow> brace_jumps option" where
  "find_table tables at = find (\<lambda>t. at \<ge> base t \<and> at < base t + jlen t) tables"

text \<open>\<open>table.ends[k] as usize\<close> and \<open>a - b\<close>, which panic out of range.\<close>

definition end_at :: "brace_jumps \<Rightarrow> nat \<Rightarrow> nat option" where
  "end_at t k = (if k < length (ends t) then Some (unat (ends t ! k)) else None)"

definition sub :: "nat \<Rightarrow> nat \<Rightarrow> nat option" where
  "sub a b = (if b \<le> a then Some (a - b) else None)"

definition brace_jump_value ::
  "brace_jumps list \<Rightarrow> str \<Rightarrow> (brace_jumps \<times> nat \<times> nat) option option" where
  "brace_jump_value tables rest =
     (if body rest = [] \<or> hd (body rest) \<noteq> LBRACE then Some None
      else (case find_table tables (ptr rest) of
              None \<Rightarrow> Some None
            | Some t \<Rightarrow> do {
                let offset = ptr rest - base t;
                e \<leftarrow> end_at t offset;
                if e = 0 then Some None
                else do {
                  n \<leftarrow> sub e offset;
                  Some (if n \<le> length (body rest) then Some (t, offset, n) else None)
                }
              }))"

section \<open>Splitting through the table\<close>

text \<open>The counting walk: \<open>Some None\<close> when an end is missing or out of the value.\<close>

function count_loop ::
  "brace_jumps \<Rightarrow> nat \<Rightarrow> nat \<Rightarrow> bytes \<Rightarrow> nat \<Rightarrow> nat \<Rightarrow> nat option option" where
  "count_loop t offset len bs index count =
     (if \<not> index < len - 1 then Some (Some count)
      else if bs ! index = QUOTE \<or> bs ! index = LBRACE then
        (case end_at t (offset + index) of
           None \<Rightarrow> None
         | Some jump \<Rightarrow>
             if jump \<le> offset + index \<or> jump > offset + len then Some None
             else count_loop t offset len bs (jump - offset) count)
      else if bs ! index = COMMA then count_loop t offset len bs (index + 1) (count + 1)
      else count_loop t offset len bs (index + 1) count)"
  by pat_completeness auto
termination
  by (relation "measure (\<lambda>(t, offset, len, bs, index, count). len - index)") auto

declare count_loop.simps [simp del]

text \<open>The collecting walk, which follows the ends without checking them again.\<close>

partial_function (option) collect_loop ::
  "brace_jumps \<Rightarrow> nat \<Rightarrow> nat \<Rightarrow> bytes \<Rightarrow> nat \<Rightarrow> nat \<Rightarrow> bytes list \<Rightarrow> bytes list option" where
  "collect_loop t offset len bs index field_start vs =
     (if \<not> index < len - 1 then Some (vs @ [trim (slice field_start (len - 1) bs)])
      else if bs ! index = QUOTE \<or> bs ! index = LBRACE then do {
        jump \<leftarrow> end_at t (offset + index);
        index' \<leftarrow> sub jump offset;
        collect_loop t offset len bs index' field_start vs
      }
      else if bs ! index = COMMA then
        collect_loop t offset len bs (index + 1) (index + 1)
          (vs @ [trim (slice field_start index bs)])
      else collect_loop t offset len bs (index + 1) field_start vs)"

definition split_1c_braced_fields_jumped ::
  "brace_jumps list \<Rightarrow> str \<Rightarrow> nat \<Rightarrow> bytes list option option option" where
  "split_1c_braced_fields_jumped tables rest max_fields = do {
     found \<leftarrow> brace_jump_value tables rest;
     (case found of
        None \<Rightarrow> Some None
      | Some (t, offset, len) \<Rightarrow> do {
          let bs = take len (body rest);
          counted \<leftarrow> count_loop t offset len bs 1 1;
          (case counted of
             None \<Rightarrow> Some None
           | Some count \<Rightarrow>
               if count > max_fields then Some (Some None)
               else do {
                 vs \<leftarrow> collect_loop t offset len bs 1 1 [];
                 Some (Some (Some vs))
               })
        })
   }"

definition split_1c_braced_fields_bounded ::
  "brace_jumps list \<Rightarrow> str \<Rightarrow> nat \<Rightarrow> nat \<Rightarrow> bytes list option option" where
  "split_1c_braced_fields_bounded tables text start max_fields = do {
     rest \<leftarrow> str_from text start;
     jumped \<leftarrow> split_1c_braced_fields_jumped tables rest max_fields;
     (case jumped of
        Some vs \<Rightarrow> Some vs
      | None \<Rightarrow> Some (split_plain (body rest) max_fields))
   }"

definition USIZE_MAX :: nat where "USIZE_MAX = 2 ^ 64 - 1"

definition split_1c_braced_fields ::
  "brace_jumps list \<Rightarrow> str \<Rightarrow> nat \<Rightarrow> bytes list option option" where
  "split_1c_braced_fields tables text start =
     split_1c_braced_fields_bounded tables text start USIZE_MAX"

section \<open>Handing the fields out through the table\<close>

text \<open>The checking walk of \<open>for_each_1c_braced_field_jumped\<close>.\<close>

function check_loop ::
  "brace_jumps \<Rightarrow> nat \<Rightarrow> nat \<Rightarrow> bytes \<Rightarrow> nat \<Rightarrow> bool option" where
  "check_loop t offset e bs index =
     (if \<not> index < length bs - 1 then Some True
      else if bs ! index = QUOTE \<or> bs ! index = LBRACE then
        (case end_at t (offset + index) of
           None \<Rightarrow> None
         | Some jump \<Rightarrow>
             if jump \<le> offset + index \<or> jump > e then Some False
             else check_loop t offset e bs (jump - offset))
      else check_loop t offset e bs (index + 1))"
  by pat_completeness auto
termination
  by (relation "measure (\<lambda>(t, offset, e, bs, index). length bs - index)") auto

declare check_loop.simps [simp del]

partial_function (option) hand_out ::
  "brace_jumps \<Rightarrow> nat \<Rightarrow> 'st on_field \<Rightarrow> bytes \<Rightarrow> nat \<Rightarrow> nat \<Rightarrow> 'st \<Rightarrow> (unit option \<times> 'st) option" where
  "hand_out t offset field bs index field_start st =
     (if \<not> index < length bs - 1 then
        (case field st (slice field_start (length bs - 1) bs) field_start of
           (ok, st') \<Rightarrow> Some (if ok then Some () else None, st'))
      else if bs ! index = QUOTE \<or> bs ! index = LBRACE then do {
        jump \<leftarrow> end_at t (offset + index);
        index' \<leftarrow> sub jump offset;
        hand_out t offset field bs index' field_start st
      }
      else if bs ! index = COMMA then
        (case field st (slice field_start index bs) field_start of
           (ok, st') \<Rightarrow>
             if \<not> ok then Some (None, st')
             else hand_out t offset field bs (index + 1) (index + 1) st')
      else hand_out t offset field bs (index + 1) field_start st)"

definition for_each_1c_braced_field_jumped ::
  "brace_jumps list \<Rightarrow> str \<Rightarrow> 'st on_field \<Rightarrow> 'st \<Rightarrow> (unit option \<times> 'st) option option" where
  "for_each_1c_braced_field_jumped tables rest field st =
     (case find_table tables (ptr rest) of
        None \<Rightarrow> Some None
      | Some t \<Rightarrow> do {
          let offset = ptr rest - base t;
          e \<leftarrow> end_at t offset;
          if e = 0 then Some None
          else do {
            n \<leftarrow> sub e offset;
            if n > length (body rest) then Some None
            else do {
              let bs = take n (body rest);
              if bs = [] \<or> hd bs \<noteq> LBRACE then Some None
              else do {
                checked \<leftarrow> check_loop t offset e bs 1;
                if \<not> checked then Some None
                else do {
                  walked \<leftarrow> hand_out t offset field bs 1 1 st;
                  Some (Some walked)
                }
              }
            }
          }
        })"

definition for_each_1c_braced_field ::
  "brace_jumps list \<Rightarrow> str \<Rightarrow> nat \<Rightarrow> 'st on_field \<Rightarrow> 'st \<Rightarrow> (unit option \<times> 'st) option" where
  "for_each_1c_braced_field tables text start field st = do {
     rest \<leftarrow> str_from text start;
     jumped \<leftarrow> for_each_1c_braced_field_jumped tables rest field st;
     (case jumped of
        Some walked \<Rightarrow> Some walked
      | None \<Rightarrow> Some (walk_1c_braced_fields field (body rest) st))
   }"

section \<open>Finding the end of a value\<close>

definition brace_jump_end :: "brace_jumps list \<Rightarrow> str \<Rightarrow> nat option option" where
  "brace_jump_end tables rest =
     (if body rest = [] \<or> hd (body rest) \<noteq> LBRACE then Some None
      else (case find_table tables (ptr rest) of
              None \<Rightarrow> Some None
            | Some t \<Rightarrow> do {
                let offset = ptr rest - base t;
                e \<leftarrow> end_at t offset;
                if e = 0 then Some None
                else do {
                  n \<leftarrow> sub e offset;
                  Some (if n \<le> length (body rest) then Some n else None)
                }
              }))"

definition scan_1c_braced_value ::
  "brace_jumps list \<Rightarrow> str \<Rightarrow> nat \<Rightarrow> nat option option" where
  "scan_1c_braced_value tables text start = do {
     rest \<leftarrow> str_from text start;
     jumped \<leftarrow> brace_jump_end tables rest;
     (case jumped of
        Some e \<Rightarrow> Some (Some (start + e))
      | None \<Rightarrow> Some (map_option (\<lambda>e. start + e) (scan_plain (body rest))))
   }"

end
