(* ===== verification/Text_Jump_Walk.thy ===== *)
theory Text_Jump_Walk
  imports Text_Jumps
begin

text \<open>
  What a jump table knows: every end it records is the end the plain walk finds
  (\<open>build_sound\<close>), and a walk of a registered text and a walk of a slice that shares its bytes find
  the same ends (\<open>scan_transfer\<close>).
\<close>

section \<open>Strings read from two slices\<close>

lemma find_quote_Some_iff:
  "find_quote bs = Some k \<longleftrightarrow> k < length bs \<and> bs ! k = QUOTE \<and> (\<forall>j < k. bs ! j \<noteq> QUOTE)"
proof (induction bs arbitrary: k)
  case Nil
  then show ?case by simp
next
  case (Cons b bs)
  show ?case
    by (cases k) (auto simp: Cons.IH All_less_Suc2)
qed

text \<open>\<open>cs\<close> shares the bytes of \<open>bs\<close> from \<open>off\<close> on, as far as both reach.\<close>

definition shares :: "bytes \<Rightarrow> nat \<Rightarrow> bytes \<Rightarrow> bool" where
  "shares bs off cs \<longleftrightarrow> (\<forall>k. off + k < length bs \<longrightarrow> k < length cs \<longrightarrow> cs ! k = bs ! (off + k))"

lemma sharesD: "shares bs off cs \<Longrightarrow> off + k < length bs \<Longrightarrow> k < length cs \<Longrightarrow> cs ! k = bs ! (off + k)"
  by (simp add: shares_def)

lemma find_quote_transfer:
  assumes "shares bs off cs" and "find_quote (drop (off + i) bs) = Some k" and "i + k < length cs"
  shows "find_quote (drop i cs) = Some k"
  using assms by (auto simp: find_quote_Some_iff shares_def add.assoc)

lemma skip_transfer:
  "skip_1c_string_body bs p = Some q \<Longrightarrow> p = off + i \<Longrightarrow> shares bs off cs \<Longrightarrow> q < off + length cs \<Longrightarrow>
     q < length bs \<Longrightarrow> skip_1c_string_body cs i = Some (q - off)"
proof (induction bs p arbitrary: i rule: skip_1c_string_body.induct)
  case (1 bs p)
  obtain k where p: "\<not> p > length bs" and k: "find_quote (drop p bs) = Some k"
    using "1.prems"(1)
    by (subst (asm) skip_1c_string_body.simps) (auto split: if_splits option.splits)
  show ?case
  proof (cases "p + k + 1 < length bs \<and> bs ! (p + k + 1) = QUOTE")
    case True
    then have rest: "skip_1c_string_body bs (p + k + 2) = Some q"
      using "1.prems"(1) p k by (subst (asm) skip_1c_string_body.simps) simp
    from skip_bounds [OF this] have "p + k + 2 < q" by simp
    with "1.prems" have room: "i + k + 2 < length cs" by simp
    then have "find_quote (drop i cs) = Some k"
      using find_quote_transfer [of bs off cs i k] "1.prems" k by simp
    moreover have "cs ! (i + k + 1) = QUOTE"
      using sharesD [OF "1.prems"(3), of "i + k + 1"] room True "1.prems"(2) by (simp add: add.assoc)
    moreover have "skip_1c_string_body cs (i + k + 2) = Some (q - off)"
      using "1.IH" [OF p k refl True rest] "1.prems" by simp
    ultimately show ?thesis using room by (subst skip_1c_string_body.simps) simp
  next
    case False
    then have q: "q = p + k + 1"
      using "1.prems"(1) p k by (subst (asm) skip_1c_string_body.simps) auto
    with "1.prems" have room: "i + k + 1 < length cs" by simp
    then have "find_quote (drop i cs) = Some k"
      using find_quote_transfer [of bs off cs i k] "1.prems" k by simp
    moreover have "cs ! (i + k + 1) \<noteq> QUOTE"
      using sharesD [OF "1.prems"(3), of "i + k + 1"] room False q "1.prems"
      by (simp add: add.assoc)
    ultimately show ?thesis using room q "1.prems"(2)
      by (subst skip_1c_string_body.simps) simp
  qed
qed

section \<open>Values read from two slices\<close>

lemma scan_transfer:
  "scan_loop bs p d = Some e \<Longrightarrow> p = off + i \<Longrightarrow> shares bs off cs \<Longrightarrow> e \<le> off + length cs \<Longrightarrow>
     scan_loop cs i d = Some (e - off)"
proof (induction bs p d arbitrary: i rule: scan_loop.induct)
  case (1 bs p d)
  note step = "1.prems"(1) [unfolded scan_loop.simps [of bs p d]]
  note there = scan_loop.simps [of cs i d]
  from step have p: "\<not> p \<ge> length bs" by (auto split: if_splits)
  have room: "i < length cs"
    using scan_loop_bounds [OF "1.prems"(1)] "1.prems" by simp
  then have same: "cs ! i = bs ! p"
    using sharesD [OF "1.prems"(3)] p "1.prems"(2) by simp
  consider (quote) q where "bs ! p = QUOTE" "skip_1c_string_body bs (p + 1) = Some q"
      "scan_loop bs q d = Some e"
    | (open_brace) "bs ! p = LBRACE" "scan_loop bs (p + 1) (d + 1) = Some e"
    | (final) "bs ! p = RBRACE" "e = p + 1" "d = 1"
    | (close_brace) "bs ! p = RBRACE" "d \<noteq> 0" "d - 1 \<noteq> 0" "scan_loop bs (p + 1) (d - 1) = Some e"
    | (other) "bs ! p \<notin> {QUOTE, LBRACE, RBRACE}" "scan_loop bs (p + 1) d = Some e"
    using step p by (simp split: if_splits option.splits)
  then show ?case
  proof cases
    case quote
    from scan_loop_bounds [OF quote(3)] "1.prems" have q: "q < off + length cs" "q < length bs"
      by simp_all
    have skip: "skip_1c_string_body cs (i + 1) = Some (q - off)"
      using skip_transfer [OF quote(2) _ "1.prems"(3) q, of "i + 1"] "1.prems"(2) by simp
    have "q = off + (q - off)" using skip_bounds [OF quote(2)] "1.prems"(2) by simp
    from "1.IH"(1) [OF p quote this "1.prems"(3,4)] skip same quote(1) room
    show ?thesis by (subst there) simp
  next
    case open_brace
    from "1.IH"(2) [OF p _ open_brace, of "i + 1"] "1.prems" open_brace room same
    show ?thesis by (subst there) simp
  next
    case final
    then show ?thesis using room same "1.prems" by (subst there) simp
  next
    case close_brace
    from "1.IH"(3) [OF p _ _ close_brace, of "i + 1"] "1.prems" close_brace room same
    show ?thesis by (subst there) simp
  next
    case other
    from "1.IH"(4) [OF p, of "i + 1"] "1.prems" other room same
    show ?thesis by (subst there) simp
  qed
qed

section \<open>What the building walk records\<close>

text \<open>A recorded end is the end of the string or value that opens there.\<close>

definition right_end :: "bytes \<Rightarrow> nat \<Rightarrow> nat \<Rightarrow> bool" where
  "right_end bs i e \<longleftrightarrow>
     bs ! i = QUOTE \<and> skip_1c_string_body bs (i + 1) = Some e
     \<or> bs ! i = LBRACE \<and> scan_loop bs (i + 1) 1 = Some e"

definition ends_sound :: "bytes \<Rightarrow> u32 list \<Rightarrow> bool" where
  "ends_sound bs es \<longleftrightarrow>
     length es = length bs
     \<and> (\<forall>i < length bs. es ! i \<noteq> 0 \<longrightarrow> right_end bs i (unat (es ! i)))"

text \<open>The \<open>j\<close>th open value is the one that closes when \<open>j + 1\<close> values have been closed from here.\<close>

definition opened :: "bytes \<Rightarrow> nat \<Rightarrow> u32 list \<Rightarrow> bool" where
  "opened bs index open_at \<longleftrightarrow>
     (\<forall>j < length open_at. let s = unat (open_at ! j) in
        s < length bs \<and> bs ! s = LBRACE \<and> scan_loop bs (s + 1) 1 = scan_loop bs index (j + 1))"

lemma ends_sound_update:
  assumes "ends_sound bs es" and "right_end bs i e" and "e < 2 ^ 32"
  shows "ends_sound bs (es[i := of_nat e])"
proof -
  have "unat (of_nat e :: u32) = e" using assms(3) by (simp add: unat_of_nat take_bit_nat_eq_self)
  then have "right_end bs k (unat (es[i := of_nat e] ! k))"
    if "k < length bs" "es[i := of_nat e] ! k \<noteq> 0" for k
    using that assms by (cases "k = i") (simp_all add: ends_sound_def)
  then show ?thesis using assms(1) by (simp add: ends_sound_def)
qed

lemma opened_same:
  assumes "opened bs index open_at" and "\<And>d. scan_loop bs index d = scan_loop bs index' d"
  shows "opened bs index' open_at"
  using assms by (simp add: opened_def)

lemma opened_push:
  assumes "opened bs index open_at" and "index < length bs" and "bs ! index = LBRACE"
    and "length bs < 2 ^ 32"
  shows "opened bs (index + 1) (of_nat index # open_at)"
proof -
  have "unat (of_nat index :: u32) = index"
    using assms by (simp add: unat_of_nat take_bit_nat_eq_self)
  moreover have "scan_loop bs index d = scan_loop bs (index + 1) (d + 1)" for d
    using scan_loop_step(1) assms by simp
  ultimately show ?thesis using assms
    by (auto simp: opened_def Let_def nth_Cons split: nat.splits)
qed

lemma opened_pop:
  assumes "opened bs index (s # open_at)" and "index < length bs" and "bs ! index = RBRACE"
  shows "opened bs (index + 1) open_at" and "right_end bs (unat s) (index + 1)"
proof -
  have close: "scan_loop bs index (d + 2) = scan_loop bs (index + 1) (d + 1)" for d
    using scan_loop_step(3) [of index bs "d + 2"] assms by simp
  show "opened bs (index + 1) open_at"
    unfolding opened_def Let_def
  proof (intro allI impI)
    fix j assume "j < length open_at"
    then show "unat (open_at ! j) < length bs \<and> bs ! unat (open_at ! j) = LBRACE
        \<and> scan_loop bs (unat (open_at ! j) + 1) 1 = scan_loop bs (index + 1) (j + 1)"
      using assms(1) [unfolded opened_def Let_def, rule_format, of "j + 1"] close [of j] by simp
  qed
  show "right_end bs (unat s) (index + 1)"
    using assms(1) [unfolded opened_def Let_def, rule_format, of 0]
      scan_loop_step(4) [of index bs] assms
    by (simp add: right_end_def)
qed

lemma build_loop_sound:
  "length bs < 2 ^ 32 \<Longrightarrow> ends_sound bs es \<Longrightarrow> opened bs index open_at \<Longrightarrow>
     ends_sound bs (build_loop bs index open_at es)"
proof (induction bs index open_at es rule: build_loop.induct)
  case (1 bs index open_at es)
  note loop = build_loop.simps [of bs index open_at es]
  consider (over) "index \<ge> length bs"
    | (never) "\<not> index \<ge> length bs" "bs ! index = QUOTE"
        "skip_1c_string_body bs (index + 1) = None"
    | (quote) e where "\<not> index \<ge> length bs" "bs ! index = QUOTE"
        "skip_1c_string_body bs (index + 1) = Some e"
    | (open_brace) "\<not> index \<ge> length bs" "bs ! index \<noteq> QUOTE" "bs ! index = LBRACE"
    | (close_brace) "\<not> index \<ge> length bs" "bs ! index \<noteq> QUOTE" "bs ! index \<noteq> LBRACE"
        "bs ! index = RBRACE"
    | (other) "\<not> index \<ge> length bs" "bs ! index \<noteq> QUOTE" "bs ! index \<noteq> LBRACE"
        "bs ! index \<noteq> RBRACE"
    by (cases "skip_1c_string_body bs (index + 1)") blast+
  then show ?case
  proof cases
    case over
    then show ?thesis using "1.prems" by (subst loop) simp
  next
    case never
    then show ?thesis using "1.prems" by (subst loop) simp
  next
    case quote
    have "e < 2 ^ 32" using skip_bounds [OF quote(3)] "1.prems"(1) by simp
    then have "ends_sound bs (es[index := of_nat e])"
      using ends_sound_update "1.prems"(2) quote by (simp add: right_end_def)
    moreover have "opened bs e open_at"
      using opened_same "1.prems"(3) scan_loop_step(2) quote by simp
    ultimately show ?thesis using "1.IH"(1) [OF quote "1.prems"(1)] quote by (subst loop) simp
  next
    case open_brace
    from "1.IH"(2) [OF open_brace "1.prems"(1,2)] opened_push "1.prems" open_brace
    show ?thesis by (subst loop) simp
  next
    case close_brace
    show ?thesis
    proof (cases open_at)
      case Nil
      from "1.IH"(3) [OF close_brace Nil "1.prems"(1,2)] close_brace Nil
      show ?thesis by (subst loop) (simp add: opened_def)
    next
      case (Cons s rest)
      note pop = opened_pop [of bs index s rest]
      have "ends_sound bs (es[unat s := of_nat (index + 1)])"
        using ends_sound_update [OF "1.prems"(2) pop(2)] "1.prems" Cons close_brace by simp
      from "1.IH"(4) [OF close_brace Cons "1.prems"(1) this] pop(1) "1.prems"(3) Cons close_brace
      show ?thesis by (subst loop) simp
    qed
  next
    case other
    have "opened bs (index + 1) open_at"
      using opened_same "1.prems"(3) scan_loop_step(5) other by simp
    from "1.IH"(5) [OF other "1.prems"(1,2) this] other show ?thesis by (subst loop) simp
  qed
qed

lemma build_sound:
  assumes "length (body text) < 2 ^ 32"
  shows "ends_sound (body text) (ends (build_brace_jumps text))"
  using build_loop_sound [OF assms, of "replicate (length (body text)) 0" 0 "[]"]
  by (simp add: build_brace_jumps_def ends_sound_def opened_def)

section \<open>Walking through the tables\<close>

text \<open>
  The jumping walks against the plain one: over a slice whose bytes a table knows
  (\<open>knows\<close>), each of the jumping loops does what \<open>walk_loop\<close> does from the same offset
  (\<open>jump_step\<close>, \<open>last_step\<close>), returns, and never indexes past the table.
\<close>

section \<open>What a table knows of a slice\<close>

definition knows :: "brace_jumps \<Rightarrow> bytes \<Rightarrow> nat \<Rightarrow> bytes \<Rightarrow> bool" where
  "knows t bs off cs \<longleftrightarrow> ends_sound bs (ends t) \<and> shares bs off cs \<and> off < length bs"

text \<open>The texts of the process stand in one memory, where none of them changes while its table is
  in use: the guard holds a shared borrow of each.\<close>

definition stands_in :: "(nat \<Rightarrow> u8) \<Rightarrow> str \<Rightarrow> bool" where
  "stands_in mem s \<longleftrightarrow> (\<forall>k < length (body s). body s ! k = mem (ptr s + k))"

definition tables_over :: "(nat \<Rightarrow> u8) \<Rightarrow> brace_jumps list \<Rightarrow> bool" where
  "tables_over mem tables \<longleftrightarrow>
     (\<forall>t \<in> set tables. \<exists>text. t = build_brace_jumps text \<and> stands_in mem text
        \<and> length (body text) < 2 ^ 32)"

lemma find_table_knows:
  assumes "find_table tables (ptr rest) = Some t" and "tables_over mem tables"
    and "stands_in mem rest"
  obtains bs where "knows t bs (ptr rest - base t) (body rest)"
proof -
  have t: "t \<in> set tables" "base t \<le> ptr rest" "ptr rest < base t + jlen t"
    using assms(1) by (auto simp: find_table_def find_Some_iff)
  from t(1) assms(2) obtain reg where reg: "t = build_brace_jumps reg" "stands_in mem reg"
      "length (body reg) < 2 ^ 32"
    by (auto simp: tables_over_def)
  have place: "base t = ptr reg" "jlen t = length (body reg)"
    using reg(1) by (simp_all add: build_brace_jumps_def)
  have "shares (body reg) (ptr rest - base t) (body rest)"
    unfolding shares_def
  proof (intro allI impI)
    fix k assume k: "ptr rest - base t + k < length (body reg)" "k < length (body rest)"
    have "body rest ! k = mem (ptr rest + k)" using assms(3) k by (simp add: stands_in_def)
    moreover have "body reg ! (ptr rest - base t + k) = mem (ptr reg + (ptr rest - base t + k))"
      using reg(2) k by (simp add: stands_in_def)
    moreover have "ptr reg + (ptr rest - base t + k) = ptr rest + k" using t place by simp
    ultimately show "body rest ! k = body reg ! (ptr rest - base t + k)" by simp
  qed
  moreover have "ptr rest - base t < length (body reg)" using t place by arith
  ultimately have "knows t (body reg) (ptr rest - base t) (body rest)"
    using build_sound [OF reg(3)] reg(1) by (simp add: knows_def)
  then show thesis by (rule that)
qed

lemma knows_end_at:
  assumes "knows t bs off cs" and "off + k < length bs"
  shows "end_at t (off + k) = Some (unat (ends t ! (off + k)))"
  using assms by (simp add: knows_def ends_sound_def end_at_def)

lemma knows_right:
  assumes "knows t bs off cs" and "end_at t (off + k) = Some e" and "e \<noteq> 0"
    and "off + k < length bs" and "k < length cs"
  shows "cs ! k = QUOTE \<and> skip_1c_string_body bs (off + k + 1) = Some e
    \<or> cs ! k = LBRACE \<and> scan_loop bs (off + k + 1) 1 = Some e"
proof -
  have "ends t ! (off + k) \<noteq> 0" "e = unat (ends t ! (off + k))"
    using assms(2,3) by (auto simp: end_at_def split: if_splits)
  then have "right_end bs (off + k) e"
    using assms(1,4) by (simp add: knows_def ends_sound_def)
  moreover have "cs ! k = bs ! (off + k)"
    using assms by (simp add: knows_def sharesD)
  ultimately show ?thesis by (auto simp: right_end_def)
qed

text \<open>The end recorded for a slice that opens a value.\<close>

lemma knows_value:
  assumes "knows t bs off cs" and "cs \<noteq> []" and "hd cs = LBRACE" and "end_at t off = Some e"
    and "e \<noteq> 0"
  shows "scan_loop bs (off + 1) 1 = Some e"
  using knows_right [OF assms(1), of 0 e] assms
  by (simp add: knows_def hd_conv_nth)

lemma knows_scan_plain:
  assumes "knows t bs off cs" and "cs \<noteq> []" and "hd cs = LBRACE" and "end_at t off = Some e"
    and "e \<noteq> 0" and "e - off \<le> length cs"
  shows "scan_plain cs = Some (e - off)"
proof -
  have "scan_loop cs 1 1 = Some (e - off)"
    using scan_transfer [OF knows_value [OF assms(1-5)], of off 1 cs] assms
    by (simp add: knows_def)
  then show ?thesis
    using assms(2,3) scan_loop_step(1) [of 0 cs 0] by (simp add: scan_plain_def hd_conv_nth)
qed

section \<open>One step at the top level of a known value\<close>

text \<open>\<open>in_value t bs off cs n index\<close>: the walk is at the top level of a value of \<open>n\<close> bytes at the
  head of \<open>cs\<close>.\<close>

definition in_value :: "brace_jumps \<Rightarrow> bytes \<Rightarrow> nat \<Rightarrow> bytes \<Rightarrow> nat \<Rightarrow> nat \<Rightarrow> bool" where
  "in_value t bs off cs n index \<longleftrightarrow>
     knows t bs off cs \<and> n \<le> length cs \<and> scan_loop bs (off + index) 1 = Some (off + n)"

lemma in_value_bounds:
  "in_value t bs off cs n index \<Longrightarrow> index < n \<and> n \<le> length cs \<and> off + n \<le> length bs"
  by (auto simp: in_value_def dest: scan_loop_bounds)

lemma in_value_byte:
  assumes "in_value t bs off cs n index"
  shows "cs ! index = bs ! (off + index)"
  using assms in_value_bounds [OF assms] by (simp add: in_value_def knows_def sharesD)

lemma last_step:
  assumes v: "in_value t bs off cs n index" and "\<not> index < n - 1"
  shows "index = n - 1"
    and "walk_loop field cs index 1 fs st =
      (case field st (slice fs (n - 1) cs) fs of (ok, st') \<Rightarrow> (if ok then Some () else None, st'))"
proof -
  show index: "index = n - 1" using in_value_bounds [OF v] assms(2) by arith
  then have "scan_loop bs (off + index) 1 = Some (off + index + 1)"
    using v in_value_bounds [OF v] by (simp add: in_value_def)
  from scan_loop_end [OF this] have "cs ! index = RBRACE" using in_value_byte [OF v] by simp
  then show "walk_loop field cs index 1 fs st =
      (case field st (slice fs (n - 1) cs) fs of (ok, st') \<Rightarrow> (if ok then Some () else None, st'))"
    using in_value_bounds [OF v] index by (subst walk_loop.simps) simp
qed

lemma plain_step:
  assumes v: "in_value t bs off cs n index" and "index < n - 1"
    and "cs ! index \<noteq> QUOTE" and "cs ! index \<noteq> LBRACE"
  shows "in_value t bs off cs n (index + 1)" and "cs ! index \<noteq> RBRACE"
proof -
  note b = in_value_bounds [OF v]
  have no: "cs ! index \<noteq> RBRACE"
  proof
    assume "cs ! index = RBRACE"
    then have "scan_loop bs (off + index) 1 = Some (off + index + 1)"
      using scan_loop_step(4) in_value_byte [OF v] b by simp
    with v assms(2) show False by (simp add: in_value_def)
  qed
  then show "cs ! index \<noteq> RBRACE" .
  have "scan_loop bs (off + index) 1 = scan_loop bs (off + index + 1) 1"
    using scan_loop_step(5) [of "off + index" bs 1] in_value_byte [OF v] b no assms by simp
  with v show "in_value t bs off cs n (index + 1)" by (simp add: in_value_def)
qed

lemma jump_step:
  assumes v: "in_value t bs off cs n index" and "index < n - 1"
    and "cs ! index = QUOTE \<or> cs ! index = LBRACE"
    and "end_at t (off + index) = Some jump" and "off + index < jump"
  shows "in_value t bs off cs n (jump - off)" and "sub jump off = Some (jump - off)"
    and "walk_loop field cs index 1 fs st = walk_loop field cs (jump - off) 1 fs st"
proof -
  note b = in_value_bounds [OF v] and same = in_value_byte [OF v]
  have k: "knows t bs off cs" and rest: "scan_loop bs (off + index) 1 = Some (off + n)"
    using v by (auto simp: in_value_def)
  have shares: "shares bs off cs" using k by (simp add: knows_def)
  have "jump \<noteq> 0" using assms(5) by simp
  from knows_right [OF k assms(4) this] b
  consider (quote) "cs ! index = QUOTE" "skip_1c_string_body bs (off + index + 1) = Some jump"
    | (nested) "cs ! index = LBRACE" "scan_loop bs (off + index + 1) 1 = Some jump"
    by auto
  then have "scan_loop bs jump 1 = Some (off + n)
      \<and> walk_loop field cs index 1 fs st = walk_loop field cs (jump - off) 1 fs st"
  proof cases
    case quote
    have there: "scan_loop bs jump 1 = Some (off + n)"
      using scan_loop_step(2) [of "off + index" bs jump 1] rest quote same b by simp
    from scan_loop_bounds [OF this] b have "jump < off + length cs" "jump < length bs" by simp_all
    from skip_transfer [OF quote(2) _ shares this, of "index + 1"]
    have "skip_1c_string_body cs (index + 1) = Some (jump - off)" by simp
    then show ?thesis using there quote(1) b by (subst walk_loop.simps) simp
  next
    case nested
    have "scan_loop bs (off + index) 1 = scan_loop bs (off + index + 1) (1 + 1)"
      using scan_loop_step(1) [of "off + index" bs 1] nested same b by simp
    also have "\<dots> = scan_loop bs jump 1" by (rule scan_compose [OF nested(2)]) simp_all
    finally have there: "scan_loop bs jump 1 = Some (off + n)" using rest by simp
    from scan_loop_bounds [OF this] b have "jump \<le> off + length cs" by simp
    from scan_transfer [OF nested(2) _ shares this, of "index + 1"]
    have "scan_loop cs (index + 1) 1 = Some (jump - off)" by simp
    from walk_skip [OF this, of field fs st]
    have "walk_loop field cs index 1 fs st = walk_loop field cs (jump - off) 1 fs st"
      using nested(1) b by (subst walk_loop.simps) simp
    then show ?thesis using there by simp
  qed
  then show "in_value t bs off cs n (jump - off)" "sub jump off = Some (jump - off)"
    "walk_loop field cs index 1 fs st = walk_loop field cs (jump - off) 1 fs st"
    using v assms(5) by (simp_all add: in_value_def sub_def)
qed

lemma in_value_start:
  assumes "knows t bs off cs" and "cs \<noteq> []" and "hd cs = LBRACE" and "end_at t off = Some e"
    and "e \<noteq> 0" and "e - off \<le> length cs"
  shows "in_value t bs off cs (e - off) 1" and "sub e off = Some (e - off)"
    and "walk_1c_braced_fields field cs st = walk_loop field cs 1 1 1 st"
proof -
  have e: "scan_loop bs (off + 1) 1 = Some e" using knows_value assms by blast
  from scan_loop_bounds [OF this] assms
  show "in_value t bs off cs (e - off) 1" "sub e off = Some (e - off)"
    by (simp_all add: in_value_def e [simplified] sub_def)
  show "walk_1c_braced_fields field cs st = walk_loop field cs 1 1 1 st"
    using assms(2,3) by (simp add: walk_1c_braced_fields_def) (subst walk_loop.simps, simp add: hd_conv_nth)
qed

end
