(* ===== verification/Text_Jump_Laws.thy ===== *)
theory Text_Jump_Laws
  imports Text_Jump_Walk
begin

text \<open>
  Reading a text through the registered tables gives what the plain walk gives: the scanner, the
  splitter and the field walk of \<open>crates/ibcmd-1c-text/src/braced.rs\<close>, for any tables built from
  texts that share the memory of the text that is read.
\<close>

section \<open>The jumping loops\<close>

lemma slice_of_take [simp]: "b \<le> n \<Longrightarrow> slice a b (take n xs) = slice a b xs"
  by (simp add: slice_def drop_take min_def)

lemma check_loop_returns:
  "in_value t bs off cs n index \<Longrightarrow> vs = take n cs \<Longrightarrow> check_loop t off (off + n) vs index \<noteq> None"
proof (induction t off "off + n" vs index rule: check_loop.induct)
  case (1 t off vs index)
  note b = in_value_bounds [OF "1.prems"(1)]
  have "length vs = n" using "1.prems"(2) b by simp
  show ?case
  proof (cases "index < n - 1 \<and> (cs ! index = QUOTE \<or> cs ! index = LBRACE)")
    case True
    then obtain jump where jump: "end_at t (off + index) = Some jump"
      using knows_end_at [of t bs off cs index] "1.prems"(1) b by (auto simp: in_value_def)
    show ?thesis
    proof (cases "jump \<le> off + index \<or> jump > off + n")
      case False
      then have "in_value t bs off cs n (jump - off)"
        using jump_step(1) [OF "1.prems"(1) _ _ jump] True by simp
      then show ?thesis using "1.hyps"(1) [OF _ _ jump False] \<open>length vs = n\<close> jump False True "1.prems"(2)
        by (subst check_loop.simps) simp
    qed (use True jump \<open>length vs = n\<close> "1.prems"(2) in \<open>subst check_loop.simps; simp\<close>)
  next
    case False
    then show ?thesis
      using "1.hyps"(2) plain_step [OF "1.prems"(1)] \<open>length vs = n\<close> "1.prems"(2)
      by (subst check_loop.simps) auto
  qed
qed

lemma hand_out_walk:
  "check_loop t off (off + n) vs index = Some True \<Longrightarrow> in_value t bs off cs n index \<Longrightarrow>
     vs = take n cs \<Longrightarrow>
     hand_out t off field vs index fs st = Some (walk_loop field cs index 1 fs st)"
proof (induction t off "off + n" vs index arbitrary: fs st rule: check_loop.induct)
  case (1 t off vs index)
  note v = "1.prems"(2) and check = "1.prems"(1) [unfolded check_loop.simps [of t off "off + n" vs index]]
  note b = in_value_bounds [OF v]
  have len: "length vs = n" using "1.prems"(3) b by simp
  consider (over) "\<not> index < n - 1"
    | (jump) "index < n - 1" "cs ! index = QUOTE \<or> cs ! index = LBRACE"
    | (comma) "index < n - 1" "cs ! index \<noteq> QUOTE" "cs ! index \<noteq> LBRACE" "cs ! index = COMMA"
    | (other) "index < n - 1" "cs ! index \<noteq> QUOTE" "cs ! index \<noteq> LBRACE" "cs ! index \<noteq> COMMA"
    by blast
  then show ?case
  proof cases
    case over
    then show ?thesis using last_step(1) [OF v over] last_step(2) [OF v over, of field fs st] len "1.prems"(3)
      by (subst hand_out.simps) (auto split: prod.splits)
  next
    case jump
    then obtain j where j: "end_at t (off + index) = Some j" "\<not> (j \<le> off + index \<or> j > off + n)"
        "check_loop t off (off + n) vs (j - off) = Some True"
      using check len "1.prems"(3) by (auto split: option.splits if_splits)
    note step = jump_step(1,2) [OF v jump j(1)] jump_step(3) [OF v jump j(1), of field fs st]
    show ?thesis
      using "1.hyps"(1) [OF _ _ j(1,2,3)] step j jump len "1.prems"(3)
      by (subst hand_out.simps) simp
  next
    case comma
    have "check_loop t off (off + n) vs (index + 1) = Some True"
      using check comma len "1.prems"(3) by simp
    note IH = "1.hyps"(2) [OF _ _ this plain_step(1) [OF v comma(1-3)]]
    show ?thesis
      using IH comma len b "1.prems"(3)
      by (subst hand_out.simps, subst walk_loop.simps) (auto split: prod.splits)
  next
    case other
    have "check_loop t off (off + n) vs (index + 1) = Some True"
      using check other len "1.prems"(3) by simp
    note IH = "1.hyps"(2) [OF _ _ this plain_step(1) [OF v other(1-3)]]
    show ?thesis
      using IH other plain_step(2) [OF v other(1-3)] len b "1.prems"(3)
      by (subst hand_out.simps, subst walk_loop.simps) auto
  qed
qed

lemma count_loop_returns:
  "in_value t bs off cs n index \<Longrightarrow> vs = take n cs \<Longrightarrow> count_loop t off n vs index count \<noteq> None"
proof (induction t off n vs index count rule: count_loop.induct)
  case (1 t off n vs index count)
  note b = in_value_bounds [OF "1.prems"(1)]
  consider (over) "\<not> index < n - 1"
    | (jump) "index < n - 1" "cs ! index = QUOTE \<or> cs ! index = LBRACE"
    | (plain) "index < n - 1" "cs ! index \<noteq> QUOTE" "cs ! index \<noteq> LBRACE"
    by blast
  then show ?case
  proof cases
    case over
    then show ?thesis by (subst count_loop.simps) simp
  next
    case jump
    then obtain j where j: "end_at t (off + index) = Some j"
      using knows_end_at [of t bs off cs index] "1.prems"(1) b by (auto simp: in_value_def)
    show ?thesis
    proof (cases "j \<le> off + index \<or> j > off + n")
      case False
      then have "in_value t bs off cs n (j - off)"
        using jump_step(1) [OF "1.prems"(1) jump j] by simp
      then show ?thesis using "1.IH"(1) [OF _ _ j False] j False jump "1.prems"(2)
        by (subst count_loop.simps) simp
    qed (use jump j "1.prems"(2) in \<open>subst count_loop.simps; simp\<close>)
  next
    case plain
    then show ?thesis
      using "1.IH"(2,3) plain_step(1) [OF "1.prems"(1) plain] "1.prems"(2)
      by (subst count_loop.simps) simp
  qed
qed

lemma count_loop_mono:
  "count_loop t off n vs index count = Some (Some m) \<Longrightarrow> count \<le> m"
proof (induction t off n vs index count rule: count_loop.induct)
  case (1 t off n vs index count)
  note count = "1.prems" [unfolded count_loop.simps [of t off n vs index count]]
  consider (over) "\<not> index < n - 1"
    | (jump) "index < n - 1" "vs ! index = QUOTE \<or> vs ! index = LBRACE"
    | (plain) "index < n - 1" "\<not> (vs ! index = QUOTE \<or> vs ! index = LBRACE)"
    by blast
  then show ?case
  proof cases
    case over
    then show ?thesis using count by simp
  next
    case jump
    then obtain j where j: "end_at t (off + index) = Some j" "\<not> (j \<le> off + index \<or> j > off + n)"
        "count_loop t off n vs (j - off) count = Some (Some m)"
      using count by (auto split: option.splits if_splits)
    show ?thesis using "1.IH"(1) [OF _ jump(2) j] jump(1) by simp
  next
    case plain
    then show ?thesis using "1.IH"(2,3) [OF _ plain(2)] count
      by (cases "vs ! index = COMMA") simp_all
  qed
qed

lemma collect_walk:
  "count_loop t off n vs index (length acc + 1) = Some (Some m) \<Longrightarrow> in_value t bs off cs n index \<Longrightarrow>
     vs = take n cs \<Longrightarrow>
     if m \<le> mx
     then \<exists>r. collect_loop t off n vs index fs acc = Some r
            \<and> walk_loop (push_field mx) cs index 1 fs acc = (Some (), r)
     else fst (walk_loop (push_field mx) cs index 1 fs acc) = None"
proof (induction t off n vs index "length acc + 1" arbitrary: fs acc rule: count_loop.induct)
  case (1 t off n vs index acc)
  note v = "1.prems"(2)
    and count = "1.prems"(1) [unfolded count_loop.simps [of t off n vs index "length acc + 1"]]
  note b = in_value_bounds [OF v]
  have few: "m \<le> mx \<Longrightarrow> length acc < mx" using count_loop_mono [OF "1.prems"(1)] by simp
  consider (over) "\<not> index < n - 1"
    | (jump) "index < n - 1" "cs ! index = QUOTE \<or> cs ! index = LBRACE"
    | (comma) "index < n - 1" "cs ! index \<noteq> QUOTE" "cs ! index \<noteq> LBRACE" "cs ! index = COMMA"
    | (other) "index < n - 1" "cs ! index \<noteq> QUOTE" "cs ! index \<noteq> LBRACE" "cs ! index \<noteq> COMMA"
    by blast
  then show ?case
  proof cases
    case over
    then have "m = length acc + 1" using count by simp
    then show ?thesis using last_step(1) [OF v over] last_step(2) [OF v over, of "push_field mx" fs acc] "1.prems"(3)
      by (subst collect_loop.simps) (simp add: push_field_def)
  next
    case jump
    then obtain j where j: "end_at t (off + index) = Some j" "\<not> (j \<le> off + index \<or> j > off + n)"
        "count_loop t off n vs (j - off) (length acc + 1) = Some (Some m)"
      using count "1.prems"(3) by (auto split: option.splits if_splits)
    note step = jump_step(1,2) [OF v jump j(1)]
      jump_step(3) [OF v jump j(1), of "push_field mx" fs acc]
    note IH = "1.hyps"(1) [OF _ _ j(1,2) refl j(3) _ "1.prems"(3), of fs]
    show ?thesis
      using IH step j jump "1.prems"(3)
      by (subst collect_loop.simps) (cases "m \<le> mx"; simp)
  next
    case comma
    let ?acc = "acc @ [trim (slice fs index cs)]"
    have "count_loop t off n vs (index + 1) (length ?acc + 1) = Some (Some m)"
      using count comma "1.prems"(3) by simp
    note IH = "1.hyps"(2) [of ?acc, OF _ _ _ _ this plain_step(1) [OF v comma(1-3)] "1.prems"(3), of "index + 1"]
    show ?thesis
      using IH comma b "1.prems"(3) few
      by (subst collect_loop.simps, subst (1 2) walk_loop.simps)
        (simp add: push_field_def split: if_splits)
  next
    case other
    have "count_loop t off n vs (index + 1) (length acc + 1) = Some (Some m)"
      using count other "1.prems"(3) by simp
    note IH = "1.hyps"(3) [OF _ _ _ refl this plain_step(1) [OF v other(1-3)] "1.prems"(3), of fs]
    show ?thesis
      using IH other plain_step(2) [OF v other(1-3)] b "1.prems"(3)
      by (subst collect_loop.simps, subst (1 2) walk_loop.simps) (cases "m \<le> mx"; simp)
  qed
qed

section \<open>The entry points\<close>

lemma str_from_stands:
  assumes "str_from s start = Some rest"
  shows "body rest = drop start (body s)" and "stands_in mem s \<Longrightarrow> stands_in mem rest"
  using assms
  by (auto simp: str_from_def stands_in_def is_char_boundary_def add.assoc split: if_splits)

text \<open>A registered table is one of those.\<close>

lemma register_tables_over:
  "tables_over mem tables \<Longrightarrow> \<forall>s \<in> set texts. stands_in mem s \<Longrightarrow>
     tables_over mem (fst (register_brace_jumps tables texts))"
proof (induction tables texts rule: register_brace_jumps.induct)
  case (1 tables)
  then show ?case by simp
next
  case (2 tables s texts)
  show ?case
  proof (cases "worth_a_table s")
    case False
    then show ?thesis using 2 by simp
  next
    case True
    then have "length (body s) < 2 ^ 32" by (simp add: worth_a_table_def)
    then have "tables_over mem (tables @ [build_brace_jumps s])"
      using 2(3,4) by (auto simp: tables_over_def)
    then show ?thesis using 2(2,4) True by (auto split: prod.splits)
  qed
qed

text \<open>Tables given, a slice at hand: no table knows it, or one does.\<close>

lemma table_cases:
  assumes "tables_over mem tables" and "stands_in mem rest"
  obtains (none) "find_table tables (ptr rest) = None"
    | (silent) t bs where "find_table tables (ptr rest) = Some t"
        "end_at t (ptr rest - base t) = Some 0"
    | (knows) t bs e where "find_table tables (ptr rest) = Some t"
        "knows t bs (ptr rest - base t) (body rest)"
        "end_at t (ptr rest - base t) = Some e" "e \<noteq> 0" "sub e (ptr rest - base t) = Some (e - (ptr rest - base t))"
proof (cases "find_table tables (ptr rest)")
  case None
  then show thesis by (rule none)
next
  case (Some t)
  obtain bs where k: "knows t bs (ptr rest - base t) (body rest)"
    using find_table_knows [OF Some assms] .
  let ?off = "ptr rest - base t"
  let ?e = "unat (ends t ! ?off)"
  have e: "end_at t ?off = Some ?e"
    using knows_end_at [OF k, of 0] k by (simp add: knows_def)
  show thesis
  proof (cases "?e = 0")
    case True
    then show thesis using silent [OF Some] e by simp
  next
    case False
    have off: "?off < length bs" "ends_sound bs (ends t)" using k by (simp_all add: knows_def)
    then have "right_end bs ?off ?e"
      using False unfolding ends_sound_def by (metis unat_eq_zero)
    then have "?off \<le> ?e"
      by (auto simp: right_end_def dest!: skip_bounds scan_loop_bounds)
    then show thesis using knows [OF Some k e False] by (simp add: sub_def)
  qed
qed

lemma brace_jump_end_scan:
  assumes "tables_over mem tables" and "stands_in mem rest"
  shows "brace_jump_end tables rest = Some None
    \<or> (\<exists>n. brace_jump_end tables rest = Some (Some n) \<and> scan_plain (body rest) = Some n)"
proof (cases "body rest = [] \<or> hd (body rest) \<noteq> LBRACE")
  case True
  then show ?thesis by (simp add: brace_jump_end_def)
next
  case False
  show ?thesis
    using assms
  proof (cases rule: table_cases)
    case (knows t bs e)
    then show ?thesis
      using False knows_scan_plain [OF knows(2) _ _ knows(3,4)]
      by (simp add: brace_jump_end_def Let_def)
  qed (use False in \<open>simp_all add: brace_jump_end_def Let_def\<close>)
qed

lemma for_each_jumped_walk:
  assumes "tables_over mem tables" and "stands_in mem rest"
  shows "for_each_1c_braced_field_jumped tables rest field st = Some None
    \<or> for_each_1c_braced_field_jumped tables rest field st
        = Some (Some (walk_1c_braced_fields field (body rest) st))"
  using assms
proof (cases rule: table_cases)
  case (knows t bs e)
  let ?off = "ptr rest - base t" and ?n = "e - (ptr rest - base t)"
  show ?thesis
  proof (cases "?n > length (body rest) \<or> take ?n (body rest) = [] \<or> hd (body rest) \<noteq> LBRACE")
    case True
    then show ?thesis using knows by (auto simp: for_each_1c_braced_field_jumped_def Let_def)
  next
    case False
    then have cs: "body rest \<noteq> []" "hd (body rest) = LBRACE" "?n \<le> length (body rest)" by auto
    note v = in_value_start(1) [OF knows(2) cs(1,2) knows(3,4) cs(3)]
    have e: "e = ?off + ?n" using knows(5) by (auto simp: sub_def split: if_splits)
    have "check_loop t ?off e (take ?n (body rest)) 1 \<noteq> None"
      using check_loop_returns [OF v refl] e by simp
    then obtain checked where checked: "check_loop t ?off e (take ?n (body rest)) 1 = Some checked"
      by blast
    show ?thesis
    proof (cases checked)
      case True
      have "hand_out t ?off field (take ?n (body rest)) 1 1 st
          = Some (walk_1c_braced_fields field (body rest) st)"
        using hand_out_walk [OF _ v refl, of field 1 st] checked True e
          in_value_start(3) [OF knows(2) cs(1,2) knows(3,4) cs(3), of field st] by simp
      then show ?thesis using knows checked True False
        by (simp add: for_each_1c_braced_field_jumped_def Let_def)
    qed (use knows checked False in \<open>simp add: for_each_1c_braced_field_jumped_def Let_def\<close>)
  qed
qed (simp_all add: for_each_1c_braced_field_jumped_def Let_def)

lemma split_jumped_walk:
  assumes "tables_over mem tables" and "stands_in mem rest"
  shows "split_1c_braced_fields_jumped tables rest mx = Some None
    \<or> split_1c_braced_fields_jumped tables rest mx = Some (Some (split_plain (body rest) mx))"
proof (cases "body rest = [] \<or> hd (body rest) \<noteq> LBRACE")
  case True
  then show ?thesis by (simp add: split_1c_braced_fields_jumped_def brace_jump_value_def)
next
  case cs: False
  show ?thesis
    using assms
  proof (cases rule: table_cases)
    case (knows t bs e)
    let ?off = "ptr rest - base t" and ?n = "e - (ptr rest - base t)"
    show ?thesis
    proof (cases "?n \<le> length (body rest)")
      case False
      then show ?thesis using knows cs
        by (simp add: split_1c_braced_fields_jumped_def brace_jump_value_def Let_def)
    next
      case True
      have cs': "body rest \<noteq> []" "hd (body rest) = LBRACE" using cs by auto
      note v = in_value_start(1) [OF knows(2) cs' knows(3,4) True]
      note walk = in_value_start(3) [OF knows(2) cs' knows(3,4) True, of "push_field mx" "[]"]
      obtain counted where counted:
          "count_loop t ?off ?n (take ?n (body rest)) 1 1 = Some counted"
        using count_loop_returns [OF v refl] by blast
      have found: "brace_jump_value tables rest = Some (Some (t, ?off, ?n))"
        using knows cs' True by (simp add: brace_jump_value_def Let_def)
      show ?thesis
      proof (cases counted)
        case None
        then show ?thesis using found counted
          by (simp add: split_1c_braced_fields_jumped_def Let_def)
      next
        case (Some m)
        then have "count_loop t ?off ?n (take ?n (body rest)) 1 (length ([] :: bytes list) + 1)
            = Some (Some m)"
          using counted by simp
        from collect_walk [OF this v refl, of mx 1] walk show ?thesis
          using found counted Some
          by (cases "m \<le> mx")
            (auto simp: split_1c_braced_fields_jumped_def Let_def split_plain_def split: option.splits prod.splits)
      qed
    qed
  qed (use cs in \<open>simp_all add: split_1c_braced_fields_jumped_def brace_jump_value_def Let_def\<close>)
qed

section \<open>The properties\<close>

text \<open>C19: Scanning for the end of a braced value through the thread's jump tables answers exactly as
  the plain scan does, and never panics, whatever texts are registered.\<close>

theorem scan_through_tables_exact:
  assumes "tables_over mem tables" and "stands_in mem s" and "is_char_boundary (body s) start"
  shows "scan_1c_braced_value tables s start
    = Some (map_option (\<lambda>e. start + e) (scan_plain (drop start (body s))))"
proof -
  let ?rest = "\<lparr>ptr = ptr s + start, body = drop start (body s)\<rparr>"
  have rest: "str_from s start = Some ?rest" using assms(3) by (simp add: str_from_def)
  from brace_jump_end_scan [OF assms(1) str_from_stands(2) [OF rest assms(2)]] rest
  show ?thesis by (auto simp: scan_1c_braced_value_def)
qed

text \<open>C17: Splitting a braced value into at most \<open>max_fields\<close> trimmed top-level fields through the
  jump tables gives exactly the plain walk's fields; the counting and collecting loops end and never
  index past the table.\<close>

theorem split_through_tables_exact:
  assumes "tables_over mem tables" and "stands_in mem s" and "is_char_boundary (body s) start"
  shows "split_1c_braced_fields_bounded tables s start mx
    = Some (split_plain (drop start (body s)) mx)"
proof -
  let ?rest = "\<lparr>ptr = ptr s + start, body = drop start (body s)\<rparr>"
  have rest: "str_from s start = Some ?rest" using assms(3) by (simp add: str_from_def)
  from split_jumped_walk [OF assms(1) str_from_stands(2) [OF rest assms(2)], of mx] rest
  show ?thesis by (auto simp: split_1c_braced_fields_bounded_def)
qed

text \<open>C18: Handing every top-level field to a callback through the jump tables makes the same calls, in
  the same order and with the same offsets, as the plain walk, ends as it does, and leaves the
  callback in the same state.\<close>

theorem for_each_through_tables_exact:
  assumes "tables_over mem tables" and "stands_in mem s" and "is_char_boundary (body s) start"
  shows "for_each_1c_braced_field tables s start field st
    = Some (walk_1c_braced_fields field (drop start (body s)) st)"
proof -
  let ?rest = "\<lparr>ptr = ptr s + start, body = drop start (body s)\<rparr>"
  have rest: "str_from s start = Some ?rest" using assms(3) by (simp add: str_from_def)
  from for_each_jumped_walk [OF assms(1) str_from_stands(2) [OF rest assms(2)], of field st] rest
  show ?thesis by (auto simp: for_each_1c_braced_field_def)
qed

section \<open>A registered text at work\<close>

text \<open>\<open>{1,{2,"a,"}, x}\<close> at address 100.\<close>

definition sample_text :: str where
  "sample_text = \<lparr>ptr = 100,
     body = [123, 49, 44, 123, 50, 44, 34, 97, 44, 34, 125, 44, 32, 120, 125]\<rparr>"

definition sample_memory :: "nat \<Rightarrow> u8" where
  "sample_memory a = body sample_text ! (a - 100)"

lemma sample_stands:
  "stands_in sample_memory sample_text" "tables_over sample_memory [build_brace_jumps sample_text]"
  by (auto simp: stands_in_def sample_memory_def tables_over_def sample_text_def)

theorem scan_through_tables_exact_witness:
  "scan_1c_braced_value [build_brace_jumps sample_text] sample_text 3 = Some (Some 11)"
proof -
  have "is_char_boundary (body sample_text) 3" by code_simp
  from scan_through_tables_exact [OF sample_stands(2,1) this]
  have "scan_1c_braced_value [build_brace_jumps sample_text] sample_text 3
      = Some (map_option (\<lambda>e. 3 + e) (scan_plain (drop 3 (body sample_text))))" .
  also have "scan_plain (drop 3 (body sample_text)) = Some 8" by code_simp
  finally show ?thesis by simp
qed

theorem split_through_tables_exact_witness:
  "split_1c_braced_fields_bounded [build_brace_jumps sample_text] sample_text 0 3
    = Some (Some [[49], [123, 50, 44, 34, 97, 44, 34, 125], [120]])"
proof -
  have "is_char_boundary (body sample_text) 0" by code_simp
  from split_through_tables_exact [OF sample_stands(2,1) this, of 3]
  have "split_1c_braced_fields_bounded [build_brace_jumps sample_text] sample_text 0 3
      = Some (split_plain (drop 0 (body sample_text)) 3)" .
  also have "split_plain (drop 0 (body sample_text)) 3
      = Some [[49], [123, 50, 44, 34, 97, 44, 34, 125], [120]]" by code_simp
  finally show ?thesis .
qed

theorem for_each_through_tables_exact_witness:
  "for_each_1c_braced_field [build_brace_jumps sample_text] sample_text 0
      (\<lambda>st v off. (True, st @ [(off, length v)])) []
    = Some (Some (), [(1, 1), (3, 8), (12, 2)])"
proof -
  have "is_char_boundary (body sample_text) 0" by code_simp
  from for_each_through_tables_exact [OF sample_stands(2,1) this,
      of "\<lambda>st v off. (True, st @ [(off, length v)])" "[]"]
  have "for_each_1c_braced_field [build_brace_jumps sample_text] sample_text 0
      (\<lambda>st v off. (True, st @ [(off, length v)])) []
    = Some (walk_1c_braced_fields (\<lambda>st v off. (True, st @ [(off, length v)]))
        (drop 0 (body sample_text)) [])" .
  also have "walk_1c_braced_fields (\<lambda>st v off. (True, st @ [(off, length v)]))
        (drop 0 (body sample_text)) [] = (Some (), [(1, 1), (3, 8), (12, 2)])" by code_simp
  finally show ?thesis .
qed

end
