(* ===== verification/Text_Brace_List.thy ===== *)
theory Text_Brace_List
  imports Text_Jump_Laws
begin

text \<open>
  \<open>crates/ibcmd-1c-text/src/brace_list.rs\<close>: the second splitter, one pass with a \<open>quoted\<close> flag,
  which also answers where the list ends; and \<open>split_1c_braced_sequence\<close> of \<open>braced.rs\<close>, which reads
  a list whose items are braced values.
\<close>

section \<open>\<open>brace_list::fields\<close>\<close>

text \<open>\<open>depth -= 1\<close> panics on an underflow; the loop starts at a brace, so it never does
  (\<open>fields_loop_at\<close>), and the model cuts the value at 0 as \<open>nat\<close> subtraction does.\<close>

function fields_loop ::
  "bytes \<Rightarrow> nat \<Rightarrow> nat \<Rightarrow> bool \<Rightarrow> nat \<Rightarrow> bytes list \<Rightarrow> (bytes list \<times> nat) option" where
  "fields_loop bs i depth quoted field_start out =
     (if i \<ge> length bs then None
      else if quoted then
        (if bs ! i = QUOTE then
           (if i + 1 < length bs \<and> bs ! (i + 1) = QUOTE
            then fields_loop bs (i + 2) depth True field_start out
            else fields_loop bs (i + 1) depth False field_start out)
         else fields_loop bs (i + 1) depth True field_start out)
      else if bs ! i = QUOTE then fields_loop bs (i + 1) depth True field_start out
      else if bs ! i = LBRACE then fields_loop bs (i + 1) (depth + 1) False field_start out
      else if bs ! i = RBRACE then
        (if depth - 1 = 0 then Some (out @ [trim (slice field_start i bs)], i + 1)
         else fields_loop bs (i + 1) (depth - 1) False field_start out)
      else if bs ! i = COMMA \<and> depth = 1 then
        fields_loop bs (i + 1) depth False (i + 1) (out @ [trim (slice field_start i bs)])
      else fields_loop bs (i + 1) depth False field_start out)"
  by pat_completeness auto
termination
  by (relation "measure (\<lambda>(bs, i, depth, quoted, field_start, out). length bs - i)") auto

declare fields_loop.simps [simp del]

definition brace_list_fields :: "bytes \<Rightarrow> nat \<Rightarrow> (bytes list \<times> nat) option" where
  "brace_list_fields bs start =
     (if start < length bs \<and> bs ! start = LBRACE
      then fields_loop bs start 0 False (start + 1) []
      else None)"

section \<open>A list of braced values\<close>

definition skip_ascii_ws_at :: "bytes \<Rightarrow> nat \<Rightarrow> nat" where
  "skip_ascii_ws_at bs offset = offset + length (takeWhile is_ascii_whitespace (drop offset bs))"

definition expect_comma_at :: "bytes \<Rightarrow> nat \<Rightarrow> nat option" where
  "expect_comma_at bs offset =
     (let at = skip_ascii_ws_at bs offset in
      if at < length bs \<and> bs ! at = COMMA then Some (at + 1) else None)"

text \<open>The inner loop over commas.\<close>

function skip_commas :: "bytes \<Rightarrow> nat \<Rightarrow> nat" where
  "skip_commas bs offset =
     (if offset < length bs \<and> bs ! offset = COMMA
      then skip_commas bs (skip_ascii_ws_at bs (offset + 1)) else offset)"
  by pat_completeness auto
termination
  by (relation "measure (\<lambda>(bs, offset). length bs - offset)")
    (auto simp: skip_ascii_ws_at_def)

declare skip_commas.simps [simp del]

lemma skip_ascii_ws_ge: "offset \<le> skip_ascii_ws_at bs offset"
  by (simp add: skip_ascii_ws_at_def)

lemma skip_commas_ge: "offset \<le> skip_commas bs offset"
proof (induction bs offset rule: skip_commas.induct)
  case (1 bs offset)
  then show ?case
    using skip_ascii_ws_ge [of "offset + 1" bs] by (subst skip_commas.simps) auto
qed

lemma scan_plain_bounds: "scan_plain bs = Some n \<Longrightarrow> 0 < n \<and> n \<le> length bs"
  by (auto simp: scan_plain_def split: if_splits dest!: scan_loop_bounds)

text \<open>The item loop, over a trimmed text; the scan is the plain one, which the one through the
  tables equals (\<open>scan_through_tables_exact\<close>).\<close>

function sequence_loop :: "bytes \<Rightarrow> nat \<Rightarrow> nat \<Rightarrow> bytes list \<Rightarrow> bytes list option" where
  "sequence_loop bs e offset out =
     (if \<not> offset < e then Some out
      else
        let at = skip_commas bs (skip_ascii_ws_at bs offset) in
        if at \<ge> e then Some out
        else if bs ! at \<noteq> LBRACE then None
        else (case scan_plain (drop at bs) of
                None \<Rightarrow> None
              | Some n \<Rightarrow> sequence_loop bs e (at + n) (out @ [trim (slice at (at + n) bs)])))"
  by pat_completeness auto
termination
proof (relation "measure (\<lambda>(bs, e, offset, out). e - offset)")
  fix bs e offset n out at
  assume "\<not> \<not> offset < e" and at: "at = skip_commas bs (skip_ascii_ws_at bs offset)"
    and "scan_plain (drop at bs) = Some n"
  moreover have "offset \<le> at"
    using skip_ascii_ws_ge [of offset bs] skip_commas_ge [of "skip_ascii_ws_at bs offset" bs] at
    by simp
  ultimately show "((bs, e, at + n, out @ [trim (slice at (at + n) bs)]), bs, e, offset, out)
      \<in> measure (\<lambda>(bs, e, offset, out). e - offset)"
    by (auto dest!: scan_plain_bounds)
qed simp

declare sequence_loop.simps [simp del]

definition split_1c_braced_sequence :: "bytes \<Rightarrow> bytes list option" where
  "split_1c_braced_sequence text0 =
     (let bs = trim text0 in
      if bs = [] \<or> hd bs \<noteq> LBRACE \<or> last bs \<noteq> RBRACE then None
      else sequence_loop bs (length bs - 1) 1 [])"

section \<open>The two splitters agree\<close>

lemma skip_step:
  "i \<ge> length bs \<Longrightarrow> skip_1c_string_body bs i = None"
  "i < length bs \<Longrightarrow> bs ! i \<noteq> QUOTE \<Longrightarrow> skip_1c_string_body bs i = skip_1c_string_body bs (i + 1)"
  "i < length bs \<Longrightarrow> bs ! i = QUOTE \<Longrightarrow> i + 1 < length bs \<and> bs ! (i + 1) = QUOTE \<Longrightarrow>
     skip_1c_string_body bs i = skip_1c_string_body bs (i + 2)"
  "i < length bs \<Longrightarrow> bs ! i = QUOTE \<Longrightarrow> \<not> (i + 1 < length bs \<and> bs ! (i + 1) = QUOTE) \<Longrightarrow>
     skip_1c_string_body bs i = Some (i + 1)"
proof -
  show "i \<ge> length bs \<Longrightarrow> skip_1c_string_body bs i = None"
    by (subst skip_1c_string_body.simps) simp
  have find: "find_quote (drop i bs)
      = (if bs ! i = QUOTE then Some 0 else map_option Suc (find_quote (drop (i + 1) bs)))"
    if "i < length bs"
    using that by (simp flip: Cons_nth_drop_Suc)
  show "i < length bs \<Longrightarrow> bs ! i \<noteq> QUOTE \<Longrightarrow>
      skip_1c_string_body bs i = skip_1c_string_body bs (i + 1)"
    by (subst (1 2) skip_1c_string_body.simps) (simp add: find split: option.splits)
  show "i < length bs \<Longrightarrow> bs ! i = QUOTE \<Longrightarrow> i + 1 < length bs \<and> bs ! (i + 1) = QUOTE \<Longrightarrow>
     skip_1c_string_body bs i = skip_1c_string_body bs (i + 2)"
    by (subst skip_1c_string_body.simps) (simp add: find)
  show "i < length bs \<Longrightarrow> bs ! i = QUOTE \<Longrightarrow> \<not> (i + 1 < length bs \<and> bs ! (i + 1) = QUOTE) \<Longrightarrow>
     skip_1c_string_body bs i = Some (i + 1)"
    by (subst skip_1c_string_body.simps) (auto simp: find)
qed

text \<open>The flagged loop inside a string is the skip to the string's end.\<close>

lemma fields_loop_quoted:
  "fields_loop bs i d True fs out =
     (case skip_1c_string_body bs i of None \<Rightarrow> None | Some j \<Rightarrow> fields_loop bs j d False fs out)"
proof (induction "length bs - i" arbitrary: i rule: less_induct)
  case less
  consider (over) "i \<ge> length bs"
    | (body) "i < length bs" "bs ! i \<noteq> QUOTE"
    | (twice) "i < length bs" "bs ! i = QUOTE" "i + 1 < length bs \<and> bs ! (i + 1) = QUOTE"
    | (close) "i < length bs" "bs ! i = QUOTE" "\<not> (i + 1 < length bs \<and> bs ! (i + 1) = QUOTE)"
    by linarith
  then show ?case
  proof cases
    case over
    then show ?thesis by (subst fields_loop.simps) (simp add: skip_step)
  next
    case body
    then show ?thesis using less [of "i + 1"] by (subst fields_loop.simps) (simp add: skip_step)
  next
    case twice
    then have "length bs - (i + 2) < length bs - i" by arith
    from less [OF this] twice show ?thesis
      by (subst fields_loop.simps) (simp add: skip_step(3))
  next
    case close
    then show ?thesis by (subst fields_loop.simps) (auto simp: skip_step)
  qed
qed

text \<open>Reading at an offset of a text is reading the rest of the text.\<close>

lemma slice_drop: "slice (a + x) (a + y) bs = slice x y (drop a bs)"
  by (simp add: slice_def add.commute)

lemma fields_loop_shift:
  "start \<le> length bs \<Longrightarrow> fields_loop bs (start + k) d q (start + fs) out
     = map_option (apsnd ((+) start)) (fields_loop (drop start bs) k d q fs out)"
proof (induction "drop start bs" k d q fs out rule: fields_loop.induct)
  case (1 k d q fs out)
  note here = fields_loop.simps [of bs "start + k" d q "start + fs" out]
    and there = fields_loop.simps [of "drop start bs" k d q fs out]
  show ?case
  proof (cases "k < length (drop start bs)")
    case False
    then have "length bs \<le> start + k" using "1.prems" by simp
    then show ?thesis using False by (subst here, subst there) simp
  next
    case True
    then have byte: "bs ! (start + k) = drop start bs ! k" "start + k < length bs" by simp_all
    let ?cs = "drop start bs" and ?i = "start + k" and ?f = "start + fs"
    have k: "\<not> length ?cs \<le> k" using True by simp
    have push: "slice ?f ?i bs = slice fs k ?cs" by (rule slice_drop)
    consider (twice) "q" "?cs ! k = QUOTE" "k + 1 < length ?cs \<and> ?cs ! (k + 1) = QUOTE"
      | (closed) "q" "?cs ! k = QUOTE" "\<not> (k + 1 < length ?cs \<and> ?cs ! (k + 1) = QUOTE)"
      | (inside) "q" "?cs ! k \<noteq> QUOTE"
      | (quote) "\<not> q" "?cs ! k = QUOTE"
      | (left) "\<not> q" "?cs ! k = LBRACE"
      | (right) "\<not> q" "?cs ! k = RBRACE" "d - 1 = 0"
      | (up) "\<not> q" "?cs ! k = RBRACE" "d - 1 \<noteq> 0"
      | (comma) "\<not> q" "?cs ! k = COMMA \<and> d = 1"
      | (other) "\<not> q" "?cs ! k \<noteq> QUOTE" "?cs ! k \<noteq> LBRACE" "?cs ! k \<noteq> RBRACE"
          "\<not> (?cs ! k = COMMA \<and> d = 1)"
      by blast
    then show ?thesis
    proof cases
      case twice
      then have "?i + 1 < length bs \<and> bs ! (?i + 1) = QUOTE" by auto
      then show ?thesis using "1.hyps"(1) [OF k twice "1.prems"] "1.prems" byte(2) twice k
        by (subst here, subst there) (simp add: add.assoc)
    next
      case closed
      then have "\<not> (?i + 1 < length bs \<and> bs ! (?i + 1) = QUOTE)" by auto
      then show ?thesis using "1.hyps"(2) [OF k closed "1.prems"] "1.prems" byte(2) closed k
        by (subst here, subst there) (auto simp: add.assoc)
    next
      case inside
      then have "q = True" "bs ! ?i \<noteq> QUOTE" using byte(1) by metis+
      then show ?thesis using "1.hyps"(3) [OF k inside "1.prems"] "1.prems" byte(2) k inside
        by (subst here, subst there) (simp add: add.assoc)
    next
      case quote
      then show ?thesis using "1.hyps"(4) [OF k quote "1.prems"] "1.prems" byte(2) k
        by (subst here, subst there) (simp add: add.assoc)
    next
      case left
      then show ?thesis using "1.hyps"(5) [OF k left(1) _ left(2) "1.prems"] "1.prems" byte(2) k
        by (subst here, subst there) (simp add: add.assoc)
    next
      case right
      then show ?thesis using push "1.prems" byte(2) k by (subst here, subst there) simp
    next
      case up
      then show ?thesis using "1.hyps"(6) [OF k up(1) _ _ up(2,3) "1.prems"] "1.prems" byte(2) k
        by (subst here, subst there) (simp add: add.assoc)
    next
      case comma
      then show ?thesis
        using "1.hyps"(7) [OF k comma(1) _ _ _ comma(2) "1.prems"] "1.prems" byte(2) k push
        by (subst here, subst there) (simp add: add.assoc)
    next
      case other
      then show ?thesis using "1.hyps"(8) [OF k other "1.prems"] "1.prems" byte(2) k
        by (subst here, subst there) (auto simp: add.assoc)
    qed
  qed
qed

lemma fields_loop_walk:
  "1 \<le> d \<Longrightarrow> length out + (length cs - k) \<le> mx \<Longrightarrow>
     fields_loop cs k d False fs out =
       (case walk_loop (push_field mx) cs k d fs out of
          (None, _) \<Rightarrow> None
        | (Some _, r) \<Rightarrow> map_option (Pair r) (scan_loop cs k d))"
proof (induction cs k d arbitrary: fs out rule: scan_loop.induct)
  case (1 cs k d)
  note steps = fields_loop.simps [of cs k d False fs out]
    walk_loop.simps [of "push_field mx" cs k d fs out] scan_loop.simps [of cs k d]
  consider (over) "k \<ge> length cs"
    | (never) "\<not> k \<ge> length cs" "cs ! k = QUOTE" "skip_1c_string_body cs (k + 1) = None"
    | (quote) j where "\<not> k \<ge> length cs" "cs ! k = QUOTE" "skip_1c_string_body cs (k + 1) = Some j"
    | (left) "\<not> k \<ge> length cs" "cs ! k \<noteq> QUOTE" "cs ! k = LBRACE"
    | (right) "\<not> k \<ge> length cs" "cs ! k \<noteq> QUOTE" "cs ! k \<noteq> LBRACE" "cs ! k = RBRACE" "d - 1 = 0"
    | (up) "\<not> k \<ge> length cs" "cs ! k \<noteq> QUOTE" "cs ! k \<noteq> LBRACE" "cs ! k = RBRACE" "d - 1 \<noteq> 0"
    | (other) "\<not> k \<ge> length cs" "cs ! k \<noteq> QUOTE" "cs ! k \<noteq> LBRACE" "cs ! k \<noteq> RBRACE"
    by (cases "skip_1c_string_body cs (k + 1)") blast+
  then show ?case
  proof cases
    case over
    then show ?thesis by (subst steps(1), subst steps(2), subst steps(3)) (simp split: prod.splits option.splits)
  next
    case never
    then show ?thesis by (subst steps(1), subst steps(2), subst steps(3)) (simp add: fields_loop_quoted [simplified] split: prod.splits option.splits)
  next
    case quote
    have "length out + (length cs - j) \<le> mx" using "1.prems" skip_bounds [OF quote(3)] by linarith
    from "1.IH"(1) [OF quote "1.prems"(1) this, of fs] quote show ?thesis
      by (subst steps(1), subst steps(2), subst steps(3)) (simp add: fields_loop_quoted [simplified] split: prod.splits option.splits)
  next
    case left
    from "1.IH"(2) [OF left, of out fs] "1.prems" left show ?thesis by (subst steps(1), subst steps(2), subst steps(3)) (simp split: prod.splits option.splits)
  next
    case right
    then have "length out < mx" "d = 1" using "1.prems" by simp_all
    then show ?thesis using right by (subst steps(1), subst steps(2), subst steps(3)) (simp add: push_field_def split: prod.splits option.splits)
  next
    case up
    from "1.IH"(3) [OF up(1-4) _ up(5), of out fs] "1.prems" up show ?thesis by (subst steps(1), subst steps(2), subst steps(3)) (simp split: prod.splits option.splits)
  next
    case other
    then have push: "push_field mx out v off = (True, out @ [trim v])" for v off
      using "1.prems" by (simp add: push_field_def)
    have room: "length out + (length cs - (k + 1)) \<le> mx"
      "length (out @ [trim (slice fs k cs)]) + (length cs - (k + 1)) \<le> mx"
      using "1.prems" other by simp_all
    show ?thesis
    proof (cases "cs ! k = COMMA \<and> d = 1")
      case True
      then show ?thesis using "1.IH"(4) [OF other "1.prems"(1) room(2), of "k + 1"] other
        by (subst steps(1), subst steps(2), subst steps(3)) (simp add: push)
    next
      case False
      then have "fields_loop cs k d False fs out = fields_loop cs (k + 1) d False fs out"
        "walk_loop (push_field mx) cs k d fs out = walk_loop (push_field mx) cs (k + 1) d fs out"
        "scan_loop cs k d = scan_loop cs (k + 1) d"
        using other by (subst steps; auto)+
      then show ?thesis using "1.IH"(4) [OF other "1.prems"(1) room(1), of fs] by metis
    qed
  qed
qed

text \<open>C20: The two splitters of the crate, \<open>brace_list::fields\<close> with its flag for strings and the
  braced walk, give the same trimmed fields for every text and offset, and the first one's end is
  where the scanner ends the value.\<close>

theorem brace_list_is_the_walk:
  assumes "length bs \<le> mx"
  shows "brace_list_fields bs start =
    (case (split_plain (drop start bs) mx, scan_plain (drop start bs)) of
       (Some fs, Some e) \<Rightarrow> Some (fs, start + e) | _ \<Rightarrow> None)"
proof (cases "start < length bs \<and> bs ! start = LBRACE")
  case False
  then show ?thesis
    by (auto simp: brace_list_fields_def scan_plain_def hd_drop_conv_nth split: option.splits)
next
  case True
  let ?cs = "drop start bs"
  have cs: "?cs \<noteq> []" "?cs ! 0 = LBRACE" "length ?cs > 0" using True by simp_all
  have "fields_loop bs (start + 0) 0 False (start + 1) []
      = map_option (apsnd ((+) start)) (fields_loop ?cs 0 0 False 1 [])"
    using True by (intro fields_loop_shift) simp
  also have "fields_loop ?cs 0 0 False 1 [] = fields_loop ?cs 1 1 False 1 []"
    using cs by (subst fields_loop.simps) simp
  also have "\<dots> = (case walk_loop (push_field mx) ?cs 1 1 1 [] of
      (None, _) \<Rightarrow> None | (Some _, r) \<Rightarrow> map_option (Pair r) (scan_loop ?cs 1 1))"
    using assms by (intro fields_loop_walk) simp_all
  finally have list: "brace_list_fields bs start
      = map_option (apsnd ((+) start)) (case walk_loop (push_field mx) ?cs 1 1 1 [] of
      (None, _) \<Rightarrow> None | (Some _, r) \<Rightarrow> map_option (Pair r) (scan_loop ?cs 1 1))"
    using True by (simp add: brace_list_fields_def)
  have "scan_plain ?cs = scan_loop ?cs 1 1"
    using cs True scan_loop_step(1) [of 0 ?cs 0] by (simp add: scan_plain_def hd_drop_conv_nth)
  moreover have "walk_1c_braced_fields (push_field mx) ?cs [] = walk_loop (push_field mx) ?cs 1 1 1 []"
    using cs True
    by (simp add: walk_1c_braced_fields_def hd_drop_conv_nth)
      (subst walk_loop.simps, simp)
  ultimately show ?thesis using list
    by (auto simp: split_plain_def split: option.splits prod.splits)
qed

theorem brace_list_is_the_walk_witness:
  "brace_list_fields (body sample_text) 3 = Some ([[50], [34, 97, 44, 34]], 11)"
proof -
  have "length (body sample_text) \<le> 15" by code_simp
  from brace_list_is_the_walk [OF this, of 3]
  have "brace_list_fields (body sample_text) 3 =
    (case (split_plain (drop 3 (body sample_text)) 15, scan_plain (drop 3 (body sample_text))) of
       (Some fs, Some e) \<Rightarrow> Some (fs, 3 + e) | _ \<Rightarrow> None)" .
  also have "split_plain (drop 3 (body sample_text)) 15 = Some [[50], [34, 97, 44, 34]]" by code_simp
  also have "scan_plain (drop 3 (body sample_text)) = Some 8" by code_simp
  finally show ?thesis by simp
qed

text \<open>\<open>split_1c_braced_sequence\<close> checks the first and the last byte of the text, not that they
  belong to one value: \<open>{{1}\<close> is read as the list of \<open>{1}\<close>.\<close>

lemma sequence_of_unbalanced_text:
  "split_1c_braced_sequence [LBRACE, LBRACE, 49, RBRACE] = Some [[LBRACE, 49, RBRACE]]"
  "scan_plain [LBRACE, LBRACE, 49, RBRACE] = None"
  by code_simp+

end
