(* ===== verification/Text_Strings.thy ===== *)
theory Text_Strings
  imports Text_Braced
begin

text \<open>
  \<open>crates/ibcmd-1c-text/src/strings.rs\<close>: 1C string literals, read and written, and the CR LF line
  breaks of a stored string.  A literal doubles its quotes, and interrupts itself to escape a UTF-16
  code unit: a quote, a backslash and four lowercase hexadecimal digits.
\<close>

abbreviation BACKSLASH :: u8 where "BACKSLASH \<equiv> 92"
abbreviation CR :: u8 where "CR \<equiv> 13"
abbreviation LF :: u8 where "LF \<equiv> 10"

section \<open>Characters of a UTF-8 text\<close>

text \<open>The length of the character that a leading byte starts, and the bytes of a scalar value.\<close>

definition len_utf8 :: "u8 \<Rightarrow> nat" where
  "len_utf8 b = (if b < 0x80 then 1 else if b < 0xE0 then 2 else if b < 0xF0 then 3 else 4)"

definition char_from_u32 :: "nat \<Rightarrow> nat option" where
  "char_from_u32 n = (if n < 0xD800 \<or> 0xE000 \<le> n \<and> n < 0x110000 then Some n else None)"

definition encode_utf8 :: "nat \<Rightarrow> bytes" where
  "encode_utf8 n =
     (if n < 0x80 then [of_nat n]
      else if n < 0x800 then [of_nat (0xC0 + n div 64), of_nat (0x80 + n mod 64)]
      else if n < 0x10000 then
        [of_nat (0xE0 + n div 4096), of_nat (0x80 + n div 64 mod 64), of_nat (0x80 + n mod 64)]
      else [of_nat (0xF0 + n div 262144), of_nat (0x80 + n div 4096 mod 64),
            of_nat (0x80 + n div 64 mod 64), of_nat (0x80 + n mod 64)])"

text \<open>A text is a sequence of characters: a leading byte and its continuation bytes.  Every
  \<open>str\<close> is one.\<close>

definition is_continuation :: "u8 \<Rightarrow> bool" where
  "is_continuation b = (0x80 \<le> b \<and> b < 0xC0)"

lemma len_utf8_pos [simp]: "0 < len_utf8 b" "len_utf8 b \<noteq> 0"
  by (simp_all add: len_utf8_def)

function utf8_text :: "bytes \<Rightarrow> bool" where
  "utf8_text bs =
     (if bs = [] then True
      else \<not> is_continuation (hd bs)
         \<and> len_utf8 (hd bs) \<le> length bs
         \<and> list_all is_continuation (take (len_utf8 (hd bs) - 1) (tl bs))
         \<and> utf8_text (drop (len_utf8 (hd bs)) bs))"
  by pat_completeness auto
termination
  by (relation "measure length") auto

declare utf8_text.simps [simp del]

section \<open>Reading a literal\<close>

definition is_lower_hex :: "u8 \<Rightarrow> bool" where
  "is_lower_hex b = (48 \<le> b \<and> b \<le> 57 \<or> 97 \<le> b \<and> b \<le> 102)"

definition hex_value :: "u8 \<Rightarrow> nat" where
  "hex_value b = (if b \<le> 57 then unat b - 48 else unat b - 87)"

definition parse_1c_string_escape_unit :: "bytes \<Rightarrow> nat option" where
  "parse_1c_string_escape_unit input =
     (case input of
        [] \<Rightarrow> None
      | b # rest \<Rightarrow>
          if b \<noteq> BACKSLASH \<or> length rest < 4 \<or> \<not> list_all is_lower_hex (take 4 rest) then None
          else Some (foldl (\<lambda>n d. 16 * n + hex_value d) 0 (take 4 rest)))"

text \<open>The loop of \<open>parse_1c_quoted_string_with_len\<close>.\<close>

function quoted_loop ::
  "bytes \<Rightarrow> nat \<Rightarrow> bytes \<Rightarrow> nat option \<Rightarrow> (bytes \<times> nat) option" where
  "quoted_loop input index output pending_high =
     (if index \<ge> length input then None
      else if input ! index \<noteq> QUOTE then
        (if pending_high \<noteq> None then None
         else
           let n = len_utf8 (input ! index) in
           quoted_loop input (index + n) (output @ slice index (index + n) input) None)
      else
        let rest = drop (index + 1) input in
        if rest \<noteq> [] \<and> hd rest = QUOTE then
          (if pending_high \<noteq> None then None
           else quoted_loop input (index + 2) (output @ [QUOTE]) None)
        else
          (case parse_1c_string_escape_unit rest of
             Some u \<Rightarrow>
               if 0xD800 \<le> u \<and> u \<le> 0xDBFF then
                 (if pending_high \<noteq> None then None
                  else quoted_loop input (index + 6) output (Some u))
               else if 0xDC00 \<le> u \<and> u \<le> 0xDFFF then
                 (case pending_high of
                    None \<Rightarrow> None
                  | Some high \<Rightarrow>
                      (case char_from_u32 (0x10000 + (high - 0xD800) * 1024 + (u - 0xDC00)) of
                         None \<Rightarrow> None
                       | Some c \<Rightarrow> quoted_loop input (index + 6) (output @ encode_utf8 c) None))
               else if pending_high \<noteq> None then None
               else
                 (case char_from_u32 u of
                    None \<Rightarrow> None
                  | Some c \<Rightarrow> quoted_loop input (index + 6) (output @ encode_utf8 c) None)
           | None \<Rightarrow>
               if pending_high \<noteq> None then None else Some (output, index + 1)))"
  by pat_completeness auto
termination
  by (relation "measure (\<lambda>(input, index, output, pending). length input - index)")
    (auto intro!: diff_less_mono2)

declare quoted_loop.simps [simp del]

definition parse_1c_quoted_string_with_len :: "bytes \<Rightarrow> (bytes \<times> nat) option" where
  "parse_1c_quoted_string_with_len input =
     (if input = [] \<or> hd input \<noteq> QUOTE then None else quoted_loop input 1 [] None)"

definition parse_1c_quoted_string :: "bytes \<Rightarrow> bytes option" where
  "parse_1c_quoted_string input = map_option fst (parse_1c_quoted_string_with_len input)"

text \<open>\<open>parse_1c_string\<close>: the simpler reader, for a field that is one literal without escapes.\<close>

fun undouble_quotes :: "bytes \<Rightarrow> bytes" where
  "undouble_quotes (a # b # bs) =
     (if a = QUOTE \<and> b = QUOTE then QUOTE # undouble_quotes bs else a # undouble_quotes (b # bs))"
| "undouble_quotes bs = bs"

definition parse_1c_string :: "bytes \<Rightarrow> bytes option" where
  "parse_1c_string input =
     (case trim input of
        [] \<Rightarrow> None
      | b # rest \<Rightarrow>
          if b \<noteq> QUOTE \<or> rest = [] \<or> last rest \<noteq> QUOTE then None
          else Some (undouble_quotes (butlast rest)))"

section \<open>Writing a literal\<close>

definition double_quotes :: "bytes \<Rightarrow> bytes" where
  "double_quotes v = concat (map (\<lambda>b. if b = QUOTE then [QUOTE, QUOTE] else [b]) v)"

definition format_1c_string :: "bytes \<Rightarrow> bytes" where
  "format_1c_string v = QUOTE # double_quotes v @ [QUOTE]"

section \<open>Every literal of a text\<close>

lemma find_quote_drop: "find_quote (drop i bs) = Some k \<Longrightarrow> i + k < length bs"
  by (auto dest!: find_quote_bound)

lemma quoted_loop_progress:
  "quoted_loop input index acc p = Some (v, n) \<Longrightarrow> index < n"
proof (induction input index acc p rule: quoted_loop.induct)
  case (1 input index acc p)
  note step = "1.prems" [unfolded quoted_loop.simps [of input index acc p]]
  show ?case
    using step "1.IH"
    by (auto simp: Let_def split: if_splits option.splits) (fastforce intro: less_trans)+
qed

function synonym_values :: "bytes \<Rightarrow> nat \<Rightarrow> bytes list" where
  "synonym_values input offset =
     (case find_quote (drop offset input) of
        None \<Rightarrow> []
      | Some relative \<Rightarrow>
          let at = offset + relative in
          (case parse_1c_quoted_string_with_len (drop at input) of
             None \<Rightarrow> []
           | Some (v, consumed) \<Rightarrow> v # synonym_values input (at + consumed)))"
  by pat_completeness auto
termination
  by (relation "measure (\<lambda>(input, offset). length input - offset)")
    (auto simp: parse_1c_quoted_string_with_len_def
       dest!: find_quote_drop quoted_loop_progress split: if_splits)

declare synonym_values.simps [simp del]

fun whole_pairs :: "'a list \<Rightarrow> ('a \<times> 'a) list" where
  "whole_pairs (lang # content # rest) = (lang, content) # whole_pairs rest"
| "whole_pairs _ = []"

definition parse_1c_synonyms :: "bytes \<Rightarrow> (bytes \<times> bytes) list" where
  "parse_1c_synonyms input = whole_pairs (synonym_values input 0)"

section \<open>Line breaks\<close>

fun crlf_loop :: "u8 \<Rightarrow> bytes \<Rightarrow> bytes" where
  "crlf_loop previous [] = []"
| "crlf_loop previous (b # bs) =
     (if b = LF \<and> previous \<noteq> CR then [CR, b] else [b]) @ crlf_loop b bs"

definition crlf_line_breaks :: "bytes \<Rightarrow> bytes" where
  "crlf_line_breaks bs = crlf_loop 0 bs"

end
