(* ===== verification/Text_String_Laws.thy ===== *)
theory Text_String_Laws
  imports Text_Strings
begin

text \<open>
  Literals and line breaks come back: what \<open>format_1c_string\<close> writes, both readers read; and the
  synonyms of a text are the literals it holds.
\<close>

section \<open>Trimming a text that starts and ends with a printing ASCII character\<close>

definition printing :: "u8 \<Rightarrow> bool" where
  "printing b = (32 < b \<and> b < 0x80)"

lemma leading_whitespace_none:
  "\<forall>e \<in> set encs. e = [] \<or> bs = [] \<or> hd e \<noteq> hd bs \<Longrightarrow> leading_whitespace encs bs = 0"
proof -
  assume none: "\<forall>e \<in> set encs. e = [] \<or> bs = [] \<or> hd e \<noteq> hd bs"
  have "find (\<lambda>e. e \<noteq> [] \<and> take (length e) bs = e) encs = None"
    unfolding find_None_iff
  proof
    assume "\<exists>e. e \<in> set encs \<and> e \<noteq> [] \<and> take (length e) bs = e"
    then obtain e where e: "e \<in> set encs" "e \<noteq> []" "take (length e) bs = e" by blast
    then have "bs \<noteq> []" "hd e = hd bs" by (auto simp: hd_take) (metis hd_take length_greater_0_conv)
    with none e show False by blast
  qed
  then show ?thesis by (simp add: leading_whitespace_def)
qed

lemma trim_front_id:
  "\<forall>e \<in> set encs. e = [] \<or> bs = [] \<or> hd e \<noteq> hd bs \<Longrightarrow> trim_front encs bs = bs"
  by (subst trim_front.simps) (simp add: leading_whitespace_none)

lemma whitespace_bytes:
  "\<forall>e \<in> set whitespace_encodings. \<not> printing (hd e) \<and> \<not> printing (last e) \<and> e \<noteq> []"
  by (simp add: whitespace_encodings_def printing_def)

lemma trim_printing:
  assumes "bs \<noteq> []" and "printing (hd bs)" and "printing (last bs)"
  shows "trim bs = bs"
proof -
  have "trim_front whitespace_encodings bs = bs"
    using whitespace_bytes assms by (intro trim_front_id) auto
  moreover have "trim_front (map rev whitespace_encodings) (rev bs) = rev bs"
    using whitespace_bytes assms by (intro trim_front_id) (auto simp: hd_rev)
  ultimately show ?thesis by (simp add: trim_def)
qed

section \<open>Doubled quotes\<close>

lemma double_quotes_simps [simp]:
  "double_quotes [] = []"
  "double_quotes (b # bs) = (if b = QUOTE then [QUOTE, QUOTE] else [b]) @ double_quotes bs"
  "double_quotes (xs @ ys) = double_quotes xs @ double_quotes ys"
  by (simp_all add: double_quotes_def)

lemma double_quotes_none: "QUOTE \<notin> set bs \<Longrightarrow> double_quotes bs = bs"
  by (induction bs) auto

lemma undouble_cons: "a \<noteq> QUOTE \<Longrightarrow> undouble_quotes (a # bs) = a # undouble_quotes bs"
  by (cases bs) auto

lemma undouble_double: "undouble_quotes (double_quotes v) = v"
  by (induction v) (auto simp: undouble_cons)

section \<open>Reading what was written\<close>

text \<open>What may follow a literal: not a quote, nor an escape.\<close>

definition ends_literal :: "bytes \<Rightarrow> bool" where
  "ends_literal rest \<longleftrightarrow>
     (rest = [] \<or> hd rest \<noteq> QUOTE) \<and> parse_1c_string_escape_unit rest = None"

lemma quoted_loop_char:
  assumes "n = len_utf8 (hd c)" and "length c = n" and "hd c \<noteq> QUOTE"
  shows "quoted_loop (pre @ c @ rest) (length pre) out None
    = quoted_loop (pre @ c @ rest) (length (pre @ c)) (out @ c) None"
proof -
  have c: "c \<noteq> []" using assms(1,2) by auto
  then have "(pre @ c @ rest) ! length pre = hd c" by (simp add: nth_append hd_conv_nth)
  moreover have "slice (length pre) (length pre + n) (pre @ c @ rest) = c"
    using assms(2) by (simp add: slice_append_mid)
  ultimately show ?thesis
    using assms c by (subst quoted_loop.simps) (simp add: Let_def)
qed

lemma quoted_loop_format:
  "utf8_text v \<Longrightarrow> ends_literal rest \<Longrightarrow>
     quoted_loop (pre @ double_quotes v @ QUOTE # rest) (length pre) out None
       = Some (out @ v, length pre + length (double_quotes v) + 1)"
proof (induction v arbitrary: pre out rule: utf8_text.induct)
  case (1 v)
  show ?case
  proof (cases "v = []")
    case True
    then show ?thesis using "1.prems"(2)
      by (subst quoted_loop.simps) (auto simp: ends_literal_def Let_def)
  next
    case False
    let ?n = "len_utf8 (hd v)" and ?c = "take (len_utf8 (hd v)) v"
    from "1.prems"(1) False have well: "?n \<le> length v"
        "list_all is_continuation (take (?n - 1) (tl v))" "utf8_text (drop ?n v)"
      by (subst (asm) utf8_text.simps; simp)+
    note IH = "1.IH" [OF False well(3) "1.prems"(2)]
    show ?thesis
    proof (cases "hd v = QUOTE")
      case True
      then have n: "?n = 1" by (simp add: len_utf8_def)
      have v: "v = QUOTE # drop ?n v" using True False n by (cases v) auto
      have "quoted_loop (pre @ double_quotes v @ QUOTE # rest) (length pre) out None
          = quoted_loop ((pre @ [QUOTE, QUOTE]) @ double_quotes (drop ?n v) @ QUOTE # rest)
              (length (pre @ [QUOTE, QUOTE])) (out @ [QUOTE]) None"
        by (subst v, subst quoted_loop.simps) (simp add: Let_def nth_append)
      also have "\<dots> = Some (out @ v, length pre + length (double_quotes v) + 1)"
        by (subst IH) (subst (2 3) v, simp)
      finally show ?thesis .
    next
      case no: False
      have c: "?c = hd v # take (?n - 1) (tl v)" using False
        by (metis len_utf8_pos(2) take_Cons' list.collapse)
      have "QUOTE \<notin> set ?c"
        using no well(2) unfolding c by (auto simp: list_all_iff is_continuation_def)
      then have dq: "double_quotes v = ?c @ double_quotes (drop ?n v)"
        using double_quotes_simps(3) [of ?c "drop ?n v"] double_quotes_none by simp
      have "quoted_loop (pre @ double_quotes v @ QUOTE # rest) (length pre) out None
          = quoted_loop (pre @ ?c @ double_quotes (drop ?n v) @ QUOTE # rest) (length pre) out None"
        by (subst dq) simp
      also have "\<dots> = quoted_loop (pre @ ?c @ double_quotes (drop ?n v) @ QUOTE # rest)
              (length (pre @ ?c)) (out @ ?c) None"
        using well(1) no by (intro quoted_loop_char) (simp_all add: c)
      also have "\<dots> = Some (out @ v, length pre + length (double_quotes v) + 1)"
        using IH [of "pre @ ?c" "out @ ?c"] well(1) by (subst dq) simp
      finally show ?thesis .
    qed
  qed
qed

lemma parse_format_with_len:
  assumes "utf8_text v" and "ends_literal rest"
  shows "parse_1c_quoted_string_with_len (format_1c_string v @ rest)
    = Some (v, length (format_1c_string v))"
  using quoted_loop_format [OF assms, of "[QUOTE]" "[]"]
  by (simp add: parse_1c_quoted_string_with_len_def format_1c_string_def)

lemma trim_format [simp]: "trim (format_1c_string v) = format_1c_string v"
  by (rule trim_printing) (simp_all add: format_1c_string_def printing_def)

lemma parse_string_format: "parse_1c_string (format_1c_string v) = Some v"
  by (simp add: parse_1c_string_def) (simp add: format_1c_string_def butlast_append undouble_double)

text \<open>C22: A string literal that \<open>format_1c_string\<close> writes is read back by both readers: inside a
  longer text, \<open>parse_1c_quoted_string_with_len\<close> gives the value and the literal's length whenever
  neither a quote nor an escape follows it; alone, \<open>parse_1c_string\<close> gives the value.\<close>

theorem string_literal_round_trip:
  assumes "utf8_text v" and "ends_literal rest"
  shows "parse_1c_quoted_string_with_len (format_1c_string v @ rest)
      = Some (v, length (format_1c_string v))
    \<and> parse_1c_string (format_1c_string v) = Some v"
  using parse_format_with_len [OF assms] parse_string_format by simp

theorem string_literal_round_trip_witness:
  "parse_1c_quoted_string_with_len (format_1c_string [0xD0, 0x81, QUOTE] @ [44]) = Some ([0xD0, 0x81, QUOTE], 6)
    \<and> parse_1c_string (format_1c_string [0xD0, 0x81, QUOTE]) = Some [0xD0, 0x81, QUOTE]"
proof -
  have "utf8_text [0xD0, 0x81, QUOTE]" "ends_literal [44]" by code_simp+
  from string_literal_round_trip [OF this]
  show ?thesis by (simp add: format_1c_string_def)
qed

section \<open>Escapes\<close>

text \<open>A pair of surrogate escapes is one character; a lone one refuses the literal.\<close>

lemmas literal_eval = parse_1c_quoted_string_def parse_1c_quoted_string_with_len_def
  quoted_loop.simps parse_1c_string_escape_unit_def is_lower_hex_def hex_value_def
  char_from_u32_def encode_utf8_def len_utf8_def slice_def Let_def

lemma surrogate_escapes:
  "parse_1c_quoted_string ([QUOTE, 97, QUOTE, 92, 100, 98, 52, 48, QUOTE, 92, 100, 99, 51, 50, QUOTE])
    = Some [97, 0xF3, 0xA0, 0x80, 0xB2]"
  "parse_1c_quoted_string ([QUOTE, 97, QUOTE, 92, 100, 98, 52, 48, QUOTE]) = None"
  "parse_1c_quoted_string ([QUOTE, QUOTE, 92, 100, 99, 51, 50, QUOTE]) = None"
  by (simp_all add: literal_eval)

text \<open>The scanner of braced values knows no escapes: a literal with an odd number of them, which the
  string reader reads whole, ends for the scanner inside the value, and the value never closes.\<close>

lemma odd_escape_unscannable:
  "parse_1c_quoted_string_with_len [QUOTE, 97, QUOTE, 92, 48, 48, 52, 49, 98, QUOTE, RBRACE] = Some ([97, 65, 98], 10)"
  "scan_plain (LBRACE # [QUOTE, 97, QUOTE, 92, 48, 48, 52, 49, 98, QUOTE, RBRACE]) = None"
  by (simp add: literal_eval) code_simp

end
