(* ===== verification/Text_Value.thy ===== *)
theory Text_Value
  imports Text_Brace_List Text_String_Laws
begin

text \<open>
  What the braced texts spell: an abstract syntax of braced values and its text.  Splitting the text
  of a list gives the texts of its items, and the scanner ends it where it ends, in any surrounding
  text and through any registered jump tables.
\<close>

section \<open>Braced values and their text\<close>

datatype braced = Atom bytes | Str bytes | Braced "braced list"

fun join :: "bytes list \<Rightarrow> bytes" where
  "join [] = []"
| "join [x] = x"
| "join (x # y # zs) = x @ COMMA # join (y # zs)"

fun render :: "braced \<Rightarrow> bytes" where
  "render (Atom a) = a"
| "render (Str v) = format_1c_string v"
| "render (Braced vs) = LBRACE # join (map render vs) @ [RBRACE]"

text \<open>An atom is trimmed and holds no delimiter; a string is any text.\<close>

fun wf_braced :: "braced \<Rightarrow> bool" where
  "wf_braced (Atom a) \<longleftrightarrow> set a \<inter> {QUOTE, COMMA, LBRACE, RBRACE} = {} \<and> trim a = a"
| "wf_braced (Str v) \<longleftrightarrow> True"
| "wf_braced (Braced vs) \<longleftrightarrow> list_all wf_braced vs"

lemma trim_render: "wf_braced v \<Longrightarrow> trim (render v) = render v"
  by (cases v) (auto intro!: trim_printing simp: printing_def)

section \<open>Passing over an item\<close>

text \<open>What follows an item of a list.\<close>

definition after_item :: "bytes \<Rightarrow> bool" where
  "after_item rest \<longleftrightarrow> rest \<noteq> [] \<and> (hd rest = COMMA \<or> hd rest = RBRACE)"

lemma after_item_simps [simp]:
  "after_item (COMMA # rest)" "after_item (RBRACE # rest)" "\<not> after_item []"
  by (simp_all add: after_item_def)

lemma skip_body:
  assumes "rest = [] \<or> hd rest \<noteq> QUOTE"
  shows "skip_1c_string_body (pre @ double_quotes v @ QUOTE # rest) (length pre)
    = Some (length pre + length (double_quotes v) + 1)"
proof (induction v arbitrary: pre)
  case Nil
  then show ?case using assms by (subst skip_step(4)) (auto simp: nth_append hd_conv_nth)
next
  case (Cons b v)
  show ?case
  proof (cases "b = QUOTE")
    case True
    then show ?thesis using Cons.IH [of "pre @ [QUOTE, QUOTE]"]
      by (subst skip_step(3)) (simp_all add: nth_append)
  next
    case False
    then show ?thesis using Cons.IH [of "pre @ [b]"]
      by (subst skip_step(2)) (simp_all add: nth_append)
  qed
qed

lemma over_atom:
  assumes "set a \<inter> {QUOTE, COMMA, LBRACE, RBRACE} = {}"
  shows "scan_loop (pre @ a @ rest) (length pre) d = scan_loop (pre @ a @ rest) (length pre + length a) d"
    and "walk_loop field (pre @ a @ rest) (length pre) 1 fs st
      = walk_loop field (pre @ a @ rest) (length pre + length a) 1 fs st"
  using assms
proof (induction a arbitrary: pre)
  case (Cons b a)
  {
    case 1
    then show ?case using Cons.IH(1) [of "pre @ [b]"]
      by (subst scan_loop.simps) (simp add: nth_append)
  next
    case 2
    then show ?case using Cons.IH(2) [of "pre @ [b]"]
      by (subst walk_loop.simps) (simp add: nth_append)
  }
qed simp_all

lemma over_string:
  assumes "after_item rest"
  shows "scan_loop (pre @ format_1c_string v @ rest) (length pre) d
      = scan_loop (pre @ format_1c_string v @ rest) (length pre + length (format_1c_string v)) d"
    and "walk_loop field (pre @ format_1c_string v @ rest) (length pre) 1 fs st
      = walk_loop field (pre @ format_1c_string v @ rest) (length pre + length (format_1c_string v)) 1 fs st"
proof -
  have "rest = [] \<or> hd rest \<noteq> QUOTE" using assms by (auto simp: after_item_def)
  from skip_body [OF this, of "pre @ [QUOTE]" v]
  have skip: "skip_1c_string_body (pre @ format_1c_string v @ rest) (length pre + 1)
      = Some (length pre + length (format_1c_string v))"
    by (simp add: format_1c_string_def)
  have quote: "(pre @ format_1c_string v @ rest) ! length pre = QUOTE"
    "length pre < length (pre @ format_1c_string v @ rest)" "format_1c_string v \<noteq> []"
    by (simp_all add: format_1c_string_def nth_append)
  show "scan_loop (pre @ format_1c_string v @ rest) (length pre) d
      = scan_loop (pre @ format_1c_string v @ rest) (length pre + length (format_1c_string v)) d"
    using skip quote by (subst scan_loop.simps) simp
  show "walk_loop field (pre @ format_1c_string v @ rest) (length pre) 1 fs st
      = walk_loop field (pre @ format_1c_string v @ rest) (length pre + length (format_1c_string v)) 1 fs st"
    using skip quote by (subst walk_loop.simps) simp
qed

text \<open>\<open>passes v\<close>: inside a value, the scan passes over the text of \<open>v\<close>.\<close>

definition passes :: "braced \<Rightarrow> bool" where
  "passes v \<longleftrightarrow> (\<forall>pre rest d. after_item rest \<longrightarrow> 1 \<le> d \<longrightarrow>
     scan_loop (pre @ render v @ rest) (length pre) d
       = scan_loop (pre @ render v @ rest) (length pre + length (render v)) d)"

lemma over_items:
  "\<forall>v \<in> set vs. passes v \<Longrightarrow> 1 \<le> d \<Longrightarrow>
     scan_loop (pre @ join (map render vs) @ RBRACE # rest) (length pre) d
       = scan_loop (pre @ join (map render vs) @ RBRACE # rest) (length pre + length (join (map render vs))) d"
proof (induction vs arbitrary: pre rule: induct_list012)
  case (2 v)
  then show ?case by (simp add: passes_def)
next
  case (3 v w vs)
  let ?tail = "COMMA # join (map render (w # vs)) @ RBRACE # rest"
  have "scan_loop (pre @ render v @ ?tail) (length pre) d
      = scan_loop (pre @ render v @ ?tail) (length pre + length (render v)) d"
    using 3(3,4) by (simp add: passes_def)
  also have "\<dots> = scan_loop (pre @ render v @ ?tail) (length pre + length (render v) + 1) d"
    by (subst scan_loop_step(5)) (simp_all add: nth_append)
  finally show ?case
    using 3(2) [of "pre @ render v @ [COMMA]"] 3(3,4) by (simp add: add.assoc)
qed simp

lemma braced_end:
  assumes "\<forall>v \<in> set vs. passes v" and "1 \<le> d"
  shows "scan_loop (pre @ render (Braced vs) @ rest) (length pre + 1) d =
    (if d = 1 then Some (length pre + length (render (Braced vs)))
     else scan_loop (pre @ render (Braced vs) @ rest) (length pre + length (render (Braced vs))) (d - 1))"
proof -
  let ?bs = "pre @ render (Braced vs) @ rest"
  let ?i = "length pre + 1 + length (join (map render vs))"
  have "scan_loop ?bs (length pre + 1) d = scan_loop ?bs ?i d"
    using over_items [OF assms, of "pre @ [LBRACE]" rest] by simp
  also have "\<dots> = (if d = 1 then Some (?i + 1) else scan_loop ?bs (?i + 1) (d - 1))"
    using assms(2) by (subst scan_loop.simps) (auto simp: nth_append)
  finally show ?thesis by simp
qed

lemma passes_wf: "wf_braced v \<Longrightarrow> passes v"
proof (induction v)
  case (Atom a)
  then show ?case by (simp add: passes_def over_atom)
next
  case (Str v)
  then show ?case by (simp add: passes_def over_string)
next
  case (Braced vs)
  then have items: "\<forall>v \<in> set vs. passes v" by (simp add: list_all_iff)
  show ?case
    unfolding passes_def
  proof (intro allI impI)
    fix pre rest and d :: nat
    assume d: "1 \<le> d"
    let ?bs = "pre @ render (Braced vs) @ rest"
    have "scan_loop ?bs (length pre) d = scan_loop ?bs (length pre + 1) (d + 1)"
      by (rule scan_loop_step(1)) (simp_all add: nth_append)
    then show "scan_loop ?bs (length pre) d
        = scan_loop ?bs (length pre + length (render (Braced vs))) d"
      using braced_end [OF items, of "d + 1" pre rest] d by simp
  qed
qed

lemma walk_over:
  assumes "wf_braced v" and "after_item rest"
  shows "walk_loop field (pre @ render v @ rest) (length pre) 1 fs st
    = walk_loop field (pre @ render v @ rest) (length pre + length (render v)) 1 fs st"
proof (cases v)
  case (Braced vs)
  let ?bs = "pre @ render v @ rest"
  have "\<forall>v \<in> set vs. passes v" using assms(1) Braced passes_wf by (simp add: list_all_iff)
  from braced_end [OF this, of 1 pre rest] Braced
  have "scan_loop ?bs (length pre + 1) 1 = Some (length pre + length (render v))" by simp
  from walk_skip [OF this, of field fs st] show ?thesis
    using Braced by (subst walk_loop.simps) (simp add: nth_append)
next
  case (Atom a)
  then show ?thesis using assms over_atom(2) [of a, where field = field and pre = pre and rest = rest and fs = fs and st = st] by simp
next
  case (Str v)
  then show ?thesis using assms over_string(2) [of rest, where field = field and pre = pre and v = v and fs = fs and st = st] by simp
qed

section \<open>Collecting the items\<close>

lemma push_step:
  "wf_braced v \<Longrightarrow> push_field mx acc (render v) k
     = (if length acc \<ge> mx then (False, acc) else (True, acc @ [render v]))"
  by (simp add: push_field_def trim_render)

lemma walk_items:
  "list_all wf_braced vs \<Longrightarrow> vs \<noteq> [] \<Longrightarrow>
     (let bs = pre @ join (map render vs) @ RBRACE # rest;
          walked = walk_loop (push_field mx) bs (length pre) 1 (length pre) acc in
      if length acc + length vs \<le> mx then walked = (Some (), acc @ map render vs)
      else fst walked = None)"
proof (induction vs arbitrary: pre acc rule: induct_list012)
  case (2 v)
  let ?bs = "pre @ render v @ RBRACE # rest"
  have "walk_loop (push_field mx) ?bs (length pre) 1 (length pre) acc
      = walk_loop (push_field mx) ?bs (length pre + length (render v)) 1 (length pre) acc"
    using 2 by (intro walk_over) simp_all
  also have "\<dots> = (case push_field mx acc (render v) (length pre) of
      (ok, st') \<Rightarrow> (if ok then Some () else None, st'))"
    by (subst walk_loop.simps) (simp add: nth_append slice_append_mid)
  finally show ?case using 2 push_step [of v mx acc "length pre"] by (simp add: Let_def)
next
  case (3 v w vs)
  let ?tail = "join (map render (w # vs)) @ RBRACE # rest"
  let ?bs = "pre @ render v @ COMMA # ?tail"
  let ?i = "length pre + length (render v)"
  have over: "walk_loop (push_field mx) ?bs (length pre) 1 (length pre) acc
      = walk_loop (push_field mx) ?bs ?i 1 (length pre) acc"
    using 3(3) by (intro walk_over) simp_all
  have step: "walk_loop (push_field mx) ?bs ?i 1 (length pre) acc
      = (if length acc \<ge> mx then (None, acc)
         else walk_loop (push_field mx) ?bs (?i + 1) 1 (?i + 1) (acc @ [render v]))"
    using 3(3) push_step [of v mx acc "length pre"]
    by (subst walk_loop.simps) (simp add: nth_append slice_append_mid)
  show ?case
    using 3(2) [of "pre @ render v @ [COMMA]" "acc @ [render v]"] 3(3) over step
    by (auto simp: Let_def)
qed simp

lemma split_render:
  assumes "list_all wf_braced vs" and "vs \<noteq> []"
  shows "split_plain (render (Braced vs) @ rest) mx
      = (if length vs \<le> mx then Some (map render vs) else None)"
proof -
  let ?bs = "render (Braced vs) @ rest"
  have "walk_1c_braced_fields (push_field mx) ?bs [] = walk_loop (push_field mx) ?bs 1 1 1 []"
    by (simp add: walk_1c_braced_fields_def) (subst walk_loop.simps, simp)
  then show ?thesis
    using walk_items [OF assms, of "[LBRACE]" rest mx "[]"]
    by (auto simp: split_plain_def Let_def split: option.splits prod.splits if_splits)
qed

lemma scan_render:
  assumes "list_all wf_braced vs"
  shows "scan_plain (render (Braced vs) @ rest) = Some (length (render (Braced vs)))"
proof -
  let ?bs = "render (Braced vs) @ rest"
  have "\<forall>v \<in> set vs. passes v" using assms passes_wf by (simp add: list_all_iff)
  from braced_end [OF this, of 1 "[]" rest]
  have "scan_loop ?bs 1 1 = Some (length (render (Braced vs)))" by simp
  moreover have "scan_loop ?bs 0 0 = scan_loop ?bs 1 1" by (subst scan_loop_step(1)) simp_all
  ultimately show ?thesis by (simp add: scan_plain_def)
qed

text \<open>C21: Reading back a list: at the text of a list of one or more braced values, anywhere in a text
  and through any registered tables, the splitter answers the texts of the items (or nothing, when
  there are more than asked for), and the scanner the end of the list.\<close>

theorem braced_list_reads_back:
  assumes "tables_over mem tables" and "stands_in mem s" and "is_char_boundary (body s) start"
    and "drop start (body s) = render (Braced vs) @ rest" and "wf_braced (Braced vs)" and "vs \<noteq> []"
  shows "split_1c_braced_fields_bounded tables s start mx
      = Some (if length vs \<le> mx then Some (map render vs) else None)
    \<and> scan_1c_braced_value tables s start = Some (Some (start + length (render (Braced vs))))"
proof -
  let ?rest = "\<lparr>ptr = ptr s + start, body = drop start (body s)\<rparr>"
  have at: "str_from s start = Some ?rest" using assms(3) by (simp add: str_from_def)
  note stands = str_from_stands(2) [OF at assms(2)]
  have "list_all wf_braced vs" using assms(5) by simp
  note plain = split_render [OF this assms(6), of rest mx] scan_render [OF this, of rest]
  have "split_1c_braced_fields_bounded tables s start mx
      = Some (if length vs \<le> mx then Some (map render vs) else None)"
    using split_jumped_walk [OF assms(1) stands, of mx] at plain assms(4)
    by (auto simp: split_1c_braced_fields_bounded_def)
  moreover have "scan_1c_braced_value tables s start = Some (Some (start + length (render (Braced vs))))"
    using brace_jump_end_scan [OF assms(1) stands] at plain assms(4)
    by (auto simp: scan_1c_braced_value_def)
  ultimately show ?thesis ..
qed

theorem braced_list_reads_back_witness:
  "split_1c_braced_fields_bounded [build_brace_jumps sample_text] sample_text 3 9
      = Some (Some [[50], [34, 97, 44, 34]])
    \<and> scan_1c_braced_value [build_brace_jumps sample_text] sample_text 3 = Some (Some 11)"
proof -
  have boundary: "is_char_boundary (body sample_text) 3" by code_simp
  have item: "drop 3 (body sample_text) = render (Braced [Atom [50], Str [97, 44]]) @ [44, 32, 120, 125]"
    by code_simp
  have wf: "wf_braced (Braced [Atom [50], Str [97, 44]])" by code_simp
  from braced_list_reads_back [OF sample_stands(2,1) boundary item wf, of 9]
  show ?thesis by (simp add: format_1c_string_def)
qed

end
