(* ===== verification/Text_Xml.thy ===== *)
theory Text_Xml
  imports Text_String_Laws
begin

text \<open>
  \<open>crates/ibcmd-1c-text/src/xml.rs\<close> and \<open>paths.rs\<close>: the XML escaping of the text that the writers
  export, and the file-name segment of a name; and the line breaks of \<open>strings.rs\<close>, which the
  export turns back.
\<close>

section \<open>Escaping\<close>

text \<open>\<open>&amp;\<close>, \<open>&lt;\<close>, \<open>&gt;\<close>, \<open>&quot;\<close>\<close>

definition AMP :: bytes where "AMP = [38, 97, 109, 112, 59]"
definition LT :: bytes where "LT = [38, 108, 116, 59]"
definition GT :: bytes where "GT = [38, 103, 116, 59]"
definition QUOT :: bytes where "QUOT = [38, 113, 117, 111, 116, 59]"

definition xml_bool :: "bool \<Rightarrow> bytes" where
  "xml_bool v = (if v then [116, 114, 117, 101] else [102, 97, 108, 115, 101])"

definition escape_text_char :: "u8 \<Rightarrow> bytes" where
  "escape_text_char b =
     (if b = 38 then AMP else if b = 60 then LT else if b = 62 then GT else if b = QUOTE then QUOT
      else [b])"

definition escape_xml_text :: "bytes \<Rightarrow> bytes" where
  "escape_xml_text bs = concat (map escape_text_char bs)"

definition escape_data_char :: "u8 \<Rightarrow> bytes" where
  "escape_data_char b = (if b = 38 then AMP else if b = 60 then LT else if b = 62 then GT else [b])"

definition escape_xml_character_data :: "bytes \<Rightarrow> bytes" where
  "escape_xml_character_data bs = concat (map escape_data_char bs)"

text \<open>\<open>value.replace("\r\n", "\n")\<close>\<close>

fun lf_breaks :: "bytes \<Rightarrow> bytes" where
  "lf_breaks (a # b # bs) =
     (if a = CR \<and> b = LF then LF # lf_breaks bs else a # lf_breaks (b # bs))"
| "lf_breaks bs = bs"

definition escape_xml_element_text :: "bytes \<Rightarrow> bytes" where
  "escape_xml_element_text bs = concat (map escape_data_char (lf_breaks bs))"

text \<open>What an XML reader makes of character data: the predefined entities resolved.\<close>

function resolve_entities :: "bytes \<Rightarrow> bytes" where
  "resolve_entities bs =
     (if bs = [] then []
      else if take 5 bs = AMP then 38 # resolve_entities (drop 5 bs)
      else if take 4 bs = LT then 60 # resolve_entities (drop 4 bs)
      else if take 4 bs = GT then 62 # resolve_entities (drop 4 bs)
      else if take 6 bs = QUOT then QUOTE # resolve_entities (drop 6 bs)
      else hd bs # resolve_entities (tl bs))"
  by pat_completeness auto
termination
  by (relation "measure length") auto

declare resolve_entities.simps [simp del]

lemma resolve_entity:
  "resolve_entities [] = []"
  "resolve_entities (AMP @ bs) = 38 # resolve_entities bs"
  "resolve_entities (LT @ bs) = 60 # resolve_entities bs"
  "resolve_entities (GT @ bs) = 62 # resolve_entities bs"
  "resolve_entities (QUOT @ bs) = QUOTE # resolve_entities bs"
  "b \<noteq> 38 \<Longrightarrow> resolve_entities (b # bs) = b # resolve_entities bs"
  by (subst resolve_entities.simps, simp add: AMP_def LT_def GT_def QUOT_def)+

lemma resolve_text: "resolve_entities (escape_xml_text bs) = bs"
  by (induction bs) (auto simp: escape_xml_text_def escape_text_char_def resolve_entity)

lemma resolve_data: "resolve_entities (concat (map escape_data_char bs)) = bs"
  by (induction bs) (auto simp: escape_data_char_def resolve_entity)

lemma markup_free:
  "{60, 62, QUOTE} \<inter> set (escape_xml_text bs) = {}"
  "{60, 62} \<inter> set (concat (map escape_data_char bs)) = {}"
  by (induction bs)
    (auto simp: escape_xml_text_def escape_text_char_def escape_data_char_def AMP_def LT_def GT_def
       QUOT_def)

text \<open>Escaped text holds no markup character, and an XML reader that resolves the predefined
  entities gets the value back (with CR LF read as LF, where the export normalises line breaks).\<close>

theorem xml_escapes_come_back:
  "{60, 62, QUOTE} \<inter> set (escape_xml_text v) = {} \<and> resolve_entities (escape_xml_text v) = v
   \<and> {60, 62} \<inter> set (escape_xml_character_data v) = {}
   \<and> resolve_entities (escape_xml_character_data v) = v
   \<and> {60, 62} \<inter> set (escape_xml_element_text v) = {}
   \<and> resolve_entities (escape_xml_element_text v) = lf_breaks v"
  by (simp add: escape_xml_character_data_def escape_xml_element_text_def resolve_text resolve_data
      markup_free del: set_concat set_map)

section \<open>Line breaks\<close>

lemma crlf_loop_idem: "crlf_loop p (crlf_loop p bs) = crlf_loop p bs"
  by (induction p bs rule: crlf_loop.induct) auto

lemma lf_breaks_cons: "\<not> (b = CR \<and> bs \<noteq> [] \<and> hd bs = LF) \<Longrightarrow> lf_breaks (b # bs) = b # lf_breaks bs"
  by (cases bs) auto

lemma crlf_loop_any: "bs = [] \<or> hd bs \<noteq> LF \<Longrightarrow> crlf_loop p bs = crlf_loop q bs"
  by (cases bs) auto

lemma lf_breaks_crlf: "p \<noteq> CR \<Longrightarrow> lf_breaks (crlf_loop p bs) = lf_breaks bs"
proof (induction bs arbitrary: p rule: lf_breaks.induct)
  case (1 a b bs)
  consider (break) "a = CR" "b = LF" | (lf) "a = LF" | (cr) "a = CR" "b \<noteq> LF"
    | (plain) "a \<noteq> CR" "a \<noteq> LF"
    by blast
  then show ?case
  proof cases
    case break
    then show ?thesis using "1.IH"(1) [of LF] by (simp add: lf_breaks_cons)
  next
    case lf
    then show ?thesis using "1.IH"(2) [of LF] "1.prems" by (simp add: lf_breaks_cons)
  next
    case cr
    then have "crlf_loop CR (b # bs) = crlf_loop 0 (b # bs)" by simp
    then show ?thesis using "1.IH"(2) [of 0] cr by (simp add: lf_breaks_cons)
  next
    case plain
    then show ?thesis using "1.IH"(2) [of a] by (simp add: lf_breaks_cons)
  qed
qed auto

text \<open>A stored string: every carriage return is half of a CR LF.\<close>

fun stored_breaks :: "bytes \<Rightarrow> bool" where
  "stored_breaks (a # b # bs) =
     (if a = CR then b = LF \<and> stored_breaks bs else a \<noteq> LF \<and> stored_breaks (b # bs))"
| "stored_breaks [a] = (a \<noteq> CR \<and> a \<noteq> LF)"
| "stored_breaks [] = True"

lemma crlf_of_stored: "stored_breaks bs \<Longrightarrow> p \<noteq> CR \<Longrightarrow> crlf_loop p (lf_breaks bs) = bs"
  by (induction bs arbitrary: p rule: stored_breaks.induct) (auto split: if_splits)

text \<open>Storing line breaks as CR LF is idempotent, the export to LF undoes it whatever the text,
  and a stored string (every CR half of a CR LF) survives export and import unchanged.\<close>

theorem line_breaks_come_back:
  assumes "stored_breaks s"
  shows "crlf_line_breaks (crlf_line_breaks v) = crlf_line_breaks v
    \<and> escape_xml_element_text (crlf_line_breaks v) = escape_xml_element_text v
    \<and> crlf_line_breaks (resolve_entities (escape_xml_element_text s)) = s"
  using assms
  by (simp add: crlf_line_breaks_def crlf_loop_idem escape_xml_element_text_def lf_breaks_crlf
      resolve_data crlf_of_stored)

theorem line_breaks_come_back_witness:
  "crlf_line_breaks (resolve_entities (escape_xml_element_text [97, CR, LF, 98])) = [97, CR, LF, 98]"
  using line_breaks_come_back [of "[97, CR, LF, 98]"] by simp

section \<open>File-name segments\<close>

text \<open>\<open>sanitize_source_path_segment\<close>: a control character is one of U+0000 to U+001F, U+007F, or
  U+0080 to U+009F, whose encodings start with \<open>C2\<close>.\<close>

definition UNDERSCORE :: u8 where "UNDERSCORE = 95"

definition reserved_byte :: "u8 \<Rightarrow> bool" where
  "reserved_byte b =
     (b < 32 \<or> b = 127 \<or> b \<in> {60, 62, 58, QUOTE, 47, BACKSLASH, 124, 63, 42})"

definition high_control :: "bytes \<Rightarrow> bool" where
  "high_control bs =
     (case bs of a # b # _ \<Rightarrow> a = 0xC2 \<and> 0x80 \<le> b \<and> b < 0xA0 | _ \<Rightarrow> False)"

function sanitize_loop :: "bytes \<Rightarrow> bytes" where
  "sanitize_loop bs =
     (if bs = [] then []
      else
        let n = len_utf8 (hd bs) in
        (if reserved_byte (hd bs) \<or> high_control bs then [UNDERSCORE] else take n bs)
          @ sanitize_loop (drop n bs))"
  by pat_completeness auto
termination
  by (relation "measure length") auto

declare sanitize_loop.simps [simp del]

definition UNNAMED :: bytes where
  "UNNAMED = [85, 110, 110, 97, 109, 101, 100]"

definition sanitize_source_path_segment :: "bytes \<Rightarrow> bytes" where
  "sanitize_source_path_segment v =
     (let out = sanitize_loop v in if trim out = [] then UNNAMED else out)"

text \<open>No character of a text is reserved or a control character.\<close>

function clean_text :: "bytes \<Rightarrow> bool" where
  "clean_text bs =
     (if bs = [] then True
      else \<not> reserved_byte (hd bs) \<and> \<not> high_control bs
         \<and> clean_text (drop (len_utf8 (hd bs)) bs))"
  by pat_completeness auto
termination
  by (relation "measure length") auto

declare clean_text.simps [simp del]

lemma high_control_prefix:
  "hd bs \<noteq> 0xC2 \<or> 2 \<le> length bs \<and> take 2 cs = take 2 bs \<Longrightarrow> bs \<noteq> [] \<Longrightarrow> cs \<noteq> [] \<Longrightarrow> hd cs = hd bs \<Longrightarrow>
     high_control cs = high_control bs"
  by (auto simp: high_control_def take_Suc_conv_app_nth neq_Nil_conv numeral_2_eq_2
      split: list.splits)

text \<open>A whole character in front of anything reads as it did in front of the rest of the text.\<close>

lemma character_in_front:
  assumes "bs \<noteq> []" and "len_utf8 (hd bs) \<le> length bs"
  shows "hd (take (len_utf8 (hd bs)) bs @ ys) = hd bs"
    and "high_control (take (len_utf8 (hd bs)) bs @ ys) = high_control bs"
    and "drop (len_utf8 (hd bs)) (take (len_utf8 (hd bs)) bs @ ys) = ys"
proof -
  show hd: "hd (take (len_utf8 (hd bs)) bs @ ys) = hd bs"
    using assms by (simp add: hd_append)
  have "hd bs = 0xC2 \<Longrightarrow> len_utf8 (hd bs) = 2" by (simp add: len_utf8_def)
  then show "high_control (take (len_utf8 (hd bs)) bs @ ys) = high_control bs"
    using assms hd by (intro high_control_prefix) auto
  show "drop (len_utf8 (hd bs)) (take (len_utf8 (hd bs)) bs @ ys) = ys"
    using assms by simp
qed

lemma underscore_in_front:
  "hd (UNDERSCORE # ys) = UNDERSCORE" "len_utf8 UNDERSCORE = 1" "\<not> reserved_byte UNDERSCORE"
  "\<not> high_control (UNDERSCORE # ys)"
  by (simp_all add: UNDERSCORE_def len_utf8_def reserved_byte_def high_control_def split: list.splits)

lemma sanitize_loop_clean: "utf8_text bs \<Longrightarrow> clean_text (sanitize_loop bs)"
proof (induction bs rule: sanitize_loop.induct)
  case (1 bs)
  show ?case
  proof (cases "bs = []")
    case True
    then show ?thesis by (subst sanitize_loop.simps, subst clean_text.simps) simp
  next
    case False
    let ?rest = "sanitize_loop (drop (len_utf8 (hd bs)) bs)"
    from "1.prems" False have len: "len_utf8 (hd bs) \<le> length bs"
      and "utf8_text (drop (len_utf8 (hd bs)) bs)"
      by (subst (asm) utf8_text.simps; simp)+
    then have rest: "clean_text ?rest" using "1.IH" False by simp
    show ?thesis
    proof (cases "reserved_byte (hd bs) \<or> high_control bs")
      case True
      then have "sanitize_loop bs = UNDERSCORE # ?rest"
        using False by (subst sanitize_loop.simps) (auto simp: Let_def)
      then show ?thesis using rest by (subst clean_text.simps) (simp add: underscore_in_front)
    next
      case clean: False
      then have "sanitize_loop bs = take (len_utf8 (hd bs)) bs @ ?rest"
        using False by (subst sanitize_loop.simps) (auto simp: Let_def)
      then show ?thesis
        using rest clean character_in_front [OF False len, of ?rest]
        by (subst clean_text.simps) simp
    qed
  qed
qed

lemma sanitize_loop_of_clean: "clean_text bs \<Longrightarrow> sanitize_loop bs = bs"
proof (induction bs rule: clean_text.induct)
  case (1 bs)
  show ?case
  proof (cases "bs = []")
    case False
    then have "\<not> reserved_byte (hd bs)" "\<not> high_control bs"
        "clean_text (drop (len_utf8 (hd bs)) bs)"
      using "1.prems" by (subst (asm) clean_text.simps; simp)+
    then show ?thesis using "1.IH" False by (subst sanitize_loop.simps) (simp add: Let_def)
  qed (subst sanitize_loop.simps, simp)
qed

lemma clean_unnamed: "clean_text UNNAMED" "trim UNNAMED \<noteq> []"
  by code_simp+

text \<open>The file-name segment of any name is not blank, holds no reserved and no control character,
  and is its own segment.\<close>

theorem path_segments_are_clean:
  assumes "utf8_text v"
  shows "clean_text (sanitize_source_path_segment v)
    \<and> trim (sanitize_source_path_segment v) \<noteq> []
    \<and> sanitize_source_path_segment (sanitize_source_path_segment v) = sanitize_source_path_segment v"
  using sanitize_loop_clean [OF assms] sanitize_loop_of_clean clean_unnamed
  by (simp add: sanitize_source_path_segment_def Let_def)

theorem path_segments_are_clean_witness:
  "clean_text (sanitize_source_path_segment [97, 60, 0xC2, 0x85, 98])
    \<and> sanitize_source_path_segment [97, 60, 0xC2, 0x85, 98] = [97, UNDERSCORE, UNDERSCORE, 98]"
proof -
  have "utf8_text [97, 60, 0xC2, 0x85, 98]" by code_simp
  from path_segments_are_clean [OF this]
  have "clean_text (sanitize_source_path_segment [97, 60, 0xC2, 0x85, 98])" by simp
  moreover have "sanitize_source_path_segment [97, 60, 0xC2, 0x85, 98] = [97, UNDERSCORE, UNDERSCORE, 98]"
    by code_simp
  ultimately show ?thesis ..
qed

end
