(* ===== verification/Text_Fields.thy ===== *)
theory Text_Fields
  imports Text_String_Laws
begin

text \<open>
  \<open>crates/ibcmd-1c-text/src/fields.rs\<close>: the scalar fields of a braced value (identifiers, flags,
  numbers, dates), the scan of a text for the identifiers it names, and the base64 payload of a
  \<open>{#base64:...}\<close> value.
\<close>

unbundle bit_operations_syntax

section \<open>Identifiers\<close>

definition HYPHEN :: u8 where "HYPHEN = 45"

definition is_digit_byte :: "u8 \<Rightarrow> bool" where
  "is_digit_byte b = (48 \<le> b \<and> b \<le> 57)"

definition is_hexdigit :: "u8 \<Rightarrow> bool" where
  "is_hexdigit b = (is_digit_byte b \<or> 65 \<le> b \<and> b \<le> 70 \<or> 97 \<le> b \<and> b \<le> 102)"

definition is_uuid_text :: "bytes \<Rightarrow> bool" where
  "is_uuid_text v = (length v = 36 \<and> list_all (\<lambda>b. is_hexdigit b \<or> b = HYPHEN) v)"

definition parse_uuid_field :: "bytes \<Rightarrow> bytes option" where
  "parse_uuid_field v0 = (let v = trim v0 in if is_uuid_text v then Some v else None)"

definition zero_uuid :: bytes where
  "zero_uuid = replicate 8 48 @ [HYPHEN] @ replicate 4 48 @ [HYPHEN] @ replicate 4 48 @ [HYPHEN]
     @ replicate 4 48 @ [HYPHEN] @ replicate 12 48"

definition parse_non_zero_uuid :: "bytes \<Rightarrow> bytes option" where
  "parse_non_zero_uuid v =
     (case parse_uuid_field v of
        None \<Rightarrow> None
      | Some uuid \<Rightarrow> if uuid = zero_uuid then None else Some uuid)"

definition is_uuid_like_ascii :: "bytes \<Rightarrow> bool" where
  "is_uuid_like_ascii v =
     (length v = 36
      \<and> (\<forall>i < length v. if i \<in> {8, 13, 18, 23} then v ! i = HYPHEN else is_hexdigit (v ! i)))"

definition to_ascii_lowercase :: "bytes \<Rightarrow> bytes" where
  "to_ascii_lowercase v = map (\<lambda>b. if 65 \<le> b \<and> b \<le> 90 then b + 32 else b) v"

text \<open>The scan over the windows of 36 bytes; \<open>seen\<close> is the code's ordered set.\<close>

fun uuid_scan :: "bytes \<Rightarrow> nat list \<Rightarrow> bytes set \<Rightarrow> bytes list \<Rightarrow> bytes list" where
  "uuid_scan bs [] seen vs = vs"
| "uuid_scan bs (start # starts) seen vs =
     (let w = slice start (start + 36) bs in
      if is_uuid_like_ascii w then
        (let v = to_ascii_lowercase w in
         if v \<in> seen then uuid_scan bs starts seen vs
         else uuid_scan bs starts (insert v seen) (vs @ [v]))
      else uuid_scan bs starts seen vs)"

definition uuid_like_values_in_text_order :: "bytes \<Rightarrow> bytes list" where
  "uuid_like_values_in_text_order bs =
     (if length bs < 36 then [] else uuid_scan bs [0..<length bs - 36 + 1] {} [])"

definition uuid_like_values :: "bytes \<Rightarrow> bytes set" where
  "uuid_like_values bs = set (uuid_like_values_in_text_order bs)"

section \<open>Flags, numbers, dates\<close>

definition parse_1c_bool_flag :: "bytes \<Rightarrow> bool option" where
  "parse_1c_bool_flag v = (if v = [48] then Some False else if v = [49] then Some True else None)"

definition parse_1c_bool_field :: "bytes option \<Rightarrow> bool option" where
  "parse_1c_bool_field v = (case v of None \<Rightarrow> None | Some b \<Rightarrow> parse_1c_bool_flag (trim b))"

definition parse_1c_bool_field_or_default :: "bytes option \<Rightarrow> bool \<Rightarrow> bool option" where
  "parse_1c_bool_field_or_default v d =
     (case v of None \<Rightarrow> Some d | Some b \<Rightarrow> parse_1c_bool_field (Some b))"

text \<open>\<open>u32::from_str\<close>: an optional plus sign, then decimal digits, with overflow refused.\<close>

fun u32_digits :: "nat \<Rightarrow> bytes \<Rightarrow> nat option" where
  "u32_digits n [] = Some n"
| "u32_digits n (b # bs) =
     (if \<not> is_digit_byte b \<or> 10 * n + (unat b - 48) > u32_max then None
      else u32_digits (10 * n + (unat b - 48)) bs)"

definition u32_from_str :: "bytes \<Rightarrow> nat option" where
  "u32_from_str v =
     (let digits = (if v \<noteq> [] \<and> hd v = 43 then tl v else v) in
      if digits = [] then None else u32_digits 0 digits)"

definition parse_1c_u32_field :: "bytes option \<Rightarrow> nat option" where
  "parse_1c_u32_field v = (case v of None \<Rightarrow> None | Some b \<Rightarrow> u32_from_str (trim b))"

definition format_1c_date_time :: "bytes \<Rightarrow> bytes option" where
  "format_1c_date_time v =
     (if length v \<noteq> 14 \<or> \<not> list_all is_digit_byte v then None
      else Some (slice 0 4 v @ [HYPHEN] @ slice 4 6 v @ [HYPHEN] @ slice 6 8 v @ [84]
        @ slice 8 10 v @ [58] @ slice 10 12 v @ [58] @ slice 12 14 v))"

section \<open>Base64\<close>

definition BASE64_PREFIX :: bytes where
  "BASE64_PREFIX = [LBRACE, 35, 98, 97, 115, 101, 54, 52, 58]"

text \<open>\<open>str::find\<close> of a pattern.\<close>

fun find_sub :: "bytes \<Rightarrow> bytes \<Rightarrow> nat option" where
  "find_sub pat [] = (if pat = [] then Some 0 else None)"
| "find_sub pat (b # bs) =
     (if take (length pat) (b # bs) = pat then Some 0 else map_option Suc (find_sub pat bs))"

definition extract_base64_payload :: "bytes \<Rightarrow> bytes option" where
  "extract_base64_payload txt =
     (case find_sub BASE64_PREFIX txt of
        None \<Rightarrow> None
      | Some k \<Rightarrow>
          let start = k + length BASE64_PREFIX in
          (case find_sub [RBRACE] (drop start txt) of
             None \<Rightarrow> None
           | Some e \<Rightarrow> Some (slice start (e + start) txt)))"

definition base64_value :: "u8 \<Rightarrow> u8 option" where
  "base64_value b =
     (if 65 \<le> b \<and> b \<le> 90 then Some (b - 65)
      else if 97 \<le> b \<and> b \<le> 122 then Some (b - 97 + 26)
      else if 48 \<le> b \<and> b \<le> 57 then Some (b - 48 + 52)
      else if b = 43 then Some 62
      else if b = 47 then Some 63
      else None)"

definition EQUALS :: u8 where "EQUALS = 61"

text \<open>The loop over the characters of a group: the four values and the padding seen.\<close>

fun decode_chars :: "nat \<Rightarrow> bytes \<Rightarrow> u8 list \<Rightarrow> nat \<Rightarrow> (u8 list \<times> nat) option" where
  "decode_chars index [] decoded padding = Some (decoded, padding)"
| "decode_chars index (b # bs) decoded padding =
     (if b = EQUALS then decode_chars (index + 1) bs (decoded[index := 0]) (padding + 1)
      else if padding > 0 then None
      else
        (case base64_value b of
           None \<Rightarrow> None
         | Some v \<Rightarrow> decode_chars (index + 1) bs (decoded[index := v]) padding))"

definition group_bytes :: "u8 list \<Rightarrow> nat \<Rightarrow> bytes" where
  "group_bytes d padding =
     [push_bit 2 (d ! 0) OR drop_bit 4 (d ! 1)]
     @ (if padding < 2 then [push_bit 4 (d ! 1) OR drop_bit 2 (d ! 2)] else [])
     @ (if padding < 1 then [push_bit 6 (d ! 2) OR d ! 3] else [])"

fun decode_groups :: "bytes list \<Rightarrow> bytes \<Rightarrow> bytes option" where
  "decode_groups [] out = Some out"
| "decode_groups (chunk # rest) out =
     (case decode_chars 0 chunk [0, 0, 0, 0] 0 of
        None \<Rightarrow> None
      | Some (decoded, padding) \<Rightarrow>
          if padding > 2 then None else decode_groups rest (out @ group_bytes decoded padding))"

definition decode_base64_mime :: "bytes \<Rightarrow> bytes option" where
  "decode_base64_mime input =
     (let values = filter (\<lambda>b. \<not> is_ascii_whitespace b) input in
      if length values mod 4 \<noteq> 0 then None else decode_groups (chunks 4 values) [])"

fun decode_groups_lenient :: "bytes list \<Rightarrow> bytes \<Rightarrow> bytes option" where
  "decode_groups_lenient [] out = Some out"
| "decode_groups_lenient (chunk # rest) out =
     (case decode_chars 0 chunk [0, 0, 0, 0] 0 of
        None \<Rightarrow> None
      | Some (decoded, padding) \<Rightarrow> decode_groups_lenient rest (out @ group_bytes decoded padding))"

definition decode_base64_mime_lenient :: "bytes \<Rightarrow> bytes option" where
  "decode_base64_mime_lenient input =
     (let values = filter (\<lambda>b. \<not> is_ascii_whitespace b) input in
      if length values mod 4 \<noteq> 0 then None else decode_groups_lenient (chunks 4 values) [])"

definition ALPHABET :: bytes where
  "ALPHABET = map of_nat ([65..<91] @ [97..<123] @ [48..<58] @ [43, 47])"

definition encode_chunk :: "bytes \<Rightarrow> bytes" where
  "encode_chunk chunk =
     (let first = chunk ! 0;
          second = (if 1 < length chunk then chunk ! 1 else 0);
          third = (if 2 < length chunk then chunk ! 2 else 0) in
      [ALPHABET ! unat (drop_bit 2 first),
       ALPHABET ! unat (push_bit 4 (first AND 3) OR drop_bit 4 second),
       if length chunk > 1 then ALPHABET ! unat (push_bit 2 (second AND 15) OR drop_bit 6 third)
       else EQUALS,
       if length chunk > 2 then ALPHABET ! unat (third AND 63) else EQUALS])"

definition encode_base64 :: "bytes \<Rightarrow> bytes" where
  "encode_base64 bs = concat (map encode_chunk (chunks 3 bs))"

definition platform_base64_token :: "bytes \<Rightarrow> bytes" where
  "platform_base64_token bs =
     BASE64_PREFIX
     @ concat (map (\<lambda>line. line @ (if length line = 64 then [13, 13, 10] else []))
         (chunks 64 (encode_base64 bs)))
     @ [RBRACE]"

end
