(* ===== verification/Text_Field_Laws.thy ===== *)
theory Text_Field_Laws
  imports Text_Fields
begin

text \<open>
  Base64 comes back through both decoders and through the stored \<open>{#base64:...}\<close> token; the lenient
  decoder reads everything the strict one reads; the identifier scan names every identifier once.
\<close>

section \<open>The alphabet\<close>

lemma alphabet_table:
  "list_all (\<lambda>i. base64_value (ALPHABET ! i) = Some (of_nat i) \<and> ALPHABET ! i \<noteq> EQUALS
     \<and> \<not> is_ascii_whitespace (ALPHABET ! i) \<and> ALPHABET ! i \<noteq> RBRACE) [0..<64]"
  by code_simp

lemma alphabet:
  fixes w :: u8
  assumes "w < 64"
  shows "base64_value (ALPHABET ! unat w) = Some w" "ALPHABET ! unat w \<noteq> EQUALS"
    "\<not> is_ascii_whitespace (ALPHABET ! unat w)" "ALPHABET ! unat w \<noteq> RBRACE"
  using alphabet_table assms by (auto simp: list_all_iff word_less_nat_alt)

lemma below_64:
  fixes a b :: u8
  shows "drop_bit 2 a < 64" "push_bit 4 (a AND 3) OR drop_bit 4 b < 64"
    "push_bit 2 (a AND 15) OR drop_bit 6 b < 64" "a AND 63 < 64"
    "push_bit 4 (a AND 3) < 64" "push_bit 2 (a AND 15) < 64"
proof -
  have small: "w AND 63 = w \<Longrightarrow> w < 64" for w :: u8
    using word_and_le1 [of w 63] by (simp add: word_le_nat_alt word_less_nat_alt)
  have mask: "63 = (mask 6 :: u8)" "3 = (mask 2 :: u8)" "15 = (mask 4 :: u8)"
    by (simp_all add: mask_eq_exp_minus_1)
  show "drop_bit 2 a < 64" "push_bit 4 (a AND 3) OR drop_bit 4 b < 64"
    "push_bit 2 (a AND 15) OR drop_bit 6 b < 64" "a AND 63 < 64"
    "push_bit 4 (a AND 3) < 64" "push_bit 2 (a AND 15) < 64"
    by (rule small, unfold mask, rule bit_word_eqI, auto simp: bit_simps dest: bit_imp_le_length)+
qed

text \<open>Reassembling the bytes of a group.\<close>

lemma regroup:
  fixes a b c :: u8
  shows "push_bit 2 (drop_bit 2 a) OR drop_bit 4 (push_bit 4 (a AND 3) OR drop_bit 4 b) = a"
    "push_bit 4 (push_bit 4 (a AND 3) OR drop_bit 4 b)
       OR drop_bit 2 (push_bit 2 (b AND 15) OR drop_bit 6 c) = b"
    "push_bit 6 (push_bit 2 (b AND 15) OR drop_bit 6 c) OR (c AND 63) = c"
proof -
  have mask: "63 = (mask 6 :: u8)" "3 = (mask 2 :: u8)" "15 = (mask 4 :: u8)"
    by (simp_all add: mask_eq_exp_minus_1)
  have eight: "n = 0 \<or> n = 1 \<or> n = 2 \<or> n = 3 \<or> n = 4 \<or> n = 5 \<or> n = 6 \<or> n = 7"
    if "n < LENGTH(8)" for n
    using that by simp arith
  show "push_bit 2 (drop_bit 2 a) OR drop_bit 4 (push_bit 4 (a AND 3) OR drop_bit 4 b) = a"
    unfolding mask by (rule bit_word_eqI, drule eight) (elim disjE; simp add: bit_simps)
  show "push_bit 4 (push_bit 4 (a AND 3) OR drop_bit 4 b)
       OR drop_bit 2 (push_bit 2 (b AND 15) OR drop_bit 6 c) = b"
    unfolding mask by (rule bit_word_eqI, drule eight) (elim disjE; simp add: bit_simps)
  show "push_bit 6 (push_bit 2 (b AND 15) OR drop_bit 6 c) OR (c AND 63) = c"
    unfolding mask by (rule bit_word_eqI, drule eight) (elim disjE; simp add: bit_simps)
qed

section \<open>A group and the whole\<close>

lemma length_encode_chunk [simp]: "length (encode_chunk c) = 4"
  by (simp add: encode_chunk_def Let_def)

lemma chunk_cases:
  assumes "c \<noteq> []" and "length c \<le> 3"
  obtains (one) a where "c = [a]" | (two) a b where "c = [a, b]" | (three) a b e where "c = [a, b, e]"
  using assms
  by (cases c rule: list.exhaust; cases "tl c"; cases "tl (tl c)"; cases "tl (tl (tl c))") auto

lemma encode_chunk_simps:
  "encode_chunk [a] = [ALPHABET ! unat (drop_bit 2 a),
     ALPHABET ! unat (push_bit 4 (a AND 3) OR drop_bit 4 0), EQUALS, EQUALS]"
  "encode_chunk [a, b] = [ALPHABET ! unat (drop_bit 2 a),
     ALPHABET ! unat (push_bit 4 (a AND 3) OR drop_bit 4 b),
     ALPHABET ! unat (push_bit 2 (b AND 15) OR drop_bit 6 0), EQUALS]"
  "encode_chunk [a, b, e] = [ALPHABET ! unat (drop_bit 2 a),
     ALPHABET ! unat (push_bit 4 (a AND 3) OR drop_bit 4 b),
     ALPHABET ! unat (push_bit 2 (b AND 15) OR drop_bit 6 e), ALPHABET ! unat (e AND 63)]"
  by (simp_all add: encode_chunk_def Let_def)

lemma decode_sextets:
  fixes x y z w :: u8
  shows "x < 64 \<Longrightarrow> y < 64 \<Longrightarrow>
      decode_chars 0 [ALPHABET ! unat x, ALPHABET ! unat y, EQUALS, EQUALS] [0, 0, 0, 0] 0
        = Some ([x, y, 0, 0], 2)"
    and "x < 64 \<Longrightarrow> y < 64 \<Longrightarrow> z < 64 \<Longrightarrow>
      decode_chars 0 [ALPHABET ! unat x, ALPHABET ! unat y, ALPHABET ! unat z, EQUALS] [0, 0, 0, 0] 0
        = Some ([x, y, z, 0], 1)"
    and "x < 64 \<Longrightarrow> y < 64 \<Longrightarrow> z < 64 \<Longrightarrow> w < 64 \<Longrightarrow>
      decode_chars 0 [ALPHABET ! unat x, ALPHABET ! unat y, ALPHABET ! unat z, ALPHABET ! unat w]
        [0, 0, 0, 0] 0 = Some ([x, y, z, w], 0)"
  by (simp_all add: alphabet numeral_2_eq_2 numeral_3_eq_3)

lemma group_round_trip:
  assumes "c \<noteq> []" and "length c \<le> 3"
  obtains d p where "decode_chars 0 (encode_chunk c) [0, 0, 0, 0] 0 = Some (d, p)" "p \<le> 2"
    "group_bytes d p = c"
  using assms
proof (cases rule: chunk_cases)
  case (one a)
  show thesis
    using decode_sextets(1) [OF below_64(1,2), of a a 0] regroup(1) [of a 0] one
    by (intro that) (simp_all only: encode_chunk_simps, simp_all add: group_bytes_def)
next
  case (two a b)
  show thesis
    using decode_sextets(2) [OF below_64(1,2,3), of a a b b 0] regroup(1) [of a b] regroup(2) [of a b 0] two
    by (intro that) (simp_all only: encode_chunk_simps, simp_all add: group_bytes_def)
next
  case (three a b e)
  show thesis
    using decode_sextets(3) [OF below_64(1,2,3,4), of a a b b e e] regroup(1) [of a b]
      regroup(2) [of a b e] regroup(3) [of b e] three
    by (intro that) (simp_all only: encode_chunk_simps, simp_all add: group_bytes_def)
qed

lemma sextet_byte:
  fixes w :: u8
  shows "w < 64 \<Longrightarrow> \<not> is_ascii_whitespace (ALPHABET ! unat w) \<and> ALPHABET ! unat w \<noteq> RBRACE"
    and "\<not> is_ascii_whitespace EQUALS \<and> EQUALS \<noteq> RBRACE"
  by (simp add: alphabet) (simp add: EQUALS_def is_ascii_whitespace_def)

lemma encode_chunk_bytes:
  assumes "c \<noteq> []" and "length c \<le> 3"
  shows "list_all (\<lambda>b. \<not> is_ascii_whitespace b \<and> b \<noteq> RBRACE) (encode_chunk c)"
  using assms
proof (cases rule: chunk_cases)
  case (one a)
  show ?thesis unfolding one encode_chunk_simps list.pred_inject(2)
    by (intro conjI list.pred_inject(1) sextet_byte below_64 sextet_byte [THEN conjunct1] sextet_byte [THEN conjunct2])
next
  case (two a y)
  show ?thesis unfolding two encode_chunk_simps list.pred_inject(2)
    by (intro conjI list.pred_inject(1) sextet_byte below_64 sextet_byte [THEN conjunct1] sextet_byte [THEN conjunct2])
next
  case (three a y z)
  show ?thesis unfolding three encode_chunk_simps list.pred_inject(2)
    by (intro conjI list.pred_inject(1) sextet_byte below_64 sextet_byte [THEN conjunct1] sextet_byte [THEN conjunct2])
qed

lemma encode_bytes:
  assumes "b \<in> set (encode_base64 bs)"
  shows "\<not> is_ascii_whitespace b \<and> b \<noteq> RBRACE"
proof -
  obtain c where c: "c \<in> set (chunks 3 bs)" "b \<in> set (encode_chunk c)"
    using assms by (auto simp: encode_base64_def)
  then have "c \<noteq> []" "length c \<le> 3" using length_chunk [OF c(1)] by auto
  from encode_chunk_bytes [OF this] c(2) show ?thesis by (simp add: list_all_iff)
qed

lemma encode_step: "bs \<noteq> [] \<Longrightarrow> encode_base64 bs = encode_chunk (take 3 bs) @ encode_base64 (drop 3 bs)"
  by (simp add: encode_base64_def chunks_nonempty)

lemma length_encode: "length (encode_base64 bs) mod 4 = 0"
proof (induction "length bs" arbitrary: bs rule: less_induct)
  case less
  show ?case
  proof (cases "bs = []")
    case False
    then have "length (encode_base64 (drop 3 bs)) mod 4 = 0" by (intro less) simp
    then show ?thesis using False by (simp add: encode_step)
  qed (simp add: encode_base64_def)
qed

lemma decode_groups_encode: "decode_groups (chunks 4 (encode_base64 bs)) out = Some (out @ bs)"
proof (induction "length bs" arbitrary: bs out rule: less_induct)
  case less
  show ?case
  proof (cases "bs = []")
    case False
    then obtain d p where group: "decode_chars 0 (encode_chunk (take 3 bs)) [0, 0, 0, 0] 0 = Some (d, p)"
        "p \<le> 2" "group_bytes d p = take 3 bs"
      using group_round_trip [of "take 3 bs"] by auto
    have "encode_chunk (take 3 bs) \<noteq> []" using length_encode_chunk [of "take 3 bs"] by force
    then have "chunks 4 (encode_base64 bs) = encode_chunk (take 3 bs) # chunks 4 (encode_base64 (drop 3 bs))"
      using False by (subst chunks_nonempty) (simp_all add: encode_step)
    moreover have "decode_groups (chunks 4 (encode_base64 (drop 3 bs))) (out @ take 3 bs)
        = Some ((out @ take 3 bs) @ drop 3 bs)"
      using False by (intro less) simp
    ultimately show ?thesis using group by simp
  qed (simp add: encode_base64_def)
qed

lemma decode_encode: "filter (\<lambda>b. \<not> is_ascii_whitespace b) v = encode_base64 bs \<Longrightarrow>
    decode_base64_mime v = Some bs"
  by (simp add: decode_base64_mime_def Let_def length_encode decode_groups_encode)

text \<open>The lenient decoder extends the strict one.\<close>

lemma decode_groups_lenient: "decode_groups gs out = Some r \<Longrightarrow> decode_groups_lenient gs out = Some r"
  by (induction gs arbitrary: out) (auto split: option.splits if_splits)

lemma lenient_extends: "decode_base64_mime v = Some r \<Longrightarrow> decode_base64_mime_lenient v = Some r"
  by (auto simp: decode_base64_mime_def decode_base64_mime_lenient_def Let_def
      intro: decode_groups_lenient split: if_splits)

section \<open>The stored token\<close>

lemma find_sub_head: "take (length pat) bs = pat \<Longrightarrow> find_sub pat bs = Some 0"
  by (cases bs) auto

lemma find_brace: "RBRACE \<notin> set xs \<Longrightarrow> find_sub [RBRACE] (xs @ RBRACE # ys) = Some (length xs)"
  by (induction xs) auto

definition stored_lines :: "bytes \<Rightarrow> bytes" where
  "stored_lines v =
     concat (map (\<lambda>line. line @ (if length line = 64 then [13, 13, 10] else [])) (chunks 64 v))"

lemma stored_lines_bytes: "b \<in> set (stored_lines v) \<Longrightarrow> b \<in> set v \<union> {13, 10}"
proof -
  have "set (concat (chunks 64 v)) = set v" by (simp add: concat_chunks)
  then show "b \<in> set (stored_lines v) \<Longrightarrow> b \<in> set v \<union> {13, 10}"
    by (auto simp: stored_lines_def split: if_splits)
qed

lemma stored_lines_filter:
  assumes "\<forall>b \<in> set v. \<not> is_ascii_whitespace b"
  shows "filter (\<lambda>b. \<not> is_ascii_whitespace b) (stored_lines v) = v"
proof -
  have keep: "filter (\<lambda>b. \<not> is_ascii_whitespace b)
      (line @ (if length line = 64 then [13, 13, 10] else [])) = line"
    if "line \<in> set (chunks 64 v)" for line
  proof -
    have "set line \<subseteq> set (concat (chunks 64 v))" using that by auto
    then have "set line \<subseteq> set v" by (simp add: concat_chunks)
    then have "filter (\<lambda>b. \<not> is_ascii_whitespace b) line = line"
      using assms by (auto simp: filter_id_conv)
    then show ?thesis by (simp add: is_ascii_whitespace_def)
  qed
  have "filter (\<lambda>b. \<not> is_ascii_whitespace b) (stored_lines v)
      = concat (map (\<lambda>line. line) (chunks 64 v))"
    unfolding stored_lines_def filter_concat map_map o_def
    by (rule arg_cong [where f = concat], rule map_cong [OF refl]) (rule keep)
  then show ?thesis by (simp add: concat_chunks)
qed

lemma token_payload:
  "extract_base64_payload (platform_base64_token bs) = Some (stored_lines (encode_base64 bs))"
proof -
  let ?v = "stored_lines (encode_base64 bs)"
  have "RBRACE \<notin> set ?v"
    using stored_lines_bytes [of RBRACE "encode_base64 bs"] encode_bytes [of RBRACE bs] by auto
  from find_brace [OF this, of "[]"]
  have "find_sub [RBRACE] (?v @ [RBRACE]) = Some (length ?v)" by simp
  moreover have "platform_base64_token bs = BASE64_PREFIX @ ?v @ [RBRACE]"
    by (simp add: platform_base64_token_def stored_lines_def)
  ultimately show ?thesis
    by (simp add: extract_base64_payload_def find_sub_head slice_append_mid add.commute)
qed

text \<open>C23: Base64 comes back: what \<open>encode_base64\<close> writes, the strict and the lenient decoder read as
  the same bytes, also from the payload of the stored \<open>{#base64:...}\<close> token with its line breaks.\<close>

theorem base64_comes_back:
  "decode_base64_mime (encode_base64 bs) = Some bs
   \<and> decode_base64_mime_lenient (encode_base64 bs) = Some bs
   \<and> (\<exists>payload. extract_base64_payload (platform_base64_token bs) = Some payload
        \<and> decode_base64_mime payload = Some bs)"
proof -
  have ws: "\<forall>b \<in> set (encode_base64 bs). \<not> is_ascii_whitespace b" using encode_bytes by blast
  then have "filter (\<lambda>b. \<not> is_ascii_whitespace b) (encode_base64 bs) = encode_base64 bs"
    by (simp add: filter_id_conv)
  from decode_encode [OF this] decode_encode [OF stored_lines_filter [OF ws]]
  show ?thesis using lenient_extends token_payload by simp
qed

text \<open>The lenient decoder reads whatever the strict one reads, as the same bytes.\<close>

theorem lenient_decoder_extends_strict:
  assumes "decode_base64_mime v = Some r"
  shows "decode_base64_mime_lenient v = Some r"
  using assms by (rule lenient_extends)

theorem lenient_decoder_extends_strict_witness:
  "decode_base64_mime_lenient [81, 85, 73, 61] = Some [65, 66]"
proof -
  have "decode_base64_mime [81, 85, 73, 61] = Some [65, 66]" by code_simp
  then show ?thesis by (rule lenient_decoder_extends_strict)
qed

section \<open>The identifier scan\<close>

text \<open>The identifiers that the text names, by window.\<close>

definition uuid_at :: "bytes \<Rightarrow> nat \<Rightarrow> bytes option" where
  "uuid_at bs start =
     (let w = slice start (start + 36) bs in
      if is_uuid_like_ascii w then Some (to_ascii_lowercase w) else None)"

lemma uuid_scan_exact:
  "seen = set vs \<Longrightarrow> distinct vs \<Longrightarrow>
     set (uuid_scan bs starts seen vs) = set vs \<union> {v. \<exists>k \<in> set starts. uuid_at bs k = Some v}
     \<and> distinct (uuid_scan bs starts seen vs)"
proof (induction starts arbitrary: seen vs)
  case (Cons k starts)
  show ?case
  proof (cases "uuid_at bs k")
    case None
    then show ?thesis using Cons
      by (simp add: uuid_at_def Let_def split: if_splits)
  next
    case (Some v)
    then have step: "uuid_scan bs (k # starts) seen vs =
        (if v \<in> seen then uuid_scan bs starts seen vs
         else uuid_scan bs starts (insert v seen) (vs @ [v]))"
      by (simp add: uuid_at_def Let_def split: if_splits)
    show ?thesis
    proof (cases "v \<in> seen")
      case True
      then show ?thesis using Cons.IH [OF Cons.prems] Cons.prems step Some by auto
    next
      case False
      have "insert v seen = set (vs @ [v])" "distinct (vs @ [v])" using False Cons.prems by auto
      from Cons.IH [OF this] show ?thesis using step Some False by auto
    qed
  qed
qed simp

lemma lowercase_hexdigit:
  "is_hexdigit b \<Longrightarrow> is_hexdigit (if 65 \<le> b \<and> b \<le> 90 then b + 32 else b)"
  by (auto simp: is_hexdigit_def is_digit_byte_def word_le_nat_alt unat_word_ariths)

lemma uuid_at_is_uuid:
  assumes "uuid_at bs k = Some v"
  shows "is_uuid_text v"
proof -
  let ?w = "slice k (k + 36) bs"
  have w: "is_uuid_like_ascii ?w" "v = to_ascii_lowercase ?w"
    using assms by (simp_all add: uuid_at_def Let_def split: if_splits)
  have "is_hexdigit b \<or> b = HYPHEN" if "b \<in> set ?w" for b
    using that w(1) by (auto simp: in_set_conv_nth is_uuid_like_ascii_def split: if_splits)
  then have "\<forall>b \<in> set v. is_hexdigit b \<or> b = HYPHEN"
    using w(2) lowercase_hexdigit by (fastforce simp: to_ascii_lowercase_def HYPHEN_def)
  then show ?thesis
    using w by (simp add: is_uuid_text_def list_all_iff is_uuid_like_ascii_def to_ascii_lowercase_def)
qed

lemma uuid_at_window: "uuid_at bs k = Some v \<Longrightarrow> k + 36 \<le> length bs"
  by (auto simp: uuid_at_def Let_def is_uuid_like_ascii_def split: if_splits)

text \<open>The scan of a text for identifiers returns each of them once, and returns exactly the
  lower-case spellings of the windows of the text that spell one; every one of them is an
  identifier for the field reader too.\<close>

theorem uuid_scan_is_exact:
  "distinct (uuid_like_values_in_text_order bs)
   \<and> uuid_like_values bs = {v. \<exists>k. k + 36 \<le> length bs \<and> uuid_at bs k = Some v}
   \<and> list_all is_uuid_text (uuid_like_values_in_text_order bs)"
proof -
  have exact: "distinct (uuid_like_values_in_text_order bs)
      \<and> uuid_like_values bs = {v. \<exists>k. k + 36 \<le> length bs \<and> uuid_at bs k = Some v}"
  proof (cases "length bs < 36")
    case True
    then show ?thesis by (auto simp: uuid_like_values_in_text_order_def uuid_like_values_def)
  next
    case False
    then have "k \<in> set [0..<length bs - 36 + 1] \<longleftrightarrow> k + 36 \<le> length bs" for k by auto
    then show ?thesis
      using uuid_scan_exact [of "{}" "[]" bs "[0..<length bs - 36 + 1]"] False
      by (simp add: uuid_like_values_in_text_order_def uuid_like_values_def Bex_def del: upt_Suc)
  qed
  then show ?thesis
    using uuid_at_is_uuid by (auto simp: list_all_iff uuid_like_values_def)
qed

end
