(* ===== verification/Filedb_Error.thy ===== *)
theory Filedb_Error
  imports V8_Sink
begin

text \<open>
  \<open>crates/ibcmd-filedb/src/error.rs\<close>: the errors of the file infobase layer.  A message is a
  constructor with what the text is formatted from; the wording itself is not modelled.  \<open>put\<close> is
  \<open>buf[at..at + n].copy_from_slice(..)\<close>, by which every writer of the crate fills its buffers.
\<close>

section \<open>Errors\<close>

datatype page_role = Object_Header_Page | Object_Table_Page | Object_Data_Page

text \<open>What a page belongs to, in the check before a write.\<close>

datatype page_owner = Free_List_Owner | Root_Owner | Table_Owner ustr

text \<open>The messages of each module.\<close>

datatype blob_message =
    Blob_Outside nat nat
  | Blob_Cycle
  | Blob_Used nat nat
  | Blob_Longer
  | Blob_Length nat nat nat
  | Blob_Object_Too_Large
  | Blob_Value_Too_Long

datatype record_message =
    Number_Sign
  | Number_Short
  | Number_Digit
  | Number_Range
  | String_Too_Long_For_Field
  | String_Not_Utf16
  | Name_Too_Long nat

datatype limits_message =
    Object_Limit
  | Record_Limit
  | Binary_Limit

datatype pager_message =
    File_Header_Short
  | No_Signature
  | Format_Version bytes
  | Page_Size nat
  | Page_Count nat nat nat
  | Page_Outside page_role nat nat
  | Page_Outside_File nat
  | Write_Outside_File nat
  | Too_Many_Pages

datatype object_message =
    Object_Signature nat nat
  | Object_Longer_Than_File nat nat nat
  | Object_Fat nat nat
  | Object_Flat_Too_Long nat nat
  | Object_Too_Long nat
  | Object_Fat_Unknown nat nat
  | Object_Read_Past nat nat nat nat
  | Object_Shrinks nat nat nat
  | Object_Table_Full

datatype index_message =
    Index_Outside
  | Index_Branch_Full
  | Index_Short
  | Index_No_Descriptor
  | Index_Key_Length nat
  | Index_Leaf_Header
  | Index_Leaf_Full
  | Index_Compression
  | Index_Keys_Overlap
  | Index_Other_Key nat
  | Index_Several
  | Index_Duplicate_Key
  | Key_Name_Length nat
  | Key_Name_Character nat

datatype descr_message =
    Descr_Too_Deep
  | Descr_Ends
  | Descr_No_Brace
  | Descr_Open_String
  | Descr_Empty_Value
  | Descr_Not_List
  | Descr_No_Name
  | Descr_Files ustr
  | Descr_Files_Count ustr
  | Descr_No_Files ustr
  | Descr_Field ustr
  | Descr_Field_Kind ustr ustr
  | Metadata_Overflow
  | Metadata_Too_Large
  | Root_Short
  | Table_Count_Overflow
  | Root_Tables_End
  | Descr_Not_Utf8

datatype config_message =
    Table_Layout ustr
  | Table_No_Object ustr
  | Records_Length ustr nat
  | Record_Flag ustr nat u8
  | Binary_Over_Budget ustr
  | Row_No_Block ustr nat
  | Row_Part_No ustr
  | Row_Twice ustr nat
  | Row_Attributes ustr

text \<open>The messages of \<open>lib.rs\<close> and \<open>write_paths.rs\<close>, and those of \<open>extensions.rs\<close>.\<close>

datatype session_message =
    No_Table ustr
  | Storage_Over_Budget ustr
  | Index_Differs ustr nat nat nat
  | Collation_Unknown ustr
  | Table_Not_Written ustr
  | Page_Owned_Twice nat page_owner page_owner
  | Page_Taken ustr nat
  | Page_Changed nat ustr
  | Rows_Differ ustr
  | Work_File_Left ustr
  | Backup_Work_Left ustr
  | Leaf_Changed
  | Outside_Directory
  | Directory_Rebound
  | Owner_Kept ustr
  | Owner_Changed
  | Readonly_Changed
  | No_Data_File ustr
  | Not_A_File

datatype registry_message =
    Registry_Layout ustr
  | Registry_No_Field ustr
  | Registry_Field_Short ustr
  | Registry_Missing ustr
  | Registry_Prepared
  | Registry_Rows_Over
  | Registry_Records_Length
  | Registry_Header
  | Registry_Blobs_Over
  | Registry_Value_Over
  | Registry_Flag
  | Registry_No_Name
  | Registry_No_Identity
  | Registry_Number ustr
  | Registry_Distributed
  | Registry_Master_Profile
  | Registry_Retained_Over

datatype db_message =
    In_Blob blob_message
  | In_Record record_message
  | In_Limits limits_message
  | In_Pager pager_message
  | In_Object object_message
  | In_Index index_message
  | In_Descr descr_message
  | In_Config config_message
  | In_Session session_message
  | In_Registry registry_message
  | Keys_Unmeasured ustr db_message

text \<open>\<open>Db_Refused_Keys\<close> is a \<open>Refused\<close> whose text says that the keys differ, around the error that showed it.\<close>

datatype db_error =
    Db_Io io_error_kind
  | Db_Unsupported db_message
  | Db_Corrupt db_message
  | Db_Busy db_message
  | Db_Refused db_message
  | Db_Refused_Keys db_error
  | Db_Published ustr io_error_kind

definition corrupt :: "db_message \<Rightarrow> db_error" where
  "corrupt m = Db_Corrupt m"

section \<open>Filling a buffer\<close>

definition put :: "nat \<Rightarrow> 'a list \<Rightarrow> 'a list \<Rightarrow> 'a list" where
  "put at xs buf = take at buf @ xs @ drop (at + length xs) buf"

lemma length_put [simp]: "at + length xs \<le> length buf \<Longrightarrow> length (put at xs buf) = length buf"
  by (simp add: put_def)

lemma slice_put_same: "at + length xs \<le> length buf \<Longrightarrow> b = at + length xs \<Longrightarrow> slice at b (put at xs buf) = xs"
  by (simp add: slice_def put_def)

lemma slice_put_before: "b \<le> at \<Longrightarrow> at + length xs \<le> length buf \<Longrightarrow> slice a b (put at xs buf) = slice a b buf"
  by (cases "a \<le> b") (simp_all add: slice_def put_def take_drop)

lemma slice_put_after: "at + length xs \<le> a \<Longrightarrow> at + length xs \<le> length buf \<Longrightarrow>
    slice a b (put at xs buf) = slice a b buf"
  by (simp add: slice_def put_def)

lemma put_put: "at + length xs + length ys \<le> length buf \<Longrightarrow> b = at + length xs \<Longrightarrow>
    put b ys (put at xs buf) = put at (xs @ ys) buf"
  by (simp add: put_def ac_simps)

lemma put_Nil [simp]: "put at [] buf = buf"
  by (simp add: put_def)

lemma slice_self: "a \<le> b \<Longrightarrow> b \<le> c \<Longrightarrow> c \<le> length xs \<Longrightarrow> slice a c xs = slice a b xs @ slice b c xs"
proof -
  assume "a \<le> b" "b \<le> c" "c \<le> length xs"
  then have "take (c - a) (drop a xs) = take ((b - a) + (c - b)) (drop a xs)" by simp
  also have "\<dots> = take (b - a) (drop a xs) @ take (c - b) (drop (b - a) (drop a xs))"
    by (rule take_add)
  finally show ?thesis using \<open>a \<le> b\<close> by (simp add: slice_def)
qed

section \<open>Chunks\<close>

lemma length_chunks: "0 < n \<Longrightarrow> length (chunks n xs) = (length xs + (n - 1)) div n"
proof (induction n xs rule: chunks.induct)
  case (1 n xs)
  show ?case
  proof (cases "xs = []")
    case False
    then have "length (chunks n xs) = Suc ((length xs - n + (n - 1)) div n)"
      using 1 by (simp add: chunks_nonempty)
    also have "\<dots> = (length xs + (n - 1)) div n"
    proof (cases "n \<le> length xs")
      case True
      then have "length xs + (n - 1) = (length xs - n + (n - 1)) + n" by linarith
      then have "(length xs + (n - 1)) div n = ((length xs - n + (n - 1)) + n) div n" by (rule arg_cong)
      then show ?thesis using div_add_self2 [of n "length xs - n + (n - 1)"] "1.prems" by linarith
    next
      case no: False
      have "0 < length xs" using False by simp
      have "(n - 1) div n = 0" using "1.prems" by simp
      moreover have "(length xs + (n - 1)) div n = 1"
      proof (rule div_nat_eqI)
        show "n * 1 \<le> length xs + (n - 1)" using False by (cases xs) auto
        show "length xs + (n - 1) < n * Suc 1" using no by simp
      qed
      ultimately show ?thesis using no by simp
    qed
    finally show ?thesis .
  qed (use "1.prems" in simp)
qed

end
