(* ===== verification/Filedb_Blob.thy ===== *)
theory Filedb_Blob
  imports Filedb_Error V8_Codec
begin

text \<open>
  \<open>crates/ibcmd-filedb/src/blob.rs\<close>: a blob object is a row of 256-byte blocks, each with the number
  of the next block, the used length and 250 data bytes.  \<open>read_chain_accounted\<close> follows a chain and
  asks a callback before each copy; \<open>build\<close> lays out values as consecutive chains and links the
  unused tail as the free chain.
\<close>

definition BLOCK :: nat where "BLOCK = 256"
definition DATA :: nat where "DATA = 250"

section \<open>Reading a chain\<close>

text \<open>A callback takes its state and the number of bytes about to be copied.\<close>

type_synonym 'st before_copy = "'st \<Rightarrow> nat \<Rightarrow> (db_error + unit) \<times> 'st"

function blob_chain_loop ::
  "bytes \<Rightarrow> nat option \<Rightarrow> 'st before_copy \<Rightarrow> nat \<Rightarrow> nat \<Rightarrow> bytes \<Rightarrow> 'st \<Rightarrow> (db_error + bytes) \<times> 'st" where
  "blob_chain_loop object expected before_copy block steps out st =
     (let blocks = length object div BLOCK in
      if block = 0 then (Ok out, st)
      else if block \<ge> blocks then (Err (corrupt (In_Blob (Blob_Outside block blocks))), st)
      else if steps + 1 > blocks then (Err (corrupt (In_Blob Blob_Cycle)), st)
      else
        let at = block * BLOCK;
            next = unat (from_le_bytes (slice at (at + 4) object) :: u32);
            used = unat (from_le_bytes (slice (at + 4) (at + 6) object) :: u16) in
        if used > DATA then (Err (corrupt (In_Blob (Blob_Used block used))), st)
        else if (case expected of None \<Rightarrow> False | Some limit \<Rightarrow> saturating_add64 (length out) used > limit)
        then (Err (corrupt (In_Blob Blob_Longer)), st)
        else
          (case before_copy st used of
             (Err e, st') \<Rightarrow> (Err e, st')
           | (Ok _, st') \<Rightarrow>
               blob_chain_loop object expected before_copy next (steps + 1)
                 (out @ slice (at + 6) (at + 6 + used) object) st'))"
  by pat_completeness auto
termination
  by (relation "measure (\<lambda>(object, expected, before_copy, block, steps, out, st).
        length object div BLOCK - steps)") auto

declare blob_chain_loop.simps [simp del]

definition read_chain_accounted ::
  "bytes \<Rightarrow> u32 \<Rightarrow> nat option \<Rightarrow> 'st before_copy \<Rightarrow> 'st \<Rightarrow> (db_error + bytes) \<times> 'st" where
  "read_chain_accounted object start expected before_copy st =
     (case before_copy st 0 of
        (Err e, st') \<Rightarrow> (Err e, st')
      | (Ok _, st') \<Rightarrow>
          (case blob_chain_loop object expected before_copy (unat start) 0 [] st' of
             (Err e, st'') \<Rightarrow> (Err e, st'')
           | (Ok out, st'') \<Rightarrow>
               (case expected of
                  Some limit \<Rightarrow>
                    if length out \<noteq> limit
                    then (Err (corrupt (In_Blob (Blob_Length (unat start) (length out) limit))), st'')
                    else (Ok out, st'')
                | None \<Rightarrow> (Ok out, st''))))"

definition read_chain_checked ::
  "bytes \<Rightarrow> u32 \<Rightarrow> nat option \<Rightarrow> ('st \<Rightarrow> (db_error + unit) \<times> 'st) \<Rightarrow> 'st
     \<Rightarrow> (db_error + bytes) \<times> 'st" where
  "read_chain_checked object start expected check st =
     read_chain_accounted object start expected (\<lambda>st _. check st) st"

section \<open>Building an object\<close>

definition le32 :: "nat \<Rightarrow> bytes" where "le32 n = to_le_bytes 4 (of_nat n :: u32)"
definition le16 :: "nat \<Rightarrow> bytes" where "le16 n = to_le_bytes 2 (of_nat n :: u16)"

text \<open>The loop over the chunks of a value: \<open>i\<close> of \<open>n\<close> chunks are written.\<close>

fun write_chunks :: "nat \<Rightarrow> nat \<Rightarrow> bytes list \<Rightarrow> nat \<Rightarrow> bytes \<Rightarrow> bytes \<times> nat" where
  "write_chunks i n [] block out = (out, block)"
| "write_chunks i n (chunk # rest) block out =
     (let at = block * BLOCK;
          next = (if i + 1 < n then block + 1 else 0);
          out1 = put at (le32 next) out;
          out2 = put (at + 4) (le16 (length chunk)) out1;
          out3 = put (at + 6) chunk out2 in
      write_chunks (i + 1) n rest (block + 1) out3)"

text \<open>The loop over the values.\<close>

fun write_values ::
  "bytes list \<Rightarrow> nat \<Rightarrow> bytes \<Rightarrow> (u32 \<times> u32) list \<Rightarrow> db_error + bytes \<times> nat \<times> (u32 \<times> u32) list" where
  "write_values [] block out refs = Ok (out, block, refs)"
| "write_values (v # vs) block out refs =
     (if length v > u32_max then Err (Db_Refused (In_Blob Blob_Value_Too_Long))
      else if v = [] then write_values vs block out (refs @ [(0, 0)])
      else
        let chs = chunks DATA v in
        (case write_chunks 0 (length chs) chs block out of
           (out', block') \<Rightarrow>
             write_values vs block' out' (refs @ [(of_nat block, of_nat (length v))])))"

text \<open>The loop that links the unused tail.\<close>

fun link_free :: "nat list \<Rightarrow> nat \<Rightarrow> bytes \<Rightarrow> bytes" where
  "link_free [] tot out = out"
| "link_free (b # bs) tot out =
     link_free bs tot (put (b * BLOCK) (le32 (if b + 1 < tot then b + 1 else 0)) out)"

definition blocks_of :: "bytes \<Rightarrow> nat" where
  "blocks_of v = (length v + (DATA - 1)) div DATA"

definition build :: "bytes list \<Rightarrow> nat \<Rightarrow> db_error + bytes \<times> (u32 \<times> u32) list" where
  "build vs min_blocks =
     (let used = sum_list (map blocks_of vs);
          tot = max (max (used + 1) min_blocks) 1 in
      if tot > u32_max then Err (Db_Refused (In_Blob Blob_Object_Too_Large))
      else
        try_res (write_values vs 1 (replicate (tot * BLOCK) 0) []) (\<lambda>(out, block, refs).
          let first_free = (if block < tot then block else 0) in
          Ok (link_free [block..<tot] tot (put 0 (le32 first_free) out), refs)))"

end
