(* ===== verification/Filedb_Blob_Laws.thy ===== *)
theory Filedb_Blob_Laws
  imports Filedb_Blob
begin

text \<open>
  Values that \<open>build\<close> lays out are read back by the chain reader, whatever its callback charges; and
  on any object at all the reader ends within as many steps as the object has blocks, charges every
  byte before it copies it, and returns only a chain of the expected length.
\<close>

section \<open>Laying out\<close>

lemma block_size [simp]: "BLOCK = 256" "DATA = 250"
  by (simp_all add: BLOCK_def DATA_def)

lemma length_le [simp]: "length (le32 n) = 4" "length (le16 n) = 2"
  by (simp_all add: le32_def le16_def)

lemma from_le32: "n \<le> u32_max \<Longrightarrow> unat (from_le_bytes (le32 n) :: u32) = n"
  by (simp add: le32_def unat_of_nat_u32)

lemma from_le16: "n < 65536 \<Longrightarrow> unat (from_le_bytes (le16 n) :: u16) = n"
  by (simp add: le16_def unsigned_of_nat take_bit_eq_mod)

text \<open>One block of a chain, and consecutive blocks.\<close>

definition block_holds :: "bytes \<Rightarrow> nat \<Rightarrow> nat \<Rightarrow> bytes \<Rightarrow> bool" where
  "block_holds obj b next chunk \<longleftrightarrow>
     b * 256 + 256 \<le> length obj \<and> length chunk \<le> 250 \<and> next \<le> u32_max
     \<and> slice (b * 256) (b * 256 + 4) obj = le32 next
     \<and> slice (b * 256 + 4) (b * 256 + 6) obj = le16 (length chunk)
     \<and> slice (b * 256 + 6) (b * 256 + 6 + length chunk) obj = chunk"

fun lays :: "bytes \<Rightarrow> nat \<Rightarrow> bytes list \<Rightarrow> bool" where
  "lays obj b [] = True"
| "lays obj b (c # cs) \<longleftrightarrow> block_holds obj b (if cs = [] then 0 else b + 1) c \<and> lays obj (b + 1) cs"

text \<open>A write that stays within the blocks \<open>lo..<hi\<close>.\<close>

definition touches :: "nat \<Rightarrow> nat \<Rightarrow> bytes \<Rightarrow> bytes \<Rightarrow> bool" where
  "touches lo hi out out' \<longleftrightarrow> length out' = length out
     \<and> (\<forall>x y. y \<le> lo * 256 \<or> hi * 256 \<le> x \<longrightarrow> slice x y out' = slice x y out)"

lemma touches_refl [simp]: "touches lo hi out out"
  by (simp add: touches_def)

lemma touches_trans: "touches lo hi out out' \<Longrightarrow> touches lo' hi' out' out'' \<Longrightarrow>
    lo'' \<le> lo \<Longrightarrow> lo'' \<le> lo' \<Longrightarrow> hi \<le> hi'' \<Longrightarrow> hi' \<le> hi'' \<Longrightarrow> touches lo'' hi'' out out''"
  by (fastforce simp: touches_def)

lemma touches_put:
  assumes "lo * 256 \<le> at" and "at + length xs \<le> hi * 256" and "hi * 256 \<le> length out"
  shows "touches lo hi out (put at xs out)"
proof -
  have "slice x y (put at xs out) = slice x y out" if "y \<le> lo * 256 \<or> hi * 256 \<le> x" for x y
    using that slice_put_before [of y at xs out x] slice_put_after [of at xs x out y] assms by auto
  then show ?thesis using assms by (simp add: touches_def)
qed

lemma block_holds_touch:
  "touches lo hi out out' \<Longrightarrow> b + 1 \<le> lo \<or> hi \<le> b \<Longrightarrow> block_holds out b next c \<Longrightarrow>
     block_holds out' b next c"
proof -
  assume t: "touches lo hi out out'" and away: "b + 1 \<le> lo \<or> hi \<le> b" and h: "block_holds out b next c"
  have "slice x y out' = slice x y out" if "b * 256 \<le> x" "y \<le> b * 256 + 256" for x y
  proof -
    have "y \<le> lo * 256 \<or> hi * 256 \<le> x" using away that by auto
    then show ?thesis using t unfolding touches_def by blast
  qed
  then show "block_holds out' b next c"
    using h t by (simp add: block_holds_def touches_def)
qed

lemma lays_touch:
  "touches lo hi out out' \<Longrightarrow> b + length cs \<le> lo \<or> hi \<le> b \<Longrightarrow> lays out b cs \<Longrightarrow> lays out' b cs"
  by (induction cs arbitrary: b) (auto intro: block_holds_touch)

lemma write_block:
  assumes "b * 256 + 256 \<le> length out" and "length c \<le> 250" and "next \<le> u32_max"
  defines "out' \<equiv> put (b * BLOCK + 6) c (put (b * BLOCK + 4) (le16 (length c)) (put (b * BLOCK) (le32 next) out))"
  shows "block_holds out' b next c" and "touches b (b + 1) out out'"
proof -
  have out': "out' = put (b * 256) (le32 next @ le16 (length c) @ c) out"
    using assms(1,2) by (simp add: out'_def put_put ac_simps)
  let ?xs = "le32 next @ le16 (length c) @ c"
  have whole: "slice (b * 256) (b * 256 + 6 + length c) out' = ?xs"
    using assms(1,2) by (simp add: out' slice_put_same)
  have part: "slice (b * 256 + i) (b * 256 + j) out' = slice i j ?xs"
    if "i \<le> j" "j \<le> 6 + length c" for i j
    using slice_slice [of "b * 256" j "b * 256 + 6 + length c" i out'] that
    by (simp flip: whole)
  show "touches b (b + 1) out out'"
    unfolding out' using assms(1,2) by (intro touches_put) simp_all
  show "block_holds out' b next c"
    using assms(1-3) part [of 0 4] part [of 4 6] part [of 6 "6 + length c"]
    by (simp add: block_holds_def out' slice_def add.assoc)
qed

lemma write_chunks_lays:
  "write_chunks i n cs block out = (out', block') \<Longrightarrow> i + length cs = n \<Longrightarrow>
     (block + length cs) * 256 \<le> length out \<Longrightarrow> \<forall>c \<in> set cs. length c \<le> 250 \<Longrightarrow>
     block + length cs \<le> u32_max \<Longrightarrow>
     block' = block + length cs \<and> lays out' block cs \<and> touches block (block + length cs) out out'"
proof (induction cs arbitrary: i block out)
  case Nil
  then show ?case by simp
next
  case (Cons c cs)
  let ?next = "if i + 1 < n then block + 1 else 0"
  let ?out = "put (block * BLOCK + 6) c (put (block * BLOCK + 4) (le16 (length c)) (put (block * BLOCK) (le32 ?next) out))"
  have following: "?next = (if cs = [] then 0 else block + 1)" using Cons.prems(2) by auto
  have "block * 256 + 256 \<le> length out" "?next \<le> u32_max" "length c \<le> 250"
    using Cons.prems by auto
  note block = write_block [OF this(1,3,2)]
  have len: "length ?out = length out" using block(2) by (simp add: touches_def)
  have rest: "write_chunks (i + 1) n cs (block + 1) ?out = (out', block')"
    using Cons.prems(1) by (simp add: Let_def)
  have done': "block' = block + 1 + length cs \<and> lays out' (block + 1) cs
      \<and> touches (block + 1) (block + 1 + length cs) ?out out'"
    using Cons.prems len by (intro Cons.IH [OF rest]) auto
  then have "block_holds out' block ?next c"
    using block_holds_touch block(1) by blast
  moreover have "touches block (block + length (c # cs)) out out'"
    using touches_trans [OF block(2)] done' by auto
  ultimately show ?case using done' following by simp
qed

text \<open>What \<open>build\<close> promises of a value and its reference.\<close>

definition stored_at :: "bytes \<Rightarrow> bytes \<Rightarrow> u32 \<times> u32 \<Rightarrow> bool" where
  "stored_at obj v ref \<longleftrightarrow>
     (if v = [] then ref = (0, 0)
      else unat (fst ref) \<noteq> 0 \<and> unat (snd ref) = length v \<and> lays obj (unat (fst ref)) (chunks 250 v))"

lemma blocks_of_chunks: "length (chunks 250 v) = blocks_of v"
  by (simp add: length_chunks blocks_of_def)

lemma stored_at_touch:
  "touches lo hi out out' \<Longrightarrow> stored_at out v ref \<Longrightarrow>
     v = [] \<or> unat (fst ref) + blocks_of v \<le> lo \<or> hi \<le> unat (fst ref) \<Longrightarrow> stored_at out' v ref"
  by (auto simp: stored_at_def simp flip: blocks_of_chunks intro: lays_touch split: if_splits)

lemma write_values_stores:
  "write_values vs block out refs = Ok (out', block', refs') \<Longrightarrow> 0 < block \<Longrightarrow>
     (block + sum_list (map blocks_of vs)) * 256 \<le> length out \<Longrightarrow>
     block + sum_list (map blocks_of vs) \<le> u32_max \<Longrightarrow>
     \<exists>new. refs' = refs @ new \<and> block' = block + sum_list (map blocks_of vs)
       \<and> touches block block' out out'
       \<and> list_all2 (\<lambda>v ref. stored_at out' v ref
            \<and> (v = [] \<or> block \<le> unat (fst ref) \<and> unat (fst ref) + blocks_of v \<le> block')) vs new"
proof (induction vs arbitrary: block out refs)
  case Nil
  then show ?case by simp
next
  case (Cons v vs)
  show ?case
  proof (cases "v = []")
    case True
    then have "write_values vs block out (refs @ [(0, 0)]) = Ok (out', block', refs')" "blocks_of v = 0"
      using Cons.prems(1) by (simp_all add: blocks_of_def split: if_splits)
    from Cons.IH [OF this(1)] Cons.prems(2-4) this(2) True obtain new where
      "refs' = (refs @ [(0, 0)]) @ new" "block' = block + sum_list (map blocks_of vs)"
      "touches block block' out out'"
      "list_all2 (\<lambda>v ref. stored_at out' v ref
            \<and> (v = [] \<or> block \<le> unat (fst ref) \<and> unat (fst ref) + blocks_of v \<le> block')) vs new"
      by auto
    then show ?thesis using True \<open>blocks_of v = 0\<close>
      by (intro exI [of _ "(0, 0) # new"]) (simp add: stored_at_def)
  next
    case False
    let ?n = "blocks_of v" and ?ref = "(of_nat block :: u32, of_nat (length v) :: u32)"
    obtain out1 block1 where chunks: "write_chunks 0 ?n (chunks 250 v) block out = (out1, block1)"
      by (cases "write_chunks 0 ?n (chunks 250 v) block out") auto
    have small: "length v \<le> u32_max"
      and rest: "write_values vs block1 out1 (refs @ [?ref]) = Ok (out', block', refs')"
      using Cons.prems(1) False chunks by (simp_all add: blocks_of_chunks Let_def split: if_splits)
    have room: "(block + ?n) * 256 \<le> length out" "block + ?n \<le> u32_max"
      using Cons.prems(3,4) by auto
    have done1: "block1 = block + ?n" "lays out1 block (chunks 250 v)" "touches block (block + ?n) out out1"
      using write_chunks_lays [OF chunks] room length_chunk [of _ 250 v]
      by (auto simp: blocks_of_chunks)
    have len1: "length out1 = length out" using done1(3) by (simp add: touches_def)
    obtain new where new: "refs' = (refs @ [?ref]) @ new" "block' = block1 + sum_list (map blocks_of vs)"
      "touches block1 block' out1 out'"
      "list_all2 (\<lambda>v ref. stored_at out' v ref
            \<and> (v = [] \<or> block1 \<le> unat (fst ref) \<and> unat (fst ref) + blocks_of v \<le> block')) vs new"
      using Cons.IH [OF rest] Cons.prems(2-4) done1(1) len1 by (auto simp: add.assoc)
    have num: "unat (of_nat block :: u32) = block" "unat (of_nat (length v) :: u32) = length v"
      using room small by (simp_all add: unat_of_nat_u32)
    have "stored_at out1 v ?ref" using False done1(2) num Cons.prems(2) by (simp add: stored_at_def)
    then have "stored_at out' v ?ref"
      using stored_at_touch [OF new(3)] num done1(1) by simp
    moreover have "touches block block' out out'"
      using touches_trans [OF done1(3) new(3)] done1(1) new(2) by simp
    moreover have "list_all2 (\<lambda>v ref. stored_at out' v ref
            \<and> (v = [] \<or> block \<le> unat (fst ref) \<and> unat (fst ref) + blocks_of v \<le> block')) vs new"
      by (rule list_all2_mono [OF new(4)]) (use done1(1) in auto)
    ultimately show ?thesis
      using new(1,2) num done1(1) by (intro exI [of _ "?ref # new"]) simp
  qed
qed

lemma link_free_touches:
  "\<forall>b \<in> set bs. lo \<le> b \<and> b < tot \<Longrightarrow> tot * 256 \<le> length out \<Longrightarrow> touches lo tot out (link_free bs tot out)"
proof (induction bs arbitrary: out)
  case (Cons b bs)
  let ?out = "put (b * BLOCK) (le32 (if b + 1 < tot then b + 1 else 0)) out"
  have put: "touches lo tot out ?out"
    using Cons.prems by (intro touches_put) auto
  then have "touches lo tot ?out (link_free bs tot ?out)"
    using Cons by (simp add: touches_def)
  from touches_trans [OF put this] show ?case by simp
qed simp

lemma build_stores:
  assumes "build vs min_blocks = Ok (obj, refs)"
  shows "list_all2 (stored_at obj) vs refs"
    and "length obj = max (max (sum_list (map blocks_of vs) + 1) min_blocks) 1 * 256"
proof -
  let ?used = "sum_list (map blocks_of vs)"
  define tot where "tot = max (max (?used + 1) min_blocks) 1"
  have build: "build vs min_blocks = (if tot > u32_max then Err (Db_Refused (In_Blob Blob_Object_Too_Large))
      else try_res (write_values vs 1 (replicate (tot * BLOCK) 0) []) (\<lambda>(out, block, refs).
        Ok (link_free [block..<tot] tot (put 0 (le32 (if block < tot then block else 0)) out), refs)))"
    by (simp only: build_def Let_def tot_def)
  have small: "\<not> tot > u32_max" using assms build by (auto split: if_splits)
  obtain out block rs where written: "write_values vs 1 (replicate (tot * BLOCK) 0) [] = Ok (out, block, rs)"
    and obj: "obj = link_free [block..<tot] tot (put 0 (le32 (if block < tot then block else 0)) out)"
    and refs: "refs = rs"
    using assms build small by (auto simp: result_simps simp del: block_size)
  have tot: "1 + ?used \<le> tot" by (simp add: tot_def)
  obtain new where new: "rs = [] @ new" "block = 1 + ?used"
      "touches 1 block (replicate (tot * BLOCK) 0) out"
      "list_all2 (\<lambda>v ref. stored_at out v ref
            \<and> (v = [] \<or> 1 \<le> unat (fst ref) \<and> unat (fst ref) + blocks_of v \<le> block)) vs new"
    using write_values_stores [OF written] tot small by auto
  have len: "length out = tot * 256" using new(3) by (simp add: touches_def)
  let ?out1 = "put 0 (le32 (if block < tot then block else 0)) out"
  have t1: "touches 0 1 out ?out1" using len tot by (intro touches_put) simp_all
  then have t2: "touches block tot ?out1 obj"
    unfolding obj using len new(2) by (intro link_free_touches) (auto simp: touches_def)
  show "list_all2 (stored_at obj) vs refs"
    unfolding refs new(1) append_Nil
  proof (rule list_all2_mono [OF new(4)])
    fix v ref
    assume h: "stored_at out v ref \<and> (v = [] \<or> 1 \<le> unat (fst ref) \<and> unat (fst ref) + blocks_of v \<le> block)"
    then have "stored_at ?out1 v ref" using stored_at_touch [OF t1, of v ref] by auto
    then show "stored_at obj v ref" using stored_at_touch [OF t2, of v ref] h by auto
  qed
  have "length obj = tot * 256" using t1 t2 len by (simp add: touches_def)
  then show "length obj = max (max (?used + 1) min_blocks) 1 * 256" by (simp only: tot_def)
qed

section \<open>Reading back\<close>

text \<open>The calls of the callback, one after the other.\<close>

fun charges :: "'st before_copy \<Rightarrow> 'st \<Rightarrow> nat list \<Rightarrow> (db_error + unit) \<times> 'st" where
  "charges bc st [] = (Ok (), st)"
| "charges bc st (u # us) =
     (case bc st u of (Err e, st') \<Rightarrow> (Err e, st') | (Ok _, st') \<Rightarrow> charges bc st' us)"

definition then_value :: "(db_error + unit) \<times> 'st \<Rightarrow> bytes \<Rightarrow> (db_error + bytes) \<times> 'st" where
  "then_value r v = (case r of (Err e, st) \<Rightarrow> (Err e, st) | (Ok _, st) \<Rightarrow> (Ok v, st))"

lemma block_read:
  assumes "block_holds obj b next c"
  shows "b < length obj div 256"
    "unat (from_le_bytes (slice (b * 256) (b * 256 + 4) obj) :: u32) = next"
    "unat (from_le_bytes (slice (b * 256 + 4) (b * 256 + 6) obj) :: u16) = length c"
    "slice (b * 256 + 6) (b * 256 + 6 + length c) obj = c"
  using assms by (auto simp: block_holds_def from_le32 from_le16 less_eq_div_iff_mult_less_eq Suc_le_eq [symmetric])

lemma blob_chain_loop_lays:
  "lays obj b cs \<Longrightarrow> cs \<noteq> [] \<Longrightarrow> 0 < b \<Longrightarrow> steps + length cs \<le> length obj div 256 \<Longrightarrow>
     length out + length (concat cs) \<le> limit \<Longrightarrow> limit \<le> u64_max \<Longrightarrow>
     blob_chain_loop obj (Some limit) bc b steps out st
       = then_value (charges bc st (map length cs)) (out @ concat cs)"
proof (induction cs arbitrary: b steps out st)
  case (Cons c cs)
  note loop = blob_chain_loop.simps [of obj "Some limit" bc b steps out st]
  have h: "block_holds obj b (if cs = [] then 0 else b + 1) c" "lays obj (b + 1) cs"
    using Cons.prems(1) by simp_all
  note r = block_read [OF h(1)]
  have fits: "\<not> saturating_add64 (length out) (length c) > limit" "length c \<le> 250"
    using Cons.prems(5,6) h(1) by (auto simp: saturating_add64_def block_holds_def)
  have step: "blob_chain_loop obj (Some limit) bc b steps out st =
      (case bc st (length c) of
         (Err e, st') \<Rightarrow> (Err e, st')
       | (Ok _, st') \<Rightarrow> blob_chain_loop obj (Some limit) bc (if cs = [] then 0 else b + 1) (steps + 1) (out @ c) st')"
    using r fits Cons.prems(3,4)
    by (subst loop) (simp add: Let_def split: prod.splits sum.splits)
  show ?case
  proof (cases "cs = []")
    case True
    have "blob_chain_loop obj (Some limit) bc 0 (steps + 1) (out @ c) st' = (Ok (out @ c), st')" for st'
      by (subst blob_chain_loop.simps) simp
    then show ?thesis using True step
      by (simp add: then_value_def split: prod.splits sum.splits)
  next
    case False
    have "blob_chain_loop obj (Some limit) bc (b + 1) (steps + 1) (out @ c) st'
        = then_value (charges bc st' (map length cs)) ((out @ c) @ concat cs)" for st'
      using Cons.prems(4,5,6) h(2) False by (intro Cons.IH) simp_all
    then show ?thesis using False step
      by (simp add: then_value_def split: prod.splits sum.splits)
  qed
qed simp

lemma lays_length: "lays obj b cs \<Longrightarrow> cs \<noteq> [] \<Longrightarrow> b + length cs \<le> length obj div 256"
proof (induction cs arbitrary: b)
  case (Cons c cs)
  then show ?case using block_read(1) [of obj b _ c] by (cases "cs = []") fastforce+
qed simp

lemma read_stored:
  assumes "stored_at obj v ref" and "length v \<le> u32_max"
  shows "read_chain_accounted obj (fst ref) (Some (unat (snd ref))) bc st
    = then_value (charges bc st (0 # map length (chunks 250 v))) v"
proof (cases "v = []")
  case True
  have "blob_chain_loop obj (Some 0) bc 0 0 [] st' = (Ok [], st')" for st'
    by (subst blob_chain_loop.simps) simp
  then show ?thesis using assms True
    by (simp add: stored_at_def read_chain_accounted_def then_value_def split: prod.splits sum.splits)
next
  case False
  then have ref: "unat (fst ref) \<noteq> 0" "unat (snd ref) = length v"
    and lays: "lays obj (unat (fst ref)) (chunks 250 v)" "chunks 250 v \<noteq> []"
    using assms(1) by (simp_all add: stored_at_def chunks_nonempty)
  have "blob_chain_loop obj (Some (length v)) bc (unat (fst ref)) 0 [] st'
      = then_value (charges bc st' (map length (chunks 250 v))) v" for st'
    using blob_chain_loop_lays [OF lays, of 0 "[]" "length v" bc st'] lays_length [OF lays] ref(1) assms(2)
    by (simp add: concat_chunks)
  then show ?thesis using ref
    by (simp add: read_chain_accounted_def then_value_def split: prod.splits sum.splits)
qed

text \<open>C24: Values built into a blob object are read back from their references: whatever the callback
  charges, the reader returns the callback's error or exactly the value, after asking for 0 bytes and
  then for each block's bytes in order.\<close>

theorem blob_round_trip:
  assumes "build vs min_blocks = Ok (obj, refs)" and "i < length vs"
  shows "read_chain_accounted obj (fst (refs ! i)) (Some (unat (snd (refs ! i)))) bc st
      = then_value (charges bc st (0 # map length (chunks 250 (vs ! i)))) (vs ! i)
    \<and> length refs = length vs"
proof -
  have stored: "list_all2 (stored_at obj) vs refs" by (rule build_stores(1) [OF assms(1)])
  then have "stored_at obj (vs ! i) (refs ! i)" using assms(2) by (simp add: list_all2_nthD)
  moreover have "length (vs ! i) \<le> u32_max"
  proof (cases "vs ! i = []")
    case False
    then have "length (vs ! i) = unat (snd (refs ! i))"
      using \<open>stored_at obj (vs ! i) (refs ! i)\<close> by (simp add: stored_at_def)
    then show ?thesis using unat_u32_le [of "snd (refs ! i)"] by simp
  qed simp
  ultimately show ?thesis using read_stored stored by (simp add: list_all2_lengthD)
qed

section \<open>Any object\<close>

text \<open>Over any object: the steps left bound the bytes that can still come, and every byte of the
  result was charged first.\<close>

lemma blob_chain_loop_bounded:
  "blob_chain_loop obj expected bc block steps out st = (Ok d, st') \<Longrightarrow>
     (\<And>s u s'. bc s u = (Ok (), s') \<Longrightarrow> left s = left s' + u) \<Longrightarrow>
     length d + left st' = length out + left st
     \<and> length d \<le> length out + 250 * (length obj div 256 - steps)"
proof (induction obj expected bc block steps out st rule: blob_chain_loop.induct)
  case (1 obj expected bc block steps out st)
  note loop = "1.prems"(1) [unfolded blob_chain_loop.simps [of obj expected bc block steps out st] block_size]
  note IH = "1.IH" [unfolded block_size]
  let ?at = "block * 256"
  let ?next = "unat (from_le_bytes (slice ?at (?at + 4) obj) :: u32)"
  let ?used = "unat (from_le_bytes (slice (?at + 4) (?at + 6) obj) :: u16)"
  show ?case
  proof (cases "block = 0")
    case True
    then show ?thesis using loop by simp
  next
    case False
    obtain s' where s': "block < length obj div 256" "steps + 1 \<le> length obj div 256" "?used \<le> 250"
        "bc st ?used = (Ok (), s')"
        "\<not> (case expected of None \<Rightarrow> False | Some limit \<Rightarrow> saturating_add64 (length out) ?used > limit)"
        "blob_chain_loop obj expected bc ?next (steps + 1) (out @ slice (?at + 6) (?at + 6 + ?used) obj) s' = (Ok d, st')"
      using loop False
      by (cases "bc st ?used") (auto simp: Let_def split: if_splits sum.splits prod.splits)
    have inside: "block * 256 + 256 \<le> length obj"
      using s'(1) by (metis Suc_leI add.commute less_eq_div_iff_mult_less_eq mult_Suc zero_less_numeral)
    have "length (slice (?at + 6) (?at + 6 + ?used) obj) = ?used" using inside s'(3) by simp
    moreover have "length d + left st' = length (out @ slice (?at + 6) (?at + 6 + ?used) obj) + left s'
        \<and> length d \<le> length (out @ slice (?at + 6) (?at + 6 + ?used) obj)
            + 250 * (length obj div 256 - (steps + 1))"
    proof (rule IH [OF refl False _ _ refl refl refl _ _ s'(4) [symmetric] refl s'(6) "1.prems"(2)])
      show "\<not> length obj div 256 \<le> block" "\<not> length obj div 256 < steps + 1" "\<not> 250 < ?used"
        "\<not> (case expected of None \<Rightarrow> False | Some limit \<Rightarrow> limit < saturating_add64 (length out) ?used)"
        using s' by simp_all
    qed
    moreover have "250 * (length obj div 256 - steps) = 250 * (length obj div 256 - (steps + 1)) + 250"
      using s'(2) by (simp flip: add_mult_distrib2 mult_Suc_right)
    ultimately show ?thesis using "1.prems"(2) [OF s'(4)] s'(3)
      unfolding length_append by linarith
  qed
qed

text \<open>C25: On any bytes at all, reading a chain ends, returns at most 250 bytes per block of the object,
  returns the expected length when one was asked for, and charges every byte it returns: a callback
  that counts down an allowance is left with exactly that much less.\<close>

theorem chain_read_is_bounded:
  assumes "read_chain_accounted obj start expected bc st = (Ok d, st')"
    and "\<And>s u s'. bc s u = (Ok (), s') \<Longrightarrow> left s = left s' + u"
  shows "length d + left st' = left st \<and> length d \<le> 250 * (length obj div 256)
    \<and> (\<forall>n. expected = Some n \<longrightarrow> length d = n)"
proof -
  obtain s1 where s1: "bc st 0 = (Ok (), s1)"
      "blob_chain_loop obj expected bc (unat start) 0 [] s1 = (Ok d, st')"
      "\<forall>n. expected = Some n \<longrightarrow> length d = n"
    using assms(1)
    by (auto simp: read_chain_accounted_def split: prod.splits sum.splits option.splits if_splits)
  from blob_chain_loop_bounded [where left = left, OF s1(2) assms(2)] assms(2) [OF s1(1)] s1(3) show ?thesis by simp
qed

section \<open>At work\<close>

lemma write_values_ok:
  "\<forall>v \<in> set vs. length v \<le> u32_max \<Longrightarrow> \<exists>r. write_values vs block out refs = Ok r"
  by (induction vs arbitrary: block out refs) (auto simp: Let_def split: prod.splits)

lemma build_ok:
  assumes "\<forall>v \<in> set vs. length v \<le> u32_max" and "sum_list (map blocks_of vs) < u32_max"
    and "min_blocks \<le> u32_max"
  obtains obj refs where "build vs min_blocks = Ok (obj, refs)"
proof -
  let ?tot = "max (max (sum_list (map blocks_of vs) + 1) min_blocks) 1"
  obtain r where "write_values vs 1 (replicate (?tot * BLOCK) 0) [] = Ok r"
    using write_values_ok [OF assms(1)] by blast
  moreover have "\<not> ?tot > u32_max" using assms(2,3) by simp
  ultimately have "\<exists>x. build vs min_blocks = Ok x"
    by (simp add: build_def Let_def del: block_size split: prod.split)
  then show thesis using that by auto
qed

text \<open>An allowance of bytes that counts down.\<close>

definition allowance :: "nat before_copy" where
  "allowance s u = (if u \<le> s then (Ok (), s - u) else (Err (Db_Refused (In_Limits Binary_Limit)), s))"

lemma sample_blob:
  obtains obj refs where "build [[7, 8, 9], []] 4 = Ok (obj, refs)"
    "read_chain_accounted obj (fst (refs ! 0)) (Some (unat (snd (refs ! 0)))) allowance 5 = (Ok [7, 8, 9], 2)"
proof -
  obtain obj refs where b: "build [[7, 8, 9], []] 4 = Ok (obj, refs)"
    by (rule build_ok [of "[[7, 8, 9], []]" 4]) (simp_all add: blocks_of_def)
  then have "stored_at obj [7, 8, 9] (refs ! 0)"
    using list_all2_nthD [OF build_stores(1) [OF b], of 0] by simp
  from read_stored [OF this, of allowance 5] that b show thesis
    by (simp add: chunks_nonempty then_value_def allowance_def)
qed

theorem blob_round_trip_witness:
  "\<exists>obj refs. build [[7, 8, 9], []] 4 = Ok (obj, refs)
    \<and> read_chain_accounted obj (fst (refs ! 1)) (Some (unat (snd (refs ! 1)))) allowance 5 = (Ok [], 5)
    \<and> length refs = 2"
proof -
  obtain obj refs where b: "build [[7, 8, 9], []] 4 = Ok (obj, refs)"
    by (rule build_ok [of "[[7, 8, 9], []]" 4]) (simp_all add: blocks_of_def)
  from blob_round_trip [OF b, of 1 allowance 5] b show ?thesis
    by (simp add: then_value_def allowance_def)
qed

theorem chain_read_is_bounded_witness:
  "\<exists>obj start. read_chain_accounted obj start (Some 3) allowance 5 = (Ok [7, 8, 9], 2)
    \<and> 3 \<le> 250 * (length obj div 256)"
proof -
  obtain obj refs where b: "build [[7, 8, 9], []] 4 = Ok (obj, refs)" and r:
      "read_chain_accounted obj (fst (refs ! 0)) (Some (unat (snd (refs ! 0)))) allowance 5 = (Ok [7, 8, 9], 2)"
    by (rule sample_blob)
  have left: "s = s' + u" if "allowance s u = (Ok (), s')" for s u s'
    using that by (auto simp: allowance_def split: if_splits)
  from chain_read_is_bounded [OF r, of "\<lambda>s. s"] left have
    "3 \<le> 250 * (length obj div 256)" "unat (snd (refs ! 0)) = 3" by auto
  with r show ?thesis by metis
qed

end
