(* ===== verification/Filedb_Record.thy ===== *)
theory Filedb_Record
  imports Filedb_Error V8_Header_Text
begin

text \<open>
  \<open>crates/ibcmd-filedb/src/record.rs\<close>: the field codecs of a record.  A packed decimal is a sign
  nibble, the digits and a pad nibble; a timestamp is seven bytes of packed digits; a variable string
  is a unit count and UTF-16 units padded with spaces.
\<close>

section \<open>Decimal text\<close>

text \<open>\<open>{value:0width$}\<close>.\<close>

fun decimal_text :: "nat \<Rightarrow> bytes" where
  "decimal_text n = (if n < 10 then [48 + of_nat n] else decimal_text (n div 10) @ [48 + of_nat (n mod 10)])"

declare decimal_text.simps [simp del]

definition format_decimal :: "nat \<Rightarrow> nat \<Rightarrow> bytes" where
  "format_decimal width n = (let ds = decimal_text n in replicate (width - length ds) 48 @ ds)"

text \<open>Two nibbles to a byte, the first in the high half.\<close>

definition pair_byte :: "bytes \<Rightarrow> u8" where
  "pair_byte p = push_bit 4 (p ! 0) OR p ! 1"

section \<open>Packed decimals\<close>

definition decimal_nibbles :: "nat \<Rightarrow> nat \<Rightarrow> bytes" where
  "decimal_nibbles number digits =
     (let nibbles = 1 # map (\<lambda>b. b - 48) (format_decimal digits number) in
      if odd (length nibbles) then nibbles @ [0] else nibbles)"

definition pack_decimal :: "nat \<Rightarrow> nat \<Rightarrow> bytes" where
  "pack_decimal number digits = map pair_byte (chunks 2 (decimal_nibbles number digits))"

text \<open>The loop over the digit positions.\<close>

fun unpack_loop :: "bytes \<Rightarrow> nat list \<Rightarrow> nat \<Rightarrow> db_error + nat" where
  "unpack_loop bs [] number = Ok number"
| "unpack_loop bs (i # is) number =
     (if i div 2 \<ge> length bs then Err (corrupt (In_Record Number_Short))
      else
        let byte = bs ! (i div 2);
            nibble = (if i mod 2 = 0 then drop_bit 4 byte else byte AND 0x0F) in
        if nibble > 9 then Err (corrupt (In_Record Number_Digit))
        else
          (case checked_mul64 number 10 of
             None \<Rightarrow> Err (corrupt (In_Record Number_Range))
           | Some v \<Rightarrow>
               (case checked_add64 v (unat nibble) of
                  None \<Rightarrow> Err (corrupt (In_Record Number_Range))
                | Some v' \<Rightarrow> unpack_loop bs is v')))"

definition unpack_decimal :: "bytes \<Rightarrow> nat \<Rightarrow> db_error + nat" where
  "unpack_decimal bs digits =
     (let sign = (case bs of [] \<Rightarrow> 0 | b # _ \<Rightarrow> drop_bit 4 b) in
      if sign \<noteq> 1 then Err (corrupt (In_Record Number_Sign))
      else unpack_loop bs [1..<digits + 1] 0)"

section \<open>Timestamps\<close>

definition timestamp_new :: "nat \<Rightarrow> nat \<Rightarrow> nat \<Rightarrow> nat \<Rightarrow> nat \<Rightarrow> nat \<Rightarrow> bytes option" where
  "timestamp_new year month day hour minute second =
     (if year > 9999 \<or> \<not> (1 \<le> month \<and> month \<le> 12) \<or> \<not> (1 \<le> day \<and> day \<le> 31)
         \<or> hour > 23 \<or> minute > 59 \<or> second > 59
      then None
      else
        let d = format_decimal 4 year @ format_decimal 2 month @ format_decimal 2 day
              @ format_decimal 2 hour @ format_decimal 2 minute @ format_decimal 2 second in
        Some (map (\<lambda>p. push_bit 4 (p ! 0 - 48) OR (p ! 1 - 48)) (chunks 2 d)))"

definition timestamp_digits :: "bytes \<Rightarrow> bytes" where
  "timestamp_digits t = concat (map (\<lambda>b. format_hex 2 (unat b)) t)"

text \<open>Days since 1970-01-01 to year, month and day.  \<open>div_euclid\<close> and the divisions of the
  non-negative numbers below are \<open>div\<close> on the integers.\<close>

definition civil_from_days :: "int \<Rightarrow> int \<times> int \<times> int" where
  "civil_from_days z0 =
     (let z = z0 + 719468;
          era = z div 146097;
          doe = z - era * 146097;
          yoe = (doe - doe div 1460 + doe div 36524 - doe div 146096) div 365;
          y = yoe + era * 400;
          doy = doe - (365 * yoe + yoe div 4 - yoe div 100);
          mp = (5 * doy + 2) div 153;
          d = doy - (153 * mp + 2) div 5 + 1;
          m = (if mp < 10 then mp + 3 else mp - 9) in
      (if m \<le> 2 then y + 1 else y, m, d))"

text \<open>\<open>secs\<close> is what the clock answered.\<close>

definition now_utc :: "nat \<Rightarrow> bytes" where
  "now_utc secs =
     (let days = int (secs div 86400); rest = secs mod 86400 in
      (case civil_from_days days of
         (y, m, d) \<Rightarrow>
           (case timestamp_new (nat (y mod 2 ^ 32)) (nat m) (nat d)
                   (rest div 3600) (rest mod 3600 div 60) (rest mod 60) of
              None \<Rightarrow> replicate 7 0
            | Some t \<Rightarrow> t)))"

section \<open>Variable strings\<close>

definition decode_var_string :: "bytes \<Rightarrow> nat \<Rightarrow> db_error + ustr" where
  "decode_var_string bs limit =
     (let count = unat (from_le_bytes [bs ! 0, bs ! 1] :: u16) in
      if count > limit then Err (corrupt (In_Record String_Too_Long_For_Field))
      else ok_or (from_utf16 (utf16_units (slice 2 (2 + count * 2) bs))) (corrupt (In_Record String_Not_Utf16)))"

fun put_units :: "nat \<Rightarrow> u16 list \<Rightarrow> bytes \<Rightarrow> bytes" where
  "put_units i [] out = out"
| "put_units i (u # us) out = put_units (i + 1) us (put (2 + i * 2) (to_le_bytes 2 u) out)"

definition pad_with_spaces :: "bytes \<Rightarrow> bytes" where
  "pad_with_spaces out =
     put 2 (concat (replicate (length (drop 2 out) div 2) [0x20, 0x00])) out"

definition encode_var_string :: "ustr \<Rightarrow> nat \<Rightarrow> bytes \<Rightarrow> db_error + bytes" where
  "encode_var_string s limit out =
     (let units = encode_utf16 s in
      if length units > limit then Err (Db_Refused (In_Record (Name_Too_Long limit)))
      else Ok (put_units 0 units
                 (pad_with_spaces (put 0 (to_le_bytes 2 (of_nat (length units) :: u16)) out))))"

section \<open>Laws\<close>

lemma decimal_text_nonempty: "decimal_text n \<noteq> []"
  by (subst decimal_text.simps) simp

lemma digit_byte: "d < 10 \<Longrightarrow> unat (of_nat d :: u8) = d"
  by (simp add: unsigned_of_nat take_bit_eq_mod)

fun number_of :: "nat \<Rightarrow> nat list \<Rightarrow> nat" where
  "number_of v [] = v"
| "number_of v (d # ds) = number_of (10 * v + d) ds"

lemma number_of_append: "number_of v (xs @ ys) = number_of (number_of v xs) ys"
  by (induction xs arbitrary: v) auto

lemma number_of_mono: "v \<le> number_of v ds"
proof (induction ds arbitrary: v)
  case (Cons d ds)
  have "v \<le> 10 * v + d" by simp
  also have "\<dots> \<le> number_of (10 * v + d) ds" by (rule Cons.IH)
  finally show ?case by simp
qed simp

definition digit_of :: "u8 \<Rightarrow> nat" where "digit_of b = unat (b - 48)"

lemma digit_of_text [simp]: "d < 10 \<Longrightarrow> digit_of (48 + of_nat d) = d"
  by (simp add: digit_of_def digit_byte)

lemma decimal_text_digits:
  "number_of 0 (map digit_of (decimal_text n)) = n \<and> (\<forall>b \<in> set (decimal_text n). digit_of b < 10)"
proof (induction n rule: decimal_text.induct)
  case (1 n)
  show ?case
  proof (cases "n < 10")
    case True
    then show ?thesis by (subst (1 2) decimal_text.simps) simp
  next
    case False
    with 1 show ?thesis
      by (subst (1 2) decimal_text.simps) (simp add: number_of_append)
  qed
qed

lemma length_decimal_text: "n < 10 ^ Suc k \<Longrightarrow> length (decimal_text n) \<le> Suc k"
proof (induction k arbitrary: n)
  case 0
  then show ?case by (subst decimal_text.simps) simp
next
  case (Suc k)
  show ?case
  proof (cases "n < 10")
    case True
    then show ?thesis by (subst decimal_text.simps) simp
  next
    case False
    have "n div 10 < 10 ^ Suc k" using Suc.prems by (simp add: less_mult_imp_div_less)
    then have "length (decimal_text (n div 10)) \<le> Suc k" by (rule Suc.IH)
    with False show ?thesis by (subst decimal_text.simps) simp
  qed
qed

lemma length_format_decimal:
  "0 < width \<Longrightarrow> n < 10 ^ width \<Longrightarrow> length (format_decimal width n) = width"
  using length_decimal_text [of n "width - 1"] by (simp add: format_decimal_def Let_def)

lemma number_of_zeros: "number_of 0 (replicate k 0 @ ds) = number_of 0 ds"
  by (induction k) auto

lemma format_decimal_digits:
  "number_of 0 (map digit_of (format_decimal w n)) = n"
  "\<forall>b \<in> set (format_decimal w n). digit_of b < 10"
  using decimal_text_digits [of n]
  by (auto simp: format_decimal_def Let_def digit_of_def number_of_zeros map_replicate_const)

section \<open>Packed nibbles\<close>

lemma pair_byte_high:
  assumes "a < (16 :: u8)" and "b < 16"
  shows "drop_bit 4 (push_bit 4 a OR b) = a" and "(push_bit 4 a OR b) AND 0x0F = b"
proof -
  have small: "n < 4" if "x < (16 :: u8)" "bit x n" for x n
  proof -
    have "unat x < 2 ^ 4" using that(1) by (simp add: word_less_nat_alt)
    then have "take_bit 4 (unat x) = unat x" by (rule take_bit_nat_eq_self)
    moreover have "bit (unat x) n"
      using that(2) bit_imp_le_length [OF that(2)] by (simp add: bit_unsigned_iff)
    ultimately show ?thesis by (metis bit_take_bit_iff)
  qed
  have mask: "(0x0F :: u8) = mask 4" by (simp add: mask_eq_exp_minus_1)
  show "drop_bit 4 (push_bit 4 a OR b) = a"
    using small [OF assms(2)] by (intro bit_word_eqI) (auto simp: bit_simps dest: small [OF assms(1)])
  show "(push_bit 4 a OR b) AND 0x0F = b"
    using small [OF assms(2)] by (intro bit_word_eqI) (auto simp: mask bit_simps)
qed

lemma chunks_pairs:
  "even (length ns) \<Longrightarrow> k < length ns div 2 \<Longrightarrow> chunks 2 ns ! k = [ns ! (2 * k), ns ! (2 * k + 1)]"
proof (induction k arbitrary: ns)
  case 0
  then obtain a b r where "ns = a # b # r" by (cases ns; cases "tl ns") auto
  then show ?case by (simp add: chunks_nonempty)
next
  case (Suc k)
  then obtain a b r where ns: "ns = a # b # r" by (cases ns; cases "tl ns") auto
  with Suc show ?case by (simp add: chunks_nonempty)
qed

definition nibble_at :: "bytes \<Rightarrow> nat \<Rightarrow> u8" where
  "nibble_at bs i = (if i mod 2 = 0 then drop_bit 4 (bs ! (i div 2)) else bs ! (i div 2) AND 0x0F)"

lemma packed_nibble:
  assumes "even (length ns)" and "\<forall>n \<in> set ns. n < 16" and "i < length ns"
  defines "bs \<equiv> map pair_byte (chunks 2 ns)"
  shows "i div 2 < length bs" and "nibble_at bs i = ns ! i"
proof -
  have len: "length bs = length ns div 2"
    using assms(1) by (auto simp: bs_def length_chunks elim!: evenE)
  then show short: "i div 2 < length bs" using assms(1,3) by (auto elim!: evenE)
  let ?k = "i div 2"
  have k: "?k < length ns div 2" using short len by simp
  then have two: "2 * ?k + 1 < length ns" by auto
  have "bs ! ?k = push_bit 4 (ns ! (2 * ?k)) OR ns ! (2 * ?k + 1)"
    using short chunks_pairs [OF assms(1) k] by (simp add: bs_def pair_byte_def)
  moreover have "ns ! (2 * ?k) < 16" "ns ! (2 * ?k + 1) < 16"
    using two assms(2) by simp_all
  ultimately have "drop_bit 4 (bs ! ?k) = ns ! (2 * ?k)" "bs ! ?k AND 0x0F = ns ! (2 * ?k + 1)"
    using pair_byte_high by metis+
  moreover have "i = 2 * ?k" if "i mod 2 = 0" using that by presburger
  moreover have "i = 2 * ?k + 1" if "i mod 2 \<noteq> 0" using that by presburger
  ultimately show "nibble_at bs i = ns ! i" unfolding nibble_at_def by metis
qed

lemma unpack_loop_reads:
  "\<forall>i \<in> set is. i div 2 < length bs \<and> nibble_at bs i \<le> 9 \<Longrightarrow>
   number_of v (map (\<lambda>i. unat (nibble_at bs i)) is) \<le> u64_max \<Longrightarrow>
   unpack_loop bs is v = Ok (number_of v (map (\<lambda>i. unat (nibble_at bs i)) is))"
proof (induction "is" arbitrary: v)
  case (Cons i "is")
  let ?d = "unat (nibble_at bs i)"
  have "10 * v + ?d \<le> u64_max"
    using Cons.prems(2) number_of_mono [of "10 * v + ?d" "map (\<lambda>i. unat (nibble_at bs i)) is"]
    by simp
  then have "checked_mul64 v 10 = Some (10 * v)" "checked_add64 (10 * v) ?d = Some (10 * v + ?d)"
    by (simp_all add: checked_mul64_def checked_add64_def mult.commute)
  moreover have "\<not> nibble_at bs i > 9" "i div 2 < length bs" using Cons.prems(1) by (simp_all add: not_less)
  moreover have "unpack_loop bs is (10 * v + ?d) =
      Ok (number_of (10 * v + ?d) (map (\<lambda>i. unat (nibble_at bs i)) is))"
    using Cons.prems by (intro Cons.IH) simp_all
  ultimately show ?case
    unfolding unpack_loop.simps Let_def nibble_at_def [symmetric] by simp
qed simp

lemma decimal_nibbles_even: "even (length (decimal_nibbles n d))"
  by (simp add: decimal_nibbles_def Let_def)

lemma decimal_nibbles_small: "\<forall>x \<in> set (decimal_nibbles n d). x < 16"
proof -
  have "b - 48 < 16" if "b \<in> set (format_decimal d n)" for b
    using format_decimal_digits(2) [of d n] that
    by (fastforce simp: digit_of_def word_less_nat_alt)
  then show ?thesis by (auto simp: decimal_nibbles_def Let_def)
qed

lemma decimal_nibbles_nth:
  "i < length (format_decimal d n) \<Longrightarrow>
     Suc i < length (decimal_nibbles n d) \<and>
     unat (decimal_nibbles n d ! Suc i) = digit_of (format_decimal d n ! i)"
  by (simp add: decimal_nibbles_def Let_def digit_of_def nth_append)

lemma pack_unpack_decimal:
  assumes "0 < digits" and "n < 10 ^ digits" and "n \<le> u64_max"
  shows "unpack_decimal (pack_decimal n digits) digits = Ok n"
    and "length (pack_decimal n digits) = (digits + 2) div 2"
proof -
  let ?ns = "decimal_nibbles n digits" and ?f = "format_decimal digits n"
  have len: "length ?f = digits" using assms by (simp add: length_format_decimal)
  note packed = packed_nibble [OF decimal_nibbles_even decimal_nibbles_small,
      of _ n digits, folded pack_decimal_def]
  have nibble: "i div 2 < length (pack_decimal n digits)
      \<and> unat (nibble_at (pack_decimal n digits) i) = digit_of (?f ! (i - 1))" if "i \<in> set [1..<digits + 1]" for i
  proof -
    from that have "1 \<le> i" "i \<le> digits" by auto
    then obtain j where "i = Suc j" "j < digits" by (cases i) auto
    then show ?thesis using packed [of i] decimal_nibbles_nth [of j digits n] len by simp
  qed
  have digits: "map (\<lambda>i. unat (nibble_at (pack_decimal n digits) i)) [1..<digits + 1] = map digit_of ?f"
    using nibble len by (intro nth_equalityI) (simp_all del: upt_Suc)
  have small: "nibble_at (pack_decimal n digits) i \<le> 9" if "i \<in> set [1..<digits + 1]" for i
  proof -
    have "?f ! (i - 1) \<in> set ?f" using that len by auto
    then have "digit_of (?f ! (i - 1)) < 10" using format_decimal_digits(2) by blast
    then show ?thesis using nibble [OF that] by (simp add: word_le_nat_alt)
  qed
  have first: "drop_bit 4 (hd (pack_decimal n digits)) = 1" "pack_decimal n digits \<noteq> []"
    using packed [of 0] len assms(1)
    by (auto simp: nibble_at_def hd_conv_nth decimal_nibbles_def Let_def)
  have "unpack_loop (pack_decimal n digits) [1..<digits + 1] 0 = Ok n"
    using unpack_loop_reads [of "[1..<digits + 1]" "pack_decimal n digits" 0, unfolded digits format_decimal_digits(1)]
      nibble small assms(3)
    by (simp del: upt_Suc)
  then show "unpack_decimal (pack_decimal n digits) digits = Ok n"
    using first by (cases "pack_decimal n digits") (simp_all add: unpack_decimal_def del: upt_Suc)
  show "length (pack_decimal n digits) = (digits + 2) div 2"
    using len by (simp add: pack_decimal_def length_chunks decimal_nibbles_def Let_def)
qed

section \<open>Variable strings and timestamps\<close>

lemma put_units_eq:
  "2 + i * 2 + 2 * length us \<le> length out \<Longrightarrow> put_units i us out = put (2 + i * 2) (utf16_bytes us) out"
proof (induction us arbitrary: i out)
  case Nil
  then show ?case by (simp add: utf16_bytes_def)
next
  case (Cons u us)
  let ?out = "put (2 + i * 2) (to_le_bytes 2 u) out"
  have "put_units i (u # us) out = put (2 + (i + 1) * 2) (utf16_bytes us) ?out"
    using Cons.prems by (simp add: Cons.IH)
  also have "\<dots> = put (2 + i * 2) (to_le_bytes 2 u @ utf16_bytes us) out"
    using Cons.prems by (intro put_put) (simp_all add: length_utf16_bytes)
  finally show ?case by (simp add: utf16_bytes_def)
qed

lemma encoded_string:
  assumes "encode_var_string s limit out = Ok out'" and "length out = 2 + 2 * limit"
  shows "out' = to_le_bytes 2 (of_nat (length (encode_utf16 s)) :: u16) @ utf16_bytes (encode_utf16 s)
      @ concat (replicate (limit - length (encode_utf16 s)) [0x20, 0x00])"
    and "length (encode_utf16 s) \<le> limit"
proof -
  let ?u = "encode_utf16 s"
  let ?n = "to_le_bytes 2 (of_nat (length ?u) :: u16)"
  let ?pad = "\<lambda>k. concat (replicate k [0x20, 0x00 :: u8])"
  have len: "length ?u \<le> limit"
    using assms(1) by (simp add: encode_var_string_def Let_def split: if_splits)
  then show "length ?u \<le> limit" .
  have pad: "length (?pad k) = 2 * k" for k by (induction k) simp_all
  have "pad_with_spaces (put 0 ?n out) = ?n @ ?pad limit"
    using assms(2) pad [of limit] by (simp add: pad_with_spaces_def put_def)
  then have "out' = put_units 0 ?u (?n @ ?pad limit)"
    using assms(1) len by (simp add: encode_var_string_def Let_def)
  also have "\<dots> = put 2 (utf16_bytes ?u) (?n @ ?pad limit)"
    using len pad [of limit] by (subst put_units_eq) simp_all
  also have "\<dots> = ?n @ utf16_bytes ?u @ drop (2 * length ?u) (?pad limit)"
    by (simp add: put_def length_utf16_bytes)
  also have "drop (2 * length ?u) (?pad limit) = ?pad (limit - length ?u)"
  proof -
    have "?pad limit = ?pad (length ?u) @ ?pad (limit - length ?u)"
      using len by (simp flip: concat_append replicate_add)
    then show ?thesis using pad [of "length ?u"] by simp
  qed
  finally show "out' = ?n @ utf16_bytes ?u @ ?pad (limit - length ?u)" .
qed

lemma string_decodes:
  assumes "encode_var_string s limit out = Ok out'" and "length out = 2 + 2 * limit"
    and "\<forall>c \<in> set s. is_scalar c" and "limit < 65536"
  shows "decode_var_string out' limit = Ok s"
proof -
  let ?u = "encode_utf16 s"
  note out' = encoded_string [OF assms(1,2)]
  have two: "[out' ! 0, out' ! 1] = to_le_bytes 2 (of_nat (length ?u) :: u16)"
    by (rule nth_equalityI) (auto simp: out'(1) nth_append less_Suc_eq numeral_2_eq_2)
  have "unat (of_nat (length ?u) :: u16) = length ?u"
    using out'(2) assms(4) by (simp add: unsigned_of_nat take_bit_eq_mod)
  moreover have "slice 2 (2 + length ?u * 2) out' = utf16_bytes ?u"
    by (simp add: out'(1) slice_def length_utf16_bytes mult.commute)
  ultimately show ?thesis
    using out'(2) assms(3) from_utf16_encode
    by (simp add: decode_var_string_def Let_def two del: One_nat_def)
qed

lemma format_hex_digits:
  "a < 10 \<Longrightarrow> b < 10 \<Longrightarrow> format_hex 2 (a * 16 + b) = [48 + of_nat a, 48 + of_nat b]"
proof -
  assume a: "a < 10" and b: "b < 10"
  have one: "hex_digits n = [48 + of_nat n]" if "n < 10" for n
    using that by (subst hex_digits.simps) (simp add: hex_char_def)
  show "format_hex 2 (a * 16 + b) = [48 + of_nat a, 48 + of_nat b]"
  proof (cases "a = 0")
    case True
    then show ?thesis using one [OF b] by (simp add: format_hex_def Let_def)
  next
    case False
    then have "hex_digits (a * 16 + b) = hex_digits a @ [48 + of_nat b]"
      using b by (subst hex_digits.simps) (simp add: hex_char_def)
    then show ?thesis using one [OF a] by (simp add: format_hex_def Let_def)
  qed
qed

lemma timestamp_pair:
  assumes "digit_of x < 10" and "digit_of y < 10"
  shows "format_hex 2 (unat (push_bit 4 (x - 48) OR (y - 48))) = [x, y]"
proof -
  let ?a = "digit_of x" and ?b = "digit_of y"
  have x: "x - 48 = of_nat ?a" and y: "y - 48 = of_nat ?b" by (simp_all add: digit_of_def)
  have "push_bit 4 (x - 48) OR (y - 48) = of_nat (?a * 16 + ?b)"
    using push_bit_OR_digit [of ?b "of_nat ?a :: u8"] assms by (simp add: x y)
  moreover have "unat (of_nat (?a * 16 + ?b) :: u8) = ?a * 16 + ?b"
    using assms by (simp only: unsigned_of_nat take_bit_eq_mod) simp
  moreover have "x = 48 + of_nat ?a" "y = 48 + of_nat ?b" by (simp_all flip: x y)
  ultimately show ?thesis using format_hex_digits [OF assms] by simp
qed

lemma timestamp_pairs:
  "even (length d) \<Longrightarrow> \<forall>b \<in> set d. digit_of b < 10 \<Longrightarrow>
     timestamp_digits (map (\<lambda>p. push_bit 4 (p ! 0 - 48) OR (p ! 1 - 48)) (chunks 2 d)) = d"
proof (induction d rule: induct_list012)
  case (3 x y zs)
  then show ?case by (simp add: timestamp_digits_def chunks_nonempty timestamp_pair)
qed (simp_all add: timestamp_digits_def)

lemma timestamp_text:
  assumes "timestamp_new year month day hour minute second = Some t"
  shows "timestamp_digits t = format_decimal 4 year @ format_decimal 2 month @ format_decimal 2 day
      @ format_decimal 2 hour @ format_decimal 2 minute @ format_decimal 2 second"
    and "length t = 7"
proof -
  let ?d = "format_decimal 4 year @ format_decimal 2 month @ format_decimal 2 day
      @ format_decimal 2 hour @ format_decimal 2 minute @ format_decimal 2 second"
  have len: "length ?d = 14"
    using assms by (simp add: timestamp_new_def length_format_decimal split: if_splits)
  have "\<forall>b \<in> set ?d. digit_of b < 10" using format_decimal_digits(2) by auto
  moreover have t: "t = map (\<lambda>p. push_bit 4 (p ! 0 - 48) OR (p ! 1 - 48)) (chunks 2 ?d)"
    using assms by (simp add: timestamp_new_def Let_def split: if_splits)
  ultimately show "timestamp_digits t = ?d" using timestamp_pairs len by simp
  show "length t = 7" using len by (simp add: t length_chunks)
qed

section \<open>Properties\<close>

text \<open>C26: A number that fits its digits comes back from its packed decimal, which takes the bytes the
  field description gives it; and the digits of a timestamp are the parts it was made from.\<close>

theorem packed_digits_come_back:
  assumes "0 < digits" and "n < 10 ^ digits" and "n \<le> 18446744073709551615"
  shows "unpack_decimal (pack_decimal n digits) digits = Ok n
    \<and> length (pack_decimal n digits) = (digits + 2) div 2
    \<and> (\<forall>t. timestamp_new year month day hour minute second = Some t \<longrightarrow> length t = 7
         \<and> timestamp_digits t = format_decimal 4 year @ format_decimal 2 month @ format_decimal 2 day
             @ format_decimal 2 hour @ format_decimal 2 minute @ format_decimal 2 second)"
  using pack_unpack_decimal [OF assms(1,2)] assms(3) timestamp_text by auto

theorem packed_digits_come_back_witness:
  "unpack_decimal (pack_decimal 12345 5) 5 = Ok 12345 \<and> length (pack_decimal 12345 5) = 3"
  using packed_digits_come_back [of 5 12345 2026 10 21 20 18 56] by simp

text \<open>A string that \<open>encode_var_string\<close> accepts for a field is read back from the field, which
  holds its length, its units and spaces up to the field's end.\<close>

theorem var_strings_come_back:
  assumes "encode_var_string s limit out = Ok out'" and "length out = 2 + 2 * limit"
    and "\<forall>c \<in> set s. is_scalar c" and "limit < 65536"
  shows "decode_var_string out' limit = Ok s \<and> length out' = length out
    \<and> drop (2 + 2 * length (encode_utf16 s)) out'
        = concat (replicate (limit - length (encode_utf16 s)) [0x20, 0x00])"
proof -
  have "length (concat (replicate k [0x20, 0x00 :: u8])) = 2 * k" for k by (induction k) simp_all
  then show ?thesis
    using string_decodes [OF assms] encoded_string [OF assms(1,2)] assms(2)
    by (simp add: length_utf16_bytes)
qed

theorem var_strings_come_back_witness:
  "\<exists>out'. encode_var_string [0x76, 0x10348] 4 (replicate 10 0) = Ok out'
    \<and> decode_var_string out' 4 = Ok [0x76, 0x10348]"
proof -
  have "length (encode_utf16 [0x76, 0x10348]) = 3" by (simp add: encode_utf16_def encode_utf16_char_def)
  then obtain out' where e: "encode_var_string [0x76, 0x10348] 4 (replicate 10 0) = Ok out'"
    by (simp add: encode_var_string_def)
  then show ?thesis using var_strings_come_back [OF e] by (simp add: is_scalar_def)
qed

end
