(* ===== verification/Filedb_State.thy ===== *)
theory Filedb_State
  imports Filedb_Error
begin

text \<open>
  Actions of the file infobase layer: functions from a state to a result and the state that is left,
  also when the result is an error.  The theory holds the \<open>?\<close> operator on actions and
  \<open>crates/ibcmd-filedb/src/read_limits.rs\<close>, whose counters and cancellation check are the state.
\<close>

type_synonym ('s, 'a) act = "'s \<Rightarrow> (db_error + 'a) \<times> 's"

definition ret :: "'a \<Rightarrow> ('s, 'a) act" where
  "ret x s = (Ok x, s)"

definition fail :: "db_error \<Rightarrow> ('s, 'a) act" where
  "fail e s = (Err e, s)"

definition and_then :: "('s, 'a) act \<Rightarrow> ('a \<Rightarrow> ('s, 'b) act) \<Rightarrow> ('s, 'b) act" where
  "and_then m f s = (case m s of (Inl e, s') \<Rightarrow> (Inl e, s') | (Inr x, s') \<Rightarrow> f x s')"

definition guard_not :: "bool \<Rightarrow> db_error \<Rightarrow> ('s, unit) act" where
  "guard_not c e = (if c then fail e else ret ())"

lemma ret_Ok [result_simps]: "ret x s = (Inr y, s') \<longleftrightarrow> y = x \<and> s' = s"
  by (auto simp: ret_def)

lemma fail_Ok [simp]: "fail e s \<noteq> (Inr y, s')"
  by (simp add: fail_def)

lemma and_then_Ok [result_simps]:
  "and_then m f s = (Inr y, s'') \<longleftrightarrow> (\<exists>x s'. m s = (Inr x, s') \<and> f x s' = (Inr y, s''))"
  by (auto simp: and_then_def split: prod.splits sum.splits)

lemma guard_not_Ok [result_simps]: "guard_not c e s = (Inr y, s') \<longleftrightarrow> \<not> c \<and> s' = s"
  by (simp add: guard_not_def fail_def ret_def) auto

lemma and_then_step: "m s = (Inr x, s') \<Longrightarrow> and_then m f s = f x s'"
  by (simp add: and_then_def)

lemma and_then_cong [fundef_cong]:
  assumes "m s = m' s'" and "s = s'" and "\<And>x t. m' s' = (Inr x, t) \<Longrightarrow> f x t = f' x t"
  shows "and_then m f s = and_then m' f' s'"
  using assms by (auto simp: and_then_def split: prod.splits sum.splits)

section \<open>The read budget\<close>

definition checked_sub :: "nat \<Rightarrow> nat \<Rightarrow> nat option" where
  "checked_sub a b = (if b \<le> a then Some (a - b) else None)"

record read_limits =
  max_records :: nat
  max_binary_bytes :: nat
  max_object_bytes :: nat

text \<open>The counters, shared by all clones, and the check, whose environment answers as it likes.\<close>

record 'e read_budget =
  bud_records :: nat
  bud_binary :: nat
  bud_object :: nat
  bud_check :: "('e, unit) act"
  bud_env :: 'e

definition read_budget_new :: "read_limits \<Rightarrow> ('e, unit) act \<Rightarrow> 'e \<Rightarrow> 'e read_budget" where
  "read_budget_new l check env =
     \<lparr>bud_records = max_records l, bud_binary = max_binary_bytes l, bud_object = max_object_bytes l,
      bud_check = check, bud_env = env\<rparr>"

definition budget_check :: "('e read_budget, unit) act" where
  "budget_check b = (case bud_check b (bud_env b) of (r, env) \<Rightarrow> (r, b\<lparr>bud_env := env\<rparr>))"

definition budget_object :: "nat \<Rightarrow> ('e read_budget, unit) act" where
  "budget_object n =
     and_then budget_check (\<lambda>_ b.
       (case checked_sub (bud_object b) n of
          None \<Rightarrow> fail (Db_Refused (In_Limits Object_Limit)) b
        | Some v \<Rightarrow> ret () (b\<lparr>bud_object := v\<rparr>)))"

definition budget_record :: "nat \<Rightarrow> ('e read_budget, unit) act" where
  "budget_record n =
     and_then budget_check (\<lambda>_ b.
       (case checked_sub (bud_records b) 1 of
          None \<Rightarrow> fail (Db_Refused (In_Limits Record_Limit)) b
        | Some r \<Rightarrow>
            (case checked_sub (bud_binary b) n of
               None \<Rightarrow> fail (Db_Refused (In_Limits Binary_Limit)) b
             | Some v \<Rightarrow> ret () (b\<lparr>bud_records := r, bud_binary := v\<rparr>))))"

lemma budget_check_keeps:
  "budget_check b = (r, b') \<Longrightarrow> bud_records b' = bud_records b \<and> bud_binary b' = bud_binary b
     \<and> bud_object b' = bud_object b \<and> bud_check b' = bud_check b"
  by (auto simp: budget_check_def split: prod.splits)

lemma budget_object_Ok:
  "budget_object n b = (Ok u, b') \<Longrightarrow> bud_object b = bud_object b' + n \<and> bud_records b' = bud_records b
     \<and> bud_binary b' = bud_binary b"
  by (auto simp: budget_object_def result_simps checked_sub_def dest!: budget_check_keeps split: if_splits)

lemma budget_record_Ok:
  "budget_record n b = (Ok u, b') \<Longrightarrow> bud_records b = bud_records b' + 1 \<and> bud_binary b = bud_binary b' + n
     \<and> bud_object b' = bud_object b"
  by (auto simp: budget_record_def result_simps checked_sub_def dest!: budget_check_keeps split: if_splits)

text \<open>A refused charge takes nothing.\<close>

lemma budget_refused_keeps:
  "budget_object n b = (Err e, b') \<or> budget_record n b = (Err e, b') \<Longrightarrow>
     bud_records b' = bud_records b \<and> bud_binary b' = bud_binary b \<and> bud_object b' = bud_object b"
  by (auto simp: budget_object_def budget_record_def and_then_def fail_def ret_def
        dest: budget_check_keeps split: prod.splits sum.splits option.splits)

end
