(* ===== verification/Filedb_Pager.thy ===== *)
theory Filedb_Pager
  imports Filedb_State Filedb_Blob
begin

text \<open>
  \<open>crates/ibcmd-filedb/src/pager.rs\<close>: pages of a fixed size in a file.  The file is a \<open>Backing\<close>: the
  operations of the trait over a state of its own, so that every read, write and seek may fail.  The
  locale \<open>backing_file\<close> says what a success means, and \<open>sound_file\<close> adds that nothing fails.
\<close>

section \<open>The backing file\<close>

record 'f backing =
  bk_length :: "'f \<Rightarrow> io_error_kind + nat"
  bk_seek :: "'f \<Rightarrow> nat \<Rightarrow> (io_error_kind + unit) \<times> 'f"
  bk_read_exact :: "'f \<Rightarrow> nat \<Rightarrow> (io_error_kind + bytes) \<times> 'f"
  bk_write_all :: "'f \<Rightarrow> bytes \<Rightarrow> (io_error_kind + unit) \<times> 'f"
  bk_sync :: "'f \<Rightarrow> (io_error_kind + unit) \<times> 'f"

text \<open>A write at a position of a file: a gap is filled with zeros.\<close>

definition write_at :: "nat \<Rightarrow> bytes \<Rightarrow> bytes \<Rightarrow> bytes" where
  "write_at at bs c = take at (c @ replicate (at - length c) 0) @ bs @ drop (at + length bs) c"

locale backing_file =
  fixes disk :: "'f backing" and contents :: "'f \<Rightarrow> bytes" and position :: "'f \<Rightarrow> nat"
  assumes length_is: "bk_length disk f = Ok n \<Longrightarrow> n = length (contents f)"
    and seek_contents: "bk_seek disk f n = (r, f') \<Longrightarrow> contents f' = contents f"
    and seek_position: "bk_seek disk f n = (Ok (), f') \<Longrightarrow> position f' = n"
    and read_contents: "bk_read_exact disk f n = (got, f') \<Longrightarrow> contents f' = contents f"
    and read_bytes: "bk_read_exact disk f n = (Ok bs, f') \<Longrightarrow>
      position f + n \<le> length (contents f) \<and> bs = slice (position f) (position f + n) (contents f)"
    and write_bytes: "bk_write_all disk f bs = (Ok (), f') \<Longrightarrow>
      contents f' = write_at (position f) bs (contents f)"
    and sync_contents: "bk_sync disk f = (r, f') \<Longrightarrow> contents f' = contents f"

locale sound_file = backing_file +
  assumes length_sound: "\<exists>n. bk_length disk f = Ok n"
    and seek_sound: "\<exists>f'. bk_seek disk f n = (Ok (), f')"
    and read_sound: "position f + n \<le> length (contents f) \<Longrightarrow> \<exists>bs f'. bk_read_exact disk f n = (Ok bs, f')"
    and write_sound: "\<exists>f'. bk_write_all disk f bs = (Ok (), f')"
    and sync_sound: "\<exists>f'. bk_sync disk f = (Ok (), f')"

text \<open>An in-memory file, the contract's first provider.\<close>

record mem_file =
  mem_bytes :: bytes
  mem_position :: nat

definition mem_backing :: "mem_file backing" where
  "mem_backing = \<lparr>
     bk_length = \<lambda>f. Ok (length (mem_bytes f)),
     bk_seek = \<lambda>f n. (Ok (), f\<lparr>mem_position := n\<rparr>),
     bk_read_exact = \<lambda>f n.
       (if mem_position f + n \<le> length (mem_bytes f)
        then (Ok (slice (mem_position f) (mem_position f + n) (mem_bytes f)), f\<lparr>mem_position := mem_position f + n\<rparr>)
        else (Err UnexpectedEof, f)),
     bk_write_all = \<lambda>f bs.
       (Ok (), f\<lparr>mem_bytes := write_at (mem_position f) bs (mem_bytes f), mem_position := mem_position f + length bs\<rparr>),
     bk_sync = \<lambda>f. (Ok (), f)\<rparr>"

interpretation mem: sound_file mem_backing mem_bytes mem_position
  by unfold_locales (auto simp: mem_backing_def split: if_splits)

section \<open>The pager\<close>

definition SIGNATURE :: bytes where "SIGNATURE = [0x31, 0x43, 0x44, 0x42, 0x4D, 0x53, 0x56, 0x38]"
definition VERSION_838 :: bytes where "VERSION_838 = [8, 3, 8, 0]"

text \<open>Page numbers are \<open>u32\<close> values; \<open>read_u32\<close> is \<open>u32::from_le_bytes\<close> at a place.\<close>

definition read_u32 :: "nat \<Rightarrow> bytes \<Rightarrow> nat" where
  "read_u32 at bs = unat (from_le_bytes (slice at (at + 4) bs) :: u32)"

definition read_u16 :: "nat \<Rightarrow> bytes \<Rightarrow> nat" where
  "read_u16 at bs = unat (from_le_bytes (slice at (at + 2) bs) :: u16)"

record ('f, 'e) pager =
  pg_file :: 'f
  pg_disk :: "'f backing"
  pg_page_size :: nat
  pg_page_count :: nat
  pg_header :: bytes
  pg_budget :: "'e read_budget option"

type_synonym ('f, 'e, 'a) pager_act = "(('f, 'e) pager, 'a) act"

definition on_file :: "('f backing \<Rightarrow> 'f \<Rightarrow> (io_error_kind + 'a) \<times> 'f) \<Rightarrow> ('f, 'e, 'a) pager_act" where
  "on_file operation p =
     (case operation (pg_disk p) (pg_file p) of
        (Inl k, f) \<Rightarrow> (Err (Db_Io k), p\<lparr>pg_file := f\<rparr>)
      | (Inr x, f) \<Rightarrow> (Ok x, p\<lparr>pg_file := f\<rparr>))"

definition on_budget :: "('e read_budget, unit) act \<Rightarrow> ('f, 'e, unit) pager_act" where
  "on_budget charge p =
     (case pg_budget p of
        None \<Rightarrow> (Ok (), p)
      | Some b \<Rightarrow> (case charge b of (r, b') \<Rightarrow> (r, p\<lparr>pg_budget := Some b'\<rparr>)))"

definition set_read_budget :: "'e read_budget option \<Rightarrow> ('f, 'e) pager \<Rightarrow> ('f, 'e) pager" where
  "set_read_budget b p = p\<lparr>pg_budget := b\<rparr>"

definition read_is_bounded :: "('f, 'e) pager \<Rightarrow> bool" where
  "read_is_bounded p = (pg_budget p \<noteq> None)"

definition check_read :: "('f, 'e, unit) pager_act" where
  "check_read = on_budget budget_check"

definition materialize_object :: "nat \<Rightarrow> ('f, 'e, unit) pager_act" where
  "materialize_object n = on_budget (budget_object n)"

definition materialize_record :: "nat \<Rightarrow> ('f, 'e, unit) pager_act" where
  "materialize_record n = on_budget (budget_record n)"

definition check_page :: "nat \<Rightarrow> page_role \<Rightarrow> ('f, 'e, unit) pager_act" where
  "check_page page role p =
     guard_not (page = 0 \<or> page \<ge> pg_page_count p) (corrupt (In_Pager (Page_Outside role page (pg_page_count p)))) p"

definition read_page_into :: "nat \<Rightarrow> nat \<Rightarrow> ('f, 'e, bytes) pager_act" where
  "read_page_into page n =
     and_then check_read (\<lambda>_ p.
       if page \<ge> pg_page_count p then fail (corrupt (In_Pager (Page_Outside_File page))) p
       else and_then (on_file (\<lambda>d f. bk_seek d f (page * pg_page_size p)))
              (\<lambda>_. on_file (\<lambda>d f. bk_read_exact d f n)) p)"

definition read_page :: "nat \<Rightarrow> ('f, 'e, bytes) pager_act" where
  "read_page page p = read_page_into page (pg_page_size p) p"

definition write_page :: "nat \<Rightarrow> bytes \<Rightarrow> ('f, 'e, unit) pager_act" where
  "write_page page bs =
     and_then check_read (\<lambda>_ p.
       if page \<ge> pg_page_count p then fail (corrupt (In_Pager (Write_Outside_File page))) p
       else and_then (on_file (\<lambda>d f. bk_seek d f (page * pg_page_size p)))
              (\<lambda>_. on_file (\<lambda>d f. bk_write_all d f bs)) p)"

definition append_page :: "('f, 'e, nat) pager_act" where
  "append_page =
     and_then check_read (\<lambda>_ p.
       let page = pg_page_count p in
       if page = u32_max then fail (Db_Refused (In_Pager Too_Many_Pages)) p
       else and_then (write_page page (replicate (pg_page_size p) 0)) (\<lambda>_. ret page)
              (p\<lparr>pg_page_count := page + 1\<rparr>))"

definition flush_header :: "('f, 'e, unit) pager_act" where
  "flush_header p =
     (let header = put 12 (le32 (pg_page_count p)) (pg_header p) in
      and_then (write_page 0 header) (\<lambda>_ p'. (Ok (), p'\<lparr>pg_header := header\<rparr>)) p)"

definition pager_sync :: "('f, 'e, unit) pager_act" where
  "pager_sync = on_file (\<lambda>d f. bk_sync d f)"

definition is_power_of_two :: "nat \<Rightarrow> bool" where
  "is_power_of_two n \<longleftrightarrow> n \<noteq> 0 \<and> n AND (n - 1) = 0"

text \<open>\<open>Pager::new\<close>: a failed read of the first 24 bytes is a short file, whatever the failure.\<close>

definition pager_new :: "'f backing \<Rightarrow> 'f \<Rightarrow> db_error + ('f, 'e) pager" where
  "pager_new disk f =
     (case bk_length disk f of
        Inl k \<Rightarrow> Err (Db_Io k)
      | Inr len \<Rightarrow>
     (case bk_seek disk f 0 of
        (Inl k, f0) \<Rightarrow> Err (Db_Io k)
      | (Inr _, f0) \<Rightarrow>
     (case bk_read_exact disk f0 24 of
        (Inl k, f1) \<Rightarrow> Err (corrupt (In_Pager File_Header_Short))
      | (Inr head, f1) \<Rightarrow>
          if take 8 head \<noteq> SIGNATURE then Err (Db_Unsupported (In_Pager No_Signature))
          else if slice 8 12 head \<noteq> VERSION_838
          then Err (Db_Unsupported (In_Pager (Format_Version (slice 8 12 head))))
          else
            let page_count = read_u32 12 head; page_size = read_u32 20 head in
            if \<not> (4096 \<le> page_size \<and> page_size \<le> 65536) \<or> \<not> is_power_of_two page_size
            then Err (corrupt (In_Pager (Page_Size page_size)))
            else if page_count < 3 \<or> page_count * page_size > len
            then Err (corrupt (In_Pager (Page_Count page_count page_size len)))
            else
              let p = \<lparr>pg_file = f1, pg_disk = disk, pg_page_size = page_size,
                       pg_page_count = page_count, pg_header = [], pg_budget = None\<rparr> in
              (case read_page 0 p of
                 (Inl e, _) \<Rightarrow> Err e
               | (Inr header, p') \<Rightarrow> Ok (p'\<lparr>pg_header := header\<rparr>)))))"

end
