(* ===== verification/Filedb_Object.thy ===== *)
theory Filedb_Object
  imports Filedb_Pager
begin

text \<open>
  \<open>crates/ibcmd-filedb/src/object.rs\<close>: an object is a byte stream in the pages of the file.  Its header
  page lists the data pages, or, at level 1, pages that list them.  The operations of \<open>Object\<close> that
  take \<open>&mut self\<close> return the object they leave; on an error the callers drop it.
\<close>

definition OBJECT_SIGNATURE :: nat where "OBJECT_SIGNATURE = 0xFD1C"
definition OBJECT_HEADER :: nat where "OBJECT_HEADER = 24"

record object =
  ob_header_page :: nat
  ob_fat :: nat
  ob_counter :: nat
  ob_length_counter :: nat
  ob_len :: nat
  ob_pages :: "nat list"
  ob_tables :: "nat list"

definition direct_capacity :: "nat \<Rightarrow> nat" where
  "direct_capacity ps = (ps - OBJECT_HEADER) div 4"

text \<open>\<open>div_ceil\<close>.\<close>

definition div_ceil :: "nat \<Rightarrow> nat \<Rightarrow> nat" where
  "div_ceil a b = (a + (b - 1)) div b"

definition read_u64 :: "nat \<Rightarrow> bytes \<Rightarrow> nat" where
  "read_u64 at bs = unat (from_le_bytes (slice at (at + 8) bs) :: u64)"

text \<open>The little-endian \<open>u32\<close> numbers of a byte string, and writing them side by side.\<close>

definition u32s :: "bytes \<Rightarrow> nat list" where
  "u32s bs = map (\<lambda>c. unat (from_le_bytes c :: u32)) (chunks_exact 4 bs)"

fun put_u32s :: "nat \<Rightarrow> nat list \<Rightarrow> bytes \<Rightarrow> bytes" where
  "put_u32s at [] buf = buf"
| "put_u32s at (n # ns) buf = put_u32s (at + 4) ns (put at (le32 n) buf)"

section \<open>Opening\<close>

text \<open>The numbers of one second-level page, as far as pages are still needed.\<close>

fun push_pages :: "nat \<Rightarrow> nat list \<Rightarrow> nat list \<Rightarrow> nat list" where
  "push_pages need [] pgs = pgs"
| "push_pages need (n # ns) pgs =
     (if length pgs = need then pgs else push_pages need ns (pgs @ [n]))"

primrec read_tables ::
  "nat list \<Rightarrow> nat \<Rightarrow> nat list \<Rightarrow> nat list \<Rightarrow> ('f, 'e, nat list \<times> nat list) pager_act" where
  "read_tables [] need pgs tables = ret (pgs, tables)"
| "read_tables (t # ts) need pgs tables =
     and_then (check_page t Object_Table_Page) (\<lambda>_.
     and_then (read_page t) (\<lambda>listing.
       read_tables ts need (push_pages need (u32s listing) pgs) (tables @ [t])))"

primrec check_pages :: "nat list \<Rightarrow> ('f, 'e, unit) pager_act" where
  "check_pages [] = ret ()"
| "check_pages (n # ns) =
     and_then check_read (\<lambda>_.
     and_then (check_page n Object_Data_Page) (\<lambda>_. check_pages ns))"

text \<open>The two vectors, by the level.\<close>

definition page_lists ::
  "nat \<Rightarrow> nat \<Rightarrow> nat \<Rightarrow> nat \<Rightarrow> nat \<Rightarrow> nat list \<Rightarrow> ('f, 'e, nat list \<times> nat list) pager_act" where
  "page_lists header_page fat len need per direct =
     (if fat = 0 then
        (if need > length direct then fail (corrupt (In_Object (Object_Flat_Too_Long header_page len)))
         else ret (take need direct, []))
      else if fat = 1 then
        (let table_count = div_ceil need per in
         if table_count > length direct then fail (corrupt (In_Object (Object_Too_Long header_page)))
         else read_tables (take table_count direct) need [] [])
      else fail (corrupt (In_Object (Object_Fat_Unknown header_page fat))))"

text \<open>\<open>Object::open\<close> once its header page is read.\<close>

definition object_from_header :: "nat \<Rightarrow> bytes \<Rightarrow> ('f, 'e, object) pager_act" where
  "object_from_header header_page page p =
     (let sig = read_u16 0 page; fat = read_u16 2 page; counter = read_u32 4 page;
          length_counter = read_u32 8 page; len = read_u64 16 page;
          ps = pg_page_size p; need = div_ceil len ps; capacity = direct_capacity ps;
          per = ps div 4;
          table_count = (if fat = 0 \<and> need \<le> capacity then Some 0
                         else if fat = 1 \<and> div_ceil need per \<le> capacity then Some (div_ceil need per)
                         else None) in
      if sig \<noteq> OBJECT_SIGNATURE then fail (corrupt (In_Object (Object_Signature header_page sig))) p
      else if need > pg_page_count p
      then fail (corrupt (In_Object (Object_Longer_Than_File header_page len (pg_page_count p)))) p
      else
        (case table_count of
           None \<Rightarrow> fail (corrupt (In_Object (Object_Fat header_page fat))) p
         | Some tc \<Rightarrow>
             and_then (materialize_object ((capacity + need + tc) * 4)) (\<lambda>_.
             and_then (page_lists header_page fat len need per (u32s (drop OBJECT_HEADER page)))
               (\<lambda>(pgs, tables).
             and_then (check_pages pgs) (\<lambda>_.
               ret \<lparr>ob_header_page = header_page, ob_fat = fat, ob_counter = counter,
                    ob_length_counter = length_counter, ob_len = len, ob_pages = pgs,
                    ob_tables = tables\<rparr>))) p))"

definition object_open :: "nat \<Rightarrow> ('f, 'e, object) pager_act" where
  "object_open header_page =
     and_then (check_page header_page Object_Header_Page) (\<lambda>_.
     and_then (read_page header_page) (object_from_header header_page))"

section \<open>Reading\<close>

text \<open>The loop of \<open>read_at\<close>: the buffer is filled from its start, \<open>out\<close> is its filled part; the page
  read last is kept.  A page size of 0 does not pass \<open>Pager::new\<close>.\<close>

function object_read_loop ::
  "nat \<Rightarrow> nat list \<Rightarrow> nat \<Rightarrow> nat \<Rightarrow> nat option \<Rightarrow> bytes \<Rightarrow> bytes \<Rightarrow> ('f, 'e, bytes) pager_act" where
  "object_read_loop ps pgs pos end cached page_buf out =
     (if pos < end \<and> 0 < ps then
        let index = pos div ps; within = pos mod ps; count = min (ps - within) (end - pos) in
        and_then (if cached = Some index then ret page_buf else read_page_into (pgs ! index) ps)
          (\<lambda>page_buf. object_read_loop ps pgs (pos + count) end (Some index) page_buf
                        (out @ slice within (within + count) page_buf))
      else ret out)"
  by pat_completeness auto
termination
proof (relation "measure (\<lambda>(ps, pgs, pos, end, cached, page_buf, out). end - pos)", goal_cases)
  case (2 ps pgs pos "end" cached page_buf out index within count)
  then have "0 < min (ps - pos mod ps) (end - pos)" by simp
  then have "end - (pos + min (ps - pos mod ps) (end - pos)) < end - pos" using 2 by linarith
  with 2 show ?case by simp
qed simp

declare object_read_loop.simps [simp del]

definition object_read_at :: "object \<Rightarrow> nat \<Rightarrow> nat \<Rightarrow> ('f, 'e, bytes) pager_act" where
  "object_read_at ob offset n p =
     (case checked_add64 offset n of
        None \<Rightarrow> fail (corrupt (In_Object (Object_Read_Past offset n (ob_header_page ob) (ob_len ob)))) p
      | Some end \<Rightarrow>
          if end > ob_len ob
          then fail (corrupt (In_Object (Object_Read_Past offset n (ob_header_page ob) (ob_len ob)))) p
          else object_read_loop (pg_page_size p) (ob_pages ob) offset end None [] [] p)"

definition object_read_all :: "object \<Rightarrow> ('f, 'e, bytes) pager_act" where
  "object_read_all ob =
     and_then (materialize_object (ob_len ob)) (\<lambda>_. object_read_at ob 0 (ob_len ob))"

section \<open>Rewriting\<close>

text \<open>The loops that append pages while a vector is too short.\<close>

primrec grow :: "nat \<Rightarrow> nat list \<Rightarrow> ('f, 'e, nat list) pager_act" where
  "grow 0 pgs = ret pgs"
| "grow (Suc k) pgs = and_then append_page (\<lambda>n. grow k (pgs @ [n]))"

fun write_data_pages :: "nat \<Rightarrow> nat list \<Rightarrow> nat \<Rightarrow> bytes list \<Rightarrow> ('f, 'e, unit) pager_act" where
  "write_data_pages ps pgs index [] = ret ()"
| "write_data_pages ps pgs index (chunk # rest) =
     and_then (write_page (pgs ! index) (chunk @ replicate (ps - length chunk) 0)) (\<lambda>_.
       write_data_pages ps pgs (index + 1) rest)"

fun write_tables ::
  "nat \<Rightarrow> nat list \<Rightarrow> nat \<Rightarrow> nat list list \<Rightarrow> bytes \<Rightarrow> ('f, 'e, bytes) pager_act" where
  "write_tables ps tables t [] header = ret header"
| "write_tables ps tables t (chunk # rest) header =
     and_then (write_page (tables ! t) (put_u32s 0 chunk (replicate ps 0))) (\<lambda>_.
       write_tables ps tables (t + 1) rest (put (OBJECT_HEADER + t * 4) (le32 (tables ! t)) header))"

text \<open>The last fields of a header, and its write.\<close>

definition finish_header :: "object \<Rightarrow> bytes \<Rightarrow> ('f, 'e, object) pager_act" where
  "finish_header ob header =
     (let h1 = put 2 (le16 (ob_fat ob)) header;
          h2 = put 4 (le32 (ob_counter ob)) h1;
          h3 = put 8 (le32 (ob_length_counter ob)) h2;
          h4 = put 16 (to_le_bytes 8 (of_nat (ob_len ob) :: u64)) h3 in
      and_then (write_page (ob_header_page ob) h4) (\<lambda>_. ret ob))"

definition write_header :: "object \<Rightarrow> ('f, 'e, object) pager_act" where
  "write_header ob p =
     (let ps = pg_page_size p; direct = direct_capacity ps; need = div_ceil (ob_len ob) ps;
          pgs = take need (ob_pages ob);
          header = put 0 (le16 OBJECT_SIGNATURE) (replicate ps 0) in
      if length pgs \<le> direct \<and> ob_fat ob = 0
      then finish_header ob (put 12 (le32 0) (put_u32s OBJECT_HEADER pgs header)) p
      else
        let per = ps div 4; table_count = div_ceil (length pgs) per in
        if table_count > direct then fail (Db_Refused (In_Object Object_Table_Full)) p
        else
          and_then (grow (table_count - length (ob_tables ob)) (ob_tables ob)) (\<lambda>tables.
          and_then (write_tables ps tables 0 (chunks per pgs) header) (\<lambda>header.
            finish_header (ob\<lparr>ob_fat := 1, ob_tables := tables\<rparr>)
              (put 12 (le32 table_count) header))) p)"

definition object_rewrite :: "object \<Rightarrow> bytes \<Rightarrow> ('f, 'e, object) pager_act" where
  "object_rewrite ob content p =
     (if length content < ob_len ob
      then fail (Db_Refused (In_Object (Object_Shrinks (ob_header_page ob) (ob_len ob) (length content)))) p
      else
        let ps = pg_page_size p; need = div_ceil (length content) ps in
        and_then (grow (need - length (ob_pages ob)) (ob_pages ob)) (\<lambda>pgs.
        and_then (write_data_pages ps pgs 0 (chunks ps content)) (\<lambda>_.
          write_header (ob\<lparr>ob_pages := pgs, ob_len := length content,
             ob_counter := (ob_counter ob + 1) mod 2 ^ 32,
             ob_length_counter := (if length content \<noteq> ob_len ob
                then (ob_length_counter ob + 1) mod 2 ^ 32 else ob_length_counter ob)\<rparr>))) p)"

definition owned_pages :: "object \<Rightarrow> nat list" where
  "owned_pages ob = ob_header_page ob # ob_tables ob @ ob_pages ob"

end
