(* ===== verification/Filedb_Pager_Laws.thy ===== *)
theory Filedb_Pager_Laws
  imports Filedb_Pager Filedb_Blob_Laws
begin

text \<open>
  What the pages of a file are before and after each operation of the pager: a read returns the page,
  a write replaces one page and leaves the others, an append adds a zero page.  Partial statements hold
  for every \<open>backing_file\<close>; a \<open>sound_file\<close> without a budget lets every operation succeed.
\<close>

section \<open>Pages of a byte string\<close>

definition page_of :: "nat \<Rightarrow> bytes \<Rightarrow> nat \<Rightarrow> bytes" where
  "page_of ps c n = slice (n * ps) (n * ps + ps) c"

lemma length_page_of: "n * ps + ps \<le> length c \<Longrightarrow> length (page_of ps c n) = ps"
  by (simp add: page_of_def slice_def)

lemma length_write_at: "length (write_at at bs c) = max (length c) (at + length bs)"
  by (simp add: write_at_def)

lemma write_at_inside: "at + length bs \<le> length c \<Longrightarrow> write_at at bs c = put at bs c"
  by (simp add: write_at_def put_def)

lemma slice_write_same: "slice at (at + length bs) (write_at at bs c) = bs"
  by (simp add: slice_def write_at_def)

lemma slice_write_before:
  "b \<le> at \<Longrightarrow> b \<le> length c \<Longrightarrow> slice a b (write_at at bs c) = slice a b c"
  by (cases "a \<le> b") (simp_all add: slice_def write_at_def take_drop)

lemma slice_write_after:
  "at + length bs \<le> a \<Longrightarrow> at + length bs \<le> length c \<Longrightarrow> slice a b (write_at at bs c) = slice a b c"
  by (simp add: slice_def write_at_def)

lemma page_order: "(m :: nat) < n \<Longrightarrow> m * ps + ps \<le> n * ps"
  by (metis Suc_leI add.commute mult_Suc mult_le_mono1)

lemma page_of_write:
  assumes "length bs = ps" and "0 < ps" and "m * ps + ps \<le> length c"
  shows "page_of ps (write_at (n * ps) bs c) m = (if m = n then bs else page_of ps c m)"
proof -
  consider "m = n" | "m < n" | "n < m" by linarith
  then show ?thesis
  proof cases
    case 1
    then show ?thesis using slice_write_same [of "n * ps" bs c] assms by (simp add: page_of_def)
  next
    case 2
    then have "slice (m * ps) (m * ps + ps) (write_at (n * ps) bs c) = slice (m * ps) (m * ps + ps) c"
      using assms page_order by (intro slice_write_before) auto
    then show ?thesis using 2 by (simp add: page_of_def)
  next
    case 3
    then have "n * ps + length bs \<le> m * ps" using assms(1) page_order by blast
    then have "slice (m * ps) (m * ps + ps) (write_at (n * ps) bs c) = slice (m * ps) (m * ps + ps) c"
      using assms by (intro slice_write_after) auto
    then show ?thesis using 3 by (simp add: page_of_def)
  qed
qed

text \<open>A power of two of at least four is a multiple of four.\<close>

lemma power_of_two_half:
  assumes "is_power_of_two n" and "n \<noteq> 1"
  shows "even n" and "is_power_of_two (n div 2)"
proof -
  have n: "n \<noteq> 0" "n AND (n - 1) = 0" using assms(1) by (simp_all add: is_power_of_two_def)
  have rec: "n AND (n - 1) = of_bool (odd n \<and> odd (n - 1)) + 2 * ((n div 2) AND ((n - 1) div 2))" by (rule and_rec)
  show e: "even n"
  proof (rule ccontr)
    assume o: "odd n"
    then have "(n - 1) div 2 = n div 2" by (auto elim!: oddE)
    then have "n div 2 = 0" using rec n(2) by simp
    then show False using o assms(2) by (auto elim!: oddE)
  qed
  then have "(n - 1) div 2 = n div 2 - 1" using n(1) by (auto elim!: evenE)
  then show "is_power_of_two (n div 2)" using rec n e by (auto simp: is_power_of_two_def)
qed

lemma power_of_two_multiple: "is_power_of_two n \<Longrightarrow> 4 \<le> n \<Longrightarrow> 4 dvd n"
proof -
  assume p: "is_power_of_two n" and n: "4 \<le> n"
  then have "even n" "is_power_of_two (n div 2)" using power_of_two_half [OF p] by auto
  moreover from this have "even (n div 2)" using power_of_two_half(1) n by auto
  ultimately show "4 dvd n" by presburger
qed

section \<open>Pager states\<close>

definition pager_page :: "('f \<Rightarrow> bytes) \<Rightarrow> ('f, 'e) pager \<Rightarrow> nat \<Rightarrow> bytes" where
  "pager_page contents p n = page_of (pg_page_size p) (contents (pg_file p)) n"

definition pager_ok :: "'f backing \<Rightarrow> ('f \<Rightarrow> bytes) \<Rightarrow> ('f, 'e) pager \<Rightarrow> bool" where
  "pager_ok disk contents p \<longleftrightarrow>
     pg_disk p = disk \<and> 4096 \<le> pg_page_size p \<and> pg_page_size p \<le> 65536 \<and> 4 dvd pg_page_size p
     \<and> 3 \<le> pg_page_count p \<and> pg_page_count p \<le> u32_max
     \<and> pg_page_count p * pg_page_size p \<le> length (contents (pg_file p))"

text \<open>\<open>changed contents S p p'\<close>: from \<open>p\<close> to \<open>p'\<close> the file keeps its pages apart from those in \<open>S\<close>.\<close>

definition changed :: "('f \<Rightarrow> bytes) \<Rightarrow> nat set \<Rightarrow> ('f, 'e) pager \<Rightarrow> ('f, 'e) pager \<Rightarrow> bool" where
  "changed contents S p p' \<longleftrightarrow>
     pg_page_size p' = pg_page_size p \<and> pg_page_count p \<le> pg_page_count p'
     \<and> pg_header p' = pg_header p \<and> (pg_budget p = None \<longrightarrow> pg_budget p' = None)
     \<and> (\<forall>n < pg_page_count p. n \<notin> S \<longrightarrow> pager_page contents p' n = pager_page contents p n)"

lemma changed_refl [simp]: "changed contents S p p"
  by (simp add: changed_def)

lemma changed_trans:
  "changed contents S p p' \<Longrightarrow> changed contents T p' p'' \<Longrightarrow> changed contents (S \<union> T) p p''"
  by (fastforce simp: changed_def)

lemma changed_mono: "changed contents S p p' \<Longrightarrow> S \<subseteq> T \<Longrightarrow> changed contents T p p'"
  by (auto simp: changed_def)

lemma changed_new:
  "changed contents S p p' \<Longrightarrow> changed contents (S - {pg_page_count p..}) p p'"
  by (auto simp: changed_def)

lemma changed_page:
  "changed contents S p p' \<Longrightarrow> n < pg_page_count p \<Longrightarrow> n \<notin> S \<Longrightarrow>
     pager_page contents p' n = pager_page contents p n"
  by (simp add: changed_def)

lemma check_page_Ok:
  "check_page n role p = (Ok u, p') \<longleftrightarrow> n \<noteq> 0 \<and> n < pg_page_count p \<and> p' = p"
  by (auto simp: check_page_def result_simps)

lemma length_pager_page: "pager_ok disk contents p \<Longrightarrow> n < pg_page_count p \<Longrightarrow>
    length (pager_page contents p n) = pg_page_size p"
proof -
  assume ok: "pager_ok disk contents p" and n: "n < pg_page_count p"
  have "n * pg_page_size p + pg_page_size p \<le> pg_page_count p * pg_page_size p" by (rule page_order [OF n])
  then show ?thesis using ok by (simp add: pager_ok_def pager_page_def length_page_of)
qed

text \<open>A charge touches only the budget.\<close>

definition same_file :: "('f, 'e) pager \<Rightarrow> ('f, 'e) pager \<Rightarrow> bool" where
  "same_file p p' \<longleftrightarrow> (\<exists>b. p' = p\<lparr>pg_budget := b\<rparr> \<and> (pg_budget p = None \<longrightarrow> b = None))"

lemma on_budget_same: "on_budget charge p = (r, p') \<Longrightarrow> same_file p p'"
  by (cases "pg_budget p") (auto simp: on_budget_def same_file_def split: prod.splits)

lemma on_budget_none: "pg_budget p = None \<Longrightarrow> on_budget charge p = (Ok (), p)"
  by (simp add: on_budget_def)

lemma same_file_ok: "same_file p p' \<Longrightarrow> pager_ok disk contents p \<Longrightarrow> pager_ok disk contents p'"
  by (auto simp: same_file_def pager_ok_def)

lemma same_file_changed: "same_file p p' \<Longrightarrow> changed contents {} p p'"
  by (auto simp: same_file_def changed_def pager_page_def)

lemma same_file_simps:
  "same_file p p' \<Longrightarrow> pg_page_size p' = pg_page_size p \<and> pg_page_count p' = pg_page_count p
     \<and> pg_file p' = pg_file p \<and> pg_disk p' = pg_disk p \<and> pg_header p' = pg_header p"
  by (auto simp: same_file_def)

lemmas charges = check_read_def materialize_object_def materialize_record_def

context backing_file
begin

lemma on_file_seek_Ok:
  "on_file (\<lambda>d f. bk_seek d f n) p = (Ok u, p') \<Longrightarrow> pg_disk p = disk \<Longrightarrow>
     \<exists>f. p' = p\<lparr>pg_file := f\<rparr> \<and> contents f = contents (pg_file p) \<and> position f = n"
  using seek_contents [of "pg_file p" n "Ok ()"] seek_position [of "pg_file p" n]
  by (auto simp: on_file_def split: prod.splits sum.splits intro!: exI)

lemma read_page_Ok:
  assumes "read_page n p = (Ok bs, p')" and ok: "pager_ok disk contents p"
  shows "n < pg_page_count p" and "bs = pager_page contents p n"
    and "pager_ok disk contents p'" and "changed contents {} p p'" and "pg_page_count p' = pg_page_count p"
    and "contents (pg_file p') = contents (pg_file p)" and "pg_page_size p' = pg_page_size p"
proof -
  obtain u p1 where c: "check_read p = (Ok u, p1)" and n1: "n < pg_page_count p1"
    and r: "and_then (on_file (\<lambda>d f. bk_seek d f (n * pg_page_size p1)))
              (\<lambda>_. on_file (\<lambda>d f. bk_read_exact d f (pg_page_size p))) p1 = (Ok bs, p')"
    using assms(1) by (auto simp: read_page_def read_page_into_def result_simps not_le split: if_splits)
  have s1: "same_file p p1" using c by (auto simp: charges dest: on_budget_same)
  note same = same_file_simps [OF s1]
  show "n < pg_page_count p" using n1 same by simp
  obtain p2 f where f: "p2 = p1\<lparr>pg_file := f\<rparr>" "contents f = contents (pg_file p1)" "position f = n * pg_page_size p"
      and rd: "on_file (\<lambda>d f. bk_read_exact d f (pg_page_size p)) p2 = (Ok bs, p')"
    using r ok same by (auto simp: result_simps pager_ok_def dest!: on_file_seek_Ok)
  obtain g where g: "bk_read_exact disk f (pg_page_size p) = (Ok bs, g)" "p' = p2\<lparr>pg_file := g\<rparr>"
    using rd ok same f(1) by (auto simp: on_file_def pager_ok_def split: prod.splits sum.splits)
  from read_bytes [OF g(1)] show "bs = pager_page contents p n"
    using f same by (simp add: pager_page_def page_of_def)
  have cg: "contents g = contents (pg_file p)" using read_contents [OF g(1)] f same by simp
  show "pager_ok disk contents p'" using ok same g(2) f(1) cg by (simp add: pager_ok_def)
  show "changed contents {} p p'"
    using s1 g(2) f(1) cg by (auto simp: changed_def pager_page_def same_file_def)
  show "pg_page_count p' = pg_page_count p" "contents (pg_file p') = contents (pg_file p)"
    "pg_page_size p' = pg_page_size p"
    using same g(2) f(1) cg by simp_all
qed

lemma write_page_raw:
  assumes "write_page n bs p = (Ok u, p')" and disk: "pg_disk p = disk"
  shows "n < pg_page_count p"
    and "\<exists>g b. p' = p\<lparr>pg_file := g, pg_budget := b\<rparr> \<and> (pg_budget p = None \<longrightarrow> b = None)
      \<and> contents g = write_at (n * pg_page_size p) bs (contents (pg_file p))"
proof -
  obtain v p1 where c: "check_read p = (Ok v, p1)" and n1: "n < pg_page_count p1"
    and r: "and_then (on_file (\<lambda>d f. bk_seek d f (n * pg_page_size p1)))
              (\<lambda>_. on_file (\<lambda>d f. bk_write_all d f bs)) p1 = (Ok u, p')"
    using assms(1) by (auto simp: write_page_def result_simps not_le split: if_splits)
  have s1: "same_file p p1" using c by (auto simp: charges dest: on_budget_same)
  note same = same_file_simps [OF s1]
  show "n < pg_page_count p" using n1 same by simp
  obtain p2 f where f: "p2 = p1\<lparr>pg_file := f\<rparr>" "contents f = contents (pg_file p1)" "position f = n * pg_page_size p"
      and wr: "on_file (\<lambda>d f. bk_write_all d f bs) p2 = (Ok u, p')"
    using r disk same by (auto simp: result_simps dest!: on_file_seek_Ok)
  obtain g where g: "bk_write_all disk f bs = (Ok (), g)" "p' = p2\<lparr>pg_file := g\<rparr>"
    using wr disk same f(1) by (auto simp: on_file_def split: prod.splits sum.splits)
  have "contents g = write_at (n * pg_page_size p) bs (contents (pg_file p))"
    using write_bytes [OF g(1)] f same by simp
  moreover obtain b where "p1 = p\<lparr>pg_budget := b\<rparr>" "pg_budget p = None \<longrightarrow> b = None"
    using s1 by (auto simp: same_file_def)
  ultimately show "\<exists>g b. p' = p\<lparr>pg_file := g, pg_budget := b\<rparr> \<and> (pg_budget p = None \<longrightarrow> b = None)
      \<and> contents g = write_at (n * pg_page_size p) bs (contents (pg_file p))"
    using g(2) f(1) by (intro exI [of _ g] exI [of _ b]) simp
qed

lemma write_page_Ok:
  assumes "write_page n bs p = (Ok u, p')" and ok: "pager_ok disk contents p" and "length bs = pg_page_size p"
  shows "n < pg_page_count p" and "pager_page contents p' n = bs"
    and "pager_ok disk contents p'" and "changed contents {n} p p'" and "pg_page_count p' = pg_page_count p"
    and "pg_header p' = pg_header p"
proof -
  let ?ps = "pg_page_size p" and ?c = "contents (pg_file p)"
  have disk: "pg_disk p = disk" and pos: "0 < ?ps" using ok by (simp_all add: pager_ok_def)
  note raw = write_page_raw [OF assms(1) disk]
  show n: "n < pg_page_count p" by (rule raw(1))
  obtain g b where p': "p' = p\<lparr>pg_file := g, pg_budget := b\<rparr>" and b: "pg_budget p = None \<longrightarrow> b = None"
    and cg: "contents g = write_at (n * ?ps) bs ?c"
    using raw(2) by (elim exE conjE) (rule that)
  have len: "m * ?ps + ?ps \<le> length ?c" if "m < pg_page_count p" for m
    using page_order [OF that, of ?ps] ok unfolding pager_ok_def by linarith
  have page: "page_of ?ps (contents g) m = (if m = n then bs else page_of ?ps ?c m)"
    if "m < pg_page_count p" for m
    using page_of_write [OF assms(3) pos len [OF that]] by (simp add: cg)
  show "pager_page contents p' n = bs" using page [OF n] by (simp add: pager_page_def p')
  show "pager_ok disk contents p'" using ok cg by (auto simp: pager_ok_def length_write_at p')
  show "changed contents {n} p p'" using page b by (auto simp: changed_def pager_page_def p')
  show "pg_page_count p' = pg_page_count p" "pg_header p' = pg_header p" by (simp_all add: p')
qed

lemma append_page_Ok:
  assumes "append_page p = (Ok n, p')" and ok: "pager_ok disk contents p"
  shows "n = pg_page_count p" and "pg_page_count p' = pg_page_count p + 1"
    and "pager_ok disk contents p'" and "changed contents {} p p'" and "pg_header p' = pg_header p"
    and "pager_page contents p' n = replicate (pg_page_size p) 0"
proof -
  let ?ps = "pg_page_size p" and ?n = "pg_page_count p" and ?c = "contents (pg_file p)"
  obtain u p1 where c: "check_read p = (Ok u, p1)" and lim: "pg_page_count p1 \<noteq> u32_max"
    and n1: "n = pg_page_count p1"
    and w: "write_page n (replicate (pg_page_size p1) 0) (p1\<lparr>pg_page_count := n + 1\<rparr>) = (Ok (), p')"
    using assms(1) by (auto simp: append_page_def Let_def result_simps split: if_splits)
  have s1: "same_file p p1" using c by (auto simp: charges dest: on_budget_same)
  note same = same_file_simps [OF s1]
  show n: "n = ?n" using n1 same by simp
  have disk: "pg_disk (p1\<lparr>pg_page_count := n + 1\<rparr>) = disk" using same ok by (simp add: pager_ok_def)
  obtain g b where p': "p' = p1\<lparr>pg_page_count := n + 1, pg_file := g, pg_budget := b\<rparr>"
    and b: "pg_budget p1 = None \<longrightarrow> b = None" and cg: "contents g = write_at (?n * ?ps) (replicate ?ps 0) ?c"
    using write_page_raw(2) [OF w disk] same n by auto
  show "pg_page_count p' = ?n + 1" "pg_header p' = pg_header p" using n same by (simp_all add: p')
  have pos: "0 < ?ps" using ok by (simp add: pager_ok_def)
  have len: "m * ?ps + ?ps \<le> length ?c" if "m < ?n" for m
    using page_order [OF that, of ?ps] ok unfolding pager_ok_def by linarith
  have page: "page_of ?ps (contents g) m = page_of ?ps ?c m" if "m < ?n" for m
    using page_of_write [of "replicate ?ps 0" ?ps m ?c ?n] pos len [OF that] that by (simp add: cg)
  have "?n * ?ps + ?ps = (?n + 1) * ?ps" by simp
  then have "(?n + 1) * ?ps \<le> length (contents g)" unfolding cg length_write_at length_replicate by linarith
  then show "pager_ok disk contents p'"
    using ok lim n n1 same by (auto simp: pager_ok_def p')
  have "pg_budget p = None \<longrightarrow> pg_budget p1 = None" using s1 by (auto simp: same_file_def)
  then show "changed contents {} p p'" using page b n same by (simp add: changed_def pager_page_def p')
  show "pager_page contents p' n = replicate ?ps 0"
    using slice_write_same [of "?n * ?ps" "replicate ?ps 0" ?c] n same
    by (simp add: pager_page_def page_of_def p' cg)
qed

lemma flush_header_Ok:
  assumes "flush_header p = (Ok u, p')" and ok: "pager_ok disk contents p"
    and head: "length (pg_header p) = pg_page_size p"
  shows "pager_ok disk contents p'" and "pg_page_count p' = pg_page_count p"
    and "pager_page contents p' 0 = put 12 (le32 (pg_page_count p)) (pg_header p)"
    and "\<forall>m < pg_page_count p. m \<noteq> 0 \<longrightarrow> pager_page contents p' m = pager_page contents p m"
    and "pg_header p' = put 12 (le32 (pg_page_count p)) (pg_header p)"
    and "pg_budget p = None \<longrightarrow> pg_budget p' = None" and "pg_page_size p' = pg_page_size p"
proof -
  let ?h = "put 12 (le32 (pg_page_count p)) (pg_header p)"
  obtain p1 where w: "write_page 0 ?h p = (Ok (), p1)" and p': "p' = p1\<lparr>pg_header := ?h\<rparr>"
    using assms(1) by (auto simp: flush_header_def Let_def result_simps)
  have len: "length ?h = pg_page_size p" using ok head by (simp add: pager_ok_def)
  note w1 = write_page_Ok [OF w ok len]
  show "pager_ok disk contents p'" using w1(3,4) ok len by (auto simp: p' pager_ok_def changed_def)
  show "pg_page_count p' = pg_page_count p" using w1(5) p' by simp
  show "pager_page contents p' 0 = ?h" using w1(2) by (simp add: p' pager_page_def)
  show "\<forall>m < pg_page_count p. m \<noteq> 0 \<longrightarrow> pager_page contents p' m = pager_page contents p m"
    using w1(4) unfolding changed_def p' pager_page_def by auto
  show "pg_header p' = ?h" "pg_budget p = None \<longrightarrow> pg_budget p' = None" "pg_page_size p' = pg_page_size p"
    using w1(4) by (simp_all add: p' changed_def)
qed

text \<open>An opened pager is in order, and its header is page 0.\<close>

lemma pager_new_Ok:
  assumes "pager_new disk f = Ok p"
  shows "pager_ok disk contents p" and "pg_budget p = None" and "pg_header p = pager_page contents p 0"
    and "contents (pg_file p) = contents f"
proof -
  obtain len f0 head f1 p1 bs where len: "bk_length disk f = Ok len" and sk: "bk_seek disk f 0 = (Ok (), f0)"
    and hd: "bk_read_exact disk f0 24 = (Ok head, f1)"
    and size: "4096 \<le> read_u32 20 head" "read_u32 20 head \<le> 65536" "is_power_of_two (read_u32 20 head)"
    and count: "3 \<le> read_u32 12 head" "read_u32 12 head * read_u32 20 head \<le> len"
    and rd: "read_page 0 \<lparr>pg_file = f1, pg_disk = disk, pg_page_size = read_u32 20 head,
               pg_page_count = read_u32 12 head, pg_header = [], pg_budget = None\<rparr> = (Ok bs, p1)"
    and p: "p = p1\<lparr>pg_header := bs\<rparr>"
    using assms by (auto simp: pager_new_def Let_def split: sum.splits prod.splits if_splits)
  have c: "contents f1 = contents f" using read_contents [OF hd] seek_contents [OF sk] by simp
  have "read_u32 12 head \<le> u32_max" unfolding read_u32_def by (rule unat_u32_le)
  then have ok: "pager_ok disk contents \<lparr>pg_file = f1, pg_disk = disk, pg_page_size = read_u32 20 head,
      pg_page_count = read_u32 12 head, pg_header = [], pg_budget = None\<rparr>"
    using size count length_is [OF len] c power_of_two_multiple [OF size(3)] by (simp add: pager_ok_def)
  note r = read_page_Ok [OF rd ok]
  show "pager_ok disk contents p" using r(3) by (simp add: p pager_ok_def)
  show "pg_budget p = None" using r(4) by (simp add: p changed_def)
  have "contents (pg_file p1) = contents f1 \<and> pg_page_size p1 = read_u32 20 head"
    using r(6,7) by simp
  then show "contents (pg_file p) = contents f" "pg_header p = pager_page contents p 0"
    using r(2) c by (simp_all add: p pager_page_def)
qed

end

end
