(* ===== verification/Filedb_Object_Laws.thy ===== *)
theory Filedb_Object_Laws
  imports Filedb_Object Filedb_Pager_Laws
begin

text \<open>
  An object that \<open>rewrite\<close> has written is the object that \<open>open\<close> finds, \<open>read_all\<close> returns the content,
  and no page of the file outside the object has changed.
\<close>

section \<open>Numbers in pages\<close>

lemma drop_put: "at + length xs \<le> k \<Longrightarrow> at + length xs \<le> length buf \<Longrightarrow> drop k (put at xs buf) = drop k buf"
  by (simp add: put_def)

lemma length_le32s [simp]: "length (concat (map le32 ns)) = 4 * length ns"
  by (induction ns) simp_all

lemma put_u32s_eq:
  "at + 4 * length ns \<le> length buf \<Longrightarrow> put_u32s at ns buf = put at (concat (map le32 ns)) buf"
proof (induction ns arbitrary: at buf)
  case (Cons n ns)
  then have "put_u32s at (n # ns) buf = put (at + 4) (concat (map le32 ns)) (put at (le32 n) buf)" by simp
  also have "\<dots> = put at (le32 n @ concat (map le32 ns)) buf"
    using Cons.prems by (intro put_put) simp_all
  finally show ?case by simp
qed simp

lemma length_put_u32s [simp]:
  "at + 4 * length ns \<le> length buf \<Longrightarrow> length (put_u32s at ns buf) = length buf"
  by (simp add: put_u32s_eq)

lemma u32s_le32s:
  "\<forall>n \<in> set ns. n \<le> u32_max \<Longrightarrow> u32s (concat (map le32 ns) @ rest) = ns @ u32s rest"
  by (induction ns) (simp_all add: u32s_def chunks_exact_append from_le32)

lemma u32s_put_u32s:
  assumes "at + 4 * length ns \<le> length buf" and "\<forall>n \<in> set ns. n \<le> u32_max"
  shows "take (length ns) (u32s (drop at (put_u32s at ns buf))) = ns"
proof -
  have "drop at (put_u32s at ns buf) = concat (map le32 ns) @ drop (at + 4 * length ns) buf"
    using assms(1) by (simp add: put_u32s_eq put_def)
  then show ?thesis using assms(2) by (simp add: u32s_le32s)
qed

lemma length_chunks_exact: "0 < n \<Longrightarrow> length (chunks_exact n xs) = length xs div n"
proof (induction n xs rule: chunks_exact.induct)
  case (1 n xs)
  show ?case
  proof (cases "length xs < n")
    case False
    then have "length (chunks_exact n xs) = Suc ((length xs - n) div n)"
      using 1 by (subst chunks_exact.simps) simp
    then show ?thesis using False 1 by (simp add: le_div_geq)
  qed simp
qed

lemma length_u32s: "length (u32s bs) = length bs div 4"
  by (simp add: u32s_def length_chunks_exact)

lemma u32s_bound: "n \<in> set (u32s bs) \<Longrightarrow> n \<le> u32_max"
  using unat_u32_le by (auto simp: u32s_def)

lemma put_u32s_append:
  "put_u32s at (xs @ ys) buf = put_u32s (at + 4 * length xs) ys (put_u32s at xs buf)"
  by (induction xs arbitrary: at buf) (simp_all add: add.assoc)

text \<open>The start of a header and its list.\<close>

lemma header_start:
  fixes k ns ps
  defines "h \<equiv> put 12 (le32 k) (put_u32s 24 ns (put 0 (le16 OBJECT_SIGNATURE) (replicate ps 0)))"
  assumes "24 + 4 * length ns \<le> ps" and "\<forall>n \<in> set ns. n \<le> u32_max"
  shows "length h = ps" and "slice 0 2 h = le16 OBJECT_SIGNATURE"
    and "take (length ns) (u32s (drop 24 h)) = ns"
proof -
  let ?h0 = "put 0 (le16 OBJECT_SIGNATURE) (replicate ps 0)"
  have h0: "length ?h0 = ps" using assms(2) by simp
  have h1: "length (put_u32s 24 ns ?h0) = ps" using assms(2) h0 by simp
  then show "length h = ps" using assms(2) by (simp add: h_def)
  have "slice 0 2 h = slice 0 2 (put_u32s 24 ns ?h0)"
    unfolding h_def using h1 assms(2) by (intro slice_put_before) simp_all
  also have "\<dots> = slice 0 2 ?h0"
    using assms(2) h0 by (simp add: put_u32s_eq slice_put_before del: length_put)
  also have "\<dots> = le16 OBJECT_SIGNATURE"
    using assms(2) by (intro slice_put_same) simp_all
  finally show "slice 0 2 h = le16 OBJECT_SIGNATURE" .
  have "drop 24 h = drop 24 (put_u32s 24 ns ?h0)"
    unfolding h_def using h1 assms(2) by (intro drop_put) simp_all
  then show "take (length ns) (u32s (drop 24 h)) = ns"
    using u32s_put_u32s [of 24 ns ?h0] assms(2,3) h0 by simp
qed

lemma direct_room: "n \<le> direct_capacity ps \<Longrightarrow> 4096 \<le> ps \<Longrightarrow> 24 + 4 * n \<le> ps"
  by (simp add: direct_capacity_def OBJECT_HEADER_def)

section \<open>Objects in a file\<close>

lemma div_ceil_mono: "a \<le> b \<Longrightarrow> div_ceil a n \<le> div_ceil b n"
  by (simp add: div_ceil_def div_le_mono)

lemma length_chunks_ceil: "0 < n \<Longrightarrow> length (chunks n xs) = div_ceil (length xs) n"
  by (simp add: length_chunks div_ceil_def)

lemma fresh_pages:
  "distinct ns \<Longrightarrow> \<forall>n \<in> set ns. 0 < n \<and> n < c \<Longrightarrow> 0 < c \<Longrightarrow> c \<le> c' \<Longrightarrow>
     distinct (ns @ [c..<c']) \<and> (\<forall>n \<in> set (ns @ [c..<c']). 0 < n \<and> n < (c' :: nat))"
  by (induction ns) force+

definition object_ok :: "nat \<Rightarrow> nat \<Rightarrow> object \<Rightarrow> bool" where
  "object_ok ps count ob \<longleftrightarrow>
     distinct (owned_pages ob) \<and> (\<forall>n \<in> set (owned_pages ob). 0 < n \<and> n < count)
     \<and> length (ob_pages ob) = div_ceil (ob_len ob) ps \<and> ob_len ob \<le> u64_max
     \<and> ob_counter ob \<le> u32_max \<and> ob_length_counter ob \<le> u32_max
     \<and> (ob_fat ob = 0 \<and> ob_tables ob = [] \<and> length (ob_pages ob) \<le> direct_capacity ps
       \<or> ob_fat ob = 1 \<and> length (ob_tables ob) = div_ceil (length (ob_pages ob)) (ps div 4)
         \<and> length (ob_tables ob) \<le> direct_capacity ps)"

definition listed :: "object \<Rightarrow> nat list" where
  "listed ob = (if ob_fat ob = 0 then ob_pages ob else ob_tables ob)"

definition header_holds :: "bytes \<Rightarrow> object \<Rightarrow> bool" where
  "header_holds header ob \<longleftrightarrow>
     read_u16 0 header = OBJECT_SIGNATURE \<and> read_u16 2 header = ob_fat ob
     \<and> read_u32 4 header = ob_counter ob \<and> read_u32 8 header = ob_length_counter ob
     \<and> read_u64 16 header = ob_len ob
     \<and> take (length (listed ob)) (u32s (drop OBJECT_HEADER header)) = listed ob"

text \<open>\<open>page i holds chunk i, and perhaps more\<close>.\<close>

definition lists_hold :: "(nat \<Rightarrow> bytes) \<Rightarrow> nat list \<Rightarrow> nat list list \<Rightarrow> bool" where
  "lists_hold page tables cs \<longleftrightarrow>
     (\<forall>t < length cs. take (length (cs ! t)) (u32s (page (tables ! t))) = cs ! t)"

definition data_hold :: "(nat \<Rightarrow> bytes) \<Rightarrow> nat list \<Rightarrow> bytes list \<Rightarrow> bool" where
  "data_hold page pgs cs \<longleftrightarrow> (\<forall>i < length cs. take (length (cs ! i)) (page (pgs ! i)) = cs ! i)"

definition stored :: "('f \<Rightarrow> bytes) \<Rightarrow> ('f, 'e) pager \<Rightarrow> object \<Rightarrow> bytes \<Rightarrow> bool" where
  "stored contents p ob content \<longleftrightarrow>
     object_ok (pg_page_size p) (pg_page_count p) ob \<and> length content = ob_len ob
     \<and> header_holds (pager_page contents p (ob_header_page ob)) ob
     \<and> (ob_fat ob = 1 \<longrightarrow>
         lists_hold (pager_page contents p) (ob_tables ob) (chunks (pg_page_size p div 4) (ob_pages ob)))
     \<and> data_hold (pager_page contents p) (ob_pages ob) (chunks (pg_page_size p) content)"

lemma object_ok_more: "object_ok ps n ob \<Longrightarrow> n \<le> m \<Longrightarrow> object_ok ps m ob"
  by (fastforce simp: object_ok_def)

text \<open>An object stays stored while its pages do.\<close>

lemma stored_kept:
  assumes "stored contents p ob content" and "changed contents S p p'" and "S \<inter> set (owned_pages ob) = {}"
  shows "stored contents p' ob content"
proof -
  have ok: "object_ok (pg_page_size p) (pg_page_count p) ob" using assms(1) by (simp add: stored_def)
  have ps: "pg_page_size p' = pg_page_size p" using assms(2) by (simp add: changed_def)
  have page: "pager_page contents p' n = pager_page contents p n" if "n \<in> set (owned_pages ob)" for n
    using changed_page [OF assms(2)] ok assms(3) that by (auto simp: object_ok_def)
  have short: "length (chunks n xs) \<le> k" if "div_ceil (length xs) n \<le> k" for n k and xs :: "'x list"
    using that by (cases "n = 0") (simp_all add: length_chunks_ceil, simp add: chunks.simps)
  have "length (chunks (pg_page_size p) content) \<le> length (ob_pages ob)"
    using ok assms(1) by (intro short) (simp add: stored_def object_ok_def)
  then have "data_hold (pager_page contents p') (ob_pages ob) (chunks (pg_page_size p) content)"
    using assms(1) page by (auto simp: stored_def data_hold_def owned_pages_def)
  moreover have "lists_hold (pager_page contents p') (ob_tables ob) (chunks (pg_page_size p div 4) (ob_pages ob))"
    if "ob_fat ob = 1"
  proof -
    have "length (chunks (pg_page_size p div 4) (ob_pages ob)) \<le> length (ob_tables ob)"
      using ok that by (intro short) (simp add: object_ok_def)
    then show ?thesis using assms(1) page that by (auto simp: stored_def lists_hold_def owned_pages_def)
  qed
  ultimately show ?thesis
    using assms(1,2) ok page [of "ob_header_page ob"] ps
    by (auto simp: stored_def changed_def owned_pages_def intro: object_ok_more)
qed

text \<open>An object whose data pages are known and whose header is still to be written, and what either
  branch of \<open>write_header\<close> makes of it.\<close>

definition header_due :: "nat \<Rightarrow> nat \<Rightarrow> object \<Rightarrow> bool" where
  "header_due ps count ob \<longleftrightarrow>
     length (ob_pages ob) = div_ceil (ob_len ob) ps
     \<and> distinct (owned_pages ob) \<and> (\<forall>n \<in> set (owned_pages ob). 0 < n \<and> n < count)
     \<and> (ob_fat ob = 0 \<and> ob_tables ob = []
        \<or> ob_fat ob = 1 \<and> length (ob_tables ob) \<le> div_ceil (length (ob_pages ob)) (ps div 4))
     \<and> ob_counter ob \<le> u32_max \<and> ob_length_counter ob \<le> u32_max \<and> ob_len ob \<le> u64_max"

definition header_done ::
  "'f backing \<Rightarrow> ('f \<Rightarrow> bytes) \<Rightarrow> ('f, 'e) pager \<Rightarrow> object \<Rightarrow> ('f, 'e) pager \<Rightarrow> object \<Rightarrow> bool" where
  "header_done disk contents p ob p' ob' \<longleftrightarrow>
     pager_ok disk contents p' \<and> changed contents (set (ob_header_page ob # ob_tables ob)) p p'
     \<and> object_ok (pg_page_size p) (pg_page_count p') ob'
     \<and> header_holds (pager_page contents p' (ob_header_page ob')) ob'
     \<and> (ob_fat ob' = 1 \<longrightarrow> lists_hold (pager_page contents p') (ob_tables ob')
           (chunks (pg_page_size p div 4) (ob_pages ob')))
     \<and> ob_pages ob' = ob_pages ob \<and> ob_len ob' = ob_len ob \<and> ob_header_page ob' = ob_header_page ob
     \<and> set (ob_tables ob') \<subseteq> set (ob_tables ob) \<union> {pg_page_count p..<pg_page_count p'}"

context backing_file
begin

lemma grow_Ok:
  "grow k pgs p = (Ok pgs', p') \<Longrightarrow> pager_ok disk contents p \<Longrightarrow>
     pgs' = pgs @ [pg_page_count p..<pg_page_count p + k] \<and> pg_page_count p' = pg_page_count p + k
     \<and> pager_ok disk contents p' \<and> changed contents {} p p'"
proof (induction k arbitrary: pgs p)
  case (Suc k)
  obtain n p1 where a: "append_page p = (Ok n, p1)" and g: "grow k (pgs @ [n]) p1 = (Ok pgs', p')"
    using Suc.prems(1) by (auto simp: result_simps)
  note one = append_page_Ok [OF a Suc.prems(2)]
  from Suc.IH [OF g one(3)] one show ?case
    by (auto simp: upt_conv_Cons dest: changed_trans [where S = "{}" and T = "{}"])
qed (simp add: result_simps)

lemma write_data_pages_Ok:
  "write_data_pages ps pgs i cs p = (Ok u, p') \<Longrightarrow> pager_ok disk contents p \<Longrightarrow> ps = pg_page_size p \<Longrightarrow>
   distinct pgs \<Longrightarrow> i + length cs \<le> length pgs \<Longrightarrow> \<forall>c \<in> set cs. length c \<le> ps \<Longrightarrow>
     pager_ok disk contents p' \<and> pg_page_count p' = pg_page_count p \<and> changed contents (set (drop i pgs)) p p'
     \<and> (\<forall>j < length cs. pager_page contents p' (pgs ! (i + j)) = cs ! j @ replicate (ps - length (cs ! j)) 0)"
proof (induction cs arbitrary: i p)
  case Nil
  then show ?case by (simp add: result_simps)
next
  case (Cons c cs)
  obtain p1 where w: "write_page (pgs ! i) (c @ replicate (ps - length c) 0) p = (Ok (), p1)"
    and r: "write_data_pages ps pgs (i + 1) cs p1 = (Ok u, p')"
    using Cons.prems(1) by (auto simp: result_simps)
  note one = write_page_Ok [OF w Cons.prems(2)]
  have len: "length (c @ replicate (ps - length c) 0) = pg_page_size p" using Cons.prems by simp
  note one = one [OF this]
  have IH: "pager_ok disk contents p' \<and> pg_page_count p' = pg_page_count p1
      \<and> changed contents (set (drop (i + 1) pgs)) p1 p'
      \<and> (\<forall>j < length cs. pager_page contents p' (pgs ! (i + 1 + j)) = cs ! j @ replicate (ps - length (cs ! j)) 0)"
    using Cons.prems one by (intro Cons.IH [OF r]) (auto simp: changed_def)
  have i: "drop i pgs = pgs ! i # drop (i + 1) pgs" using Cons.prems by (simp add: Cons_nth_drop_Suc)
  have "changed contents (insert (pgs ! i) (set (drop (i + 1) pgs))) p p'"
    using changed_trans [OF one(4)] IH by auto
  moreover have "pgs ! i \<notin> set (drop (i + 1) pgs)" using Cons.prems(4) i by (metis distinct.simps(2) distinct_drop)
  then have "pager_page contents p' (pgs ! i) = c @ replicate (ps - length c) 0"
    using IH one changed_page [of contents "set (drop (i + 1) pgs)" p1 p' "pgs ! i"] by simp
  ultimately show ?case using IH one i by (auto simp: nth_Cons split: nat.split)
qed

lemma write_tables_Ok:
  "write_tables ps tables t cs header p = (Ok header', p') \<Longrightarrow> pager_ok disk contents p \<Longrightarrow>
   ps = pg_page_size p \<Longrightarrow> distinct tables \<Longrightarrow> t + length cs \<le> length tables \<Longrightarrow>
   \<forall>c \<in> set cs. 4 * length c \<le> ps \<Longrightarrow>
     pager_ok disk contents p' \<and> pg_page_count p' = pg_page_count p \<and> changed contents (set (drop t tables)) p p'
     \<and> (\<forall>j < length cs. pager_page contents p' (tables ! (t + j)) = put_u32s 0 (cs ! j) (replicate ps 0))
     \<and> header' = put_u32s (24 + t * 4) (take (length cs) (drop t tables)) header"
proof (induction cs arbitrary: t p header)
  case Nil
  then show ?case by (simp add: result_simps)
next
  case (Cons c cs)
  obtain p1 where w: "write_page (tables ! t) (put_u32s 0 c (replicate ps 0)) p = (Ok (), p1)"
    and r: "write_tables ps tables (t + 1) cs (put (OBJECT_HEADER + t * 4) (le32 (tables ! t)) header) p1 = (Ok header', p')"
    using Cons.prems(1) by (auto simp: result_simps)
  have len: "length (put_u32s 0 c (replicate ps 0)) = pg_page_size p" using Cons.prems by simp
  note one = write_page_Ok [OF w Cons.prems(2) len]
  have IH: "pager_ok disk contents p' \<and> pg_page_count p' = pg_page_count p1
      \<and> changed contents (set (drop (t + 1) tables)) p1 p'
      \<and> (\<forall>j < length cs. pager_page contents p' (tables ! (t + 1 + j)) = put_u32s 0 (cs ! j) (replicate ps 0))
      \<and> header' = put_u32s (24 + (t + 1) * 4) (take (length cs) (drop (t + 1) tables))
          (put (OBJECT_HEADER + t * 4) (le32 (tables ! t)) header)"
    using Cons.prems one by (intro Cons.IH [OF r]) (auto simp: changed_def)
  have i: "drop t tables = tables ! t # drop (t + 1) tables" using Cons.prems by (simp add: Cons_nth_drop_Suc)
  have "changed contents (insert (tables ! t) (set (drop (t + 1) tables))) p p'"
    using changed_trans [OF one(4)] IH by auto
  moreover have "tables ! t \<notin> set (drop (t + 1) tables)" using Cons.prems(4) i by (metis distinct.simps(2) distinct_drop)
  then have "pager_page contents p' (tables ! t) = put_u32s 0 c (replicate ps 0)"
    using IH one changed_page [of contents "set (drop (t + 1) tables)" p1 p' "tables ! t"] by simp
  moreover have "header' = put_u32s (24 + t * 4) (take (length (c # cs)) (drop t tables)) header"
    using IH i by (simp add: OBJECT_HEADER_def add.assoc add.commute)
  ultimately show ?case using IH one i by (auto simp: nth_Cons split: nat.split)
qed

lemma finish_header_Ok:
  assumes "finish_header ob header p = (Ok ob', p')" and ok: "pager_ok disk contents p"
    and len: "length header = pg_page_size p" and sig: "slice 0 2 header = le16 OBJECT_SIGNATURE"
    and list: "take (length (listed ob)) (u32s (drop 24 header)) = listed ob"
    and bounds: "ob_fat ob < 65536" "ob_counter ob \<le> u32_max" "ob_length_counter ob \<le> u32_max" "ob_len ob \<le> u64_max"
  shows "ob' = ob" and "pager_ok disk contents p'" and "pg_page_count p' = pg_page_count p"
    and "changed contents {ob_header_page ob} p p'"
    and "header_holds (pager_page contents p' (ob_header_page ob)) ob"
proof -
  define h1 where "h1 = put 2 (le16 (ob_fat ob)) header"
  define h2 where "h2 = put 4 (le32 (ob_counter ob)) h1"
  define h3 where "h3 = put 8 (le32 (ob_length_counter ob)) h2"
  define h4 where "h4 = put 16 (to_le_bytes 8 (of_nat (ob_len ob) :: u64)) h3"
  have big: "24 \<le> length header" using ok len by (simp add: pager_ok_def)
  then have lens: "length h1 = length header" "length h2 = length header" "length h3 = length header"
      "length h4 = length header"
    by (simp_all add: h1_def h2_def h3_def h4_def)
  have w: "write_page (ob_header_page ob) h4 p = (Ok (), p')" and "ob' = ob"
    using assms(1) by (auto simp: finish_header_def Let_def result_simps h1_def h2_def h3_def h4_def)
  then show "ob' = ob" by simp
  have len4: "length h4 = pg_page_size p" using lens len by simp
  note written = write_page_Ok [OF w ok len4]
  show "pager_ok disk contents p'" "pg_page_count p' = pg_page_count p"
    "changed contents {ob_header_page ob} p p'"
    using written by simp_all
  have f0: "slice 0 2 h4 = le16 OBJECT_SIGNATURE"
    using big lens by (simp add: h4_def h3_def h2_def h1_def slice_put_before sig)
  have f2: "slice 2 4 h4 = le16 (ob_fat ob)"
    using big lens by (simp add: h4_def h3_def h2_def slice_put_before) (simp add: h1_def slice_put_same)
  have f4: "slice 4 8 h4 = le32 (ob_counter ob)"
    using big lens by (simp add: h4_def h3_def slice_put_before) (simp add: h2_def slice_put_same)
  have f8: "slice 8 12 h4 = le32 (ob_length_counter ob)"
    using big lens by (simp add: h4_def slice_put_before) (simp add: h3_def slice_put_same)
  have f16: "slice 16 24 h4 = to_le_bytes 8 (of_nat (ob_len ob) :: u64)"
    using big lens by (simp add: h4_def slice_put_same)
  have "drop 24 h4 = drop 24 header"
    using big lens by (simp add: h4_def h3_def h2_def h1_def drop_put)
  moreover have "read_u16 0 h4 = OBJECT_SIGNATURE"
    unfolding read_u16_def add_0_left f0 by (simp add: from_le16 OBJECT_SIGNATURE_def)
  ultimately show "header_holds (pager_page contents p' (ob_header_page ob)) ob"
    using f2 f4 f8 f16 list bounds
    by (simp add: written(2) header_holds_def read_u16_def read_u32_def read_u64_def from_le16 from_le32
        unat_of_nat_u64 OBJECT_HEADER_def)
qed

lemma write_header_flat:
  assumes w: "write_header ob p = (Ok ob', p')" and ok: "pager_ok disk contents p"
    and due: "header_due (pg_page_size p) (pg_page_count p) ob"
    and flat: "length (ob_pages ob) \<le> direct_capacity (pg_page_size p)" "ob_fat ob = 0"
  shows "header_done disk contents p ob p' ob'"
proof -
  let ?ps = "pg_page_size p" and ?h0 = "put 0 (le16 OBJECT_SIGNATURE) (replicate (pg_page_size p) 0)"
  let ?h = "put 12 (le32 0) (put_u32s 24 (ob_pages ob) ?h0)"
  have "n \<le> u32_max" if "n \<in> set (ob_pages ob)" for n
  proof -
    have "n < pg_page_count p" using due that by (simp add: header_due_def owned_pages_def)
    then show ?thesis using ok by (simp add: pager_ok_def)
  qed
  then have small: "\<forall>n \<in> set (ob_pages ob). n \<le> u32_max" by blast
  have room: "24 + 4 * length (ob_pages ob) \<le> ?ps"
    using flat(1) ok by (intro direct_room) (simp_all add: pager_ok_def)
  note h = header_start [OF room small, of 0]
  have f: "finish_header ob ?h p = (Ok ob', p')"
    using w flat due by (simp add: write_header_def Let_def header_due_def OBJECT_HEADER_def)
  have "listed ob = ob_pages ob" using flat(2) by (simp add: listed_def)
  then have "ob' = ob \<and> pager_ok disk contents p' \<and> pg_page_count p' = pg_page_count p
      \<and> changed contents {ob_header_page ob} p p'
      \<and> header_holds (pager_page contents p' (ob_header_page ob)) ob"
    using finish_header_Ok [OF f ok h(1,2)] h(3) flat due by (simp add: header_due_def)
  then show ?thesis
    using due flat by (auto simp: header_done_def header_due_def object_ok_def elim: changed_mono)
qed

lemma write_header_tables:
  assumes w: "write_header ob p = (Ok ob', p')" and ok: "pager_ok disk contents p"
    and due: "header_due (pg_page_size p) (pg_page_count p) ob"
    and deep: "\<not> (length (ob_pages ob) \<le> direct_capacity (pg_page_size p) \<and> ob_fat ob = 0)"
  shows "header_done disk contents p ob p' ob'"
proof -
  let ?ps = "pg_page_size p" and ?per = "pg_page_size p div 4"
  let ?h0 = "put 0 (le16 OBJECT_SIGNATURE) (replicate (pg_page_size p) 0)"
  let ?tc = "div_ceil (length (ob_pages ob)) ?per" and ?cs = "chunks ?per (ob_pages ob)"
  have big: "0 < ?per" "4 * ?per = ?ps" using ok by (auto simp: pager_ok_def)
  obtain tables p1 header p2 where room: "?tc \<le> direct_capacity ?ps"
    and g: "grow (?tc - length (ob_tables ob)) (ob_tables ob) p = (Ok tables, p1)"
    and t: "write_tables ?ps tables 0 ?cs ?h0 p1 = (Ok header, p2)"
    and f: "finish_header (ob\<lparr>ob_fat := 1, ob_tables := tables\<rparr>) (put 12 (le32 ?tc) header) p2 = (Ok ob', p')"
    using w deep due
    by (auto simp: write_header_def Let_def header_due_def result_simps not_le split: if_splits)
  note grown = grow_Ok [OF g ok]
  have few: "length (ob_tables ob) \<le> ?tc" using due by (auto simp: header_due_def)
  have tables: "tables = ob_tables ob @ [pg_page_count p..<pg_page_count p1]" "length tables = ?tc"
    using grown few by auto
  have ps1: "pg_page_size p1 = ?ps" using grown by (simp add: changed_def)
  have "distinct (owned_pages ob)" "\<forall>n \<in> set (owned_pages ob). 0 < n \<and> n < pg_page_count p"
    using due by (simp_all add: header_due_def)
  moreover have "0 < pg_page_count p" "pg_page_count p \<le> pg_page_count p1" using ok grown by (simp_all add: pager_ok_def)
  ultimately have "distinct (owned_pages ob @ [pg_page_count p..<pg_page_count p1])
      \<and> (\<forall>n \<in> set (owned_pages ob @ [pg_page_count p..<pg_page_count p1]). 0 < n \<and> n < pg_page_count p1)"
    by (rule fresh_pages)
  then have own: "distinct (ob_header_page ob # tables @ ob_pages ob)"
      "\<forall>n \<in> set (ob_header_page ob # tables @ ob_pages ob). 0 < n \<and> n < pg_page_count p1"
    by (auto simp: tables(1) owned_pages_def)
  have clen: "length ?cs = ?tc" using big(1) by (rule length_chunks_ceil)
  have csmall: "\<forall>c \<in> set ?cs. 4 * length c \<le> ?ps"
    using length_chunk big(2) by (metis mult_le_mono2)
  have wrote: "pager_ok disk contents p2 \<and> pg_page_count p2 = pg_page_count p1
      \<and> changed contents (set tables) p1 p2
      \<and> (\<forall>j < length ?cs. pager_page contents p2 (tables ! j) = put_u32s 0 (?cs ! j) (replicate ?ps 0))
      \<and> header = put_u32s 24 tables ?h0"
    using write_tables_Ok [OF t] grown ps1 own(1) tables(2) clen csmall by auto
  have "n \<le> u32_max" if "n \<in> set (tables @ ob_pages ob)" for n
  proof -
    have "n < pg_page_count p1" using own(2) that by auto
    then show ?thesis using grown by (simp add: pager_ok_def)
  qed
  then have small: "\<forall>n \<in> set (tables @ ob_pages ob). n \<le> u32_max" by blast
  have room': "24 + 4 * length tables \<le> ?ps"
    using room ok tables(2) by (intro direct_room) (simp_all add: pager_ok_def)
  have h: "length (put 12 (le32 ?tc) header) = ?ps" "slice 0 2 (put 12 (le32 ?tc) header) = le16 OBJECT_SIGNATURE"
      "take (length tables) (u32s (drop 24 (put 12 (le32 ?tc) header))) = tables"
    using header_start [OF room', of ?tc] small wrote by auto
  let ?ob = "ob\<lparr>ob_fat := 1, ob_tables := tables\<rparr>"
  have ps2: "pg_page_size p2 = ?ps" using wrote ps1 by (simp add: changed_def)
  have "ob' = ?ob \<and> pager_ok disk contents p' \<and> pg_page_count p' = pg_page_count p2
      \<and> changed contents {ob_header_page ob} p2 p'
      \<and> header_holds (pager_page contents p' (ob_header_page ob)) ?ob"
    using finish_header_Ok [OF f] wrote h ps2 due by (simp add: header_due_def listed_def)
  note last = this
  have page: "pager_page contents p' n = pager_page contents p2 n" if "n \<in> set tables" for n
    using last own that wrote by (intro changed_page [of contents "{ob_header_page ob}"]) auto
  have lists: "lists_hold (pager_page contents p') tables ?cs"
  proof -
    have "take (length (?cs ! j)) (u32s (pager_page contents p' (tables ! j))) = ?cs ! j" if j: "j < length ?cs" for j
    proof -
      have "?cs ! j \<in> set ?cs" using j by simp
      then have "4 * length (?cs ! j) \<le> ?ps" "set (?cs ! j) \<subseteq> set (ob_pages ob)"
        using csmall concat_chunks [OF big(1), of "ob_pages ob"] by (auto, metis UN_I set_concat)
      then have "take (length (?cs ! j)) (u32s (drop 0 (put_u32s 0 (?cs ! j) (replicate ?ps 0)))) = ?cs ! j"
        using small by (intro u32s_put_u32s) auto
      then show ?thesis using page [of "tables ! j"] wrote j clen tables(2) by simp
    qed
    then show ?thesis by (simp add: lists_hold_def)
  qed
  have "changed contents ({} \<union> set tables \<union> {ob_header_page ob}) p p'"
    using grown wrote last changed_trans by blast
  then have "changed contents (set (ob_header_page ob # ob_tables ob)) p p'"
    by (rule changed_mono [OF changed_new]) (auto simp: tables(1))
  moreover have "object_ok ?ps (pg_page_count p') ?ob"
    using due own last wrote room tables(2) by (auto simp: object_ok_def header_due_def owned_pages_def)
  ultimately show ?thesis
    using last lists wrote tables(1) by (auto simp: header_done_def)
qed

text \<open>A whole rewrite.\<close>

lemma rewrite_Ok:
  assumes w: "object_rewrite ob content p = (Ok ob', p')" and ok: "pager_ok disk contents p"
    and ob: "object_ok (pg_page_size p) (pg_page_count p) ob" and len: "length content \<le> u64_max"
  shows "stored contents p' ob' content" and "pager_ok disk contents p'"
    and "changed contents (set (owned_pages ob)) p p'"
    and "ob_header_page ob' = ob_header_page ob"
    and "set (owned_pages ob') \<subseteq> set (owned_pages ob) \<union> {pg_page_count p..<pg_page_count p'}"
proof -
  let ?ps = "pg_page_size p" and ?cs = "chunks (pg_page_size p) content"
  let ?need = "div_ceil (length content) ?ps"
  have big: "0 < ?ps" using ok by (simp add: pager_ok_def)
  define ob1 where "ob1 pgs = ob\<lparr>ob_pages := pgs, ob_len := length content,
      ob_counter := (ob_counter ob + 1) mod 2 ^ 32,
      ob_length_counter := (if length content \<noteq> ob_len ob
         then (ob_length_counter ob + 1) mod 2 ^ 32 else ob_length_counter ob)\<rparr>" for pgs
  obtain pgs p1 p2 where long: "ob_len ob \<le> length content"
    and g: "grow (?need - length (ob_pages ob)) (ob_pages ob) p = (Ok pgs, p1)"
    and d: "write_data_pages ?ps pgs 0 ?cs p1 = (Ok (), p2)"
    and h: "write_header (ob1 pgs) p2 = (Ok ob', p')"
    using w by (auto simp: object_rewrite_def Let_def result_simps not_less ob1_def split: if_splits)
  have few: "length (ob_pages ob) \<le> ?need"
    using ob div_ceil_mono [OF long] by (simp add: object_ok_def)
  note grown = grow_Ok [OF g ok]
  have pgs: "pgs = ob_pages ob @ [pg_page_count p..<pg_page_count p1]" "length pgs = ?need"
    using grown few by auto
  have ps1: "pg_page_size p1 = ?ps" using grown by (simp add: changed_def)
  have "distinct (owned_pages ob)" "\<forall>n \<in> set (owned_pages ob). 0 < n \<and> n < pg_page_count p"
    using ob by (simp_all add: object_ok_def)
  moreover have "0 < pg_page_count p" "pg_page_count p \<le> pg_page_count p1" using ok grown by (simp_all add: pager_ok_def)
  ultimately have "distinct (owned_pages ob @ [pg_page_count p..<pg_page_count p1])
      \<and> (\<forall>n \<in> set (owned_pages ob @ [pg_page_count p..<pg_page_count p1]). 0 < n \<and> n < pg_page_count p1)"
    by (rule fresh_pages)
  then have own: "distinct (owned_pages (ob1 pgs))" "\<forall>n \<in> set (owned_pages (ob1 pgs)). 0 < n \<and> n < pg_page_count p1"
    by (auto simp: pgs(1) owned_pages_def ob1_def)
  then have "distinct pgs" by (simp add: owned_pages_def ob1_def)
  have clen: "length ?cs = ?need" using big by (rule length_chunks_ceil)
  have csmall: "\<forall>c \<in> set ?cs. length c \<le> ?ps" using length_chunk by blast
  have wrote: "pager_ok disk contents p2 \<and> pg_page_count p2 = pg_page_count p1
      \<and> changed contents (set pgs) p1 p2
      \<and> (\<forall>j < length ?cs. pager_page contents p2 (pgs ! j) = ?cs ! j @ replicate (?ps - length (?cs ! j)) 0)"
    using write_data_pages_Ok [OF d] grown ps1 \<open>distinct pgs\<close> pgs(2) clen csmall by auto
  have ps2: "pg_page_size p2 = ?ps" using wrote ps1 by (simp add: changed_def)
  have due: "header_due (pg_page_size p2) (pg_page_count p2) (ob1 pgs)"
    using own wrote ps2 pgs(2) ob len few
    by (auto simp: header_due_def ob1_def object_ok_def div_ceil_mono)
  have finished: "header_done disk contents p2 (ob1 pgs) p' ob'"
    using write_header_flat [OF h _ due] write_header_tables [OF h _ due] wrote by metis
  have parts: "ob_pages (ob1 pgs) = pgs" "ob_len (ob1 pgs) = length content"
      "ob_header_page (ob1 pgs) = ob_header_page ob" "ob_tables (ob1 pgs) = ob_tables ob"
    by (simp_all add: ob1_def)
  from finished have all: "pager_ok disk contents p'
      \<and> changed contents (set (ob_header_page ob # ob_tables ob)) p2 p'
      \<and> object_ok ?ps (pg_page_count p') ob'
      \<and> header_holds (pager_page contents p' (ob_header_page ob')) ob'
      \<and> (ob_fat ob' = 1 \<longrightarrow> lists_hold (pager_page contents p') (ob_tables ob') (chunks (?ps div 4) (ob_pages ob')))
      \<and> ob_pages ob' = pgs \<and> ob_len ob' = length content \<and> ob_header_page ob' = ob_header_page ob
      \<and> set (ob_tables ob') \<subseteq> set (ob_tables ob) \<union> {pg_page_count p2..<pg_page_count p'}"
    unfolding header_done_def ps2 parts .
  then have done': "pager_ok disk contents p'"
      "changed contents (set (ob_header_page ob # ob_tables ob)) p2 p'"
      "object_ok ?ps (pg_page_count p') ob'"
      "header_holds (pager_page contents p' (ob_header_page ob')) ob'"
      "ob_fat ob' = 1 \<longrightarrow> lists_hold (pager_page contents p') (ob_tables ob') (chunks (?ps div 4) (ob_pages ob'))"
      "ob_pages ob' = pgs" "ob_len ob' = length content" "ob_header_page ob' = ob_header_page ob"
      "set (ob_tables ob') \<subseteq> set (ob_tables ob) \<union> {pg_page_count p2..<pg_page_count p'}"
    by blast+
  have away: "n \<notin> set (ob_header_page ob # ob_tables ob)" if "n \<in> set pgs" for n
    using own(1) that by (auto simp: owned_pages_def ob1_def)
  have page: "pager_page contents p' n = pager_page contents p2 n" if "n \<in> set pgs" for n
    using own(2) wrote that by (intro changed_page [OF done'(2)] away) (auto simp: owned_pages_def ob1_def)
  have "data_hold (pager_page contents p') (ob_pages ob') ?cs"
    using wrote page pgs(2) clen by (simp add: data_hold_def done'(6))
  moreover have ps': "pg_page_size p' = ?ps" using done'(2) ps2 by (simp add: changed_def)
  ultimately show "stored contents p' ob' content" using done' by (simp add: stored_def)
  show "pager_ok disk contents p'" "ob_header_page ob' = ob_header_page ob" using done' by simp_all
  have "changed contents ({} \<union> set pgs \<union> set (ob_header_page ob # ob_tables ob)) p p'"
    using grown wrote done'(2) changed_trans by blast
  then show "changed contents (set (owned_pages ob)) p p'"
    by (rule changed_mono [OF changed_new]) (auto simp: pgs(1) owned_pages_def)
  have "pg_page_count p1 \<le> pg_page_count p'" using done'(2) wrote by (simp add: changed_def)
  then show "set (owned_pages ob') \<subseteq> set (owned_pages ob) \<union> {pg_page_count p..<pg_page_count p'}"
    using done'(6,8,9) pgs(1) grown wrote by (auto simp: owned_pages_def)
qed

end

end
