(* ===== verification/Filedb_Object_Read.thy ===== *)
theory Filedb_Object_Read
  imports Filedb_Object_Laws
begin

text \<open>
  Reading a stored object: \<open>open\<close> finds the object, \<open>read_at\<close> returns the bytes of its data pages at the
  place asked for, and \<open>read_all\<close> its content.  On a file that does not fail, without a budget, both
  succeed.
\<close>

section \<open>Lists in pages\<close>

lemma push_pages_eq: "length pgs \<le> need \<Longrightarrow> push_pages need ns pgs = pgs @ take (need - length pgs) ns"
  by (induction ns arbitrary: pgs) (auto simp: Suc_diff_le take_Cons' not_less_eq_eq)

text \<open>Second-level pages that hold the chunks of a list give the list back.\<close>

lemma push_chunks:
  assumes "0 < per"
  shows "length us = length (chunks per xs) \<Longrightarrow> \<forall>u \<in> set us. length u = per \<Longrightarrow>
     \<forall>t < length us. take (length (chunks per xs ! t)) (us ! t) = chunks per xs ! t \<Longrightarrow>
     fold (push_pages (length acc + length xs)) us acc = acc @ xs"
  using assms
proof (induction per xs arbitrary: us acc rule: chunks.induct)
  case (1 per xs)
  show ?case
  proof (cases "xs = []")
    case False
    note chunk = chunks_nonempty [OF "1.prems"(4) False]
    obtain u us' where us: "us = u # us'" using "1.prems"(1) chunk by (cases us) auto
    have len: "length u = per" using "1.prems"(2) us by simp
    have "take (length (take per xs)) u = take per xs"
      using "1.prems"(3) us chunk by (auto dest: spec [of _ 0])
    then have "take (length xs) u = take per xs" using len by (simp add: min_def split: if_splits)
    then have step: "push_pages (length acc + length xs) u acc = acc @ take per xs"
      by (simp add: push_pages_eq)
    have "\<forall>t < length us'. take (length (chunks per (drop per xs) ! t)) (us' ! t) = chunks per (drop per xs) ! t"
      using "1.prems"(3) us chunk by fastforce
    then have "fold (push_pages (length (acc @ take per xs) + length (drop per xs))) us' (acc @ take per xs)
        = (acc @ take per xs) @ drop per xs"
      using "1.prems" us chunk False by (intro "1.IH") auto
    moreover have "length (acc @ take per xs) + length (drop per xs) = length acc + length xs" by simp
    ultimately have "fold (push_pages (length acc + length xs)) us' (acc @ take per xs) = acc @ xs"
      by (metis append.assoc append_take_drop_id)
    then show ?thesis using us step by simp
  qed (use "1.prems" in simp)
qed

lemma take_concat_chunks:
  assumes "0 < n"
  shows "length ys = length (chunks n xs) \<Longrightarrow> \<forall>y \<in> set ys. length y = n \<Longrightarrow>
     \<forall>t < length ys. take (length (chunks n xs ! t)) (ys ! t) = chunks n xs ! t \<Longrightarrow>
     take (length xs) (concat ys) = xs"
  using assms
proof (induction n xs arbitrary: ys rule: chunks.induct)
  case (1 n xs)
  show ?case
  proof (cases "xs = []")
    case False
    note chunk = chunks_nonempty [OF "1.prems"(4) False]
    obtain u us where ys: "ys = u # us" using "1.prems"(1) chunk by (cases ys) auto
    have len: "length u = n" using "1.prems"(2) ys by simp
    have "take (length (take n xs)) u = take n xs"
      using "1.prems"(3) ys chunk by (auto dest: spec [of _ 0])
    then have hd: "take (length xs) u = take n xs" using len by (simp add: min_def split: if_splits)
    have "\<forall>t < length us. take (length (chunks n (drop n xs) ! t)) (us ! t) = chunks n (drop n xs) ! t"
      using "1.prems"(3) ys chunk by fastforce
    then have "take (length (drop n xs)) (concat us) = drop n xs"
      using "1.prems" ys chunk False by (intro "1.IH") auto
    then show ?thesis using ys hd len by simp
  qed simp
qed

lemma slice_concat:
  assumes "\<forall>y \<in> set ys. length y = n" and "i < length ys" and "a \<le> b" and "b \<le> n"
  shows "slice (i * n + a) (i * n + b) (concat ys) = slice a b (ys ! i)"
  using assms(1,2)
proof (induction ys arbitrary: i)
  case (Cons y ys)
  show ?case
  proof (cases i)
    case 0
    then show ?thesis using Cons.prems assms(3,4) by (simp add: slice_def)
  next
    case (Suc j)
    then have "slice (i * n + a) (i * n + b) (concat (y # ys)) = slice (j * n + a) (j * n + b) (concat ys)"
      using Cons.prems by (simp add: slice_def add.assoc)
    then show ?thesis using Cons Suc by simp
  qed
qed simp

section \<open>Opening\<close>

definition reads_only :: "'f backing \<Rightarrow> ('f \<Rightarrow> bytes) \<Rightarrow> ('f, 'e) pager \<Rightarrow> ('f, 'e) pager \<Rightarrow> bool" where
  "reads_only disk contents p p' \<longleftrightarrow>
     pager_ok disk contents p' \<and> changed contents {} p p' \<and> pg_page_count p' = pg_page_count p
     \<and> contents (pg_file p') = contents (pg_file p)"

lemma reads_only_trans:
  "reads_only disk contents p p' \<Longrightarrow> reads_only disk contents p' p'' \<Longrightarrow> reads_only disk contents p p''"
  using changed_trans [of contents "{}" p p' "{}" p''] by (simp add: reads_only_def)

lemma reads_only_refl: "pager_ok disk contents p \<Longrightarrow> reads_only disk contents p p"
  by (simp add: reads_only_def)

lemma reads_only_page: "reads_only disk contents p p' \<Longrightarrow> n < pg_page_count p \<Longrightarrow>
    pager_page contents p' n = pager_page contents p n"
  by (simp add: reads_only_def changed_def)

lemma reads_only_size: "reads_only disk contents p p' \<Longrightarrow> pg_page_size p' = pg_page_size p"
  by (simp add: reads_only_def changed_def)

lemma reads_only_stored:
  "reads_only disk contents p p' \<Longrightarrow> stored contents p ob content \<Longrightarrow> stored contents p' ob content"
  by (auto simp: reads_only_def intro: stored_kept)

lemma same_file_reads: "same_file p p' \<Longrightarrow> pager_ok disk contents p \<Longrightarrow> reads_only disk contents p p'"
  by (simp add: reads_only_def same_file_ok same_file_changed same_file_simps)

lemma charge_reads: "on_budget charge p = (r, p') \<Longrightarrow> pager_ok disk contents p \<Longrightarrow> reads_only disk contents p p'"
  by (blast intro: same_file_reads on_budget_same)

lemma check_pages_Ok:
  "check_pages ns p = (Ok u, p') \<Longrightarrow> pager_ok disk contents p \<Longrightarrow>
     reads_only disk contents p p' \<and> (\<forall>n \<in> set ns. 0 < n \<and> n < pg_page_count p)"
proof (induction ns arbitrary: p)
  case Nil
  then show ?case by (simp add: result_simps reads_only_refl)
next
  case (Cons n ns)
  obtain p1 where c: "check_read p = (Ok (), p1)" and n: "0 < n" "n < pg_page_count p1"
    and r: "check_pages ns p1 = (Ok u, p')"
    using Cons.prems(1) by (auto simp: result_simps check_page_Ok)
  have r1: "reads_only disk contents p p1" using c Cons.prems(2) by (auto simp: charges intro: charge_reads)
  have IH: "reads_only disk contents p1 p' \<and> (\<forall>n \<in> set ns. 0 < n \<and> n < pg_page_count p1)"
    using r1 by (intro Cons.IH [OF r]) (simp add: reads_only_def)
  then have "reads_only disk contents p p'" using reads_only_trans [OF r1] by blast
  then show ?case using IH r1 n by (simp add: reads_only_def)
qed

context backing_file
begin

lemma read_page_reads: "read_page n p = (Ok bs, p') \<Longrightarrow> pager_ok disk contents p \<Longrightarrow>
    reads_only disk contents p p' \<and> bs = pager_page contents p n \<and> n < pg_page_count p"
  using read_page_Ok [of n p bs p'] by (simp add: reads_only_def)

lemma read_tables_Ok:
  "read_tables ts need pgs tables p = (Ok (pgs', tables'), p') \<Longrightarrow> pager_ok disk contents p \<Longrightarrow>
     reads_only disk contents p p' \<and> tables' = tables @ ts \<and> (\<forall>t \<in> set ts. 0 < t \<and> t < pg_page_count p)
     \<and> pgs' = fold (push_pages need) (map (\<lambda>t. u32s (pager_page contents p t)) ts) pgs"
proof (induction ts arbitrary: pgs tables p)
  case Nil
  then show ?case by (simp add: result_simps reads_only_refl)
next
  case (Cons t ts)
  obtain bs p1 where t: "0 < t" "t < pg_page_count p" and r: "read_page t p = (Ok bs, p1)"
    and go: "read_tables ts need (push_pages need (u32s bs) pgs) (tables @ [t]) p1 = (Ok (pgs', tables'), p')"
    using Cons.prems(1) by (auto simp: result_simps check_page_Ok)
  have r1: "reads_only disk contents p p1" "bs = pager_page contents p t"
    using read_page_reads [OF r Cons.prems(2)] by simp_all
  have count: "pg_page_count p1 = pg_page_count p" using r1(1) by (simp add: reads_only_def)
  have ok1: "pager_ok disk contents p1" using r1(1) by (simp add: reads_only_def)
  note IH = Cons.IH [OF go ok1]
  have same: "map (\<lambda>t. u32s (pager_page contents p1 t)) ts = map (\<lambda>t. u32s (pager_page contents p t)) ts"
    using IH r1(1) count by (auto simp: reads_only_page)
  have "reads_only disk contents p p'" using reads_only_trans [OF r1(1)] IH by blast
  then show ?case using IH [unfolded same] r1(2) t count by simp
qed

text \<open>The lists that a stored object's header leads to.\<close>

lemma page_lists_Ok:
  assumes st: "stored contents p ob content" and ok: "pager_ok disk contents p" and q1: "reads_only disk contents p q1"
    and l: "page_lists (ob_header_page ob) (ob_fat ob) (ob_len ob) (length (ob_pages ob)) (pg_page_size p div 4)
        (u32s (drop 24 (pager_page contents p (ob_header_page ob)))) q1 = (Ok (pgs, tables), q2)"
  shows "pgs = ob_pages ob \<and> tables = ob_tables ob \<and> reads_only disk contents p q2"
proof -
  let ?ps = "pg_page_size p" and ?page = "pager_page contents p" and ?per = "pg_page_size p div 4"
  let ?direct = "u32s (drop 24 (?page (ob_header_page ob)))"
  have head: "header_holds (?page (ob_header_page ob)) ob" and fat: "ob_fat ob = 0 \<or> ob_fat ob = 1"
    and tc: "ob_fat ob = 1 \<Longrightarrow> div_ceil (length (ob_pages ob)) ?per = length (ob_tables ob)"
    and flat: "ob_fat ob = 0 \<Longrightarrow> ob_tables ob = []"
    using st by (auto simp: stored_def object_ok_def)
  have "take (length (listed ob)) ?direct = listed ob" using head by (simp add: header_holds_def OBJECT_HEADER_def)
  then show ?thesis
  proof (cases "ob_fat ob = 0")
    case True
    then show ?thesis
      using l flat q1 \<open>take (length (listed ob)) ?direct = listed ob\<close>
      by (auto simp: page_lists_def listed_def result_simps split: if_splits)
  next
    case False
    then have one: "ob_fat ob = 1" using fat by simp
    have "take (length (ob_tables ob)) ?direct = ob_tables ob"
      using \<open>take (length (listed ob)) ?direct = listed ob\<close> False by (simp add: listed_def)
    then have rt: "read_tables (ob_tables ob) (length (ob_pages ob)) [] [] q1 = (Ok (pgs, tables), q2)"
      using l one tc by (auto simp: page_lists_def Let_def result_simps split: if_splits)
    have ok1: "pager_ok disk contents q1" using q1 by (simp add: reads_only_def)
    note t = read_tables_Ok [OF rt ok1]
    let ?us = "map (\<lambda>t. u32s (?page t)) (ob_tables ob)"
    have own: "\<forall>t \<in> set (ob_tables ob). t < pg_page_count p"
      using st by (auto simp: stored_def object_ok_def owned_pages_def)
    have same: "map (\<lambda>t. u32s (pager_page contents q1 t)) (ob_tables ob) = ?us"
      using own reads_only_page [OF q1] by simp
    have "fold (push_pages (length ([] :: nat list) + length (ob_pages ob))) ?us [] = [] @ ob_pages ob"
    proof (rule push_chunks)
      show per: "0 < ?per" using ok by (auto simp: pager_ok_def)
      show "length ?us = length (chunks ?per (ob_pages ob))"
        using tc [OF one] by (simp add: length_chunks_ceil [OF per])
      show "\<forall>u \<in> set ?us. length u = ?per"
        using own by (auto simp: length_u32s length_pager_page [OF ok])
      show "\<forall>t < length ?us. take (length (chunks ?per (ob_pages ob) ! t)) (?us ! t) = chunks ?per (ob_pages ob) ! t"
        using st one tc [OF one] by (auto simp: stored_def lists_hold_def length_chunks_ceil [OF per])
    qed
    then show ?thesis using t [unfolded same] reads_only_trans [OF q1] by simp
  qed
qed

text \<open>Opening a stored object finds that object.\<close>

lemma object_open_Ok:
  assumes r: "object_open (ob_header_page ob) p = (Ok ob1, p1)" and ok: "pager_ok disk contents p"
    and st: "stored contents p ob content"
  shows "ob1 = ob" and "reads_only disk contents p p1"
proof -
  let ?ps = "pg_page_size p" and ?page = "pager_page contents p" and ?per = "pg_page_size p div 4"
  let ?direct = "u32s (drop 24 (?page (ob_header_page ob)))"
  obtain bs q where rd: "read_page (ob_header_page ob) p = (Ok bs, q)"
    using r by (auto simp: object_open_def result_simps check_page_Ok)
  have q: "reads_only disk contents p q" "bs = ?page (ob_header_page ob)"
    using read_page_reads [OF rd ok] by simp_all
  have qs: "pg_page_size q = ?ps" using q(1) by (rule reads_only_size)
  have head: "header_holds bs ob" and fat: "ob_fat ob = 0 \<or> ob_fat ob = 1"
    and need: "div_ceil (ob_len ob) ?ps = length (ob_pages ob)"
    and tc: "ob_fat ob = 1 \<Longrightarrow> div_ceil (length (ob_pages ob)) ?per = length (ob_tables ob)"
    using st q(2) by (auto simp: stored_def object_ok_def)
  obtain pgs tables q1 q2 where m: "on_budget (budget_object ((direct_capacity ?ps + length (ob_pages ob)
        + (if ob_fat ob = 0 then 0 else length (ob_tables ob))) * 4)) q = (Ok (), q1)"
    and l: "page_lists (ob_header_page ob) (ob_fat ob) (ob_len ob) (length (ob_pages ob)) ?per ?direct q1
      = (Ok (pgs, tables), q2)"
    and c: "check_pages pgs q2 = (Ok (), p1)"
    and ob1: "ob1 = \<lparr>ob_header_page = ob_header_page ob, ob_fat = ob_fat ob, ob_counter = ob_counter ob,
        ob_length_counter = ob_length_counter ob, ob_len = ob_len ob, ob_pages = pgs, ob_tables = tables\<rparr>"
    using r rd head fat need tc unfolding object_open_def object_from_header_def
    by (auto simp: result_simps check_page_Ok header_holds_def Let_def qs q(2) charges OBJECT_HEADER_def
        split: if_splits option.splits)
  have q1: "reads_only disk contents p q1"
    by (rule reads_only_trans [OF q(1) charge_reads [OF m]]) (use q(1) in \<open>simp add: reads_only_def\<close>)
  have lists: "pgs = ob_pages ob \<and> tables = ob_tables ob \<and> reads_only disk contents p q2"
    by (rule page_lists_Ok [OF st ok q1 l])
  then have "pager_ok disk contents q2" by (simp add: reads_only_def)
  then have "reads_only disk contents q2 p1" using check_pages_Ok [OF c] by blast
  then show "ob1 = ob" and "reads_only disk contents p p1"
    using ob1 lists reads_only_trans by auto
qed

text \<open>The bytes of an object's data pages, side by side.\<close>

lemma read_loop_Ok:
  "object_read_loop ps pgs pos end cached page_buf out p = (Ok bs, p') \<Longrightarrow> pager_ok disk contents p \<Longrightarrow>
   ps = pg_page_size p \<Longrightarrow> end \<le> length pgs * ps \<Longrightarrow> pos \<le> end \<Longrightarrow>
   (\<And>i. cached = Some i \<Longrightarrow> page_buf = pager_page contents p (pgs ! i)) \<Longrightarrow>
   (\<forall>n \<in> set pgs. n < pg_page_count p) \<Longrightarrow>
     reads_only disk contents p p' \<and> bs = out @ slice pos end (concat (map (pager_page contents p) pgs))"
proof (induction ps pgs pos "end" cached page_buf out arbitrary: p rule: object_read_loop.induct)
  case (1 ps pgs pos "end" cached page_buf out)
  let ?c = "concat (map (pager_page contents p) pgs)"
  show ?case
  proof (cases "pos < end")
    case False
    then show ?thesis using "1.prems"
      by (subst (asm) object_read_loop.simps) (simp add: result_simps reads_only_refl slice_def)
  next
    case True
    let ?i = "pos div ps" and ?w = "pos mod ps"
    let ?n = "min (ps - ?w) (end - pos)"
    have pos: "0 < ps" using "1.prems" by (simp add: pager_ok_def)
    have w: "?w < ps" using pos by simp
    have i: "?i < length pgs"
      using True "1.prems"(4) pos by (simp add: less_mult_imp_div_less)
    obtain buf p1 where get: "(if cached = Some ?i then ret page_buf else read_page_into (pgs ! ?i) ps) p = (Ok buf, p1)"
      and go: "object_read_loop ps pgs (pos + ?n) end (Some ?i) buf (out @ slice ?w (?w + ?n) buf) p1 = (Ok bs, p')"
      using "1.prems"(1) True pos by (subst (asm) object_read_loop.simps) (auto simp: result_simps Let_def)
    have got: "buf = pager_page contents p (pgs ! ?i) \<and> reads_only disk contents p p1"
    proof (cases "cached = Some ?i")
      case True
      then show ?thesis using get "1.prems"(2,6) by (simp add: result_simps reads_only_refl)
    next
      case False
      then have "read_page (pgs ! ?i) p = (Ok buf, p1)" using get "1.prems"(3) by (simp add: read_page_def)
      then show ?thesis using read_page_reads "1.prems"(2) by blast
    qed
    have same: "map (pager_page contents p1) pgs = map (pager_page contents p) pgs"
      using got "1.prems"(7) by (auto simp: reads_only_page)
    have ok1: "pager_ok disk contents p1" using got by (simp add: reads_only_def)
    have ps1: "ps = pg_page_size p1" using got "1.prems"(3) reads_only_size [of disk contents p p1] by simp
    have cnt: "\<forall>n \<in> set pgs. n < pg_page_count p1" using got "1.prems"(7) by (simp add: reads_only_def)
    have cache: "buf = pager_page contents p1 (pgs ! j)" if "Some ?i = Some j" for j
      using got that "1.prems"(7) i reads_only_page [of disk contents p p1 "pgs ! ?i"] by simp
    have le: "pos + ?n \<le> end" using True by simp
    have "pos < end \<and> 0 < ps" using True pos by simp
    note IH = "1.IH" [OF this refl refl refl go ok1 ps1 "1.prems"(4) le cache cnt, unfolded same]
    have "slice ?w (?w + ?n) buf = slice pos (pos + ?n) ?c"
    proof -
      have len: "\<forall>y \<in> set (map (pager_page contents p) pgs). length y = ps"
        using "1.prems"(2,3,7) by (auto simp: length_pager_page)
      have "slice (?i * ps + ?w) (?i * ps + (?w + ?n)) ?c = slice ?w (?w + ?n) (map (pager_page contents p) pgs ! ?i)"
        using i w by (intro slice_concat [OF len]) auto
      then show ?thesis using got i by (simp add: add.assoc [symmetric])
    qed
    moreover have "slice pos end ?c = slice pos (pos + ?n) ?c @ slice (pos + ?n) end ?c"
    proof (rule slice_self)
      show "end \<le> length ?c"
        using "1.prems"(2,3,4,7) by (simp add: length_concat comp_def length_pager_page sum_list_triv cong: map_cong)
    qed (use True in auto)
    moreover have "reads_only disk contents p p'" using reads_only_trans got IH by blast
    ultimately show ?thesis using IH by simp
  qed
qed

lemma stored_content:
  assumes "stored contents p ob content" and ok: "pager_ok disk contents p"
  shows "content = take (ob_len ob) (concat (map (pager_page contents p) (ob_pages ob)))"
    and "ob_len ob \<le> length (ob_pages ob) * pg_page_size p"
    and "\<forall>n \<in> set (ob_pages ob). n < pg_page_count p"
proof -
  let ?ps = "pg_page_size p"
  have pos: "0 < ?ps" using ok by (simp add: pager_ok_def)
  have st: "length content = ob_len ob" "length (ob_pages ob) = div_ceil (length content) ?ps"
      "data_hold (pager_page contents p) (ob_pages ob) (chunks ?ps content)"
    using assms(1) by (simp_all add: stored_def object_ok_def)
  show own: "\<forall>n \<in> set (ob_pages ob). n < pg_page_count p"
    using assms(1) by (simp add: stored_def object_ok_def owned_pages_def)
  have "take (length content) (concat (map (pager_page contents p) (ob_pages ob))) = content"
    using st own by (intro take_concat_chunks [OF pos])
      (auto simp: length_chunks_ceil [OF pos] length_pager_page [OF ok] data_hold_def)
  then show "content = take (ob_len ob) (concat (map (pager_page contents p) (ob_pages ob)))"
    using st(1) by simp
  have "ob_len ob \<le> (ob_len ob + (?ps - 1)) div ?ps * ?ps"
    using dividend_less_div_times [OF pos, of "ob_len ob + (?ps - 1)"] pos by simp
  then show "ob_len ob \<le> length (ob_pages ob) * ?ps" using st(1,2) by (simp add: div_ceil_def)
qed

lemma read_all_Ok:
  assumes r: "object_read_all ob p = (Ok bs, p')" and st: "stored contents p ob content"
    and ok: "pager_ok disk contents p"
  shows "bs = content" and "reads_only disk contents p p'"
proof -
  obtain p1 where m: "on_budget (budget_object (ob_len ob)) p = (Ok (), p1)"
    and a: "object_read_at ob 0 (ob_len ob) p1 = (Ok bs, p')"
    using r by (auto simp: object_read_all_def result_simps materialize_object_def)
  have r1: "reads_only disk contents p p1" using charge_reads [OF m ok] .
  then have ok1: "pager_ok disk contents p1" by (simp add: reads_only_def)
  note c = stored_content [OF reads_only_stored [OF r1 st] ok1]
  have l: "object_read_loop (pg_page_size p1) (ob_pages ob) 0 (ob_len ob) None [] [] p1 = (Ok bs, p')"
    using a by (auto simp: object_read_at_def checked_add64_def split: if_splits)
  have "reads_only disk contents p1 p' \<and>
      bs = [] @ slice 0 (ob_len ob) (concat (map (pager_page contents p1) (ob_pages ob)))"
    using c by (intro read_loop_Ok [OF l ok1]) auto
  then show "bs = content" and "reads_only disk contents p p'"
    using c(1) reads_only_trans [OF r1] by (simp_all add: slice_def)
qed

end

section \<open>On a file that does not fail\<close>

definition works :: "('s, 'a) act \<Rightarrow> 's \<Rightarrow> bool" where
  "works m s \<longleftrightarrow> (\<exists>x s'. m s = (Ok x, s'))"

lemma works_and_then:
  "works m s \<Longrightarrow> (\<And>x s'. m s = (Ok x, s') \<Longrightarrow> works (f x) s') \<Longrightarrow> works (and_then m f) s"
  by (fastforce simp: works_def and_then_def)

lemma works_ret [simp]: "works (ret x) s"
  by (simp add: works_def ret_def)

lemma works_on_budget: "pg_budget p = None \<Longrightarrow> works (on_budget charge) p"
  by (simp add: works_def on_budget_none)

lemma works_check_page: "works (check_page n role) p \<longleftrightarrow> 0 < n \<and> n < pg_page_count p"
  by (auto simp: works_def check_page_Ok)

lemma no_budget_kept: "changed contents S p p' \<Longrightarrow> pg_budget p = None \<Longrightarrow> pg_budget p' = None"
  by (simp add: changed_def)

context sound_file
begin

lemma works_seek: "pg_disk p = disk \<Longrightarrow> works (on_file (\<lambda>d f. bk_seek d f n)) p"
  using seek_sound [of "pg_file p" n] by (auto simp: works_def on_file_def)

lemma works_write_all: "pg_disk p = disk \<Longrightarrow> works (on_file (\<lambda>d f. bk_write_all d f bs)) p"
  using write_sound [of "pg_file p" bs] by (auto simp: works_def on_file_def)

lemma works_read_page:
  assumes ok: "pager_ok disk contents p" and "pg_budget p = None" and n: "n < pg_page_count p"
  shows "works (read_page n) p"
proof -
  let ?ps = "pg_page_size p"
  have disk: "pg_disk p = disk" using ok by (simp add: pager_ok_def)
  have rd: "works (on_file (\<lambda>d f. bk_read_exact d f ?ps)) q"
    if s: "on_file (\<lambda>d f. bk_seek d f (n * ?ps)) p = (Ok u, q)" for u q
  proof -
    obtain f where f: "q = p\<lparr>pg_file := f\<rparr>" "contents f = contents (pg_file p)" "position f = n * ?ps"
      using on_file_seek_Ok [OF s disk] by (elim exE conjE) (rule that)
    have "n * ?ps + ?ps \<le> length (contents f)"
      using page_order [OF n, of ?ps] ok f(2) unfolding pager_ok_def by simp
    then obtain bs g where "bk_read_exact disk f ?ps = (Ok bs, g)" using read_sound f(3) by metis
    then show ?thesis using f(1) disk by (simp add: works_def on_file_def)
  qed
  have "works (and_then (on_file (\<lambda>d f. bk_seek d f (n * ?ps))) (\<lambda>_. on_file (\<lambda>d f. bk_read_exact d f ?ps))) p"
    using works_seek [OF disk] rd by (intro works_and_then)
  then show ?thesis
    using n assms(2) by (simp add: works_def read_page_def read_page_into_def check_read_def and_then_step [OF on_budget_none])
qed

lemma works_write_page:
  assumes disk: "pg_disk p = disk" and "pg_budget p = None" and n: "n < pg_page_count p"
  shows "works (write_page n bs) p"
proof -
  have "works (and_then (on_file (\<lambda>d f. bk_seek d f (n * pg_page_size p))) (\<lambda>_. on_file (\<lambda>d f. bk_write_all d f bs))) p"
  proof (rule works_and_then)
    show "works (on_file (\<lambda>d f. bk_seek d f (n * pg_page_size p))) p" by (rule works_seek [OF disk])
    fix u q assume "on_file (\<lambda>d f. bk_seek d f (n * pg_page_size p)) p = (Ok u, q)"
    then have "pg_disk q = disk" using on_file_seek_Ok disk by fastforce
    then show "works (on_file (\<lambda>d f. bk_write_all d f bs)) q" by (rule works_write_all)
  qed
  then show ?thesis
    using n assms(2) by (simp add: works_def write_page_def check_read_def and_then_step [OF on_budget_none])
qed

lemma works_append_page:
  assumes ok: "pager_ok disk contents p" and "pg_budget p = None" and "pg_page_count p < u32_max"
  shows "works append_page p"
proof -
  let ?q = "p\<lparr>pg_page_count := pg_page_count p + 1\<rparr>"
  have "works (write_page (pg_page_count p) (replicate (pg_page_size p) 0)) ?q"
    using ok assms(2) by (intro works_write_page) (simp_all add: pager_ok_def)
  then have "works (and_then (write_page (pg_page_count p) (replicate (pg_page_size p) 0)) (\<lambda>_. ret (pg_page_count p))) ?q"
    by (intro works_and_then) simp_all
  then show ?thesis
    using assms(2,3) by (simp add: works_def append_page_def check_read_def and_then_step [OF on_budget_none] Let_def)
qed

lemma works_grow:
  "pager_ok disk contents p \<Longrightarrow> pg_budget p = None \<Longrightarrow> pg_page_count p + k \<le> u32_max \<Longrightarrow> works (grow k pgs) p"
proof (induction k arbitrary: pgs p)
  case (Suc k)
  show ?case
    unfolding grow.simps
  proof (rule works_and_then)
    show "works append_page p" using Suc.prems by (intro works_append_page) simp_all
    fix n q assume a: "append_page p = (Ok n, q)"
    note one = append_page_Ok [OF a Suc.prems(1)]
    show "works (grow k (pgs @ [n])) q"
      using one Suc.prems by (intro Suc.IH) (auto intro: no_budget_kept)
  qed
qed simp

lemma works_write_data_pages:
  "pager_ok disk contents p \<Longrightarrow> pg_budget p = None \<Longrightarrow> ps = pg_page_size p \<Longrightarrow>
   \<forall>n \<in> set pgs. n < pg_page_count p \<Longrightarrow> i + length cs \<le> length pgs \<Longrightarrow> \<forall>c \<in> set cs. length c \<le> ps \<Longrightarrow>
   works (write_data_pages ps pgs i cs) p"
proof (induction cs arbitrary: i p)
  case (Cons c cs)
  let ?bs = "c @ replicate (ps - length c) 0"
  have len: "length ?bs = pg_page_size p" using Cons.prems by simp
  show ?case
    unfolding write_data_pages.simps
  proof (rule works_and_then)
    show "works (write_page (pgs ! i) ?bs) p"
      using Cons.prems by (intro works_write_page) (simp_all add: pager_ok_def)
    fix u q assume w: "write_page (pgs ! i) ?bs p = (Ok u, q)"
    note one = write_page_Ok [OF w Cons.prems(1) len]
    show "works (write_data_pages ps pgs (i + 1) cs) q"
      using one Cons.prems by (intro Cons.IH) (auto simp: changed_def)
  qed
qed simp

lemma works_write_tables:
  "pager_ok disk contents p \<Longrightarrow> pg_budget p = None \<Longrightarrow> ps = pg_page_size p \<Longrightarrow>
   \<forall>n \<in> set tables. n < pg_page_count p \<Longrightarrow> t + length cs \<le> length tables \<Longrightarrow> \<forall>c \<in> set cs. 4 * length c \<le> ps \<Longrightarrow>
   works (write_tables ps tables t cs header) p"
proof (induction cs arbitrary: t p header)
  case (Cons c cs)
  let ?bs = "put_u32s 0 c (replicate ps 0)"
  have len: "length ?bs = pg_page_size p" using Cons.prems by simp
  show ?case
    unfolding write_tables.simps
  proof (rule works_and_then)
    show "works (write_page (tables ! t) ?bs) p"
      using Cons.prems by (intro works_write_page) (simp_all add: pager_ok_def)
    fix u q assume w: "write_page (tables ! t) ?bs p = (Ok u, q)"
    note one = write_page_Ok [OF w Cons.prems(1) len]
    show "works (write_tables ps tables (t + 1) cs (put (OBJECT_HEADER + t * 4) (le32 (tables ! t)) header)) q"
      using one Cons.prems by (intro Cons.IH) (auto simp: changed_def)
  qed
qed simp

lemma works_finish_header:
  "pager_ok disk contents p \<Longrightarrow> pg_budget p = None \<Longrightarrow> ob_header_page ob < pg_page_count p \<Longrightarrow>
     works (finish_header ob header) p"
  unfolding finish_header_def Let_def
  by (intro works_and_then works_write_page) (simp_all add: pager_ok_def)

end

end
