(* ===== verification/Filedb_Object_Safe.thy ===== *)
theory Filedb_Object_Safe
  imports Filedb_Object_Read
begin

text \<open>
  The contract of \<open>Object\<close>: a rewrite replaces the content of one object and nothing else in the file;
  on a file that does not fail, a content that fits is written and read back.
\<close>

text \<open>Room for \<open>n\<close> bytes: the content does not shrink, its page lists fit the header, and there are page
  numbers left for what is appended.\<close>

definition object_fits :: "nat \<Rightarrow> nat \<Rightarrow> object \<Rightarrow> nat \<Rightarrow> bool" where
  "object_fits ps count ob n \<longleftrightarrow>
     ob_len ob \<le> n \<and> n \<le> u64_max
     \<and> div_ceil (div_ceil n ps) (ps div 4) \<le> direct_capacity ps
     \<and> count + div_ceil n ps + div_ceil (div_ceil n ps) (ps div 4) \<le> u32_max"

context sound_file
begin

lemma works_write_header:
  assumes ok: "pager_ok disk contents p" and nb: "pg_budget p = None"
    and due: "header_due (pg_page_size p) (pg_page_count p) ob"
    and tc: "div_ceil (length (ob_pages ob)) (pg_page_size p div 4) \<le> direct_capacity (pg_page_size p)"
      "pg_page_count p + div_ceil (length (ob_pages ob)) (pg_page_size p div 4) \<le> u32_max"
  shows "works (write_header ob) p"
proof -
  let ?ps = "pg_page_size p" and ?per = "pg_page_size p div 4"
  let ?h0 = "put 0 (le16 OBJECT_SIGNATURE) (replicate (pg_page_size p) 0)"
  let ?tc = "div_ceil (length (ob_pages ob)) ?per" and ?cs = "chunks ?per (ob_pages ob)"
  have hp: "ob_header_page ob < pg_page_count p" using due by (simp add: header_due_def owned_pages_def)
  have pages: "take (div_ceil (ob_len ob) ?ps) (ob_pages ob) = ob_pages ob" using due by (simp add: header_due_def)
  have big: "0 < ?per" "4 * ?per = ?ps" using ok by (auto simp: pager_ok_def)
  have few: "length (ob_tables ob) \<le> ?tc" using due by (auto simp: header_due_def)
  have "works (and_then (grow (?tc - length (ob_tables ob)) (ob_tables ob)) (\<lambda>tables.
          and_then (write_tables ?ps tables 0 ?cs ?h0) (\<lambda>header.
            finish_header (ob\<lparr>ob_fat := 1, ob_tables := tables\<rparr>) (put 12 (le32 ?tc) header)))) p"
  proof (intro works_and_then)
    show "works (grow (?tc - length (ob_tables ob)) (ob_tables ob)) p"
      using tc(2) by (intro works_grow [OF ok nb]) simp
    fix tables p1 assume g: "grow (?tc - length (ob_tables ob)) (ob_tables ob) p = (Ok tables, p1)"
    note grown = grow_Ok [OF g ok]
    have nb1: "pg_budget p1 = None" using grown nb no_budget_kept by blast
    have ps1: "?ps = pg_page_size p1" using grown by (simp add: changed_def)
    have below: "\<forall>n \<in> set (ob_tables ob). n < pg_page_count p"
      using due by (simp add: header_due_def owned_pages_def)
    have own: "n < pg_page_count p1" if "n \<in> set tables" for n
    proof (cases "n \<in> set (ob_tables ob)")
      case True
      then have "n < pg_page_count p" using below by blast
      then show ?thesis using grown by simp
    next
      case False
      then show ?thesis using that grown by simp
    qed
    have len: "0 + length ?cs \<le> length tables" using grown few by (simp add: length_chunks_ceil [OF big(1)])
    have csmall: "\<forall>c \<in> set ?cs. 4 * length c \<le> ?ps" using length_chunk big(2) by (metis mult_le_mono2)
    show "works (write_tables ?ps tables 0 ?cs ?h0) p1"
      using grown nb1 ps1 own len csmall by (intro works_write_tables) auto
    fix header p2 assume t: "write_tables ?ps tables 0 ?cs ?h0 p1 = (Ok header, p2)"
    have "distinct (ob_tables ob)" using due by (simp add: header_due_def owned_pages_def)
    then have "distinct tables" using grown below by auto
    then have "pager_ok disk contents p2 \<and> pg_page_count p2 = pg_page_count p1 \<and> changed contents (set (drop 0 tables)) p1 p2"
      using write_tables_Ok [OF t _ ps1 _ len csmall] grown by simp
    then show "works (finish_header (ob\<lparr>ob_fat := 1, ob_tables := tables\<rparr>) (put 12 (le32 ?tc) header)) p2"
      using hp grown nb1 by (intro works_finish_header) (auto simp: changed_def)
  qed
  then show ?thesis
    using works_finish_header [OF ok nb hp] pages tc(1)
    by (simp add: write_header_def Let_def works_def)
qed

lemma works_rewrite:
  assumes ok: "pager_ok disk contents p" and nb: "pg_budget p = None"
    and ob: "object_ok (pg_page_size p) (pg_page_count p) ob"
    and fits: "object_fits (pg_page_size p) (pg_page_count p) ob (length content)"
  shows "works (object_rewrite ob content) p"
proof -
  let ?ps = "pg_page_size p" and ?cs = "chunks (pg_page_size p) content"
  let ?need = "div_ceil (length content) ?ps"
  have big: "0 < ?ps" using ok by (simp add: pager_ok_def)
  have few: "length (ob_pages ob) \<le> ?need"
    using ob fits div_ceil_mono by (simp add: object_ok_def object_fits_def)
  define ob1 where "ob1 pgs = ob\<lparr>ob_pages := pgs, ob_len := length content,
      ob_counter := (ob_counter ob + 1) mod 2 ^ 32,
      ob_length_counter := (if length content \<noteq> ob_len ob
         then (ob_length_counter ob + 1) mod 2 ^ 32 else ob_length_counter ob)\<rparr>" for pgs
  have "works (and_then (grow (?need - length (ob_pages ob)) (ob_pages ob)) (\<lambda>pgs.
        and_then (write_data_pages ?ps pgs 0 ?cs) (\<lambda>_. write_header (ob1 pgs)))) p"
  proof (intro works_and_then)
    show "works (grow (?need - length (ob_pages ob)) (ob_pages ob)) p"
      using fits unfolding object_fits_def by (intro works_grow [OF ok nb]) linarith
    fix pgs p1 assume g: "grow (?need - length (ob_pages ob)) (ob_pages ob) p = (Ok pgs, p1)"
    note grown = grow_Ok [OF g ok]
    have nb1: "pg_budget p1 = None" using grown nb no_budget_kept by blast
    have ps1: "?ps = pg_page_size p1" using grown by (simp add: changed_def)
    have len: "length pgs = ?need" using grown few by simp
    have "distinct (owned_pages ob)" "\<forall>n \<in> set (owned_pages ob). 0 < n \<and> n < pg_page_count p"
      using ob by (simp_all add: object_ok_def)
    moreover have "0 < pg_page_count p" "pg_page_count p \<le> pg_page_count p1"
      using ok grown by (simp_all add: pager_ok_def)
    ultimately have "distinct (owned_pages ob @ [pg_page_count p..<pg_page_count p1])
        \<and> (\<forall>n \<in> set (owned_pages ob @ [pg_page_count p..<pg_page_count p1]). 0 < n \<and> n < pg_page_count p1)"
      by (rule fresh_pages)
    then have own: "distinct (owned_pages (ob1 pgs))" "\<forall>n \<in> set (owned_pages (ob1 pgs)). 0 < n \<and> n < pg_page_count p1"
      using grown by (auto simp: owned_pages_def ob1_def)
    have below: "\<forall>n \<in> set pgs. n < pg_page_count p1" using own(2) by (simp add: owned_pages_def ob1_def)
    have clen: "0 + length ?cs \<le> length pgs" using len by (simp add: length_chunks_ceil [OF big])
    have csmall: "\<forall>c \<in> set ?cs. length c \<le> ?ps" using length_chunk by blast
    show "works (write_data_pages ?ps pgs 0 ?cs) p1"
      using grown nb1 ps1 below clen csmall by (intro works_write_data_pages) auto
    fix u p2 assume d: "write_data_pages ?ps pgs 0 ?cs p1 = (Ok u, p2)"
    have dp: "distinct pgs" using own(1) by (simp add: owned_pages_def ob1_def)
    have wrote: "pager_ok disk contents p2 \<and> pg_page_count p2 = pg_page_count p1 \<and> changed contents (set (drop 0 pgs)) p1 p2"
      using write_data_pages_Ok [OF d _ ps1 dp clen csmall] grown by simp
    have ps2: "pg_page_size p2 = ?ps" using wrote ps1 by (simp add: changed_def)
    have "header_due (pg_page_size p2) (pg_page_count p2) (ob1 pgs)"
      using own wrote ps2 len ob fits few
      by (auto simp: header_due_def ob1_def object_ok_def object_fits_def div_ceil_mono)
    moreover have "pg_budget p2 = None" using wrote nb1 no_budget_kept by blast
    moreover have "pg_page_count p2 + div_ceil ?need (?ps div 4) \<le> u32_max"
    proof -
      have "pg_page_count p2 \<le> pg_page_count p + ?need" using wrote grown by simp
      then show ?thesis using fits unfolding object_fits_def by linarith
    qed
    ultimately show "works (write_header (ob1 pgs)) p2"
      using wrote ps2 len fits by (intro works_write_header) (simp_all add: ob1_def object_fits_def)
  qed
  then show ?thesis
    using fits by (simp add: object_rewrite_def works_def Let_def object_fits_def ob1_def)
qed

lemma works_check_pages:
  "pager_ok disk contents p \<Longrightarrow> pg_budget p = None \<Longrightarrow> \<forall>n \<in> set ns. 0 < n \<and> n < pg_page_count p \<Longrightarrow>
     works (check_pages ns) p"
proof (induction ns)
  case (Cons n ns)
  have "works (and_then check_read (\<lambda>_. and_then (check_page n Object_Data_Page) (\<lambda>_. check_pages ns))) p"
    using Cons by (intro works_and_then)
      (auto simp: check_read_def works_on_budget works_check_page on_budget_none check_page_Ok)
  then show ?case by simp
qed simp

lemma works_read_tables:
  "pager_ok disk contents p \<Longrightarrow> pg_budget p = None \<Longrightarrow> \<forall>n \<in> set ts. 0 < n \<and> n < pg_page_count p \<Longrightarrow>
     works (read_tables ts need pgs tables) p"
proof (induction ts arbitrary: pgs tables p)
  case (Cons t ts)
  show ?case
    unfolding read_tables.simps
  proof (intro works_and_then)
    show "works (check_page t Object_Table_Page) p" using Cons.prems by (simp add: works_check_page)
    fix u q assume "check_page t Object_Table_Page p = (Ok u, q)"
    then have q: "q = p" by (simp add: check_page_Ok)
    then show "works (read_page t) q" using Cons.prems by (intro works_read_page) auto
    fix bs r assume r: "read_page t q = (Ok bs, r)"
    then have "reads_only disk contents p r" using read_page_reads Cons.prems(1) q by blast
    then show "works (read_tables ts need (push_pages need (u32s bs) pgs) (tables @ [t])) r"
      using Cons.prems by (intro Cons.IH) (auto simp: reads_only_def changed_def)
  qed
qed simp

lemma works_read_loop:
  "pager_ok disk contents p \<Longrightarrow> pg_budget p = None \<Longrightarrow> ps = pg_page_size p \<Longrightarrow> end \<le> length pgs * ps \<Longrightarrow>
   \<forall>n \<in> set pgs. n < pg_page_count p \<Longrightarrow> works (object_read_loop ps pgs pos end cached page_buf out) p"
proof (induction ps pgs pos "end" cached page_buf out arbitrary: p rule: object_read_loop.induct)
  case (1 ps pgs pos "end" cached page_buf out)
  show ?case
  proof (cases "pos < end")
    case False
    then show ?thesis by (subst object_read_loop.simps) simp
  next
    case True
    let ?i = "pos div ps" and ?w = "pos mod ps"
    let ?n = "min (ps - ?w) (end - pos)"
    let ?get = "if cached = Some ?i then ret page_buf else read_page_into (pgs ! ?i) ps"
    have pos: "0 < ps" using "1.prems" by (simp add: pager_ok_def)
    then have i: "?i < length pgs" using True "1.prems"(4) by (simp add: less_mult_imp_div_less)
    have "works (and_then ?get (\<lambda>buf. object_read_loop ps pgs (pos + ?n) end (Some ?i) buf
            (out @ slice ?w (?w + ?n) buf))) p"
    proof (intro works_and_then)
      have "works (read_page (pgs ! ?i)) p" using "1.prems" i by (intro works_read_page) auto
      then show "works ?get p" using "1.prems"(3) by (simp add: works_def read_page_def ret_def)
      fix buf p1 assume get: "?get p = (Ok buf, p1)"
      have "reads_only disk contents p p1"
      proof (cases "cached = Some ?i")
        case True
        then show ?thesis using get "1.prems"(1) by (simp add: result_simps reads_only_refl)
      next
        case False
        then have "read_page (pgs ! ?i) p = (Ok buf, p1)" using get "1.prems"(3) by (simp add: read_page_def)
        then show ?thesis using read_page_reads "1.prems"(1) by blast
      qed
      then show "works (object_read_loop ps pgs (pos + ?n) end (Some ?i) buf (out @ slice ?w (?w + ?n) buf)) p1"
        using "1.prems" True pos by (intro "1.IH") (auto simp: reads_only_def changed_def)
    qed
    then show ?thesis using True pos by (subst object_read_loop.simps) (simp add: Let_def)
  qed
qed

lemma works_read_all:
  assumes "stored contents p ob content" and ok: "pager_ok disk contents p" and nb: "pg_budget p = None"
  shows "works (object_read_all ob) p"
  unfolding object_read_all_def
proof (intro works_and_then)
  show "works (materialize_object (ob_len ob)) p" using nb by (simp add: charges works_on_budget)
  fix u q assume "materialize_object (ob_len ob) p = (Ok u, q)"
  then have q: "q = p" using nb by (simp add: charges on_budget_none)
  have "ob_len ob \<le> u64_max" using assms(1) by (simp add: stored_def object_ok_def)
  moreover have "works (object_read_loop (pg_page_size p) (ob_pages ob) 0 (ob_len ob) None [] []) p"
    using stored_content [OF assms(1) ok] by (intro works_read_loop [OF ok nb]) auto
  ultimately show "works (object_read_at ob 0 (ob_len ob)) q"
    by (simp add: q works_def object_read_at_def checked_add64_def)
qed

lemma works_open:
  assumes st: "stored contents p ob content" and ok: "pager_ok disk contents p" and nb: "pg_budget p = None"
  shows "works (object_open (ob_header_page ob)) p"
proof -
  let ?ps = "pg_page_size p" and ?page = "pager_page contents p" and ?per = "pg_page_size p div 4"
  let ?direct = "u32s (drop OBJECT_HEADER (?page (ob_header_page ob)))"
  let ?need = "length (ob_pages ob)" and ?tc = "length (ob_tables ob)"
  have ob: "object_ok ?ps (pg_page_count p) ob" and head: "header_holds (?page (ob_header_page ob)) ob"
    using st by (simp_all add: stored_def)
  have own: "\<forall>n \<in> set (owned_pages ob). 0 < n \<and> n < pg_page_count p" "distinct (owned_pages ob)"
    using ob by (simp_all add: object_ok_def)
  have need: "div_ceil (ob_len ob) ?ps = ?need" using ob by (simp add: object_ok_def)
  have "card (set (ob_pages ob)) \<le> card {0..<pg_page_count p}"
    using own(1) by (intro card_mono) (auto simp: owned_pages_def)
  then have enough: "?need \<le> pg_page_count p"
    using own(2) by (simp add: owned_pages_def distinct_card)
  have level: "ob_fat ob = 0 \<and> ?need \<le> direct_capacity ?ps \<and> ?tc = 0
      \<or> ob_fat ob = 1 \<and> div_ceil ?need ?per = ?tc \<and> ?tc \<le> direct_capacity ?ps"
    using ob by (auto simp: object_ok_def)
  have listed: "take (length (listed ob)) ?direct = listed ob" using head by (simp add: header_holds_def)
  have room: "length (listed ob) \<le> length ?direct" by (metis listed length_take min.cobounded1)
  have lists: "works (page_lists (ob_header_page ob) (ob_fat ob) (ob_len ob) ?need ?per ?direct) q"
    if "pager_ok disk contents q" "pg_budget q = None" "pg_page_count q = pg_page_count p" for q
  proof (cases "ob_fat ob = 0")
    case True
    then show ?thesis using room by (auto simp: page_lists_def listed_def)
  next
    case False
    then have "take ?tc ?direct = ob_tables ob" "\<not> ?tc > length ?direct" "div_ceil ?need ?per = ?tc" "ob_fat ob = 1"
      using listed room level by (auto simp: listed_def)
    moreover have "works (read_tables (ob_tables ob) ?need [] []) q"
      using that own(1) by (intro works_read_tables) (auto simp: owned_pages_def)
    ultimately show ?thesis by (simp add: page_lists_def Let_def)
  qed
  have parsed: "works (object_from_header (ob_header_page ob) (?page (ob_header_page ob))) q"
    if q: "reads_only disk contents p q" for q
  proof -
    have qs: "pg_page_size q = ?ps" "pg_page_count q = pg_page_count p" "pager_ok disk contents q" "pg_budget q = None"
      using q nb by (simp_all add: reads_only_def changed_def)
    have list: "works (and_then (page_lists (ob_header_page ob) (ob_fat ob) (ob_len ob) ?need ?per ?direct)
        (\<lambda>(pgs, tables). and_then (check_pages pgs) (\<lambda>_. ret (k pgs tables)))) q"
      for k :: "nat list \<Rightarrow> nat list \<Rightarrow> object"
    proof (rule works_and_then)
      show "works (page_lists (ob_header_page ob) (ob_fat ob) (ob_len ob) ?need ?per ?direct) q"
        using lists qs by blast
      fix x q' assume l: "page_lists (ob_header_page ob) (ob_fat ob) (ob_len ob) ?need ?per ?direct q = (Ok x, q')"
      obtain pgs tables where x: "x = (pgs, tables)" by (cases x)
      have "pgs = ob_pages ob \<and> reads_only disk contents p q'"
        using page_lists_Ok [OF st ok q] l x by (simp add: OBJECT_HEADER_def)
      then have "works (check_pages pgs) q'"
        using own(1) nb by (intro works_check_pages) (auto simp: reads_only_def changed_def owned_pages_def)
      then show "works (case x of (pgs, tables) \<Rightarrow> and_then (check_pages pgs) (\<lambda>_. ret (k pgs tables))) q'"
        by (auto simp: x intro: works_and_then)
    qed
    then show ?thesis
      using head need enough level qs
      by (auto simp: object_from_header_def header_holds_def Let_def works_def charges on_budget_none and_then_step)
  qed
  show ?thesis
    unfolding object_open_def
  proof (intro works_and_then)
    show "works (check_page (ob_header_page ob) Object_Header_Page) p"
      using own(1) by (simp add: works_check_page owned_pages_def)
    fix u p0 assume "check_page (ob_header_page ob) Object_Header_Page p = (Ok u, p0)"
    then have p0: "p0 = p" by (simp add: check_page_Ok)
    then show "works (read_page (ob_header_page ob)) p0"
      using own(1) ok nb by (intro works_read_page) (auto simp: owned_pages_def)
    fix bs q assume "read_page (ob_header_page ob) p0 = (Ok bs, q)"
    then have "reads_only disk contents p q \<and> bs = ?page (ob_header_page ob)"
      using read_page_reads [OF _ ok] p0 by simp
    then show "works (object_from_header (ob_header_page ob) bs) q" using parsed by simp
  qed
qed

end

end
