(* ===== verification/Filedb_Object_Open.thy ===== *)
theory Filedb_Object_Open
  imports Filedb_Object_Safe
begin

text \<open>
  Opening an object from any header page: when the pages it names are distinct, it is a stored object
  whose content is the bytes of its data pages.
\<close>

section \<open>Chunks of concatenated pages\<close>

lemma chunks_nth: "i < length (chunks n xs) \<Longrightarrow> chunks n xs ! i = take n (drop (i * n) xs)"
proof (induction n xs arbitrary: i rule: chunks.induct)
  case (1 n xs)
  show ?case
  proof (cases "n = 0 \<or> xs = []")
    case True
    then show ?thesis using "1.prems" by (subst (asm) chunks.simps) simp
  next
    case False
    then have c: "chunks n xs = take n xs # chunks n (drop n xs)" by (simp add: chunks_nonempty)
    show ?thesis
    proof (cases i)
      case 0
      then show ?thesis by (simp add: c)
    next
      case (Suc j)
      then have "chunks n (drop n xs) ! j = take n (drop (j * n) (drop n xs))"
        using "1.prems" False c by (intro "1.IH") auto
      then show ?thesis using Suc c by (simp add: add.commute)
    qed
  qed
qed

lemma chunks_of_concat:
  assumes "0 < n" and ys: "\<forall>y \<in> set ys. length y = n" and m: "m \<le> n * length ys"
    and t: "t < length (chunks n (take m (concat ys)))"
  shows "t < length ys"
    and "take (length (chunks n (take m (concat ys)) ! t)) (ys ! t) = chunks n (take m (concat ys)) ! t"
proof -
  have len: "length (concat ys) = n * length ys" using ys by (induction ys) simp_all
  have "length (take m (concat ys)) = m" using m len by simp
  then have "t < div_ceil m n" using t assms(1) by (simp only: length_chunks_ceil)
  then have "Suc t \<le> (m + (n - 1)) div n" by (simp add: div_ceil_def)
  then have "Suc t * n \<le> m + (n - 1)" using assms(1) by (simp only: less_eq_div_iff_mult_less_eq)
  then have "t * n < m" using assms(1) by (simp only: mult_Suc)
  then show tl: "t < length ys" using m by (metis le_less_trans mult.commute mult_less_cancel2 order_less_le_trans)
  have "slice (t * n + 0) (t * n + n) (concat ys) = slice 0 n (ys ! t)"
    using ys tl by (intro slice_concat) auto
  then have page: "take n (drop (t * n) (concat ys)) = ys ! t"
    using ys tl by (simp add: slice_def)
  let ?c = "chunks n (take m (concat ys)) ! t"
  have "?c = take n (drop (t * n) (take m (concat ys)))" by (rule chunks_nth [OF t])
  also have "\<dots> = take (min n (m - t * n)) (drop (t * n) (concat ys))"
    by (simp add: drop_take)
  also have "\<dots> = take (min n (m - t * n)) (take n (drop (t * n) (concat ys)))" by simp
  finally have c: "?c = take (min n (m - t * n)) (ys ! t)" using page by simp
  then show "take (length ?c) (ys ! t) = ?c"
    by (cases "min n (m - t * n) \<le> length (ys ! t)") (simp_all only: length_take min.absorb1 min.absorb2 take_all linorder_not_le less_imp_le order_refl)
qed

lemma fold_push: "length acc \<le> need \<Longrightarrow> fold (push_pages need) us acc = acc @ take (need - length acc) (concat us)"
proof (induction us arbitrary: acc)
  case (Cons u us)
  let ?acc = "acc @ take (need - length acc) u"
  have "fold (push_pages need) (u # us) acc = fold (push_pages need) us ?acc"
    using Cons.prems by (simp add: push_pages_eq)
  also have "\<dots> = ?acc @ take (need - length ?acc) (concat us)"
    using Cons.prems by (intro Cons.IH) simp
  finally show ?case using Cons.prems by (simp add: min_def)
qed simp

section \<open>Opening\<close>

text \<open>The bytes of the pages of an object.\<close>

definition page_bytes :: "('f \<Rightarrow> bytes) \<Rightarrow> ('f, 'e) pager \<Rightarrow> object \<Rightarrow> bytes" where
  "page_bytes contents p ob = take (ob_len ob) (concat (map (pager_page contents p) (ob_pages ob)))"

lemma div_ceil_room: "0 < n \<Longrightarrow> a \<le> n * div_ceil a n"
  using dividend_less_div_times [of n "a + (n - 1)"] by (simp add: div_ceil_def mult.commute)

context backing_file
begin

lemma object_open_stored:
  assumes r: "object_open hp p = (Ok ob, p')" and ok: "pager_ok disk contents p" and d: "distinct (owned_pages ob)"
  shows "stored contents p' ob (page_bytes contents p ob)" and "reads_only disk contents p p'"
    and "ob_header_page ob = hp"
proof -
  let ?ps = "pg_page_size p" and ?per = "pg_page_size p div 4" and ?page = "pager_page contents p"
  let ?direct = "u32s (drop 24 (?page hp))" and ?len = "ob_len ob"
  let ?need = "div_ceil (ob_len ob) (pg_page_size p)"
  obtain bs q where hp: "0 < hp" "hp < pg_page_count p" and rd: "read_page hp p = (Ok bs, q)"
    and hd: "object_from_header hp bs q = (Ok ob, p')"
    using r by (auto simp: object_open_def result_simps check_page_Ok)
  have q: "reads_only disk contents p q" "bs = ?page hp" using read_page_reads [OF rd ok] by simp_all
  have qs: "pg_page_size q = ?ps" using q(1) by (rule reads_only_size)
  obtain tc pgs tables q1 q2 where fields: "read_u16 0 bs = OBJECT_SIGNATURE" "ob_header_page ob = hp"
      "ob_fat ob = read_u16 2 bs" "ob_counter ob = read_u32 4 bs" "ob_length_counter ob = read_u32 8 bs"
      "?len = read_u64 16 bs" "ob_pages ob = pgs" "ob_tables ob = tables"
    and level: "ob_fat ob = 0 \<and> ?need \<le> direct_capacity ?ps
      \<or> ob_fat ob = 1 \<and> div_ceil ?need ?per \<le> direct_capacity ?ps"
    and m: "on_budget (budget_object tc) q = (Ok (), q1)"
    and l: "page_lists hp (ob_fat ob) ?len ?need ?per ?direct q1 = (Ok (pgs, tables), q2)"
    and c: "check_pages pgs q2 = (Ok (), p')"
    using hd by (auto simp: object_from_header_def Let_def result_simps charges qs q(2) OBJECT_HEADER_def
        split: if_splits option.splits)
  show "ob_header_page ob = hp" by (rule fields(2))
  have ok1: "pager_ok disk contents q" using q(1) by (simp add: reads_only_def)
  have q1: "reads_only disk contents p q1" using reads_only_trans [OF q(1)] charge_reads [OF m ok1] by blast
  then have ok2: "pager_ok disk contents q1" by (simp add: reads_only_def)
  have per: "0 < ?per" "0 < ?ps" "4 * ?per = ?ps" using ok by (auto simp: pager_ok_def)
  let ?us = "map (\<lambda>t. u32s (?page t)) tables"
  have lists: "reads_only disk contents p q2 \<and> length pgs = ?need \<and> take (length (listed ob)) ?direct = listed ob
      \<and> (ob_fat ob = 0 \<and> tables = []
        \<or> ob_fat ob = 1 \<and> length tables = div_ceil ?need ?per \<and> pgs = take ?need (concat ?us)
          \<and> (\<forall>t \<in> set tables. 0 < t \<and> t < pg_page_count p))"
  proof (cases "ob_fat ob = 0")
    case True
    then show ?thesis using l q1 by (auto simp: page_lists_def result_simps listed_def fields split: if_splits)
  next
    case False
    then have one: "ob_fat ob = 1" using level by simp
    then have short: "\<not> div_ceil ?need ?per > length ?direct"
      and rt: "read_tables (take (div_ceil ?need ?per) ?direct) ?need [] [] q1 = (Ok (pgs, tables), q2)"
      using l by (auto simp: page_lists_def Let_def split: if_splits)
    note t = read_tables_Ok [OF rt ok2]
    have tabs: "tables = take (div_ceil ?need ?per) ?direct" "length tables = div_ceil ?need ?per"
      using t short by simp_all
    have below: "\<forall>t \<in> set tables. 0 < t \<and> t < pg_page_count p"
      using t q1 by (simp add: reads_only_def)
    then have same: "map (\<lambda>t. u32s (pager_page contents q1 t)) tables = ?us"
      using reads_only_page [OF q1] by simp
    have "pgs = fold (push_pages ?need) (map (\<lambda>t. u32s (pager_page contents q1 t)) (take (div_ceil ?need ?per) ?direct)) []"
      using t by blast
    then have "pgs = fold (push_pages ?need) ?us []" unfolding tabs(1) [symmetric] same .
    then have pgs: "pgs = take ?need (concat ?us)" using fold_push [of "[]" ?need ?us] by simp
    have "\<forall>u \<in> set ?us. length u = ?per" using below by (auto simp: length_u32s length_pager_page [OF ok])
    then have "length (concat ?us) = ?per * length tables" by (induction tables) auto
    then have "?need \<le> length (concat ?us)" using div_ceil_room [OF per(1), of ?need] tabs(2) by simp
    then have "length pgs = ?need" using pgs by simp
    moreover have "reads_only disk contents p q2" using reads_only_trans [OF q1] t by blast
    ultimately show ?thesis using one tabs pgs below by (simp add: listed_def fields)
  qed
  have "reads_only disk contents q2 p' \<and> (\<forall>n \<in> set pgs. 0 < n \<and> n < pg_page_count q2)"
    using lists by (intro check_pages_Ok [OF c]) (simp add: reads_only_def)
  then have all: "reads_only disk contents p p'" "\<forall>n \<in> set pgs. 0 < n \<and> n < pg_page_count p"
    using lists reads_only_trans [of disk contents p q2 p'] by (simp_all add: reads_only_def)
  then show "reads_only disk contents p p'" by simp
  have bounds: "ob_counter ob \<le> u32_max" "ob_length_counter ob \<le> u32_max" "?len \<le> u64_max"
    unfolding fields read_u32_def read_u64_def by (rule unat_u32_le unat_u64_le)+
  have obok: "object_ok ?ps (pg_page_count p) ob"
    using d all(2) lists hp level bounds by (auto simp: object_ok_def owned_pages_def fields(2,7,8))
  let ?ys = "map ?page pgs"
  have ys: "\<forall>y \<in> set ?ys. length y = ?ps" using all(2) by (auto simp: length_pager_page [OF ok])
  have room: "?len \<le> ?ps * length ?ys" using div_ceil_room [OF per(2), of ?len] lists by simp
  have "data_hold ?page pgs (chunks ?ps (take ?len (concat ?ys)))"
    unfolding data_hold_def using chunks_of_concat [OF per(2) ys room] by fastforce
  moreover have "lists_hold ?page tables (chunks ?per pgs)" if "ob_fat ob = 1"
  proof -
    have us: "\<forall>u \<in> set ?us. length u = ?per" using lists that by (auto simp: length_u32s length_pager_page [OF ok])
    have "?need \<le> ?per * length ?us" using div_ceil_room [OF per(1), of ?need] lists that by auto
    note chunk = chunks_of_concat [OF per(1) us this]
    have "pgs = take ?need (concat ?us)" using lists that by auto
    then show ?thesis unfolding lists_hold_def using chunk by (metis (no_types, lifting) length_map nth_map)
  qed
  moreover have "length (concat ?ys) = ?ps * length pgs" using ys by (induction pgs) auto
  moreover have "header_holds (?page hp) ob"
    using fields lists q(2) by (simp add: header_holds_def OBJECT_HEADER_def)
  ultimately have "stored contents p ob (page_bytes contents p ob)"
    using obok room by (simp add: stored_def page_bytes_def fields(2,7,8))
  then show "stored contents p' ob (page_bytes contents p ob)" by (rule reads_only_stored [OF all(1)])
qed

end

section \<open>Properties\<close>

text \<open>C27: On a file that does not fail, a content that fits an object is written, and then the object is
  opened from its header page again and read back whole.\<close>

theorem object_rewrite_reads_back:
  assumes "sound_file disk contents position" and "pager_ok disk contents p" and "pg_budget p = None"
    and "object_ok (pg_page_size p) (pg_page_count p) ob"
    and "object_fits (pg_page_size p) (pg_page_count p) ob (length content)"
  shows "\<exists>ob' p1 p2 p3. object_rewrite ob content p = (Ok ob', p1)
    \<and> object_open (ob_header_page ob) p1 = (Ok ob', p2) \<and> object_read_all ob' p2 = (Ok content, p3)"
proof -
  note sound = assms(1)
  have bk: "backing_file disk contents position" using sound by (rule sound_file.axioms(1))
  obtain ob' p1 where w: "object_rewrite ob content p = (Ok ob', p1)"
    using sound_file.works_rewrite [OF sound assms(2-5)] by (auto simp: works_def)
  have "length content \<le> u64_max" using assms(5) by (simp add: object_fits_def)
  note written = backing_file.rewrite_Ok [OF bk w assms(2,4) this]
  have nb1: "pg_budget p1 = None" using written(3) assms(3) by (rule no_budget_kept)
  obtain ob2 p2 where o: "object_open (ob_header_page ob') p1 = (Ok ob2, p2)"
    using sound_file.works_open [OF sound written(1,2) nb1] by (auto simp: works_def)
  note opened = backing_file.object_open_Ok [OF bk o written(2,1)]
  have p2: "stored contents p2 ob' content" "pager_ok disk contents p2" "pg_budget p2 = None"
    using reads_only_stored [OF opened(2) written(1)] opened(2) nb1 by (simp_all add: reads_only_def changed_def)
  obtain bs p3 where r: "object_read_all ob' p2 = (Ok bs, p3)"
    using sound_file.works_read_all [OF sound p2] by (auto simp: works_def)
  have "bs = content" by (rule backing_file.read_all_Ok(1) [OF bk r p2(1,2)])
  with w o r opened(1) written(4) show ?thesis by auto
qed

text \<open>An in-memory file of five pages with an empty object at page 3.\<close>

definition sample_pager :: "(mem_file, unit) pager" where
  "sample_pager = \<lparr>pg_file = \<lparr>mem_bytes = replicate (5 * 4096) 0, mem_position = 0\<rparr>, pg_disk = mem_backing,
     pg_page_size = 4096, pg_page_count = 5, pg_header = replicate 4096 0, pg_budget = None\<rparr>"

definition sample_object :: object where
  "sample_object = \<lparr>ob_header_page = 3, ob_fat = 0, ob_counter = 7, ob_length_counter = 9, ob_len = 0,
     ob_pages = [], ob_tables = []\<rparr>"

lemma sample_pager_ok: "pager_ok mem_backing mem_bytes sample_pager" "pg_budget sample_pager = None"
  by (simp_all add: pager_ok_def sample_pager_def)

lemma sample_object_ok:
  "object_ok (pg_page_size sample_pager) (pg_page_count sample_pager) sample_object"
  "object_fits (pg_page_size sample_pager) (pg_page_count sample_pager) sample_object (length [1 :: u8, 2, 3])"
  by (simp_all add: object_ok_def object_fits_def sample_object_def sample_pager_def owned_pages_def
      div_ceil_def direct_capacity_def OBJECT_HEADER_def)

theorem object_rewrite_reads_back_witness:
  "\<exists>ob' p1 p2 p3. object_rewrite sample_object [1, 2, 3] sample_pager = (Ok ob', p1)
    \<and> object_open 3 p1 = (Ok ob', p2) \<and> object_read_all ob' p2 = (Ok [1, 2, 3], p3)"
  using object_rewrite_reads_back [OF mem.sound_file_axioms sample_pager_ok sample_object_ok]
  by (simp add: sample_object_def)

text \<open>C28: On any file, also one whose operations may fail, a rewrite that reports success has stored the
  content and changed no page outside the object: every other object with pages of its own keeps its
  content and shares no page with the rewritten one.\<close>

theorem object_rewrite_is_local:
  assumes "backing_file disk contents position" and "pager_ok disk contents p"
    and "object_ok (pg_page_size p) (pg_page_count p) ob" and "length content \<le> u64_max"
    and "object_rewrite ob content p = (Ok ob', p')"
  shows "stored contents p' ob' content
    \<and> (\<forall>n < pg_page_count p. n \<notin> set (owned_pages ob) \<longrightarrow>
         pager_page contents p' n = pager_page contents p n)
    \<and> (\<forall>other c. stored contents p other c \<and> set (owned_pages other) \<inter> set (owned_pages ob) = {} \<longrightarrow>
         stored contents p' other c \<and> set (owned_pages other) \<inter> set (owned_pages ob') = {})"
proof -
  note written = backing_file.rewrite_Ok [OF assms(1,5,2,3,4)]
  have "stored contents p' other c \<and> set (owned_pages other) \<inter> set (owned_pages ob') = {}"
    if st: "stored contents p other c" and away: "set (owned_pages other) \<inter> set (owned_pages ob) = {}" for other c
  proof -
    have "\<forall>n \<in> set (owned_pages other). n < pg_page_count p" using st by (simp add: stored_def object_ok_def)
    then have "set (owned_pages other) \<inter> set (owned_pages ob') = {}" using written(5) away by fastforce
    then show ?thesis using stored_kept [OF st written(3)] away by blast
  qed
  then show ?thesis using written(1) changed_page [OF written(3)] by blast
qed

theorem object_rewrite_is_local_witness:
  "\<exists>ob' p'. object_rewrite sample_object [1, 2, 3] sample_pager = (Ok ob', p')
    \<and> stored mem_bytes p' ob' [1, 2, 3]"
proof -
  obtain ob' p' where w: "object_rewrite sample_object [1, 2, 3] sample_pager = (Ok ob', p')"
    using mem.works_rewrite [OF sample_pager_ok sample_object_ok] by (auto simp: works_def)
  have "stored mem_bytes p' ob' [1, 2, 3]"
    using object_rewrite_is_local [OF mem.backing_file_axioms sample_pager_ok(1) sample_object_ok(1) _ w] by simp
  with w show ?thesis by blast
qed

text \<open>C29: Whatever header page is opened, an object whose pages are distinct comes with as many pages as
  its length needs, all inside the file and none of them page 0, and \<open>read_all\<close> returns the bytes of
  those pages.\<close>

theorem opened_object_is_sound:
  assumes "backing_file disk contents position" and "pager_ok disk contents p"
    and "object_open hp p = (Ok ob, p')" and "distinct (owned_pages ob)"
  shows "object_ok (pg_page_size p') (pg_page_count p') ob \<and> ob_header_page ob = hp
    \<and> (\<forall>bs p''. object_read_all ob p' = (Ok bs, p'') \<longrightarrow> bs = page_bytes contents p ob)
    \<and> (\<forall>n < pg_page_count p. pager_page contents p' n = pager_page contents p n)"
proof -
  note opened = backing_file.object_open_stored [OF assms(1,3,2,4)]
  have "pager_ok disk contents p'" using opened(2) by (simp add: reads_only_def)
  then show ?thesis
    using opened backing_file.read_all_Ok(1) [OF assms(1) _ opened(1)] reads_only_page [OF opened(2)]
    by (auto simp: stored_def)
qed

theorem opened_object_is_sound_witness:
  "\<exists>(p1 :: (mem_file, unit) pager) ob' p2. object_open 3 p1 = (Ok ob', p2) \<and> object_ok (pg_page_size p2) (pg_page_count p2) ob'
    \<and> pg_disk p1 = mem_backing"
proof -
  obtain ob' p1 where w: "object_rewrite sample_object [1, 2, 3] sample_pager = (Ok ob', p1)"
    using mem.works_rewrite [OF sample_pager_ok sample_object_ok] by (auto simp: works_def)
  note written = mem.rewrite_Ok [OF w sample_pager_ok(1) sample_object_ok(1)]
  have st: "stored mem_bytes p1 ob' [1, 2, 3]" "pager_ok mem_backing mem_bytes p1" "ob_header_page ob' = 3"
    and nb: "pg_budget p1 = None"
    using written no_budget_kept [OF written(3)] sample_pager_ok(2) by (simp_all add: sample_object_def)
  obtain ob2 p2 where o: "object_open 3 p1 = (Ok ob2, p2)"
    using mem.works_open [OF st(1,2) nb] st(3) by (auto simp: works_def)
  then have "ob2 = ob'" using mem.object_open_Ok [OF _ st(2,1)] st(3) by simp
  then have d: "distinct (owned_pages ob2)" using st(1) by (simp add: stored_def object_ok_def)
  have "object_ok (pg_page_size p2) (pg_page_count p2) ob2"
    using opened_object_is_sound [OF mem.backing_file_axioms st(2) o d] by blast
  moreover have "pg_disk p1 = mem_backing" using st(2) by (simp add: pager_ok_def)
  ultimately show ?thesis using o by blast
qed

end
