(* ===== verification/Filedb_Descr.thy ===== *)
theory Filedb_Descr
  imports Filedb_Object Filedb_Blob
begin

text \<open>
  \<open>crates/ibcmd-filedb/src/descr.rs\<close>: the table descriptions of the root object, in the platform's brace
  format.  Texts are their scalar values.  The parser's \<open>check\<close> callback is an action of the state that it
  is run in; the position it shares by \<open>&mut\<close> is passed on.
\<close>

section \<open>Values in braces\<close>

datatype brace_value = Brace_List "brace_value list" | Brace_Text ustr | Brace_Atom ustr

definition as_text :: "brace_value \<Rightarrow> ustr option" where
  "as_text v = (case v of Brace_Text t \<Rightarrow> Some t | Brace_Atom t \<Rightarrow> Some t | Brace_List _ \<Rightarrow> None)"

definition as_list :: "brace_value \<Rightarrow> brace_value list option" where
  "as_list v = (case v of Brace_List items \<Rightarrow> Some items | _ \<Rightarrow> None)"

text \<open>\<open>char::is_whitespace\<close>: the White_Space property.\<close>

definition char_whitespace :: "nat \<Rightarrow> bool" where
  "char_whitespace c \<longleftrightarrow> 0x09 \<le> c \<and> c \<le> 0x0D \<or> 0x2000 \<le> c \<and> c \<le> 0x200A
     \<or> c \<in> {0x20, 0x85, 0xA0, 0x1680, 0x2028, 0x2029, 0x202F, 0x205F, 0x3000}"

definition COMMA :: nat where "COMMA = 0x2C"
definition OPEN :: nat where "OPEN = 0x7B"
definition CLOSE :: nat where "CLOSE = 0x7D"
definition DQUOTE :: nat where "DQUOTE = 0x22"

function skip_chars :: "ustr \<Rightarrow> ('s, unit) act \<Rightarrow> nat \<Rightarrow> ('s, nat) act" where
  "skip_chars cs check pos =
     (if pos < length cs \<and> (char_whitespace (cs ! pos) \<or> cs ! pos = COMMA)
      then and_then check (\<lambda>_. skip_chars cs check (pos + 1))
      else ret pos)"
  by pat_completeness auto
termination by (relation "measure (\<lambda>(cs, check, pos). length cs - pos)") auto

declare skip_chars.simps [simp del]

text \<open>The loops of a quoted text and of an atom; \<open>chars[start..pos]\<close> is collected on the way.\<close>

function quoted_text :: "ustr \<Rightarrow> ('s, unit) act \<Rightarrow> nat \<Rightarrow> ustr \<Rightarrow> ('s, brace_value \<times> nat) act" where
  "quoted_text cs check pos out =
     and_then check (\<lambda>_.
       if pos < length cs then
         if cs ! pos = DQUOTE \<and> pos + 1 < length cs \<and> cs ! (pos + 1) = DQUOTE
         then quoted_text cs check (pos + 2) (out @ [DQUOTE])
         else if cs ! pos = DQUOTE then ret (Brace_Text out, pos + 1)
         else quoted_text cs check (pos + 1) (out @ [cs ! pos])
       else fail (corrupt (In_Descr Descr_Open_String)))"
  by pat_completeness auto
termination by (relation "measure (\<lambda>(cs, check, pos, out). length cs - pos)") auto

declare quoted_text.simps [simp del]

definition atom_char :: "nat \<Rightarrow> bool" where
  "atom_char c \<longleftrightarrow> c \<noteq> COMMA \<and> c \<noteq> CLOSE \<and> c \<noteq> OPEN \<and> \<not> char_whitespace c"

function atom_end :: "ustr \<Rightarrow> ('s, unit) act \<Rightarrow> nat \<Rightarrow> ('s, nat) act" where
  "atom_end cs check pos =
     (if pos < length cs \<and> atom_char (cs ! pos)
      then and_then check (\<lambda>_. atom_end cs check (pos + 1))
      else ret pos)"
  by pat_completeness auto
termination by (relation "measure (\<lambda>(cs, check, pos). length cs - pos)") auto

declare atom_end.simps [simp del]

text \<open>The loop over the items of a list, over the parser of one level deeper.  An item ends past its
  start (\<open>parse_value_advances\<close>), so the \<open>max\<close>, which lets the loop end for any parser, is the item's end.\<close>

lemma skip_chars_forward: "skip_chars cs check pos s = (Inr q, s') \<Longrightarrow> pos \<le> q"
proof (induction cs check pos arbitrary: s rule: skip_chars.induct)
  case (1 cs check pos)
  show ?case
  proof (cases "pos < length cs \<and> (char_whitespace (cs ! pos) \<or> cs ! pos = COMMA)")
    case True
    obtain u t where "skip_chars cs check (pos + 1) t = (Inr q, s')"
      using "1.prems" True by (subst (asm) skip_chars.simps) (auto simp: result_simps)
    then show ?thesis using "1.IH" [OF True] by fastforce
  next
    case False
    have "skip_chars cs check pos = ret pos" unfolding skip_chars.simps [of cs check pos] by (rule if_not_P [OF False])
    then show ?thesis using "1.prems" by (simp add: result_simps)
  qed
qed

function items_loop ::
  "(nat \<Rightarrow> ('s, brace_value \<times> nat) act) \<Rightarrow> ustr \<Rightarrow> ('s, unit) act \<Rightarrow> nat \<Rightarrow> brace_value list
     \<Rightarrow> ('s, brace_value \<times> nat) act" where
  "items_loop parse cs check pos items s =
     and_then (skip_chars cs check pos) (\<lambda>pos.
       if pos < length cs then
         if cs ! pos = CLOSE then ret (Brace_List items, pos + 1)
         else and_then (parse pos) (\<lambda>(v, pos').
                items_loop parse cs check (max pos' (pos + 1)) (items @ [v]))
       else fail (corrupt (In_Descr Descr_No_Brace))) s"
  by pat_completeness auto
termination
  by (relation "measure (\<lambda>(parse, cs, check, pos, items, s). length cs - pos)")
    (auto dest!: skip_chars_forward)

declare items_loop.simps [simp del]

text \<open>\<open>parse_value\<close> at depth \<open>33 - n\<close>: a depth past 32 is refused.\<close>

primrec parse_value :: "nat \<Rightarrow> ustr \<Rightarrow> ('s, unit) act \<Rightarrow> nat \<Rightarrow> ('s, brace_value \<times> nat) act" where
  "parse_value 0 cs check pos = and_then check (\<lambda>_. fail (corrupt (In_Descr Descr_Too_Deep)))"
| "parse_value (Suc n) cs check pos =
     and_then check (\<lambda>_.
     and_then (skip_chars cs check pos) (\<lambda>pos.
       if pos < length cs then
         if cs ! pos = OPEN then items_loop (parse_value n cs check) cs check (pos + 1) []
         else if cs ! pos = DQUOTE then quoted_text cs check (pos + 1) []
         else and_then (atom_end cs check pos) (\<lambda>stop.
                if stop = pos then fail (corrupt (In_Descr Descr_Empty_Value))
                else ret (Brace_Atom (slice pos stop cs), stop))
       else fail (corrupt (In_Descr Descr_Ends))))"

text \<open>\<open>parse_braces_checked\<close>: collecting the characters checks once for each.\<close>

primrec check_each :: "'a list \<Rightarrow> ('s, unit) act \<Rightarrow> ('s, unit) act" where
  "check_each [] check = ret ()"
| "check_each (x # xs) check = and_then check (\<lambda>_. check_each xs check)"

definition parse_braces :: "ustr \<Rightarrow> ('s, unit) act \<Rightarrow> ('s, brace_value) act" where
  "parse_braces txt check =
     and_then check (\<lambda>_. and_then (check_each txt check) (\<lambda>_.
       and_then (parse_value 33 txt check 0) (\<lambda>(v, _). ret v)))"

section \<open>Fields and tables\<close>

datatype field_kind =
    Kind_Binary | Kind_Bool | Kind_Numeric | Kind_Fixed_String | Kind_Var_String | Kind_Row_Version
  | Kind_Text | Kind_Image | Kind_Date_Time

record table_field =
  fd_name :: ustr
  fd_kind :: field_kind
  fd_nullable :: bool
  fd_length :: nat
  fd_precision :: nat
  fd_case_insensitive :: bool

definition field_size :: "table_field \<Rightarrow> nat" where
  "field_size f =
     (case fd_kind f of
        Kind_Binary \<Rightarrow> fd_length f
      | Kind_Bool \<Rightarrow> 1
      | Kind_Numeric \<Rightarrow> (fd_length f + 2) div 2
      | Kind_Fixed_String \<Rightarrow> fd_length f * 2
      | Kind_Var_String \<Rightarrow> fd_length f * 2 + 2
      | Kind_Row_Version \<Rightarrow> 16
      | Kind_Text \<Rightarrow> 8
      | Kind_Image \<Rightarrow> 8
      | Kind_Date_Time \<Rightarrow> 7) + (if fd_nullable f then 1 else 0)"

record table =
  tb_name :: ustr
  tb_fields :: "table_field list"
  tb_index_names :: "ustr list"
  tb_records_page :: nat
  tb_blob_page :: nat
  tb_index_page :: nat

definition record_size :: "table \<Rightarrow> nat" where
  "record_size t = max (1 + sum_list (map field_size (tb_fields t))) 5"

text \<open>\<open>str::parse::<u32>\<close>: an optional \<open>+\<close> and decimal digits within range.\<close>

definition parse_u32 :: "ustr \<Rightarrow> nat option" where
  "parse_u32 t =
     (let ds = (case t of c # cs \<Rightarrow> if c = 0x2B then cs else t | [] \<Rightarrow> []) in
      if ds = [] \<or> (\<exists>d \<in> set ds. d < 0x30 \<or> 0x39 < d) then None
      else
        let n = foldl (\<lambda>v d. 10 * v + (d - 0x30)) 0 ds in
        if n \<le> u32_max then Some n else None)"

definition ascii :: "char list \<Rightarrow> ustr" where
  "ascii s = map of_char s"

definition kind_code :: "ustr \<Rightarrow> field_kind option" where
  "kind_code t =
     map_of [(ascii ''B'', Kind_Binary), (ascii ''L'', Kind_Bool), (ascii ''N'', Kind_Numeric),
       (ascii ''NC'', Kind_Fixed_String), (ascii ''NVC'', Kind_Var_String), (ascii ''RV'', Kind_Row_Version),
       (ascii ''NT'', Kind_Text), (ascii ''I'', Kind_Image), (ascii ''DT'', Kind_Date_Time)] t"

definition parse_field :: "ustr \<Rightarrow> brace_value \<Rightarrow> db_error + table_field" where
  "parse_field tab v =
     (let bad = corrupt (In_Descr (Descr_Field tab));
          number_of_item = (\<lambda>item. try_res (ok_or (as_text item) bad) (\<lambda>t. ok_or (parse_u32 t) bad)) in
      try_res (ok_or (as_list v) bad) (\<lambda>items.
        if length items < 6 then Err bad
        else
          try_res (ok_or (as_text (items ! 1)) bad) (\<lambda>code.
          try_res (ok_or (kind_code code) (corrupt (In_Descr (Descr_Field_Kind tab code)))) (\<lambda>kind.
          try_res (ok_or (as_text (items ! 0)) bad) (\<lambda>field_name.
          try_res (number_of_item (items ! 2)) (\<lambda>nullable.
          try_res (number_of_item (items ! 3)) (\<lambda>len.
          try_res (number_of_item (items ! 4)) (\<lambda>precision.
          try_res (ok_or (as_text (items ! 5)) bad) (\<lambda>ci.
            Ok \<lparr>fd_name = field_name, fd_kind = kind, fd_nullable = (nullable \<noteq> 0), fd_length = len,
                fd_precision = precision, fd_case_insensitive = (ci = ascii ''CI'')\<rparr>)))))))))"

fun parse_fields :: "ustr \<Rightarrow> brace_value list \<Rightarrow> table_field list \<Rightarrow> db_error + table_field list" where
  "parse_fields tab [] out = Ok out"
| "parse_fields tab (v # vs) out = try_res (parse_field tab v) (\<lambda>f. parse_fields tab vs (out @ [f]))"

text \<open>The names of the indexes; an entry that is not a list with a name first is skipped.\<close>

definition index_names_of :: "brace_value list \<Rightarrow> ustr list" where
  "index_names_of vs =
     List.map_filter (\<lambda>v. case as_list v of Some (x # _) \<Rightarrow> as_text x | _ \<Rightarrow> None) vs"

definition files_numbers :: "ustr \<Rightarrow> brace_value list \<Rightarrow> db_error + nat \<times> nat \<times> nat" where
  "files_numbers tab vs =
     (let ns = map (\<lambda>v. case as_text v of Some t \<Rightarrow> parse_u32 t | None \<Rightarrow> None) vs in
      if None \<in> set ns then Err (corrupt (In_Descr (Descr_Files tab)))
      else
        (case map the ns of
           [a, b, c] \<Rightarrow> Ok (a, b, c)
         | _ \<Rightarrow> Err (corrupt (In_Descr (Descr_Files_Count tab)))))"

text \<open>The loop over the parts of a description.\<close>

type_synonym table_parts = "table_field list \<times> ustr list \<times> (nat \<times> nat \<times> nat) option"

definition table_part :: "ustr \<Rightarrow> brace_value \<Rightarrow> table_parts \<Rightarrow> db_error + table_parts" where
  "table_part tab part st =
     (case st of (fs, ixs, files) \<Rightarrow>
        (case as_list part of
           Some (x # rest) \<Rightarrow>
             (case as_text x of
                Some tag \<Rightarrow>
                  if tag = ascii ''Fields'' then
                    try_res (parse_fields tab rest fs) (\<lambda>fs. Ok (fs, ixs, files))
                  else if tag = ascii ''Indexes'' then Ok (fs, ixs @ index_names_of rest, files)
                  else if tag = ascii ''Files'' then
                    try_res (files_numbers tab rest) (\<lambda>ns. Ok (fs, ixs, Some ns))
                  else Ok st
              | None \<Rightarrow> Ok st)
         | _ \<Rightarrow> Ok st))"

primrec table_loop :: "ustr \<Rightarrow> brace_value list \<Rightarrow> ('s, unit) act \<Rightarrow> table_parts \<Rightarrow> ('s, table_parts) act" where
  "table_loop tab [] check st = ret st"
| "table_loop tab (part # parts) check st =
     and_then check (\<lambda>_.
       case table_part tab part st of
         Inl e \<Rightarrow> fail e
       | Inr st' \<Rightarrow> table_loop tab parts check st')"

definition parse_table :: "ustr \<Rightarrow> ('s, unit) act \<Rightarrow> ('s, table) act" where
  "parse_table txt check =
     and_then (parse_braces txt check) (\<lambda>value.
       case as_list value of
         None \<Rightarrow> fail (corrupt (In_Descr Descr_Not_List))
       | Some items \<Rightarrow>
           (case (case items of [] \<Rightarrow> None | x # _ \<Rightarrow> as_text x) of
              None \<Rightarrow> fail (corrupt (In_Descr Descr_No_Name))
            | Some tab \<Rightarrow>
                and_then (table_loop tab (drop 2 items) check ([], [], None)) (\<lambda>(fs, ixs, files).
                  case files of
                    None \<Rightarrow> fail (corrupt (In_Descr (Descr_No_Files tab)))
                  | Some (a, b, c) \<Rightarrow>
                      ret \<lparr>tb_name = tab, tb_fields = fs, tb_index_names = ixs, tb_records_page = a,
                           tb_blob_page = b, tb_index_page = c\<rparr>)))"

section \<open>The root object\<close>

text \<open>One step of decoding UTF-8: a scalar value, or an ill-formed part, with its length.\<close>

definition cont :: "u8 \<Rightarrow> bool" where "cont b \<longleftrightarrow> 0x80 \<le> b \<and> b \<le> 0xBF"

definition second_ok :: "u8 \<Rightarrow> u8 \<Rightarrow> bool" where
  "second_ok a b \<longleftrightarrow>
     (if a = 0xE0 then 0xA0 \<le> b \<and> b \<le> 0xBF else if a = 0xED then 0x80 \<le> b \<and> b \<le> 0x9F
      else if a = 0xF0 then 0x90 \<le> b \<and> b \<le> 0xBF else if a = 0xF4 then 0x80 \<le> b \<and> b \<le> 0x8F
      else cont b)"

definition low :: "nat \<Rightarrow> u8 \<Rightarrow> nat" where "low n b = unat b mod 2 ^ n"

definition utf8_step :: "bytes \<Rightarrow> nat option \<times> nat" where
  "utf8_step bs =
     (let a = bs ! 0; at = (\<lambda>i p. i < length bs \<and> p (bs ! i)) in
      if a < 0x80 then (Some (unat a), 1)
      else if 0xC2 \<le> a \<and> a \<le> 0xDF then
        (if at 1 cont then (Some (low 5 a * 64 + low 6 (bs ! 1)), 2) else (None, 1))
      else if 0xE0 \<le> a \<and> a \<le> 0xEF then
        (if \<not> at 1 (second_ok a) then (None, 1)
         else if \<not> at 2 cont then (None, 2)
         else (Some (low 4 a * 4096 + low 6 (bs ! 1) * 64 + low 6 (bs ! 2)), 3))
      else if 0xF0 \<le> a \<and> a \<le> 0xF4 then
        (if \<not> at 1 (second_ok a) then (None, 1)
         else if \<not> at 2 cont then (None, 2)
         else if \<not> at 3 cont then (None, 3)
         else (Some (low 3 a * 262144 + low 6 (bs ! 1) * 4096 + low 6 (bs ! 2) * 64 + low 6 (bs ! 3)), 4))
      else (None, 1))"

lemma utf8_step_length: "0 < snd (utf8_step bs)"
  by (simp add: utf8_step_def Let_def)

function utf8_parts :: "bytes \<Rightarrow> nat option list" where
  "utf8_parts bs = (if bs = [] then [] else case utf8_step bs of (c, n) \<Rightarrow> c # utf8_parts (drop n bs))"
  by pat_completeness auto
termination
proof (relation "measure length", goal_cases)
  case (2 bs c n)
  then show ?case using utf8_step_length [of bs] by (cases bs) (auto simp: prod_eq_iff)
qed simp

declare utf8_parts.simps [simp del]

definition from_utf8 :: "bytes \<Rightarrow> ustr option" where
  "from_utf8 bs = (if None \<in> set (utf8_parts bs) then None else Some (map the (utf8_parts bs)))"

definition from_utf8_lossy :: "bytes \<Rightarrow> ustr" where
  "from_utf8_lossy bs = map (\<lambda>c. case c of None \<Rightarrow> 0xFFFD | Some v \<Rightarrow> v) (utf8_parts bs)"

definition trim_zeros :: "ustr \<Rightarrow> ustr" where
  "trim_zeros t = rev (dropWhile (\<lambda>c. c = 0) (rev t))"

text \<open>\<open>read_metadata_chain\<close>: \<open>copied\<close> is part of the callback's state.\<close>

definition metadata_copy :: "bool \<Rightarrow> (('f, 'e) pager \<times> nat) before_copy" where
  "metadata_copy bounded st n =
     (case st of (p, copied) \<Rightarrow>
        (case checked_add64 copied n of
           None \<Rightarrow> (Err (corrupt (In_Descr Metadata_Overflow)), st)
         | Some copied' \<Rightarrow>
             if bounded \<and> copied' > 1024 * 1024 then (Err (corrupt (In_Descr Metadata_Too_Large)), (p, copied'))
             else (case materialize_object n p of (r, p') \<Rightarrow> (r, (p', copied')))))"

definition read_metadata_chain :: "bytes \<Rightarrow> u32 \<Rightarrow> ('f, 'e, bytes) pager_act" where
  "read_metadata_chain object start p =
     (case read_chain_accounted object start None (metadata_copy (read_is_bounded p)) (p, 0) of
        (r, (p', _)) \<Rightarrow> (r, p'))"

text \<open>\<open>BTreeMap::insert\<close> on a map from names.\<close>

type_synonym tables = "ustr \<rightharpoonup> table"

primrec tables_loop :: "bytes \<Rightarrow> bytes \<Rightarrow> nat list \<Rightarrow> tables \<Rightarrow> ('f, 'e, tables) pager_act" where
  "tables_loop object head [] tabs = ret tabs"
| "tables_loop object head (i # is) tabs =
     and_then (materialize_record 0) (\<lambda>_.
     and_then (read_metadata_chain object (from_le_bytes (slice (36 + i * 4) (40 + i * 4) head)))
       (\<lambda>text_bytes.
          case from_utf8 text_bytes of
            None \<Rightarrow> fail (corrupt (In_Descr Descr_Not_Utf8))
          | Some txt \<Rightarrow>
              and_then (parse_table txt check_read) (\<lambda>t.
                tables_loop object head is (tabs(tb_name t \<mapsto> t)))))"

text \<open>On a 64-bit target the count of a \<open>u32\<close> cannot overflow \<open>usize\<close>: \<open>table count overflow\<close> is not reached.\<close>

definition descr_read_tables :: "('f, 'e, ustr \<times> tables) pager_act" where
  "descr_read_tables =
     and_then (object_open 2) (\<lambda>root.
     and_then (object_read_all root) (\<lambda>object.
     and_then (read_metadata_chain object 1) (\<lambda>head.
       if length head < 36 then fail (corrupt (In_Descr Root_Short))
       else
         let locale_name = trim_zeros (from_utf8_lossy (take 32 head));
             count = unat (from_le_bytes (slice 32 36 head) :: u32) in
         if length head < count * 4 + 36 then fail (corrupt (In_Descr Root_Tables_End))
         else and_then (tables_loop object head [0..<count] (\<lambda>_. None)) (\<lambda>tabs. ret (locale_name, tabs)))))"

end
