(* ===== verification/Filedb_Index_Key.thy ===== *)
theory Filedb_Index_Key
  imports Filedb_Record "HOL-Library.List_Lexorder"
begin

text \<open>
  \<open>Collation\<close> and \<open>config_key\<close> of \<open>crates/ibcmd-filedb/src/index.rs\<close>: the 392-byte key of a row is the
  primary weights of its file name, \<open>01\<close>, a compressed secondary weight, \<open>00\<close> and the packed part number.
  Two rows have one key exactly when their part numbers agree and their names agree under the collation.
\<close>

definition MAX_KEY_NAME :: nat where "MAX_KEY_NAME = 43"
definition CONFIG_KEY_LEN :: nat where "CONFIG_KEY_LEN = 392"

section \<open>Collations\<close>

datatype collation = Posix | Russian

definition posix_locale :: ustr where
  "posix_locale = [0x65, 0x6E, 0x5F, 0x55, 0x53, 0x5F, 0x50, 0x4F, 0x53, 0x49, 0x58]"

definition russian_locale :: ustr where
  "russian_locale = [0x72, 0x75, 0x5F, 0x52, 0x55]"

definition collation_for_locale :: "ustr \<Rightarrow> collation option" where
  "collation_for_locale locale =
     (if locale = posix_locale then Some Posix
      else if locale = russian_locale then Some Russian else None)"

definition collation_locale :: "collation \<Rightarrow> ustr" where
  "collation_locale c = (case c of Posix \<Rightarrow> posix_locale | Russian \<Rightarrow> russian_locale)"

definition ascii_digit :: "nat \<Rightarrow> bool" where "ascii_digit c \<longleftrightarrow> 0x30 \<le> c \<and> c \<le> 0x39"
definition ascii_lower :: "nat \<Rightarrow> bool" where "ascii_lower c \<longleftrightarrow> 0x61 \<le> c \<and> c \<le> 0x7A"
definition ascii_upper :: "nat \<Rightarrow> bool" where "ascii_upper c \<longleftrightarrow> 0x41 \<le> c \<and> c \<le> 0x5A"

definition to_ascii_lowercase :: "nat \<Rightarrow> nat" where
  "to_ascii_lowercase c = (if ascii_upper c then c + 0x20 else c)"

definition verified_char :: "nat \<Rightarrow> bool" where
  "verified_char c \<longleftrightarrow> ascii_digit c \<or> ascii_lower c \<or> ascii_upper c
     \<or> c = 0x2D \<or> c = 0x2E \<or> c = 0x2F \<or> c = 0x5F"

text \<open>The weight bytes a character adds to the key, \<open>None\<close> for a refused one.\<close>

definition push_primary :: "collation \<Rightarrow> nat \<Rightarrow> bytes \<Rightarrow> bytes option" where
  "push_primary coll c key =
     (if \<not> verified_char c then None
      else case coll of
        Posix \<Rightarrow>
          let key = key @ [0x28] in
          if 0x21 \<le> c \<and> c < 0x5B then Some (key @ [of_nat (c - 0x1C)])
          else Some (key @ [0x3F, of_nat (c - 0x57)])
      | Russian \<Rightarrow>
          if ascii_digit c then Some (key @ [0x12 + 2 * of_nat (c - 0x30)])
          else if ascii_lower c \<or> ascii_upper c
          then Some (key @ [0x27 + 2 * of_nat (to_ascii_lowercase c - 0x61)])
          else if c = 0x2D then Some (key @ [0x06, 0x10])
          else if c = 0x5F then Some (key @ [0x06, 0x0C])
          else if c = 0x2E then Some (key @ [0x09])
          else if c = 0x2F then Some (key @ [0x0B, 0x67])
          else None)"

text \<open>The loop over the characters.\<close>

fun push_name :: "collation \<Rightarrow> ustr \<Rightarrow> bytes \<Rightarrow> db_error + bytes" where
  "push_name coll [] key = Ok key"
| "push_name coll (c # cs) key =
     (case push_primary coll c key of
        None \<Rightarrow> Err (Db_Refused (In_Index (Key_Name_Character c)))
      | Some key \<Rightarrow> push_name coll cs key)"

definition resize :: "nat \<Rightarrow> bytes \<Rightarrow> bytes" where
  "resize n bs = take n bs @ replicate (n - length bs) 0"

definition config_key :: "collation \<Rightarrow> ustr \<Rightarrow> nat \<Rightarrow> db_error + bytes" where
  "config_key coll file_name part_no =
     (let count = length file_name in
      if count = 0 \<or> count > MAX_KEY_NAME then Err (Db_Refused (In_Index (Key_Name_Length count)))
      else
        try_res (push_name coll file_name []) (\<lambda>key.
          Ok (resize CONFIG_KEY_LEN (key @ [0x01] @ [0x04 + of_nat count] @ [0x00] @ pack_decimal part_no 10))))"

section \<open>Weights\<close>

text \<open>The name as the collation compares it.\<close>

definition fold_char :: "collation \<Rightarrow> nat \<Rightarrow> nat" where
  "fold_char coll c = (case coll of Posix \<Rightarrow> c | Russian \<Rightarrow> to_ascii_lowercase c)"

definition weight :: "collation \<Rightarrow> nat \<Rightarrow> bytes" where
  "weight coll c = the (push_primary coll c [])"

lemma push_primary_weight:
  "push_primary coll c key = (if verified_char c then Some (key @ weight coll c) else None)"
  by (cases coll) (auto simp: push_primary_def weight_def verified_char_def Let_def)

lemma push_name_Ok:
  "push_name coll cs key =
     (if \<forall>c \<in> set cs. verified_char c then Ok (key @ concat (map (weight coll) cs))
      else Err (Db_Refused (In_Index (Key_Name_Character (hd (dropWhile verified_char cs))))))"
  by (induction cs arbitrary: key) (auto simp: push_primary_weight)

text \<open>The first character of a string of weights, and what follows its weight.\<close>

definition unweight :: "collation \<Rightarrow> bytes \<Rightarrow> nat \<times> bytes" where
  "unweight coll bs =
     (case coll of
        Posix \<Rightarrow> if bs ! 1 = 0x3F then (unat (bs ! 2) + 0x57, drop 3 bs) else (unat (bs ! 1) + 0x1C, drop 2 bs)
      | Russian \<Rightarrow>
          if bs ! 0 = 0x06 then (if bs ! 1 = 0x10 then 0x2D else 0x5F, drop 2 bs)
          else if bs ! 0 = 0x09 then (0x2E, drop 1 bs)
          else if bs ! 0 = 0x0B then (0x2F, drop 2 bs)
          else if bs ! 0 < 0x27 then ((unat (bs ! 0) - 0x12) div 2 + 0x30, drop 1 bs)
          else ((unat (bs ! 0) - 0x27) div 2 + 0x61, drop 1 bs))"

lemma unat_u8_of_nat: "n < 256 \<Longrightarrow> unat (of_nat n :: u8) = n"
  by (simp add: unsigned_of_nat take_bit_eq_mod)

lemma u8_eq_iff: "(a :: u8) = b \<longleftrightarrow> unat a = unat b"
  by (simp add: word_unat_eq_iff)

lemma russian_letter_byte:
  "n < 26 \<Longrightarrow> unat (0x27 + 2 * of_nat n :: u8) = 0x27 + 2 * n"
  "n < 10 \<Longrightarrow> unat (0x12 + 2 * of_nat n :: u8) = 0x12 + 2 * n"
proof -
  have "0x27 + 2 * of_nat n = (of_nat (0x27 + 2 * n) :: u8)" "0x12 + 2 * of_nat n = (of_nat (0x12 + 2 * n) :: u8)"
    by simp_all
  then show "n < 26 \<Longrightarrow> unat (0x27 + 2 * of_nat n :: u8) = 0x27 + 2 * n"
    "n < 10 \<Longrightarrow> unat (0x12 + 2 * of_nat n :: u8) = 0x12 + 2 * n"
    by (simp_all only: unat_u8_of_nat)
qed

lemma unweight_letter:
  assumes "n < 26"
  shows "unweight Russian ((0x27 + 2 * of_nat n) # x) = (n + 0x61, x)"
proof -
  define b :: u8 where "b = 0x27 + 2 * of_nat n"
  have b: "unat b = 0x27 + 2 * n" unfolding b_def using assms by (intro russian_letter_byte)
  then have "unat b \<noteq> 6" "unat b \<noteq> 9" "unat b \<noteq> 0x0B" "\<not> unat b < 0x27" using assms by auto
  then have "b \<noteq> 6" "b \<noteq> 9" "b \<noteq> 0x0B" "\<not> b < 0x27" by (auto simp: word_less_nat_alt)
  then show ?thesis unfolding b_def [symmetric] by (simp add: unweight_def b)
qed

lemma unweight_weight:
  assumes "verified_char c"
  shows "unweight coll (weight coll c @ x) = (fold_char coll c, x)"
proof (cases coll)
  case Posix
  show ?thesis
    using assms
    by (auto simp: Posix weight_def push_primary_def unweight_def fold_char_def Let_def verified_char_def
        ascii_digit_def ascii_lower_def ascii_upper_def u8_eq_iff unat_u8_of_nat simp del: of_nat_diff)
next
  case Russian
  note defs = weight_def push_primary_def unweight_def fold_char_def to_ascii_lowercase_def Russian
  consider "ascii_digit c" | "ascii_lower c" | "ascii_upper c" | "c = 0x2D" | "c = 0x2E" | "c = 0x2F" | "c = 0x5F"
    using assms by (auto simp: verified_char_def)
  then show ?thesis
  proof cases
    case 1
    have c: "0x30 \<le> c" "c \<le> 0x39" using 1 by (simp_all add: ascii_digit_def)
    define b :: u8 where "b = 0x12 + 2 * of_nat (c - 0x30)"
    have w: "weight coll c = [b]" using 1 assms by (simp add: defs b_def)
    have b: "unat b = 0x12 + 2 * (c - 0x30)" unfolding b_def by (rule russian_letter_byte) (use c in linarith)
    then have "unat b \<noteq> 6" "unat b \<noteq> 9" "unat b \<noteq> 0x0B" "unat b < 0x27" using c by auto
    then have "b \<noteq> 6" "b \<noteq> 9" "b \<noteq> 0x0B" "b < 0x27" by (auto simp: word_less_nat_alt)
    then show ?thesis
      unfolding w using 1 by (simp add: unweight_def Russian b fold_char_def to_ascii_lowercase_def ascii_digit_def ascii_upper_def)
  next
    case 2
    then have small: "c - 0x61 < 26" by (auto simp: ascii_lower_def ascii_upper_def)
    have "weight coll c = [0x27 + 2 * of_nat (c - 0x61)]"
      using 2 assms by (simp add: defs ascii_digit_def ascii_lower_def ascii_upper_def del: of_nat_diff)
    then show ?thesis
      using 2 unweight_letter [OF small, of x]
      by (simp add: Russian fold_char_def to_ascii_lowercase_def ascii_lower_def ascii_upper_def del: of_nat_diff)
  next
    case 3
    then have small: "c - 0x41 < 26" by (auto simp: ascii_lower_def ascii_upper_def)
    have "weight coll c = [0x27 + 2 * of_nat (c - 0x41)]"
      using 3 assms by (simp add: defs ascii_digit_def ascii_lower_def ascii_upper_def del: of_nat_diff)
    then show ?thesis
      using 3 unweight_letter [OF small, of x]
      by (simp add: Russian fold_char_def to_ascii_lowercase_def ascii_lower_def ascii_upper_def del: of_nat_diff)
  qed (simp_all add: defs verified_char_def ascii_digit_def ascii_lower_def ascii_upper_def)
qed

lemma weight_starts:
  assumes "verified_char c"
  shows "weight coll c \<noteq> [] \<and> 0x01 < hd (weight coll c) \<and> length (weight coll c) \<le> 3"
proof (cases coll)
  case Posix
  then show ?thesis using assms by (simp add: weight_def push_primary_def Let_def)
next
  case Russian
  then show ?thesis
    using assms
    by (auto simp: weight_def push_primary_def verified_char_def to_ascii_lowercase_def
        ascii_digit_def ascii_lower_def ascii_upper_def word_less_nat_alt russian_letter_byte simp del: of_nat_diff)
qed

lemma weights_same:
  "\<forall>c \<in> set xs. verified_char c \<Longrightarrow> \<forall>c \<in> set ys. verified_char c \<Longrightarrow>
   concat (map (weight coll) xs) @ 0x01 # r = concat (map (weight coll) ys) @ 0x01 # s \<Longrightarrow>
     map (fold_char coll) xs = map (fold_char coll) ys \<and> r = s"
proof (induction xs arbitrary: ys)
  case Nil
  show ?case
  proof (cases ys)
    case (Cons y ys')
    then show ?thesis using Nil weight_starts [of y coll] by (cases "weight coll y") auto
  qed (use Nil in simp)
next
  case (Cons x xs)
  show ?case
  proof (cases ys)
    case Nil
    then show ?thesis using Cons.prems weight_starts [of x coll] by (cases "weight coll x") auto
  next
    case (Cons y ys')
    have v: "verified_char x" "verified_char y" using Cons.prems Cons by simp_all
    have "weight coll x @ (concat (map (weight coll) xs) @ 0x01 # r) = weight coll y @ (concat (map (weight coll) ys') @ 0x01 # s)"
      using Cons.prems(3) Cons by simp
    then have "(fold_char coll x, concat (map (weight coll) xs) @ 0x01 # r)
        = (fold_char coll y, concat (map (weight coll) ys') @ 0x01 # s)"
      using unweight_weight [OF v(1)] unweight_weight [OF v(2)] by metis
    then show ?thesis using Cons.IH [of ys'] Cons.prems Cons by simp
  qed
qed

lemma weight_fold: "verified_char c \<Longrightarrow> verified_char d \<Longrightarrow> fold_char coll c = fold_char coll d \<Longrightarrow> weight coll c = weight coll d"
  by (cases coll)
    (auto simp: fold_char_def weight_def push_primary_def verified_char_def to_ascii_lowercase_def
      ascii_digit_def ascii_lower_def ascii_upper_def split: if_splits)

lemma weights_fold:
  "\<forall>c \<in> set xs. verified_char c \<Longrightarrow> \<forall>c \<in> set ys. verified_char c \<Longrightarrow>
   map (fold_char coll) xs = map (fold_char coll) ys \<Longrightarrow> map (weight coll) xs = map (weight coll) ys"
proof (induction xs arbitrary: ys)
  case (Cons x xs)
  then show ?case by (cases ys) (auto intro: weight_fold)
qed simp

lemma weights_length: "\<forall>c \<in> set xs. verified_char c \<Longrightarrow> length (concat (map (weight coll) xs)) \<le> 3 * length xs"
proof (induction xs)
  case (Cons x xs)
  then have "length (weight coll x) \<le> 3" using weight_starts [of x coll] by simp
  then show ?case using Cons by simp
qed simp

section \<open>Keys\<close>

lemma config_key_Ok:
  assumes "config_key coll name part = Ok key" and "part \<le> u32_max"
  shows "\<forall>c \<in> set name. verified_char c" and "0 < length name" and "length name \<le> 43"
    and "key = concat (map (weight coll) name) @ 0x01 # (0x04 + of_nat (length name)) # 0x00 # pack_decimal part 10
      @ replicate (392 - (length (concat (map (weight coll) name)) + 9)) 0"
    and "length key = 392"
proof -
  show n: "0 < length name" "length name \<le> 43"
    using assms(1) by (auto simp: config_key_def MAX_KEY_NAME_def Let_def split: if_splits)
  show v: "\<forall>c \<in> set name. verified_char c"
    using assms(1) by (simp add: config_key_def Let_def push_name_Ok split: if_splits)
  have len: "length (concat (map (weight coll) name)) \<le> 129"
    using weights_length [OF v, of coll] n by linarith
  have dec: "length (pack_decimal part 10) = 6"
    using pack_unpack_decimal(2) [of 10 part] assms(2) by simp
  have "key = resize CONFIG_KEY_LEN (concat (map (weight coll) name) @ [0x01] @ [0x04 + of_nat (length name)] @ [0x00] @ pack_decimal part 10)"
    using assms(1) n v by (simp add: config_key_def MAX_KEY_NAME_def Let_def push_name_Ok)
  then show "key = concat (map (weight coll) name) @ 0x01 # (0x04 + of_nat (length name)) # 0x00 # pack_decimal part 10
      @ replicate (392 - (length (concat (map (weight coll) name)) + 9)) 0" and "length key = 392"
    using len dec by (simp_all add: resize_def CONFIG_KEY_LEN_def)
qed

lemma pack_decimal_inj:
  assumes "m \<le> u32_max" and "n \<le> u32_max" and "pack_decimal m 10 = pack_decimal n 10"
  shows "m = n"
proof -
  have "m < 10 ^ 10" "n < 10 ^ 10" "m \<le> u64_max" "n \<le> u64_max" using assms(1,2) by simp_all
  then have "unpack_decimal (pack_decimal m 10) 10 = Ok m" "unpack_decimal (pack_decimal n 10) 10 = Ok n"
    by (simp_all only: pack_unpack_decimal(1) zero_less_numeral)
  then show ?thesis unfolding assms(3) by simp
qed

lemma config_keys_same:
  assumes a: "config_key coll xs p = Ok k" and b: "config_key coll ys q = Ok l" and small: "p \<le> u32_max" "q \<le> u32_max"
  shows "k = l \<longleftrightarrow> map (fold_char coll) xs = map (fold_char coll) ys \<and> p = q"
proof
  note x = config_key_Ok [OF a small(1)] and y = config_key_Ok [OF b small(2)]
  assume same: "k = l"
  have "concat (map (weight coll) xs) @ 0x01 # (0x04 + of_nat (length xs)) # 0x00 # pack_decimal p 10
        @ replicate (392 - (length (concat (map (weight coll) xs)) + 9)) 0
      = concat (map (weight coll) ys) @ 0x01 # (0x04 + of_nat (length ys)) # 0x00 # pack_decimal q 10
        @ replicate (392 - (length (concat (map (weight coll) ys)) + 9)) 0"
    by (rule trans [OF x(4) [symmetric] trans [OF same y(4)]])
  note both = weights_same [OF x(1) y(1) this]
  then have "map (fold_char coll) xs = map (fold_char coll) ys
      \<and> (0x04 + of_nat (length xs)) # 0x00 # pack_decimal p 10 @ replicate (392 - (length (concat (map (weight coll) xs)) + 9)) 0
      = (0x04 + of_nat (length ys)) # 0x00 # pack_decimal q 10 @ replicate (392 - (length (concat (map (weight coll) ys)) + 9)) 0"
    by blast
  moreover from this have "pack_decimal p 10 = pack_decimal q 10"
    using pack_unpack_decimal(2) [of 10 p] pack_unpack_decimal(2) [of 10 q] small by simp
  ultimately show "map (fold_char coll) xs = map (fold_char coll) ys \<and> p = q"
    using pack_decimal_inj small by blast
next
  note x = config_key_Ok [OF a small(1)] and y = config_key_Ok [OF b small(2)]
  assume same: "map (fold_char coll) xs = map (fold_char coll) ys \<and> p = q"
  then have "map (weight coll) xs = map (weight coll) ys" using weights_fold [OF x(1) y(1)] by blast
  moreover have "length xs = length ys" using same by (metis length_map)
  ultimately show "k = l" unfolding x(4) y(4) using same by simp
qed

section \<open>The order of keys\<close>

lemma posix_weight:
  assumes "verified_char c"
  shows "c < 0x5B \<Longrightarrow> \<exists>b. weight Posix c = [0x28, b] \<and> unat b = c - 0x1C"
    and "0x5B \<le> c \<Longrightarrow> \<exists>b. weight Posix c = [0x28, 0x3F, b] \<and> unat b = c - 0x57"
proof -
  show "\<exists>b. weight Posix c = [0x28, b] \<and> unat b = c - 0x1C" if "c < 0x5B"
  proof (intro exI conjI)
    show "weight Posix c = [0x28, of_nat (c - 0x1C)]"
      using assms that by (simp add: weight_def push_primary_def Let_def verified_char_def ascii_digit_def
          ascii_lower_def ascii_upper_def del: of_nat_diff) linarith
    show "unat (of_nat (c - 0x1C) :: u8) = c - 0x1C" by (rule unat_u8_of_nat) (use that in linarith)
  qed
  show "\<exists>b. weight Posix c = [0x28, 0x3F, b] \<and> unat b = c - 0x57" if "0x5B \<le> c"
  proof (intro exI conjI)
    show "weight Posix c = [0x28, 0x3F, of_nat (c - 0x57)]"
      using assms that by (simp add: weight_def push_primary_def Let_def del: of_nat_diff)
    show "unat (of_nat (c - 0x57) :: u8) = c - 0x57"
      using assms by (intro unat_u8_of_nat) (auto simp: verified_char_def ascii_digit_def ascii_lower_def ascii_upper_def)
  qed
qed

lemma posix_weight_less:
  assumes v: "verified_char c" "verified_char d" and less: "c < d"
  shows "weight Posix c @ x < weight Posix d @ y"
proof (cases "0x5B \<le> c")
  case True
  obtain a b where "weight Posix c = [0x28, 0x3F, a]" "unat a = c - 0x57" "weight Posix d = [0x28, 0x3F, b]" "unat b = d - 0x57"
    using posix_weight(2) [OF v(1) True] posix_weight(2) [OF v(2)] True less by (meson less_imp_le order_trans)
  moreover have "c - 0x57 < d - 0x57" using True less by linarith
  ultimately show ?thesis by (simp add: word_less_nat_alt)
next
  case False
  then obtain a where a: "weight Posix c = [0x28, a]" "unat a = c - 0x1C" using posix_weight(1) [OF v(1)] by auto
  have c: "0x1C < c" using v(1) by (auto simp: verified_char_def ascii_digit_def ascii_lower_def ascii_upper_def)
  show ?thesis
  proof (cases "0x5B \<le> d")
    case True
    then obtain b where "weight Posix d = [0x28, 0x3F, b]" using posix_weight(2) [OF v(2)] by auto
    moreover have "unat a < 0x3F" using a(2) False by linarith
    ultimately show ?thesis by (simp add: a(1) word_less_nat_alt)
  next
    case False
    then obtain b where "weight Posix d = [0x28, b]" "unat b = d - 0x1C" using posix_weight(1) [OF v(2)] by auto
    moreover have "c - 0x1C < d - 0x1C" using c less by linarith
    ultimately show ?thesis by (simp add: a word_less_nat_alt)
  qed
qed

lemma less_after: "x < y \<Longrightarrow> w @ x < w @ (y :: 'a :: order list)"
  by (induction w) simp_all

lemma posix_weights_less:
  "\<forall>c \<in> set xs. verified_char c \<Longrightarrow> \<forall>c \<in> set ys. verified_char c \<Longrightarrow> xs < ys \<Longrightarrow>
     concat (map (weight Posix) xs) @ 0x01 # r < concat (map (weight Posix) ys) @ 0x01 # s"
proof (induction xs arbitrary: ys)
  case Nil
  then obtain y ys' where ys: "ys = y # ys'" by (cases ys) auto
  then obtain b bs where w: "weight Posix y = b # bs" using weight_starts [of y Posix] Nil by (cases "weight Posix y") auto
  have "0x01 < b" using weight_starts [of y Posix] Nil ys w by simp
  then show ?case by (simp add: ys w)
next
  case (Cons x xs)
  then obtain y ys' where ys: "ys = y # ys'" by (cases ys) auto
  have v: "verified_char x" "verified_char y" using Cons.prems ys by simp_all
  show ?case
  proof (cases "x < y")
    case True
    then show ?thesis using posix_weight_less [OF v True] by (simp add: ys)
  next
    case False
    then have same: "x = y" "xs < ys'" using Cons.prems(3) ys by auto
    then have "concat (map (weight Posix) xs) @ 0x01 # r < concat (map (weight Posix) ys') @ 0x01 # s"
      using Cons.IH [of ys'] Cons.prems(1,2) ys by simp
    then have "weight Posix x @ (concat (map (weight Posix) xs) @ 0x01 # r) < weight Posix x @ (concat (map (weight Posix) ys') @ 0x01 # s)"
      by (rule less_after)
    then show ?thesis by (simp add: ys same)
  qed
qed

section \<open>Properties\<close>

text \<open>C31: Two rows get one index key exactly when their part numbers agree and their names agree under the
  collation - letter for letter in \<open>en_US_POSIX\<close>, without the case of Latin letters in \<open>ru_RU\<close> - so a
  sound index holds one entry per row.\<close>

theorem config_keys_identify_rows:
  assumes "config_key coll xs p = Ok k" and "config_key coll ys q = Ok l" and "p \<le> u32_max" and "q \<le> u32_max"
  shows "length k = 392 \<and> (k = l \<longleftrightarrow> map (fold_char coll) xs = map (fold_char coll) ys \<and> p = q)"
  using config_keys_same [OF assms] config_key_Ok(5) [OF assms(1,3)] by blast

text \<open>Under \<open>en_US_POSIX\<close> the keys of rows with different names are ordered as the names are by code
  points, whatever the part numbers.\<close>

theorem posix_keys_follow_names:
  assumes "config_key Posix xs p = Ok k" and "config_key Posix ys q = Ok l" and "p \<le> u32_max" and "q \<le> u32_max"
    and "xs \<noteq> ys"
  shows "k < l \<longleftrightarrow> xs < ys"
proof -
  note x = config_key_Ok [OF assms(1,3)] and y = config_key_Ok [OF assms(2,4)]
  have less: "xs < ys \<Longrightarrow> k < l" by (subst x(4), subst y(4)) (rule posix_weights_less [OF x(1) y(1)])
  have more: "ys < xs \<Longrightarrow> l < k" by (subst x(4), subst y(4)) (rule posix_weights_less [OF y(1) x(1)])
  show ?thesis using less more assms(5) by (metis less_asym neqE)
qed

lemma config_key_succeeds:
  "0 < length xs \<Longrightarrow> length xs \<le> 43 \<Longrightarrow> \<forall>c \<in> set xs. verified_char c \<Longrightarrow> \<exists>k. config_key coll xs p = Ok k"
  by (simp add: config_key_def MAX_KEY_NAME_def push_name_Ok Let_def)

theorem config_keys_identify_rows_witness:
  "\<exists>k l. config_key Russian [0x61, 0x2E] 7 = Ok k \<and> config_key Russian [0x41, 0x2E] 7 = Ok l \<and> k = l \<and> length k = 392"
proof -
  obtain k where k: "config_key Russian [0x61, 0x2E] 7 = Ok k"
    using config_key_succeeds [of "[0x61, 0x2E]" Russian 7] by (auto simp: verified_char_def ascii_lower_def)
  obtain l where l: "config_key Russian [0x41, 0x2E] 7 = Ok l"
    using config_key_succeeds [of "[0x41, 0x2E]" Russian 7] by (auto simp: verified_char_def ascii_upper_def)
  show ?thesis
    using config_keys_identify_rows [OF k l] k l by (auto simp: fold_char_def to_ascii_lowercase_def ascii_upper_def)
qed

theorem posix_keys_follow_names_witness:
  "\<exists>k l. config_key Posix [0x61] 7 = Ok k \<and> config_key Posix [0x61, 0x2D] 2 = Ok l \<and> k < l"
proof -
  obtain k where k: "config_key Posix [0x61] 7 = Ok k"
    using config_key_succeeds [of "[0x61]" Posix 7] by (auto simp: verified_char_def ascii_lower_def)
  obtain l where l: "config_key Posix [0x61, 0x2D] 2 = Ok l"
    using config_key_succeeds [of "[0x61, 0x2D]" Posix 2] by (auto simp: verified_char_def ascii_lower_def)
  show ?thesis using posix_keys_follow_names [OF k l] k l by simp
qed

end
