(* ===== verification/Filedb_Index.thy ===== *)
theory Filedb_Index
  imports Filedb_State Filedb_Blob Filedb_Index_Key
begin

text \<open>
  \<open>crates/ibcmd-filedb/src/index.rs\<close>: B-trees of fixed-length keys.  A leaf packs each key as what it
  shares with the one before, what it stores and its trailing zeros; a branch lists the last key under
  each child.  \<open>rebuild\<close> writes a tree bottom-up over the pages of the old object, and
  \<open>read_entries_checked\<close> walks one with an explicit stack.  Keys are compared as byte strings, the order
  that \<open>List_Lexorder\<close> gives lists of bytes.
\<close>

definition LEAF_HEADER :: nat where "LEAF_HEADER = 30"
definition BRANCH_HEADER :: nat where "BRANCH_HEADER = 12"
definition NO_PAGE :: nat where "NO_PAGE = 0xFFFFFFFF"
definition FLAG_ROOT :: nat where "FLAG_ROOT = 1"
definition FLAG_LEAF :: nat where "FLAG_LEAF = 2"
definition REC_BITS :: nat where "REC_BITS = 32"
definition LEFT_BITS :: nat where "LEFT_BITS = 16"
definition RIGHT_BITS :: nat where "RIGHT_BITS = 16"
definition ENTRY_BYTES :: nat where "ENTRY_BYTES = 8"

text \<open>\<open>u16\<close> and \<open>u32\<close> numbers at a place of a page, little- and big-endian.\<close>

definition u16_at :: "bytes \<Rightarrow> nat \<Rightarrow> nat" where
  "u16_at p at = unat (from_le_bytes (slice at (at + 2) p) :: u16)"

definition u32_at :: "bytes \<Rightarrow> nat \<Rightarrow> nat" where
  "u32_at p at = unat (from_le_bytes (slice at (at + 4) p) :: u32)"

definition be32 :: "nat \<Rightarrow> bytes" where
  "be32 n = rev (le32 n)"

definition be32_at :: "bytes \<Rightarrow> nat \<Rightarrow> nat" where
  "be32_at p at = unat (from_le_bytes (rev (slice at (at + 4) p)) :: u32)"

type_synonym index_entry = "nat \<times> bytes"

section \<open>Reading\<close>

text \<open>The descriptor: the root page and the key length.\<close>

definition index_descriptor :: "bytes \<Rightarrow> nat \<Rightarrow> db_error + nat \<times> nat" where
  "index_descriptor object ps =
     (if length object < 2 * ps \<or> length object mod ps \<noteq> 0 then Err (corrupt (In_Index Index_Short))
      else
        let desc_page = u32_at object 4 in
        if desc_page = 0 \<or> desc_page \<ge> length object div ps then Err (corrupt (In_Index Index_No_Descriptor))
        else
          let at = desc_page * ps; root = u32_at object at; key_len = u16_at object (at + 4) in
          if key_len = 0 \<or> key_len > ps div 4 then Err (corrupt (In_Index (Index_Key_Length key_len)))
          else Ok (root, key_len))"

record leaf_layout =
  rec_mask :: u64
  left_mask :: u64
  right_mask :: u64
  rec_bits :: nat
  left_bits :: nat
  entry_bytes :: nat

text \<open>The loop over the entries of a leaf, from number \<open>k\<close>; \<open>end\<close> is where the key bytes read so far
  begin.\<close>

primrec leaf_loop ::
  "bytes \<Rightarrow> nat \<Rightarrow> nat \<Rightarrow> leaf_layout \<Rightarrow> (nat \<Rightarrow> ('s, unit) act) \<Rightarrow> nat list \<Rightarrow> nat \<Rightarrow> bytes
     \<Rightarrow> index_entry list \<Rightarrow> ('s, index_entry list) act" where
  "leaf_loop p key_len count l check [] end prev out = ret out"
| "leaf_loop p key_len count l check (k # ks) end prev out =
     and_then (check key_len) (\<lambda>_.
       let raw = slice (LEAF_HEADER + k * entry_bytes l) (LEAF_HEADER + (k + 1) * entry_bytes l) p
                 @ replicate (8 - entry_bytes l) 0;
           v = from_le_bytes raw :: u64;
           rec = unat (v AND rec_mask l) mod 2 ^ 32;
           left = unat (drop_bit (rec_bits l) v AND left_mask l);
           right = unat (drop_bit (rec_bits l + left_bits l) v AND right_mask l) in
       if left + right > key_len then fail (corrupt (In_Index Index_Compression))
       else
         let stored = key_len - left - right in
         if end < LEAF_HEADER + count * entry_bytes l + stored then fail (corrupt (In_Index Index_Keys_Overlap))
         else
           let at = end - stored;
               key = take left prev @ slice at (at + stored) p @ replicate (key_len - (left + stored)) 0 in
           leaf_loop p key_len count l check ks at key (out @ [(rec, key)]))"

definition read_leaf ::
  "bytes \<Rightarrow> nat \<Rightarrow> nat \<Rightarrow> index_entry list \<Rightarrow> (nat \<Rightarrow> ('s, unit) act) \<Rightarrow> ('s, index_entry list) act" where
  "read_leaf p key_len count out check =
     (let l = \<lparr>rec_mask = from_le_bytes (slice 14 18 p), left_mask = of_nat (u16_at p 18),
               right_mask = of_nat (u16_at p 20), rec_bits = u16_at p 22, left_bits = u16_at p 24,
               entry_bytes = u16_at p 28\<rparr>;
          right_bits = u16_at p 26; entry = entry_bytes l in
      if entry = 0 \<or> entry > 8 \<or> rec_bits l > 32 \<or> left_bits l > 16 \<or> right_bits > 16
         \<or> rec_bits l + left_bits l + right_bits > entry * 8
      then fail (corrupt (In_Index Index_Leaf_Header))
      else if LEAF_HEADER + count * entry > length p then fail (corrupt (In_Index Index_Leaf_Full))
      else leaf_loop p key_len count l check [0..<count] (length p) (replicate key_len 0) out)"

text \<open>The walk: the children of a branch are pushed from right to left, so the first is popped next.\<close>

function index_walk ::
  "bytes \<Rightarrow> nat \<Rightarrow> nat \<Rightarrow> (nat \<Rightarrow> ('s, unit) act) \<Rightarrow> nat \<Rightarrow> (nat \<times> nat) list \<Rightarrow> index_entry list
     \<Rightarrow> ('s, index_entry list) act" where
  "index_walk object ps key_len check visited [] out = ret out"
| "index_walk object ps key_len check visited ((page, depth) # stack) out =
     and_then (check 0) (\<lambda>_.
       let pgs = length object div ps in
       if page \<ge> pgs \<or> visited + 1 > pgs \<or> depth > 16 then fail (corrupt (In_Index Index_Outside))
       else
         let p = slice (page * ps) ((page + 1) * ps) object; flags = u16_at p 0; count = u16_at p 2 in
         if flags AND FLAG_LEAF \<noteq> 0
         then and_then (read_leaf p key_len count out check)
                (index_walk object ps key_len check (visited + 1) stack)
         else
           let entry = key_len + 8 in
           if BRANCH_HEADER + count * entry > ps then fail (corrupt (In_Index Index_Branch_Full))
           else
             index_walk object ps key_len check (visited + 1)
               (map (\<lambda>k. (be32_at p (BRANCH_HEADER + k * entry + key_len + 4), depth + 1)) [0..<count] @ stack)
               out)"
  by pat_completeness auto
termination
  by (relation "measure (\<lambda>(object, ps, key_len, check, visited, stack, out).
        (length object div ps + 1 - visited) + (if stack = [] then 0 else 1))") auto

declare index_walk.simps(2) [simp del]

definition read_entries_checked ::
  "bytes \<Rightarrow> nat \<Rightarrow> (nat \<Rightarrow> ('s, unit) act) \<Rightarrow> ('s, index_entry list) act" where
  "read_entries_checked object ps check s =
     (case index_descriptor object ps of
        Inl e \<Rightarrow> (Err e, s)
      | Inr (root, key_len) \<Rightarrow> index_walk object ps key_len check 0 [(root, 0)] [] s)"

section \<open>Leaves\<close>

text \<open>A leaf entry being written: record, key, \<open>left\<close> and \<open>right\<close>.\<close>

type_synonym leaf_entry = "nat \<times> bytes \<times> nat \<times> nat"

definition common_prefix :: "bytes \<Rightarrow> bytes \<Rightarrow> nat" where
  "common_prefix a b = length (takeWhile (\<lambda>(x, y). x = y) (zip a b))"

definition trailing_zeros :: "bytes \<Rightarrow> nat" where
  "trailing_zeros key = length (takeWhile (\<lambda>b. b = 0) (rev key))"

text \<open>The loop that fills leaves: the leaves done, the current one, its free bytes, and the previous key
  with its trailing zeros.  The subtractions from \<open>free\<close> do not pass 0: a leaf's budget is larger than
  one entry on every page size.\<close>

type_synonym leaf_state = "leaf_entry list list \<times> leaf_entry list \<times> nat \<times> (bytes \<times> nat) option"

definition leaf_step :: "nat \<Rightarrow> nat \<Rightarrow> leaf_state \<Rightarrow> index_entry \<Rightarrow> leaf_state" where
  "leaf_step key_len budget st entry =
     (case st of (leaves, current, free, prev) \<Rightarrow> case entry of (rec, key) \<Rightarrow>
        let left = (case prev of None \<Rightarrow> 0 | Some (p, p_right) \<Rightarrow> min (common_prefix p key) (key_len - p_right));
            right = min (trailing_zeros key) (key_len - left);
            need = ENTRY_BYTES + (key_len - left - right) in
        if need > free \<and> current \<noteq> []
        then
          let right = trailing_zeros key in
          (leaves @ [current], [(rec, key, 0, right)], budget - (ENTRY_BYTES + (key_len - right)), Some (key, right))
        else (leaves, current @ [(rec, key, left, right)], free - need, Some (key, right)))"

definition fill_leaves :: "nat \<Rightarrow> nat \<Rightarrow> index_entry list \<Rightarrow> leaf_entry list list" where
  "fill_leaves key_len budget es =
     (case foldl (leaf_step key_len budget) ([], [], budget, None) es of
        (leaves, current, _, _) \<Rightarrow> leaves @ [current])"

text \<open>The loop over the entries of a leaf page.\<close>

fun put_entries :: "nat \<Rightarrow> nat \<Rightarrow> nat \<Rightarrow> leaf_entry list \<Rightarrow> bytes \<Rightarrow> nat \<times> bytes" where
  "put_entries key_len k end [] p = (end, p)"
| "put_entries key_len k end ((rec, key, left, right) # es) p =
     (let v = of_nat rec OR push_bit REC_BITS (of_nat left) OR push_bit (REC_BITS + LEFT_BITS) (of_nat right) :: u64;
          at = LEAF_HEADER + k * ENTRY_BYTES;
          p1 = put at (to_le_bytes 8 v) p;
          stored = slice left (key_len - right) key;
          end' = end - length stored in
      put_entries key_len (k + 1) end' es (put end' stored p1))"

definition leaf_page :: "nat \<Rightarrow> nat \<Rightarrow> nat \<Rightarrow> nat \<Rightarrow> nat \<Rightarrow> leaf_entry list \<Rightarrow> bytes" where
  "leaf_page ps key_len flags prev next_page es =
     (let header = le16 flags @ le16 (length es) @ le32 prev @ le32 next_page @ [0, 0]
            @ le32 u32_max @ le16 65535 @ le16 65535
            @ le16 REC_BITS @ le16 LEFT_BITS @ le16 RIGHT_BITS @ le16 ENTRY_BYTES;
          p0 = put 0 header (replicate ps 0) in
      (case put_entries key_len 0 ps es p0 of
         (end, p) \<Rightarrow>
           let free = end - (LEAF_HEADER + length es * ENTRY_BYTES) in
           put 12 (le16 free) p))"

section \<open>Rebuilding\<close>

text \<open>The page allocator: the pool (its next page first) and the next new page.\<close>

type_synonym index_pool = "nat list \<times> nat"

fun index_alloc :: "index_pool \<Rightarrow> nat \<times> index_pool" where
  "index_alloc ([], next_new) = (next_new, ([], next_new + 1))"
| "index_alloc (n # pool, next_new) = (n, (pool, next_new))"

fun index_alloc_many :: "nat \<Rightarrow> index_pool \<Rightarrow> nat list \<times> index_pool" where
  "index_alloc_many 0 st = ([], st)"
| "index_alloc_many (Suc k) st =
     (case index_alloc st of
        (n, st') \<Rightarrow> (case index_alloc_many k st' of (ns, st'') \<Rightarrow> (n # ns, st'')))"

definition previous_page :: "nat list \<Rightarrow> nat \<Rightarrow> nat" where
  "previous_page numbers i = (if i = 0 then NO_PAGE else numbers ! (i - 1))"

definition following_page :: "nat list \<Rightarrow> nat \<Rightarrow> nat" where
  "following_page numbers i = (if i + 1 = length numbers then NO_PAGE else numbers ! (i + 1))"

text \<open>A node of a level: its page, and the record and key of the last entry below it.\<close>

type_synonym level_node = "nat \<times> nat \<times> bytes"

definition leaf_nodes :: "nat list \<Rightarrow> leaf_entry list list \<Rightarrow> level_node list" where
  "leaf_nodes numbers leaves =
     concat (map (\<lambda>(n, leaf).
       if leaf = [] then [] else (case last leaf of (rec, key, _, _) \<Rightarrow> [(n, rec, key)]))
       (zip numbers leaves))"

definition leaf_pages :: "nat \<Rightarrow> nat \<Rightarrow> nat list \<Rightarrow> leaf_entry list list \<Rightarrow> (nat \<times> bytes) list" where
  "leaf_pages ps key_len numbers leaves =
     map (\<lambda>i. (numbers ! i,
        leaf_page ps key_len (if length leaves = 1 then FLAG_LEAF + FLAG_ROOT else FLAG_LEAF)
          (previous_page numbers i) (following_page numbers i) (leaves ! i)))
       [0..<length leaves]"

fun put_children :: "nat \<Rightarrow> nat \<Rightarrow> level_node list \<Rightarrow> bytes \<Rightarrow> bytes" where
  "put_children key_len k [] p = p"
| "put_children key_len k ((child, rec, key) # grp) p =
     (let at = BRANCH_HEADER + k * (key_len + 8) in
      put_children key_len (k + 1) grp (put at (key @ be32 rec @ be32 child) p))"

definition branch_page :: "nat \<Rightarrow> nat \<Rightarrow> nat \<Rightarrow> nat \<Rightarrow> nat \<Rightarrow> level_node list \<Rightarrow> bytes" where
  "branch_page ps key_len flags prev next_page grp =
     put_children key_len 0 grp
       (put 0 (le16 flags @ le16 (length grp) @ le32 prev @ le32 next_page) (replicate ps 0))"

definition branch_pages :: "nat \<Rightarrow> nat \<Rightarrow> nat list \<Rightarrow> level_node list list \<Rightarrow> (nat \<times> bytes) list" where
  "branch_pages ps key_len numbers groups =
     map (\<lambda>i. (numbers ! i,
        branch_page ps key_len (if length groups = 1 then FLAG_ROOT else 0)
          (previous_page numbers i) (following_page numbers i) (groups ! i)))
       [0..<length groups]"

definition upper_nodes :: "nat list \<Rightarrow> level_node list list \<Rightarrow> level_node list" where
  "upper_nodes numbers groups = map (\<lambda>(n, grp). (n, snd (last grp))) (zip numbers groups)"

text \<open>The loop over the levels; \<open>per_branch\<close> is at least 2.\<close>

function build_levels ::
  "nat \<Rightarrow> nat \<Rightarrow> nat \<Rightarrow> level_node list \<Rightarrow> nat \<Rightarrow> (nat \<times> bytes) list \<Rightarrow> index_pool
     \<Rightarrow> nat \<times> (nat \<times> bytes) list \<times> index_pool" where
  "build_levels ps key_len per_branch level root pgs st =
     (if length level > 1 \<and> per_branch \<ge> 2 then
        let groups = chunks per_branch level in
        (case index_alloc_many (length groups) st of
           (numbers, st') \<Rightarrow>
             build_levels ps key_len per_branch (upper_nodes numbers groups) (numbers ! 0)
               (pgs @ branch_pages ps key_len numbers groups) st')
      else (root, pgs, st))"
  by pat_completeness auto
termination
proof (relation "measure (\<lambda>(ps, key_len, per_branch, level, root, pgs, st). length level)", goal_cases)
  case (2 ps key_len per_branch level)
  have "length (upper_nodes numbers (chunks per_branch level)) \<le> length (chunks per_branch level)" for numbers
    by (simp add: upper_nodes_def)
  also have "length (chunks per_branch level) = (length level + (per_branch - 1)) div per_branch"
    using 2 by (simp add: length_chunks)
  also have "\<dots> < length level"
    using 2 by (simp add: div_less_iff_less_mult) (cases per_branch; auto)
  finally show ?case using 2 by simp
qed simp

declare build_levels.simps [simp del]

fun put_pages :: "nat \<Rightarrow> (nat \<times> bytes) list \<Rightarrow> bytes \<Rightarrow> bytes" where
  "put_pages ps [] out = out"
| "put_pages ps ((n, content) # pgs) out = put_pages ps pgs (put (n * ps) content out)"

text \<open>The chain of free pages: each is zeroed and names the one after it.\<close>

fun chain_free :: "nat \<Rightarrow> nat list \<Rightarrow> bytes \<Rightarrow> bytes" where
  "chain_free ps [] out = out"
| "chain_free ps (n # ns) out =
     chain_free ps ns (put (n * ps) (le32 (case ns of [] \<Rightarrow> 0 | m # _ \<Rightarrow> m))
       (put (n * ps) (replicate ps 0) out))"

definition index_rebuild :: "bytes \<Rightarrow> nat \<Rightarrow> index_entry list \<Rightarrow> db_error + bytes" where
  "index_rebuild old ps es0 =
     try_res (index_descriptor old ps) (\<lambda>(_, key_len).
       if key_len \<noteq> CONFIG_KEY_LEN then Err (Db_Refused (In_Index (Index_Other_Key key_len)))
       else if u32_at old 8 \<noteq> 0 then Err (Db_Refused (In_Index Index_Several))
       else
         let desc_page = u32_at old 4; es = sort_key snd es0 in
         if \<not> distinct_adj (map snd es) then Err (Db_Refused (In_Index Index_Duplicate_Key))
         else
           let budget = (ps - LEAF_HEADER) div 2;
               leaves = fill_leaves key_len budget es;
               old_pages = length old div ps;
               pool = filter (\<lambda>n. n \<noteq> desc_page) [1..<old_pages] in
           (case index_alloc_many (length leaves) (pool, old_pages) of
              (leaf_numbers, st) \<Rightarrow>
                let per_branch = max ((ps - BRANCH_HEADER) div (key_len + 8) div 2 + 1) 2 in
                (case build_levels ps key_len per_branch (leaf_nodes leaf_numbers leaves) (leaf_numbers ! 0)
                        (leaf_pages ps key_len leaf_numbers leaves) st of
                   (root, pgs, (rest, next_new)) \<Rightarrow>
                     let tot = max next_new old_pages;
                         out0 = put 0 (take ps old) (replicate (tot * ps) 0);
                         out1 = put (desc_page * ps) (slice (desc_page * ps) ((desc_page + 1) * ps) old) out0;
                         out2 = put (desc_page * ps) (le32 root) out1;
                         out3 = put_pages ps pgs out2;
                         free_pages = sort rest;
                         out4 = put 0 (le32 (case free_pages of [] \<Rightarrow> 0 | n # _ \<Rightarrow> n)) out3 in
                     Ok (chain_free ps free_pages out4))))"

end
