(* ===== verification/Filedb_Config.thy ===== *)
theory Filedb_Config
  imports Filedb_Descr Filedb_Index Filedb_Record
begin

text \<open>
  \<open>crates/ibcmd-filedb/src/config.rs\<close>: the tables of the CONFIG family.  A record of 301 bytes holds a free
  flag and the fields of \<open>LAYOUT\<close>; record 0 and the free records form a chain.
\<close>

section \<open>Rows and the layout\<close>

record config_row =
  cr_file_name :: ustr
  cr_part_no :: nat
  cr_creation :: bytes
  cr_modified :: bytes
  cr_attributes :: nat
  cr_data_size :: nat
  cr_binary :: bytes

definition LAYOUT :: "(ustr \<times> field_kind \<times> nat) list" where
  "LAYOUT = [(ascii ''FILENAME'', Kind_Var_String, 128), (ascii ''CREATION'', Kind_Date_Time, 0),
     (ascii ''MODIFIED'', Kind_Date_Time, 0), (ascii ''ATTRIBUTES'', Kind_Numeric, 5),
     (ascii ''DATASIZE'', Kind_Numeric, 20), (ascii ''BINARYDATA'', Kind_Image, 0),
     (ascii ''PARTNO'', Kind_Numeric, 10)]"

definition field_as_laid :: "table_field \<Rightarrow> ustr \<times> field_kind \<times> nat \<Rightarrow> bool" where
  "field_as_laid f l =
     (case l of (field_name, kind, len) \<Rightarrow>
        fd_name f = field_name \<and> fd_kind f = kind \<and> fd_length f = len \<and> fd_precision f = 0
        \<and> \<not> fd_nullable f \<and> fd_case_insensitive f = (field_name = ascii ''FILENAME''))"

definition check_layout :: "table \<Rightarrow> db_error + unit" where
  "check_layout t =
     (let same = length (tb_fields t) = length LAYOUT
            \<and> list_all (\<lambda>(f, l). field_as_laid f l) (zip (tb_fields t) LAYOUT) in
      if \<not> same then Err (Db_Refused (In_Config (Table_Layout (tb_name t))))
      else if tb_records_page t = 0 \<or> tb_blob_page t = 0 \<or> tb_index_page t = 0
      then Err (corrupt (In_Config (Table_No_Object (tb_name t))))
      else Ok ())"

definition NAME :: nat where "NAME = 1"
definition CREATION :: nat where "CREATION = NAME + 258"
definition MODIFIED :: nat where "MODIFIED = CREATION + 7"
definition ATTRIBUTES :: nat where "ATTRIBUTES = MODIFIED + 7"
definition DATASIZE :: nat where "DATASIZE = ATTRIBUTES + 3"
definition BINARY :: nat where "BINARY = DATASIZE + 11"
definition PARTNO :: nat where "PARTNO = BINARY + 8"
definition RECORD :: nat where "RECORD = PARTNO + 6"

text \<open>An error as the whole of an action, and an action of a result.\<close>

definition of_result :: "db_error + 'a \<Rightarrow> ('s, 'a) act" where
  "of_result r s = (r, s)"

text \<open>\<open>blank_record\<close>: an empty name fits its field, so the \<open>expect\<close> cannot fail.\<close>

definition blank_record :: bytes where
  "blank_record =
     (let r = replicate RECORD 0;
          r1 = (case encode_var_string [] 128 (slice NAME CREATION r) of Inl _ \<Rightarrow> r | Inr s \<Rightarrow> put NAME s r);
          r2 = put ATTRIBUTES (pack_decimal 0 5) r1;
          r3 = put DATASIZE (pack_decimal 0 20) r2 in
      put PARTNO (pack_decimal 0 10) r3)"

section \<open>Reading\<close>

record raw_record =
  rr_number :: nat
  rr_row :: config_row

text \<open>A chain is read with the pager's check before each copy; the blob object is in memory.\<close>

definition row_binary ::
  "table \<Rightarrow> bool \<Rightarrow> bytes \<Rightarrow> ustr \<Rightarrow> u32 \<Rightarrow> u32 \<Rightarrow> nat \<Rightarrow> ('f, 'e, bytes \<times> nat) pager_act" where
  "row_binary t with_binary blob_object file_name block len remaining =
     (if with_binary \<and> block \<noteq> 0 then
        (case checked_sub remaining (unat len) of
           None \<Rightarrow> fail (Db_Refused (In_Config (Binary_Over_Budget (tb_name t))))
         | Some remaining' \<Rightarrow>
             and_then (read_chain_checked blob_object block (Some (unat len)) check_read)
               (\<lambda>binary. ret (binary, remaining')))
      else if with_binary \<and> len \<noteq> 0 then fail (corrupt (In_Config (Row_No_Block file_name (unat len))))
      else ret ([], remaining))"

text \<open>The last fields of a record.\<close>

definition row_of_record :: "bytes \<Rightarrow> ustr \<Rightarrow> bytes \<Rightarrow> db_error + config_row" where
  "row_of_record rec file_name binary =
     try_res (unpack_decimal (slice PARTNO RECORD rec) 10) (\<lambda>part.
       if part > u32_max then Err (corrupt (In_Config (Row_Part_No file_name)))
       else
         try_res (unpack_decimal (slice ATTRIBUTES DATASIZE rec) 5) (\<lambda>attributes.
         try_res (unpack_decimal (slice DATASIZE BINARY rec) 20) (\<lambda>data_size.
           Ok \<lparr>cr_file_name = file_name, cr_part_no = part, cr_creation = slice CREATION MODIFIED rec,
               cr_modified = slice MODIFIED ATTRIBUTES rec, cr_attributes = attributes mod 2 ^ 32,
               cr_data_size = data_size, cr_binary = binary\<rparr>)))"

definition read_live_record ::
  "table \<Rightarrow> bool \<Rightarrow> bytes \<Rightarrow> bytes \<Rightarrow> nat \<Rightarrow> ('f, 'e, config_row \<times> nat) pager_act" where
  "read_live_record t with_binary blob_object rec remaining =
     and_then (of_result (decode_var_string (slice NAME CREATION rec) 128)) (\<lambda>file_name.
       let block = from_le_bytes (slice BINARY (BINARY + 4) rec) :: u32;
           len = from_le_bytes (slice (BINARY + 4) (BINARY + 8) rec) :: u32 in
       and_then (materialize_record (if with_binary then unat len else 0)) (\<lambda>_.
       and_then (row_binary t with_binary blob_object file_name block len remaining) (\<lambda>(binary, remaining').
       and_then (of_result (row_of_record rec file_name binary)) (\<lambda>row. ret (row, remaining')))))"

primrec records_loop ::
  "table \<Rightarrow> bool \<Rightarrow> bytes \<Rightarrow> (nat \<times> bytes) list \<Rightarrow> nat \<Rightarrow> raw_record list \<Rightarrow> ('f, 'e, raw_record list) pager_act" where
  "records_loop t with_binary blob_object [] remaining out = ret out"
| "records_loop t with_binary blob_object (nr # rest) remaining out =
     and_then check_read (\<lambda>_.
       if hd (snd nr) = 0 then
         and_then (read_live_record t with_binary blob_object (snd nr) remaining) (\<lambda>(row, remaining').
           records_loop t with_binary blob_object rest remaining'
             (out @ [\<lparr>rr_number = fst nr mod 2 ^ 32, rr_row = row\<rparr>]))
       else if hd (snd nr) = 1 then records_loop t with_binary blob_object rest remaining out
       else fail (corrupt (In_Config (Record_Flag (tb_name t) (fst nr) (hd (snd nr))))))"

definition read_records_bounded :: "table \<Rightarrow> bool \<Rightarrow> nat \<Rightarrow> ('f, 'e, raw_record list) pager_act" where
  "read_records_bounded t with_binary max_retained_bytes =
     and_then (of_result (check_layout t)) (\<lambda>_.
     and_then (object_open (tb_records_page t)) (\<lambda>records_object.
     and_then (object_read_all records_object) (\<lambda>records.
       if length records mod RECORD \<noteq> 0
       then fail (corrupt (In_Config (Records_Length (tb_name t) (length records))))
       else
         and_then (if with_binary then and_then (object_open (tb_blob_page t)) object_read_all else ret [])
           (\<lambda>blob_object.
              records_loop t with_binary blob_object (drop 1 (enumerate 0 (chunks_exact RECORD records)))
                max_retained_bytes []))))"

definition read_records :: "table \<Rightarrow> bool \<Rightarrow> ('f, 'e, raw_record list) pager_act" where
  "read_records t with_binary = read_records_bounded t with_binary u64_max"

section \<open>Replacing\<close>

text \<open>\<open>str::to_lowercase\<close> as far as the keys of \<open>seen\<close> tell: \<open>config_key\<close> accepts ASCII names only, so a
  row's lowered name is compared with lowered ASCII names.  The one character beyond ASCII whose lower
  case is ASCII is the Kelvin sign; any other keeps the name apart from every ASCII one.\<close>

definition lower_char :: "nat \<Rightarrow> nat" where
  "lower_char c = (if c = 0x212A then 0x6B else to_ascii_lowercase c)"

definition to_lowercase :: "ustr \<Rightarrow> ustr" where
  "to_lowercase s = map lower_char s"

text \<open>The loop over the rows: the names seen and the keys.\<close>

fun row_keys ::
  "collation \<Rightarrow> config_row list \<Rightarrow> (ustr \<times> nat) list \<Rightarrow> bytes list \<Rightarrow> db_error + bytes list" where
  "row_keys coll [] met keys = Ok keys"
| "row_keys coll (row # rows) met keys =
     (let entry = (to_lowercase (cr_file_name row), cr_part_no row) in
      if entry \<in> set met then Err (Db_Refused (In_Config (Row_Twice (cr_file_name row) (cr_part_no row))))
      else
        try_res (config_key coll (cr_file_name row) (cr_part_no row)) (\<lambda>key.
          if cr_attributes row > 99999 then Err (Db_Refused (In_Config (Row_Attributes (cr_file_name row))))
          else row_keys coll rows (entry # met) (keys @ [key])))"

text \<open>One row into its record.\<close>

definition fill_record :: "config_row \<Rightarrow> u32 \<times> u32 \<Rightarrow> bytes \<Rightarrow> db_error + bytes" where
  "fill_record row ref r =
     try_res (encode_var_string (cr_file_name row) 128 (slice NAME CREATION r)) (\<lambda>named.
       let r1 = put NAME named r;
           r2 = put CREATION (cr_creation row) r1;
           r3 = put MODIFIED (cr_modified row) r2;
           r4 = put ATTRIBUTES (pack_decimal (cr_attributes row) 5) r3;
           r5 = put DATASIZE (pack_decimal (cr_data_size row) 20) r4;
           r6 = put BINARY (to_le_bytes 4 (fst ref)) r5;
           r7 = put (BINARY + 4) (to_le_bytes 4 (snd ref)) r6 in
       Ok (put PARTNO (pack_decimal (cr_part_no row) 10) r7))"

fun fill_records :: "nat \<Rightarrow> (config_row \<times> u32 \<times> u32) list \<Rightarrow> bytes \<Rightarrow> db_error + bytes" where
  "fill_records i [] records = Ok records"
| "fill_records i ((row, ref) # rest) records =
     try_res (fill_record row ref (slice ((i + 1) * RECORD) ((i + 2) * RECORD) records)) (\<lambda>r.
       fill_records (i + 1) rest (put ((i + 1) * RECORD) r records))"

text \<open>The loop over the free tail.\<close>

fun link_records :: "nat list \<Rightarrow> nat \<Rightarrow> bytes \<Rightarrow> bytes" where
  "link_records [] tot records = records"
| "link_records (n # ns) tot records =
     link_records ns tot
       (put (n * RECORD + 1) (le32 (if n + 1 < tot then n + 1 else 0)) (put (n * RECORD) [1] records))"

definition replaced_records :: "config_row list \<Rightarrow> (u32 \<times> u32) list \<Rightarrow> nat \<Rightarrow> db_error + bytes" where
  "replaced_records rows refs old_records =
     (let tot = max (length rows + 1) old_records in
      try_res (fill_records 0 (zip rows refs) (concat (replicate tot blank_record))) (\<lambda>records.
        let first_free = (if length rows + 1 < tot then length rows + 1 else 0) in
        Ok (link_records [length rows + 1..<tot] tot (put 1 (le32 first_free) (put 0 [1] records)))))"

definition config_replace :: "table \<Rightarrow> config_row list \<Rightarrow> collation \<Rightarrow> ('f, 'e, nat set) pager_act" where
  "config_replace t rows coll =
     and_then (of_result (check_layout t)) (\<lambda>_.
     and_then (object_open (tb_records_page t)) (\<lambda>records_object.
     and_then (object_open (tb_blob_page t)) (\<lambda>blob_object.
     and_then (object_open (tb_index_page t)) (\<lambda>index_object.
     and_then (object_read_all index_object) (\<lambda>old_index.
     and_then (of_result (row_keys coll rows [] [])) (\<lambda>keys.
     and_then (of_result (build (map cr_binary rows) (ob_len blob_object div BLOCK))) (\<lambda>(blob_content, refs).
     and_then (of_result (replaced_records rows refs (ob_len records_object div RECORD))) (\<lambda>records.
     and_then (\<lambda>p. of_result (index_rebuild old_index (pg_page_size p)
         (map (\<lambda>(i, key). ((i mod 2 ^ 32 + 1) mod 2 ^ 32, key)) (enumerate 0 keys))) p) (\<lambda>index_content.
     and_then (object_rewrite records_object records) (\<lambda>records_object.
     and_then (object_rewrite blob_object blob_content) (\<lambda>blob_object.
     and_then (object_rewrite index_object index_content) (\<lambda>index_object.
     and_then flush_header (\<lambda>_.
       ret (set (owned_pages records_object) \<union> set (owned_pages blob_object) \<union> set (owned_pages index_object)))))))))))))))"

text \<open>The pages of a table's objects.\<close>

primrec pages_loop :: "nat list \<Rightarrow> nat list \<Rightarrow> ('f, 'e, nat list) pager_act" where
  "pages_loop [] pgs = ret pgs"
| "pages_loop (h # hs) pgs =
     (if h \<noteq> 0 then and_then (object_open h) (\<lambda>ob. pages_loop hs (pgs @ owned_pages ob))
      else pages_loop hs pgs)"

definition table_pages :: "table \<Rightarrow> ('f, 'e, nat list) pager_act" where
  "table_pages t = pages_loop [tb_records_page t, tb_blob_page t, tb_index_page t] []"

section \<open>Reindexing\<close>

fun record_entries :: "collation \<Rightarrow> raw_record list \<Rightarrow> db_error + index_entry list" where
  "record_entries coll [] = Ok []"
| "record_entries coll (r # rs) =
     try_res (config_key coll (cr_file_name (rr_row r)) (cr_part_no (rr_row r))) (\<lambda>key.
       try_res (record_entries coll rs) (\<lambda>es. Ok ((rr_number r, key) # es)))"

definition reindex :: "table \<Rightarrow> collation \<Rightarrow> ('f, 'e, unit) pager_act" where
  "reindex t coll =
     and_then (of_result (check_layout t)) (\<lambda>_.
     and_then (read_records t False) (\<lambda>records.
     and_then (of_result (record_entries coll records)) (\<lambda>es.
     and_then (object_open (tb_index_page t)) (\<lambda>index_object.
     and_then (object_read_all index_object) (\<lambda>old.
     and_then (\<lambda>p. of_result (index_rebuild old (pg_page_size p) es) p) (\<lambda>content.
     and_then (object_rewrite index_object content) (\<lambda>_. flush_header)))))))"

end
