(* ===== verification/Filedb_Index_Leaf.thy ===== *)
theory Filedb_Index_Leaf
  imports Filedb_Index Filedb_Blob_Laws
begin

text \<open>
  A leaf page that \<open>leaf_page\<close> writes is read back by \<open>read_leaf\<close>: the packed entries, the key bytes that
  grow from the end of the page, and the compression against the previous key.
\<close>

section \<open>Reads that fail only by their check\<close>

text \<open>In every state that the check keeps in an invariant, the action gives this value, or the check failed
  in such a state.\<close>

definition kept_by :: "(nat \<Rightarrow> ('s, unit) act) \<Rightarrow> ('s \<Rightarrow> bool) \<Rightarrow> bool" where
  "kept_by check I \<longleftrightarrow> (\<forall>n s r s'. I s \<and> check n s = (r, s') \<longrightarrow> I s')"

definition yields :: "(nat \<Rightarrow> ('s, unit) act) \<Rightarrow> ('s, 'a) act \<Rightarrow> 'a \<Rightarrow> bool" where
  "yields check m x \<longleftrightarrow> (\<forall>I s. kept_by check I \<and> I s \<longrightarrow>
     (case m s of (Inr y, s') \<Rightarrow> y = x \<and> I s' | (Inl e, _) \<Rightarrow> \<exists>n a b. I a \<and> check n a = (Err e, b)))"

lemma yieldsD:
  "yields check m x \<Longrightarrow> kept_by check I \<Longrightarrow> I s \<Longrightarrow>
     case m s of (Inr y, s') \<Rightarrow> y = x \<and> I s' | (Inl e, _) \<Rightarrow> \<exists>n a b. I a \<and> check n a = (Err e, b)"
  by (simp add: yields_def)

lemma yields_any:
  assumes "yields check m x"
  shows "case m s of (Inr y, _) \<Rightarrow> y = x | (Inl e, _) \<Rightarrow> \<exists>n a b. check n a = (Err e, b)"
  using yieldsD [OF assms, of "\<lambda>_. True" s] by (auto simp: kept_by_def split: prod.splits sum.splits)

text \<open>A check that succeeds in the states of the invariant lets the action succeed.\<close>

lemma yields_Ok:
  assumes y: "yields check m x" and k: "kept_by check I" and s: "I s"
    and ok: "\<And>n a e b. I a \<Longrightarrow> check n a \<noteq> (Err e, b)"
  shows "\<exists>s'. m s = (Ok x, s') \<and> I s'"
proof -
  obtain r s' where m: "m s = (r, s')" by (cases "m s")
  then show ?thesis using yieldsD [OF y k s] ok by (cases r) auto
qed

lemma yields_ret [simp]: "yields check (ret x) x"
  by (simp add: yields_def ret_def)

lemma yields_check:
  assumes "\<And>u. yields check (f u) x"
  shows "yields check (and_then (check n) f) x"
  unfolding yields_def
proof (intro allI impI, elim conjE)
  fix I s assume k: "kept_by check I" and s: "I s"
  obtain r s' where c: "check n s = (r, s')" by (cases "check n s")
  then have s': "I s'" using k s unfolding kept_by_def by blast
  show "case and_then (check n) f s of (Inl e, _) \<Rightarrow> \<exists>n a b. I a \<and> check n a = (Err e, b) | (Inr y, s') \<Rightarrow> y = x \<and> I s'"
  proof (cases r)
    case (Inl e)
    then show ?thesis using c s by (auto simp: and_then_def)
  next
    case (Inr u)
    then have "and_then (check n) f s = f u s'" using c by (simp add: and_then_def)
    then show ?thesis using yieldsD [OF assms k s'] by simp
  qed
qed

lemma yields_then:
  assumes "yields check m y" and "yields check (f y) x"
  shows "yields check (and_then m f) x"
  unfolding yields_def
proof (intro allI impI, elim conjE)
  fix I s assume k: "kept_by check I" and s: "I s"
  obtain r s' where c: "m s = (r, s')" by (cases "m s")
  have m: "case m s of (Inl e, _) \<Rightarrow> \<exists>n a b. I a \<and> check n a = (Err e, b) | (Inr z, s') \<Rightarrow> z = y \<and> I s'"
    by (rule yieldsD [OF assms(1) k s])
  show "case and_then m f s of (Inl e, _) \<Rightarrow> \<exists>n a b. I a \<and> check n a = (Err e, b) | (Inr z, s') \<Rightarrow> z = x \<and> I s'"
  proof (cases r)
    case (Inl e)
    then show ?thesis using c m by (simp add: and_then_def)
  next
    case (Inr u)
    then have "and_then m f s = f y s'" "I s'" using c m by (simp_all add: and_then_def)
    then show ?thesis using yieldsD [OF assms(2) k] by simp
  qed
qed

section \<open>Entry words\<close>

definition entry_word :: "nat \<Rightarrow> nat \<Rightarrow> nat \<Rightarrow> u64" where
  "entry_word rec left right = of_nat rec OR push_bit 32 (of_nat left) OR push_bit 48 (of_nat right)"

lemma bit_above: "n < 2 ^ m \<Longrightarrow> m \<le> k \<Longrightarrow> \<not> bit (n :: nat) k"
  by (metis bit_take_bit_iff take_bit_nat_eq_self not_le)

lemma bit_below: "n < 2 ^ m \<Longrightarrow> bit (n :: nat) k \<Longrightarrow> k < m"
  using bit_above not_le by blast

lemma entry_word_fields:
  assumes "rec < 2 ^ 32" and "left < 2 ^ 16" and "right < 2 ^ 16"
  shows "entry_word rec left right AND mask 32 = of_nat rec"
    and "drop_bit 32 (entry_word rec left right) AND mask 16 = of_nat left"
    and "drop_bit 48 (entry_word rec left right) AND mask 16 = of_nat right"
  using bit_above [OF assms(1)] bit_above [OF assms(2)] bit_above [OF assms(3)]
  by (auto intro!: bit_word_eqI simp: entry_word_def bit_simps
      dest: bit_below [OF assms(1)] bit_below [OF assms(2)] bit_below [OF assms(3)])

lemma unat_of_small: "n < 2 ^ 32 \<Longrightarrow> unat (of_nat n :: u64) = n"
  by (simp add: unat_of_nat_u64)

section \<open>Leaf pages\<close>

text \<open>Entries that pack: each key is rebuilt from the one before, its stored bytes and its zeros.\<close>

fun packs :: "nat \<Rightarrow> bytes \<Rightarrow> leaf_entry list \<Rightarrow> bool" where
  "packs kl prev [] = True"
| "packs kl prev ((rec, key, left, right) # es) \<longleftrightarrow>
     rec \<le> u32_max \<and> length key = kl \<and> left + right \<le> kl \<and> take left prev = take left key
     \<and> drop (kl - right) key = replicate right 0 \<and> packs kl key es"

definition stored_sizes :: "nat \<Rightarrow> leaf_entry list \<Rightarrow> nat" where
  "stored_sizes kl es = sum_list (map (\<lambda>(rec, key, left, right). kl - left - right) es)"

fun leaf_holds :: "nat \<Rightarrow> nat \<Rightarrow> nat \<Rightarrow> nat \<Rightarrow> leaf_entry list \<Rightarrow> bytes \<Rightarrow> bool" where
  "leaf_holds kl count k end [] p = True"
| "leaf_holds kl count k end ((rec, key, left, right) # es) p \<longleftrightarrow>
     (let n = kl - left - right; end' = end - n in
      slice (30 + k * 8) (30 + (k + 1) * 8) p = to_le_bytes 8 (entry_word rec left right)
      \<and> n \<le> end \<and> slice end' end p = slice left (kl - right) key \<and> 30 + count * 8 \<le> end'
      \<and> leaf_holds kl count (k + 1) end' es p)"

lemma length_stored: "length key = kl \<Longrightarrow> left + right \<le> kl \<Longrightarrow> length (slice left (kl - right) key) = kl - left - right"
  by (simp add: slice_def)

lemma put_entries_Ok:
  "put_entries kl k end es p = (end', p') \<Longrightarrow> packs kl prev es \<Longrightarrow> end \<le> length p \<Longrightarrow>
   30 + (k + length es) * 8 + stored_sizes kl es \<le> end \<Longrightarrow> count = k + length es \<Longrightarrow>
     leaf_holds kl count k end es p' \<and> length p' = length p \<and> end' = end - stored_sizes kl es
     \<and> (\<forall>x y. y \<le> 30 + k * 8 \<or> end \<le> x \<longrightarrow> slice x y p' = slice x y p)"
proof (induction kl k "end" es p arbitrary: prev rule: put_entries.induct)
  case (2 kl k "end" rec key left right es p)
  let ?n = "kl - left - right" and ?at = "30 + k * 8"
  let ?stored = "slice left (kl - right) key" and ?w = "to_le_bytes 8 (entry_word rec left right)"
  let ?e = "end - ?n"
  let ?p1 = "put ?at ?w p"
  let ?p2 = "put ?e ?stored ?p1"
  have packs: "length key = kl" "left + right \<le> kl" "packs kl key es"
    using "2.prems"(2) by simp_all
  have len: "length ?stored = ?n" using packs by (simp add: length_stored)
  have sizes: "stored_sizes kl ((rec, key, left, right) # es) = ?n + stored_sizes kl es"
    by (simp add: stored_sizes_def)
  have room: "30 + (k + 1 + length es) * 8 + stored_sizes kl es + ?n \<le> end"
    using "2.prems"(4) sizes by simp
  have l1: "length ?p1 = length p" using room "2.prems"(3) by (intro length_put) simp
  have l2: "length ?p2 = length p" using room "2.prems"(3) l1 len by (subst length_put) simp_all
  have go: "put_entries kl (k + 1) ?e es ?p2 = (end', p')"
    using "2.prems"(1) len
    by (simp add: entry_word_def REC_BITS_def LEFT_BITS_def LEAF_HEADER_def ENTRY_BYTES_def Let_def)
  have IH: "leaf_holds kl count (k + 1) ?e es p' \<and> length p' = length ?p2 \<and> end' = ?e - stored_sizes kl es
      \<and> (\<forall>x y. y \<le> 30 + (k + 1) * 8 \<or> ?e \<le> x \<longrightarrow> slice x y p' = slice x y ?p2)"
  proof (rule "2.IH" [of _ _ ?p1 ?stored ?e key])
    show "put_entries kl (k + 1) ?e es ?p2 = (end', p')" by (rule go)
  qed (use room l2 "2.prems" packs len in \<open>simp_all add: entry_word_def REC_BITS_def LEFT_BITS_def LEAF_HEADER_def ENTRY_BYTES_def\<close>)
  have w: "slice ?at (?at + 8) p' = ?w"
  proof -
    have "slice ?at (?at + 8) p' = slice ?at (?at + 8) ?p2" using IH by simp
    also have "\<dots> = slice ?at (?at + 8) ?p1"
      using room l1 len "2.prems"(3) by (intro slice_put_before) simp_all
    also have "\<dots> = ?w" using room "2.prems"(3) by (intro slice_put_same) simp_all
    finally show ?thesis .
  qed
  have s: "slice ?e end p' = ?stored"
  proof -
    have "slice ?e end p' = slice ?e end ?p2" using IH by simp
    also have "\<dots> = ?stored" using room l1 len "2.prems"(3) by (intro slice_put_same) simp_all
    finally show ?thesis .
  qed
  have frame: "slice x y p' = slice x y p" if "y \<le> ?at \<or> end \<le> x" for x y
  proof -
    have "slice x y p' = slice x y ?p2" using IH that by auto
    also have "\<dots> = slice x y ?p1"
      using that room l1 len "2.prems"(3) slice_put_before [of y ?e ?stored ?p1 x] slice_put_after [of ?e ?stored x ?p1 y]
      by auto
    also have "\<dots> = slice x y p"
      using that room "2.prems"(3) slice_put_before [of y ?at ?w p x] slice_put_after [of ?at ?w x p y] by auto
    finally show ?thesis .
  qed
  show ?case
    using w s frame IH room sizes l2 "2.prems"(5) by (simp add: add.commute)
qed (simp add: stored_sizes_def)

section \<open>Reading a leaf\<close>

definition written_layout :: leaf_layout where
  "written_layout = \<lparr>rec_mask = mask 32, left_mask = mask 16, right_mask = mask 16, rec_bits = 32,
     left_bits = 16, entry_bytes = 8\<rparr>"

lemma written_layout_simps [simp]:
  "rec_mask written_layout = mask 32" "left_mask written_layout = mask 16" "right_mask written_layout = mask 16"
  "rec_bits written_layout = 32" "left_bits written_layout = 16" "entry_bytes written_layout = 8"
  by (simp_all add: written_layout_def)

definition plain_entry :: "leaf_entry \<Rightarrow> index_entry" where
  "plain_entry e = (case e of (rec, key, _, _) \<Rightarrow> (rec, key))"

lemma rebuilt_key:
  assumes "length key = kl" and "left + right \<le> kl" and "take left prev = take left key"
    and "drop (kl - right) key = replicate right 0"
  shows "take left prev @ slice left (kl - right) key @ replicate (kl - (left + (kl - left - right))) 0 = key"
proof -
  have "key = take (kl - right) key @ drop (kl - right) key" by simp
  also have "take (kl - right) key = take left (take (kl - right) key) @ drop left (take (kl - right) key)"
    by (rule append_take_drop_id [symmetric])
  also have "take left (take (kl - right) key) = take left prev"
  proof -
    have "left \<le> kl - right" using assms(2) by simp
    then show ?thesis using assms(3) by (simp add: min.absorb1)
  qed
  also have "drop left (take (kl - right) key) = slice left (kl - right) key" by (simp add: slice_def drop_take)
  finally have "key = (take left prev @ slice left (kl - right) key) @ replicate right 0" by (simp only: assms(4))
  moreover have "kl - (left + (kl - left - right)) = right" using assms(2) by simp
  ultimately show ?thesis by simp
qed

lemma leaf_loop_yields:
  "leaf_holds kl count k end es p \<Longrightarrow> packs kl prev es \<Longrightarrow> kl < 65536 \<Longrightarrow>
     yields check (leaf_loop p kl count written_layout check [k..<k + length es] end prev out)
       (out @ map plain_entry es)"
proof (induction kl count k "end" es p arbitrary: prev out rule: leaf_holds.induct)
  case (2 kl count k "end" rec key left right es p)
  let ?n = "kl - left - right"
  note packs = "2.prems"(2) [unfolded packs.simps]
  have h: "slice (30 + k * 8) (30 + (k + 1) * 8) p = to_le_bytes 8 (entry_word rec left right)"
      "?n \<le> end" "slice (end - ?n) end p = slice left (kl - right) key" "30 + count * 8 \<le> end - ?n"
      "leaf_holds kl count (k + 1) (end - ?n) es p"
    using "2.prems"(1) by (simp_all add: Let_def)
  have lr: "left + right \<le> kl" "rec \<le> u32_max" using packs by simp_all
  have "left < 65536" using lr(1) "2.prems"(3) by linarith
  moreover have "right < 65536" using lr(1) "2.prems"(3) by linarith
  ultimately have small: "rec < 2 ^ 32" "left < 2 ^ 16" "right < 2 ^ 16" using lr(2) by simp_all
  note word = entry_word_fields [OF small]
  have step: "yields check (leaf_loop p kl count written_layout check [k + 1..<k + 1 + length es] (end - ?n) key
      (out @ [(rec, key)])) ((out @ [(rec, key)]) @ map plain_entry es)"
    using packs "2.prems"(3) by (intro "2.IH" [OF refl refl h(5)]) simp_all
  have key: "take left prev @ slice (end - ?n) (end - ?n + ?n) p @ replicate (kl - (left + ?n)) 0 = key"
    using rebuilt_key [of key kl left right prev] packs h(2,3) by simp
  have ups: "[k..<k + length ((rec, key, left, right) # es)] = k # [k + 1..<k + 1 + length es]"
    by (simp add: upt_conv_Cons del: upt_Suc)
  show ?case
    unfolding ups leaf_loop.simps
  proof (rule yields_check)
    fix u
    have vals: "unat (of_nat rec :: u64) mod 2 ^ 32 = rec" "unat (of_nat left :: u64) = left" "unat (of_nat right :: u64) = right"
      using small by (simp_all add: unat_of_small)
    have raw: "from_le_bytes (slice (LEAF_HEADER + k * entry_bytes written_layout)
        (LEAF_HEADER + (k + 1) * entry_bytes written_layout) p @ replicate (8 - entry_bytes written_layout) 0)
        = entry_word rec left right"
      using h(1) by (simp add: LEAF_HEADER_def)
    have parts: "unat (entry_word rec left right AND rec_mask written_layout) mod 2 ^ 32 = rec"
        "unat (drop_bit (rec_bits written_layout) (entry_word rec left right) AND left_mask written_layout) = left"
        "unat (drop_bit (rec_bits written_layout + left_bits written_layout) (entry_word rec left right)
           AND right_mask written_layout) = right"
      using word vals by simp_all
    have no: "\<not> left + right > kl" "\<not> end < LEAF_HEADER + count * entry_bytes written_layout + (kl - left - right)"
      using packs h(2,4) by (simp_all add: LEAF_HEADER_def)
    show "yields check (let raw = slice (LEAF_HEADER + k * entry_bytes written_layout)
                 (LEAF_HEADER + (k + 1) * entry_bytes written_layout) p @ replicate (8 - entry_bytes written_layout) 0;
           v = from_le_bytes raw :: u64;
           rec = unat (v AND rec_mask written_layout) mod 2 ^ 32;
           left = unat (drop_bit (rec_bits written_layout) v AND left_mask written_layout);
           right = unat (drop_bit (rec_bits written_layout + left_bits written_layout) v AND right_mask written_layout) in
       if left + right > kl then fail (corrupt (In_Index Index_Compression))
       else
         let stored = kl - left - right in
         if end < LEAF_HEADER + count * entry_bytes written_layout + stored then fail (corrupt (In_Index Index_Keys_Overlap))
         else
           let at = end - stored;
               key = take left prev @ slice at (at + stored) p @ replicate (kl - (left + stored)) 0 in
           leaf_loop p kl count written_layout check [k + 1..<k + 1 + length es] at key (out @ [(rec, key)]))
       (out @ map plain_entry ((rec, key, left, right) # es))"
      unfolding Let_def raw parts if_not_P [OF no(1)] if_not_P [OF no(2)] key
      using step by (simp add: plain_entry_def)
  qed
qed simp

text \<open>The header of a leaf page.\<close>

lemma leaf_header_bytes:
  fixes flags count prev next_page ps
  defines "h \<equiv> le16 flags @ le16 count @ le32 prev @ le32 next_page @ [0, 0]
            @ le32 u32_max @ le16 65535 @ le16 65535 @ le16 REC_BITS @ le16 LEFT_BITS @ le16 RIGHT_BITS @ le16 ENTRY_BYTES"
  shows "length h = 30" and "slice 0 2 h = le16 flags" and "slice 2 4 h = le16 count"
    and "slice 14 18 h = le32 u32_max" and "slice 18 20 h = le16 65535" and "slice 20 22 h = le16 65535"
    and "slice 22 24 h = le16 32" and "slice 24 26 h = le16 16" and "slice 26 28 h = le16 16" and "slice 28 30 h = le16 8"
  by (simp_all add: h_def slice_def REC_BITS_def LEFT_BITS_def RIGHT_BITS_def ENTRY_BYTES_def)

lemma leaf_holds_frame:
  "leaf_holds kl count k end es p \<Longrightarrow> (\<And>x y. 30 \<le> x \<Longrightarrow> slice x y p' = slice x y p) \<Longrightarrow>
     leaf_holds kl count k end es p'"
  by (induction kl count k "end" es p rule: leaf_holds.induct) (simp_all add: Let_def)

lemma leaf_page_holds:
  fixes flags prev next_page kl ps es
  defines "p \<equiv> leaf_page ps kl flags prev next_page es"
  assumes packs: "packs kl (replicate kl 0) es" and room: "30 + length es * 8 + stored_sizes kl es \<le> ps"
  shows "leaf_holds kl (length es) 0 ps es p" and "length p = ps"
    and "slice 0 2 p = le16 flags" and "slice 2 4 p = le16 (length es)"
    and "slice 14 18 p = le32 u32_max" and "slice 18 20 p = le16 65535" and "slice 20 22 p = le16 65535"
    and "slice 22 24 p = le16 32" and "slice 24 26 p = le16 16" and "slice 26 28 p = le16 16" and "slice 28 30 p = le16 8"
proof -
  let ?h = "le16 flags @ le16 (length es) @ le32 prev @ le32 next_page @ [0, 0]
            @ le32 u32_max @ le16 65535 @ le16 65535 @ le16 REC_BITS @ le16 LEFT_BITS @ le16 RIGHT_BITS @ le16 ENTRY_BYTES"
  note h = leaf_header_bytes [of flags "length es" prev next_page]
  let ?p0 = "put 0 ?h (replicate ps 0)"
  obtain e q where pe: "put_entries kl 0 ps es ?p0 = (e, q)" by (cases "put_entries kl 0 ps es ?p0")
  have l0: "length ?p0 = ps" using room h(1) by simp
  have q: "leaf_holds kl (length es) 0 ps es q \<and> length q = length ?p0 \<and> e = ps - stored_sizes kl es
      \<and> (\<forall>x y. y \<le> 30 + 0 * 8 \<or> ps \<le> x \<longrightarrow> slice x y q = slice x y ?p0)"
    by (rule put_entries_Ok [OF pe packs]) (use room l0 in simp_all)
  note holds = conjunct1 [OF q] and q_frame = conjunct2 [OF conjunct2 [OF conjunct2 [OF q]]]
  obtain free where p: "p = put 12 (le16 free) q"
    using pe unfolding p_def leaf_page_def Let_def by (metis (no_types, lifting) case_prod_conv)
  have len: "length q = ps" using conjunct1 [OF conjunct2 [OF q]] l0 by (rule trans)
  then show "length p = ps" using room by (simp add: p)
  have after: "slice x y p = slice x y q" if "14 \<le> x" for x y
    unfolding p using that len room by (intro slice_put_after) simp_all
  have before: "slice x y p = slice x y q" if "y \<le> 12" for x y
    unfolding p using that len room by (intro slice_put_before) simp_all
  have q0: "slice x y q = slice x y ?h" if "y \<le> 30" "x \<le> y" for x y
  proof -
    have "slice x y q = slice x y ?p0" by (rule q_frame [rule_format]) (use that in simp)
    also have "\<dots> = slice x y (?h @ drop 30 (replicate ps 0))" using h(1) by (simp add: put_def)
    also have "\<dots> = slice x y ?h" using that h(1) by (simp add: slice_def del: append_assoc)
    finally show ?thesis .
  qed
  show "leaf_holds kl (length es) 0 ps es p"
    by (rule leaf_holds_frame [OF holds after]) simp
  show "slice 0 2 p = le16 flags" "slice 2 4 p = le16 (length es)"
    using before q0 h(2,3) by simp_all
  have fields: "slice x y p = slice x y ?h" if "14 \<le> x" "x \<le> y" "y \<le> 30" for x y
    using after [OF that(1)] q0 [OF that(3,2)] by (rule trans)
  show "slice 14 18 p = le32 u32_max" "slice 18 20 p = le16 65535" "slice 20 22 p = le16 65535"
    "slice 22 24 p = le16 32" "slice 24 26 p = le16 16" "slice 26 28 p = le16 16" "slice 28 30 p = le16 8"
    by (rule trans [OF fields h(4)] trans [OF fields h(5)] trans [OF fields h(6)] trans [OF fields h(7)]
        trans [OF fields h(8)] trans [OF fields h(9)] trans [OF fields h(10)]; simp)+
qed

lemma all_ones: "from_le_bytes (le32 u32_max) = (mask 32 :: u64)"
  by (simp add: le32_def to_le_bytes_def mask_eq_exp_minus_1 upt_conv_Cons)

text \<open>A written leaf is read back, whatever pages it is linked to.\<close>

lemma read_written_leaf:
  assumes packs: "packs kl (replicate kl 0) es" and room: "30 + length es * 8 + stored_sizes kl es \<le> ps"
    and "kl < 65536" and "ps \<le> 65536"
  shows "yields check (read_leaf (leaf_page ps kl flags prev next_page es) kl (length es) out check) (out @ map plain_entry es)"
proof -
  let ?p = "leaf_page ps kl flags prev next_page es"
  note p = leaf_page_holds [OF packs room, of flags prev next_page]
  have at: "u16_at ?p 18 = 65535" "u16_at ?p 20 = 65535" "u16_at ?p 22 = 32" "u16_at ?p 24 = 16"
      "u16_at ?p 26 = 16" "u16_at ?p 28 = 8"
    using p by (simp_all add: u16_at_def from_le16)
  have m16: "(65535 :: u64) = mask 16" by (simp add: mask_eq_exp_minus_1)
  have layout: "\<lparr>rec_mask = from_le_bytes (slice 14 18 ?p), left_mask = of_nat (u16_at ?p 18),
               right_mask = of_nat (u16_at ?p 20), rec_bits = u16_at ?p 22, left_bits = u16_at ?p 24,
               entry_bytes = u16_at ?p 28\<rparr> = written_layout"
    using p(5) all_ones by (simp add: written_layout_def at m16)
  have "yields check (leaf_loop ?p kl (length es) written_layout check [0..<0 + length es] ps (replicate kl 0) out)
      (out @ map plain_entry es)"
    by (rule leaf_loop_yields [OF p(1) packs assms(3)])
  then show ?thesis
    unfolding read_leaf_def layout Let_def using p(2) room by (simp add: at LEAF_HEADER_def)
qed

section \<open>Packing leaves\<close>

text \<open>
  How \<open>fill_leaves\<close> spreads sorted entries over leaves: no entry is lost or reordered, every leaf packs
  from a blank previous key, and every leaf stays within its budget.
\<close>

lemma common_prefix_shared: "n \<le> common_prefix a b \<Longrightarrow> take n a = take n b"
  unfolding common_prefix_def
proof (induction a arbitrary: b n)
  case (Cons x a)
  then show ?case by (cases b; cases n) (auto split: if_splits)
qed simp

lemma common_prefix_bound: "common_prefix a b \<le> length a" "common_prefix a b \<le> length b"
  using length_takeWhile_le [of "\<lambda>(x, y). x = y" "zip a b"] by (simp_all add: common_prefix_def)

lemma trailing_zeros_bound: "trailing_zeros key \<le> length key"
  using length_takeWhile_le [of "\<lambda>b. b = 0" "rev key"] by (simp add: trailing_zeros_def)

lemma trailing_zeros_drop:
  assumes "n \<le> trailing_zeros key"
  shows "drop (length key - n) key = replicate n 0"
proof -
  let ?tw = "takeWhile (\<lambda>b. b = 0) (rev key)"
  have "?tw = replicate (length ?tw) 0"
    by (rule replicate_eqI) (auto dest: set_takeWhileD)
  moreover have "take (trailing_zeros key) (rev key) = ?tw"
    unfolding trailing_zeros_def by (rule takeWhile_eq_take [symmetric])
  ultimately have "take (trailing_zeros key) (rev key) = replicate (trailing_zeros key) 0"
    by (simp add: trailing_zeros_def)
  then have "take n (take (trailing_zeros key) (rev key)) = replicate n 0"
    using assms by simp
  then have "take n (rev key) = replicate n 0" using assms by (simp add: min_def)
  moreover have "drop (length key - n) key = rev (take n (rev key))"
    by (simp add: take_rev)
  ultimately show ?thesis by simp
qed

lemma packs_snoc:
  "packs kl prev (es @ [(rec, key, left, right)]) \<longleftrightarrow>
     packs kl prev es \<and> packs kl (case es of [] \<Rightarrow> prev | _ \<Rightarrow> fst (snd (last es))) [(rec, key, left, right)]"
  by (induction kl prev es rule: packs.induct) (auto split: list.splits)

lemma stored_sizes_append [simp]: "stored_sizes kl (xs @ ys) = stored_sizes kl xs + stored_sizes kl ys"
  by (simp add: stored_sizes_def)

lemma stored_sizes_simps [simp]:
  "stored_sizes kl [] = 0" "stored_sizes kl ((rec, key, left, right) # es) = kl - left - right + stored_sizes kl es"
  by (simp_all add: stored_sizes_def)

definition fits_leaf :: "nat \<Rightarrow> nat \<Rightarrow> leaf_entry list \<Rightarrow> bool" where
  "fits_leaf kl budget leaf \<longleftrightarrow> packs kl (replicate kl 0) leaf \<and> 8 * length leaf + stored_sizes kl leaf \<le> budget"

text \<open>The state of the loop after the entries \<open>xs\<close>.\<close>

definition filled :: "nat \<Rightarrow> nat \<Rightarrow> index_entry list \<Rightarrow> leaf_state \<Rightarrow> bool" where
  "filled kl budget xs st \<longleftrightarrow> (case st of (leaves, current, free, prev) \<Rightarrow>
     concat (map (map plain_entry) leaves) @ map plain_entry current = xs
     \<and> (\<forall>leaf \<in> set leaves. leaf \<noteq> [] \<and> fits_leaf kl budget leaf)
     \<and> packs kl (replicate kl 0) current \<and> free + (8 * length current + stored_sizes kl current) = budget
     \<and> (case prev of None \<Rightarrow> current = [] \<and> leaves = []
         | Some (p, r) \<Rightarrow> current \<noteq> [] \<and> p = fst (snd (last current))))"

lemma filled_step:
  assumes f: "filled kl budget xs st" and entry: "length key = kl" "rec \<le> u32_max" and budget: "8 + kl \<le> budget"
  shows "filled kl budget (xs @ [(rec, key)]) (leaf_step kl budget st (rec, key))"
proof -
  obtain leaves current free prev where st: "st = (leaves, current, free, prev)" by (metis prod_cases4)
  define left where "left = (case prev of None \<Rightarrow> 0 | Some (p, p_right) \<Rightarrow> min (common_prefix p key) (kl - p_right))"
  define right where "right = min (trailing_zeros key) (kl - left)"
  let ?need = "8 + (kl - left - right)"
  note f' = f [unfolded filled_def st prod.case]
  have left: "left \<le> kl" and shared: "\<And>p r. prev = Some (p, r) \<Longrightarrow> take left p = take left key"
    using common_prefix_bound(2) [of _ key] entry(1) common_prefix_shared
    by (auto simp: left_def min_def split: option.split)
  have zeros: "drop (kl - right) key = replicate right 0" "left + right \<le> kl"
    using trailing_zeros_drop [of right key] left entry by (simp_all add: right_def)
  have whole: "drop (kl - trailing_zeros key) key = replicate (trailing_zeros key) 0" "trailing_zeros key \<le> kl"
    using trailing_zeros_drop [of "trailing_zeros key" key] trailing_zeros_bound [of key] entry by simp_all
  show ?thesis
  proof (cases "?need > free \<and> current \<noteq> []")
    case True
    then have step: "leaf_step kl budget st (rec, key) = (leaves @ [current], [(rec, key, 0, trailing_zeros key)],
        budget - (8 + (kl - trailing_zeros key)), Some (key, trailing_zeros key))"
      by (simp add: leaf_step_def st Let_def left_def right_def ENTRY_BYTES_def)
    show ?thesis
      unfolding step filled_def
      using f' True entry budget whole by (auto simp: fits_leaf_def plain_entry_def)
  next
    case False
    then have step: "leaf_step kl budget st (rec, key) =
        (leaves, current @ [(rec, key, left, right)], free - ?need, Some (key, right))"
      unfolding leaf_step_def st Let_def prod.case left_def [symmetric] right_def [symmetric]
      by (auto simp: ENTRY_BYTES_def)
    have "current = [] \<Longrightarrow> left = 0" using f' by (simp add: left_def split: option.splits prod.splits)
    have "packs kl (case current of [] \<Rightarrow> replicate kl 0 | _ \<Rightarrow> fst (snd (last current))) [(rec, key, left, right)]"
    proof (cases prev)
      case None
      then show ?thesis using f' entry zeros by (simp add: left_def)
    next
      case (Some pr)
      then show ?thesis using f' entry zeros shared by (cases pr; cases current) simp_all
    qed
    then have "packs kl (replicate kl 0) (current @ [(rec, key, left, right)])"
      using f' by (simp add: packs_snoc)
    moreover have "?need \<le> free" using False f' budget by (cases "current = []") auto
    ultimately show ?thesis
      unfolding step filled_def using f' by (simp add: plain_entry_def split: option.splits)
  qed
qed

lemma filled_all:
  assumes "\<forall>(rec, key) \<in> set es. length key = kl \<and> rec \<le> u32_max" and "8 + kl \<le> budget"
  shows "filled kl budget xs st \<Longrightarrow> filled kl budget (xs @ es) (foldl (leaf_step kl budget) st es)"
  using assms
proof (induction es arbitrary: xs st)
  case (Cons e es)
  obtain rec key where e: "e = (rec, key)" by (cases e)
  have "filled kl budget (xs @ [e]) (leaf_step kl budget st e)"
    unfolding e using Cons.prems e by (intro filled_step) auto
  then show ?case using Cons.IH [of "xs @ [e]" "leaf_step kl budget st e"] Cons.prems by simp
qed simp

lemma fill_leaves_filled:
  assumes "\<forall>(rec, key) \<in> set es. length key = kl \<and> rec \<le> u32_max" and "8 + kl \<le> budget"
  shows "concat (map (map plain_entry) (fill_leaves kl budget es)) = es"
    and "\<forall>leaf \<in> set (fill_leaves kl budget es). fits_leaf kl budget leaf"
    and "fill_leaves kl budget es \<noteq> []"
    and "es \<noteq> [] \<Longrightarrow> \<forall>leaf \<in> set (fill_leaves kl budget es). leaf \<noteq> []"
    and "es = [] \<Longrightarrow> fill_leaves kl budget es = [[]]"
proof -
  obtain leaves current free prev where st: "foldl (leaf_step kl budget) ([], [], budget, None) es = (leaves, current, free, prev)"
    by (metis prod_cases4)
  have "filled kl budget [] ([], [], budget, None)" by (simp add: filled_def)
  then have "filled kl budget es (leaves, current, free, prev)"
    using filled_all [OF assms, of "[]" "([], [], budget, None)"] st by simp
  then have f: "concat (map (map plain_entry) leaves) @ map plain_entry current = es"
      "\<forall>leaf \<in> set leaves. leaf \<noteq> [] \<and> fits_leaf kl budget leaf" "fits_leaf kl budget current"
      "current = [] \<Longrightarrow> leaves = []"
    by (auto simp: filled_def fits_leaf_def split: option.splits)
  have fl: "fill_leaves kl budget es = leaves @ [current]" by (simp add: fill_leaves_def st)
  show "concat (map (map plain_entry) (fill_leaves kl budget es)) = es" using f(1) by (simp add: fl)
  show "\<forall>leaf \<in> set (fill_leaves kl budget es). fits_leaf kl budget leaf" using f by (auto simp: fl)
  show "fill_leaves kl budget es \<noteq> []" by (simp add: fl)
  show "\<forall>leaf \<in> set (fill_leaves kl budget es). leaf \<noteq> []" if "es \<noteq> []" using f that by (auto simp: fl)
  show "fill_leaves kl budget es = [[]]" if "es = []" using that by (simp add: fill_leaves_def)
qed

end
