(* ===== verification/Filedb_Index_Walk.thy ===== *)
theory Filedb_Index_Walk
  imports Filedb_Index_Leaf Filedb_Pager_Laws
begin

text \<open>
  The walk over a tree: \<open>subtree\<close> says that a page of an object is the root of a sound tree of some height,
  with its entries and its number of pages, in the page layout of this writer (\<open>Filedb_Any_Index\<close> has the
  format at large); \<open>index_walk\<close> reads a stack of them in order.
\<close>

section \<open>Branch pages\<close>

lemma length_be32 [simp]: "length (be32 n) = 4"
  by (simp add: be32_def)

lemma from_be32: "n \<le> u32_max \<Longrightarrow> unat (from_le_bytes (rev (be32 n)) :: u32) = n"
  by (simp add: be32_def from_le32)

lemma put_children_Ok:
  "12 + (k + length grp) * (kl + 8) \<le> length p \<Longrightarrow> \<forall>(c, r, key) \<in> set grp. length key = kl \<and> c \<le> u32_max \<Longrightarrow>
     length (put_children kl k grp p) = length p
     \<and> (\<forall>x y. y \<le> 12 + k * (kl + 8) \<longrightarrow> slice x y (put_children kl k grp p) = slice x y p)
     \<and> (\<forall>i < length grp. be32_at (put_children kl k grp p) (12 + (k + i) * (kl + 8) + kl + 4) = fst (grp ! i))"
proof (induction kl k grp p rule: put_children.induct)
  case (2 kl k child rec key grp p)
  let ?at = "12 + k * (kl + 8)"
  let ?e = "key @ be32 rec @ be32 child"
  let ?p1 = "put ?at ?e p"
  have key: "length key = kl" "child \<le> u32_max" using "2.prems"(2) by auto
  have room: "?at + length ?e + length grp * (kl + 8) \<le> length p"
    using "2.prems"(1) key by (simp add: algebra_simps)
  have l1: "length ?p1 = length p" using room by simp
  let ?q = "put_children kl (k + 1) grp ?p1"
  have IH: "length ?q = length ?p1"
    "\<forall>x y. y \<le> 12 + (k + 1) * (kl + 8) \<longrightarrow> slice x y ?q = slice x y ?p1"
    "\<forall>i < length grp. be32_at ?q (12 + (k + 1 + i) * (kl + 8) + kl + 4) = fst (grp ! i)"
  proof -
    have "12 + (k + 1 + length grp) * (kl + 8) \<le> length ?p1" using "2.prems"(1) l1 by simp
    moreover have "\<forall>(c, r, key) \<in> set grp. length key = kl \<and> c \<le> u32_max" using "2.prems"(2) by simp
    ultimately have all: "length ?q = length ?p1
      \<and> (\<forall>x y. y \<le> 12 + (k + 1) * (kl + 8) \<longrightarrow> slice x y ?q = slice x y ?p1)
      \<and> (\<forall>i < length grp. be32_at ?q (12 + (k + 1 + i) * (kl + 8) + kl + 4) = fst (grp ! i))"
      by (intro "2.IH") (simp_all add: BRANCH_HEADER_def)
    show "length ?q = length ?p1" using all by (rule conjunct1)
    show "\<forall>x y. y \<le> 12 + (k + 1) * (kl + 8) \<longrightarrow> slice x y ?q = slice x y ?p1"
      by (rule conjunct1 [OF conjunct2 [OF all]])
    show "\<forall>i < length grp. be32_at ?q (12 + (k + 1 + i) * (kl + 8) + kl + 4) = fst (grp ! i)"
      by (rule conjunct2 [OF conjunct2 [OF all]])
  qed
  have q: "put_children kl k ((child, rec, key) # grp) p = ?q"
    by (simp add: BRANCH_HEADER_def Let_def)
  have frame: "slice x y ?q = slice x y p" if "y \<le> ?at" for x y
  proof -
    have "slice x y ?q = slice x y ?p1" by (rule IH(2) [rule_format]) (use that in simp)
    also have "\<dots> = slice x y p" using that room by (intro slice_put_before) simp_all
    finally show ?thesis .
  qed
  have this_child: "be32_at ?q (?at + kl + 4) = child"
  proof -
    have "slice (?at + kl + 4) (?at + kl + 4 + 4) ?q = slice (?at + kl + 4) (?at + kl + 4 + 4) ?p1"
      by (rule IH(2) [rule_format]) simp
    also have "\<dots> = slice (kl + 4) (kl + 8) (slice ?at (?at + (kl + 8)) ?p1)"
      by (subst slice_slice) (simp_all add: ac_simps)
    also have "slice ?at (?at + (kl + 8)) ?p1 = ?e"
      using room key by (intro slice_put_same) simp_all
    also have "slice (kl + 4) (kl + 8) ?e = be32 child" using key by (simp add: slice_def)
    finally show ?thesis using key by (simp add: be32_at_def from_be32)
  qed
  have children: "be32_at ?q (12 + (k + i) * (kl + 8) + kl + 4) = fst (((child, rec, key) # grp) ! i)"
    if "i < length ((child, rec, key) # grp)" for i
  proof (cases i)
    case 0
    then show ?thesis using this_child by simp
  next
    case (Suc j)
    have "be32_at ?q (12 + (k + 1 + j) * (kl + 8) + kl + 4) = fst (grp ! j)"
      by (rule IH(3) [rule_format]) (use that Suc in simp)
    moreover have "k + 1 + j = k + i" using Suc by simp
    ultimately show ?thesis using Suc by simp
  qed
  show ?case unfolding q
    by (intro conjI allI impI) (rule trans [OF IH(1) l1], rule frame, assumption, rule children)
qed simp

lemma branch_page_reads:
  fixes ps kl flags prev next_page grp
  defines "p \<equiv> branch_page ps kl flags prev next_page grp"
  assumes room: "12 + length grp * (kl + 8) \<le> ps" and keys: "\<forall>(c, r, key) \<in> set grp. length key = kl \<and> c \<le> u32_max"
    and "length grp < 65536" and "flags < 65536"
  shows "length p = ps" and "u16_at p 0 = flags" and "u16_at p 2 = length grp"
    and "\<And>i. i < length grp \<Longrightarrow> be32_at p (12 + i * (kl + 8) + kl + 4) = fst (grp ! i)"
proof -
  let ?h = "le16 flags @ le16 (length grp) @ le32 prev @ le32 next_page"
  let ?p0 = "put 0 ?h (replicate ps 0)"
  have l0: "length ?p0 = ps" using room by simp
  have all: "length (put_children kl 0 grp ?p0) = length ?p0
     \<and> (\<forall>x y. y \<le> 12 + 0 * (kl + 8) \<longrightarrow> slice x y (put_children kl 0 grp ?p0) = slice x y ?p0)
     \<and> (\<forall>i < length grp. be32_at (put_children kl 0 grp ?p0) (12 + (0 + i) * (kl + 8) + kl + 4) = fst (grp ! i))"
    by (rule put_children_Ok) (use room l0 keys in simp_all)
  have p: "p = put_children kl 0 grp ?p0" by (simp add: p_def branch_page_def)
  show "length p = ps" unfolding p using conjunct1 [OF all] l0 by (rule trans)
  have frame: "slice x y p = slice x y ?p0" if "y \<le> 12" for x y
    unfolding p by (rule conjunct1 [OF conjunct2 [OF all], rule_format]) (use that in simp)
  have h: "slice 0 2 ?p0 = le16 flags" "slice 2 4 ?p0 = le16 (length grp)"
    by (simp_all add: put_def slice_def)
  show "u16_at p 0 = flags" "u16_at p 2 = length grp"
    using frame [of 2 0] frame [of 4 2] h assms(4,5) by (simp_all add: u16_at_def from_le16 del: add_2_eq_Suc')
  show "be32_at p (12 + i * (kl + 8) + kl + 4) = fst (grp ! i)" if "i < length grp" for i
    unfolding p using conjunct2 [OF conjunct2 [OF all], rule_format, OF that] by simp
qed

section \<open>Sound trees\<close>

lemma fits_leafD:
  "fits_leaf kl budget leaf \<Longrightarrow> packs kl (replicate kl 0) leaf"
  "fits_leaf kl budget leaf \<Longrightarrow> 8 * length leaf + stored_sizes kl leaf \<le> budget"
  by (simp_all add: fits_leaf_def)

text \<open>A node: its page, the pages below it (itself included) and its entries.\<close>

type_synonym tree_node = "nat \<times> nat \<times> index_entry list"

definition node_page :: "tree_node \<Rightarrow> nat" where "node_page t = fst t"
definition node_pages :: "tree_node \<Rightarrow> nat" where "node_pages t = fst (snd t)"
definition node_entries :: "tree_node \<Rightarrow> index_entry list" where "node_entries t = snd (snd t)"

lemma node_simps [simp]:
  "node_page (p, n, es) = p" "node_pages (p, n, es) = n" "node_entries (p, n, es) = es"
  by (simp_all add: node_page_def node_pages_def node_entries_def)

inductive subtree :: "bytes \<Rightarrow> nat \<Rightarrow> nat \<Rightarrow> nat \<Rightarrow> tree_node \<Rightarrow> bool" for obj ps kl where
  leaf: "n < length obj div ps \<Longrightarrow> page_of ps obj n = leaf_page ps kl flags prev next_page es \<Longrightarrow>
     flags AND FLAG_LEAF \<noteq> 0 \<Longrightarrow> flags < 65536 \<Longrightarrow> fits_leaf kl (ps - 30) es \<Longrightarrow> 30 \<le> ps \<Longrightarrow>
     subtree obj ps kl 0 (n, 1, map plain_entry es)"
| branch: "n < length obj div ps \<Longrightarrow> page_of ps obj n = branch_page ps kl flags prev next_page grp \<Longrightarrow>
     flags AND FLAG_LEAF = 0 \<Longrightarrow> flags < 65536 \<Longrightarrow> 12 + length grp * (kl + 8) \<le> ps \<Longrightarrow>
     \<forall>(c, r, key) \<in> set grp. length key = kl \<and> c \<le> u32_max \<Longrightarrow>
     map fst grp = map node_page ts \<Longrightarrow> \<forall>t \<in> set ts. subtree obj ps kl h t \<Longrightarrow>
     subtree obj ps kl (Suc h) (n, Suc (sum_list (map node_pages ts)), concat (map node_entries ts))"

inductive_cases leaf_treeE: "subtree obj ps kl 0 (n, m, es)"
inductive_cases branch_treeE: "subtree obj ps kl (Suc h) (n, m, es)"

section \<open>The walk\<close>

lemma page_slice: "slice (n * ps) ((n + 1) * ps) obj = page_of ps obj n"
  by (simp add: page_of_def add.commute)

text \<open>A stack item: the depth of a page, the height of its tree, and the tree.\<close>

definition stack_of :: "(nat \<times> nat \<times> tree_node) list \<Rightarrow> (nat \<times> nat) list" where
  "stack_of items = map (\<lambda>(d, h, t). (node_page t, d)) items"

definition items_sound :: "bytes \<Rightarrow> nat \<Rightarrow> nat \<Rightarrow> (nat \<times> nat \<times> tree_node) list \<Rightarrow> bool" where
  "items_sound obj ps kl items \<longleftrightarrow> (\<forall>(d, h, t) \<in> set items. subtree obj ps kl h t \<and> d + h \<le> 16)"

definition items_pages :: "(nat \<times> nat \<times> tree_node) list \<Rightarrow> nat" where
  "items_pages items = sum_list (map (\<lambda>(d, h, t). node_pages t) items)"

definition items_entries :: "(nat \<times> nat \<times> tree_node) list \<Rightarrow> index_entry list" where
  "items_entries items = concat (map (\<lambda>(d, h, t). node_entries t) items)"

lemmas items_defs = stack_of_def items_sound_def items_pages_def items_entries_def

lemma items_same_height:
  "stack_of (map (\<lambda>t. (d, h, t)) ts) = map (\<lambda>t. (node_page t, d)) ts"
  "items_pages (map (\<lambda>t. (d, h, t)) ts) = sum_list (map node_pages ts)"
  "items_entries (map (\<lambda>t. (d, h, t)) ts) = concat (map node_entries ts)"
  by (simp_all add: items_defs comp_def)

lemma items_append:
  "stack_of (xs @ ys) = stack_of xs @ stack_of ys" "items_pages (xs @ ys) = items_pages xs + items_pages ys"
  "items_entries (xs @ ys) = items_entries xs @ items_entries ys"
  "items_sound obj ps kl (xs @ ys) \<longleftrightarrow> items_sound obj ps kl xs \<and> items_sound obj ps kl ys"
  by (simp_all add: items_defs ball_Un)

lemma walk_leaf_step:
  assumes at: "page < length obj div ps" "visited + 1 \<le> length obj div ps" "depth \<le> 16"
    and leaf: "u16_at (page_of ps obj page) 0 AND FLAG_LEAF \<noteq> 0"
    and read: "yields check (read_leaf (page_of ps obj page) kl (u16_at (page_of ps obj page) 2) out check) out'"
    and rest: "yields check (index_walk obj ps kl check (visited + 1) stack out') res"
  shows "yields check (index_walk obj ps kl check visited ((page, depth) # stack) out) res"
  unfolding index_walk.simps(2) page_slice Let_def
proof (rule yields_check)
  fix u
  have no: "\<not> (page \<ge> length obj div ps \<or> visited + 1 > length obj div ps \<or> depth > 16)" using at by simp
  show "yields check
          (if page \<ge> length obj div ps \<or> visited + 1 > length obj div ps \<or> depth > 16 then fail (corrupt (In_Index Index_Outside))
           else if u16_at (page_of ps obj page) 0 AND FLAG_LEAF \<noteq> 0
                then and_then (read_leaf (page_of ps obj page) kl (u16_at (page_of ps obj page) 2) out check)
                       (index_walk obj ps kl check (visited + 1) stack)
                else if BRANCH_HEADER + u16_at (page_of ps obj page) 2 * (kl + 8) > ps then fail (corrupt (In_Index Index_Branch_Full))
                     else index_walk obj ps kl check (visited + 1)
                            (map (\<lambda>k. (be32_at (page_of ps obj page) (BRANCH_HEADER + k * (kl + 8) + kl + 4), depth + 1))
                               [0..<u16_at (page_of ps obj page) 2] @ stack) out) res"
    unfolding if_not_P [OF no] if_P [OF leaf] by (rule yields_then [where y = out']) (rule read, rule rest)
qed

lemma walk_branch_step:
  assumes at: "page < length obj div ps" "visited + 1 \<le> length obj div ps" "depth \<le> 16"
    and branch: "u16_at (page_of ps obj page) 0 AND FLAG_LEAF = 0"
    and room: "12 + u16_at (page_of ps obj page) 2 * (kl + 8) \<le> ps"
    and rest: "yields check (index_walk obj ps kl check (visited + 1)
        (map (\<lambda>k. (be32_at (page_of ps obj page) (12 + k * (kl + 8) + kl + 4), depth + 1))
           [0..<u16_at (page_of ps obj page) 2] @ stack) out) res"
  shows "yields check (index_walk obj ps kl check visited ((page, depth) # stack) out) res"
  unfolding index_walk.simps(2) page_slice Let_def
proof (rule yields_check)
  fix u
  have no: "\<not> (page \<ge> length obj div ps \<or> visited + 1 > length obj div ps \<or> depth > 16)" using at by simp
  have no_leaf: "\<not> u16_at (page_of ps obj page) 0 AND FLAG_LEAF \<noteq> 0" using branch by simp
  have fits: "\<not> BRANCH_HEADER + u16_at (page_of ps obj page) 2 * (kl + 8) > ps" using room by (simp add: BRANCH_HEADER_def)
  show "yields check
          (if page \<ge> length obj div ps \<or> visited + 1 > length obj div ps \<or> depth > 16 then fail (corrupt (In_Index Index_Outside))
           else if u16_at (page_of ps obj page) 0 AND FLAG_LEAF \<noteq> 0
                then and_then (read_leaf (page_of ps obj page) kl (u16_at (page_of ps obj page) 2) out check)
                       (index_walk obj ps kl check (visited + 1) stack)
                else if BRANCH_HEADER + u16_at (page_of ps obj page) 2 * (kl + 8) > ps then fail (corrupt (In_Index Index_Branch_Full))
                     else index_walk obj ps kl check (visited + 1)
                            (map (\<lambda>k. (be32_at (page_of ps obj page) (BRANCH_HEADER + k * (kl + 8) + kl + 4), depth + 1))
                               [0..<u16_at (page_of ps obj page) 2] @ stack) out) res"
    unfolding if_not_P [OF no] if_not_P [OF no_leaf] if_not_P [OF fits] using rest by (simp only: BRANCH_HEADER_def)
qed

lemma index_walk_items:
  assumes kl: "kl < 65536" and ps: "ps \<le> 65536"
  shows "items_sound obj ps kl items \<Longrightarrow> visited + items_pages items \<le> length obj div ps \<Longrightarrow>
     yields check (index_walk obj ps kl check visited (stack_of items) out) (out @ items_entries items)"
proof (induction "items_pages items" arbitrary: items visited out rule: less_induct)
  case less
  show ?case
  proof (cases items)
    case Nil
    then show ?thesis by (simp add: items_defs)
  next
    case (Cons item rest)
    obtain d h n m es where item: "item = (d, h, (n, m, es))" by (metis prod_cases5)
    have tree: "subtree obj ps kl h (n, m, es)" and depth: "d + h \<le> 16" and rest: "items_sound obj ps kl rest"
      using less.prems(1) by (simp_all add: Cons item items_sound_def)
    have pgs: "items_pages items = m + items_pages rest" and ents: "items_entries items = es @ items_entries rest"
      and stk: "stack_of items = (n, d) # stack_of rest"
      by (simp_all add: Cons item items_defs)
    show ?thesis
    proof (cases h)
      case 0
      obtain flags prev next_page les where leaf: "m = 1" "es = map plain_entry les" "n < length obj div ps"
          "page_of ps obj n = leaf_page ps kl flags prev next_page les" "flags AND FLAG_LEAF \<noteq> 0" "flags < 65536"
          "fits_leaf kl (ps - 30) les" "30 \<le> ps"
        using tree unfolding 0 by (elim leaf_treeE) simp
      have fit: "packs kl (replicate kl 0) les" "30 + length les * 8 + stored_sizes kl les \<le> ps"
        using fits_leafD [OF leaf(7)] leaf(8) by simp_all
      note page = leaf_page_holds [OF fit, of flags prev next_page]
      have count: "length les < 65536" using fit(2) ps by simp
      have flag: "u16_at (page_of ps obj n) 0 = flags" "u16_at (page_of ps obj n) 2 = length les"
        using page(3,4) leaf(6) count by (simp_all add: leaf(4) u16_at_def from_le16 del: add_2_eq_Suc')
      have IH: "yields check (index_walk obj ps kl check (visited + 1) (stack_of rest) (out @ es))
          ((out @ es) @ items_entries rest)"
        by (rule less.hyps) (use pgs leaf(1) rest less.prems(2) in simp_all)
      show ?thesis
        unfolding stk ents
      proof (rule walk_leaf_step [OF leaf(3)])
        show "yields check (read_leaf (page_of ps obj n) kl (u16_at (page_of ps obj n) 2) out check) (out @ es)"
          unfolding flag(2) unfolding leaf(4) leaf(2) by (rule read_written_leaf [OF fit kl ps])
        show "yields check (index_walk obj ps kl check (visited + 1) (stack_of rest) (out @ es)) (out @ es @ items_entries rest)"
          using IH by simp
      qed (use flag leaf depth less.prems(2) pgs in simp_all)
    next
      case (Suc h')
      obtain flags prev next_page grp ts where br: "m = Suc (sum_list (map node_pages ts))"
          "es = concat (map node_entries ts)" "n < length obj div ps"
          "page_of ps obj n = branch_page ps kl flags prev next_page grp" "flags AND FLAG_LEAF = 0" "flags < 65536"
          "12 + length grp * (kl + 8) \<le> ps" "\<forall>(c, r, key) \<in> set grp. length key = kl \<and> c \<le> u32_max"
          "map fst grp = map node_page ts" "\<forall>t \<in> set ts. subtree obj ps kl h' t"
        using tree unfolding Suc by (elim branch_treeE) (rule that; (assumption | simp))
      have "length grp * 8 \<le> length grp * (kl + 8)" by (rule mult_le_mono2) simp
      then have count: "length grp < 65536" using br(7) ps by linarith
      note page = branch_page_reads [OF br(7,8) count br(6), where prev = prev and next_page = next_page]
      have flag: "u16_at (page_of ps obj n) 0 = flags" "u16_at (page_of ps obj n) 2 = length grp"
        using page(2,3) by (simp_all add: br(4))
      let ?kids = "map (\<lambda>t. (d + 1, h', t)) ts"
      have kids: "map (\<lambda>k. (be32_at (page_of ps obj n) (12 + k * (kl + 8) + kl + 4), d + 1)) [0..<length grp]
          = stack_of ?kids"
      proof (rule nth_equalityI)
        have len: "length grp = length ts" using br(9) by (metis length_map)
        show "length (map (\<lambda>k. (be32_at (page_of ps obj n) (12 + k * (kl + 8) + kl + 4), d + 1)) [0..<length grp])
            = length (stack_of ?kids)" by (simp add: stack_of_def len)
        show "map (\<lambda>k. (be32_at (page_of ps obj n) (12 + k * (kl + 8) + kl + 4), d + 1)) [0..<length grp] ! i
            = stack_of ?kids ! i"
          if "i < length (map (\<lambda>k. (be32_at (page_of ps obj n) (12 + k * (kl + 8) + kl + 4), d + 1)) [0..<length grp])" for i
        proof -
          have i: "i < length grp" using that by simp
          have "be32_at (page_of ps obj n) (12 + i * (kl + 8) + kl + 4) = fst (grp ! i)"
            unfolding br(4) by (rule page(4) [OF i])
          also have "\<dots> = node_page (ts ! i)" using i br(9) len by (metis nth_map)
          finally show ?thesis using i len by (simp add: stack_of_def)
        qed
      qed
      have IH: "yields check (index_walk obj ps kl check (visited + 1) (stack_of (?kids @ rest)) out)
          (out @ items_entries (?kids @ rest))"
      proof (rule less.hyps)
        show "items_pages (?kids @ rest) < items_pages items" by (simp add: items_append items_same_height pgs br(1))
        show "items_sound obj ps kl (?kids @ rest)"
          using br(10) depth Suc rest by (auto simp: items_append) (auto simp: items_sound_def)
        show "visited + 1 + items_pages (?kids @ rest) \<le> length obj div ps"
          using less.prems(2) by (simp add: items_append items_same_height pgs br(1))
      qed
      show ?thesis
        unfolding stk ents
      proof (rule walk_branch_step [OF br(3)])
        show "yields check (index_walk obj ps kl check (visited + 1)
            (map (\<lambda>k. (be32_at (page_of ps obj n) (12 + k * (kl + 8) + kl + 4), d + 1))
               [0..<u16_at (page_of ps obj n) 2] @ stack_of rest) out) (out @ es @ items_entries rest)"
          unfolding flag(2) kids using IH by (simp add: items_append items_same_height br(2))
      qed (use flag br depth less.prems(2) pgs in simp_all)
    qed
  qed
qed

end
