(* ===== verification/Filedb_Index_Levels.thy ===== *)
theory Filedb_Index_Levels
  imports Filedb_Index_Walk
begin

text \<open>
  The levels of a rebuilt tree: the pages handed out are never handed out twice, each level groups the one
  below, and the last page written is the root of a sound tree over all the entries.
\<close>

section \<open>Allocation\<close>

text \<open>What was handed out and what is left are the old pages and then new ones.\<close>

definition handed_out :: "nat list \<Rightarrow> nat \<Rightarrow> nat list \<Rightarrow> index_pool \<Rightarrow> bool" where
  "handed_out pool0 old used st \<longleftrightarrow> (case st of (pool, nx) \<Rightarrow>
     used @ pool = pool0 @ [old..<nx] \<and> old \<le> nx \<and> (pool \<noteq> [] \<longrightarrow> nx = old))"

lemma handed_out_alloc:
  "handed_out pool0 old used st \<Longrightarrow> index_alloc st = (n, st') \<Longrightarrow> handed_out pool0 old (used @ [n]) st'"
  by (cases st rule: index_alloc.cases) (auto simp: handed_out_def)

lemma handed_out_many:
  "handed_out pool0 old used st \<Longrightarrow> index_alloc_many k st = (ns, st') \<Longrightarrow>
     handed_out pool0 old (used @ ns) st' \<and> length ns = k"
proof (induction k arbitrary: used st ns st')
  case (Suc k)
  obtain n s1 where a: "index_alloc st = (n, s1)" by (cases "index_alloc st")
  obtain ms s2 where b: "index_alloc_many k s1 = (ms, s2)" by (cases "index_alloc_many k s1")
  have "handed_out pool0 old ((used @ [n]) @ ms) s2 \<and> length ms = k"
    by (rule Suc.IH [OF handed_out_alloc [OF Suc.prems(1) a] b])
  then show ?case using Suc.prems(2) a b by auto
qed simp

lemma index_alloc_many_length: "index_alloc_many k st = (ns, st') \<Longrightarrow> length ns = k"
  by (induction k arbitrary: st ns st') (auto split: prod.splits)

section \<open>Groups\<close>

lemma chunks_map: "0 < n \<Longrightarrow> chunks n (map f xs) = map (map f) (chunks n xs)"
proof (induction n xs rule: chunks.induct)
  case (1 n xs)
  then show ?case by (cases "xs = []") (simp_all add: chunks_nonempty take_map drop_map)
qed

lemma chunks_elements: "0 < n \<Longrightarrow> c \<in> set (chunks n xs) \<Longrightarrow> set c \<subseteq> set xs"
  using concat_chunks [of n xs] by (metis Sup_upper image_eqI set_concat)

definition holds_pages :: "bytes \<Rightarrow> nat \<Rightarrow> (nat \<times> bytes) list \<Rightarrow> bool" where
  "holds_pages obj ps pgs \<longleftrightarrow> (\<forall>(n, c) \<in> set pgs. n < length obj div ps \<and> page_of ps obj n = c)"

definition level_keys :: "nat \<Rightarrow> level_node list \<Rightarrow> bool" where
  "level_keys kl level \<longleftrightarrow> (\<forall>(c, r, key) \<in> set level. length key = kl)"

definition level_sound :: "bytes \<Rightarrow> nat \<Rightarrow> nat \<Rightarrow> nat \<Rightarrow> level_node list \<Rightarrow> tree_node list \<Rightarrow> bool" where
  "level_sound obj ps kl h level ts \<longleftrightarrow>
     map fst level = map node_page ts \<and> (\<forall>t \<in> set ts. subtree obj ps kl h t)"

lemma upper_nodes_keys:
  assumes "level_keys kl level" and "0 < pb"
  shows "level_keys kl (upper_nodes numbers (chunks pb level))"
  unfolding level_keys_def
proof
  fix node assume "node \<in> set (upper_nodes numbers (chunks pb level))"
  then obtain n grp where g: "grp \<in> set (chunks pb level)" "node = (n, snd (last grp))"
    by (auto simp: upper_nodes_def dest: set_zip_rightD)
  have "last grp \<in> set level"
    using g(1) length_chunk [OF g(1)] assms(2) chunks_elements [OF assms(2) g(1)] by auto
  then show "case node of (c, r, key) \<Rightarrow> length key = kl"
    using assms(1) g(2) by (cases "last grp") (auto simp: level_keys_def)
qed

lemma length_put_children:
  "12 + (k + length grp) * (kl + 8) \<le> length p \<Longrightarrow> level_keys kl grp \<Longrightarrow> length (put_children kl k grp p) = length p"
proof (induction kl k grp p rule: put_children.induct)
  case (2 kl k child rec key grp p)
  have key: "length key = kl" using "2.prems"(2) by (simp add: level_keys_def)
  then have room: "12 + k * (kl + 8) + (kl + 8) + length grp * (kl + 8) \<le> length p"
    using "2.prems"(1) by (simp add: algebra_simps)
  then have l: "length (put (12 + k * (kl + 8)) (key @ be32 rec @ be32 child) p) = length p"
    using key by simp
  have "length (put_children kl (k + 1) grp (put (12 + k * (kl + 8)) (key @ be32 rec @ be32 child) p))
      = length (put (12 + k * (kl + 8)) (key @ be32 rec @ be32 child) p)"
    by (rule "2.IH") (use "2.prems" l in \<open>simp_all add: BRANCH_HEADER_def level_keys_def\<close>)
  then show ?case using l by (simp add: BRANCH_HEADER_def Let_def)
qed simp

lemma length_branch_page:
  assumes "12 + length grp * (kl + 8) \<le> ps" and "level_keys kl grp"
  shows "length (branch_page ps kl flags prev next_page grp) = ps"
  using assms by (simp add: branch_page_def length_put_children)

lemma sum_list_Suc: "sum_list (map (\<lambda>x. Suc (f x)) xs) = length xs + sum_list (map f xs)"
  by (induction xs) simp_all

text \<open>One level up.\<close>

lemma upper_level_sound:
  assumes level: "level_sound obj ps kl h level ts" and keys: "level_keys kl level"
    and numbers: "length numbers = length (chunks pb level)" and pb: "0 < pb" "12 + pb * (kl + 8) \<le> ps"
    and held: "holds_pages obj ps (branch_pages ps kl numbers (chunks pb level))"
    and small: "length obj div ps \<le> u32_max" and below: "\<forall>n \<in> set (map fst level). n < length obj div ps"
  shows "\<exists>ts'. level_sound obj ps kl (Suc h) (upper_nodes numbers (chunks pb level)) ts'
     \<and> concat (map node_entries ts') = concat (map node_entries ts)
     \<and> sum_list (map node_pages ts') = length numbers + sum_list (map node_pages ts)"
proof -
  define gs where "gs = chunks pb level"
  define tgs where "tgs = chunks pb ts"
  define ts' where "ts' = map (\<lambda>(n, tg). (n, Suc (sum_list (map node_pages tg)), concat (map node_entries tg))) (zip numbers tgs)"
  have fsts: "map (map fst) gs = map (map node_page) tgs"
    using level pb(1) by (simp add: gs_def tgs_def chunks_map [symmetric] level_sound_def)
  then have len: "length tgs = length gs" by (metis length_map)
  have nlen: "length numbers = length gs" using numbers by (simp add: gs_def)
  have tree: "subtree obj ps kl (Suc h) (numbers ! i, Suc (sum_list (map node_pages (tgs ! i))), concat (map node_entries (tgs ! i)))"
    if "i < length gs" for i
  proof -
    have gi: "gs ! i \<in> set (chunks pb level)" using that by (simp add: gs_def)
    have page: "(numbers ! i, branch_page ps kl (if length gs = 1 then FLAG_ROOT else 0)
          (previous_page numbers i) (following_page numbers i) (gs ! i)) \<in> set (branch_pages ps kl numbers gs)"
      using that by (auto simp: branch_pages_def)
    note at = held [folded gs_def, unfolded holds_pages_def, rule_format, OF page, unfolded prod.case]
    have sub: "set (gs ! i) \<subseteq> set level" by (rule chunks_elements [OF pb(1) gi])
    have "length (gs ! i) \<le> pb" using length_chunk [OF gi] pb(1) by blast
    then have fits: "12 + length (gs ! i) * (kl + 8) \<le> ps"
      using pb(2) by (meson add_left_mono le_trans mult_le_mono1)
    have children: "\<forall>(c, r, key) \<in> set (gs ! i). length key = kl \<and> c \<le> u32_max"
    proof
      fix node assume n: "node \<in> set (gs ! i)"
      then have "fst node < length obj div ps" using below sub by auto
      then show "case node of (c, r, key) \<Rightarrow> length key = kl \<and> c \<le> u32_max"
        using n sub keys small by (auto simp: level_keys_def)
    qed
    have firsts: "map fst (gs ! i) = map node_page (tgs ! i)"
      using fsts that len by (metis nth_map)
    have subs: "\<forall>t \<in> set (tgs ! i). subtree obj ps kl h t"
    proof
      fix t assume "t \<in> set (tgs ! i)"
      moreover have "tgs ! i \<in> set (chunks pb ts)" using that len by (simp add: tgs_def)
      ultimately have "t \<in> set ts" using chunks_elements [OF pb(1)] by blast
      then show "subtree obj ps kl h t" using level by (simp add: level_sound_def)
    qed
    show ?thesis
      by (rule subtree.branch [OF conjunct1 [OF at] conjunct2 [OF at] _ _ fits children firsts subs])
        (simp_all add: FLAG_LEAF_def FLAG_ROOT_def)
  qed
  have "map fst (upper_nodes numbers gs) = map node_page ts'"
    using len nlen by (auto simp: upper_nodes_def ts'_def list_eq_iff_nth_eq)
  moreover have "\<forall>t \<in> set ts'. subtree obj ps kl (Suc h) t"
    using tree len nlen by (auto simp: ts'_def in_set_conv_nth)
  moreover have "concat (map node_entries ts') = concat (map node_entries (concat tgs))"
  proof -
    have "concat (map node_entries ts') = concat (map (\<lambda>tg. concat (map node_entries tg)) (map snd (zip numbers tgs)))"
      by (simp add: ts'_def split_beta comp_def)
    also have "map snd (zip numbers tgs) = tgs" using len nlen by simp
    also have "concat (map (\<lambda>tg. concat (map node_entries tg)) tgs) = concat (map node_entries (concat tgs))"
      by (induction tgs) simp_all
    finally show ?thesis .
  qed
  moreover have "sum_list (map node_pages ts') = length numbers + sum_list (map node_pages (concat tgs))"
  proof -
    have "map node_pages ts' = map (\<lambda>tg. Suc (sum_list (map node_pages tg))) (map snd (zip numbers tgs))"
      by (simp add: ts'_def split_beta comp_def)
    also have "map snd (zip numbers tgs) = tgs" using len nlen by simp
    finally have "sum_list (map node_pages ts') = length tgs + sum_list (map (\<lambda>tg. sum_list (map node_pages tg)) tgs)"
      by (simp add: sum_list_Suc)
    moreover have "sum_list (map node_pages (concat tgs)) = sum_list (map (\<lambda>tg. sum_list (map node_pages tg)) tgs)"
      by (induction tgs) simp_all
    ultimately show ?thesis using len nlen by simp
  qed
  moreover have "concat tgs = ts" by (simp add: tgs_def concat_chunks [OF pb(1)])
  ultimately show ?thesis unfolding level_sound_def gs_def [symmetric] by metis
qed

section \<open>All levels\<close>

lemma build_levels_step:
  "1 < length level \<and> 2 \<le> pb \<Longrightarrow> index_alloc_many (length (chunks pb level)) st = (numbers, st') \<Longrightarrow>
     build_levels ps kl pb level root pgs st =
     build_levels ps kl pb (upper_nodes numbers (chunks pb level)) (numbers ! 0)
       (pgs @ branch_pages ps kl numbers (chunks pb level)) st'"
  by (subst build_levels.simps) (simp add: Let_def)

lemma build_levels_end:
  "\<not> (1 < length level \<and> 2 \<le> pb) \<Longrightarrow> build_levels ps kl pb level root pgs st = (root, pgs, st)"
  by (subst build_levels.simps) (rule if_not_P)

lemma map_fst_branch_pages:
  "length numbers = length gs \<Longrightarrow> map fst (branch_pages ps kl numbers gs) = numbers"
  by (rule nth_equalityI) (simp_all add: branch_pages_def)

lemma branch_pages_sized:
  assumes keys: "level_keys kl level" and pb: "0 < pb" "12 + pb * (kl + 8) \<le> ps"
  shows "\<forall>(n, c) \<in> set (branch_pages ps kl numbers (chunks pb level)). length c = ps"
proof
  fix x assume "x \<in> set (branch_pages ps kl numbers (chunks pb level))"
  then obtain i flags prev next_page where i: "i < length (chunks pb level)"
      "snd x = branch_page ps kl flags prev next_page (chunks pb level ! i)"
    by (auto simp: branch_pages_def)
  let ?g = "chunks pb level ! i"
  have gi: "?g \<in> set (chunks pb level)" using i(1) by simp
  have "length ?g \<le> pb" using length_chunk [OF gi] pb(1) by blast
  then have "12 + length ?g * (kl + 8) \<le> ps"
    using pb(2) by (meson add_left_mono le_trans mult_le_mono1)
  moreover have "level_keys kl ?g"
    using keys chunks_elements [OF pb(1) gi] by (auto simp: level_keys_def)
  ultimately show "case x of (n, c) \<Rightarrow> length c = ps"
    using i(2) by (cases x) (simp add: length_branch_page)
qed

lemma build_levels_pages:
  "build_levels ps kl pb level root pgs st = (root', pgs', st') \<Longrightarrow> level_keys kl level \<Longrightarrow>
   12 + pb * (kl + 8) \<le> ps \<Longrightarrow> handed_out pool0 old (map fst pgs) st \<Longrightarrow> \<forall>(n, c) \<in> set pgs. length c = ps \<Longrightarrow>
     handed_out pool0 old (map fst pgs') st' \<and> (\<forall>(n, c) \<in> set pgs'. length c = ps) \<and> (\<exists>more. pgs' = pgs @ more)"
proof (induction ps kl pb level root pgs st rule: build_levels.induct)
  case (1 ps kl pb level root pgs st)
  show ?case
  proof (cases "length level > 1 \<and> pb \<ge> 2")
    case True
    define gs where "gs = chunks pb level"
    obtain numbers s1 where al: "index_alloc_many (length gs) st = (numbers, s1)"
      by (cases "index_alloc_many (length gs) st")
    let ?new = "branch_pages ps kl numbers gs"
    have pb: "0 < pb" using True by simp
    have out: "handed_out pool0 old (map fst pgs @ numbers) s1" "length numbers = length gs"
      using handed_out_many [OF "1.prems"(4) al] by blast+
    have firsts: "map fst (pgs @ ?new) = map fst pgs @ numbers"
      using map_fst_branch_pages [OF out(2)] by simp
    have lens: "\<forall>(n, c) \<in> set (pgs @ ?new). length c = ps"
      using "1.prems"(5) branch_pages_sized [OF "1.prems"(2) pb "1.prems"(3), of numbers] by (auto simp: gs_def)
    have go: "build_levels ps kl pb (upper_nodes numbers gs) (numbers ! 0) (pgs @ ?new) s1 = (root', pgs', st')"
      using "1.prems"(1) unfolding build_levels_step [OF True al [unfolded gs_def]] gs_def .
    have "handed_out pool0 old (map fst pgs') st' \<and> (\<forall>(n, c) \<in> set pgs'. length c = ps) \<and> (\<exists>more. pgs' = (pgs @ ?new) @ more)"
    proof (rule "1.IH" [OF True gs_def al [symmetric] go])
      show "level_keys kl (upper_nodes numbers gs)"
        unfolding gs_def by (rule upper_nodes_keys [OF "1.prems"(2) pb])
      show "handed_out pool0 old (map fst (pgs @ ?new)) s1" unfolding firsts by (rule out(1))
    qed (rule "1.prems"(3), rule lens)
    then show ?thesis by auto
  next
    case False
    then have "root' = root" "pgs' = pgs" "st' = st"
      using "1.prems"(1) unfolding build_levels_end [OF False] by simp_all
    then show ?thesis using "1.prems" by simp
  qed
qed

lemma chunks_power:
  assumes "0 < n" and "length xs \<le> n ^ Suc k"
  shows "length (chunks n xs) \<le> n ^ k"
proof -
  have "length (chunks n xs) = (length xs + (n - 1)) div n" by (rule length_chunks [OF assms(1)])
  also have "\<dots> \<le> (n ^ k * n + (n - 1)) div n" using assms(2) by (intro div_le_mono add_right_mono) (simp add: mult.commute)
  also have "\<dots> = n ^ k + (n - 1) div n" using assms(1) by (intro div_mult_self3) simp
  also have "\<dots> = n ^ k" using assms(1) by simp
  finally show ?thesis .
qed

lemma length_chunks_few:
  assumes "6 \<le> n" and "1 < length xs"
  shows "length (chunks n xs) = 1 \<or> 2 * length (chunks n xs) \<le> length xs"
proof -
  let ?c = "length (chunks n xs)"
  have c: "?c = (length xs + (n - 1)) div n" using assms(1) by (intro length_chunks) simp
  then have "?c * n \<le> length xs + (n - 1)" by (metis div_times_less_eq_dividend)
  moreover have "xs \<noteq> []" using assms(2) by auto
  then have pos: "0 < ?c" using assms(1) by (simp add: chunks_nonempty)
  moreover obtain m where "?c = Suc m" using pos by (cases ?c) simp_all
  ultimately have few: "(?c - 1) * n < length xs" using assms(1) by simp
  have "(?c - 1) * 6 \<le> (?c - 1) * n" using assms(1) by (rule mult_le_mono2)
  then have "(?c - 1) * 6 < length xs" using few by linarith
  then show ?thesis using pos by linarith
qed

lemma build_levels_few:
  "build_levels ps kl pb level root pgs st = (root', pgs', st') \<Longrightarrow> 6 \<le> pb \<Longrightarrow> level \<noteq> [] \<Longrightarrow>
     length pgs' \<le> length pgs + length level"
proof (induction ps kl pb level root pgs st rule: build_levels.induct)
  case (1 ps kl pb level root pgs st)
  show ?case
  proof (cases "length level > 1 \<and> pb \<ge> 2")
    case True
    define gs where "gs = chunks pb level"
    obtain numbers s1 where al: "index_alloc_many (length gs) st = (numbers, s1)"
      by (cases "index_alloc_many (length gs) st")
    have go: "build_levels ps kl pb (upper_nodes numbers gs) (numbers ! 0) (pgs @ branch_pages ps kl numbers gs) s1
        = (root', pgs', st')"
      using "1.prems"(1) unfolding build_levels_step [OF True al [unfolded gs_def]] gs_def .
    have numbers: "length numbers = length gs" using al by (rule index_alloc_many_length)
    have up: "length (upper_nodes numbers gs) = length gs" by (simp add: upper_nodes_def numbers)
    have pos: "gs \<noteq> []" using "1.prems"(2,3) by (simp add: gs_def chunks_nonempty)
    have few: "length gs = 1 \<or> 2 * length gs \<le> length level"
      unfolding gs_def using "1.prems"(2) True by (intro length_chunks_few) simp_all
    show ?thesis
    proof (cases "length gs = 1")
      case one: True
      have "pgs' = pgs @ branch_pages ps kl numbers gs"
        using go build_levels_end [of "upper_nodes numbers gs"] up one by simp
      then show ?thesis using one True by (simp add: branch_pages_def)
    next
      case False
      have "length pgs' \<le> length (pgs @ branch_pages ps kl numbers gs) + length (upper_nodes numbers gs)"
        by (rule "1.IH" [OF True gs_def al [symmetric] go "1.prems"(2)]) (use up pos in auto)
      then show ?thesis using few False up by (simp add: branch_pages_def)
    qed
  next
    case False
    then show ?thesis using "1.prems"(1) unfolding build_levels_end [OF False] by simp
  qed
qed

lemma build_levels_sound:
  "build_levels ps kl pb level root pgs st = (root', pgs', st') \<Longrightarrow> level_keys kl level \<Longrightarrow>
   level_sound obj ps kl h level ts \<Longrightarrow> level \<noteq> [] \<Longrightarrow> (length level = 1 \<longrightarrow> root = fst (hd level)) \<Longrightarrow>
   holds_pages obj ps pgs' \<Longrightarrow> \<forall>n \<in> set (map fst level). n < length obj div ps \<Longrightarrow> length obj div ps \<le> u32_max \<Longrightarrow>
   2 \<le> pb \<Longrightarrow> 12 + pb * (kl + 8) \<le> ps \<Longrightarrow> length level \<le> pb ^ k \<Longrightarrow>
   handed_out pool0 old (map fst pgs) st \<Longrightarrow> \<forall>(n, c) \<in> set pgs. length c = ps \<Longrightarrow>
     \<exists>h' t. subtree obj ps kl h' t \<and> node_page t = root' \<and> node_entries t = concat (map node_entries ts)
       \<and> node_pages t + length pgs = length pgs' + sum_list (map node_pages ts) \<and> h' \<le> h + k"
proof (induction ps kl pb level root pgs st arbitrary: h ts k rule: build_levels.induct)
  case (1 ps kl pb level root pgs st)
  show ?case
  proof (cases "length level > 1 \<and> pb \<ge> 2")
    case True
    define gs where "gs = chunks pb level"
    obtain numbers s1 where al: "index_alloc_many (length gs) st = (numbers, s1)"
      by (cases "index_alloc_many (length gs) st")
    let ?new = "branch_pages ps kl numbers gs"
    let ?up = "upper_nodes numbers gs"
    have pb: "0 < pb" using True by simp
    have out: "handed_out pool0 old (map fst pgs @ numbers) s1" "length numbers = length gs"
      using handed_out_many [OF "1.prems"(12) al] by blast+
    have go: "build_levels ps kl pb ?up (numbers ! 0) (pgs @ ?new) s1 = (root', pgs', st')"
      using "1.prems"(1) unfolding build_levels_step [OF True al [unfolded gs_def]] gs_def .
    have firsts: "map fst (pgs @ ?new) = map fst pgs @ numbers"
      using map_fst_branch_pages [OF out(2)] by simp
    obtain j where k: "k = Suc j" using "1.prems"(11) True by (cases k) auto
    have gs_ne: "gs \<noteq> []" using "1.prems"(4) pb by (simp add: gs_def chunks_nonempty)
    have pages1: "handed_out pool0 old (map fst (pgs @ ?new)) s1" using out firsts by simp
    have lens: "\<forall>(n, c) \<in> set (pgs @ ?new). length c = ps"
      using "1.prems"(13) branch_pages_sized [OF "1.prems"(2) pb "1.prems"(10), of numbers] by (auto simp: gs_def)
    have up_keys: "level_keys kl ?up" unfolding gs_def by (rule upper_nodes_keys [OF "1.prems"(2) pb])
    obtain more where more: "pgs' = (pgs @ ?new) @ more"
      using build_levels_pages [OF go up_keys "1.prems"(10) pages1 lens] by blast
    have held: "holds_pages obj ps ?new" using "1.prems"(6) by (auto simp: holds_pages_def more)
    obtain ts' where ts': "level_sound obj ps kl (Suc h) ?up ts'"
        "concat (map node_entries ts') = concat (map node_entries ts)"
        "sum_list (map node_pages ts') = length numbers + sum_list (map node_pages ts)"
      using upper_level_sound [OF "1.prems"(3,2) out(2) [unfolded gs_def] pb "1.prems"(10) held [unfolded gs_def]
          "1.prems"(8,7)] unfolding gs_def by blast
    have firsts_up: "map fst ?up = numbers" using out(2) by (simp add: upper_nodes_def split_beta comp_def)
    have up_len: "length ?up = length gs" using arg_cong [OF firsts_up, of length] out(2) by simp
    have up_ne: "?up \<noteq> []" using up_len gs_ne by auto
    have "\<exists>h' t. subtree obj ps kl h' t \<and> node_page t = root' \<and> node_entries t = concat (map node_entries ts')
       \<and> node_pages t + length (pgs @ ?new) = length pgs' + sum_list (map node_pages ts') \<and> h' \<le> Suc h + j"
    proof (rule "1.IH" [OF True gs_def al [symmetric] go up_keys ts'(1) up_ne])
      show "length ?up = 1 \<longrightarrow> numbers ! 0 = fst (hd ?up)"
        using firsts_up up_ne by (metis hd_conv_nth hd_map list.map_disc_iff)
      show "\<forall>n \<in> set (map fst ?up). n < length obj div ps"
        using held unfolding firsts_up by (force simp: holds_pages_def branch_pages_def in_set_conv_nth out(2))
      show "length ?up \<le> pb ^ j"
        unfolding up_len unfolding gs_def by (rule chunks_power [OF pb]) (use "1.prems"(11) k in simp)
    qed (rule "1.prems"(6) "1.prems"(8) "1.prems"(9) "1.prems"(10) pages1 lens)+
    moreover have "length (pgs @ ?new) = length pgs + length numbers" by (simp add: branch_pages_def out(2))
    ultimately show ?thesis using ts'(2,3) k by fastforce
  next
    case False
    then have eq: "root' = root" "pgs' = pgs" "st' = st"
      using "1.prems"(1) unfolding build_levels_end [OF False] by simp_all
    obtain node where level: "level = [node]"
      using False "1.prems"(4,9) by (cases level) (auto simp: not_less Suc_le_eq)
    then obtain t where ts: "ts = [t]" "node_page t = fst node"
      using "1.prems"(3) by (auto simp: level_sound_def map_eq_Cons_conv)
    show ?thesis
      using "1.prems"(3,5) ts level by (intro exI [of _ h] exI [of _ t]) (simp add: eq level_sound_def)
  qed
qed

end
