(* ===== verification/Filedb_Index_Tree.thy ===== *)
theory Filedb_Index_Tree
  imports Filedb_Index_Levels
begin

text \<open>
  The whole tree: \<open>index_rebuild\<close> lays the pages of the levels over the object, and reading the result
  with \<open>read_entries_checked\<close> gives back every entry, in the order of the keys.
\<close>

section \<open>Writing inside pages\<close>

lemma put_page_other:
  assumes "n * ps \<le> at" and "at + length bs \<le> (n + 1) * ps" and "(n + 1) * ps \<le> length obj" and "m \<noteq> n"
  shows "page_of ps (put at bs obj) m = page_of ps obj m"
proof (cases "m < n")
  case True
  then have "(m + 1) * ps \<le> n * ps" by (intro mult_le_mono1) simp
  then show ?thesis unfolding page_of_def using assms by (intro slice_put_before) simp_all
next
  case False
  then have "(n + 1) * ps \<le> m * ps" using assms(4) by (intro mult_le_mono1) simp
  then show ?thesis unfolding page_of_def using assms by (intro slice_put_after) simp_all
qed

lemma put_in_page:
  assumes "at + length bs \<le> ps" and "(n + 1) * ps \<le> length obj"
  shows "page_of ps (put (n * ps + at) bs obj) n = put at bs (page_of ps obj n)"
proof -
  have split: "obj = take (n * ps) obj @ page_of ps obj n @ drop (n * ps + ps) obj"
    unfolding page_of_def slice_def
    by (metis append_take_drop_id add_diff_cancel_left' drop_drop add.commute)
  have len: "length (page_of ps obj n) = ps" "length (take (n * ps) obj) = n * ps"
    using assms(2) by (simp_all add: page_of_def min_def)
  let ?a = "take (n * ps) obj" and ?p = "page_of ps obj n" and ?c = "drop (n * ps + ps) obj"
  have "put (n * ps + at) bs (?a @ ?p @ ?c) = ?a @ put at bs ?p @ ?c"
    using len assms(1) by (simp add: put_def)
  then have "put (n * ps + at) bs obj = ?a @ put at bs ?p @ ?c" by (simp only: split [symmetric])
  then show ?thesis using len assms(1) by (simp add: page_of_def slice_append_mid)
qed

lemma put_whole_page:
  assumes "length bs = ps" and "(n + 1) * ps \<le> length obj"
  shows "page_of ps (put (n * ps) bs obj) n = bs"
  unfolding page_of_def using assms by (intro slice_put_same) simp_all

lemma put_pages_Ok:
  "distinct (map fst pgs) \<Longrightarrow> \<forall>(n, c) \<in> set pgs. length c = ps \<and> (n + 1) * ps \<le> length out \<Longrightarrow>
     length (put_pages ps pgs out) = length out
     \<and> (\<forall>(n, c) \<in> set pgs. page_of ps (put_pages ps pgs out) n = c)
     \<and> (\<forall>m. m \<notin> set (map fst pgs) \<longrightarrow> page_of ps (put_pages ps pgs out) m = page_of ps out m)"
proof (induction ps pgs out rule: put_pages.induct)
  case (2 ps n c pgs out)
  have c: "length c = ps" "(n + 1) * ps \<le> length out" using "2.prems"(2) by simp_all
  let ?o = "put (n * ps) c out"
  have len: "length ?o = length out" using c by simp
  have IH: "length (put_pages ps pgs ?o) = length ?o"
     "\<forall>(n, c) \<in> set pgs. page_of ps (put_pages ps pgs ?o) n = c"
     "\<forall>m. m \<notin> set (map fst pgs) \<longrightarrow> page_of ps (put_pages ps pgs ?o) m = page_of ps ?o m"
    using "2.IH" "2.prems" len by simp_all
  have other: "page_of ps ?o m = page_of ps out m" if "m \<noteq> n" for m
    using c that by (intro put_page_other) simp_all
  have "n \<notin> set (map fst pgs)" using "2.prems"(1) by simp
  then have "page_of ps (put_pages ps pgs ?o) n = c"
    using IH(3) put_whole_page [OF c] by simp
  then show ?case using IH other len by simp
qed simp

lemma chain_free_Ok:
  "\<forall>n \<in> set ns. (n + 1) * ps \<le> length out \<Longrightarrow> 4 \<le> ps \<Longrightarrow>
     length (chain_free ps ns out) = length out
     \<and> (\<forall>m. m \<notin> set ns \<longrightarrow> page_of ps (chain_free ps ns out) m = page_of ps out m)"
proof (induction ps ns out rule: chain_free.induct)
  case (2 ps n ns out)
  have n: "(n + 1) * ps \<le> length out" using "2.prems"(1) by simp
  let ?z = "put (n * ps) (replicate ps 0) out"
  let ?o = "put (n * ps) (le32 (case ns of [] \<Rightarrow> 0 | m # _ \<Rightarrow> m)) ?z"
  have z: "length ?z = length out" using n by simp
  have len: "length ?o = length out" using n z "2.prems"(2) by (subst length_put) simp_all
  have IH: "length (chain_free ps ns ?o) = length ?o"
     "\<forall>m. m \<notin> set ns \<longrightarrow> page_of ps (chain_free ps ns ?o) m = page_of ps ?o m"
    using "2.IH" "2.prems" len by simp_all
  have other: "page_of ps ?o m = page_of ps out m" if "m \<noteq> n" for m
  proof -
    have "page_of ps ?o m = page_of ps ?z m"
      using n that z "2.prems"(2) by (intro put_page_other [of n]) simp_all
    also have "\<dots> = page_of ps out m"
      using n that by (intro put_page_other [of n]) simp_all
    finally show ?thesis .
  qed
  show ?case using IH other len by simp
qed simp

lemma number_in_page:
  assumes "d + 4 \<le> ps"
  shows "u32_at obj (n * ps + d) = u32_at (page_of ps obj n) d"
  using assms by (simp add: u32_at_def page_of_def slice_slice add.assoc)

lemma short_in_page:
  assumes "d + 2 \<le> ps"
  shows "u16_at obj (n * ps + d) = u16_at (page_of ps obj n) d"
  using assms by (simp add: u16_at_def page_of_def slice_slice add.assoc del: add_2_eq_Suc')

section \<open>The pages of a level of leaves\<close>

lemma leaf_nodes_eq:
  "length numbers = length leaves \<Longrightarrow> \<forall>leaf \<in> set leaves. leaf \<noteq> [] \<Longrightarrow>
     leaf_nodes numbers leaves = map (\<lambda>(n, leaf). (n, fst (last leaf), fst (snd (last leaf)))) (zip numbers leaves)"
  unfolding leaf_nodes_def
  by (induction numbers leaves rule: list_induct2) (auto split: prod.splits)

definition leaf_trees :: "nat list \<Rightarrow> leaf_entry list list \<Rightarrow> tree_node list" where
  "leaf_trees numbers leaves = map (\<lambda>(n, leaf). (n, 1, map plain_entry leaf)) (zip numbers leaves)"

lemma packs_keys: "packs kl prev es \<Longrightarrow> (rec, key, left, right) \<in> set es \<Longrightarrow> length key = kl"
  by (induction kl prev es rule: packs.induct) auto

lemma length_concat_nonempty: "\<forall>xs \<in> set xss. xs \<noteq> [] \<Longrightarrow> length xss \<le> length (concat xss)"
proof (induction xss)
  case (Cons xs xss)
  then show ?case by (cases xs) auto
qed simp

lemma leaf_nodes_length: "length (leaf_nodes numbers leaves) \<le> length numbers"
  unfolding leaf_nodes_def
proof (induction numbers arbitrary: leaves)
  case (Cons n ns)
  show ?case
  proof (cases leaves)
    case (Cons leaf ls)
    then show ?thesis using Cons.IH [of ls] by (auto split: prod.splits)
  qed simp
qed simp

lemma leaf_nodes_keys:
  assumes len: "length numbers = length leaves" and fit: "\<forall>leaf \<in> set leaves. fits_leaf kl b leaf"
  shows "level_keys kl (leaf_nodes numbers leaves)"
proof -
  have key: "length (fst (snd (last leaf))) = kl" if "leaf \<in> set leaves" "leaf \<noteq> []" for leaf
  proof -
    have "packs kl (replicate kl 0) leaf" using that fit by (auto simp: fits_leaf_def)
    then show ?thesis using packs_keys that(2) by (metis last_in_set prod.collapse)
  qed
  show ?thesis
    unfolding level_keys_def
  proof
    fix node assume "node \<in> set (leaf_nodes numbers leaves)"
    then obtain n leaf where "leaf \<in> set leaves" "leaf \<noteq> []" "node = (n, fst (last leaf), fst (snd (last leaf)))"
      unfolding leaf_nodes_def
      by (auto split: if_splits prod.splits dest: set_zip_rightD) (metis fst_conv snd_conv set_zip_rightD)
    then show "case node of (c, r, key) \<Rightarrow> length key = kl" using key by simp
  qed
qed

lemma leaf_pages_sound:
  assumes held: "holds_pages obj ps (leaf_pages ps kl numbers leaves)" and "length numbers = length leaves"
    and fit: "\<forall>leaf \<in> set leaves. fits_leaf kl (ps - 30) leaf" and "30 \<le> ps"
  shows "\<forall>t \<in> set (leaf_trees numbers leaves). subtree obj ps kl 0 t"
proof
  fix t assume "t \<in> set (leaf_trees numbers leaves)"
  then obtain i where i: "i < length leaves" "t = (numbers ! i, 1, map plain_entry (leaves ! i))"
    using assms(2) by (auto simp: leaf_trees_def set_zip)
  let ?flags = "if length leaves = 1 then FLAG_LEAF + FLAG_ROOT else FLAG_LEAF"
  have "(numbers ! i, leaf_page ps kl ?flags (previous_page numbers i) (following_page numbers i) (leaves ! i))
      \<in> set (leaf_pages ps kl numbers leaves)"
    using i(1) by (auto simp: leaf_pages_def)
  note at = held [unfolded holds_pages_def, rule_format, OF this, unfolded prod.case]
  have "fits_leaf kl (ps - 30) (leaves ! i)" using fit i(1) by simp
  then show "subtree obj ps kl 0 t"
    unfolding i(2)
    by (intro subtree.leaf [OF conjunct1 [OF at] conjunct2 [OF at]])
      (use assms(4) in \<open>simp_all add: FLAG_LEAF_def FLAG_ROOT_def\<close>)
qed

lemma leaf_pages_sized:
  assumes "\<forall>leaf \<in> set leaves. fits_leaf kl (ps - 30) leaf" and "30 \<le> ps"
  shows "\<forall>(n, c) \<in> set (leaf_pages ps kl numbers leaves). length c = ps"
proof
  fix x assume "x \<in> set (leaf_pages ps kl numbers leaves)"
  then obtain i flags prev next_page where i: "i < length leaves"
      "snd x = leaf_page ps kl flags prev next_page (leaves ! i)"
    by (auto simp: leaf_pages_def)
  have "fits_leaf kl (ps - 30) (leaves ! i)" using assms(1) i(1) by simp
  note fit = fits_leafD [OF this]
  have "30 + length (leaves ! i) * 8 + stored_sizes kl (leaves ! i) \<le> ps" using fit(2) assms(2) by simp
  from leaf_page_holds(2) [OF fit(1) this] show "case x of (n, c) \<Rightarrow> length c = ps"
    using i(2) by (cases x) simp
qed

section \<open>Rebuilding\<close>

lemma half_budget: "4096 \<le> ps \<Longrightarrow> (ps - 30) div 2 \<le> ps - 30 \<and> 8 + 392 \<le> (ps - 30) div (2 :: nat)"
  by linarith

lemma fits_leaf_mono: "fits_leaf kl a leaf \<Longrightarrow> a \<le> b \<Longrightarrow> fits_leaf kl b leaf"
  by (simp add: fits_leaf_def)

text \<open>Half a page of branch entries fits, and there are at least 6 of them.\<close>

lemma per_branch_bounds:
  fixes ps :: nat
  defines "pb \<equiv> max ((ps - 12) div 400 div 2 + 1) 2"
  assumes "4096 \<le> ps"
  shows "6 \<le> pb" and "12 + pb * 400 \<le> ps"
proof -
  define x where "x = (ps - 12) div 400"
  have "4084 \<le> ps - 12" using assms(2) by simp
  then have "4084 div 400 \<le> x" unfolding x_def by (rule div_le_mono)
  then have x: "10 \<le> x" by simp
  have pb: "pb = x div 2 + 1" using x by (simp add: pb_def x_def max_def)
  show "6 \<le> pb" using x unfolding pb by linarith
  have "pb \<le> x" using x unfolding pb by linarith
  then have "pb * 400 \<le> x * 400" by (rule mult_le_mono1)
  also have "\<dots> \<le> ps - 12" unfolding x_def by (rule div_times_less_eq_dividend)
  finally show "12 + pb * 400 \<le> ps" using assms(2) by linarith
qed

text \<open>The tree of the pages written, in any object that holds them.\<close>

lemma written_tree:
  assumes ps: "4096 \<le> ps" "ps \<le> 65536" and entries: "\<forall>(rec, key) \<in> set es. length key = 392 \<and> rec \<le> u32_max"
    and leaves: "leaves = fill_leaves 392 ((ps - 30) div 2) es"
    and alloc: "index_alloc_many (length leaves) (pool0, old) = (numbers, st)"
    and pb: "pb = max ((ps - 12) div 400 div 2 + 1) 2"
    and built: "build_levels ps 392 pb (leaf_nodes numbers leaves) (numbers ! 0) (leaf_pages ps 392 numbers leaves) st
        = (root, pgs, st')"
    and held: "holds_pages obj ps pgs" and small: "length obj div ps \<le> u32_max"
    and few: "length pgs \<le> length obj div ps"
  shows "\<exists>h t. subtree obj ps 392 h t \<and> node_page t = root \<and> node_entries t = es \<and> node_pages t = length pgs \<and> h \<le> 13"
proof -
  note fill = fill_leaves_filled [OF entries conjunct2 [OF half_budget [OF ps(1)]], folded leaves]
  have fit: "\<forall>leaf \<in> set leaves. fits_leaf 392 (ps - 30) leaf"
    using fill(2) fits_leaf_mono half_budget [OF ps(1)] by blast
  have "handed_out pool0 old [] (pool0, old)" by (simp add: handed_out_def)
  note out = handed_out_many [OF this alloc]
  have len: "length numbers = length leaves" using out by blast
  let ?lp = "leaf_pages ps 392 numbers leaves"
  let ?level = "leaf_nodes numbers leaves"
  have ps30: "30 \<le> ps" using ps(1) by simp
  have firsts: "map fst ?lp = numbers" by (rule nth_equalityI) (simp_all add: leaf_pages_def len)
  have out1: "handed_out pool0 old (map fst ?lp) st" using out by (simp add: firsts)
  note sized = leaf_pages_sized [OF fit ps30, of numbers]
  have keys: "level_keys 392 ?level" by (rule leaf_nodes_keys [OF len fit])
  note bounds = per_branch_bounds [OF ps(1), folded pb]
  have pb400: "12 + pb * (392 + 8) \<le> ps" using bounds(2) by simp
  obtain more where more: "pgs = ?lp @ more"
    using build_levels_pages [OF built keys pb400 out1 sized] by blast
  have held0: "holds_pages obj ps ?lp" using held by (auto simp: holds_pages_def more)
  note trees = leaf_pages_sound [OF held0 len fit ps30]
  show ?thesis
  proof (cases "es = []")
    case True
    then have lv: "leaves = [[]]" by (rule fill(5))
    obtain n where n: "numbers = [n]" using len lv by (cases numbers) auto
    have level: "?level = []" by (simp add: lv n leaf_nodes_def)
    have "root = n" "pgs = ?lp" using built unfolding level by (auto simp: build_levels_end n)
    moreover have "subtree obj ps 392 0 (n, 1, [])" using trees by (simp add: leaf_trees_def lv n)
    ultimately show ?thesis
      using True by (intro exI [of _ 0] exI [of _ "(n, 1, [])"]) (simp add: leaf_pages_def lv)
  next
    case False
    have level: "?level = map (\<lambda>(n, leaf). (n, fst (last leaf), fst (snd (last leaf)))) (zip numbers leaves)"
      by (rule leaf_nodes_eq [OF len fill(4) [OF False]])
    have level_firsts: "map fst ?level = numbers" by (simp add: level split_beta comp_def len)
    have level_len: "length ?level = length leaves" by (simp add: level len)
    have sound: "level_sound obj ps 392 0 ?level (leaf_trees numbers leaves)"
      unfolding level_sound_def level_firsts using trees by (simp add: leaf_trees_def split_beta comp_def len)
    have ne: "?level \<noteq> []" using fill(3) level_len by auto
    have "length leaves \<le> u32_max" using few small by (simp add: more leaf_pages_def)
    also have "\<dots> \<le> 6 ^ 13" by simp
    also have "\<dots> \<le> pb ^ 13" using bounds(1) by (rule power_mono) simp
    finally have depth: "length ?level \<le> pb ^ 13" by (simp only: level_len)
    obtain h t where t: "subtree obj ps 392 h t" "node_page t = root"
        "node_entries t = concat (map node_entries (leaf_trees numbers leaves))"
        "node_pages t + length ?lp = length pgs + sum_list (map node_pages (leaf_trees numbers leaves))" "h \<le> 0 + 13"
    proof -
      have "\<exists>h t. subtree obj ps 392 h t \<and> node_page t = root
          \<and> node_entries t = concat (map node_entries (leaf_trees numbers leaves))
          \<and> node_pages t + length ?lp = length pgs + sum_list (map node_pages (leaf_trees numbers leaves)) \<and> h \<le> 0 + 13"
      proof (rule build_levels_sound [OF built keys sound ne _ held _ small _ pb400 depth out1 sized])
        show "length ?level = 1 \<longrightarrow> numbers ! 0 = fst (hd ?level)"
          using level_firsts ne by (metis hd_conv_nth hd_map list.map_disc_iff)
        show "\<forall>n \<in> set (map fst ?level). n < length obj div ps"
        proof
          fix n assume "n \<in> set (map fst ?level)"
          then have "n \<in> set (map fst ?lp)" by (simp only: level_firsts firsts)
          then obtain c where "(n, c) \<in> set ?lp" by auto
          then show "n < length obj div ps" using held0 by (auto simp: holds_pages_def)
        qed
      qed (use bounds(1) in simp)
      then show ?thesis using that by blast
    qed
    have ents: "concat (map node_entries (leaf_trees numbers leaves)) = es"
    proof -
      have "map node_entries (leaf_trees numbers leaves) = map (map plain_entry) (map snd (zip numbers leaves))"
        by (simp add: leaf_trees_def split_beta comp_def)
      then show ?thesis using fill(1) len by simp
    qed
    have "map node_pages (leaf_trees numbers leaves) = map (\<lambda>_. 1) (zip numbers leaves)"
      by (simp add: leaf_trees_def split_beta comp_def)
    then have "sum_list (map node_pages (leaf_trees numbers leaves)) = length leaves" by (simp add: sum_list_triv len)
    then show ?thesis using t ents by (intro exI [of _ h] exI [of _ t]) (simp add: leaf_pages_def)
  qed
qed

text \<open>The object after the pages are laid over the old one.\<close>

definition index_laid :: "nat \<Rightarrow> bytes \<Rightarrow> nat \<Rightarrow> nat \<Rightarrow> nat \<Rightarrow> (nat \<times> bytes) list \<Rightarrow> nat list \<Rightarrow> bytes" where
  "index_laid ps old desc root tot pgs free =
     chain_free ps free
       (put 0 (le32 (case free of [] \<Rightarrow> 0 | n # _ \<Rightarrow> n))
         (put_pages ps pgs
           (put (desc * ps) (le32 root)
             (put (desc * ps) (slice (desc * ps) ((desc + 1) * ps) old)
               (put 0 (take ps old) (replicate (tot * ps) 0))))))"

lemma index_laid_Ok:
  assumes ps: "4 \<le> ps" and old: "length old = n0 * ps" "n0 \<le> tot" and desc: "0 < desc" "desc < n0"
    and pgs: "distinct (map fst pgs)" "\<forall>(n, c) \<in> set pgs. length c = ps \<and> n < tot \<and> n \<noteq> 0 \<and> n \<noteq> desc"
    and free: "\<forall>n \<in> set free. n < tot \<and> n \<noteq> 0 \<and> n \<noteq> desc \<and> n \<notin> set (map fst pgs)"
  shows "length (index_laid ps old desc root tot pgs free) = tot * ps"
    and "\<exists>head. page_of ps (index_laid ps old desc root tot pgs free) 0 = put 0 (le32 head) (page_of ps old 0)"
    and "page_of ps (index_laid ps old desc root tot pgs free) desc = put 0 (le32 root) (page_of ps old desc)"
    and "\<forall>(n, c) \<in> set pgs. page_of ps (index_laid ps old desc root tot pgs free) n = c"
proof -
  have inside: "(n + 1) * ps \<le> tot * ps" if "n < tot" for n using that by (intro mult_le_mono1) simp
  have inside_old: "(n + 1) * ps \<le> length old" if "n < n0" for n using that old by (simp only: mult_le_mono1 Suc_eq_plus1 [symmetric] Suc_leI)
  have desc_tot: "desc < tot" and zero_tot: "0 < tot" using desc old by simp_all
  define o0 where "o0 = put 0 (take ps old) (replicate (tot * ps) (0 :: u8))"
  define o1 where "o1 = put (desc * ps) (page_of ps old desc) o0"
  define o2 where "o2 = put (desc * ps) (le32 root) o1"
  define o3 where "o3 = put_pages ps pgs o2"
  define head where "head = (case free of [] \<Rightarrow> 0 | n # _ \<Rightarrow> n)"
  define o4 where "o4 = put 0 (le32 head) o3"
  have laid: "index_laid ps old desc root tot pgs free = chain_free ps free o4"
    by (simp only: index_laid_def page_slice o4_def o3_def o2_def o1_def o0_def head_def)
  have first: "length (take ps old) = ps" "take ps old = page_of ps old 0"
    using inside_old [of 0] desc by (simp_all add: page_of_def slice_def)
  have l0: "length o0 = tot * ps" unfolding o0_def using first inside [OF zero_tot] by (subst length_put) simp_all
  have p00: "page_of ps o0 0 = page_of ps old 0"
    using put_whole_page [of "take ps old" ps 0 "replicate (tot * ps) 0"] first inside [OF zero_tot] by (simp add: o0_def)
  have ld: "length (page_of ps old desc) = ps" using inside_old [OF desc(2)] by (intro length_page_of) simp
  have l1: "length o1 = tot * ps" unfolding o1_def using l0 ld inside [OF desc_tot] by (subst length_put) simp_all
  have p10: "page_of ps o1 0 = page_of ps old 0"
    unfolding o1_def using l0 ld inside [OF desc_tot] desc(1) p00 by (subst put_page_other [of desc]) simp_all
  have p1d: "page_of ps o1 desc = page_of ps old desc"
    unfolding o1_def using l0 ld inside [OF desc_tot] by (intro put_whole_page) simp_all
  have l2: "length o2 = tot * ps" unfolding o2_def using l1 ps inside [OF desc_tot] by (subst length_put) simp_all
  have p20: "page_of ps o2 0 = page_of ps old 0"
    unfolding o2_def using l1 ps inside [OF desc_tot] desc(1) p10 by (subst put_page_other [of desc]) simp_all
  have p2d: "page_of ps o2 desc = put 0 (le32 root) (page_of ps old desc)"
    unfolding o2_def using put_in_page [of 0 "le32 root" ps desc o1] l1 ps inside [OF desc_tot] p1d by simp
  have o3: "length o3 = length o2 \<and> (\<forall>(n, c) \<in> set pgs. page_of ps o3 n = c)
      \<and> (\<forall>m. m \<notin> set (map fst pgs) \<longrightarrow> page_of ps o3 m = page_of ps o2 m)"
    unfolding o3_def using pgs inside by (intro put_pages_Ok) (auto simp: l2)
  have not_in: "0 \<notin> set (map fst pgs)" "desc \<notin> set (map fst pgs)" using pgs(2) by auto
  have "1 * ps \<le> tot * ps" using zero_tot by (intro mult_le_mono1) simp
  then have four: "4 \<le> tot * ps" using ps by linarith
  have l4: "length o4 = tot * ps" unfolding o4_def using o3 l2 four by (subst length_put) simp_all
  have p40: "page_of ps o4 0 = put 0 (le32 head) (page_of ps old 0)"
    unfolding o4_def using put_in_page [of 0 "le32 head" ps 0 o3] o3 l2 ps inside [OF zero_tot] p20 not_in(1) by simp
  have p4: "page_of ps o4 m = page_of ps o3 m" if "m \<noteq> 0" for m
    unfolding o4_def using o3 l2 ps inside [OF zero_tot] that by (intro put_page_other [of 0]) simp_all
  have fin: "length (chain_free ps free o4) = length o4
      \<and> (\<forall>m. m \<notin> set free \<longrightarrow> page_of ps (chain_free ps free o4) m = page_of ps o4 m)"
    using free inside ps by (intro chain_free_Ok) (auto simp: l4)
  show "length (index_laid ps old desc root tot pgs free) = tot * ps" using fin l4 by (simp add: laid)
  have "0 \<notin> set free" "desc \<notin> set free" using free by auto
  then show "\<exists>head. page_of ps (index_laid ps old desc root tot pgs free) 0 = put 0 (le32 head) (page_of ps old 0)"
    "page_of ps (index_laid ps old desc root tot pgs free) desc = put 0 (le32 root) (page_of ps old desc)"
    using fin p40 p4 [of desc] o3 p2d not_in(2) desc(1) by (auto simp: laid)
  show "\<forall>(n, c) \<in> set pgs. page_of ps (index_laid ps old desc root tot pgs free) n = c"
  proof
    fix x assume x: "x \<in> set pgs"
    then have "fst x \<notin> set free" "fst x \<noteq> 0" using free pgs(2) by auto
    then have "page_of ps (index_laid ps old desc root tot pgs free) (fst x) = page_of ps o3 (fst x)"
      using fin p4 by (simp add: laid)
    then show "case x of (n, c) \<Rightarrow> page_of ps (index_laid ps old desc root tot pgs free) n = c"
      using o3 x by (cases x) auto
  qed
qed

lemma index_rebuild_Ok:
  assumes "index_rebuild old ps es0 = Ok new"
  obtains r0 es leaves numbers st pb root pgs rest nx desc where
    "index_descriptor old ps = Ok (r0, 392)" "desc = u32_at old 4" "es = sort_key snd es0" "distinct_adj (map snd es)"
    "leaves = fill_leaves 392 ((ps - 30) div 2) es"
    "index_alloc_many (length leaves) (filter (\<lambda>n. n \<noteq> desc) [1..<length old div ps], length old div ps) = (numbers, st)"
    "pb = max ((ps - 12) div 400 div 2 + 1) 2"
    "build_levels ps 392 pb (leaf_nodes numbers leaves) (numbers ! 0) (leaf_pages ps 392 numbers leaves) st
       = (root, pgs, (rest, nx))"
    "new = index_laid ps old desc root (max nx (length old div ps)) pgs (sort rest)"
proof -
  obtain r0 kl where d: "index_descriptor old ps = Ok (r0, kl)"
    using assms by (cases "index_descriptor old ps") (auto simp: index_rebuild_def)
  have kl: "kl = 392" using assms d by (simp add: index_rebuild_def CONFIG_KEY_LEN_def split: if_splits)
  let ?desc = "u32_at old 4" and ?es = "sort_key snd es0"
  let ?leaves = "fill_leaves 392 ((ps - 30) div 2) ?es"
  obtain numbers st where al: "index_alloc_many (length ?leaves)
      (filter (\<lambda>n. n \<noteq> ?desc) [1..<length old div ps], length old div ps) = (numbers, st)"
    by (rule prod.exhaust)
  let ?pb = "max ((ps - 12) div 400 div 2 + 1) 2"
  obtain root pgs rest nx where b: "build_levels ps 392 ?pb (leaf_nodes numbers ?leaves) (numbers ! 0)
      (leaf_pages ps 392 numbers ?leaves) st = (root, pgs, (rest, nx))"
    by (metis prod_cases4)
  have dist: "distinct_adj (map snd ?es)"
    using assms d kl by (simp add: index_rebuild_def CONFIG_KEY_LEN_def Let_def split: if_splits)
  have new: "new = index_laid ps old ?desc root (max nx (length old div ps)) pgs (sort rest)"
    using assms d kl dist al b
    by (simp add: index_rebuild_def CONFIG_KEY_LEN_def LEAF_HEADER_def BRANCH_HEADER_def Let_def index_laid_def
        split: if_splits)
  show ?thesis using that [OF d [unfolded kl] refl refl dist refl al refl b new] .
qed

lemma handed_out_facts:
  assumes "handed_out pool0 old used (rest, nx)" and "distinct pool0" and "\<forall>n \<in> set pool0. n < old \<and> n \<noteq> 0 \<and> n \<noteq> desc"
    and "0 < desc" "desc < old"
  shows "distinct used" and "\<forall>n \<in> set used. n < max nx old \<and> n \<noteq> 0 \<and> n \<noteq> desc"
    and "\<forall>n \<in> set rest. n < max nx old \<and> n \<noteq> 0 \<and> n \<noteq> desc \<and> n \<notin> set used"
    and "length used \<le> max nx old" and "max nx old \<le> old + length used"
proof -
  have eq: "used @ rest = pool0 @ [old..<nx]" using assms(1) by (simp add: handed_out_def)
  have "distinct (pool0 @ [old..<nx])" using assms(2,3) by auto
  then have d: "distinct (used @ rest)" by (simp only: eq)
  have all: "\<forall>n \<in> set (used @ rest). n < max nx old \<and> n \<noteq> 0 \<and> n \<noteq> desc"
    unfolding eq using assms(3-5) by auto
  show "distinct used" using d by simp
  show "\<forall>n \<in> set used. n < max nx old \<and> n \<noteq> 0 \<and> n \<noteq> desc" using all by simp
  show "\<forall>n \<in> set rest. n < max nx old \<and> n \<noteq> 0 \<and> n \<noteq> desc \<and> n \<notin> set used" using all d by auto
  have "length used = card (set used)" using d by (simp add: distinct_card)
  also have "\<dots> \<le> card {..<max nx old}" using all by (intro card_mono) auto
  finally show "length used \<le> max nx old" by simp
  have "rest = [] \<or> nx = old" "old \<le> nx" using assms(1) by (auto simp: handed_out_def)
  moreover have "rest = [] \<Longrightarrow> length used = length pool0 + (nx - old)" using arg_cong [OF eq, of length] by simp
  ultimately show "max nx old \<le> old + length used" by auto
qed

text \<open>An index object that holds the entries \<open>es\<close> in the order of its leaves.\<close>

definition index_holds :: "nat \<Rightarrow> bytes \<Rightarrow> index_entry list \<Rightarrow> bool" where
  "index_holds ps index es \<longleftrightarrow> (\<exists>h t root. index_descriptor index ps = Ok (root, 392) \<and> subtree index ps 392 h t
     \<and> node_page t = root \<and> node_entries t = es \<and> node_pages t \<le> length index div ps \<and> h \<le> 13 \<and> u32_at index 8 = 0)"

lemma rebuild_one_key: "index_rebuild old ps es = Ok new \<Longrightarrow> u32_at old 8 = 0"
  by (rule ccontr) (simp add: index_rebuild_def result_simps case_prod_unfold split: if_splits)

lemma rebuilt_tree:
  assumes new: "index_rebuild old ps es0 = Ok new" and ps: "4096 \<le> ps" "ps \<le> 65536"
    and entries: "\<forall>(rec, key) \<in> set es0. length key = 392 \<and> rec \<le> u32_max"
    and room: "length old div ps + 2 * length es0 + 2 \<le> u32_max"
  shows "index_holds ps new (sort_key snd es0)"
    and "length new \<le> u32_max * ps" and "length old \<le> length new"
    and "length new \<le> (length old div ps + 2 * length es0 + 2) * ps"
proof -
  from new obtain r0 es leaves numbers st pb root pgs rest nx desc where
    d: "index_descriptor old ps = Ok (r0, 392)" "desc = u32_at old 4" and es: "es = sort_key snd es0"
    and leaves: "leaves = fill_leaves 392 ((ps - 30) div 2) es"
    and al: "index_alloc_many (length leaves) (filter (\<lambda>n. n \<noteq> desc) [1..<length old div ps], length old div ps) = (numbers, st)"
    and pb: "pb = max ((ps - 12) div 400 div 2 + 1) 2"
    and b: "build_levels ps 392 pb (leaf_nodes numbers leaves) (numbers ! 0) (leaf_pages ps 392 numbers leaves) st
       = (root, pgs, (rest, nx))"
    and laid: "new = index_laid ps old desc root (max nx (length old div ps)) pgs (sort rest)"
    by (rule index_rebuild_Ok)
  have one_key: "u32_at old 8 = 0" by (rule rebuild_one_key [OF new])
  let ?n0 = "length old div ps" and ?tot = "max nx (length old div ps)"
  let ?pool = "filter (\<lambda>n. n \<noteq> desc) [1..<?n0]"
  have sizes: "length old mod ps = 0" "2 * ps \<le> length old" and desc: "0 < desc" "desc < ?n0"
    and key_len: "u16_at old (desc * ps + 4) = 392"
    using d by (auto simp: index_descriptor_def Let_def split: if_splits)
  have old: "length old = ?n0 * ps" using sizes(1) by (simp add: mod_eq_0_iff_dvd)
  have ents: "\<forall>(rec, key) \<in> set es. length key = 392 \<and> rec \<le> u32_max" using entries by (simp add: es)
  note fill = fill_leaves_filled [OF ents conjunct2 [OF half_budget [OF ps(1)]], folded leaves]
  have ps30: "30 \<le> ps" and ps4: "4 \<le> ps" and ps0: "0 < ps" using ps(1) by simp_all
  have fit: "\<forall>leaf \<in> set leaves. fits_leaf 392 (ps - 30) leaf"
    using fill(2) fits_leaf_mono half_budget [OF ps(1)] by blast
  have "handed_out ?pool ?n0 [] (?pool, ?n0)" by (simp add: handed_out_def)
  note out = handed_out_many [OF this al]
  have len: "length numbers = length leaves" using out by blast
  have firsts: "map fst (leaf_pages ps 392 numbers leaves) = numbers"
    by (rule nth_equalityI) (simp_all add: leaf_pages_def len)
  have out1: "handed_out ?pool ?n0 (map fst (leaf_pages ps 392 numbers leaves)) st" using out by (simp add: firsts)
  have keys: "level_keys 392 (leaf_nodes numbers leaves)" by (rule leaf_nodes_keys [OF len fit])
  have pb400: "12 + pb * (392 + 8) \<le> ps" using per_branch_bounds(2) [OF ps(1), folded pb] by simp
  have pages: "handed_out ?pool ?n0 (map fst pgs) (rest, nx)" "\<forall>(n, c) \<in> set pgs. length c = ps"
    using build_levels_pages [OF b keys pb400 out1 leaf_pages_sized [OF fit ps30]] by blast+
  have "distinct ?pool" "\<forall>n \<in> set ?pool. n < ?n0 \<and> n \<noteq> 0 \<and> n \<noteq> desc" by auto
  note facts = handed_out_facts [OF pages(1) this desc]
  have pgs: "\<forall>(n, c) \<in> set pgs. length c = ps \<and> n < ?tot \<and> n \<noteq> 0 \<and> n \<noteq> desc"
    using pages(2) facts(2) by auto
  have free: "\<forall>n \<in> set (sort rest). n < ?tot \<and> n \<noteq> 0 \<and> n \<noteq> desc \<and> n \<notin> set (map fst pgs)"
    using facts(3) by simp
  note laid_Ok = index_laid_Ok [OF ps4 old max.cobounded2 desc facts(1) pgs free, of root, folded laid]
  have tot: "length new div ps = ?tot" using laid_Ok(1) ps0 by simp
  have held: "holds_pages new ps pgs" using laid_Ok(4) pgs by (auto simp: holds_pages_def tot)
  have few: "length pgs \<le> length new div ps" using facts(4) by (simp add: tot)
  have few_leaves: "length leaves \<le> length es + 1"
  proof (cases "es = []")
    case False
    have "length leaves \<le> length (concat (map (map plain_entry) leaves))"
      using length_concat_nonempty [of "map (map plain_entry) leaves"] fill(4) [OF False] by simp
    then show ?thesis using fill(1) by simp
  qed (simp add: fill(5))
  have "length pgs \<le> 2 * length leaves"
  proof (cases "leaf_nodes numbers leaves = []")
    case True
    then show ?thesis using b by (auto simp: build_levels_end leaf_pages_def)
  next
    case False
    have "length (leaf_nodes numbers leaves) \<le> length leaves" using leaf_nodes_length [of numbers leaves] len by simp
    then show ?thesis
      using build_levels_few [OF b per_branch_bounds(1) [OF ps(1), folded pb] False] by (simp add: leaf_pages_def)
  qed
  then have few_pages: "?tot \<le> ?n0 + 2 * length es0 + 2"
    using facts(5) few_leaves by (simp add: es)
  then have small: "length new div ps \<le> u32_max" using room unfolding tot by linarith
  obtain h t where t: "subtree new ps 392 h t" "node_page t = root" "node_entries t = es" "node_pages t = length pgs" "h \<le> 13"
    using written_tree [OF ps ents leaves al pb b held small few] by blast
  have "root < length new div ps" using t(1,2) by (auto elim: subtree.cases)
  then have root: "root \<le> u32_max" using small by simp
  obtain head where p0: "page_of ps new 0 = put 0 (le32 head) (page_of ps old 0)" using laid_Ok(2) by blast
  have lp: "length (page_of ps old 0) = ps" "length (page_of ps old desc) = ps"
  proof -
    have "1 * ps \<le> ?n0 * ps" "(desc + 1) * ps \<le> ?n0 * ps" using desc by (intro mult_le_mono1; simp)+
    then show "length (page_of ps old 0) = ps" "length (page_of ps old desc) = ps"
      using old by (simp_all add: length_page_of add.commute)
  qed
  have "u32_at new 4 = desc"
    using number_in_page [of 4 ps new 0] number_in_page [of 4 ps old 0] ps(1) lp(1)
    by (simp add: p0 d(2) u32_at_def slice_put_after)
  moreover have "u32_at new (desc * ps) = root"
    using number_in_page [of 0 ps new desc] ps(1) lp(2) root
    by (simp add: laid_Ok(3) u32_at_def slice_put_same from_le32)
  moreover have "u16_at new (desc * ps + 4) = 392"
    using short_in_page [of 4 ps new desc] short_in_page [of 4 ps old desc] ps(1) lp(2) key_len
    by (simp add: laid_Ok(3) u16_at_def slice_put_after)
  moreover have "2 * ps \<le> length new" "length new mod ps = 0"
  proof -
    have "2 * ps \<le> ?tot * ps" using desc by (intro mult_le_mono1) simp
    then show "2 * ps \<le> length new" "length new mod ps = 0" using laid_Ok(1) by simp_all
  qed
  moreover have "392 \<le> ps div 4" using ps(1) by linarith
  moreover have "desc < length new div ps" using desc by (simp add: tot)
  ultimately have "index_descriptor new ps = Ok (root, 392)"
    using desc by (simp add: index_descriptor_def Let_def)
  moreover have "u32_at new 8 = 0"
    using number_in_page [of 8 ps new 0] number_in_page [of 8 ps old 0] ps(1) lp(1) one_key
    by (simp add: p0 u32_at_def slice_put_after)
  ultimately show "index_holds ps new (sort_key snd es0)"
    unfolding index_holds_def by (intro exI [of _ h] exI [of _ t] exI [of _ root] conjI) (use t few es in simp_all)
  have "?tot \<le> u32_max" using small unfolding tot .
  then have "?tot * ps \<le> u32_max * ps" by (rule mult_le_mono1)
  then show "length new \<le> u32_max * ps" unfolding laid_Ok(1) .
  have "?n0 * ps \<le> ?tot * ps" by (rule mult_le_mono1) simp
  then show "length old \<le> length new" using old laid_Ok(1) by (metis)
  show "length new \<le> (?n0 + 2 * length es0 + 2) * ps"
    unfolding laid_Ok(1) by (rule mult_le_mono1 [OF few_pages])
qed

text \<open>Reading a rebuilt index gives its entries in the order of their keys.\<close>

lemma index_holds_reads:
  assumes "index_holds ps index es" and ps: "4096 \<le> ps" "ps \<le> 65536"
  shows "yields check (read_entries_checked index ps check) es"
proof -
  obtain h t root where t: "index_descriptor index ps = Ok (root, 392)" "subtree index ps 392 h t" "node_page t = root"
      "node_entries t = es" "node_pages t \<le> length index div ps" "h \<le> 13"
    using assms(1) unfolding index_holds_def by blast
  have "yields check (index_walk index ps 392 check 0 (stack_of [(0, h, t)]) []) ([] @ items_entries [(0, h, t)])"
    by (rule index_walk_items) (use t ps in \<open>simp_all add: items_sound_def items_pages_def\<close>)
  then have walk: "yields check (index_walk index ps 392 check 0 [(root, 0)] []) es"
    using t(3,4) by (simp add: stack_of_def items_entries_def)
  have "read_entries_checked index ps check = index_walk index ps 392 check 0 [(root, 0)] []"
    using t(1) by (simp add: read_entries_checked_def fun_eq_iff)
  then show ?thesis using walk by (simp only:)
qed

lemma rebuilt_index_reads:
  assumes "index_rebuild old ps es0 = Ok new" and ps: "4096 \<le> ps" "ps \<le> 65536"
    and "\<forall>(rec, key) \<in> set es0. length key = 392 \<and> rec \<le> u32_max" and "length old div ps + 2 * length es0 + 2 \<le> u32_max"
  shows "yields check (read_entries_checked new ps check) (sort_key snd es0)"
  by (rule index_holds_reads [OF rebuilt_tree(1) [OF assms] ps])

lemma index_rebuild_succeeds:
  assumes "index_descriptor old ps = Ok (r0, 392)" and "u32_at old 8 = 0" and "distinct_adj (map snd (sort_key snd es))"
  shows "\<exists>new. index_rebuild old ps es = Ok new"
  using assms by (simp add: index_rebuild_def CONFIG_KEY_LEN_def Let_def split: prod.split)

section \<open>Properties\<close>

text \<open>C30: An index rebuilt over an old one reads back: walking the new tree gives every entry once, in the
  order of the keys, and the walk stops early only when its check does.  The number of pages stays within
  \<open>u32\<close>, and no tree is deeper than the walk allows.\<close>

theorem rebuilt_index_reads_back:
  assumes "index_rebuild old ps es = Ok new" and "4096 \<le> ps" and "ps \<le> 65536"
    and "\<forall>(rec, key) \<in> set es. length key = 392 \<and> rec \<le> u32_max"
    and "length old div ps + 2 * length es + 2 \<le> u32_max"
  shows "case read_entries_checked new ps check s of
      (Inr out, _) \<Rightarrow> out = sort_key snd es | (Inl e, _) \<Rightarrow> \<exists>n a b. check n a = (Err e, b)"
  by (rule yields_any [OF rebuilt_index_reads [OF assms]])

lemma replicate_less: "0 < n \<Longrightarrow> a < (b :: 'a :: order) \<Longrightarrow> replicate n a < replicate n b"
  by (cases n) simp_all

definition two_page_index :: bytes where
  "two_page_index = [0, 0, 0, 0, 1, 0, 0, 0, 0, 0, 0, 0] @ replicate 4084 0 @ [0, 0, 0, 0, 0x88, 0x01] @ replicate 4090 0"

lemma two_page_index_fields:
  "length two_page_index = 8192" "index_descriptor two_page_index 4096 = Ok (0, 392)" "u32_at two_page_index 8 = 0"
proof -
  show len: "length two_page_index = 8192" by (simp add: two_page_index_def)
  have "slice 4 8 two_page_index = [1, 0, 0, 0]" "slice 8 12 two_page_index = [0, 0, 0, 0]"
    by (simp_all add: two_page_index_def slice_def)
  moreover have d: "drop 4096 two_page_index = [0, 0, 0, 0, 0x88, 0x01] @ replicate 4090 0"
    by (simp add: two_page_index_def)
  moreover have e: "drop 4100 two_page_index = [0x88, 0x01] @ replicate 4090 0"
    by (simp add: two_page_index_def)
  moreover have "slice 4096 4100 two_page_index = [0, 0, 0, 0]" "slice 4100 4102 two_page_index = [0x88, 0x01]"
    by (simp_all add: slice_def d e)
  ultimately show "index_descriptor two_page_index 4096 = Ok (0, 392)" "u32_at two_page_index 8 = 0"
    by (simp_all add: index_descriptor_def u32_at_def u16_at_def len)
qed

theorem rebuilt_index_reads_back_witness:
  "\<exists>new. index_rebuild two_page_index 4096 [(2, replicate 392 7), (1, replicate 392 5)] = Ok new
     \<and> (case read_entries_checked new 4096 (\<lambda>_. ret ()) () of
          (Inr out, _) \<Rightarrow> out = [(1, replicate 392 5), (2, replicate 392 7)] | (Inl e, _) \<Rightarrow> False)"
proof -
  have "replicate 392 (5 :: u8) < replicate 392 7" by (rule replicate_less) simp_all
  then have less: "replicate 392 (5 :: u8) \<le> replicate 392 7" "\<not> replicate 392 (7 :: u8) \<le> replicate 392 5"
    by (rule less_imp_le, simp only: not_le)
  have sorted: "sort_key snd [(2 :: nat, replicate 392 (7 :: u8)), (1, replicate 392 5)] = [(1, replicate 392 5), (2, replicate 392 7)]"
    using less by simp
  have apart: "replicate 392 (5 :: u8) \<noteq> replicate 392 7" by simp
  obtain new where new: "index_rebuild two_page_index 4096 [(2, replicate 392 7), (1, replicate 392 5)] = Ok new"
    using index_rebuild_succeeds [OF two_page_index_fields(2,3), of "[(2, replicate 392 7), (1, replicate 392 5)]"]
      sorted apart by auto
  show ?thesis
    using rebuilt_index_reads_back [OF new, of "\<lambda>_. ret ()" "()"] new sorted
    by (simp add: two_page_index_fields(1) ret_def split: prod.splits sum.splits)
qed

end
