(* ===== verification/Filedb_Config_Laws.thy ===== *)
theory Filedb_Config_Laws
  imports Filedb_Config Filedb_Index_Tree Filedb_Object_Open
begin

text \<open>
  Records of the CONFIG-family tables: what a filled record says, what the record object holds after
  \<open>replaced_records\<close>, and a row as a reader returns it.
\<close>

lemmas record_places =
  NAME_def CREATION_def MODIFIED_def ATTRIBUTES_def DATASIZE_def BINARY_def PARTNO_def RECORD_def

lemma of_result_Ok [result_simps]: "of_result r s = (Inr x, s') \<longleftrightarrow> r = Ok x \<and> s' = s"
  by (auto simp: of_result_def)

lemma record_size_of_layout:
  assumes "check_layout t = Ok ()"
  shows "record_size t = RECORD" and "0 < tb_records_page t \<and> 0 < tb_blob_page t \<and> 0 < tb_index_page t"
proof -
  have same: "length (tb_fields t) = 7" "list_all (\<lambda>(f, l). field_as_laid f l) (zip (tb_fields t) LAYOUT)"
    and "tb_records_page t \<noteq> 0" "tb_blob_page t \<noteq> 0" "tb_index_page t \<noteq> 0"
    using assms by (auto simp: check_layout_def Let_def LAYOUT_def split: if_splits)
  then show "0 < tb_records_page t \<and> 0 < tb_blob_page t \<and> 0 < tb_index_page t" by simp
  obtain a b c d e f g where fs: "tb_fields t = [a, b, c, d, e, f, g]"
    using same(1) by (auto simp: length_Suc_conv numeral_eq_Suc)
  show "record_size t = RECORD"
    using same(2) by (simp add: record_size_def fs LAYOUT_def field_as_laid_def field_size_def record_places)
qed

section \<open>One record\<close>

text \<open>The ranges that the types of a row's fields give.\<close>

definition row_ok :: "config_row \<Rightarrow> bool" where
  "row_ok row \<longleftrightarrow> length (cr_creation row) = 7 \<and> length (cr_modified row) = 7 \<and> cr_part_no row \<le> u32_max
     \<and> cr_attributes row \<le> u32_max \<and> cr_data_size row \<le> u64_max"

text \<open>A record that holds a row and the reference of its value.\<close>

definition holds_row :: "bytes \<Rightarrow> config_row \<Rightarrow> u32 \<times> u32 \<Rightarrow> bool" where
  "holds_row rec row ref \<longleftrightarrow>
     length rec = 301 \<and> rec ! 0 = 0 \<and> decode_var_string (slice 1 259 rec) 128 = Ok (cr_file_name row)
     \<and> slice 259 266 rec = cr_creation row \<and> slice 266 273 rec = cr_modified row
     \<and> unpack_decimal (slice 273 276 rec) 5 = Ok (cr_attributes row)
     \<and> unpack_decimal (slice 276 287 rec) 20 = Ok (cr_data_size row)
     \<and> from_le_bytes (slice 287 291 rec) = fst ref \<and> from_le_bytes (slice 291 295 rec) = snd ref
     \<and> unpack_decimal (slice 295 301 rec) 10 = Ok (cr_part_no row)"

lemma length_padding [simp]: "length (concat (replicate k [a, b])) = 2 * k"
  by (induction k) simp_all

lemma put_head: "0 < at \<Longrightarrow> at \<le> length buf \<Longrightarrow> put at xs buf ! 0 = buf ! 0"
  by (simp add: put_def nth_append)

lemma fill_record_holds:
  assumes r: "fill_record row ref r = Ok rec" and len: "length r = 301" and head: "r ! 0 = 0" and row: "row_ok row"
    and small: "cr_attributes row \<le> 99999" and name: "\<forall>c \<in> set (cr_file_name row). is_scalar c"
  shows "holds_row rec row ref"
proof -
  obtain named where named: "encode_var_string (cr_file_name row) 128 (slice 1 259 r) = Ok named"
    and rec: "rec = put 295 (pack_decimal (cr_part_no row) 10) (put 291 (to_le_bytes 4 (snd ref))
      (put 287 (to_le_bytes 4 (fst ref)) (put 276 (pack_decimal (cr_data_size row) 20)
      (put 273 (pack_decimal (cr_attributes row) 5) (put 266 (cr_modified row) (put 259 (cr_creation row)
      (put 1 named r)))))))"
    using r by (auto simp: fill_record_def Let_def result_simps record_places)
  have field: "length (slice 1 259 r) = 2 + 2 * 128" using len by simp
  have string: "decode_var_string named 128 = Ok (cr_file_name row)" "length named = 258"
    using string_decodes [OF named field name] encoded_string [OF named field] by (auto simp: length_utf16_bytes)
  have p: "unpack_decimal (pack_decimal (cr_part_no row) 10) 10 = Ok (cr_part_no row)"
      "length (pack_decimal (cr_part_no row) 10) = 6"
    using pack_unpack_decimal [of 10 "cr_part_no row"] row by (simp_all add: row_ok_def)
  have a: "unpack_decimal (pack_decimal (cr_attributes row) 5) 5 = Ok (cr_attributes row)"
      "length (pack_decimal (cr_attributes row) 5) = 3"
    using pack_unpack_decimal [of 5 "cr_attributes row"] small by simp_all
  have d: "unpack_decimal (pack_decimal (cr_data_size row) 20) 20 = Ok (cr_data_size row)"
      "length (pack_decimal (cr_data_size row) 20) = 11"
    using pack_unpack_decimal [of 20 "cr_data_size row"] row by (simp_all add: row_ok_def)
  have t: "length (cr_creation row) = 7" "length (cr_modified row) = 7" using row by (simp_all add: row_ok_def)
  note lens = len string(2) p(2) a(2) d(2) t
  show ?thesis
    unfolding holds_row_def rec
    by (intro conjI)
      (simp_all add: lens slice_put_same slice_put_before slice_put_after put_head head string(1) p(1) a(1) d(1))
qed

lemma length_blank_record: "length blank_record = 301" and head_blank_record: "blank_record ! 0 = 0"
proof -
  have "\<exists>s. encode_var_string [] 128 (slice 1 259 (replicate 301 0)) = Ok s \<and> length s = 258"
  proof -
    obtain s where s: "encode_var_string [] 128 (slice 1 259 (replicate 301 (0 :: u8))) = Ok s"
      by (simp add: encode_var_string_def encode_utf16_def)
    then show ?thesis using encoded_string [OF s] by (auto simp: length_utf16_bytes encode_utf16_def)
  qed
  then obtain s where s: "encode_var_string [] 128 (slice 1 259 (replicate 301 0)) = Ok s" "length s = 258" by blast
  have dec: "length (pack_decimal 0 5) = 3" "length (pack_decimal 0 20) = 11" "length (pack_decimal 0 10) = 6"
    using pack_unpack_decimal(2) [of 5 0] pack_unpack_decimal(2) [of 20 0] pack_unpack_decimal(2) [of 10 0] by simp_all
  show "length blank_record = 301" "blank_record ! 0 = 0"
    using s dec by (simp_all add: blank_record_def Let_def record_places put_head)
qed

section \<open>The record object\<close>

lemma chunks_exact_pages:
  "0 < n \<Longrightarrow> length bs = t * n \<Longrightarrow> chunks_exact n bs = map (page_of n bs) [0..<t]"
proof (induction t arbitrary: bs)
  case 0
  then show ?case by (simp add: chunks_exact.simps)
next
  case (Suc t)
  let ?a = "take n bs" and ?r = "drop n bs"
  have len: "length ?a = n" "length ?r = t * n" using Suc.prems by simp_all
  have "chunks_exact n bs = chunks_exact n (?a @ ?r)" by simp
  also have "\<dots> = ?a # map (page_of n ?r) [0..<t]"
    unfolding chunks_exact_append [OF len(1) Suc.prems(1)] Suc.IH [OF Suc.prems(1) len(2)] ..
  also have "map (page_of n ?r) [0..<t] = map (page_of n bs) (map Suc [0..<t])"
    by (simp add: page_of_def slice_def add.commute)
  also have "?a # map (page_of n bs) (map Suc [0..<t]) = map (page_of n bs) (0 # map Suc [0..<t])"
    by (simp add: page_of_def slice_def)
  also have "0 # map Suc [0..<t] = [0..<Suc t]" by (simp add: map_Suc_upt upt_conv_Cons)
  finally show ?case .
qed

lemma fill_records_Ok:
  "fill_records i es records = Ok out \<Longrightarrow> length records = tot * 301 \<Longrightarrow> i + length es < tot \<Longrightarrow>
   \<forall>k < length es. length (page_of 301 records (i + 1 + k)) = 301 \<and> page_of 301 records (i + 1 + k) ! 0 = 0 \<Longrightarrow>
   \<forall>(row, ref) \<in> set es. row_ok row \<and> cr_attributes row \<le> 99999 \<and> (\<forall>c \<in> set (cr_file_name row). is_scalar c) \<Longrightarrow>
     length out = length records
     \<and> (\<forall>k < length es. holds_row (page_of 301 out (i + 1 + k)) (fst (es ! k)) (snd (es ! k)))
     \<and> (\<forall>m. m \<le> i \<or> i + length es < m \<longrightarrow> page_of 301 out m = page_of 301 records m)"
proof (induction i es records rule: fill_records.induct)
  case (2 i row ref rest records)
  let ?at = "(i + 1) * 301"
  have R: "RECORD = 301" by (simp add: record_places)
  have slot: "slice ((i + 1) * RECORD) ((i + 2) * RECORD) records = page_of 301 records (i + 1)"
    by (simp add: page_of_def R)
  obtain rec where rec: "fill_record row ref (slice ((i + 1) * RECORD) ((i + 2) * RECORD) records) = Ok rec"
    and go: "fill_records (i + 1) rest (put ((i + 1) * RECORD) rec records) = Ok out"
    using "2.prems"(1) by (auto simp: result_simps)
  have "length (page_of 301 records (i + 1)) = 301" "page_of 301 records (i + 1) ! 0 = 0"
    using "2.prems"(4) by (auto dest: spec [of _ 0])
  then have held: "holds_row rec row ref"
    using rec "2.prems"(5) unfolding slot by (intro fill_record_holds) auto
  then have len: "length rec = 301" by (simp add: holds_row_def)
  let ?r = "put ?at rec records"
  have room: "(i + 1 + 1) * 301 \<le> length records" using "2.prems"(2,3) by simp
  have lr: "length ?r = length records" using len room by simp
  have here: "page_of 301 ?r (i + 1) = rec" by (rule put_whole_page [OF len room])
  have there: "page_of 301 ?r m = page_of 301 records m" if "m \<noteq> i + 1" for m
    using len room that by (intro put_page_other [of "i + 1"]) simp_all
  note IHr = "2.IH" [OF rec go, unfolded R]
  have IH: "length out = length ?r
     \<and> (\<forall>k < length rest. holds_row (page_of 301 out (i + 1 + 1 + k)) (fst (rest ! k)) (snd (rest ! k)))
     \<and> (\<forall>m. m \<le> i + 1 \<or> i + 1 + length rest < m \<longrightarrow> page_of 301 out m = page_of 301 ?r m)"
  proof (rule IHr)
    show "\<forall>k < length rest. length (page_of 301 ?r (i + 1 + 1 + k)) = 301 \<and> page_of 301 ?r (i + 1 + 1 + k) ! 0 = 0"
    proof (intro allI impI)
      fix k assume "k < length rest"
      then show "length (page_of 301 ?r (i + 1 + 1 + k)) = 301 \<and> page_of 301 ?r (i + 1 + 1 + k) ! 0 = 0"
        using "2.prems"(4) [rule_format, of "Suc k"] there [of "i + 1 + 1 + k"] by simp
    qed
  qed (use "2.prems"(2,3,5) lr in auto)
  show ?case
  proof (intro conjI allI impI)
    show "length out = length records" using IH lr by simp
    fix k assume k: "k < length ((row, ref) # rest)"
    show "holds_row (page_of 301 out (i + 1 + k)) (fst (((row, ref) # rest) ! k)) (snd (((row, ref) # rest) ! k))"
    proof (cases k)
      case 0
      then show ?thesis using IH here held by simp
    next
      case (Suc j)
      then show ?thesis using IH k by simp
    qed
  next
    fix m assume m: "m \<le> i \<or> i + length ((row, ref) # rest) < m"
    then have "page_of 301 out m = page_of 301 ?r m" using IH by auto
    also have "\<dots> = page_of 301 records m" using m by (intro there) auto
    finally show "page_of 301 out m = page_of 301 records m" .
  qed
qed simp

lemma link_records_Ok:
  "length records = n0 * 301 \<Longrightarrow> \<forall>n \<in> set ns. n < n0 \<Longrightarrow> distinct ns \<Longrightarrow>
     length (link_records ns tot records) = length records
     \<and> (\<forall>m. m \<notin> set ns \<longrightarrow> page_of 301 (link_records ns tot records) m = page_of 301 records m)
     \<and> (\<forall>m \<in> set ns. page_of 301 (link_records ns tot records) m ! 0 = 1)"
proof (induction ns tot records rule: link_records.induct)
  case (2 n ns tot records)
  have R: "RECORD = 301" by (simp add: record_places)
  let ?a = "put (n * 301) [1 :: u8] records"
  let ?r = "put (n * 301 + 1) (le32 (if n + 1 < tot then n + 1 else 0)) ?a"
  have "(n + 1) * 301 \<le> n0 * 301" using "2.prems"(2) by (intro mult_le_mono1) simp
  then have room: "(n + 1) * 301 \<le> length records" using "2.prems"(1) by simp
  have la: "length ?a = length records" using room by simp
  have lr: "length ?r = length records" using room la by (subst length_put) simp_all
  have there: "page_of 301 ?r m = page_of 301 records m" if "m \<noteq> n" for m
  proof -
    have "page_of 301 ?r m = page_of 301 ?a m" using room la that by (intro put_page_other [of n]) simp_all
    also have "\<dots> = page_of 301 records m" using room that by (intro put_page_other [of n]) simp_all
    finally show ?thesis .
  qed
  have here: "page_of 301 ?r n ! 0 = 1"
  proof -
    have "page_of 301 ?r n = put 1 (le32 (if n + 1 < tot then n + 1 else 0)) (page_of 301 ?a n)"
      using room la by (intro put_in_page) simp_all
    also have "page_of 301 ?a n = put 0 [1] (page_of 301 records n)"
      using put_in_page [of 0 "[1]" 301 n records] room by simp
    finally show ?thesis using room by (simp add: put_def)
  qed
  have IH: "length (link_records ns tot ?r) = length ?r
     \<and> (\<forall>m. m \<notin> set ns \<longrightarrow> page_of 301 (link_records ns tot ?r) m = page_of 301 ?r m)
     \<and> (\<forall>m \<in> set ns. page_of 301 (link_records ns tot ?r) m ! 0 = 1)"
    using "2.IH" "2.prems" lr unfolding R by simp
  show ?case
    using IH lr there here "2.prems"(3) by (simp add: R)
qed simp

lemma blank_pages: "m < tot \<Longrightarrow> page_of 301 (concat (replicate tot blank_record)) m = blank_record"
proof -
  assume m: "m < tot"
  have "slice (m * 301 + 0) (m * 301 + 301) (concat (replicate tot blank_record)) = slice 0 301 (replicate tot blank_record ! m)"
    using m by (intro slice_concat) (simp_all add: length_blank_record)
  then show ?thesis using m length_blank_record by (simp add: page_of_def slice_def)
qed

lemma replaced_records_Ok:
  assumes r: "replaced_records rows refs old_records = Ok records" and refs: "length refs = length rows"
    and rows: "\<forall>row \<in> set rows. row_ok row \<and> cr_attributes row \<le> 99999 \<and> (\<forall>c \<in> set (cr_file_name row). is_scalar c)"
  shows "length records = max (length rows + 1) old_records * 301"
    and "\<forall>k < length rows. holds_row (page_of 301 records (k + 1)) (rows ! k) (refs ! k)"
    and "\<forall>m. length rows < m \<and> m < max (length rows + 1) old_records \<longrightarrow> page_of 301 records m ! 0 = 1"
proof -
  define tot where "tot = max (length rows + 1) old_records"
  let ?blank = "concat (replicate tot blank_record)"
  obtain filled where f: "fill_records 0 (zip rows refs) ?blank = Ok filled"
    and rec: "records = link_records [length rows + 1..<tot] tot
      (put 1 (le32 (if length rows + 1 < tot then length rows + 1 else 0)) (put 0 [1] filled))"
  proof (cases "fill_records 0 (zip rows refs) ?blank")
    case (Inr filled)
    then show ?thesis using that r [unfolded replaced_records_def Let_def, folded tot_def] by auto
  qed (use r [unfolded replaced_records_def Let_def, folded tot_def] in simp)
  have lb: "length ?blank = tot * 301" using length_blank_record by (simp add: length_concat sum_list_replicate)
  have big: "length rows < tot" by (simp add: tot_def)
  have "length filled = length ?blank
     \<and> (\<forall>k < length (zip rows refs). holds_row (page_of 301 filled (0 + 1 + k)) (fst (zip rows refs ! k)) (snd (zip rows refs ! k)))
     \<and> (\<forall>m. m \<le> 0 \<or> 0 + length (zip rows refs) < m \<longrightarrow> page_of 301 filled m = page_of 301 ?blank m)"
  proof (rule fill_records_Ok [OF f lb])
    show "\<forall>k < length (zip rows refs). length (page_of 301 ?blank (0 + 1 + k)) = 301 \<and> page_of 301 ?blank (0 + 1 + k) ! 0 = 0"
      using big by (simp add: blank_pages length_blank_record head_blank_record)
    show "\<forall>(row, ref) \<in> set (zip rows refs). row_ok row \<and> cr_attributes row \<le> 99999 \<and> (\<forall>c \<in> set (cr_file_name row). is_scalar c)"
      using rows by (auto dest: set_zip_leftD)
  qed (use refs big in simp)
  then have filled: "length filled = tot * 301"
      "\<forall>k < length rows. holds_row (page_of 301 filled (k + 1)) (rows ! k) (refs ! k)"
    using lb refs by (simp_all add: add.commute)
  let ?a = "put 0 [1 :: u8] filled"
  let ?b = "put 1 (le32 (if length rows + 1 < tot then length rows + 1 else 0)) ?a"
  have lens: "length ?a = tot * 301" "length ?b = tot * 301" using filled(1) big by simp_all
  have other: "page_of 301 ?b m = page_of 301 filled m" if "m \<noteq> 0" for m
  proof -
    have "page_of 301 ?b m = page_of 301 ?a m" using that lens big by (intro put_page_other [of 0]) simp_all
    also have "\<dots> = page_of 301 filled m" using that filled(1) big by (intro put_page_other [of 0]) simp_all
    finally show ?thesis .
  qed
  have linked: "length (link_records [length rows + 1..<tot] tot ?b) = length ?b
     \<and> (\<forall>m. m \<notin> set [length rows + 1..<tot] \<longrightarrow> page_of 301 (link_records [length rows + 1..<tot] tot ?b) m = page_of 301 ?b m)
     \<and> (\<forall>m \<in> set [length rows + 1..<tot]. page_of 301 (link_records [length rows + 1..<tot] tot ?b) m ! 0 = 1)"
    by (rule link_records_Ok [OF lens(2)]) auto
  show "length records = max (length rows + 1) old_records * 301"
    using linked lens(2) by (simp add: rec tot_def)
  show "\<forall>k < length rows. holds_row (page_of 301 records (k + 1)) (rows ! k) (refs ! k)"
    using linked other filled(2) by (simp add: rec)
  show "\<forall>m. length rows < m \<and> m < max (length rows + 1) old_records \<longrightarrow> page_of 301 records m ! 0 = 1"
  proof (intro allI impI)
    fix m assume "length rows < m \<and> m < max (length rows + 1) old_records"
    then have "m \<in> set [length rows + 1..<tot]" by (simp add: tot_def)
    then show "page_of 301 records m ! 0 = 1" unfolding rec by (rule conjunct2 [OF conjunct2 [OF linked], rule_format])
  qed
qed

section \<open>Rows as they are read\<close>

lemma checks_pass: "charges (\<lambda>st _. check_read st) p us = (Ok (), p)" if "pg_budget p = None"
  by (induction us) (simp_all add: that charges check_read_def on_budget_none)

text \<open>A row as a reader returns it that was asked for the binaries or not.\<close>

definition seen_row :: "bool \<Rightarrow> config_row \<Rightarrow> config_row" where
  "seen_row w row = (if w then row else row\<lparr>cr_binary := []\<rparr>)"

definition seen_size :: "bool \<Rightarrow> config_row \<Rightarrow> nat" where
  "seen_size w row = (if w then length (cr_binary row) else 0)"

lemma seen_row_simps [simp]: "seen_row True row = row" "cr_file_name (seen_row w row) = cr_file_name row"
  "cr_part_no (seen_row w row) = cr_part_no row"
  by (simp_all add: seen_row_def)

end
