(* ===== verification/Filedb_Quiet.thy ===== *)
theory Filedb_Quiet
  imports Filedb_Config_Laws
begin

text \<open>
  Reading changes nothing, whatever fails: \<open>quiet\<close> holds of an action that leaves every page of the file as
  it was, with any result, and every reading operation of the layer is quiet.
\<close>

definition quiet :: "'f backing \<Rightarrow> ('f \<Rightarrow> bytes) \<Rightarrow> ('f, 'e, 'a) pager_act \<Rightarrow> bool" where
  "quiet disk contents m \<longleftrightarrow>
     (\<forall>p r p'. pager_ok disk contents p \<longrightarrow> m p = (r, p') \<longrightarrow> reads_only disk contents p p')"

named_theorems quiet_intros

lemma quietI: "(\<And>p r p'. pager_ok disk contents p \<Longrightarrow> m p = (r, p') \<Longrightarrow> reads_only disk contents p p') \<Longrightarrow> quiet disk contents m"
  by (simp add: quiet_def)

lemma quietD: "quiet disk contents m \<Longrightarrow> pager_ok disk contents p \<Longrightarrow> m p = (r, p') \<Longrightarrow> reads_only disk contents p p'"
  by (simp add: quiet_def)

lemma quiet_ret [quiet_intros]: "quiet disk contents (ret x)"
  by (auto simp: quiet_def ret_def reads_only_refl)

lemma quiet_fail [quiet_intros]: "quiet disk contents (fail e)"
  by (auto simp: quiet_def fail_def reads_only_refl)

lemma quiet_of_result [quiet_intros]: "quiet disk contents (of_result r)"
  by (auto simp: quiet_def of_result_def reads_only_refl)

lemma quiet_and_then [quiet_intros]:
  assumes "quiet disk contents m" and "\<And>x. quiet disk contents (f x)"
  shows "quiet disk contents (and_then m f)"
proof (rule quietI)
  fix p r p' assume ok: "pager_ok disk contents p" and run: "and_then m f p = (r, p')"
  obtain r1 p1 where m: "m p = (r1, p1)" by (cases "m p")
  have one: "reads_only disk contents p p1" by (rule quietD [OF assms(1) ok m])
  show "reads_only disk contents p p'"
  proof (cases r1)
    case (Inl e)
    then show ?thesis using run m one by (simp add: and_then_def)
  next
    case (Inr x)
    then have "f x p1 = (r, p')" using run m by (simp add: and_then_def)
    moreover have "pager_ok disk contents p1" using one by (simp add: reads_only_def)
    ultimately show ?thesis using reads_only_trans [OF one] quietD [OF assms(2)] by blast
  qed
qed

text \<open>The same of one run, for actions written with their state.\<close>

definition calm :: "'f backing \<Rightarrow> ('f \<Rightarrow> bytes) \<Rightarrow> ('f, 'e) pager \<Rightarrow> (db_error + 'a) \<times> ('f, 'e) pager \<Rightarrow> bool" where
  "calm disk contents p res \<longleftrightarrow> reads_only disk contents p (snd res)"

lemma quiet_calm: "(\<And>p. pager_ok disk contents p \<Longrightarrow> calm disk contents p (m p)) \<Longrightarrow> quiet disk contents m"
  by (force simp: quiet_def calm_def)

lemma calm_quiet: "quiet disk contents m \<Longrightarrow> pager_ok disk contents p \<Longrightarrow> calm disk contents p (m p)"
  unfolding quiet_def calm_def by (metis prod.collapse)

lemma calm_fail: "pager_ok disk contents p \<Longrightarrow> calm disk contents p (fail e p)"
  by (rule calm_quiet [OF quiet_fail])

lemma calm_and_then: "quiet disk contents m \<Longrightarrow> (\<And>x. quiet disk contents (f x)) \<Longrightarrow> pager_ok disk contents p \<Longrightarrow> calm disk contents p (and_then m f p)"
  by (rule calm_quiet [OF quiet_and_then])

lemma calm_if: "(c \<Longrightarrow> calm disk contents p a) \<Longrightarrow> (\<not> c \<Longrightarrow> calm disk contents p b) \<Longrightarrow> calm disk contents p (if c then a else b)"
  by simp

lemma calm_option: "calm disk contents p a \<Longrightarrow> (\<And>x. calm disk contents p (f x)) \<Longrightarrow> calm disk contents p (case v of None \<Rightarrow> a | Some x \<Rightarrow> f x)"
  by (cases v) simp_all

lemmas calm_intros = calm_fail calm_and_then calm_if calm_option

lemma quiet_on_budget [quiet_intros]: "quiet disk contents (on_budget charge)"
  by (auto simp: quiet_def intro: charge_reads)

lemma quiet_charges [quiet_intros]:
  "quiet disk contents check_read" "quiet disk contents (materialize_object n)" "quiet disk contents (materialize_record n)"
  by (simp_all add: charges quiet_on_budget)

lemma quiet_check_page [quiet_intros]: "quiet disk contents (check_page n role)"
  by (rule quiet_calm) (simp add: check_page_def guard_not_def calm_def ret_def fail_def reads_only_refl)

lemma quiet_if [quiet_intros]: "(c \<Longrightarrow> quiet disk contents a) \<Longrightarrow> (\<not> c \<Longrightarrow> quiet disk contents b) \<Longrightarrow> quiet disk contents (if c then a else b)"
  by simp

lemma quiet_prod [quiet_intros]: "(\<And>a b. quiet disk contents (f a b)) \<Longrightarrow> quiet disk contents (case x of (a, b) \<Rightarrow> f a b)"
  by (cases x) simp

lemma quiet_option [quiet_intros]:
  "quiet disk contents a \<Longrightarrow> (\<And>x. quiet disk contents (f x)) \<Longrightarrow> quiet disk contents (case v of None \<Rightarrow> a | Some x \<Rightarrow> f x)"
  by (cases v) simp_all

section \<open>Objects\<close>

context backing_file
begin

lemma moved_reads: "pager_ok disk contents p \<Longrightarrow> contents f = contents (pg_file p) \<Longrightarrow> reads_only disk contents p (p\<lparr>pg_file := f\<rparr>)"
  by (simp add: reads_only_def pager_ok_def changed_def pager_page_def)

lemma quiet_seek: "quiet disk contents (on_file (\<lambda>d f. bk_seek d f n))"
proof (rule quietI)
  fix p :: "('f, 'e) pager" and r p'
  assume ok: "pager_ok disk contents p" and run: "on_file (\<lambda>d f. bk_seek d f n) p = (r, p')"
  obtain x f where s: "bk_seek disk (pg_file p) n = (x, f)" by (cases "bk_seek disk (pg_file p) n")
  have "p' = p\<lparr>pg_file := f\<rparr>" using run s ok by (simp add: on_file_def pager_ok_def split: sum.splits)
  then show "reads_only disk contents p p'" using moved_reads [OF ok seek_contents [OF s]] by simp
qed

lemma quiet_read_exact: "quiet disk contents (on_file (\<lambda>d f. bk_read_exact d f n))"
proof (rule quietI)
  fix p :: "('f, 'e) pager" and r p'
  assume ok: "pager_ok disk contents p" and run: "on_file (\<lambda>d f. bk_read_exact d f n) p = (r, p')"
  obtain x f where s: "bk_read_exact disk (pg_file p) n = (x, f)" by (cases "bk_read_exact disk (pg_file p) n")
  have "p' = p\<lparr>pg_file := f\<rparr>" using run s ok by (simp add: on_file_def pager_ok_def split: sum.splits)
  then show "reads_only disk contents p p'" using moved_reads [OF ok read_contents [OF s]] by simp
qed

lemma quiet_read_page_into: "quiet disk contents (read_page_into n k)"
  unfolding read_page_into_def
  by (intro quiet_and_then quiet_charges quiet_calm calm_intros quiet_seek quiet_read_exact)

lemma quiet_read_page: "quiet disk contents (read_page n)"
  by (rule quiet_calm) (unfold read_page_def, rule calm_quiet [OF quiet_read_page_into])

lemma quiet_read_tables: "quiet disk contents (read_tables ts need pgs tables)"
proof (induction ts arbitrary: pgs tables)
  case (Cons t ts)
  show ?case unfolding read_tables.simps by (intro quiet_intros quiet_read_page Cons.IH)
qed (simp add: quiet_ret)

lemma quiet_check_pages: "quiet disk contents (check_pages ns)"
proof (induction ns)
  case (Cons n ns)
  show ?case unfolding check_pages.simps by (intro quiet_intros Cons.IH)
qed (simp add: quiet_ret)

lemma quiet_page_lists: "quiet disk contents (page_lists hp fat len need per direct)"
  unfolding page_lists_def Let_def by (intro quiet_intros quiet_read_tables)

lemma quiet_from_header: "quiet disk contents (object_from_header hp page)"
proof (rule quiet_calm)
  fix p :: "('f, 'e) pager" assume "pager_ok disk contents p"
  then show "calm disk contents p (object_from_header hp page p)"
    unfolding object_from_header_def Let_def
    by (intro calm_intros quiet_intros quiet_page_lists quiet_check_pages)
qed

lemma quiet_object_open: "quiet disk contents (object_open hp)"
  unfolding object_open_def by (intro quiet_intros quiet_read_page quiet_from_header)

lemma quiet_read_loop: "quiet disk contents (object_read_loop ps pgs pos end cached buf out)"
proof (induction ps pgs pos "end" cached buf out rule: object_read_loop.induct)
  case (1 ps pgs pos "end" cached buf out)
  show ?case
    unfolding object_read_loop.simps [of ps pgs pos "end" cached buf out] Let_def
    by (intro quiet_intros quiet_read_page_into "1.IH" [unfolded Let_def]) auto
qed

lemma quiet_read_at: "quiet disk contents (object_read_at ob offset n)"
proof (rule quiet_calm)
  fix p :: "('f, 'e) pager" assume "pager_ok disk contents p"
  then show "calm disk contents p (object_read_at ob offset n p)"
    unfolding object_read_at_def by (intro calm_intros calm_quiet [OF quiet_read_loop])
qed

lemma quiet_read_all: "quiet disk contents (object_read_all ob)"
  unfolding object_read_all_def by (intro quiet_intros quiet_read_at)

section \<open>Records\<close>

lemma quiet_chain_loop: "quiet disk contents (blob_chain_loop obj expected (\<lambda>st _. check_read st) block steps out)"
proof (rule quietI)
  fix p :: "('f, 'e) pager" and r p'
  show "pager_ok disk contents p \<Longrightarrow> blob_chain_loop obj expected (\<lambda>st _. check_read st) block steps out p = (r, p') \<Longrightarrow>
      reads_only disk contents p p'"
  proof (induction obj expected "\<lambda>(st :: ('f, 'e) pager) (_ :: nat). check_read st" block steps out p
      arbitrary: r rule: blob_chain_loop.induct)
    case (1 obj expected block steps out p)
    obtain x q where c: "check_read p = (x, q)" by (cases "check_read p")
    have q: "reads_only disk contents p q" by (rule quietD [OF quiet_charges(1) "1.prems"(1) c])
    then have okq: "pager_ok disk contents q" by (simp add: reads_only_def)
    have same: "reads_only disk contents p p" by (rule reads_only_refl [OF "1.prems"(1)])
    show ?case
      using "1.prems"(2) c q same reads_only_trans [OF q] "1.hyps" [OF refl _ _ _ refl refl refl _ _ _ _ okq]
      by (subst (asm) blob_chain_loop.simps) (auto simp: Let_def split: if_splits sum.splits option.splits)
  qed
qed

lemma quiet_chain: "quiet disk contents (read_chain_checked obj block expected check_read)"
proof (rule quietI)
  fix p :: "('f, 'e) pager" and r p'
  assume ok: "pager_ok disk contents p" and run: "read_chain_checked obj block expected check_read p = (r, p')"
  obtain x q where c: "check_read p = (x, q)" by (cases "check_read p")
  have q: "reads_only disk contents p q" by (rule quietD [OF quiet_charges(1) ok c])
  then have okq: "pager_ok disk contents q" by (simp add: reads_only_def)
  obtain y s where l: "blob_chain_loop obj expected (\<lambda>st _. check_read st) (unat block) 0 [] q = (y, s)"
    by (cases "blob_chain_loop obj expected (\<lambda>st _. check_read st) (unat block) 0 [] q")
  have "reads_only disk contents p s" using reads_only_trans [OF q quietD [OF quiet_chain_loop okq l]] .
  then show "reads_only disk contents p p'"
    using run c l q by (auto simp: read_chain_checked_def read_chain_accounted_def split: sum.splits option.splits if_splits)
qed

lemma quiet_row_binary: "quiet disk contents (row_binary t w blob n block len remaining)"
  unfolding row_binary_def by (intro quiet_intros quiet_chain)

lemma quiet_live: "quiet disk contents (read_live_record t w blob rec remaining)"
  unfolding read_live_record_def Let_def by (intro quiet_intros quiet_row_binary)

lemma quiet_records_loop: "quiet disk contents (records_loop t w blob recs remaining out)"
proof (induction recs arbitrary: remaining out)
  case (Cons nr recs)
  show ?case unfolding records_loop.simps by (intro quiet_intros quiet_live Cons.IH)
qed (simp add: quiet_ret)

lemma quiet_read_records: "quiet disk contents (read_records_bounded t w n)"
  unfolding read_records_bounded_def by (intro quiet_intros quiet_object_open quiet_read_all quiet_records_loop)

end

end
