(* ===== verification/Filedb_Config_Replace.thy ===== *)
theory Filedb_Config_Replace
  imports Filedb_Quiet
begin

text \<open>
  Replacing every row of a CONFIG-family table, and reading the table and its index afterwards.
\<close>

section \<open>A table's objects\<close>

definition apart :: "object \<Rightarrow> object \<Rightarrow> bool" where
  "apart a b \<longleftrightarrow> set (owned_pages a) \<inter> set (owned_pages b) = {}"

lemma apart_sym: "apart a b \<Longrightarrow> apart b a"
  by (auto simp: apart_def)

text \<open>An object that shares no page with the three objects of a table.\<close>

definition clear_of :: "object \<times> object \<times> object \<Rightarrow> object \<Rightarrow> bool" where
  "clear_of obs other \<longleftrightarrow> (case obs of (ro, bo, io) \<Rightarrow> apart ro other \<and> apart bo other \<and> apart io other)"

text \<open>The pages of the three objects of a table.\<close>

definition all_pages :: "object \<times> object \<times> object \<Rightarrow> nat set" where
  "all_pages obs = (case obs of (ro, bo, io) \<Rightarrow> set (owned_pages ro) \<union> set (owned_pages bo) \<union> set (owned_pages io))"

lemma clear_of_pages: "clear_of obs other \<longleftrightarrow> all_pages obs \<inter> set (owned_pages other) = {}"
  by (auto simp: clear_of_def all_pages_def apart_def split: prod.splits)

text \<open>A rewritten object keeps its pages.\<close>

lemma grow_keeps: "grow k pgs p = (Ok pgs', p') \<Longrightarrow> set pgs \<subseteq> set pgs'"
  by (induction k arbitrary: pgs p) (fastforce simp: result_simps)+

lemma rewrite_owns:
  assumes "object_rewrite ob content p = (Ok ob', p')"
  shows "set (owned_pages ob) \<subseteq> set (owned_pages ob')"
proof -
  obtain pgs p1 ob1 p2 where g: "grow (div_ceil (length content) (pg_page_size p) - length (ob_pages ob)) (ob_pages ob) p = (Ok pgs, p1)"
    and h: "write_header ob1 p2 = (Ok ob', p')"
    and ob1: "ob_pages ob1 = pgs" "ob_tables ob1 = ob_tables ob" "ob_header_page ob1 = ob_header_page ob"
    using assms by (auto simp: object_rewrite_def Let_def result_simps split: if_splits)
  have "set (owned_pages ob1) \<subseteq> set (owned_pages ob')"
    using h by (auto simp: write_header_def finish_header_def Let_def result_simps owned_pages_def split: if_splits dest: grow_keeps [THEN subsetD])
  then show ?thesis using grow_keeps [OF g] ob1 by (auto simp: owned_pages_def)
qed

text \<open>The three objects of a table are stored and share no page.\<close>

definition table_holds ::
  "('f \<Rightarrow> bytes) \<Rightarrow> ('f, 'e) pager \<Rightarrow> table \<Rightarrow> object \<times> object \<times> object \<Rightarrow> bytes \<Rightarrow> bytes \<Rightarrow> bytes \<Rightarrow> bool" where
  "table_holds contents p t obs records blob index \<longleftrightarrow> (case obs of (ro, bo, io) \<Rightarrow>
     stored contents p ro records \<and> stored contents p bo blob \<and> stored contents p io index
     \<and> ob_header_page ro = tb_records_page t \<and> ob_header_page bo = tb_blob_page t \<and> ob_header_page io = tb_index_page t
     \<and> apart ro bo \<and> apart ro io \<and> apart bo io)"

lemma table_holds_reads: "table_holds contents p t obs r b i \<Longrightarrow> reads_only disk contents p p' \<Longrightarrow> table_holds contents p' t obs r b i"
  by (auto simp: table_holds_def intro: reads_only_stored)

context backing_file
begin

lemma rewrite_apart:
  assumes w: "object_rewrite ob content p = (Ok ob', p')" and ok: "pager_ok disk contents p"
    and st: "stored contents p ob old" and len: "length content \<le> u64_max"
    and other: "stored contents p other c" and away: "apart ob other"
  shows "stored contents p' other c" and "apart ob' other"
proof -
  have obok: "object_ok (pg_page_size p) (pg_page_count p) ob" using st by (simp add: stored_def)
  note r = rewrite_Ok [OF w ok obok len]
  show "stored contents p' other c" by (rule stored_kept [OF other r(3)]) (use away in \<open>auto simp: apart_def\<close>)
  have "\<forall>n \<in> set (owned_pages other). n < pg_page_count p" using other by (simp add: stored_def object_ok_def)
  then show "apart ob' other" using r(5) away by (fastforce simp: apart_def)
qed

lemma flush_stored:
  assumes f: "flush_header p = (Ok u, p')" and ok: "pager_ok disk contents p" and head: "length (pg_header p) = pg_page_size p"
    and st: "stored contents p ob c"
  shows "stored contents p' ob c"
proof -
  note fl = flush_header_Ok [OF f ok head]
  let ?q = "p'\<lparr>pg_header := pg_header p\<rparr>"
  have "changed contents {0} p ?q" using fl by (simp add: changed_def pager_page_def)
  moreover have "{0} \<inter> set (owned_pages ob) = {}" using st by (fastforce simp: stored_def object_ok_def)
  ultimately have "stored contents ?q ob c" using stored_kept [OF st] by blast
  moreover have "pager_page contents ?q = pager_page contents p'" by (simp add: pager_page_def fun_eq_iff)
  ultimately show ?thesis by (simp add: stored_def)
qed

text \<open>The four writes at the end of \<open>replace\<close>.\<close>

lemma commit_Ok:
  assumes ok: "pager_ok disk contents p" and head: "length (pg_header p) = pg_page_size p"
    and held: "table_holds contents p t (ro, bo, io) r0 b0 i0"
    and lens: "length r \<le> u64_max" "length b \<le> u64_max" "length i \<le> u64_max"
    and r1: "object_rewrite ro r p = (Ok ro', p1)" and r2: "object_rewrite bo b p1 = (Ok bo', p2)"
    and r3: "object_rewrite io i p2 = (Ok io', p3)" and fl: "flush_header p3 = (Ok u, p')"
  shows "table_holds contents p' t (ro', bo', io') r b i" and "pager_ok disk contents p'"
    and "pg_page_size p' = pg_page_size p" and "pg_budget p = None \<Longrightarrow> pg_budget p' = None"
    and "pager_page contents p' 0 = put 12 (le32 (pg_page_count p')) (pg_header p)"
    and "\<forall>n < pg_page_count p. 0 < n \<and> n \<notin> all_pages (ro, bo, io) \<longrightarrow> pager_page contents p' n = pager_page contents p n"
    and "all_pages (ro', bo', io') \<subseteq> all_pages (ro, bo, io) \<union> {pg_page_count p..}" and "pg_page_count p \<le> pg_page_count p'"
proof -
  note h = held [unfolded table_holds_def prod.case]
  have st: "stored contents p ro r0" "stored contents p bo b0" "stored contents p io i0"
    and ap: "apart ro bo" "apart ro io" "apart bo io" using h by blast+
  have ob: "object_ok (pg_page_size p) (pg_page_count p) ro" using st(1) by (simp add: stored_def)
  note w1 = rewrite_Ok [OF r1 ok ob lens(1)]
  have bo1: "stored contents p1 bo b0" "apart ro' bo" by (rule rewrite_apart [OF r1 ok st(1) lens(1) st(2) ap(1)])+
  have io1: "stored contents p1 io i0" "apart ro' io" by (rule rewrite_apart [OF r1 ok st(1) lens(1) st(3) ap(2)])+
  have ob1: "object_ok (pg_page_size p1) (pg_page_count p1) bo" using bo1(1) by (simp add: stored_def)
  note w2 = rewrite_Ok [OF r2 w1(2) ob1 lens(2)]
  have ro2: "stored contents p2 ro' r" "apart bo' ro'"
    by (rule rewrite_apart [OF r2 w1(2) bo1(1) lens(2) w1(1) apart_sym [OF bo1(2)]])+
  have io2: "stored contents p2 io i0" "apart bo' io" by (rule rewrite_apart [OF r2 w1(2) bo1(1) lens(2) io1(1) ap(3)])+
  have ob2: "object_ok (pg_page_size p2) (pg_page_count p2) io" using io2(1) by (simp add: stored_def)
  note w3 = rewrite_Ok [OF r3 w2(2) ob2 lens(3)]
  have ro3: "stored contents p3 ro' r" "apart io' ro'"
    by (rule rewrite_apart [OF r3 w2(2) io2(1) lens(3) ro2(1) apart_sym [OF io1(2)]])+
  have bo3: "stored contents p3 bo' b" "apart io' bo'"
    by (rule rewrite_apart [OF r3 w2(2) io2(1) lens(3) w2(1) apart_sym [OF io2(2)]])+
  have head3: "length (pg_header p3) = pg_page_size p3" using head w1(3) w2(3) w3(3) by (simp add: changed_def)
  note final = flush_header_Ok [OF fl w3(2) head3]
  show "table_holds contents p' t (ro', bo', io') r b i"
    using flush_stored [OF fl w3(2) head3 ro3(1)] flush_stored [OF fl w3(2) head3 bo3(1)]
      flush_stored [OF fl w3(2) head3 w3(1)] h w1(4) w2(4) w3(4) ro2(2) ro3(2) bo3(2)
    by (simp add: table_holds_def apart_sym)
  show "pager_ok disk contents p'" by (rule final(1))
  show "pg_page_size p' = pg_page_size p" using final(7) w1(3) w2(3) w3(3) by (simp add: changed_def)
  show "pg_budget p' = None" if "pg_budget p = None"
    using that final(6) w1(3) w2(3) w3(3) by (simp add: changed_def)
  show "pager_page contents p' 0 = put 12 (le32 (pg_page_count p')) (pg_header p)"
    using final(2,3) w1(3) w2(3) w3(3) by (simp add: changed_def)
  have ch: "changed contents (set (owned_pages ro) \<union> set (owned_pages bo) \<union> set (owned_pages io)) p p3"
    by (rule changed_trans [OF changed_trans [OF w1(3) w2(3)] w3(3)])
  then have count: "pg_page_count p \<le> pg_page_count p3" by (simp add: changed_def)
  then show "pg_page_count p \<le> pg_page_count p'" using final(2) by simp
  show "\<forall>n < pg_page_count p. 0 < n \<and> n \<notin> all_pages (ro, bo, io) \<longrightarrow> pager_page contents p' n = pager_page contents p n"
    using final(4) ch count by (simp add: changed_def all_pages_def)
  have "pg_page_count p \<le> pg_page_count p1" "pg_page_count p \<le> pg_page_count p2"
    using w1(3) w2(3) by (simp_all add: changed_def)
  then show "all_pages (ro', bo', io') \<subseteq> all_pages (ro, bo, io) \<union> {pg_page_count p..}"
    using w1(5) w2(5) w3(5) by (fastforce simp: all_pages_def)
qed

lemma commit_keeps:
  assumes ok: "pager_ok disk contents p" and head: "length (pg_header p) = pg_page_size p"
    and held: "table_holds contents p t (ro, bo, io) r0 b0 i0"
    and lens: "length r \<le> u64_max" "length b \<le> u64_max" "length i \<le> u64_max"
    and r1: "object_rewrite ro r p = (Ok ro', p1)" and r2: "object_rewrite bo b p1 = (Ok bo', p2)"
    and r3: "object_rewrite io i p2 = (Ok io', p3)" and fl: "flush_header p3 = (Ok u, p')"
    and other: "stored contents p other c" and away: "clear_of (ro, bo, io) other"
  shows "stored contents p' other c \<and> clear_of (ro', bo', io') other"
proof -
  note h = held [unfolded table_holds_def prod.case]
  have st: "stored contents p ro r0" "stored contents p bo b0" "stored contents p io i0"
    and ap: "apart ro bo" "apart ro io" "apart bo io" using h by blast+
  have aw: "apart ro other" "apart bo other" "apart io other" using away by (simp_all add: clear_of_def)
  have ob: "object_ok (pg_page_size p) (pg_page_count p) ro" using st(1) by (simp add: stored_def)
  note w1 = rewrite_Ok [OF r1 ok ob lens(1)]
  have bo1: "stored contents p1 bo b0" "apart ro' bo" by (rule rewrite_apart [OF r1 ok st(1) lens(1) st(2) ap(1)])+
  have io1: "stored contents p1 io i0" "apart ro' io" by (rule rewrite_apart [OF r1 ok st(1) lens(1) st(3) ap(2)])+
  have ot1: "stored contents p1 other c" "apart ro' other" by (rule rewrite_apart [OF r1 ok st(1) lens(1) other aw(1)])+
  have ob1: "object_ok (pg_page_size p1) (pg_page_count p1) bo" using bo1(1) by (simp add: stored_def)
  note w2 = rewrite_Ok [OF r2 w1(2) ob1 lens(2)]
  have io2: "stored contents p2 io i0" "apart bo' io" by (rule rewrite_apart [OF r2 w1(2) bo1(1) lens(2) io1(1) ap(3)])+
  have ot2: "stored contents p2 other c" "apart bo' other" by (rule rewrite_apart [OF r2 w1(2) bo1(1) lens(2) ot1(1) aw(2)])+
  have ob2: "object_ok (pg_page_size p2) (pg_page_count p2) io" using io2(1) by (simp add: stored_def)
  note w3 = rewrite_Ok [OF r3 w2(2) ob2 lens(3)]
  have ot3: "stored contents p3 other c" "apart io' other" by (rule rewrite_apart [OF r3 w2(2) io2(1) lens(3) ot2(1) aw(3)])+
  have head3: "length (pg_header p3) = pg_page_size p3" using head w1(3) w2(3) w3(3) by (simp add: changed_def)
  show ?thesis using flush_stored [OF fl w3(2) head3 ot3(1)] ot1(2) ot2(2) ot3(2) by (simp add: clear_of_def)
qed

end

section \<open>The keys of the rows\<close>

lemma row_keys_Ok:
  "row_keys coll rows met keys0 = Ok keys \<Longrightarrow>
     (\<exists>new. keys = keys0 @ new \<and> list_all2 (\<lambda>row key. config_key coll (cr_file_name row) (cr_part_no row) = Ok key) rows new)
     \<and> (\<forall>row \<in> set rows. cr_attributes row \<le> 99999)"
proof (induction coll rows met keys0 rule: row_keys.induct)
  case (2 coll row rows met keys0)
  obtain key where key: "config_key coll (cr_file_name row) (cr_part_no row) = Ok key" and small: "cr_attributes row \<le> 99999"
    and rest: "row_keys coll rows ((to_lowercase (cr_file_name row), cr_part_no row) # met) (keys0 @ [key]) = Ok keys"
    using "2.prems" by (auto simp: Let_def result_simps split: if_splits)
  have new: "(to_lowercase (cr_file_name row), cr_part_no row) \<notin> set met" using "2.prems" by (auto simp: Let_def split: if_splits)
  have "(\<exists>new. keys = (keys0 @ [key]) @ new \<and> list_all2 (\<lambda>row key. config_key coll (cr_file_name row) (cr_part_no row) = Ok key) rows new)
     \<and> (\<forall>row \<in> set rows. cr_attributes row \<le> 99999)"
    using rest key small new by (intro "2.IH") simp_all
  then show ?case using key small by auto
qed simp

text \<open>A verified character is a scalar value.\<close>

lemma verified_scalar: "verified_char c \<Longrightarrow> is_scalar c"
  by (auto simp: verified_char_def is_scalar_def ascii_digit_def ascii_lower_def ascii_upper_def)

text \<open>The entries that \<open>replace\<close> hands to the index.\<close>

definition numbered_keys :: "bytes list \<Rightarrow> index_entry list" where
  "numbered_keys keys = map (\<lambda>(i, key). (i + 1, key)) (enumerate 0 keys)"

lemma numbered_keys_eq:
  "length keys \<le> u32_max \<Longrightarrow> map (\<lambda>(i, key). ((i mod 2 ^ 32 + 1) mod 2 ^ 32, key)) (enumerate 0 keys) = numbered_keys keys"
  unfolding numbered_keys_def by (rule map_cong [OF refl]) (auto simp: in_set_enumerate_eq)

definition numbered_rows :: "config_row list \<Rightarrow> raw_record list" where
  "numbered_rows rows = map (\<lambda>(i, row). \<lparr>rr_number = i + 1, rr_row = row\<rparr>) (enumerate 0 rows)"

end
