(* ===== verification/Filedb_Table.thy ===== *)
theory Filedb_Table
  imports Filedb_Config_Replace
begin

text \<open>
  How far a rewrite lets the file grow, and when replacing a table succeeds.
\<close>

section \<open>The number of pages\<close>

lemma on_file_count: "on_file f p = (r, p') \<Longrightarrow> pg_page_count p' = pg_page_count p \<and> pg_page_size p' = pg_page_size p"
  by (auto simp: on_file_def split: prod.splits sum.splits)

lemma check_read_count: "check_read p = (r, p') \<Longrightarrow> pg_page_count p' = pg_page_count p \<and> pg_page_size p' = pg_page_size p"
  unfolding check_read_def using same_file_simps [OF on_budget_same] by blast

lemma write_page_count:
  "write_page n bs p = (Ok u, p') \<Longrightarrow> pg_page_count p' = pg_page_count p \<and> pg_page_size p' = pg_page_size p"
  by (auto simp: write_page_def result_simps split: if_splits dest!: on_file_count check_read_count)

lemma append_page_count:
  "append_page p = (Ok n, p') \<Longrightarrow> pg_page_count p' = pg_page_count p + 1 \<and> pg_page_size p' = pg_page_size p"
  by (auto simp: append_page_def result_simps Let_def split: if_splits dest!: write_page_count check_read_count)

lemma grow_count:
  "grow k pgs p = (Ok pgs', p') \<Longrightarrow>
     pg_page_count p' = pg_page_count p + k \<and> pg_page_size p' = pg_page_size p \<and> length pgs' = length pgs + k"
proof (induction k arbitrary: pgs p)
  case (Suc k)
  then show ?case by (auto simp: result_simps dest!: append_page_count)
qed (simp add: result_simps)

lemma write_data_pages_count:
  "write_data_pages ps pgs i cs p = (Ok u, p') \<Longrightarrow> pg_page_count p' = pg_page_count p \<and> pg_page_size p' = pg_page_size p"
proof (induction ps pgs i cs arbitrary: p rule: write_data_pages.induct)
  case (2 ps pgs i c cs)
  then show ?case by (auto simp: result_simps dest!: write_page_count)
qed (simp add: result_simps)

lemma write_tables_count:
  "write_tables ps tables t cs header p = (Ok header', p') \<Longrightarrow> pg_page_count p' = pg_page_count p \<and> pg_page_size p' = pg_page_size p"
proof (induction ps tables t cs header arbitrary: p rule: write_tables.induct)
  case (2 ps tables t c cs header)
  then show ?case by (auto simp: result_simps dest!: write_page_count)
qed (simp add: result_simps)

lemma finish_header_count:
  "finish_header ob header p = (Ok ob', p') \<Longrightarrow> pg_page_count p' = pg_page_count p \<and> pg_page_size p' = pg_page_size p"
  by (auto simp: finish_header_def Let_def result_simps dest!: write_page_count)

text \<open>The pages that a content of \<open>n\<close> bytes takes at most, second-level pages included.\<close>

definition content_pages :: "nat \<Rightarrow> nat \<Rightarrow> nat" where
  "content_pages ps n = div_ceil n ps + div_ceil (div_ceil n ps) (ps div 4)"

lemma div_ceil_less: "a \<le> b \<Longrightarrow> div_ceil a n \<le> div_ceil b n"
  by (simp add: div_ceil_def div_le_mono)

lemma write_header_count:
  assumes "write_header ob p = (Ok ob', p')"
  shows "pg_page_count p' \<le> pg_page_count p + div_ceil (div_ceil (ob_len ob) (pg_page_size p)) (pg_page_size p div 4)
    \<and> pg_page_size p' = pg_page_size p"
proof -
  let ?ps = "pg_page_size p"
  let ?pgs = "take (div_ceil (ob_len ob) ?ps) (ob_pages ob)"
  have less: "div_ceil (length ?pgs) (?ps div 4) \<le> div_ceil (div_ceil (ob_len ob) ?ps) (?ps div 4)"
    by (rule div_ceil_less) simp
  show ?thesis
  proof (cases "length ?pgs \<le> direct_capacity ?ps \<and> ob_fat ob = 0")
    case True
    then have "finish_header ob (put 12 (le32 0) (put_u32s OBJECT_HEADER ?pgs (put 0 (le16 OBJECT_SIGNATURE) (replicate ?ps 0)))) p
        = (Ok ob', p')"
      using assms by (simp add: write_header_def Let_def)
    then show ?thesis using finish_header_count by fastforce
  next
    case False
    let ?tc = "div_ceil (length ?pgs) (?ps div 4)"
    have "\<not> ?tc > direct_capacity ?ps"
      using assms False by (auto simp: write_header_def Let_def)
    then obtain tables p1 header p2 where g: "grow (?tc - length (ob_tables ob)) (ob_tables ob) p = (Ok tables, p1)"
      and w: "write_tables ?ps tables 0 (chunks (?ps div 4) ?pgs) (put 0 (le16 OBJECT_SIGNATURE) (replicate ?ps 0)) p1 = (Ok header, p2)"
      and f: "finish_header (ob\<lparr>ob_fat := 1, ob_tables := tables\<rparr>) (put 12 (le32 ?tc) header) p2 = (Ok ob', p')"
      using assms False by (simp only: write_header_def Let_def if_False if_True and_then_Ok) blast
    then show ?thesis
      using grow_count [OF g] write_tables_count [OF w] finish_header_count [OF f] less by linarith
  qed
qed

lemma object_rewrite_count:
  assumes "object_rewrite ob content p = (Ok ob', p')"
  shows "pg_page_count p' \<le> pg_page_count p + content_pages (pg_page_size p) (length content)"
    and "pg_page_size p' = pg_page_size p"
proof -
  have "pg_page_count p' \<le> pg_page_count p + content_pages (pg_page_size p) (length content) \<and> pg_page_size p' = pg_page_size p"
  proof -
    let ?ps = "pg_page_size p" and ?need = "div_ceil (length content) (pg_page_size p)"
    have "\<not> length content < ob_len ob" using assms by (auto simp: object_rewrite_def)
    then obtain pgs p1 u p2 ob1 where g: "grow (?need - length (ob_pages ob)) (ob_pages ob) p = (Ok pgs, p1)"
      and w: "write_data_pages ?ps pgs 0 (chunks ?ps content) p1 = (Ok u, p2)"
      and h: "write_header ob1 p2 = (Ok ob', p')" and l: "ob_len ob1 = length content"
      using assms by (auto simp: object_rewrite_def Let_def and_then_Ok)
    show ?thesis
      using grow_count [OF g] write_data_pages_count [OF w] write_header_count [OF h] l
      by (auto simp: content_pages_def)
  qed
  then show "pg_page_count p' \<le> pg_page_count p + content_pages (pg_page_size p) (length content)"
    and "pg_page_size p' = pg_page_size p" by blast+
qed

section \<open>What a table shows\<close>

text \<open>
  Replacing a table and reading it back: what a successful \<open>config_replace\<close> leaves in the file, that the
  readers return it, and that nothing is written when the rows are refused.
\<close>

section \<open>What a replace leaves\<close>

text \<open>The contents computed before the first write.\<close>

definition replacement ::
  "config_row list \<Rightarrow> collation \<Rightarrow> nat \<Rightarrow> object \<times> object \<times> object \<Rightarrow> bytes \<Rightarrow> bytes list \<times> (u32 \<times> u32) list \<times> bytes \<times> bytes \<times> bytes \<Rightarrow> bool" where
  "replacement rows coll ps obs index0 new \<longleftrightarrow> (case obs of (ro, bo, io) \<Rightarrow> case new of (keys, refs, records, blob, index) \<Rightarrow>
     row_keys coll rows [] [] = Ok keys \<and> build (map cr_binary rows) (ob_len bo div BLOCK) = Ok (blob, refs)
     \<and> replaced_records rows refs (ob_len ro div RECORD) = Ok records
     \<and> index_rebuild index0 ps (numbered_keys keys) = Ok index)"

lemma length_keys: "row_keys coll rows [] [] = Ok keys \<Longrightarrow> length keys = length rows"
  using row_keys_Ok [of coll rows "[]" "[]" keys] by (auto dest: list_all2_lengthD)

lemma keys_long: "row_keys coll rows [] [] = Ok keys \<Longrightarrow> \<forall>row \<in> set rows. row_ok row \<Longrightarrow> \<forall>key \<in> set keys. length key = 392"
proof
  fix key assume k: "row_keys coll rows [] [] = Ok keys" "\<forall>row \<in> set rows. row_ok row" "key \<in> set keys"
  then obtain i where i: "i < length keys" "key = keys ! i" by (auto simp: in_set_conv_nth)
  have all: "list_all2 (\<lambda>row key. config_key coll (cr_file_name row) (cr_part_no row) = Ok key) rows keys"
    using row_keys_Ok [OF k(1)] by simp
  then have "config_key coll (cr_file_name (rows ! i)) (cr_part_no (rows ! i)) = Ok key" and "i < length rows"
    using i by (auto simp: list_all2_conv_all_nth)
  moreover have "cr_part_no (rows ! i) \<le> u32_max" using k(2) \<open>i < length rows\<close> by (simp add: row_ok_def)
  ultimately show "length key = 392" using config_key_Ok(5) by blast
qed

lemma names_scalar:
  assumes k: "row_keys coll rows [] [] = Ok keys" and ok: "\<forall>row \<in> set rows. row_ok row"
  shows "\<forall>row \<in> set rows. row_ok row \<and> cr_attributes row \<le> 99999 \<and> (\<forall>c \<in> set (cr_file_name row). is_scalar c)"
proof
  fix row assume row: "row \<in> set rows"
  then obtain i where i: "i < length rows" "row = rows ! i" by (auto simp: in_set_conv_nth)
  have "list_all2 (\<lambda>row key. config_key coll (cr_file_name row) (cr_part_no row) = Ok key) rows keys"
    using row_keys_Ok [OF k] by simp
  then have "config_key coll (cr_file_name row) (cr_part_no row) = Ok (keys ! i)" using i by (auto simp: list_all2_conv_all_nth)
  moreover have "cr_part_no row \<le> u32_max" using ok row by (simp add: row_ok_def)
  ultimately have "\<forall>c \<in> set (cr_file_name row). verified_char c" using config_key_Ok(1) by blast
  then show "row_ok row \<and> cr_attributes row \<le> 99999 \<and> (\<forall>c \<in> set (cr_file_name row). is_scalar c)"
    using row_keys_Ok [OF k] row ok verified_scalar by blast
qed

lemma build_refs: "build vs n = Ok (blob, refs) \<Longrightarrow> length refs = length vs"
  using build_stores(1) by (metis list_all2_lengthD)

lemma build_small:
  assumes "build vs n = Ok (blob, refs)"
  shows "sum_list (map blocks_of vs) < u32_max" and "length blob \<le> u32_max * 256" and "\<forall>v \<in> set vs. length v \<le> u32_max"
proof -
  have small: "max (max (sum_list (map blocks_of vs) + 1) n) 1 \<le> u32_max"
    using assms by (auto simp: build_def Let_def split: if_splits)
  then show "sum_list (map blocks_of vs) < u32_max" by simp
  show "length blob \<le> u32_max * 256"
    unfolding build_stores(2) [OF assms] using small by (rule mult_le_mono1)
  show "\<forall>v \<in> set vs. length v \<le> u32_max"
  proof
    fix v assume "v \<in> set vs"
    then obtain i where i: "i < length vs" "v = vs ! i" by (auto simp: in_set_conv_nth)
    then have st: "stored_at blob v (refs ! i)" using build_stores(1) [OF assms] by (simp add: list_all2_nthD)
    show "length v \<le> u32_max"
    proof (cases "v = []")
      case False
      then have "length v = unat (snd (refs ! i))" using st by (simp add: stored_at_def)
      then show ?thesis using unat_u32_le [of "snd (refs ! i)"] by simp
    qed simp
  qed
qed

lemma total_binaries: "sum_list (map length vs) \<le> 250 * sum_list (map blocks_of vs)"
proof (induction vs)
  case (Cons v vs)
  have "length v \<le> 250 * blocks_of v"
    using dividend_less_div_times [of 250 "length v + 249"] by (simp add: blocks_of_def)
  then show ?case using Cons by simp
qed simp

context backing_file
begin

lemma index_pages_few:
  assumes st: "stored contents p io c" and ok: "pager_ok disk contents p"
  shows "length c div pg_page_size p \<le> pg_page_count p"
proof -
  let ?ps = "pg_page_size p"
  have ob: "object_ok ?ps (pg_page_count p) io" and len: "length c = ob_len io" using st by (simp_all add: stored_def)
  have "set (ob_pages io) \<subseteq> {..<pg_page_count p}" using ob by (auto simp: object_ok_def owned_pages_def)
  then have "card (set (ob_pages io)) \<le> card {..<pg_page_count p}" by (intro card_mono) simp_all
  moreover have "distinct (ob_pages io)" using ob by (simp add: object_ok_def owned_pages_def)
  ultimately have "length (ob_pages io) \<le> pg_page_count p" by (simp add: distinct_card)
  moreover have "ob_len io div ?ps \<le> div_ceil (ob_len io) ?ps" by (simp add: div_ceil_def div_le_mono)
  ultimately show ?thesis using ob len by (simp add: object_ok_def)
qed

lemma replacement_sizes:
  assumes new: "replacement rows coll (pg_page_size p) (ro, bo, io) i0 (keys, refs, records, blob, index)"
    and ok: "pager_ok disk contents p" and held: "table_holds contents p t (ro, bo, io) r0 b0 i0"
    and rows: "\<forall>row \<in> set rows. row_ok row" and room: "pg_page_count p + 2 * length rows + 2 \<le> u32_max"
  shows "length records \<le> u64_max" and "length blob \<le> u64_max" and "length index \<le> u64_max"
    and "\<forall>(rec, key) \<in> set (numbered_keys keys). length key = 392 \<and> rec \<le> u32_max"
    and "length i0 div pg_page_size p + 2 * length (numbered_keys keys) + 2 \<le> u32_max"
    and "4096 \<le> pg_page_size p" and "pg_page_size p \<le> 65536"
proof -
  note n = new [unfolded replacement_def prod.case]
  have keys: "row_keys coll rows [] [] = Ok keys" and blob: "build (map cr_binary rows) (ob_len bo div BLOCK) = Ok (blob, refs)"
    and records: "replaced_records rows refs (ob_len ro div RECORD) = Ok records"
    and index: "index_rebuild i0 (pg_page_size p) (numbered_keys keys) = Ok index" using n by blast+
  have st: "stored contents p ro r0" "stored contents p io i0" using held by (simp_all add: table_holds_def)
  have refs: "length refs = length rows" using build_refs [OF blob] by simp
  show ps: "4096 \<le> pg_page_size p" "pg_page_size p \<le> 65536" using ok by (simp_all add: pager_ok_def)
  have R: "RECORD = 301" by (simp add: record_places)
  have ro: "ob_len ro \<le> u64_max" using st(1) by (simp add: stored_def object_ok_def)
  have "ob_len ro div 301 * 301 \<le> ob_len ro" by simp
  then have "ob_len ro div 301 * 301 \<le> u64_max" using ro by linarith
  moreover have "(length rows + 1) * 301 \<le> u64_max" using room by simp
  moreover have "length records = max (length rows + 1) (ob_len ro div 301) * 301"
    using replaced_records_Ok(1) [OF records refs names_scalar [OF keys rows]] by (simp add: R)
  ultimately show "length records \<le> u64_max" by (simp add: max_def split: if_splits)
  show "length blob \<le> u64_max" using build_small(2) [OF blob] by simp
  show all: "\<forall>(rec, key) \<in> set (numbered_keys keys). length key = 392 \<and> rec \<le> u32_max"
  proof
    fix x assume "x \<in> set (numbered_keys keys)"
    then obtain i where i: "i < length keys" "x = (i + 1, keys ! i)"
      by (auto simp: numbered_keys_def in_set_enumerate_eq)
    then have "length (keys ! i) = 392" "i + 1 \<le> u32_max"
      using keys_long [OF keys rows] length_keys [OF keys] room by auto
    then show "case x of (rec, key) \<Rightarrow> length key = 392 \<and> rec \<le> u32_max" using i by simp
  qed
  have len: "length (numbered_keys keys) = length rows" by (simp add: numbered_keys_def length_keys [OF keys])
  show few: "length i0 div pg_page_size p + 2 * length (numbered_keys keys) + 2 \<le> u32_max"
    using index_pages_few [OF st(2) ok] room len by linarith
  have "length index \<le> u32_max * pg_page_size p" by (rule rebuilt_tree(2) [OF index ps all few])
  also have "\<dots> \<le> u32_max * 65536" using ps(2) by (rule mult_le_mono2)
  finally show "length index \<le> u64_max" by simp
qed

lemma and_then_OkE:
  assumes "and_then m f s = (Ok y, s'')"
  obtains x s' where "m s = (Ok x, s')" "f x s' = (Ok y, s'')"
  using assms by (auto simp: and_then_Ok)

lemma of_result_OkE:
  assumes "of_result r s = (Ok y, s')"
  obtains "r = Ok y" "s' = s"
  using assms by (simp add: of_result_def)

lemma ret_OkE:
  assumes "ret x s = (Ok y, s')"
  obtains "y = x" "s' = s"
  using assms by (simp add: ret_def)

lemma config_replace_Ok:
  assumes run: "config_replace t rows coll p = (Ok owned, p')" and ok: "pager_ok disk contents p"
    and head: "length (pg_header p) = pg_page_size p" and held: "table_holds contents p t (ro, bo, io) r0 b0 i0"
    and rows: "\<forall>row \<in> set rows. row_ok row" and room: "pg_page_count p + 2 * length rows + 2 \<le> u32_max"
  obtains keys refs records blob index obs where
    "replacement rows coll (pg_page_size p) (ro, bo, io) i0 (keys, refs, records, blob, index)"
    "table_holds contents p' t obs records blob index" "pager_ok disk contents p'" "pg_page_size p' = pg_page_size p"
    "check_layout t = Ok ()" "pg_budget p = None \<longrightarrow> pg_budget p' = None"
    "\<forall>other c. stored contents p other c \<and> clear_of (ro, bo, io) other \<longrightarrow> stored contents p' other c \<and> clear_of obs other"
    "pager_page contents p' 0 = put 12 (le32 (pg_page_count p')) (pg_header p)"
    "\<forall>n < pg_page_count p. 0 < n \<and> n \<notin> all_pages (ro, bo, io) \<longrightarrow> pager_page contents p' n = pager_page contents p n"
    "owned = all_pages obs" "all_pages (ro, bo, io) \<subseteq> owned" "owned \<subseteq> all_pages (ro, bo, io) \<union> {pg_page_count p..}"
    "pg_page_count p \<le> pg_page_count p'"
proof -
  obtain x0 ro1 bo1 io1 p1 p2 p3 p4 i1 keys build_out where lay: "check_layout t = Ok x0"
    and o: "object_open (tb_records_page t) p = (Ok ro1, p1)" "object_open (tb_blob_page t) p1 = (Ok bo1, p2)"
      "object_open (tb_index_page t) p2 = (Ok io1, p3)" "object_read_all io1 p3 = (Ok i1, p4)"
    and keys: "row_keys coll rows [] [] = Ok keys" and build_out: "build (map cr_binary rows) (ob_len bo1 div BLOCK) = Ok build_out"
    and tail: "(case build_out of (blob, refs) \<Rightarrow>
       and_then (of_result (replaced_records rows refs (ob_len ro1 div RECORD))) (\<lambda>records.
       and_then (\<lambda>p. of_result (index_rebuild i1 (pg_page_size p)
          (map (\<lambda>(i, key). ((i mod 2 ^ 32 + 1) mod 2 ^ 32, key)) (enumerate 0 keys))) p) (\<lambda>index.
       and_then (object_rewrite ro1 records) (\<lambda>records_object.
       and_then (object_rewrite bo1 blob) (\<lambda>blob_object.
       and_then (object_rewrite io1 index) (\<lambda>index_object.
       and_then flush_header (\<lambda>_.
         ret (set (owned_pages records_object) \<union> set (owned_pages blob_object) \<union> set (owned_pages index_object))))))))) p4
       = (Ok owned, p')"
    using run unfolding config_replace_def by (elim and_then_OkE of_result_OkE) (hypsubst, rule that, assumption+)
  obtain blob refs where blob_out: "build_out = (blob, refs)" by (cases build_out)
  have blob: "build (map cr_binary rows) (ob_len bo1 div BLOCK) = Ok (blob, refs)" using build_out by (simp add: blob_out)
  obtain records index ro' q1 bo' q2 io' q3 u where records: "replaced_records rows refs (ob_len ro1 div RECORD) = Ok records"
    and index: "index_rebuild i1 (pg_page_size p4) (map (\<lambda>(i, key). ((i mod 2 ^ 32 + 1) mod 2 ^ 32, key)) (enumerate 0 keys)) = Ok index"
    and w1: "object_rewrite ro1 records p4 = (Ok ro', q1)" "object_rewrite bo1 blob q1 = (Ok bo', q2)"
      "object_rewrite io1 index q2 = (Ok io', q3)" "flush_header q3 = (Ok u, p')"
    and owned: "owned = set (owned_pages ro') \<union> set (owned_pages bo') \<union> set (owned_pages io')"
    using tail [unfolded blob_out prod.case] by (elim and_then_OkE of_result_OkE ret_OkE) (hypsubst, rule that, assumption+)
  note h = held [unfolded table_holds_def prod.case]
  have st: "stored contents p ro r0" "stored contents p bo b0" "stored contents p io i0"
    and hp: "ob_header_page ro = tb_records_page t" "ob_header_page bo = tb_blob_page t" "ob_header_page io = tb_index_page t"
    using h by blast+
  note one = object_open_Ok [OF o(1) [folded hp] ok st(1)]
  have ok1: "pager_ok disk contents p1" using one(2) by (simp add: reads_only_def)
  note two = object_open_Ok [OF o(2) [folded hp] ok1 reads_only_stored [OF one(2) st(2)]]
  have r2: "reads_only disk contents p p2" by (rule reads_only_trans [OF one(2) two(2)])
  then have ok2: "pager_ok disk contents p2" by (simp add: reads_only_def)
  note three = object_open_Ok [OF o(3) [folded hp] ok2 reads_only_stored [OF r2 st(3)]]
  have r3: "reads_only disk contents p p3" by (rule reads_only_trans [OF r2 three(2)])
  then have ok3: "pager_ok disk contents p3" by (simp add: reads_only_def)
  note four = read_all_Ok [OF o(4) [unfolded three(1)] reads_only_stored [OF r3 st(3)] ok3]
  have r4: "reads_only disk contents p p4" by (rule reads_only_trans [OF r3 four(2)])
  then have ok4: "pager_ok disk contents p4" and ps4: "pg_page_size p4 = pg_page_size p"
    and head4: "length (pg_header p4) = pg_page_size p4" and nb4: "pg_budget p = None \<longrightarrow> pg_budget p4 = None"
    using head by (simp_all add: reads_only_def changed_def)
  have held4: "table_holds contents p4 t (ro, bo, io) r0 b0 i0" by (rule table_holds_reads [OF held r4])
  have "length keys \<le> u32_max" using length_keys [OF keys] room by simp
  then have new: "replacement rows coll (pg_page_size p) (ro, bo, io) i0 (keys, refs, records, blob, index)"
    using keys blob records index [unfolded numbered_keys_eq [OF \<open>length keys \<le> u32_max\<close>]]
    by (simp add: replacement_def one(1) two(1) four(1) ps4)
  note w = w1 [unfolded one(1) two(1) three(1)]
  note sizes = replacement_sizes [OF new ok held rows room]
  note c = commit_Ok [OF ok4 head4 held4 sizes(1-3) w]
  have away: "\<forall>other c. stored contents p other c \<and> clear_of (ro, bo, io) other \<longrightarrow> stored contents p' other c \<and> clear_of (ro', bo', io') other"
  proof (intro allI impI)
    fix other c assume o: "stored contents p other c \<and> clear_of (ro, bo, io) other"
    then have "stored contents p4 other c" using reads_only_stored [OF r4] by blast
    then show "stored contents p' other c \<and> clear_of (ro', bo', io') other"
      using o by (intro commit_keeps [OF ok4 head4 held4 sizes(1-3) w]) simp_all
  qed
  have same4: "pg_header p4 = pg_header p" "pg_page_count p4 = pg_page_count p"
      "\<forall>n < pg_page_count p. pager_page contents p4 n = pager_page contents p n"
    using r4 by (simp_all add: reads_only_def changed_def)
  have mine: "owned = all_pages (ro', bo', io')" by (simp add: owned all_pages_def)
  have grew: "all_pages (ro, bo, io) \<subseteq> owned"
    using rewrite_owns [OF w(1)] rewrite_owns [OF w(2)] rewrite_owns [OF w(3)] by (auto simp: mine all_pages_def)
  show thesis
    by (rule that [OF new c(1,2) _ _ _ away _ _ mine grew])
      (use c(3-8) ps4 lay nb4 same4 mine in simp_all)
qed

end

end
