(* ===== verification/Filedb_Table_Rows.thy ===== *)
theory Filedb_Table_Rows
  imports Filedb_Table
begin

text \<open>
  What a table shows after a replace: its rows in the records from 1 on, the free records behind them, and the
  entries of its index in the pages that the program lays out.  A replace moves the table to this form from
  whatever it held and leaves every table on other pages as it was.  The readers are proved over the general
  form of \<open>Filedb_Any_Table\<close>, which this form has.
\<close>

section \<open>What a table shows\<close>

text \<open>The record object and the blob object hold the rows in the records \<open>1\<close> to \<open>length rows\<close>; the
  records behind them are free.\<close>

definition rows_stored :: "bytes \<Rightarrow> bytes \<Rightarrow> config_row list \<Rightarrow> bool" where
  "rows_stored records blob rows \<longleftrightarrow> (\<exists>refs tot. length records = tot * 301 \<and> length rows < tot \<and> length rows < u32_max
     \<and> (\<forall>k < length rows. holds_row (page_of 301 records (k + 1)) (rows ! k) (refs k) \<and> stored_at blob (cr_binary (rows ! k)) (refs k))
     \<and> (\<forall>m. length rows < m \<and> m < tot \<longrightarrow> page_of 301 records m ! 0 = 1)
     \<and> (\<forall>row \<in> set rows. row_ok row \<and> length (cr_binary row) \<le> u32_max)
     \<and> sum_list (map (\<lambda>row. length (cr_binary row)) rows) \<le> u64_max)"

definition table_shows ::
  "('f \<Rightarrow> bytes) \<Rightarrow> ('f, 'e) pager \<Rightarrow> table \<Rightarrow> object \<times> object \<times> object \<Rightarrow> config_row list \<Rightarrow> index_entry list \<Rightarrow> bool" where
  "table_shows contents p t obs rows es \<longleftrightarrow> check_layout t = Ok () \<and>
     (\<exists>records blob index. table_holds contents p t obs records blob index \<and> rows_stored records blob rows
        \<and> index_holds (pg_page_size p) index es)"

text \<open>What a replace computes is what the readers look for.\<close>

context backing_file
begin

lemma replacement_shows:
  assumes new: "replacement rows coll (pg_page_size p) (ro, bo, io) i0 (keys, refs, records, blob, index)"
    and ok: "pager_ok disk contents p" and held: "table_holds contents p t (ro, bo, io) r0 b0 i0"
    and rows: "\<forall>row \<in> set rows. row_ok row" and room: "pg_page_count p + 2 * length rows + 2 \<le> u32_max"
  shows "rows_stored records blob rows" and "index_holds (pg_page_size p) index (sort_key snd (numbered_keys keys))"
proof -
  note n = new [unfolded replacement_def prod.case]
  have keys: "row_keys coll rows [] [] = Ok keys" and blob: "build (map cr_binary rows) (ob_len bo div BLOCK) = Ok (blob, refs)"
    and records: "replaced_records rows refs (ob_len ro div RECORD) = Ok records"
    and index: "index_rebuild i0 (pg_page_size p) (numbered_keys keys) = Ok index" using n by blast+
  note sizes = replacement_sizes [OF new ok held rows room]
  show "index_holds (pg_page_size p) index (sort_key snd (numbered_keys keys))"
    by (rule rebuilt_tree(1) [OF index sizes(6,7,4,5)])
  have lr: "length refs = length rows" using build_refs [OF blob] by simp
  note rec = replaced_records_Ok [OF records lr names_scalar [OF keys rows]]
  have st: "list_all2 (stored_at blob) (map cr_binary rows) refs" by (rule build_stores(1) [OF blob])
  have "sum_list (map length (map cr_binary rows)) \<le> 250 * u32_max"
    using total_binaries [of "map cr_binary rows"] build_small(1) [OF blob] by linarith
  then have sum: "sum_list (map (\<lambda>row. length (cr_binary row)) rows) \<le> u64_max" by (simp add: comp_def)
  show "rows_stored records blob rows"
    unfolding rows_stored_def
  proof (intro exI conjI)
    show "length records = max (length rows + 1) (ob_len ro div RECORD) * 301" by (rule rec(1))
    show "\<forall>k < length rows. holds_row (page_of 301 records (k + 1)) (rows ! k) (refs ! k) \<and> stored_at blob (cr_binary (rows ! k)) (refs ! k)"
      using rec(2) st by (simp add: list_all2_conv_all_nth)
    show "\<forall>m. length rows < m \<and> m < max (length rows + 1) (ob_len ro div RECORD) \<longrightarrow> page_of 301 records m ! 0 = 1"
      by (rule rec(3))
    show "\<forall>row \<in> set rows. row_ok row \<and> length (cr_binary row) \<le> u32_max" using rows build_small(3) [OF blob] by simp
  qed (use room sum in simp_all)
qed

text \<open>The step of the refinement: the new state of the table, and a table on other pages.\<close>

lemma replace_shows:
  assumes run: "config_replace t rows coll p = (Ok owned, p')" and ok: "pager_ok disk contents p"
    and head: "length (pg_header p) = pg_page_size p" and held: "table_holds contents p t obs r0 b0 i0"
    and rows: "\<forall>row \<in> set rows. row_ok row" and room: "pg_page_count p + 2 * length rows + 2 \<le> u32_max"
  shows "\<exists>keys obs'. row_keys coll rows [] [] = Ok keys \<and> table_shows contents p' t obs' rows (sort_key snd (numbered_keys keys))
      \<and> (\<forall>other c. stored contents p other c \<and> clear_of obs other \<longrightarrow> stored contents p' other c \<and> clear_of obs' other)"
    and "pager_ok disk contents p'" and "pg_page_size p' = pg_page_size p" and "pg_budget p = None \<Longrightarrow> pg_budget p' = None"
    and "pager_page contents p' 0 = put 12 (le32 (pg_page_count p')) (pg_header p)"
    and "\<forall>n < pg_page_count p. 0 < n \<and> n \<notin> all_pages obs \<longrightarrow> pager_page contents p' n = pager_page contents p n"
    and "all_pages obs \<subseteq> owned" and "owned \<subseteq> all_pages obs \<union> {pg_page_count p..}" and "pg_page_count p \<le> pg_page_count p'"
proof -
  obtain ro bo io where obs: "obs = (ro, bo, io)" by (cases obs)
  note held' = held [unfolded obs]
  obtain keys refs records blob index obs' where
    new: "replacement rows coll (pg_page_size p) (ro, bo, io) i0 (keys, refs, records, blob, index)"
    and h: "table_holds contents p' t obs' records blob index" and ok': "pager_ok disk contents p'"
    and ps: "pg_page_size p' = pg_page_size p" and lay: "check_layout t = Ok ()" and nb: "pg_budget p = None \<longrightarrow> pg_budget p' = None"
    and away: "\<forall>other c. stored contents p other c \<and> clear_of (ro, bo, io) other \<longrightarrow> stored contents p' other c \<and> clear_of obs' other"
    and page0: "pager_page contents p' 0 = put 12 (le32 (pg_page_count p')) (pg_header p)"
    and kept: "\<forall>n < pg_page_count p. 0 < n \<and> n \<notin> all_pages (ro, bo, io) \<longrightarrow> pager_page contents p' n = pager_page contents p n"
    and mine: "owned = all_pages obs'" and grew: "all_pages (ro, bo, io) \<subseteq> owned"
    and fresh: "owned \<subseteq> all_pages (ro, bo, io) \<union> {pg_page_count p..}" and count: "pg_page_count p \<le> pg_page_count p'"
    by (rule config_replace_Ok [OF run ok head held' rows room])
  note shows_new = replacement_shows [OF new ok held' rows room]
  have "row_keys coll rows [] [] = Ok keys" using new by (simp add: replacement_def)
  moreover have "table_shows contents p' t obs' rows (sort_key snd (numbered_keys keys))"
    unfolding table_shows_def ps using lay h shows_new by blast
  ultimately show "\<exists>keys obs'. row_keys coll rows [] [] = Ok keys \<and> table_shows contents p' t obs' rows (sort_key snd (numbered_keys keys))
      \<and> (\<forall>other c. stored contents p other c \<and> clear_of obs other \<longrightarrow> stored contents p' other c \<and> clear_of obs' other)"
    using away unfolding obs by blast
  show "pager_ok disk contents p'" "pg_page_size p' = pg_page_size p" by (rule ok', rule ps)
  show "pg_budget p = None \<Longrightarrow> pg_budget p' = None" using nb by blast
  show "pager_page contents p' 0 = put 12 (le32 (pg_page_count p')) (pg_header p)" by (rule page0)
  show "\<forall>n < pg_page_count p. 0 < n \<and> n \<notin> all_pages obs \<longrightarrow> pager_page contents p' n = pager_page contents p n"
    "all_pages obs \<subseteq> owned" "owned \<subseteq> all_pages obs \<union> {pg_page_count p..}" "pg_page_count p \<le> pg_page_count p'"
    unfolding obs by (rule kept, rule grew, rule fresh, rule count)
qed

end

end
