(* ===== verification/Filedb_Table_Keys.thy ===== *)
theory Filedb_Table_Keys
  imports Filedb_Table
begin

text \<open>
  The contents that a replace computes before its first write: which rows are accepted, that accepted rows
  have keys of their own, and that the three contents can then be built.
\<close>

section \<open>Accepted rows have their own keys\<close>

definition row_id :: "config_row \<Rightarrow> ustr \<times> nat" where
  "row_id row = (to_lowercase (cr_file_name row), cr_part_no row)"

lemma row_keys_ids:
  "row_keys coll rows met keys0 = Ok keys \<Longrightarrow> distinct (map row_id rows) \<and> row_id ` set rows \<inter> set met = {}"
proof (induction coll rows met keys0 rule: row_keys.induct)
  case (2 coll row rows met keys0)
  obtain key where "config_key coll (cr_file_name row) (cr_part_no row) = Ok key"
    and new: "row_id row \<notin> set met" and rest: "row_keys coll rows (row_id row # met) (keys0 @ [key]) = Ok keys"
    and small: "\<not> cr_attributes row > 99999"
    using "2.prems" by (auto simp: Let_def row_id_def result_simps split: if_splits)
  then have "distinct (map row_id rows) \<and> row_id ` set rows \<inter> set (row_id row # met) = {}"
    by (intro "2.IH") (auto simp: row_id_def)
  then show ?case using new by auto
qed simp

lemma lower_folded:
  assumes "\<forall>c \<in> set xs. verified_char c" and "\<forall>c \<in> set ys. verified_char c"
    and "map (fold_char coll) xs = map (fold_char coll) ys"
  shows "to_lowercase xs = to_lowercase ys"
proof -
  have lower: "to_lowercase zs = map to_ascii_lowercase zs" if "\<forall>c \<in> set zs. verified_char c" for zs
    using that by (auto simp: to_lowercase_def lower_char_def verified_char_def ascii_digit_def ascii_lower_def ascii_upper_def)
  show ?thesis
  proof (cases coll)
    case Posix
    then have "fold_char coll = (\<lambda>c. c)" by (simp add: fold_char_def fun_eq_iff)
    then have "xs = ys" using assms(3) by simp
    then show ?thesis by simp
  next
    case Russian
    then have "fold_char coll = to_ascii_lowercase" by (simp add: fold_char_def fun_eq_iff)
    then show ?thesis using assms lower by simp
  qed
qed

lemma row_keys_distinct:
  assumes k: "row_keys coll rows [] [] = Ok keys" and ok: "\<forall>row \<in> set rows. row_ok row"
  shows "distinct keys"
proof -
  have all: "list_all2 (\<lambda>row key. config_key coll (cr_file_name row) (cr_part_no row) = Ok key) rows keys"
    using row_keys_Ok [OF k] by simp
  have ids: "distinct (map row_id rows)" using row_keys_ids [OF k] by simp
  have "keys ! i \<noteq> keys ! j" if ij: "i < length keys" "j < length keys" "i \<noteq> j" for i j
  proof
    assume same: "keys ! i = keys ! j"
    have len: "length rows = length keys" using all by (rule list_all2_lengthD)
    have ki: "config_key coll (cr_file_name (rows ! i)) (cr_part_no (rows ! i)) = Ok (keys ! i)"
      and kj: "config_key coll (cr_file_name (rows ! j)) (cr_part_no (rows ! j)) = Ok (keys ! j)"
      using all ij by (simp_all add: list_all2_conv_all_nth)
    have pi: "cr_part_no (rows ! i) \<le> u32_max" and pj: "cr_part_no (rows ! j) \<le> u32_max"
      using ok ij len by (simp_all add: row_ok_def)
    have "map (fold_char coll) (cr_file_name (rows ! i)) = map (fold_char coll) (cr_file_name (rows ! j))
        \<and> cr_part_no (rows ! i) = cr_part_no (rows ! j)"
      using config_keys_same [OF ki kj pi pj] same by blast
    moreover have "to_lowercase (cr_file_name (rows ! i)) = to_lowercase (cr_file_name (rows ! j))"
      by (rule lower_folded [OF config_key_Ok(1) [OF ki pi] config_key_Ok(1) [OF kj pj], of coll]) (use calculation in simp)
    ultimately have "row_id (rows ! i) = row_id (rows ! j)" by (simp add: row_id_def)
    then show False using ids ij len by (auto simp: distinct_conv_nth)
  qed
  then show ?thesis by (auto simp: distinct_conv_nth)
qed

lemma distinct_adj_distinct: "distinct xs \<Longrightarrow> distinct_adj xs"
  by (simp add: distinct_adj_conv_nth nth_eq_iff_index_eq)

lemma numbered_keys_adj: "distinct keys \<Longrightarrow> distinct_adj (map snd (sort_key snd (numbered_keys keys)))"
proof (rule distinct_adj_distinct)
  assume d: "distinct keys"
  have keys: "map snd (numbered_keys keys) = keys" by (simp add: numbered_keys_def comp_def case_prod_unfold)
  then have "distinct (map snd (numbered_keys keys))" using d by simp
  then show "distinct (map snd (sort_key snd (numbered_keys keys)))" by (simp add: distinct_map)
qed

section \<open>The records can be filled\<close>

lemma name_units:
  assumes "config_key coll name part = Ok key" and "part \<le> u32_max"
  shows "length (encode_utf16 name) \<le> 43"
proof -
  have "length (encode_utf16 name) = length name"
    using config_key_Ok(1) [OF assms]
  proof (induction name)
    case (Cons c name)
    then have "c < 0x10000" by (auto simp: verified_char_def ascii_digit_def ascii_lower_def ascii_upper_def)
    then show ?case using Cons by (simp add: encode_utf16_def encode_utf16_char_def)
  qed (simp add: encode_utf16_def)
  then show ?thesis using config_key_Ok(3) [OF assms] by simp
qed

lemma fill_record_total: "length (encode_utf16 (cr_file_name row)) \<le> 128 \<Longrightarrow> \<exists>rec. fill_record row ref r = Ok rec"
  by (simp add: fill_record_def encode_var_string_def Let_def)

lemma fill_records_total:
  "\<forall>(row, ref) \<in> set es. length (encode_utf16 (cr_file_name row)) \<le> 128 \<Longrightarrow> \<exists>out. fill_records i es records = Ok out"
proof (induction i es records rule: fill_records.induct)
  case (2 i row ref rest records)
  obtain rec where "fill_record row ref (slice ((i + 1) * RECORD) ((i + 2) * RECORD) records) = Ok rec"
    using fill_record_total "2.prems" by fastforce
  then show ?case using "2.IH" "2.prems" by simp
qed simp

lemma replaced_records_total:
  assumes k: "row_keys coll rows [] [] = Ok keys" and ok: "\<forall>row \<in> set rows. row_ok row"
  shows "\<exists>records. replaced_records rows refs old = Ok records"
proof -
  have all: "list_all2 (\<lambda>row key. config_key coll (cr_file_name row) (cr_part_no row) = Ok key) rows keys"
    using row_keys_Ok [OF k] by simp
  have short: "length (encode_utf16 (cr_file_name row)) \<le> 128" if row: "row \<in> set rows" for row
  proof -
    obtain i where i: "i < length rows" "row = rows ! i" using row by (auto simp: in_set_conv_nth)
    then have "config_key coll (cr_file_name row) (cr_part_no row) = Ok (keys ! i)" using all by (simp add: list_all2_conv_all_nth)
    moreover have "row_ok row" using ok row by blast
    then have "cr_part_no row \<le> u32_max" by (simp add: row_ok_def)
    ultimately have "length (encode_utf16 (cr_file_name row)) \<le> 43" by (rule name_units)
    then show ?thesis by simp
  qed
  then have "\<forall>(row, ref) \<in> set (zip rows refs). length (encode_utf16 (cr_file_name row)) \<le> 128"
    by (auto dest: set_zip_leftD)
  note fill_records_total [OF this]
  then obtain out where "fill_records 0 (zip rows refs) (concat (replicate (max (length rows + 1) old) blank_record)) = Ok out" by blast
  then show ?thesis by (simp add: replaced_records_def Let_def)
qed

text \<open>Hence every content, once the rows are accepted and the values fit.\<close>

lemma replacement_total:
  assumes keys: "row_keys coll rows [] [] = Ok keys" and ok: "\<forall>row \<in> set rows. row_ok row"
    and desc: "index_descriptor i0 ps = Ok (root, 392)" "u32_at i0 8 = 0"
    and small: "\<forall>row \<in> set rows. length (cr_binary row) \<le> u32_max"
    and few: "sum_list (map (\<lambda>row. blocks_of (cr_binary row)) rows) < u32_max" and old: "ob_len bo div BLOCK \<le> u32_max"
  shows "\<exists>refs records blob index. replacement rows coll ps (ro, bo, io) i0 (keys, refs, records, blob, index)"
proof -
  obtain blob refs where b: "build (map cr_binary rows) (ob_len bo div BLOCK) = Ok (blob, refs)"
    by (rule build_ok [of "map cr_binary rows" "ob_len bo div BLOCK"]) (use small few old in \<open>simp_all add: comp_def\<close>)
  obtain records where r: "replaced_records rows refs (ob_len ro div RECORD) = Ok records"
    using replaced_records_total [OF keys ok] by blast
  obtain index where i: "index_rebuild i0 ps (numbered_keys keys) = Ok index"
    using index_rebuild_succeeds [OF desc numbered_keys_adj [OF row_keys_distinct [OF keys ok]]] by blast
  show ?thesis using keys b r i by (auto simp: replacement_def)
qed

end
