(* ===== verification/Filedb_Table_Works.thy ===== *)
theory Filedb_Table_Works
  imports Filedb_Table_Rows Filedb_Table_Keys
begin

text \<open>
  A table on a file that does not fail: reading what it shows, and when replacing its rows succeeds.
\<close>

section \<open>Reading\<close>

context sound_file
begin

lemma open_stored:
  assumes st: "stored contents p ob c" and ok: "pager_ok disk contents p" and nb: "pg_budget p = None"
  shows "\<exists>p1. object_open (ob_header_page ob) p = (Ok ob, p1) \<and> reads_only disk contents p p1 \<and> pg_budget p1 = None"
proof -
  obtain ob1 p1 where o: "object_open (ob_header_page ob) p = (Ok ob1, p1)" using works_open [OF assms] by (auto simp: works_def)
  note r = object_open_Ok [OF o ok st]
  have "pg_budget p1 = None" using r(2) nb by (simp add: reads_only_def changed_def)
  then show ?thesis using o r by blast
qed

lemma read_stored_all:
  assumes st: "stored contents p ob c" and ok: "pager_ok disk contents p" and nb: "pg_budget p = None"
  shows "\<exists>p1. object_read_all ob p = (Ok c, p1) \<and> reads_only disk contents p p1 \<and> pg_budget p1 = None"
proof -
  obtain bs p1 where a: "object_read_all ob p = (Ok bs, p1)" using works_read_all [OF assms] by (auto simp: works_def)
  note r = read_all_Ok [OF a st ok]
  have "pg_budget p1 = None" using r(2) nb by (simp add: reads_only_def changed_def)
  then show ?thesis using a r by blast
qed

text \<open>The two together.\<close>

lemma open_read:
  assumes st: "stored contents p ob c" and ok: "pager_ok disk contents p" and nb: "pg_budget p = None"
    and hp: "ob_header_page ob = hp"
  shows "\<exists>p1. and_then (object_open hp) object_read_all p = (Ok c, p1) \<and> reads_only disk contents p p1 \<and> pg_budget p1 = None"
proof -
  obtain p1 where o: "object_open hp p = (Ok ob, p1)" "reads_only disk contents p p1" "pg_budget p1 = None"
    using open_stored [OF assms(1-3)] hp by blast
  have ok1: "pager_ok disk contents p1" using o(2) by (simp add: reads_only_def)
  obtain p2 where "object_read_all ob p1 = (Ok c, p2)" "reads_only disk contents p1 p2" "pg_budget p2 = None"
    using read_stored_all [OF reads_only_stored [OF o(2) st] ok1 o(3)] by blast
  then show ?thesis using o(1) reads_only_trans [OF o(2)] by (auto simp: and_then_def)
qed

end

section \<open>Replacing\<close>

lemma and_then_of_result: "and_then (of_result (Ok x)) f = f x"
  by (simp add: and_then_def of_result_def fun_eq_iff)

lemma and_then_rebuild:
  "and_then (\<lambda>p. of_result (index_rebuild old (pg_page_size p) es) p) f p = and_then (of_result (index_rebuild old (pg_page_size p) es)) f p"
  by (simp add: and_then_def of_result_def)

text \<open>Room for a content of \<open>n\<close> bytes: two page-list levels hold its pages.\<close>

definition content_fits :: "nat \<Rightarrow> nat \<Rightarrow> bool" where
  "content_fits ps n \<longleftrightarrow> n \<le> u64_max \<and> div_ceil (div_ceil n ps) (ps div 4) \<le> direct_capacity ps"

text \<open>Room for the new contents of a table: the sizes of the record object and of the blob object, and the
  most that the index can take.\<close>

definition table_room :: "nat \<Rightarrow> nat \<Rightarrow> object \<times> object \<times> object \<Rightarrow> bytes \<Rightarrow> config_row list \<Rightarrow> bool" where
  "table_room ps count obs i0 rows \<longleftrightarrow> (case obs of (ro, bo, io) \<Rightarrow>
     let nr = max (length rows + 1) (ob_len ro div 301) * 301;
         used = sum_list (map (\<lambda>row. blocks_of (cr_binary row)) rows);
         nb = max (max (used + 1) (ob_len bo div 256)) 1 * 256;
         ni = (length i0 div ps + 2 * length rows + 2) * ps in
     301 dvd ob_len ro \<and> 256 dvd ob_len bo \<and> used < u32_max \<and> ob_len bo div 256 \<le> u32_max
     \<and> content_fits ps nr \<and> content_fits ps nb \<and> content_fits ps ni
     \<and> count + content_pages ps nr + content_pages ps nb + content_pages ps ni \<le> u32_max)"

lemma content_pages_mono: "a \<le> b \<Longrightarrow> content_pages ps a \<le> content_pages ps b"
  by (simp add: content_pages_def add_mono div_ceil_less)

lemma content_fits_less: "content_fits ps b \<Longrightarrow> a \<le> b \<Longrightarrow> content_fits ps a"
  using div_ceil_less [OF div_ceil_less, of a b ps "ps div 4"] by (simp add: content_fits_def)

lemma fits_object:
  "content_fits ps n \<Longrightarrow> ob_len ob \<le> n \<Longrightarrow> count + content_pages ps n \<le> u32_max \<Longrightarrow> object_fits ps count ob n"
  by (simp add: content_fits_def object_fits_def content_pages_def)

lemma whole_pages: "0 < ps \<Longrightarrow> div_ceil (k * ps) ps = k"
  unfolding div_ceil_def by (rule div_nat_eqI) (simp_all add: mult.commute)

lemma dvd_le_mult: "d dvd (n :: nat) \<Longrightarrow> n div d \<le> m \<Longrightarrow> n \<le> m * d"
  using mult_le_mono1 [of "n div d" m d] by simp

lemma room_index:
  assumes "table_room ps count obs i0 rows" and "0 < ps"
  shows "count + 2 * length rows + 2 \<le> u32_max"
proof -
  obtain ro bo io where obs: "obs = (ro, bo, io)" by (cases obs)
  let ?k = "length i0 div ps + 2 * length rows + 2"
  have "count + content_pages ps (?k * ps) \<le> u32_max" using assms(1) by (auto simp: table_room_def obs Let_def)
  moreover have "?k \<le> content_pages ps (?k * ps)" unfolding content_pages_def whole_pages [OF assms(2)] by simp
  ultimately show ?thesis by linarith
qed

context sound_file
begin

lemma works_flush:
  assumes ok: "pager_ok disk contents p" and nb: "pg_budget p = None"
  shows "works flush_header p"
proof -
  have "works (and_then (write_page 0 h) (\<lambda>_ p'. (Ok (), p'\<lparr>pg_header := h\<rparr>))) p" for h
    using ok nb by (intro works_and_then works_write_page) (simp_all add: pager_ok_def works_def)
  then show ?thesis by (simp add: flush_header_def works_def Let_def)
qed

lemma rewrite_next:
  assumes ok: "pager_ok disk contents p" and nb: "pg_budget p = None" and st: "stored contents p ob old"
    and fits: "content_fits (pg_page_size p) (length content)" and less: "ob_len ob \<le> length content"
    and room: "pg_page_count p + content_pages (pg_page_size p) (length content) \<le> u32_max"
  obtains ob' p' where "object_rewrite ob content p = (Ok ob', p')"
    "pg_page_count p' \<le> pg_page_count p + content_pages (pg_page_size p) (length content)"
    "pg_page_size p' = pg_page_size p" "pager_ok disk contents p'" "pg_budget p' = None"
proof -
  have ob: "object_ok (pg_page_size p) (pg_page_count p) ob" using st by (simp add: stored_def)
  obtain ob' p' where w: "object_rewrite ob content p = (Ok ob', p')"
    using works_rewrite [OF ok nb ob fits_object [OF fits less room]] by (auto simp: works_def)
  have "length content \<le> u64_max" using fits by (simp add: content_fits_def)
  note r = rewrite_Ok [OF w ok ob this]
  have "pg_budget p' = None" using r(3) nb by (simp add: changed_def)
  then show thesis using that [OF w object_rewrite_count(1) [OF w] object_rewrite_count(2) [OF w] r(2)] by blast
qed

text \<open>The four writes.\<close>

lemma works_commit:
  assumes ok: "pager_ok disk contents p" and nb: "pg_budget p = None"
    and held: "table_holds contents p t (ro, bo, io) r0 b0 i0"
    and fits: "content_fits (pg_page_size p) (length r)" "content_fits (pg_page_size p) (length b)" "content_fits (pg_page_size p) (length i)"
    and less: "ob_len ro \<le> length r" "ob_len bo \<le> length b" "ob_len io \<le> length i"
    and room: "pg_page_count p + content_pages (pg_page_size p) (length r) + content_pages (pg_page_size p) (length b)
      + content_pages (pg_page_size p) (length i) \<le> u32_max"
  shows "works (and_then (object_rewrite ro r) (\<lambda>ro'. and_then (object_rewrite bo b) (\<lambda>bo'.
     and_then (object_rewrite io i) (\<lambda>io'. and_then flush_header (\<lambda>_. ret (k ro' bo' io')))))) p"
proof -
  note h = held [unfolded table_holds_def prod.case]
  have st: "stored contents p ro r0" "stored contents p bo b0" "stored contents p io i0"
    and ap: "apart ro bo" "apart ro io" "apart bo io" using h by blast+
  have lens: "length r \<le> u64_max" "length b \<le> u64_max" "length i \<le> u64_max" using fits by (simp_all add: content_fits_def)
  have room1: "pg_page_count p + content_pages (pg_page_size p) (length r) \<le> u32_max" using room by linarith
  obtain ro' p1 where w1: "object_rewrite ro r p = (Ok ro', p1)"
    "pg_page_count p1 \<le> pg_page_count p + content_pages (pg_page_size p) (length r)"
    "pg_page_size p1 = pg_page_size p" "pager_ok disk contents p1" "pg_budget p1 = None"
    by (rule rewrite_next [OF ok nb st(1) fits(1) less(1) room1])
  have bo1: "stored contents p1 bo b0" by (rule rewrite_apart(1) [OF w1(1) ok st(1) lens(1) st(2) ap(1)])
  have io1: "stored contents p1 io i0" by (rule rewrite_apart(1) [OF w1(1) ok st(1) lens(1) st(3) ap(2)])
  have room2: "pg_page_count p1 + content_pages (pg_page_size p1) (length b) \<le> u32_max" using room w1(2) unfolding w1(3) by linarith
  obtain bo' p2 where w2: "object_rewrite bo b p1 = (Ok bo', p2)"
    "pg_page_count p2 \<le> pg_page_count p1 + content_pages (pg_page_size p1) (length b)"
    "pg_page_size p2 = pg_page_size p1" "pager_ok disk contents p2" "pg_budget p2 = None"
    by (rule rewrite_next [OF w1(4,5) bo1 fits(2) [folded w1(3)] less(2) room2])
  have io2: "stored contents p2 io i0" by (rule rewrite_apart(1) [OF w2(1) w1(4) bo1 lens(2) io1 ap(3)])
  have ps2: "pg_page_size p2 = pg_page_size p" using w1(3) w2(3) by simp
  have room3: "pg_page_count p2 + content_pages (pg_page_size p2) (length i) \<le> u32_max"
    using room w1(2) w2(2) unfolding w1(3) ps2 by linarith
  obtain io' p3 where w3: "object_rewrite io i p2 = (Ok io', p3)"
    "pg_page_count p3 \<le> pg_page_count p2 + content_pages (pg_page_size p2) (length i)"
    "pg_page_size p3 = pg_page_size p2" "pager_ok disk contents p3" "pg_budget p3 = None"
    by (rule rewrite_next [OF w2(4,5) io2 fits(3) [folded ps2] less(3) room3])
  obtain u q where "flush_header p3 = (Ok u, q)" using works_flush [OF w3(4,5)] by (auto simp: works_def)
  then show ?thesis using w1(1) w2(1) w3(1) by (simp add: works_def and_then_def ret_def)
qed

lemma replace_works:
  assumes ok: "pager_ok disk contents p" and nb: "pg_budget p = None" and lay: "check_layout t = Ok ()"
    and held: "table_holds contents p t (ro, bo, io) r0 b0 i0"
    and rows: "\<forall>row \<in> set rows. row_ok row \<and> length (cr_binary row) \<le> u32_max"
    and keys: "row_keys coll rows [] [] = Ok keys"
    and desc: "index_descriptor i0 (pg_page_size p) = Ok (root, 392)" "u32_at i0 8 = 0"
    and room: "table_room (pg_page_size p) (pg_page_count p) (ro, bo, io) i0 rows"
  shows "works (config_replace t rows coll) p"
proof -
  let ?ps = "pg_page_size p"
  note h = held [unfolded table_holds_def prod.case]
  have st: "stored contents p ro r0" "stored contents p bo b0" "stored contents p io i0"
    and hp: "ob_header_page ro = tb_records_page t" "ob_header_page bo = tb_blob_page t" "ob_header_page io = tb_index_page t"
    using h by blast+
  have rok: "\<forall>row \<in> set rows. row_ok row" using rows by blast
  have pos: "0 < ?ps" using ok by (simp add: pager_ok_def)
  have few: "sum_list (map (\<lambda>row. blocks_of (cr_binary row)) rows) < u32_max" and old: "ob_len bo div BLOCK \<le> u32_max"
    using room by (auto simp: table_room_def Let_def)
  obtain refs records blob index where new: "replacement rows coll ?ps (ro, bo, io) i0 (keys, refs, records, blob, index)"
    using replacement_total [OF keys rok desc _ few old, of ro io] rows by blast
  note sizes = replacement_sizes [OF new ok held rok room_index [OF room pos]]
  note n = new [unfolded replacement_def prod.case]
  have blob: "build (map cr_binary rows) (ob_len bo div BLOCK) = Ok (blob, refs)"
    and records: "replaced_records rows refs (ob_len ro div RECORD) = Ok records"
    and index: "index_rebuild i0 ?ps (numbered_keys keys) = Ok index" using n by blast+
  have lk: "length (numbered_keys keys) = length rows" by (simp add: numbered_keys_def length_keys [OF keys])
  have lr: "length records = max (length rows + 1) (ob_len ro div 301) * 301"
    using replaced_records_Ok(1) [OF records build_refs [OF blob, simplified] names_scalar [OF keys rok]] by (simp add: record_places)
  have lb: "length blob = max (max (sum_list (map (\<lambda>row. blocks_of (cr_binary row)) rows) + 1) (ob_len bo div 256)) 1 * 256"
    using build_stores(2) [OF blob] by (simp add: comp_def)
  have li: "length index \<le> (length i0 div ?ps + 2 * length rows + 2) * ?ps"
    using rebuilt_tree(4) [OF index sizes(6,7,4,5)] by (simp add: lk)
  obtain p1 where o1: "object_open (tb_records_page t) p = (Ok ro, p1)" "reads_only disk contents p p1" "pg_budget p1 = None"
    using open_stored [OF st(1) ok nb] hp by auto
  have ok1: "pager_ok disk contents p1" using o1(2) by (simp add: reads_only_def)
  obtain p2 where o2: "object_open (tb_blob_page t) p1 = (Ok bo, p2)" "reads_only disk contents p1 p2" "pg_budget p2 = None"
    using open_stored [OF reads_only_stored [OF o1(2) st(2)] ok1 o1(3)] hp by auto
  have r2: "reads_only disk contents p p2" by (rule reads_only_trans [OF o1(2) o2(2)])
  then have ok2: "pager_ok disk contents p2" by (simp add: reads_only_def)
  obtain p3 where o3: "object_open (tb_index_page t) p2 = (Ok io, p3)" "reads_only disk contents p2 p3" "pg_budget p3 = None"
    using open_stored [OF reads_only_stored [OF r2 st(3)] ok2 o2(3)] hp by auto
  have r3: "reads_only disk contents p p3" by (rule reads_only_trans [OF r2 o3(2)])
  then have ok3: "pager_ok disk contents p3" by (simp add: reads_only_def)
  obtain p4 where o4: "object_read_all io p3 = (Ok i0, p4)" "reads_only disk contents p3 p4" "pg_budget p4 = None"
    using read_stored_all [OF reads_only_stored [OF r3 st(3)] ok3 o3(3)] by blast
  have r4: "reads_only disk contents p p4" by (rule reads_only_trans [OF r3 o4(2)])
  then have ok4: "pager_ok disk contents p4" and ps4: "pg_page_size p4 = ?ps" and pc4: "pg_page_count p4 = pg_page_count p"
    by (simp_all add: reads_only_def changed_def)
  have "length keys \<le> u32_max" using length_keys [OF keys] room_index [OF room pos] by simp
  note nk = numbered_keys_eq [OF this]
  define end_of where "end_of = (\<lambda>a b c. set (owned_pages a) \<union> set (owned_pages b) \<union> set (owned_pages c))"
  have "config_replace t rows coll p = and_then (object_rewrite ro records) (\<lambda>ro'. and_then (object_rewrite bo blob) (\<lambda>bo'.
     and_then (object_rewrite io index) (\<lambda>io'. and_then flush_header (\<lambda>_. ret (end_of ro' bo' io'))))) p4"
    unfolding config_replace_def lay and_then_of_result and_then_step [where m = "object_open (tb_records_page t)", OF o1(1)] and_then_step [where m = "object_open (tb_blob_page t)", OF o2(1)] and_then_step [where m = "object_open (tb_index_page t)", OF o3(1)]
      and_then_step [where m = "object_read_all io", OF o4(1)] keys blob prod.case records and_then_rebuild ps4 nk index end_of_def ..
  moreover have "works (and_then (object_rewrite ro records) (\<lambda>ro'. and_then (object_rewrite bo blob) (\<lambda>bo'.
     and_then (object_rewrite io index) (\<lambda>io'. and_then flush_header (\<lambda>_. ret (end_of ro' bo' io')))))) p4"
  proof (rule works_commit [OF ok4 o4(3) table_holds_reads [OF held r4], unfolded ps4 pc4])
    show "content_fits ?ps (length records)" "content_fits ?ps (length blob)"
      using room unfolding lr lb by (auto simp: table_room_def Let_def)
    have ni: "content_fits ?ps ((length i0 div ?ps + 2 * length rows + 2) * ?ps)" using room by (auto simp: table_room_def Let_def)
    show "content_fits ?ps (length index)" by (rule content_fits_less [OF ni li])
    have "301 dvd ob_len ro" "256 dvd ob_len bo" using room by (auto simp: table_room_def Let_def)
    then show "ob_len ro \<le> length records" "ob_len bo \<le> length blob" unfolding lr lb
      by (auto intro!: dvd_le_mult)
    have "ob_len io = length i0" using st(3) by (simp add: stored_def)
    then show "ob_len io \<le> length index" using rebuilt_tree(3) [OF index sizes(6,7,4,5)] by simp
    have "pg_page_count p + content_pages ?ps (length records) + content_pages ?ps (length blob)
      + content_pages ?ps ((length i0 div ?ps + 2 * length rows + 2) * ?ps) \<le> u32_max"
      using room unfolding lr lb by (auto simp: table_room_def Let_def)
    then show "pg_page_count p + content_pages ?ps (length records) + content_pages ?ps (length blob)
      + content_pages ?ps (length index) \<le> u32_max"
      using content_pages_mono [OF li, of ?ps] by linarith
  qed
  ultimately show ?thesis by (simp only: works_def)
qed

end

section \<open>Reindexing\<close>

lemma record_entries_Ok:
  "record_entries coll rs = Ok es \<longleftrightarrow> list_all2 (\<lambda>r e. fst e = rr_number r
     \<and> config_key coll (cr_file_name (rr_row r)) (cr_part_no (rr_row r)) = Ok (snd e)) rs es"
proof (induction rs arbitrary: es)
  case (Cons r rs)
  show ?case
    by (cases es) (auto simp: result_simps Cons.IH)
qed auto

lemma entries_of_rows:
  "record_entries coll (numbered_rows (map (seen_row w) rows)) = Ok es \<longleftrightarrow>
     (\<exists>keys. es = numbered_keys keys
        \<and> list_all2 (\<lambda>row key. config_key coll (cr_file_name row) (cr_part_no row) = Ok key) rows keys)"
proof
  assume "record_entries coll (numbered_rows (map (seen_row w) rows)) = Ok es"
  then have e: "length es = length rows" "\<forall>i < length rows. fst (es ! i) = i + 1
      \<and> config_key coll (cr_file_name (rows ! i)) (cr_part_no (rows ! i)) = Ok (snd (es ! i))"
    unfolding record_entries_Ok by (auto simp: list_all2_conv_all_nth numbered_rows_def nth_enumerate_eq)
  have "es = numbered_keys (map snd es)"
    by (rule nth_equalityI) (use e in \<open>simp_all add: numbered_keys_def nth_enumerate_eq prod_eq_iff\<close>)
  moreover have "list_all2 (\<lambda>row key. config_key coll (cr_file_name row) (cr_part_no row) = Ok key) rows (map snd es)"
    using e by (simp add: list_all2_conv_all_nth)
  ultimately show "\<exists>keys. es = numbered_keys keys
        \<and> list_all2 (\<lambda>row key. config_key coll (cr_file_name row) (cr_part_no row) = Ok key) rows keys" by blast
next
  assume "\<exists>keys. es = numbered_keys keys
        \<and> list_all2 (\<lambda>row key. config_key coll (cr_file_name row) (cr_part_no row) = Ok key) rows keys"
  then show "record_entries coll (numbered_rows (map (seen_row w) rows)) = Ok es"
    unfolding record_entries_Ok
    by (auto simp: list_all2_conv_all_nth numbered_rows_def numbered_keys_def nth_enumerate_eq)
qed

text \<open>The rows of a stored table are indexed under their own keys.\<close>

lemma row_keys_entries: "row_keys coll rows [] [] = Ok keys \<Longrightarrow> record_entries coll (numbered_rows (map (seen_row w) rows)) = Ok (numbered_keys keys)"
  using row_keys_Ok [of coll rows "[]" "[]" keys] by (auto simp: entries_of_rows)

end
