(* ===== verification/Filedb_Any_Index.thy ===== *)
theory Filedb_Any_Index
  imports Filedb_Index_Tree
begin

text \<open>
  What an index object says, whoever wrote it: \<open>leaf_says\<close> and \<open>tree_at\<close> are the format of the pages -
  entry words of any widths, key bytes packed from the end of the page, branches with any keys and any bytes
  in the gaps.  The reader gives the entries of such a tree, and whatever it reads is such a tree.
\<close>

section \<open>Leaves\<close>

text \<open>Entry \<open>k\<close> of a leaf as the layout of the page splits its word.\<close>

definition leaf_word :: "bytes \<Rightarrow> leaf_layout \<Rightarrow> nat \<Rightarrow> u64" where
  "leaf_word p l k = from_le_bytes (slice (30 + k * entry_bytes l) (30 + (k + 1) * entry_bytes l) p @ replicate (8 - entry_bytes l) 0)"

definition word_number :: "leaf_layout \<Rightarrow> u64 \<Rightarrow> nat" where
  "word_number l v = unat (v AND rec_mask l) mod 2 ^ 32"

definition word_left :: "leaf_layout \<Rightarrow> u64 \<Rightarrow> nat" where
  "word_left l v = unat (drop_bit (rec_bits l) v AND left_mask l)"

definition word_right :: "leaf_layout \<Rightarrow> u64 \<Rightarrow> nat" where
  "word_right l v = unat (drop_bit (rec_bits l + left_bits l) v AND right_mask l)"

text \<open>From entry \<open>k\<close> on: a key is what it shares with the key before, its stored bytes and its zeros; the
  bytes of entry \<open>k\<close> end at \<open>stop\<close>, and none of them lies below \<open>base\<close>.\<close>

fun entries_say :: "bytes \<Rightarrow> nat \<Rightarrow> leaf_layout \<Rightarrow> nat \<Rightarrow> nat \<Rightarrow> nat \<Rightarrow> bytes \<Rightarrow> index_entry list \<Rightarrow> bool" where
  "entries_say p kl l base k stop prev [] = True"
| "entries_say p kl l base k stop prev ((rec, key) # es) \<longleftrightarrow>
     (let v = leaf_word p l k; left = word_left l v; right = word_right l v; n = kl - left - right in
      rec = word_number l v \<and> left + right \<le> kl \<and> base + n \<le> stop
      \<and> key = take left prev @ slice (stop - n) stop p @ replicate right 0
      \<and> entries_say p kl l base (k + 1) (stop - n) key es)"

definition page_layout :: "bytes \<Rightarrow> leaf_layout" where
  "page_layout p = \<lparr>rec_mask = from_le_bytes (slice 14 18 p), left_mask = of_nat (u16_at p 18),
     right_mask = of_nat (u16_at p 20), rec_bits = u16_at p 22, left_bits = u16_at p 24, entry_bytes = u16_at p 28\<rparr>"

definition leaf_says :: "bytes \<Rightarrow> nat \<Rightarrow> index_entry list \<Rightarrow> bool" where
  "leaf_says p kl es \<longleftrightarrow> (let l = page_layout p in
     length es = u16_at p 2 \<and> 0 < entry_bytes l \<and> entry_bytes l \<le> 8 \<and> rec_bits l \<le> 32 \<and> left_bits l \<le> 16
     \<and> u16_at p 26 \<le> 16 \<and> rec_bits l + left_bits l + u16_at p 26 \<le> entry_bytes l * 8
     \<and> 30 + length es * entry_bytes l \<le> length p
     \<and> entries_say p kl l (30 + length es * entry_bytes l) 0 (length p) (replicate kl 0) es)"

lemma leaf_step_shape:
  "(if left + right > kl then x
    else if stop < base + (kl - left - right) then y
    else f (stop - (kl - left - right)) (take left prev @ slice (stop - (kl - left - right)) (stop - (kl - left - right) + (kl - left - right)) p
           @ replicate (kl - (left + (kl - left - right))) (0 :: u8)))
   = (if left + right > kl then x
      else if stop < base + (kl - left - right) then y
      else f (stop - (kl - left - right)) (take left prev @ slice (stop - (kl - left - right)) stop p @ replicate right 0))"
  by auto

lemma leaf_loop_step:
  "leaf_loop p kl count l check (k # ks) stop prev out =
     and_then (check kl) (\<lambda>_.
       let v = leaf_word p l k; left = word_left l v; right = word_right l v; n = kl - left - right in
       if left + right > kl then fail (corrupt (In_Index Index_Compression))
       else if stop < 30 + count * entry_bytes l + n then fail (corrupt (In_Index Index_Keys_Overlap))
       else
         leaf_loop p kl count l check ks (stop - n)
           (take left prev @ slice (stop - n) stop p @ replicate right 0)
           (out @ [(word_number l v, take left prev @ slice (stop - n) stop p @ replicate right 0)]))"
  unfolding leaf_loop.simps Let_def LEAF_HEADER_def leaf_word_def [symmetric] word_number_def [symmetric] word_left_def [symmetric]
    word_right_def [symmetric]
  by (subst leaf_step_shape [where f = "\<lambda>at key. leaf_loop p kl count l check ks at key (out @ [(word_number l (leaf_word p l k), key)])"])
    (rule refl)

lemma leaf_loop_says:
  "entries_say p kl l (30 + count * entry_bytes l) k stop prev es \<Longrightarrow>
     yields check (leaf_loop p kl count l check [k..<k + length es] stop prev out) (out @ es)"
proof (induction es arbitrary: k stop prev out)
  case (Cons e es)
  obtain rec key where e: "e = (rec, key)" by (cases e)
  let ?v = "leaf_word p l k"
  let ?n = "kl - word_left l ?v - word_right l ?v"
  have s: "rec = word_number l ?v" "word_left l ?v + word_right l ?v \<le> kl" "30 + count * entry_bytes l + ?n \<le> stop"
      "key = take (word_left l ?v) prev @ slice (stop - ?n) stop p @ replicate (word_right l ?v) 0"
      "entries_say p kl l (30 + count * entry_bytes l) (k + 1) (stop - ?n) key es"
    using Cons.prems unfolding e entries_say.simps Let_def by blast+
  have no: "\<not> word_left l ?v + word_right l ?v > kl" "\<not> stop < 30 + count * entry_bytes l + ?n" using s(2,3) by simp_all
  have ups: "[k..<k + length (e # es)] = k # [k + 1..<k + 1 + length es]" by (simp add: upt_conv_Cons del: upt_Suc)
  have rest: "yields check (leaf_loop p kl count l check [k + 1..<k + 1 + length es] (stop - ?n) key (out @ [(rec, key)]))
      ((out @ [(rec, key)]) @ es)" by (rule Cons.IH [OF s(5)])
  show ?case
    unfolding ups leaf_loop_step
    by (rule yields_check) (unfold Let_def if_not_P [OF no(1)] if_not_P [OF no(2)] s(1,4) [symmetric], use rest e in simp)
qed simp

lemma leaf_loop_returns:
  "leaf_loop p kl count l check [k..<k + n] stop prev out s = (Ok res, s') \<Longrightarrow>
     \<exists>es. length es = n \<and> res = out @ es \<and> entries_say p kl l (30 + count * entry_bytes l) k stop prev es"
proof (induction n arbitrary: k stop prev out s)
  case 0
  then show ?case by (simp add: ret_def)
next
  case (Suc n)
  let ?v = "leaf_word p l k"
  let ?n = "kl - word_left l ?v - word_right l ?v"
  let ?key = "take (word_left l ?v) prev @ slice (stop - ?n) stop p @ replicate (word_right l ?v) 0"
  have ups: "[k..<k + Suc n] = k # [k + 1..<k + 1 + n]" by (simp add: upt_conv_Cons del: upt_Suc)
  obtain s1 where go: "leaf_loop p kl count l check [k + 1..<k + 1 + n] (stop - ?n) ?key (out @ [(word_number l ?v, ?key)]) s1 = (Ok res, s')"
    and no: "\<not> word_left l ?v + word_right l ?v > kl" "\<not> stop < 30 + count * entry_bytes l + ?n"
    using Suc.prems unfolding ups leaf_loop_step Let_def
    by (auto simp: and_then_def fail_def split: prod.splits sum.splits if_splits)
  obtain es where es: "length es = n" "res = (out @ [(word_number l ?v, ?key)]) @ es"
      "entries_say p kl l (30 + count * entry_bytes l) (k + 1) (stop - ?n) ?key es"
    using Suc.IH [OF go] by blast
  have "entries_say p kl l (30 + count * entry_bytes l) k stop prev ((word_number l ?v, ?key) # es)"
    unfolding entries_say.simps Let_def using no es(3) by (intro conjI) simp_all
  then show ?case using es(1,2) by (intro exI [of _ "(word_number l ?v, ?key) # es"]) simp
qed

lemma read_leaf_layout:
  "read_leaf p kl count out check =
     (let l = page_layout p in
      if entry_bytes l = 0 \<or> entry_bytes l > 8 \<or> rec_bits l > 32 \<or> left_bits l > 16 \<or> u16_at p 26 > 16
         \<or> rec_bits l + left_bits l + u16_at p 26 > entry_bytes l * 8
      then fail (corrupt (In_Index Index_Leaf_Header))
      else if 30 + count * entry_bytes l > length p then fail (corrupt (In_Index Index_Leaf_Full))
      else leaf_loop p kl count l check [0..<count] (length p) (replicate kl 0) out)"
  by (simp add: read_leaf_def page_layout_def LEAF_HEADER_def Let_def)

lemma read_leaf_says:
  assumes "leaf_says p kl es"
  shows "yields check (read_leaf p kl (u16_at p 2) out check) (out @ es)"
proof -
  let ?l = "page_layout p"
  have h: "length es = u16_at p 2" "0 < entry_bytes ?l" "entry_bytes ?l \<le> 8" "rec_bits ?l \<le> 32" "left_bits ?l \<le> 16"
     "u16_at p 26 \<le> 16" "rec_bits ?l + left_bits ?l + u16_at p 26 \<le> entry_bytes ?l * 8"
     "30 + length es * entry_bytes ?l \<le> length p"
     "entries_say p kl ?l (30 + length es * entry_bytes ?l) 0 (length p) (replicate kl 0) es"
    using assms unfolding leaf_says_def Let_def by blast+
  have "yields check (leaf_loop p kl (length es) ?l check [0..<0 + length es] (length p) (replicate kl 0) out) (out @ es)"
    by (rule leaf_loop_says [OF h(9)])
  then show ?thesis unfolding read_leaf_layout Let_def h(1) [symmetric] using h(2-8) by simp
qed

lemma read_leaf_returns:
  assumes "read_leaf p kl (u16_at p 2) out check s = (Ok res, s')"
  shows "\<exists>es. res = out @ es \<and> leaf_says p kl es"
proof -
  let ?l = "page_layout p"
  have h: "0 < entry_bytes ?l" "entry_bytes ?l \<le> 8" "rec_bits ?l \<le> 32" "left_bits ?l \<le> 16"
     "u16_at p 26 \<le> 16" "rec_bits ?l + left_bits ?l + u16_at p 26 \<le> entry_bytes ?l * 8"
     "30 + u16_at p 2 * entry_bytes ?l \<le> length p"
     "leaf_loop p kl (u16_at p 2) ?l check [0..<0 + u16_at p 2] (length p) (replicate kl 0) out s = (Ok res, s')"
    using assms unfolding read_leaf_layout Let_def by (auto simp: fail_def split: if_splits)
  from leaf_loop_returns [OF h(8)] obtain es where es: "length es = u16_at p 2" "res = out @ es"
    "entries_say p kl ?l (30 + u16_at p 2 * entry_bytes ?l) 0 (length p) (replicate kl 0) es" by blast
  then have "leaf_says p kl es" using h(1-7) by (simp add: leaf_says_def Let_def)
  then show ?thesis using es(2) by blast
qed

section \<open>Trees\<close>

text \<open>A tree of at most so many levels under a page, with the pages it takes and its entries in order.\<close>

inductive tree_at :: "bytes \<Rightarrow> nat \<Rightarrow> nat \<Rightarrow> nat \<Rightarrow> tree_node \<Rightarrow> bool" for obj ps kl where
  leaf: "n < length obj div ps \<Longrightarrow> u16_at (page_of ps obj n) 0 AND FLAG_LEAF \<noteq> 0 \<Longrightarrow>
     leaf_says (page_of ps obj n) kl es \<Longrightarrow> tree_at obj ps kl (Suc h) (n, 1, es)"
| branch: "n < length obj div ps \<Longrightarrow> u16_at (page_of ps obj n) 0 AND FLAG_LEAF = 0 \<Longrightarrow>
     12 + u16_at (page_of ps obj n) 2 * (kl + 8) \<le> ps \<Longrightarrow>
     map node_page ts = map (\<lambda>k. be32_at (page_of ps obj n) (12 + k * (kl + 8) + kl + 4)) [0..<u16_at (page_of ps obj n) 2] \<Longrightarrow>
     \<forall>t \<in> set ts. tree_at obj ps kl h t \<Longrightarrow>
     tree_at obj ps kl (Suc h) (n, Suc (sum_list (map node_pages ts)), concat (map node_entries ts))"

lemma tree_at_cases:
  assumes "tree_at obj ps kl g (n, m, es)"
  obtains (leaf) h where "g = Suc h" "m = 1" "n < length obj div ps" "u16_at (page_of ps obj n) 0 AND FLAG_LEAF \<noteq> 0"
      "leaf_says (page_of ps obj n) kl es"
    | (branch) ts h where "g = Suc h" "m = Suc (sum_list (map node_pages ts))" "es = concat (map node_entries ts)"
      "n < length obj div ps" "u16_at (page_of ps obj n) 0 AND FLAG_LEAF = 0" "12 + u16_at (page_of ps obj n) 2 * (kl + 8) \<le> ps"
      "map node_page ts = map (\<lambda>k. be32_at (page_of ps obj n) (12 + k * (kl + 8) + kl + 4)) [0..<u16_at (page_of ps obj n) 2]"
      "\<forall>t \<in> set ts. tree_at obj ps kl h t"
  using assms
proof (cases rule: tree_at.cases)
  case leaf
  show thesis by (rule that(1)) (use leaf in simp_all)
next
  case (branch ts)
  show thesis by (rule that(2) [of _ ts]) (use branch in simp_all)
qed

text \<open>What an index object says: the tree under its root, of at most 17 levels and no more pages than it has.\<close>

definition index_says :: "nat \<Rightarrow> bytes \<Rightarrow> index_entry list \<Rightarrow> bool" where
  "index_says ps index es \<longleftrightarrow> (\<exists>root kl n. index_descriptor index ps = Ok (root, kl) \<and> tree_at index ps kl 17 (root, n, es)
     \<and> n \<le> length index div ps)"

section \<open>The walk\<close>

text \<open>A stack item: the depth of a page, and the tree under it.\<close>

definition trees_stack :: "(nat \<times> tree_node) list \<Rightarrow> (nat \<times> nat) list" where
  "trees_stack items = map (\<lambda>(d, t). (node_page t, d)) items"

definition trees_pages :: "(nat \<times> tree_node) list \<Rightarrow> nat" where
  "trees_pages items = sum_list (map (\<lambda>(d, t). node_pages t) items)"

definition trees_entries :: "(nat \<times> tree_node) list \<Rightarrow> index_entry list" where
  "trees_entries items = concat (map (\<lambda>(d, t). node_entries t) items)"

definition trees_sound :: "bytes \<Rightarrow> nat \<Rightarrow> nat \<Rightarrow> (nat \<times> tree_node) list \<Rightarrow> bool" where
  "trees_sound obj ps kl items \<longleftrightarrow> (\<forall>(d, t) \<in> set items. tree_at obj ps kl (17 - d) t)"

lemmas trees_defs = trees_stack_def trees_pages_def trees_entries_def trees_sound_def

lemma trees_siblings:
  "trees_stack (map (Pair d) ts) = map (\<lambda>t. (node_page t, d)) ts"
  "trees_pages (map (Pair d) ts) = sum_list (map node_pages ts)"
  "trees_entries (map (Pair d) ts) = concat (map node_entries ts)"
  "trees_sound obj ps kl (map (Pair d) ts) \<longleftrightarrow> (\<forall>t \<in> set ts. tree_at obj ps kl (17 - d) t)"
  by (simp_all add: trees_defs comp_def)

lemma trees_append:
  "trees_stack (xs @ ys) = trees_stack xs @ trees_stack ys" "trees_pages (xs @ ys) = trees_pages xs + trees_pages ys"
  "trees_entries (xs @ ys) = trees_entries xs @ trees_entries ys"
  "trees_sound obj ps kl (xs @ ys) \<longleftrightarrow> trees_sound obj ps kl xs \<and> trees_sound obj ps kl ys"
  by (simp_all add: trees_defs ball_Un)

lemma trees_Cons:
  "trees_stack ((d, t) # items) = (node_page t, d) # trees_stack items"
  "trees_pages ((d, t) # items) = node_pages t + trees_pages items"
  "trees_entries ((d, t) # items) = node_entries t @ trees_entries items"
  "trees_sound obj ps kl ((d, t) # items) \<longleftrightarrow> tree_at obj ps kl (17 - d) t \<and> trees_sound obj ps kl items"
  by (simp_all add: trees_defs)

lemma kids_stack:
  assumes "map node_page ts = map f ks"
  shows "trees_stack (map (Pair d) ts) = map (\<lambda>k. (f k, d)) ks"
proof -
  have "trees_stack (map (Pair d) ts) = map (\<lambda>x. (x, d)) (map node_page ts)" by (simp add: trees_siblings)
  also have "\<dots> = map (\<lambda>k. (f k, d)) ks" unfolding assms by simp
  finally show ?thesis .
qed

lemma index_walk_trees:
  "trees_sound obj ps kl items \<Longrightarrow> visited + trees_pages items \<le> length obj div ps \<Longrightarrow>
     yields check (index_walk obj ps kl check visited (trees_stack items) out) (out @ trees_entries items)"
proof (induction "trees_pages items" arbitrary: items visited out rule: less_induct)
  case less
  show ?case
  proof (cases items)
    case Nil
    then show ?thesis by (simp add: trees_defs)
  next
    case (Cons item rest)
    obtain d t where item: "item = (d, t)" by (cases item)
    obtain n m es where t: "t = (n, m, es)" by (cases t)
    have items: "items = (d, (n, m, es)) # rest" by (simp add: Cons item t)
    have tree: "tree_at obj ps kl (17 - d) (n, m, es)" and rest: "trees_sound obj ps kl rest"
      using less.prems(1) by (simp_all add: items trees_Cons)
    note parts = trees_Cons(1-3) [of d "(n, m, es)" rest, folded items, unfolded node_simps]
    from tree show ?thesis
    proof (cases rule: tree_at_cases)
      case (leaf h)
      have IH: "yields check (index_walk obj ps kl check (visited + 1) (trees_stack rest) (out @ es)) ((out @ es) @ trees_entries rest)"
        by (rule less.hyps) (use leaf(2) rest less.prems(2) parts(2) in simp_all)
      show ?thesis
        unfolding parts(1,3)
      proof (rule walk_leaf_step [OF leaf(3)])
        show "yields check (read_leaf (page_of ps obj n) kl (u16_at (page_of ps obj n) 2) out check) (out @ es)"
          by (rule read_leaf_says [OF leaf(5)])
        show "yields check (index_walk obj ps kl check (visited + 1) (trees_stack rest) (out @ es)) (out @ es @ trees_entries rest)"
          using IH by simp
      qed (use leaf less.prems(2) parts(2) in simp_all)
    next
      case (branch ts h)
      let ?kids = "map (Pair (d + 1)) ts"
      have IH: "yields check (index_walk obj ps kl check (visited + 1) (trees_stack (?kids @ rest)) out) (out @ trees_entries (?kids @ rest))"
      proof (rule less.hyps)
        show "trees_pages (?kids @ rest) < trees_pages items" by (simp add: trees_append trees_siblings parts(2) branch(2))
        have "17 - (d + 1) = h" using branch(1) by simp
        then show "trees_sound obj ps kl (?kids @ rest)" using branch(8) rest by (simp add: trees_append trees_siblings)
        show "visited + 1 + trees_pages (?kids @ rest) \<le> length obj div ps"
          using less.prems(2) by (simp add: trees_append trees_siblings parts(2) branch(2))
      qed
      show ?thesis
        unfolding parts(1,3)
      proof (rule walk_branch_step [OF branch(4)])
        show "yields check (index_walk obj ps kl check (visited + 1)
            (map (\<lambda>k. (be32_at (page_of ps obj n) (12 + k * (kl + 8) + kl + 4), d + 1)) [0..<u16_at (page_of ps obj n) 2]
              @ trees_stack rest) out) (out @ es @ trees_entries rest)"
          using IH unfolding trees_append kids_stack [OF branch(7)] by (simp add: trees_siblings branch(3))
      qed (use branch less.prems(2) parts(2) in simp_all)
    qed
  qed
qed

lemma walk_unfold:
  "index_walk obj ps kl check visited ((page, depth) # stack) out =
     and_then (check 0) (\<lambda>_.
       if page \<ge> length obj div ps \<or> visited + 1 > length obj div ps \<or> depth > 16 then fail (corrupt (In_Index Index_Outside))
       else if u16_at (page_of ps obj page) 0 AND FLAG_LEAF \<noteq> 0
       then and_then (read_leaf (page_of ps obj page) kl (u16_at (page_of ps obj page) 2) out check)
              (index_walk obj ps kl check (visited + 1) stack)
       else if 12 + u16_at (page_of ps obj page) 2 * (kl + 8) > ps then fail (corrupt (In_Index Index_Branch_Full))
       else index_walk obj ps kl check (visited + 1)
              (map (\<lambda>k. (be32_at (page_of ps obj page) (12 + k * (kl + 8) + kl + 4), depth + 1))
                 [0..<u16_at (page_of ps obj page) 2] @ stack) out)"
  unfolding index_walk.simps(2) page_slice Let_def BRANCH_HEADER_def ..

text \<open>A stack from the walk, split at the kids of a branch.\<close>

lemma trees_stack_append:
  assumes "trees_stack items = map (\<lambda>k. (f k, d)) ks @ stack"
  obtains ts rest where "items = map (Pair d) ts @ rest" "map node_page ts = map f ks" "trees_stack rest = stack"
proof -
  let ?n = "length ks"
  define ts where "ts = map snd (take ?n items)"
  have first: "trees_stack (take ?n items) = map (\<lambda>k. (f k, d)) ks" and last: "trees_stack (drop ?n items) = stack"
    using arg_cong [OF assms, of "take ?n"] arg_cong [OF assms, of "drop ?n"]
    by (simp_all add: trees_stack_def take_map drop_map)
  have depths: "\<forall>x \<in> set (take ?n items). fst x = d"
  proof
    fix x assume "x \<in> set (take ?n items)"
    then have "(node_page (snd x), fst x) \<in> set (trees_stack (take ?n items))" by (force simp: trees_stack_def)
    then show "fst x = d" unfolding first by auto
  qed
  have "map (\<lambda>x. (d, snd x)) (take ?n items) = take ?n items" by (rule map_idI) (use depths in \<open>auto simp: prod_eq_iff\<close>)
  then have "take ?n items = map (Pair d) ts" by (simp add: ts_def comp_def)
  then have "items = map (Pair d) ts @ drop ?n items" using append_take_drop_id [of ?n items] by simp
  moreover have "map node_page ts = map f ks"
    using arg_cong [OF first, of "map fst"] by (simp add: trees_stack_def ts_def comp_def case_prod_unfold)
  ultimately show thesis using that last by blast
qed

lemma index_walk_returns:
  "index_walk obj ps kl check visited stack out s = (Ok res, s') \<Longrightarrow> visited \<le> length obj div ps \<Longrightarrow>
     \<exists>items. trees_stack items = stack \<and> trees_sound obj ps kl items \<and> visited + trees_pages items \<le> length obj div ps
       \<and> res = out @ trees_entries items"
proof (induction "length obj div ps - visited" arbitrary: visited stack out s rule: less_induct)
  case less
  show ?case
  proof (cases stack)
    case Nil
    then show ?thesis using less.prems by (intro exI [of _ "[]"]) (simp add: trees_defs ret_def)
  next
    case (Cons pd rest)
    obtain n d where pd: "pd = (n, d)" by (cases pd)
    obtain s1 where run: "(if n \<ge> length obj div ps \<or> visited + 1 > length obj div ps \<or> d > 16 then fail (corrupt (In_Index Index_Outside))
       else if u16_at (page_of ps obj n) 0 AND FLAG_LEAF \<noteq> 0
       then and_then (read_leaf (page_of ps obj n) kl (u16_at (page_of ps obj n) 2) out check)
              (index_walk obj ps kl check (visited + 1) rest)
       else if 12 + u16_at (page_of ps obj n) 2 * (kl + 8) > ps then fail (corrupt (In_Index Index_Branch_Full))
       else index_walk obj ps kl check (visited + 1)
              (map (\<lambda>k. (be32_at (page_of ps obj n) (12 + k * (kl + 8) + kl + 4), d + 1))
                 [0..<u16_at (page_of ps obj n) 2] @ rest) out) s1 = (Ok res, s')"
      using less.prems(1) unfolding Cons pd walk_unfold by (auto simp: and_then_def split: prod.splits sum.splits)
    have at: "n < length obj div ps" "visited + 1 \<le> length obj div ps" "d \<le> 16"
      using run by (auto simp: fail_def split: if_splits)
    have smaller: "length obj div ps - (visited + 1) < length obj div ps - visited" using at(2) by simp
    have "17 - d = Suc (16 - d)" "17 - (d + 1) = 16 - d" using at(3) by simp_all
    note level = this
    have no: "\<not> (n \<ge> length obj div ps \<or> visited + 1 > length obj div ps \<or> d > 16)" using at by simp
    show ?thesis
    proof (cases "u16_at (page_of ps obj n) 0 AND FLAG_LEAF = 0")
      case False
      then obtain out1 s2 where leaf: "read_leaf (page_of ps obj n) kl (u16_at (page_of ps obj n) 2) out check s1 = (Ok out1, s2)"
        and go: "index_walk obj ps kl check (visited + 1) rest out1 s2 = (Ok res, s')"
        using run no by (auto simp: and_then_def split: prod.splits sum.splits)
      obtain es where es: "out1 = out @ es" "leaf_says (page_of ps obj n) kl es" using read_leaf_returns [OF leaf] by blast
      obtain items where items: "trees_stack items = rest" "trees_sound obj ps kl items"
        "visited + 1 + trees_pages items \<le> length obj div ps" "res = out1 @ trees_entries items"
        using less.hyps [OF smaller go at(2)] by blast
      have "tree_at obj ps kl (17 - d) (n, 1, es)" unfolding level(1) by (rule tree_at.leaf [OF at(1) False es(2)])
      then show ?thesis using items es(1)
        by (intro exI [of _ "(d, (n, 1, es)) # items"]) (simp add: Cons pd trees_Cons)
    next
      case True
      then have fits: "12 + u16_at (page_of ps obj n) 2 * (kl + 8) \<le> ps"
        and go: "index_walk obj ps kl check (visited + 1)
              (map (\<lambda>k. (be32_at (page_of ps obj n) (12 + k * (kl + 8) + kl + 4), d + 1))
                 [0..<u16_at (page_of ps obj n) 2] @ rest) out s1 = (Ok res, s')"
        using run no by (auto simp: fail_def split: if_splits)
      obtain items where items: "trees_stack items = map (\<lambda>k. (be32_at (page_of ps obj n) (12 + k * (kl + 8) + kl + 4), d + 1))
                 [0..<u16_at (page_of ps obj n) 2] @ rest" "trees_sound obj ps kl items"
        "visited + 1 + trees_pages items \<le> length obj div ps" "res = out @ trees_entries items"
        using less.hyps [OF smaller go at(2)] by blast
      obtain ts items' where split: "items = map (Pair (d + 1)) ts @ items'"
        "map node_page ts = map (\<lambda>k. be32_at (page_of ps obj n) (12 + k * (kl + 8) + kl + 4)) [0..<u16_at (page_of ps obj n) 2]"
        "trees_stack items' = rest" by (rule trees_stack_append [OF items(1)])
      have kids: "\<forall>t \<in> set ts. tree_at obj ps kl (16 - d) t" "trees_sound obj ps kl items'"
        using items(2) [unfolded split(1) trees_append trees_siblings level(2)] by blast+
      have "tree_at obj ps kl (17 - d) (n, Suc (sum_list (map node_pages ts)), concat (map node_entries ts))"
        unfolding level(1) by (rule tree_at.branch [OF at(1) True fits split(2) kids(1)])
      then show ?thesis using items(3,4) kids(2) split(3)
        by (intro exI [of _ "(d, (n, Suc (sum_list (map node_pages ts)), concat (map node_entries ts))) # items'"])
          (simp add: Cons pd trees_Cons split(1) trees_append trees_siblings)
    qed
  qed
qed

section \<open>The reader and the format\<close>

text \<open>The reader gives the entries that an index object says, unless its check stops it.\<close>

lemma index_says_reads:
  assumes "index_says ps index es"
  shows "yields check (read_entries_checked index ps check) es"
proof -
  obtain root kl n where t: "index_descriptor index ps = Ok (root, kl)" "tree_at index ps kl 17 (root, n, es)"
      "n \<le> length index div ps" using assms unfolding index_says_def by blast
  have "yields check (index_walk index ps kl check 0 (trees_stack [(0, (root, n, es))]) []) ([] @ trees_entries [(0, (root, n, es))])"
    by (rule index_walk_trees) (use t in \<open>simp_all add: trees_defs\<close>)
  then have walk: "yields check (index_walk index ps kl check 0 [(root, 0)] []) es" by (simp add: trees_defs)
  have "read_entries_checked index ps check = index_walk index ps kl check 0 [(root, 0)] []"
    using t(1) by (simp add: read_entries_checked_def fun_eq_iff)
  then show ?thesis using walk by (simp only:)
qed

text \<open>Whatever it gives, the object says.\<close>

lemma reads_index_says:
  assumes "read_entries_checked index ps check s = (Ok es, s')"
  shows "index_says ps index es"
proof -
  obtain root kl where d: "index_descriptor index ps = Ok (root, kl)"
    and walk: "index_walk index ps kl check 0 [(root, 0)] [] s = (Ok es, s')"
    using assms by (auto simp: read_entries_checked_def split: sum.splits prod.splits)
  obtain items where items: "trees_stack items = [(root, 0)]" "trees_sound index ps kl items"
      "trees_pages items \<le> length index div ps" "es = trees_entries items"
    using index_walk_returns [OF walk] by auto
  obtain t where t: "items = [(0, t)]" "node_page t = root" using items(1) by (auto simp: trees_stack_def)
  obtain n m es' where "t = (n, m, es')" by (cases t)
  then show ?thesis using items t d by (auto simp: trees_defs index_says_def)
qed

lemma index_says_unique: "index_says ps index es \<Longrightarrow> index_says ps index es' \<Longrightarrow> es = es'"
  using yields_any [OF index_says_reads, of ps index es "\<lambda>_. ret ()" "()"]
    yields_any [OF index_says_reads, of ps index es' "\<lambda>_. ret ()" "()"]
  by (auto simp: ret_def split: prod.splits sum.splits)

text \<open>The trees that \<open>rebuild\<close> writes say their entries.\<close>

lemma index_holds_says:
  assumes "index_holds ps index es" and "4096 \<le> ps" and "ps \<le> 65536"
  shows "index_says ps index es"
proof -
  have "case read_entries_checked index ps (\<lambda>_. ret ()) () of (Inr y, _) \<Rightarrow> y = es | (Inl e, _) \<Rightarrow> \<exists>n a b. ret () a = (Err e :: db_error + unit, b)"
    using yields_any [OF index_holds_reads [OF assms], of "\<lambda>_. ret ()" "()"] by (simp add: ret_def split: prod.splits sum.splits)
  then show ?thesis using reads_index_says [of index ps "\<lambda>_. ret ()" "()"] by (auto simp: ret_def split: prod.splits sum.splits)
qed

end
