(* ===== verification/Filedb_Any_Table.thy ===== *)
theory Filedb_Any_Table
  imports Filedb_Table_Works Filedb_Any_Index
begin

text \<open>
  Tables in any layout the format allows, not only those this program writes: a value in blocks of any
  numbers, each filled as it likes, and live records anywhere between free ones.  The readers return the
  live records with their own numbers, and reindexing gives the index their entries.
\<close>

section \<open>A value in linked blocks\<close>

text \<open>The blocks of a chain with their chunks: each names the block after it, the last one names none.\<close>

fun first_block :: "(nat \<times> bytes) list \<Rightarrow> nat" where
  "first_block [] = 0"
| "first_block ((b, c) # rest) = b"

fun links :: "bytes \<Rightarrow> (nat \<times> bytes) list \<Rightarrow> bool" where
  "links obj [] = True"
| "links obj ((b, c) # rest) \<longleftrightarrow> 0 < b \<and> block_holds obj b (first_block rest) c \<and> links obj rest"

definition chain_holds :: "bytes \<Rightarrow> nat \<Rightarrow> bytes \<Rightarrow> bool" where
  "chain_holds obj b v \<longleftrightarrow> (\<exists>ch. links obj ch \<and> first_block ch = b \<and> concat (map snd ch) = v)"

definition value_at :: "bytes \<Rightarrow> bytes \<Rightarrow> u32 \<times> u32 \<Rightarrow> bool" where
  "value_at obj v ref \<longleftrightarrow> chain_holds obj (unat (fst ref)) v \<and> unat (snd ref) = length v"

text \<open>The chain of a block is one, so it comes to no block twice and has at most the blocks of the object.\<close>

lemma block_holds_unique:
  assumes "block_holds obj b m c" and "block_holds obj b n d"
  shows "m = n \<and> c = d"
  using block_read [OF assms(1)] block_read [OF assms(2)] by simp

lemma first_block_links: "links obj ch \<Longrightarrow> ch \<noteq> [] \<Longrightarrow> 0 < first_block ch"
  by (cases ch) auto

lemma links_unique: "links obj ch \<Longrightarrow> links obj ch' \<Longrightarrow> first_block ch = first_block ch' \<Longrightarrow> ch = ch'"
proof (induction ch arbitrary: ch')
  case Nil
  then show ?case using first_block_links [of obj ch'] by (cases "ch' = []") auto
next
  case (Cons x ch)
  obtain b c where x: "x = (b, c)" by (cases x)
  then have b: "0 < b" using Cons.prems(1) by simp
  then obtain c' rest where ch': "ch' = (b, c') # rest" using Cons.prems(3) x by (cases ch') auto
  have "block_holds obj b (first_block ch) c" "block_holds obj b (first_block rest) c'"
    using Cons.prems(1,2) by (simp_all add: x ch')
  then have "first_block ch = first_block rest" "c = c'" using block_holds_unique by blast+
  then show ?case using Cons.IH [of rest] Cons.prems(1,2) by (simp add: x ch')
qed

lemma links_append: "links obj (xs @ ys) \<Longrightarrow> links obj ys"
  by (induction xs) auto

lemma links_distinct: "links obj ch \<Longrightarrow> distinct (map fst ch)"
proof (induction ch)
  case (Cons x ch)
  obtain b c where x: "x = (b, c)" by (cases x)
  have "b \<notin> fst ` set ch"
  proof
    assume "b \<in> fst ` set ch"
    then obtain d where "(b, d) \<in> set ch" by auto
    then obtain xs ys where ch: "ch = xs @ (b, d) # ys" by (blast dest: split_list)
    have "links obj ((x # xs) @ (b, d) # ys)" using Cons.prems by (simp only: ch append_Cons)
    then have "links obj ((b, d) # ys)" by (rule links_append)
    then have "x # ch = (b, d) # ys" by (rule links_unique [OF Cons.prems]) (simp add: x)
    then have "length ch = length ys" by simp
    then show False by (simp add: ch)
  qed
  then show ?case using Cons by (simp add: x)
qed simp

lemma links_inside: "links obj ch \<Longrightarrow> (b, c) \<in> set ch \<Longrightarrow> b < length obj div 256"
  by (induction ch) (auto dest!: block_read(1))

lemma links_few:
  assumes "links obj ch"
  shows "length ch \<le> length obj div 256"
proof -
  have "set (map fst ch) \<subseteq> {..<length obj div 256}"
    using links_inside [OF assms] by auto
  then have "card (set (map fst ch)) \<le> length obj div 256" using card_mono [of "{..<length obj div 256}"] by simp
  then show ?thesis using distinct_card [OF links_distinct [OF assms]] by simp
qed

lemma links_length: "links obj ch \<Longrightarrow> length (concat (map snd ch)) \<le> 250 * length ch"
  by (induction ch) (auto simp: block_holds_def)

text \<open>The values that \<open>build\<close> stores are chains.\<close>

lemma lays_links: "lays obj b cs \<Longrightarrow> 0 < b \<Longrightarrow> \<exists>ch. links obj ch \<and> map snd ch = cs \<and> first_block ch = (if cs = [] then 0 else b)"
proof (induction cs arbitrary: b)
  case Nil
  then show ?case by (intro exI [of _ "[]"]) simp
next
  case (Cons c cs)
  have "\<exists>ch. links obj ch \<and> map snd ch = cs \<and> first_block ch = (if cs = [] then 0 else b + 1)"
    by (rule Cons.IH) (use Cons.prems in simp_all)
  then obtain ch where "links obj ch" "map snd ch = cs" "first_block ch = (if cs = [] then 0 else b + 1)" by blast
  then show ?case using Cons.prems by (intro exI [of _ "(b, c) # ch"]) simp
qed

lemma stored_value: "stored_at obj v ref \<Longrightarrow> value_at obj v ref"
proof (cases "v = []")
  case True
  then show "stored_at obj v ref \<Longrightarrow> value_at obj v ref"
    by (auto simp: stored_at_def value_at_def chain_holds_def intro!: exI [of _ "[]"])
next
  case False
  assume st: "stored_at obj v ref"
  then have r: "unat (fst ref) \<noteq> 0" "unat (snd ref) = length v" and l: "lays obj (unat (fst ref)) (chunks 250 v)"
    using False by (simp_all add: stored_at_def)
  obtain ch where "links obj ch" "map snd ch = chunks 250 v" "first_block ch = (if chunks 250 v = [] then 0 else unat (fst ref))"
    using lays_links [OF l] r(1) by auto
  then show "value_at obj v ref"
    using r(2) concat_chunks [of 250 v] False
    by (auto simp: value_at_def chain_holds_def chunks_nonempty intro!: exI [of _ ch])
qed

text \<open>The reader follows it.\<close>

lemma blob_chain_loop_links:
  "links obj ch \<Longrightarrow> steps + length ch \<le> length obj div 256 \<Longrightarrow>
     (\<forall>n. expected = Some n \<longrightarrow> length out + length (concat (map snd ch)) \<le> n \<and> n \<le> u64_max) \<Longrightarrow>
     blob_chain_loop obj expected bc (first_block ch) steps out st
       = then_value (charges bc st (map (\<lambda>x. length (snd x)) ch)) (out @ concat (map snd ch))"
proof (induction ch arbitrary: steps out st)
  case Nil
  show ?case by (subst blob_chain_loop.simps) (simp add: then_value_def)
next
  case (Cons x ch)
  obtain b c where x: "x = (b, c)" by (cases x)
  have h: "0 < b" "block_holds obj b (first_block ch) c" "links obj ch" using Cons.prems(1) by (simp_all add: x)
  note r = block_read [OF h(2)]
  have fits: "\<not> (case expected of None \<Rightarrow> False | Some limit \<Rightarrow> saturating_add64 (length out) (length c) > limit)" "length c \<le> 250"
    using Cons.prems(3) h(2) by (auto simp: saturating_add64_def block_holds_def x split: option.splits)
  have step: "blob_chain_loop obj expected bc b steps out st =
      (case bc st (length c) of
         (Err e, st') \<Rightarrow> (Err e, st')
       | (Ok _, st') \<Rightarrow> blob_chain_loop obj expected bc (first_block ch) (steps + 1) (out @ c) st')"
    using r fits h(1) Cons.prems(2)
    by (subst blob_chain_loop.simps) (simp add: Let_def x cong: option.case_cong split: prod.splits sum.splits)
  have "blob_chain_loop obj expected bc (first_block ch) (steps + 1) (out @ c) st'
      = then_value (charges bc st' (map (\<lambda>x. length (snd x)) ch)) ((out @ c) @ concat (map snd ch))" for st'
    using Cons.prems(2,3) h(3) by (intro Cons.IH) (auto simp: x add.assoc)
  then show ?case using step by (simp add: x then_value_def split: prod.splits sum.splits)
qed

lemma read_chain_links:
  assumes ch: "links obj ch" and start: "unat start = first_block ch"
    and len: "\<forall>n. expected = Some n \<longrightarrow> n = length (concat (map snd ch)) \<and> n \<le> u64_max"
  shows "read_chain_accounted obj start expected bc st
    = then_value (charges bc st (0 # map (\<lambda>x. length (snd x)) ch)) (concat (map snd ch))"
proof -
  have "blob_chain_loop obj expected bc (unat start) 0 [] st'
      = then_value (charges bc st' (map (\<lambda>x. length (snd x)) ch)) ([] @ concat (map snd ch))" for st'
    unfolding start using len links_few [OF ch] by (intro blob_chain_loop_links [OF ch]) auto
  then show ?thesis using len
    by (auto simp: read_chain_accounted_def then_value_def split: prod.splits sum.splits option.splits)
qed

lemma value_reads_back:
  assumes v: "value_at obj v ref" and nb: "pg_budget p = None"
  shows "read_chain_checked obj (fst ref) (Some (unat (snd ref))) check_read p = (Ok v, p)"
proof -
  obtain ch where ch: "links obj ch" "first_block ch = unat (fst ref)" "concat (map snd ch) = v" "unat (snd ref) = length v"
    using v by (auto simp: value_at_def chain_holds_def)
  have "length v \<le> u32_max" using unat_u32_le [of "snd ref"] ch(4) by simp
  then show ?thesis
    using read_chain_links [OF ch(1) ch(2) [symmetric], of "Some (length v)" "\<lambda>st _. check_read st" p] ch(3,4)
    unfolding read_chain_checked_def checks_pass [OF nb] by (simp add: then_value_def)
qed

section \<open>Live and free records\<close>

text \<open>The record object and the blob object hold these rows under these record numbers: the records after
  record 0 are live or free, in any order, and the live ones hold the rows.  An object without records
  holds no row.\<close>

definition records_hold :: "bytes \<Rightarrow> bytes \<Rightarrow> (nat \<times> config_row) list \<Rightarrow> bool" where
  "records_hold records blob nrs \<longleftrightarrow> (\<exists>tot refs. length records = tot * 301
     \<and> (\<forall>m. 0 < m \<and> m < tot \<longrightarrow> page_of 301 records m ! 0 = 0 \<or> page_of 301 records m ! 0 = 1)
     \<and> map fst nrs = filter (\<lambda>m. page_of 301 records m ! 0 = 0) [1..<tot]
     \<and> (\<forall>(m, row) \<in> set nrs. m < 2 ^ 32 \<and> row_ok row \<and> holds_row (page_of 301 records m) row (refs m)
          \<and> value_at blob (cr_binary row) (refs m))
     \<and> sum_list (map (\<lambda>(m, row). length (cr_binary row)) nrs) \<le> u64_max)"

definition listed_rows :: "bool \<Rightarrow> (nat \<times> config_row) list \<Rightarrow> raw_record list" where
  "listed_rows w nrs = map (\<lambda>(m, row). \<lparr>rr_number = m, rr_row = seen_row w row\<rparr>) nrs"

text \<open>The rows that a replace stores are listed from record 1 on.\<close>

definition from_one :: "config_row list \<Rightarrow> (nat \<times> config_row) list" where
  "from_one rows = map (\<lambda>(i, row). (i + 1, row)) (enumerate 0 rows)"

lemma from_one_simps [simp]: "length (from_one rows) = length rows" "map snd (from_one rows) = rows"
    "i < length rows \<Longrightarrow> from_one rows ! i = (i + 1, rows ! i)"
  by (simp_all add: from_one_def nth_enumerate_eq comp_def case_prod_unfold)

lemma from_one_fst: "map fst (from_one rows) = [1..<length rows + 1]"
  by (rule nth_equalityI) (simp_all add: from_one_def nth_enumerate_eq del: upt_Suc)

lemma listed_from_one: "listed_rows w (from_one rows) = numbered_rows (map (seen_row w) rows)"
  by (rule nth_equalityI) (simp_all add: listed_rows_def from_one_def numbered_rows_def nth_enumerate_eq)

lemma stored_rows_listed:
  assumes "rows_stored records blob rows"
  shows "records_hold records blob (from_one rows)"
proof -
  obtain refs tot where len: "length records = tot * 301" and few: "length rows < tot" and small: "length rows < u32_max"
    and held: "\<forall>k < length rows. holds_row (page_of 301 records (k + 1)) (rows ! k) (refs k) \<and> stored_at blob (cr_binary (rows ! k)) (refs k)"
    and free: "\<forall>m. length rows < m \<and> m < tot \<longrightarrow> page_of 301 records m ! 0 = 1"
    and ok: "\<forall>row \<in> set rows. row_ok row"
    and sum: "sum_list (map (\<lambda>row. length (cr_binary row)) rows) \<le> u64_max"
    using assms unfolding rows_stored_def by blast
  have live: "page_of 301 records m ! 0 = 0" if "0 < m" "m \<le> length rows" for m
    using held [rule_format, of "m - 1"] that by (simp add: holds_row_def)
  have "[1..<tot] = [1..<length rows + 1] @ [length rows + 1..<tot]"
    using few upt_add_eq_append [of 1 "length rows + 1" "tot - (length rows + 1)"] by simp
  moreover have "filter (\<lambda>m. page_of 301 records m ! 0 = 0) [1..<length rows + 1] = [1..<length rows + 1]"
    by (rule filter_True) (use live in \<open>simp del: upt_Suc\<close>)
  moreover have "filter (\<lambda>m. page_of 301 records m ! 0 = 0) [length rows + 1..<tot] = []"
    by (rule filter_False) (use free in auto)
  ultimately have places: "filter (\<lambda>m. page_of 301 records m ! 0 = 0) [1..<tot] = [1..<length rows + 1]"
    by (simp del: upt_Suc)
  have heldv: "\<forall>k < length rows. holds_row (page_of 301 records (k + 1)) (rows ! k) (refs k) \<and> value_at blob (cr_binary (rows ! k)) (refs k)"
    using held stored_value by blast
  have each: "\<forall>(m, row) \<in> set (from_one rows). m < 2 ^ 32 \<and> row_ok row \<and> holds_row (page_of 301 records m) row (refs (m - 1))
      \<and> value_at blob (cr_binary row) (refs (m - 1))"
    using heldv ok small by (auto simp: from_one_def in_set_enumerate_eq)
  have "sum_list (map (\<lambda>(m, row). length (cr_binary row)) (from_one rows)) = sum_list (map (\<lambda>row. length (cr_binary row)) rows)"
  proof -
    have "map (\<lambda>(m, row). length (cr_binary row)) (from_one rows) = map (\<lambda>row. length (cr_binary row)) (map snd (from_one rows))"
      by (simp only: map_map comp_def case_prod_unfold)
    then show ?thesis by simp
  qed
  moreover have "page_of 301 records m ! 0 = 0 \<or> page_of 301 records m ! 0 = 1" if "0 < m" "m < tot" for m
    using live free that by (cases "m \<le> length rows") auto
  ultimately show ?thesis
    unfolding records_hold_def using len places each sum from_one_fst
    by (intro exI [of _ tot] exI [of _ "\<lambda>m. refs (m - 1)"]) simp
qed

text \<open>One live record.\<close>

lemma read_live_listed:
  assumes nb: "pg_budget p = None" and held: "holds_row rec row ref" and st: "w \<Longrightarrow> value_at blob (cr_binary row) ref"
    and room: "seen_size w row \<le> remaining" and ok: "row_ok row"
  shows "read_live_record t w blob rec remaining p = (Ok (seen_row w row, remaining - seen_size w row), p)"
proof -
  have name: "decode_var_string (slice NAME CREATION rec) 128 = Ok (cr_file_name row)"
    and block: "from_le_bytes (slice BINARY (BINARY + 4) rec) = fst ref"
    and size: "from_le_bytes (slice (BINARY + 4) (BINARY + 8) rec) = snd ref"
    using held by (simp_all add: holds_row_def record_places)
  have got: "row_binary t w blob (cr_file_name row) (fst ref) (snd ref) remaining p
      = (Ok (cr_binary (seen_row w row), remaining - seen_size w row), p)"
  proof (cases "w \<and> fst ref \<noteq> 0")
    case True
    then have v: "value_at blob (cr_binary row) ref" using st by simp
    then have "unat (snd ref) = length (cr_binary row)" by (simp add: value_at_def)
    then show ?thesis using value_reads_back [OF v nb] room True
      by (simp add: row_binary_def checked_sub_def and_then_def ret_def seen_size_def)
  next
    case False
    have "cr_binary row = [] \<and> snd ref = 0" if w
    proof -
      obtain ch where ch: "links blob ch" "first_block ch = unat (fst ref)" "concat (map snd ch) = cr_binary row"
          "unat (snd ref) = length (cr_binary row)" using st [OF \<open>w\<close>] by (auto simp: value_at_def chain_holds_def)
      then have "ch = []" using first_block_links [of blob ch] False \<open>w\<close> by (cases "ch = []") auto
      then show ?thesis using ch(3,4) by (simp add: unat_eq_0)
    qed
    then show ?thesis using False by (auto simp: row_binary_def ret_def seen_row_def seen_size_def)
  qed
  have row: "row_of_record rec (cr_file_name row) (cr_binary (seen_row w row)) = Ok (seen_row w row)"
    using held ok by (simp add: row_of_record_def holds_row_def record_places row_ok_def seen_row_def)
  have budget: "materialize_record n p = (Ok (), p)" for n using nb by (simp add: charges on_budget_none)
  show ?thesis
    unfolding read_live_record_def
    by (simp add: and_then_def of_result_def name block size budget got row ret_def Let_def)
qed

text \<open>The loop over the records, whatever lies between them.\<close>

lemma records_loop_listed:
  assumes nb: "pg_budget p = None"
  shows "map fst nrs = filter (\<lambda>m. pg m ! 0 = 0) ms \<Longrightarrow>
     \<forall>m \<in> set ms. pg m \<noteq> [] \<and> (pg m ! 0 = 0 \<or> pg m ! 0 = 1) \<Longrightarrow>
     \<forall>(m, row) \<in> set nrs. m < 2 ^ 32 \<and> row_ok row \<and> (\<exists>ref. holds_row (pg m) row ref \<and> (w \<longrightarrow> value_at blob (cr_binary row) ref)) \<Longrightarrow>
     sum_list (map (\<lambda>(m, row). seen_size w row) nrs) \<le> remaining \<Longrightarrow>
     records_loop t w blob (map (\<lambda>m. (m, pg m)) ms) remaining out p = (Ok (out @ listed_rows w nrs), p)"
proof (induction ms arbitrary: nrs remaining out)
  case Nil
  then show ?case by (simp add: ret_def listed_rows_def)
next
  case (Cons m ms)
  have chk: "check_read p = (Ok (), p)" using nb by (simp add: check_read_def on_budget_none)
  have hd: "hd (pg m) = pg m ! 0" using Cons.prems(2) by (simp add: hd_conv_nth)
  show ?case
  proof (cases "pg m ! 0 = 0")
    case True
    then obtain row rest where nrs: "nrs = (m, row) # rest" and rest: "map fst rest = filter (\<lambda>m. pg m ! 0 = 0) ms"
      using Cons.prems(1) by (auto simp: Cons_eq_map_conv)
    obtain ref where ref: "holds_row (pg m) row ref" "w \<longrightarrow> value_at blob (cr_binary row) ref" "row_ok row" and m: "m < 2 ^ 32"
      using Cons.prems(3) nrs by auto
    have live: "read_live_record t w blob (pg m) remaining p = (Ok (seen_row w row, remaining - seen_size w row), p)"
      using Cons.prems(4) ref by (intro read_live_listed [OF nb ref(1)]) (simp_all add: nrs)
    have go: "records_loop t w blob (map (\<lambda>m. (m, pg m)) ms) (remaining - seen_size w row) out' p = (Ok (out' @ listed_rows w rest), p)" for out'
      using Cons.prems by (intro Cons.IH [OF rest]) (simp_all add: nrs)
    show ?thesis using True hd chk live go m by (simp add: and_then_def nrs listed_rows_def)
  next
    case False
    then have free: "pg m ! 0 = 1" using Cons.prems(2) by simp
    have "records_loop t w blob (map (\<lambda>m. (m, pg m)) ms) remaining out p = (Ok (out @ listed_rows w nrs), p)"
      using Cons.prems False by (intro Cons.IH) simp_all
    then show ?thesis using free hd chk by (simp add: and_then_def)
  qed
qed

text \<open>On a file of any kind and under any budget: if it returns, it returns these rows.\<close>

lemma read_live_names:
  assumes run: "read_live_record t False blob rec remaining p = (Ok (row', remaining'), p')"
    and held: "holds_row rec row ref" and ok: "row_ok row"
  shows "row' = seen_row False row"
proof -
  have name: "decode_var_string (slice NAME CREATION rec) 128 = Ok (cr_file_name row)"
    using held by (simp add: holds_row_def record_places)
  have row: "row_of_record rec (cr_file_name row) [] = Ok (seen_row False row)"
    using held ok by (simp add: row_of_record_def holds_row_def record_places row_ok_def seen_row_def)
  show ?thesis
    using run unfolding read_live_record_def
    by (simp add: name row and_then_def of_result_def row_binary_def ret_def Let_def split: sum.splits prod.splits)
qed

lemma records_loop_returns:
  "records_loop t False blob (map (\<lambda>m. (m, pg m)) ms) remaining out p = (Ok rs, p') \<Longrightarrow>
     map fst nrs = filter (\<lambda>m. pg m ! 0 = 0) ms \<Longrightarrow>
     \<forall>m \<in> set ms. pg m \<noteq> [] \<and> (pg m ! 0 = 0 \<or> pg m ! 0 = 1) \<Longrightarrow>
     \<forall>(m, row) \<in> set nrs. m < 2 ^ 32 \<and> row_ok row \<and> (\<exists>ref. holds_row (pg m) row ref) \<Longrightarrow>
     rs = out @ listed_rows False nrs"
proof (induction ms arbitrary: nrs remaining out p)
  case Nil
  then show ?case by (simp add: ret_def listed_rows_def)
next
  case (Cons m ms)
  have hd: "hd (pg m) = pg m ! 0" using Cons.prems(3) by (simp add: hd_conv_nth)
  show ?case
  proof (cases "pg m ! 0 = 0")
    case True
    then obtain row rest where nrs: "nrs = (m, row) # rest" and rest: "map fst rest = filter (\<lambda>m. pg m ! 0 = 0) ms"
      using Cons.prems(2) by (auto simp: Cons_eq_map_conv)
    obtain ref where ref: "holds_row (pg m) row ref" "row_ok row" and m: "m < 2 ^ 32" using Cons.prems(4) nrs by auto
    obtain row' remaining' p1 p2 where live: "read_live_record t False blob (pg m) remaining p1 = (Ok (row', remaining'), p2)"
      and go: "records_loop t False blob (map (\<lambda>m. (m, pg m)) ms) remaining' (out @ [\<lparr>rr_number = m mod 2 ^ 32, rr_row = row'\<rparr>]) p2 = (Ok rs, p')"
      using Cons.prems(1) True hd by (auto simp: result_simps)
    have "row' = seen_row False row" by (rule read_live_names [OF live ref])
    moreover have "rs = (out @ [\<lparr>rr_number = m mod 2 ^ 32, rr_row = row'\<rparr>]) @ listed_rows False rest"
      by (rule Cons.IH [OF go rest]) (use Cons.prems(3,4) in \<open>simp_all add: nrs\<close>)
    ultimately show ?thesis using m by (simp add: nrs listed_rows_def)
  next
    case False
    then have free: "pg m ! 0 = 1" using Cons.prems(3) by simp
    then obtain p1 where go: "records_loop t False blob (map (\<lambda>m. (m, pg m)) ms) remaining out p1 = (Ok rs, p')"
      using Cons.prems(1) hd by (auto simp: result_simps)
    show ?thesis by (rule Cons.IH [OF go]) (use Cons.prems False in simp_all)
  qed
qed

text \<open>What a record object gives the loop.\<close>

lemma records_hold_parts:
  assumes "records_hold records blob nrs"
  obtains ms where "drop 1 (enumerate 0 (chunks_exact RECORD records)) = map (\<lambda>m. (m, page_of 301 records m)) ms"
    "length records mod RECORD = 0" "map fst nrs = filter (\<lambda>m. page_of 301 records m ! 0 = 0) ms"
    "\<forall>m \<in> set ms. page_of 301 records m \<noteq> [] \<and> (page_of 301 records m ! 0 = 0 \<or> page_of 301 records m ! 0 = 1)"
    "\<forall>(m, row) \<in> set nrs. m < 2 ^ 32 \<and> row_ok row \<and> (\<exists>ref. holds_row (page_of 301 records m) row ref \<and> value_at blob (cr_binary row) ref)"
    "sum_list (map (\<lambda>(m, row). length (cr_binary row)) nrs) \<le> u64_max"
proof -
  obtain tot refs where len: "length records = tot * 301"
    and flags: "\<forall>m. 0 < m \<and> m < tot \<longrightarrow> page_of 301 records m ! 0 = 0 \<or> page_of 301 records m ! 0 = 1"
    and live: "map fst nrs = filter (\<lambda>m. page_of 301 records m ! 0 = 0) [1..<tot]"
    and each: "\<forall>(m, row) \<in> set nrs. m < 2 ^ 32 \<and> row_ok row \<and> holds_row (page_of 301 records m) row (refs m)
          \<and> value_at blob (cr_binary row) (refs m)"
    and sum: "sum_list (map (\<lambda>(m, row). length (cr_binary row)) nrs) \<le> u64_max"
    using assms unfolding records_hold_def by blast
  have "enumerate 0 (chunks_exact 301 records) = map (\<lambda>m. (m, page_of 301 records m)) [0..<tot]"
    by (rule nth_equalityI) (simp_all add: chunks_exact_pages [OF _ len] nth_enumerate_eq)
  then have places: "drop 1 (enumerate 0 (chunks_exact RECORD records)) = map (\<lambda>m. (m, page_of 301 records m)) [1..<tot]"
    by (simp add: drop_map record_places)
  have page: "page_of 301 records m \<noteq> []" if "m < tot" for m
  proof -
    have "(m + 1) * 301 \<le> tot * 301" using that by (intro mult_le_mono1) simp
    then have "length (page_of 301 records m) = 301" using len by (intro length_page_of) (simp add: add.commute)
    then show ?thesis by auto
  qed
  have "\<forall>(m, row) \<in> set nrs. m < 2 ^ 32 \<and> row_ok row
      \<and> (\<exists>ref. holds_row (page_of 301 records m) row ref \<and> value_at blob (cr_binary row) ref)" using each by fast
  then show thesis using that [OF places _ live _ _ sum] len flags page by (simp add: record_places)
qed

lemma records_hold_each: "records_hold records blob nrs \<Longrightarrow> \<forall>(m, row) \<in> set nrs. m < 2 ^ 32 \<and> row_ok row"
  by (erule records_hold_parts) fast

section \<open>What a table lists\<close>

text \<open>A table of the known layout in any form the format allows: its live rows with their record numbers,
  and the entries that its index says.  It is what \<open>table_shows\<close> is after a replace, without the
  layout that a replace gives the records, the values and the index pages.\<close>

definition table_lists ::
  "('f \<Rightarrow> bytes) \<Rightarrow> ('f, 'e) pager \<Rightarrow> table \<Rightarrow> object \<times> object \<times> object \<Rightarrow> (nat \<times> config_row) list \<Rightarrow> index_entry list \<Rightarrow> bool" where
  "table_lists contents p t obs nrs es \<longleftrightarrow> check_layout t = Ok () \<and>
     (\<exists>records blob index. table_holds contents p t obs records blob index \<and> records_hold records blob nrs
        \<and> index_says (pg_page_size p) index es)"

lemma shows_lists:
  assumes "table_shows contents p t obs rows es" and "pager_ok disk contents p"
  shows "table_lists contents p t obs (from_one rows) es"
  using assms stored_rows_listed index_holds_says [of "pg_page_size p"]
  unfolding table_shows_def table_lists_def pager_ok_def by blast

section \<open>Reading\<close>

context sound_file
begin

lemma held_rows:
  assumes lay: "check_layout t = Ok ()" and held: "table_holds contents p t obs records blob index"
    and rows: "records_hold records blob nrs" and ok: "pager_ok disk contents p" and nb: "pg_budget p = None"
  shows "\<exists>p'. read_records t w p = (Ok (listed_rows w nrs), p') \<and> reads_only disk contents p p' \<and> pg_budget p' = None"
proof -
  obtain ro bo io where obs: "obs = (ro, bo, io)" by (cases obs)
  note h = held [unfolded table_holds_def obs prod.case]
  have ro: "stored contents p ro records" "ob_header_page ro = tb_records_page t"
    and bo: "stored contents p bo blob" "ob_header_page bo = tb_blob_page t" using h by blast+
  obtain p1 where o1: "object_open (tb_records_page t) p = (Ok ro, p1)" "reads_only disk contents p p1" "pg_budget p1 = None"
    using open_stored [OF ro(1) ok nb] ro(2) by auto
  have ok1: "pager_ok disk contents p1" using o1(2) by (simp add: reads_only_def)
  obtain p2 where o2: "object_read_all ro p1 = (Ok records, p2)" "reads_only disk contents p1 p2" "pg_budget p2 = None"
    using read_stored_all [OF reads_only_stored [OF o1(2) ro(1)] ok1 o1(3)] by blast
  have r2: "reads_only disk contents p p2" by (rule reads_only_trans [OF o1(2) o2(2)])
  then have ok2: "pager_ok disk contents p2" by (simp add: reads_only_def)
  obtain p3 b where o3: "(if w then and_then (object_open (tb_blob_page t)) object_read_all else ret []) p2 = (Ok b, p3)"
      "reads_only disk contents p2 p3" "pg_budget p3 = None" and b: "w \<Longrightarrow> b = blob"
  proof (cases w)
    case True
    then show thesis using that open_read [OF reads_only_stored [OF r2 bo(1)] ok2 o2(3) bo(2)] by auto
  next
    case False
    then show thesis using that [of "[]" p2] reads_only_refl [OF ok2] o2(3) by (simp add: ret_def)
  qed
  obtain ms where ms: "drop 1 (enumerate 0 (chunks_exact RECORD records)) = map (\<lambda>m. (m, page_of 301 records m)) ms"
    "length records mod RECORD = 0" "map fst nrs = filter (\<lambda>m. page_of 301 records m ! 0 = 0) ms"
    "\<forall>m \<in> set ms. page_of 301 records m \<noteq> [] \<and> (page_of 301 records m ! 0 = 0 \<or> page_of 301 records m ! 0 = 1)"
    and each: "\<forall>(m, row) \<in> set nrs. m < 2 ^ 32 \<and> row_ok row \<and> (\<exists>ref. holds_row (page_of 301 records m) row ref \<and> value_at blob (cr_binary row) ref)"
    and sum: "sum_list (map (\<lambda>(m, row). length (cr_binary row)) nrs) \<le> u64_max"
    by (rule records_hold_parts [OF rows])
  have "sum_list (map (\<lambda>(m, row). seen_size w row) nrs) \<le> sum_list (map (\<lambda>(m, row). length (cr_binary row)) nrs)"
    by (rule sum_list_mono) (auto simp: seen_size_def)
  then have "sum_list (map (\<lambda>(m, row). seen_size w row) nrs) \<le> u64_max" using sum by linarith
  then have loop: "records_loop t w b (map (\<lambda>m. (m, page_of 301 records m)) ms) u64_max [] p3 = (Ok ([] @ listed_rows w nrs), p3)"
    by (intro records_loop_listed [OF o3(3) ms(3,4)]) (use each b in fastforce)+
  have "read_records t w p = (Ok (listed_rows w nrs), p3)"
    unfolding read_records_def read_records_bounded_def
    using o1(1) o2(1) o3(1) lay ms(1,2) loop by (simp add: and_then_def of_result_def)
  then show ?thesis using reads_only_trans [OF r2 o3(2)] o3(3) by blast
qed

lemma shown_rows:
  assumes sh: "table_shows contents p t obs rows es" and ok: "pager_ok disk contents p" and nb: "pg_budget p = None"
  shows "\<exists>p'. read_records t w p = (Ok (numbered_rows (map (seen_row w) rows)), p') \<and> reads_only disk contents p p' \<and> pg_budget p' = None"
proof -
  obtain records blob index where "check_layout t = Ok ()" "table_holds contents p t obs records blob index" "rows_stored records blob rows"
    using sh by (auto simp: table_shows_def)
  then show ?thesis using held_rows [OF _ _ stored_rows_listed ok nb] unfolding listed_from_one by blast
qed

end

context backing_file
begin

lemma read_records_returns:
  assumes run: "read_records t False p = (Ok rs, p')" and ok: "pager_ok disk contents p"
    and held: "table_holds contents p t obs records blob index" and rows: "records_hold records blob nrs"
  shows "rs = listed_rows False nrs" and "reads_only disk contents p p'" and "check_layout t = Ok ()"
proof -
  show "reads_only disk contents p p'"
    by (rule quietD [OF quiet_read_records ok run [unfolded read_records_def]])
  obtain ro bo io where obs: "obs = (ro, bo, io)" by (cases obs)
  note h = held [unfolded table_holds_def obs prod.case]
  have st: "stored contents p ro records" and hp: "ob_header_page ro = tb_records_page t" using h by blast+
  obtain ro1 p1 r1 p2 where s: "check_layout t = Ok ()" "object_open (tb_records_page t) p = (Ok ro1, p1)"
      "object_read_all ro1 p1 = (Ok r1, p2)"
      "records_loop t False [] (drop 1 (enumerate 0 (chunks_exact RECORD r1))) u64_max [] p2 = (Ok rs, p')"
    using run unfolding read_records_def read_records_bounded_def
    by (auto simp: result_simps split: if_splits)
  note one = object_open_Ok [OF s(2) [folded hp] ok st]
  then have ok1: "pager_ok disk contents p1" by (simp add: reads_only_def)
  note two = read_all_Ok [OF s(3) [unfolded one(1)] reads_only_stored [OF one(2) st] ok1]
  show "check_layout t = Ok ()" by (rule s(1))
  obtain ms where ms: "drop 1 (enumerate 0 (chunks_exact RECORD records)) = map (\<lambda>m. (m, page_of 301 records m)) ms"
    "map fst nrs = filter (\<lambda>m. page_of 301 records m ! 0 = 0) ms"
    "\<forall>m \<in> set ms. page_of 301 records m \<noteq> [] \<and> (page_of 301 records m ! 0 = 0 \<or> page_of 301 records m ! 0 = 1)"
    and each: "\<forall>(m, row) \<in> set nrs. m < 2 ^ 32 \<and> row_ok row \<and> (\<exists>ref. holds_row (page_of 301 records m) row ref \<and> value_at blob (cr_binary row) ref)"
    by (rule records_hold_parts [OF rows])
  have "rs = [] @ listed_rows False nrs"
    by (rule records_loop_returns [OF s(4) [unfolded two(1) ms(1)] ms(2,3)]) (use each in fastforce)
  then show "rs = listed_rows False nrs" by simp
qed

end

section \<open>Reindexing\<close>

text \<open>The index entries of the rows: the number of each live record with the key of its row.\<close>

definition entries_of :: "collation \<Rightarrow> (nat \<times> config_row) list \<Rightarrow> index_entry list \<Rightarrow> bool" where
  "entries_of coll nrs es \<longleftrightarrow>
     list_all2 (\<lambda>(m, row) (n, key). n = m \<and> config_key coll (cr_file_name row) (cr_part_no row) = Ok key) nrs es"

lemma entries_of_listed: "record_entries coll (listed_rows w nrs) = Ok es \<longleftrightarrow> entries_of coll nrs es"
  unfolding record_entries_Ok entries_of_def listed_rows_def
  by (auto simp: list_all2_map1 case_prod_unfold elim!: list_all2_mono)

lemma entries_of_keys:
  assumes "entries_of coll nrs es" and "\<forall>(m, row) \<in> set nrs. m < 2 ^ 32 \<and> row_ok row"
  shows "length es = length nrs" and "\<forall>(rec, key) \<in> set es. length key = 392 \<and> rec \<le> u32_max"
proof -
  show "length es = length nrs" using assms(1) list_all2_lengthD by (fastforce simp: entries_of_def)
  have "length key = 392 \<and> rec \<le> u32_max" if e: "(rec, key) \<in> set es" for rec key
  proof -
    obtain i where i: "i < length es" "es ! i = (rec, key)" using e by (auto simp: in_set_conv_nth)
    then have i': "i < length nrs" using \<open>length es = length nrs\<close> by simp
    obtain m row where mr: "nrs ! i = (m, row)" by (cases "nrs ! i")
    have e: "rec = m" "config_key coll (cr_file_name row) (cr_part_no row) = Ok key"
      using assms(1) i i' mr by (auto simp: entries_of_def list_all2_conv_all_nth)
    have "m < 2 ^ 32" "cr_part_no row \<le> u32_max" using assms(2) nth_mem [OF i'] mr by (auto simp: row_ok_def)
    then show ?thesis using e config_key_Ok(5) [OF e(2)] by auto
  qed
  then show "\<forall>(rec, key) \<in> set es. length key = 392 \<and> rec \<le> u32_max" by blast
qed

context backing_file
begin

lemma reindex_indexes:
  assumes run: "reindex t coll p = (Ok u, p')" and ok: "pager_ok disk contents p"
    and head: "length (pg_header p) = pg_page_size p" and held: "table_holds contents p t obs records blob index"
    and rows: "records_hold records blob nrs" and room: "pg_page_count p + 2 * length nrs + 2 \<le> u32_max"
  shows "\<exists>es obs' index'. entries_of coll nrs es \<and> table_holds contents p' t obs' records blob index'
    \<and> index_holds (pg_page_size p) index' (sort_key snd es)
    \<and> (\<forall>other c. stored contents p other c \<and> clear_of obs other \<longrightarrow> stored contents p' other c \<and> clear_of obs' other)"
    and "pager_ok disk contents p'" and "pg_page_size p' = pg_page_size p" and "pg_budget p = None \<longrightarrow> pg_budget p' = None"
proof -
  obtain ro bo io where obs: "obs = (ro, bo, io)" by (cases obs)
  note h = held [unfolded table_holds_def obs prod.case]
  have st: "stored contents p ro records" "stored contents p bo blob" "stored contents p io index"
    and hp: "ob_header_page io = tb_index_page t" and ap: "apart ro bo" "apart ro io" "apart bo io" using h by blast+
  obtain rs q1 es io1 q2 i1 q3 new io' q4 where s: "read_records t False p = (Ok rs, q1)" "record_entries coll rs = Ok es"
      "object_open (tb_index_page t) q1 = (Ok io1, q2)" "object_read_all io1 q2 = (Ok i1, q3)"
      "index_rebuild i1 (pg_page_size q3) es = Ok new" "object_rewrite io1 new q3 = (Ok io', q4)" "flush_header q4 = (Ok u, p')"
    using run unfolding reindex_def by (elim and_then_OkE of_result_OkE) (hypsubst, rule that, assumption+)
  note first = read_records_returns [OF s(1) ok held rows]
  have entries: "entries_of coll nrs es" using s(2) unfolding first(1) entries_of_listed .
  have ok1: "pager_ok disk contents q1" using first(2) by (simp add: reads_only_def)
  note two = object_open_Ok [OF s(3) [folded hp] ok1 reads_only_stored [OF first(2) st(3)]]
  have r2: "reads_only disk contents p q2" by (rule reads_only_trans [OF first(2) two(2)])
  then have ok2: "pager_ok disk contents q2" by (simp add: reads_only_def)
  note three = read_all_Ok [OF s(4) [unfolded two(1)] reads_only_stored [OF r2 st(3)] ok2]
  have r3: "reads_only disk contents p q3" by (rule reads_only_trans [OF r2 three(2)])
  then have ok3: "pager_ok disk contents q3" and ps3: "pg_page_size q3 = pg_page_size p"
    and head3: "length (pg_header q3) = pg_page_size q3" using head by (simp_all add: reads_only_def changed_def)
  have rebuilt: "index_rebuild index (pg_page_size p) es = Ok new"
    and w: "object_rewrite io new q3 = (Ok io', q4)" using s(5,6) by (simp_all add: two(1) three(1) ps3)
  note sizes = entries_of_keys [OF entries records_hold_each [OF rows]]
  have ps: "4096 \<le> pg_page_size p" "pg_page_size p \<le> 65536" using ok by (simp_all add: pager_ok_def)
  have few: "length index div pg_page_size p + 2 * length es + 2 \<le> u32_max"
    using index_pages_few [OF st(3) ok] room sizes(1) by linarith
  note tree = rebuilt_tree [OF rebuilt ps sizes(2) few]
  have "u32_max * pg_page_size p \<le> u32_max * 65536" using ps(2) by (rule mult_le_mono2)
  then have small: "length new \<le> u64_max" using tree(2) by simp
  have st3: "stored contents q3 ro records" "stored contents q3 bo blob" "stored contents q3 io index"
    using st reads_only_stored [OF r3] by blast+
  have ob: "object_ok (pg_page_size q3) (pg_page_count q3) io" using st3(3) by (simp add: stored_def)
  note wr = rewrite_Ok [OF w ok3 ob small]
  have ro4: "stored contents q4 ro records" "apart io' ro"
    by (rule rewrite_apart [OF w ok3 st3(3) small st3(1) apart_sym [OF ap(2)]])+
  have bo4: "stored contents q4 bo blob" "apart io' bo"
    by (rule rewrite_apart [OF w ok3 st3(3) small st3(2) apart_sym [OF ap(3)]])+
  have head4: "length (pg_header q4) = pg_page_size q4" using head3 wr(3) by (simp add: changed_def)
  have "table_holds contents p' t (ro, bo, io') records blob new"
    using flush_stored [OF s(7) wr(2) head4 ro4(1)] flush_stored [OF s(7) wr(2) head4 bo4(1)]
      flush_stored [OF s(7) wr(2) head4 wr(1)] h wr(4) ro4(2) bo4(2) by (simp add: table_holds_def apart_sym)
  moreover have "stored contents p' other c \<and> clear_of (ro, bo, io') other" if other: "stored contents p other c" "clear_of obs other" for other c
  proof -
    have st4: "stored contents q3 other c" by (rule reads_only_stored [OF r3 other(1)])
    have away: "apart io other" "clear_of (ro, bo, io) other" using other(2) by (simp_all add: clear_of_def obs)
    have "stored contents q4 other c" "apart io' other"
      by (rule rewrite_apart [OF w ok3 st3(3) small st4 away(1)])+
    then show ?thesis using flush_stored [OF s(7) wr(2) head4] away(2) by (simp add: clear_of_def)
  qed
  ultimately show "\<exists>es obs' index'. entries_of coll nrs es \<and> table_holds contents p' t obs' records blob index'
    \<and> index_holds (pg_page_size p) index' (sort_key snd es)
    \<and> (\<forall>other c. stored contents p other c \<and> clear_of obs other \<longrightarrow> stored contents p' other c \<and> clear_of obs' other)"
    using entries tree(1) by blast
  note flush = flush_header_Ok [OF s(7) wr(2) head4]
  show "pager_ok disk contents p'" by (rule flush(1))
  show "pg_page_size p' = pg_page_size p" using flush(7) wr(3) ps3 by (simp add: changed_def)
  show "pg_budget p = None \<longrightarrow> pg_budget p' = None" using flush(6) wr(3) r3 by (simp add: changed_def reads_only_def)
qed

end

text \<open>Reindexing succeeds when the keys of the rows are apart and the index fits.\<close>

lemma distinct_keys_adj: "distinct (map snd es) \<Longrightarrow> distinct_adj (map snd (sort_key snd es))"
  by (rule distinct_adj_distinct) (simp add: distinct_map)

context sound_file
begin

lemma works_reindex_held:
  assumes ok: "pager_ok disk contents p" and nb: "pg_budget p = None" and lay: "check_layout t = Ok ()"
    and held: "table_holds contents p t (ro, bo, io) records blob index" and rows: "records_hold records blob nrs"
    and entries: "entries_of coll nrs es" and apart_keys: "distinct (map snd es)"
    and desc: "index_descriptor index (pg_page_size p) = Ok (root, 392)" "u32_at index 8 = 0"
    and room: "content_fits (pg_page_size p) ((ob_len io div pg_page_size p + 2 * length nrs + 2) * pg_page_size p)"
      "pg_page_count p + content_pages (pg_page_size p) ((ob_len io div pg_page_size p + 2 * length nrs + 2) * pg_page_size p) \<le> u32_max"
  shows "works (reindex t coll) p"
proof -
  let ?ps = "pg_page_size p" and ?ni = "(ob_len io div pg_page_size p + 2 * length nrs + 2) * pg_page_size p"
  note h = held [unfolded table_holds_def prod.case]
  have st: "stored contents p io index" and hp: "ob_header_page io = tb_index_page t" using h by blast+
  have len0: "length index = ob_len io" using st by (simp add: stored_def)
  obtain new where new: "index_rebuild index ?ps es = Ok new"
    using index_rebuild_succeeds [OF desc distinct_keys_adj [OF apart_keys]] by blast
  obtain p1 where o1: "read_records t False p = (Ok (listed_rows False nrs), p1)"
    "reads_only disk contents p p1" "pg_budget p1 = None" using held_rows [OF lay held rows ok nb] by blast
  have ok1: "pager_ok disk contents p1" using o1(2) by (simp add: reads_only_def)
  obtain p2 where o2: "object_open (tb_index_page t) p1 = (Ok io, p2)" "reads_only disk contents p1 p2" "pg_budget p2 = None"
    using open_stored [OF reads_only_stored [OF o1(2) st] ok1 o1(3)] hp by auto
  have r2: "reads_only disk contents p p2" by (rule reads_only_trans [OF o1(2) o2(2)])
  then have ok2: "pager_ok disk contents p2" by (simp add: reads_only_def)
  obtain p3 where o3: "object_read_all io p2 = (Ok index, p3)" "reads_only disk contents p2 p3" "pg_budget p3 = None"
    using read_stored_all [OF reads_only_stored [OF r2 st] ok2 o2(3)] by blast
  have r3: "reads_only disk contents p p3" by (rule reads_only_trans [OF r2 o3(2)])
  then have ok3: "pager_ok disk contents p3" and ps3: "pg_page_size p3 = ?ps" and pc3: "pg_page_count p3 = pg_page_count p"
    by (simp_all add: reads_only_def changed_def)
  have seen: "record_entries coll (listed_rows False nrs) = Ok es" using entries unfolding entries_of_listed .
  note sizes = entries_of_keys [OF entries records_hold_each [OF rows]]
  have ps: "4096 \<le> ?ps" "?ps \<le> 65536" "0 < ?ps" using ok by (auto simp: pager_ok_def)
  have cp: "length index div ?ps + 2 * length nrs + 2 \<le> content_pages ?ps ?ni"
    unfolding len0 content_pages_def whole_pages [OF ps(3)] by simp
  then have few: "length index div ?ps + 2 * length es + 2 \<le> u32_max" using room(2) sizes(1) by linarith
  note tree = rebuilt_tree [OF new ps(1,2) sizes(2) few]
  have small: "length new \<le> ?ni" using tree(4) by (simp add: sizes(1) len0)
  have less: "ob_len io \<le> length new" using tree(3) by (simp add: len0)
  have more: "pg_page_count p3 + content_pages (pg_page_size p3) (length new) \<le> u32_max"
    using room(2) content_pages_mono [OF small, of ?ps] unfolding pc3 ps3 by linarith
  obtain io' p4 where w: "object_rewrite io new p3 = (Ok io', p4)" "pager_ok disk contents p4" "pg_budget p4 = None"
    by (rule rewrite_next [OF ok3 o3(3) reads_only_stored [OF r3 st] content_fits_less [OF room(1) small, folded ps3] less more])
  obtain u q where "flush_header p4 = (Ok u, q)" using works_flush [OF w(2,3)] unfolding works_def by blast
  moreover have "reindex t coll p = and_then (object_rewrite io new) (\<lambda>_. flush_header) p3"
    unfolding reindex_def lay and_then_of_result and_then_step [where m = "read_records t False", OF o1(1)] seen
      and_then_step [where m = "object_open (tb_index_page t)", OF o2(1)] and_then_step [where m = "object_read_all io", OF o3(1)]
      and_then_rebuild ps3 new ..
  ultimately show ?thesis using w(1) by (simp add: works_def and_then_def)
qed

end

end
