(* ===== verification/Filedb_Table_Sample.thy ===== *)
theory Filedb_Table_Sample
  imports Filedb_Any_Table
begin

text \<open>
  A file in memory with one table: three objects written into an empty file, and a row to put into them.
\<close>

section \<open>Creating objects\<close>

definition empty_object :: "nat \<Rightarrow> object" where
  "empty_object n = \<lparr>ob_header_page = n, ob_fat = 0, ob_counter = 0, ob_length_counter = 0, ob_len = 0,
     ob_pages = [], ob_tables = []\<rparr>"

lemma empty_object_ok: "0 < n \<Longrightarrow> n < count \<Longrightarrow> object_ok ps count (empty_object n)"
  by (cases "ps = 0") (simp_all add: object_ok_def empty_object_def owned_pages_def div_ceil_def)

context sound_file
begin

lemma new_object:
  fixes p :: "('a, 'e) pager"
  assumes ok: "pager_ok disk contents p" and nb: "pg_budget p = None" and n: "0 < n" "n < pg_page_count p"
    and fits: "content_fits (pg_page_size p) (length content)"
    and room: "pg_page_count p + content_pages (pg_page_size p) (length content) \<le> u32_max"
  obtains ob and p' :: "('a, 'e) pager" where "stored contents p' ob content" "ob_header_page ob = n" "pager_ok disk contents p'"
    "pg_budget p' = None" "pg_page_size p' = pg_page_size p" "length (pg_header p') = length (pg_header p)"
    "pg_page_count p' \<le> pg_page_count p + content_pages (pg_page_size p) (length content)" "pg_page_count p \<le> pg_page_count p'"
    "\<And>m. m \<in> set (owned_pages ob) \<Longrightarrow> m = n \<or> pg_page_count p \<le> m"
    "\<And>other c. stored contents p other c \<Longrightarrow> n \<notin> set (owned_pages other) \<Longrightarrow> stored contents p' other c"
proof -
  have ob: "object_ok (pg_page_size p) (pg_page_count p) (empty_object n)" by (rule empty_object_ok [OF n])
  have "object_fits (pg_page_size p) (pg_page_count p) (empty_object n) (length content)"
    by (rule fits_object [OF fits _ room]) (simp add: empty_object_def)
  then obtain ob' p' where w: "object_rewrite (empty_object n) content p = (Ok ob', p')"
    using works_rewrite [OF ok nb ob] unfolding works_def by blast
  have "length content \<le> u64_max" using fits by (simp add: content_fits_def)
  note r = rewrite_Ok [OF w ok ob this]
  have owned: "owned_pages (empty_object n) = [n]" by (simp add: owned_pages_def empty_object_def)
  show thesis
  proof (rule that)
    show "stored contents p' ob' content" "pager_ok disk contents p'" by (rule r(1,2))+
    show "ob_header_page ob' = n" using r(4) by (simp add: empty_object_def)
    show "pg_budget p' = None" "length (pg_header p') = length (pg_header p)" "pg_page_count p \<le> pg_page_count p'" using r(3) nb by (simp_all add: changed_def)
    show "pg_page_size p' = pg_page_size p"
      "pg_page_count p' \<le> pg_page_count p + content_pages (pg_page_size p) (length content)"
      by (rule object_rewrite_count [OF w])+
    show "m = n \<or> pg_page_count p \<le> m" if "m \<in> set (owned_pages ob')" for m using r(5) that by (auto simp: owned)
    show "stored contents p' other c" if "stored contents p other c" "n \<notin> set (owned_pages other)" for other c
      by (rule stored_kept [OF that(1) r(3)]) (use that(2) in \<open>simp add: owned\<close>)
  qed
qed

end

section \<open>A table in memory\<close>

definition sample_table :: table where
  "sample_table = \<lparr>tb_name = ascii ''CONFIG'',
     tb_fields = map (\<lambda>(name, kind, len). \<lparr>fd_name = name, fd_kind = kind, fd_nullable = False, fd_length = len,
       fd_precision = 0, fd_case_insensitive = (name = ascii ''FILENAME'')\<rparr>) LAYOUT,
     tb_index_names = [ascii ''BYNAMENO_CONFIG''], tb_records_page = 3, tb_blob_page = 4, tb_index_page = 5\<rparr>"

lemma sample_layout: "check_layout sample_table = Ok ()"
  by (simp add: check_layout_def sample_table_def Let_def LAYOUT_def field_as_laid_def)

definition sample_row :: config_row where
  "sample_row = \<lparr>cr_file_name = [0x61], cr_part_no = 0, cr_creation = replicate 7 0, cr_modified = replicate 7 0,
     cr_attributes = 0, cr_data_size = 3, cr_binary = [1, 2, 3]\<rparr>"

lemma sample_row_ok: "\<forall>row \<in> set [sample_row]. row_ok row \<and> length (cr_binary row) \<le> u32_max"
  by (simp add: sample_row_def row_ok_def)

lemma sample_row_keys: "\<exists>key. row_keys Russian [sample_row] [] [] = Ok [key]"
proof -
  obtain k where "config_key Russian [0x61] 0 = Ok k"
    using config_key_succeeds [of "[0x61]" Russian 0] by (auto simp: verified_char_def ascii_lower_def)
  then show ?thesis by (simp add: sample_row_def Let_def)
qed

lemma content_fits_small: "n \<le> 2 ^ 20 \<Longrightarrow> content_fits 4096 n"
proof -
  assume n: "n \<le> 2 ^ 20"
  have "div_ceil (div_ceil n 4096) 1024 \<le> div_ceil (div_ceil (2 ^ 20) 4096) 1024" by (intro div_ceil_less n)
  also have "\<dots> \<le> direct_capacity 4096" by (simp add: div_ceil_def direct_capacity_def OBJECT_HEADER_def)
  finally show ?thesis using n by (simp add: content_fits_def)
qed

lemma content_pages_small: "n \<le> 2 ^ 20 \<Longrightarrow> content_pages 4096 n \<le> 257"
proof -
  assume "n \<le> 2 ^ 20"
  then have "content_pages 4096 n \<le> content_pages 4096 (2 ^ 20)" by (rule content_pages_mono)
  also have "\<dots> = 257" by (simp add: content_pages_def div_ceil_def)
  finally show ?thesis .
qed

definition sample_file :: "(mem_file, unit) pager" where
  "sample_file = \<lparr>pg_file = \<lparr>mem_bytes = replicate (6 * 4096) 0, mem_position = 0\<rparr>, pg_disk = mem_backing,
     pg_page_size = 4096, pg_page_count = 6, pg_header = replicate 4096 0, pg_budget = None\<rparr>"

text \<open>The table with any three small contents, on pages from the third on.\<close>

lemma table_from_page_3:
  assumes lens: "length r \<le> 2 ^ 20" "length b \<le> 2 ^ 20" "length i \<le> 2 ^ 20"
  obtains ro bo io and p :: "(mem_file, unit) pager" where "table_holds mem_bytes p sample_table (ro, bo, io) r b i"
    "pager_ok mem_backing mem_bytes p" "pg_budget p = None" "pg_page_size p = 4096" "length (pg_header p) = 4096"
    "pg_page_count p \<le> 1000" "\<forall>m \<in> all_pages (ro, bo, io). 3 \<le> m"
proof -
  have ok: "pager_ok mem_backing mem_bytes sample_file" "pg_budget sample_file = None" "pg_page_count sample_file = 6"
      "pg_page_size sample_file = 4096" "length (pg_header sample_file) = 4096"
    by (simp_all add: pager_ok_def sample_file_def)
  note small = lens [THEN content_pages_small] and fits = lens [THEN content_fits_small]
  note new = mem.new_object [OF ok(1,2), of 3 r, unfolded ok(3-5), OF _ _ fits(1)]
  obtain ro and p1 :: "(mem_file, unit) pager" where p1: "stored mem_bytes p1 ro r" "ob_header_page ro = 3" "pager_ok mem_backing mem_bytes p1"
    "pg_budget p1 = None" "pg_page_size p1 = 4096" "length (pg_header p1) = 4096"
    "pg_page_count p1 \<le> 6 + content_pages 4096 (length r)" "6 \<le> pg_page_count p1"
    and own1: "\<And>m. m \<in> set (owned_pages ro) \<Longrightarrow> m = 3 \<or> 6 \<le> m"
    by (rule new) (simp, simp, use small in simp, rule that)
  have c1: "pg_page_count p1 \<le> 263" using p1(7) small(1) by linarith
  note new = mem.new_object [OF p1(3,4), of 4 b, unfolded p1(5,6), OF _ _ fits(2)]
  obtain bo and p2 :: "(mem_file, unit) pager" where p2: "stored mem_bytes p2 bo b" "ob_header_page bo = 4" "pager_ok mem_backing mem_bytes p2"
    "pg_budget p2 = None" "pg_page_size p2 = 4096" "length (pg_header p2) = 4096"
    "pg_page_count p2 \<le> pg_page_count p1 + content_pages 4096 (length b)" "pg_page_count p1 \<le> pg_page_count p2"
    and own2: "\<And>m. m \<in> set (owned_pages bo) \<Longrightarrow> m = 4 \<or> pg_page_count p1 \<le> m"
    and kept2: "\<And>other c. stored mem_bytes p1 other c \<Longrightarrow> 4 \<notin> set (owned_pages other) \<Longrightarrow> stored mem_bytes p2 other c"
    by (rule new) (simp, use p1(8) in simp, use small c1 in simp, rule that)
  have c2: "pg_page_count p2 \<le> 520" using p2(7) c1 small(2) by linarith
  note new = mem.new_object [OF p2(3,4), of 5 i, unfolded p2(5,6), OF _ _ fits(3)]
  obtain io and p3 :: "(mem_file, unit) pager" where p3: "stored mem_bytes p3 io i" "ob_header_page io = 5" "pager_ok mem_backing mem_bytes p3"
    "pg_budget p3 = None" "pg_page_size p3 = 4096" "length (pg_header p3) = 4096"
    "pg_page_count p3 \<le> pg_page_count p2 + content_pages 4096 (length i)" "pg_page_count p2 \<le> pg_page_count p3"
    and own3: "\<And>m. m \<in> set (owned_pages io) \<Longrightarrow> m = 5 \<or> pg_page_count p2 \<le> m"
    and kept3: "\<And>other c. stored mem_bytes p2 other c \<Longrightarrow> 5 \<notin> set (owned_pages other) \<Longrightarrow> stored mem_bytes p3 other c"
    by (rule new) (simp, use p1(8) p2(8) in simp, use small c2 in simp, rule that)
  have under: "m < pg_page_count p1" if "m \<in> set (owned_pages ro)" for m using p1(1) that by (simp add: stored_def object_ok_def)
  have under2: "m < pg_page_count p2" if "m \<in> set (owned_pages bo)" for m using p2(1) that by (simp add: stored_def object_ok_def)
  have bo: "stored mem_bytes p3 bo b" using own2 p1(8) by (intro kept3 p2(1)) fastforce
  have ro: "stored mem_bytes p3 ro r" using own1 by (intro kept3 kept2 p1(1)) fastforce+
  have "apart ro bo" using own1 own2 under by (fastforce simp: apart_def)
  moreover have "apart ro io" using own1 own3 under p2(8) by (fastforce simp: apart_def)
  moreover have "apart bo io" using own2 own3 under2 p1(8) by (fastforce simp: apart_def)
  ultimately have "table_holds mem_bytes p3 sample_table (ro, bo, io) r b i"
    using ro bo p3(1) p1(2) p2(2) p3(2) by (simp add: table_holds_def sample_table_def)
  moreover have "pg_page_count p3 \<le> 1000" using p3(7) c2 small(3) by linarith
  moreover have "3 \<le> m" if "m \<in> all_pages (ro, bo, io)" for m
  proof -
    have "m = 3 \<or> m = 4 \<or> m = 5 \<or> 6 \<le> m"
      using that own1 own2 own3 p1(8) p2(8) by (fastforce simp: all_pages_def)
    then show ?thesis by linarith
  qed
  ultimately show thesis using that p3(3-6) by blast
qed

lemma table_in_memory:
  assumes "length r \<le> 2 ^ 20" "length b \<le> 2 ^ 20" "length i \<le> 2 ^ 20"
  obtains ro bo io and p :: "(mem_file, unit) pager" where "table_holds mem_bytes p sample_table (ro, bo, io) r b i"
    "pager_ok mem_backing mem_bytes p" "pg_budget p = None" "pg_page_size p = 4096" "length (pg_header p) = 4096"
    "pg_page_count p \<le> 1000"
  using table_from_page_3 [OF assms] by metis

text \<open>The table of the sample: two empty objects and an index without entries.\<close>

definition sample_state :: "(mem_file, unit) pager \<Rightarrow> object \<times> object \<times> object \<Rightarrow> bool" where
  "sample_state p obs \<longleftrightarrow> pager_ok mem_backing mem_bytes p \<and> pg_budget p = None \<and> length (pg_header p) = pg_page_size p
     \<and> table_holds mem_bytes p sample_table obs [] [] two_page_index
     \<and> table_room (pg_page_size p) (pg_page_count p) obs two_page_index [sample_row]
     \<and> pg_page_size p = 4096 \<and> pg_page_count p \<le> 1000"

lemma sample_exists: "\<exists>p obs. sample_state p obs"
proof -
  obtain ro bo io and p :: "(mem_file, unit) pager" where held: "table_holds mem_bytes p sample_table (ro, bo, io) [] [] two_page_index"
    and p: "pager_ok mem_backing mem_bytes p" "pg_budget p = None" "pg_page_size p = 4096" "length (pg_header p) = 4096"
      "pg_page_count p \<le> 1000"
    by (rule table_in_memory [of "[]" "[]" two_page_index]) (simp_all add: two_page_index_fields(1))
  have len: "ob_len ro = 0" "ob_len bo = 0" using held by (simp_all add: table_holds_def stored_def)
  have "pg_page_count p + content_pages 4096 602 + content_pages 4096 512 + content_pages 4096 24576 \<le> u32_max"
    using p(5) content_pages_small [of 602] content_pages_small [of 512] content_pages_small [of 24576] by simp
  then have "table_room 4096 (pg_page_count p) (ro, bo, io) two_page_index [sample_row]"
    by (simp add: table_room_def Let_def len two_page_index_fields(1) sample_row_def blocks_of_def content_fits_small)
  then have "sample_state p (ro, bo, io)" using held p by (simp add: sample_state_def)
  then show ?thesis by blast
qed

end
