(* ===== verification/Filedb_Table_Props.thy ===== *)
theory Filedb_Table_Props
  imports Filedb_Table_Sample
begin

text \<open>
  The properties of the CONFIG-family tables: a replace implements the assignment of the rows, a replace that
  has room succeeds, nothing is written before the new contents are complete; and, for tables in any layout of
  the format, the readers return the live rows and reindexing keeps them.
\<close>

section \<open>The order of a replace\<close>

text \<open>An action that failed and left the file as it was.\<close>

definition gave_up :: "'f backing \<Rightarrow> ('f \<Rightarrow> bytes) \<Rightarrow> ('f, 'e) pager \<Rightarrow> db_error + 'a \<Rightarrow> ('f, 'e) pager \<Rightarrow> bool" where
  "gave_up disk contents p r p' \<longleftrightarrow> (\<exists>e. r = Err e) \<and> reads_only disk contents p p'"

text \<open>An action that did not give up passes each of its quiet steps.\<close>

lemma quiet_step:
  assumes run: "and_then m f p = (r, p')" and not: "\<not> gave_up disk contents p r p'"
    and q: "quiet disk contents m" and ok: "pager_ok disk contents p"
  obtains x p1 where "m p = (Ok x, p1)" "reads_only disk contents p p1" "f x p1 = (r, p')"
    "pager_ok disk contents p1" "\<not> gave_up disk contents p1 r p'"
proof -
  obtain y p1 where m: "m p = (y, p1)" by (cases "m p")
  have ro: "reads_only disk contents p p1" by (rule quietD [OF q ok m])
  show thesis
  proof (cases y)
    case (Inl e)
    then have "r = Err e" "p' = p1" using run m by (auto simp: and_then_def)
    then show thesis using not ro by (simp add: gave_up_def)
  next
    case (Inr x)
    then have "f x p1 = (r, p')" using run m by (simp add: and_then_def)
    moreover have "\<not> gave_up disk contents p1 r p'" using not reads_only_trans [OF ro] by (auto simp: gave_up_def)
    ultimately show thesis using that m ro Inr by (simp add: reads_only_def)
  qed
qed

text \<open>The parts of a replace: the new contents, all of them values, and the writes.\<close>

definition replace_writes :: "object \<Rightarrow> object \<Rightarrow> object \<Rightarrow> bytes \<Rightarrow> bytes \<Rightarrow> bytes \<Rightarrow> ('f, 'e, nat set) pager_act" where
  "replace_writes ro bo io records blob index =
     and_then (object_rewrite ro records) (\<lambda>ro'. and_then (object_rewrite bo blob) (\<lambda>bo'.
     and_then (object_rewrite io index) (\<lambda>io'. and_then flush_header (\<lambda>_.
       ret (set (owned_pages ro') \<union> set (owned_pages bo') \<union> set (owned_pages io'))))))"

definition replace_contents ::
  "config_row list \<Rightarrow> collation \<Rightarrow> object \<Rightarrow> object \<Rightarrow> object \<Rightarrow> bytes \<Rightarrow> ('f, 'e, nat set) pager_act" where
  "replace_contents rows coll ro bo io i0 =
     and_then (of_result (row_keys coll rows [] [])) (\<lambda>keys.
     and_then (of_result (build (map cr_binary rows) (ob_len bo div BLOCK))) (\<lambda>(blob, refs).
     and_then (of_result (replaced_records rows refs (ob_len ro div RECORD))) (\<lambda>records.
     and_then (\<lambda>p. of_result (index_rebuild i0 (pg_page_size p)
         (map (\<lambda>(i, key). ((i mod 2 ^ 32 + 1) mod 2 ^ 32, key)) (enumerate 0 keys))) p)
       (replace_writes ro bo io records blob))))"

lemma config_replace_parts:
  "config_replace t rows coll = and_then (of_result (check_layout t)) (\<lambda>_.
     and_then (object_open (tb_records_page t)) (\<lambda>ro. and_then (object_open (tb_blob_page t)) (\<lambda>bo.
     and_then (object_open (tb_index_page t)) (\<lambda>io. and_then (object_read_all io) (replace_contents rows coll ro bo io)))))"
  unfolding config_replace_def replace_contents_def replace_writes_def ..

lemma of_result_step:
  assumes "and_then (of_result v) f p = (r, p')" and "\<not> gave_up disk contents p r p'" and "pager_ok disk contents p"
  obtains x where "v = Ok x" "f x p = (r, p')"
proof (cases v)
  case (Inl e)
  then have "r = Err e" "p' = p" using assms(1) by (auto simp: and_then_def of_result_def)
  then show thesis using assms(2,3) by (simp add: gave_up_def reads_only_refl)
next
  case (Inr x)
  then show thesis using that assms(1) by (simp add: and_then_def of_result_def)
qed

lemma contents_order:
  assumes run: "replace_contents rows coll ro bo io i0 p = (r, p')" and ok: "pager_ok disk contents p"
    and few: "length rows \<le> u32_max" and not: "\<not> gave_up disk contents p r p'"
  shows "\<exists>new. replacement rows coll (pg_page_size p) (ro, bo, io) i0 new"
proof -
  obtain keys where keys: "row_keys coll rows [] [] = Ok keys" and
    run1: "and_then (of_result (build (map cr_binary rows) (ob_len bo div BLOCK))) (\<lambda>(blob, refs).
     and_then (of_result (replaced_records rows refs (ob_len ro div RECORD))) (\<lambda>records.
     and_then (\<lambda>p. of_result (index_rebuild i0 (pg_page_size p)
         (map (\<lambda>(i, key). ((i mod 2 ^ 32 + 1) mod 2 ^ 32, key)) (enumerate 0 keys))) p)
       (replace_writes ro bo io records blob))) p = (r, p')"
    by (rule of_result_step [OF run [unfolded replace_contents_def] not ok])
  obtain built where built: "build (map cr_binary rows) (ob_len bo div BLOCK) = Ok built"
    and run2: "(case built of (blob, refs) \<Rightarrow>
     and_then (of_result (replaced_records rows refs (ob_len ro div RECORD))) (\<lambda>records.
     and_then (\<lambda>p. of_result (index_rebuild i0 (pg_page_size p)
         (map (\<lambda>(i, key). ((i mod 2 ^ 32 + 1) mod 2 ^ 32, key)) (enumerate 0 keys))) p)
       (replace_writes ro bo io records blob))) p = (r, p')"
    by (rule of_result_step [OF run1 not ok])
  obtain blob refs where br: "built = (blob, refs)" by (cases built)
  obtain records where records: "replaced_records rows refs (ob_len ro div RECORD) = Ok records"
    and run3: "and_then (\<lambda>p. of_result (index_rebuild i0 (pg_page_size p)
         (map (\<lambda>(i, key). ((i mod 2 ^ 32 + 1) mod 2 ^ 32, key)) (enumerate 0 keys))) p)
       (replace_writes ro bo io records blob) p = (r, p')"
    by (rule of_result_step [OF run2 [unfolded br prod.case] not ok])
  have "length keys \<le> u32_max" using length_keys [OF keys] few by simp
  note run4 = run3 [unfolded and_then_rebuild numbered_keys_eq [OF this]]
  obtain index where index: "index_rebuild i0 (pg_page_size p) (numbered_keys keys) = Ok index"
    by (rule of_result_step [OF run4 not ok])
  show ?thesis using keys built records index unfolding replacement_def br by auto
qed

context backing_file
begin

lemma replace_order:
  assumes run: "config_replace t rows coll p = (r, p')" and ok: "pager_ok disk contents p"
    and held: "table_holds contents p t obs r0 b0 i0" and few: "length rows \<le> u32_max"
    and not: "\<not> gave_up disk contents p r p'"
  shows "\<exists>new. replacement rows coll (pg_page_size p) obs i0 new"
proof -
  obtain ro bo io where obs: "obs = (ro, bo, io)" by (cases obs)
  note h = held [unfolded table_holds_def obs prod.case]
  have st: "stored contents p ro r0" "stored contents p bo b0" "stored contents p io i0"
    and hp: "ob_header_page ro = tb_records_page t" "ob_header_page bo = tb_blob_page t" "ob_header_page io = tb_index_page t"
    using h by blast+
  obtain u p0 where r0: "reads_only disk contents p p0"
    and run0: "and_then (object_open (tb_records_page t)) (\<lambda>ro. and_then (object_open (tb_blob_page t)) (\<lambda>bo.
      and_then (object_open (tb_index_page t)) (\<lambda>io. and_then (object_read_all io) (replace_contents rows coll ro bo io)))) p0 = (r, p')"
    and ok0: "pager_ok disk contents p0" and not0: "\<not> gave_up disk contents p0 r p'"
    by (rule quiet_step [OF run [unfolded config_replace_parts] not quiet_of_result ok])
  obtain ro1 p1 where o1: "object_open (tb_records_page t) p0 = (Ok ro1, p1)" "reads_only disk contents p0 p1"
    and run1: "and_then (object_open (tb_blob_page t)) (\<lambda>bo.
      and_then (object_open (tb_index_page t)) (\<lambda>io. and_then (object_read_all io) (replace_contents rows coll ro1 bo io))) p1 = (r, p')"
    and ok1: "pager_ok disk contents p1" and not1: "\<not> gave_up disk contents p1 r p'"
    by (rule quiet_step [OF run0 not0 quiet_object_open ok0])
  obtain bo1 p2 where o2: "object_open (tb_blob_page t) p1 = (Ok bo1, p2)" "reads_only disk contents p1 p2"
    and run2: "and_then (object_open (tb_index_page t)) (\<lambda>io. and_then (object_read_all io) (replace_contents rows coll ro1 bo1 io)) p2 = (r, p')"
    and ok2: "pager_ok disk contents p2" and not2: "\<not> gave_up disk contents p2 r p'"
    by (rule quiet_step [OF run1 not1 quiet_object_open ok1])
  obtain io1 p3 where o3: "object_open (tb_index_page t) p2 = (Ok io1, p3)" "reads_only disk contents p2 p3"
    and run3: "and_then (object_read_all io1) (replace_contents rows coll ro1 bo1 io1) p3 = (r, p')"
    and ok3: "pager_ok disk contents p3" and not3: "\<not> gave_up disk contents p3 r p'"
    by (rule quiet_step [OF run2 not2 quiet_object_open ok2])
  obtain i1 p4 where o4: "object_read_all io1 p3 = (Ok i1, p4)" "reads_only disk contents p3 p4"
    and run4: "replace_contents rows coll ro1 bo1 io1 i1 p4 = (r, p')"
    and ok4: "pager_ok disk contents p4" and not4: "\<not> gave_up disk contents p4 r p'"
    by (rule quiet_step [OF run3 not3 quiet_read_all ok3])
  have r1: "reads_only disk contents p p1" by (rule reads_only_trans [OF r0 o1(2)])
  have r2: "reads_only disk contents p p2" by (rule reads_only_trans [OF r1 o2(2)])
  have r3: "reads_only disk contents p p3" by (rule reads_only_trans [OF r2 o3(2)])
  have r4: "reads_only disk contents p p4" by (rule reads_only_trans [OF r3 o4(2)])
  have same: "ro1 = ro" "bo1 = bo" "io1 = io"
    by (rule object_open_Ok(1) [OF o1(1) [folded hp] ok0 reads_only_stored [OF r0 st(1)]],
        rule object_open_Ok(1) [OF o2(1) [folded hp] ok1 reads_only_stored [OF r1 st(2)]],
        rule object_open_Ok(1) [OF o3(1) [folded hp] ok2 reads_only_stored [OF r2 st(3)]])
  have i1: "i1 = i0" by (rule read_all_Ok(1) [OF o4(1) [unfolded same] reads_only_stored [OF r3 st(3)] ok3])
  show ?thesis
    using contents_order [OF run4 [unfolded same i1] ok4 few not4] by (simp add: obs reads_only_size [OF r4])
qed

end

section \<open>Properties\<close>

definition tables_apart :: "object \<times> object \<times> object \<Rightarrow> object \<times> object \<times> object \<Rightarrow> bool" where
  "tables_apart obs others \<longleftrightarrow> (case others of (a, b, c) \<Rightarrow> clear_of obs a \<and> clear_of obs b \<and> clear_of obs c)"

lemma sample_run:
  obtains p obs owned and p' :: "(mem_file, unit) pager" where "sample_state p obs" "config_replace sample_table [sample_row] Russian p = (Ok owned, p')"
proof -
  obtain p obs where s: "sample_state p obs" using sample_exists by blast
  obtain ro bo io where obs: "obs = (ro, bo, io)" by (cases obs)
  note d = s [unfolded sample_state_def obs]
  obtain key where "row_keys Russian [sample_row] [] [] = Ok [key]" using sample_row_keys by blast
  moreover have "index_descriptor two_page_index (pg_page_size p) = Ok (0, 392)" using d two_page_index_fields(2) by simp
  ultimately have "works (config_replace sample_table [sample_row] Russian) p"
    using d sample_layout sample_row_ok two_page_index_fields(3) by (intro mem.replace_works) blast+
  then obtain owned p' where "config_replace sample_table [sample_row] Russian p = (Ok owned, p')" unfolding works_def by blast
  then show thesis by (rule that [OF s])
qed

text \<open>C5: A replace that reports success implements the assignment of the rows.  Whatever the table held, it
  shows the given rows afterwards - each in its record with its value in the blob object, the other records
  free - and an index with one entry per row in the order of the keys.  A table whose objects lie on other
  pages shows what it showed before.\<close>

theorem replace_assigns_rows:
  assumes "backing_file disk contents position" and "pager_ok disk contents p" and "length (pg_header p) = pg_page_size p"
    and "table_holds contents p t obs r0 b0 i0" and "\<forall>row \<in> set rows. row_ok row"
    and "pg_page_count p + 2 * length rows + 2 \<le> u32_max" and "config_replace t rows coll p = (Ok owned, p')"
  shows "\<exists>keys obs'. row_keys coll rows [] [] = Ok keys
      \<and> table_shows contents p' t obs' rows (sort_key snd (numbered_keys keys))
      \<and> (\<forall>t2 obs2 rows2 es2. table_shows contents p t2 obs2 rows2 es2 \<and> tables_apart obs obs2
           \<longrightarrow> table_shows contents p' t2 obs2 rows2 es2 \<and> tables_apart obs' obs2)"
proof -
  note r = backing_file.replace_shows [OF assms(1,7,2,3,4,5,6)]
  obtain keys obs' where k: "row_keys coll rows [] [] = Ok keys" "table_shows contents p' t obs' rows (sort_key snd (numbered_keys keys))"
    and away: "\<forall>other c. stored contents p other c \<and> clear_of obs other \<longrightarrow> stored contents p' other c \<and> clear_of obs' other"
    using r(1) by blast
  have "table_shows contents p' t2 obs2 rows2 es2 \<and> tables_apart obs' obs2"
    if other: "table_shows contents p t2 obs2 rows2 es2 \<and> tables_apart obs obs2" for t2 obs2 rows2 es2
  proof -
    obtain a b c where obs2: "obs2 = (a, b, c)" by (cases obs2)
    obtain records blob index where sh: "check_layout t2 = Ok ()" "table_holds contents p t2 obs2 records blob index"
        "rows_stored records blob rows2" "index_holds (pg_page_size p) index es2"
      using other unfolding table_shows_def by blast
    have "table_holds contents p' t2 obs2 records blob index" and "tables_apart obs' obs2"
      using sh(2) other away unfolding table_holds_def tables_apart_def obs2 prod.case by blast+
    then show ?thesis using sh unfolding table_shows_def r(3) by blast
  qed
  then show ?thesis using k by blast
qed

theorem replace_assigns_rows_witness:
  "\<exists>p obs owned p' key obs'. sample_state p obs \<and> config_replace sample_table [sample_row] Russian p = (Ok owned, p')
     \<and> table_shows mem_bytes p' sample_table obs' [sample_row] [(1, key)]"
proof -
  obtain p obs owned p' where s: "sample_state p obs" and run: "config_replace sample_table [sample_row] Russian p = (Ok owned, p')"
    by (rule sample_run)
  obtain key where key: "row_keys Russian [sample_row] [] [] = Ok [key]" using sample_row_keys by blast
  note d = s [unfolded sample_state_def]
  have "\<exists>keys obs'. row_keys Russian [sample_row] [] [] = Ok keys
      \<and> table_shows mem_bytes p' sample_table obs' [sample_row] (sort_key snd (numbered_keys keys))"
    using replace_assigns_rows [OF mem.backing_file_axioms _ _ _ _ _ run, of obs "[]" "[]" two_page_index] d sample_row_ok by fastforce
  then obtain obs' where "table_shows mem_bytes p' sample_table obs' [sample_row] (sort_key snd (numbered_keys [key]))"
    unfolding key sum.inject by blast
  then have "table_shows mem_bytes p' sample_table obs' [sample_row] [(1, key)]" by (simp add: numbered_keys_def)
  then show ?thesis using s run by blast
qed

text \<open>C33: On a file that does not fail, a replace succeeds for every list of rows with acceptable names, no
  name and part twice, attributes of five digits and values of 32-bit lengths, when the table's layout is the
  known one, its index has the one known key, and the page numbers left take the new contents.\<close>

theorem replace_succeeds:
  assumes "sound_file disk contents position" and "pager_ok disk contents p" and "pg_budget p = None"
    and "check_layout t = Ok ()" and "table_holds contents p t obs r0 b0 i0"
    and "\<forall>row \<in> set rows. row_ok row \<and> length (cr_binary row) \<le> u32_max" and "row_keys coll rows [] [] = Ok keys"
    and "index_descriptor i0 (pg_page_size p) = Ok (root, 392)" and "u32_at i0 8 = 0"
    and "table_room (pg_page_size p) (pg_page_count p) obs i0 rows"
  shows "\<exists>owned p'. config_replace t rows coll p = (Ok owned, p')"
proof -
  obtain ro bo io where obs: "obs = (ro, bo, io)" by (cases obs)
  show ?thesis
    using sound_file.replace_works [OF assms(1-4) assms(5) [unfolded obs] assms(6-9) assms(10) [unfolded obs]]
    unfolding works_def .
qed

theorem replace_succeeds_witness:
  "\<exists>p obs owned p'. sample_state p obs \<and> config_replace sample_table [sample_row] Posix p = (Ok owned, p')"
proof -
  obtain p obs where s: "sample_state p obs" using sample_exists by blast
  note d = s [unfolded sample_state_def]
  obtain k where "config_key Posix [0x61] 0 = Ok k"
    using config_key_succeeds [of "[0x61]" Posix 0] by (auto simp: verified_char_def ascii_lower_def)
  then have keys: "row_keys Posix [sample_row] [] [] = Ok [k]" by (simp add: sample_row_def Let_def)
  have held: "table_holds mem_bytes p sample_table obs [] [] two_page_index" and nb: "pg_budget p = None"
    and ok: "pager_ok mem_backing mem_bytes p" and ps: "pg_page_size p = 4096"
    and room: "table_room (pg_page_size p) (pg_page_count p) obs two_page_index [sample_row]" using d by blast+
  have "\<exists>owned p'. config_replace sample_table [sample_row] Posix p = (Ok owned, p')"
    by (rule replace_succeeds [OF mem.sound_file_axioms ok nb sample_layout held sample_row_ok keys _ two_page_index_fields(3) room])
      (simp add: ps two_page_index_fields(2))
  then show ?thesis using s by blast
qed

text \<open>C34: A replace writes only what is complete.  Either it ends in an error and has changed no page of the
  file - so for rows that \<open>row_keys\<close> refuses, for an index that cannot be read or has another key, for
  values too large - or the records, the values and the index of the new table had all been computed before
  the first page was written.  This holds on every file, also one whose operations fail.\<close>

theorem replace_computes_first:
  assumes "backing_file disk contents position" and "pager_ok disk contents p" and "table_holds contents p t obs r0 b0 i0"
    and "length rows \<le> u32_max" and "config_replace t rows coll p = (r, p')"
  shows "(\<exists>e. r = Err e) \<and> pager_ok disk contents p'
        \<and> (\<forall>n < pg_page_count p. pager_page contents p' n = pager_page contents p n)
      \<or> (\<exists>keys refs records blob index.
           replacement rows coll (pg_page_size p) obs i0 (keys, refs, records, blob, index))"
proof (cases "gave_up disk contents p r p'")
  case True
  then show ?thesis using changed_page by (auto simp: gave_up_def reads_only_def changed_def)
next
  case False
  show ?thesis using backing_file.replace_order [OF assms(1,5,2,3,4) False] by auto
qed

theorem replace_computes_first_witness:
  "\<exists>p obs r p'. sample_state p obs \<and> config_replace sample_table [sample_row, sample_row] Russian p = (Err r, p')
     \<and> (\<forall>n < pg_page_count p. pager_page mem_bytes p' n = pager_page mem_bytes p n)"
proof -
  obtain p obs where s: "sample_state p obs" using sample_exists by blast
  note d = s [unfolded sample_state_def]
  obtain r p' where run: "config_replace sample_table [sample_row, sample_row] Russian p = (r, p')" by fastforce
  have refused: "row_keys Russian [sample_row, sample_row] [] [] \<noteq> Ok keys" for keys
    using row_keys_ids [of Russian "[sample_row, sample_row]" "[]" "[]" keys] by auto
  have ok: "pager_ok mem_backing mem_bytes p" and held: "table_holds mem_bytes p sample_table obs [] [] two_page_index"
    using d by blast+
  have few: "length [sample_row, sample_row] \<le> u32_max" by simp
  have "\<not> replacement [sample_row, sample_row] Russian (pg_page_size p) obs two_page_index new" for new
    using refused by (auto simp: replacement_def split: prod.splits simp del: row_keys.simps)
  then show ?thesis
    using replace_computes_first [OF mem.backing_file_axioms ok held few run] run s by blast
qed

text \<open>Contents of the three objects that show the sample row, and the row stored in a table of its own
  file.\<close>

lemma sample_contents:
  obtains key records blob index where "row_keys Russian [sample_row] [] [] = Ok [key]" "rows_stored records blob [sample_row]"
    "index_holds 4096 index (sort_key snd (numbered_keys [key]))" "length records \<le> 2 ^ 20" "length blob \<le> 2 ^ 20"
    "length index \<le> 24576" "301 dvd length records" "256 dvd length blob"
proof -
  obtain q obs where s: "sample_state q obs" using sample_exists by blast
  obtain ro0 bo0 io0 where obs: "obs = (ro0, bo0, io0)" by (cases obs)
  note d = s [unfolded sample_state_def obs]
  have held: "table_holds mem_bytes q sample_table (ro0, bo0, io0) [] [] two_page_index" and ok: "pager_ok mem_backing mem_bytes q"
    and ps: "pg_page_size q = 4096" using d by blast+
  have len: "ob_len ro0 = 0" "ob_len bo0 = 0" using held by (simp_all add: table_holds_def stored_def)
  obtain key where key: "row_keys Russian [sample_row] [] [] = Ok [key]" using sample_row_keys by blast
  have rok: "\<forall>row \<in> set [sample_row]. row_ok row" using sample_row_ok by blast
  obtain refs records blob index where
    new: "replacement [sample_row] Russian 4096 (ro0, bo0, io0) two_page_index ([key], refs, records, blob, index)"
    using replacement_total [OF key rok two_page_index_fields(2,3), of bo0 ro0 io0] sample_row_ok
    by (auto simp: sample_row_def blocks_of_def len)
  have room: "pg_page_count q + 2 * length [sample_row] + 2 \<le> u32_max" using d by simp
  note shows_new = mem.replacement_shows [OF new [folded ps] ok held rok room, unfolded ps]
  note sizes = mem.replacement_sizes [OF new [folded ps] ok held rok room, unfolded ps]
  note n = new [unfolded replacement_def prod.case]
  have blob: "build (map cr_binary [sample_row]) (ob_len bo0 div BLOCK) = Ok (blob, refs)"
    and records: "replaced_records [sample_row] refs (ob_len ro0 div RECORD) = Ok records"
    and index: "index_rebuild two_page_index 4096 (numbered_keys [key]) = Ok index" using n by blast+
  have lr: "length records \<le> 2 ^ 20"
    using replaced_records_Ok(1) [OF records _ names_scalar [OF key rok]] build_refs [OF blob] by (simp add: len)
  have lb: "length blob \<le> 2 ^ 20" using build_stores(2) [OF blob] by (simp add: len sample_row_def blocks_of_def)
  have li: "length index \<le> 24576"
    using rebuilt_tree(4) [OF index sizes(6,7,4,5)] by (simp add: numbered_keys_def two_page_index_fields(1))
  have "301 dvd length records" using shows_new by (auto simp: rows_stored_def)
  moreover have "256 dvd length blob" using build_stores(2) [OF blob] by simp
  ultimately show thesis using that [OF key shows_new lr lb li] by blast
qed

lemma stored_sample:
  obtains key ro bo io and p :: "(mem_file, unit) pager" where
    "table_shows mem_bytes p sample_table (ro, bo, io) [sample_row] (sort_key snd (numbered_keys [key]))"
    "row_keys Russian [sample_row] [] [] = Ok [key]" "pager_ok mem_backing mem_bytes p" "pg_budget p = None"
    "pg_page_size p = 4096" "length (pg_header p) = 4096" "pg_page_count p \<le> 1000" "ob_len io \<le> 24576"
proof -
  obtain key records blob index where key: "row_keys Russian [sample_row] [] [] = Ok [key]"
    and shows_new: "rows_stored records blob [sample_row]" "index_holds 4096 index (sort_key snd (numbered_keys [key]))"
    and lr: "length records \<le> 2 ^ 20" and lb: "length blob \<le> 2 ^ 20" and li: "length index \<le> 24576"
    by (rule sample_contents)
  obtain ro bo io and p :: "(mem_file, unit) pager" where h: "table_holds mem_bytes p sample_table (ro, bo, io) records blob index"
    and p: "pager_ok mem_backing mem_bytes p" "pg_budget p = None" "pg_page_size p = 4096" "length (pg_header p) = 4096"
      "pg_page_count p \<le> 1000"
    by (rule table_in_memory [OF lr lb, of index]) (use li in simp_all)
  have "ob_len io = length index" using h by (simp add: table_holds_def stored_def)
  then have "ob_len io \<le> 24576" using li by simp
  moreover have "table_shows mem_bytes p sample_table (ro, bo, io) [sample_row] (sort_key snd (numbered_keys [key]))"
    unfolding table_shows_def p(3) using sample_layout h shows_new by blast
  ultimately show thesis using that key p by blast
qed

text \<open>The same row behind a free record: the table lists it under number 2.\<close>

lemma free_record_before:
  assumes "rows_stored records blob [row]"
  shows "records_hold (page_of 301 records 0 @ (1 # replicate 300 0) @ page_of 301 records 1) blob [(2, row)]"
proof -
  obtain refs tot where len: "length records = tot * 301" "1 < tot"
    and held: "holds_row (page_of 301 records 1) row (refs 0)" "stored_at blob (cr_binary row) (refs 0)"
    and row: "row_ok row" "length (cr_binary row) \<le> u64_max"
    using assms unfolding rows_stored_def by auto
  have "(1 + 1) * 301 \<le> tot * 301" using len(2) by (intro mult_le_mono1) simp
  then have l: "length (page_of 301 records 0) = 301" "length (page_of 301 records 1) = 301" using len(1) by (simp_all add: length_page_of)
  let ?r = "page_of 301 records 0 @ (1 # replicate 300 0) @ page_of 301 records 1"
  have "page_of 301 ?r 1 = 1 # replicate 300 0" "page_of 301 ?r 2 = page_of 301 records 1"
    using l by (simp_all add: page_of_def slice_def)
  then have p: "page_of 301 ?r 1 ! 0 = 1" "page_of 301 ?r 2 ! 0 = 0" "holds_row (page_of 301 ?r 2) row (refs 0)"
    using held(1) by (simp_all add: holds_row_def)
  have flags: "\<forall>m. 0 < m \<and> m < 3 \<longrightarrow> page_of 301 ?r m ! 0 = 0 \<or> page_of 301 ?r m ! 0 = 1"
  proof (intro allI impI)
    fix m :: nat
    assume "0 < m \<and> m < 3"
    then have "m = 1 \<or> m = 2" by linarith
    then show "page_of 301 ?r m ! 0 = 0 \<or> page_of 301 ?r m ! 0 = 1" using p(1,2) by blast
  qed
  have "[1..<3] = [1, 2 :: nat]" by (simp add: upt_rec)
  then have live: "map fst [(2, row)] = filter (\<lambda>m. page_of 301 ?r m ! 0 = 0) [1..<3]" using p(1,2) by simp
  have "\<forall>(m, row) \<in> set [(2 :: nat, row)]. m < 2 ^ 32 \<and> row_ok row \<and> holds_row (page_of 301 ?r m) row (refs 0)
      \<and> value_at blob (cr_binary row) (refs 0)" using p(3) row(1) stored_value [OF held(2)] by simp
  moreover have "length ?r = 3 * 301" using l by simp
  ultimately show ?thesis
    unfolding records_hold_def using flags live row(2) by (intro exI [of _ 3] exI [of _ "\<lambda>_. refs 0"]) simp
qed

lemma sample_behind_free:
  obtains key ro bo io records blob and p :: "(mem_file, unit) pager" where
    "table_holds mem_bytes p sample_table (ro, bo, io) records blob two_page_index" "records_hold records blob [(2, sample_row)]"
    "config_key Russian (cr_file_name sample_row) (cr_part_no sample_row) = Ok key" "pager_ok mem_backing mem_bytes p"
    "pg_budget p = None" "pg_page_size p = 4096" "length (pg_header p) = 4096" "pg_page_count p \<le> 1000"
proof -
  obtain key records blob where key: "row_keys Russian [sample_row] [] [] = Ok [key]"
    and rows: "rows_stored records blob [sample_row]" and lb: "length blob \<le> 2 ^ 20"
    by (rule sample_contents)
  have "length (page_of 301 records n) \<le> 301" for n by (simp add: page_of_def slice_def)
  then have "length (page_of 301 records 0 @ (1 # replicate 300 0) @ page_of 301 records 1) \<le> 2 ^ 20"
    using add_mono [of "length (page_of 301 records 0)" 301 "length (page_of 301 records 1)" 301] by simp
  then obtain ro bo io and p :: "(mem_file, unit) pager" where
    "table_holds mem_bytes p sample_table (ro, bo, io) (page_of 301 records 0 @ (1 # replicate 300 0) @ page_of 301 records 1) blob two_page_index"
    and p: "pager_ok mem_backing mem_bytes p" "pg_budget p = None" "pg_page_size p = 4096" "length (pg_header p) = 4096"
      "pg_page_count p \<le> 1000"
    by (rule table_in_memory [OF _ lb, of _ two_page_index]) (simp_all add: two_page_index_fields(1))
  moreover have "config_key Russian (cr_file_name sample_row) (cr_part_no sample_row) = Ok key"
    using row_keys_entries [OF key, of True] unfolding listed_from_one [symmetric] entries_of_listed
    by (simp add: entries_of_def from_one_def numbered_keys_def)
  ultimately show thesis using that free_record_before [OF rows] by blast
qed

lemma reindex_sample_works:
  assumes held: "table_holds mem_bytes (p :: (mem_file, unit) pager) sample_table (ro, bo, io) records blob two_page_index"
    and rows: "records_hold records blob [(2, sample_row)]"
    and key: "config_key Russian (cr_file_name sample_row) (cr_part_no sample_row) = Ok key"
    and p: "pager_ok mem_backing mem_bytes p" "pg_budget p = None" "pg_page_size p = 4096" "length (pg_header p) = 4096" "pg_page_count p \<le> 1000"
  shows "\<exists>p'. reindex sample_table Russian p = (Ok (), p') \<and> pager_ok mem_backing mem_bytes p' \<and> pg_budget p' = None"
proof -
  have "ob_len io = 8192" using held two_page_index_fields(1) by (simp add: table_holds_def stored_def)
  then have size: "(ob_len io div 4096 + 2 * length [(2 :: nat, sample_row)] + 2) * 4096 \<le> 2 ^ 20" by simp
  have "works (reindex sample_table Russian) p"
    by (rule mem.works_reindex_held [OF p(1,2) sample_layout held rows, of _ "[(2, key)]" 0])
      (use key p(5) content_fits_small [OF size] content_pages_small [OF size] two_page_index_fields in \<open>simp_all add: p(3) entries_of_def\<close>)
  then obtain p' where run: "reindex sample_table Russian p = (Ok (), p')" unfolding works_def by (metis (full_types) old.unit.exhaust)
  show ?thesis using run mem.reindex_indexes(2,4) [OF run p(1) _ held rows] p(2-5) by auto
qed

lemma two_page_says: "index_says 4096 two_page_index []"
proof -
  have "page_of 4096 two_page_index 0 = [0, 0, 0, 0, 1, 0, 0, 0, 0, 0, 0, 0] @ replicate 4084 0"
    by (simp add: page_of_def slice_def two_page_index_def)
  then have "u16_at (page_of 4096 two_page_index 0) 0 = 0" "u16_at (page_of 4096 two_page_index 0) 2 = 0"
    by (simp_all add: u16_at_def slice_def)
  then have "tree_at two_page_index 4096 392 (Suc 16) (0, Suc (sum_list (map node_pages [])), concat (map node_entries []))"
    by (intro tree_at.branch) (simp_all add: two_page_index_fields(1))
  then show ?thesis
    unfolding index_says_def using two_page_index_fields(1,2) by (intro exI [of _ 0] exI [of _ 392] exI [of _ 1]) simp
qed

lemma reindex_layout: "reindex t coll p = (Ok u, p') \<Longrightarrow> check_layout t = Ok ()"
  by (cases "check_layout t") (simp_all add: reindex_def and_then_def of_result_def)

text \<open>C32: On a file that does not fail, under no budget, reading a table of the known layout returns its live
  rows with their record numbers, wherever free records lie among them and however long the values are, an empty
  value included; and the index reader returns the entries of the tree that its index object holds, in order,
  whoever wrote the pages.  The table that a replace leaves is such a table (\<open>shows_lists\<close>): its rows are
  numbered from 1, and its entries are the ones that it shows.\<close>

theorem shown_table_is_read:
  assumes "sound_file disk contents position" and "pager_ok disk contents p" and "pg_budget p = None"
    and "table_lists contents p t obs nrs es"
  shows "(\<exists>p1. read_records t True p = (Ok (map (\<lambda>(m, row). \<lparr>rr_number = m, rr_row = row\<rparr>) nrs), p1))
    \<and> (\<exists>index p1. and_then (object_open (tb_index_page t)) object_read_all p = (Ok index, p1)
        \<and> (case read_entries_checked index (pg_page_size p) (\<lambda>_. ret ()) s of (Inr out, _) \<Rightarrow> out = es | (Inl e, _) \<Rightarrow> False))"
proof -
  obtain ro bo io where obs: "obs = (ro, bo, io)" by (cases obs)
  obtain records blob index where l: "check_layout t = Ok ()" "table_holds contents p t obs records blob index"
      "records_hold records blob nrs" "index_says (pg_page_size p) index es"
    using assms(4) unfolding table_lists_def by blast
  have io: "stored contents p io index" "ob_header_page io = tb_index_page t"
    using l(2) unfolding table_holds_def obs prod.case by blast+
  obtain p1 where i: "and_then (object_open (tb_index_page t)) object_read_all p = (Ok index, p1)"
    using sound_file.open_read [OF assms(1) io(1) assms(2,3) io(2)] by blast
  have "case read_entries_checked index (pg_page_size p) (\<lambda>_. ret ()) s of (Inr out, _) \<Rightarrow> out = es | (Inl e, _) \<Rightarrow> False"
    using yields_any [OF index_says_reads [OF l(4)], of "\<lambda>_. ret ()" s] by (auto simp: ret_def split: prod.splits sum.splits)
  then show ?thesis
    using i sound_file.held_rows [OF assms(1) l(1-3) assms(2,3), of True] by (simp add: listed_rows_def) blast
qed

theorem shown_table_is_read_witness:
  "\<exists>p1 p2. read_records sample_table True (p1 :: (mem_file, unit) pager) = (Ok [\<lparr>rr_number = 2, rr_row = sample_row\<rparr>], p2)"
proof -
  obtain key ro bo io records blob and p :: "(mem_file, unit) pager" where
    held: "table_holds mem_bytes p sample_table (ro, bo, io) records blob two_page_index"
    and rows: "records_hold records blob [(2, sample_row)]" and p: "pager_ok mem_backing mem_bytes p" "pg_budget p = None" "pg_page_size p = 4096"
    by (rule sample_behind_free)
  have "table_lists mem_bytes p sample_table (ro, bo, io) [(2, sample_row)] []"
    unfolding table_lists_def p(3) using sample_layout held rows two_page_says by blast
  from shown_table_is_read [OF mem.sound_file_axioms p(1,2) this, of "()"] show ?thesis by auto
qed

text \<open>C35: Reindexing keeps the rows of a table and gives the index the entries that the rows have: the number
  of each live record with the key of its row's name and part under the collation, in the order of the keys.  It
  says so for every reindex that reports success on a table whose live records hold rows of the known layout -
  free records may lie anywhere, before the live ones too, values may be empty, and the index may hold anything,
  also what is no index tree - in a file whose pages can be numbered with the new index in it.  The layout itself
  is checked by the code.  Neither the file nor a budget is assumed away: any backing file that keeps what it was
  given will do, also one that fails at times.  The objects of records and values keep their bytes, the index then
  says those entries to every reader, and every object on other pages is as it was.  For rows that a replace wrote these are the entries the replace
  wrote.\<close>

theorem reindex_keeps_rows:
  assumes "backing_file disk contents position" and "pager_ok disk contents p" and "length (pg_header p) = pg_page_size p"
    and "table_holds contents p t obs records blob index" and "records_hold records blob nrs"
    and "pg_page_count p + 2 * length nrs + 2 \<le> u32_max" and "reindex t coll p = (Ok u, p')"
  shows "\<exists>es obs' index'. list_all2 (\<lambda>(m, row) (n, key). n = m \<and> config_key coll (cr_file_name row) (cr_part_no row) = Ok key) nrs es
      \<and> table_holds contents p' t obs' records blob index' \<and> table_lists contents p' t obs' nrs (sort_key snd es)
      \<and> index_says (pg_page_size p') index' (sort_key snd es)
      \<and> (\<forall>other c. stored contents p other c \<and> clear_of obs other \<longrightarrow> stored contents p' other c \<and> clear_of obs' other)
      \<and> (\<forall>rows written. nrs = from_one rows \<and> row_keys coll rows [] [] = Ok written \<longrightarrow> es = numbered_keys written)"
proof -
  obtain es obs' index' where r: "entries_of coll nrs es" "table_holds contents p' t obs' records blob index'"
      "index_holds (pg_page_size p) index' (sort_key snd es)"
      "\<forall>other c. stored contents p other c \<and> clear_of obs other \<longrightarrow> stored contents p' other c \<and> clear_of obs' other"
    using backing_file.reindex_indexes(1) [OF assms(1,7,2-6)] by blast
  have says: "index_says (pg_page_size p') index' (sort_key snd es)"
    unfolding backing_file.reindex_indexes(3) [OF assms(1,7,2-6)] by (rule index_holds_says [OF r(3)]) (use assms(2) in \<open>simp_all add: pager_ok_def\<close>)
  have "es = numbered_keys written" if "nrs = from_one rows" "row_keys coll rows [] [] = Ok written" for rows written
    using row_keys_entries [OF that(2), of True] r(1) [folded entries_of_listed [where w = True]] by (simp add: that(1) listed_from_one)
  moreover have "check_layout t = Ok ()" by (rule reindex_layout [OF assms(7)])
  ultimately show ?thesis
    using r(1,2,4) says assms(5) unfolding entries_of_def [symmetric] table_lists_def by blast
qed

theorem reindex_keeps_rows_witness:
  "\<exists>p p' obs key. reindex sample_table Russian (p :: (mem_file, unit) pager) = (Ok (), p')
     \<and> table_lists mem_bytes p' sample_table obs [(2, sample_row)] [(2, key)]"
proof -
  obtain key ro bo io records blob and p :: "(mem_file, unit) pager" where
    held: "table_holds mem_bytes p sample_table (ro, bo, io) records blob two_page_index"
    and rows: "records_hold records blob [(2, sample_row)]"
    and key: "config_key Russian (cr_file_name sample_row) (cr_part_no sample_row) = Ok key"
    and p: "pager_ok mem_backing mem_bytes p" "pg_budget p = None" "pg_page_size p = 4096" "length (pg_header p) = 4096"
      "pg_page_count p \<le> 1000"
    by (rule sample_behind_free)
  obtain p' where run: "reindex sample_table Russian p = (Ok (), p')"
    using reindex_sample_works [OF held rows key p] by blast
  obtain es obs' where "list_all2 (\<lambda>(m, row) (n, key). n = m \<and> config_key Russian (cr_file_name row) (cr_part_no row) = Ok key) [(2, sample_row)] es"
      "table_lists mem_bytes p' sample_table obs' [(2, sample_row)] (sort_key snd es)"
    using reindex_keeps_rows [OF mem.backing_file_axioms p(1) _ held rows _ run] p by auto
  then have "table_lists mem_bytes p' sample_table obs' [(2, sample_row)] [(2, key)]"
    using key by (auto simp: list_all2_Cons1)
  then show ?thesis using run by blast
qed

end
