(* ===== verification/Filedb_Session.thy ===== *)
theory Filedb_Session
  imports Filedb_Config
begin

text \<open>
  \<open>crates/ibcmd-filedb/src/lib.rs\<close>: an open file infobase (\<open>FileDb\<close>), the write session, and the copy that
  a replace writes and checks.  The operating system answers where a file is opened, locked or given an
  holder; those answers are arguments.
\<close>

section \<open>Tables of a file\<close>

definition CONFIG_TABLES :: "ustr list" where
  "CONFIG_TABLES = [ascii ''CONFIG'', ascii ''CONFIGSAVE'', ascii ''PARAMS'', ascii ''FILES'',
     ascii ''CONFIGCAS'', ascii ''CONFIGCASSAVE'']"

definition config_table :: "tables \<Rightarrow> ustr \<Rightarrow> db_error + table" where
  "config_table tabs table_name =
     (case tabs table_name of
        None \<Rightarrow> Err (Db_Refused (In_Session (No_Table table_name)))
      | Some t \<Rightarrow> try_res (check_layout t) (\<lambda>_. Ok t))"

definition read_rows :: "tables \<Rightarrow> ustr \<Rightarrow> bool \<Rightarrow> ('f, 'e, config_row list) pager_act" where
  "read_rows tabs table_name with_binary =
     and_then (of_result (config_table tabs table_name)) (\<lambda>t.
     and_then (read_records t with_binary) (\<lambda>records. ret (map rr_row records)))"

text \<open>The closure that \<open>index_entries\<close> passes on; \<open>size_of::<(u32, Vec<u8>)>()\<close> is 32 on a 64-bit target.\<close>

definition entries_check :: "nat \<Rightarrow> ('f, 'e, unit) pager_act" where
  "entries_check key_len =
     and_then check_read (\<lambda>_.
       if key_len \<noteq> 0
       then and_then (materialize_record 0) (\<lambda>_. materialize_object (key_len * 2 + 32))
       else ret ())"

definition index_entries :: "tables \<Rightarrow> ustr \<Rightarrow> ('f, 'e, index_entry list) pager_act" where
  "index_entries tabs table_name =
     and_then (of_result (config_table tabs table_name)) (\<lambda>t.
     and_then (object_open (tb_index_page t)) (\<lambda>object.
     and_then (object_read_all object) (\<lambda>data p.
       read_entries_checked data (pg_page_size p) entries_check p)))"

text \<open>The position of the first pair that differs, else the length of the shorter list.\<close>

definition first_difference :: "'a list \<Rightarrow> 'a list \<Rightarrow> nat" where
  "first_difference actual expected = length (takeWhile (\<lambda>(a, b). a = b) (zip actual expected))"

definition verify_index :: "tables \<Rightarrow> ustr \<Rightarrow> collation \<Rightarrow> ('f, 'e, nat) pager_act" where
  "verify_index tabs table_name coll =
     and_then (of_result (config_table tabs table_name)) (\<lambda>t.
     and_then (read_records t False) (\<lambda>records.
     and_then (of_result (record_entries coll records)) (\<lambda>entries.
       let expected = sort_key snd entries in
       and_then (index_entries tabs table_name) (\<lambda>actual.
         if actual \<noteq> expected
         then fail (corrupt (In_Session (Index_Differs table_name (length actual) (length expected)
                (first_difference actual expected))))
         else ret (length actual)))))"

definition known_collation :: "ustr \<Rightarrow> db_error + collation" where
  "known_collation locale_name =
     (case collation_for_locale locale_name of
        None \<Rightarrow> Err (Db_Refused (In_Session (Collation_Unknown locale_name)))
      | Some coll \<Rightarrow> Ok coll)"

section \<open>Reading an infobase\<close>

record ('f, 'e) file_db =
  db_pager :: "('f, 'e) pager"
  db_locale :: ustr
  db_tables :: tables

text \<open>\<open>from_locked_file_budget\<close>; \<open>is_file\<close> is what the metadata of the descriptor says.\<close>

definition db_open :: "bool \<Rightarrow> 'f backing \<Rightarrow> 'f \<Rightarrow> 'e read_budget option \<Rightarrow> db_error + ('f, 'e) file_db" where
  "db_open is_file disk f budget =
     (if \<not> is_file then Err (Db_Refused (In_Session Not_A_File))
      else
        try_res (pager_new disk f) (\<lambda>p.
          case descr_read_tables (set_read_budget budget p) of
            (Inl e, _) \<Rightarrow> Err e
          | (Inr (locale_name, tabs), p') \<Rightarrow>
              Ok \<lparr>db_pager = p', db_locale = locale_name, db_tables = tabs\<rparr>))"

text \<open>An operation that borrows the pager and the tables.\<close>

definition on_db :: "(tables \<Rightarrow> ('f, 'e, 'a) pager_act) \<Rightarrow> (('f, 'e) file_db, 'a) act" where
  "on_db m db = (case m (db_tables db) (db_pager db) of (r, p) \<Rightarrow> (r, db\<lparr>db_pager := p\<rparr>))"

definition db_config_rows :: "ustr \<Rightarrow> (('f, 'e) file_db, config_row list) act" where
  "db_config_rows table_name = on_db (\<lambda>tabs. read_rows tabs table_name True)"

definition db_config_headers :: "ustr \<Rightarrow> (('f, 'e) file_db, config_row list) act" where
  "db_config_headers table_name = on_db (\<lambda>tabs. read_rows tabs table_name False)"

definition db_index_entries :: "ustr \<Rightarrow> (('f, 'e) file_db, index_entry list) act" where
  "db_index_entries table_name = on_db (\<lambda>tabs. index_entries tabs table_name)"

definition db_verify_index :: "ustr \<Rightarrow> (('f, 'e) file_db, nat) act" where
  "db_verify_index table_name db =
     and_then (of_result (known_collation (db_locale db))) (\<lambda>coll.
       on_db (\<lambda>tabs. verify_index tabs table_name coll)) db"

text \<open>The saturating arithmetic is at 64 bits.\<close>

definition saturated :: "nat \<Rightarrow> nat" where
  "saturated n = min n u64_max"

definition config_rows_bounded :: "ustr \<Rightarrow> nat \<Rightarrow> nat \<Rightarrow> (('f, 'e) file_db, config_row list) act" where
  "config_rows_bounded table_name max_bytes max_rows = on_db (\<lambda>tabs.
     and_then (of_result (config_table tabs table_name)) (\<lambda>t.
     and_then (object_open (tb_records_page t)) (\<lambda>records.
     and_then (object_open (tb_blob_page t)) (\<lambda>blobs.
       let row_budget = saturated (saturated (max_rows + 1) * record_size t) in
       if ob_len records > row_budget \<or> saturated (ob_len records + ob_len blobs) > max_bytes
       then fail (Db_Refused (In_Session (Storage_Over_Budget table_name)))
       else
         and_then (read_records_bounded t True max_bytes) (\<lambda>rows. ret (map rr_row rows))))))"

section \<open>The write session\<close>

text \<open>\<open>ws_read\<close> is \<open>Read::read\<close> of the file: at most so many bytes, none at the end.\<close>

record ('f, 'e) write_session =
  ws_disk :: "'f backing"
  ws_read :: "'f \<Rightarrow> nat \<Rightarrow> (io_error_kind + bytes) \<times> 'f"
  ws_file :: 'f
  ws_locale :: ustr
  ws_collation :: collation
  ws_tables :: tables
  ws_budget :: "'e read_budget option"

text \<open>The messages of the preflight for a table whose index does not verify.\<close>

definition preflight_error :: "ustr \<Rightarrow> db_error \<Rightarrow> db_error" where
  "preflight_error table_name e =
     (case e of
        Db_Refused reason \<Rightarrow> Db_Refused (Keys_Unmeasured table_name reason)
      | other \<Rightarrow> Db_Refused_Keys other)"

definition map_error :: "(db_error \<Rightarrow> db_error) \<Rightarrow> ('s, 'a) act \<Rightarrow> ('s, 'a) act" where
  "map_error g m s = (case m s of (Inl e, s') \<Rightarrow> (Inl (g e), s') | (Inr x, s') \<Rightarrow> (Inr x, s'))"

primrec preflight :: "tables \<Rightarrow> collation \<Rightarrow> ustr list \<Rightarrow> ('f, 'e, unit) pager_act" where
  "preflight tabs coll [] = ret ()"
| "preflight tabs coll (n # ns) =
     (if tabs n \<noteq> None
      then and_then (map_error (preflight_error n) (verify_index tabs n coll)) (\<lambda>_. preflight tabs coll ns)
      else preflight tabs coll ns)"

definition budget_checked :: "'e read_budget option \<Rightarrow> (db_error + unit) \<times> 'e read_budget option" where
  "budget_checked budget =
     (case budget of
        None \<Rightarrow> (Ok (), None)
      | Some b \<Rightarrow> (case budget_check b of (r, b') \<Rightarrow> (r, Some b')))"

text \<open>\<open>open_for_write_budget\<close> from the guard on; \<open>guarded\<close> is the answer of the caller's guard to the
  metadata of the locked descriptor \<open>f\<close>.\<close>

definition open_for_write ::
  "'f backing \<Rightarrow> ('f \<Rightarrow> nat \<Rightarrow> (io_error_kind + bytes) \<times> 'f) \<Rightarrow> 'f \<Rightarrow> db_error + unit
     \<Rightarrow> 'e read_budget option \<Rightarrow> db_error + ('f, 'e) write_session" where
  "open_for_write disk read f guarded budget =
     try_res guarded (\<lambda>_.
     case budget_checked budget of
       (Inl e, _) \<Rightarrow> Err e
     | (Inr _, budget1) \<Rightarrow>
         try_res (pager_new disk f) (\<lambda>p.
         case and_then descr_read_tables (\<lambda>(locale_name, tabs).
                and_then (of_result (known_collation locale_name)) (\<lambda>coll.
                and_then (preflight tabs coll CONFIG_TABLES) (\<lambda>_. ret (locale_name, coll, tabs))))
              (set_read_budget budget1 p) of
           (Inl e, _) \<Rightarrow> Err e
         | (Inr (locale_name, coll, tabs), p') \<Rightarrow>
             Ok \<lparr>ws_disk = disk, ws_read = read, ws_file = pg_file p', ws_locale = locale_name,
                 ws_collation = coll, ws_tables = tabs, ws_budget = pg_budget p'\<rparr>))"

text \<open>\<open>WriteSession::check_read\<close> and \<open>WriteSession::pager\<close>.\<close>

type_synonym ('f, 'e, 'z, 'a) session_act = "(('f, 'e, 'z) write_session_scheme, 'a) act"

definition session_check_read :: "('f, 'e, 'z, unit) session_act" where
  "session_check_read s = (case budget_checked (ws_budget s) of (r, b) \<Rightarrow> (r, s\<lparr>ws_budget := b\<rparr>))"

definition session_pager :: "'f \<Rightarrow> ('f, 'e, 'z, ('f, 'e) pager) session_act" where
  "session_pager f =
     and_then session_check_read (\<lambda>_ s.
       of_result (try_res (pager_new (ws_disk s) f) (\<lambda>p. Ok (set_read_budget (ws_budget s) p))) s)"

text \<open>An operation through a pager on the locked file, whose clone of the budget is the session's.\<close>

definition with_pager :: "('f, 'e, 'a) pager_act \<Rightarrow> ('f, 'e, 'z, 'a) session_act" where
  "with_pager m s =
     and_then (session_pager (ws_file s)) (\<lambda>p s'.
       case m p of (r, p') \<Rightarrow> (r, s'\<lparr>ws_file := pg_file p', ws_budget := pg_budget p'\<rparr>)) s"

definition session_config_rows :: "ustr \<Rightarrow> ('f, 'e, 'z, config_row list) session_act" where
  "session_config_rows table_name s = with_pager (read_rows (ws_tables s) table_name True) s"

definition session_config_headers :: "ustr \<Rightarrow> ('f, 'e, 'z, config_row list) session_act" where
  "session_config_headers table_name s = with_pager (read_rows (ws_tables s) table_name False) s"

section \<open>The copy\<close>

text \<open>While a replace runs, the session has a second file: the work file, or the backup.\<close>

record ('f, 'e) copy_session = "('f, 'e) write_session" +
  ws_copy :: 'f

type_synonym ('f, 'e, 'a) copy_act = "(('f, 'e) copy_session, 'a) act"

text \<open>\<open>copy_checked\<close> from the locked file; the buffer has a mebibyte.\<close>

partial_function (option) copy_checked ::
  "('f, 'e) copy_session \<Rightarrow> ((db_error + unit) \<times> ('f, 'e) copy_session) option" where
  "copy_checked s =
     (case session_check_read s of
        (Inl e, s1) \<Rightarrow> Some (Err e, s1)
      | (Inr _, s1) \<Rightarrow>
     (case ws_read s1 (ws_file s1) 1048576 of
        (Inl k, f) \<Rightarrow> Some (Err (Db_Io k), s1\<lparr>ws_file := f\<rparr>)
      | (Inr buffer, f) \<Rightarrow>
          if buffer = [] then Some (Ok (), s1\<lparr>ws_file := f\<rparr>)
          else
     (case bk_write_all (ws_disk s1) (ws_copy s1) buffer of
        (Inl k, g) \<Rightarrow> Some (Err (Db_Io k), s1\<lparr>ws_file := f, ws_copy := g\<rparr>)
      | (Inr _, g) \<Rightarrow> copy_checked (s1\<lparr>ws_file := f, ws_copy := g\<rparr>))))"

definition seek_original :: "nat \<Rightarrow> ('f, 'e, unit) copy_act" where
  "seek_original n s =
     (case bk_seek (ws_disk s) (ws_file s) n of
        (Inl k, f) \<Rightarrow> (Err (Db_Io k), s\<lparr>ws_file := f\<rparr>)
      | (Inr _, f) \<Rightarrow> (Ok (), s\<lparr>ws_file := f\<rparr>))"

text \<open>The owners of pages, as positions in a list of names.\<close>

definition claim :: "nat \<Rightarrow> nat \<Rightarrow> page_owner list \<Rightarrow> (nat \<rightharpoonup> nat) \<Rightarrow> db_error + (nat \<rightharpoonup> nat)" where
  "claim page holder owner_names owners =
     (case owners page of
        Some first \<Rightarrow> Err (corrupt (In_Session (Page_Owned_Twice page (owner_names ! first) (owner_names ! holder))))
      | None \<Rightarrow> Ok (owners(page \<mapsto> holder)))"

primrec claim_all :: "nat list \<Rightarrow> nat \<Rightarrow> page_owner list \<Rightarrow> (nat \<rightharpoonup> nat) \<Rightarrow> db_error + (nat \<rightharpoonup> nat)" where
  "claim_all [] holder owner_names owners = Ok owners"
| "claim_all (n # ns) holder owner_names owners =
     try_res (claim n holder owner_names owners) (claim_all ns holder owner_names)"

text \<open>\<open>BTreeMap::values\<close>: in the order of the names.\<close>

definition table_values :: "tables \<Rightarrow> table list" where
  "table_values tabs = map (\<lambda>n. the (tabs n)) (sorted_list_of_set (dom tabs))"

primrec claim_tables ::
  "ustr \<Rightarrow> table list \<Rightarrow> page_owner list \<Rightarrow> nat \<Rightarrow> (nat \<rightharpoonup> nat) \<Rightarrow> ('f, 'e, nat \<times> (nat \<rightharpoonup> nat)) pager_act" where
  "claim_tables target [] owner_names target_owner owners = ret (target_owner, owners)"
| "claim_tables target (t # ts) owner_names target_owner owners =
     (let holder = length owner_names;
          named = owner_names @ [Table_Owner (tb_name t)];
          target_owner' = (if tb_name t = target then holder else target_owner) in
      and_then (table_pages t) (\<lambda>pgs.
      and_then (of_result (claim_all pgs holder named owners)) (\<lambda>owners'.
        claim_tables target ts named target_owner' owners')))"

text \<open>The first part of \<open>write_copy\<close>: the page count, the number of rows, and the pages of others.\<close>

definition examine :: "tables \<Rightarrow> table \<Rightarrow> ('f, 'e, nat \<times> nat \<times> nat set) pager_act" where
  "examine tabs target =
     (let owner_names = [Free_List_Owner, Root_Owner] in
      and_then (of_result (claim 1 0 owner_names (\<lambda>_. None))) (\<lambda>owners1.
      and_then (object_open 2) (\<lambda>root.
      and_then (of_result (claim_all (owned_pages root) 1 owner_names owners1)) (\<lambda>owners2.
      and_then (claim_tables (tb_name target) (table_values tabs) owner_names u32_max owners2)
        (\<lambda>(target_owner, owners).
      and_then (read_records target False) (\<lambda>records p.
        ret (pg_page_count p, length records, {n \<in> dom owners. owners n \<noteq> Some target_owner}) p))))))"

text \<open>The table into the copy; \<open>find\<close> meets the pages in ascending order.\<close>

definition write_table :: "table \<Rightarrow> config_row list \<Rightarrow> collation \<Rightarrow> nat set \<Rightarrow> ('f, 'e, nat set \<times> nat) pager_act" where
  "write_table target rows coll others =
     and_then (config_replace target rows coll) (\<lambda>written.
     and_then pager_sync (\<lambda>_ p.
       if written \<inter> others \<noteq> {}
       then fail (corrupt (In_Session (Page_Taken (tb_name target) (Min (written \<inter> others))))) p
       else ret (written, pg_page_count p) p))"

text \<open>The checks read through two pagers with clones of one budget.\<close>

record ('f, 'e) two_pagers =
  tp_before :: "('f, 'e) pager"
  tp_copy :: "('f, 'e) pager"

definition on_before :: "('f, 'e, 'a) pager_act \<Rightarrow> (('f, 'e) two_pagers, 'a) act" where
  "on_before m w =
     (case m (tp_before w) of
        (r, p) \<Rightarrow> (r, w\<lparr>tp_before := p, tp_copy := set_read_budget (pg_budget p) (tp_copy w)\<rparr>))"

definition on_copy :: "('f, 'e, 'a) pager_act \<Rightarrow> (('f, 'e) two_pagers, 'a) act" where
  "on_copy m w =
     (case m (tp_copy w) of
        (r, p) \<Rightarrow> (r, w\<lparr>tp_copy := p, tp_before := set_read_budget (pg_budget p) (tp_before w)\<rparr>))"

primrec compare_pages :: "ustr \<Rightarrow> nat set \<Rightarrow> nat \<Rightarrow> nat list \<Rightarrow> (('f, 'e) two_pagers, unit) act" where
  "compare_pages table_name written n [] = ret ()"
| "compare_pages table_name written n (page # rest) =
     (if page \<in> written then compare_pages table_name written n rest
      else
        and_then (on_before (read_page_into page n)) (\<lambda>a.
        and_then (on_copy (read_page_into page n)) (\<lambda>b.
          if a \<noteq> b then fail (corrupt (In_Session (Page_Changed page table_name)))
          else compare_pages table_name written n rest)))"

definition read_back :: "ustr \<Rightarrow> config_row list \<Rightarrow> collation \<Rightarrow> ('f, 'e, unit) pager_act" where
  "read_back table_name rows coll =
     and_then descr_read_tables (\<lambda>(_, tabs).
     and_then (read_rows tabs table_name True) (\<lambda>written.
       if written \<noteq> rows then fail (corrupt (In_Session (Rows_Differ table_name)))
       else and_then (verify_index tabs table_name coll) (\<lambda>_. ret ())))"

definition check_copy ::
  "table \<Rightarrow> config_row list \<Rightarrow> collation \<Rightarrow> nat \<Rightarrow> nat set \<Rightarrow> (('f, 'e) two_pagers, unit) act" where
  "check_copy target rows coll pages_before written w =
     and_then (compare_pages (tb_name target) written (pg_page_size (tp_copy w)) [1..<pages_before])
       (\<lambda>_. on_copy (read_back (tb_name target) rows coll)) w"

record replace_report =
  rep_table :: ustr
  rep_rows_before :: nat
  rep_rows_after :: nat
  rep_bytes_after :: nat
  rep_pages_before :: nat
  rep_pages_after :: nat
  rep_backup :: ustr

text \<open>Closing the pagers gives their files and the budget back.\<close>

definition close_copy :: "('f, 'e) pager \<Rightarrow> ('f, 'e) copy_session \<Rightarrow> ('f, 'e) copy_session" where
  "close_copy p s = s\<lparr>ws_copy := pg_file p, ws_budget := pg_budget p\<rparr>"

definition close_both :: "('f, 'e) two_pagers \<Rightarrow> ('f, 'e) copy_session \<Rightarrow> ('f, 'e) copy_session" where
  "close_both w s = close_copy (tp_copy w) (s\<lparr>ws_file := pg_file (tp_before w)\<rparr>)"

definition check_written ::
  "table \<Rightarrow> config_row list \<Rightarrow> nat \<Rightarrow> nat set \<Rightarrow> ('f, 'e) pager \<Rightarrow> ('f, 'e, unit) copy_act" where
  "check_written target rows pages_before written p s =
     (case session_pager (ws_file s) s of
        (Inl e, s1) \<Rightarrow> (Err e, s1)
      | (Inr before, s1) \<Rightarrow>
          (case check_copy target rows (ws_collation s1) pages_before written
                  \<lparr>tp_before = before, tp_copy = set_read_budget (pg_budget before) p\<rparr> of
             (r, w) \<Rightarrow> (r, close_both w s1)))"

definition write_checked :: "table \<Rightarrow> config_row list \<Rightarrow> nat \<Rightarrow> nat set \<Rightarrow> ('f, 'e, nat) copy_act" where
  "write_checked target rows pages_before others s =
     and_then (session_pager (ws_copy s)) (\<lambda>p s1.
       case write_table target rows (ws_collation s1) others p of
         (Inl e, p1) \<Rightarrow> (Err e, close_copy p1 s1)
       | (Inr (written, pages_after), p1) \<Rightarrow>
           and_then (check_written target rows pages_before written p1) (\<lambda>_. ret pages_after) (close_copy p1 s1)) s"

text \<open>\<open>write_copy\<close> after the content is copied.\<close>

definition write_into_copy :: "table \<Rightarrow> config_row list \<Rightarrow> ustr \<Rightarrow> ('f, 'e, replace_report) copy_act" where
  "write_into_copy target rows backup s =
     and_then (with_pager (examine (ws_tables s) target)) (\<lambda>(pages_before, rows_before, others).
     and_then (write_checked target rows pages_before others) (\<lambda>pages_after.
       ret \<lparr>rep_table = tb_name target, rep_rows_before = rows_before, rep_rows_after = length rows,
            rep_bytes_after = sum_list (map (\<lambda>r. length (cr_binary r)) rows),
            rep_pages_before = pages_before, rep_pages_after = pages_after, rep_backup = backup\<rparr>)) s"

text \<open>\<open>write_copy\<close>; \<open>owner_kept\<close> is what \<open>keep_owner_and_mode\<close> answers.  \<open>None\<close>: the copying never ends.\<close>

definition write_copy ::
  "db_error + unit \<Rightarrow> table \<Rightarrow> config_row list \<Rightarrow> ustr \<Rightarrow> ('f, 'e) copy_session
     \<Rightarrow> ((db_error + replace_report) \<times> ('f, 'e) copy_session) option" where
  "write_copy owner_kept target rows backup s =
     (case and_then (seek_original 0) (\<lambda>_. of_result owner_kept) s of
        (Inl e, s1) \<Rightarrow> Some (Err e, s1)
      | (Inr _, s1) \<Rightarrow>
     (case copy_checked s1 of
        None \<Rightarrow> None
      | Some (Inl e, s2) \<Rightarrow> Some (Err e, s2)
      | Some (Inr _, s2) \<Rightarrow> Some (write_into_copy target rows backup s2)))"

text \<open>\<open>rebuild_config_index_in_place\<close> on the locked file.\<close>

definition rebuild_config_index_in_place :: "'f backing \<Rightarrow> 'f \<Rightarrow> ustr \<Rightarrow> (db_error + unit) \<times> 'f" where
  "rebuild_config_index_in_place disk f table_name =
     (case pager_new disk f of
        Inl e \<Rightarrow> (Err e, f)
      | Inr p \<Rightarrow>
          (case and_then descr_read_tables (\<lambda>(locale_name, tabs).
                 and_then (of_result (config_table tabs table_name)) (\<lambda>t.
                 and_then (of_result (known_collation locale_name)) (\<lambda>coll.
                 and_then (reindex t coll) (\<lambda>_. pager_sync)))) (p :: ('f, unit) pager) of
             (r, p') \<Rightarrow> (r, pg_file p')))"

end
