(* ===== verification/Filedb_Publish.thy ===== *)
theory Filedb_Publish
  imports Filedb_Session
begin

text \<open>
  The publication of \<open>crates/ibcmd-filedb/src/lib.rs\<close> (\<open>replace_guarded\<close>, \<open>prepare_backup_file\<close>,
  \<open>publish_files\<close>) over the operations of \<open>write_paths.rs\<close> in one held directory.  The directory maps
  names to files; the operating system may refuse any call, without effect.  Nobody else writes to the
  directory: the lock is held.
\<close>

section \<open>The directory\<close>

text \<open>The file that is locked, the work file, the backup that is copied, and files of earlier runs.\<close>

datatype file_id = Locked_File | Work_Copy | Backup_Copy | Other_File nat

type_synonym directory = "ustr \<rightharpoonup> file_id"

text \<open>The answers of the operating system and of the caller: a fault of a call on a name or on the metadata of
  the locked file, the caller's publication check, the identity of the held directory, and owner and mode of a file.\<close>

record 'o system =
  os_fault :: "'o \<Rightarrow> io_error_kind option \<times> 'o"
  os_gate :: "('o, unit) act"
  os_bound :: "('o, unit) act"
  os_owner :: "('o, unit) act"

text \<open>\<open>pb_seen\<close> lists the states that the directory went through, the states in which a crash can leave it.\<close>

record ('f, 'e, 'o) publication =
  pb_session :: "('f, 'e) copy_session"
  pb_backup :: 'f
  pb_dir :: directory
  pb_seen :: "directory list"
  pb_os :: 'o

type_synonym ('f, 'e, 'o, 'a) pub_act = "(('f, 'e, 'o) publication, 'a) act"

text \<open>A call that may change the directory.\<close>

definition dir_call ::
  "'o system \<Rightarrow> (directory \<Rightarrow> io_error_kind + directory) \<Rightarrow> ('f, 'e, 'o) publication
     \<Rightarrow> (io_error_kind + unit) \<times> ('f, 'e, 'o) publication" where
  "dir_call sys change st =
     (case os_fault sys (pb_os st) of
        (Some k, v) \<Rightarrow> (Inl k, st\<lparr>pb_os := v\<rparr>)
      | (None, v) \<Rightarrow>
          (case change (pb_dir st) of
             Inl k \<Rightarrow> (Inl k, st\<lparr>pb_os := v\<rparr>)
           | Inr d \<Rightarrow> (Inr (), st\<lparr>pb_os := v, pb_dir := d, pb_seen := pb_seen st @ [d]\<rparr>)))"

definition not_found :: io_error_kind where "not_found = OtherErrorKind 2"

text \<open>\<open>open_at\<close> with \<open>O_CREAT\<close> and \<open>O_EXCL\<close>, \<open>linkat\<close>, \<open>renameat\<close> (which does nothing between two names of
  one file) and \<open>unlinkat\<close>.\<close>

definition create_new :: "'o system \<Rightarrow> file_id \<Rightarrow> ustr \<Rightarrow> ('f, 'e, 'o) publication
    \<Rightarrow> (io_error_kind + unit) \<times> ('f, 'e, 'o) publication" where
  "create_new sys i a = dir_call sys (\<lambda>d. if d a \<noteq> None then Inl AlreadyExists else Inr (d(a \<mapsto> i)))"

definition hard_link :: "'o system \<Rightarrow> ustr \<Rightarrow> ustr \<Rightarrow> ('f, 'e, 'o) publication
    \<Rightarrow> (io_error_kind + unit) \<times> ('f, 'e, 'o) publication" where
  "hard_link sys a b = dir_call sys (\<lambda>d.
     case d a of
       None \<Rightarrow> Inl not_found
     | Some i \<Rightarrow> if d b \<noteq> None then Inl AlreadyExists else Inr (d(b \<mapsto> i)))"

definition rename :: "'o system \<Rightarrow> ustr \<Rightarrow> ustr \<Rightarrow> ('f, 'e, 'o) publication
    \<Rightarrow> (io_error_kind + unit) \<times> ('f, 'e, 'o) publication" where
  "rename sys a b = dir_call sys (\<lambda>d.
     case d a of
       None \<Rightarrow> Inl not_found
     | Some i \<Rightarrow> Inr (if d b = Some i then d else (d(a := None))(b \<mapsto> i)))"

definition remove :: "'o system \<Rightarrow> ustr \<Rightarrow> ('f, 'e, 'o) publication
    \<Rightarrow> (io_error_kind + unit) \<times> ('f, 'e, 'o) publication" where
  "remove sys a = dir_call sys (\<lambda>d. if d a = None then Inl not_found else Inr (d(a := None)))"

text \<open>The answers as actions.\<close>

definition answer :: "('o, unit) act \<Rightarrow> ('f, 'e, 'o, unit) pub_act" where
  "answer m st = (case m (pb_os st) of (r, v) \<Rightarrow> (r, st\<lparr>pb_os := v\<rparr>))"

text \<open>\<open>require_leaf\<close> and \<open>require_binding\<close>.\<close>

definition require_leaf :: "'o system \<Rightarrow> ustr \<Rightarrow> file_id \<Rightarrow> ('f, 'e, 'o, unit) pub_act" where
  "require_leaf sys a i st =
     (case os_fault sys (pb_os st) of
        (Some k, v) \<Rightarrow> (Err (Db_Io k), st\<lparr>pb_os := v\<rparr>)
      | (None, v) \<Rightarrow>
          if pb_dir st a = None then (Err (Db_Io not_found), st\<lparr>pb_os := v\<rparr>)
          else if pb_dir st a \<noteq> Some i then (Err (Db_Refused (In_Session Leaf_Changed)), st\<lparr>pb_os := v\<rparr>)
          else (Ok (), st\<lparr>pb_os := v\<rparr>))"

text \<open>\<open>self.file.metadata()\<close>: the result goes to the publication check only.\<close>

definition file_metadata :: "'o system \<Rightarrow> ('f, 'e, 'o, unit) pub_act" where
  "file_metadata sys st =
     (case os_fault sys (pb_os st) of
        (Some k, v) \<Rightarrow> (Err (Db_Io k), st\<lparr>pb_os := v\<rparr>)
      | (None, v) \<Rightarrow> (Ok (), st\<lparr>pb_os := v\<rparr>))"

definition check_binding :: "'o system \<Rightarrow> ustr \<Rightarrow> ('f, 'e, 'o, unit) pub_act" where
  "check_binding sys file_name = and_then (answer (os_bound sys)) (\<lambda>_. require_leaf sys file_name Locked_File)"

section \<open>Steps that may not end\<close>

text \<open>\<open>None\<close>: the copying of a file never ends.\<close>

type_synonym ('s, 'a) loop_act = "'s \<Rightarrow> ((db_error + 'a) \<times> 's) option"

definition once :: "('s, 'a) act \<Rightarrow> ('s, 'a) loop_act" where
  "once m s = Some (m s)"

definition and_next :: "('s, 'a) loop_act \<Rightarrow> ('a \<Rightarrow> ('s, 'b) loop_act) \<Rightarrow> ('s, 'b) loop_act" where
  "and_next m f s =
     (case m s of
        None \<Rightarrow> None
      | Some (Inl e, s') \<Rightarrow> Some (Inl e, s')
      | Some (Inr x, s') \<Rightarrow> f x s')"

text \<open>What is done before an error is returned.\<close>

definition or_clean :: "('s, 'a) loop_act \<Rightarrow> ('s \<Rightarrow> 's) \<Rightarrow> ('s, 'a) loop_act" where
  "or_clean m clean s =
     (case m s of
        None \<Rightarrow> None
      | Some (Inl e, s') \<Rightarrow> Some (Inl e, clean s')
      | Some (Inr x, s') \<Rightarrow> Some (Inr x, s'))"

definition removed :: "'o system \<Rightarrow> ustr \<Rightarrow> ('f, 'e, 'o) publication \<Rightarrow> ('f, 'e, 'o) publication" where
  "removed sys a st = snd (remove sys a st)"

section \<open>The backup\<close>

text \<open>The session whose second file is the backup; \<open>original.seek\<close> and \<open>copy_checked\<close>.\<close>

definition copy_to_backup :: "(('f, 'e, 'o) publication, unit) loop_act" where
  "copy_to_backup st =
     (let s = pb_session st in
      case seek_original 0 (s\<lparr>ws_copy := pb_backup st\<rparr>) of
        (Inl e, s1) \<Rightarrow> Some (Err e, st\<lparr>pb_session := s1\<lparr>ws_copy := ws_copy s\<rparr>\<rparr>)
      | (Inr _, s1) \<Rightarrow>
          (case copy_checked s1 of
             None \<Rightarrow> None
           | Some (r, s2) \<Rightarrow> Some (r, st\<lparr>pb_session := s2\<lparr>ws_copy := ws_copy s\<rparr>, pb_backup := ws_copy s2\<rparr>)))"

definition sync_backup :: "('f, 'e, 'o, unit) pub_act" where
  "sync_backup st =
     (case bk_sync (ws_disk (pb_session st)) (pb_backup st) of
        (Inl k, f) \<Rightarrow> (Err (Db_Io k), st\<lparr>pb_backup := f\<rparr>)
      | (Inr _, f) \<Rightarrow> (Ok (), st\<lparr>pb_backup := f\<rparr>))"

text \<open>\<open>prepare_backup_file\<close>; \<open>created\<close> is a new, empty file.  The result says whether a file was
  copied.\<close>

definition prepare_backup_file :: "'o system \<Rightarrow> 'f \<Rightarrow> ustr \<Rightarrow> ustr \<Rightarrow> (('f, 'e, 'o) publication, bool) loop_act" where
  "prepare_backup_file sys created file_name backup_work st =
     (case hard_link sys file_name backup_work st of
        (Inr _, st1) \<Rightarrow> once (and_then (require_leaf sys backup_work Locked_File) (\<lambda>_. ret False)) st1
      | (Inl _, st1) \<Rightarrow>
     (case create_new sys Backup_Copy backup_work st1 of
        (Inl k, st2) \<Rightarrow>
          Some (Err (if k = AlreadyExists then Db_Refused (In_Session (Backup_Work_Left backup_work)) else Db_Io k), st2)
      | (Inr _, st2) \<Rightarrow>
          or_clean
            (and_next (once (answer (os_owner sys))) (\<lambda>_.
             and_next copy_to_backup (\<lambda>_.
             and_next (once (answer (os_owner sys))) (\<lambda>_.
             and_next (once sync_backup) (\<lambda>_. once (ret True))))))
            (removed sys backup_work) (st2\<lparr>pb_backup := created\<rparr>)))"

definition prepare_backup :: "'o system \<Rightarrow> 'f \<Rightarrow> ustr \<Rightarrow> ustr \<Rightarrow> (('f, 'e, 'o) publication, bool) loop_act" where
  "prepare_backup sys created file_name backup_work =
     and_next (once (check_binding sys file_name)) (\<lambda>_. prepare_backup_file sys created file_name backup_work)"

section \<open>Publishing\<close>

definition publish_files ::
  "'o system \<Rightarrow> ustr \<Rightarrow> ustr \<Rightarrow> ustr \<Rightarrow> ustr \<Rightarrow> ('f, 'e, 'o, unit) pub_act" where
  "publish_files sys work file_name backup_work backup st =
     (case rename sys work file_name st of
        (Inl k, st1) \<Rightarrow> (Err (Db_Io k), removed sys backup_work (removed sys work st1))
      | (Inr _, st1) \<Rightarrow>
          (case rename sys backup_work backup st1 of
             (Inl k, st2) \<Rightarrow> (Err (Db_Published backup_work k), st2)
           | (Inr _, st2) \<Rightarrow> (Ok (), st2)))"

text \<open>The checks before the renames.\<close>

definition final_checks :: "'o system \<Rightarrow> ustr \<Rightarrow> ustr \<Rightarrow> ustr \<Rightarrow> bool \<Rightarrow> ('f, 'e, 'o, unit) pub_act" where
  "final_checks sys file_name work backup_work copied =
     and_then (answer (os_gate sys)) (\<lambda>_.
     and_then (check_binding sys file_name) (\<lambda>_.
     and_then (require_leaf sys work Work_Copy) (\<lambda>_.
     and_then (answer (os_owner sys)) (\<lambda>_.
       if copied
       then and_then (require_leaf sys backup_work Backup_Copy) (\<lambda>_. answer (os_owner sys))
       else require_leaf sys backup_work Locked_File))))"

definition create_work :: "'o system \<Rightarrow> 'f \<Rightarrow> ustr \<Rightarrow> ('f, 'e, 'o, unit) pub_act" where
  "create_work sys created work st =
     (case create_new sys Work_Copy work st of
        (Inl k, st1) \<Rightarrow>
          (Err (if k = AlreadyExists then Db_Refused (In_Session (Work_File_Left work)) else Db_Io k), st1)
      | (Inr _, st1) \<Rightarrow> (Ok (), st1\<lparr>pb_session := (pb_session st1)\<lparr>ws_copy := created\<rparr>\<rparr>))"

definition write_work ::
  "'o system \<Rightarrow> table \<Rightarrow> config_row list \<Rightarrow> ustr \<Rightarrow> (('f, 'e, 'o) publication, replace_report) loop_act" where
  "write_work sys target rows backup st =
     (case os_owner sys (pb_os st) of
        (owner_kept, v) \<Rightarrow>
          map_option (\<lambda>(r, s). (r, st\<lparr>pb_session := s, pb_os := v\<rparr>))
            (write_copy owner_kept target rows backup (pb_session st)))"

definition sibling :: "ustr \<Rightarrow> char list \<Rightarrow> ustr" where
  "sibling file_name suffix = file_name @ ascii suffix"

definition work_name :: "ustr \<Rightarrow> ustr" where "work_name n = sibling n ''.ibcmd-rs.tmp''"
definition backup_name :: "ustr \<Rightarrow> ustr" where "backup_name n = sibling n ''.ibcmd-rs.bak''"
definition backup_work_name :: "ustr \<Rightarrow> ustr" where "backup_work_name n = sibling n ''.ibcmd-rs.bak.new''"

text \<open>\<open>replace_guarded\<close> on a Unix target.  A failure to read the metadata before the last checks returns at once
  and leaves the work files; every other failure before the renames removes what was made; the sync of the directory at the end has no result.\<close>

definition replace_guarded ::
  "'o system \<Rightarrow> 'f \<Rightarrow> ustr \<Rightarrow> ustr \<Rightarrow> config_row list \<Rightarrow> (('f, 'e, 'o) publication, replace_report) loop_act" where
  "replace_guarded sys created file_name table_name rows =
     (let work = work_name file_name; backup = backup_name file_name; backup_work = backup_work_name file_name in
      and_next (once (file_metadata sys)) (\<lambda>_.
      and_next (once (answer (os_gate sys))) (\<lambda>_.
      and_next (once (check_binding sys file_name)) (\<lambda>_.
        if table_name \<notin> set CONFIG_TABLES then once (fail (Db_Refused (In_Session (Table_Not_Written table_name))))
        else
          and_next (\<lambda>st. once (of_result (config_table (ws_tables (pb_session st)) table_name)) st) (\<lambda>target.
          and_next (once (create_work sys created work)) (\<lambda>_.
          and_next (or_clean (write_work sys target rows backup) (removed sys work)) (\<lambda>report.
          and_next (or_clean (prepare_backup sys created file_name backup_work) (removed sys work)) (\<lambda>copied.
          and_next (once (file_metadata sys)) (\<lambda>_.
          and_next (or_clean (once (final_checks sys file_name work backup_work copied))
              (\<lambda>st. removed sys backup_work (removed sys work st))) (\<lambda>_.
          and_next (once (publish_files sys work file_name backup_work backup)) (\<lambda>_.
            once (ret report))))))))))))"

end
