(* ===== verification/Filedb_Row_Type.thy ===== *)
theory Filedb_Row_Type
  imports Filedb_Table_Rows Filedb_Quiet
begin

text \<open>
  The rows that the reader of the configuration tables makes of any file: each is a row that the writer
  accepts, whatever bytes the records hold.
\<close>

section \<open>Numbers and names\<close>

lemma unpack_loop_bounds:
  "unpack_loop bs is n = Ok v \<Longrightarrow> n \<le> u64_max \<Longrightarrow> n < 10 ^ k \<Longrightarrow> v \<le> u64_max \<and> v < 10 ^ (k + length is)"
proof (induction "is" arbitrary: n k)
  case (Cons i "is")
  define nibble where "nibble = (if i mod 2 = 0 then drop_bit 4 (bs ! (i div 2)) else bs ! (i div 2) AND 0x0F)"
  have nine: "\<not> nibble > 9" and ok: "n * 10 + unat nibble \<le> u64_max"
    and rest: "unpack_loop bs is (n * 10 + unat nibble) = Ok v"
    using Cons.prems(1) by (auto simp: nibble_def Let_def checked_mul64_def checked_add64_def split: if_splits)
  have "unat nibble \<le> 9" using nine by (simp add: not_less word_le_nat_alt)
  then have "n * 10 + unat nibble < 10 ^ Suc k" using Cons.prems(3) by simp
  then show ?case using Cons.IH [OF rest ok] by fastforce
qed simp

lemma unpacked_bounds: "unpack_decimal bs digits = Ok v \<Longrightarrow> v \<le> u64_max \<and> v < 10 ^ digits"
  using unpack_loop_bounds [of bs "[1..<digits + 1]" 0 v 0] by (simp add: unpack_decimal_def Let_def split: if_splits)

lemma encoded_length: "from_utf16 us = Some s \<Longrightarrow> length (encode_utf16 s) \<le> length us"
proof (induction us arbitrary: s rule: from_utf16.induct)
  case (2 u us)
  have lt: "unat u < 0x10000" using unsigned_less [where 'b = 16 and 'a = nat, of u] by simp
  show ?case
  proof (cases "unat u < 0xD800 \<or> 0xE000 \<le> unat u")
    case True
    then obtain t where "from_utf16 us = Some t" "s = unat u # t" using "2.prems" by auto
    then show ?thesis using "2.IH"(1) [OF True] lt by (simp add: encode_utf16_def encode_utf16_char_def)
  next
    case False
    then obtain v vs t where us: "us = v # vs" and h: "unat u < 0xDC00" "0xDC00 \<le> unat v" "unat v < 0xE000"
      and t: "from_utf16 vs = Some t" "s = (0x10000 + (unat u - 0xD800) * 0x400 + (unat v - 0xDC00)) # t"
      using "2.prems"(1) by (auto split: if_splits list.splits)
    then show ?thesis using "2.IH"(2) [OF False h(1) us] by (simp add: encode_utf16_def encode_utf16_char_def)
  qed
qed (simp add: encode_utf16_def)

lemma decoded_name:
  assumes "decode_var_string bs limit = Ok s"
  shows "length (encode_utf16 s) \<le> limit" and "\<forall>c \<in> set s. is_scalar c"
proof -
  define n where "n = unat (from_le_bytes [bs ! 0, bs ! 1] :: u16)"
  have n: "n \<le> limit" and s: "from_utf16 (utf16_units (slice 2 (2 + n * 2) bs)) = Some s"
    using assms by (auto simp: decode_var_string_def Let_def n_def ok_or_def split: if_splits option.splits)
  have "length (utf16_units (slice 2 (2 + n * 2) bs)) \<le> n" by (simp add: utf16_units_def length_chunks_exact)
  then show "length (encode_utf16 s) \<le> limit" using encoded_length [OF s] n by simp
  show "\<forall>c \<in> set s. is_scalar c" using from_utf16_scalar [OF s] by blast
qed

section \<open>Rows\<close>

text \<open>A row that the writer takes: its fields are in the ranges of their types and its name and its
  attributes fit their fields.\<close>

definition storable :: "config_row \<Rightarrow> bool" where
  "storable row \<longleftrightarrow> row_ok row \<and> cr_attributes row \<le> 99999 \<and> length (cr_binary row) \<le> u32_max
     \<and> length (encode_utf16 (cr_file_name row)) \<le> 128 \<and> (\<forall>c \<in> set (cr_file_name row). is_scalar c)"

lemma row_of_record_storable:
  assumes r: "row_of_record rec s binary = Ok row" and len: "length rec = 301"
    and s: "length (encode_utf16 s) \<le> 128" "\<forall>c \<in> set s. is_scalar c" and b: "length binary \<le> u32_max"
  shows "storable row"
proof -
  obtain part attributes size where v: "unpack_decimal (slice 295 301 rec) 10 = Ok part" "part \<le> u32_max"
    "unpack_decimal (slice 273 276 rec) 5 = Ok attributes" "unpack_decimal (slice 276 287 rec) 20 = Ok size"
    and row: "row = \<lparr>cr_file_name = s, cr_part_no = part, cr_creation = slice 259 266 rec,
      cr_modified = slice 266 273 rec, cr_attributes = attributes mod 2 ^ 32, cr_data_size = size, cr_binary = binary\<rparr>"
    using r by (auto simp: row_of_record_def result_simps record_places not_less split: if_splits)
  have a: "attributes < 100000" "size \<le> u64_max" using unpacked_bounds [OF v(3)] unpacked_bounds [OF v(4)] by simp_all
  then have "attributes mod 2 ^ 32 = attributes" by simp
  then show ?thesis using v(2) a s b len by (simp add: storable_def row_ok_def row length_slice)
qed

lemma chain_length: "read_chain_checked obj block (Some n) check st = (Ok bs, st') \<Longrightarrow> length bs = n"
  by (auto simp: read_chain_checked_def read_chain_accounted_def split: prod.splits sum.splits if_splits)

lemma row_binary_length:
  assumes "row_binary t w blob s block len remaining p = (Ok (bs, rest), p')"
  shows "length bs \<le> u32_max"
  using assms unat_u32_le [of len]
  by (auto simp: row_binary_def and_then_Ok ret_Ok fail_def dest!: chain_length split: if_splits option.splits)

lemma live_record_storable:
  fixes p :: "('f, 'e) pager"
  assumes "read_live_record t w blob rec remaining p = (Ok (row, rest), p')" and "length rec = 301"
  shows "storable row"
proof -
  obtain s binary and p1 p2 :: "('f, 'e) pager" where s: "decode_var_string (slice NAME CREATION rec) 128 = Ok s"
    and b: "row_binary t w blob s (from_le_bytes (slice BINARY (BINARY + 4) rec)) (from_le_bytes (slice (BINARY + 4) (BINARY + 8) rec)) remaining p1 = (Ok (binary, rest), p2)"
    and r: "row_of_record rec s binary = Ok row"
    using assms(1) by (auto simp: read_live_record_def and_then_Ok of_result_Ok ret_Ok Let_def)
  show ?thesis by (rule row_of_record_storable [OF r assms(2) decoded_name [OF s] row_binary_length [OF b]])
qed

lemma records_loop_storable:
  "records_loop t w blob nrs remaining out p = (Ok rs, p') \<Longrightarrow> \<forall>nr \<in> set nrs. length (snd nr) = 301 \<Longrightarrow>
     \<forall>r \<in> set out. storable (rr_row r) \<and> rr_number r \<le> u32_max \<Longrightarrow>
     \<forall>r \<in> set rs. storable (rr_row r) \<and> rr_number r \<le> u32_max"
proof (induction nrs arbitrary: remaining out p)
  case (Cons nr nrs)
  obtain p1 where p1: "check_read p = (Ok (), p1)" and run: "(if hd (snd nr) = 0 then
         and_then (read_live_record t w blob (snd nr) remaining) (\<lambda>(row, remaining').
           records_loop t w blob nrs remaining' (out @ [\<lparr>rr_number = fst nr mod 2 ^ 32, rr_row = row\<rparr>]))
       else if hd (snd nr) = 1 then records_loop t w blob nrs remaining out
       else fail (corrupt (In_Config (Record_Flag (tb_name t) (fst nr) (hd (snd nr)))))) p1 = (Ok rs, p')"
    using Cons.prems(1) by (auto simp: and_then_Ok)
  show ?case
  proof (cases "hd (snd nr) = 0")
    case True
    then obtain row rest p2 where live: "read_live_record t w blob (snd nr) remaining p1 = (Ok (row, rest), p2)"
      and next_run: "records_loop t w blob nrs rest (out @ [\<lparr>rr_number = fst nr mod 2 ^ 32, rr_row = row\<rparr>]) p2 = (Ok rs, p')"
      using run by (auto simp: and_then_Ok)
    have "storable row" using live_record_storable [OF live] Cons.prems(2) by simp
    moreover have "fst nr mod 2 ^ 32 \<le> u32_max" using mod_less_divisor [of "2 ^ 32" "fst nr"] by simp
    ultimately show ?thesis using Cons.IH [OF next_run] Cons.prems(2,3) by auto
  next
    case False
    then have "records_loop t w blob nrs remaining out p1 = (Ok rs, p')" using run by (auto split: if_splits)
    from Cons.IH [OF this] show ?thesis using Cons.prems(2,3) by simp
  qed
qed (simp add: ret_Ok)

lemma chunk_exact_length: "0 < n \<Longrightarrow> x \<in> set (chunks_exact n xs) \<Longrightarrow> length x = n"
proof (induction n xs rule: chunks_exact.induct)
  case (1 n xs)
  then show ?case by (subst (asm) chunks_exact.simps) (auto split: if_splits)
qed

lemma read_records_storable:
  assumes "read_records_bounded t w n p = (Ok rs, p')"
  shows "\<forall>r \<in> set rs. storable (rr_row r) \<and> rr_number r \<le> u32_max"
proof -
  obtain records blob p1 where
    run: "records_loop t w blob (drop 1 (enumerate 0 (chunks_exact RECORD records))) n [] p1 = (Ok rs, p')"
    using assms by (auto simp: read_records_bounded_def and_then_Ok of_result_Ok split: if_splits)
  have "\<forall>nr \<in> set (drop 1 (enumerate 0 (chunks_exact RECORD records))). length (snd nr) = 301"
    using chunk_exact_length [of 301 _ records] by (auto simp: record_places in_set_enumerate_eq dest!: in_set_dropD)
  then show ?thesis using records_loop_storable [OF run] by simp
qed

end
