(* ===== verification/Filedb_Session_Quiet.thy ===== *)
theory Filedb_Session_Quiet
  imports Filedb_Session Filedb_Row_Type
begin

text \<open>
  Reading the catalogue of a file, its indexes and the pages of its tables changes no byte of it, whatever
  fails.
\<close>

section \<open>Chains and descriptions\<close>

lemma chain_loop_keeps:
  "(\<And>st n r st'. I st \<Longrightarrow> before_copy st n = (r, st') \<Longrightarrow> I st') \<Longrightarrow> I st \<Longrightarrow>
     blob_chain_loop obj expected before_copy block steps out st = (r, st') \<Longrightarrow> I st'"
proof (induction obj expected before_copy block steps out st arbitrary: r rule: blob_chain_loop.induct)
  case (1 obj expected before_copy block steps out st)
  note run = "1.prems"(3) [unfolded blob_chain_loop.simps [of obj expected before_copy block steps out st]]
  show ?case
    using run "1.IH" "1.prems"(1,2)
    by (auto simp: Let_def split: if_splits sum.splits prod.splits option.splits)
qed

lemma chain_keeps:
  assumes step: "\<And>st n r st'. I st \<Longrightarrow> before_copy st n = (r, st') \<Longrightarrow> I st'" and start: "I st"
    and run: "read_chain_accounted obj block expected before_copy st = (r, st')"
  shows "I st'"
proof -
  obtain x st1 where one: "before_copy st 0 = (x, st1)" by (cases "before_copy st 0")
  obtain y st2 where loop: "blob_chain_loop obj expected before_copy (unat block) 0 [] st1 = (y, st2)"
    by (cases "blob_chain_loop obj expected before_copy (unat block) 0 [] st1")
  have "I st1" by (rule step [OF start one])
  moreover have "I st2" by (rule chain_loop_keeps [of I, OF step \<open>I st1\<close> loop])
  ultimately show ?thesis
    using run one loop by (auto simp: read_chain_accounted_def split: sum.splits option.splits if_splits)
qed

context backing_file
begin

lemma quiet_metadata_chain: "quiet disk contents (read_metadata_chain obj start)"
proof (rule quietI)
  fix p :: "('f, 'e) pager" and r p'
  assume ok: "pager_ok disk contents p" and run: "read_metadata_chain obj start p = (r, p')"
  let ?I = "\<lambda>st. reads_only disk contents p (fst st)"
  obtain copied where chain: "read_chain_accounted obj start None (metadata_copy (read_is_bounded p)) (p, 0) = (r, (p', copied))"
    using run by (auto simp: read_metadata_chain_def split: prod.splits)
  have "?I (p', copied)"
  proof (rule chain_keeps [OF _ _ chain])
    fix st n x st' assume I: "?I st" and s: "metadata_copy (read_is_bounded p) st n = (x, st')"
    have charged: "reads_only disk contents p q'" if "materialize_object n (fst st) = (y, q')" for y q'
      using reads_only_trans [OF I quietD [OF quiet_charges(2) _ that]] I by (simp add: reads_only_def)
    show "?I st'"
      using s I charged by (auto simp: metadata_copy_def split: prod.splits option.splits if_splits)
  qed (simp add: reads_only_refl [OF ok])
  then show "reads_only disk contents p p'" by simp
qed

lemma quiet_skip: "quiet disk contents check \<Longrightarrow> quiet disk contents (skip_chars cs check pos)"
proof (induction cs check pos rule: skip_chars.induct)
  case (1 cs check pos)
  then show ?case by (subst skip_chars.simps) (intro quiet_intros)
qed

lemma quiet_quoted: "quiet disk contents check \<Longrightarrow> quiet disk contents (quoted_text cs check pos out)"
proof (induction cs check pos out rule: quoted_text.induct)
  case (1 cs check pos out)
  then show ?case by (subst quoted_text.simps) (intro quiet_intros)
qed

lemma quiet_atom: "quiet disk contents check \<Longrightarrow> quiet disk contents (atom_end cs check pos)"
proof (induction cs check pos rule: atom_end.induct)
  case (1 cs check pos)
  then show ?case by (subst atom_end.simps) (intro quiet_intros)
qed

lemma quiet_items:
  fixes check :: "('f, 'e, unit) pager_act"
  assumes check: "quiet disk contents check" and parse: "\<And>n. quiet disk contents (parse n)"
  shows "quiet disk contents (items_loop parse cs check pos items)"
proof (rule quietI)
  fix p :: "('f, 'e) pager" and r p'
  show "pager_ok disk contents p \<Longrightarrow> items_loop parse cs check pos items p = (r, p') \<Longrightarrow> reads_only disk contents p p'"
    using parse check
  proof (induction parse cs check pos items p arbitrary: r rule: items_loop.induct)
    case (1 parse cs check pos items p)
    obtain x q where s: "skip_chars cs check pos p = (x, q)" by (cases "skip_chars cs check pos p")
    have q: "reads_only disk contents p q" by (rule quietD [OF quiet_skip [OF "1.prems"(4)] "1.prems"(1) s])
    show ?case
    proof (cases "\<exists>pos'. x = Ok pos' \<and> pos' < length cs \<and> cs ! pos' \<noteq> CLOSE")
      case False
      then show ?thesis using "1.prems"(2) s q
        by (subst (asm) items_loop.simps) (auto simp: and_then_def ret_def fail_def split: sum.splits if_splits)
    next
      case True
      then obtain pos' where x: "x = Ok pos'" "pos' < length cs" "cs ! pos' \<noteq> CLOSE" by blast
      obtain y q' where v: "parse pos' q = (y, q')" by (cases "parse pos' q")
      have okq: "pager_ok disk contents q" using q by (simp add: reads_only_def)
      have q': "reads_only disk contents p q'" by (rule reads_only_trans [OF q quietD [OF "1.prems"(3) okq v]])
      then have okq': "pager_ok disk contents q'" by (simp add: reads_only_def)
      show ?thesis
      proof (cases y)
        case (Inl e)
        then show ?thesis using "1.prems"(2) s v x q'
          by (subst (asm) items_loop.simps) (auto simp: and_then_def)
      next
        case (Inr w)
        obtain a pos2 where w: "w = (a, pos2)" by (cases w)
        have "items_loop parse cs check (max pos2 (pos' + 1)) (items @ [a]) q' = (r, p')"
          using "1.prems"(2) s v x Inr w by (subst (asm) items_loop.simps) (simp add: and_then_def)
        then have "reads_only disk contents q' p'"
          using "1.IH" [OF s [unfolded x(1)] x(2,3) okq' _ "1.prems"(3,4)] by blast
        then show ?thesis by (rule reads_only_trans [OF q'])
      qed
    qed
  qed
qed

lemma quiet_parse_value: "quiet disk contents check \<Longrightarrow> quiet disk contents (parse_value n cs check pos)"
proof (induction n arbitrary: pos)
  case 0
  then show ?case by (simp add: quiet_and_then quiet_fail)
next
  case (Suc n)
  note i = quiet_items [OF Suc.prems, of "parse_value n cs check"]
  show ?case unfolding parse_value.simps
    by (intro quiet_intros quiet_skip quiet_quoted quiet_atom i Suc)
qed

lemma quiet_check_each: "quiet disk contents check \<Longrightarrow> quiet disk contents (check_each xs check)"
  by (induction xs) (simp_all add: quiet_ret quiet_and_then)

lemma quiet_braces: "quiet disk contents check \<Longrightarrow> quiet disk contents (parse_braces txt check)"
  unfolding parse_braces_def by (intro quiet_intros quiet_check_each quiet_parse_value)

lemma quiet_table_loop: "quiet disk contents check \<Longrightarrow> quiet disk contents (table_loop tab parts check st)"
proof (induction parts arbitrary: st)
  case (Cons part parts)
  have "quiet disk contents (case table_part tab part st of Inl e \<Rightarrow> fail e | Inr st' \<Rightarrow> table_loop tab parts check st')"
    by (cases "table_part tab part st") (simp_all add: quiet_fail Cons)
  then show ?case unfolding table_loop.simps by (intro quiet_and_then Cons.prems)
qed (simp add: quiet_ret)

lemma quiet_list: "quiet disk contents a \<Longrightarrow> (\<And>x xs. quiet disk contents (f x xs)) \<Longrightarrow> quiet disk contents (case v of [] \<Rightarrow> a | x # xs \<Rightarrow> f x xs)"
  by (cases v) auto

lemma quiet_parse_table: "quiet disk contents check \<Longrightarrow> quiet disk contents (parse_table txt check)"
  unfolding parse_table_def by (intro quiet_intros quiet_braces quiet_table_loop)

lemma quiet_tables_loop: "quiet disk contents (tables_loop obj head ns tabs)"
proof (induction ns arbitrary: tabs)
  case (Cons n ns)
  then show ?case unfolding tables_loop.simps
    by (intro quiet_intros quiet_metadata_chain quiet_parse_table)
qed (simp add: quiet_ret)

lemma quiet_descr: "quiet disk contents descr_read_tables"
  unfolding descr_read_tables_def Let_def
  by (intro quiet_intros quiet_object_open quiet_read_all quiet_metadata_chain quiet_tables_loop)

end

section \<open>Rows, indexes and pages\<close>

context backing_file
begin

lemma quiet_read_rows: "quiet disk contents (read_rows tabs n w)"
  unfolding read_rows_def read_records_def by (intro quiet_intros quiet_read_records)

lemma quiet_leaf_loop:
  "(\<And>n. quiet disk contents (check n)) \<Longrightarrow> quiet disk contents (leaf_loop p kl count l check ks e prev out)"
proof (induction ks arbitrary: e prev out)
  case (Cons k ks)
  show ?case unfolding leaf_loop.simps Let_def by (intro quiet_intros Cons)
qed (simp add: quiet_ret)

lemma quiet_leaf: "(\<And>n. quiet disk contents (check n)) \<Longrightarrow> quiet disk contents (read_leaf p kl count out check)"
  unfolding read_leaf_def Let_def by (intro quiet_intros quiet_leaf_loop)

lemma quiet_index_walk:
  "(\<And>n. quiet disk contents (check n)) \<Longrightarrow> quiet disk contents (index_walk obj ps kl check k stack out)"
proof (induction obj ps kl check k stack out rule: index_walk.induct)
  case (2 obj ps kl check k page depth stack out)
  then show ?case unfolding index_walk.simps Let_def by (intro quiet_intros quiet_leaf) simp_all
qed (simp add: quiet_ret)

lemma quiet_entries_check: "quiet disk contents (entries_check n)"
  unfolding entries_check_def by (intro quiet_intros)

lemma quiet_entries: "quiet disk contents (\<lambda>p. read_entries_checked content (pg_page_size p) entries_check p)"
  by (rule quietI) (auto simp: read_entries_checked_def reads_only_refl split: sum.splits
      dest: quietD [OF quiet_index_walk [OF quiet_entries_check]])

lemma quiet_index_entries: "quiet disk contents (index_entries tabs n)"
  unfolding index_entries_def by (intro quiet_intros quiet_object_open quiet_read_all quiet_entries)

lemma quiet_verify_index: "quiet disk contents (verify_index tabs n coll)"
  unfolding verify_index_def read_records_def Let_def
  by (intro quiet_intros quiet_read_records quiet_index_entries)

lemma quiet_pages_loop: "quiet disk contents (pages_loop hs pgs)"
  by (induction hs arbitrary: pgs) (auto intro!: quiet_intros quiet_object_open)

lemma quiet_claim_tables: "quiet disk contents (claim_tables target ts owner_names tgt owners)"
proof (induction ts arbitrary: owner_names tgt owners)
  case (Cons t ts)
  then show ?case unfolding claim_tables.simps Let_def table_pages_def
    by (intro quiet_intros quiet_pages_loop)
qed (simp add: quiet_ret)

lemma quiet_counted: "quiet disk contents (\<lambda>p. ret (pg_page_count p, n, others) p)"
  by (rule quietI) (auto simp: ret_def reads_only_refl)

lemma quiet_examine: "quiet disk contents (examine tabs target)"
  unfolding examine_def Let_def read_records_def
  by (intro quiet_intros quiet_object_open quiet_claim_tables quiet_read_records quiet_counted)

lemma quiet_read_back: "quiet disk contents (read_back n rows coll)"
  unfolding read_back_def by (intro quiet_intros quiet_descr quiet_read_rows quiet_verify_index)

end

end
