(* ===== verification/Filedb_Claims.thy ===== *)
theory Filedb_Claims
  imports Filedb_Session_Quiet
begin

text \<open>
  The ownership check before a write: when every page is claimed once, the three objects of the table are
  stored, share no page, and every object of another table and the root lie on the pages of others.
\<close>

section \<open>Claims\<close>

lemma claim_all_Ok:
  "claim_all ns holder owner_names owners = Ok owners' \<Longrightarrow>
     distinct ns \<and> set ns \<inter> dom owners = {} \<and> owners' = (\<lambda>n. if n \<in> set ns then Some holder else owners n)"
proof (induction ns arbitrary: owners)
  case (Cons n ns)
  have free: "owners n = None" and rest: "claim_all ns holder owner_names (owners(n \<mapsto> holder)) = Ok owners'"
    using Cons.prems by (auto simp: claim_def result_simps split: option.splits)
  from Cons.IH [OF rest] free show ?case by (auto simp: fun_eq_iff)
qed (simp add: fun_eq_iff)

lemma list_all2_in: "list_all2 P xs ys \<Longrightarrow> x \<in> set xs \<Longrightarrow> \<exists>y \<in> set ys. P x y"
  by (induction rule: list_all2_induct) auto

text \<open>The objects that the header pages of a table open.\<close>

definition opens_as :: "'f backing \<Rightarrow> ('f \<Rightarrow> bytes) \<Rightarrow> ('f, 'e) pager \<Rightarrow> nat \<Rightarrow> object \<Rightarrow> bool" where
  "opens_as disk contents p h ob \<longleftrightarrow> (\<exists>q q'. reads_only disk contents p q \<and> object_open h q = (Ok ob, q'))"

lemma opens_as_reads: "reads_only disk contents p q \<Longrightarrow> opens_as disk contents q h ob \<Longrightarrow> opens_as disk contents p h ob"
  unfolding opens_as_def using reads_only_trans by blast

definition table_heads :: "table \<Rightarrow> nat list" where
  "table_heads t = filter (\<lambda>h. h \<noteq> 0) [tb_records_page t, tb_blob_page t, tb_index_page t]"

definition pages_of :: "object list \<Rightarrow> nat list" where
  "pages_of obs = concat (map owned_pages obs)"

lemma pages_of_simps [simp]: "pages_of [] = []" "pages_of (ob # obs) = owned_pages ob @ pages_of obs"
  by (simp_all add: pages_of_def)

context backing_file
begin

lemma pages_loop_Ok:
  "pages_loop hs pgs p = (Ok out, p') \<Longrightarrow> pager_ok disk contents p \<Longrightarrow>
     \<exists>obs. list_all2 (opens_as disk contents p) (filter (\<lambda>h. h \<noteq> 0) hs) obs \<and> out = pgs @ pages_of obs"
proof (induction hs arbitrary: pgs p)
  case (Cons h hs)
  show ?case
  proof (cases "h = 0")
    case True
    then show ?thesis using Cons by simp
  next
    case False
    obtain ob p1 where o: "object_open h p = (Ok ob, p1)" and rest: "pages_loop hs (pgs @ owned_pages ob) p1 = (Ok out, p')"
      using Cons.prems(1) False by (auto simp: and_then_Ok)
    have r: "reads_only disk contents p p1" by (rule quietD [OF quiet_object_open Cons.prems(2) o])
    then have ok1: "pager_ok disk contents p1" by (simp add: reads_only_def)
    obtain obs where obs: "list_all2 (opens_as disk contents p1) (filter (\<lambda>h. h \<noteq> 0) hs) obs" "out = (pgs @ owned_pages ob) @ pages_of obs"
      using Cons.IH [OF rest ok1] by blast
    have "list_all2 (opens_as disk contents p) (filter (\<lambda>h. h \<noteq> 0) hs) obs"
      by (rule list_all2_mono [OF obs(1) opens_as_reads [OF r]])
    moreover have "opens_as disk contents p h ob" using o reads_only_refl [OF Cons.prems(2)] by (auto simp: opens_as_def)
    ultimately show ?thesis using False obs(2) by (intro exI [of _ "ob # obs"]) simp
  qed
qed (simp add: ret_def)

text \<open>What a successful loop over the tables has found.\<close>

definition claimed_tables ::
  "('f, 'e) pager \<Rightarrow> table list \<Rightarrow> object list list \<Rightarrow> nat \<Rightarrow> (nat \<rightharpoonup> nat) \<Rightarrow> (nat \<rightharpoonup> nat) \<Rightarrow> bool" where
  "claimed_tables p ts obss holder owners owners' \<longleftrightarrow>
     list_all2 (\<lambda>t. list_all2 (opens_as disk contents p) (table_heads t)) ts obss
     \<and> distinct (concat (map pages_of obss)) \<and> set (concat (map pages_of obss)) \<inter> dom owners = {}
     \<and> dom owners' = dom owners \<union> set (concat (map pages_of obss))
     \<and> (\<forall>n \<in> dom owners. owners' n = owners n)
     \<and> (\<forall>i < length obss. \<forall>n \<in> set (pages_of (obss ! i)). owners' n = Some (holder + i))"

lemma claimed_tables_Cons:
  assumes t: "list_all2 (opens_as disk contents p) (table_heads t) obs"
    and claim: "claim_all (pages_of obs) holder named owners = Ok owners1" and r: "reads_only disk contents p p1"
    and rest: "claimed_tables p1 ts obss (holder + 1) owners1 owners'"
  shows "claimed_tables p (t # ts) (obs # obss) holder owners owners'"
proof -
  note c = claim_all_Ok [OF claim]
  note d = rest [unfolded claimed_tables_def]
  have doms: "dom owners1 = dom owners \<union> set (pages_of obs)" using c by (auto simp: dom_def)
  have "list_all2 (\<lambda>t. list_all2 (opens_as disk contents p) (table_heads t)) ts obss"
    using d by (auto elim!: list_all2_mono intro: opens_as_reads [OF r])
  moreover have "distinct (concat (map pages_of (obs # obss)))"
    using c d doms by auto
  moreover have "set (concat (map pages_of (obs # obss))) \<inter> dom owners = {}" using c d doms by auto
  moreover have "dom owners' = dom owners \<union> set (concat (map pages_of (obs # obss)))" using d doms by auto
  moreover have "\<forall>n \<in> dom owners. owners' n = owners n"
  proof
    fix n assume n: "n \<in> dom owners"
    then have "owners' n = owners1 n" using d doms by blast
    then show "owners' n = owners n" using c n by auto
  qed
  moreover have "\<forall>i < length (obs # obss). \<forall>n \<in> set (pages_of ((obs # obss) ! i)). owners' n = Some (holder + i)"
  proof (intro allI impI ballI)
    fix i n assume i: "i < length (obs # obss)" and n: "n \<in> set (pages_of ((obs # obss) ! i))"
    show "owners' n = Some (holder + i)"
    proof (cases i)
      case 0
      then have "owners' n = owners1 n" using n d doms by auto
      then show ?thesis using 0 n c by simp
    next
      case (Suc k)
      then show ?thesis using i n d by auto
    qed
  qed
  ultimately show ?thesis using t by (simp add: claimed_tables_def)
qed

lemma claim_tables_Ok:
  "claim_tables target ts owner_names tgt owners p = (Ok (tgt', owners'), p') \<Longrightarrow> pager_ok disk contents p \<Longrightarrow>
     \<exists>obss. claimed_tables p ts obss (length owner_names) owners owners'
       \<and> (target \<notin> tb_name ` set ts \<longrightarrow> tgt' = tgt)
       \<and> (\<forall>i < length ts. tb_name (ts ! i) = target \<and> distinct (map tb_name ts) \<longrightarrow> tgt' = length owner_names + i)"
proof (induction ts arbitrary: owner_names tgt owners p)
  case Nil
  then show ?case by (intro exI [of _ "[]"]) (simp add: ret_def claimed_tables_def)
next
  case (Cons t ts)
  let ?named = "owner_names @ [Table_Owner (tb_name t)]" and ?tgt = "if tb_name t = target then length owner_names else tgt"
  obtain pgs p1 owners1 where tp: "table_pages t p = (Ok pgs, p1)"
    and claim: "claim_all pgs (length owner_names) ?named owners = Ok owners1"
    and rest: "claim_tables target ts ?named ?tgt owners1 p1 = (Ok (tgt', owners'), p')"
    using Cons.prems(1) by (auto simp: Let_def and_then_Ok of_result_Ok)
  have r: "reads_only disk contents p p1"
    using quietD [OF quiet_pages_loop Cons.prems(2) tp [unfolded table_pages_def]] .
  then have ok1: "pager_ok disk contents p1" by (simp add: reads_only_def)
  obtain obs where obs: "list_all2 (opens_as disk contents p) (table_heads t) obs" "pgs = pages_of obs"
    using pages_loop_Ok [OF tp [unfolded table_pages_def] Cons.prems(2)] by (auto simp: table_heads_def)
  obtain obss where c: "claimed_tables p1 ts obss (length owner_names + 1) owners1 owners'"
    and none: "target \<notin> tb_name ` set ts \<longrightarrow> tgt' = ?tgt"
    and one: "\<forall>i < length ts. tb_name (ts ! i) = target \<and> distinct (map tb_name ts) \<longrightarrow> tgt' = length owner_names + 1 + i"
    using Cons.IH [OF rest ok1] by auto
  have "claimed_tables p (t # ts) (obs # obss) (length owner_names) owners owners'"
    by (rule claimed_tables_Cons [OF obs(1) claim [unfolded obs(2)] r c])
  moreover have "target \<notin> tb_name ` set (t # ts) \<longrightarrow> tgt' = tgt" using none by auto
  moreover have "tgt' = length owner_names + i"
    if i: "i < length (t # ts)" "tb_name ((t # ts) ! i) = target" "distinct (map tb_name (t # ts))" for i
  proof (cases i)
    case 0
    then have "target \<notin> tb_name ` set ts" using i by auto
    then show ?thesis using none i 0 by auto
  next
    case (Suc k)
    then show ?thesis using one i by auto
  qed
  ultimately show ?case by blast
qed

end

section \<open>The pages of a table and those of others\<close>

lemma stored_back:
  assumes r: "reads_only disk contents p q" and st: "stored contents q ob c"
  shows "stored contents p ob c"
proof -
  let ?p = "p\<lparr>pg_budget := pg_budget q\<rparr>"
  have "changed contents {} q ?p" using r by (simp add: reads_only_def changed_def pager_page_def)
  then have "stored contents ?p ob c" using stored_kept [OF st] by blast
  moreover have "pager_page contents ?p = pager_page contents p" by (simp add: pager_page_def fun_eq_iff)
  ultimately show ?thesis by (simp add: stored_def)
qed

text \<open>A catalogue names each table by its own name.\<close>

definition catalogue_ok :: "tables \<Rightarrow> bool" where
  "catalogue_ok tabs \<longleftrightarrow> finite (dom tabs) \<and> (\<forall>n t. tabs n = Some t \<longrightarrow> tb_name t = n)"

lemma table_values_of:
  assumes "catalogue_ok tabs"
  shows "set (table_values tabs) = ran tabs" and "distinct (map tb_name (table_values tabs))"
proof -
  have fin: "set (sorted_list_of_set (dom tabs)) = dom tabs" using assms by (simp add: catalogue_ok_def)
  then show "set (table_values tabs) = ran tabs" by (force simp: table_values_def ran_def)
  have "map tb_name (table_values tabs) = map id (sorted_list_of_set (dom tabs))"
    unfolding table_values_def map_map
    by (rule map_cong [OF refl]) (use assms fin in \<open>auto simp: catalogue_ok_def\<close>)
  then show "distinct (map tb_name (table_values tabs))" by simp
qed

text \<open>What the check has shown: the table is held on pages that are not \<open>others\<close>, and the objects with
  the header pages in \<open>heads\<close> lie on \<open>others\<close>.\<close>

definition set_apart ::
  "('f \<Rightarrow> bytes) \<Rightarrow> ('f, 'e) pager \<Rightarrow> table \<Rightarrow> object \<times> object \<times> object \<Rightarrow> nat set \<Rightarrow> nat set \<Rightarrow> bool" where
  "set_apart contents p target obs others heads \<longleftrightarrow>
     (\<exists>r b i. table_holds contents p target obs r b i) \<and> all_pages obs \<inter> others = {}
     \<and> (\<forall>h \<in> heads. \<exists>ob c. stored contents p ob c \<and> ob_header_page ob = h \<and> set (owned_pages ob) \<subseteq> others)"

definition other_heads :: "tables \<Rightarrow> table \<Rightarrow> nat set" where
  "other_heads tabs target = insert 2 (\<Union>t \<in> ran tabs - {target}. set (table_heads t))"

context backing_file
begin

lemma opened_stored:
  assumes o: "opens_as disk contents p h ob" and ok: "pager_ok disk contents p" and d: "distinct (owned_pages ob)"
  shows "\<exists>c. stored contents p ob c \<and> ob_header_page ob = h"
proof -
  obtain q q' where q: "reads_only disk contents p q" "object_open h q = (Ok ob, q')" using o by (auto simp: opens_as_def)
  have "pager_ok disk contents q" using q(1) by (simp add: reads_only_def)
  note s = object_open_stored [OF q(2) this d]
  show ?thesis using stored_back [OF reads_only_trans [OF q(1) s(2)] s(1)] s(3) by blast
qed

lemma opened_three:
  assumes "list_all2 (opens_as disk contents p) (table_heads t) obs" and "check_layout t = Ok ()"
    and "distinct (pages_of obs)" and ok: "pager_ok disk contents p"
  obtains ro bo io r b i where "obs = [ro, bo, io]" "table_holds contents p t (ro, bo, io) r b i"
proof -
  have "table_heads t = [tb_records_page t, tb_blob_page t, tb_index_page t]"
    using record_size_of_layout(2) [OF assms(2)] by (simp add: table_heads_def)
  then obtain ro bo io where obs: "obs = [ro, bo, io]" and o: "opens_as disk contents p (tb_records_page t) ro"
    "opens_as disk contents p (tb_blob_page t) bo" "opens_as disk contents p (tb_index_page t) io"
    using assms(1) by (auto simp: list_all2_Cons1)
  have d: "distinct (owned_pages ro)" "distinct (owned_pages bo)" "distinct (owned_pages io)"
    and ap: "apart ro bo" "apart ro io" "apart bo io" using assms(3) by (auto simp: obs apart_def)
  obtain r b i where "stored contents p ro r \<and> ob_header_page ro = tb_records_page t"
    "stored contents p bo b \<and> ob_header_page bo = tb_blob_page t" "stored contents p io i \<and> ob_header_page io = tb_index_page t"
    using opened_stored [OF o(1) ok d(1)] opened_stored [OF o(2) ok d(2)] opened_stored [OF o(3) ok d(3)] by blast
  then show thesis using that [OF obs, of r b i] ap by (simp add: table_holds_def)
qed

lemma claimed_apart:
  assumes c: "claimed_tables p ts obss 2 owners2 owners" and ok: "pager_ok disk contents p"
    and two: "\<forall>n \<in> dom owners2. owners2 n = Some 0 \<or> owners2 n = Some 1"
    and k: "k < length ts" "ts ! k = target" and lay: "check_layout target = Ok ()"
    and names: "distinct ts"
    and others: "others = {n \<in> dom owners. owners n \<noteq> Some (2 + k)}"
  obtains obs where "set_apart contents p target obs others (\<Union>t \<in> set ts - {target}. set (table_heads t))"
    "dom owners2 \<subseteq> others"
proof -
  note d = c [unfolded claimed_tables_def]
  have len: "length obss = length ts" using d list_all2_lengthD by metis
  have two_others: "dom owners2 \<subseteq> others"
  proof
    fix n assume n: "n \<in> dom owners2"
    then have "owners n = owners2 n" "n \<in> dom owners" "owners2 n = Some 0 \<or> owners2 n = Some 1" using d two by blast+
    then show "n \<in> others" by (auto simp: others)
  qed
  have dist: "distinct (pages_of (obss ! i))" if "i < length obss" for i
    using d that by (simp add: distinct_concat_iff)
  have heads: "list_all2 (opens_as disk contents p) (table_heads (ts ! i)) (obss ! i)" if "i < length ts" for i
    using d that list_all2_nthD by metis
  have own: "n \<in> dom owners \<and> owners n = Some (2 + i)" if "i < length obss" "n \<in> set (pages_of (obss ! i))" for n i
    using d that by (auto simp: dom_def)
  obtain ro bo io r b i where mine: "obss ! k = [ro, bo, io]" "table_holds contents p target (ro, bo, io) r b i"
    using opened_three [OF heads [OF k(1), unfolded k(2)] lay dist ok] k(1) len by metis
  have "all_pages (ro, bo, io) = set (pages_of (obss ! k))" by (simp add: mine(1) all_pages_def Un_assoc)
  then have "all_pages (ro, bo, io) \<inter> others = {}" using own [of k] k(1) len by (auto simp: others)
  moreover have "\<exists>ob c. stored contents p ob c \<and> ob_header_page ob = h \<and> set (owned_pages ob) \<subseteq> others"
    if t: "t \<in> set ts - {target}" and h: "h \<in> set (table_heads t)" for t h
  proof -
    obtain i where i: "i < length ts" "ts ! i = t" using t by (auto simp: in_set_conv_nth)
    then have "i \<noteq> k" using t k by auto
    obtain ob where ob: "ob \<in> set (obss ! i)" "opens_as disk contents p h ob"
      using list_all2_in [OF heads [OF i(1), unfolded i(2)] h] by blast
    have sub: "set (owned_pages ob) \<subseteq> set (pages_of (obss ! i))" using ob(1) by (auto simp: pages_of_def)
    have "distinct (owned_pages ob)" using dist [of i] ob(1) i(1) len by (simp add: pages_of_def distinct_concat_iff)
    then obtain c where "stored contents p ob c" "ob_header_page ob = h" using opened_stored [OF ob(2) ok] by blast
    moreover have "set (owned_pages ob) \<subseteq> others"
      using sub own [of i] i(1) len \<open>i \<noteq> k\<close> by (auto simp: others)
    ultimately show ?thesis by blast
  qed
  ultimately have "set_apart contents p target (ro, bo, io) others (\<Union>t \<in> set ts - {target}. set (table_heads t))"
    unfolding set_apart_def using mine(2) by blast
  then show thesis using that two_others by blast
qed

lemma examine_Ok:
  assumes run: "examine tabs target p = (Ok (before, count, others), p')" and ok: "pager_ok disk contents p"
    and cat: "catalogue_ok tabs" and here: "tabs (tb_name target) = Some target" and lay: "check_layout target = Ok ()"
  obtains obs where "set_apart contents p target obs others (other_heads tabs target)" "1 \<in> others"
    "before = pg_page_count p" "reads_only disk contents p p'"
proof -
  let ?names = "[Free_List_Owner, Root_Owner]" and ?one = "[1 \<mapsto> (0 :: nat)] :: nat \<rightharpoonup> nat"
  obtain root p1 owners2 tgt owners p2 rs where root: "object_open 2 p = (Ok root, p1)"
    and claim: "claim_all (owned_pages root) 1 ?names ?one = Ok owners2"
    and tabs: "claim_tables (tb_name target) (table_values tabs) ?names u32_max owners2 p1 = (Ok (tgt, owners), p2)"
    and recs: "read_records target False p2 = (Ok rs, p')"
    and out: "before = pg_page_count p'" "others = {n \<in> dom owners. owners n \<noteq> Some tgt}"
    using run by (auto simp: examine_def claim_def Let_def and_then_Ok of_result_Ok ret_Ok)
  have r1: "reads_only disk contents p p1" by (rule quietD [OF quiet_object_open ok root])
  then have ok1: "pager_ok disk contents p1" by (simp add: reads_only_def)
  have r2: "reads_only disk contents p1 p2" by (rule quietD [OF quiet_claim_tables ok1 tabs])
  then have ok2: "pager_ok disk contents p2" by (simp add: reads_only_def)
  have r3: "reads_only disk contents p2 p'" by (rule quietD [OF quiet_read_records ok2 recs [unfolded read_records_def]])
  have r: "reads_only disk contents p p'" by (rule reads_only_trans [OF r1 reads_only_trans [OF r2 r3]])
  note c = claim_all_Ok [OF claim]
  have two: "\<forall>n \<in> dom owners2. owners2 n = Some 0 \<or> owners2 n = Some 1" using c by (auto simp: dom_def split: if_splits)
  have two_names: "length ?names = 2" by simp
  let ?ts = "table_values tabs"
  obtain obss where ct: "claimed_tables p1 ?ts obss 2 owners2 owners"
    and idx: "\<forall>i < length ?ts. tb_name (?ts ! i) = tb_name target \<and> distinct (map tb_name ?ts) \<longrightarrow> tgt = 2 + i"
    using claim_tables_Ok [OF tabs ok1, unfolded two_names] by blast
  note tv = table_values_of [OF cat]
  have "target \<in> set ?ts" using here tv(1) by (auto simp: ran_def)
  then obtain k where k: "k < length ?ts" "?ts ! k = target" by (auto simp: in_set_conv_nth)
  then have tgt: "tgt = 2 + k" using idx tv(2) by blast
  have dist: "distinct ?ts" using tv(2) by (simp add: distinct_map)
  obtain obs where obs: "set_apart contents p1 target obs others (\<Union>t \<in> set ?ts - {target}. set (table_heads t))"
    and sub: "dom owners2 \<subseteq> others"
    by (rule claimed_apart [OF ct ok1 two k lay dist out(2) [unfolded tgt]])
  have opened: "opens_as disk contents p 2 root" using root reads_only_refl [OF ok] by (auto simp: opens_as_def)
  obtain c where rc: "stored contents p root c" "ob_header_page root = 2"
    using opened_stored [OF opened ok] c by blast
  have root_others: "set (owned_pages root) \<subseteq> others" using sub c by (auto simp: dom_def)
  have one: "1 \<in> others" using sub c by (auto simp: dom_def)
  have "set_apart contents p target obs others (other_heads tabs target)"
    unfolding set_apart_def
  proof (intro conjI ballI)
    obtain ro bo io where o3: "obs = (ro, bo, io)" by (cases obs)
    show "\<exists>r b i. table_holds contents p target obs r b i"
      using obs stored_back [OF r1] unfolding set_apart_def table_holds_def o3 by blast
    show "all_pages obs \<inter> others = {}" using obs by (simp add: set_apart_def)
    fix h assume "h \<in> other_heads tabs target"
    then consider "h = 2" | "h \<in> (\<Union>t \<in> set ?ts - {target}. set (table_heads t))"
      by (auto simp: other_heads_def tv(1))
    then show "\<exists>ob c. stored contents p ob c \<and> ob_header_page ob = h \<and> set (owned_pages ob) \<subseteq> others"
    proof cases
      case 1
      then show ?thesis using rc root_others by blast
    next
      case 2
      then show ?thesis using obs stored_back [OF r1] unfolding set_apart_def by blast
    qed
  qed
  moreover have "before = pg_page_count p" using out(1) r by (simp add: reads_only_def)
  ultimately show thesis using that one r by blast
qed

end

end
