(* ===== verification/Filedb_Copy.thy ===== *)
theory Filedb_Copy
  imports Filedb_Claims
begin

text \<open>
  The copy of the data file: copying ends with the content of the original, and a copy that passed the
  checks of \<open>write_copy\<close> shows the new rows and keeps everything else.
\<close>

section \<open>Copying\<close>

text \<open>The contract of \<open>Read::read\<close>, and where a write leaves the position.\<close>

locale copying_file = backing_file disk contents position
  for disk :: "'f backing" and contents :: "'f \<Rightarrow> bytes" and position :: "'f \<Rightarrow> nat" +
  fixes read :: "'f \<Rightarrow> nat \<Rightarrow> (io_error_kind + bytes) \<times> 'f"
  assumes read_keeps: "read f n = (r, f') \<Longrightarrow> contents f' = contents f"
    and read_some: "read f n = (Ok bs, f') \<Longrightarrow> length bs \<le> n \<and> position f' = position f + length bs
      \<and> bs = slice (position f) (position f + length bs) (contents f)"
    and read_end: "read f n = (Ok [], f') \<Longrightarrow> 0 < n \<Longrightarrow> length (contents f) \<le> position f"
    and write_position: "bk_write_all disk f bs = (Ok (), f') \<Longrightarrow> position f' = position f + length bs"
begin

lemma copied_part:
  assumes rd: "read f n = (Ok bs, f')" and wr: "bk_write_all disk g bs = (Ok (), g')" and some: "bs \<noteq> []"
    and g: "contents g = take (position f) (contents f)" "position g = length (contents g)"
  shows "contents g' = take (position f') (contents f')" and "position g' = length (contents g')"
    and "length (contents f') - position f' < length (contents f) - position f"
proof -
  note r = read_some [OF rd]
  have bs: "bs = slice (position f) (position f + length bs) (contents f)" using r by blast
  have "length bs = min (length bs) (length (contents f) - position f)"
    using arg_cong [OF bs, of length] by simp
  moreover have "0 < length bs" using some by simp
  ultimately have room: "position f + length bs \<le> length (contents f)" by linarith
  have pos: "position g = position f" using g room by simp
  have "contents g' = contents g @ bs"
    using write_bytes [OF wr] g pos room by (simp add: write_at_def)
  also have "\<dots> = take (position f + length bs) (contents f)"
    using g(1) bs by (simp add: take_add slice_def)
  finally show c: "contents g' = take (position f') (contents f')" using r read_keeps [OF rd] by simp
  show "position g' = length (contents g')"
    using write_position [OF wr] pos room r read_keeps [OF rd] by (simp add: c)
  show "length (contents f') - position f' < length (contents f) - position f"
    using r read_keeps [OF rd] diff_less_mono2 [of "position f" "position f + length bs" "length (contents f)"]
      room \<open>0 < length bs\<close> by simp
qed

lemma copy_ends:
  fixes s :: "('f, 'e) copy_session"
  assumes "ws_disk s = disk" and "ws_read s = read"
    and "contents (ws_copy s) = take (position (ws_file s)) (contents (ws_file s))"
    and "position (ws_copy s) = length (contents (ws_copy s))"
  shows "\<exists>r s'. copy_checked s = Some (r, s') \<and> contents (ws_file s') = contents (ws_file s)
    \<and> ws_disk s' = disk \<and> ws_read s' = read \<and> ws_tables s' = ws_tables s \<and> ws_collation s' = ws_collation s
    \<and> (r = Ok () \<longrightarrow> contents (ws_copy s') = contents (ws_file s))"
  using assms
proof (induction "length (contents (ws_file s)) - position (ws_file s)" arbitrary: s rule: less_induct)
  case less
  obtain c b where "budget_checked (ws_budget s) = (c, b)" by (cases "budget_checked (ws_budget s)")
  then have chk: "session_check_read s = (c, s\<lparr>ws_budget := b\<rparr>)" by (simp add: session_check_read_def)
  let ?s1 = "s\<lparr>ws_budget := b\<rparr>"
  obtain x f where rd: "read (ws_file s) 1048576 = (x, f)" by (cases "read (ws_file s) 1048576")
  have kept: "contents f = contents (ws_file s)" by (rule read_keeps [OF rd])
  show ?case
  proof (cases "c = Ok () \<and> (\<exists>bs. x = Ok bs \<and> bs \<noteq> [])")
    case False
    then consider e where "c = Err e" | e where "c = Ok ()" "x = Err e" | "c = Ok ()" "x = Ok []"
      by (cases c; cases x) auto
    then show ?thesis
    proof cases
      case 1
      then show ?thesis using less.prems by (subst copy_checked.simps) (simp add: chk)
    next
      case 2
      then show ?thesis using less.prems kept by (subst copy_checked.simps) (simp add: chk rd)
    next
      case 3
      then have "length (contents (ws_file s)) \<le> position (ws_file s)" using read_end rd by simp
      then show ?thesis using 3 less.prems kept by (subst copy_checked.simps) (simp add: chk rd)
    qed
  next
    case True
    then obtain bs where x: "c = Ok ()" "x = Ok bs" "bs \<noteq> []" by blast
    obtain y g where wr: "bk_write_all disk (ws_copy s) bs = (y, g)" by (cases "bk_write_all disk (ws_copy s) bs")
    show ?thesis
    proof (cases y)
      case (Inl e)
      then show ?thesis using less.prems kept x by (subst copy_checked.simps) (simp add: chk rd wr)
    next
      case (Inr u)
      let ?s2 = "?s1\<lparr>ws_file := f, ws_copy := g\<rparr>"
      have wr': "bk_write_all disk (ws_copy s) bs = (Ok (), g)" using wr Inr by simp
      note p = copied_part [OF rd [unfolded x(2)] wr' x(3) less.prems(3,4)]
      have "copy_checked s = copy_checked ?s2"
        using less.prems x Inr by (subst copy_checked.simps) (simp add: chk rd wr)
      moreover have "length (contents (ws_file ?s2)) - position (ws_file ?s2) < length (contents (ws_file s)) - position (ws_file s)"
        using p(3) by simp
      ultimately show ?thesis using less.hyps [of ?s2] less.prems p kept by simp
    qed
  qed
qed

end

text \<open>Reading a file in memory.\<close>

definition mem_read :: "mem_file \<Rightarrow> nat \<Rightarrow> (io_error_kind + bytes) \<times> mem_file" where
  "mem_read f n =
     (let bs = slice (mem_position f) (mem_position f + n) (mem_bytes f) in
      (Ok bs, f\<lparr>mem_position := mem_position f + length bs\<rparr>))"

interpretation mem: copying_file mem_backing mem_bytes mem_position mem_read
proof unfold_locales
  fix f n bs f' assume r: "mem_read f n = (Ok bs, f')"
  show "length bs \<le> n \<and> mem_position f' = mem_position f + length bs
      \<and> bs = slice (mem_position f) (mem_position f + length bs) (mem_bytes f)"
    using r by (auto simp: mem_read_def Let_def slice_def min_def)
next
  fix f n f' assume "mem_read f n = (Ok [], f')" "0 < n"
  then show "length (mem_bytes f) \<le> mem_position f" by (auto simp: mem_read_def Let_def slice_def)
qed (auto simp: mem_read_def mem_backing_def Let_def)

end
