(* ===== verification/Filedb_Copy_Write.thy ===== *)
theory Filedb_Copy_Write
  imports Filedb_Copy
begin

text \<open>
  Writing the table into the copy: a copy that passed the checks shows the new rows, keeps every object of
  the other tables and the root, and the original is not touched, also when a step fails.
\<close>

section \<open>Pagers on a content\<close>

text \<open>A pager whose page size and page count are those in the header of the content.\<close>

definition opened_on :: "('f \<Rightarrow> bytes) \<Rightarrow> bytes \<Rightarrow> ('f, 'e) pager \<Rightarrow> bool" where
  "opened_on contents c p \<longleftrightarrow> contents (pg_file p) = c \<and> pg_page_size p = read_u32 20 (take 24 c)
     \<and> pg_page_count p = read_u32 12 (take 24 c)"

lemma opened_on_same:
  assumes "opened_on contents c p" and "opened_on contents c q"
  shows "pg_page_size p = pg_page_size q" and "pg_page_count p = pg_page_count q" and "pager_page contents p = pager_page contents q"
  using assms by (simp_all add: opened_on_def pager_page_def fun_eq_iff)

lemma opened_on_stored:
  assumes "opened_on contents c p" and "opened_on contents c q"
  shows "stored contents p ob b = stored contents q ob b"
  unfolding stored_def opened_on_same [OF assms] ..

lemma opened_on_holds:
  assumes "opened_on contents c p" and "opened_on contents c q"
  shows "table_holds contents p t obs r b i = table_holds contents q t obs r b i"
  unfolding table_holds_def opened_on_stored [OF assms] ..

lemma opened_on_shows:
  assumes "opened_on contents c p" and "opened_on contents c q"
  shows "table_shows contents p t obs rows es = table_shows contents q t obs rows es"
  unfolding table_shows_def opened_on_holds [OF assms] opened_on_same(1) [OF assms] ..

lemma opened_on_reads: "opened_on contents c p \<Longrightarrow> reads_only disk contents p p' \<Longrightarrow> opened_on contents c p'"
  by (simp add: opened_on_def reads_only_def changed_def)

lemma take_slice: "b \<le> n \<Longrightarrow> slice a b (take n xs) = slice a b xs"
  by (simp add: slice_def drop_take)

lemma read_u32_take: "at + 4 \<le> n \<Longrightarrow> read_u32 at (take n xs) = read_u32 at xs"
  by (simp add: read_u32_def take_slice)

context backing_file
begin

lemma pager_new_opened:
  assumes "pager_new disk f = Ok p"
  shows "opened_on contents (contents f) p"
proof -
  obtain len f0 head f1 p1 bs where sk: "bk_seek disk f 0 = (Ok (), f0)"
    and hd: "bk_read_exact disk f0 24 = (Ok head, f1)" and len: "bk_length disk f = Ok len"
    and size: "4096 \<le> read_u32 20 head" "read_u32 20 head \<le> 65536" "is_power_of_two (read_u32 20 head)"
    and count: "3 \<le> read_u32 12 head" "read_u32 12 head * read_u32 20 head \<le> len"
    and rd: "read_page 0 \<lparr>pg_file = f1, pg_disk = disk, pg_page_size = read_u32 20 head,
               pg_page_count = read_u32 12 head, pg_header = [], pg_budget = None\<rparr> = (Ok bs, p1)"
    and p: "p = p1\<lparr>pg_header := bs\<rparr>"
    using assms by (auto simp: pager_new_def Let_def split: sum.splits prod.splits if_splits)
  have c: "contents f0 = contents f" "contents f1 = contents f" using read_contents [OF hd] seek_contents [OF sk] by simp_all
  have head: "head = take 24 (contents f)"
    using read_bytes [OF hd] seek_position [OF sk] c(1) by (simp add: slice_def)
  have "read_u32 12 head \<le> u32_max" unfolding read_u32_def by (rule unat_u32_le)
  then have ok: "pager_ok disk contents \<lparr>pg_file = f1, pg_disk = disk, pg_page_size = read_u32 20 head,
      pg_page_count = read_u32 12 head, pg_header = [], pg_budget = None\<rparr>"
    using size count length_is [OF len] c power_of_two_multiple [OF size(3)] by (simp add: pager_ok_def)
  note r = read_page_Ok [OF rd ok]
  show ?thesis using r(5-7) c by (simp add: opened_on_def p head)
qed

text \<open>The header page that a replace leaves names the page count of its pager.\<close>

lemma header_opened:
  assumes op: "opened_on contents c p" and ok: "pager_ok disk contents p" and head: "pg_header p = pager_page contents p 0"
    and page0: "pager_page contents p' 0 = put 12 (le32 (pg_page_count p')) (pg_header p)"
    and ok': "pager_ok disk contents p'" and ps: "pg_page_size p' = pg_page_size p"
  shows "opened_on contents (contents (pg_file p')) p'"
proof -
  let ?c' = "contents (pg_file p')" and ?h = "pg_header p"
  have big: "4096 \<le> pg_page_size p" "4096 \<le> pg_page_size p'" "pg_page_count p' \<le> u32_max" using ok ok' by (simp_all add: pager_ok_def)
  have page: "pager_page contents q 0 = take (pg_page_size q) (contents (pg_file q))" for q :: "('f, 'e) pager"
    by (simp add: pager_page_def page_of_def slice_def)
  have "1 * pg_page_size p \<le> pg_page_count p * pg_page_size p" using ok by (intro mult_le_mono1) (simp add: pager_ok_def)
  also have "pg_page_count p * pg_page_size p \<le> length (contents (pg_file p))" using ok by (simp add: pager_ok_def)
  finally have "pg_page_size p \<le> length (contents (pg_file p))" by simp
  then have lh: "length ?h = pg_page_size p" by (simp add: head page)
  have c': "take 24 ?c' = take 24 (put 12 (le32 (pg_page_count p')) ?h)"
    using arg_cong [OF page0, of "take 24"] big by (simp add: page min_def)
  have "read_u32 12 (take 24 ?c') = pg_page_count p'"
    unfolding c' using lh big by (simp add: read_u32_def take_slice slice_put_same from_le32)
  moreover have "read_u32 20 (take 24 ?c') = read_u32 20 (take 24 c)"
    unfolding c' using lh big op by (simp add: read_u32_def take_slice slice_put_after head page opened_on_def)
  ultimately show ?thesis using op ps by (simp add: opened_on_def)
qed

lemma session_pager_Ok:
  assumes "session_pager f s = (Ok p, s1)" and "ws_disk s = disk"
  shows "pager_ok disk contents p" and "opened_on contents (contents f) p" and "pg_header p = pager_page contents p 0"
    and "\<exists>b. s1 = s\<lparr>ws_budget := b\<rparr> \<and> pg_budget p = b"
proof -
  obtain b q where s1: "s1 = s\<lparr>ws_budget := b\<rparr>" and q: "pager_new disk f = Ok q" "p = set_read_budget b q"
    using assms by (auto simp: session_pager_def session_check_read_def and_then_Ok of_result_Ok result_simps split: prod.splits)
  note n = pager_new_Ok [OF q(1)]
  have o: "opened_on contents (contents f) q" by (rule pager_new_opened [OF q(1)])
  show "pager_ok disk contents p" "opened_on contents (contents f) p" "pg_header p = pager_page contents p 0"
    using n o by (simp_all add: q(2) set_read_budget_def pager_ok_def opened_on_def pager_page_def)
  show "\<exists>b. s1 = s\<lparr>ws_budget := b\<rparr> \<and> pg_budget p = b" using s1 by (simp add: q(2) set_read_budget_def)
qed

lemma session_pager_state: "session_pager f s = (r, s1) \<Longrightarrow> \<exists>b. s1 = s\<lparr>ws_budget := b\<rparr>"
  by (auto simp: session_pager_def session_check_read_def and_then_def of_result_def split: prod.splits sum.splits)

lemma quiet_sync: "quiet disk contents pager_sync"
proof (rule quietI)
  fix p :: "('f, 'e) pager" and r p'
  assume ok: "pager_ok disk contents p" and run: "pager_sync p = (r, p')"
  obtain x f where s: "bk_sync disk (pg_file p) = (x, f)" by (cases "bk_sync disk (pg_file p)")
  have "p' = p\<lparr>pg_file := f\<rparr>" using run s ok by (simp add: pager_sync_def on_file_def pager_ok_def split: sum.splits)
  then show "reads_only disk contents p p'" using moved_reads [OF ok sync_contents [OF s]] by simp
qed

section \<open>The original\<close>

text \<open>What an action on a session leaves: the same content of the locked file, and the same session
  otherwise.\<close>

definition keeps_original :: "('f, 'e, 'z) write_session_scheme \<Rightarrow> ('f, 'e, 'z) write_session_scheme \<Rightarrow> bool" where
  "keeps_original s s' \<longleftrightarrow> contents (ws_file s') = contents (ws_file s) \<and> ws_disk s' = ws_disk s \<and> ws_read s' = ws_read s
     \<and> ws_tables s' = ws_tables s \<and> ws_collation s' = ws_collation s"

lemma keeps_original_trans: "keeps_original s s' \<Longrightarrow> keeps_original s' s'' \<Longrightarrow> keeps_original s s''"
  by (simp add: keeps_original_def)

lemma session_pager_keeps: "session_pager f s = (r, s1) \<Longrightarrow> keeps_original s s1"
  by (auto simp: keeps_original_def dest!: session_pager_state)

lemma with_pager_keeps:
  assumes run: "with_pager m s = (r, s')" and q: "quiet disk contents m" and d: "ws_disk s = disk"
  shows "keeps_original s s'"
proof -
  obtain x s1 where p: "session_pager (ws_file s) s = (x, s1)" by (cases "session_pager (ws_file s) s")
  note k = session_pager_keeps [OF p]
  show ?thesis
  proof (cases x)
    case (Inl e)
    then show ?thesis using run p k by (simp add: with_pager_def and_then_def)
  next
    case (Inr pg)
    obtain y pg' where m: "m pg = (y, pg')" by (cases "m pg")
    note sp = session_pager_Ok [OF p [unfolded Inr] d]
    have "opened_on contents (contents (ws_file s)) pg'"
      by (rule opened_on_reads [OF sp(2) quietD [OF q sp(1) m]])
    then show ?thesis using run p k m Inr
      by (auto simp: with_pager_def and_then_def keeps_original_def opened_on_def)
  qed
qed

section \<open>The checks read only\<close>

definition open_at :: "bytes \<Rightarrow> ('f, 'e) pager \<Rightarrow> bool" where
  "open_at a p \<longleftrightarrow> pager_ok disk contents p \<and> contents (pg_file p) = a"

lemma open_at_budget [simp]: "open_at a (set_read_budget b p) = open_at a p"
  by (simp add: open_at_def pager_ok_def set_read_budget_def)

lemma open_at_reads:
  assumes "quiet disk contents m" and "m p = (r, p')" and "open_at a p"
  shows "open_at a p'"
proof -
  have "pager_ok disk contents p" using assms(3) by (simp add: open_at_def)
  then have "reads_only disk contents p p'" by (rule quietD [OF assms(1) _ assms(2)])
  then show ?thesis using assms(3) by (simp add: open_at_def reads_only_def)
qed

text \<open>Both pagers keep their content, each whatever the other does.\<close>

definition undisturbed :: "('f, 'e) two_pagers \<Rightarrow> ('f, 'e) two_pagers \<Rightarrow> bool" where
  "undisturbed w w' \<longleftrightarrow> (\<forall>a. open_at a (tp_before w) \<longrightarrow> open_at a (tp_before w'))
     \<and> (\<forall>b. open_at b (tp_copy w) \<longrightarrow> open_at b (tp_copy w'))"

lemma undisturbed_refl: "undisturbed w w"
  by (simp add: undisturbed_def)

lemma undisturbed_trans: "undisturbed w w' \<Longrightarrow> undisturbed w' w'' \<Longrightarrow> undisturbed w w''"
  by (simp add: undisturbed_def)

lemma undisturbed_then:
  fixes w w' :: "('f, 'e) two_pagers"
  assumes run: "and_then m f w = (r, w')" and m: "\<And>x w1. m w = (x, w1) \<Longrightarrow> undisturbed w w1"
    and f: "\<And>x w1 r w2. f x w1 = (r, w2) \<Longrightarrow> undisturbed w1 w2"
  shows "undisturbed w w'"
proof -
  obtain x w1 where one: "m w = (x, w1)" by (cases "m w")
  show ?thesis
  proof (cases x)
    case (Inl e)
    then show ?thesis using run one m [OF one] by (simp add: and_then_def)
  next
    case (Inr v)
    then have "f v w1 = (r, w')" using run one by (simp add: and_then_def)
    then show ?thesis using undisturbed_trans [OF m [OF one] f] by blast
  qed
qed

lemma on_before_open:
  assumes "quiet disk contents m" and "on_before m w = (r, w')"
  shows "undisturbed w w'"
proof -
  obtain x p where m: "m (tp_before w) = (x, p)" by (cases "m (tp_before w)")
  show ?thesis using assms(2) m open_at_reads [OF assms(1) m] by (auto simp: on_before_def undisturbed_def)
qed

lemma on_copy_open:
  assumes "quiet disk contents m" and "on_copy m w = (r, w')"
  shows "undisturbed w w'"
proof -
  obtain x p where m: "m (tp_copy w) = (x, p)" by (cases "m (tp_copy w)")
  show ?thesis using assms(2) m open_at_reads [OF assms(1) m] by (auto simp: on_copy_def undisturbed_def)
qed

lemma compare_pages_open:
  fixes w w' :: "('f, 'e) two_pagers"
  shows "compare_pages n written k ns w = (r, w') \<Longrightarrow> undisturbed w w'"
proof (induction ns arbitrary: w r w')
  case (Cons page ns)
  show ?case
  proof (cases "page \<in> written")
    case True
    then show ?thesis using Cons by simp
  next
    case False
    have rest: "undisturbed w1 w2"
      if "and_then (on_copy (read_page_into page k)) (\<lambda>b. if x \<noteq> b
        then fail (corrupt (In_Session (Page_Changed page n))) else compare_pages n written k ns) w1 = (r, w2)"
      for x r and w1 w2 :: "('f, 'e) two_pagers"
      by (rule undisturbed_then [OF that])
        (auto simp: fail_def undisturbed_refl Cons.IH on_copy_open [OF quiet_read_page_into] split: if_splits)
    show ?thesis
      using Cons.prems unfolding compare_pages.simps if_not_P [OF False]
      by (rule undisturbed_then) (auto intro: rest on_before_open [OF quiet_read_page_into])
  qed
qed (simp add: ret_def undisturbed_refl)

lemma check_copy_open: "check_copy target rows coll before written w = (r, w') \<Longrightarrow> undisturbed w w'"
  unfolding check_copy_def
  by (erule undisturbed_then) (auto intro: compare_pages_open on_copy_open [OF quiet_read_back])

lemma check_written_keeps:
  assumes run: "check_written target rows before written p s = (r, s')" and d: "ws_disk s = disk" and p: "ws_copy s = pg_file p"
  shows "keeps_original s s'" and "pager_ok disk contents p \<Longrightarrow> contents (ws_copy s') = contents (pg_file p)"
proof -
  obtain x s1 where one: "session_pager (ws_file s) s = (x, s1)" by (cases "session_pager (ws_file s) s")
  obtain b where s1: "s1 = s\<lparr>ws_budget := b\<rparr>" using session_pager_state [OF one] by blast
  have "keeps_original s s' \<and> (pager_ok disk contents p \<longrightarrow> contents (ws_copy s') = contents (pg_file p))"
  proof (cases x)
    case (Inl e)
    then show ?thesis using run one s1 p by (auto simp: check_written_def keeps_original_def)
  next
    case (Inr pg)
    note sp = session_pager_Ok [OF one [unfolded Inr] d]
    let ?w = "\<lparr>tp_before = pg, tp_copy = set_read_budget (pg_budget pg) p\<rparr>"
    obtain y w where c: "check_copy target rows (ws_collation s1) before written ?w = (y, w)"
      by (cases "check_copy target rows (ws_collation s1) before written ?w")
    have "open_at (contents (ws_file s)) (tp_before w)"
      using check_copy_open [OF c] sp(1,2) by (simp add: undisturbed_def open_at_def opened_on_def)
    moreover have "open_at (contents (pg_file p)) (tp_copy w)" if "pager_ok disk contents p"
    proof -
      have "open_at (contents (pg_file p)) p" using that by (simp add: open_at_def)
      then show ?thesis using check_copy_open [OF c] by (simp add: undisturbed_def)
    qed
    ultimately have "open_at (contents (ws_file s)) (tp_before w)"
      "pager_ok disk contents p \<Longrightarrow> open_at (contents (pg_file p)) (tp_copy w)" by blast+
    then show ?thesis using run one s1 c Inr
      by (auto simp: check_written_def keeps_original_def open_at_def close_both_def close_copy_def)
  qed
  then show "keeps_original s s'" "pager_ok disk contents p \<Longrightarrow> contents (ws_copy s') = contents (pg_file p)" by blast+
qed

section \<open>The write\<close>

lemma write_table_Ok:
  assumes "write_table target rows coll others p = (Ok (written, after), p')"
  obtains p1 where "config_replace target rows coll p = (Ok written, p1)" "pager_sync p1 = (Ok (), p')"
    "written \<inter> others = {}" "after = pg_page_count p'"
  using assms by (auto simp: write_table_def and_then_Ok ret_Ok split: if_splits)

lemma write_checked_Ok:
  fixes s :: "('f, 'e) copy_session"
  assumes run: "write_checked target rows before others s = (r, s')" and d: "ws_disk s = disk"
  shows "keeps_original s s'"
    and "\<lbrakk>r = Ok after;
      \<And>(p :: ('f, 'e) pager) p1 x. write_table target rows (ws_collation s) others p = (Ok x, p1) \<Longrightarrow> pager_ok disk contents p
        \<Longrightarrow> opened_on contents (contents (ws_copy s)) p \<Longrightarrow> pg_header p = pager_page contents p 0
        \<Longrightarrow> pager_ok disk contents p1 \<and> P (contents (pg_file p1))\<rbrakk> \<Longrightarrow> P (contents (ws_copy s'))"
proof -
  obtain x s1 where one: "session_pager (ws_copy s) s = (x, s1)" by (cases "session_pager (ws_copy s) s")
  obtain b where s1: "s1 = s\<lparr>ws_budget := b\<rparr>" using session_pager_state [OF one] by blast
  have "keeps_original s s' \<and> ((\<exists>n. r = Ok n) \<longrightarrow> (\<exists>(p :: ('f, 'e) pager) p1 x. write_table target rows (ws_collation s) others p = (Ok x, p1)
     \<and> pager_ok disk contents p \<and> opened_on contents (contents (ws_copy s)) p \<and> pg_header p = pager_page contents p 0
     \<and> (pager_ok disk contents p1 \<longrightarrow> contents (ws_copy s') = contents (pg_file p1))))"
  proof (cases x)
    case (Inl e)
    then show ?thesis using run one s1 by (auto simp: write_checked_def and_then_def keeps_original_def)
  next
    case (Inr pg)
    note x = this
    note sp = session_pager_Ok [OF one [unfolded Inr] d]
    obtain y p1 where w: "write_table target rows (ws_collation s) others pg = (y, p1)"
      by (cases "write_table target rows (ws_collation s) others pg")
    show ?thesis
    proof (cases y)
      case (Inl e)
      then show ?thesis using run one s1 w x
        by (auto simp: write_checked_def and_then_def keeps_original_def close_copy_def)
    next
      case (Inr res)
      obtain written count where res: "res = (written, count)" by (cases res)
      let ?s = "close_copy p1 s1"
      obtain z s2 where c: "check_written target rows before written p1 ?s = (z, s2)"
        by (cases "check_written target rows before written p1 ?s")
      have k: "keeps_original ?s s2" "pager_ok disk contents p1 \<Longrightarrow> contents (ws_copy s2) = contents (pg_file p1)"
        using check_written_keeps [OF c] d s1 by (simp_all add: close_copy_def)
      have "keeps_original s ?s" by (simp add: keeps_original_def close_copy_def s1)
      then have k2: "keeps_original s s2" using k(1) by (rule keeps_original_trans)
      have "s' = s2" using run one s1 w c res Inr x
        by (auto simp: write_checked_def and_then_def ret_def split: sum.splits)
      then show ?thesis using w Inr sp(1-3) k(2) k2
        by (intro conjI impI exI [of _ pg] exI [of _ p1] exI [of _ res]) simp_all
    qed
  qed
  then show "keeps_original s s'"
    and "\<lbrakk>r = Ok after;
      \<And>(p :: ('f, 'e) pager) p1 x. write_table target rows (ws_collation s) others p = (Ok x, p1) \<Longrightarrow> pager_ok disk contents p
        \<Longrightarrow> opened_on contents (contents (ws_copy s)) p \<Longrightarrow> pg_header p = pager_page contents p 0
        \<Longrightarrow> pager_ok disk contents p1 \<and> P (contents (pg_file p1))\<rbrakk> \<Longrightarrow> P (contents (ws_copy s'))"
    by (blast, metis)
qed

end

section \<open>The copy\<close>

text \<open>What the copy holds in the end: the table shows the rows, and the objects of the other tables and of
  the root are those of the original.\<close>

definition copy_good ::
  "('f \<Rightarrow> bytes) \<Rightarrow> tables \<Rightarrow> table \<Rightarrow> config_row list \<Rightarrow> collation \<Rightarrow> bytes \<Rightarrow> bytes \<Rightarrow> bool" where
  "copy_good contents tabs target rows coll c c' \<longleftrightarrow>
     (\<forall>(p :: ('f, unit) pager) (q :: ('f, unit) pager). opened_on contents c p \<and> opened_on contents c' q \<longrightarrow>
       (\<exists>obs keys. row_keys coll rows [] [] = Ok keys
          \<and> table_shows contents q target obs rows (sort_key snd (numbered_keys keys)))
       \<and> (\<forall>h \<in> other_heads tabs target. \<exists>ob b. stored contents p ob b \<and> stored contents q ob b \<and> ob_header_page ob = h))"

context backing_file
begin

lemma write_table_good:
  assumes run: "write_table target rows coll others p = (Ok x, p')" and ok: "pager_ok disk contents p"
    and op: "opened_on contents c p" and head: "pg_header p = pager_page contents p 0"
    and apart: "set_apart contents p0 target obs others (other_heads tabs target)" and op0: "opened_on contents c p0"
    and rows: "\<forall>row \<in> set rows. row_ok row" and room: "pg_page_count p + 2 * length rows + 2 \<le> u32_max"
  shows "pager_ok disk contents p' \<and> copy_good contents tabs target rows coll c (contents (pg_file p'))"
proof -
  obtain written after where x: "x = (written, after)" by (cases x)
  obtain p1 where w: "config_replace target rows coll p = (Ok written, p1)" and sy: "pager_sync p1 = (Ok (), p')"
    by (rule write_table_Ok [OF run [unfolded x]])
  obtain r b i where held: "table_holds contents p target obs r b i"
    using apart opened_on_holds [OF op op0] by (auto simp: set_apart_def)
  have long: "length (pg_header p) = pg_page_size p"
    unfolding head using ok by (intro length_pager_page) (auto simp: pager_ok_def)
  note rs = replace_shows [OF w ok long held rows room]
  have r: "reads_only disk contents p1 p'" by (rule quietD [OF quiet_sync rs(2) sy])
  have op1: "opened_on contents (contents (pg_file p1)) p1" by (rule header_opened [OF op ok head rs(5,2,3)])
  obtain keys obs' where keys: "row_keys coll rows [] [] = Ok keys"
    and sh: "table_shows contents p1 target obs' rows (sort_key snd (numbered_keys keys))"
    and away: "\<forall>other c. stored contents p other c \<and> clear_of obs other \<longrightarrow> stored contents p1 other c \<and> clear_of obs' other"
    using rs(1) by blast
  have same: "contents (pg_file p') = contents (pg_file p1)" using r by (simp add: reads_only_def)
  have "copy_good contents tabs target rows coll c (contents (pg_file p1))"
    unfolding copy_good_def
  proof (intro allI impI conjI ballI)
    fix p2 q :: "('f, unit) pager"
    assume a: "opened_on contents c p2 \<and> opened_on contents (contents (pg_file p1)) q"
    have "table_shows contents q target obs' rows (sort_key snd (numbered_keys keys))"
      using sh opened_on_shows [OF op1, of q] a by simp
    then show "\<exists>obs keys. row_keys coll rows [] [] = Ok keys \<and> table_shows contents q target obs rows (sort_key snd (numbered_keys keys))"
      using keys by blast
    fix h assume "h \<in> other_heads tabs target"
    then obtain ob b where ob: "stored contents p0 ob b" "ob_header_page ob = h" "set (owned_pages ob) \<subseteq> others"
      using apart by (auto simp: set_apart_def)
    have "clear_of obs ob" using apart ob(3) by (auto simp: clear_of_pages set_apart_def)
    moreover have "stored contents p ob b" using ob(1) opened_on_stored [OF op0 op] by simp
    ultimately have "stored contents p1 ob b" using away by blast
    then have "stored contents q ob b" using opened_on_stored [OF op1, of q] a by simp
    moreover have "stored contents p2 ob b" using ob(1) opened_on_stored [OF op0, of p2] a by simp
    ultimately show "\<exists>ob b. stored contents p2 ob b \<and> stored contents q ob b \<and> ob_header_page ob = h" using ob(2) by blast
  qed
  then show ?thesis using r by (simp add: same reads_only_def)
qed

lemma write_into_copy_keeps:
  assumes run: "write_into_copy target rows backup s = (r, s')" and d: "ws_disk s = disk"
  shows "keeps_original s s'"
proof -
  obtain x s1 where one: "with_pager (examine (ws_tables s) target) s = (x, s1)"
    by (cases "with_pager (examine (ws_tables s) target) s")
  note k1 = with_pager_keeps [OF one quiet_examine d]
  show ?thesis
  proof (cases x)
    case (Inl e)
    then show ?thesis using run one k1 by (simp add: write_into_copy_def and_then_def)
  next
    case (Inr v)
    obtain before count others where v: "v = (before, count, others)" by (cases v)
    obtain y s2 where two: "write_checked target rows before others s1 = (y, s2)"
      by (cases "write_checked target rows before others s1")
    have "ws_disk s1 = disk" using k1 d by (simp add: keeps_original_def)
    note k2 = write_checked_Ok(1) [OF two this]
    have "s' = s2" using run one two Inr v by (auto simp: write_into_copy_def and_then_def ret_def split: sum.splits)
    then show ?thesis using keeps_original_trans [OF k1 k2] by simp
  qed
qed

lemma write_into_copy_good:
  assumes run: "write_into_copy target rows backup s = (Ok report, s')" and d: "ws_disk s = disk"
    and same: "contents (ws_copy s) = contents (ws_file s)"
    and cat: "catalogue_ok (ws_tables s)" and here: "ws_tables s (tb_name target) = Some target" and lay: "check_layout target = Ok ()"
    and rows: "\<forall>row \<in> set rows. row_ok row"
    and room: "read_u32 12 (take 24 (contents (ws_file s))) + 2 * length rows + 2 \<le> u32_max"
  shows "copy_good contents (ws_tables s) target rows (ws_collation s) (contents (ws_file s)) (contents (ws_copy s'))"
proof -
  let ?c = "contents (ws_file s)"
  obtain before count others s1 after where one: "with_pager (examine (ws_tables s) target) s = (Ok (before, count, others), s1)"
    and two: "write_checked target rows before others s1 = (Ok after, s')"
    using run by (auto simp: write_into_copy_def and_then_Ok ret_Ok)
  obtain p sa p1 where p: "session_pager (ws_file s) s = (Ok p, sa)"
    and ex: "examine (ws_tables s) target p = (Ok (before, count, others), p1)"
    and s1: "s1 = sa\<lparr>ws_file := pg_file p1, ws_budget := pg_budget p1\<rparr>"
  proof -
    obtain p sa where p: "session_pager (ws_file s) s = (Ok p, sa)"
      and m: "(case examine (ws_tables s) target p of (r, p1) \<Rightarrow> (r, sa\<lparr>ws_file := pg_file p1, ws_budget := pg_budget p1\<rparr>))
        = (Ok (before, count, others), s1)" using one by (auto simp: with_pager_def and_then_Ok)
    obtain y p1 where ex: "examine (ws_tables s) target p = (y, p1)" by (cases "examine (ws_tables s) target p")
    show thesis by (rule that [OF p, of p1]) (use m ex in simp_all)
  qed
  note sp = session_pager_Ok [OF p d]
  obtain obs where apart: "set_apart contents p target obs others (other_heads (ws_tables s) target)"
    by (rule examine_Ok [OF ex sp(1) cat here lay])
  obtain b where sa: "sa = s\<lparr>ws_budget := b\<rparr>" using sp(4) by blast
  have s1': "ws_disk s1 = disk" "ws_collation s1 = ws_collation s" "contents (ws_copy s1) = ?c"
    using d same by (simp_all add: s1 sa)
  show ?thesis
  proof (rule write_checked_Ok(2) [OF two s1'(1) refl, of "copy_good contents (ws_tables s) target rows (ws_collation s) ?c"])
    fix q q1 x
    assume w: "write_table target rows (ws_collation s1) others q = (Ok x, q1)" and q: "pager_ok disk contents q"
      "opened_on contents (contents (ws_copy s1)) q" "pg_header q = pager_page contents q 0"
    have op: "opened_on contents ?c q" using q(2) s1'(3) by simp
    have "pg_page_count q + 2 * length rows + 2 \<le> u32_max" using op room by (simp add: opened_on_def)
    then show "pager_ok disk contents q1 \<and> copy_good contents (ws_tables s) target rows (ws_collation s) ?c (contents (pg_file q1))"
      by (rule write_table_good [OF w [unfolded s1'(2)] q(1) op q(3) apart sp(2) rows])
  qed
qed

end

section \<open>The whole of it\<close>

context copying_file
begin

lemma write_copy_good:
  fixes s :: "('f, 'e) copy_session"
  assumes s: "ws_disk s = disk" "ws_read s = read" and fresh: "contents (ws_copy s) = []" "position (ws_copy s) = 0"
  shows "\<exists>r s'. write_copy kept target rows backup s = Some (r, s') \<and> keeps_original s s'
    \<and> (\<forall>report. r = Ok report \<and> catalogue_ok (ws_tables s) \<and> ws_tables s (tb_name target) = Some target
        \<and> check_layout target = Ok () \<and> (\<forall>row \<in> set rows. row_ok row)
        \<and> read_u32 12 (take 24 (contents (ws_file s))) + 2 * length rows + 2 \<le> u32_max \<longrightarrow>
          copy_good contents (ws_tables s) target rows (ws_collation s) (contents (ws_file s)) (contents (ws_copy s')))"
proof -
  obtain x f where sk: "bk_seek disk (ws_file s) 0 = (x, f)" by (cases "bk_seek disk (ws_file s) 0")
  have f: "contents f = contents (ws_file s)" by (rule seek_contents [OF sk])
  let ?s1 = "s\<lparr>ws_file := f\<rparr>"
  have k1: "keeps_original s ?s1" using f by (simp add: keeps_original_def)
  show ?thesis
  proof (cases "x = Ok () \<and> kept = Ok ()")
    case False
    then obtain e where "and_then (seek_original 0) (\<lambda>_. of_result kept) s = (Err e, ?s1)"
      using s sk by (cases x; cases kept) (auto simp: seek_original_def and_then_def of_result_def)
    then show ?thesis using k1 by (simp add: write_copy_def)
  next
    case True
    then have st: "and_then (seek_original 0) (\<lambda>_. of_result kept) s = (Ok (), ?s1)"
      using s sk by (simp add: seek_original_def and_then_def of_result_def)
    have "position f = 0" using seek_position sk True by simp
    then have fr: "contents (ws_copy ?s1) = take (position (ws_file ?s1)) (contents (ws_file ?s1))"
      "position (ws_copy ?s1) = length (contents (ws_copy ?s1))" using fresh by simp_all
    obtain y s2 where cp: "copy_checked ?s1 = Some (y, s2)" "contents (ws_file s2) = contents (ws_file ?s1)"
      "ws_disk s2 = disk" "ws_read s2 = read" "ws_tables s2 = ws_tables ?s1" "ws_collation s2 = ws_collation ?s1"
      "y = Ok () \<longrightarrow> contents (ws_copy s2) = contents (ws_file ?s1)"
      using copy_ends [of ?s1] s fr by auto
    have k2: "keeps_original s s2" using cp f s by (simp add: keeps_original_def)
    show ?thesis
    proof (cases y)
      case (Inl e)
      then show ?thesis using st cp(1) k2 by (simp add: write_copy_def)
    next
      case (Inr u)
      obtain r s' where w: "write_into_copy target rows backup s2 = (r, s')" by (cases "write_into_copy target rows backup s2")
      have k3: "keeps_original s s'" by (rule keeps_original_trans [OF k2 write_into_copy_keeps [OF w cp(3)]])
      have same: "contents (ws_copy s2) = contents (ws_file s2)" using cp Inr by simp
      have eqs: "ws_tables s2 = ws_tables s" "ws_collation s2 = ws_collation s" "contents (ws_file s2) = contents (ws_file s)"
        using k2 by (simp_all add: keeps_original_def)
      have "write_copy kept target rows backup s = Some (r, s')" using st cp(1) Inr w by (simp add: write_copy_def)
      then show ?thesis
        using k3 write_into_copy_good [OF _ cp(3) same, of target rows backup] w unfolding eqs by auto
    qed
  qed
qed

end

end
