(* ===== verification/Filedb_Publish_Laws.thy ===== *)
theory Filedb_Publish_Laws
  imports Filedb_Publish Filedb_Copy_Write
begin

text \<open>
  The publication is recoverable at every moment: each state of the directory holds the old database under
  its name, or the checked new one with the old one beside it.
\<close>

section \<open>The states of the directory\<close>

lemma names_apart [simp]:
  "work_name n \<noteq> n" "backup_name n \<noteq> n" "backup_work_name n \<noteq> n"
  "n \<noteq> work_name n" "n \<noteq> backup_name n" "n \<noteq> backup_work_name n"
  "work_name n \<noteq> backup_name n" "backup_name n \<noteq> work_name n" "work_name n \<noteq> backup_work_name n"
  "backup_work_name n \<noteq> work_name n" "backup_name n \<noteq> backup_work_name n" "backup_work_name n \<noteq> backup_name n"
  by (simp_all add: work_name_def backup_name_def backup_work_name_def sibling_def ascii_def)

text \<open>The name holds the old database: the locked file itself or its copy.\<close>

definition original_at :: "('f \<Rightarrow> bytes) \<Rightarrow> ('f, 'e, 'o) publication \<Rightarrow> directory \<Rightarrow> ustr \<Rightarrow> bool" where
  "original_at contents st d a \<longleftrightarrow> d a = Some Locked_File
     \<or> d a = Some Backup_Copy \<and> contents (pb_backup st) = contents (ws_file (pb_session st))"

text \<open>Nothing is published; the database is, the backup not yet; both are.\<close>

definition unpublished :: "ustr \<Rightarrow> file_id option \<Rightarrow> directory \<Rightarrow> bool" where
  "unpublished n old d \<longleftrightarrow> d n = Some Locked_File \<and> d (backup_name n) = old"

definition half_published :: "('f \<Rightarrow> bytes) \<Rightarrow> ('f, 'e, 'o) publication \<Rightarrow> ustr \<Rightarrow> file_id option \<Rightarrow> directory \<Rightarrow> bool" where
  "half_published contents st n old d \<longleftrightarrow>
     d n = Some Work_Copy \<and> original_at contents st d (backup_work_name n) \<and> d (backup_name n) = old"

definition published :: "('f \<Rightarrow> bytes) \<Rightarrow> ('f, 'e, 'o) publication \<Rightarrow> ustr \<Rightarrow> directory \<Rightarrow> bool" where
  "published contents st n d \<longleftrightarrow> d n = Some Work_Copy \<and> original_at contents st d (backup_name n)"

definition recoverable :: "('f \<Rightarrow> bytes) \<Rightarrow> ('f, 'e, 'o) publication \<Rightarrow> ustr \<Rightarrow> file_id option \<Rightarrow> directory \<Rightarrow> bool" where
  "recoverable contents st n old d \<longleftrightarrow>
     unpublished n old d \<or> half_published contents st n old d \<or> published contents st n d"

section \<open>Steps that touch neither name\<close>

definition watched :: "ustr \<Rightarrow> directory \<Rightarrow> file_id option \<times> file_id option" where
  "watched n d = (d n, d (backup_name n))"

definition steady :: "ustr \<Rightarrow> ('f, 'e, 'o) publication \<Rightarrow> ('f, 'e, 'o) publication \<Rightarrow> bool" where
  "steady n st st' \<longleftrightarrow> watched n (pb_dir st') = watched n (pb_dir st)
     \<and> (\<exists>ds. pb_seen st' = pb_seen st @ ds \<and> (\<forall>d \<in> set ds. watched n d = watched n (pb_dir st)))"

lemma steady_refl: "pb_dir st' = pb_dir st \<Longrightarrow> pb_seen st' = pb_seen st \<Longrightarrow> steady n st st'"
  by (simp add: steady_def)

lemma steady_trans:
  assumes "steady n a b" and "steady n b c"
  shows "steady n a c"
proof -
  obtain ds es where "pb_seen b = pb_seen a @ ds" "\<forall>d \<in> set ds. watched n d = watched n (pb_dir a)"
    "pb_seen c = pb_seen b @ es" "\<forall>d \<in> set es. watched n d = watched n (pb_dir b)"
    using assms unfolding steady_def by blast
  then show ?thesis using assms unfolding steady_def by (intro conjI exI [of _ "ds @ es"]) auto
qed

text \<open>The rest of the state across a call on the directory.\<close>

definition same_rest :: "('f, 'e, 'o) publication \<Rightarrow> ('f, 'e, 'o) publication \<Rightarrow> bool" where
  "same_rest st st' \<longleftrightarrow> pb_session st' = pb_session st \<and> pb_backup st' = pb_backup st"

lemma dir_call_steady:
  assumes "dir_call sys change st = (r, st')" and "\<And>d d'. change d = Inr d' \<Longrightarrow> watched n d' = watched n d"
  shows "steady n st st'" and "same_rest st st'"
  using assms
  by (auto simp: dir_call_def same_rest_def steady_def split: prod.splits option.splits sum.splits)

lemma create_new_steady:
  assumes "create_new sys i a st = (r, st')" and "a \<noteq> n" and "a \<noteq> backup_name n"
  shows "steady n st st'" and "same_rest st st'"
  using assms by (auto simp: create_new_def watched_def intro!: dir_call_steady split: if_splits)

lemma hard_link_steady:
  assumes "hard_link sys a b st = (r, st')" and "b \<noteq> n" and "b \<noteq> backup_name n"
  shows "steady n st st'" and "same_rest st st'"
  using assms by (auto simp: hard_link_def watched_def intro!: dir_call_steady split: if_splits option.splits)

lemma removed_steady:
  assumes "a \<noteq> n" and "a \<noteq> backup_name n"
  shows "steady n st (removed sys a st)" and "same_rest st (removed sys a st)"
proof -
  obtain r st' where r: "remove sys a st = (r, st')" by (cases "remove sys a st")
  show "steady n st (removed sys a st)" "same_rest st (removed sys a st)"
    using assms r by (auto simp: removed_def remove_def watched_def intro!: dir_call_steady split: if_splits)
qed

lemma answer_steady: "answer m st = (r, st') \<Longrightarrow> steady n st st' \<and> same_rest st st' \<and> pb_dir st' = pb_dir st"
  by (auto simp: answer_def same_rest_def intro: steady_refl split: prod.splits)

lemma require_leaf_steady:
  "require_leaf sys a i st = (r, st') \<Longrightarrow> steady n st st' \<and> same_rest st st' \<and> pb_dir st' = pb_dir st
     \<and> (r = Ok () \<longrightarrow> pb_dir st a = Some i)"
  by (auto simp: require_leaf_def same_rest_def intro: steady_refl split: prod.splits option.splits if_splits)

lemma metadata_steady: "file_metadata sys st = (r, st') \<Longrightarrow> steady n st st' \<and> same_rest st st' \<and> pb_dir st' = pb_dir st"
  by (auto simp: file_metadata_def same_rest_def intro: steady_refl split: prod.splits option.splits)

text \<open>An action that only asks.\<close>

definition asks :: "('f, 'e, 'o, 'a) pub_act \<Rightarrow> bool" where
  "asks m \<longleftrightarrow> (\<forall>st r st' n. m st = (r, st') \<longrightarrow> steady n st st' \<and> same_rest st st' \<and> pb_dir st' = pb_dir st)"

lemma asks_ret: "asks (ret x)"
  by (auto simp: asks_def ret_def same_rest_def intro: steady_refl)

lemma asks_answer: "asks (answer m)"
  unfolding asks_def using answer_steady by blast

lemma asks_metadata: "asks (file_metadata sys)"
  unfolding asks_def using metadata_steady by blast

lemma asks_leaf: "asks (require_leaf sys a i)"
  using require_leaf_steady by (fastforce simp: asks_def)

lemma asks_then:
  assumes "asks m" and "\<And>x. asks (f x)"
  shows "asks (and_then m f)"
  unfolding asks_def
proof (intro allI impI)
  fix st r st' n assume run: "and_then m f st = (r, st')"
  obtain y st1 where m: "m st = (y, st1)" by (cases "m st")
  have one: "steady n st st1 \<and> same_rest st st1 \<and> pb_dir st1 = pb_dir st" using assms(1) m by (simp add: asks_def)
  show "steady n st st' \<and> same_rest st st' \<and> pb_dir st' = pb_dir st"
  proof (cases y)
    case (Inl e)
    then show ?thesis using run m one by (auto simp: and_then_def)
  next
    case (Inr x)
    then have "f x st1 = (r, st')" using run m by (simp add: and_then_def)
    then have "steady n st1 st' \<and> same_rest st1 st' \<and> pb_dir st' = pb_dir st1" using assms(2) by (simp add: asks_def)
    then show ?thesis using one steady_trans by (auto simp: same_rest_def)
  qed
qed

lemma asks_binding: "asks (check_binding sys n)"
  unfolding check_binding_def by (intro asks_then asks_answer asks_leaf)

lemma asks_final: "asks (final_checks sys n work backup_work copied)"
  unfolding final_checks_def by (intro asks_then asks_answer asks_leaf asks_binding) (simp add: asks_then asks_answer asks_leaf)

lemma final_checks_Ok:
  assumes "final_checks sys n work backup_work copied st = (Ok u, st')"
  shows "pb_dir st n = Some Locked_File" and "pb_dir st work = Some Work_Copy"
    and "pb_dir st backup_work = Some (if copied then Backup_Copy else Locked_File)"
proof -
  obtain st1 st2 st3 st4 where s: "answer (os_gate sys) st = (Ok (), st1)" "check_binding sys n st1 = (Ok (), st2)"
    "require_leaf sys work Work_Copy st2 = (Ok (), st3)" "answer (os_owner sys) st3 = (Ok (), st4)"
    "(if copied then and_then (require_leaf sys backup_work Backup_Copy) (\<lambda>_. answer (os_owner sys))
      else require_leaf sys backup_work Locked_File) st4 = (Ok u, st')"
    using assms by (auto simp: final_checks_def and_then_Ok)
  obtain sta where a: "answer (os_bound sys) st1 = (Ok (), sta)" "require_leaf sys n Locked_File sta = (Ok (), st2)"
    using s(2) by (auto simp: check_binding_def and_then_Ok)
  have d: "pb_dir st1 = pb_dir st" "pb_dir sta = pb_dir st" "pb_dir st2 = pb_dir st" "pb_dir st3 = pb_dir st" "pb_dir st4 = pb_dir st"
    using answer_steady [OF s(1)] answer_steady [OF a(1)] require_leaf_steady [OF a(2)] require_leaf_steady [OF s(3)]
      answer_steady [OF s(4)] by simp_all
  show "pb_dir st n = Some Locked_File" using require_leaf_steady [OF a(2)] d by simp
  show "pb_dir st work = Some Work_Copy" using require_leaf_steady [OF s(3)] d by simp
  show "pb_dir st backup_work = Some (if copied then Backup_Copy else Locked_File)"
    using s(5) d by (auto simp: and_then_Ok dest!: require_leaf_steady split: if_splits)
qed

section \<open>The two renames\<close>

lemma rename_cases:
  assumes "rename sys a b st = (r, st')"
  shows "same_rest st st'"
    and "\<exists>k. r = Inl k \<and> pb_dir st' = pb_dir st \<and> pb_seen st' = pb_seen st
      \<or> r = Inr () \<and> (\<exists>i. pb_dir st a = Some i \<and> pb_dir st' = (if pb_dir st b = Some i then pb_dir st else ((pb_dir st)(a := None))(b \<mapsto> i)))
        \<and> pb_seen st' = pb_seen st @ [pb_dir st']"
  using assms by (auto simp: rename_def dir_call_def same_rest_def split: prod.splits option.splits)

text \<open>The states that the publication adds, and the last of them.\<close>

lemma steady_unpublished:
  assumes "steady n st st'" and "pb_dir st n = Some Locked_File"
  shows "unpublished n (pb_dir st (backup_name n)) (pb_dir st')"
    and "\<exists>ds. pb_seen st' = pb_seen st @ ds \<and> (\<forall>d \<in> set ds. unpublished n (pb_dir st (backup_name n)) d)"
  using assms by (auto simp: steady_def watched_def unpublished_def)

lemma publish_files_states:
  assumes run: "publish_files sys (work_name n) n (backup_work_name n) (backup_name n) st = (r, st')"
    and here: "pb_dir st n = Some Locked_File" and work: "pb_dir st (work_name n) = Some Work_Copy"
    and kept: "original_at contents st (pb_dir st) (backup_work_name n)"
  shows "same_rest st st'"
    and "\<exists>ds. pb_seen st' = pb_seen st @ ds \<and> (\<forall>d \<in> set ds. recoverable contents st n (pb_dir st (backup_name n)) d)"
    and "r = Ok u \<longrightarrow> published contents st n (pb_dir st')"
    and "r = Err (Db_Published m k) \<longrightarrow> m = backup_work_name n \<and> half_published contents st n (pb_dir st (backup_name n)) (pb_dir st')"
    and "r = Err e \<and> (\<forall>m k. e \<noteq> Db_Published m k) \<longrightarrow> unpublished n (pb_dir st (backup_name n)) (pb_dir st')"
proof -
  let ?old = "pb_dir st (backup_name n)" and ?w = "work_name n" and ?bw = "backup_work_name n"
  obtain x st1 where one: "rename sys ?w n st = (x, st1)" by (cases "rename sys ?w n st")
  note c1 = rename_cases [OF one]
  have "same_rest st st'
    \<and> (\<exists>ds. pb_seen st' = pb_seen st @ ds \<and> (\<forall>d \<in> set ds. recoverable contents st n ?old d))
    \<and> (r = Ok u \<longrightarrow> published contents st n (pb_dir st'))
    \<and> (r = Err (Db_Published m k) \<longrightarrow> m = ?bw \<and> half_published contents st n ?old (pb_dir st'))
    \<and> (r = Err e \<and> (\<forall>m k. e \<noteq> Db_Published m k) \<longrightarrow> unpublished n ?old (pb_dir st'))"
  proof (cases x)
    case (Inl j)
    let ?a = "removed sys ?w st1"
    have r: "r = Err (Db_Io j)" and st': "st' = removed sys ?bw ?a" using run one Inl by (simp_all add: publish_files_def)
    have same: "pb_dir st1 = pb_dir st" "pb_seen st1 = pb_seen st" using c1(2) Inl by auto
    have "steady n st1 st'"
      unfolding st' by (rule steady_trans [OF removed_steady(1) removed_steady(1)]) simp_all
    then have "steady n st st'" using steady_trans [OF steady_refl [OF same]] by blast
    note u = steady_unpublished [OF this here]
    have "same_rest st st'"
      using c1(1) removed_steady(2) [of ?w n st1 sys] removed_steady(2) [of ?bw n ?a sys] by (simp add: st' same_rest_def)
    then show ?thesis using u r by (auto simp: recoverable_def)
  next
    case (Inr v)
    have d1: "pb_dir st1 = ((pb_dir st)(?w := None))(n \<mapsto> Work_Copy)" "pb_seen st1 = pb_seen st @ [pb_dir st1]"
      using c1(2) Inr here work by auto
    have half: "half_published contents st n ?old (pb_dir st1)"
      using kept by (simp add: half_published_def d1(1) original_at_def)
    obtain y st2 where two: "rename sys ?bw (backup_name n) st1 = (y, st2)" by (cases "rename sys ?bw (backup_name n) st1")
    note c2 = rename_cases [OF two]
    have st': "st' = st2" "r = (case y of Inl j \<Rightarrow> Err (Db_Published ?bw j) | Inr _ \<Rightarrow> Ok ())"
      using run one two Inr by (auto simp: publish_files_def split: sum.splits)
    have rest: "same_rest st st'" using c1(1) c2(1) by (simp add: st'(1) same_rest_def)
    show ?thesis
    proof (cases y)
      case (Inl j)
      then have "pb_dir st2 = pb_dir st1" "pb_seen st2 = pb_seen st1" using c2(2) by auto
      then show ?thesis using rest half d1(2) st' Inl by (auto simp: recoverable_def)
    next
      case (Inr v)
      then obtain i where i: "pb_dir st1 ?bw = Some i" and d2: "pb_dir st2 = (if pb_dir st1 (backup_name n) = Some i
          then pb_dir st1 else ((pb_dir st1)(?bw := None))(backup_name n \<mapsto> i))" and seen2: "pb_seen st2 = pb_seen st1 @ [pb_dir st2]"
        using c2(2) by auto
      have "pb_dir st2 n = Some Work_Copy" "pb_dir st2 (backup_name n) = Some i" by (auto simp: d2 d1(1))
      moreover have "pb_dir st ?bw = Some i" using i by (simp add: d1(1))
      ultimately have "published contents st n (pb_dir st2)" using kept by (simp add: published_def original_at_def)
      then show ?thesis using rest half d1(2) seen2 st' Inr by (auto simp: recoverable_def)
    qed
  qed
  then show "same_rest st st'"
    and "\<exists>ds. pb_seen st' = pb_seen st @ ds \<and> (\<forall>d \<in> set ds. recoverable contents st n ?old d)"
    and "r = Ok u \<longrightarrow> published contents st n (pb_dir st')"
    and "r = Err (Db_Published m k) \<longrightarrow> m = ?bw \<and> half_published contents st n ?old (pb_dir st')"
    and "r = Err e \<and> (\<forall>m k. e \<noteq> Db_Published m k) \<longrightarrow> unpublished n ?old (pb_dir st')"
    by blast+
qed

section \<open>Steps on the files\<close>

context copying_file
begin

text \<open>The watched names, the locked file and the work file are kept.\<close>

definition held :: "ustr \<Rightarrow> ('f, 'e, 'o) publication \<Rightarrow> ('f, 'e, 'o) publication \<Rightarrow> bool" where
  "held n st st' \<longleftrightarrow> steady n st st' \<and> keeps_original (pb_session st) (pb_session st')
     \<and> ws_copy (pb_session st') = ws_copy (pb_session st)"

lemma held_trans: "held n a b \<Longrightarrow> held n b c \<Longrightarrow> held n a c"
  unfolding held_def using steady_trans keeps_original_trans by metis

lemma same_rest_held: "steady n st st' \<Longrightarrow> same_rest st st' \<Longrightarrow> held n st st'"
  by (simp add: held_def same_rest_def keeps_original_def)

lemma asks_held: "asks m \<Longrightarrow> m st = (r, st') \<Longrightarrow> held n st st'"
  by (simp add: asks_def same_rest_held)

lemma removed_held: "a \<noteq> n \<Longrightarrow> a \<noteq> backup_name n \<Longrightarrow> held n st (removed sys a st)"
  by (rule same_rest_held [OF removed_steady])

lemma copy_to_backup_ends:
  fixes st :: "('f, 'e, 'o) publication"
  assumes s: "ws_disk (pb_session st) = disk" "ws_read (pb_session st) = read"
    and fresh: "contents (pb_backup st) = []" "position (pb_backup st) = 0"
  shows "\<exists>r st'. copy_to_backup st = Some (r, st') \<and> held n st st' \<and> pb_dir st' = pb_dir st
    \<and> (r = Ok () \<longrightarrow> contents (pb_backup st') = contents (ws_file (pb_session st)))"
proof -
  let ?s = "pb_session st" and ?t = "(pb_session st)\<lparr>ws_copy := pb_backup st\<rparr>"
  obtain x f where sk: "bk_seek disk (ws_file ?s) 0 = (x, f)" by (cases "bk_seek disk (ws_file ?s) 0")
  have f: "contents f = contents (ws_file ?s)" by (rule seek_contents [OF sk])
  have steady: "steady n st (st\<lparr>pb_session := a, pb_backup := b\<rparr>)" "steady n st (st\<lparr>pb_session := a\<rparr>)" for a b
    by (simp_all add: steady_refl)
  show ?thesis
  proof (cases x)
    case (Inl k)
    have "seek_original 0 ?t = (Err (Db_Io k), ?t\<lparr>ws_file := f\<rparr>)" using s sk Inl by (simp add: seek_original_def)
    then show ?thesis using f steady by (simp add: copy_to_backup_def held_def keeps_original_def)
  next
    case (Inr u)
    let ?t1 = "?t\<lparr>ws_file := f\<rparr>"
    have st1: "seek_original 0 ?t = (Ok (), ?t1)" using s sk Inr by (simp add: seek_original_def)
    have "position f = 0" using seek_position sk Inr by simp
    then have "contents (ws_copy ?t1) = take (position (ws_file ?t1)) (contents (ws_file ?t1))"
      "position (ws_copy ?t1) = length (contents (ws_copy ?t1))" using fresh by simp_all
    then obtain y t2 where cp: "copy_checked ?t1 = Some (y, t2)" "contents (ws_file t2) = contents (ws_file ?t1)"
      "ws_disk t2 = disk" "ws_read t2 = read" "ws_tables t2 = ws_tables ?t1" "ws_collation t2 = ws_collation ?t1"
      "y = Ok () \<longrightarrow> contents (ws_copy t2) = contents (ws_file ?t1)"
      using copy_ends [of ?t1] s by auto
    show ?thesis using st1 cp f s steady by (simp add: copy_to_backup_def held_def keeps_original_def)
  qed
qed

lemma sync_backup_held:
  assumes "sync_backup st = (r, st')" and d: "ws_disk (pb_session st) = disk"
  shows "held n st st'" and "pb_dir st' = pb_dir st" and "contents (pb_backup st') = contents (pb_backup st)"
proof -
  obtain x f where sy: "bk_sync disk (pb_backup st) = (x, f)" by (cases "bk_sync disk (pb_backup st)")
  have "st' = st\<lparr>pb_backup := f\<rparr>" using assms sy by (auto simp: sync_backup_def split: sum.splits)
  then show "held n st st'" "pb_dir st' = pb_dir st" "contents (pb_backup st') = contents (pb_backup st)"
    using sync_contents [OF sy] by (simp_all add: held_def keeps_original_def steady_refl)
qed

text \<open>The steps of the copied backup.\<close>

lemma copied_backup:
  fixes st :: "('f, 'e, 'o) publication"
  assumes s: "ws_disk (pb_session st) = disk" "ws_read (pb_session st) = read"
    and fresh: "contents (pb_backup st) = []" "position (pb_backup st) = 0"
  shows "\<exists>r st'. and_next (once (answer (os_owner sys))) (\<lambda>_. and_next copy_to_backup (\<lambda>_.
      and_next (once (answer (os_owner sys))) (\<lambda>_. and_next (once sync_backup) (\<lambda>_. once (ret True))))) st = Some (r, st')
    \<and> held n st st' \<and> (\<forall>c. r = Ok c \<longrightarrow> c \<and> contents (pb_backup st') = contents (ws_file (pb_session st)))"
proof -
  obtain a st1 where one: "answer (os_owner sys) st = (a, st1)" by (cases "answer (os_owner sys) st")
  have h1: "held n st st1" "same_rest st st1" using asks_held [OF asks_answer one] answer_steady [OF one] by blast+
  have s1: "ws_disk (pb_session st1) = disk" "ws_read (pb_session st1) = read" "contents (pb_backup st1) = []"
    "position (pb_backup st1) = 0" using h1(2) s fresh by (simp_all add: same_rest_def)
  obtain b st2 where two: "copy_to_backup st1 = Some (b, st2)" "held n st1 st2"
    "b = Ok () \<longrightarrow> contents (pb_backup st2) = contents (ws_file (pb_session st1))"
    using copy_to_backup_ends [OF s1] by blast
  obtain c st3 where three: "answer (os_owner sys) st2 = (c, st3)" by (cases "answer (os_owner sys) st2")
  have h3: "held n st2 st3" "same_rest st2 st3" using asks_held [OF asks_answer three] answer_steady [OF three] by blast+
  obtain d st4 where four: "sync_backup st3 = (d, st4)" by (cases "sync_backup st3")
  have "ws_disk (pb_session st3) = disk" using h3(2) two(2) s1 by (simp add: held_def keeps_original_def same_rest_def)
  note h4 = sync_backup_held(1) [OF four this, of n] sync_backup_held(2,3) [OF four this]
  have h: "held n st st2" "held n st st3" "held n st st4"
    using held_trans h1(1) two(2) h3(1) h4(1) by blast+
  have good: "contents (pb_backup st4) = contents (ws_file (pb_session st))" if "b = Ok ()"
    using that two(3) h1(2) h3(2) h4(3) by (simp add: same_rest_def)
  show ?thesis
    using one two(1) three four h1(1) h good
    by (cases a; cases b; cases c; cases d) (simp_all add: and_next_def once_def ret_def)
qed

lemma prepare_backup_held:
  fixes st :: "('f, 'e, 'o) publication"
  assumes s: "ws_disk (pb_session st) = disk" "ws_read (pb_session st) = read"
    and fresh: "contents created = []" "position created = 0"
  shows "\<exists>r st'. prepare_backup sys created n (backup_work_name n) st = Some (r, st') \<and> held n st st'
    \<and> (r = Ok True \<longrightarrow> contents (pb_backup st') = contents (ws_file (pb_session st)))"
proof -
  let ?bw = "backup_work_name n"
  obtain a st1 where one: "check_binding sys n st = (a, st1)" by (cases "check_binding sys n st")
  have h1: "held n st st1" "same_rest st st1"
    using asks_held [OF asks_binding one] asks_binding [of sys n] one by (auto simp: asks_def)
  show ?thesis
  proof (cases a)
    case (Inl e)
    then show ?thesis using one h1 by (simp add: prepare_backup_def and_next_def once_def)
  next
    case (Inr u)
    obtain x st2 where link: "hard_link sys n ?bw st1 = (x, st2)" by (cases "hard_link sys n ?bw st1")
    have h2: "held n st1 st2" "same_rest st1 st2"
      using hard_link_steady [OF link, of n] same_rest_held by (simp_all add: backup_work_name_def [symmetric])
    show ?thesis
    proof (cases x)
      case (Inr v)
      obtain y st3 where leaf: "and_then (require_leaf sys ?bw Locked_File) (\<lambda>_. ret False) st2 = (y, st3)"
        by (cases "and_then (require_leaf sys ?bw Locked_File) (\<lambda>_. ret False) st2")
      have "held n st2 st3" by (rule asks_held [OF asks_then [OF asks_leaf asks_ret] leaf])
      moreover have "y \<noteq> Ok True" using leaf by (auto simp: and_then_def ret_def split: prod.splits sum.splits)
      ultimately show ?thesis using one \<open>a = Inr u\<close> link Inr leaf held_trans [OF held_trans [OF h1(1) h2(1)]]
        by (simp add: prepare_backup_def prepare_backup_file_def and_next_def once_def)
    next
      case (Inl k)
      obtain z st3 where new: "create_new sys Backup_Copy ?bw st2 = (z, st3)" by (cases "create_new sys Backup_Copy ?bw st2")
      have h3: "held n st2 st3" "same_rest st2 st3"
        using create_new_steady [OF new, of n] same_rest_held by simp_all
      have h: "held n st st3" by (rule held_trans [OF held_trans [OF h1(1) h2(1)] h3(1)])
      show ?thesis
      proof (cases z)
        case (Inl j)
        then show ?thesis using one \<open>a = Inr u\<close> link \<open>x = Inl k\<close> new h
          by (simp add: prepare_backup_def prepare_backup_file_def and_next_def once_def)
      next
        case (Inr v)
        let ?st = "st3\<lparr>pb_backup := created\<rparr>"
        have same: "pb_session ?st = pb_session st" using h1(2) h2(2) h3(2) by (simp add: same_rest_def)
        have hs: "held n st ?st" using h by (simp add: held_def steady_def)
        obtain r st4 where run: "and_next (once (answer (os_owner sys))) (\<lambda>_. and_next copy_to_backup (\<lambda>_.
            and_next (once (answer (os_owner sys))) (\<lambda>_. and_next (once sync_backup) (\<lambda>_. once (ret True))))) ?st = Some (r, st4)"
          and h4: "held n ?st st4" and good: "\<forall>c. r = Ok c \<longrightarrow> c \<and> contents (pb_backup st4) = contents (ws_file (pb_session st))"
          using copied_backup [of ?st sys n] s fresh same by auto
        have hc: "held n st st4" "held n st (removed sys ?bw st4)"
          using held_trans [OF hs h4] held_trans [OF held_trans [OF hs h4] removed_held] by simp_all
        show ?thesis using one \<open>a = Inr u\<close> link \<open>x = Inl k\<close> new Inr run hc good
          by (cases r) (simp_all add: prepare_backup_def prepare_backup_file_def and_next_def once_def or_clean_def)
      qed
    qed
  qed
qed

section \<open>The whole replacement\<close>

definition calm :: "ustr \<Rightarrow> ('f, 'e, 'o) publication \<Rightarrow> ('f, 'e, 'o) publication \<Rightarrow> bool" where
  "calm n st st' \<longleftrightarrow> steady n st st' \<and> keeps_original (pb_session st) (pb_session st')"

lemma calm_trans: "calm n a b \<Longrightarrow> calm n b c \<Longrightarrow> calm n a c"
  unfolding calm_def using steady_trans keeps_original_trans by metis

lemma held_calm: "held n st st' \<Longrightarrow> calm n st st'"
  by (simp add: held_def calm_def)

lemma calm_dir: "calm n st st' \<Longrightarrow> pb_dir st' n = pb_dir st n \<and> pb_dir st' (backup_name n) = pb_dir st (backup_name n)"
  by (simp add: calm_def steady_def watched_def)

text \<open>What a run has shown of the state that it leaves; \<open>Q\<close> is a property of the content of the work file.\<close>

definition outcome :: "(bytes \<Rightarrow> bool) \<Rightarrow> ustr \<Rightarrow> ('f, 'e, 'o) publication \<Rightarrow> db_error + 'a \<Rightarrow> ('f, 'e, 'o) publication \<Rightarrow> bool" where
  "outcome Q n st r st' \<longleftrightarrow> keeps_original (pb_session st) (pb_session st')
     \<and> (\<exists>ds. pb_seen st' = pb_seen st @ ds \<and> (\<forall>d \<in> set ds. recoverable contents st' n (pb_dir st (backup_name n)) d
          \<and> (d n = Some Work_Copy \<longrightarrow> Q (contents (ws_copy (pb_session st'))))))
     \<and> (\<forall>x. r = Ok x \<longrightarrow> published contents st' n (pb_dir st') \<and> Q (contents (ws_copy (pb_session st'))))"

lemma outcome_error: "calm n st st' \<Longrightarrow> pb_dir st n = Some Locked_File \<Longrightarrow> outcome Q n st (Err e) st'"
  using steady_unpublished(2) [of n st st']
  by (fastforce simp: outcome_def calm_def recoverable_def unpublished_def)

lemma outcome_after:
  assumes c: "calm n st st1" and here: "pb_dir st n = Some Locked_File" and rest: "outcome Q n st1 r st'"
  shows "outcome Q n st r st'"
proof -
  obtain ds where ds: "pb_seen st1 = pb_seen st @ ds" "\<forall>d \<in> set ds. unpublished n (pb_dir st (backup_name n)) d"
    using steady_unpublished(2) [OF _ here] c by (auto simp: calm_def)
  obtain es where es: "pb_seen st' = pb_seen st1 @ es" "\<forall>d \<in> set es. recoverable contents st' n (pb_dir st1 (backup_name n)) d
      \<and> (d n = Some Work_Copy \<longrightarrow> Q (contents (ws_copy (pb_session st'))))"
    using rest by (auto simp: outcome_def)
  have "\<forall>d \<in> set (ds @ es). recoverable contents st' n (pb_dir st (backup_name n)) d
      \<and> (d n = Some Work_Copy \<longrightarrow> Q (contents (ws_copy (pb_session st'))))"
    using ds(2) es(2) calm_dir [OF c] by (auto simp: recoverable_def unpublished_def)
  then show ?thesis using rest c ds(1) es(1) keeps_original_trans unfolding outcome_def calm_def
    by (intro conjI exI [of _ "ds @ es"]) auto
qed

lemma outcome_next:
  assumes m: "m st = Some (x, st1)" and c: "calm n st st1" and here: "pb_dir st n = Some Locked_File"
    and f: "\<And>v. x = Ok v \<Longrightarrow> \<exists>r st'. f v st1 = Some (r, st') \<and> outcome Q n st1 r st'"
  shows "\<exists>r st'. and_next m f st = Some (r, st') \<and> outcome Q n st r st'"
proof (cases x)
  case (Inl e)
  then show ?thesis using m outcome_error [OF c here] by (simp add: and_next_def)
next
  case (Inr v)
  obtain r st' where "f v st1 = Some (r, st')" "outcome Q n st1 r st'" using f [OF Inr] by blast
  then show ?thesis using m Inr outcome_after [OF c here] by (simp add: and_next_def)
qed

lemma outcome_asks:
  assumes "asks m" and here: "pb_dir st n = Some Locked_File"
    and f: "\<And>v st1. m st = (Ok v, st1) \<Longrightarrow> same_rest st st1 \<Longrightarrow> pb_dir st1 = pb_dir st \<Longrightarrow>
      \<exists>r st'. f v st1 = Some (r, st') \<and> outcome Q n st1 r st'"
  shows "\<exists>r st'. and_next (once m) f st = Some (r, st') \<and> outcome Q n st r st'"
proof -
  obtain x st1 where m: "m st = (x, st1)" by (cases "m st")
  have a: "same_rest st st1" "pb_dir st1 = pb_dir st" using assms(1) m unfolding asks_def by blast+
  show ?thesis
    by (rule outcome_next [OF _ held_calm [OF asks_held [OF assms(1) m]] here]) (use m f a in \<open>auto simp: once_def\<close>)
qed

text \<open>An attempt that is cleaned up when it fails.\<close>

lemma outcome_clean:
  assumes m: "m st = Some (x, st1)" and c: "calm n st st1" and here: "pb_dir st n = Some Locked_File"
    and clean: "held n st1 (clean st1)"
    and f: "\<And>v. x = Ok v \<Longrightarrow> \<exists>r st'. f v st1 = Some (r, st') \<and> outcome Q n st1 r st'"
  shows "\<exists>r st'. and_next (or_clean m clean) f st = Some (r, st') \<and> outcome Q n st r st'"
proof (rule outcome_next [OF _ _ here])
  show "or_clean m clean st = Some (x, case x of Inl _ \<Rightarrow> clean st1 | Inr _ \<Rightarrow> st1)"
    using m by (simp add: or_clean_def split: sum.splits)
  show "calm n st (case x of Inl _ \<Rightarrow> clean st1 | Inr _ \<Rightarrow> st1)"
    using c calm_trans [OF c held_calm [OF clean]] by (simp split: sum.splits)
  fix v assume "x = Ok v"
  then show "\<exists>r st'. f v (case x of Inl _ \<Rightarrow> clean st1 | Inr _ \<Rightarrow> st1) = Some (r, st')
      \<and> outcome Q n (case x of Inl _ \<Rightarrow> clean st1 | Inr _ \<Rightarrow> st1) r st'" using f by simp
qed

lemma outcome_publish:
  assumes work: "pb_dir st (work_name n) = Some Work_Copy" and here: "pb_dir st n = Some Locked_File"
    and kept: "original_at contents st (pb_dir st) (backup_work_name n)" and good: "Q (contents (ws_copy (pb_session st)))"
  shows "\<exists>r st'. and_next (once (publish_files sys (work_name n) n (backup_work_name n) (backup_name n)))
      (\<lambda>_. once (ret report)) st = Some (r, st') \<and> outcome Q n st r st'"
proof -
  obtain x st1 where run: "publish_files sys (work_name n) n (backup_work_name n) (backup_name n) st = (x, st1)"
    by (cases "publish_files sys (work_name n) n (backup_work_name n) (backup_name n) st")
  note p = publish_files_states [OF run here work kept]
  have same: "original_at contents st1 = original_at contents st"
    using p(1) by (simp add: fun_eq_iff original_at_def same_rest_def)
  have moved: "recoverable contents st1 = recoverable contents st" "published contents st1 = published contents st"
    by (simp_all add: fun_eq_iff recoverable_def half_published_def published_def same)
  have session: "pb_session st1 = pb_session st" using p(1) by (simp add: same_rest_def)
  obtain ds where ds: "pb_seen st1 = pb_seen st @ ds" "\<forall>d \<in> set ds. recoverable contents st n (pb_dir st (backup_name n)) d"
    using p(2) by blast
  show ?thesis
  proof (cases x)
    case (Inl e)
    then show ?thesis using run ds good session moved
      by (auto simp: and_next_def once_def outcome_def keeps_original_def)
  next
    case (Inr u)
    then show ?thesis using run ds good session moved p(3) [of u]
      by (auto simp: and_next_def once_def outcome_def keeps_original_def ret_def)
  qed
qed

lemma create_work_calm:
  assumes run: "create_work sys created (work_name n) st = (r, st')"
  shows "calm n st st'"
    and "r = Ok u \<Longrightarrow> pb_session st' = (pb_session st)\<lparr>ws_copy := created\<rparr>"
proof -
  obtain x st1 where new: "create_new sys Work_Copy (work_name n) st = (x, st1)" by (cases "create_new sys Work_Copy (work_name n) st")
  have c: "steady n st st1" "same_rest st st1" using create_new_steady [OF new, of n] by simp_all
  have "calm n st st' \<and> (r = Ok u \<longrightarrow> pb_session st' = (pb_session st)\<lparr>ws_copy := created\<rparr>)"
    using run new c by (auto simp: create_work_def calm_def same_rest_def keeps_original_def steady_def split: sum.splits)
  then show "calm n st st'" "r = Ok u \<Longrightarrow> pb_session st' = (pb_session st)\<lparr>ws_copy := created\<rparr>" by blast+
qed

lemma write_work_calm:
  fixes st :: "('f, 'e, 'o) publication"
  assumes s: "ws_disk (pb_session st) = disk" "ws_read (pb_session st) = read"
    and fresh: "contents (ws_copy (pb_session st)) = []" "position (ws_copy (pb_session st)) = 0"
  shows "\<exists>r st' kept. write_work sys target rows backup st = Some (r, st') \<and> calm n st st'
    \<and> write_copy kept target rows backup (pb_session st) = Some (r, pb_session st')"
proof -
  obtain kept v where o: "os_owner sys (pb_os st) = (kept, v)" by (cases "os_owner sys (pb_os st)")
  obtain r s' where w: "write_copy kept target rows backup (pb_session st) = Some (r, s')" "keeps_original (pb_session st) s'"
    using write_copy_good [OF s fresh] by blast
  have "write_work sys target rows backup st = Some (r, st\<lparr>pb_session := s', pb_os := v\<rparr>)"
    using o w(1) by (simp add: write_work_def)
  moreover have "calm n st (st\<lparr>pb_session := s', pb_os := v\<rparr>)" using w(2) by (simp add: calm_def steady_refl)
  ultimately show ?thesis using w(1) by force
qed

lemma asks_of_result: "asks (\<lambda>st. of_result (g st) st)"
  by (auto simp: asks_def of_result_def same_rest_def intro: steady_refl)

lemma replace_guarded_outcome:
  fixes st :: "('f, 'e, 'o) publication"
  assumes s: "ws_disk (pb_session st) = disk" "ws_read (pb_session st) = read"
    and fresh: "contents created = []" "position created = 0" and here: "pb_dir st n = Some Locked_File"
    and good: "\<And>target kept backup report s'. config_table (ws_tables (pb_session st)) table_name = Ok target \<Longrightarrow>
      write_copy kept target rows backup ((pb_session st)\<lparr>ws_copy := created\<rparr>) = Some (Ok report, s') \<Longrightarrow> Q (contents (ws_copy s'))"
  shows "\<exists>r st'. replace_guarded sys created n table_name rows st = Some (r, st') \<and> outcome Q n st r st'"
  unfolding replace_guarded_def Let_def
proof (rule outcome_asks [OF asks_metadata here])
  fix u0 st0 assume "file_metadata sys st = (Ok u0, st0)" and s0: "same_rest st st0" and d0: "pb_dir st0 = pb_dir st"
  have here0: "pb_dir st0 n = Some Locked_File" using d0 here by simp
  let ?table = "\<lambda>st. once (of_result (config_table (ws_tables (pb_session st)) table_name)) st"
  have table: "?table = once (\<lambda>st. of_result (config_table (ws_tables (pb_session st)) table_name) st)"
    by (simp add: fun_eq_iff once_def)
  let ?w = "work_name n" and ?b = "backup_name n" and ?bw = "backup_work_name n"
  let ?publish = "\<lambda>report. and_next (once (publish_files sys ?w n ?bw ?b)) (\<lambda>_. once (ret report))"
  let ?checks = "\<lambda>report copied. and_next (or_clean (once (final_checks sys n ?w ?bw copied))
      (\<lambda>st. removed sys ?bw (removed sys ?w st))) (\<lambda>_. ?publish report)"
  let ?final = "\<lambda>report copied. and_next (once (file_metadata sys)) (\<lambda>_. ?checks report copied)"
  let ?prepare = "\<lambda>report. and_next (or_clean (prepare_backup sys created n ?bw) (removed sys ?w)) (?final report)"
  let ?put_in = "\<lambda>target. and_next (or_clean (write_work sys target rows ?b) (removed sys ?w)) ?prepare"
  let ?create = "\<lambda>target. and_next (once (create_work sys created ?w)) (\<lambda>_. ?put_in target)"
  let ?bound = "and_next (once (check_binding sys n)) (\<lambda>_. if table_name \<notin> set CONFIG_TABLES
      then once (fail (Db_Refused (In_Session (Table_Not_Written table_name)))) else and_next ?table ?create)"
  show "\<exists>r st'. and_next (once (answer (os_gate sys))) (\<lambda>_. ?bound) st0 = Some (r, st') \<and> outcome Q n st0 r st'"
  proof (rule outcome_asks [OF asks_answer here0])
  fix u1 st1 assume "answer (os_gate sys) st0 = (Ok u1, st1)" and s1': "same_rest st0 st1" and d1': "pb_dir st1 = pb_dir st0"
  have s1: "same_rest st st1" and d1: "pb_dir st1 = pb_dir st" using s0 s1' d0 d1' by (simp_all add: same_rest_def)
  have here1: "pb_dir st1 n = Some Locked_File" using d1 here by simp
  show "\<exists>r st'. and_next (once (check_binding sys n)) (\<lambda>_. if table_name \<notin> set CONFIG_TABLES
      then once (fail (Db_Refused (In_Session (Table_Not_Written table_name)))) else and_next ?table ?create) st1
      = Some (r, st') \<and> outcome Q n st1 r st'"
  proof (rule outcome_asks [OF asks_binding here1])
    fix u2 st2 assume "check_binding sys n st1 = (Ok u2, st2)" and s2: "same_rest st1 st2" and d2: "pb_dir st2 = pb_dir st1"
    have here2: "pb_dir st2 n = Some Locked_File" using d2 here1 by simp
    have session2: "pb_session st2 = pb_session st" using s1 s2 by (simp add: same_rest_def)
    show "\<exists>r st'. (if table_name \<notin> set CONFIG_TABLES then once (fail (Db_Refused (In_Session (Table_Not_Written table_name))))
        else and_next ?table ?create) st2 = Some (r, st') \<and> outcome Q n st2 r st'"
    proof (cases "table_name \<in> set CONFIG_TABLES")
      case False
      have "calm n st2 st2" by (simp add: calm_def steady_refl keeps_original_def)
      then show ?thesis using False outcome_error [OF _ here2] by (simp add: once_def fail_def)
    next
      case True
      have "\<exists>r st'. and_next ?table ?create st2 = Some (r, st') \<and> outcome Q n st2 r st'"
        unfolding table
      proof (rule outcome_asks [OF asks_of_result here2])
        fix target st3
        assume "(\<lambda>st. of_result (config_table (ws_tables (pb_session st)) table_name) st) st2 = (Ok target, st3)"
        then have target: "config_table (ws_tables (pb_session st)) table_name = Ok target" and st3: "st3 = st2"
          by (simp_all add: of_result_def session2)
        obtain x st4 where new: "create_work sys created ?w st3 = (x, st4)" by (cases "create_work sys created ?w st3")
        note c4 = create_work_calm(1) [OF new]
        have here3: "pb_dir st3 n = Some Locked_File" using here2 st3 by simp
        show "\<exists>r st'. ?create target st3 = Some (r, st') \<and> outcome Q n st3 r st'"
        proof (rule outcome_next [OF _ c4 here3])
          show "once (create_work sys created ?w) st3 = Some (x, st4)" using new by (simp add: once_def)
          fix u4 assume x: "x = Ok u4"
          have session4: "pb_session st4 = (pb_session st)\<lparr>ws_copy := created\<rparr>"
            using create_work_calm(2) [OF new x] session2 st3 by simp
          have here4: "pb_dir st4 n = Some Locked_File" using calm_dir [OF c4] here3 by simp
          have s4: "ws_disk (pb_session st4) = disk" "ws_read (pb_session st4) = read"
            "contents (ws_copy (pb_session st4)) = []" "position (ws_copy (pb_session st4)) = 0"
            using s fresh by (simp_all add: session4)
          obtain y st5 kept where w: "write_work sys target rows ?b st4 = Some (y, st5)" and c5: "calm n st4 st5"
            and wc: "write_copy kept target rows ?b (pb_session st4) = Some (y, pb_session st5)"
            using write_work_calm [OF s4] by blast
          show "\<exists>r st'. ?put_in target st4 = Some (r, st') \<and> outcome Q n st4 r st'"
          proof (rule outcome_clean [where m = "write_work sys target rows ?b" and st = st4 and x = y and ?st1.0 = st5, OF w c5 here4])
            show "held n st5 (removed sys ?w st5)" by (rule removed_held) simp_all
            fix report assume y: "y = Ok report"
            have q5: "Q (contents (ws_copy (pb_session st5)))" by (rule good [OF target wc [unfolded session4 y]])
            have here5: "pb_dir st5 n = Some Locked_File" using calm_dir [OF c5] here4 by simp
            have s5: "ws_disk (pb_session st5) = disk" "ws_read (pb_session st5) = read"
              using c5 s4 by (simp_all add: calm_def keeps_original_def)
            obtain z st6 where prep: "prepare_backup sys created n ?bw st5 = Some (z, st6)" and h6: "held n st5 st6"
              and backup: "z = Ok True \<longrightarrow> contents (pb_backup st6) = contents (ws_file (pb_session st5))"
              using prepare_backup_held [OF s5 fresh] by blast
            show "\<exists>r st'. ?prepare report st5 = Some (r, st') \<and> outcome Q n st5 r st'"
            proof (rule outcome_clean [where m = "prepare_backup sys created n ?bw" and st = st5 and x = z and ?st1.0 = st6, OF prep held_calm [OF h6] here5])
              show "held n st6 (removed sys ?w st6)" by (rule removed_held) simp_all
              fix copied assume z: "z = Ok copied"
              have here6: "pb_dir st6 n = Some Locked_File" using calm_dir [OF held_calm [OF h6]] here5 by simp
              show "\<exists>r st'. ?final report copied st6 = Some (r, st') \<and> outcome Q n st6 r st'"
              proof (rule outcome_asks [OF asks_metadata here6])
                fix u m6 assume "file_metadata sys st6 = (Ok u, m6)" and am: "same_rest st6 m6" "pb_dir m6 = pb_dir st6"
                have herem: "pb_dir m6 n = Some Locked_File" using am(2) here6 by simp
                obtain v st7 where fin: "final_checks sys n ?w ?bw copied m6 = (v, st7)"
                  by (cases "final_checks sys n ?w ?bw copied m6")
                have a7: "same_rest m6 st7" "pb_dir st7 = pb_dir m6"
                  using asks_final [of sys n ?w ?bw copied] fin unfolding asks_def by blast+
                have c7: "calm n m6 st7" by (rule held_calm [OF asks_held [OF asks_final fin]])
                show "\<exists>r st'. ?checks report copied m6 = Some (r, st') \<and> outcome Q n m6 r st'"
                proof (rule outcome_clean [OF _ c7 herem])
                  show "once (final_checks sys n ?w ?bw copied) m6 = Some (v, st7)" using fin by (simp add: once_def)
                  show "held n st7 (removed sys ?bw (removed sys ?w st7))"
                    by (rule held_trans [OF removed_held removed_held]) simp_all
                  fix u7 assume v: "v = Ok u7"
                  note checked = final_checks_Ok [OF fin [unfolded v], folded a7(2)]
                  show "\<exists>r st'. ?publish report st7 = Some (r, st') \<and> outcome Q n st7 r st'"
                  proof (rule outcome_publish [OF checked(2,1)])
                    show "original_at contents st7 (pb_dir st7) ?bw"
                      using checked(3) z backup a7(1) am(1) h6
                      by (cases copied) (auto simp: original_at_def same_rest_def held_def keeps_original_def)
                    show "Q (contents (ws_copy (pb_session st7)))"
                      using q5 h6 a7(1) am(1) by (simp add: held_def same_rest_def)
                  qed
                qed
              qed
            qed
          qed
        qed
      qed
      then show ?thesis using True by simp
    qed
  qed
  qed
qed

end

end
