(* ===== verification/Filedb_Session_Props.thy ===== *)
theory Filedb_Session_Props
  imports Filedb_Publish_Laws Filedb_Table_Props
begin

text \<open>
  The properties of the sessions on a file infobase: the type of the rows that are read, and the copy of
  the data file.
\<close>

section \<open>A catalogue with one table\<close>

definition sample_tables :: tables where
  "sample_tables = [ascii ''CONFIG'' \<mapsto> sample_table]"

lemma sample_tables_ok:
  "catalogue_ok sample_tables" "sample_tables (tb_name sample_table) = Some sample_table"
  "config_table sample_tables (ascii ''CONFIG'') = Ok sample_table"
  using sample_layout by (simp_all add: catalogue_ok_def sample_tables_def sample_table_def config_table_def)

lemma sample_rows_read:
  obtains p and p' :: "(mem_file, unit) pager" where "read_rows sample_tables (ascii ''CONFIG'') True p = (Ok [sample_row], p')"
proof -
  obtain key ro bo io and p :: "(mem_file, unit) pager" where
    sh: "table_shows mem_bytes p sample_table (ro, bo, io) [sample_row] (sort_key snd (numbered_keys [key]))"
    and ok: "pager_ok mem_backing mem_bytes p" and nb: "pg_budget p = None"
    by (rule stored_sample)
  obtain p' where "read_records sample_table True p = (Ok (numbered_rows (map (seen_row True) [sample_row])), p')"
    using mem.shown_rows [OF sh ok nb] by blast
  then have "read_rows sample_tables (ascii ''CONFIG'') True p = (Ok [sample_row], p')"
    by (simp add: read_rows_def sample_tables_ok and_then_Ok of_result_Ok ret_Ok numbered_rows_def)
  then show thesis by (rule that)
qed

section \<open>Properties\<close>

text \<open>C36: Every row that is read from a configuration table, whatever bytes the file holds and whatever else
  fails, is a row of the type that the writer stores: a name of at most 128 UTF-16 units that are scalar
  values, a part number of 32 bits, attributes of five digits, a data size of 64 bits, timestamps of seven
  bytes and a value of a 32-bit length.\<close>

theorem rows_read_are_storable:
  assumes "read_rows tabs table_name with_binary p = (Ok rows, p')"
  shows "list_all storable rows"
proof -
  obtain t p1 records where "read_records_bounded t with_binary u64_max p1 = (Ok records, p')" "rows = map rr_row records"
    using assms by (auto simp: read_rows_def read_records_def and_then_Ok of_result_Ok ret_Ok)
  then show ?thesis using read_records_storable by (fastforce simp: list_all_iff)
qed

theorem rows_read_are_storable_witness:
  "\<exists>(p :: (mem_file, unit) pager) p'. read_rows sample_tables (ascii ''CONFIG'') True p = (Ok [sample_row], p') \<and> storable sample_row"
proof -
  obtain p and p' :: "(mem_file, unit) pager" where run: "read_rows sample_tables (ascii ''CONFIG'') True p = (Ok [sample_row], p')"
    by (rule sample_rows_read)
  then show ?thesis using rows_read_are_storable [OF run] by auto
qed

text \<open>C37: Copying the locked file ends, also when a read, a write or the budget fails, never changes the
  original, and when it reports success the copy holds the bytes of the original.\<close>

theorem checked_copy_is_exact:
  fixes s :: "('f, 'e) copy_session"
  assumes "copying_file disk contents position read" and "ws_disk s = disk" and "ws_read s = read"
    and "position (ws_file s) = 0" and "contents (ws_copy s) = []" and "position (ws_copy s) = 0"
  shows "\<exists>r s'. copy_checked s = Some (r, s') \<and> contents (ws_file s') = contents (ws_file s)
    \<and> (r = Ok () \<longrightarrow> contents (ws_copy s') = contents (ws_file s))"
  using copying_file.copy_ends [OF assms(1-3)] assms(4-6) by fastforce

definition sample_session :: "bytes \<Rightarrow> (mem_file, unit) copy_session" where
  "sample_session bs = \<lparr>ws_disk = mem_backing, ws_read = mem_read, ws_file = \<lparr>mem_bytes = bs, mem_position = 0\<rparr>,
     ws_locale = russian_locale, ws_collation = Russian, ws_tables = sample_tables, ws_budget = None,
     ws_copy = \<lparr>mem_bytes = [], mem_position = 0\<rparr>\<rparr>"

theorem checked_copy_is_exact_witness:
  "\<exists>s'. copy_checked (sample_session [1, 2, 3]) = Some (Ok (), s') \<and> mem_bytes (ws_copy s') = [1, 2, 3]"
proof -
  have "\<exists>r s'. copy_checked (sample_session [1, 2, 3]) = Some (r, s')
      \<and> mem_bytes (ws_file s') = [1, 2, 3] \<and> (r = Ok () \<longrightarrow> mem_bytes (ws_copy s') = [1, 2, 3])"
    using checked_copy_is_exact [OF mem.copying_file_axioms, of "sample_session [1, 2, 3]"] by (simp add: sample_session_def)
  moreover have "\<exists>s'. copy_checked (sample_session [1, 2, 3]) = Some (Ok (), s')"
    by (subst copy_checked.simps, subst copy_checked.simps)
      (simp add: sample_session_def session_check_read_def budget_checked_def mem_read_def mem_backing_def slice_def Let_def)
  ultimately show ?thesis by auto
qed

end
