(* ===== verification/Filedb_Descr_Laws.thy ===== *)
theory Filedb_Descr_Laws
  imports Filedb_Any_Table
begin

text \<open>
  The brace format of the table descriptions as a grammar - white space, line breaks, quotes, nested lists,
  parts and columns that the program has no use for - and the parser reads every text of it.  A root object
  that holds such texts, in blocks of any numbers, is read as its tables.
\<close>

section \<open>An item ends past its start\<close>

lemma quoted_advances: "quoted_text cs check pos out s = (Ok (v, q), s') \<Longrightarrow> pos < q"
proof (induction cs check pos out arbitrary: s rule: quoted_text.induct)
  case (1 cs check pos out)
  then show ?case by (subst (asm) (3) quoted_text.simps) (fastforce simp: result_simps split: if_splits)
qed

lemma atom_forward: "atom_end cs check pos s = (Ok q, s') \<Longrightarrow> pos \<le> q"
proof (induction cs check pos arbitrary: s rule: atom_end.induct)
  case (1 cs check pos)
  then show ?case by (subst (asm) (2) atom_end.simps) (fastforce simp: result_simps split: if_splits)
qed

lemma items_advance: "items_loop parse cs check pos items s = (Ok (v, q), s') \<Longrightarrow> pos < q"
proof (induction parse cs check pos items s rule: items_loop.induct)
  case (1 parse cs check pos items s)
  then show ?case
    by (subst (asm) (2) items_loop.simps) (fastforce simp: result_simps dest: skip_chars_forward split: if_splits)
qed

lemma parse_value_advances: "parse_value n cs check pos s = (Ok (v, q), s') \<Longrightarrow> pos < q"
  by (cases n) (auto simp: result_simps dest!: skip_chars_forward quoted_advances atom_forward items_advance split: if_splits)

section \<open>The brace format\<close>

text \<open>A quote inside a text is doubled.\<close>

fun doubled :: "ustr \<Rightarrow> ustr" where
  "doubled [] = []"
| "doubled (c # cs) = (if c = DQUOTE then [DQUOTE, DQUOTE] else [c]) @ doubled cs"

definition gap :: "ustr \<Rightarrow> bool" where
  "gap t \<longleftrightarrow> list_all char_whitespace t"

text \<open>The texts of a value of at most so many levels, and of the items of a list: items are separated by
  commas, and white space - line breaks too - may stand on both sides of each.\<close>

inductive value_text :: "nat \<Rightarrow> brace_value \<Rightarrow> ustr \<Rightarrow> bool"
  and items_text :: "nat \<Rightarrow> brace_value list \<Rightarrow> ustr \<Rightarrow> bool" where
  quoted: "value_text (Suc n) (Brace_Text t) (DQUOTE # doubled t @ [DQUOTE])"
| atom: "t \<noteq> [] \<Longrightarrow> list_all atom_char t \<Longrightarrow> hd t \<noteq> DQUOTE \<Longrightarrow> value_text (Suc n) (Brace_Atom t) t"
| empty_list: "gap w \<Longrightarrow> value_text (Suc n) (Brace_List []) (OPEN # w @ [CLOSE])"
| full_list: "items_text n vs t \<Longrightarrow> value_text (Suc n) (Brace_List vs) (OPEN # t @ [CLOSE])"
| last_item: "value_text n v t \<Longrightarrow> gap a \<Longrightarrow> gap b \<Longrightarrow> items_text n [v] (a @ t @ b)"
| more_items: "value_text n v t \<Longrightarrow> gap a \<Longrightarrow> gap b \<Longrightarrow> items_text n vs r \<Longrightarrow>
     items_text n (v # vs) (a @ t @ b @ COMMA # r)"

definition blank :: "nat \<Rightarrow> bool" where
  "blank c \<longleftrightarrow> char_whitespace c \<or> c = COMMA"

lemma gap_blank: "gap t \<Longrightarrow> list_all blank t"
  by (auto simp: gap_def blank_def list_all_iff)

lemma marks_apart [simp]:
  "\<not> blank OPEN" "\<not> blank CLOSE" "\<not> blank DQUOTE" "blank COMMA" "OPEN \<noteq> CLOSE" "OPEN \<noteq> DQUOTE" "DQUOTE \<noteq> CLOSE"
  "COMMA \<noteq> DQUOTE" "CLOSE \<noteq> DQUOTE" "DQUOTE \<noteq> OPEN" "\<not> atom_char COMMA" "\<not> atom_char CLOSE" "\<not> atom_char OPEN"
  by (simp_all add: blank_def char_whitespace_def atom_char_def OPEN_def CLOSE_def DQUOTE_def COMMA_def)

lemma atom_not_blank: "atom_char c \<Longrightarrow> \<not> blank c \<and> c \<noteq> CLOSE \<and> c \<noteq> OPEN"
  by (simp add: atom_char_def blank_def)

lemma value_starts:
  assumes "value_text n v t"
  shows "\<exists>x r. t = x # r \<and> \<not> blank x \<and> x \<noteq> CLOSE"
  using assms
proof (cases rule: value_text.cases)
  case atom
  then obtain x r where "t = x # r" "atom_char x" by (cases t) auto
  then show ?thesis using atom_not_blank by blast
qed auto

section \<open>Reading it\<close>

text \<open>A check that answers at once, as it does without a budget.\<close>

definition free_check :: "('s, unit) act \<Rightarrow> 's \<Rightarrow> bool" where
  "free_check check s \<longleftrightarrow> check s = (Ok (), s)"

lemma at_drop:
  assumes "drop pos cs = x # r"
  shows "pos < length cs" and "cs ! pos = x" and "drop (Suc pos) cs = r"
proof -
  show "pos < length cs" using assms by (metis drop_all list.distinct(1) not_less)
  show "cs ! pos = x" by (rule nth_via_drop [OF assms])
  show "drop (Suc pos) cs = r" using assms by (metis drop_Suc list.sel(3) tl_drop)
qed

lemma skip_reads:
  assumes free: "free_check check s" and x: "\<not> blank x"
  shows "drop pos cs = bs @ x # r \<Longrightarrow> list_all blank bs \<Longrightarrow> skip_chars cs check pos s = (Ok (pos + length bs), s)"
proof (induction bs arbitrary: pos)
  case Nil
  note d = at_drop [of pos cs x r] Nil.prems(1)
  show ?case using d x by (subst skip_chars.simps) (simp add: free_check_def blank_def ret_def)
next
  case (Cons b bs)
  have d: "pos < length cs" "cs ! pos = b" "drop (Suc pos) cs = bs @ x # r" using at_drop [of pos cs b] Cons.prems(1) by simp_all
  have "skip_chars cs check pos s = skip_chars cs check (Suc pos) s"
    using d(1,2) Cons.prems(2) free by (subst skip_chars.simps) (simp add: free_check_def blank_def and_then_def)
  then show ?case using Cons.IH [OF d(3)] Cons.prems(2) by simp
qed

lemma atom_reads:
  assumes free: "free_check check s" and stop: "r = [] \<or> \<not> atom_char (hd r)"
  shows "drop pos cs = t @ r \<Longrightarrow> list_all atom_char t \<Longrightarrow> atom_end cs check pos s = (Ok (pos + length t), s)"
proof (induction t arbitrary: pos)
  case Nil
  have "\<not> (pos < length cs \<and> atom_char (cs ! pos))"
  proof
    assume p: "pos < length cs \<and> atom_char (cs ! pos)"
    then have "r \<noteq> []" using Nil.prems(1) by auto
    then have "cs ! pos = hd r" using at_drop(2) [of pos cs "hd r" "tl r"] Nil.prems(1) by simp
    then show False using stop p \<open>r \<noteq> []\<close> by simp
  qed
  then have "atom_end cs check pos = ret pos" unfolding atom_end.simps [of cs check pos] by (rule if_not_P)
  then show ?case by (simp add: ret_def)
next
  case (Cons b t)
  have d: "pos < length cs" "cs ! pos = b" "drop (Suc pos) cs = t @ r" using at_drop [of pos cs b] Cons.prems(1) by simp_all
  have "atom_end cs check pos s = atom_end cs check (Suc pos) s"
    using d(1,2) Cons.prems(2) free by (subst atom_end.simps) (simp add: free_check_def and_then_def)
  then show ?case using Cons.IH [OF d(3)] Cons.prems(2) by simp
qed

lemma quoted_reads:
  assumes free: "free_check check s" and stop: "r = [] \<or> hd r \<noteq> DQUOTE"
  shows "drop pos cs = doubled t @ DQUOTE # r \<Longrightarrow>
     quoted_text cs check pos out s = (Ok (Brace_Text (out @ t), pos + length (doubled t) + 1), s)"
proof (induction t arbitrary: pos out)
  case Nil
  note d = at_drop [of pos cs DQUOTE r]
  have d: "pos < length cs" "cs ! pos = DQUOTE" "drop (Suc pos) cs = r" using d Nil by simp_all
  have "\<not> (pos + 1 < length cs \<and> cs ! (pos + 1) = DQUOTE)"
  proof
    assume p: "pos + 1 < length cs \<and> cs ! (pos + 1) = DQUOTE"
    then have "r \<noteq> []" using d(3) by auto
    then have "cs ! (pos + 1) = hd r" using at_drop(2) [of "Suc pos" cs "hd r" "tl r"] d(3) by simp
    then show False using stop p \<open>r \<noteq> []\<close> by simp
  qed
  then show ?case using d free by (subst quoted_text.simps) (auto simp: free_check_def and_then_def ret_def)
next
  case (Cons c t)
  show ?case
  proof (cases "c = DQUOTE")
    case True
    have d: "pos < length cs" "cs ! pos = DQUOTE" "drop (Suc pos) cs = DQUOTE # doubled t @ DQUOTE # r"
      using at_drop [of pos cs DQUOTE] Cons.prems True by simp_all
    note e = at_drop [OF d(3)]
    have "quoted_text cs check pos out s = quoted_text cs check (pos + 2) (out @ [c]) s"
      using d e free True by (subst quoted_text.simps) (simp add: free_check_def and_then_def)
    then show ?thesis using Cons.IH [of "pos + 2" "out @ [c]"] e(3) True by (simp add: numeral_2_eq_2)
  next
    case False
    have d: "pos < length cs" "cs ! pos = c" "drop (Suc pos) cs = doubled t @ DQUOTE # r"
      using at_drop [of pos cs c] Cons.prems False by simp_all
    have "quoted_text cs check pos out s = quoted_text cs check (pos + 1) (out @ [c]) s"
      using d free False by (subst quoted_text.simps) (simp add: free_check_def and_then_def)
    then show ?thesis using Cons.IH [of "pos + 1" "out @ [c]"] d(3) False by simp
  qed
qed

text \<open>A value is followed by the end, a comma, white space or a closing brace.\<close>

definition ends :: "ustr \<Rightarrow> bool" where
  "ends r \<longleftrightarrow> r = [] \<or> blank (hd r) \<or> hd r = CLOSE"

lemma ends_stop: "ends r \<Longrightarrow> r = [] \<or> \<not> atom_char (hd r)" "ends r \<Longrightarrow> r = [] \<or> hd r \<noteq> DQUOTE"
  by (auto simp: ends_def dest: atom_not_blank)

lemma ends_gap: "list_all blank b \<Longrightarrow> ends (b @ CLOSE # r)" "list_all blank b \<Longrightarrow> ends (b @ COMMA # r)"
  by (cases b; simp add: ends_def)+

lemma drop_further: "drop pos cs = a @ r \<Longrightarrow> drop (pos + length a) cs = r"
  by (metis add.commute append_eq_conv_conj drop_drop)

lemma items_end:
  assumes free: "free_check check s" and d: "drop pos cs = b @ CLOSE # r" and b: "list_all blank b"
  shows "items_loop parse cs check pos items s = (Ok (Brace_List items, pos + length b + 1), s)"
proof -
  have "skip_chars cs check pos s = (Ok (pos + length b), s)" by (rule skip_reads [OF free _ d b]) simp
  then show ?thesis using at_drop [OF drop_further [OF d]]
    by (subst items_loop.simps) (simp add: and_then_def ret_def)
qed

lemma items_step:
  assumes free: "free_check check s" and d: "drop pos cs = a @ t @ r" and a: "list_all blank a" and t: "value_text n v t"
    and item: "parse (pos + length a) s = (Ok (v, pos + length a + length t), s)"
  shows "items_loop parse cs check pos items s = items_loop parse cs check (pos + length a + length t) (items @ [v]) s"
proof -
  obtain x u where x: "t = x # u" "\<not> blank x" "x \<noteq> CLOSE" using value_starts [OF t] by blast
  have "skip_chars cs check pos s = (Ok (pos + length a), s)"
    by (rule skip_reads [OF free x(2), where r = "u @ r"]) (use d x(1) a in simp_all)
  moreover have "pos + length a < length cs" "cs ! (pos + length a) = x"
    using at_drop [of "pos + length a" cs x "u @ r"] drop_further [OF d] x(1) by simp_all
  ultimately show ?thesis using item x(1,3) by (subst items_loop.simps) (simp add: and_then_def max_def)
qed

text \<open>The parser reads any text of a value, wherever it stands.\<close>

lemma texts_read:
  assumes free: "free_check check s"
  shows "value_text n v t \<Longrightarrow> drop pos cs = a @ t @ r \<Longrightarrow> list_all blank a \<Longrightarrow> ends r \<Longrightarrow>
      parse_value n cs check pos s = (Ok (v, pos + length a + length t), s)"
    and "items_text n vs t \<Longrightarrow> drop pos cs = a @ t @ CLOSE # r \<Longrightarrow> list_all blank a \<Longrightarrow>
      items_loop (parse_value n cs check) cs check pos items s
        = (Ok (Brace_List (items @ vs), pos + length a + length t + 1), s)"
proof (induction n v t and n vs t arbitrary: pos a r and pos a r items rule: value_text_items_text.inducts)
  case (quoted n t)
  have d: "drop pos cs = a @ DQUOTE # (doubled t @ DQUOTE # r)" using quoted.prems(1) by simp
  note sk = skip_reads [OF free _ d quoted.prems(2)] and at = at_drop [OF drop_further [OF d]]
  have "quoted_text cs check (pos + length a + 1) [] s = (Ok (Brace_Text ([] @ t), pos + length a + 1 + length (doubled t) + 1), s)"
    by (rule quoted_reads [OF free ends_stop(2) [OF quoted.prems(3)]]) (use at(3) in simp)
  then show ?case using sk at(1,2) free by (simp add: free_check_def and_then_def)
next
  case (atom t n)
  obtain x u where t: "t = x # u" "atom_char x" "x \<noteq> DQUOTE" using atom.hyps by (cases t) auto
  note x = atom_not_blank [OF t(2)]
  have d: "drop pos cs = a @ x # (u @ r)" using atom.prems(1) t(1) by simp
  note sk = skip_reads [OF free conjunct1 [OF x] d atom.prems(2)] and at = at_drop [OF drop_further [OF d]]
  have rest: "drop (pos + length a) cs = t @ r" by (rule drop_further [OF atom.prems(1)])
  have "atom_end cs check (pos + length a) s = (Ok (pos + length a + length t), s)"
    by (rule atom_reads [OF free ends_stop(1) [OF atom.prems(3)] rest atom.hyps(2)])
  moreover have "slice (pos + length a) (pos + length a + length t) cs = t" using rest by (simp add: slice_def)
  ultimately show ?case using sk at(1,2) free x t(1,3) by (simp add: free_check_def and_then_def ret_def)
next
  case (empty_list w n)
  have d: "drop pos cs = a @ OPEN # (w @ CLOSE # r)" using empty_list.prems(1) by simp
  note sk = skip_reads [OF free _ d empty_list.prems(2)] and at = at_drop [OF drop_further [OF d]]
  have "items_loop (parse_value n cs check) cs check (pos + length a + 1) [] s
      = (Ok (Brace_List [], pos + length a + 1 + length w + 1), s)"
    by (rule items_end [OF free _ gap_blank [OF empty_list.hyps]]) (use at(3) in simp)
  then show ?case using sk at(1,2) free by (simp add: free_check_def and_then_def)
next
  case (full_list n vs t)
  have d: "drop pos cs = a @ OPEN # (t @ CLOSE # r)" using full_list.prems(1) by simp
  note sk = skip_reads [OF free _ d full_list.prems(2)] and at = at_drop [OF drop_further [OF d]]
  have "items_loop (parse_value n cs check) cs check (pos + length a + 1) [] s
      = (Ok (Brace_List ([] @ vs), pos + length a + 1 + length ([] :: ustr) + length t + 1), s)"
    by (rule full_list.IH) (use at(3) in simp_all)
  then show ?case using sk at(1,2) free by (simp add: free_check_def and_then_def)
next
  case (last_item n v t a' b)
  let ?a = "a @ a'"
  have d: "drop pos cs = ?a @ t @ b @ CLOSE # r" using last_item.prems(1) by simp
  have bl: "list_all blank ?a" using last_item.prems(2) gap_blank [OF last_item.hyps(2)] by simp
  note b = gap_blank [OF last_item.hyps(3)]
  have "parse_value n cs check (pos + length ?a) s = (Ok (v, pos + length ?a + length ([] :: ustr) + length t), s)"
    by (rule last_item.IH [OF _ _ ends_gap(1) [OF b]]) (use drop_further [OF d] in simp_all)
  then have "items_loop (parse_value n cs check) cs check pos items s
      = items_loop (parse_value n cs check) cs check (pos + length ?a + length t) (items @ [v]) s"
    by (intro items_step [OF free d bl last_item.hyps(1)]) simp
  also have "\<dots> = (Ok (Brace_List (items @ [v]), pos + length ?a + length t + length b + 1), s)"
    by (rule items_end [OF free drop_further [OF drop_further [OF d]] b])
  finally show ?case by (simp add: add.assoc)
next
  case (more_items n v t a' b vs u)
  let ?a = "a @ a'"
  have d: "drop pos cs = ?a @ t @ b @ COMMA # u @ CLOSE # r" using more_items.prems(1) by simp
  have bl: "list_all blank ?a" using more_items.prems(2) gap_blank [OF more_items.hyps(2)] by simp
  note b = gap_blank [OF more_items.hyps(3)]
  have "parse_value n cs check (pos + length ?a) s = (Ok (v, pos + length ?a + length ([] :: ustr) + length t), s)"
    by (rule more_items.IH(1) [OF _ _ ends_gap(2) [OF b]]) (use drop_further [OF d] in simp_all)
  then have "items_loop (parse_value n cs check) cs check pos items s
      = items_loop (parse_value n cs check) cs check (pos + length ?a + length t) (items @ [v]) s"
    by (intro items_step [OF free d bl more_items.hyps(1)]) simp
  also have "\<dots> = (Ok (Brace_List ((items @ [v]) @ vs), pos + length ?a + length t + length (b @ [COMMA]) + length u + 1), s)"
    by (rule more_items.IH(2)) (use drop_further [OF drop_further [OF d]] b in simp_all)
  finally show ?case by (simp add: add.assoc)
qed

lemma checks_free: "free_check check s \<Longrightarrow> check_each xs check s = (Ok (), s)"
  by (induction xs) (simp_all add: ret_def and_then_def free_check_def)

lemma braces_read:
  assumes free: "free_check check s" and t: "value_text 33 v t" and a: "gap a" and b: "gap b"
  shows "parse_braces (a @ t @ b) check s = (Ok v, s)"
proof -
  have "ends b" using gap_blank [OF b] by (cases b) (simp_all add: ends_def)
  then have "parse_value 33 (a @ t @ b) check 0 s = (Ok (v, 0 + length a + length t), s)"
    by (intro texts_read(1) [OF free t _ gap_blank [OF a]]) simp
  then show ?thesis using free by (simp add: parse_braces_def and_then_def checks_free free_check_def ret_def)
qed

section \<open>The description of a table\<close>

text \<open>A number is an atom of decimal digits.\<close>

definition number_written :: "nat \<Rightarrow> brace_value \<Rightarrow> bool" where
  "number_written n v \<longleftrightarrow> (\<exists>ds. v = Brace_Atom ds \<and> ds \<noteq> [] \<and> list_all (\<lambda>d. 0x30 \<le> d \<and> d \<le> 0x39) ds
     \<and> foldl (\<lambda>k d. 10 * k + (d - 0x30)) 0 ds = n)"

lemma number_read:
  assumes "number_written n v" and "n \<le> u32_max"
  shows "\<exists>t. as_text v = Some t \<and> parse_u32 t = Some n"
proof -
  obtain ds where v: "v = Brace_Atom ds" "ds \<noteq> []" "list_all (\<lambda>d. 0x30 \<le> d \<and> d \<le> 0x39) ds"
      "foldl (\<lambda>k d. 10 * k + (d - 0x30)) 0 ds = n" using assms(1) by (auto simp: number_written_def)
  obtain c t where t: "ds = c # t" using v(2) by (cases ds) auto
  have "c \<noteq> 0x2B" "\<not> (\<exists>d \<in> set ds. d < 0x30 \<or> 0x39 < d)" using v(3) by (auto simp: t list_all_iff not_less)
  then show ?thesis using v(4) assms(2) unfolding v(1) t by (auto simp: parse_u32_def Let_def as_text_def)
qed

definition kind_text :: "field_kind \<Rightarrow> ustr" where
  "kind_text k =
     (case k of
        Kind_Binary \<Rightarrow> ascii ''B'' | Kind_Bool \<Rightarrow> ascii ''L'' | Kind_Numeric \<Rightarrow> ascii ''N''
      | Kind_Fixed_String \<Rightarrow> ascii ''NC'' | Kind_Var_String \<Rightarrow> ascii ''NVC'' | Kind_Row_Version \<Rightarrow> ascii ''RV''
      | Kind_Text \<Rightarrow> ascii ''NT'' | Kind_Image \<Rightarrow> ascii ''I'' | Kind_Date_Time \<Rightarrow> ascii ''DT'')"

lemma kind_of_text: "kind_code (kind_text k) = Some k"
  by (cases k) (simp_all add: kind_code_def kind_text_def ascii_def)

text \<open>One field: its name, the code of its kind, whether it may be null, its length and precision, and how
  it compares.\<close>

definition field_described :: "table_field \<Rightarrow> brace_value \<Rightarrow> bool" where
  "field_described f v \<longleftrightarrow> (\<exists>null len prec k.
     v = Brace_List [Brace_Text (fd_name f), Brace_Text (kind_text (fd_kind f)), null, len, prec,
           Brace_Text (if fd_case_insensitive f then ascii ''CI'' else ascii ''CS'')]
     \<and> number_written k null \<and> k \<le> u32_max \<and> (fd_nullable f \<longleftrightarrow> k \<noteq> 0)
     \<and> number_written (fd_length f) len \<and> fd_length f \<le> u32_max
     \<and> number_written (fd_precision f) prec \<and> fd_precision f \<le> u32_max)"

text \<open>One index: its name before its columns.\<close>

definition index_described :: "ustr \<Rightarrow> brace_value \<Rightarrow> bool" where
  "index_described n v \<longleftrightarrow> (\<exists>columns. v = Brace_List (Brace_Text n # columns))"

text \<open>A part with another tag, as the lock mode is.\<close>

definition other_part :: "brace_value \<Rightarrow> bool" where
  "other_part v \<longleftrightarrow> (\<exists>tag items. v = Brace_List (Brace_Text tag # items)
     \<and> tag \<noteq> ascii ''Fields'' \<and> tag \<noteq> ascii ''Indexes'' \<and> tag \<noteq> ascii ''Files'')"

definition table_described :: "table \<Rightarrow> brace_value \<Rightarrow> bool" where
  "table_described t v \<longleftrightarrow> (\<exists>second a fs b ixs c r bl ix d.
     v = Brace_List (Brace_Text (tb_name t) # second #
           a @ [Brace_List (Brace_Text (ascii ''Fields'') # fs)]
           @ b @ [Brace_List (Brace_Text (ascii ''Indexes'') # ixs)]
           @ c @ [Brace_List [Brace_Text (ascii ''Files''), r, bl, ix]] @ d)
     \<and> list_all other_part (a @ b @ c @ d)
     \<and> list_all2 field_described (tb_fields t) fs \<and> list_all2 index_described (tb_index_names t) ixs
     \<and> number_written (tb_records_page t) r \<and> tb_records_page t \<le> u32_max
     \<and> number_written (tb_blob_page t) bl \<and> tb_blob_page t \<le> u32_max
     \<and> number_written (tb_index_page t) ix \<and> tb_index_page t \<le> u32_max)"

text \<open>A text that describes a table.\<close>

definition table_text :: "table \<Rightarrow> ustr \<Rightarrow> bool" where
  "table_text t txt \<longleftrightarrow> (\<exists>v u a b. table_described t v \<and> value_text 33 v u \<and> gap a \<and> gap b \<and> txt = a @ u @ b)
     \<and> list_all is_scalar txt"

lemma field_reads:
  assumes "field_described f v"
  shows "parse_field tab v = Ok f"
proof -
  obtain null len prec k where v: "v = Brace_List [Brace_Text (fd_name f), Brace_Text (kind_text (fd_kind f)), null, len, prec,
           Brace_Text (if fd_case_insensitive f then ascii ''CI'' else ascii ''CS'')]"
     "fd_nullable f \<longleftrightarrow> k \<noteq> 0" and n: "number_written k null" "k \<le> u32_max"
     "number_written (fd_length f) len" "fd_length f \<le> u32_max"
     "number_written (fd_precision f) prec" "fd_precision f \<le> u32_max"
    using assms unfolding field_described_def by blast
  have ci: "(Brace_Text (if fd_case_insensitive f then ascii ''CI'' else ascii ''CS'') = Brace_Text (ascii ''CI'')) = fd_case_insensitive f"
    by (simp add: ascii_def)
  obtain x y z where "as_text null = Some x" "parse_u32 x = Some k" "as_text len = Some y" "parse_u32 y = Some (fd_length f)"
      "as_text prec = Some z" "parse_u32 z = Some (fd_precision f)"
    using number_read [OF n(1,2)] number_read [OF n(3,4)] number_read [OF n(5,6)] by blast
  then show ?thesis
    unfolding parse_field_def v(1) Let_def
    using ci v(2) kind_of_text [of "fd_kind f"] by (simp add: as_list_def as_text_def ok_or_def)
qed

lemma fields_read: "list_all2 field_described fs vs \<Longrightarrow> parse_fields tab vs out = Ok (out @ fs)"
  by (induction fs vs arbitrary: out rule: list_all2_induct) (simp_all add: field_reads)

lemma names_read: "list_all2 index_described ns vs \<Longrightarrow> index_names_of vs = ns"
  by (induction ns vs rule: list_all2_induct)
    (auto simp: index_names_of_def List.map_filter_simps as_list_def as_text_def index_described_def)

lemma numbers_read:
  assumes "number_written a r" "a \<le> u32_max" "number_written b bl" "b \<le> u32_max" "number_written c ix" "c \<le> u32_max"
  shows "files_numbers tab [r, bl, ix] = Ok (a, b, c)"
  using number_read [OF assms(1,2)] number_read [OF assms(3,4)] number_read [OF assms(5,6)]
  by (auto simp: files_numbers_def Let_def)

lemma part_step:
  "free_check check s \<Longrightarrow> table_part tab part st = Ok st' \<Longrightarrow>
     table_loop tab (part # parts) check st s = table_loop tab parts check st' s"
  by (simp add: free_check_def and_then_def)

lemma other_parts:
  "free_check check s \<Longrightarrow> list_all other_part ps \<Longrightarrow> table_loop tab (ps @ parts) check st s = table_loop tab parts check st s"
proof (induction ps)
  case (Cons p ps)
  have "table_part tab p st = Ok st"
    using Cons.prems(2) by (auto simp: table_part_def other_part_def as_list_def as_text_def split: prod.splits)
  then show ?case using part_step [OF Cons.prems(1)] Cons by simp
qed simp

text \<open>Any text that describes a table is read as the table.\<close>

lemma table_reads:
  assumes free: "free_check check s" and t: "table_text t txt"
  shows "parse_table txt check s = (Ok t, s)"
proof -
  obtain v u x y where td: "table_described t v" and vt: "value_text 33 v u" and xy: "gap x" "gap y" and whole: "txt = x @ u @ y"
    using t unfolding table_text_def by blast
  obtain second a fs b ixs c r bl ix d where v: "v = Brace_List (Brace_Text (tb_name t) # second #
           a @ [Brace_List (Brace_Text (ascii ''Fields'') # fs)]
           @ b @ [Brace_List (Brace_Text (ascii ''Indexes'') # ixs)]
           @ c @ [Brace_List [Brace_Text (ascii ''Files''), r, bl, ix]] @ d)"
     and other: "list_all other_part (a @ b @ c @ d)"
     and f: "list_all2 field_described (tb_fields t) fs" and i: "list_all2 index_described (tb_index_names t) ixs"
     and n: "number_written (tb_records_page t) r" "tb_records_page t \<le> u32_max"
     "number_written (tb_blob_page t) bl" "tb_blob_page t \<le> u32_max"
     "number_written (tb_index_page t) ix" "tb_index_page t \<le> u32_max"
    using td unfolding table_described_def by blast
  have pv: "parse_braces txt check s = (Ok v, s)" unfolding whole by (rule braces_read [OF free vt xy])
  let ?tab = "tb_name t" and ?pages = "(tb_records_page t, tb_blob_page t, tb_index_page t)"
  have parts: "table_part ?tab (Brace_List (Brace_Text (ascii ''Fields'') # fs)) ([], [], None) = Ok (tb_fields t, [], None)"
    "table_part ?tab (Brace_List (Brace_Text (ascii ''Indexes'') # ixs)) (tb_fields t, [], None)
       = Ok (tb_fields t, tb_index_names t, None)"
    "table_part ?tab (Brace_List [Brace_Text (ascii ''Files''), r, bl, ix]) (tb_fields t, tb_index_names t, None)
       = Ok (tb_fields t, tb_index_names t, Some ?pages)"
    using fields_read [OF f] names_read [OF i] numbers_read [OF n]
    by (simp_all add: table_part_def as_list_def as_text_def ascii_def)
  have o: "list_all other_part a" "list_all other_part b" "list_all other_part c" "list_all other_part d" using other by simp_all
  have "table_loop ?tab (a @ [Brace_List (Brace_Text (ascii ''Fields'') # fs)]
           @ b @ [Brace_List (Brace_Text (ascii ''Indexes'') # ixs)]
           @ c @ [Brace_List [Brace_Text (ascii ''Files''), r, bl, ix]] @ d) check ([], [], None) s
      = (Ok (tb_fields t, tb_index_names t, Some ?pages), s)"
    unfolding other_parts [OF free o(1)] append_Cons append_Nil part_step [OF free parts(1)]
      other_parts [OF free o(2)] append_Cons append_Nil part_step [OF free parts(2)]
      other_parts [OF free o(3)] append_Cons append_Nil part_step [OF free parts(3)]
    using other_parts [OF free o(4), of ?tab "[]"] by (simp add: ret_def)
  then show ?thesis using pv
    by (simp add: parse_table_def and_then_def ret_def v as_list_def as_text_def)
qed

text \<open>The layout of the platform's own files: a line break before each list inside a list, and before the
  brace that closes behind one.\<close>

definition is_list :: "brace_value \<Rightarrow> bool" where
  "is_list v \<longleftrightarrow> as_list v \<noteq> None"

fun joined :: "ustr list \<Rightarrow> ustr" where
  "joined [] = []"
| "joined [t] = t"
| "joined (t # u # ts) = t @ COMMA # joined (u # ts)"

fun native_text :: "brace_value \<Rightarrow> ustr" where
  "native_text (Brace_Text t) = DQUOTE # doubled t @ [DQUOTE]"
| "native_text (Brace_Atom t) = t"
| "native_text (Brace_List vs) = OPEN # joined (map (\<lambda>v. (if is_list v then [0x0A] else []) @ native_text v) vs)
     @ (if vs \<noteq> [] \<and> is_list (last vs) then [0x0A] else []) @ [CLOSE]"

text \<open>Values of at most so many levels whose atoms are read as atoms.\<close>

primrec value_ok :: "nat \<Rightarrow> brace_value \<Rightarrow> bool" where
  "value_ok 0 v = False"
| "value_ok (Suc n) v =
     (case v of
        Brace_Text t \<Rightarrow> True
      | Brace_Atom t \<Rightarrow> t \<noteq> [] \<and> list_all atom_char t \<and> hd t \<noteq> DQUOTE
      | Brace_List vs \<Rightarrow> list_all (value_ok n) vs)"

lemma gap_break: "gap (if c then [0x0A] else [])"
  by (simp add: gap_def char_whitespace_def)

lemma native_items:
  "\<forall>v \<in> set vs. value_text n v (native_text v) \<Longrightarrow> vs \<noteq> [] \<Longrightarrow> gap w \<Longrightarrow>
     items_text n vs (joined (map (\<lambda>v. (if is_list v then [0x0A] else []) @ native_text v) vs) @ w)"
proof (induction vs)
  case (Cons v vs)
  have v: "value_text n v (native_text v)" using Cons.prems(1) by simp
  show ?case
  proof (cases vs)
    case Nil
    then show ?thesis using last_item [OF v gap_break Cons.prems(3), of "is_list v"] by simp
  next
    case (Cons x xs)
    have "items_text n vs (joined (map (\<lambda>v. (if is_list v then [0x0A] else []) @ native_text v) vs) @ w)"
      by (rule Cons.IH) (use Cons.prems Cons in simp_all)
    note items = this
    have "items_text n (v # vs) ((if is_list v then [0x0A] else []) @ native_text v @ []
        @ COMMA # joined (map (\<lambda>v. (if is_list v then [0x0A] else []) @ native_text v) vs) @ w)"
      by (rule more_items [OF v gap_break _ items]) (simp add: gap_def)
    then show ?thesis by (simp add: Cons)
  qed
qed simp

lemma native_layout: "value_ok n v \<Longrightarrow> value_text n v (native_text v)"
proof (induction n arbitrary: v)
  case (Suc n)
  show ?case
  proof (cases v)
    case (Brace_List vs)
    then have each: "\<forall>v \<in> set vs. value_text n v (native_text v)" using Suc by (simp add: list_all_iff)
    show ?thesis
    proof (cases "vs = []")
      case True
      then show ?thesis using empty_list [of "[]" n] by (simp add: Brace_List gap_def)
    next
      case False
      show ?thesis using full_list [OF native_items [OF each False gap_break, of "vs \<noteq> [] \<and> is_list (last vs)"]]
        by (simp add: Brace_List)
    qed
  next
    case (Brace_Text t)
    then show ?thesis using quoted by simp
  next
    case (Brace_Atom t)
    then show ?thesis using Suc.prems atom by simp
  qed
qed simp

section \<open>Texts in UTF-8\<close>

definition utf8_char :: "nat \<Rightarrow> bytes" where
  "utf8_char c = map of_nat
     (if c < 0x80 then [c]
      else if c < 0x800 then [0xC0 + c div 64, 0x80 + c mod 64]
      else if c < 0x10000 then [0xE0 + c div 4096, 0x80 + c div 64 mod 64, 0x80 + c mod 64]
      else [0xF0 + c div 262144, 0x80 + c div 4096 mod 64, 0x80 + c div 64 mod 64, 0x80 + c mod 64])"

definition utf8_bytes :: "ustr \<Rightarrow> bytes" where
  "utf8_bytes t = concat (map utf8_char t)"

lemmas byte_order = word_less_nat_alt word_le_nat_alt word_unat_eq_iff

lemma utf8_one: "unat a < 128 \<Longrightarrow> utf8_step (a # bs) = (Some (unat a), 1)"
  by (simp add: utf8_step_def byte_order)

lemma low_bits: "unat b = m * 2 ^ k + n \<Longrightarrow> n < 2 ^ k \<Longrightarrow> low k b = n"
  by (simp add: low_def)

lemma next_bytes:
  assumes "unat b = 128 + y" and "y < 64"
  shows "cont b" and "low 6 b = y"
  using assms low_bits [of b 2 6 y] by (simp_all add: cont_def byte_order)

lemma utf8_two:
  assumes a: "unat a = 192 + x" "2 \<le> x" "x < 32" and b: "unat b = 128 + y" "y < 64"
  shows "utf8_step (a # b # bs) = (Some (x * 64 + y), 2)"
proof -
  have l: "low 5 a = x" using a low_bits [of a 6 5 x] by simp
  show ?thesis using a by (simp add: utf8_step_def Let_def byte_order l next_bytes [OF b])
qed

lemma utf8_three:
  assumes a: "unat a = 224 + x" "x < 16" and b: "unat b = 128 + y" "y < 64" and c: "unat c = 128 + z" "z < 64"
    and wide: "x = 0 \<longrightarrow> 32 \<le> y" "x = 13 \<longrightarrow> y < 32"
  shows "utf8_step (a # b # c # bs) = (Some (x * 4096 + y * 64 + z), 3)"
proof -
  have l: "low 4 a = x" using a low_bits [of a 14 4 x] by simp
  have s: "second_ok a b" using a b wide by (auto simp: second_ok_def byte_order next_bytes [OF b])
  show ?thesis using a by (simp add: utf8_step_def Let_def byte_order l s next_bytes [OF b] next_bytes [OF c])
qed

lemma utf8_four:
  assumes a: "unat a = 240 + x" "x < 5" and b: "unat b = 128 + y" "y < 64" and c: "unat c = 128 + z" "z < 64"
    and d: "unat d = 128 + w" "w < 64" and wide: "x = 0 \<longrightarrow> 16 \<le> y" "x = 4 \<longrightarrow> y < 16"
  shows "utf8_step (a # b # c # d # bs) = (Some (x * 262144 + y * 4096 + z * 64 + w), 4)"
proof -
  have l: "low 3 a = x" using a low_bits [of a 30 3 x] by simp
  have s: "second_ok a b" using a b wide by (auto simp: second_ok_def byte_order next_bytes [OF b])
  show ?thesis using a
    by (simp add: utf8_step_def Let_def byte_order l s next_bytes [OF b] next_bytes [OF c] next_bytes [OF d])
qed

lemma utf8_step_char:
  assumes "is_scalar c"
  shows "utf8_step (utf8_char c @ bs) = (Some c, length (utf8_char c))"
proof -
  define w z y where "w = c mod 64" and "z = c div 64 mod 64" and "y = c div 4096 mod 64"
  have parts: "w < 64" "z < 64" "y < 64" by (simp_all add: w_def z_def y_def)
  have "c div 4096 = c div 64 div 64" "c div 262144 = c div 4096 div 64" by (simp_all add: div_mult2_eq [symmetric])
  then have split: "c div 64 * 64 + w = c" "c div 4096 * 64 + z = c div 64" "c div 262144 * 64 + y = c div 4096"
    by (simp_all add: w_def z_def y_def)
  have unat_low: "unat (of_nat (0x80 + n) :: u8) = 128 + n" if "n < 64" for n using that by (simp add: unat_of_nat del: of_nat_add)
  consider "c < 0x80" | "0x80 \<le> c" "c < 0x800" | "0x800 \<le> c" "c < 0x10000" | "0x10000 \<le> c" by linarith
  then show ?thesis
  proof cases
    case 1
    then show ?thesis using utf8_one [of "of_nat c"] by (simp add: utf8_char_def unat_of_nat)
  next
    case 2
    have x: "2 \<le> c div 64" "c div 64 < 32" using 2 by (simp_all add: less_eq_div_iff_mult_less_eq div_less_iff_less_mult)
    then have "unat (of_nat (0xC0 + c div 64) :: u8) = 192 + c div 64" by (simp add: unat_of_nat del: of_nat_add)
    then show ?thesis using 2 utf8_two [OF _ x unat_low [OF parts(1)] parts(1)] by (simp add: utf8_char_def w_def del: of_nat_add)
  next
    case 3
    have x: "c div 4096 < 16" using 3 by (simp add: div_less_iff_less_mult)
    have c: "c div 4096 * 4096 + z * 64 + w = c" using split(1,2) by linarith
    have wide: "c div 4096 = 0 \<longrightarrow> 32 \<le> z" "c div 4096 = 13 \<longrightarrow> z < 32"
      using 3 assms c parts unfolding is_scalar_def by linarith+
    have "unat (of_nat (0xE0 + c div 4096) :: u8) = 224 + c div 4096" using x by (simp add: unat_of_nat del: of_nat_add)
    then show ?thesis using 3 c utf8_three [OF _ x unat_low [OF parts(2)] parts(2) unat_low [OF parts(1)] parts(1) wide]
      by (simp add: utf8_char_def w_def z_def del: of_nat_add)
  next
    case 4
    have x: "c div 262144 < 5" using assms by (auto simp: div_less_iff_less_mult is_scalar_def)
    have c: "c div 262144 * 262144 + y * 4096 + z * 64 + w = c" using split by linarith
    have wide: "c div 262144 = 0 \<longrightarrow> 16 \<le> y" "c div 262144 = 4 \<longrightarrow> y < 16"
      using 4 assms c parts unfolding is_scalar_def by linarith+
    have "unat (of_nat (0xF0 + c div 262144) :: u8) = 240 + c div 262144" using x by (simp add: unat_of_nat del: of_nat_add)
    then show ?thesis
      using 4 c utf8_four [OF _ x unat_low [OF parts(3)] parts(3) unat_low [OF parts(2)] parts(2) unat_low [OF parts(1)] parts(1) wide]
      by (simp add: utf8_char_def w_def z_def y_def del: of_nat_add)
  qed
qed

lemma utf8_char_nonempty: "utf8_char c \<noteq> []"
  by (simp add: utf8_char_def)

lemma utf8_reads: "list_all is_scalar t \<Longrightarrow> utf8_parts (utf8_bytes t) = map Some t"
proof (induction t)
  case Nil
  then show ?case by (subst utf8_parts.simps) (simp add: utf8_bytes_def)
next
  case (Cons c t)
  have "utf8_step (utf8_bytes (c # t)) = (Some c, length (utf8_char c))"
    using utf8_step_char [of c "utf8_bytes t"] Cons.prems by (simp add: utf8_bytes_def)
  then show ?case using Cons utf8_char_nonempty [of c] by (subst utf8_parts.simps) (simp add: utf8_bytes_def)
qed

lemma text_reads: "list_all is_scalar t \<Longrightarrow> from_utf8 (utf8_bytes t) = Some t \<and> from_utf8_lossy (utf8_bytes t) = t"
  by (simp add: from_utf8_def from_utf8_lossy_def utf8_reads image_iff comp_def)

section \<open>The catalogue\<close>

text \<open>The head of the root object: the locale in 32 bytes, the number of tables and the block at which the
  description of each begins.\<close>

definition root_head :: "ustr \<Rightarrow> u32 list \<Rightarrow> bytes" where
  "root_head name blocks = utf8_bytes name @ replicate (32 - length (utf8_bytes name)) 0 @ le32 (length blocks)
     @ concat (map (to_le_bytes 4) blocks)"

definition locale_ok :: "ustr \<Rightarrow> bool" where
  "locale_ok name \<longleftrightarrow> list_all is_scalar name \<and> length (utf8_bytes name) \<le> 32 \<and> (name = [] \<or> last name \<noteq> 0)"

text \<open>What a root object holds: from block 1 on the head, and from the block named for each table, wherever
  that is, a text that describes it.\<close>

definition catalogue_at :: "bytes \<Rightarrow> ustr \<Rightarrow> table list \<Rightarrow> bool" where
  "catalogue_at obj name ts \<longleftrightarrow> locale_ok name \<and> (\<exists>parts :: (u32 \<times> ustr) list.
     length parts \<le> u32_max \<and> chain_holds obj 1 (root_head name (map fst parts))
     \<and> list_all2 (\<lambda>t (b, txt). table_text t txt \<and> chain_holds obj (unat b) (utf8_bytes txt)
          \<and> length (utf8_bytes txt) \<le> u64_max) ts parts)"

lemma length_root_head: "length (utf8_bytes name) \<le> 32 \<Longrightarrow> length (root_head name blocks) = 36 + length blocks * 4"
proof -
  have "length (concat (map (to_le_bytes 4) bs)) = length bs * 4" for bs :: "u32 list"
    by (induction bs) (simp_all add: length_to_le_bytes)
  then show "length (utf8_bytes name) \<le> 32 \<Longrightarrow> length (root_head name blocks) = 36 + length blocks * 4"
    by (simp add: root_head_def)
qed

text \<open>The starts of the chains that \<open>write_values\<close> makes.\<close>

fun refs_of :: "bytes list \<Rightarrow> nat \<Rightarrow> (u32 \<times> u32) list" where
  "refs_of [] block = []"
| "refs_of (v # vs) block =
     (if v = [] then (0, 0) # refs_of vs block else (of_nat block, of_nat (length v)) # refs_of vs (block + blocks_of v))"

lemma write_chunks_block: "write_chunks i n chs block out = (out', block') \<Longrightarrow> block' = block + length chs"
  by (induction i n chs block out rule: write_chunks.induct) (auto simp: Let_def)

lemma write_values_refs:
  "write_values vs block out refs = Ok (out', block', rs) \<Longrightarrow> rs = refs @ refs_of vs block"
proof (induction vs arbitrary: block out refs)
  case (Cons v vs)
  show ?case
  proof (cases "v = []")
    case False
    obtain out1 b1 where w: "write_chunks 0 (length (chunks DATA v)) (chunks DATA v) block out = (out1, b1)" by fastforce
    have "b1 = block + blocks_of v" using write_chunks_block [OF w] blocks_of_chunks [of v] by simp
    then show ?thesis using Cons.prems False w by (auto simp: Let_def split: if_splits dest: Cons.IH)
  qed (use Cons.prems in \<open>auto split: if_splits dest: Cons.IH\<close>)
qed simp

lemma build_refs_of: "build vs n = Ok (obj, refs) \<Longrightarrow> refs = refs_of vs 1"
  by (auto simp: build_def Let_def try_res_eq_Inr split: if_splits dest!: write_values_refs)

definition head_blocks :: "nat \<Rightarrow> nat" where
  "head_blocks count = (36 + count * 4 + 249) div 250"

lemma length_refs_of: "length (refs_of vs b) = length vs"
  by (induction vs arbitrary: b) simp_all

text \<open>A catalogue for any locale, tables and texts: head and texts built into one blob object.\<close>

lemma built_catalogue:
  assumes name: "locale_ok name" and texts: "list_all2 table_text ts txts"
    and b: "build (root_head name (map fst (refs_of (map utf8_bytes txts) (1 + head_blocks (length txts)))) # map utf8_bytes txts) 0
      = Ok (obj, refs)"
  shows "catalogue_at obj name ts"
proof -
  let ?refs = "refs_of (map utf8_bytes txts) (1 + head_blocks (length txts))"
  let ?head = "root_head name (map fst ?refs)"
  have short: "length (utf8_bytes name) \<le> 32" using name by (simp add: locale_ok_def)
  have len: "length ?head = 36 + length txts * 4" by (simp add: length_root_head [OF short] length_refs_of)
  then have "blocks_of ?head = head_blocks (length txts)" "?head \<noteq> []" by (auto simp: blocks_of_def head_blocks_def)
  then have refs: "refs = (1, of_nat (length ?head)) # ?refs" using build_refs_of [OF b] by simp
  have st: "list_all2 (stored_at obj) (?head # map utf8_bytes txts) refs" by (rule build_stores(1) [OF b])
  note small = build_small(3) [OF b]
  let ?parts = "zip (map fst ?refs) txts"
  have fsts: "map fst ?parts = map fst ?refs" by (simp add: length_refs_of)
  have "chain_holds obj 1 (root_head name (map fst ?parts))"
    using st stored_value [of obj ?head "(1, of_nat (length ?head))"] unfolding fsts refs by (simp add: value_at_def)
  moreover have "length ?parts \<le> u32_max" using small len by (simp add: length_refs_of)
  moreover have "list_all2 (\<lambda>t (b, txt). table_text t txt \<and> chain_holds obj (unat b) (utf8_bytes txt)
          \<and> length (utf8_bytes txt) \<le> u64_max) ts ?parts"
  proof -
    have lt: "length ts = length txts" by (rule list_all2_lengthD [OF texts])
    have "table_text (ts ! i) (txts ! i) \<and> chain_holds obj (unat (fst (?refs ! i))) (utf8_bytes (txts ! i))
        \<and> length (utf8_bytes (txts ! i)) \<le> u64_max" if i: "i < length txts" for i
    proof -
      have "stored_at obj (map utf8_bytes txts ! i) (?refs ! i)"
        using st i unfolding refs by (auto simp: list_all2_conv_all_nth length_refs_of)
      then have "chain_holds obj (unat (fst (?refs ! i))) (utf8_bytes (txts ! i))"
        using i stored_value by (fastforce simp: value_at_def)
      moreover have "length (utf8_bytes (txts ! i)) \<le> u32_max" using small i by simp
      ultimately show ?thesis using list_all2_nthD2 [OF texts i] by simp
    qed
    then show ?thesis by (simp add: list_all2_conv_all_nth lt length_refs_of)
  qed
  ultimately show ?thesis unfolding catalogue_at_def using name by blast
qed

section \<open>Reading the catalogue\<close>

lemma metadata_charges:
  "pg_budget p = None \<Longrightarrow> c + sum_list us \<le> u64_max \<Longrightarrow> charges (metadata_copy False) (p, c) us = (Ok (), (p, c + sum_list us))"
  by (induction us arbitrary: c)
    (simp_all add: metadata_copy_def checked_add64_def Filedb_Pager_Laws.charges on_budget_none add.assoc)

text \<open>A chain of the root object, without a budget.\<close>

lemma metadata_reads:
  assumes v: "chain_holds obj (unat b) v" and small: "length v \<le> u64_max" and nb: "pg_budget p = None"
  shows "read_metadata_chain obj b p = (Ok v, p)"
proof -
  obtain ch where ch: "links obj ch" "first_block ch = unat b" "concat (map snd ch) = v"
    using v by (auto simp: chain_holds_def)
  let ?us = "map (\<lambda>x. length (snd x)) ch"
  have sum: "sum_list ?us = length v" unfolding ch(3) [symmetric] by (simp add: length_concat comp_def)
  have "charges (metadata_copy False) (p, 0) (0 # ?us) = (Ok (), (p, 0 + sum_list (0 # ?us)))"
    by (rule metadata_charges [OF nb]) (use sum small in simp)
  then have "read_chain_accounted obj b None (metadata_copy False) (p, 0) = (Ok v, (p, length v))"
    using read_chain_links [OF ch(1) ch(2) [symmetric], of None "metadata_copy False" "(p, 0)"] ch(3) sum
    by (simp add: then_value_def del: charges.simps)
  then show ?thesis using nb by (simp add: read_metadata_chain_def read_is_bounded_def)
qed

definition tables_added :: "table list \<Rightarrow> tables \<Rightarrow> tables" where
  "tables_added ts tabs = fold (\<lambda>t m. m(tb_name t \<mapsto> t)) ts tabs"

lemma slice_blocks:
  assumes "length a = n" and "i < length (bs :: u32 list)"
  shows "from_le_bytes (slice (n + i * 4) (n + 4 + i * 4) (a @ concat (map (to_le_bytes 4) bs))) = bs ! i"
proof -
  have "slice (i * 4) (i * 4 + 4) (concat (map (to_le_bytes 4) bs)) = to_le_bytes 4 (bs ! i)" using assms(2)
  proof (induction bs arbitrary: i)
    case (Cons b bs)
    then show ?case by (cases i) (simp_all add: slice_def length_to_le_bytes drop_Cons' )
  qed simp
  moreover have "slice (n + i * 4) (n + 4 + i * 4) (a @ xs) = slice (i * 4) (i * 4 + 4) xs" for xs
    using assms(1) by (simp add: slice_def)
  ultimately show ?thesis by (simp add: from_to_le_u32)
qed

lemma tables_read:
  fixes parts :: "(u32 \<times> ustr) list"
  assumes nb: "pg_budget p = None"
    and blocks: "\<And>i. i < length parts \<Longrightarrow> from_le_bytes (slice (36 + i * 4) (40 + i * 4) head) = fst (parts ! i)"
  shows "list_all2 (\<lambda>t (b, txt). table_text t txt \<and> chain_holds obj (unat b) (utf8_bytes txt) \<and> length (utf8_bytes txt) \<le> u64_max)
       ts (drop k parts) \<Longrightarrow> k + length ts = length parts \<Longrightarrow>
     tables_loop obj head [k..<length parts] tabs p = (Ok (tables_added ts tabs), p)"
proof (induction ts arbitrary: k tabs)
  case Nil
  then show ?case by (simp add: ret_def tables_added_def)
next
  case (Cons t ts)
  have k: "k < length parts" "[k..<length parts] = k # [Suc k..<length parts]" using Cons.prems(2) by (simp_all add: upt_conv_Cons)
  have d: "drop k parts = parts ! k # drop (Suc k) parts" using k(1) by (simp add: Cons_nth_drop_Suc)
  obtain b w where bw: "parts ! k = (b, w)" by (cases "parts ! k")
  have t: "table_text t w" "chain_holds obj (unat b) (utf8_bytes w)" "length (utf8_bytes w) \<le> u64_max"
    and rest: "list_all2 (\<lambda>t (b, txt). table_text t txt \<and> chain_holds obj (unat b) (utf8_bytes txt) \<and> length (utf8_bytes txt) \<le> u64_max)
       ts (drop (Suc k) parts)" using Cons.prems(1) unfolding d bw by simp_all
  have dec: "from_utf8 (utf8_bytes w) = Some w" using t(1) text_reads by (simp add: table_text_def)
  have free: "free_check check_read p" using nb by (simp add: free_check_def check_read_def on_budget_none)
  have "tables_loop obj head (k # [Suc k..<length parts]) tabs p = tables_loop obj head [Suc k..<length parts] (tabs(tb_name t \<mapsto> t)) p"
    using nb blocks [OF k(1)] metadata_reads [OF t(2,3) nb] dec table_reads [OF free t(1)]
    by (simp add: and_then_def materialize_record_def on_budget_none bw)
  moreover have "tables_added (t # ts) tabs = tables_added ts (tabs(tb_name t \<mapsto> t))" by (simp add: tables_added_def)
  moreover have "tables_loop obj head [Suc k..<length parts] (tabs(tb_name t \<mapsto> t)) p = (Ok (tables_added ts (tabs(tb_name t \<mapsto> t))), p)"
    by (rule Cons.IH [OF rest]) (use Cons.prems(2) in simp)
  ultimately show ?case unfolding k(2) by simp
qed

lemma tables_added_distinct:
  "distinct (map tb_name ts) \<Longrightarrow> tables_added ts (\<lambda>_. None) n = find (\<lambda>t. tb_name t = n) ts"
proof -
  have other: "n \<notin> tb_name ` set ts \<Longrightarrow> tables_added ts m n = m n" for m ts
    by (induction ts arbitrary: m) (simp_all add: tables_added_def)
  have "distinct (map tb_name ts) \<Longrightarrow> tables_added ts m n = (case find (\<lambda>t. tb_name t = n) ts of None \<Rightarrow> m n | Some t \<Rightarrow> Some t)" for m
  proof (induction ts arbitrary: m)
    case (Cons t ts)
    have step: "tables_added (t # ts) m = tables_added ts (m(tb_name t \<mapsto> t))" by (simp add: tables_added_def)
    show ?case using Cons other [of ts "m(tb_name t \<mapsto> t)"] unfolding step by (auto split: option.splits)
  qed (simp add: tables_added_def)
  then show "distinct (map tb_name ts) \<Longrightarrow> ?thesis" by (simp split: option.splits)
qed

lemma zeros_trimmed: "name = [] \<or> last name \<noteq> 0 \<Longrightarrow> trim_zeros (name @ replicate k 0) = name"
proof -
  assume "name = [] \<or> last name \<noteq> 0"
  then have "dropWhile (\<lambda>c. c = 0) (rev name) = rev name" by (cases "rev name") (auto simp: last_rev [symmetric] hd_rev)
  moreover have "dropWhile (\<lambda>c. c = 0) (replicate k (0 :: nat) @ rev name) = dropWhile (\<lambda>c. c = 0) (rev name)"
    by (induction k) simp_all
  ultimately show ?thesis by (simp add: trim_zeros_def)
qed

context sound_file
begin

lemma catalogue_reads:
  assumes st: "stored contents p root content" and root: "ob_header_page root = 2" and ok: "pager_ok disk contents p"
    and nb: "pg_budget p = None" and cat: "catalogue_at content name ts"
  shows "\<exists>p'. descr_read_tables p = (Ok (name, tables_added ts (\<lambda>_. None)), p') \<and> reads_only disk contents p p' \<and> pg_budget p' = None"
proof -
  obtain parts :: "(u32 \<times> ustr) list" where few: "length parts \<le> u32_max" and head: "chain_holds content 1 (root_head name (map fst parts))"
    and texts: "list_all2 (\<lambda>t (b, txt). table_text t txt \<and> chain_holds content (unat b) (utf8_bytes txt)
       \<and> length (utf8_bytes txt) \<le> u64_max) ts parts" and name: "locale_ok name"
    using cat unfolding catalogue_at_def by blast
  let ?head = "root_head name (map fst parts)" and ?pad = "replicate (32 - length (utf8_bytes name)) (0 :: u8)"
  have short: "length (utf8_bytes name) \<le> 32" using name by (simp add: locale_ok_def)
  have len: "length ts = length parts" by (rule list_all2_lengthD [OF texts])
  have lh: "length ?head = 36 + length parts * 4" using length_root_head [OF short] by simp
  obtain p1 where o1: "object_open 2 p = (Ok root, p1)" "reads_only disk contents p p1" "pg_budget p1 = None"
    using open_stored [OF st ok nb] root by auto
  have ok1: "pager_ok disk contents p1" using o1(2) by (simp add: reads_only_def)
  obtain p2 where o2: "object_read_all root p1 = (Ok content, p2)" "reads_only disk contents p1 p2" "pg_budget p2 = None"
    using read_stored_all [OF reads_only_stored [OF o1(2) st] ok1 o1(3)] by blast
  have hd_read: "read_metadata_chain content 1 p2 = (Ok ?head, p2)"
    by (rule metadata_reads [OF _ _ o2(3)]) (use head lh few in simp_all)
  have t32: "take 32 ?head = utf8_bytes (name @ replicate (32 - length (utf8_bytes name)) 0)"
    using short by (simp add: root_head_def utf8_bytes_def utf8_char_def concat_replicate_single)
  have loc: "trim_zeros (from_utf8_lossy (take 32 ?head)) = name"
  proof -
    have "list_all is_scalar (name @ replicate (32 - length (utf8_bytes name)) 0)"
      using name by (auto simp: locale_ok_def list_all_iff is_scalar_def)
    then show ?thesis unfolding t32 using text_reads name by (simp add: locale_ok_def zeros_trimmed)
  qed
  have pre: "length (utf8_bytes name @ ?pad) = 32" using short by simp
  have split: "?head = (utf8_bytes name @ ?pad) @ le32 (length parts) @ concat (map (to_le_bytes 4) (map fst parts))"
    by (simp add: root_head_def)
  have "slice 32 36 ?head = le32 (length parts)"
    unfolding split using pre by (simp add: slice_def)
  then have cnt: "unat (from_le_bytes (slice 32 36 ?head) :: u32) = length parts" using from_le32 [OF few] by simp
  have blocks: "from_le_bytes (slice (36 + i * 4) (40 + i * 4) ?head) = fst (parts ! i)" if "i < length parts" for i
    using slice_blocks [of "(utf8_bytes name @ ?pad) @ le32 (length parts)" 36 i "map fst parts"] pre that
    unfolding split by (simp add: ac_simps)
  have loop: "tables_loop content ?head [0..<length parts] (\<lambda>_. None) p2 = (Ok (tables_added ts (\<lambda>_. None)), p2)"
    by (rule tables_read [OF o2(3) blocks]) (use texts len in simp_all)
  have "descr_read_tables p = (Ok (name, tables_added ts (\<lambda>_. None)), p2)"
    using o1(1) o2(1) hd_read lh loc cnt loop by (simp add: descr_read_tables_def and_then_def ret_def Let_def)
  then show ?thesis using reads_only_trans [OF o1(2) o2(2)] o2(3) by blast
qed

end

end
