(* ===== verification/Filedb_Session_Works.thy ===== *)
theory Filedb_Session_Works
  imports Filedb_Copy_Write Filedb_Descr_Laws
begin

text \<open>
  A replacement goes through: on files that do not fail and without a budget, the ownership check, the write
  into the copy and every check of the written copy succeed for rows that the table takes.  The table and the
  catalogue are in any layout of the format; \<open>replaceable\<close> collects what is asked of them.
\<close>

section \<open>Opening\<close>

definition header_valid :: "bytes \<Rightarrow> bool" where
  "header_valid c \<longleftrightarrow> 24 \<le> length c \<and> take 8 c = SIGNATURE \<and> slice 8 12 c = VERSION_838
     \<and> 4096 \<le> read_u32 20 c \<and> read_u32 20 c \<le> 65536 \<and> is_power_of_two (read_u32 20 c)
     \<and> 3 \<le> read_u32 12 c \<and> read_u32 12 c * read_u32 20 c \<le> length c"

context sound_file
begin

lemma pager_new_works:
  assumes v: "header_valid (contents f)"
  shows "\<exists>p. pager_new disk f = Ok p \<and> pg_budget p = None"
proof -
  note h = v [unfolded header_valid_def]
  obtain len where len: "bk_length disk f = Ok len" using length_sound by blast
  have lc: "len = length (contents f)" by (rule length_is [OF len])
  obtain f0 where sk: "bk_seek disk f 0 = (Ok (), f0)" using seek_sound by blast
  have c0: "contents f0 = contents f" "position f0 = 0" using seek_contents [OF sk] seek_position [OF sk] by simp_all
  have "position f0 + 24 \<le> length (contents f0)" using h c0 by simp
  then obtain head f1 where rd: "bk_read_exact disk f0 24 = (Ok head, f1)" using read_sound by blast
  have head: "head = take 24 (contents f)" using read_bytes [OF rd] c0 by (simp add: slice_def)
  have c1: "contents f1 = contents f" using read_contents [OF rd] c0 by simp
  have fields: "take 8 head = SIGNATURE" "slice 8 12 head = VERSION_838" "read_u32 20 head = read_u32 20 (contents f)"
    "read_u32 12 head = read_u32 12 (contents f)"
    using h by (simp_all add: head take_slice read_u32_take min_def)
  let ?p = "\<lparr>pg_file = f1, pg_disk = disk, pg_page_size = read_u32 20 (contents f),
      pg_page_count = read_u32 12 (contents f), pg_header = [], pg_budget = None\<rparr> :: ('a, 'b) pager"
  have "read_u32 12 (contents f) \<le> u32_max" unfolding read_u32_def by (rule unat_u32_le)
  then have ok: "pager_ok disk contents ?p"
    using h c1 power_of_two_multiple [of "read_u32 20 (contents f)"] by (simp add: pager_ok_def)
  have "works (read_page 0) ?p" by (rule works_read_page [OF ok]) (use h in simp_all)
  then obtain bs p1 where r: "read_page 0 ?p = (Ok bs, p1)" by (auto simp: works_def)
  have "reads_only disk contents ?p p1" using read_page_reads [OF r ok] by simp
  then have "pg_budget p1 = None" by (simp add: reads_only_def changed_def)
  then show ?thesis using len sk rd fields r h lc by (simp add: pager_new_def Let_def)
qed

lemma session_pager_works:
  fixes s :: "('a, 'e, 'z) write_session_scheme"
  assumes v: "header_valid (contents f)" and s: "ws_disk s = disk" "ws_budget s = None"
  obtains p :: "('a, 'e) pager" where "session_pager f s = (Ok p, s)" "pager_ok disk contents p" "opened_on contents (contents f) p"
    "pg_header p = pager_page contents p 0" "pg_budget p = None"
proof -
  obtain p :: "('a, 'e) pager" where p: "pager_new disk f = Ok p" "pg_budget p = None" using pager_new_works [OF v] by blast
  have "session_pager f s = (Ok (set_read_budget None p), s)"
    using s p(1) by (simp add: session_pager_def session_check_read_def budget_checked_def and_then_def of_result_def)
  moreover note session_pager_Ok [OF this s(1)]
  ultimately show thesis using that by (simp add: set_read_budget_def)
qed

end

section \<open>The ownership check\<close>

lemma claim_all_works:
  "distinct ns \<Longrightarrow> set ns \<inter> dom owners = {} \<Longrightarrow>
     claim_all ns holder owner_names owners = Ok (\<lambda>n. if n \<in> set ns then Some holder else owners n)"
proof (induction ns arbitrary: owners)
  case (Cons n ns)
  have n: "owners n = None" "set ns \<inter> dom (owners(n \<mapsto> holder)) = {}" using Cons.prems by auto
  have "claim_all ns holder owner_names (owners(n \<mapsto> holder))
      = Ok (\<lambda>m. if m \<in> set ns then Some holder else (owners(n \<mapsto> holder)) m)"
    by (rule Cons.IH [OF _ n(2)]) (use Cons.prems in simp)
  moreover have "(\<lambda>m. if m \<in> set ns then Some holder else (owners(n \<mapsto> holder)) m)
      = (\<lambda>m. if m \<in> set (n # ns) then Some holder else owners m)" by (auto simp: fun_eq_iff)
  ultimately show ?case using n(1) by (simp add: claim_def)
qed (simp add: fun_eq_iff)

text \<open>The objects of a table, stored at their header pages.\<close>

definition objects_at :: "('f \<Rightarrow> bytes) \<Rightarrow> ('f, 'e) pager \<Rightarrow> nat list \<Rightarrow> object list \<Rightarrow> bool" where
  "objects_at contents p hs obs \<longleftrightarrow> list_all2 (\<lambda>h ob. ob_header_page ob = h \<and> (\<exists>c. stored contents p ob c)) hs obs"

lemma objects_at_reads: "reads_only disk contents p p' \<Longrightarrow> objects_at contents p hs obs \<Longrightarrow> objects_at contents p' hs obs"
  unfolding objects_at_def by (erule list_all2_mono) (auto intro: reads_only_stored)

context sound_file
begin

lemma pages_loop_works:
  "objects_at contents p (filter (\<lambda>h. h \<noteq> 0) hs) obs \<Longrightarrow> pager_ok disk contents p \<Longrightarrow> pg_budget p = None \<Longrightarrow>
     \<exists>p'. pages_loop hs pgs p = (Ok (pgs @ pages_of obs), p') \<and> reads_only disk contents p p' \<and> pg_budget p' = None"
proof (induction hs arbitrary: pgs obs p)
  case Nil
  then show ?case by (simp add: objects_at_def ret_def reads_only_refl)
next
  case (Cons h hs)
  show ?case
  proof (cases "h = 0")
    case True
    then show ?thesis using Cons by simp
  next
    case False
    then obtain ob obs' c where obs: "obs = ob # obs'" "ob_header_page ob = h" "stored contents p ob c"
      and rest: "objects_at contents p (filter (\<lambda>h. h \<noteq> 0) hs) obs'"
      using Cons.prems(1) by (auto simp: objects_at_def list_all2_Cons1)
    obtain p1 where o: "object_open h p = (Ok ob, p1)" "reads_only disk contents p p1" "pg_budget p1 = None"
      using open_stored [OF obs(3) Cons.prems(2,3)] obs(2) by auto
    have "pager_ok disk contents p1" using o(2) by (simp add: reads_only_def)
    then obtain p2 where "pages_loop hs (pgs @ owned_pages ob) p1 = (Ok ((pgs @ owned_pages ob) @ pages_of obs'), p2)"
      "reads_only disk contents p1 p2" "pg_budget p2 = None"
      using Cons.IH [OF objects_at_reads [OF o(2) rest] _ o(3)] by blast
    then show ?thesis using o False reads_only_trans [OF o(2)] by (auto simp: and_then_def obs(1))
  qed
qed

lemma claim_tables_works:
  "list_all2 (\<lambda>t. objects_at contents p (table_heads t)) ts obss \<Longrightarrow> distinct (concat (map pages_of obss)) \<Longrightarrow>
     set (concat (map pages_of obss)) \<inter> dom owners = {} \<Longrightarrow> pager_ok disk contents p \<Longrightarrow> pg_budget p = None \<Longrightarrow>
     \<exists>out owners' p'. claim_tables target ts owner_names tgt owners p = (Ok (out, owners'), p')
       \<and> dom owners' = dom owners \<union> set (concat (map pages_of obss)) \<and> reads_only disk contents p p' \<and> pg_budget p' = None"
proof (induction ts arbitrary: obss owners owner_names tgt p)
  case Nil
  then show ?case by (simp add: ret_def reads_only_refl)
next
  case (Cons t ts)
  obtain obs obss' where obss: "obss = obs # obss'" "objects_at contents p (table_heads t) obs"
    and rest: "list_all2 (\<lambda>t. objects_at contents p (table_heads t)) ts obss'"
    using Cons.prems(1) by (auto simp: list_all2_Cons1)
  let ?named = "owner_names @ [Table_Owner (tb_name t)]" and ?o = "\<lambda>n. if n \<in> set (pages_of obs) then Some (length owner_names) else owners n"
  obtain p1 where tp: "table_pages t p = (Ok (pages_of obs), p1)" "reads_only disk contents p p1" "pg_budget p1 = None"
    using pages_loop_works [OF obss(2) [unfolded table_heads_def] Cons.prems(4,5), of "[]"] by (auto simp: table_pages_def)
  have ok1: "pager_ok disk contents p1" using tp(2) by (simp add: reads_only_def)
  have rest1: "list_all2 (\<lambda>t. objects_at contents p1 (table_heads t)) ts obss'"
    by (rule list_all2_mono [OF rest]) (rule objects_at_reads [OF tp(2)])
  have claim: "claim_all (pages_of obs) (length owner_names) ?named owners = Ok ?o"
    by (rule claim_all_works) (use Cons.prems(2,3) in \<open>auto simp: obss(1)\<close>)
  have apart: "set (concat (map pages_of obss')) \<inter> dom ?o = {}"
    using Cons.prems(2,3) unfolding obss(1) by (auto simp: dom_def split: if_splits)
  let ?tgt = "if tb_name t = target then length owner_names else tgt"
  have "\<exists>out owners' p'. claim_tables target ts ?named ?tgt ?o p1 = (Ok (out, owners'), p')
      \<and> dom owners' = dom ?o \<union> set (concat (map pages_of obss')) \<and> reads_only disk contents p1 p' \<and> pg_budget p' = None"
    by (rule Cons.IH [OF rest1 _ apart ok1 tp(3)]) (use Cons.prems(2) in \<open>simp add: obss(1)\<close>)
  then obtain out owners' p' where c: "claim_tables target ts ?named ?tgt ?o p1 = (Ok (out, owners'), p')"
    "dom owners' = dom ?o \<union> set (concat (map pages_of obss'))" "reads_only disk contents p1 p'" "pg_budget p' = None"
    by (elim exE conjE)
  have "claim_tables target (t # ts) owner_names tgt owners p = (Ok (out, owners'), p')"
    using tp(1) claim c(1) by (simp add: Let_def and_then_def of_result_def)
  moreover have "dom ?o = dom owners \<union> set (pages_of obs)" by (auto simp: dom_def)
  ultimately show ?case using c(2-4) reads_only_trans [OF tp(2) c(3)] by (auto simp: obss(1))
qed

end

context sound_file
begin

lemma examine_works:
  assumes ok: "pager_ok disk contents p" and nb: "pg_budget p = None"
    and root: "stored contents p root content" "ob_header_page root = 2"
    and tabs: "list_all2 (\<lambda>t. objects_at contents p (table_heads t)) (table_values tabs) obss"
    and apart: "distinct (1 # owned_pages root @ concat (map pages_of obss))"
    and lay: "check_layout target = Ok ()" and held: "table_holds contents p target tobs rb bb ib" and rows: "records_hold rb bb nrs"
  shows "\<exists>count others p'. examine tabs target p = (Ok (pg_page_count p, count, others), p')
    \<and> reads_only disk contents p p' \<and> pg_budget p' = None \<and> (\<forall>n \<in> others. n < pg_page_count p)"
proof -
  let ?names = "[Free_List_Owner, Root_Owner]" and ?one = "[1 \<mapsto> (0 :: nat)] :: nat \<rightharpoonup> nat"
  let ?two = "\<lambda>n. if n \<in> set (owned_pages root) then Some 1 else ?one n"
  obtain p1 where o: "object_open 2 p = (Ok root, p1)" "reads_only disk contents p p1" "pg_budget p1 = None"
    using open_stored [OF root(1) ok nb] root(2) by auto
  have ok1: "pager_ok disk contents p1" using o(2) by (simp add: reads_only_def)
  have one: "claim 1 0 ?names (\<lambda>_. None) = Ok ?one" by (simp add: claim_def)
  have two: "claim_all (owned_pages root) 1 ?names ?one = Ok ?two"
    by (rule claim_all_works) (use apart in auto)
  have tabs1: "list_all2 (\<lambda>t. objects_at contents p1 (table_heads t)) (table_values tabs) obss"
    by (rule list_all2_mono [OF tabs]) (rule objects_at_reads [OF o(2)])
  have free: "set (concat (map pages_of obss)) \<inter> dom ?two = {}" using apart by (auto simp: dom_def split: if_splits)
  have "distinct (concat (map pages_of obss))" using apart by simp
  note claimed = claim_tables_works [OF tabs1 this free ok1 o(3), of "tb_name target" ?names u32_max]
  obtain out owners p2 where c: "claim_tables (tb_name target) (table_values tabs) ?names u32_max ?two p1 = (Ok (out, owners), p2)"
    "dom owners = dom ?two \<union> set (concat (map pages_of obss))" "reads_only disk contents p1 p2" "pg_budget p2 = None"
    using claimed by (elim exE conjE)
  have r2: "reads_only disk contents p p2" by (rule reads_only_trans [OF o(2) c(3)])
  then have ok2: "pager_ok disk contents p2" by (simp add: reads_only_def)
  obtain rs p3 where r: "read_records target False p2 = (Ok rs, p3)" "reads_only disk contents p2 p3" "pg_budget p3 = None"
    using held_rows [OF lay table_holds_reads [OF held r2] rows ok2 c(4)] by blast
  have r3: "reads_only disk contents p p3" by (rule reads_only_trans [OF r2 r(2)])
  have run: "examine tabs target p = (Ok (pg_page_count p3, length rs, {n \<in> dom owners. owners n \<noteq> Some out}), p3)"
    using o(1) one two c(1) r(1) by (simp add: examine_def Let_def and_then_def of_result_def ret_def)
  have count: "pg_page_count p3 = pg_page_count p" using r3 by (simp add: reads_only_def)
  have "n < pg_page_count p" if "n \<in> dom owners" for n
  proof -
    have own: "m < pg_page_count p" if "stored contents p ob d" "m \<in> set (owned_pages ob)" for ob d m
      using that by (simp add: stored_def object_ok_def)
    have "2 < pg_page_count p" using own [OF root(1), of 2] root(2) by (simp add: owned_pages_def)
    then have "1 < pg_page_count p" by simp
    moreover have "m < pg_page_count p" if obs: "obs \<in> set obss" and m: "m \<in> set (pages_of obs)" for obs m
    proof -
      obtain i where i: "i < length obss" "obs = obss ! i" using obs by (auto simp: in_set_conv_nth)
      then have "objects_at contents p (table_heads (table_values tabs ! i)) obs" using tabs list_all2_nthD2 by fastforce
      then have "\<forall>ob \<in> set obs. \<exists>d. stored contents p ob d"
        unfolding objects_at_def by (induction rule: list_all2_induct) auto
      then show ?thesis using m own by (auto simp: pages_of_def)
    qed
    moreover have "n = 1 \<or> n \<in> set (owned_pages root) \<or> (\<exists>obs \<in> set obss. n \<in> set (pages_of obs))"
      using \<open>n \<in> dom owners\<close> unfolding c(2) by (auto simp: dom_def split: if_splits)
    ultimately show ?thesis using own [OF root(1)] by blast
  qed
  then show ?thesis using run r3 r(3) count by auto
qed

section \<open>Checking an index\<close>

lemma entries_check_free: "pg_budget p = None \<Longrightarrow> entries_check n p = (Ok (), p)"
  by (simp add: entries_check_def and_then_def ret_def charges on_budget_none)

lemma index_read:
  assumes ok: "pager_ok disk contents p" and nb: "pg_budget p = None" and t: "config_table tabs name = Ok t"
    and held: "table_holds contents p t obs records blob index"
  shows "\<exists>p'. index_entries tabs name p = read_entries_checked index (pg_page_size p) entries_check p'
    \<and> reads_only disk contents p p' \<and> pg_budget p' = None"
proof -
  obtain ro bo io where obs: "obs = (ro, bo, io)" by (cases obs)
  have io: "stored contents p io index" "ob_header_page io = tb_index_page t" using held by (simp_all add: table_holds_def obs)
  obtain p1 where o: "object_open (tb_index_page t) p = (Ok io, p1)" "reads_only disk contents p p1" "pg_budget p1 = None"
    using open_stored [OF io(1) ok nb] io(2) by auto
  have ok1: "pager_ok disk contents p1" using o(2) by (simp add: reads_only_def)
  obtain p2 where a: "object_read_all io p1 = (Ok index, p2)" "reads_only disk contents p1 p2" "pg_budget p2 = None"
    using read_stored_all [OF reads_only_stored [OF o(2) io(1)] ok1 o(3)] by blast
  have r2: "reads_only disk contents p p2" by (rule reads_only_trans [OF o(2) a(2)])
  then show ?thesis using o(1) a(1,3) t
    by (auto simp: index_entries_def and_then_def of_result_def reads_only_size [OF r2] split: prod.splits sum.splits)
qed

lemma index_entries_works:
  assumes ok: "pager_ok disk contents p" and nb: "pg_budget p = None" and t: "config_table tabs name = Ok t"
    and held: "table_holds contents p t obs records blob index" and es: "index_says (pg_page_size p) index es"
  shows "\<exists>p'. index_entries tabs name p = (Ok es, p') \<and> reads_only disk contents p p' \<and> pg_budget p' = None"
proof -
  obtain p2 where p2: "index_entries tabs name p = read_entries_checked index (pg_page_size p) entries_check p2"
      "reads_only disk contents p p2" "pg_budget p2 = None"
    using index_read [OF ok nb t held] by blast
  have kept: "kept_by entries_check (\<lambda>q. q = p2)" by (simp add: kept_by_def entries_check_free [OF p2(3)])
  have "\<exists>q. read_entries_checked index (pg_page_size p) entries_check p2 = (Ok es, q) \<and> q = p2"
    by (rule yields_Ok [OF index_says_reads [OF es] kept]) (simp_all add: entries_check_free [OF p2(3)])
  then show ?thesis using p2 by auto
qed

text \<open>The check of an index accepts the entries of the rows in the order of their keys.\<close>

lemma verify_index_works:
  assumes ok: "pager_ok disk contents p" and nb: "pg_budget p = None" and t: "config_table tabs name = Ok t"
    and held: "table_holds contents p t obs records blob index" and rows: "records_hold records blob nrs"
    and entries: "entries_of coll nrs entries" and says: "index_says (pg_page_size p) index (sort_key snd entries)"
  shows "\<exists>p'. verify_index tabs name coll p = (Ok (length entries), p') \<and> reads_only disk contents p p' \<and> pg_budget p' = None"
proof -
  have lay: "check_layout t = Ok ()" using t by (auto simp: config_table_def try_res_eq_Inr split: option.splits)
  obtain p1 where r: "read_records t False p = (Ok (listed_rows False nrs), p1)" "reads_only disk contents p p1" "pg_budget p1 = None"
    using held_rows [OF lay held rows ok nb] by blast
  have ok1: "pager_ok disk contents p1" using r(2) by (simp add: reads_only_def)
  obtain p2 where i: "index_entries tabs name p1 = (Ok (sort_key snd entries), p2)" "reads_only disk contents p1 p2" "pg_budget p2 = None"
    using index_entries_works [OF ok1 r(3) t table_holds_reads [OF held r(2)]] says reads_only_size [OF r(2)] by auto
  have "record_entries coll (listed_rows False nrs) = Ok entries" using entries unfolding entries_of_listed .
  then show ?thesis using r(1) t i reads_only_trans [OF r(2) i(2)]
    by (simp add: verify_index_def and_then_def of_result_def ret_def Let_def)
qed

text \<open>It accepts nothing else.\<close>

lemma verify_index_says:
  assumes run: "verify_index tabs name coll p = (Ok n, p')" and ok: "pager_ok disk contents p" and nb: "pg_budget p = None"
    and t: "config_table tabs name = Ok t"
    and held: "table_holds contents p t obs records blob index" and rows: "records_hold records blob nrs"
  shows "\<exists>entries. entries_of coll nrs entries \<and> index_says (pg_page_size p) index (sort_key snd entries)"
proof -
  have lay: "check_layout t = Ok ()" using t by (auto simp: config_table_def try_res_eq_Inr split: option.splits)
  obtain p1 where r: "read_records t False p = (Ok (listed_rows False nrs), p1)" "reads_only disk contents p p1" "pg_budget p1 = None"
    using held_rows [OF lay held rows ok nb] by blast
  have ok1: "pager_ok disk contents p1" using r(2) by (simp add: reads_only_def)
  obtain p2 where i: "index_entries tabs name p1 = read_entries_checked index (pg_page_size p) entries_check p2"
    using index_read [OF ok1 r(3) t table_holds_reads [OF held r(2)]] reads_only_size [OF r(2)] by auto
  obtain entries where e: "record_entries coll (listed_rows False nrs) = Ok entries"
      "index_entries tabs name p1 = (Ok (sort_key snd entries), p')"
    using run t r(1) by (auto simp: verify_index_def and_then_def of_result_def ret_def fail_def Let_def split: sum.splits prod.splits if_splits)
  then show ?thesis using reads_index_says [OF e(2) [unfolded i]] unfolding entries_of_listed by blast
qed

end

section \<open>The checks of the copy\<close>

lemma opened_page: "opened_on contents c p \<Longrightarrow> pager_page contents p n = page_of (read_u32 20 (take 24 c)) c n"
  by (simp add: opened_on_def pager_page_def)

text \<open>Two pagers without budgets, on the contents \<open>a\<close> and \<open>b\<close>.\<close>

definition paired :: "'f backing \<Rightarrow> ('f \<Rightarrow> bytes) \<Rightarrow> bytes \<Rightarrow> bytes \<Rightarrow> ('f, 'e) two_pagers \<Rightarrow> bool" where
  "paired disk contents a b w \<longleftrightarrow>
     pager_ok disk contents (tp_before w) \<and> opened_on contents a (tp_before w) \<and> pg_budget (tp_before w) = None
     \<and> pager_ok disk contents (tp_copy w) \<and> opened_on contents b (tp_copy w) \<and> pg_budget (tp_copy w) = None"

lemma budget_none: "pg_budget p = None \<Longrightarrow> set_read_budget None p = p"
  by (simp add: set_read_budget_def)

context sound_file
begin

lemma read_page_works:
  fixes p :: "('a, 'e) pager"
  assumes ok: "pager_ok disk contents p" and nb: "pg_budget p = None" and n: "n < pg_page_count p" and k: "k = pg_page_size p"
  shows "\<exists>p'. read_page_into n k p = (Ok (pager_page contents p n), p') \<and> reads_only disk contents p p' \<and> pg_budget p' = None"
proof -
  obtain bs and p' :: "('a, 'e) pager" where r: "read_page n p = (Ok bs, p')" using works_read_page [OF ok nb n] by (auto simp: works_def)
  have "reads_only disk contents p p' \<and> bs = pager_page contents p n" using read_page_reads [OF r ok] by simp
  moreover from this have "pg_budget p' = None" using nb by (simp add: reads_only_def changed_def)
  ultimately show ?thesis using r k by (simp add: read_page_def)
qed

lemma on_before_works:
  assumes w: "paired disk contents a b w" and m: "m (tp_before w) = (Ok x, p)" "reads_only disk contents (tp_before w) p" "pg_budget p = None"
  shows "\<exists>w'. on_before m w = (Ok x, w') \<and> paired disk contents a b w'"
proof -
  have "pager_ok disk contents p" "opened_on contents a p"
    using w m(2) opened_on_reads [OF _ m(2)] by (simp_all add: paired_def reads_only_def)
  then show ?thesis using w m by (simp add: on_before_def paired_def budget_none)
qed

lemma on_copy_works:
  assumes w: "paired disk contents a b w" and m: "m (tp_copy w) = (Ok x, p)" "reads_only disk contents (tp_copy w) p" "pg_budget p = None"
  shows "\<exists>w'. on_copy m w = (Ok x, w') \<and> paired disk contents a b w'"
proof -
  have "pager_ok disk contents p" "opened_on contents b p"
    using w m(2) opened_on_reads [OF _ m(2)] by (simp_all add: paired_def reads_only_def)
  then show ?thesis using w m by (simp add: on_copy_def paired_def budget_none)
qed

lemma compare_pages_works:
  fixes w :: "('a, 'e) two_pagers"
  assumes k: "k = read_u32 20 (take 24 a)" "k = read_u32 20 (take 24 b)"
  shows "paired disk contents a b w \<Longrightarrow> \<forall>n \<in> set ns. n \<notin> written \<longrightarrow> n < read_u32 12 (take 24 a) \<and> n < read_u32 12 (take 24 b)
       \<and> page_of k a n = page_of k b n \<Longrightarrow>
     \<exists>w'. compare_pages name written k ns w = (Ok (), w') \<and> paired disk contents a b w'"
proof (induction ns arbitrary: w)
  case Nil
  then show ?case by (simp add: ret_def)
next
  case (Cons n ns)
  show ?case
  proof (cases "n \<in> written")
    case True
    then show ?thesis using Cons by simp
  next
    case False
    have n: "n < read_u32 12 (take 24 a)" "n < read_u32 12 (take 24 b)" "page_of k a n = page_of k b n"
      using Cons.prems(2) False by simp_all
    have page: "\<exists>q'. read_page_into n k q = (Ok (page_of k c n), q') \<and> reads_only disk contents q q' \<and> pg_budget q' = None"
      if "pager_ok disk contents q" "opened_on contents c q" "pg_budget q = None" "n < read_u32 12 (take 24 c)" "k = read_u32 20 (take 24 c)"
      for q :: "('a, 'e) pager" and c
      using read_page_works [OF that(1,3), of n k] that opened_page [OF that(2), of n] by (simp add: opened_on_def)
    obtain p1 where b1: "read_page_into n k (tp_before w) = (Ok (page_of k a n), p1)" "reads_only disk contents (tp_before w) p1" "pg_budget p1 = None"
      using page [of "tp_before w" a] Cons.prems(1) n(1) k(1) by (auto simp: paired_def)
    obtain w1 where w1: "on_before (read_page_into n k) w = (Ok (page_of k a n), w1)" "paired disk contents a b w1"
      using on_before_works [where m = "read_page_into n k", OF Cons.prems(1) b1] by blast
    obtain p2 where c1: "read_page_into n k (tp_copy w1) = (Ok (page_of k b n), p2)" "reads_only disk contents (tp_copy w1) p2" "pg_budget p2 = None"
      using page [of "tp_copy w1" b] w1(2) n(2) k(2) by (auto simp: paired_def)
    obtain w2 where w2: "on_copy (read_page_into n k) w1 = (Ok (page_of k b n), w2)" "paired disk contents a b w2"
      using on_copy_works [where m = "read_page_into n k", OF w1(2) c1] by blast
    have "\<exists>w'. compare_pages name written k ns w2 = (Ok (), w') \<and> paired disk contents a b w'"
      by (rule Cons.IH [OF w2(2)]) (use Cons.prems(2) in simp)
    then show ?thesis using False w1(1) w2(1) n(3) by (simp add: and_then_def)
  qed
qed

lemma read_back_works:
  assumes ok: "pager_ok disk contents q" and nb: "pg_budget q = None"
    and root: "stored contents q root content" "ob_header_page root = 2"
    and cat: "catalogue_at content lname ts"
    and t: "config_table (tables_added ts (\<lambda>_. None)) name = Ok t"
    and sh: "table_shows contents q t obs rows (sort_key snd entries)" and keys: "record_entries coll (numbered_rows (map (seen_row False) rows)) = Ok entries"
  shows "\<exists>q'. read_back name rows coll q = (Ok (), q') \<and> reads_only disk contents q q' \<and> pg_budget q' = None"
proof -
  let ?tabs = "tables_added ts (\<lambda>_. None)"
  have moved: "table_shows contents q2 t obs rows (sort_key snd entries)" if "reads_only disk contents q q2" for q2
    using sh that unfolding table_shows_def by (auto simp: reads_only_size [OF that] intro: table_holds_reads)
  obtain q1 where d: "descr_read_tables q = (Ok (lname, ?tabs), q1)" "reads_only disk contents q q1" "pg_budget q1 = None"
    using catalogue_reads [OF root ok nb cat] by blast
  have ok1: "pager_ok disk contents q1" using d(2) by (simp add: reads_only_def)
  obtain q2 where r: "read_records t True q1 = (Ok (numbered_rows (map (seen_row True) rows)), q2)" "reads_only disk contents q1 q2" "pg_budget q2 = None"
    using shown_rows [OF moved [OF d(2)] ok1 d(3)] by blast
  have r2: "reads_only disk contents q q2" by (rule reads_only_trans [OF d(2) r(2)])
  then have ok2: "pager_ok disk contents q2" by (simp add: reads_only_def)
  have "map rr_row (numbered_rows (map (seen_row True) rows)) = rows"
    by (rule nth_equalityI) (simp_all add: numbered_rows_def nth_enumerate_eq case_prod_unfold)
  then have rows: "read_rows ?tabs name True q1 = (Ok rows, q2)"
    using r(1) t by (simp add: read_rows_def and_then_def of_result_def ret_def)
  obtain records blob index where l: "table_holds contents q2 t obs records blob index" "records_hold records blob (from_one rows)"
      "index_says (pg_page_size q2) index (sort_key snd entries)"
    using shows_lists [OF moved [OF r2] ok2] unfolding table_lists_def by blast
  obtain q3 where v: "verify_index ?tabs name coll q2 = (Ok (length entries), q3)" "reads_only disk contents q2 q3" "pg_budget q3 = None"
    using verify_index_works [OF ok2 r(3) t l(1,2) keys [folded listed_from_one, unfolded entries_of_listed] l(3)] by blast
  then show ?thesis using d(1) rows reads_only_trans [OF r2 v(2)] v(3) by (simp add: read_back_def and_then_def ret_def)
qed

lemma check_copy_works:
  fixes w :: "('a, 'e) two_pagers"
  assumes w: "paired disk contents a b w" and k: "read_u32 20 (take 24 a) = read_u32 20 (take 24 b)"
    and same: "\<forall>n < before. 0 < n \<and> n \<notin> written \<longrightarrow> n < read_u32 12 (take 24 a) \<and> n < read_u32 12 (take 24 b)
       \<and> page_of (read_u32 20 (take 24 a)) a n = page_of (read_u32 20 (take 24 a)) b n"
    and reread: "\<And>q :: ('a, 'e) pager. pager_ok disk contents q \<Longrightarrow> opened_on contents b q \<Longrightarrow> pg_budget q = None \<Longrightarrow>
       \<exists>q'. read_back (tb_name target) rows coll q = (Ok (), q') \<and> reads_only disk contents q q' \<and> pg_budget q' = None"
  shows "\<exists>w'. check_copy target rows coll before written w = (Ok (), w') \<and> paired disk contents a b w'"
proof -
  have ps: "pg_page_size (tp_copy w) = read_u32 20 (take 24 a)" using w k by (simp add: paired_def opened_on_def)
  have "\<exists>w1. compare_pages (tb_name target) written (read_u32 20 (take 24 a)) [1..<before] w = (Ok (), w1) \<and> paired disk contents a b w1"
    by (rule compare_pages_works [OF refl k w]) (use same in auto)
  then obtain w1 where w1: "compare_pages (tb_name target) written (read_u32 20 (take 24 a)) [1..<before] w = (Ok (), w1)" "paired disk contents a b w1"
    by blast
  obtain q' where q: "read_back (tb_name target) rows coll (tp_copy w1) = (Ok (), q')" "reads_only disk contents (tp_copy w1) q'" "pg_budget q' = None"
    using reread [of "tp_copy w1"] w1(2) by (auto simp: paired_def)
  obtain w2 where "on_copy (read_back (tb_name target) rows coll) w1 = (Ok (), w2)" "paired disk contents a b w2"
    using on_copy_works [where m = "read_back (tb_name target) rows coll", OF w1(2) q] by blast
  then show ?thesis using w1(1) by (simp add: check_copy_def ps and_then_def)
qed

end

section \<open>Writing the table\<close>

text \<open>Room for the rows in a file of so many pages.\<close>

definition room_for :: "nat \<Rightarrow> nat \<Rightarrow> object \<times> object \<times> object \<Rightarrow> config_row list \<Rightarrow> bool" where
  "room_for ps count obs rows \<longleftrightarrow> table_room ps count obs (replicate (ob_len (snd (snd obs))) 0) rows"

lemma room_for_index: "length i0 = ob_len (snd (snd obs)) \<Longrightarrow> table_room ps count obs i0 rows \<longleftrightarrow> room_for ps count obs rows"
  by (simp add: room_for_def table_room_def split: prod.splits)

text \<open>What a file holds: its catalogue and, each on pages of its own, the root and the objects of the tables.\<close>

definition infobase_holds ::
  "('f \<Rightarrow> bytes) \<Rightarrow> ('f, 'e) pager \<Rightarrow> ustr \<Rightarrow> table list \<Rightarrow> object \<Rightarrow> object list list \<Rightarrow> bool" where
  "infobase_holds contents p lname ts root obss \<longleftrightarrow>
     (\<exists>content. stored contents p root content \<and> catalogue_at content lname ts) \<and> ob_header_page root = 2
     \<and> list_all2 (\<lambda>t. objects_at contents p (table_heads t)) (table_values (tables_added ts (\<lambda>_. None))) obss
     \<and> distinct (1 # owned_pages root @ concat (map pages_of obss))"

lemma tables_added_ok: "catalogue_ok (tables_added ts (\<lambda>_. None))"
proof -
  have "catalogue_ok m \<Longrightarrow> catalogue_ok (tables_added ts m)" for m
  proof (induction ts arbitrary: m)
    case (Cons t ts)
    have "catalogue_ok (m(tb_name t \<mapsto> t))" using Cons.prems by (simp add: catalogue_ok_def)
    then show ?case using Cons.IH by (simp add: tables_added_def)
  qed (simp add: tables_added_def)
  moreover have "catalogue_ok (\<lambda>_. None)" by (simp add: catalogue_ok_def)
  ultimately show ?thesis by blast
qed

context sound_file
begin

lemma stored_unique:
  assumes "stored contents p ob c" and "stored contents p ob' c'" and "ob_header_page ob = ob_header_page ob'"
    and "pager_ok disk contents p" and "pg_budget p = None"
  shows "ob = ob'"
proof -
  obtain p1 where one: "object_open (ob_header_page ob) p = (Ok ob, p1)" using open_stored [OF assms(1,4,5)] by blast
  obtain p2 where two: "object_open (ob_header_page ob') p = (Ok ob', p2)" using open_stored [OF assms(2,4,5)] by blast
  show ?thesis using one two unfolding assms(3) by simp
qed

lemma works_sync: "pager_ok disk contents p \<Longrightarrow> works pager_sync p"
  using sync_sound [of "pg_file p"] by (auto simp: works_def pager_sync_def on_file_def pager_ok_def)

lemma write_table_works:
  fixes p :: "('a, 'e) pager"
  assumes ok: "pager_ok disk contents p" and nb: "pg_budget p = None" and op: "opened_on contents c p"
    and head: "pg_header p = pager_page contents p 0" and root: "stored contents p root content" "clear_of obs root"
    and apart: "all_pages obs \<inter> others = {}" "\<forall>n \<in> others. n < pg_page_count p"
    and lay: "check_layout target = Ok ()" and held: "table_holds contents p target obs r b i"
    and desc: "index_descriptor i (pg_page_size p) = Ok (rt, 392)" "u32_at i 8 = 0" and keys: "row_keys coll rows [] [] = Ok keys"
    and rows: "\<forall>row \<in> set rows. row_ok row \<and> length (cr_binary row) \<le> u32_max"
    and room: "room_for (pg_page_size p) (pg_page_count p) obs rows"
  obtains written after obs' and p' :: "('a, 'e) pager" where "write_table target rows coll others p = (Ok (written, after), p')"
    "pager_ok disk contents p'" "pg_budget p' = None" "opened_on contents (contents (pg_file p')) p'"
    "pg_page_size p' = pg_page_size p" "pg_page_count p \<le> pg_page_count p'"
    "\<forall>n < pg_page_count p. 0 < n \<and> n \<notin> written \<longrightarrow> pager_page contents p' n = pager_page contents p n"
    "stored contents p' root content" "table_shows contents p' target obs' rows (sort_key snd (numbered_keys keys))"
proof -
  obtain ro bo io where obs: "obs = (ro, bo, io)" by (cases obs)
  have "length i = ob_len (snd (snd obs))" using held by (simp add: table_holds_def obs stored_def)
  then have tr: "table_room (pg_page_size p) (pg_page_count p) obs i rows" using room room_for_index by blast
  have "works (config_replace target rows coll) p"
    by (rule replace_works [OF ok nb lay held [unfolded obs] rows keys desc tr [unfolded obs]])
  then obtain written and p1 :: "('a, 'e) pager" where w: "config_replace target rows coll p = (Ok written, p1)" by (auto simp: works_def)
  have long: "length (pg_header p) = pg_page_size p"
    unfolding head using ok by (intro length_pager_page) (auto simp: pager_ok_def)
  have rok: "\<forall>row \<in> set rows. row_ok row" using rows by blast
  have few: "pg_page_count p + 2 * length rows + 2 \<le> u32_max"
    using room_index [OF tr] ok by (auto simp: pager_ok_def)
  note rs = replace_shows [OF w ok long held rok few]
  obtain obs' where new: "table_shows contents p1 target obs' rows (sort_key snd (numbered_keys keys))" "stored contents p1 root content"
    using rs(1) keys root by auto
  obtain p2 where sy: "pager_sync p1 = (Ok (), p2)" using works_sync [OF rs(2)] by (auto simp: works_def)
  have r: "reads_only disk contents p1 p2" by (rule quietD [OF quiet_sync rs(2) sy])
  have free: "written \<inter> others = {}" using rs(8) apart by fastforce
  show thesis
  proof (rule that [of written "pg_page_count p2" p2 obs'])
    show "write_table target rows coll others p = (Ok (written, pg_page_count p2), p2)"
      using w sy free by (simp add: write_table_def and_then_def ret_def)
    show "pager_ok disk contents p2" using r by (simp add: reads_only_def)
    show "pg_budget p2 = None" using r rs(4) [OF nb] by (simp add: reads_only_def changed_def)
    have "opened_on contents (contents (pg_file p1)) p1" by (rule header_opened [OF op ok head rs(5,2,3)])
    moreover have "contents (pg_file p2) = contents (pg_file p1)" using r by (simp add: reads_only_def)
    ultimately show "opened_on contents (contents (pg_file p2)) p2" using opened_on_reads [OF _ r] by simp
    show "pg_page_size p2 = pg_page_size p" using rs(3) reads_only_size [OF r] by simp
    show "pg_page_count p \<le> pg_page_count p2" using rs(9) r by (simp add: reads_only_def)
    show "\<forall>n < pg_page_count p. 0 < n \<and> n \<notin> written \<longrightarrow> pager_page contents p2 n = pager_page contents p n"
    proof (intro allI impI)
      fix n assume n: "n < pg_page_count p" "0 < n \<and> n \<notin> written"
      have "n < pg_page_count p1" using n(1) rs(9) by simp
      then have "pager_page contents p2 n = pager_page contents p1 n" by (rule reads_only_page [OF r])
      then show "pager_page contents p2 n = pager_page contents p n" using rs(6,7) n by auto
    qed
    show "stored contents p2 root content" by (rule reads_only_stored [OF r new(2)])
    show "table_shows contents p2 target obs' rows (sort_key snd (numbered_keys keys))"
      using new(1) r unfolding table_shows_def by (auto simp: reads_only_size [OF r] intro: table_holds_reads)
  qed
qed

end

section \<open>Writing and checking the copy\<close>

text \<open>A table whose rows can be replaced: the known layout, live records that hold rows, free ones anywhere, and
  an index object whose header names one key of the known length; what the index pages say does not matter.\<close>

definition table_stands :: "('f \<Rightarrow> bytes) \<Rightarrow> ('f, 'e) pager \<Rightarrow> table \<Rightarrow> object \<times> object \<times> object \<Rightarrow> bool" where
  "table_stands contents p t obs \<longleftrightarrow> check_layout t = Ok () \<and> (\<exists>r b i nrs root. table_holds contents p t obs r b i
     \<and> records_hold r b nrs \<and> index_descriptor i (pg_page_size p) = Ok (root, 392) \<and> u32_at i 8 = 0)"

lemma stands_opened:
  assumes "opened_on contents c p" and "opened_on contents c q"
  shows "table_stands contents p t obs = table_stands contents q t obs"
  unfolding table_stands_def opened_on_holds [OF assms] opened_on_same(1) [OF assms] ..

lemma shows_stands: "table_shows contents p t obs rows es \<Longrightarrow> table_stands contents p t obs"
  unfolding table_shows_def table_stands_def index_holds_def using stored_rows_listed by blast

text \<open>What a table and its infobase must be like for rows to replace those of the table.\<close>

definition replaceable ::
  "('f \<Rightarrow> bytes) \<Rightarrow> ('f, 'e) pager \<Rightarrow> tables \<Rightarrow> collation \<Rightarrow> table \<Rightarrow> config_row list \<Rightarrow> bool" where
  "replaceable contents p tabs coll target rows \<longleftrightarrow>
     (\<exists>lname ts root obss. infobase_holds contents p lname ts root obss \<and> tabs = tables_added ts (\<lambda>_. None))
     \<and> tabs (tb_name target) = Some target
     \<and> (\<exists>obs. table_stands contents p target obs \<and> room_for (pg_page_size p) (pg_page_count p) obs rows)
     \<and> (\<exists>keys. row_keys coll rows [] [] = Ok keys)
     \<and> (\<forall>row \<in> set rows. row_ok row \<and> length (cr_binary row) \<le> u32_max)"

context sound_file
begin

lemma check_written_works:
  fixes p :: "('a, 'e) pager" and s :: "('a, 'e) copy_session"
  assumes s: "ws_disk s = disk" "ws_budget s = None" and v: "header_valid (contents (ws_file s))"
    and p: "pager_ok disk contents p" "pg_budget p = None" "opened_on contents (contents (pg_file p)) p"
    and op: "opened_on contents (contents (ws_file s)) p0" and ps: "pg_page_size p = pg_page_size p0" and count: "pg_page_count p0 \<le> pg_page_count p"
    and same: "\<forall>n < pg_page_count p0. 0 < n \<and> n \<notin> written \<longrightarrow> pager_page contents p n = pager_page contents p0 n"
    and reread: "\<And>q :: ('a, 'e) pager. pager_ok disk contents q \<Longrightarrow> opened_on contents (contents (pg_file p)) q \<Longrightarrow> pg_budget q = None \<Longrightarrow>
       \<exists>q'. read_back (tb_name target) rows (ws_collation s) q = (Ok (), q') \<and> reads_only disk contents q q' \<and> pg_budget q' = None"
  shows "\<exists>s'. check_written target rows (pg_page_count p0) written p s = (Ok (), s')"
proof -
  let ?a = "contents (ws_file s)" and ?b = "contents (pg_file p)"
  obtain b :: "('a, 'e) pager" where b: "session_pager (ws_file s) s = (Ok b, s)" "pager_ok disk contents b" "opened_on contents ?a b"
    "pg_budget b = None" by (rule session_pager_works [OF v s]) blast
  have w: "paired disk contents ?a ?b \<lparr>tp_before = b, tp_copy = p\<rparr>" using b p by (simp add: paired_def)
  have k: "read_u32 20 (take 24 ?a) = read_u32 20 (take 24 ?b)" using op p(3) ps by (simp add: opened_on_def)
  have "\<forall>n < pg_page_count p0. 0 < n \<and> n \<notin> written \<longrightarrow> n < read_u32 12 (take 24 ?a) \<and> n < read_u32 12 (take 24 ?b)
      \<and> page_of (read_u32 20 (take 24 ?a)) ?a n = page_of (read_u32 20 (take 24 ?a)) ?b n"
    using same count op p(3) opened_page [OF op] opened_page [OF p(3)] k by (simp add: opened_on_def)
  then obtain w' where "check_copy target rows (ws_collation s) (pg_page_count p0) written \<lparr>tp_before = b, tp_copy = p\<rparr> = (Ok (), w')"
    using check_copy_works [OF w k _ reread] by blast
  then show ?thesis using b p(2) by (simp add: check_written_def budget_none)
qed

lemma write_checked_works:
  fixes s :: "('a, 'e) copy_session" and p0 :: "('a, 'e) pager"
  assumes s: "ws_disk s = disk" "ws_budget s = None" and v: "header_valid (contents (ws_file s))"
    and copied: "contents (ws_copy s) = contents (ws_file s)" and op: "opened_on contents (contents (ws_file s)) p0"
    and base: "infobase_holds contents p0 lname ts root obss" and tabs: "tables_added ts (\<lambda>_. None) (tb_name target) = Some target"
    and sh: "table_stands contents p0 target obs" and room: "room_for (pg_page_size p0) (pg_page_count p0) obs rows"
    and keys: "row_keys (ws_collation s) rows [] [] = Ok keys"
    and rows: "\<forall>row \<in> set rows. row_ok row \<and> length (cr_binary row) \<le> u32_max"
    and apart: "all_pages obs \<inter> others = {}" "\<forall>n \<in> others. n < pg_page_count p0" "clear_of obs root"
  shows "\<exists>after s'. write_checked target rows (pg_page_count p0) others s = (Ok after, s')"
proof -
  obtain content where root: "stored contents p0 root content" "ob_header_page root = 2" and cat: "catalogue_at content lname ts"
    using base by (auto simp: infobase_holds_def)
  have v': "header_valid (contents (ws_copy s))" using v copied by simp
  obtain p :: "('a, 'e) pager" where p: "session_pager (ws_copy s) s = (Ok p, s)" "pager_ok disk contents p"
    "opened_on contents (contents (ws_copy s)) p" "pg_header p = pager_page contents p 0" "pg_budget p = None"
    by (rule session_pager_works [OF v' s]) blast
  have opp: "opened_on contents (contents (ws_file s)) p" using p(3) copied by simp
  note eqs = opened_on_same [OF op opp]
  have room': "room_for (pg_page_size p) (pg_page_count p) obs rows" and apart': "\<forall>n \<in> others. n < pg_page_count p"
    using room apart(2) eqs by simp_all
  have root': "stored contents p root content" using root(1) opened_on_stored [OF op opp] by simp
  obtain r b i rt where st: "check_layout target = Ok ()" "table_holds contents p target obs r b i"
      "index_descriptor i (pg_page_size p) = Ok (rt, 392)" "u32_at i 8 = 0"
    using sh [unfolded stands_opened [OF op opp]] unfolding table_stands_def by blast
  obtain written after obs' and p' :: "('a, 'e) pager" where w: "write_table target rows (ws_collation s) others p = (Ok (written, after), p')"
    and p': "pager_ok disk contents p'" "pg_budget p' = None" "opened_on contents (contents (pg_file p')) p'"
    and ps: "pg_page_size p' = pg_page_size p" "pg_page_count p \<le> pg_page_count p'"
    and kept: "\<forall>n < pg_page_count p. 0 < n \<and> n \<notin> written \<longrightarrow> pager_page contents p' n = pager_page contents p n"
    and new: "stored contents p' root content" "table_shows contents p' target obs' rows (sort_key snd (numbered_keys keys))"
    by (rule write_table_works [OF p(2,5) opp p(4) root' apart(3,1) apart' st keys rows room'])
  have lay: "config_table (tables_added ts (\<lambda>_. None)) (tb_name target) = Ok target"
    using tabs st(1) by (simp add: config_table_def)
  note entries = row_keys_entries [OF keys, of False]
  have reread: "\<exists>q'. read_back (tb_name target) rows (ws_collation (close_copy p' s)) q = (Ok (), q')
      \<and> reads_only disk contents q q' \<and> pg_budget q' = None"
    if q: "pager_ok disk contents q" "opened_on contents (contents (pg_file p')) q" "pg_budget q = None" for q :: "('a, 'e) pager"
  proof -
    have "stored contents q root content" "table_shows contents q target obs' rows (sort_key snd (numbered_keys keys))"
      using new opened_on_stored [OF p'(3) q(2)] opened_on_shows [OF p'(3) q(2)] by simp_all
    then show ?thesis using read_back_works [OF q(1,3) _ root(2) cat lay _ entries] by (simp add: close_copy_def)
  qed
  let ?s = "close_copy p' s"
  have "\<exists>s'. check_written target rows (pg_page_count p) written p' ?s = (Ok (), s')"
    by (rule check_written_works [OF _ _ _ p' _ ps kept reread])
      (use s v opp p'(2) in \<open>simp_all add: close_copy_def\<close>)
  then show ?thesis using p(1) w eqs(2) by (auto simp: write_checked_def and_then_def ret_def)
qed

lemma write_into_copy_works:
  fixes s :: "('a, 'e) copy_session" and p0 :: "('a, 'e) pager"
  assumes s: "ws_disk s = disk" "ws_budget s = None" and v: "header_valid (contents (ws_file s))"
    and copied: "contents (ws_copy s) = contents (ws_file s)" and op: "opened_on contents (contents (ws_file s)) p0"
    and fit: "replaceable contents p0 (ws_tables s) (ws_collation s) target rows"
  shows "\<exists>report s'. write_into_copy target rows backup s = (Ok report, s')"
proof -
  obtain lname ts root obss obs keys where base0: "infobase_holds contents p0 lname ts root obss"
    and tabs: "ws_tables s = tables_added ts (\<lambda>_. None)" and here: "ws_tables s (tb_name target) = Some target"
    and sh0: "table_stands contents p0 target obs" and room0: "room_for (pg_page_size p0) (pg_page_count p0) obs rows"
    and keys: "row_keys (ws_collation s) rows [] [] = Ok keys"
    and rows: "\<forall>row \<in> set rows. row_ok row \<and> length (cr_binary row) \<le> u32_max"
    using fit unfolding replaceable_def by blast
  obtain p :: "('a, 'e) pager" where p: "session_pager (ws_file s) s = (Ok p, s)" "pager_ok disk contents p"
    "opened_on contents (contents (ws_file s)) p" "pg_budget p = None"
    by (rule session_pager_works [OF v s]) blast
  have base: "infobase_holds contents p lname ts root obss"
    using base0 unfolding infobase_holds_def objects_at_def opened_on_stored [OF op p(3)] .
  have sh: "table_stands contents p target obs" using sh0 stands_opened [OF op p(3)] by simp
  obtain r0 b0 i0 nrs where lay: "check_layout target = Ok ()" and held: "table_holds contents p target obs r0 b0 i0"
    and live: "records_hold r0 b0 nrs" using sh unfolding table_stands_def by blast
  have room: "room_for (pg_page_size p) (pg_page_count p) obs rows" using room0 opened_on_same [OF op p(3)] by simp
  obtain content where root: "stored contents p root content" "ob_header_page root = 2"
    and objs: "list_all2 (\<lambda>t. objects_at contents p (table_heads t)) (table_values (ws_tables s)) obss"
    and far: "distinct (1 # owned_pages root @ concat (map pages_of obss))"
    using base unfolding infobase_holds_def tabs by blast
  obtain count others p1 where ex: "examine (ws_tables s) target p = (Ok (pg_page_count p, count, others), p1)"
    "reads_only disk contents p p1" "pg_budget p1 = None" "\<forall>n \<in> others. n < pg_page_count p"
    using examine_works [OF p(2,4) root objs far lay held live] by blast
  have cat: "catalogue_ok (ws_tables s)" unfolding tabs by (rule tables_added_ok)
  obtain obs' where ap: "set_apart contents p target obs' others (other_heads (ws_tables s) target)"
    by (rule examine_Ok [OF ex(1) p(2) cat here lay])
  have one: "ob = ob'" if "stored contents p ob c" "stored contents p ob' c'" "ob_header_page ob = ob_header_page ob'" for ob ob' c c'
    by (rule stored_unique [OF that p(2,4)])
  have "obs' = obs"
  proof -
    obtain r b i where held': "table_holds contents p target obs' r b i" using ap by (auto simp: set_apart_def)
    obtain ro bo io where o: "obs = (ro, bo, io)" by (cases obs)
    obtain ro' bo' io' where o': "obs' = (ro', bo', io')" by (cases obs')
    have "ro' = ro" by (rule one [of ro' r ro r0]) (use held held' in \<open>simp_all add: o o' table_holds_def\<close>)
    moreover have "bo' = bo" by (rule one [of bo' b bo b0]) (use held held' in \<open>simp_all add: o o' table_holds_def\<close>)
    moreover have "io' = io" by (rule one [of io' i io i0]) (use held held' in \<open>simp_all add: o o' table_holds_def\<close>)
    ultimately show ?thesis by (simp add: o o')
  qed
  then have apart: "all_pages obs \<inter> others = {}" using ap by (simp add: set_apart_def)
  obtain ob c where "stored contents p ob c" "ob_header_page ob = 2" "set (owned_pages ob) \<subseteq> others"
    using ap by (auto simp: set_apart_def other_heads_def)
  then have clear: "clear_of obs root" using one [OF root(1)] root(2) apart by (auto simp: clear_of_pages)
  let ?s = "s\<lparr>ws_file := pg_file p1, ws_budget := None\<rparr>"
  have kept: "contents (pg_file p1) = contents (ws_file s)" using ex(2) p(3) by (simp add: reads_only_def opened_on_def)
  have "\<exists>after s'. write_checked target rows (pg_page_count p) others ?s = (Ok after, s')"
    by (rule write_checked_works [OF _ _ _ _ _ base here [unfolded tabs] sh room _ rows apart ex(4) clear])
      (use s v copied p(3) keys kept in simp_all)
  moreover have "with_pager (examine (ws_tables s) target) s = (Ok (pg_page_count p, count, others), ?s)"
    using p(1) ex(1,3) by (simp add: with_pager_def and_then_def)
  ultimately show ?thesis by (auto simp: write_into_copy_def and_then_def ret_def)
qed

end

section \<open>The whole of a replacement\<close>

locale sound_copying = copying_file disk contents position read + sound_file disk contents position
  for disk :: "'f backing" and contents :: "'f \<Rightarrow> bytes" and position :: "'f \<Rightarrow> nat"
    and read :: "'f \<Rightarrow> nat \<Rightarrow> (io_error_kind + bytes) \<times> 'f" +
  assumes read_works: "\<exists>bs f'. read f n = (Ok bs, f')"
begin

lemma copy_checked_works:
  "copy_checked s = Some y \<Longrightarrow> ws_disk s = disk \<Longrightarrow> ws_read s = read \<Longrightarrow> ws_budget s = None \<Longrightarrow>
     fst y = Ok () \<and> ws_budget (snd y) = None"
proof (induction rule: copy_checked.raw_induct [rotated, consumes 1, case_names step])
  case (step copy s y)
  note prems = step.prems
  have chk: "session_check_read s = (Ok (), s)" using prems by (cases s) (simp add: session_check_read_def budget_checked_def)
  obtain bs f where rd: "read (ws_file s) 1048576 = (Ok bs, f)" using read_works by blast
  obtain g where wr: "bk_write_all disk (ws_copy s) bs = (Ok (), g)" using write_sound by blast
  show ?case
  proof (cases "bs = []")
    case True
    then show ?thesis using step.hyps prems chk rd by auto
  next
    case False
    let ?s2 = "s\<lparr>ws_file := f, ws_copy := g\<rparr>"
    have "copy ?s2 = Some y" using step.hyps prems chk rd wr False by simp
    then show ?thesis using step.IH [of ?s2 y] prems by simp
  qed
qed

lemma write_copy_works:
  fixes s :: "('f, 'e) copy_session" and p0 :: "('f, 'e) pager"
  assumes s: "ws_disk s = disk" "ws_read s = read" "ws_budget s = None"
    and fresh: "contents (ws_copy s) = []" "position (ws_copy s) = 0"
    and v: "header_valid (contents (ws_file s))" and op: "opened_on contents (contents (ws_file s)) p0"
    and fit: "replaceable contents p0 (ws_tables s) (ws_collation s) target rows"
  shows "\<exists>report s'. write_copy (Ok ()) target rows backup s = Some (Ok report, s')"
proof -
  obtain f where sk: "bk_seek disk (ws_file s) 0 = (Ok (), f)" using seek_sound by blast
  have f: "contents f = contents (ws_file s)" "position f = 0" using seek_contents [OF sk] seek_position [OF sk] by simp_all
  let ?s1 = "s\<lparr>ws_file := f\<rparr>"
  have st: "and_then (seek_original 0) (\<lambda>_. of_result (Ok ())) s = (Ok (), ?s1)"
    using s sk by (simp add: seek_original_def and_then_def of_result_def)
  obtain r s2 where cp: "copy_checked ?s1 = Some (r, s2)" "contents (ws_file s2) = contents (ws_file s)"
    "ws_disk s2 = disk" "ws_tables s2 = ws_tables s" "ws_collation s2 = ws_collation s"
    "r = Ok () \<longrightarrow> contents (ws_copy s2) = contents (ws_file s)"
    using copy_ends [of ?s1] s f fresh by auto
  have "r = Ok () \<and> ws_budget s2 = None" using copy_checked_works [OF cp(1)] s by simp
  then have r: "r = Ok ()" "ws_budget s2 = None" by blast+
  have "\<exists>report s'. write_into_copy target rows backup s2 = (Ok report, s')"
    by (rule write_into_copy_works [OF cp(3) r(2), of p0]) (use cp r v op fit in simp_all)
  then show ?thesis using st cp(1) r(1) by (simp add: write_copy_def)
qed

end

interpretation mem: sound_copying mem_backing mem_bytes mem_position mem_read
  by unfold_locales (simp add: mem_read_def Let_def)

end
