(* ===== verification/Filedb_Replace_Props.thy ===== *)
theory Filedb_Replace_Props
  imports Filedb_Session_Props Filedb_Session_Works
begin

text \<open>
  The properties of a replacement: the ownership check, the catalogue, the check of an index, the copy that
  passed the checks, and that the whole of it goes through.
\<close>

section \<open>An infobase in memory\<close>

text \<open>The description of the table, as the platform writes it: the text of the test constant \<open>CONFIG\<close> of
  \<open>descr.rs\<close> with the pages of the sample.\<close>

definition described_field :: "char list \<times> char list \<times> char list \<times> char list \<Rightarrow> brace_value" where
  "described_field = (\<lambda>(name, kind, len, compared). Brace_List [Brace_Text (ascii name), Brace_Text (ascii kind),
     Brace_Atom (ascii ''0''), Brace_Atom (ascii len), Brace_Atom (ascii ''0''), Brace_Text (ascii compared)])"

definition described_column :: "char list \<times> char list \<Rightarrow> brace_value" where
  "described_column = (\<lambda>(name, len). Brace_List [Brace_Text (ascii name), Brace_Atom (ascii len)])"

definition sample_description :: brace_value where
  "sample_description = Brace_List [Brace_Text (ascii ''CONFIG''), Brace_Atom (ascii ''0''),
     Brace_List (Brace_Text (ascii ''Fields'') # map described_field
       [(''FILENAME'', ''NVC'', ''128'', ''CI''), (''CREATION'', ''DT'', ''0'', ''CS''), (''MODIFIED'', ''DT'', ''0'', ''CS''),
        (''ATTRIBUTES'', ''N'', ''5'', ''CS''), (''DATASIZE'', ''N'', ''20'', ''CS''), (''BINARYDATA'', ''I'', ''0'', ''CS''),
        (''PARTNO'', ''N'', ''10'', ''CS'')]),
     Brace_List [Brace_Text (ascii ''Indexes''),
       Brace_List ([Brace_Text (ascii ''BYNAMENO_CONFIG''), Brace_Atom (ascii ''0'')]
         @ map described_column [(''FILENAME'', ''128''), (''PARTNO'', ''0'')])],
     Brace_List [Brace_Text (ascii ''Recordlock''), Brace_Text (ascii ''0'')],
     Brace_List [Brace_Text (ascii ''Files''), Brace_Atom (ascii ''3''), Brace_Atom (ascii ''4''), Brace_Atom (ascii ''5'')]]"

lemmas described = sample_description_def described_field_def described_column_def

lemma sample_text:
  "native_text sample_description = concat (map (\<lambda>line. ascii line @ [0x0A])
     [''{\"CONFIG\",0,'', ''{\"Fields\",'', ''{\"FILENAME\",\"NVC\",0,128,0,\"CI\"},'', ''{\"CREATION\",\"DT\",0,0,0,\"CS\"},'',
      ''{\"MODIFIED\",\"DT\",0,0,0,\"CS\"},'', ''{\"ATTRIBUTES\",\"N\",0,5,0,\"CS\"},'', ''{\"DATASIZE\",\"N\",0,20,0,\"CS\"},'',
      ''{\"BINARYDATA\",\"I\",0,0,0,\"CS\"},'', ''{\"PARTNO\",\"N\",0,10,0,\"CS\"}'', ''},'', ''{\"Indexes\",'',
      ''{\"BYNAMENO_CONFIG\",0,'', ''{\"FILENAME\",128},'', ''{\"PARTNO\",0}'', ''}'', ''},'', ''{\"Recordlock\",\"0\"},'',
      ''{\"Files\",3,4,5}'']) @ ascii ''}''"
  by (simp add: described ascii_def is_list_def as_list_def DQUOTE_def COMMA_def OPEN_def CLOSE_def)

lemma utf8_plain: "list_all (\<lambda>c. c < 128) t \<Longrightarrow> length (utf8_bytes t) = length t \<and> list_all is_scalar t"
  by (induction t) (simp_all add: utf8_bytes_def utf8_char_def is_scalar_def)

lemma sample_described: "table_described sample_table sample_description"
proof -
  have fields: "list_all2 field_described (tb_fields sample_table) (map described_field
       [(''FILENAME'', ''NVC'', ''128'', ''CI''), (''CREATION'', ''DT'', ''0'', ''CS''), (''MODIFIED'', ''DT'', ''0'', ''CS''),
        (''ATTRIBUTES'', ''N'', ''5'', ''CS''), (''DATASIZE'', ''N'', ''20'', ''CS''), (''BINARYDATA'', ''I'', ''0'', ''CS''),
        (''PARTNO'', ''N'', ''10'', ''CS'')])"
    by (simp add: sample_table_def LAYOUT_def described_field_def field_described_def number_written_def kind_text_def ascii_def)
  have "sample_description = Brace_List (Brace_Text (tb_name sample_table) # Brace_Atom (ascii ''0'') #
      [] @ [Brace_List (Brace_Text (ascii ''Fields'') # map described_field
       [(''FILENAME'', ''NVC'', ''128'', ''CI''), (''CREATION'', ''DT'', ''0'', ''CS''), (''MODIFIED'', ''DT'', ''0'', ''CS''),
        (''ATTRIBUTES'', ''N'', ''5'', ''CS''), (''DATASIZE'', ''N'', ''20'', ''CS''), (''BINARYDATA'', ''I'', ''0'', ''CS''),
        (''PARTNO'', ''N'', ''10'', ''CS'')])]
      @ [] @ [Brace_List (Brace_Text (ascii ''Indexes'') # [Brace_List ([Brace_Text (ascii ''BYNAMENO_CONFIG''), Brace_Atom (ascii ''0'')]
         @ map described_column [(''FILENAME'', ''128''), (''PARTNO'', ''0'')])])]
      @ [Brace_List [Brace_Text (ascii ''Recordlock''), Brace_Text (ascii ''0'')]]
      @ [Brace_List [Brace_Text (ascii ''Files''), Brace_Atom (ascii ''3''), Brace_Atom (ascii ''4''), Brace_Atom (ascii ''5'')]] @ [])"
    by (simp add: sample_description_def sample_table_def)
  then show ?thesis
    unfolding table_described_def
    by (intro exI conjI, assumption)
      (use fields in \<open>simp_all add: other_part_def index_described_def sample_table_def number_written_def ascii_def\<close>)
qed

lemma sample_texts:
  "table_text sample_table (native_text sample_description)" "length (utf8_bytes (native_text sample_description)) \<le> 500"
  "locale_ok russian_locale"
proof -
  have "list_all (\<lambda>c. c < 128) (native_text sample_description)" "length (native_text sample_description) \<le> 500"
    unfolding sample_text by (simp_all add: ascii_def)
  note plain = utf8_plain [OF this(1)] this(2)
  have "value_ok (Suc (Suc (Suc (Suc (Suc n))))) sample_description" for n
    by (simp add: described ascii_def atom_char_def char_whitespace_def DQUOTE_def COMMA_def OPEN_def CLOSE_def)
  from native_layout [OF this [of 28]] have "value_text 33 sample_description (native_text sample_description)" by simp
  moreover have "gap []" by (simp add: gap_def)
  ultimately show "table_text sample_table (native_text sample_description)"
    unfolding table_text_def using sample_described plain(1) by (intro conjI exI [of _ sample_description] exI) auto
  show "length (utf8_bytes (native_text sample_description)) \<le> 500" using plain by simp
  show "locale_ok russian_locale"
    using utf8_plain [of russian_locale] by (simp add: locale_ok_def russian_locale_def)
qed

text \<open>The catalogue of the sample.\<close>

lemma sample_catalogue:
  obtains content where "catalogue_at content russian_locale [sample_table]" "length content \<le> 2 ^ 20"
proof -
  let ?text = "utf8_bytes (native_text sample_description)"
  define head where "head = root_head russian_locale (map fst (refs_of (map utf8_bytes [native_text sample_description])
    (1 + head_blocks (length [native_text sample_description]))))"
  have lh: "length head = 40"
    using sample_texts(3) by (simp add: head_def length_root_head length_refs_of locale_ok_def)
  have "(length ?text + 249) div 250 \<le> 3" using div_le_mono [of "length ?text + 249" 749 250] sample_texts(2) by simp
  then have few: "sum_list (map blocks_of (head # map utf8_bytes [native_text sample_description])) \<le> 10"
    by (simp add: lh blocks_of_def)
  have small: "\<forall>v \<in> set (head # map utf8_bytes [native_text sample_description]). length v \<le> u32_max"
    using sample_texts(2) by (simp add: lh)
  obtain content refs where b: "build (head # map utf8_bytes [native_text sample_description]) 0 = Ok (content, refs)"
    by (rule build_ok [OF small, of 0]) (use few in \<open>simp_all del: list.map\<close>)
  have "length content \<le> 2 ^ 20" using build_stores(2) [OF b] few by simp
  moreover have "catalogue_at content russian_locale [sample_table]"
    by (rule built_catalogue [OF sample_texts(3) _ b [unfolded head_def]]) (simp add: sample_texts(1))
  ultimately show thesis by (rule that [rotated])
qed

text \<open>A file with its header, the root object on page 2 and the empty table.\<close>

definition sample_header :: "nat \<Rightarrow> bytes" where
  "sample_header count = SIGNATURE @ VERSION_838 @ le32 count @ replicate 4 0 @ le32 4096 @ replicate 4072 0"

lemma sample_header_fields:
  assumes "count \<le> u32_max"
  shows "length (sample_header count) = 4096" "take 8 (sample_header count) = SIGNATURE"
    "slice 8 12 (sample_header count) = VERSION_838" "read_u32 12 (sample_header count) = count"
    "read_u32 20 (sample_header count) = 4096"
  using assms from_le32 [of count] from_le32 [of 4096]
  by (simp_all add: sample_header_def SIGNATURE_def VERSION_838_def slice_def read_u32_def)

lemma stored_owned:
  "stored contents p ob c \<Longrightarrow> distinct (owned_pages ob) \<and> (\<forall>n \<in> set (owned_pages ob). 0 < n \<and> n < pg_page_count p)"
  by (simp add: stored_def object_ok_def)

lemma infobase_in_memory:
  assumes lens: "length r \<le> 2 ^ 20" "length b \<le> 2 ^ 20" "length i \<le> 2 ^ 20"
  obtains obs root obss content and p :: "(mem_file, unit) pager" where "table_holds mem_bytes p sample_table obs r b i"
    "catalogue_at content russian_locale [sample_table]" "stored mem_bytes p root content" "ob_header_page root = 2"
    "infobase_holds mem_bytes p russian_locale [sample_table] root obss"
    "opened_on mem_bytes (mem_bytes (pg_file p)) p" "header_valid (mem_bytes (pg_file p))"
    "pager_ok mem_backing mem_bytes p" "pg_budget p = None" "pg_page_size p = 4096" "pg_page_count p \<le> 2000"
proof -
  obtain ro bo io and p :: "(mem_file, unit) pager" where held: "table_holds mem_bytes p sample_table (ro, bo, io) r b i"
    and p: "pager_ok mem_backing mem_bytes p" "pg_budget p = None" "pg_page_size p = 4096" "length (pg_header p) = 4096"
      "pg_page_count p \<le> 1000" and high: "\<forall>m \<in> all_pages (ro, bo, io). 3 \<le> m"
    by (rule table_from_page_3 [OF lens])
  obtain content where cat: "catalogue_at content russian_locale [sample_table]" and small: "length content \<le> 2 ^ 20"
    by (rule sample_catalogue)
  have three: "3 \<le> pg_page_count p" using p(1) by (simp add: pager_ok_def)
  note new = mem.new_object [OF p(1,2), of 2 content, unfolded p(3)]
  obtain root and p1 :: "(mem_file, unit) pager" where root: "stored mem_bytes p1 root content" "ob_header_page root = 2"
    and p1: "pager_ok mem_backing mem_bytes p1" "pg_budget p1 = None" "pg_page_size p1 = 4096"
      "pg_page_count p1 \<le> pg_page_count p + content_pages 4096 (length content)" "pg_page_count p \<le> pg_page_count p1"
    and own: "\<And>m. m \<in> set (owned_pages root) \<Longrightarrow> m = 2 \<or> pg_page_count p \<le> m"
    and kept: "\<And>other c. stored mem_bytes p other c \<Longrightarrow> 2 \<notin> set (owned_pages other) \<Longrightarrow> stored mem_bytes p1 other c"
    by (rule new) (use three p(5) content_pages_small [OF small] content_fits_small [OF small] in simp_all)
  have few: "pg_page_count p1 \<le> 2000" using p1(4) p(5) content_pages_small [OF small] by linarith
  let ?h = "sample_header (pg_page_count p1)"
  have "pg_page_count p1 \<le> u32_max" using few by simp
  note hd = sample_header_fields [OF this]
  have "works (write_page 0 ?h) p1"
    by (rule mem.works_write_page) (use p1 three in \<open>simp_all add: pager_ok_def\<close>)
  then obtain u and p2 :: "(mem_file, unit) pager" where w: "write_page 0 ?h p1 = (Ok u, p2)" by (auto simp: works_def)
  have lh: "length ?h = pg_page_size p1" using hd(1) p1(3) by simp
  note wr = mem.write_page_Ok [OF w p1(1) lh]
  have p2: "pg_page_size p2 = 4096" "pg_budget p2 = None" using wr(4) p1 by (simp_all add: changed_def)
  have keep: "stored mem_bytes p2 ob c" if "stored mem_bytes p1 ob c" for ob c
    by (rule stored_kept [OF that wr(4)]) (use stored_owned [OF that] in auto)
  have move: "stored mem_bytes p2 ob c" if "stored mem_bytes p ob c" "set (owned_pages ob) \<subseteq> all_pages (ro, bo, io)" for ob c
    by (rule keep [OF kept [OF that(1)]]) (use that(2) high in fastforce)
  have three_kept: "table_holds mem_bytes p2 sample_table (ro, bo, io) r b i"
    using held move unfolding table_holds_def prod.case by (auto simp: all_pages_def)
  have page0: "take 4096 (mem_bytes (pg_file p2)) = ?h"
    using wr(2) p2(1) by (simp add: pager_page_def page_of_def slice_def)
  have cut: "read_u32 k (mem_bytes (pg_file p2)) = read_u32 k ?h" if "k + 4 \<le> 4096" for k
    using read_u32_take [OF that, of "mem_bytes (pg_file p2)"] unfolding page0 by simp
  have count: "pg_page_count p2 = pg_page_count p1" by (rule wr(5))
  have opened: "opened_on mem_bytes (mem_bytes (pg_file p2)) p2"
    using cut [of 12] cut [of 20] hd p2(1) count by (simp add: opened_on_def read_u32_take)
  have room: "pg_page_count p1 * 4096 \<le> length (mem_bytes (pg_file p2))" using wr(3) p2(1) count by (simp add: pager_ok_def)
  have t8: "take 8 (mem_bytes (pg_file p2)) = SIGNATURE" "slice 8 12 (mem_bytes (pg_file p2)) = VERSION_838"
    using hd(2,3) unfolding page0 [symmetric] by (simp_all add: take_slice min_def)
  have "is_power_of_two 4096" by (simp add: is_power_of_two_def)
  then have valid: "header_valid (mem_bytes (pg_file p2))"
    using cut [of 12] cut [of 20] hd t8 room three p1(5) by (simp add: header_valid_def)
  have apart_root: "set (owned_pages root) \<inter> all_pages (ro, bo, io) = {}"
  proof -
    have "m < pg_page_count p" if "m \<in> all_pages (ro, bo, io)" for m
      using that held by (auto simp: all_pages_def table_holds_def dest!: stored_owned)
    then show ?thesis using own high by fastforce
  qed
  have vals: "table_values (tables_added [sample_table] (\<lambda>_. None)) = [sample_table]"
    by (simp add: tables_added_def table_values_def)
  have heads: "objects_at mem_bytes p2 (table_heads sample_table) [ro, bo, io]"
    using three_kept by (auto simp: objects_at_def table_heads_def table_holds_def sample_table_def)
  let ?pages = "owned_pages ro @ owned_pages bo @ owned_pages io"
  have "concat (map pages_of [[ro, bo, io]]) = ?pages" by simp
  moreover have "distinct ?pages"
    using held by (auto simp: table_holds_def apart_def dest!: stored_owned)
  moreover have "set ?pages = all_pages (ro, bo, io)" by (auto simp: all_pages_def)
  moreover have "distinct (owned_pages root)" using stored_owned [OF root(1)] by simp
  moreover have "1 \<notin> set (owned_pages root)" "1 \<notin> all_pages (ro, bo, io)"
    using own [of 1] high three by fastforce+
  ultimately have far: "distinct (1 # owned_pages root @ concat (map pages_of [[ro, bo, io]]))"
    using apart_root by (simp only: distinct.simps distinct_append set_append) simp
  have "infobase_holds mem_bytes p2 russian_locale [sample_table] root [[ro, bo, io]]"
    using keep [OF root(1)] root(2) heads far cat by (auto simp: infobase_holds_def vals simp del: pages_of_simps)
  then show thesis using that three_kept opened valid wr(3) p2 few count cat keep [OF root(1)] root(2) by simp
qed

lemma sample_added: "tables_added [sample_table] (\<lambda>_. None) = sample_tables"
  by (simp add: tables_added_def sample_tables_def sample_table_def)

text \<open>An infobase with the sample row in its table.\<close>

definition sample_base ::
  "(mem_file, unit) pager \<Rightarrow> object \<Rightarrow> bytes \<Rightarrow> object \<times> object \<times> object \<Rightarrow> bytes \<Rightarrow> bool" where
  "sample_base p root content obs key \<longleftrightarrow>
     table_shows mem_bytes p sample_table obs [sample_row] [(1, key)]
     \<and> row_keys Russian [sample_row] [] [] = Ok [key] \<and> catalogue_at content russian_locale [sample_table]
     \<and> stored mem_bytes p root content \<and> ob_header_page root = 2
     \<and> (\<exists>obss. infobase_holds mem_bytes p russian_locale [sample_table] root obss)
     \<and> opened_on mem_bytes (mem_bytes (pg_file p)) p \<and> header_valid (mem_bytes (pg_file p))
     \<and> pager_ok mem_backing mem_bytes p \<and> pg_budget p = None \<and> pg_page_count p \<le> 2000
     \<and> replaceable mem_bytes p sample_tables Russian sample_table [sample_row]"

lemma sample_base_exists: "\<exists>p root content obs key. sample_base p root content obs key"
proof -
  obtain key records blob index where key: "row_keys Russian [sample_row] [] [] = Ok [key]"
    and shown: "rows_stored records blob [sample_row]" "index_holds 4096 index (sort_key snd (numbered_keys [key]))"
    and small: "length records \<le> 2 ^ 20" "length blob \<le> 2 ^ 20" and li: "length index \<le> 24576"
    and whole: "301 dvd length records" "256 dvd length blob"
    by (rule sample_contents)
  have "length index \<le> 2 ^ 20" using li by simp
  note lens = small this
  obtain obs root obss content and p :: "(mem_file, unit) pager" where held: "table_holds mem_bytes p sample_table obs records blob index"
    and cat: "catalogue_at content russian_locale [sample_table]" "stored mem_bytes p root content" "ob_header_page root = 2"
    and base: "infobase_holds mem_bytes p russian_locale [sample_table] root obss"
    and opened: "opened_on mem_bytes (mem_bytes (pg_file p)) p" "header_valid (mem_bytes (pg_file p))"
    and p: "pager_ok mem_backing mem_bytes p" "pg_budget p = None" "pg_page_size p = 4096" "pg_page_count p \<le> 2000"
    by (rule infobase_in_memory [OF lens])
  have keys: "sort_key snd (numbered_keys [key]) = [(1, key)]" by (simp add: numbered_keys_def)
  have sh: "table_shows mem_bytes p sample_table obs [sample_row] [(1, key)]"
    unfolding table_shows_def p(3) keys [symmetric] using sample_layout held shown by blast
  obtain ro bo io where o: "obs = (ro, bo, io)" by (cases obs)
  have ol: "ob_len ro = length records" "ob_len bo = length blob" "ob_len io = length index"
    using held by (simp_all add: o table_holds_def stored_def)
  let ?nr = "max (Suc (Suc 0)) (length records div 301) * 301" and ?nb = "max (Suc (Suc 0)) (length blob div 256) * 256" and ?ni = "(length index div 4096 + 4) * 4096"
  have "?nr \<le> 2 ^ 20" "?nb \<le> 2 ^ 20" using small whole by (auto simp: max_def)
  moreover have "?ni \<le> 2 ^ 20" using div_le_mono [OF li, of 4096] by simp
  ultimately have sizes: "?nr \<le> 2 ^ 20" "?nb \<le> 2 ^ 20" "?ni \<le> 2 ^ 20" by blast+
  note fits = sizes [THEN content_fits_small] and few = sizes [THEN content_pages_small]
  have "length blob div 256 \<le> u32_max" using small(2) div_le_dividend [of "length blob" 256] by simp
  then have "room_for 4096 (pg_page_count p) obs [sample_row]"
    using fits few p(4) whole
    by (simp add: room_for_def table_room_def Let_def o ol sample_row_def blocks_of_def add.commute)
  then have "replaceable mem_bytes p sample_tables Russian sample_table [sample_row]"
    unfolding replaceable_def p(3)
    using base shows_stands [OF sh] key sample_row_ok sample_added [symmetric] sample_tables_ok(2) by blast
  then have "sample_base p root content obs key"
    using sh key cat base opened p by (auto simp: sample_base_def)
  then show ?thesis by blast
qed

lemma config_table_known:
  "catalogue_ok tabs \<Longrightarrow> config_table tabs name = Ok t \<Longrightarrow> tb_name t = name \<and> tabs (tb_name t) = Some t \<and> check_layout t = Ok ()"
  by (auto simp: config_table_def catalogue_ok_def try_res_eq_Inr split: option.splits)

section \<open>The publication of a written copy\<close>

text \<open>An operating system and a caller that refuse nothing.\<close>

definition obliging :: "'o system \<Rightarrow> bool" where
  "obliging sys \<longleftrightarrow> (\<exists>f g b k. sys = \<lparr>os_fault = \<lambda>v. (None, f v), os_gate = \<lambda>v. (Ok (), g v), os_bound = \<lambda>v. (Ok (), b v),
     os_owner = \<lambda>v. (Ok (), k v)\<rparr>)"

lemma publication_works:
  fixes st :: "('f, 'e, 'o) publication"
  assumes sys: "obliging sys" and d: "pb_dir st n = Some Locked_File" "pb_dir st (work_name n) = None" "pb_dir st (backup_work_name n) = None"
    and t: "table_name \<in> set CONFIG_TABLES" "config_table (ws_tables (pb_session st)) table_name = Ok target"
    and wc: "write_copy (Ok ()) target rows (backup_name n) ((pb_session st)\<lparr>ws_copy := created\<rparr>) = Some (Ok report, s')"
  shows "\<exists>st'. replace_guarded sys created n table_name rows st = Some (Ok report, st') \<and> pb_session st' = s'
    \<and> pb_dir st' n = Some Work_Copy \<and> pb_dir st' (backup_name n) = Some Locked_File"
proof -
  obtain f g b k where sys: "sys = \<lparr>os_fault = \<lambda>v. (None, f v), os_gate = \<lambda>v. (Ok (), g v), os_bound = \<lambda>v. (Ok (), b v),
     os_owner = \<lambda>v. (Ok (), k v)\<rparr>" using sys by (auto simp: obliging_def)
  show ?thesis
    using d t wc
    by (simp add: replace_guarded_def Let_def sys and_next_def once_def answer_def check_binding_def require_leaf_def and_then_def
      of_result_def create_work_def create_new_def dir_call_def or_clean_def write_work_def prepare_backup_def prepare_backup_file_def
      hard_link_def ret_def final_checks_def publish_files_def rename_def file_metadata_def)
qed

text \<open>The whole way, from an infobase that takes the rows.\<close>

context sound_copying
begin

lemma replacement_works:
  fixes st :: "('f, 'e, 'o) publication" and p0 :: "('f, 'e) pager"
  assumes s: "ws_disk (pb_session st) = disk" "ws_read (pb_session st) = read" "ws_budget (pb_session st) = None"
    and fresh: "contents created = []" "position created = 0" and v: "header_valid (contents (ws_file (pb_session st)))"
    and op: "opened_on contents (contents (ws_file (pb_session st))) p0" and ok: "pager_ok disk contents p0"
    and fit: "replaceable contents p0 (ws_tables (pb_session st)) (ws_collation (pb_session st)) target rows"
    and t: "tb_name target \<in> set CONFIG_TABLES" and sys: "obliging sys"
    and d: "pb_dir st n = Some Locked_File" "pb_dir st (work_name n) = None" "pb_dir st (backup_work_name n) = None"
  shows "\<exists>report st'. replace_guarded sys created n (tb_name target) rows st = Some (Ok report, st')
    \<and> pb_dir st' n = Some Work_Copy \<and> pb_dir st' (backup_name n) = Some Locked_File
    \<and> contents (ws_file (pb_session st')) = contents (ws_file (pb_session st))
    \<and> copy_good contents (ws_tables (pb_session st)) target rows (ws_collation (pb_session st))
        (contents (ws_file (pb_session st))) (contents (ws_copy (pb_session st')))"
proof -
  let ?s = "(pb_session st)\<lparr>ws_copy := created\<rparr>"
  obtain lname ts obs where tabs: "ws_tables (pb_session st) = tables_added ts (\<lambda>_. None)"
    and here: "ws_tables (pb_session st) (tb_name target) = Some target" and sh: "table_stands contents p0 target obs"
    and room: "room_for (pg_page_size p0) (pg_page_count p0) obs rows"
    and rows: "\<forall>row \<in> set rows. row_ok row \<and> length (cr_binary row) \<le> u32_max"
    using fit unfolding replaceable_def by blast
  have lay: "check_layout target = Ok ()" using sh by (simp add: table_stands_def)
  have cat: "catalogue_ok (ws_tables (pb_session st))" unfolding tabs by (rule tables_added_ok)
  have "pg_page_count p0 + 2 * length rows + 2 \<le> u32_max"
    using room_index [OF room [unfolded room_for_def]] ok by (simp add: pager_ok_def)
  then have few: "read_u32 12 (take 24 (contents (ws_file (pb_session st)))) + 2 * length rows + 2 \<le> u32_max"
    using op by (simp add: opened_on_def)
  obtain report s' where w: "write_copy (Ok ()) target rows (backup_name n) ?s = Some (Ok report, s')"
    using write_copy_works [of ?s p0] s fresh v op fit by fastforce
  have good: "keeps_original ?s s' \<and> copy_good contents (ws_tables ?s) target rows (ws_collation ?s) (contents (ws_file ?s)) (contents (ws_copy s'))"
    using write_copy_good [of ?s "Ok ()" target rows "backup_name n"] s fresh w cat here lay rows few by auto
  have "config_table (ws_tables (pb_session st)) (tb_name target) = Ok target" using here lay by (simp add: config_table_def)
  from publication_works [OF sys d t this w] obtain st' where
    "replace_guarded sys created n (tb_name target) rows st = Some (Ok report, st')" "pb_session st' = s'"
    "pb_dir st' n = Some Work_Copy" "pb_dir st' (backup_name n) = Some Locked_File" by (elim exE conjE)
  then show ?thesis using good by (auto simp: keeps_original_def)
qed

end

text \<open>A session on the sample in memory, beside nothing else in its directory.\<close>

definition sample_system :: "unit system" where
  "sample_system = \<lparr>os_fault = \<lambda>v. (None, v), os_gate = \<lambda>v. (Ok (), v), os_bound = \<lambda>v. (Ok (), v), os_owner = \<lambda>v. (Ok (), v)\<rparr>"

definition sample_publication :: "bytes \<Rightarrow> (mem_file, unit, unit) publication" where
  "sample_publication bs = \<lparr>pb_session = sample_session bs, pb_backup = \<lparr>mem_bytes = [], mem_position = 0\<rparr>,
     pb_dir = [ascii ''1Cv8.1CD'' \<mapsto> Locked_File], pb_seen = [], pb_os = ()\<rparr>"

lemma sample_obliging: "obliging sample_system"
  by (auto simp: obliging_def sample_system_def)

lemma sample_dir:
  "pb_dir (sample_publication bs) (ascii ''1Cv8.1CD'') = Some Locked_File"
  "pb_dir (sample_publication bs) (work_name (ascii ''1Cv8.1CD'')) = None"
  "pb_dir (sample_publication bs) (backup_work_name (ascii ''1Cv8.1CD'')) = None"
  by (simp_all add: sample_publication_def)

lemma sample_publication_session:
  "ws_disk (pb_session (sample_publication bs)) = mem_backing" "ws_read (pb_session (sample_publication bs)) = mem_read"
  "ws_budget (pb_session (sample_publication bs)) = None" "mem_bytes (ws_file (pb_session (sample_publication bs))) = bs"
  "ws_tables (pb_session (sample_publication bs)) = sample_tables" "ws_collation (pb_session (sample_publication bs)) = Russian"
  by (simp_all add: sample_publication_def sample_session_def)

abbreviation sample_created :: mem_file where
  "sample_created \<equiv> \<lparr>mem_bytes = [], mem_position = 0\<rparr>"

lemma sample_fits:
  assumes "sample_base p root content obs key"
  shows "header_valid (mem_bytes (ws_file (pb_session (sample_publication (mem_bytes (pg_file p))))))"
    "opened_on mem_bytes (mem_bytes (ws_file (pb_session (sample_publication (mem_bytes (pg_file p)))))) p" "pager_ok mem_backing mem_bytes p"
    "replaceable mem_bytes p (ws_tables (pb_session (sample_publication (mem_bytes (pg_file p)))))
      (ws_collation (pb_session (sample_publication (mem_bytes (pg_file p))))) sample_table [sample_row]"
    "tb_name sample_table \<in> set CONFIG_TABLES"
  using assms by (simp_all add: sample_base_def sample_publication_session sample_table_def CONFIG_TABLES_def)

section \<open>Properties\<close>

text \<open>C38: The check of an index passes exactly when the index says the entries of the rows: the number of each
  live record with the key of its row, in the order of the keys.  It says so on a file that does not fail, under
  no budget, for a table of the catalogue that has the known layout (\<open>config_table\<close>) and whose live records hold
  rows.  Free records may lie anywhere, values may be empty, and the index object may hold any bytes: entry words
  of any widths, branches of any shape, or no tree at all, which the check refuses.\<close>

theorem index_check_is_exact:
  fixes p :: "('f, 'e) pager"
  assumes "sound_file disk contents position" and "pager_ok disk contents p" and "pg_budget p = None"
    and "config_table tabs table_name = Ok t" and "table_holds contents p t obs records blob index" and "records_hold records blob nrs"
  shows "(\<exists>n p'. verify_index tabs table_name coll p = (Ok n, p'))
    \<longleftrightarrow> (\<exists>entries. list_all2 (\<lambda>(m, row) (n, key). n = m \<and> config_key coll (cr_file_name row) (cr_part_no row) = Ok key) nrs entries
          \<and> index_says (pg_page_size p) index (sort_key snd entries))"
  unfolding entries_of_def [symmetric]
  using sound_file.verify_index_says [OF assms(1) _ assms(2-6), of coll] sound_file.verify_index_works [OF assms(1-6), of coll]
  by blast

text \<open>The index that a reindex leaves passes, in a table whose live record stands behind a free one; the index
  without entries that was there before does not.\<close>

theorem index_check_is_exact_witness:
  "\<exists>(p :: (mem_file, unit) pager) p' n q. reindex sample_table Russian p = (Ok (), p')
     \<and> verify_index sample_tables (ascii ''CONFIG'') Russian p' = (Ok n, q)
     \<and> \<not> (\<exists>n q. verify_index sample_tables (ascii ''CONFIG'') Russian p = (Ok n, q))"
proof -
  obtain key ro bo io records blob and p :: "(mem_file, unit) pager" where
    held: "table_holds mem_bytes p sample_table (ro, bo, io) records blob two_page_index"
    and rows: "records_hold records blob [(2, sample_row)]"
    and key: "config_key Russian (cr_file_name sample_row) (cr_part_no sample_row) = Ok key"
    and p: "pager_ok mem_backing mem_bytes p" "pg_budget p = None" "pg_page_size p = 4096" "length (pg_header p) = 4096"
      "pg_page_count p \<le> 1000"
    by (rule sample_behind_free)
  obtain p' where run: "reindex sample_table Russian p = (Ok (), p')" and q: "pager_ok mem_backing mem_bytes p'" "pg_budget p' = None"
    using reindex_sample_works [OF held rows key p] by blast
  obtain es obs' index' where r: "entries_of Russian [(2, sample_row)] es" "table_holds mem_bytes p' sample_table obs' records blob index'"
      "index_holds 4096 index' (sort_key snd es)"
    using mem.reindex_indexes(1) [OF run p(1) _ held rows] p(3-5) by auto
  have ps: "pg_page_size p' = 4096" using mem.reindex_indexes(3) [OF run p(1) _ held rows] p(3-5) by simp
  have "index_says (pg_page_size p') index' (sort_key snd es)" unfolding ps by (rule index_holds_says [OF r(3)]) simp_all
  then have "\<exists>n q. verify_index sample_tables (ascii ''CONFIG'') Russian p' = (Ok n, q)"
    using index_check_is_exact [OF mem.sound_file_axioms q sample_tables_ok(3) r(2) rows, of Russian] r(1)
    unfolding entries_of_def [symmetric] by blast
  moreover have "\<not> (\<exists>n q. verify_index sample_tables (ascii ''CONFIG'') Russian p = (Ok n, q))"
    using index_check_is_exact [OF mem.sound_file_axioms p(1,2) sample_tables_ok(3) held rows, of Russian]
    unfolding p(3) by (auto simp: list_all2_Cons1 dest: index_says_unique [OF two_page_says])
  ultimately show ?thesis using run by blast
qed

text \<open>C39: A catalogue is read: the locale, and under its name every table that a text of the root object
  describes - the fields with their kinds, the names of the indexes, the pages of the objects.  It says so on a
  file that does not fail, under no budget, for every root object in the format: the head from block 1 on, for
  each table a text from the block that the head names, in chains of any blocks, and no two tables of one name.
  The texts are those of the brace format, with white space and line breaks wherever it allows them, doubled
  quotes, index columns, and parts with tags of which the program takes no notice (\<open>value_text\<close>,
  \<open>table_described\<close>); the layout of the native files is one of them (\<open>native_layout\<close>).\<close>

theorem catalogue_is_read:
  fixes p :: "('f, 'e) pager"
  assumes "sound_file disk contents position" and "pager_ok disk contents p" and "pg_budget p = None"
    and "stored contents p root content" and "ob_header_page root = 2"
    and "catalogue_at content name ts" and "distinct (map tb_name ts)"
  shows "\<exists>p'. descr_read_tables p = (Ok (name, \<lambda>n. find (\<lambda>t. tb_name t = n) ts), p')"
proof -
  have "tables_added ts (\<lambda>_. None) = (\<lambda>n. find (\<lambda>t. tb_name t = n) ts)"
    using tables_added_distinct [OF assms(7)] by (simp add: fun_eq_iff)
  then show ?thesis using sound_file.catalogue_reads [OF assms(1,4,5,2,3,6)] by auto
qed

text \<open>The root object of the sample holds the platform's own text of the table (\<open>sample_text\<close>).\<close>

theorem catalogue_is_read_witness:
  "\<exists>(p :: (mem_file, unit) pager) p'. descr_read_tables p = (Ok (russian_locale, sample_tables), p')
     \<and> tb_index_names sample_table = [ascii ''BYNAMENO_CONFIG'']"
proof -
  obtain p root content obs key where s: "sample_base p root content obs key" using sample_base_exists by blast
  have ok: "pager_ok mem_backing mem_bytes p" "pg_budget p = None" and root: "stored mem_bytes p root content" "ob_header_page root = 2"
    and cat: "catalogue_at content russian_locale [sample_table]" using s by (simp_all add: sample_base_def)
  have "(\<lambda>n. find (\<lambda>t. tb_name t = n) [sample_table]) = sample_tables"
    by (simp add: fun_eq_iff sample_tables_def sample_table_def)
  then show ?thesis
    using catalogue_is_read [OF mem.sound_file_axioms ok root cat] by (auto simp: sample_table_def)
qed

text \<open>C40: The ownership check finds the target on pages of its own: the pages that it calls foreign hold the
  free list, the root and the objects of every other table, and none of them belongs to the target.\<close>

theorem foreign_pages_are_apart:
  fixes p :: "('f, 'e) pager"
  assumes "backing_file disk contents position" and "examine tabs target p = (Ok (before, count, others), p')"
    and "pager_ok disk contents p" and "catalogue_ok tabs" and "tabs (tb_name target) = Some target" and "check_layout target = Ok ()"
  shows "before = pg_page_count p \<and> 1 \<in> others \<and> (\<exists>obs. (\<exists>r b i. table_holds contents p target obs r b i) \<and> all_pages obs \<inter> others = {})
    \<and> (\<forall>h \<in> other_heads tabs target. \<exists>ob c. stored contents p ob c \<and> ob_header_page ob = h \<and> set (owned_pages ob) \<subseteq> others)"
  by (rule backing_file.examine_Ok [OF assms(1,2,3,4,5,6)], unfold set_apart_def) blast

theorem foreign_pages_are_apart_witness:
  "\<exists>(p :: (mem_file, unit) pager) count others p'. examine sample_tables sample_table p = (Ok (pg_page_count p, count, others), p') \<and> 1 \<in> others"
proof -
  obtain p root content obs key where s: "sample_base p root content obs key" using sample_base_exists by blast
  have ok: "pager_ok mem_backing mem_bytes p" "pg_budget p = None" and sh: "table_shows mem_bytes p sample_table obs [sample_row] [(1, key)]"
    using s by (simp_all add: sample_base_def)
  obtain r b i where held: "table_holds mem_bytes p sample_table obs r b i" and live: "records_hold r b (from_one [sample_row])"
    using shows_lists [OF sh ok(1)] unfolding table_lists_def by blast
  obtain root' obss where base: "infobase_holds mem_bytes p russian_locale [sample_table] root' obss"
    using s by (auto simp: sample_base_def)
  obtain c where "stored mem_bytes p root' c" "ob_header_page root' = 2"
    and objs: "list_all2 (\<lambda>t. objects_at mem_bytes p (table_heads t)) (table_values sample_tables) obss"
    and far: "distinct (1 # owned_pages root' @ concat (map pages_of obss))"
    using base unfolding infobase_holds_def sample_added by blast
  then obtain count others p' where run: "examine sample_tables sample_table p = (Ok (pg_page_count p, count, others), p')"
    using mem.examine_works [OF ok _ _ objs far sample_layout held live] by blast
  show ?thesis
    using foreign_pages_are_apart [OF mem.backing_file_axioms run ok(1) sample_tables_ok(1,2) sample_layout] run by blast
qed

text \<open>C3: A replacement goes through.  What it needs is all here.  The files do not fail and the session has no
  budget; the header page of the locked file is valid, and the session's catalogue is the one of the file.  The
  infobase is intact (\<open>infobase_holds\<close>): its root object is a catalogue in the format, as the native files
  have it, and the root, page 1 and the objects of every table lie on pages of their own.  The target is a
  table of the CONFIG family with the known layout, live records that hold rows, free ones anywhere, and an
  index header with one key of the known length (\<open>table_stands\<close>); what its index pages say does not
  matter.  The rows are storable, no name and part comes twice, and the page numbers left take the new contents
  (\<open>room_for\<close>).  The directory holds the locked file under its name and no work file of an earlier run, and
  neither the operating system nor the caller refuses a call (\<open>obliging\<close>).  Then the rows are written, checked
  and published: the name holds the checked copy, the backup is the old database, and the copy shows the new rows
  and every object of the other tables as it was.\<close>

theorem replacement_goes_through:
  fixes st :: "('f, 'e, 'o) publication" and p0 :: "('f, 'e) pager"
  assumes "sound_copying disk contents position read"
    and "ws_disk (pb_session st) = disk" "ws_read (pb_session st) = read" "ws_budget (pb_session st) = None"
    and "contents created = []" "position created = 0" and "header_valid (contents (ws_file (pb_session st)))"
    and "opened_on contents (contents (ws_file (pb_session st))) p0" and "pager_ok disk contents p0"
    and "replaceable contents p0 (ws_tables (pb_session st)) (ws_collation (pb_session st)) target rows"
    and "tb_name target \<in> set CONFIG_TABLES" and "obliging sys"
    and "pb_dir st n = Some Locked_File" "pb_dir st (work_name n) = None" "pb_dir st (backup_work_name n) = None"
  shows "\<exists>report st'. replace_guarded sys created n (tb_name target) rows st = Some (Ok report, st')
    \<and> pb_dir st' n = Some Work_Copy \<and> pb_dir st' (backup_name n) = Some Locked_File
    \<and> contents (ws_file (pb_session st')) = contents (ws_file (pb_session st))
    \<and> copy_good contents (ws_tables (pb_session st)) target rows (ws_collation (pb_session st))
        (contents (ws_file (pb_session st))) (contents (ws_copy (pb_session st')))"
  by (rule sound_copying.replacement_works [OF assms])

theorem replacement_goes_through_witness:
  "\<exists>bs report st'. replace_guarded sample_system sample_created (ascii ''1Cv8.1CD'') (tb_name sample_table) [sample_row] (sample_publication bs)
     = Some (Ok report, st') \<and> copy_good (mem_bytes :: mem_file \<Rightarrow> bytes) sample_tables sample_table [sample_row] Russian bs (mem_bytes (ws_copy (pb_session st')))"
proof -
  obtain p root content obs key where s: "sample_base p root content obs key" using sample_base_exists by blast
  let ?st = "sample_publication (mem_bytes (pg_file p))"
  obtain report st' where "replace_guarded sample_system sample_created (ascii ''1Cv8.1CD'') (tb_name sample_table) [sample_row] ?st
      = Some (Ok report, st')"
    "copy_good (mem_bytes :: mem_file \<Rightarrow> bytes) sample_tables sample_table [sample_row] Russian (mem_bytes (pg_file p)) (mem_bytes (ws_copy (pb_session st')))"
    using replacement_goes_through [OF mem.sound_copying_axioms sample_publication_session(1-3) _ _ sample_fits [OF s] sample_obliging sample_dir,
        of sample_created]
    by (auto simp: sample_publication_session)
  then show ?thesis by (intro exI conjI)
qed

text \<open>C4: A replacement is recoverable at every moment, whatever fails and whatever the directory refuses: it
  ends, the locked file keeps its content, and every state of the directory that it went through has the old
  database under its name, or the checked copy under its name with the old database beside it.\<close>

theorem replacement_is_recoverable:
  fixes st :: "('f, 'e, 'o) publication"
  assumes "copying_file disk contents position read"
    and "ws_disk (pb_session st) = disk" "ws_read (pb_session st) = read"
    and "contents created = []" "position created = 0" and "pb_dir st n = Some Locked_File"
    and "catalogue_ok (ws_tables (pb_session st))" and "\<forall>row \<in> set rows. row_ok row"
    and "read_u32 12 (take 24 (contents (ws_file (pb_session st)))) + 2 * length rows + 2 \<le> u32_max"
  shows "\<exists>r st' ds. replace_guarded sys created n table_name rows st = Some (r, st')
    \<and> contents (ws_file (pb_session st')) = contents (ws_file (pb_session st)) \<and> pb_seen st' = pb_seen st @ ds
    \<and> (\<forall>d \<in> set ds. recoverable contents st' n (pb_dir st (backup_name n)) d
        \<and> (d n = Some Work_Copy \<longrightarrow> (\<exists>target. config_table (ws_tables (pb_session st)) table_name = Ok target
             \<and> copy_good contents (ws_tables (pb_session st)) target rows (ws_collation (pb_session st))
                 (contents (ws_file (pb_session st))) (contents (ws_copy (pb_session st'))))))
    \<and> (\<forall>report. r = Ok report \<longrightarrow> published contents st' n (pb_dir st'))"
proof -
  let ?s = "pb_session st" and ?c = "contents (ws_file (pb_session st))"
  let ?Q = "\<lambda>b. \<exists>target. config_table (ws_tables ?s) table_name = Ok target
    \<and> copy_good contents (ws_tables ?s) target rows (ws_collation ?s) ?c b"
  have "?Q (contents (ws_copy s'))"
    if t: "config_table (ws_tables ?s) table_name = Ok target"
      and w: "write_copy kept target rows backup (?s\<lparr>ws_copy := created\<rparr>) = Some (Ok report, s')" for target kept backup report s'
    using copying_file.write_copy_good [OF assms(1), of "?s\<lparr>ws_copy := created\<rparr>" kept target rows backup] w t assms(2-9)
      config_table_known [OF assms(7) t] by auto
  then show ?thesis
    using copying_file.replace_guarded_outcome [OF assms(1-6), of table_name rows ?Q sys] 
    unfolding copying_file.outcome_def [OF assms(1)] backing_file.keeps_original_def [OF copying_file.axioms(1) [OF assms(1)]] by fastforce
qed

theorem replacement_is_recoverable_witness:
  "\<exists>bs r st'. replace_guarded sample_system sample_created (ascii ''1Cv8.1CD'') (tb_name sample_table) [sample_row] (sample_publication bs)
     = Some (Ok r, st') \<and> published mem_bytes st' (ascii ''1Cv8.1CD'') (pb_dir st')"
proof -
  obtain p root content obs key where s: "sample_base p root content obs key" using sample_base_exists by blast
  let ?st = "sample_publication (mem_bytes (pg_file p))"
  obtain report st' where run: "replace_guarded sample_system sample_created (ascii ''1Cv8.1CD'') (tb_name sample_table) [sample_row] ?st
     = Some (Ok report, st')"
    using mem.replacement_works [OF sample_publication_session(1-3) _ _ sample_fits [OF s] sample_obliging sample_dir, of sample_created] by auto
  have "pg_page_count p \<le> 2000" "opened_on mem_bytes (mem_bytes (pg_file p)) p" using s by (simp_all add: sample_base_def)
  then have few: "read_u32 12 (take 24 (mem_bytes (ws_file (pb_session ?st)))) + 2 * length [sample_row] + 2 \<le> u32_max"
    by (simp add: sample_publication_session opened_on_def)
  have rows: "\<forall>row \<in> set [sample_row]. row_ok row" and cat: "catalogue_ok (ws_tables (pb_session ?st))"
    using sample_row_ok sample_tables_ok(1) by (simp_all add: sample_publication_session)
  show ?thesis
    using replacement_is_recoverable [OF mem.copying_file_axioms sample_publication_session(1,2) _ _ sample_dir(1) cat rows few,
        of sample_created sample_system "tb_name sample_table"] run by auto
qed

end
