(* ===== verification/Spec2Isabelle.thy ===== *)
theory Spec2Isabelle
  imports Resource_Limits V8_Container_Safety V8_Detect_Laws V8_Block_Laws Text_Value Text_Xml Text_Field_Laws Filedb_Blob_Laws Filedb_Record Filedb_Object_Open Filedb_Table_Props Filedb_Replace_Props
begin

text \<open>
  Verification of the container and storage layers of ibcmd-rs, a converter between 1C configurations in
  XML and their stored forms: CF containers, file infobases (1Cv8.1CD) and database rows.

  \<^bold>\<open>The parts and how they interact.\<close>  Every reader and writer of the program rests on three layers that
  carry state and invariants of their own; the layers above them are format rules of single metadata
  families.

    \<^item> \<open>crates/ibcmd-v8\<close>: containers of elements stored in chained pages, in the 32-bit layout (Format15)
      and the 64-bit layout (Format16), the latter behind a Format15 preamble.  Readers claim byte ranges so
      that no page is used twice; writers plan a layout and stream it to a sink.  The traversal limits of
      \<open>crates/ibcmd-core/src/limits.rs\<close> bound what the callers of the readers admit.
    \<^item> \<open>crates/ibcmd-1c-text\<close>: the braced text that elements and rows hold (\<open>{a,"b",{c}}\<close>), its strings and
      scalars, the jump tables that make repeated splitting linear, and the XML escaping on the way out.
    \<^item> \<open>crates/ibcmd-filedb\<close>: the file infobase.  A pager reads and writes pages; an object is a byte stream
      in pages; a table has three objects, for records, blobs and its index; the root object describes the
      tables in braces; the rows of the configuration tables are replaced as a whole in a copy of the file
      that is checked and published by renames.

  \<^bold>\<open>Which theory models what.\<close>  Definitions carry the names of the source.

    \<^item> \<open>V8_Prelude\<close>: bytes as \<open>8 word\<close>, slices, chunks, results as sums with \<open>try_res\<close> for \<open>?\<close>, and the
      collections of simplification rules that the component proofs use.  \<open>V8_Codec\<close>: little-endian words,
      hexadecimal formats and UTF-16 as the Rust standard library has them.
    \<^item> \<open>V8_Chain\<close> and \<open>V8_Block\<close>: \<open>block.rs\<close>; the state of \<open>BlockReader\<close> is the list of claimed ranges.  The
      locale of \<open>V8_Chain\<close> is the contract of a chained-page reader, interpreted at both widths in
      \<open>V8_Block\<close>; \<open>V8_Header_Text\<close> and \<open>V8_Image\<close> extend it by the text of a page header.
    \<^item> \<open>V8_Format15\<close>, \<open>V8_Format16\<close>, \<open>V8_Detect\<close>: \<open>format15.rs\<close>, \<open>format16.rs\<close> and
      \<open>format.rs\<close>.  \<open>V8_Sink\<close>, \<open>V8_Writer15\<close>, \<open>V8_Writer16\<close>: \<open>writer.rs\<close> over any sink that honours
      \<open>write_all\<close> and any source of bytes.
    \<^item> \<open>Resource_Limits\<close>: \<open>limits.rs\<close>, the limits and the cumulative budget; a method gives its result and the
      budget that it leaves, on an error too, and the accounting of any sequence of calls is proved there.
    \<^item> \<open>Text_Braced\<close>, \<open>Text_Jumps\<close>, \<open>Text_Brace_List\<close>: \<open>braced.rs\<close> and \<open>brace_list.rs\<close>; the thread-local
      registry of jump tables is an argument.  \<open>Text_Strings\<close>, \<open>Text_Fields\<close>, \<open>Text_Xml\<close>: \<open>strings.rs\<close>,
      \<open>fields.rs\<close>, \<open>xml.rs\<close> and \<open>paths.rs\<close>.
    \<^item> \<open>Filedb_Error\<close>, \<open>Filedb_State\<close>, \<open>Filedb_Blob\<close>, \<open>Filedb_Record\<close>, \<open>Filedb_Pager\<close>, \<open>Filedb_Object\<close>,
      \<open>Filedb_Index_Key\<close>, \<open>Filedb_Index\<close>, \<open>Filedb_Descr\<close>, \<open>Filedb_Config\<close>: the modules of the same names;
      \<open>Filedb_State\<close> also holds \<open>read_limits.rs\<close>.  An operation is an action: a function from the state of the
      pager to a result and the state it leaves, also on an error.  The file behind a pager is a record of
      operations that may fail; the locales \<open>backing_file\<close> and \<open>sound_file\<close> say what their success means and
      are interpreted on a file in memory.
    \<^item> \<open>Filedb_Session\<close>: \<open>lib.rs\<close>, the session that reads (\<open>file_db\<close>) and the one that writes
      (\<open>write_session\<close>, with its second file \<open>copy_session\<close>): the preflight of the indexes, the copy, the
      ownership of pages, and the checks of the written copy through two pagers.  \<open>Filedb_Publish\<close>: the
      publication of \<open>lib.rs\<close> over \<open>write_paths.rs\<close>; the held directory is a map from names to files, the
      answers of the operating system come from the record \<open>system\<close>, and \<open>pb_seen\<close> records every state in
      which a crash can leave the directory.
  \<^bold>\<open>What the lemmas show.\<close>

    \<^item> \<open>V8_Block_Laws\<close>, \<open>V8_Container_Laws\<close>, \<open>V8_Container_Safety\<close>: the chain readers accept exactly the
      well-formed unclaimed chains, and no two pages of a parsed container share a byte.  \<open>V8_Plan15\<close>,
      \<open>V8_Emit15\<close>, \<open>V8_Roundtrip15\<close>, \<open>V8_Writer15_Laws\<close> and their Format16 counterparts: a plan exists exactly
      for valid documents that fit, the writer emits the image of its plan on every sink, and the readers
      give the document back.  \<open>V8_Detect_Laws\<close>: detection agrees with the readers.
    \<^item> \<open>Text_Jump_Walk\<close>, \<open>Text_Jump_Laws\<close>: splitting through the tables equals the plain
      walk.  \<open>Text_Value\<close>, \<open>Text_String_Laws\<close>, \<open>Text_Field_Laws\<close>: printed values are read back.
    \<^item> \<open>Filedb_Blob_Laws\<close>: blobs are read back, and reading any bytes ends.  \<open>Filedb_Pager_Laws\<close>,
      \<open>Filedb_Object_Laws\<close>, \<open>Filedb_Object_Read\<close>, \<open>Filedb_Object_Safe\<close>, \<open>Filedb_Object_Open\<close>: an object is
      read back after a rewrite, which touches nothing else.  \<open>Filedb_Index_Leaf\<close>,
      \<open>Filedb_Index_Walk\<close>, \<open>Filedb_Index_Levels\<close>, \<open>Filedb_Index_Tree\<close>: a rebuilt index is a sound tree with
      every entry in key order.
    \<^item> \<open>Filedb_Config_Laws\<close>, \<open>Filedb_Config_Replace\<close>, \<open>Filedb_Table\<close>, \<open>Filedb_Table_Rows\<close>,
      \<open>Filedb_Table_Keys\<close>, \<open>Filedb_Table_Works\<close>, \<open>Filedb_Table_Props\<close>: a replace leaves a table in the form
      \<open>table_shows\<close>, the rows in the records from 1 on and the index in the pages that the program lays out.
      \<open>Filedb_Any_Index\<close> and \<open>Filedb_Any_Table\<close> state the format without the layout of this writer - index
      entries of any widths, branches of any shape, blob chains through any blocks, free records anywhere - as
      \<open>index_says\<close>, \<open>records_hold\<close> and \<open>table_lists\<close>; \<open>shows_lists\<close> gives one from the other.  The readers, the
      reindexing and the check of an index are proved over that general form.
      \<open>Filedb_Quiet\<close>: reading changes nothing, whatever fails.  \<open>Filedb_Table_Sample\<close>: a table in memory at
      which the properties are applied.
    \<^item> \<open>Filedb_Row_Type\<close>: the type of every row that is read.  \<open>Filedb_Session_Quiet\<close>, \<open>Filedb_Claims\<close>: the
      checks change no byte, and an accepted ownership check means that the table's pages are its own.
      \<open>Filedb_Copy\<close>, \<open>Filedb_Copy_Write\<close>: copying ends with the original's content (locale \<open>copying_file\<close>,
      the contract of \<open>read\<close>), a checked copy shows the new rows and keeps every other object, and the
      original is never touched.  \<open>Filedb_Publish_Laws\<close>: whatever is refused and wherever it stops, the
      directory holds the old database or the checked new one with the old one beside it.
      \<open>Filedb_Descr_Laws\<close>: the brace format as a grammar (\<open>value_text\<close>, with white space, line breaks and doubled
      quotes), the descriptions of tables in it (\<open>table_described\<close>, with index columns and parts of other tags) and
      root objects that hold them (\<open>catalogue_at\<close>); the parser reads every such text and catalogue.
      \<open>Filedb_Session_Works\<close>: on files that do not fail (locale \<open>sound_copying\<close>) every check of a written
      copy passes.  \<open>Filedb_Session_Props\<close>, \<open>Filedb_Replace_Props\<close>: the properties, with an infobase in memory at
      which a whole replacement runs.
  \<^bold>\<open>Numbers, bounds and fuel.\<close>  \<open>usize\<close> and \<open>u64\<close> values are natural numbers with the checked, saturating or
  wrapping operation of the source written out; 32-bit fields of a file are words.  Loops recurse on a
  measure of the bytes or pages that are left; two loops carry a guard that keeps the measure going where
  the source relies on the callee: \<open>items_loop\<close> takes the larger of an item's end and its start plus one
  (an item always ends later), and the block loop of a blob chain counts its steps as the source does.
  Nesting in a description is bounded by 33 parser levels, the depth that the source refuses beyond 32.

  \<^bold>\<open>Not modelled.\<close>  The wording of messages; file locks, Windows security descriptors and file metadata
  (calls of the operating system, answered by an environment where they decide a branch); deflate and
  hashing (external crates); the layers above the three modelled ones - the exporter, the compilers, forms,
  spreadsheets, the EDT adapter, database clients and command lines - which are rules of single metadata
  families or orchestration, listed component by component in the manifest.
\<close>

end
